(* ===== verification/NM_Prelude.thy ===== *)
theory NM_Prelude
  imports Main "HOL-Library.Word" "HOL-Library.Multiset"
begin

unbundle bit_operations_syntax

text \<open>
  Shared vocabulary of the development: the machine-integer views of Rust's primitive types
  (a release build's wrap-around written out on \<^typ>\<open>int\<close>), the pieces of the Rust standard
  library the sources call (\<open>next_power_of_two\<close>, \<open>checked_mul\<close>, \<open>binary_search\<close>,
  \<open>partition_point\<close>), and the interfaces several components implement: a join semilattice, a
  join whose changes are bounded by a rank, and an interning table.
\<close>

named_theorems op_defs \<open>definitions unfolded by case analysis on operators\<close>
named_theorems iv_exact \<open>interval operations on in-range operands, without wrap-around\<close>

type_synonym u16 = "16 word"
type_synonym u32 = "32 word"

section \<open>Machine integers\<close>

text \<open>The value range of \<open>i64\<close> and a release build's wrap-around on it.\<close>

definition in_i64 :: "int \<Rightarrow> bool" where
  "in_i64 x \<longleftrightarrow> - (2 ^ 63) \<le> x \<and> x < 2 ^ 63"

definition wrap64 :: "int \<Rightarrow> int" where
  "wrap64 x = (x + 2 ^ 63) mod 2 ^ 64 - 2 ^ 63"

definition wrap32 :: "int \<Rightarrow> int" where
  "wrap32 x = (x + 2 ^ 31) mod 2 ^ 32 - 2 ^ 31"

definition i64_add :: "int \<Rightarrow> int \<Rightarrow> int" where
  "i64_add a b = wrap64 (a + b)"

definition i64_sub :: "int \<Rightarrow> int \<Rightarrow> int" where
  "i64_sub a b = wrap64 (a - b)"

definition i64_neg :: "int \<Rightarrow> int" where
  "i64_neg a = wrap64 (- a)"

definition i64_shl :: "int \<Rightarrow> nat \<Rightarrow> int" where
  "i64_shl a k = wrap64 (a * 2 ^ k)"

text \<open>The arithmetic right shift of a signed value rounds towards minus infinity.\<close>

definition i64_shr :: "int \<Rightarrow> nat \<Rightarrow> int" where
  "i64_shr a k = a div 2 ^ k"

definition checked_mul :: "int \<Rightarrow> int \<Rightarrow> int option" where
  "checked_mul a b = (if in_i64 (a * b) then Some (a * b) else None)"

text \<open>\<open>u64::next_power_of_two\<close>: the least power of two at or above the argument.\<close>

function next_pow2_from :: "int \<Rightarrow> int \<Rightarrow> int" where
  "next_pow2_from p n = (if 0 < p \<and> p < n then next_pow2_from (2 * p) n else p)"
  by pat_completeness auto
termination
  by (relation "measure (\<lambda>(p, n). nat (n - p))") auto

declare next_pow2_from.simps [simp del]

definition next_power_of_two :: "int \<Rightarrow> int" where
  "next_power_of_two n = next_pow2_from 1 n"

section \<open>Slices\<close>

text \<open>
  \<open>slice::partition_point\<close> on a slice partitioned by the predicate, and
  \<open>slice::binary_search\<close> on a sorted slice without repetitions: \<open>Inr i\<close> is \<open>Ok(i)\<close>,
  \<open>Inl i\<close> is \<open>Err(i)\<close>, the position where the key would be inserted.
\<close>

definition partition_point :: "('a \<Rightarrow> bool) \<Rightarrow> 'a list \<Rightarrow> nat" where
  "partition_point p xs = length (takeWhile p xs)"

definition binary_search :: "'a::linorder \<Rightarrow> 'a list \<Rightarrow> nat + nat" where
  "binary_search x xs =
     (let i = partition_point (\<lambda>y. y < x) xs
      in if i < length xs \<and> xs ! i = x then Inr i else Inl i)"

definition vec_insert :: "nat \<Rightarrow> 'a \<Rightarrow> 'a list \<Rightarrow> 'a list" where
  "vec_insert i x xs = take i xs @ x # drop i xs"

abbreviation strict_asc :: "'a::linorder list \<Rightarrow> bool" where
  "strict_asc \<equiv> sorted_wrt (<)"

section \<open>Lemmas on machine integers\<close>

lemma wrap64_id [simp]: "in_i64 x \<Longrightarrow> wrap64 x = x"
  by (simp add: wrap64_def in_i64_def)

lemma wrap64_range: "in_i64 (wrap64 x)"
proof -
  have "0 \<le> (x + 2 ^ 63) mod 2 ^ 64" "(x + 2 ^ 63) mod 2 ^ 64 < (2 ^ 64 :: int)"
    by (rule pos_mod_sign, simp, rule pos_mod_bound, simp)
  then show ?thesis by (simp add: wrap64_def in_i64_def)
qed

lemma wrap32_id [simp]: "- (2 ^ 31) \<le> x \<Longrightarrow> x < 2 ^ 31 \<Longrightarrow> wrap32 x = x"
  by (simp add: wrap32_def)

lemma wrap32_lower: "- (2 ^ 31) \<le> wrap32 x"
proof -
  have "0 \<le> (x + 2 ^ 31) mod (2 ^ 32 :: int)" by (rule pos_mod_sign) simp
  then show ?thesis by (simp add: wrap32_def)
qed

lemma wrap32_upper: "wrap32 x \<le> 2 ^ 31 - 1"
proof -
  have "(x + 2 ^ 31) mod (2 ^ 32 :: int) < 2 ^ 32" by (rule pos_mod_bound) simp
  then show ?thesis by (simp add: wrap32_def)
qed

lemmas wrap32_bounds = wrap32_lower wrap32_upper

lemma next_pow2_from_pow: "0 < p \<Longrightarrow> \<exists>k. next_pow2_from p n = p * 2 ^ k"
proof (induction p n rule: next_pow2_from.induct)
  case (1 p n)
  show ?case
  proof (cases "p < n")
    case True
    with 1 obtain k where "next_pow2_from (2 * p) n = 2 * p * 2 ^ k" by auto
    with True 1(2) have "next_pow2_from p n = p * 2 ^ Suc k"
      by (simp add: next_pow2_from.simps [of p n])
    then show ?thesis by blast
  next
    case False
    then have "next_pow2_from p n = p * 2 ^ 0" by (simp add: next_pow2_from.simps [of p n])
    then show ?thesis by blast
  qed
qed

lemma next_pow2_from_ge: "0 < p \<Longrightarrow> n \<le> next_pow2_from p n"
proof (induction p n rule: next_pow2_from.induct)
  case (1 p n)
  then show ?case by (cases "p < n") (simp_all add: next_pow2_from.simps [of p n])
qed

lemma next_pow2_from_least:
  "0 < p \<Longrightarrow> n \<le> p * 2 ^ j \<Longrightarrow> next_pow2_from p n \<le> p * 2 ^ j"
proof (induction p n arbitrary: j rule: next_pow2_from.induct)
  case (1 p n)
  show ?case
  proof (cases "p < n")
    case True
    with 1(3) have "j \<noteq> 0" by (cases j) auto
    then obtain i where j: "j = Suc i" by (cases j) auto
    with 1 True have "next_pow2_from (2 * p) n \<le> 2 * p * 2 ^ i" by simp
    with True 1(2) j show ?thesis by (simp add: next_pow2_from.simps [of p n])
  next
    case False
    have "p * 1 \<le> p * 2 ^ j" by (rule mult_left_mono) (use 1(2) in auto)
    with False 1(2) show ?thesis by (simp add: next_pow2_from.simps [of p n])
  qed
qed

lemma next_power_of_two_pow: "\<exists>k. next_power_of_two n = 2 ^ k"
  using next_pow2_from_pow [of 1 n] by (auto simp: next_power_of_two_def)

lemma next_power_of_two_ge: "n \<le> next_power_of_two n"
  by (simp add: next_power_of_two_def next_pow2_from_ge)

lemma next_power_of_two_least: "n \<le> 2 ^ j \<Longrightarrow> next_power_of_two n \<le> 2 ^ j"
  using next_pow2_from_least [of 1 n j] by (simp add: next_power_of_two_def)

lemma next_power_of_two_of_pow: "next_power_of_two (2 ^ k) = 2 ^ k"
  by (rule antisym) (auto intro: next_power_of_two_least next_power_of_two_ge)

lemma next_power_of_two_pos: "0 < next_power_of_two n"
  using next_power_of_two_pow [of n] by auto

lemma next_power_of_two_mono: "m \<le> n \<Longrightarrow> next_power_of_two m \<le> next_power_of_two n"
  using next_power_of_two_pow [of n] next_power_of_two_ge [of n]
  by (metis next_power_of_two_least order_trans)

section \<open>Lemmas on slices\<close>

lemma partition_point_le: "partition_point p xs \<le> length xs"
  by (simp add: partition_point_def length_takeWhile_le)

lemma binary_search_Inr: "binary_search x xs = Inr i \<Longrightarrow> i < length xs \<and> xs ! i = x"
  by (simp add: binary_search_def Let_def split: if_splits)

lemma binary_search_Inl_le: "binary_search x xs = Inl i \<Longrightarrow> i \<le> length xs"
  by (auto simp: binary_search_def Let_def partition_point_le split: if_splits)

text \<open>On a strictly ascending slice the search succeeds exactly on the members.\<close>

lemma binary_search_mem:
  assumes "strict_asc xs"
  shows "(\<exists>i. binary_search x xs = Inr i) \<longleftrightarrow> x \<in> set xs"
proof
  assume "\<exists>i. binary_search x xs = Inr i"
  then show "x \<in> set xs" by (auto dest: binary_search_Inr)
next
  assume "x \<in> set xs"
  then obtain ys zs where xs: "xs = ys @ x # zs" by (auto dest: split_list)
  with assms have "takeWhile (\<lambda>y. y < x) xs = ys" by (auto simp: sorted_wrt_append)
  with xs show "\<exists>i. binary_search x xs = Inr i"
    by (simp add: binary_search_def partition_point_def)
qed

lemma takeWhile_less_insort:
  "strict_asc xs \<Longrightarrow> x \<notin> set xs \<Longrightarrow>
   strict_asc (takeWhile (\<lambda>y. y < x) xs @ x # dropWhile (\<lambda>y. y < x) xs)"
proof (induction xs)
  case Nil
  then show ?case by simp
next
  case (Cons a xs)
  then have "\<forall>y\<in>set xs. a < y" "x \<noteq> a" by auto
  moreover have "\<forall>y\<in>set (takeWhile (\<lambda>y. y < x) xs) \<union> set (dropWhile (\<lambda>y. y < x) xs). y \<in> set xs"
    by (auto dest: set_takeWhileD set_dropWhileD)
  ultimately show ?case using Cons by (auto simp: neq_iff)
qed

lemma vec_insert_search:
  assumes "strict_asc xs" "binary_search x xs = Inl i"
  shows "strict_asc (vec_insert i x xs)" "set (vec_insert i x xs) = insert x (set xs)"
    "length (vec_insert i x xs) = Suc (length xs)"
proof -
  have i: "i = length (takeWhile (\<lambda>y. y < x) xs)"
    using assms(2) by (auto simp: binary_search_def Let_def partition_point_def split: if_splits)
  have "x \<notin> set xs" using binary_search_mem [OF assms(1), of x] assms(2) by auto
  moreover have ins: "vec_insert i x xs = takeWhile (\<lambda>y. y < x) xs @ x # dropWhile (\<lambda>y. y < x) xs"
    by (simp add: vec_insert_def i flip: takeWhile_eq_take dropWhile_eq_drop)
  ultimately show "strict_asc (vec_insert i x xs)"
    using takeWhile_less_insort [OF assms(1)] by simp
  have "set (takeWhile (\<lambda>y. y < x) xs) \<union> set (dropWhile (\<lambda>y. y < x) xs) = set xs"
    by (metis set_append takeWhile_dropWhile_id)
  then show "set (vec_insert i x xs) = insert x (set xs)" by (auto simp: ins)
  show "length (vec_insert i x xs) = Suc (length xs)"
    using binary_search_Inl_le [OF assms(2)] by (simp add: vec_insert_def)
qed

section \<open>Interfaces\<close>

text \<open>A join semilattice: what makes a fixpoint independent of the order of its joins.\<close>

locale join_semilattice =
  fixes join :: "'a \<Rightarrow> 'a \<Rightarrow> 'a"
  assumes join_comm: "join a b = join b a"
    and join_assoc: "join (join a b) c = join a (join b c)"
    and join_idem: "join a a = a"
begin

lemma join_left_comm: "join a (join b c) = join b (join a c)"
  by (metis join_assoc join_comm)

lemma join_absorb: "join a (join a b) = join a b"
  by (simp add: join_idem flip: join_assoc)

lemma fold_join_perm:
  assumes "mset xs = mset ys"
  shows "fold join xs a = fold join ys a"
proof -
  have "fold join xs = fold join ys"
    by (rule fold_multiset_equiv) (use assms in \<open>auto simp: fun_eq_iff join_left_comm\<close>)
  then show ?thesis by simp
qed

lemma fold_join_start: "join x (fold join xs a) = fold join xs (join x a)"
  by (induction xs arbitrary: a) (simp_all add: join_left_comm)

text \<open>Every input is below the accumulated join.\<close>

lemma fold_join_upper: "x \<in> set xs \<Longrightarrow> join x (fold join xs a) = fold join xs a"
  by (induction xs arbitrary: a) (auto simp: fold_join_start join_absorb)

end

text \<open>
  A stateful join whose changes are bounded: an update that changes the state raises a rank, and
  the rank is bounded. \<open>n_changes\<close> counts the updates of a sequence that change the state.
\<close>

fun n_changes :: "('s \<Rightarrow> 'x \<Rightarrow> 's) \<Rightarrow> 's \<Rightarrow> 'x list \<Rightarrow> nat" where
  "n_changes upd s [] = 0"
| "n_changes upd s (x # xs) = (if upd s x \<noteq> s then 1 else 0) + n_changes upd (upd s x) xs"

locale ranked_join =
  fixes upd :: "'s \<Rightarrow> 'x \<Rightarrow> 's" and rank :: "'s \<Rightarrow> nat" and bound :: nat
    and ok :: "'s \<Rightarrow> bool" and okx :: "'x \<Rightarrow> bool"
  assumes ok_upd: "ok s \<Longrightarrow> okx x \<Longrightarrow> ok (upd s x)"
    and rank_grow: "ok s \<Longrightarrow> okx x \<Longrightarrow> upd s x \<noteq> s \<Longrightarrow> rank s < rank (upd s x)"
    and rank_bound: "ok s \<Longrightarrow> rank s \<le> bound"
begin

lemma changes_rank: "ok s \<Longrightarrow> \<forall>x\<in>set xs. okx x \<Longrightarrow> n_changes upd s xs + rank s \<le> bound"
proof (induction xs arbitrary: s)
  case Nil
  then show ?case by (simp add: rank_bound)
next
  case (Cons x xs)
  then have "n_changes upd (upd s x) xs + rank (upd s x) \<le> bound" by (simp add: ok_upd)
  moreover have "upd s x \<noteq> s \<Longrightarrow> rank s < rank (upd s x)" using Cons.prems by (simp add: rank_grow)
  ultimately show ?case by (cases "upd s x = s") auto
qed

lemma changes_bound: "ok s \<Longrightarrow> \<forall>x\<in>set xs. okx x \<Longrightarrow> n_changes upd s xs \<le> bound"
  using changes_rank by fastforce

end

text \<open>
  Updates whose order does not matter on the states and inputs admitted: every permutation of a
  sequence of updates reaches the same state.
\<close>

locale commuting_updates =
  fixes upd :: "'s \<Rightarrow> 'x \<Rightarrow> 's" and ok :: "'s \<Rightarrow> bool" and okx :: "'x \<Rightarrow> bool"
  assumes ok_upd: "ok s \<Longrightarrow> okx x \<Longrightarrow> ok (upd s x)"
    and upd_comm: "ok s \<Longrightarrow> okx x \<Longrightarrow> okx y \<Longrightarrow> upd (upd s x) y = upd (upd s y) x"
begin

lemma run_ok: "ok s \<Longrightarrow> \<forall>x\<in>set xs. okx x \<Longrightarrow> ok (foldl upd s xs)"
  by (induction xs arbitrary: s) (auto intro: ok_upd)

lemma run_front:
  "ok s \<Longrightarrow> \<forall>x\<in>set (ys @ [x]). okx x \<Longrightarrow> upd (foldl upd s ys) x = foldl upd (upd s x) ys"
  by (induction ys arbitrary: s) (auto simp: ok_upd upd_comm)

lemma run_perm:
  "ok s \<Longrightarrow> \<forall>x\<in>set xs. okx x \<Longrightarrow> mset xs = mset ys \<Longrightarrow> foldl upd s xs = foldl upd s ys"
proof (induction xs arbitrary: s ys)
  case Nil
  then show ?case by simp
next
  case (Cons x xs)
  then have "x \<in> set ys" by (metis list.set_intros(1) set_mset_mset)
  then obtain as bs where ys: "ys = as @ x # bs" by (auto dest: split_list)
  have okys: "\<forall>z\<in>set ys. okx z" using Cons.prems(2,3) by (metis set_mset_mset)
  have "foldl upd (upd s x) xs = foldl upd (upd s x) (as @ bs)"
    using Cons.prems ys by (intro Cons.IH) (auto intro: ok_upd)
  also have "\<dots> = foldl upd s ys" using okys Cons.prems(1) run_front [of s as x] by (simp add: ys)
  finally show ?case by simp
qed

end

text \<open>
  An interning table: a key is given an id on first sight and keeps it. The operation returns
  \<open>None\<close> where the code panics because the id space is exhausted.
\<close>

locale interner =
  fixes ok :: "'s \<Rightarrow> bool" and lookup :: "'s \<Rightarrow> 'k \<Rightarrow> nat option"
    and key_of :: "'s \<Rightarrow> nat \<Rightarrow> 'k option" and intern :: "'s \<Rightarrow> 'k \<Rightarrow> ('s \<times> nat) option"
  assumes lookup_key: "ok s \<Longrightarrow> lookup s k = Some i \<longleftrightarrow> key_of s i = Some k"
    and intern_hit: "ok s \<Longrightarrow> lookup s k = Some i \<Longrightarrow> intern s k = Some (s, i)"
    and intern_miss: "ok s \<Longrightarrow> lookup s k = None \<Longrightarrow> intern s k = Some (s', i) \<Longrightarrow>
        ok s' \<and> lookup s' = (lookup s)(k \<mapsto> i) \<and> key_of s i = None \<and> key_of s' = (key_of s)(i \<mapsto> k)"
begin

lemma intern_ok: "ok s \<Longrightarrow> intern s k = Some (s', i) \<Longrightarrow> ok s'"
  using intern_hit [of s k] intern_miss [of s k s' i] by (cases "lookup s k") auto

lemma intern_lookup: "ok s \<Longrightarrow> intern s k = Some (s', i) \<Longrightarrow> lookup s' k = Some i"
  using intern_hit [of s k] intern_miss [of s k s' i] by (cases "lookup s k") auto

lemma intern_roundtrip: "ok s \<Longrightarrow> intern s k = Some (s', i) \<Longrightarrow> key_of s' i = Some k"
  using intern_ok intern_lookup lookup_key by metis

lemma intern_stable:
  "ok s \<Longrightarrow> intern s k = Some (s', i) \<Longrightarrow> lookup s k' = Some j \<Longrightarrow> lookup s' k' = Some j"
  using intern_hit [of s k] intern_miss [of s k s' i] by (cases "lookup s k") auto

lemma intern_again: "ok s \<Longrightarrow> intern s k = Some (s', i) \<Longrightarrow> intern s' k = Some (s', i)"
  using intern_ok intern_lookup intern_hit by metis

lemma lookup_inj: "ok s \<Longrightarrow> lookup s k = Some i \<Longrightarrow> lookup s k' = Some i \<Longrightarrow> k = k'"
  using lookup_key by fastforce

end

end
