(* ===== verification/Opsem.thy ===== *)
theory Opsem
  imports NM_Prelude
begin

text \<open>
  The op-semantics vocabulary of \<^verbatim>\<open>compiler/src/opsem.rs\<close>, first half: the primitive-class sets
  \<open>Prims\<close>, the magnitude ladder \<open>Range\<close>, the typed-array kinds, and the result algebra of the
  numeric and string operators. A set of primitive classes is the 16-bit word of the source; the
  lemmas relate it to the set of bit positions it abstracts. A panic of \<open>expect("binary op")\<close> is
  the value \<open>None\<close> of \<open>result\<close>.
\<close>

section \<open>Sets of primitive classes\<close>

type_synonym prims = u16

definition PRIM_INT32 :: prims where "PRIM_INT32 = push_bit 0 1"
definition PRIM_DOUBLE :: prims where "PRIM_DOUBLE = push_bit 1 1"
definition PRIM_STRING :: prims where "PRIM_STRING = push_bit 2 1"
definition PRIM_UNDEFINED :: prims where "PRIM_UNDEFINED = push_bit 3 1"
definition PRIM_NULL :: prims where "PRIM_NULL = push_bit 4 1"
definition PRIM_BOOLEAN :: prims where "PRIM_BOOLEAN = push_bit 5 1"
definition PRIM_BIGINT :: prims where "PRIM_BIGINT = push_bit 6 1"
definition PRIM_SYMBOL :: prims where "PRIM_SYMBOL = push_bit 7 1"
definition ALL_PRIMS :: prims where "ALL_PRIMS = 0xff"
definition NUM :: prims where "NUM = PRIM_INT32 OR PRIM_DOUBLE"
definition PRIMS_EMPTY :: prims where "PRIMS_EMPTY = 0"

lemmas prim_consts = PRIM_INT32_def PRIM_DOUBLE_def PRIM_STRING_def PRIM_UNDEFINED_def
  PRIM_NULL_def PRIM_BOOLEAN_def PRIM_BIGINT_def PRIM_SYMBOL_def ALL_PRIMS_def NUM_def PRIMS_EMPTY_def

definition prims_from_bits :: "u16 \<Rightarrow> prims" where
  "prims_from_bits bits = bits AND ALL_PRIMS"

definition prims_or :: "prims \<Rightarrow> prims \<Rightarrow> prims" where
  "prims_or a b = a OR b"

definition prims_and :: "prims \<Rightarrow> prims \<Rightarrow> prims" where
  "prims_and a b = a AND b"

definition prims_sub :: "prims \<Rightarrow> prims \<Rightarrow> prims" where
  "prims_sub a b = a AND NOT b"

definition prims_is_empty :: "prims \<Rightarrow> bool" where
  "prims_is_empty a \<longleftrightarrow> a = 0"

definition intersects :: "prims \<Rightarrow> prims \<Rightarrow> bool" where
  "intersects a b \<longleftrightarrow> a AND b \<noteq> 0"

definition subset_of :: "prims \<Rightarrow> prims \<Rightarrow> bool" where
  "subset_of a b \<longleftrightarrow> a AND NOT b = 0"

definition is_only :: "prims \<Rightarrow> prims \<Rightarrow> bool" where
  "is_only a b \<longleftrightarrow> a = b"

definition is_nonempty_subset_of :: "prims \<Rightarrow> prims \<Rightarrow> bool" where
  "is_nonempty_subset_of a b \<longleftrightarrow> a \<noteq> 0 \<and> a AND NOT b = 0"

definition viz_names :: "(prims \<times> string) list" where
  "viz_names =
     [(PRIM_INT32, ''i32''), (PRIM_DOUBLE, ''dbl''), (PRIM_BOOLEAN, ''bool''),
      (PRIM_STRING, ''str''), (PRIM_UNDEFINED, ''undef''), (PRIM_NULL, ''null''),
      (PRIM_BIGINT, ''bigint''), (PRIM_SYMBOL, ''sym'')]"

definition viz_parts :: "prims \<Rightarrow> string list" where
  "viz_parts p = map snd (filter (\<lambda>(bit, _). intersects p bit) viz_names)"

section \<open>Magnitudes and typed-array kinds\<close>

datatype Range = I32 | I53 | Top

fun range_code :: "Range \<Rightarrow> nat" where
  "range_code I32 = 0"
| "range_code I53 = 1"
| "range_code Top = 2"

text \<open>The derived \<open>Ord\<close> of the enum: declaration order.\<close>

instantiation Range :: linorder
begin

definition less_eq_Range :: "Range \<Rightarrow> Range \<Rightarrow> bool" where
  "less_eq_Range a b \<longleftrightarrow> range_code a \<le> range_code b"

definition less_Range :: "Range \<Rightarrow> Range \<Rightarrow> bool" where
  "less_Range a b \<longleftrightarrow> range_code a < range_code b"

instance
proof
  fix x y z :: Range
  show "x < y \<longleftrightarrow> x \<le> y \<and> \<not> y \<le> x" by (auto simp: less_eq_Range_def less_Range_def)
  show "x \<le> x" by (simp add: less_eq_Range_def)
  show "x \<le> y \<Longrightarrow> y \<le> z \<Longrightarrow> x \<le> z" by (simp add: less_eq_Range_def)
  show "x \<le> y \<Longrightarrow> y \<le> x \<Longrightarrow> x = y"
    by (cases x; cases y) (simp_all add: less_eq_Range_def)
  show "x \<le> y \<or> y \<le> x" by (auto simp: less_eq_Range_def)
qed

end

datatype TaKind = Int8 | Uint8 | Uint8Clamped | Int16 | Uint16 | Int32 | Uint32 | Float32 | Float64

definition TA_ALL :: "TaKind list" where
  "TA_ALL = [Int8, Uint8, Uint8Clamped, Int16, Uint16, Int32, Uint32, Float32, Float64]"

fun ta_code :: "TaKind \<Rightarrow> nat" where
  "ta_code Int8 = 1"
| "ta_code Uint8 = 2"
| "ta_code Uint8Clamped = 3"
| "ta_code Int16 = 4"
| "ta_code Uint16 = 5"
| "ta_code Int32 = 6"
| "ta_code Uint32 = 7"
| "ta_code Float32 = 8"
| "ta_code Float64 = 9"

definition ta_from_code :: "nat \<Rightarrow> TaKind option" where
  "ta_from_code c =
     (if c = 1 then Some Int8 else if c = 2 then Some Uint8 else if c = 3 then Some Uint8Clamped
      else if c = 4 then Some Int16 else if c = 5 then Some Uint16 else if c = 6 then Some Int32
      else if c = 7 then Some Uint32 else if c = 8 then Some Float32 else if c = 9 then Some Float64
      else None)"

fun log2_bytes :: "TaKind \<Rightarrow> nat" where
  "log2_bytes Int8 = 0"
| "log2_bytes Uint8 = 0"
| "log2_bytes Uint8Clamped = 0"
| "log2_bytes Int16 = 1"
| "log2_bytes Uint16 = 1"
| "log2_bytes Int32 = 2"
| "log2_bytes Uint32 = 2"
| "log2_bytes Float32 = 2"
| "log2_bytes Float64 = 3"

fun proven_range :: "TaKind \<Rightarrow> (int \<times> int) option" where
  "proven_range Int8 = Some (-128, 127)"
| "proven_range Uint8 = Some (0, 255)"
| "proven_range Uint8Clamped = Some (0, 255)"
| "proven_range Int16 = Some (-32768, 32767)"
| "proven_range Uint16 = Some (0, 65535)"
| "proven_range Uint32 = Some (0, 2 ^ 32 - 1)"
| "proven_range _ = None"

section \<open>Operators and their result algebra\<close>

record Opnd =
  op_prims :: prims
  op_wild :: bool
  op_range :: Range

datatype NumOp = Add | Sub | Mul | Div | Mod | Pow | Inc | Dec | Neg | Pos | ToNumeric | Ursh
  | BitAnd | BitOr | BitXor | Lsh | Rsh | BitNot

definition unary :: "NumOp \<Rightarrow> bool" where
  "unary op \<longleftrightarrow> op \<in> {Inc, Dec, Neg, Pos, ToNumeric, BitNot}"

definition def_string :: "Opnd \<Rightarrow> bool" where
  "def_string o1 \<longleftrightarrow> \<not> op_wild o1 \<and> op_prims o1 = PRIM_STRING"

definition may_string :: "Opnd \<Rightarrow> bool" where
  "may_string o1 \<longleftrightarrow> intersects (op_prims o1) PRIM_STRING"

definition to_number_bits :: "Opnd \<Rightarrow> prims" where
  "to_number_bits o1 =
     (let m = PRIMS_EMPTY;
          m = (if intersects (op_prims o1) (prims_or (prims_or PRIM_INT32 PRIM_BOOLEAN) PRIM_NULL)
               then prims_or m PRIM_INT32 else m);
          m = (if intersects (op_prims o1) (prims_or PRIM_DOUBLE PRIM_UNDEFINED)
               then prims_or m PRIM_DOUBLE else m)
      in if intersects (op_prims o1) PRIM_STRING \<or> op_wild o1 then prims_or m NUM else m)"

definition add_number_bits :: "Opnd \<Rightarrow> prims" where
  "add_number_bits o1 =
     (let m = PRIMS_EMPTY;
          m = (if intersects (op_prims o1) (prims_or (prims_or PRIM_INT32 PRIM_BOOLEAN) PRIM_NULL)
               then prims_or m PRIM_INT32 else m);
          m = (if intersects (op_prims o1) (prims_or PRIM_DOUBLE PRIM_UNDEFINED)
               then prims_or m PRIM_DOUBLE else m)
      in if op_wild o1 then prims_or m NUM else m)"

definition num_part :: "prims \<Rightarrow> prims \<Rightarrow> prims" where
  "num_part na nb =
     (if prims_is_empty na \<or> prims_is_empty nb then PRIMS_EMPTY
      else if na = PRIM_INT32 \<and> nb = PRIM_INT32 then PRIM_INT32
      else if na = PRIM_DOUBLE \<and> nb = PRIM_DOUBLE then PRIM_DOUBLE
      else NUM)"

definition num_part_noint :: "prims \<Rightarrow> prims \<Rightarrow> prims" where
  "num_part_noint na nb =
     (if prims_is_empty na \<or> prims_is_empty nb then PRIMS_EMPTY
      else if na = PRIM_DOUBLE \<and> nb = PRIM_DOUBLE then PRIM_DOUBLE
      else NUM)"

definition coerced_range :: "Opnd \<Rightarrow> Range" where
  "coerced_range o1 =
     (if intersects (op_prims o1) (prims_or PRIM_UNDEFINED PRIM_STRING) \<or> op_wild o1 then Top
      else op_range o1)"

definition int_range :: "Opnd \<Rightarrow> Opnd option \<Rightarrow> Range" where
  "int_range a b =
     (let ra = coerced_range a;
          rb = (case b of None \<Rightarrow> I32 | Some o2 \<Rightarrow> coerced_range o2)
      in if max ra rb \<le> I53 then I53 else Top)"

text \<open>The binary operators need \<open>b\<close>; \<open>Option.bind\<close> is the panic of \<open>expect\<close>.\<close>

fun result :: "NumOp \<Rightarrow> Opnd \<Rightarrow> Opnd option \<Rightarrow> (prims \<times> Range) option" where
  "result Add a b = Option.bind b (\<lambda>o2.
     if def_string a \<or> def_string o2 then Some (PRIM_STRING, Top)
     else
       let m = num_part (add_number_bits a) (add_number_bits o2);
           m = (if may_string a \<or> may_string o2 then prims_or m PRIM_STRING else m)
       in Some (m, int_range a (Some o2)))"
| "result Sub a b = Option.bind b (\<lambda>o2.
     Some (num_part (to_number_bits a) (to_number_bits o2), int_range a (Some o2)))"
| "result Mul a b = Option.bind b (\<lambda>o2.
     Some (num_part (to_number_bits a) (to_number_bits o2), int_range a (Some o2)))"
| "result Ursh a b = Option.bind b (\<lambda>o2.
     Some (num_part (to_number_bits a) (to_number_bits o2), I53))"
| "result Mod a b = Option.bind b (\<lambda>o2.
     Some (num_part_noint (to_number_bits a) (to_number_bits o2),
           if coerced_range a \<le> I53 \<and> coerced_range o2 \<le> I53 then I53 else Top))"
| "result Div a b = Option.bind b (\<lambda>o2.
     Some (num_part_noint (to_number_bits a) (to_number_bits o2), Top))"
| "result Pow a b = Option.bind b (\<lambda>o2.
     Some (num_part_noint (to_number_bits a) (to_number_bits o2), Top))"
| "result Inc a b = Some (num_part (to_number_bits a) PRIM_INT32, int_range a None)"
| "result Dec a b = Some (num_part (to_number_bits a) PRIM_INT32, int_range a None)"
| "result Neg a b = Some (num_part (to_number_bits a) PRIM_INT32, int_range a None)"
| "result Pos a b = Some (to_number_bits a, coerced_range a)"
| "result ToNumeric a b = Some (to_number_bits a, coerced_range a)"
| "result BitAnd a b = Option.bind b (\<lambda>_. Some (PRIM_INT32, I32))"
| "result BitOr a b = Option.bind b (\<lambda>_. Some (PRIM_INT32, I32))"
| "result BitXor a b = Option.bind b (\<lambda>_. Some (PRIM_INT32, I32))"
| "result Lsh a b = Option.bind b (\<lambda>_. Some (PRIM_INT32, I32))"
| "result Rsh a b = Option.bind b (\<lambda>_. Some (PRIM_INT32, I32))"
| "result BitNot a b = Some (PRIM_INT32, I32)"

definition f64_track_result :: "bool \<Rightarrow> bool \<Rightarrow> prims" where
  "f64_track_result a_exact_double b_exact_double =
     (if a_exact_double \<and> b_exact_double then PRIM_DOUBLE else NUM)"


section \<open>The independent oracle of the unit tests\<close>

text \<open>
  The operand state and the transfer the module's exhaustive test compares \<open>result\<close> with: it has
  no definitely-string shortcut and keeps unresolved evidence and the object world apart. The
  routes it declares unreachable are \<open>None\<close>.
\<close>

record OracleTs =
  ts_prims :: prims
  ts_unknown :: bool
  ts_objworld :: bool
  ts_range :: Range

definition oracle_to_number_bits :: "OracleTs \<Rightarrow> prims" where
  "oracle_to_number_bits ts =
     (let m = PRIMS_EMPTY;
          m = (if intersects (ts_prims ts) (prims_or (prims_or PRIM_INT32 PRIM_BOOLEAN) PRIM_NULL)
               then prims_or m PRIM_INT32 else m);
          m = (if intersects (ts_prims ts) (prims_or PRIM_DOUBLE PRIM_UNDEFINED)
               then prims_or m PRIM_DOUBLE else m)
      in if ts_unknown ts \<or> intersects (ts_prims ts) PRIM_STRING \<or> ts_objworld ts
         then prims_or m NUM else m)"

definition oracle_add_number_bits :: "OracleTs \<Rightarrow> prims" where
  "oracle_add_number_bits ts =
     (let m = PRIMS_EMPTY;
          m = (if intersects (ts_prims ts) (prims_or (prims_or PRIM_INT32 PRIM_BOOLEAN) PRIM_NULL)
               then prims_or m PRIM_INT32 else m);
          m = (if intersects (ts_prims ts) (prims_or PRIM_DOUBLE PRIM_UNDEFINED)
               then prims_or m PRIM_DOUBLE else m)
      in if ts_unknown ts \<or> ts_objworld ts then prims_or m NUM else m)"

definition oracle_combine_num :: "prims \<Rightarrow> prims \<Rightarrow> prims" where
  "oracle_combine_num na nb =
     (if prims_is_empty na \<or> prims_is_empty nb then PRIMS_EMPTY
      else if na = PRIM_INT32 \<and> nb = PRIM_INT32 then PRIM_INT32
      else if na = PRIM_DOUBLE \<and> nb = PRIM_DOUBLE then PRIM_DOUBLE
      else NUM)"

definition oracle_coerced_range :: "OracleTs \<Rightarrow> Range" where
  "oracle_coerced_range ts =
     (if ts_unknown ts \<or> intersects (ts_prims ts) (prims_or PRIM_UNDEFINED PRIM_STRING) \<or> ts_objworld ts
      then Top else ts_range ts)"

definition oracle_int_range :: "OracleTs \<Rightarrow> OracleTs option \<Rightarrow> Range" where
  "oracle_int_range a b =
     (let r = max (case b of None \<Rightarrow> I32 | Some t \<Rightarrow> oracle_coerced_range t) (oracle_coerced_range a)
      in if r \<le> I53 then I53 else Top)"

definition oracle_noint :: "prims \<Rightarrow> prims \<Rightarrow> prims" where
  "oracle_noint na nb =
     (if prims_is_empty na \<or> prims_is_empty nb then PRIMS_EMPTY
      else if na = PRIM_DOUBLE \<and> nb = PRIM_DOUBLE then PRIM_DOUBLE
      else NUM)"

fun oracle_transfer :: "NumOp \<Rightarrow> OracleTs \<Rightarrow> OracleTs option \<Rightarrow> (prims \<times> Range) option" where
  "oracle_transfer Add a b = Option.bind b (\<lambda>t.
     let res = (if intersects (prims_or (ts_prims a) (ts_prims t)) PRIM_STRING
                then prims_or PRIMS_EMPTY PRIM_STRING else PRIMS_EMPTY)
     in Some (prims_or res (oracle_combine_num (oracle_add_number_bits a) (oracle_add_number_bits t)),
              oracle_int_range a (Some t)))"
| "oracle_transfer Sub a b = Option.bind b (\<lambda>t.
     Some (oracle_combine_num (oracle_to_number_bits a) (oracle_to_number_bits t), oracle_int_range a (Some t)))"
| "oracle_transfer Mul a b = Option.bind b (\<lambda>t.
     Some (oracle_combine_num (oracle_to_number_bits a) (oracle_to_number_bits t), oracle_int_range a (Some t)))"
| "oracle_transfer Ursh a b = Option.bind b (\<lambda>t.
     Some (oracle_combine_num (oracle_to_number_bits a) (oracle_to_number_bits t), I53))"
| "oracle_transfer Mod a b = Option.bind b (\<lambda>t.
     Some (oracle_noint (oracle_to_number_bits a) (oracle_to_number_bits t),
           if oracle_coerced_range a \<le> I53 \<and> oracle_coerced_range t \<le> I53 then I53 else Top))"
| "oracle_transfer Div a b = Option.bind b (\<lambda>t.
     Some (oracle_noint (oracle_to_number_bits a) (oracle_to_number_bits t), Top))"
| "oracle_transfer Pow a b = Option.bind b (\<lambda>t.
     Some (oracle_noint (oracle_to_number_bits a) (oracle_to_number_bits t), Top))"
| "oracle_transfer Inc a b = Some (oracle_combine_num (oracle_to_number_bits a) PRIM_INT32, oracle_int_range a None)"
| "oracle_transfer Dec a b = Some (oracle_combine_num (oracle_to_number_bits a) PRIM_INT32, oracle_int_range a None)"
| "oracle_transfer Neg a b = Some (oracle_combine_num (oracle_to_number_bits a) PRIM_INT32, oracle_int_range a None)"
| "oracle_transfer Pos a b = Some (oracle_to_number_bits a, oracle_coerced_range a)"
| "oracle_transfer ToNumeric a b = Some (oracle_to_number_bits a, oracle_coerced_range a)"
| "oracle_transfer _ a b = None"

definition likely_opnd :: "OracleTs \<Rightarrow> Opnd" where
  "likely_opnd ts =
     \<lparr>op_prims = ts_prims ts, op_wild = ts_unknown ts \<or> ts_objworld ts, op_range = ts_range ts\<rparr>"

section \<open>The abstraction of a primitive set\<close>

text \<open>A \<open>Prims\<close> word names a set of class numbers, one per set bit.\<close>

definition classes :: "prims \<Rightarrow> nat set" where
  "classes p = {n. bit p n}"

lemma word_eq_0_iff_bits: "(w :: 'a::len word) = 0 \<longleftrightarrow> (\<forall>n. \<not> bit w n)"
  by (metis bit_0_eq bit_eq_iff bot_apply bot_bool_def)

lemma classes_or [simp]: "classes (prims_or a b) = classes a \<union> classes b"
  by (auto simp: classes_def prims_or_def bit_or_iff)

lemma classes_and [simp]: "classes (prims_and a b) = classes a \<inter> classes b"
  by (auto simp: classes_def prims_and_def bit_and_iff)

lemma classes_sub [simp]: "classes (prims_sub a b) = classes a - classes b"
  by (auto simp: classes_def prims_sub_def bit_and_iff bit_not_iff dest: bit_imp_le_length)

lemma classes_empty [simp]: "classes PRIMS_EMPTY = {}" "classes 0 = {}"
  by (simp_all add: classes_def PRIMS_EMPTY_def)

lemma classes_inject: "classes a = classes b \<longleftrightarrow> a = b"
  unfolding classes_def by (metis Collect_mem_eq bit_eq_iff mem_Collect_eq)

lemma classes_eq_empty: "classes a = {} \<longleftrightarrow> a = 0"
  using classes_inject [of a 0] by simp

lemma intersects_classes: "intersects a b \<longleftrightarrow> classes a \<inter> classes b \<noteq> {}"
  by (simp add: intersects_def flip: prims_and_def classes_and classes_eq_empty)

lemma subset_of_classes: "subset_of a b \<longleftrightarrow> classes a \<subseteq> classes b"
proof -
  have "subset_of a b \<longleftrightarrow> classes (prims_sub a b) = {}"
    by (simp add: subset_of_def classes_eq_empty prims_sub_def)
  then show ?thesis by auto
qed

lemma prims_is_empty_classes: "prims_is_empty a \<longleftrightarrow> classes a = {}"
  by (simp add: prims_is_empty_def classes_eq_empty)

lemma classes_finite [simp]: "finite (classes p)"
  by (rule finite_subset [of _ "{..<16}"]) (auto simp: classes_def dest: bit_imp_le_length)

lemma classes_card: "card (classes p) \<le> 16"
proof -
  have "classes p \<subseteq> {..<16}" by (auto simp: classes_def dest: bit_imp_le_length)
  then show ?thesis using card_mono [of "{..<16::nat}" "classes p"] by simp
qed

lemma classes_push_bit: "k < 16 \<Longrightarrow> classes (push_bit k 1) = {k}"
proof -
  assume k: "k < 16"
  have "bit (push_bit k 1 :: prims) n \<longleftrightarrow> n = k" for n
    using k by (simp only: push_bit_of_1 bit_exp_iff) (auto simp: possible_bit_def)
  then show ?thesis by (simp add: classes_def)
qed

lemma classes_prim [simp]:
  "classes PRIM_INT32 = {0}" "classes PRIM_DOUBLE = {1}" "classes PRIM_STRING = {2}"
  "classes PRIM_UNDEFINED = {3}" "classes PRIM_NULL = {4}" "classes PRIM_BOOLEAN = {5}"
  "classes PRIM_BIGINT = {6}" "classes PRIM_SYMBOL = {7}"
  unfolding prim_consts
  by (rule classes_push_bit, simp)+

lemma classes_NUM [simp]: "classes NUM = {0, 1}"
  by (auto simp: NUM_def simp flip: prims_or_def)

lemma classes_ALL: "classes ALL_PRIMS = {..<8}"
proof -
  have all: "ALL_PRIMS = mask 8" by (simp add: ALL_PRIMS_def mask_eq_exp_minus_1)
  have "bit (mask 8 :: prims) n \<longleftrightarrow> n < 8" for n
    by (simp only: bit_mask_iff) (auto simp: possible_bit_def)
  then show ?thesis by (auto simp: classes_def all)
qed

lemma prim_neq [simp]:
  "PRIM_INT32 \<noteq> PRIM_DOUBLE" "PRIM_DOUBLE \<noteq> PRIM_INT32" "NUM \<noteq> PRIM_INT32" "NUM \<noteq> PRIM_DOUBLE"
  "PRIM_INT32 \<noteq> NUM" "PRIM_DOUBLE \<noteq> NUM" "PRIM_INT32 \<noteq> 0" "PRIM_DOUBLE \<noteq> 0" "NUM \<noteq> 0"
  by (simp_all add: prim_consts)

lemma subset_of_refl [simp]: "subset_of a a"
  by (simp add: subset_of_classes)

lemma subset_of_trans: "subset_of a b \<Longrightarrow> subset_of b c \<Longrightarrow> subset_of a c"
  by (auto simp: subset_of_classes)

lemma subset_of_0 [simp]: "subset_of 0 a" "subset_of PRIMS_EMPTY a"
  by (simp_all add: subset_of_classes)

lemma subset_of_or: "subset_of a c \<Longrightarrow> subset_of b c \<Longrightarrow> subset_of (prims_or a b) c"
  by (simp add: subset_of_classes)

lemma subset_of_or_mono: "subset_of a a' \<Longrightarrow> subset_of b b' \<Longrightarrow> subset_of (prims_or a b) (prims_or a' b')"
  by (auto simp: subset_of_classes)

interpretation prims_join: join_semilattice prims_or
proof
  fix a b c :: prims
  show "prims_or a b = prims_or b a" by (simp add: prims_or_def or.commute)
  show "prims_or (prims_or a b) c = prims_or a (prims_or b c)" by (simp add: prims_or_def or.assoc)
  show "prims_or a a = a" by (simp add: prims_or_def)
qed

lemma prims_or_empty [simp]: "prims_or PRIMS_EMPTY p = p" "prims_or p PRIMS_EMPTY = p"
  by (simp_all add: prims_or_def PRIMS_EMPTY_def)

interpretation range_join: join_semilattice "max :: Range \<Rightarrow> Range \<Rightarrow> Range"
proof
  fix a b c :: Range
  show "max a b = max b a" by (rule max.commute)
  show "max (max a b) c = max a (max b c)" by (rule max.assoc)
  show "max a a = a" by (rule max.idem)
qed

section \<open>The result algebra\<close>

text \<open>An operand claim is weaker when it admits more classes, the wild world, or more magnitude.\<close>

definition opnd_le :: "Opnd \<Rightarrow> Opnd \<Rightarrow> bool" where
  "opnd_le a b \<longleftrightarrow> subset_of (op_prims a) (op_prims b) \<and> (op_wild a \<longrightarrow> op_wild b) \<and> op_range a \<le> op_range b"

fun opnd_opt_le :: "Opnd option \<Rightarrow> Opnd option \<Rightarrow> bool" where
  "opnd_opt_le None None = True"
| "opnd_opt_le (Some a) (Some b) = opnd_le a b"
| "opnd_opt_le _ _ = False"

lemma Top_max [simp]: "r \<le> Top" "Top \<le> r \<longleftrightarrow> r = Top" "\<not> Top \<le> I53" "I32 \<le> r"
  by (cases r; simp add: less_eq_Range_def)+

lemma num_set_cases:
  assumes "classes p \<subseteq> {0, 1}"
  obtains "p = 0" | "p = PRIM_INT32" | "p = PRIM_DOUBLE" | "p = NUM"
proof -
  from assms consider "classes p = {}" | "classes p = {0}" | "classes p = {1}" | "classes p = {0, 1}"
    by auto
  then show thesis
  proof cases
    case 1
    then show thesis using that(1) classes_eq_empty by blast
  next
    case 2
    then have "classes p = classes PRIM_INT32" by simp
    then show thesis using that(2) classes_inject by blast
  next
    case 3
    then have "classes p = classes PRIM_DOUBLE" by simp
    then show thesis using that(3) classes_inject by blast
  next
    case 4
    then have "classes p = classes NUM" by simp
    then show thesis using that(4) classes_inject by blast
  qed
qed

lemma to_number_bits_classes:
  "classes (to_number_bits o1) =
     {n. n = 0 \<and> (0 \<in> classes (op_prims o1) \<or> 5 \<in> classes (op_prims o1) \<or> 4 \<in> classes (op_prims o1)) \<or>
         n = 1 \<and> (1 \<in> classes (op_prims o1) \<or> 3 \<in> classes (op_prims o1)) \<or>
         (n = 0 \<or> n = 1) \<and> (2 \<in> classes (op_prims o1) \<or> op_wild o1)}"
  by (auto simp: to_number_bits_def Let_def intersects_classes)

lemma add_number_bits_classes:
  "classes (add_number_bits o1) =
     {n. n = 0 \<and> (0 \<in> classes (op_prims o1) \<or> 5 \<in> classes (op_prims o1) \<or> 4 \<in> classes (op_prims o1)) \<or>
         n = 1 \<and> (1 \<in> classes (op_prims o1) \<or> 3 \<in> classes (op_prims o1)) \<or>
         (n = 0 \<or> n = 1) \<and> op_wild o1}"
  by (auto simp: add_number_bits_def Let_def intersects_classes)

lemma to_number_bits_num: "classes (to_number_bits a) \<subseteq> {0, 1}"
  by (auto simp: to_number_bits_classes)

lemma add_number_bits_num: "classes (add_number_bits a) \<subseteq> {0, 1}"
  by (auto simp: add_number_bits_classes)

lemma to_number_bits_mono: "opnd_le a b \<Longrightarrow> subset_of (to_number_bits a) (to_number_bits b)"
  by (auto simp: opnd_le_def subset_of_classes to_number_bits_classes)

lemma add_number_bits_mono: "opnd_le a b \<Longrightarrow> subset_of (add_number_bits a) (add_number_bits b)"
  by (auto simp: opnd_le_def subset_of_classes add_number_bits_classes)

lemma may_string_mono: "opnd_le a b \<Longrightarrow> may_string a \<Longrightarrow> may_string b"
  by (auto simp: opnd_le_def may_string_def subset_of_classes intersects_classes)

lemma coerced_range_mono: "opnd_le a b \<Longrightarrow> coerced_range a \<le> coerced_range b"
  by (auto simp: opnd_le_def coerced_range_def subset_of_classes intersects_classes)

lemma int_range_mono:
  "opnd_le a a' \<Longrightarrow> opnd_opt_le b b' \<Longrightarrow> int_range a b \<le> int_range a' b'"
  using coerced_range_mono [of a a'] coerced_range_mono
  by (cases b; cases b') (fastforce simp: int_range_def Let_def)+

lemma num_part_mono:
  assumes "subset_of na na'" "subset_of nb nb'" "classes na' \<subseteq> {0, 1}" "classes nb' \<subseteq> {0, 1}"
  shows "subset_of (num_part na nb) (num_part na' nb')"
proof -
  have "classes na \<subseteq> {0, 1}" "classes nb \<subseteq> {0, 1}" using assms by (auto simp: subset_of_classes)
  then show ?thesis using assms
    by (elim num_set_cases) (simp_all add: num_part_def prims_is_empty_def subset_of_classes)
qed

lemma num_part_noint_mono:
  assumes "subset_of na na'" "subset_of nb nb'" "classes na' \<subseteq> {0, 1}" "classes nb' \<subseteq> {0, 1}"
  shows "subset_of (num_part_noint na nb) (num_part_noint na' nb')"
proof -
  have "classes na \<subseteq> {0, 1}" "classes nb \<subseteq> {0, 1}" using assms by (auto simp: subset_of_classes)
  then show ?thesis using assms
    by (elim num_set_cases) (simp_all add: num_part_noint_def prims_is_empty_def subset_of_classes)
qed

text \<open>The definitely-string shortcut of \<open>+\<close> computes what the general rule would.\<close>

lemma def_string_add_bits: "def_string a \<Longrightarrow> add_number_bits a = 0"
proof -
  assume "def_string a"
  then have "classes (add_number_bits a) = {}" by (auto simp: add_number_bits_classes def_string_def)
  then show ?thesis by (simp add: classes_eq_empty)
qed

lemma def_string_range: "def_string a \<Longrightarrow> coerced_range a = Top"
  by (simp add: def_string_def coerced_range_def intersects_classes)

lemma result_Add_general:
  "result Add a (Some b) =
     Some (if may_string a \<or> may_string b
           then prims_or (num_part (add_number_bits a) (add_number_bits b)) PRIM_STRING
           else num_part (add_number_bits a) (add_number_bits b),
           int_range a (Some b))"
proof (cases "def_string a \<or> def_string b")
  case True
  then have "may_string a \<or> may_string b"
    by (auto simp: def_string_def may_string_def intersects_classes)
  moreover have "num_part (add_number_bits a) (add_number_bits b) = 0"
    using True by (auto simp: num_part_def prims_is_empty_def def_string_add_bits PRIMS_EMPTY_def)
  moreover have "int_range a (Some b) = Top"
    using True by (auto simp: int_range_def Let_def def_string_range max_def)
  ultimately show ?thesis using True by (simp add: prims_or_def)
qed (simp add: Let_def)

declare result.simps(1) [simp del]

lemmas operand_monos = to_number_bits_mono add_number_bits_mono coerced_range_mono int_range_mono
  num_part_mono num_part_noint_mono to_number_bits_num add_number_bits_num

lemma result_mono_Add:
  assumes "opnd_le a a'" "opnd_le b b'"
    and "result Add a (Some b) = Some (m, r)" "result Add a' (Some b') = Some (m', r')"
  shows "subset_of m m' \<and> r \<le> r'"
proof -
  let ?n = "num_part (add_number_bits a) (add_number_bits b)"
  let ?n' = "num_part (add_number_bits a') (add_number_bits b')"
  have "subset_of ?n ?n'" using assms(1,2) by (intro operand_monos)
  moreover have "may_string a \<or> may_string b \<Longrightarrow> may_string a' \<or> may_string b'"
    using assms(1,2) may_string_mono by blast
  moreover have "int_range a (Some b) \<le> int_range a' (Some b')"
    using assms(1,2) by (intro int_range_mono) auto
  ultimately show ?thesis using assms(3,4)
    by (auto simp: result_Add_general subset_of_classes split: if_splits)
qed

lemma result_mono_unary:
  assumes "opnd_le a a'" "unary op" "result op a b = Some (m, r)" "result op a' b' = Some (m', r')"
  shows "subset_of m m' \<and> r \<le> r'"
proof -
  have "subset_of (num_part (to_number_bits a) PRIM_INT32) (num_part (to_number_bits a') PRIM_INT32)"
    using assms(1) by (intro operand_monos) (simp_all add: to_number_bits_mono)
  moreover have "int_range a None \<le> int_range a' None" using assms(1) by (intro int_range_mono) auto
  ultimately show ?thesis using assms
    by (auto simp: unary_def to_number_bits_mono coerced_range_mono)
qed

lemma result_mono_binary:
  assumes "opnd_le a a'" "opnd_le b b'" "\<not> unary op" "op \<noteq> Add"
    and "result op a (Some b) = Some (m, r)" "result op a' (Some b') = Some (m', r')"
  shows "subset_of m m' \<and> r \<le> r'"
proof -
  have "subset_of (num_part (to_number_bits a) (to_number_bits b)) (num_part (to_number_bits a') (to_number_bits b'))"
    "subset_of (num_part_noint (to_number_bits a) (to_number_bits b)) (num_part_noint (to_number_bits a') (to_number_bits b'))"
    using assms(1,2) by - (intro operand_monos; assumption)+
  moreover have "int_range a (Some b) \<le> int_range a' (Some b')"
    using assms(1,2) by (intro int_range_mono) auto
  moreover have "coerced_range a \<le> coerced_range a'" "coerced_range b \<le> coerced_range b'"
    using assms(1,2) by (auto intro: coerced_range_mono)
  ultimately show ?thesis using assms(3-6) by (cases op) (auto simp: unary_def)
qed

lemma result_None_iff: "result op a b = None \<longleftrightarrow> \<not> unary op \<and> b = None"
  by (cases op; cases b) (auto simp: unary_def result_Add_general result.simps(1) Let_def)

lemma likely_opnd_sel [simp]:
  "op_prims (likely_opnd t) = ts_prims t" "op_wild (likely_opnd t) \<longleftrightarrow> ts_unknown t \<or> ts_objworld t"
  "op_range (likely_opnd t) = ts_range t"
  by (simp_all add: likely_opnd_def)

lemma oracle_components:
  "oracle_to_number_bits t = to_number_bits (likely_opnd t)"
  "oracle_add_number_bits t = add_number_bits (likely_opnd t)"
  "oracle_coerced_range t = coerced_range (likely_opnd t)"
  "oracle_combine_num = num_part" "oracle_noint = num_part_noint"
  by (auto simp: fun_eq_iff oracle_to_number_bits_def to_number_bits_def oracle_add_number_bits_def
      add_number_bits_def oracle_coerced_range_def coerced_range_def oracle_combine_num_def
      num_part_def oracle_noint_def num_part_noint_def Let_def)

lemma oracle_int_range:
  "oracle_int_range a b = int_range (likely_opnd a) (map_option likely_opnd b)"
  by (cases b) (simp_all add: oracle_int_range_def int_range_def oracle_components max.commute)

lemma may_string_likely: "intersects (prims_or (ts_prims a) (ts_prims b)) PRIM_STRING \<longleftrightarrow>
    may_string (likely_opnd a) \<or> may_string (likely_opnd b)"
  by (auto simp: may_string_def intersects_classes)

text \<open>The decoded element of a typed array of each integer kind, from its raw unsigned bits.\<close>

definition ta_value :: "TaKind \<Rightarrow> nat \<Rightarrow> int option" where
  "ta_value k raw =
     (if k \<in> {Int8, Int16, Int32} then Some (signed_take_bit (8 * 2 ^ log2_bytes k - 1) (int raw))
      else if k \<in> {Float32, Float64} then None
      else Some (take_bit (8 * 2 ^ log2_bytes k) (int raw)))"

section \<open>Properties\<close>

text \<open>The bit operations on a \<open>Prims\<close> word are the set operations on the classes it names, and the
  word is determined by its classes.\<close>

theorem prims_refine_class_sets:
  "classes (prims_or a b) = classes a \<union> classes b \<and>
   classes (prims_and a b) = classes a \<inter> classes b \<and>
   classes (prims_sub a b) = classes a - classes b \<and>
   classes (prims_from_bits w) = {n \<in> classes w. n < 8} \<and>
   (prims_is_empty a \<longleftrightarrow> classes a = {}) \<and>
   (intersects a b \<longleftrightarrow> classes a \<inter> classes b \<noteq> {}) \<and>
   (subset_of a b \<longleftrightarrow> classes a \<subseteq> classes b) \<and>
   (is_nonempty_subset_of a b \<longleftrightarrow> classes a \<noteq> {} \<and> classes a \<subseteq> classes b) \<and>
   (is_only a b \<longleftrightarrow> classes a = classes b)"
proof (intro conjI)
  show "classes (prims_from_bits w) = {n \<in> classes w. n < 8}"
    using classes_and [of w ALL_PRIMS] by (auto simp: prims_from_bits_def prims_and_def classes_ALL)
  show "is_nonempty_subset_of a b \<longleftrightarrow> classes a \<noteq> {} \<and> classes a \<subseteq> classes b"
    using subset_of_classes [of a b]
    by (simp add: is_nonempty_subset_of_def subset_of_def classes_eq_empty)
qed (simp_all add: prims_is_empty_classes intersects_classes subset_of_classes is_only_def classes_inject)

text \<open>C34. The operator result is monotone in both operands: weakening an operand's claim never
  strengthens the result's class set or its magnitude, so a fixpoint over it converges.\<close>

theorem result_monotone:
  assumes "opnd_le a a'" "opnd_opt_le b b'"
    and "result op a b = Some (m, r)" "result op a' b' = Some (m', r')"
  shows "subset_of m m' \<and> r \<le> r'"
proof (cases "unary op")
  case True
  then show ?thesis using result_mono_unary [OF assms(1) _ assms(3,4)] by simp
next
  case False
  then obtain o2 where b: "b = Some o2" using assms(3) result_None_iff [of op a b] by (cases b) auto
  then obtain o2' where b': "b' = Some o2'" "opnd_le o2 o2'" using assms(2) by (cases b') auto
  show ?thesis
  proof (cases "op = Add")
    case True
    then show ?thesis using result_mono_Add [OF assms(1) b'(2)] assms(3,4) b b' by simp
  next
    case False
    then show ?thesis
      using result_mono_binary [OF assms(1) b'(2) \<open>\<not> unary op\<close> False] assms(3,4) b b' by simp
  qed
qed

theorem result_monotone_witness:
  "\<exists>m r m' r'.
     result Add \<lparr>op_prims = PRIM_INT32, op_wild = False, op_range = I32\<rparr>
       (Some \<lparr>op_prims = PRIM_INT32, op_wild = False, op_range = I32\<rparr>) = Some (m, r) \<and>
     result Add \<lparr>op_prims = prims_or PRIM_INT32 PRIM_STRING, op_wild = False, op_range = I53\<rparr>
       (Some \<lparr>op_prims = PRIM_INT32, op_wild = True, op_range = I32\<rparr>) = Some (m', r') \<and>
     subset_of m m' \<and> r \<le> r'"
proof -
  let ?a = "\<lparr>op_prims = PRIM_INT32, op_wild = False, op_range = I32\<rparr>"
  let ?a' = "\<lparr>op_prims = prims_or PRIM_INT32 PRIM_STRING, op_wild = False, op_range = I53\<rparr>"
  let ?b' = "\<lparr>op_prims = PRIM_INT32, op_wild = True, op_range = I32\<rparr>"
  obtain m r where 1: "result Add ?a (Some ?a) = Some (m, r)" by (auto simp: result_Add_general)
  obtain m' r' where 2: "result Add ?a' (Some ?b') = Some (m', r')" by (auto simp: result_Add_general)
  have "opnd_le ?a ?a'" "opnd_opt_le (Some ?a) (Some ?b')"
    by (simp_all add: opnd_le_def subset_of_classes)
  from result_monotone [OF this 1 2] 1 2 show ?thesis by blast
qed

text \<open>C35. \<open>result\<close> equals the independently written oracle on every operand of every operator the
  oracle routes, not only on the enumerated operands of the unit test; in particular the
  definitely-string shortcut of \<open>+\<close> never changes the answer.\<close>

theorem result_matches_oracle:
  "op \<in> {Add, Sub, Mul, Div, Mod, Pow, Ursh, Inc, Dec, Neg, Pos, ToNumeric} \<Longrightarrow>
   result op (likely_opnd a) (map_option likely_opnd b) = oracle_transfer op a b"
proof (cases "op = Add")
  case True
  show ?thesis
  proof (cases b)
    case (Some t)
    with True show ?thesis
      by (auto simp: result_Add_general may_string_likely oracle_components oracle_int_range
          prims_join.join_comm [of PRIM_STRING])
  qed (simp add: True result.simps(1))
qed (cases b; auto simp: oracle_components oracle_int_range)

theorem result_matches_oracle_witness:
  "result Mod (likely_opnd \<lparr>ts_prims = PRIM_INT32, ts_unknown = False, ts_objworld = False, ts_range = I32\<rparr>)
     (map_option likely_opnd (Some \<lparr>ts_prims = PRIM_STRING, ts_unknown = True, ts_objworld = False, ts_range = I53\<rparr>))
   = oracle_transfer Mod \<lparr>ts_prims = PRIM_INT32, ts_unknown = False, ts_objworld = False, ts_range = I32\<rparr>
     (Some \<lparr>ts_prims = PRIM_STRING, ts_unknown = True, ts_objworld = False, ts_range = I53\<rparr>)"
  by (rule result_matches_oracle) simp

text \<open>The operator algebra panics exactly on a binary operator without its second operand.\<close>

theorem result_panics_iff: "result op a b = None \<longleftrightarrow> \<not> unary op \<and> b = None"
  by (rule result_None_iff)

text \<open>The typed-array wire code is a bijection between the nine kinds and \<open>1..=9\<close>; every other
  code decodes to no kind.\<close>

theorem ta_code_roundtrip:
  "ta_from_code (ta_code k) = Some k \<and>
   (ta_from_code c = Some k \<longleftrightarrow> ta_code k = c) \<and>
   (ta_from_code c = None \<longleftrightarrow> c \<notin> {1..9})"
  by (cases k) (auto simp: ta_from_code_def)

lemma ta_value_signed:
  "\<exists>v. ta_value Int8 raw = Some v \<and> -128 \<le> v \<and> v \<le> 127"
  "\<exists>v. ta_value Int16 raw = Some v \<and> -32768 \<le> v \<and> v \<le> 32767"
  using signed_take_bit_int_greater_eq_minus_exp [of 7 "int raw"] signed_take_bit_int_less_exp [of 7 "int raw"]
    signed_take_bit_int_greater_eq_minus_exp [of 15 "int raw"] signed_take_bit_int_less_exp [of 15 "int raw"]
  by (auto simp: ta_value_def)

lemma ta_value_unsigned:
  "\<exists>v. ta_value Uint8 raw = Some v \<and> 0 \<le> v \<and> v \<le> 255"
  "\<exists>v. ta_value Uint8Clamped raw = Some v \<and> 0 \<le> v \<and> v \<le> 255"
  "\<exists>v. ta_value Uint16 raw = Some v \<and> 0 \<le> v \<and> v \<le> 65535"
  "\<exists>v. ta_value Uint32 raw = Some v \<and> 0 \<le> v \<and> v \<le> 4294967295"
  using take_bit_int_less_exp [of 8 "int raw"] take_bit_int_less_exp [of 16 "int raw"]
    take_bit_int_less_exp [of 32 "int raw"]
  by (auto simp: ta_value_def)

lemma ta_value_ends:
  "ta_value Int8 128 = Some (-128)" "ta_value Int8 127 = Some 127"
  "ta_value Int16 32768 = Some (-32768)" "ta_value Int16 32767 = Some 32767"
  "ta_value Uint8 0 = Some 0" "ta_value Uint8 255 = Some 255"
  "ta_value Uint8Clamped 0 = Some 0" "ta_value Uint8Clamped 255 = Some 255"
  "ta_value Uint16 0 = Some 0" "ta_value Uint16 65535 = Some 65535"
  "ta_value Uint32 0 = Some 0" "ta_value Uint32 4294967295 = Some 4294967295"
  by (simp_all add: ta_value_def)

text \<open>The range a typed-array load proves is exact: every raw element of that kind decodes into
  it, and both ends are reached.\<close>

theorem proven_range_exact:
  assumes "proven_range k = Some (lo, hi)"
  shows "(\<forall>raw. \<exists>v. ta_value k raw = Some v \<and> lo \<le> v \<and> v \<le> hi) \<and>
    (\<exists>raw. ta_value k raw = Some lo) \<and> (\<exists>raw. ta_value k raw = Some hi)"
  using assms by (cases k) (auto intro: ta_value_signed ta_value_unsigned ta_value_ends simp: ta_value_signed)

theorem proven_range_exact_witness:
  "proven_range Int16 = Some (-32768, 32767) \<and>
   (\<forall>raw. \<exists>v. ta_value Int16 raw = Some v \<and> -32768 \<le> v \<and> v \<le> 32767)"
  using proven_range_exact [of Int16 "-32768" 32767] by simp

end
