(* ===== verification/Intervals.thy ===== *)
theory Intervals
  imports Opsem
begin

text \<open>
  The exact-integer interval algebra of \<^verbatim>\<open>compiler/src/opsem.rs\<close>, second half: the shared interval
  \<open>ValueRange\<close>, the internal interval \<open>Iv\<close> with its may-be-negative-zero flag, the widening and
  quantization ladders, the transfer of every modelled operator and the recorded joins.
  \<open>i64\<close> values are \<^typ>\<open>int\<close> with a release build's wrap-around written out; the closure lemmas
  show that on well-formed intervals (both bounds within \<open>2^53\<close>) no operation wraps. The soundness
  lemmas relate each transfer to the JavaScript operator on exact integers and negative zero.
\<close>

section \<open>Intervals\<close>

record ValueRange =
  lo :: int
  hi :: int

definition vr :: "int \<Rightarrow> int \<Rightarrow> ValueRange" where
  "vr l h = \<lparr>lo = l, hi = h\<rparr>"

definition hull :: "ValueRange \<Rightarrow> ValueRange \<Rightarrow> ValueRange" where
  "hull a b = vr (min (lo a) (lo b)) (max (hi a) (hi b))"

type_synonym Iv = "(int \<times> int \<times> bool) option"

definition iv_clean :: "Iv \<Rightarrow> ValueRange option" where
  "iv_clean iv = (case iv of Some (l, h, nz) \<Rightarrow> (if nz then None else Some (vr l h)) | None \<Rightarrow> None)"

definition IV_LIM :: int where "IV_LIM = 2 ^ 53"
definition I32_LO :: int where "I32_LO = - (2 ^ 31)"
definition I32_HI :: int where "I32_HI = 2 ^ 31 - 1"
definition IV_I32 :: Iv where "IV_I32 = Some (I32_LO, I32_HI, False)"
definition IV_WIDEN_JOINS :: nat where "IV_WIDEN_JOINS = 3"

lemmas iv_consts = IV_LIM_def I32_LO_def I32_HI_def IV_I32_def IV_WIDEN_JOINS_def

definition widen_lo :: "int \<Rightarrow> int option" where
  "widen_lo l =
     (if l \<ge> 0 then Some 0
      else if l \<ge> I32_LO then Some I32_LO
      else if l \<ge> - (2 ^ 36) then Some (- (2 ^ 36))
      else if l \<ge> - (2 ^ 48) then Some (- (2 ^ 48))
      else None)"

definition widen_hi :: "int \<Rightarrow> int option" where
  "widen_hi h =
     (if h \<le> 0 then Some 0
      else if h \<le> I32_HI then Some I32_HI
      else if h \<le> 2 ^ 36 then Some (2 ^ 36)
      else if h \<le> 2 ^ 48 then Some (2 ^ 48)
      else None)"

text \<open>Quantization: magnitudes up to 8 are kept, larger ones go to the next power of two.\<close>

definition hq_mag_up :: "int \<Rightarrow> int" where
  "hq_mag_up mag = (if mag \<le> 8 then mag else next_power_of_two mag)"

definition hq_lo :: "int \<Rightarrow> int option" where
  "hq_lo l =
     (if l \<ge> 0 then Some 0
      else if l \<ge> I32_LO then Some (max (i64_neg (hq_mag_up \<bar>l\<bar>)) I32_LO)
      else None)"

definition hq_hi :: "int \<Rightarrow> int option" where
  "hq_hi h =
     (if h \<le> 0 then Some 0
      else if h \<le> I32_HI then Some (min (hq_mag_up (h + 1) - 1) I32_HI)
      else None)"

definition hq :: "int \<Rightarrow> int \<Rightarrow> (int \<times> int) option" where
  "hq l h = (case (hq_lo l, hq_hi h) of (Some a, Some b) \<Rightarrow> Some (a, b) | _ \<Rightarrow> None)"

definition iv_ok :: "int \<Rightarrow> int \<Rightarrow> bool \<Rightarrow> Iv" where
  "iv_ok l h nz = (if l \<le> h \<and> l \<ge> - IV_LIM \<and> h \<le> IV_LIM then Some (l, h, nz) else None)"

definition iv_nonneg_i32 :: "Iv \<Rightarrow> bool" where
  "iv_nonneg_i32 iv \<longleftrightarrow> (case iv of Some (l, h, _) \<Rightarrow> l \<ge> 0 \<and> h \<le> I32_HI | None \<Rightarrow> False)"

definition iv_const :: "Iv \<Rightarrow> int option" where
  "iv_const iv = (case iv of Some (l, h, nz) \<Rightarrow> (if \<not> nz \<and> l = h then Some l else None) | None \<Rightarrow> None)"

section \<open>Operators\<close>

definition iv_add :: "Iv \<Rightarrow> Iv \<Rightarrow> Iv" where
  "iv_add a b = Option.bind a (\<lambda>(al, ah, an). Option.bind b (\<lambda>(bl, bh, bn).
     iv_ok (i64_add al bl) (i64_add ah bh) (an \<and> bn)))"

definition iv_sub :: "Iv \<Rightarrow> Iv \<Rightarrow> Iv" where
  "iv_sub a b = Option.bind a (\<lambda>(al, ah, an). Option.bind b (\<lambda>(bl, bh, _).
     iv_ok (i64_sub al bh) (i64_sub ah bl) an))"

text \<open>The four corner products in loop order; an overflowing product leaves without a result.\<close>

fun mul_corners :: "(int \<times> int) list \<Rightarrow> int \<Rightarrow> int \<Rightarrow> (int \<times> int) option" where
  "mul_corners [] l h = Some (l, h)"
| "mul_corners ((x, y) # ps) l h =
     Option.bind (checked_mul x y) (\<lambda>p. mul_corners ps (min l p) (max h p))"

definition iv_mul :: "Iv \<Rightarrow> Iv \<Rightarrow> Iv" where
  "iv_mul a b = Option.bind a (\<lambda>(al, ah, an). Option.bind b (\<lambda>(bl, bh, bn).
     let nz = (al \<le> 0 \<and> ah \<ge> 0 \<and> bl < 0) \<or> (bl \<le> 0 \<and> bh \<ge> 0 \<and> al < 0)
              \<or> (an \<and> bh > 0) \<or> (bn \<and> ah > 0)
     in Option.bind (mul_corners [(al, bl), (al, bh), (ah, bl), (ah, bh)] (2 ^ 63 - 1) (- (2 ^ 63)))
          (\<lambda>(l, h). iv_ok l h nz)))"

definition iv_mod :: "Iv \<Rightarrow> Iv \<Rightarrow> Iv" where
  "iv_mod a b = Option.bind a (\<lambda>(al, ah, an). Option.bind b (\<lambda>(bl, bh, _).
     if al < 0 \<or> an \<or> (bl \<le> 0 \<and> bh \<ge> 0) then None
     else iv_ok 0 (min (i64_sub (max \<bar>bl\<bar> \<bar>bh\<bar>) 1) ah) False))"

definition iv_neg :: "Iv \<Rightarrow> Iv" where
  "iv_neg a = Option.bind a (\<lambda>(al, ah, _).
     let nz = al \<le> 0 \<and> ah \<ge> 0 in iv_ok (i64_neg ah) (i64_neg al) nz)"

text \<open>\<open>a.unwrap().1\<close>, called only on an interval that \<open>iv_nonneg_i32\<close> accepted.\<close>

definition iv_hi :: "Iv \<Rightarrow> int" where
  "iv_hi iv = (case iv of Some (_, h, _) \<Rightarrow> h | None \<Rightarrow> 0)"

definition iv_bitand :: "Iv \<Rightarrow> Iv \<Rightarrow> Iv" where
  "iv_bitand a b =
     (case (iv_nonneg_i32 a, iv_nonneg_i32 b) of
        (True, True) \<Rightarrow> Some (0, min (iv_hi a) (iv_hi b), False)
      | (True, False) \<Rightarrow> Some (0, iv_hi a, False)
      | (False, True) \<Rightarrow> Some (0, iv_hi b, False)
      | (False, False) \<Rightarrow> IV_I32)"

definition iv_bitorxor :: "Iv \<Rightarrow> Iv \<Rightarrow> Iv" where
  "iv_bitorxor a b =
     (if iv_nonneg_i32 a \<and> iv_nonneg_i32 b
      then let m = max (iv_hi a) (iv_hi b)
           in Some (0, min (i64_sub (next_power_of_two (i64_add m 1)) 1) I32_HI, False)
      else IV_I32)"

definition iv_lsh :: "Iv \<Rightarrow> Iv \<Rightarrow> Iv" where
  "iv_lsh a b =
     (case iv_const b of
        Some k \<Rightarrow>
          (if 0 \<le> k \<and> k \<le> 31
           then (case a of
                   Some (al, ah, _) \<Rightarrow>
                     (if al \<ge> I32_LO \<and> ah \<le> I32_HI
                      then let l = i64_shl al (nat k); h = i64_shl ah (nat k)
                           in if l \<ge> I32_LO \<and> h \<le> I32_HI then Some (l, h, False) else IV_I32
                      else IV_I32)
                 | None \<Rightarrow> IV_I32)
           else IV_I32)
      | None \<Rightarrow> IV_I32)"

definition iv_rsh :: "Iv \<Rightarrow> Iv \<Rightarrow> Iv" where
  "iv_rsh a b =
     (case iv_const b of
        Some k \<Rightarrow>
          (if 0 \<le> k \<and> k \<le> 31
           then (case a of
                   Some (al, ah, _) \<Rightarrow>
                     (if al \<ge> I32_LO \<and> ah \<le> I32_HI
                      then Some (i64_shr al (nat k), i64_shr ah (nat k), False)
                      else Some (i64_shr I32_LO (nat k), i64_shr I32_HI (nat k), False))
                 | None \<Rightarrow> Some (i64_shr I32_LO (nat k), i64_shr I32_HI (nat k), False))
           else IV_I32)
      | None \<Rightarrow> IV_I32)"

definition iv_ursh :: "Iv \<Rightarrow> Iv \<Rightarrow> Iv" where
  "iv_ursh a b =
     (case iv_const b of
        Some k \<Rightarrow>
          (if 0 \<le> k \<and> k \<le> 31
           then (if iv_nonneg_i32 a
                 then (case a of Some (al, ah, _) \<Rightarrow> Some (i64_shr al (nat k), i64_shr ah (nat k), False)
                       | None \<Rightarrow> None)
                 else Some (0, (2 ^ 32 - 1) div 2 ^ nat k, False))
           else Some (0, 2 ^ 32 - 1, False))
      | None \<Rightarrow> Some (0, 2 ^ 32 - 1, False))"

definition iv_bitnot :: "Iv \<Rightarrow> Iv" where
  "iv_bitnot a =
     (case a of
        Some (al, ah, _) \<Rightarrow>
          (if al \<ge> I32_LO \<and> ah \<le> I32_HI then Some (- ah - 1, - al - 1, False) else IV_I32)
      | None \<Rightarrow> IV_I32)"

section \<open>Recorded joins\<close>

definition iv_join_recorded :: "ValueRange \<Rightarrow> ValueRange \<Rightarrow> ValueRange option" where
  "iv_join_recorded new stored =
     (let u = hull new stored;
          l = (if lo u \<ge> lo stored then Some (lo u) else widen_lo (lo u));
          h = (if hi u \<le> hi stored then Some (hi u) else widen_hi (hi u))
      in case (l, h) of (Some a, Some b) \<Rightarrow> Some (vr a b) | _ \<Rightarrow> None)"

definition iv_join_tolerant ::
    "ValueRange option \<Rightarrow> ValueRange option \<Rightarrow> nat \<Rightarrow> ValueRange option \<times> nat" where
  "iv_join_tolerant new stored grow =
     (case (new, stored) of
        (Some n, Some st) \<Rightarrow>
          (let u = hull n st
           in if u = st then (Some st, grow)
              else if grow \<ge> IV_WIDEN_JOINS then (iv_join_recorded n st, grow)
              else (Some u, grow + 1))
      | _ \<Rightarrow> (None, 0))"

section \<open>The JavaScript operators on exact integers\<close>

text \<open>
  A JavaScript number as the algebra sees it: an integer-valued double, negative zero, NaN, or
  another double (a fraction or an infinity) with the integer its \<open>ToInt32\<close> truncation starts
  from. An arithmetic result is given where it is exact, that is where its magnitude is at most
  \<open>2^53\<close>: there double arithmetic rounds nothing. The bit operators are total.
\<close>

datatype jsnum = JInt int | JNegZero | JNaN | JOther int

definition exact_num :: "int \<Rightarrow> jsnum option" where
  "exact_num x = (if \<bar>x\<bar> \<le> 2 ^ 53 then Some (JInt x) else None)"

fun js_add :: "jsnum \<Rightarrow> jsnum \<Rightarrow> jsnum option" where
  "js_add (JInt a) (JInt b) = exact_num (a + b)"
| "js_add (JInt a) JNegZero = exact_num a"
| "js_add JNegZero (JInt b) = exact_num b"
| "js_add JNegZero JNegZero = Some JNegZero"
| "js_add _ _ = None"

fun js_sub :: "jsnum \<Rightarrow> jsnum \<Rightarrow> jsnum option" where
  "js_sub (JInt a) (JInt b) = exact_num (a - b)"
| "js_sub (JInt a) JNegZero = exact_num a"
| "js_sub JNegZero (JInt b) = (if b = 0 then Some JNegZero else exact_num (- b))"
| "js_sub JNegZero JNegZero = Some (JInt 0)"
| "js_sub _ _ = None"

definition js_mul :: "jsnum \<Rightarrow> jsnum \<Rightarrow> jsnum option" where
  "js_mul x y =
     (case (x, y) of
        (JInt a, JInt b) \<Rightarrow>
          (if a * b = 0 then Some (if (a < 0) \<noteq> (b < 0) then JNegZero else JInt 0) else exact_num (a * b))
      | (JInt a, JNegZero) \<Rightarrow> Some (if a < 0 then JInt 0 else JNegZero)
      | (JNegZero, JInt b) \<Rightarrow> Some (if b < 0 then JInt 0 else JNegZero)
      | (JNegZero, JNegZero) \<Rightarrow> Some (JInt 0)
      | _ \<Rightarrow> None)"

text \<open>\<open>%\<close> takes the dividend's sign, also on a zero result; a zero divisor gives NaN.\<close>

fun js_mod :: "jsnum \<Rightarrow> jsnum \<Rightarrow> jsnum option" where
  "js_mod (JInt a) (JInt b) =
     (if b = 0 then Some JNaN
      else if \<bar>a\<bar> mod \<bar>b\<bar> = 0 \<and> a < 0 then Some JNegZero
      else exact_num (sgn a * (\<bar>a\<bar> mod \<bar>b\<bar>)))"
| "js_mod (JInt a) JNegZero = Some JNaN"
| "js_mod JNegZero (JInt b) = (if b = 0 then Some JNaN else Some JNegZero)"
| "js_mod JNegZero JNegZero = Some JNaN"
| "js_mod _ _ = None"

fun js_neg :: "jsnum \<Rightarrow> jsnum option" where
  "js_neg (JInt a) = (if a = 0 then Some JNegZero else exact_num (- a))"
| "js_neg JNegZero = Some (JInt 0)"
| "js_neg _ = None"

fun to_int32 :: "jsnum \<Rightarrow> int" where
  "to_int32 (JInt x) = wrap32 x"
| "to_int32 (JOther w) = wrap32 w"
| "to_int32 _ = 0"

definition shift_count :: "jsnum \<Rightarrow> nat" where
  "shift_count y = nat (to_int32 y mod 32)"

definition js_bitand :: "jsnum \<Rightarrow> jsnum \<Rightarrow> jsnum option" where
  "js_bitand x y = Some (JInt (to_int32 x AND to_int32 y))"

definition js_bitor :: "jsnum \<Rightarrow> jsnum \<Rightarrow> jsnum option" where
  "js_bitor x y = Some (JInt (to_int32 x OR to_int32 y))"

definition js_bitxor :: "jsnum \<Rightarrow> jsnum \<Rightarrow> jsnum option" where
  "js_bitxor x y = Some (JInt (to_int32 x XOR to_int32 y))"

definition js_bitnot :: "jsnum \<Rightarrow> jsnum option" where
  "js_bitnot x = Some (JInt (NOT (to_int32 x)))"

definition js_lsh :: "jsnum \<Rightarrow> jsnum \<Rightarrow> jsnum option" where
  "js_lsh x y = Some (JInt (wrap32 (to_int32 x * 2 ^ shift_count y)))"

definition js_rsh :: "jsnum \<Rightarrow> jsnum \<Rightarrow> jsnum option" where
  "js_rsh x y = Some (JInt (to_int32 x div 2 ^ shift_count y))"

definition js_ursh :: "jsnum \<Rightarrow> jsnum \<Rightarrow> jsnum option" where
  "js_ursh x y = Some (JInt ((to_int32 x mod 2 ^ 32) div 2 ^ shift_count y))"

section \<open>Well-formed intervals and what they claim\<close>

definition iv_wf :: "Iv \<Rightarrow> bool" where
  "iv_wf iv \<longleftrightarrow> (case iv of None \<Rightarrow> True | Some (l, h, _) \<Rightarrow> l \<le> h \<and> - IV_LIM \<le> l \<and> h \<le> IV_LIM)"

text \<open>
  The numbers an interval admits: the integers in bounds, and negative zero where the interval is
  flagged and the zero it reads as is in bounds. \<open>None\<close> claims nothing.
\<close>

definition iv_gamma :: "Iv \<Rightarrow> jsnum set" where
  "iv_gamma iv =
     (case iv of
        None \<Rightarrow> UNIV
      | Some (l, h, nz) \<Rightarrow> JInt ` {l..h} \<union> (if nz \<and> l \<le> 0 \<and> 0 \<le> h then {JNegZero} else {}))"

lemma iv_wf_simps [simp]:
  "iv_wf None" "iv_wf (Some (l, h, nz)) \<longleftrightarrow> l \<le> h \<and> - IV_LIM \<le> l \<and> h \<le> IV_LIM"
  by (simp_all add: iv_wf_def)

lemma iv_gamma_simps [simp]:
  "x \<in> iv_gamma None"
  "JInt n \<in> iv_gamma (Some (l, h, nz)) \<longleftrightarrow> l \<le> n \<and> n \<le> h"
  "JNegZero \<in> iv_gamma (Some (l, h, nz)) \<longleftrightarrow> nz \<and> l \<le> 0 \<and> 0 \<le> h"
  "JNaN \<notin> iv_gamma (Some (l, h, nz))" "JOther w \<notin> iv_gamma (Some (l, h, nz))"
  by (auto simp: iv_gamma_def)

lemma iv_gamma_cases:
  assumes "x \<in> iv_gamma (Some (l, h, nz))"
  obtains n where "x = JInt n" "l \<le> n" "n \<le> h" | "x = JNegZero" "nz" "l \<le> 0" "0 \<le> h"
  using assms by (cases x) auto

lemma iv_ok_wf [simp]: "iv_wf (iv_ok l h nz)"
  by (simp add: iv_ok_def)

lemma iv_ok_SomeD: "iv_ok l h nz = Some r \<Longrightarrow> r = (l, h, nz) \<and> l \<le> h \<and> - IV_LIM \<le> l \<and> h \<le> IV_LIM"
  by (simp add: iv_ok_def split: if_splits)

lemma exact_num_in: "\<bar>x\<bar> \<le> 2 ^ 53 \<Longrightarrow> exact_num x = Some (JInt x)"
  by (simp add: exact_num_def)

text \<open>Within the limit the operators compute without wrap-around.\<close>

lemma iv_add_exact [iv_exact]:
  "iv_wf (Some (al, ah, an)) \<Longrightarrow> iv_wf (Some (bl, bh, bn)) \<Longrightarrow>
   iv_add (Some (al, ah, an)) (Some (bl, bh, bn)) = iv_ok (al + bl) (ah + bh) (an \<and> bn)"
  by (simp add: iv_add_def i64_add_def in_i64_def IV_LIM_def)

lemma iv_sub_exact [iv_exact]:
  "iv_wf (Some (al, ah, an)) \<Longrightarrow> iv_wf (Some (bl, bh, bn)) \<Longrightarrow>
   iv_sub (Some (al, ah, an)) (Some (bl, bh, bn)) = iv_ok (al - bh) (ah - bl) an"
  by (simp add: iv_sub_def i64_sub_def in_i64_def IV_LIM_def)

lemma iv_neg_exact [iv_exact]:
  "iv_wf (Some (al, ah, an)) \<Longrightarrow>
   iv_neg (Some (al, ah, an)) = iv_ok (- ah) (- al) (al \<le> 0 \<and> 0 \<le> ah)"
  by (simp add: iv_neg_def i64_neg_def in_i64_def IV_LIM_def)

lemma iv_mod_exact [iv_exact]:
  "iv_wf (Some (al, ah, an)) \<Longrightarrow> iv_wf (Some (bl, bh, bn)) \<Longrightarrow>
   iv_mod (Some (al, ah, an)) (Some (bl, bh, bn)) =
     (if al < 0 \<or> an \<or> (bl \<le> 0 \<and> bh \<ge> 0) then None
      else iv_ok 0 (min (max \<bar>bl\<bar> \<bar>bh\<bar> - 1) ah) False)"
  by (auto simp: iv_mod_def i64_sub_def in_i64_def IV_LIM_def max_def abs_if)

lemma iv_arith_wf:
  "iv_wf (iv_add a b)" "iv_wf (iv_sub a b)" "iv_wf (iv_mul a b)" "iv_wf (iv_mod a b)" "iv_wf (iv_neg a)"
  by (auto simp: iv_add_def iv_sub_def iv_mul_def iv_mod_def iv_neg_def Let_def bind_eq_Some_conv
      split: prod.splits Option.bind_splits)

section \<open>Soundness of the arithmetic operators\<close>

lemma iv_add_sound:
  assumes "iv_wf a" "iv_wf b" "x \<in> iv_gamma a" "y \<in> iv_gamma b" "iv_add a b = Some r"
  shows "\<exists>v. js_add x y = Some v \<and> v \<in> iv_gamma (Some r)"
proof -
  from assms(5) obtain al ah an bl bh bn where ab: "a = Some (al, ah, an)" "b = Some (bl, bh, bn)"
    by (auto simp: iv_add_def bind_eq_Some_conv)
  have r: "r = (al + bl, ah + bh, an \<and> bn)" "- IV_LIM \<le> al + bl" "ah + bh \<le> IV_LIM"
    using assms(1,2,5) unfolding ab by (auto simp: iv_add_exact dest: iv_ok_SomeD)
  from assms(3)[unfolded ab] show ?thesis
  proof (cases rule: iv_gamma_cases)
    case (1 n)
    from assms(4)[unfolded ab] show ?thesis
    proof (cases rule: iv_gamma_cases)
      case (1 m)
      with \<open>x = JInt n\<close> \<open>al \<le> n\<close> \<open>n \<le> ah\<close> r show ?thesis by (simp add: exact_num_def IV_LIM_def)
    next
      case 2
      with 1 r show ?thesis by (simp add: exact_num_def IV_LIM_def)
    qed
  next
    case 2
    from assms(4)[unfolded ab] 2 r show ?thesis
      by (cases rule: iv_gamma_cases) (simp_all add: exact_num_def IV_LIM_def)
  qed
qed

lemma iv_sub_sound:
  assumes "iv_wf a" "iv_wf b" "x \<in> iv_gamma a" "y \<in> iv_gamma b" "iv_sub a b = Some r"
  shows "\<exists>v. js_sub x y = Some v \<and> v \<in> iv_gamma (Some r)"
proof -
  from assms(5) obtain al ah an bl bh bn where ab: "a = Some (al, ah, an)" "b = Some (bl, bh, bn)"
    by (auto simp: iv_sub_def bind_eq_Some_conv)
  have r: "r = (al - bh, ah - bl, an)" "- IV_LIM \<le> al - bh" "ah - bl \<le> IV_LIM"
    using assms(1,2,5) unfolding ab by (auto simp: iv_sub_exact dest: iv_ok_SomeD)
  from assms(3)[unfolded ab] show ?thesis
  proof (cases rule: iv_gamma_cases)
    case (1 n)
    from assms(4)[unfolded ab] 1 r show ?thesis
      by (cases rule: iv_gamma_cases) (simp_all add: exact_num_def IV_LIM_def)
  next
    case 2
    from assms(4)[unfolded ab] 2 r show ?thesis
      by (cases rule: iv_gamma_cases) (auto simp: exact_num_def IV_LIM_def)
  qed
qed

lemma iv_neg_sound:
  assumes "iv_wf a" "x \<in> iv_gamma a" "iv_neg a = Some r"
  shows "\<exists>v. js_neg x = Some v \<and> v \<in> iv_gamma (Some r)"
proof -
  from assms(3) obtain al ah an where a: "a = Some (al, ah, an)"
    by (auto simp: iv_neg_def bind_eq_Some_conv)
  have r: "r = (- ah, - al, al \<le> 0 \<and> 0 \<le> ah)" "- IV_LIM \<le> al" "ah \<le> IV_LIM"
    using assms(1,3) unfolding a by (auto simp: iv_neg_exact dest: iv_ok_SomeD)
  from assms(2)[unfolded a] r show ?thesis
    by (cases rule: iv_gamma_cases) (auto simp: exact_num_def IV_LIM_def)
qed

lemma iv_mod_sound:
  assumes "iv_wf a" "iv_wf b" "x \<in> iv_gamma a" "y \<in> iv_gamma b" "iv_mod a b = Some r"
  shows "\<exists>v. js_mod x y = Some v \<and> v \<in> iv_gamma (Some r)"
proof -
  from assms(5) obtain al ah an bl bh bn where ab: "a = Some (al, ah, an)" "b = Some (bl, bh, bn)"
    by (auto simp: iv_mod_def bind_eq_Some_conv)
  have g: "0 \<le> al" "\<not> an" "\<not> (bl \<le> 0 \<and> 0 \<le> bh)" "al \<le> ah" "ah \<le> IV_LIM"
    and r: "r = (0, min (max \<bar>bl\<bar> \<bar>bh\<bar> - 1) ah, False)"
    using assms(1,2,5) unfolding ab by (auto simp: iv_mod_exact split: if_splits dest: iv_ok_SomeD)
  from assms(3)[unfolded ab] g obtain n where n: "x = JInt n" "al \<le> n" "n \<le> ah"
    by (auto elim: iv_gamma_cases)
  from assms(4)[unfolded ab] g obtain m where m: "y = JInt m" "bl \<le> m" "m \<le> bh" "m \<noteq> 0"
    by (auto elim!: iv_gamma_cases)
  have "\<bar>m\<bar> \<le> max \<bar>bl\<bar> \<bar>bh\<bar>" using m by auto
  moreover have "n mod \<bar>m\<bar> < \<bar>m\<bar>" "0 \<le> n mod \<bar>m\<bar>" using m by auto
  moreover have "n mod \<bar>m\<bar> \<le> n" using n g by (simp add: zmod_le_nonneg_dividend)
  ultimately have "0 \<le> n mod \<bar>m\<bar>" "n mod \<bar>m\<bar> \<le> max \<bar>bl\<bar> \<bar>bh\<bar> - 1" "n mod \<bar>m\<bar> \<le> ah" "n mod \<bar>m\<bar> \<le> 2 ^ 53"
    using n g by (auto simp: IV_LIM_def)
  moreover have "js_mod x y = exact_num (n mod \<bar>m\<bar>)"
    using n m g by (auto simp: sgn_if)
  ultimately show ?thesis by (simp add: r exact_num_def)
qed

text \<open>A product of two bounded integers lies between the least and the greatest corner product.\<close>

lemma mul_between:
  fixes x y al ah bl bh :: int
  assumes "al \<le> x" "x \<le> ah" "bl \<le> y" "y \<le> bh"
  shows "min (min (al * bl) (al * bh)) (min (ah * bl) (ah * bh)) \<le> x * y"
    "x * y \<le> max (max (al * bl) (al * bh)) (max (ah * bl) (ah * bh))"
proof -
  have row: "min (c * bl) (c * bh) \<le> c * y \<and> c * y \<le> max (c * bl) (c * bh)" for c :: int
    using assms(3,4) by (cases "0 \<le> c")
      (auto simp: min_le_iff_disj le_max_iff_disj mult_left_mono mult_left_mono_neg)
  have col: "min (al * y) (ah * y) \<le> x * y \<and> x * y \<le> max (al * y) (ah * y)"
    using assms(1,2) by (cases "0 \<le> y")
      (auto simp: min_le_iff_disj le_max_iff_disj mult_right_mono mult_right_mono_neg)
  show "min (min (al * bl) (al * bh)) (min (ah * bl) (ah * bh)) \<le> x * y"
    "x * y \<le> max (max (al * bl) (al * bh)) (max (ah * bl) (ah * bh))"
    using row [of al] row [of ah] col by linarith+
qed

lemma mul_corners_bounds:
  "mul_corners ps l0 h0 = Some (l, h) \<Longrightarrow>
   l \<le> l0 \<and> h0 \<le> h \<and> (\<forall>(x, y)\<in>set ps. l \<le> x * y \<and> x * y \<le> h)"
  by (induction ps l0 h0 rule: mul_corners.induct)
    (auto simp: bind_eq_Some_conv checked_mul_def split: if_splits)

lemma iv_mul_SomeD:
  assumes "iv_mul (Some (al, ah, an)) (Some (bl, bh, bn)) = Some r"
  obtains l h where "r = (l, h, (al \<le> 0 \<and> ah \<ge> 0 \<and> bl < 0) \<or> (bl \<le> 0 \<and> bh \<ge> 0 \<and> al < 0)
      \<or> (an \<and> bh > 0) \<or> (bn \<and> ah > 0))"
    "- IV_LIM \<le> l" "h \<le> IV_LIM"
    "\<forall>x y. al \<le> x \<longrightarrow> x \<le> ah \<longrightarrow> bl \<le> y \<longrightarrow> y \<le> bh \<longrightarrow> l \<le> x * y \<and> x * y \<le> h"
proof -
  from assms obtain l h where
    c: "mul_corners [(al, bl), (al, bh), (ah, bl), (ah, bh)] (2 ^ 63 - 1) (- (2 ^ 63)) = Some (l, h)"
    and ok: "iv_ok l h ((al \<le> 0 \<and> ah \<ge> 0 \<and> bl < 0) \<or> (bl \<le> 0 \<and> bh \<ge> 0 \<and> al < 0)
      \<or> (an \<and> bh > 0) \<or> (bn \<and> ah > 0)) = Some r"
    unfolding iv_mul_def Let_def by (fastforce simp: bind_eq_Some_conv simp del: mul_corners.simps)
  have "l \<le> x * y \<and> x * y \<le> h" if "al \<le> x" "x \<le> ah" "bl \<le> y" "y \<le> bh" for x y
    using mul_between [OF that] mul_corners_bounds [OF c] by auto
  with iv_ok_SomeD [OF ok] that show thesis by blast
qed

text \<open>
  The one case the flag of a product misses: negative zero times positive zero, which a flagged
  interval starting at 0 and the constant interval 0 admit.
\<close>

definition mul_zero_gap :: "Iv \<Rightarrow> Iv \<Rightarrow> bool" where
  "mul_zero_gap a b \<longleftrightarrow>
     (\<exists>h h' nz. a = Some (0, h, True) \<and> b = Some (0, 0, nz) \<or> a = Some (0, 0, nz) \<and> b = Some (0, h', True))"

lemma iv_mul_sound:
  assumes "iv_wf a" "iv_wf b" "\<not> mul_zero_gap a b" "x \<in> iv_gamma a" "y \<in> iv_gamma b" "iv_mul a b = Some r"
  shows "\<exists>v. js_mul x y = Some v \<and> v \<in> iv_gamma (Some r)"
proof -
  from assms(6) obtain al ah an bl bh bn where ab: "a = Some (al, ah, an)" "b = Some (bl, bh, bn)"
    by (auto simp: iv_mul_def bind_eq_Some_conv)
  from assms(6)[unfolded ab] obtain l h where
    r: "r = (l, h, (al \<le> 0 \<and> ah \<ge> 0 \<and> bl < 0) \<or> (bl \<le> 0 \<and> bh \<ge> 0 \<and> al < 0)
      \<or> (an \<and> bh > 0) \<or> (bn \<and> ah > 0))" "- IV_LIM \<le> l" "h \<le> IV_LIM"
    and prod0: "\<forall>x y. al \<le> x \<longrightarrow> x \<le> ah \<longrightarrow> bl \<le> y \<longrightarrow> y \<le> bh \<longrightarrow> l \<le> x * y \<and> x * y \<le> h"
    by (rule iv_mul_SomeD)
  have prod: "l \<le> x * y \<and> x * y \<le> h" if "al \<le> x" "x \<le> ah" "bl \<le> y" "y \<le> bh" for x y
    using prod0 that by blast
  have gap: "\<not> (an \<and> al = 0 \<and> bl = 0 \<and> bh = 0)" "\<not> (bn \<and> bl = 0 \<and> al = 0 \<and> ah = 0)"
    using assms(3) by (auto simp: mul_zero_gap_def ab)
  from assms(4)[unfolded ab] show ?thesis
  proof (cases rule: iv_gamma_cases)
    case (1 n)
    note n = this
    from assms(5)[unfolded ab] show ?thesis
    proof (cases rule: iv_gamma_cases)
      case (1 m)
      then have p: "l \<le> n * m" "n * m \<le> h" using prod n by auto
      show ?thesis
      proof (cases "n * m = 0")
        case True
        with n 1 p r show ?thesis by (auto simp: js_mul_def mult_less_0_iff)
      next
        case False
        with n 1 p r show ?thesis by (simp add: js_mul_def exact_num_def IV_LIM_def)
      qed
    next
      case 2
      with n prod [of n 0] r gap show ?thesis by (auto simp: js_mul_def)
    qed
  next
    case 2
    note n = this
    from assms(5)[unfolded ab] show ?thesis
    proof (cases rule: iv_gamma_cases)
      case (1 m)
      with n prod [of 0 m] r gap show ?thesis by (auto simp: js_mul_def)
    next
      case 2
      with n prod [of 0 0] r show ?thesis by (auto simp: js_mul_def)
    qed
  qed
qed

section \<open>Soundness of the bit operators\<close>

lemma wrap32_signed_take_bit: "wrap32 x = signed_take_bit 31 x"
  by (simp add: wrap32_def signed_take_bit_eq_take_bit_shift take_bit_eq_mod)

lemma to_int32_signed: "signed_take_bit 31 (to_int32 x) = to_int32 x"
  by (cases x) (simp_all add: wrap32_signed_take_bit)

lemma int32_range_iff: "signed_take_bit 31 k = k \<longleftrightarrow> I32_LO \<le> k \<and> k \<le> I32_HI" for k :: int
  using signed_take_bit_int_eq_self_iff [of 31 k] by (auto simp: iv_consts)

lemma to_int32_range: "I32_LO \<le> to_int32 x" "to_int32 x \<le> I32_HI"
  using int32_range_iff [of "to_int32 x"] to_int32_signed [of x] by auto

lemma signed_take_bit_bitop:
  fixes a b :: int
  shows "signed_take_bit n (a AND b) = signed_take_bit n a AND signed_take_bit n b"
    "signed_take_bit n (a OR b) = signed_take_bit n a OR signed_take_bit n b"
    "signed_take_bit n (a XOR b) = signed_take_bit n a XOR signed_take_bit n b"
  by (rule bit_eqI, simp add: bit_signed_take_bit_iff bit_and_iff bit_or_iff bit_xor_iff)+

lemma bitop_int32_range:
  "I32_LO \<le> to_int32 x AND to_int32 y \<and> to_int32 x AND to_int32 y \<le> I32_HI"
  "I32_LO \<le> to_int32 x OR to_int32 y \<and> to_int32 x OR to_int32 y \<le> I32_HI"
  "I32_LO \<le> to_int32 x XOR to_int32 y \<and> to_int32 x XOR to_int32 y \<le> I32_HI"
  unfolding int32_range_iff [symmetric]
  by (simp_all add: signed_take_bit_bitop to_int32_signed)

text \<open>A number of an int32-bounded interval reads as itself, negative zero as the 0 in bounds.\<close>

lemma to_int32_bounded:
  assumes "x \<in> iv_gamma (Some (l, h, nz))" "I32_LO \<le> l" "h \<le> I32_HI"
  shows "l \<le> to_int32 x" "to_int32 x \<le> h"
  using assms by (auto elim!: iv_gamma_cases simp: iv_consts)

lemma iv_nonneg_i32_gamma:
  assumes "iv_nonneg_i32 a" "x \<in> iv_gamma a"
  shows "0 \<le> to_int32 x \<and> to_int32 x \<le> iv_hi a"
proof -
  from assms(1) obtain l h nz where a: "a = Some (l, h, nz)" "0 \<le> l" "h \<le> I32_HI"
    by (auto simp: iv_nonneg_i32_def split: option.splits)
  with assms(2) to_int32_bounded [of x l h nz] show ?thesis by (simp add: iv_hi_def I32_LO_def)
qed

lemma iv_nonneg_i32_hi: "iv_nonneg_i32 a \<Longrightarrow> iv_hi a \<le> I32_HI"
  by (auto simp: iv_nonneg_i32_def iv_hi_def split: option.splits)

lemma iv_I32_gamma: "I32_LO \<le> n \<Longrightarrow> n \<le> I32_HI \<Longrightarrow> IV_I32 = Some r \<Longrightarrow> JInt n \<in> iv_gamma (Some r)"
  by (auto simp: IV_I32_def)

lemma iv_bitand_sound:
  assumes "x \<in> iv_gamma a" "y \<in> iv_gamma b" "iv_bitand a b = Some r"
  shows "\<exists>v. js_bitand x y = Some v \<and> v \<in> iv_gamma (Some r)"
proof -
  let ?x = "to_int32 x" and ?y = "to_int32 y"
  have a: "iv_nonneg_i32 a \<Longrightarrow> 0 \<le> ?x AND ?y \<and> ?x AND ?y \<le> iv_hi a"
    using iv_nonneg_i32_gamma [OF _ assms(1)] AND_upper1 [of ?x ?y] AND_lower [of ?x ?y] by force
  have b: "iv_nonneg_i32 b \<Longrightarrow> 0 \<le> ?x AND ?y \<and> ?x AND ?y \<le> iv_hi b"
    using iv_nonneg_i32_gamma [OF _ assms(2)] AND_upper1 [of ?y ?x] AND_lower [of ?y ?x]
    by (force simp: and.commute [of ?x ?y])
  show ?thesis using a b assms(3) bitop_int32_range(1) [of x y]
    by (auto simp: iv_bitand_def js_bitand_def IV_I32_def split: bool.splits)
qed

lemma bitor_upper:
  fixes u v m :: int
  assumes "0 \<le> u" "u \<le> m" "0 \<le> v" "v \<le> m"
  shows "u OR v \<le> next_power_of_two (m + 1) - 1" "u XOR v \<le> next_power_of_two (m + 1) - 1"
proof -
  obtain k where k: "next_power_of_two (m + 1) = 2 ^ k" using next_power_of_two_pow by blast
  with next_power_of_two_ge [of "m + 1"] assms have "u < 2 ^ k" "v < 2 ^ k" by auto
  with assms k OR_upper [of u k v] XOR_upper [of u k v]
  show "u OR v \<le> next_power_of_two (m + 1) - 1" "u XOR v \<le> next_power_of_two (m + 1) - 1" by auto
qed

lemma iv_bitorxor_exact:
  assumes "iv_nonneg_i32 a" "iv_nonneg_i32 b" "0 \<le> iv_hi a"
  shows "iv_bitorxor a b = Some (0, min (next_power_of_two (max (iv_hi a) (iv_hi b) + 1) - 1) I32_HI, False)"
proof -
  let ?m = "max (iv_hi a) (iv_hi b)"
  have m: "0 \<le> ?m" "?m \<le> I32_HI" using assms iv_nonneg_i32_hi by auto
  then have "next_power_of_two (?m + 1) \<le> 2 ^ 31"
    by (intro next_power_of_two_least) (simp add: I32_HI_def)
  with next_power_of_two_pos [of "?m + 1"] m show ?thesis
    by (simp add: iv_bitorxor_def assms Let_def i64_sub_def i64_add_def in_i64_def I32_HI_def)
qed

lemma iv_bitorxor_sound:
  assumes "x \<in> iv_gamma a" "y \<in> iv_gamma b" "iv_bitorxor a b = Some r"
  shows "(\<exists>v. js_bitor x y = Some v \<and> v \<in> iv_gamma (Some r)) \<and>
    (\<exists>v. js_bitxor x y = Some v \<and> v \<in> iv_gamma (Some r))"
proof (cases "iv_nonneg_i32 a \<and> iv_nonneg_i32 b")
  case True
  let ?x = "to_int32 x" and ?y = "to_int32 y" and ?m = "max (iv_hi a) (iv_hi b)"
  have x: "0 \<le> ?x" "?x \<le> iv_hi a" and y: "0 \<le> ?y" "?y \<le> iv_hi b"
    using iv_nonneg_i32_gamma assms(1,2) True by blast+
  from x(1) x(2) have "0 \<le> iv_hi a" by simp
  with True assms(3) have r: "r = (0, min (next_power_of_two (?m + 1) - 1) I32_HI, False)"
    by (simp add: iv_bitorxor_exact)
  have "?x OR ?y \<le> next_power_of_two (?m + 1) - 1" "?x XOR ?y \<le> next_power_of_two (?m + 1) - 1"
    by (rule bitor_upper; use x y in linarith)+
  with x y bitop_int32_range(2,3) [of x y] show ?thesis
    by (auto simp: r js_bitor_def js_bitxor_def OR_lower XOR_lower)
next
  case False
  with assms(3) have "IV_I32 = Some r" by (auto simp: iv_bitorxor_def)
  with bitop_int32_range(2,3) [of x y] show ?thesis
    by (auto simp: js_bitor_def js_bitxor_def IV_I32_def)
qed

lemma iv_bitnot_sound:
  assumes "x \<in> iv_gamma a" "iv_bitnot a = Some r"
  shows "\<exists>v. js_bitnot x = Some v \<and> v \<in> iv_gamma (Some r)"
proof -
  have not: "NOT (to_int32 x) = - to_int32 x - 1" by (simp add: not_int_def)
  have "I32_LO \<le> NOT (to_int32 x)" "NOT (to_int32 x) \<le> I32_HI"
    using to_int32_range [of x] by (simp_all add: not iv_consts)
  moreover have "l \<le> to_int32 x \<and> to_int32 x \<le> h"
    if "a = Some (l, h, nz)" "I32_LO \<le> l" "h \<le> I32_HI" for l h nz
    using to_int32_bounded [of x l h nz] assms(1) that by simp
  ultimately show ?thesis using assms(2)
    by (auto simp: iv_bitnot_def js_bitnot_def not IV_I32_def split: option.splits if_splits)
qed

lemma iv_const_gamma:
  assumes "iv_const b = Some k" "y \<in> iv_gamma b"
  shows "y = JInt k"
proof -
  from assms(1) have "b = Some (k, k, False)" by (auto simp: iv_const_def split: option.splits if_splits)
  with assms(2) show ?thesis by (auto elim: iv_gamma_cases)
qed

lemma shift_count_const: "0 \<le> k \<Longrightarrow> k \<le> 31 \<Longrightarrow> shift_count (JInt k) = nat k"
  by (simp add: shift_count_def)

lemma div_int32_range:
  assumes "I32_LO \<le> n" "n \<le> I32_HI"
  shows "I32_LO \<le> n div 2 ^ k \<and> n div 2 ^ k \<le> I32_HI"
proof -
  have "I32_LO div 1 \<le> I32_LO div 2 ^ k" "I32_HI div 2 ^ k \<le> I32_HI div 1"
    by (intro zdiv_mono2_neg zdiv_mono2; simp add: I32_LO_def I32_HI_def)+
  moreover have "I32_LO div 2 ^ k \<le> n div 2 ^ k" "n div 2 ^ k \<le> I32_HI div 2 ^ k"
    using assms by (auto intro: zdiv_mono1)
  ultimately show ?thesis by simp
qed

lemma iv_rsh_sound:
  assumes "x \<in> iv_gamma a" "y \<in> iv_gamma b" "iv_rsh a b = Some r"
  shows "\<exists>v. js_rsh x y = Some v \<and> v \<in> iv_gamma (Some r)"
proof (cases "\<exists>k. iv_const b = Some k \<and> 0 \<le> k \<and> k \<le> 31")
  case True
  then obtain k where k: "iv_const b = Some k" "0 \<le> k" "k \<le> 31" by blast
  then have v: "js_rsh x y = Some (JInt (to_int32 x div 2 ^ nat k))"
    using iv_const_gamma [OF _ assms(2)] by (simp add: js_rsh_def shift_count_const)
  have wide: "I32_LO div 2 ^ nat k \<le> to_int32 x div 2 ^ nat k" "to_int32 x div 2 ^ nat k \<le> I32_HI div 2 ^ nat k"
    using to_int32_range [of x] by (auto intro: zdiv_mono1)
  have tight: "l div 2 ^ nat k \<le> to_int32 x div 2 ^ nat k \<and> to_int32 x div 2 ^ nat k \<le> h div 2 ^ nat k"
    if "a = Some (l, h, nz)" "I32_LO \<le> l" "h \<le> I32_HI" for l h nz
    using to_int32_bounded [of x l h nz] assms(1) that by (auto intro: zdiv_mono1)
  show ?thesis using assms(3) k wide tight
    by (auto simp: v iv_rsh_def i64_shr_def split: option.splits if_splits)
next
  case False
  with assms(3) have "IV_I32 = Some r" by (auto simp: iv_rsh_def split: option.splits if_splits)
  with div_int32_range [OF to_int32_range, of x "shift_count y"] show ?thesis
    by (auto simp: js_rsh_def IV_I32_def)
qed

lemma shl_int32_i64:
  fixes c p :: int
  assumes "1 \<le> p" "p \<le> 2 ^ 31" "I32_LO \<le> c" "c \<le> I32_HI"
  shows "in_i64 (c * p)"
proof -
  have "\<bar>c\<bar> * p \<le> 2 ^ 31 * 2 ^ 31" by (rule mult_mono) (use assms in \<open>auto simp: iv_consts\<close>)
  then have "\<bar>c * p\<bar> \<le> 2 ^ 62" using assms by (simp add: abs_mult)
  then show ?thesis by (auto simp: in_i64_def)
qed

lemma iv_lsh_sound:
  assumes "x \<in> iv_gamma a" "y \<in> iv_gamma b" "iv_lsh a b = Some r"
  shows "\<exists>v. js_lsh x y = Some v \<and> v \<in> iv_gamma (Some r)"
proof (cases "IV_I32 = Some r")
  case True
  then show ?thesis using wrap32_bounds by (auto simp: js_lsh_def iv_consts)
next
  case False
  with assms(3) obtain k l h nz where k: "iv_const b = Some k" "0 \<le> k" "k \<le> 31"
    and a: "a = Some (l, h, nz)" "I32_LO \<le> l" "h \<le> I32_HI"
    and r: "r = (i64_shl l (nat k), i64_shl h (nat k), False)"
      "I32_LO \<le> i64_shl l (nat k)" "i64_shl h (nat k) \<le> I32_HI"
    by (auto simp: iv_lsh_def Let_def split: option.splits if_splits)
  have x: "l \<le> to_int32 x" "to_int32 x \<le> h" using to_int32_bounded assms(1) a by blast+
  have "(2::int) ^ nat k \<le> 2 ^ 31" by (rule power_increasing) (use k in auto)
  moreover have "l \<le> I32_HI" "I32_LO \<le> h" using x to_int32_range [of x] by linarith+
  ultimately have "in_i64 (l * 2 ^ nat k)" "in_i64 (h * 2 ^ nat k)" using a
    by (auto intro!: shl_int32_i64)
  then have sh: "i64_shl l (nat k) = l * 2 ^ nat k" "i64_shl h (nat k) = h * 2 ^ nat k"
    by (simp_all add: i64_shl_def)
  have m: "l * 2 ^ nat k \<le> to_int32 x * 2 ^ nat k" "to_int32 x * 2 ^ nat k \<le> h * 2 ^ nat k"
    using x by (auto intro: mult_right_mono)
  then have "wrap32 (to_int32 x * 2 ^ nat k) = to_int32 x * 2 ^ nat k"
    using order_trans [OF r(2)[unfolded sh] m(1)] order_trans [OF m(2) r(3)[unfolded sh]]
    by (intro wrap32_id) (auto simp: iv_consts)
  moreover have "y = JInt k" using iv_const_gamma [OF k(1) assms(2)] .
  ultimately show ?thesis using m k by (simp add: js_lsh_def r sh shift_count_const)
qed

lemma iv_ursh_sound:
  assumes "x \<in> iv_gamma a" "y \<in> iv_gamma b" "iv_ursh a b = Some r"
  shows "\<exists>v. js_ursh x y = Some v \<and> v \<in> iv_gamma (Some r)"
proof -
  let ?u = "to_int32 x mod 2 ^ 32"
  have u: "0 \<le> ?u" "?u \<le> 2 ^ 32 - 1" by (auto intro: pos_mod_sign pos_mod_bound)
  have top: "0 \<le> ?u div 2 ^ n" "?u div 2 ^ n \<le> (2 ^ 32 - 1) div 2 ^ n" for n
    using u by (auto simp: pos_imp_zdiv_nonneg_iff intro: zdiv_mono1)
  have all: "?u div 2 ^ n \<le> 2 ^ 32 - 1" for n
    using zdiv_mono2 [of ?u 1 "2 ^ n"] u by (auto intro: order_trans)
  show ?thesis
  proof (cases "\<exists>k. iv_const b = Some k \<and> 0 \<le> k \<and> k \<le> 31")
    case True
    then obtain k where k: "iv_const b = Some k" "0 \<le> k" "k \<le> 31" by blast
    then have v: "js_ursh x y = Some (JInt (?u div 2 ^ nat k))"
      using iv_const_gamma [OF _ assms(2)] by (simp add: js_ursh_def shift_count_const)
    have tight: "l div 2 ^ nat k \<le> ?u div 2 ^ nat k \<and> ?u div 2 ^ nat k \<le> h div 2 ^ nat k"
      if "a = Some (l, h, nz)" "0 \<le> l" "h \<le> I32_HI" for l h nz
    proof -
      have "l \<le> to_int32 x" "to_int32 x \<le> h"
        using to_int32_bounded [of x l h nz] assms(1) that by (auto simp: I32_LO_def)
      moreover from this that have "?u = to_int32 x" by (simp add: I32_HI_def)
      ultimately show ?thesis by (auto intro: zdiv_mono1)
    qed
    show ?thesis using assms(3) k top tight
      by (auto simp: v iv_ursh_def i64_shr_def iv_nonneg_i32_def split: option.splits if_splits)
  next
    case False
    with assms(3) have "r = (0, 2 ^ 32 - 1, False)" by (auto simp: iv_ursh_def split: option.splits if_splits)
    with top all show ?thesis by (auto simp: js_ursh_def)
  qed
qed

section \<open>The operator contract\<close>

text \<open>
  What a client of the algebra relies on: from well-formed operands a well-formed result, and the
  operator's value on any admitted numbers is exact and admitted by the result, outside the
  operands \<open>gap\<close> names.
\<close>

locale iv_operator =
  fixes js :: "jsnum \<Rightarrow> jsnum \<Rightarrow> jsnum option" and iv :: "Iv \<Rightarrow> Iv \<Rightarrow> Iv" and gap :: "Iv \<Rightarrow> Iv \<Rightarrow> bool"
  assumes closed: "iv_wf a \<Longrightarrow> iv_wf b \<Longrightarrow> iv_wf (iv a b)"
    and sound: "iv_wf a \<Longrightarrow> iv_wf b \<Longrightarrow> \<not> gap a b \<Longrightarrow> x \<in> iv_gamma a \<Longrightarrow> y \<in> iv_gamma b \<Longrightarrow>
      iv a b = Some r \<Longrightarrow> \<exists>v. js x y = Some v \<and> v \<in> iv_gamma (Some r)"
begin

text \<open>A clean result interval proves an exact integer in bounds, never negative zero.\<close>

lemma clean_integer:
  assumes "iv_wf a" "iv_wf b" "\<not> gap a b" "x \<in> iv_gamma a" "y \<in> iv_gamma b" "iv_clean (iv a b) = Some w"
  shows "\<exists>n. js x y = Some (JInt n) \<and> lo w \<le> n \<and> n \<le> hi w"
proof -
  from assms(6) obtain l h where ab: "iv a b = Some (l, h, False)" and w: "w = vr l h"
    by (auto simp: iv_clean_def split: option.splits if_splits)
  from sound [OF assms(1-5) ab] obtain v where "js x y = Some v" "v \<in> iv_gamma (Some (l, h, False))"
    by blast
  then show ?thesis by (cases v) (auto simp: w vr_def)
qed

text \<open>A clean result within int32 bounds is an int32 value: \<open>ToInt32\<close> leaves it alone.\<close>

lemma clean_int32_tag:
  assumes "iv_wf a" "iv_wf b" "\<not> gap a b" "x \<in> iv_gamma a" "y \<in> iv_gamma b" "iv_clean (iv a b) = Some w"
    "I32_LO \<le> lo w" "hi w \<le> I32_HI"
  shows "\<exists>n. js x y = Some (JInt n) \<and> to_int32 (JInt n) = n"
proof -
  from clean_integer [OF assms(1-6)] obtain n where n: "js x y = Some (JInt n)" "lo w \<le> n" "n \<le> hi w"
    by blast
  with assms(7,8) have "to_int32 (JInt n) = n" by (simp add: iv_consts)
  with n show ?thesis by blast
qed

end

lemma iv_nonneg_i32_wf: "iv_nonneg_i32 a \<Longrightarrow> iv_wf a \<Longrightarrow> 0 \<le> iv_hi a \<and> iv_hi a \<le> I32_HI"
  by (auto simp: iv_nonneg_i32_def iv_hi_def split: option.splits)

lemma int32_lim: "I32_LO \<le> l \<Longrightarrow> h \<le> I32_HI \<Longrightarrow> - IV_LIM \<le> l \<and> h \<le> IV_LIM"
  by (auto simp: iv_consts)

lemma iv_I32_wf [simp]: "iv_wf IV_I32"
  by (simp add: iv_consts)

lemma iv_bitand_wf: "iv_wf a \<Longrightarrow> iv_wf b \<Longrightarrow> iv_wf (iv_bitand a b)"
  using iv_nonneg_i32_wf [of a] iv_nonneg_i32_wf [of b]
  by (auto simp: iv_bitand_def iv_consts split: bool.splits)

lemma iv_bitorxor_wf: "iv_wf a \<Longrightarrow> iv_wf b \<Longrightarrow> iv_wf (iv_bitorxor a b)"
proof (cases "iv_nonneg_i32 a \<and> iv_nonneg_i32 b")
  case True
  assume "iv_wf a" "iv_wf b"
  with True iv_nonneg_i32_wf have "0 \<le> iv_hi a" by blast
  moreover have "0 < next_power_of_two (max (iv_hi a) (iv_hi b) + 1)" by (rule next_power_of_two_pos)
  ultimately show ?thesis using True by (simp add: iv_bitorxor_exact iv_consts)
qed (auto simp: iv_bitorxor_def)

lemma iv_lsh_wf: "iv_wf a \<Longrightarrow> iv_wf (iv_lsh a b)"
proof (cases "iv_lsh a b = IV_I32")
  case False
  assume wf: "iv_wf a"
  from False obtain k l h nz where "a = Some (l, h, nz)" "0 \<le> k" "k \<le> 31" "I32_LO \<le> l" "h \<le> I32_HI"
    and r: "iv_lsh a b = Some (i64_shl l (nat k), i64_shl h (nat k), False)"
      "I32_LO \<le> i64_shl l (nat k)" "i64_shl h (nat k) \<le> I32_HI"
    by (auto simp: iv_lsh_def Let_def split: option.splits if_splits)
  moreover from this wf have "l \<le> h" by simp
  moreover have "(2::int) ^ nat k \<le> 2 ^ 31" by (rule power_increasing) (use \<open>k \<le> 31\<close> in auto)
  ultimately have "i64_shl l (nat k) = l * 2 ^ nat k" "i64_shl h (nat k) = h * 2 ^ nat k"
    by (auto simp: i64_shl_def intro!: wrap64_id shl_int32_i64)
  with r \<open>l \<le> h\<close> int32_lim [OF r(2,3)] show ?thesis by (simp add: mult_right_mono)
qed simp

lemma iv_rsh_wf: "iv_wf a \<Longrightarrow> iv_wf (iv_rsh a b)"
proof -
  assume wf: "iv_wf a"
  have "l div 2 ^ k \<le> h div 2 ^ k \<and> - IV_LIM \<le> l div 2 ^ k \<and> h div 2 ^ k \<le> IV_LIM"
    if "I32_LO \<le> l" "l \<le> h" "h \<le> I32_HI" for l h :: int and k :: nat
    using that div_int32_range [of l k] div_int32_range [of h k] int32_lim [of "l div 2 ^ k" "h div 2 ^ k"]
    by (auto intro: zdiv_mono1)
  moreover have "I32_LO \<le> I32_HI" by (simp add: iv_consts)
  ultimately show ?thesis using wf
    by (auto simp: iv_rsh_def i64_shr_def split: option.splits if_splits)
qed

lemma iv_ursh_wf: "iv_wf a \<Longrightarrow> iv_wf (iv_ursh a b)"
proof -
  assume wf: "iv_wf a"
  have "l div 2 ^ k \<le> h div 2 ^ k \<and> - IV_LIM \<le> l div 2 ^ k \<and> h div 2 ^ k \<le> IV_LIM"
    if "0 \<le> l" "l \<le> h" "h \<le> I32_HI" for l h :: int and k :: nat
    using that div_int32_range [of l k] div_int32_range [of h k] int32_lim [of "l div 2 ^ k" "h div 2 ^ k"]
    by (auto simp: I32_LO_def intro: zdiv_mono1)
  moreover have "0 \<le> (4294967295 :: int) div 2 ^ k \<and> (4294967295 :: int) div 2 ^ k \<le> IV_LIM" for k
    using zdiv_mono2 [of 4294967295 1 "2 ^ k :: int"]
    by (auto simp: IV_LIM_def pos_imp_zdiv_nonneg_iff)
  ultimately show ?thesis using wf
    by (auto simp: iv_ursh_def i64_shr_def iv_nonneg_i32_def IV_LIM_def split: option.splits if_splits)
qed

lemma iv_bitnot_wf: "iv_wf a \<Longrightarrow> iv_wf (iv_bitnot a)"
  by (auto simp: iv_bitnot_def iv_consts split: option.splits)

interpretation add: iv_operator js_add iv_add "\<lambda>_ _. False"
  by unfold_locales (auto intro: iv_arith_wf iv_add_sound)

interpretation sub: iv_operator js_sub iv_sub "\<lambda>_ _. False"
  by unfold_locales (auto intro: iv_arith_wf iv_sub_sound)

interpretation mul: iv_operator js_mul iv_mul mul_zero_gap
  by unfold_locales (auto intro: iv_arith_wf iv_mul_sound)

interpretation modulo: iv_operator js_mod iv_mod "\<lambda>_ _. False"
  by unfold_locales (auto intro: iv_arith_wf iv_mod_sound)

interpretation band: iv_operator js_bitand iv_bitand "\<lambda>_ _. False"
  by unfold_locales (auto intro: iv_bitand_wf iv_bitand_sound)

interpretation bor: iv_operator js_bitor iv_bitorxor "\<lambda>_ _. False"
  by unfold_locales (use iv_bitorxor_wf iv_bitorxor_sound in blast)+

interpretation bxor: iv_operator js_bitxor iv_bitorxor "\<lambda>_ _. False"
  by unfold_locales (use iv_bitorxor_wf iv_bitorxor_sound in blast)+

interpretation lsh: iv_operator js_lsh iv_lsh "\<lambda>_ _. False"
  by unfold_locales (auto intro: iv_lsh_wf iv_lsh_sound)

interpretation rsh: iv_operator js_rsh iv_rsh "\<lambda>_ _. False"
  by unfold_locales (auto intro: iv_rsh_wf iv_rsh_sound)

interpretation ursh: iv_operator js_ursh iv_ursh "\<lambda>_ _. False"
  by unfold_locales (auto intro: iv_ursh_wf iv_ursh_sound)

section \<open>Ladders\<close>

text \<open>The magnitudes quantization can produce: 0 to 8, then the powers of two up to \<open>2^31\<close>.\<close>

definition ladder :: "int list" where
  "ladder = [0, 1, 2, 3, 4, 5, 6, 7, 8] @ map (\<lambda>k. 2 ^ k) [4..<32]"

lemma ladder_mem: "m \<in> set ladder \<longleftrightarrow> (0 \<le> m \<and> m \<le> 8) \<or> (\<exists>k. 4 \<le> k \<and> k < 32 \<and> m = 2 ^ k)"
proof -
  have "m \<in> set [0, 1, 2, 3, 4, 5, 6, 7, 8] \<longleftrightarrow> 0 \<le> m \<and> m \<le> 8" for m :: int by auto
  then show ?thesis unfolding ladder_def set_append set_map set_upt by (auto simp: image_iff)
qed

lemma hq_mag_up_ladder:
  assumes "0 \<le> m" "m \<le> 2 ^ 31"
  shows "hq_mag_up m \<in> set ladder" "m \<le> hq_mag_up m" "hq_mag_up m \<le> 2 ^ 31"
proof -
  show "m \<le> hq_mag_up m" by (simp add: hq_mag_up_def next_power_of_two_ge)
  show le: "hq_mag_up m \<le> 2 ^ 31" using assms next_power_of_two_least [of m 31] by (simp add: hq_mag_up_def)
  show "hq_mag_up m \<in> set ladder"
  proof (cases "m \<le> 8")
    case True
    with assms show ?thesis by (simp add: hq_mag_up_def ladder_mem)
  next
    case False
    obtain k where k: "next_power_of_two m = 2 ^ k" using next_power_of_two_pow by blast
    with False next_power_of_two_ge [of m] have "(2::int) ^ 3 < 2 ^ k" by simp
    then have "3 < k" by (rule power_less_imp_less_exp [rotated]) simp
    moreover have "(2::int) ^ k \<le> 2 ^ 31" using k le False by (simp add: hq_mag_up_def)
    then have "k \<le> 31" by (rule power_le_imp_le_exp [rotated]) simp
    ultimately show ?thesis using False k by (auto simp: hq_mag_up_def ladder_mem)
  qed
qed

lemma hq_mag_up_fix: "m \<in> set ladder \<Longrightarrow> hq_mag_up m = m"
  by (auto simp: ladder_mem hq_mag_up_def next_power_of_two_of_pow)

lemma hq_lo_eq: "hq_lo l = (if l < I32_LO then None else if l \<ge> 0 then Some 0 else Some (- hq_mag_up (- l)))"
proof (cases "I32_LO \<le> l \<and> l < 0")
  case True
  then have "0 \<le> - l" "- l \<le> 2 ^ 31" by (auto simp: I32_LO_def)
  note q = hq_mag_up_ladder [OF this]
  with True show ?thesis by (simp add: hq_lo_def i64_neg_def in_i64_def I32_LO_def)
qed (auto simp: hq_lo_def I32_LO_def)

lemma hq_hi_eq: "hq_hi h = (if h > I32_HI then None else if h \<le> 0 then Some 0 else Some (hq_mag_up (h + 1) - 1))"
proof (cases "0 < h \<and> h \<le> I32_HI")
  case True
  then have "0 \<le> h + 1" "h + 1 \<le> 2 ^ 31" by (auto simp: I32_HI_def)
  note q = hq_mag_up_ladder [OF this]
  with True show ?thesis by (simp add: hq_hi_def I32_HI_def)
qed (auto simp: hq_hi_def I32_HI_def)

text \<open>A bound pair is quantized when it is a fixed point of the ladder.\<close>

definition quantized :: "ValueRange \<Rightarrow> bool" where
  "quantized w \<longleftrightarrow> - lo w \<in> set ladder \<and> hi w + 1 \<in> set ladder \<and> 0 \<le> hi w"

lemma ladder_le: "m \<in> set ladder \<Longrightarrow> 0 \<le> m \<and> m \<le> 2 ^ 31"
  by (auto simp: ladder_mem intro: order_trans [OF power_increasing [of _ 31]])

lemma hq_Some:
  assumes "hq l h = Some (a, b)"
  shows "a \<le> l" "h \<le> b" "quantized (vr a b)"
proof -
  from assms have a: "hq_lo l = Some a" and b: "hq_hi h = Some b"
    by (auto simp: hq_def split: option.splits)
  from a show "a \<le> l" using hq_mag_up_ladder(2) [of "- l"] by (auto simp: hq_lo_eq I32_LO_def split: if_splits)
  from b show "h \<le> b" using hq_mag_up_ladder(2) [of "h + 1"] by (auto simp: hq_hi_eq I32_HI_def split: if_splits)
  have "- a \<in> set ladder"
    using a hq_mag_up_ladder(1) [of "- l"] by (auto simp: hq_lo_eq I32_LO_def ladder_mem split: if_splits)
  moreover have "b + 1 \<in> set ladder" "0 \<le> b"
    using b hq_mag_up_ladder(1,2) [of "h + 1"] by (auto simp: hq_hi_eq I32_HI_def ladder_mem split: if_splits)
  ultimately show "quantized (vr a b)" by (simp add: quantized_def vr_def)
qed

lemma quantized_hq: "quantized w \<Longrightarrow> hq (lo w) (hi w) = Some (lo w, hi w)"
  using ladder_le [of "- lo w"] ladder_le [of "hi w + 1"]
  by (auto simp: quantized_def hq_def hq_lo_eq hq_hi_eq hq_mag_up_fix I32_LO_def I32_HI_def)

lemma quantized_bounds: "quantized w \<Longrightarrow> I32_LO \<le> lo w \<and> lo w \<le> 0 \<and> 0 \<le> hi w \<and> hi w \<le> I32_HI"
  using ladder_le [of "- lo w"] ladder_le [of "hi w + 1"] by (auto simp: quantized_def I32_LO_def I32_HI_def)

lemma quantized_hull: "quantized v \<Longrightarrow> quantized w \<Longrightarrow> quantized (hull v w)"
  by (auto simp: quantized_def hull_def vr_def min_def max_def)

text \<open>The position of a magnitude on the ladder grows strictly along it and is at most 37.\<close>

definition rung :: "int \<Rightarrow> nat" where
  "rung m = length (filter (\<lambda>v. v < m) ladder)"

lemma rung_strict: "m \<in> set ladder \<Longrightarrow> m < m' \<Longrightarrow> rung m < rung m'"
proof -
  assume m: "m \<in> set ladder" "m < m'"
  have "filter (\<lambda>v. v < m) (filter (\<lambda>v. v < m') ladder) = filter (\<lambda>v. v < m) ladder"
    using m(2) by (auto intro: filter_cong)
  moreover have "length (filter (\<lambda>v. v < m) (filter (\<lambda>v. v < m') ladder)) < length (filter (\<lambda>v. v < m') ladder)"
    by (rule length_filter_less [of m]) (use m in auto)
  ultimately show ?thesis by (simp add: rung_def)
qed

lemma rung_bound: "rung m \<le> 37"
  using length_filter_le [of "\<lambda>v. v < m" ladder] by (simp add: rung_def ladder_def)

section \<open>Recorded joins converge\<close>

definition vr_wf :: "ValueRange \<Rightarrow> bool" where
  "vr_wf w \<longleftrightarrow> lo w \<le> hi w"

definition vr_contains :: "ValueRange \<Rightarrow> ValueRange \<Rightarrow> bool" where
  "vr_contains u w \<longleftrightarrow> lo u \<le> lo w \<and> hi w \<le> hi u"

lemma hull_contains: "vr_contains (hull a b) a" "vr_contains (hull a b) b"
  by (simp_all add: vr_contains_def hull_def vr_def)

lemma vr_eqI: "lo u = lo w \<Longrightarrow> hi u = hi w \<Longrightarrow> u = (w :: ValueRange)"
  by simp

lemma widen_lo_le: "widen_lo l = Some a \<Longrightarrow> a \<le> l"
  by (auto simp: widen_lo_def split: if_splits)

lemma widen_hi_ge: "widen_hi h = Some b \<Longrightarrow> h \<le> b"
  by (auto simp: widen_hi_def split: if_splits)

lemma iv_join_recorded_contains:
  "iv_join_recorded n st = Some u \<Longrightarrow> vr_contains u n \<and> vr_contains u st"
  by (auto simp: iv_join_recorded_def Let_def hull_def vr_def vr_contains_def
      split: option.splits if_splits dest!: widen_lo_le widen_hi_ge)

text \<open>How many widening rungs a lower and an upper bound have passed.\<close>

definition lo_rung :: "int \<Rightarrow> nat" where
  "lo_rung l = length (filter (\<lambda>r. l \<le> r) [0, - (2 ^ 31), - (2 ^ 36), - (2 ^ 48)])"

definition hi_rung :: "int \<Rightarrow> nat" where
  "hi_rung h = length (filter (\<lambda>r. r \<le> h) [0, 2 ^ 31 - 1, 2 ^ 36, 2 ^ 48])"

lemma lo_rung_mono: "l \<le> l' \<Longrightarrow> lo_rung l' \<le> lo_rung l"
  by (simp add: lo_rung_def)

lemma hi_rung_mono: "h \<le> h' \<Longrightarrow> hi_rung h \<le> hi_rung h'"
  by (simp add: hi_rung_def)

lemma rung_le4: "lo_rung l \<le> 4" "hi_rung h \<le> 4"
  by (simp_all add: lo_rung_def hi_rung_def)

lemma widen_lo_rung: "widen_lo u = Some a \<Longrightarrow> u < l \<Longrightarrow> lo_rung l < lo_rung a"
  by (simp add: widen_lo_def lo_rung_def I32_LO_def split: if_splits)

lemma widen_hi_rung: "widen_hi u = Some b \<Longrightarrow> h < u \<Longrightarrow> hi_rung h < hi_rung b"
  by (simp add: widen_hi_def hi_rung_def I32_HI_def split: if_splits)

text \<open>The stored slot of a recorded fact and the updates it takes.\<close>

definition slot_upd :: "ValueRange option \<times> nat \<Rightarrow> ValueRange \<Rightarrow> ValueRange option \<times> nat" where
  "slot_upd st n = iv_join_tolerant (Some n) (fst st) (snd st)"

definition slot_rank :: "ValueRange option \<times> nat \<Rightarrow> nat" where
  "slot_rank st = (case fst st of None \<Rightarrow> (if snd st = 0 then 13 else 12) | Some w \<Rightarrow> snd st + lo_rung (lo w) + hi_rung (hi w))"

definition slot_ok :: "ValueRange option \<times> nat \<Rightarrow> bool" where
  "slot_ok st \<longleftrightarrow> snd st \<le> 3"

lemma recorded_rank:
  assumes "iv_join_recorded n w = Some u" "hull n w \<noteq> w"
  shows "lo_rung (lo w) + hi_rung (hi w) < lo_rung (lo u) + hi_rung (hi u)"
proof -
  have mono: "lo_rung (lo w) \<le> lo_rung (lo u)" "hi_rung (hi w) \<le> hi_rung (hi u)"
    using iv_join_recorded_contains [OF assms(1)] by (auto simp: vr_contains_def lo_rung_mono hi_rung_mono)
  from assms(2) consider "lo (hull n w) < lo w" | "hi w < hi (hull n w)"
    by (force simp: hull_def vr_def min_def max_def split: if_splits)
  then show ?thesis
  proof cases
    case 1
    with assms(1) have "widen_lo (lo (hull n w)) = Some (lo u)"
      by (auto simp: iv_join_recorded_def Let_def vr_def split: option.splits)
    from widen_lo_rung [OF this 1] mono show ?thesis by simp
  next
    case 2
    with assms(1) have "widen_hi (hi (hull n w)) = Some (hi u)"
      by (auto simp: iv_join_recorded_def Let_def vr_def split: option.splits)
    from widen_hi_rung [OF this 2] mono show ?thesis by simp
  qed
qed

lemma slot_upd_None: "slot_upd (None, g) n = (None, 0)"
  by (simp add: slot_upd_def iv_join_tolerant_def)

lemma slot_upd_Some:
  "slot_upd (Some w, g) n =
     (if hull n w = w then (Some w, g) else if g \<ge> 3 then (iv_join_recorded n w, g) else (Some (hull n w), g + 1))"
  by (simp add: slot_upd_def iv_join_tolerant_def Let_def IV_WIDEN_JOINS_def)

lemma slot_upd_rank_Some:
  assumes "g \<le> 3" "slot_upd (Some w, g) n \<noteq> (Some w, g)"
  shows "slot_rank (Some w, g) < slot_rank (slot_upd (Some w, g) n)"
proof -
  let ?u = "hull n w"
  have ne: "?u \<noteq> w" using assms(2) by (auto simp: slot_upd_Some)
  have small: "g + lo_rung (lo w) + hi_rung (hi w) < 12"
    using assms(1) rung_le4(1) [of "lo w"] rung_le4(2) [of "hi w"] by linarith
  have mono: "lo_rung (lo w) \<le> lo_rung (lo ?u)" "hi_rung (hi w) \<le> hi_rung (hi ?u)"
    using hull_contains(2) [where a = n and b = w]
    by (auto simp: vr_contains_def lo_rung_mono hi_rung_mono)
  show ?thesis
  proof (cases "g \<ge> 3")
    case True
    then show ?thesis using ne small recorded_rank [OF _ ne]
      by (cases "iv_join_recorded n w") (auto simp: slot_upd_Some slot_rank_def)
  qed (use ne mono in \<open>simp add: slot_upd_Some slot_rank_def\<close>)
qed

interpretation recorded_slot: ranked_join slot_upd slot_rank 13 slot_ok "\<lambda>_. True"
proof
  fix st :: "ValueRange option \<times> nat" and n
  obtain w g where st: "st = (w, g)" by (cases st)
  assume ok: "slot_ok st"
  show "slot_ok (slot_upd st n)"
    using ok by (cases w) (auto simp: st slot_ok_def slot_upd_None slot_upd_Some)
  show "slot_rank st \<le> 13"
    using ok rung_le4(1) [of "lo (the w)"] rung_le4(2) [of "hi (the w)"]
    by (cases w) (auto simp: st slot_ok_def slot_rank_def)
  assume ch: "slot_upd st n \<noteq> st"
  show "slot_rank st < slot_rank (slot_upd st n)"
  proof (cases w)
    case None
    with ch show ?thesis by (auto simp: st slot_upd_None slot_rank_def)
  next
    case (Some v)
    with ch ok show ?thesis using slot_upd_rank_Some [of g v n] by (simp add: st slot_ok_def)
  qed
qed

section \<open>Properties\<close>

text \<open>The numbers an operator gives on the numbers two intervals, or one, admit.\<close>

definition results2 :: "(jsnum \<Rightarrow> jsnum \<Rightarrow> jsnum option) \<Rightarrow> Iv \<Rightarrow> Iv \<Rightarrow> jsnum set" where
  "results2 f a b = {v. \<exists>x\<in>iv_gamma a. \<exists>y\<in>iv_gamma b. f x y = Some v}"

definition results1 :: "(jsnum \<Rightarrow> jsnum option) \<Rightarrow> Iv \<Rightarrow> jsnum set" where
  "results1 f a = {v. \<exists>x\<in>iv_gamma a. f x = Some v}"

definition flag_ok :: "Iv \<Rightarrow> bool" where
  "flag_ok iv = (case iv of None \<Rightarrow> False | Some (l, h, nz) \<Rightarrow> nz \<longrightarrow> l \<le> 0 \<and> 0 \<le> h)"

lemma split_sum:
  fixes al ah bl bh v :: int
  assumes "al \<le> ah" "bl \<le> bh" "al + bl \<le> v" "v \<le> ah + bh"
  obtains n m where "al \<le> n" "n \<le> ah" "bl \<le> m" "m \<le> bh" "v = n + m"
proof
  show "al \<le> max al (v - bh)" "max al (v - bh) \<le> ah" "bl \<le> v - max al (v - bh)" "v - max al (v - bh) \<le> bh" "v = max al (v - bh) + (v - max al (v - bh))"
    using assms by linarith+
qed

lemma iv_add_tight:
  assumes "iv_wf (Some (al, ah, an))" "iv_wf (Some (bl, bh, bn))" "flag_ok (Some (al, ah, an))" "flag_ok (Some (bl, bh, bn))"
    "iv_add (Some (al, ah, an)) (Some (bl, bh, bn)) = Some r" "v \<in> iv_gamma (Some r)"
  shows "v \<in> results2 js_add (Some (al, ah, an)) (Some (bl, bh, bn))"
proof -
  have r: "r = (al + bl, ah + bh, an \<and> bn)" "- IV_LIM \<le> al + bl" "ah + bh \<le> IV_LIM"
    using assms(1,2,5) by (auto simp: iv_add_exact dest: iv_ok_SomeD)
  from assms(6) [unfolded r(1)] show ?thesis
  proof (cases rule: iv_gamma_cases)
    case (1 k)
    obtain n m where "al \<le> n" "n \<le> ah" "bl \<le> m" "m \<le> bh" "k = n + m"
      using assms(1,2) 1 by (auto intro: split_sum)
    then show ?thesis using 1 r unfolding results2_def
      by (intro CollectI bexI [of _ "JInt n"] bexI [of _ "JInt m"]) (auto simp: exact_num_def IV_LIM_def)
  next
    case 2
    then show ?thesis using assms(3,4) unfolding results2_def flag_ok_def
      by (intro CollectI bexI [of _ JNegZero]) auto
  qed
qed

lemma iv_sub_tight:
  assumes "iv_wf (Some (al, ah, an))" "iv_wf (Some (bl, bh, bn))"
    "iv_sub (Some (al, ah, an)) (Some (bl, bh, bn)) = Some r" "JInt k \<in> iv_gamma (Some r)"
  shows "JInt k \<in> results2 js_sub (Some (al, ah, an)) (Some (bl, bh, bn))"
proof -
  have r: "r = (al - bh, ah - bl, an)" "- IV_LIM \<le> al - bh" "ah - bl \<le> IV_LIM"
    using assms(1,2,3) by (auto simp: iv_sub_exact dest: iv_ok_SomeD)
  obtain n m where "al \<le> n" "n \<le> ah" "- bh \<le> m" "m \<le> - bl" "k = n + m"
    using assms(1,2,4) r by (auto intro: split_sum [of al ah "- bh" "- bl" k])
  then show ?thesis using assms(4) r unfolding results2_def
    by (intro CollectI bexI [of _ "JInt n"] bexI [of _ "JInt (- m)"]) (auto simp: exact_num_def IV_LIM_def)
qed

lemma iv_neg_tight:
  assumes "iv_wf (Some (al, ah, an))" "iv_neg (Some (al, ah, an)) = Some r" "v \<in> iv_gamma (Some r)" "v \<noteq> JInt 0"
  shows "v \<in> results1 js_neg (Some (al, ah, an))"
proof -
  have r: "r = (- ah, - al, al \<le> 0 \<and> 0 \<le> ah)" "- IV_LIM \<le> al" "ah \<le> IV_LIM"
    using assms(1,2) by (auto simp: iv_neg_exact dest: iv_ok_SomeD)
  from assms(3) [unfolded r(1)] show ?thesis
  proof (cases rule: iv_gamma_cases)
    case (1 k)
    then show ?thesis using assms(4) r unfolding results1_def
      by (intro CollectI bexI [of _ "JInt (- k)"]) (auto simp: exact_num_def IV_LIM_def)
  next
    case 2
    then show ?thesis unfolding results1_def by (intro CollectI bexI [of _ "JInt 0"]) auto
  qed
qed

text \<open>Giving up has a reason: two admitted integers whose result is not exact.\<close>

lemma iv_linear_none:
  assumes "iv_wf (Some (al, ah, an))" "iv_wf (Some (bl, bh, bn))"
  shows "iv_add (Some (al, ah, an)) (Some (bl, bh, bn)) = None \<Longrightarrow>
      \<exists>x\<in>iv_gamma (Some (al, ah, an)). \<exists>y\<in>iv_gamma (Some (bl, bh, bn)). js_add x y = None"
    "iv_sub (Some (al, ah, an)) (Some (bl, bh, bn)) = None \<Longrightarrow>
      \<exists>x\<in>iv_gamma (Some (al, ah, an)). \<exists>y\<in>iv_gamma (Some (bl, bh, bn)). js_sub x y = None"
    "iv_neg (Some (al, ah, an)) \<noteq> None"
proof -
  have m: "JInt al \<in> iv_gamma (Some (al, ah, an))" "JInt ah \<in> iv_gamma (Some (al, ah, an))"
    "JInt bl \<in> iv_gamma (Some (bl, bh, bn))" "JInt bh \<in> iv_gamma (Some (bl, bh, bn))" using assms by simp_all
  show "iv_add (Some (al, ah, an)) (Some (bl, bh, bn)) = None \<Longrightarrow>
      \<exists>x\<in>iv_gamma (Some (al, ah, an)). \<exists>y\<in>iv_gamma (Some (bl, bh, bn)). js_add x y = None"
  proof -
    assume "iv_add (Some (al, ah, an)) (Some (bl, bh, bn)) = None"
    then have "al + bl < - (2 ^ 53) \<or> 2 ^ 53 < ah + bh" using assms by (auto simp: iv_add_exact iv_ok_def IV_LIM_def split: if_splits)
    then have "js_add (JInt al) (JInt bl) = None \<or> js_add (JInt ah) (JInt bh) = None" by (auto simp: exact_num_def)
    with m show ?thesis by blast
  qed
  show "iv_sub (Some (al, ah, an)) (Some (bl, bh, bn)) = None \<Longrightarrow>
      \<exists>x\<in>iv_gamma (Some (al, ah, an)). \<exists>y\<in>iv_gamma (Some (bl, bh, bn)). js_sub x y = None"
  proof -
    assume "iv_sub (Some (al, ah, an)) (Some (bl, bh, bn)) = None"
    then have "al - bh < - (2 ^ 53) \<or> 2 ^ 53 < ah - bl" using assms by (auto simp: iv_sub_exact iv_ok_def IV_LIM_def split: if_splits)
    then have "js_sub (JInt al) (JInt bh) = None \<or> js_sub (JInt ah) (JInt bl) = None" by (auto simp: exact_num_def)
    with m show ?thesis by blast
  qed
  show "iv_neg (Some (al, ah, an)) \<noteq> None" using assms(1) by (auto simp: iv_neg_exact iv_ok_def)
qed

lemma results_sound:
  "iv_wf a \<Longrightarrow> iv_wf b \<Longrightarrow> iv_add a b = Some r \<Longrightarrow> results2 js_add a b \<subseteq> iv_gamma (Some r)"
  "iv_wf a \<Longrightarrow> iv_wf b \<Longrightarrow> iv_sub a b = Some r \<Longrightarrow> results2 js_sub a b \<subseteq> iv_gamma (Some r)"
  "iv_wf a \<Longrightarrow> iv_neg a = Some r \<Longrightarrow> results1 js_neg a \<subseteq> iv_gamma (Some r)"
  unfolding results2_def results1_def using iv_add_sound [of a b] iv_sub_sound [of a b] iv_neg_sound [of a] by fastforce+



text \<open>A clean product interval proves an exact integer product, never negative zero, for all
  admitted factors, unless one factor may be negative zero in an interval starting at 0 while the
  other is the constant 0.\<close>

theorem iv_mul_clean_sound:
  assumes "iv_wf a" "iv_wf b" "\<not> mul_zero_gap a b" "x \<in> iv_gamma a" "y \<in> iv_gamma b"
    and "iv_clean (iv_mul a b) = Some w"
  shows "\<exists>n. js_mul x y = Some (JInt n) \<and> lo w \<le> n \<and> n \<le> hi w"
  using assms by (rule mul.clean_integer)

theorem iv_mul_clean_sound_witness:
  "\<exists>n. js_mul (JInt (-3)) (JInt 7) = Some (JInt n) \<and> -50 \<le> n \<and> n \<le> -2"
  using iv_mul_clean_sound [of "Some (-5, -1, False)" "Some (2, 10, False)" "JInt (-3)" "JInt 7" "vr (-50) (-2)"]
  by (simp add: mul_zero_gap_def iv_mul_def checked_mul_def in_i64_def iv_ok_def iv_clean_def IV_LIM_def vr_def)

text \<open>The excluded product is a defect of the flag rule: the interval of \<open>-0\<close> (the negation of the
  constant 0) times the constant 0 is recorded as the clean interval 0, while \<open>-0 * 0\<close> is \<open>-0\<close>.\<close>

theorem iv_mul_misses_negative_zero:
  "JNegZero \<in> iv_gamma (iv_neg (Some (0, 0, False))) \<and> JInt 0 \<in> iv_gamma (Some (0, 0, False)) \<and>
   js_mul JNegZero (JInt 0) = Some JNegZero \<and>
   iv_clean (iv_mul (iv_neg (Some (0, 0, False))) (Some (0, 0, False))) = Some (vr 0 0) \<and>
   JNegZero \<notin> iv_gamma (iv_mul (iv_neg (Some (0, 0, False))) (Some (0, 0, False)))"
  by (simp add: iv_neg_def iv_mul_def i64_neg_def in_i64_def checked_mul_def iv_ok_def iv_clean_def
      IV_LIM_def js_mul_def)

text \<open>A clean, int32-bounded result of an addition proves an int32 value: the sum is an exact
  integer that \<open>ToInt32\<close> leaves alone.\<close>

theorem iv_add_int32_tag:
  assumes "iv_wf a" "iv_wf b" "x \<in> iv_gamma a" "y \<in> iv_gamma b" "iv_clean (iv_add a b) = Some w"
    and "I32_LO \<le> lo w" "hi w \<le> I32_HI"
  shows "\<exists>n. js_add x y = Some (JInt n) \<and> to_int32 (JInt n) = n"
  using add.clean_int32_tag [of a b x y w] assms by simp

theorem iv_add_int32_tag_witness:
  "\<exists>n. js_add JNegZero (JInt 7) = Some (JInt n) \<and> to_int32 (JInt n) = n"
  using iv_add_int32_tag [of "Some (-3, 5, True)" "Some (2, 10, False)" JNegZero "JInt 7" "vr (-1) 15"]
  by (simp add: iv_add_exact iv_ok_def iv_clean_def vr_def iv_consts)

text \<open>Quantization is a closure onto the int32 ladder: it only widens, keeps 0 inside, stays within
  int32 and is idempotent; it gives up exactly when a bound leaves int32.\<close>

theorem hq_closure:
  "(hq l h = Some (a, b) \<longrightarrow>
      a \<le> l \<and> h \<le> b \<and> I32_LO \<le> a \<and> a \<le> 0 \<and> 0 \<le> b \<and> b \<le> I32_HI \<and> hq a b = Some (a, b)) \<and>
   (hq l h = None \<longleftrightarrow> l < I32_LO \<or> I32_HI < h)"
proof (intro conjI impI)
  assume "hq l h = Some (a, b)"
  note q = hq_Some [OF this]
  from q quantized_bounds [OF q(3)] quantized_hq [OF q(3)]
  show "a \<le> l" "h \<le> b" "I32_LO \<le> a" "a \<le> 0" "0 \<le> b" "b \<le> I32_HI" "hq a b = Some (a, b)"
    by (simp_all add: vr_def)
qed (auto simp: hq_def hq_lo_eq hq_hi_eq split: option.splits)

theorem hq_closure_witness:
  "hq (-300) 5 = Some (-512, 5) \<and> hq (-512) 5 = Some (-512, 5)"
proof -
  have "hq (-300) 5 = Some (-512, 5)"
    by (simp add: hq_def hq_lo_eq hq_hi_eq hq_mag_up_def next_power_of_two_def next_pow2_from.simps iv_consts)
  with hq_closure [of "-300" 5 "-512" 5] show ?thesis by simp
qed

text \<open>The upper ladder rounds the bound 8 up to 15 although its magnitude is at most 8: upper
  bounds are quantized by their successor, so only bounds up to 7 stay exact.\<close>

theorem hq_hi_eight: "hq_hi 8 = Some 15 \<and> hq_hi 7 = Some 7 \<and> hq_lo (-8) = Some (-8)"
  by (simp add: hq_lo_eq hq_hi_eq hq_mag_up_def next_power_of_two_def next_pow2_from.simps iv_consts)

text \<open>A recorded join covers both the incoming interval and the stored one whenever it keeps a claim.\<close>

theorem iv_join_tolerant_covers:
  assumes "iv_join_tolerant (Some n) (Some st) g = (Some u, g')"
  shows "vr_contains u n \<and> vr_contains u st"
proof -
  have "hull n st = st \<Longrightarrow> vr_contains st n" using hull_contains(1) [where a = n and b = st] by simp
  then show ?thesis using assms hull_contains [where a = n and b = st] iv_join_recorded_contains [of n st u]
    by (auto simp: iv_join_tolerant_def Let_def vr_contains_def split: if_splits)
qed

theorem iv_join_tolerant_covers_witness:
  "vr_contains (vr 0 2147483647) (vr 5 900) \<and> vr_contains (vr 0 2147483647) (vr 0 100)"
  using iv_join_tolerant_covers [of "vr 5 900" "vr 0 100" 3 "vr 0 2147483647" 3]
  by (simp add: iv_join_tolerant_def iv_join_recorded_def hull_def vr_def Let_def widen_hi_def iv_consts)

text \<open>A recorded slot changes at most 13 times whatever intervals arrive: three exact growths, then
  the finite widening ladder of each bound, then no claim.\<close>

theorem recorded_slot_changes_bounded:
  assumes "g \<le> 3"
  shows "n_changes slot_upd (w, g) arrivals \<le> 13"
  using assms recorded_slot.changes_bound [of "(w, g)" arrivals] by (simp add: slot_ok_def)

theorem recorded_slot_changes_bounded_witness:
  "n_changes slot_upd (Some (vr 0 0), 0) (map (\<lambda>k. vr 0 (2 ^ k)) [0..<60]) \<le> 13"
  by (rule recorded_slot_changes_bounded) simp

end
