(* ===== verification/Ids.thy ===== *)
theory Ids
  imports NM_Prelude
begin

text \<open>
  The identifier newtypes and the string table of \<^verbatim>\<open>compiler/src/ids.rs\<close>. The newtypes over \<open>u32\<close>
  are synonyms of a 32-bit word where the source does arithmetic on them (bytecode offsets, layout
  and stamp keys, argument positions); a dense table index is a \<^typ>\<open>nat\<close> whose creation carries the
  source's \<open>u32::try_from\<close> check. A JavaScript string is its list of UTF-16 code units; a Rust
  \<open>str\<close> is the list of its scalar values.
\<close>

section \<open>Identifiers\<close>

type_synonym ScriptId = u32
type_synonym Pc = u32
type_synonym LayoutKey = u32
type_synonym StampKey = u32
type_synonym SlotIndex = u32
type_synonym ArgIndex = u32
type_synonym FormalIndex = u32
type_synonym EnvSlot = u32
type_synonym RegionRoot = u32
type_synonym VarId = u32
type_synonym SourceObjectId = u32

definition pc_branch :: "Pc \<Rightarrow> 32 word \<Rightarrow> Pc" where
  "pc_branch pc off = word_of_int (uint pc + sint off)"

definition pc_add :: "Pc \<Rightarrow> u32 \<Rightarrow> Pc" where
  "pc_add pc rhs = pc + rhs"

definition pc_sub :: "Pc \<Rightarrow> u32 \<Rightarrow> Pc" where
  "pc_sub pc rhs = pc - rhs"

record Site =
  site_script :: ScriptId
  site_pc :: Pc

definition site_from_raw :: "u32 \<Rightarrow> u32 \<Rightarrow> Site" where
  "site_from_raw script pc = \<lparr>site_script = script, site_pc = pc\<rparr>"

definition LAYOUT_LIMIT :: u32 where "LAYOUT_LIMIT = 0x7FFF"

definition STAMP_NONE :: StampKey where "STAMP_NONE = 0"

definition layout_stamp :: "LayoutKey \<Rightarrow> StampKey" where
  "layout_stamp k = k + 1"

definition ARG_THIS :: ArgIndex where "ARG_THIS = 0"

definition arg_formal :: "u32 \<Rightarrow> ArgIndex" where
  "arg_formal n = 1 + n"

definition as_arg_index :: "FormalIndex \<Rightarrow> ArgIndex" where
  "as_arg_index f = arg_formal f"

section \<open>Strings\<close>

type_synonym JsString = "u16 list"
type_synonym rust_str = "nat list"

definition scalar_value :: "nat \<Rightarrow> bool" where
  "scalar_value c \<longleftrightarrow> c < 0x110000 \<and> \<not> (0xD800 \<le> c \<and> c < 0xE000)"

fun encode_char :: "nat \<Rightarrow> u16 list" where
  "encode_char c =
     (if c < 0x10000 then [of_nat c]
      else [of_nat (0xD800 + (c - 0x10000) div 0x400), of_nat (0xDC00 + (c - 0x10000) mod 0x400)])"

definition encode_utf16 :: "rust_str \<Rightarrow> u16 list" where
  "encode_utf16 s = concat (map encode_char s)"

definition is_high :: "u16 \<Rightarrow> bool" where
  "is_high w \<longleftrightarrow> 0xD800 \<le> unat w \<and> unat w < 0xDC00"

definition is_low :: "u16 \<Rightarrow> bool" where
  "is_low w \<longleftrightarrow> 0xDC00 \<le> unat w \<and> unat w < 0xE000"

text \<open>\<open>char::decode_utf16\<close> with every unpaired surrogate replaced, as \<open>Display\<close> prints a string.\<close>

fun decode_utf16_lossy :: "u16 list \<Rightarrow> rust_str" where
  "decode_utf16_lossy [] = []"
| "decode_utf16_lossy [w] = [if is_high w \<or> is_low w then 0xFFFD else unat w]"
| "decode_utf16_lossy (w # v # ws) =
     (if is_high w \<and> is_low v
      then (0x10000 + (unat w - 0xD800) * 0x400 + (unat v - 0xDC00)) # decode_utf16_lossy ws
      else (if is_high w \<or> is_low w then 0xFFFD else unat w) # decode_utf16_lossy (v # ws))"

definition js_string_from_str :: "rust_str \<Rightarrow> JsString" where
  "js_string_from_str s = encode_utf16 s"

definition js_string_is :: "JsString \<Rightarrow> rust_str \<Rightarrow> bool" where
  "js_string_is n s \<longleftrightarrow> n = encode_utf16 s"

section \<open>The string table\<close>

type_synonym NameId = nat

record Names =
  by_val :: "JsString \<rightharpoonup> NameId"
  vals :: "JsString list"

definition names_default :: Names where
  "names_default = \<lparr>by_val = Map.empty, vals = []\<rparr>"

definition names_intern :: "Names \<Rightarrow> JsString \<Rightarrow> (Names \<times> NameId) option" where
  "names_intern nm n =
     (case by_val nm n of
        Some i \<Rightarrow> Some (nm, i)
      | None \<Rightarrow>
          (if length (vals nm) < 2 ^ 32
           then let i = length (vals nm)
                in Some (nm\<lparr>vals := vals nm @ [n], by_val := (by_val nm)(n \<mapsto> i)\<rparr>, i)
           else None))"

definition names_intern_str :: "Names \<Rightarrow> rust_str \<Rightarrow> (Names \<times> NameId) option" where
  "names_intern_str nm s = names_intern nm (js_string_from_str s)"

text \<open>\<open>Names::get\<close> indexes the table and panics (\<open>None\<close>) out of range.\<close>

definition names_get :: "Names \<Rightarrow> NameId \<Rightarrow> JsString option" where
  "names_get nm i = (if i < length (vals nm) then Some (vals nm ! i) else None)"

definition names_lookup :: "Names \<Rightarrow> JsString \<Rightarrow> NameId option" where
  "names_lookup nm n = by_val nm n"

definition names_lossy :: "Names \<Rightarrow> NameId \<Rightarrow> rust_str option" where
  "names_lossy nm i = map_option decode_utf16_lossy (names_get nm i)"

definition names_ok :: "Names \<Rightarrow> bool" where
  "names_ok nm \<longleftrightarrow> (\<forall>n i. by_val nm n = Some i \<longleftrightarrow> i < length (vals nm) \<and> vals nm ! i = n)"

lemma names_default_ok: "names_ok names_default"
  by (simp add: names_ok_def names_default_def)

interpretation names: interner names_ok names_lookup names_get names_intern
proof
  fix nm n i
  assume ok: "names_ok nm"
  show "names_lookup nm n = Some i \<longleftrightarrow> names_get nm i = Some n"
    using ok by (auto simp: names_ok_def names_lookup_def names_get_def)
  show "names_lookup nm n = Some i \<Longrightarrow> names_intern nm n = Some (nm, i)"
    by (simp add: names_intern_def names_lookup_def)
  fix nm'
  assume miss: "names_lookup nm n = None" and res: "names_intern nm n = Some (nm', i)"
  then have i: "i = length (vals nm)"
    and nm': "nm' = nm\<lparr>vals := vals nm @ [n], by_val := (by_val nm)(n \<mapsto> i)\<rparr>"
    by (auto simp: names_intern_def names_lookup_def Let_def split: option.splits if_splits)
  have fresh: "j < length (vals nm) \<Longrightarrow> vals nm ! j \<noteq> n" for j
    using ok miss unfolding names_ok_def names_lookup_def by (metis option.distinct(1))
  have "names_ok nm'"
    using ok fresh by (auto simp: names_ok_def nm' i nth_append less_Suc_eq)
  moreover have "names_get nm' = (names_get nm)(i \<mapsto> n)"
    by (auto simp: names_get_def nm' i fun_eq_iff nth_append less_Suc_eq)
  ultimately show "names_ok nm' \<and> names_lookup nm' = (names_lookup nm)(n \<mapsto> i) \<and>
      names_get nm i = None \<and> names_get nm' = (names_get nm)(i \<mapsto> n)"
    by (simp add: names_lookup_def nm' names_get_def i fun_eq_iff)
qed

section \<open>UTF-16\<close>

lemma encode_pair:
  assumes "scalar_value c" "0x10000 \<le> c"
  shows "is_high (of_nat (0xD800 + (c - 0x10000) div 0x400))" "is_low (of_nat (0xDC00 + (c - 0x10000) mod 0x400))"
    "0x10000 + (unat (of_nat (0xD800 + (c - 0x10000) div 0x400) :: u16) - 0xD800) * 0x400
       + (unat (of_nat (0xDC00 + (c - 0x10000) mod 0x400) :: u16) - 0xDC00) = c"
proof -
  have d: "(c - 0x10000) div 0x400 < 0x400" using assms by (auto simp: scalar_value_def)
  have m: "(c - 0x10000) mod 0x400 < 0x400" by simp
  have h: "unat (of_nat (0xD800 + (c - 0x10000) div 0x400) :: u16) = 0xD800 + (c - 0x10000) div 0x400"
    using d by (simp only: unat_of_nat) (simp add: take_bit_eq_mod)
  have l: "unat (of_nat (0xDC00 + (c - 0x10000) mod 0x400) :: u16) = 0xDC00 + (c - 0x10000) mod 0x400"
    using m by (simp only: unat_of_nat) (simp add: take_bit_eq_mod)
  show "is_high (of_nat (0xD800 + (c - 0x10000) div 0x400))" using d by (simp only: is_high_def h) simp
  show "is_low (of_nat (0xDC00 + (c - 0x10000) mod 0x400))" using m by (simp only: is_low_def l) simp
  have "(c - 0x10000) div 0x400 * 0x400 + (c - 0x10000) mod 0x400 = c - 0x10000" by (rule div_mult_mod_eq)
  then show "0x10000 + (unat (of_nat (0xD800 + (c - 0x10000) div 0x400) :: u16) - 0xD800) * 0x400
       + (unat (of_nat (0xDC00 + (c - 0x10000) mod 0x400) :: u16) - 0xDC00) = c"
    unfolding h l using assms(2) by simp
qed

lemma encode_single:
  assumes "scalar_value c" "c < 0x10000"
  shows "unat (of_nat c :: u16) = c" "\<not> is_high (of_nat c)" "\<not> is_low (of_nat c)"
proof -
  show c: "unat (of_nat c :: u16) = c" using assms by (simp only: unat_of_nat) (simp add: take_bit_eq_mod)
  show "\<not> is_high (of_nat c)" "\<not> is_low (of_nat c)"
    using assms(1) unfolding is_high_def is_low_def c by (auto simp: scalar_value_def)
qed

lemma decode_nonsurrogate: "\<not> is_high w \<Longrightarrow> \<not> is_low w \<Longrightarrow> decode_utf16_lossy (w # ws) = unat w # decode_utf16_lossy ws"
  by (cases ws) simp_all

lemma decode_encode_char:
  assumes "scalar_value c"
  shows "decode_utf16_lossy (encode_char c @ ws) = c # decode_utf16_lossy ws"
proof (cases "c < 0x10000")
  case True
  from encode_single [OF assms this] True show ?thesis by (simp add: decode_nonsurrogate)
next
  case False
  then have "0x10000 \<le> c" by simp
  note p = encode_pair [OF assms this]
  from False have "encode_char c @ ws = of_nat (0xD800 + (c - 0x10000) div 0x400) # of_nat (0xDC00 + (c - 0x10000) mod 0x400) # ws"
    by simp
  then show ?thesis by (simp only: decode_utf16_lossy.simps p if_True simp_thms)
qed

lemma decode_encode: "\<forall>c\<in>set s. scalar_value c \<Longrightarrow> decode_utf16_lossy (encode_utf16 s) = s"
  by (induction s) (simp_all add: encode_utf16_def decode_encode_char del: encode_char.simps)

section \<open>Key and offset arithmetic\<close>

text \<open>Every usable layout key has a stamp of its own, never the unstamped word; a formal's argument
  index is never the receiver's.\<close>

lemma layout_stamp_distinct:
  assumes "k < LAYOUT_LIMIT"
  shows "layout_stamp k \<noteq> STAMP_NONE" "unat (layout_stamp k) = unat k + 1"
proof -
  have "unat k < 0x7FFF" using assms by (simp add: LAYOUT_LIMIT_def word_less_nat_alt)
  then show u: "unat (layout_stamp k) = unat k + 1" by (simp add: layout_stamp_def unat_word_ariths)
  then show "layout_stamp k \<noteq> STAMP_NONE" by (auto simp: STAMP_NONE_def)
qed

lemma layout_stamp_inj: "layout_stamp k = layout_stamp k' \<longleftrightarrow> k = k'"
  by (simp add: layout_stamp_def)

lemma as_arg_index_not_this: "f \<noteq> - 1 \<Longrightarrow> as_arg_index f \<noteq> ARG_THIS"
  by (auto simp: as_arg_index_def arg_formal_def ARG_THIS_def eq_neg_iff_add_eq_0 add.commute)

text \<open>A relative branch is the wrapping sum, so branching back by the negated offset returns.\<close>

lemma pc_branch_wraps: "pc_branch pc off = pc + off"
  by (simp add: pc_branch_def flip: wi_hom_add)

lemma pc_branch_back: "pc_branch (pc_branch pc off) (- off) = pc"
  by (simp add: pc_branch_wraps)

section \<open>Properties\<close>

text \<open>Interning is a partial bijection that never moves: from a well-formed table, \<open>intern\<close> gives an
  id that names exactly the interned string, keeps every earlier id and every earlier name, and
  interning the same string again returns the same table and id.\<close>

theorem names_intern_correct:
  assumes "names_ok nm" "names_intern nm n = Some (nm', i)"
  shows "names_ok nm' \<and> names_get nm' i = Some n \<and> names_lookup nm' n = Some i \<and>
    (\<forall>n' j. names_lookup nm n' = Some j \<longrightarrow> names_lookup nm' n' = Some j) \<and>
    (\<forall>n'. names_lookup nm' n' = Some i \<longrightarrow> n' = n) \<and>
    names_intern nm' n = Some (nm', i)"
  using names.intern_ok [OF assms] names.intern_roundtrip [OF assms] names.intern_lookup [OF assms]
    names.intern_stable [OF assms] names.intern_again [OF assms] names.lookup_inj by blast

theorem names_intern_correct_witness:
  "\<exists>nm' i. names_intern names_default [103, 111] = Some (nm', i) \<and> names_get nm' i = Some [103, 111]"
proof -
  obtain nm' i where r: "names_intern names_default [103, 111] = Some (nm', i)"
    by (simp add: names_intern_def names_default_def Let_def)
  from names_intern_correct [OF names_default_ok r] r show ?thesis by blast
qed

text \<open>A Rust string literal survives the string table: interning it and printing the id gives the
  literal back, for every sequence of Unicode scalar values.\<close>

theorem intern_str_lossy_roundtrip:
  assumes "names_ok nm" "\<forall>c\<in>set s. scalar_value c" "names_intern_str nm s = Some (nm', i)"
  shows "names_lossy nm' i = Some s"
  using names.intern_roundtrip [OF assms(1) assms(3)[unfolded names_intern_str_def]] assms(2)
  by (simp add: names_lossy_def js_string_from_str_def decode_encode)

theorem intern_str_lossy_roundtrip_witness:
  "\<exists>nm' i. names_intern_str names_default [97, 0x1F600] = Some (nm', i) \<and> names_lossy nm' i = Some [97, 0x1F600]"
proof -
  obtain nm' i where r: "names_intern_str names_default [97, 0x1F600] = Some (nm', i)"
    by (simp add: names_intern_str_def names_intern_def names_default_def Let_def)
  have "\<forall>c\<in>set [97, 0x1F600]. scalar_value c" by (simp add: scalar_value_def)
  from intern_str_lossy_roundtrip [OF names_default_ok this r] r show ?thesis by blast
qed

end
