(* ===== verification/Facts.thy ===== *)
theory Facts
  imports Opsem Ids
begin

text \<open>
  The likely-facts contract of \<^verbatim>\<open>compiler/src/facts.rs\<close>: the packed type claim \<open>Claim\<close>, the call
  resolution and its queries, and the per-script effect summary. \<open>LikelyFacts\<close> is a record of
  tables; the call-site table is the one the queries read.
\<close>

section \<open>Claims\<close>

type_synonym Claim = u16

definition CLAIM_NONE :: Claim where "CLAIM_NONE = 0"
definition OBJECT_BIT :: u16 where "OBJECT_BIT = push_bit 15 1"
definition DOUBLE_FIRST_BIT :: u16 where "DOUBLE_FIRST_BIT = push_bit 14 1"
definition TA_SHIFT :: nat where "TA_SHIFT = 8"
definition TA_MASK :: u16 where "TA_MASK = push_bit TA_SHIFT 0xF"
definition CLAIM_OBJECT :: Claim where "CLAIM_OBJECT = OBJECT_BIT"

definition claim_of_prims :: "prims \<Rightarrow> Claim" where
  "claim_of_prims p = p"

definition claim_bits :: "Claim \<Rightarrow> u16" where
  "claim_bits c = c"

definition claim_from_bits :: "u16 \<Rightarrow> Claim" where
  "claim_from_bits w = w"

definition claim_is_none :: "Claim \<Rightarrow> bool" where
  "claim_is_none c \<longleftrightarrow> c = 0"

definition claim_is_object :: "Claim \<Rightarrow> bool" where
  "claim_is_object c \<longleftrightarrow> c AND NOT TA_MASK = OBJECT_BIT"

definition claim_ta_kind :: "Claim \<Rightarrow> TaKind option" where
  "claim_ta_kind c =
     (if \<not> claim_is_object c then None
      else ta_from_code (unat (drop_bit TA_SHIFT (c AND TA_MASK))))"

definition claim_object_of_ta :: "TaKind \<Rightarrow> Claim" where
  "claim_object_of_ta k = OBJECT_BIT OR push_bit TA_SHIFT (of_nat (ta_code k))"

definition claim_sans_ta :: "Claim \<Rightarrow> Claim" where
  "claim_sans_ta c = c AND NOT TA_MASK"

definition claim_prims :: "Claim \<Rightarrow> prims" where
  "claim_prims c = prims_from_bits c"

definition claim_double_first :: "Claim \<Rightarrow> bool" where
  "claim_double_first c \<longleftrightarrow> c AND DOUBLE_FIRST_BIT \<noteq> 0"

definition claim_with_double_first :: "Claim \<Rightarrow> Claim" where
  "claim_with_double_first c = c OR DOUBLE_FIRST_BIT"

lemmas claim_defs = CLAIM_NONE_def OBJECT_BIT_def DOUBLE_FIRST_BIT_def TA_SHIFT_def TA_MASK_def
  CLAIM_OBJECT_def claim_of_prims_def claim_is_none_def claim_is_object_def claim_ta_kind_def
  claim_object_of_ta_def claim_sans_ta_def claim_prims_def claim_double_first_def
  claim_with_double_first_def

section \<open>Call sites\<close>

datatype CallForm = FormCall | FormApply

datatype CallResolution = Native | Scripted "ScriptId list"

definition RESTAMP_FORMAL :: u32 where "RESTAMP_FORMAL = push_bit 31 1"

type_synonym call_sites = "Site \<rightharpoonup> CallResolution"

definition scripted_targets :: "call_sites \<Rightarrow> Site \<Rightarrow> ScriptId list" where
  "scripted_targets cs site = (case cs site of Some (Scripted t) \<Rightarrow> t | _ \<Rightarrow> [])"

definition is_native_call :: "call_sites \<Rightarrow> Site \<Rightarrow> bool" where
  "is_native_call cs site \<longleftrightarrow> (case cs site of Some Native \<Rightarrow> True | _ \<Rightarrow> False)"

section \<open>Effect summaries\<close>

record EffectSummary =
  eff_top :: bool
  eff_top_why :: "string option"
  field_writes :: "((LayoutKey \<times> LayoutKey) option \<times> NameId) list"
  gname_writes :: "NameId list"
  elems_write :: bool
  env_write :: bool

definition eff_default :: EffectSummary where
  "eff_default = \<lparr>eff_top = False, eff_top_why = None, field_writes = [], gname_writes = [],
     elems_write = False, env_write = False\<rparr>"

text \<open>Equality of summaries leaves the diagnostic reason out.\<close>

definition eff_eq :: "EffectSummary \<Rightarrow> EffectSummary \<Rightarrow> bool" where
  "eff_eq a b \<longleftrightarrow> eff_top a = eff_top b \<and> field_writes a = field_writes b \<and>
     gname_writes a = gname_writes b \<and> elems_write a = elems_write b \<and> env_write a = env_write b"

definition eff_saturate :: "EffectSummary \<Rightarrow> string \<Rightarrow> EffectSummary" where
  "eff_saturate e why = (if \<not> eff_top e then e\<lparr>eff_top := True, eff_top_why := Some why\<rparr> else e)"

definition is_write_free :: "EffectSummary \<Rightarrow> bool" where
  "is_write_free e \<longleftrightarrow> \<not> eff_top e \<and> field_writes e = [] \<and> gname_writes e = [] \<and>
     \<not> elems_write e \<and> \<not> env_write e"

section \<open>The claim word\<close>

lemma claim_masks:
  "OBJECT_BIT = 0x8000" "DOUBLE_FIRST_BIT = 0x4000" "TA_MASK = 0x0F00"
  by (simp_all add: claim_defs)

text \<open>A claim made from a set within the primitive alphabet keeps all flag bits clear.\<close>

lemma prims_low_bits: "subset_of p ALL_PRIMS \<Longrightarrow> 8 \<le> n \<Longrightarrow> \<not> bit p n"
proof -
  assume "subset_of p ALL_PRIMS" "8 \<le> n"
  then have "n \<notin> classes p" by (auto simp: subset_of_classes classes_ALL)
  then show ?thesis by (simp add: classes_def)
qed

lemma prims_from_bits_id: "subset_of p ALL_PRIMS \<Longrightarrow> prims_from_bits p = p"
proof -
  assume "subset_of p ALL_PRIMS"
  then have "classes (prims_and p ALL_PRIMS) = classes p" by (auto simp: subset_of_classes)
  then show ?thesis by (simp only: classes_inject prims_and_def prims_from_bits_def)
qed

lemma bit_DOUBLE_FIRST: "bit DOUBLE_FIRST_BIT n \<longleftrightarrow> n = 14"
  unfolding DOUBLE_FIRST_BIT_def by (simp only: push_bit_of_1 bit_exp_iff) (auto simp: possible_bit_def)

lemma bit_OBJECT: "bit OBJECT_BIT n \<longleftrightarrow> n = 15"
  unfolding OBJECT_BIT_def by (simp only: push_bit_of_1 bit_exp_iff) (auto simp: possible_bit_def)

lemma bit_TA_MASK: "bit TA_MASK n \<longleftrightarrow> 8 \<le> n \<and> n < 12"
proof -
  have m: "TA_MASK = push_bit 8 (mask 4)" by (simp add: TA_MASK_def TA_SHIFT_def mask_eq_exp_minus_1)
  show ?thesis unfolding m by (simp only: bit_push_bit_iff bit_mask_iff) (auto simp: possible_bit_def)
qed

lemma double_first_iff: "claim_double_first c \<longleftrightarrow> bit c 14"
proof -
  have "c AND DOUBLE_FIRST_BIT = 0 \<longleftrightarrow> \<not> bit c 14"
    by (auto simp: word_eq_0_iff_bits bit_and_iff bit_DOUBLE_FIRST)
  then show ?thesis by (simp add: claim_double_first_def)
qed

lemma is_object_bits: "claim_is_object c \<Longrightarrow> bit c 15 \<and> (\<forall>n<8. \<not> bit c n) \<and> \<not> bit c 14"
proof -
  assume "claim_is_object c"
  then have eq: "bit (c AND NOT TA_MASK) n = (n = 15)" for n
    by (simp add: claim_is_object_def bit_OBJECT)
  have mask: "\<not> bit TA_MASK n" if "n < 8 \<or> n = 14 \<or> n = 15" for n
    using that by (auto simp: bit_TA_MASK)
  have "bit c n = (n = 15)" if "n < 8 \<or> n = 14 \<or> n = 15" for n
  proof -
    from that have "possible_bit TYPE(u16) n" by (auto simp: possible_bit_def)
    with eq [of n] mask [OF that] show ?thesis by (simp only: bit_and_iff bit_not_iff simp_thms)
  qed
  then show ?thesis by simp
qed

lemma of_prims_not_object:
  assumes "subset_of p ALL_PRIMS"
  shows "\<not> claim_is_object p" "\<not> claim_is_object (p OR DOUBLE_FIRST_BIT)"
  using is_object_bits [of p] is_object_bits [of "p OR DOUBLE_FIRST_BIT"] prims_low_bits [OF assms, of 15]
  by (auto simp: bit_or_iff bit_DOUBLE_FIRST)

lemma double_first_prims: "prims_from_bits (c OR DOUBLE_FIRST_BIT) = prims_from_bits c"
proof -
  have "DOUBLE_FIRST_BIT AND ALL_PRIMS = 0" by (simp add: claim_masks ALL_PRIMS_def)
  then show ?thesis by (simp add: prims_from_bits_def bit.conj_disj_distrib2)
qed

lemma object_of_ta_code: "claim_object_of_ta k = 0x8000 + of_nat (256 * ta_code k)"
  by (cases k) (simp_all add: claim_object_of_ta_def claim_masks TA_SHIFT_def)

section \<open>Properties\<close>

text \<open>A primitive claim and its double-first variant carry exactly the claimed classes, are told
  apart by the hint alone, and are never mistaken for an object claim.\<close>

theorem primitive_claim_wire:
  assumes "subset_of p ALL_PRIMS"
  shows "claim_prims (claim_of_prims p) = p \<and>
    claim_prims (claim_with_double_first (claim_of_prims p)) = p \<and>
    \<not> claim_double_first (claim_of_prims p) \<and>
    claim_double_first (claim_with_double_first (claim_of_prims p)) \<and>
    \<not> claim_is_object (claim_of_prims p) \<and>
    \<not> claim_is_object (claim_with_double_first (claim_of_prims p)) \<and>
    claim_ta_kind (claim_with_double_first (claim_of_prims p)) = None \<and>
    (claim_is_none (claim_of_prims p) \<longleftrightarrow> classes p = {})"
  using prims_from_bits_id [OF assms] of_prims_not_object [OF assms] prims_low_bits [OF assms, of 14]
  by (simp add: claim_prims_def claim_of_prims_def claim_with_double_first_def double_first_prims
      double_first_iff bit_or_iff bit_DOUBLE_FIRST claim_ta_kind_def claim_is_none_def classes_eq_empty)

theorem primitive_claim_wire_witness:
  "claim_prims (claim_with_double_first (claim_of_prims NUM)) = NUM"
  using primitive_claim_wire [of NUM] by (simp add: subset_of_classes classes_ALL)

text \<open>An object claim narrowed to a typed-array kind carries that kind back, has no primitive
  component, and loses only the kind when it is stripped; the bare object claim names no kind.\<close>

theorem object_claim_wire:
  "claim_is_object (claim_object_of_ta k) \<and> claim_ta_kind (claim_object_of_ta k) = Some k \<and>
   claim_prims (claim_object_of_ta k) = PRIMS_EMPTY \<and> claim_sans_ta (claim_object_of_ta k) = CLAIM_OBJECT \<and>
   claim_is_object CLAIM_OBJECT \<and> claim_ta_kind CLAIM_OBJECT = None \<and>
   \<not> claim_double_first (claim_object_of_ta k)"
  by (cases k) (simp_all add: claim_defs prims_from_bits_def prim_consts ta_from_code_def)

lemma eff_saturate_top: "eff_top (eff_saturate e w)" "eff_saturate (eff_saturate e w) w' = eff_saturate e w"
  by (simp_all add: eff_saturate_def)

lemma eff_eq_equivp: "equivp eff_eq"
  by (rule equivpI) (auto simp: reflp_def symp_def transp_def eff_eq_def)

lemma eff_eq_write_free: "eff_eq a b \<Longrightarrow> is_write_free a \<longleftrightarrow> is_write_free b"
  by (simp add: eff_eq_def is_write_free_def)

end
