(* ===== verification/Types.thy ===== *)
theory Types
  imports Intervals Facts
begin

text \<open>
  The typeset lattice of the likely-types analysis, \<^verbatim>\<open>compiler/src/likelier/types.rs\<close>: the quantized
  value interval, the callable ids and their bounded sets, the object part, the product \<open>TypeSet\<close>
  with its join, the claims read off it, and the agreement tables. A method that mutates \<open>self\<close>
  returns the new value; an out-parameter (\<open>dropped\<close>, \<open>sink\<close>) is passed and returned.
\<close>

section \<open>Value intervals\<close>

definition MODELED_PRIMS :: prims where
  "MODELED_PRIMS = prims_from_bits (PRIM_INT32 OR PRIM_DOUBLE OR PRIM_STRING OR PRIM_UNDEFINED OR
     PRIM_NULL OR PRIM_BOOLEAN)"

datatype Interval = IEmpty | IIn ValueRange | INum | IAny

definition of_range :: "int \<Rightarrow> int \<Rightarrow> Interval" where
  "of_range l h = (case hq l h of Some (a, b) \<Rightarrow> IIn (vr a b) | None \<Rightarrow> INum)"

definition of_value :: "int \<Rightarrow> Interval" where
  "of_value v = of_range v v"

text \<open>A double of the snapshot: integral and at most \<open>2^53\<close> joins as its integer.\<close>

definition of_double :: "jsnum \<Rightarrow> Interval" where
  "of_double v =
     (case v of
        JNegZero \<Rightarrow> INum
      | JInt n \<Rightarrow> (if \<bar>n\<bar> \<le> 2 ^ 53 then of_value n else INum)
      | _ \<Rightarrow> INum)"

fun interval_join :: "Interval \<Rightarrow> Interval \<Rightarrow> Interval" where
  "interval_join IEmpty x = x"
| "interval_join x IEmpty = x"
| "interval_join IAny _ = IAny"
| "interval_join _ IAny = IAny"
| "interval_join INum _ = INum"
| "interval_join _ INum = INum"
| "interval_join (IIn r) (IIn s) = IIn (hull r s)"

definition subsumes :: "Interval \<Rightarrow> Interval \<Rightarrow> bool" where
  "subsumes a b \<longleftrightarrow> interval_join a b = a"

section \<open>Callable ids\<close>

type_synonym FnId = u32

definition NATIVE_BASE :: u32 where "NATIVE_BASE = 0xFFFFFFFF - 4096"
definition FN_ARRAY :: u32 where "FN_ARRAY = 0xFFFFFFFF - 64"
definition TYPED_ARRAY_BASE :: u32 where "TYPED_ARRAY_BASE = 0xFFFFFFFF - 63"

definition ARRAY_CTOR :: FnId where "ARRAY_CTOR = FN_ARRAY"

definition fn_script :: "ScriptId \<Rightarrow> FnId" where
  "fn_script s = s"

definition typed_array_ctor :: "TaKind \<Rightarrow> FnId" where
  "typed_array_ctor k = TYPED_ARRAY_BASE + of_nat (ta_code k)"

definition fn_native :: "u32 \<Rightarrow> FnId" where
  "fn_native idx = NATIVE_BASE + idx"

definition is_builtin :: "FnId \<Rightarrow> bool" where
  "is_builtin f \<longleftrightarrow> f \<ge> NATIVE_BASE"

definition as_script :: "FnId \<Rightarrow> ScriptId option" where
  "as_script f = (if is_builtin f then None else Some f)"

definition native_index :: "FnId \<Rightarrow> u32 option" where
  "native_index f = (if f \<ge> NATIVE_BASE \<and> f < FN_ARRAY then Some (f - NATIVE_BASE) else None)"

definition typed_array_kind :: "FnId \<Rightarrow> TaKind option" where
  "typed_array_kind f =
     (if f \<ge> TYPED_ARRAY_BASE then ta_from_code (unat (f - TYPED_ARRAY_BASE) mod 256) else None)"

section \<open>Bounded callable sets\<close>

record BoundedFnSet =
  fn_ids :: "FnId list"
  multi :: bool

definition FNSET_MAX :: nat where "FNSET_MAX = 8"

definition fnset_default :: BoundedFnSet where
  "fnset_default = \<lparr>fn_ids = [], multi = False\<rparr>"

definition fnset_one :: "FnId \<Rightarrow> BoundedFnSet" where
  "fnset_one f = \<lparr>fn_ids = [f], multi = False\<rparr>"

definition fnset_is_empty :: "BoundedFnSet \<Rightarrow> bool" where
  "fnset_is_empty s \<longleftrightarrow> \<not> multi s \<and> fn_ids s = []"

text \<open>\<open>insert\<close>, \<open>set_multi\<close> and \<open>join_from\<close> return the set, the dropped ids and whether it grew.\<close>

definition fnset_insert :: "BoundedFnSet \<Rightarrow> FnId \<Rightarrow> FnId list \<Rightarrow> BoundedFnSet \<times> FnId list \<times> bool" where
  "fnset_insert s f dropped =
     (if multi s then (s, dropped, False)
      else case binary_search f (fn_ids s) of
          Inr _ \<Rightarrow> (s, dropped, False)
        | Inl i \<Rightarrow>
            (if length (fn_ids s) = FNSET_MAX
             then (\<lparr>fn_ids = [], multi = True\<rparr>,
                   dropped @ filter (\<lambda>x. \<not> is_builtin x) (fn_ids s @ [f]), True)
             else (s\<lparr>fn_ids := vec_insert i f (fn_ids s)\<rparr>, dropped, True)))"

definition fnset_set_multi :: "BoundedFnSet \<Rightarrow> FnId list \<Rightarrow> BoundedFnSet \<times> FnId list \<times> bool" where
  "fnset_set_multi s dropped =
     (if multi s then (s, dropped, False)
      else (\<lparr>fn_ids = [], multi = True\<rparr>, dropped @ filter (\<lambda>x. \<not> is_builtin x) (fn_ids s), True))"

fun fnset_insert_all ::
    "FnId list \<Rightarrow> BoundedFnSet \<Rightarrow> FnId list \<Rightarrow> bool \<Rightarrow> BoundedFnSet \<times> FnId list \<times> bool" where
  "fnset_insert_all [] s dropped changed = (s, dropped, changed)"
| "fnset_insert_all (f # fs) s dropped changed =
     (let (s', dropped', c) = fnset_insert s f dropped in fnset_insert_all fs s' dropped' (changed \<or> c))"

definition fnset_join_from ::
    "BoundedFnSet \<Rightarrow> BoundedFnSet \<Rightarrow> FnId list \<Rightarrow> BoundedFnSet \<times> FnId list \<times> bool" where
  "fnset_join_from s o1 dropped =
     (if multi o1 then fnset_set_multi s dropped else fnset_insert_all (fn_ids o1) s dropped False)"

definition fnset_scripted :: "BoundedFnSet \<Rightarrow> ScriptId list" where
  "fnset_scripted s = List.map_filter as_script (fn_ids s)"

definition fnset_scripted_only :: "BoundedFnSet \<Rightarrow> FnId list \<Rightarrow> BoundedFnSet \<times> FnId list" where
  "fnset_scripted_only s dropped =
     (if multi s then (let (o1, d, _) = fnset_set_multi fnset_default dropped in (o1, d))
      else (let (o1, d, _) = fnset_insert_all (filter (\<lambda>f. \<not> is_builtin f) (fn_ids s)) fnset_default dropped False
            in (o1, d)))"

definition fnset_is_subset_of :: "BoundedFnSet \<Rightarrow> BoundedFnSet \<Rightarrow> bool" where
  "fnset_is_subset_of s o1 \<longleftrightarrow>
     (if multi o1 then True else if multi s then False
      else list_all (\<lambda>f. \<not> isl (binary_search f (fn_ids o1))) (fn_ids s))"

section \<open>Objects\<close>

type_synonym AbsId = nat
type_synonym ClassId = nat
type_synonym CtxId = nat

definition CTX0 :: CtxId where "CTX0 = 0"

record AbsLabels =
  lbl_class :: "ClassId option"
  lbl_snap :: bool
  lbl_array :: bool

datatype ObjType = OEmpty | One AbsId | ClassAny ClassId | AnyOf ClassId | AnyObject

definition class_of :: "AbsId \<Rightarrow> AbsLabels list \<Rightarrow> ClassId option" where
  "class_of a meta = (if a < length meta then lbl_class (meta ! a) else None)"

definition is_snap :: "AbsId \<Rightarrow> AbsLabels list \<Rightarrow> bool" where
  "is_snap a meta \<longleftrightarrow> a < length meta \<and> lbl_snap (meta ! a)"

definition join_obj :: "ObjType \<Rightarrow> ObjType \<Rightarrow> AbsLabels list \<Rightarrow> ObjType" where
  "join_obj a b meta =
     (case (a, b) of
        (OEmpty, x) \<Rightarrow> x
      | (x, OEmpty) \<Rightarrow> x
      | (AnyObject, _) \<Rightarrow> AnyObject
      | (_, AnyObject) \<Rightarrow> AnyObject
      | (AnyOf r, AnyOf s) \<Rightarrow> (if r = s then AnyOf r else AnyObject)
      | (AnyOf _, _) \<Rightarrow> AnyObject
      | (_, AnyOf _) \<Rightarrow> AnyObject
      | (One x, One y) \<Rightarrow>
          (if x = y then One x
           else if is_snap x meta \<and> \<not> is_snap y meta then One x
           else if is_snap y meta \<and> \<not> is_snap x meta then One y
           else (case (class_of x meta, class_of y meta) of
                   (Some c, Some d) \<Rightarrow> (if c = d then ClassAny c else AnyObject)
                 | _ \<Rightarrow> AnyObject))
      | (One x, ClassAny c) \<Rightarrow> (if class_of x meta = Some c then ClassAny c else AnyObject)
      | (ClassAny c, One x) \<Rightarrow> (if class_of x meta = Some c then ClassAny c else AnyObject)
      | (ClassAny c, ClassAny d) \<Rightarrow> (if c = d then ClassAny c else AnyObject))"

section \<open>Typesets\<close>

record TypeSet =
  t_prims :: prims
  t_fns :: BoundedFnSet
  t_obj :: ObjType
  t_range :: Range
  t_unknown :: bool
  t_interval :: Interval

definition MAX_CELL_CHANGES :: nat where "MAX_CELL_CHANGES = 768"

definition ts_default :: TypeSet where
  "ts_default = \<lparr>t_prims = PRIMS_EMPTY, t_fns = fnset_default, t_obj = OEmpty, t_range = I32,
     t_unknown = False, t_interval = IEmpty\<rparr>"

definition prims_interval :: "prims \<Rightarrow> Interval" where
  "prims_interval p = (if intersects p (prims_or PRIM_INT32 PRIM_DOUBLE) then INum else IEmpty)"

definition ts_any :: TypeSet where
  "ts_any = \<lparr>t_prims = MODELED_PRIMS, t_fns = \<lparr>fn_ids = [], multi = True\<rparr>, t_obj = AnyObject,
     t_range = Top, t_unknown = True, t_interval = IAny\<rparr>"

definition ts_unresolved :: TypeSet where
  "ts_unresolved = \<lparr>t_prims = PRIMS_EMPTY, t_fns = \<lparr>fn_ids = [], multi = True\<rparr>, t_obj = AnyObject,
     t_range = Top, t_unknown = True, t_interval = IAny\<rparr>"

definition ts_prim :: "prims \<Rightarrow> TypeSet" where
  "ts_prim p = ts_default\<lparr>t_prims := p, t_range := (if intersects p PRIM_DOUBLE then Top else I32),
     t_interval := prims_interval p\<rparr>"

definition ts_unknown_evidence :: TypeSet where
  "ts_unknown_evidence = ts_default\<lparr>t_unknown := True, t_range := Top, t_interval := IAny\<rparr>"

definition ts_prim_interval :: "prims \<Rightarrow> Range \<Rightarrow> Interval \<Rightarrow> TypeSet" where
  "ts_prim_interval p r iv = ts_default\<lparr>t_prims := p, t_range := r, t_interval := iv\<rparr>"

definition ts_fn_one :: "FnId \<Rightarrow> TypeSet" where
  "ts_fn_one f = ts_default\<lparr>t_fns := fnset_one f\<rparr>"

definition ts_obj_one :: "AbsId \<Rightarrow> TypeSet" where
  "ts_obj_one a = ts_default\<lparr>t_obj := One a\<rparr>"

definition ts_is_empty :: "TypeSet \<Rightarrow> bool" where
  "ts_is_empty t \<longleftrightarrow> prims_is_empty (t_prims t) \<and> \<not> t_unknown t \<and> fnset_is_empty (t_fns t) \<and> t_obj t = OEmpty"

record JoinSink =
  dropped_fns :: "FnId list"
  snap_absorbs :: "(AbsId \<times> AbsId) list"

definition snap_absorb :: "ObjType \<Rightarrow> ObjType \<Rightarrow> ObjType \<Rightarrow> (AbsId \<times> AbsId) list" where
  "snap_absorb a b joined =
     (case (a, b) of
        (One x, One y) \<Rightarrow>
          (if x \<noteq> y then (case joined of One z \<Rightarrow> [(z, if z = x then y else x)] | _ \<Rightarrow> []) else [])
      | _ \<Rightarrow> [])"

definition join_from :: "TypeSet \<Rightarrow> TypeSet \<Rightarrow> AbsLabels list \<Rightarrow> JoinSink \<Rightarrow> TypeSet \<times> JoinSink \<times> bool" where
  "join_from t o1 meta sink =
     (let c1 = \<not> subset_of (t_prims o1) (t_prims t);
          p = (if c1 then prims_or (t_prims t) (t_prims o1) else t_prims t);
          c2 = (t_unknown o1 \<and> \<not> t_unknown t);
          u = (if c2 then True else t_unknown t);
          (f, dropped, c3) = fnset_join_from (t_fns t) (t_fns o1) (dropped_fns sink);
          joined = join_obj (t_obj t) (t_obj o1) meta;
          absorbs = snap_absorbs sink @ snap_absorb (t_obj t) (t_obj o1) joined;
          c4 = (joined \<noteq> t_obj t);
          c5 = (t_range o1 > t_range t);
          r = (if c5 then t_range o1 else t_range t);
          h = interval_join (t_interval t) (t_interval o1);
          c6 = (h \<noteq> t_interval t)
      in (\<lparr>t_prims = p, t_fns = f, t_obj = joined, t_range = r, t_unknown = u, t_interval = h\<rparr>,
          \<lparr>dropped_fns = dropped, snap_absorbs = absorbs\<rparr>,
          c1 \<or> c2 \<or> c3 \<or> c4 \<or> c5 \<or> c6))"

section \<open>Arithmetic transfer\<close>

definition opnd :: "TypeSet \<Rightarrow> Opnd" where
  "opnd t = \<lparr>op_prims = t_prims t,
     op_wild = t_unknown t \<or> \<not> fnset_is_empty (t_fns t) \<or> t_obj t \<noteq> OEmpty, op_range = t_range t\<rparr>"

definition operand_interval :: "TypeSet \<Rightarrow> Interval" where
  "operand_interval t =
     (if t_unknown t \<or> intersects (t_prims t) (prims_or PRIM_UNDEFINED PRIM_STRING) \<or>
         \<not> fnset_is_empty (t_fns t) \<or> t_obj t \<noteq> OEmpty
      then IAny
      else if intersects (t_prims t) (prims_or PRIM_BOOLEAN PRIM_NULL)
      then interval_join (t_interval t) (IIn (vr 0 1))
      else t_interval t)"

definition exact_iv :: "ValueRange \<Rightarrow> Iv" where
  "exact_iv w = Some (lo w, hi w, False)"

definition iv_transfer :: "NumOp \<Rightarrow> Iv \<Rightarrow> Iv option \<Rightarrow> bool \<Rightarrow> Iv" where
  "iv_transfer op a b unbounded_b =
     (if \<not> unary op \<and> b = None \<and> \<not> unbounded_b then None
      else let b = (case b of Some v \<Rightarrow> v | None \<Rightarrow> None); one = Some (1, 1, False)
        in case op of
             Add \<Rightarrow> iv_add a b
           | Sub \<Rightarrow> iv_sub a b
           | Mul \<Rightarrow> iv_mul a b
           | Mod \<Rightarrow> iv_mod a b
           | Div \<Rightarrow> None
           | Pow \<Rightarrow> None
           | Inc \<Rightarrow> iv_add a one
           | Dec \<Rightarrow> iv_sub a one
           | Neg \<Rightarrow> iv_neg a
           | Pos \<Rightarrow> a
           | ToNumeric \<Rightarrow> a
           | Ursh \<Rightarrow> iv_ursh a b
           | BitAnd \<Rightarrow> iv_bitand a b
           | BitOr \<Rightarrow> iv_bitorxor a b
           | BitXor \<Rightarrow> iv_bitorxor a b
           | Lsh \<Rightarrow> iv_lsh a b
           | Rsh \<Rightarrow> iv_rsh a b
           | BitNot \<Rightarrow> iv_bitnot a)"

definition arith_lit :: "NumOp \<Rightarrow> ValueRange \<Rightarrow> ValueRange option \<Rightarrow> ValueRange option" where
  "arith_lit op a b =
     map_option (\<lambda>(l, h, _). vr l h) (iv_transfer op (exact_iv a) (map_option exact_iv b) False)"

text \<open>The operand view of the interval transfer: a literal wins; an empty cell gives nothing.\<close>

definition arith_cv :: "Interval \<Rightarrow> ValueRange option \<Rightarrow> Iv option" where
  "arith_cv h lit =
     (case lit of
        Some w \<Rightarrow> Some (exact_iv w)
      | None \<Rightarrow>
          (case h of IEmpty \<Rightarrow> None | IIn w \<Rightarrow> Some (exact_iv w) | INum \<Rightarrow> Some None | IAny \<Rightarrow> Some None))"

definition arith_interval ::
    "NumOp \<Rightarrow> Interval \<Rightarrow> ValueRange option \<Rightarrow> Interval option \<Rightarrow> ValueRange option \<Rightarrow> Interval" where
  "arith_interval op a a_lit b b_lit =
     (case arith_cv a a_lit of
        None \<Rightarrow> IEmpty
      | Some ia \<Rightarrow>
          (case map_option (\<lambda>h. arith_cv h b_lit) b of
             Some None \<Rightarrow> IEmpty
           | ibo \<Rightarrow>
               (let ib = (case ibo of Some (Some v) \<Rightarrow> Some v | _ \<Rightarrow> None);
                    unbounded = (if op = Add \<and> (a = IAny \<or> b = Some IAny) then IAny else INum)
                in case iv_transfer op ia ib True of
                     Some (l, h, _) \<Rightarrow> of_range l h
                   | None \<Rightarrow> unbounded)))"

definition arith_transfer :: "NumOp \<Rightarrow> TypeSet \<Rightarrow> TypeSet option \<Rightarrow> (prims \<times> Range) option" where
  "arith_transfer op a b = result op (opnd a) (map_option opnd b)"

section \<open>Claims\<close>

definition pure_numeric :: "TypeSet \<Rightarrow> prims option" where
  "pure_numeric t =
     (if \<not> prims_is_empty (t_prims t) \<and> subset_of (t_prims t) (prims_or PRIM_INT32 PRIM_DOUBLE) \<and>
         \<not> t_unknown t \<and> fnset_is_empty (t_fns t) \<and> t_obj t = OEmpty
      then Some (t_prims t) else None)"

definition pure_single_prim :: "TypeSet \<Rightarrow> prims \<Rightarrow> bool" where
  "pure_single_prim t p \<longleftrightarrow>
     t_prims t = p \<and> \<not> t_unknown t \<and> fnset_is_empty (t_fns t) \<and> t_obj t = OEmpty"

definition fractional_reachable :: "TypeSet \<Rightarrow> bool" where
  "fractional_reachable t \<longleftrightarrow> intersects (t_prims t) PRIM_DOUBLE \<and> t_range t = Top"

definition string_reachable :: "TypeSet \<Rightarrow> bool" where
  "string_reachable t \<longleftrightarrow> intersects (t_prims t) PRIM_STRING"

definition numeric_claim :: "TypeSet \<Rightarrow> Claim option" where
  "numeric_claim t = Option.bind (pure_numeric t) (\<lambda>p.
     let c = claim_of_prims p
     in Some (if intersects p PRIM_DOUBLE \<and> t_range t = Top then claim_with_double_first c else c))"

definition value_claim :: "TypeSet \<Rightarrow> Claim option" where
  "value_claim t =
     (case pure_numeric t of
        Some p \<Rightarrow>
          (let c = claim_of_prims p
           in Some (if intersects p PRIM_DOUBLE \<and> t_range t = Top then claim_with_double_first c else c))
      | None \<Rightarrow>
          (if prims_is_empty (t_prims t) \<and> \<not> t_unknown t \<and> (t_obj t \<noteq> OEmpty \<or> \<not> fnset_is_empty (t_fns t))
           then Some CLAIM_OBJECT else None))"

definition site_claim :: "TypeSet \<Rightarrow> Claim option" where
  "site_claim t = Option.bind (value_claim t) (\<lambda>c.
     Some (if \<not> claim_is_object c \<and> intersects (t_prims t) PRIM_DOUBLE \<and> t_range t = Top
           then claim_with_double_first c else c))"

definition object_claim_nullish :: "TypeSet \<Rightarrow> Claim option" where
  "object_claim_nullish t =
     (if subset_of (t_prims t) (prims_or PRIM_NULL PRIM_UNDEFINED) \<and> \<not> t_unknown t \<and>
         (t_obj t \<noteq> OEmpty \<or> \<not> fnset_is_empty (t_fns t))
      then Some CLAIM_OBJECT else None)"

definition value_claim_full :: "TypeSet \<Rightarrow> Claim option" where
  "value_claim_full t =
     (if pure_single_prim t PRIM_STRING then Some (claim_of_prims PRIM_STRING)
      else if pure_single_prim t PRIM_BOOLEAN then Some (claim_of_prims PRIM_BOOLEAN)
      else if pure_single_prim t PRIM_SYMBOL then Some (claim_of_prims PRIM_SYMBOL)
      else value_claim t)"

section \<open>Agreement\<close>

datatype 'v Agreed = Unset | Agree 'v | Conflict

fun agreed_observe :: "'v Agreed \<Rightarrow> 'v \<Rightarrow> 'v Agreed" where
  "agreed_observe Unset v = Agree v"
| "agreed_observe (Agree cur) v = (if cur = v then Agree cur else Conflict)"
| "agreed_observe Conflict v = Conflict"

fun agreed_get :: "'v Agreed \<Rightarrow> 'v option" where
  "agreed_get (Agree v) = Some v"
| "agreed_get _ = None"

definition observe_in :: "('k \<rightharpoonup> 'v Agreed) \<Rightarrow> 'k \<Rightarrow> 'v \<Rightarrow> ('k \<rightharpoonup> 'v Agreed)" where
  "observe_in m k v = m(k \<mapsto> agreed_observe (case m k of Some a \<Rightarrow> a | None \<Rightarrow> Unset) v)"

datatype 'v AgreedSet = SUnset | SSome "'v list" | SConflict

fun agreed_set_observe :: "'v AgreedSet \<Rightarrow> 'v \<Rightarrow> nat \<Rightarrow> 'v AgreedSet" where
  "agreed_set_observe SUnset v cap = SSome [v]"
| "agreed_set_observe (SSome vs) v cap =
     (if v \<in> set vs then SSome vs else if length vs < cap then SSome (vs @ [v]) else SConflict)"
| "agreed_set_observe SConflict v cap = SConflict"

definition agreed_set_conflict :: "'v AgreedSet \<Rightarrow> 'v AgreedSet" where
  "agreed_set_conflict s = SConflict"

fun agreed_set_get :: "'v AgreedSet \<Rightarrow> 'v list option" where
  "agreed_set_get (SSome vs) = Some vs"
| "agreed_set_get _ = None"

section \<open>What an interval claims\<close>

text \<open>
  The numbers an interval admits, reading negative zero as zero. Cells hold quantized bounds, so a
  bounded interval always has zero inside.
\<close>

fun read_zero :: "jsnum \<Rightarrow> jsnum" where
  "read_zero JNegZero = JInt 0"
| "read_zero x = x"

definition vr_gamma :: "ValueRange \<Rightarrow> jsnum set" where
  "vr_gamma w = {x. \<exists>n. read_zero x = JInt n \<and> lo w \<le> n \<and> n \<le> hi w}"

fun interval_gamma :: "Interval \<Rightarrow> jsnum set" where
  "interval_gamma IEmpty = {}"
| "interval_gamma (IIn w) = vr_gamma w"
| "interval_gamma INum = UNIV"
| "interval_gamma IAny = UNIV"

fun interval_ok :: "Interval \<Rightarrow> bool" where
  "interval_ok (IIn w) = quantized w"
| "interval_ok _ = True"

lemma vr_sel [simp]: "lo (vr l h) = l" "hi (vr l h) = h"
  by (simp_all add: vr_def)

lemma hull_sel [simp]: "lo (hull a b) = min (lo a) (lo b)" "hi (hull a b) = max (hi a) (hi b)"
  by (simp_all add: hull_def)

lemma interval_join_top [simp]:
  "interval_join x IEmpty = x" "interval_join x IAny = IAny" "interval_join IAny x = IAny"
  by (cases x; simp)+

lemma interval_join_comm: "interval_join a b = interval_join b a"
  by (cases a; cases b) (auto simp: hull_def min.commute max.commute)

lemma interval_join_assoc: "interval_join (interval_join a b) c = interval_join a (interval_join b c)"
  by (cases a; cases b; cases c) (auto simp: hull_def min.assoc max.assoc)

lemma interval_join_idem: "interval_join a a = a"
  by (cases a) (auto intro: vr_eqI)

interpretation interval_lattice: join_semilattice interval_join
  by unfold_locales (fact interval_join_comm interval_join_assoc interval_join_idem)+

lemma interval_join_ok: "interval_ok a \<Longrightarrow> interval_ok b \<Longrightarrow> interval_ok (interval_join a b)"
  by (cases a; cases b) (auto intro: quantized_hull)

lemma interval_join_gamma: "interval_gamma a \<union> interval_gamma b \<subseteq> interval_gamma (interval_join a b)"
  by (cases a; cases b) (auto simp: vr_gamma_def)

lemma of_range_ok: "interval_ok (of_range l h)"
  by (auto simp: of_range_def hq_Some(3) split: option.splits)

lemma of_range_gamma: "vr_gamma (vr l h) \<subseteq> interval_gamma (of_range l h)"
  by (auto simp: of_range_def vr_gamma_def split: option.splits)
    (meson hq_Some(1,2) order_trans)+

section \<open>Soundness of the interval transfer\<close>

text \<open>The numeric value of an operator; a unary one ignores its second argument.\<close>

fun js_op :: "NumOp \<Rightarrow> jsnum \<Rightarrow> jsnum \<Rightarrow> jsnum option" where
  "js_op Add x y = js_add x y"
| "js_op Sub x y = js_sub x y"
| "js_op Mul x y = js_mul x y"
| "js_op Mod x y = js_mod x y"
| "js_op Div x y = None"
| "js_op Pow x y = None"
| "js_op Inc x y = js_add x (JInt 1)"
| "js_op Dec x y = js_sub x (JInt 1)"
| "js_op Neg x y = js_neg x"
| "js_op Pos x y = Some x"
| "js_op ToNumeric x y = Some x"
| "js_op Ursh x y = js_ursh x y"
| "js_op BitAnd x y = js_bitand x y"
| "js_op BitOr x y = js_bitor x y"
| "js_op BitXor x y = js_bitxor x y"
| "js_op Lsh x y = js_lsh x y"
| "js_op Rsh x y = js_rsh x y"
| "js_op BitNot x y = js_bitnot x"

lemmas js_bit_defs = js_bitand_def js_bitor_def js_bitxor_def js_bitnot_def js_lsh_def js_rsh_def
  js_ursh_def shift_count_def

text \<open>Reading negative zero as zero before an operator changes nothing after it.\<close>

lemma to_int32_read_zero [simp]: "to_int32 (read_zero x) = to_int32 x"
  by (cases x) auto

lemma js_arith_read_zero:
  "map_option read_zero (js_add (read_zero x) (read_zero y)) = map_option read_zero (js_add x y)"
  "map_option read_zero (js_sub (read_zero x) (read_zero y)) = map_option read_zero (js_sub x y)"
  "map_option read_zero (js_mul (read_zero x) (read_zero y)) = map_option read_zero (js_mul x y)"
  "map_option read_zero (js_mod (read_zero x) (read_zero y)) = map_option read_zero (js_mod x y)"
  "map_option read_zero (js_neg (read_zero x)) = map_option read_zero (js_neg x)"
  by (cases x; cases y; auto simp: exact_num_def js_mul_def)+

lemma read_zero_idem [simp]: "read_zero (read_zero x) = read_zero x"
  by (cases x) auto

lemma js_op_read_zero:
  "map_option read_zero (js_op op (read_zero x) (read_zero y)) = map_option read_zero (js_op op x y)"
  using js_arith_read_zero [of x] js_arith_read_zero(1,2) [of x "JInt 1"]
  by (cases op) (simp_all add: js_bit_defs)

lemma iv_transfer_sound:
  assumes "iv_wf a" "iv_wf (case b of Some v \<Rightarrow> v | None \<Rightarrow> None)" "x \<in> iv_gamma a"
    "y \<in> iv_gamma (case b of Some v \<Rightarrow> v | None \<Rightarrow> None)" "iv_transfer op a b u = Some r"
    "\<not> mul_zero_gap a (case b of Some v \<Rightarrow> v | None \<Rightarrow> None)"
  shows "\<exists>v. js_op op x y = Some v \<and> v \<in> iv_gamma (Some r)"
proof -
  let ?b = "case b of Some v \<Rightarrow> v | None \<Rightarrow> None"
  have one: "iv_wf (Some (1, 1, False))" "JInt 1 \<in> iv_gamma (Some (1, 1, False))"
    by (simp_all add: IV_LIM_def)
  note snd = add.sound [OF assms(1,2) _ assms(3,4)] sub.sound [OF assms(1,2) _ assms(3,4)]
    mul.sound [OF assms(1,2,6,3,4)] modulo.sound [OF assms(1,2) _ assms(3,4)]
    add.sound [OF assms(1) one(1) _ assms(3) one(2)] sub.sound [OF assms(1) one(1) _ assms(3) one(2)]
    iv_neg_sound [OF assms(1,3)] iv_bitnot_sound [OF assms(3)]
    band.sound [OF assms(1,2) _ assms(3,4)] bor.sound [OF assms(1,2) _ assms(3,4)]
    bxor.sound [OF assms(1,2) _ assms(3,4)] lsh.sound [OF assms(1,2) _ assms(3,4)]
    rsh.sound [OF assms(1,2) _ assms(3,4)] ursh.sound [OF assms(1,2) _ assms(3,4)]
  show ?thesis
    using assms(5,3) snd by (cases op) (auto simp: iv_transfer_def Let_def unary_def split: if_splits)
qed

text \<open>
  An operand's numeric value: a literal wins over the cell; literals are exact integers.
\<close>

definition lit_ok :: "ValueRange option \<Rightarrow> bool" where
  "lit_ok l \<longleftrightarrow> (case l of Some w \<Rightarrow> lo w \<le> hi w \<and> - IV_LIM \<le> lo w \<and> hi w \<le> IV_LIM | None \<Rightarrow> True)"

definition operand_gamma :: "Interval \<Rightarrow> ValueRange option \<Rightarrow> jsnum set" where
  "operand_gamma h lit = (case lit of Some w \<Rightarrow> vr_gamma w | None \<Rightarrow> interval_gamma h)"

lemma arith_cv_sound:
  assumes "interval_ok h" "lit_ok l" "x \<in> operand_gamma h l"
  obtains iv where "arith_cv h l = Some iv" "iv_wf iv" "read_zero x \<in> iv_gamma iv" "\<nexists>a b. iv = Some (a, b, True)"
proof -
  have "\<exists>iv. arith_cv h l = Some iv \<and> iv_wf iv \<and> read_zero x \<in> iv_gamma iv \<and> (\<nexists>a b. iv = Some (a, b, True))"
  proof (cases l)
    case (Some w)
    with assms show ?thesis
      by (auto simp: arith_cv_def exact_iv_def lit_ok_def operand_gamma_def vr_gamma_def)
  next
    case None
    have "interval_ok (IIn w) \<Longrightarrow> lo w \<le> hi w \<and> - IV_LIM \<le> lo w \<and> hi w \<le> IV_LIM" for w
      using quantized_bounds [of w] by (auto simp: iv_consts)
    with None assms show ?thesis
      by (cases h) (auto simp: arith_cv_def exact_iv_def operand_gamma_def vr_gamma_def)
  qed
  with that show ?thesis by blast
qed

lemma no_gap_exact: "\<nexists>l h. a = Some (l, h, True) \<Longrightarrow> \<nexists>l h. b = Some (l, h, True) \<Longrightarrow> \<not> mul_zero_gap a b"
  by (auto simp: mul_zero_gap_def)

lemma iv_gamma_vr: "v \<in> iv_gamma (Some (l, h, nz)) \<Longrightarrow> v \<in> vr_gamma (vr l h)"
  by (cases v) (auto simp: vr_gamma_def)

lemma vr_gamma_read_zero: "read_zero v \<in> vr_gamma w \<longleftrightarrow> v \<in> vr_gamma w"
  by (simp add: vr_gamma_def)

lemma transfer_read_zero:
  assumes "iv_wf a" "iv_wf (case b of Some v \<Rightarrow> v | None \<Rightarrow> None)" "read_zero x \<in> iv_gamma a"
    "read_zero y \<in> iv_gamma (case b of Some v \<Rightarrow> v | None \<Rightarrow> None)" "iv_transfer op a b u = Some (l, h, nz)"
    "\<not> mul_zero_gap a (case b of Some v \<Rightarrow> v | None \<Rightarrow> None)"
  shows "\<exists>v. js_op op x y = Some v \<and> v \<in> vr_gamma (vr l h)"
proof -
  from iv_transfer_sound [OF assms] obtain v where v: "js_op op (read_zero x) (read_zero y) = Some v"
    "v \<in> vr_gamma (vr l h)" by (blast dest: iv_gamma_vr)
  with js_op_read_zero [of op x y] obtain v' where "js_op op x y = Some v'" "read_zero v' = read_zero v"
    by (cases "js_op op x y") auto
  with v show ?thesis by (metis vr_gamma_read_zero)
qed

definition operand_opt_gamma :: "Interval option \<Rightarrow> ValueRange option \<Rightarrow> jsnum set" where
  "operand_opt_gamma b lit = (case b of Some h \<Rightarrow> operand_gamma h lit | None \<Rightarrow> UNIV)"

section \<open>Callable sets\<close>

text \<open>
  A callable set is canonical: strictly ascending, at most eight ids, empty once saturated. It
  stands for the set of its ids, or for every callable.
\<close>

definition fnset_ok :: "BoundedFnSet \<Rightarrow> bool" where
  "fnset_ok s \<longleftrightarrow> strict_asc (fn_ids s) \<and> length (fn_ids s) \<le> FNSET_MAX \<and> (multi s \<longrightarrow> fn_ids s = [])"

fun fnset_abs :: "BoundedFnSet \<Rightarrow> FnId set option" where
  "fnset_abs s = (if multi s then None else Some (set (fn_ids s)))"

definition cap_union :: "FnId set option \<Rightarrow> FnId set option \<Rightarrow> FnId set option" where
  "cap_union a b =
     (case (a, b) of (Some A, Some B) \<Rightarrow> (if card (A \<union> B) \<le> FNSET_MAX then Some (A \<union> B) else None) | _ \<Rightarrow> None)"

lemma strict_asc_distinct: "strict_asc xs \<Longrightarrow> distinct xs"
  by (induction xs) auto

lemma strict_asc_set_eq: "strict_asc xs \<Longrightarrow> strict_asc ys \<Longrightarrow> set xs = set ys \<Longrightarrow> xs = ys"
  by (metis strict_sorted_equal)

lemma fnset_abs_inj: "fnset_ok s \<Longrightarrow> fnset_ok t \<Longrightarrow> fnset_abs s = fnset_abs t \<Longrightarrow> s = t"
  by (cases s; cases t) (auto simp: fnset_ok_def dest: strict_asc_set_eq split: if_splits)

lemma fnset_card: "fnset_ok s \<Longrightarrow> card (set (fn_ids s)) = length (fn_ids s)"
  by (simp add: fnset_ok_def distinct_card strict_asc_distinct)

lemma fnset_insert_cases:
  assumes "fnset_ok s"
  shows "fnset_insert s f d =
    (if multi s \<or> f \<in> set (fn_ids s) then (s, d, False)
     else if length (fn_ids s) = FNSET_MAX
     then (\<lparr>fn_ids = [], multi = True\<rparr>, d @ filter (\<lambda>x. \<not> is_builtin x) (fn_ids s @ [f]), True)
     else (s\<lparr>fn_ids := vec_insert (partition_point (\<lambda>y. y < f) (fn_ids s)) f (fn_ids s)\<rparr>, d, True))"
  using binary_search_mem [of "fn_ids s" f] assms
  by (auto simp: fnset_insert_def fnset_ok_def binary_search_def Let_def split: sum.splits if_splits)

lemma fnset_insert_fresh:
  assumes "fnset_ok s" "\<not> multi s" "f \<notin> set (fn_ids s)"
  defines "ids \<equiv> vec_insert (partition_point (\<lambda>y. y < f) (fn_ids s)) f (fn_ids s)"
  shows "strict_asc ids" "set ids = insert f (set (fn_ids s))" "length ids = Suc (length (fn_ids s))"
proof -
  have "binary_search f (fn_ids s) = Inl (partition_point (\<lambda>y. y < f) (fn_ids s))"
    using binary_search_mem [of "fn_ids s" f] assms(1,3)
    by (auto simp: fnset_ok_def binary_search_def Let_def split: if_splits)
  from vec_insert_search [OF _ this] assms(1)
  show "strict_asc ids" "set ids = insert f (set (fn_ids s))" "length ids = Suc (length (fn_ids s))"
    unfolding ids_def fnset_ok_def by simp_all
qed

lemma fnset_insert_ok: "fnset_ok s \<Longrightarrow> fnset_ok (fst (fnset_insert s f d))"
  using fnset_insert_fresh [of s f] by (auto simp: fnset_insert_cases fnset_ok_def)

lemma fnset_insert_abs:
  assumes "fnset_ok s"
  shows "fnset_abs (fst (fnset_insert s f d)) = cap_union (fnset_abs s) (Some {f})"
proof -
  have "card (insert f (set (fn_ids s))) = Suc (length (fn_ids s))" if "f \<notin> set (fn_ids s)"
    using that fnset_card [OF assms] by simp
  moreover have "length (fn_ids s) \<le> FNSET_MAX" using assms by (simp add: fnset_ok_def)
  ultimately show ?thesis
    using assms fnset_insert_fresh [of s f] fnset_card [OF assms]
    by (auto simp: fnset_insert_cases cap_union_def insert_absorb)
qed

lemma fnset_insert_changed: "fnset_ok s \<Longrightarrow> snd (snd (fnset_insert s f d)) \<longleftrightarrow> fst (fnset_insert s f d) \<noteq> s"
  using fnset_insert_fresh [of s f]
  by (auto simp: fnset_insert_cases) (metis BoundedFnSet.select_convs(1) BoundedFnSet.surjective BoundedFnSet.update_convs(1) n_not_Suc_n)


definition fnset_upd :: "BoundedFnSet \<Rightarrow> BoundedFnSet \<Rightarrow> BoundedFnSet" where
  "fnset_upd s o1 = fst (fnset_join_from s o1 [])"

definition fn_rank :: "BoundedFnSet \<Rightarrow> nat" where
  "fn_rank s = (if multi s then FNSET_MAX + 1 else length (fn_ids s))"

lemma fnset_insert_rank: "fnset_ok s \<Longrightarrow> fst (fnset_insert s f d) \<noteq> s \<Longrightarrow> fn_rank s < fn_rank (fst (fnset_insert s f d))"
  using fnset_insert_fresh [of s f] by (auto simp: fnset_insert_cases fn_rank_def split: if_splits)

lemma cap_union_Some: "cap_union a (Some B) = Some C \<longleftrightarrow> (\<exists>A. a = Some A \<and> C = A \<union> B \<and> card (A \<union> B) \<le> FNSET_MAX)"
  by (auto simp: cap_union_def split: option.splits)

lemma cap_union_insert:
  "cap_union (cap_union a (Some {f})) (Some B) = cap_union a (Some (insert f B))"
proof (cases a)
  case (Some A)
  have "card (insert f A) \<le> card (A \<union> insert f B)" by (rule card_mono) auto
  with Some show ?thesis by (auto simp: cap_union_def)
qed (simp add: cap_union_def)


text \<open>The value of a join does not depend on the dropped list: it is a fold of plain inserts.\<close>

definition fnset_ins :: "BoundedFnSet \<Rightarrow> FnId \<Rightarrow> BoundedFnSet" where
  "fnset_ins s f = fst (fnset_insert s f [])"

lemma fnset_insert_value: "fst (fnset_insert s f d) = fnset_ins s f"
  by (auto simp: fnset_insert_def fnset_ins_def split: sum.splits)

lemma fnset_insert_eq:
  "fnset_ok s \<Longrightarrow> \<exists>d'. fnset_insert s f d = (fnset_ins s f, d', fnset_ins s f \<noteq> s)"
  using fnset_insert_changed [of s f d] fnset_insert_value [of s f d]
  by (cases "fnset_insert s f d") auto

lemma fnset_ins_ok [simp]: "fnset_ok s \<Longrightarrow> fnset_ok (fnset_ins s f)"
  by (simp add: fnset_ins_def fnset_insert_ok)

lemma fnset_ins_rank: "fnset_ok s \<Longrightarrow> fnset_ins s f \<noteq> s \<Longrightarrow> fn_rank s < fn_rank (fnset_ins s f)"
  by (simp add: fnset_ins_def fnset_insert_rank)

lemma fnset_fold_ok: "fnset_ok s \<Longrightarrow> fnset_ok (foldl fnset_ins s fs)"
  by (induction fs arbitrary: s) auto

lemma fnset_fold_rank:
  "fnset_ok s \<Longrightarrow> foldl fnset_ins s fs = s \<or> fn_rank s < fn_rank (foldl fnset_ins s fs)"
proof (induction fs arbitrary: s)
  case (Cons f fs)
  from Cons.IH [of "fnset_ins s f"] Cons.prems fnset_ins_rank [of s f] show ?case
    by (cases "fnset_ins s f = s") auto
qed simp

lemma fnset_fold_abs:
  "fnset_ok s \<Longrightarrow> fnset_abs (foldl fnset_ins s fs) = cap_union (fnset_abs s) (Some (set fs))"
proof (induction fs arbitrary: s)
  case Nil
  then show ?case using fnset_card [of s] by (auto simp: cap_union_def fnset_ok_def)
next
  case (Cons f fs)
  then show ?case
    using fnset_insert_abs [of s f "[]"] by (simp add: cap_union_insert fnset_ins_def [symmetric] del: fnset_abs.simps)
qed

lemma fnset_insert_all_eq:
  "fnset_ok s \<Longrightarrow> \<exists>d'. fnset_insert_all fs s d c = (foldl fnset_ins s fs, d', c \<or> foldl fnset_ins s fs \<noteq> s)"
proof (induction fs arbitrary: s d c)
  case (Cons f fs)
  obtain d1 where 1: "fnset_insert s f d = (fnset_ins s f, d1, fnset_ins s f \<noteq> s)"
    using fnset_insert_eq [OF Cons.prems] by blast
  from Cons.IH [of "fnset_ins s f"] Cons.prems obtain d2 where
    2: "fnset_insert_all fs (fnset_ins s f) d1 (c \<or> fnset_ins s f \<noteq> s) = (foldl fnset_ins (fnset_ins s f) fs, d2,
        (c \<or> fnset_ins s f \<noteq> s) \<or> foldl fnset_ins (fnset_ins s f) fs \<noteq> fnset_ins s f)" by fastforce
  have "fnset_ins s f \<noteq> s \<Longrightarrow> foldl fnset_ins (fnset_ins s f) fs \<noteq> s"
    using fnset_ins_rank [of s f] fnset_fold_rank [of "fnset_ins s f" fs] Cons.prems by force
  with 1 2 show ?case by (cases "fnset_ins s f = s") auto
qed simp

text \<open>The join refines the capped union, reports exactly whether the set changed, and raises the rank.\<close>

lemma fnset_join_eq:
  assumes "fnset_ok s"
  shows "\<exists>d'. fnset_join_from s o1 d = (fnset_upd s o1, d', fnset_upd s o1 \<noteq> s)"
proof (cases "multi o1")
  case True
  have "multi s \<or> \<lparr>fn_ids = [], multi = True\<rparr> \<noteq> s" by auto
  with True show ?thesis by (auto simp: fnset_join_from_def fnset_upd_def fnset_set_multi_def)
next
  case False
  from fnset_insert_all_eq [OF assms, of "fn_ids o1" d False] fnset_insert_all_eq [OF assms, of "fn_ids o1" "[]" False]
  show ?thesis using False by (auto simp: fnset_join_from_def fnset_upd_def)
qed

lemma fnset_upd_eq:
  "fnset_ok s \<Longrightarrow> fnset_upd s o1 =
     (if multi o1 then (if multi s then s else \<lparr>fn_ids = [], multi = True\<rparr>) else foldl fnset_ins s (fn_ids o1))"
  using fnset_insert_all_eq [of s "fn_ids o1" "[]" False]
  by (auto simp: fnset_upd_def fnset_join_from_def fnset_set_multi_def)

lemma fnset_upd_ok: "fnset_ok s \<Longrightarrow> fnset_ok (fnset_upd s o1)"
  by (auto simp: fnset_upd_eq fnset_fold_ok) (simp add: fnset_ok_def)

lemma fnset_upd_abs: "fnset_ok s \<Longrightarrow> fnset_abs (fnset_upd s o1) = cap_union (fnset_abs s) (fnset_abs o1)"
proof (cases "multi o1")
  case False
  then have "fnset_abs o1 = Some (set (fn_ids o1))" by simp
  moreover assume "fnset_ok s"
  ultimately show ?thesis using False fnset_fold_abs [of s "fn_ids o1"] by (simp add: fnset_upd_eq)
qed (simp add: fnset_upd_eq cap_union_def split: option.splits)

lemma fnset_upd_rank: "fnset_ok s \<Longrightarrow> fnset_upd s o1 \<noteq> s \<Longrightarrow> fn_rank s < fn_rank (fnset_upd s o1)"
  using fnset_fold_rank [of s "fn_ids o1"] by (auto simp: fnset_upd_eq fn_rank_def fnset_ok_def split: if_splits)

lemma cap_union_three:
  "cap_union (cap_union (Some A) (Some B)) (Some C) =
     (if card (A \<union> B \<union> C) \<le> FNSET_MAX then Some (A \<union> B \<union> C) else None)"
  using card_mono [of "A \<union> B \<union> C" "A \<union> B"] by (auto simp: cap_union_def)

lemma cap_union_None [simp]: "cap_union None b = None" "cap_union a None = None"
  by (auto simp: cap_union_def split: option.splits)

lemma cap_union_right_comm: "cap_union (cap_union a b) c = cap_union (cap_union a c) b"
  by (cases a; cases b; cases c) (simp_all add: cap_union_three Un_ac)

lemma fnset_rank_bound: "fnset_ok s \<Longrightarrow> fn_rank s \<le> 9"
  by (auto simp: fn_rank_def fnset_ok_def FNSET_MAX_def)

interpretation fnset_order: commuting_updates fnset_upd fnset_ok "\<lambda>_. True"
proof
  fix s x y :: BoundedFnSet
  assume s: "fnset_ok s"
  then show "fnset_ok (fnset_upd s x)" by (rule fnset_upd_ok)
  with s show "fnset_upd (fnset_upd s x) y = fnset_upd (fnset_upd s y) x"
    by (intro fnset_abs_inj) (simp_all add: fnset_upd_ok fnset_upd_abs cap_union_right_comm del: fnset_abs.simps)
qed

interpretation fnset_changes: ranked_join fnset_upd fn_rank 9 fnset_ok "\<lambda>_. True"
  by unfold_locales (auto intro: fnset_upd_ok fnset_upd_rank fnset_rank_bound)

section \<open>Objects and typesets\<close>

definition obj_rank :: "AbsLabels list \<Rightarrow> ObjType \<Rightarrow> nat" where
  "obj_rank meta ob =
     (case ob of OEmpty \<Rightarrow> 0 | One a \<Rightarrow> (if is_snap a meta then 2 else 1) | ClassAny _ \<Rightarrow> 3 | AnyOf _ \<Rightarrow> 3
      | AnyObject \<Rightarrow> 4)"

lemma join_obj_comm: "join_obj a b meta = join_obj b a meta"
  by (cases a; cases b) (auto simp: join_obj_def split: option.splits)

lemma join_obj_idem: "join_obj a a meta = a"
  by (cases a) (auto simp: join_obj_def)

lemma join_obj_rank: "join_obj a b meta \<noteq> a \<Longrightarrow> obj_rank meta a < obj_rank meta (join_obj a b meta)"
  by (cases a; cases b) (auto simp: join_obj_def obj_rank_def split: option.splits if_splits)

lemma join_obj_simps:
  "join_obj OEmpty x meta = x" "join_obj x OEmpty meta = x"
  "join_obj AnyObject x meta = AnyObject" "join_obj x AnyObject meta = AnyObject"
  "join_obj (AnyOf r) (AnyOf s) meta = (if r = s then AnyOf r else AnyObject)"
  "join_obj (AnyOf r) (One a) meta = AnyObject" "join_obj (One a) (AnyOf r) meta = AnyObject"
  "join_obj (AnyOf r) (ClassAny c) meta = AnyObject" "join_obj (ClassAny c) (AnyOf r) meta = AnyObject"
  "join_obj (One a) (ClassAny c) meta = (if class_of a meta = Some c then ClassAny c else AnyObject)"
  "join_obj (ClassAny c) (One a) meta = (if class_of a meta = Some c then ClassAny c else AnyObject)"
  "join_obj (ClassAny c) (ClassAny d) meta = (if c = d then ClassAny c else AnyObject)"
  "is_snap a meta = is_snap b meta \<Longrightarrow> join_obj (One a) (One b) meta =
     (if a = b then One a
      else case class_of a meta of
          Some c \<Rightarrow> (if class_of b meta = Some c then ClassAny c else AnyObject)
        | None \<Rightarrow> AnyObject)"
  by (cases x; auto simp: join_obj_def split: option.splits)+

text \<open>Every abstraction a cell names has the given snapshot bit.\<close>

definition obj_uniform :: "AbsLabels list \<Rightarrow> bool \<Rightarrow> ObjType \<Rightarrow> bool" where
  "obj_uniform meta b ob \<longleftrightarrow> (\<forall>a. ob = One a \<longrightarrow> is_snap a meta = b)"

lemma join_obj_uniform: "obj_uniform meta s a \<Longrightarrow> obj_uniform meta s b \<Longrightarrow> obj_uniform meta s (join_obj a b meta)"
  by (cases a; cases b) (auto simp: join_obj_def obj_uniform_def split: option.splits if_splits)

lemma join_obj_right_comm:
  assumes "obj_uniform meta s a" "obj_uniform meta s b" "obj_uniform meta s c"
  shows "join_obj (join_obj a b meta) c meta = join_obj (join_obj a c meta) b meta"
  using assms
  by (cases a; cases b; cases c) (auto simp: join_obj_simps obj_uniform_def split: option.splits)

fun interval_rank :: "Interval \<Rightarrow> nat" where
  "interval_rank IEmpty = 0"
| "interval_rank (IIn w) = 1 + rung (- lo w) + rung (hi w + 1)"
| "interval_rank INum = 76"
| "interval_rank IAny = 77"

lemma rung_sum_bound: "rung a + rung b \<le> 74"
  using rung_bound [of a] rung_bound [of b] by simp

lemma interval_rank_bound: "interval_rank i \<le> 77"
proof (cases i)
  case (IIn w)
  then show ?thesis using rung_sum_bound [of "- lo w" "hi w + 1"] by simp
qed simp_all

lemma hull_rank:
  assumes "quantized v" "quantized w" "hull v w \<noteq> v"
  shows "interval_rank (IIn v) < interval_rank (IIn (hull v w))"
proof -
  have "lo w < lo v \<or> hi v < hi w" using assms(3) by (force intro: vr_eqI)
  moreover have "lo w < lo v \<Longrightarrow> rung (- lo v) < rung (- lo w)" "hi v < hi w \<Longrightarrow> rung (hi v + 1) < rung (hi w + 1)"
    using assms(1) by (auto simp: quantized_def intro: rung_strict)
  ultimately show ?thesis by (cases "lo w < lo v"; cases "hi v < hi w") (auto simp: min_def max_def)
qed

lemma interval_join_rank:
  assumes "interval_ok a" "interval_ok b" "interval_join a b \<noteq> a"
  shows "interval_rank a < interval_rank (interval_join a b)"
proof (cases a)
  case (IIn v)
  have "1 + rung (- lo v) + rung (hi v + 1) < 76" using rung_sum_bound [of "- lo v" "hi v + 1"] by simp
  with IIn assms hull_rank [of v] show ?thesis by (cases b) auto
qed (use assms in \<open>cases b; simp\<close>)+

fun range_rank :: "Range \<Rightarrow> nat" where
  "range_rank I32 = 0"
| "range_rank I53 = 1"
| "range_rank Top = 2"

lemma range_rank_less: "r < s \<Longrightarrow> range_rank r < range_rank s"
  by (cases r; cases s) (auto simp: less_Range_def)

definition ts_upd :: "AbsLabels list \<Rightarrow> TypeSet \<Rightarrow> TypeSet \<Rightarrow> TypeSet" where
  "ts_upd meta t o1 = fst (join_from t o1 meta \<lparr>dropped_fns = [], snap_absorbs = []\<rparr>)"

definition ts_ok :: "TypeSet \<Rightarrow> bool" where
  "ts_ok t \<longleftrightarrow> fnset_ok (t_fns t) \<and> interval_ok (t_interval t)"

definition ts_rank :: "AbsLabels list \<Rightarrow> TypeSet \<Rightarrow> nat" where
  "ts_rank meta t = card (classes (t_prims t)) + (if t_unknown t then 1 else 0) + fn_rank (t_fns t) +
     obj_rank meta (t_obj t) + range_rank (t_range t) + interval_rank (t_interval t)"

lemma prims_or_subset: "subset_of b a \<Longrightarrow> prims_or a b = a"
  by (simp add: subset_of_classes Un_absorb2 flip: classes_inject)

lemma prims_or_changes: "prims_or a b \<noteq> a \<longleftrightarrow> \<not> subset_of b a"
  by (auto simp: subset_of_classes simp flip: classes_inject)

lemma join_from_eq:
  assumes "fnset_ok (t_fns t)"
  shows "\<exists>sink'. join_from t o1 meta sink = (ts_upd meta t o1, sink', ts_upd meta t o1 \<noteq> t)"
    "ts_upd meta t o1 = \<lparr>t_prims = prims_or (t_prims t) (t_prims o1), t_fns = fnset_upd (t_fns t) (t_fns o1),
       t_obj = join_obj (t_obj t) (t_obj o1) meta, t_range = max (t_range t) (t_range o1),
       t_unknown = (t_unknown t \<or> t_unknown o1), t_interval = interval_join (t_interval t) (t_interval o1)\<rparr>"
proof -
  obtain d where d: "fnset_join_from (t_fns t) (t_fns o1) (dropped_fns sink) =
      (fnset_upd (t_fns t) (t_fns o1), d, fnset_upd (t_fns t) (t_fns o1) \<noteq> t_fns t)"
    using fnset_join_eq [OF assms] by blast
  obtain d0 where d0: "fnset_join_from (t_fns t) (t_fns o1) [] =
      (fnset_upd (t_fns t) (t_fns o1), d0, fnset_upd (t_fns t) (t_fns o1) \<noteq> t_fns t)"
    using fnset_join_eq [OF assms] by blast
  show eq: "ts_upd meta t o1 = \<lparr>t_prims = prims_or (t_prims t) (t_prims o1), t_fns = fnset_upd (t_fns t) (t_fns o1),
       t_obj = join_obj (t_obj t) (t_obj o1) meta, t_range = max (t_range t) (t_range o1),
       t_unknown = (t_unknown t \<or> t_unknown o1), t_interval = interval_join (t_interval t) (t_interval o1)\<rparr>"
    by (auto simp: ts_upd_def join_from_def Let_def d0 prims_or_subset max_def)
  have "ts_upd meta t o1 \<noteq> t \<longleftrightarrow> \<not> subset_of (t_prims o1) (t_prims t) \<or> (t_unknown o1 \<and> \<not> t_unknown t) \<or>
      fnset_upd (t_fns t) (t_fns o1) \<noteq> t_fns t \<or> join_obj (t_obj t) (t_obj o1) meta \<noteq> t_obj t \<or>
      t_range o1 > t_range t \<or> interval_join (t_interval t) (t_interval o1) \<noteq> t_interval t"
    unfolding eq prims_or_changes [symmetric]
    by (cases t) (auto simp: max_def)
  then show "\<exists>sink'. join_from t o1 meta sink = (ts_upd meta t o1, sink', ts_upd meta t o1 \<noteq> t)"
    by (auto simp: join_from_def Let_def d eq prims_or_subset max_def)
qed


lemma ts_upd_ok: "ts_ok t \<Longrightarrow> ts_ok o1 \<Longrightarrow> ts_ok (ts_upd meta t o1)"
  by (auto simp: ts_ok_def join_from_eq(2) fnset_upd_ok interval_join_ok)

lemma ts_rank_bound:
  assumes "ts_ok t"
  shows "ts_rank meta t \<le> 109"
proof -
  have "obj_rank meta (t_obj t) \<le> 4" by (simp add: obj_rank_def split: ObjType.splits)
  moreover have "range_rank (t_range t) \<le> 2" by (cases "t_range t") auto
  moreover have "fn_rank (t_fns t) \<le> 9" using assms by (simp add: ts_ok_def fnset_rank_bound)
  ultimately show ?thesis
    using classes_card [of "t_prims t"] interval_rank_bound [of "t_interval t"] by (simp add: ts_rank_def)
qed

text \<open>Each dimension of the join is monotone in rank, and strictly so where it changes.\<close>

lemma ts_dims_rank:
  assumes "ts_ok t" "ts_ok o1"
  shows "prims_or (t_prims t) p \<noteq> t_prims t \<Longrightarrow> card (classes (t_prims t)) < card (classes (prims_or (t_prims t) p))"
    "fnset_upd (t_fns t) (t_fns o1) \<noteq> t_fns t \<Longrightarrow> fn_rank (t_fns t) < fn_rank (fnset_upd (t_fns t) (t_fns o1))"
    "max (t_range t) r \<noteq> t_range t \<Longrightarrow> range_rank (t_range t) < range_rank (max (t_range t) r)"
    "interval_join (t_interval t) (t_interval o1) \<noteq> t_interval t \<Longrightarrow>
       interval_rank (t_interval t) < interval_rank (interval_join (t_interval t) (t_interval o1))"
proof -
  assume "prims_or (t_prims t) p \<noteq> t_prims t"
  then have "classes (t_prims t) \<noteq> classes (prims_or (t_prims t) p)" by (metis classes_inject)
  then show "card (classes (t_prims t)) < card (classes (prims_or (t_prims t) p))"
    by (intro psubset_card_mono) auto
next
  assume "max (t_range t) r \<noteq> t_range t"
  then show "range_rank (t_range t) < range_rank (max (t_range t) r)"
    by (auto simp: max_def intro: range_rank_less split: if_splits)
qed (use assms in \<open>auto simp: ts_ok_def intro: fnset_upd_rank interval_join_rank\<close>)

lemma ts_upd_rank:
  assumes "ts_ok t" "ts_ok o1" "ts_upd meta t o1 \<noteq> t"
  shows "ts_rank meta t < ts_rank meta (ts_upd meta t o1)"
proof -
  have fok: "fnset_ok (t_fns t)" using assms(1) by (simp add: ts_ok_def)
  note d = ts_dims_rank [OF assms(1,2)] and o = join_obj_rank [of "t_obj t" "t_obj o1" meta]
  have "prims_or (t_prims t) (t_prims o1) \<noteq> t_prims t \<or> fnset_upd (t_fns t) (t_fns o1) \<noteq> t_fns t \<or>
    join_obj (t_obj t) (t_obj o1) meta \<noteq> t_obj t \<or> max (t_range t) (t_range o1) \<noteq> t_range t \<or>
    (t_unknown t \<or> t_unknown o1) \<noteq> t_unknown t \<or> interval_join (t_interval t) (t_interval o1) \<noteq> t_interval t"
    using assms(3) unfolding join_from_eq(2) [OF fok] by (cases t) auto
  moreover have "card (classes (t_prims t)) \<le> card (classes (prims_or (t_prims t) (t_prims o1)))"
    by (rule card_mono) auto
  moreover have "fn_rank (t_fns t) \<le> fn_rank (fnset_upd (t_fns t) (t_fns o1))"
    using d(2) by (cases "fnset_upd (t_fns t) (t_fns o1) = t_fns t") auto
  moreover have "obj_rank meta (t_obj t) \<le> obj_rank meta (join_obj (t_obj t) (t_obj o1) meta)"
    using o by (cases "join_obj (t_obj t) (t_obj o1) meta = t_obj t") auto
  moreover have "range_rank (t_range t) \<le> range_rank (max (t_range t) (t_range o1))"
    using d(3) [of "t_range o1"] by (cases "max (t_range t) (t_range o1) = t_range t") auto
  moreover have "interval_rank (t_interval t) \<le> interval_rank (interval_join (t_interval t) (t_interval o1))"
    using d(4) by (cases "interval_join (t_interval t) (t_interval o1) = t_interval t") auto
  ultimately show ?thesis
    using d(1) [of "t_prims o1"] d(2) o d(3) [of "t_range o1"] d(4)
    unfolding ts_rank_def join_from_eq(2) [OF fok] TypeSet.simps by (auto split: if_splits)
qed

interpretation ts_changes: ranked_join "ts_upd meta" "ts_rank meta" 109 ts_ok ts_ok
  by unfold_locales (auto intro: ts_upd_ok ts_upd_rank ts_rank_bound)

definition ts_uniform :: "AbsLabels list \<Rightarrow> bool \<Rightarrow> TypeSet \<Rightarrow> bool" where
  "ts_uniform meta b t \<longleftrightarrow> ts_ok t \<and> obj_uniform meta b (t_obj t)"

interpretation ts_order: commuting_updates "ts_upd meta" "ts_uniform meta b" "ts_uniform meta b"
proof
  fix s x y
  assume s: "ts_uniform meta b s" and x: "ts_uniform meta b x" and y: "ts_uniform meta b y"
  have fs: "fnset_ok (t_fns s)" using s by (simp add: ts_uniform_def ts_ok_def)
  have "ts_ok (ts_upd meta s x)" using s x by (auto simp: ts_uniform_def intro: ts_upd_ok)
  with s x show "ts_uniform meta b (ts_upd meta s x)"
    by (simp add: ts_uniform_def join_from_eq(2) [OF fs] join_obj_uniform)
  have "join_obj (join_obj (t_obj s) (t_obj x) meta) (t_obj y) meta =
      join_obj (join_obj (t_obj s) (t_obj y) meta) (t_obj x) meta"
    using s x y by (intro join_obj_right_comm) (auto simp: ts_uniform_def)
  with fs show "ts_upd meta (ts_upd meta s x) y = ts_upd meta (ts_upd meta s y) x"
    by (simp add: join_from_eq(2) fnset_upd_ok fnset_order.upd_comm prims_join.join_left_comm prims_join.join_comm
        interval_lattice.join_left_comm interval_lattice.join_comm max.left_commute max.commute disj_ac)
qed

section \<open>Claims and callable ids\<close>

definition heapish :: "TypeSet \<Rightarrow> bool" where
  "heapish t \<longleftrightarrow> t_obj t \<noteq> OEmpty \<or> \<not> fnset_is_empty (t_fns t)"

lemma prim_classes_eq:
  "p = PRIM_STRING \<longleftrightarrow> classes p = {2}" "p = PRIM_BOOLEAN \<longleftrightarrow> classes p = {5}" "p = PRIM_SYMBOL \<longleftrightarrow> classes p = {7}"
  by (simp_all flip: classes_inject)

lemma value_claim_full_cases:
  "value_claim_full t =
     (if t_unknown t then None
      else if heapish t then (if classes (t_prims t) = {} then Some CLAIM_OBJECT else None)
      else if classes (t_prims t) \<in> {{2}, {5}, {7}} then Some (t_prims t)
      else if classes (t_prims t) \<noteq> {} \<and> classes (t_prims t) \<subseteq> {0, 1}
      then Some (if 1 \<in> classes (t_prims t) \<and> t_range t = Top then t_prims t OR DOUBLE_FIRST_BIT else t_prims t)
      else None)"
proof -
  have sp: "pure_single_prim t p \<longleftrightarrow> t_prims t = p \<and> \<not> t_unknown t \<and> \<not> heapish t" for p
    by (auto simp: pure_single_prim_def heapish_def)
  have pn: "pure_numeric t =
      (if classes (t_prims t) \<noteq> {} \<and> classes (t_prims t) \<subseteq> {0, 1} \<and> \<not> t_unknown t \<and> \<not> heapish t
       then Some (t_prims t) else None)"
    by (simp add: pure_numeric_def heapish_def prims_is_empty_classes subset_of_classes insert_commute)
  have vc: "value_claim t = (case pure_numeric t of
      Some p \<Rightarrow> Some (if 1 \<in> classes p \<and> t_range t = Top then p OR DOUBLE_FIRST_BIT else p)
    | None \<Rightarrow> (if classes (t_prims t) = {} \<and> \<not> t_unknown t \<and> heapish t then Some CLAIM_OBJECT else None))"
    by (simp add: value_claim_def heapish_def intersects_classes prims_is_empty_classes claim_of_prims_def
        claim_with_double_first_def Let_def split: option.splits)
  show ?thesis
    unfolding value_claim_full_def sp prim_classes_eq vc pn claim_of_prims_def
    by (auto simp: prim_classes_eq [symmetric])
qed

lemma fn_bases: "NATIVE_BASE < FN_ARRAY" "FN_ARRAY < TYPED_ARRAY_BASE" "NATIVE_BASE \<le> FN_ARRAY" "NATIVE_BASE < TYPED_ARRAY_BASE"
  by (simp_all add: FN_ARRAY_def TYPED_ARRAY_BASE_def NATIVE_BASE_def)

lemma typed_array_ctor_decode:
  "typed_array_kind (typed_array_ctor k) = Some k \<and> TYPED_ARRAY_BASE \<le> typed_array_ctor k"
  by (cases k) (simp_all add: typed_array_kind_def typed_array_ctor_def TYPED_ARRAY_BASE_def ta_from_code_def)

lemma fn_native_range:
  assumes "i < 4032"
  shows "NATIVE_BASE \<le> fn_native i \<and> fn_native i < FN_ARRAY \<and> fn_native i - NATIVE_BASE = i"
proof -
  have "unat i < 4032" using assms by (simp add: word_less_nat_alt)
  then show ?thesis
    by (simp add: fn_native_def NATIVE_BASE_def FN_ARRAY_def word_le_nat_alt word_less_nat_alt unat_word_ariths)
qed

section \<open>Agreement over a sequence of observations\<close>

lemma agreed_run:
  "foldl agreed_observe Unset vs =
     (case vs of [] \<Rightarrow> Unset | v # _ \<Rightarrow> (if \<forall>x\<in>set vs. x = v then Agree v else Conflict))"
proof -
  have c: "foldl agreed_observe Conflict ws = Conflict" for ws :: "'a list" by (induction ws) auto
  have a: "foldl agreed_observe (Agree v) ws = (if \<forall>x\<in>set ws. x = v then Agree v else Conflict)" for v :: 'a and ws
    by (induction ws) (auto simp: c)
  show ?thesis by (cases vs) (auto simp: a)
qed

text \<open>The observations of one key reach its entry in order; other keys do not matter.\<close>

lemma observe_in_run:
  "(case foldl (\<lambda>m (k, v). observe_in m k v) m obs k of Some a \<Rightarrow> a | None \<Rightarrow> Unset) =
     foldl agreed_observe (case m k of Some a \<Rightarrow> a | None \<Rightarrow> Unset) (map snd (filter (\<lambda>p. fst p = k) obs))"
  by (induction obs arbitrary: m) (auto simp: observe_in_def)

definition first_seen :: "'v list \<Rightarrow> 'v list" where
  "first_seen vs = rev (remdups (rev vs))"

lemma first_seen_snoc: "first_seen (vs @ [v]) = (if v \<in> set vs then first_seen vs else first_seen vs @ [v])"
  by (simp add: first_seen_def)

lemma first_seen_props: "set (first_seen vs) = set vs" "length (first_seen vs) = card (set vs)"
  by (simp_all add: first_seen_def flip: length_remdups_card_conv) (metis length_remdups_card_conv set_rev)

lemma agreed_set_run:
  assumes "1 \<le> cap"
  shows "foldl (\<lambda>s v. agreed_set_observe s v cap) SUnset vs =
    (if vs = [] then SUnset else if card (set vs) \<le> cap then SSome (first_seen vs) else SConflict)"
proof (induction vs rule: rev_induct)
  case (snoc v vs)
  have "card (set vs) \<le> card (insert v (set vs))" by (rule card_mono) auto
  with snoc assms show ?case
    by (auto simp: first_seen_snoc first_seen_props insert_absorb) (auto simp: first_seen_def)
qed simp

section \<open>Properties\<close>

text \<open>C38. The interval transfer of the arithmetic constraint is sound for every operator: from
  quantized cell intervals and exact literals it yields a quantized, non-empty interval, and where
  that interval is bounded the operator's value on any admitted operands is an exact integer in
  the bounds, reading negative zero as zero.\<close>

theorem arith_interval_sound:
  assumes "interval_ok a" "lit_ok la" "pred_option interval_ok b" "lit_ok lb"
    "x \<in> operand_gamma a la" "y \<in> operand_opt_gamma b lb"
  shows "interval_ok (arith_interval op a la b lb) \<and> arith_interval op a la b lb \<noteq> IEmpty \<and>
    (\<forall>w. arith_interval op a la b lb = IIn w \<longrightarrow> (\<exists>v. js_op op x y = Some v \<and> v \<in> vr_gamma w))"
proof -
  from arith_cv_sound [OF assms(1,2,5)] obtain ia where ia: "arith_cv a la = Some ia" "iv_wf ia"
    "read_zero x \<in> iv_gamma ia" "\<nexists>l h. ia = Some (l, h, True)" by metis
  have "\<exists>ib. (case map_option (\<lambda>h. arith_cv h lb) b of Some None \<Rightarrow> False | _ \<Rightarrow> True) \<and>
      ib = (case map_option (\<lambda>h. arith_cv h lb) b of Some (Some v) \<Rightarrow> v | _ \<Rightarrow> None) \<and> iv_wf ib \<and>
      read_zero y \<in> iv_gamma ib \<and> (\<nexists>l h. ib = Some (l, h, True))"
  proof (cases b)
    case (Some h)
    with assms have "interval_ok h" "y \<in> operand_gamma h lb" by (simp_all add: operand_opt_gamma_def)
    from arith_cv_sound [OF this(1) assms(4) this(2)] show ?thesis using Some by (metis (no_types, lifting) option.simps(5,9))
  qed simp
  then obtain ib where ib: "map_option (\<lambda>h. arith_cv h lb) b \<noteq> Some None"
     "ib = (case map_option (\<lambda>h. arith_cv h lb) b of Some (Some v) \<Rightarrow> v | _ \<Rightarrow> None)" "iv_wf ib"
      "read_zero y \<in> iv_gamma ib" "\<nexists>l h. ib = Some (l, h, True)" by (auto split: option.splits)
  define ibo where "ibo = (case map_option (\<lambda>h. arith_cv h lb) b of Some (Some v) \<Rightarrow> Some v | _ \<Rightarrow> None)"
  have cb: "(case ibo of Some v \<Rightarrow> v | None \<Rightarrow> None) = ib" by (simp add: ibo_def ib(2) split: option.splits)
  have ar: "arith_interval op a la b lb = (case iv_transfer op ia ibo True of Some (l, h, _) \<Rightarrow> of_range l h
      | None \<Rightarrow> (if op = Add \<and> (a = IAny \<or> b = Some IAny) then IAny else INum))"
    using ib(1) by (auto simp: arith_interval_def ia(1) ibo_def Let_def split: option.splits)
  show ?thesis
  proof (cases "iv_transfer op ia ibo True")
    case (Some r)
    obtain l h nz where r: "r = (l, h, nz)" by (cases r)
    have "\<exists>v. js_op op x y = Some v \<and> v \<in> vr_gamma (vr l h)"
      by (rule transfer_read_zero [OF ia(2) _ ia(3), of ibo y op True l h nz])
        (use Some r cb ib ia(4) no_gap_exact in auto)
    moreover have "of_range l h \<noteq> IEmpty" by (simp add: of_range_def split: option.splits)
    ultimately show ?thesis using of_range_ok [of l h] of_range_gamma [of l h] Some r
      by (auto simp: ar)
  qed (auto simp: ar)
qed

theorem arith_interval_sound_witness:
  "\<exists>v. js_op Add (JInt 5) JNegZero = Some v \<and> v \<in> vr_gamma (vr 0 15)"
proof -
  have "quantized (vr 0 7)" by (simp add: quantized_def ladder_def)
  moreover have "arith_interval Add (IIn (vr 0 7)) None (Some (IIn (vr 0 7))) None = IIn (vr 0 15)"
    by code_simp
  ultimately show ?thesis
    using arith_interval_sound [of "IIn (vr 0 7)" None "Some (IIn (vr 0 7))" None "JInt 5" JNegZero Add]
    by (simp add: lit_ok_def operand_gamma_def operand_opt_gamma_def vr_gamma_def)
qed

text \<open>Joining callable sets refines the union of the sets they stand for, saturating to every
  callable past eight ids; the result is canonical and the reported flag says whether it changed.\<close>

theorem fnset_join_refines:
  assumes "fnset_ok s" "fnset_join_from s o1 d = (s', d', changed)"
  shows "fnset_ok s' \<and> fnset_abs s' = cap_union (fnset_abs s) (fnset_abs o1) \<and> (changed \<longleftrightarrow> s' \<noteq> s)"
  using fnset_join_eq [OF assms(1), of o1 d] assms fnset_upd_ok [of s o1] fnset_upd_abs [of s o1]
  by auto

theorem fnset_join_refines_witness:
  "fnset_ok (fst (fnset_join_from (fnset_one 3) (fnset_one 2) [])) \<and>
   fnset_abs (fst (fnset_join_from (fnset_one 3) (fnset_one 2) [])) = Some {2, 3}"
proof -
  have "fnset_join_from (fnset_one 3) (fnset_one 2) [] = (\<lparr>fn_ids = [2, 3], multi = False\<rparr>, [], True)"
    by (simp add: fnset_join_from_def fnset_one_def fnset_insert_def binary_search_def partition_point_def
        vec_insert_def FNSET_MAX_def)
  moreover from fnset_join_refines [OF _ this] have "fnset_ok \<lparr>fn_ids = [2, 3], multi = False\<rparr>"
    by (simp add: fnset_ok_def fnset_one_def FNSET_MAX_def)
  ultimately show ?thesis by auto
qed

text \<open>The flag of a typeset join says exactly whether the typeset changed, so the engine
  re-queues a cell's readers if and only if its value moved; the joined value does not depend on
  the sink and stays canonical.\<close>

theorem join_from_reports_growth:
  assumes "ts_ok t" "ts_ok o1" "join_from t o1 meta sink = (t', sink', changed)"
  shows "ts_ok t' \<and> (changed \<longleftrightarrow> t' \<noteq> t) \<and> fst (join_from t o1 meta sink2) = t'"
proof -
  have "fnset_ok (t_fns t)" using assms(1) by (simp add: ts_ok_def)
  from join_from_eq(1) [OF this, of o1 meta sink] join_from_eq(1) [OF this, of o1 meta sink2]
  show ?thesis using assms ts_upd_ok [of t o1 meta] by auto
qed

theorem join_from_reports_growth_witness:
  "ts_ok (fst (join_from ts_default (ts_prim PRIM_DOUBLE) [] \<lparr>dropped_fns = [], snap_absorbs = []\<rparr>))"
proof -
  have "ts_ok ts_default" "ts_ok (ts_prim PRIM_DOUBLE)"
    by (simp_all add: ts_ok_def ts_default_def ts_prim_def fnset_ok_def fnset_default_def prims_interval_def)
  from join_from_reports_growth [OF this] show ?thesis by (metis prod.exhaust_sel)
qed

text \<open>A typeset changes at most 109 times, whatever sequence of typesets is joined into it; the cells of the
  engine, whose labels also move with the regions, are bounded in \<open>Engine_Raise\<close>.\<close>

theorem cell_changes_bounded:
  assumes "ts_ok t" "\<forall>x\<in>set xs. ts_ok x"
  shows "n_changes (\<lambda>t x. fst (join_from t x meta sink)) t xs \<le> 109 \<and> 109 \<le> MAX_CELL_CHANGES"
proof -
  have "n_changes (\<lambda>t x. fst (join_from t x meta sink)) t xs = n_changes (ts_upd meta) t xs"
    using assms
  proof (induction xs arbitrary: t)
    case (Cons x xs)
    have "fst (join_from t x meta sink) = ts_upd meta t x"
      using join_from_eq(1) [of t x meta sink] Cons.prems(1) by (auto simp: ts_ok_def)
    with Cons show ?case by (simp add: ts_upd_ok)
  qed simp
  with ts_changes.changes_bound [OF assms] show ?thesis by (simp add: MAX_CELL_CHANGES_def)
qed

theorem cell_changes_bounded_witness:
  "n_changes (\<lambda>t x. fst (join_from t x [] \<lparr>dropped_fns = [], snap_absorbs = []\<rparr>)) ts_default
     [ts_any, ts_default] \<le> 109"
  by (rule cell_changes_bounded [THEN conjunct1])
    (simp_all add: ts_ok_def ts_default_def ts_any_def fnset_ok_def fnset_default_def)

text \<open>C40. Where the joined abstractions agree on the snapshot bit, the value a cell ends with does
  not depend on the order of the joins.\<close>

theorem typeset_join_order_independent:
  assumes "ts_uniform meta b t" "\<forall>x\<in>set xs. ts_uniform meta b x" "mset xs = mset ys"
  shows "foldl (ts_upd meta) t xs = foldl (ts_upd meta) t ys"
  by (rule ts_order.run_perm [OF assms])

theorem typeset_join_order_independent_witness:
  "foldl (ts_upd []) ts_default [ts_obj_one 0, ts_fn_one 4, ts_prim PRIM_NULL] =
   foldl (ts_upd []) ts_default [ts_prim PRIM_NULL, ts_obj_one 0, ts_fn_one 4]"
  by (rule typeset_join_order_independent [of _ False])
    (auto simp: ts_uniform_def obj_uniform_def ts_ok_def ts_default_def ts_prim_def prims_interval_def
      ts_fn_one_def ts_obj_one_def fnset_ok_def fnset_default_def fnset_one_def is_snap_def FNSET_MAX_def)

text \<open>With both snapshot and allocated abstractions in play the join is order-dependent: the
  preference for the snapshot object keeps its identity when it arrives first and loses every
  class when it arrives last.\<close>

theorem join_order_dependent_with_snapshot:
  "let meta = [\<lparr>lbl_class = None, lbl_snap = False, lbl_array = False\<rparr>,
               \<lparr>lbl_class = None, lbl_snap = False, lbl_array = False\<rparr>,
               \<lparr>lbl_class = Some 7, lbl_snap = True, lbl_array = False\<rparr>];
       cell = (\<lambda>order. t_obj (foldl (\<lambda>t a. ts_upd meta t (ts_obj_one a)) ts_default order))
   in cell [2, 0, 1] = One 2 \<and> cell [0, 1, 2] = AnyObject"
  by code_simp

text \<open>The id space of callables is partitioned: a script id, a generic native, the array
  constructor and a typed-array constructor never collide, and each decodes to what it encodes.\<close>

theorem fn_ids_partition:
  "(typed_array_kind (typed_array_ctor k) = Some k \<and> as_script (typed_array_ctor k) = None \<and>
    native_index (typed_array_ctor k) = None \<and> typed_array_ctor k \<noteq> ARRAY_CTOR) \<and>
   (as_script ARRAY_CTOR = None \<and> native_index ARRAY_CTOR = None \<and> typed_array_kind ARRAY_CTOR = None) \<and>
   (s < NATIVE_BASE \<longrightarrow> as_script (fn_script s) = Some s \<and> native_index (fn_script s) = None \<and>
      typed_array_kind (fn_script s) = None) \<and>
   (i < 4032 \<longrightarrow> native_index (fn_native i) = Some i \<and> as_script (fn_native i) = None \<and>
      typed_array_kind (fn_native i) = None)"
proof -
  have "NATIVE_BASE \<le> typed_array_ctor k" "\<not> typed_array_ctor k < FN_ARRAY" "FN_ARRAY < typed_array_ctor k"
    using typed_array_ctor_decode [of k] fn_bases by (auto dest: order_less_le_trans)
  moreover have "i < 4032 \<Longrightarrow> \<not> TYPED_ARRAY_BASE \<le> fn_native i"
    using fn_native_range [of i] fn_bases by (auto simp: not_le)
  moreover have "s < NATIVE_BASE \<Longrightarrow> \<not> TYPED_ARRAY_BASE \<le> s" using fn_bases by (auto simp: not_le)
  ultimately show ?thesis
    using typed_array_ctor_decode [of k] fn_bases fn_native_range [of i]
    by (auto simp: as_script_def is_builtin_def native_index_def ARRAY_CTOR_def fn_script_def typed_array_kind_def not_le)
qed

theorem fn_ids_partition_witness:
  "native_index (fn_native 9) = Some 9 \<and> as_script (fn_script 12) = Some 12"
  using fn_ids_partition [of Int8 12 9] by (simp add: NATIVE_BASE_def)


text \<open>The claim read off a typeset: none over unresolved evidence; an object claim exactly for a
  value that is only ever a callable or an object; otherwise a primitive claim that names exactly
  the observed classes, for numbers or a single class of string, boolean or symbol, with the
  double-first hint exactly for a double whose range is unbounded.\<close>

theorem value_claim_full_characterised:
  assumes "subset_of (t_prims t) ALL_PRIMS"
  shows "case value_claim_full t of
      None \<Rightarrow> t_unknown t \<or> (heapish t \<and> classes (t_prims t) \<noteq> {}) \<or>
        (\<not> heapish t \<and> \<not> (classes (t_prims t) \<subseteq> {0, 1} \<and> classes (t_prims t) \<noteq> {}) \<and>
          classes (t_prims t) \<notin> {{2}, {5}, {7}})
    | Some c \<Rightarrow> \<not> t_unknown t \<and>
        (if heapish t then c = CLAIM_OBJECT \<and> classes (t_prims t) = {}
         else \<not> claim_is_object c \<and> claim_prims c = t_prims t \<and> classes (t_prims t) \<noteq> {} \<and>
           (claim_double_first c \<longleftrightarrow> 1 \<in> classes (t_prims t) \<and> t_range t = Top))"
proof -
  let ?p = "t_prims t"
  have prim: "claim_prims ?p = ?p" "claim_prims (?p OR DOUBLE_FIRST_BIT) = ?p" "\<not> claim_is_object ?p"
    "\<not> claim_is_object (?p OR DOUBLE_FIRST_BIT)" "\<not> claim_double_first ?p" "claim_double_first (?p OR DOUBLE_FIRST_BIT)"
    using prims_from_bits_id [OF assms] of_prims_not_object [OF assms] prims_low_bits [OF assms, of 14]
    by (simp_all add: claim_prims_def double_first_prims double_first_iff bit_or_iff bit_DOUBLE_FIRST)
  show ?thesis
    unfolding value_claim_full_cases
    by (cases "t_unknown t"; cases "heapish t"; simp add: prim; auto)
qed

theorem value_claim_full_characterised_witness:
  "claim_prims (the (value_claim_full (ts_prim PRIM_STRING))) = PRIM_STRING"
proof -
  have "value_claim_full (ts_prim PRIM_STRING) = Some PRIM_STRING"
    by (simp add: value_claim_full_cases heapish_def ts_prim_def ts_default_def fnset_is_empty_def fnset_default_def)
  with value_claim_full_characterised [of "ts_prim PRIM_STRING"] show ?thesis
    by (simp add: heapish_def ts_prim_def ts_default_def fnset_is_empty_def fnset_default_def subset_of_classes classes_ALL)
qed

text \<open>An agreement table answers a key exactly when every observation of that key named the same
  value, and with that value, whatever was observed of other keys.\<close>

theorem agreement_table_correct:
  "Option.bind (foldl (\<lambda>m (k, v). observe_in m k v) Map.empty obs k) agreed_get = Some v \<longleftrightarrow>
     (k, v) \<in> set obs \<and> {v'. (k, v') \<in> set obs} = {v}"
proof -
  let ?m = "foldl (\<lambda>m (k, v). observe_in m k v) Map.empty obs"
  let ?vs = "map snd (filter (\<lambda>p. fst p = k) obs)"
  have "Option.bind (?m k) agreed_get = agreed_get (case ?m k of Some a \<Rightarrow> a | None \<Rightarrow> Unset)"
    by (cases "?m k") auto
  also have "\<dots> = agreed_get (foldl agreed_observe Unset ?vs)"
    using observe_in_run [of Map.empty obs k] by simp
  also have "\<dots> = Some v \<longleftrightarrow> ?vs \<noteq> [] \<and> set ?vs = {v}"
    unfolding agreed_run by (cases ?vs) auto
  also have "\<dots> \<longleftrightarrow> (k, v) \<in> set obs \<and> {v'. (k, v') \<in> set obs} = {v}"
  proof -
    have "set ?vs = {v'. (k, v') \<in> set obs}" by force
    moreover have "set ?vs = {v} \<Longrightarrow> ?vs \<noteq> []" by (metis empty_set insert_not_empty)
    ultimately show ?thesis by blast
  qed
  finally show ?thesis .
qed

text \<open>A capped agreement set answers with its members in order of first observation while at most
  the cap's number of distinct ones was seen, and never again after.\<close>

theorem agreed_set_capped:
  assumes "1 \<le> cap"
  shows "agreed_set_get (foldl (\<lambda>s v. agreed_set_observe s v cap) SUnset vs) =
    (if vs = [] \<or> cap < card (set vs) then None else Some (first_seen vs))"
  using agreed_set_run [OF assms, of vs] by simp

theorem agreed_set_capped_witness:
  "agreed_set_get (foldl (\<lambda>s v. agreed_set_observe s v 2) SUnset [4, 5, 4 :: nat]) = Some [4, 5] \<and>
   agreed_set_get (foldl (\<lambda>s v. agreed_set_observe s v 2) SUnset [4, 5, 6 :: nat]) = None"
  using agreed_set_capped [of 2 "[4, 5, 4 :: nat]"] agreed_set_capped [of 2 "[4, 5, 6 :: nat]"]
  by (simp add: first_seen_def)

end
