(* ===== verification/Engine.thy ===== *)
theory Engine
  imports Types "HOL-Library.Monad_Syntax" "HOL-Library.Product_Lexorder"
begin

text \<open>
  The incremental fixpoint engine of the likely-types analysis, \<^verbatim>\<open>compiler/src/likelier/engine.rs\<close>:
  cells and their keys, the constraint IR, subscriptions, standing links, the class-region
  union-find and the worklist. A method on \<open>&mut Engine\<close> takes and returns the engine. A result
  \<open>None\<close> is a panic (an index out of range, an exhausted id space) or a computation that does not
  end: \<open>raise\<close>, \<open>link\<close>, \<open>union_regions\<close> and \<open>join_ts\<close> call each other, so each takes the \<open>raise\<close>
  it calls as a parameter and \<open>raise\<close> ties the knot. \<open>engine_ok\<close> is the invariant of the engine;
  under it \<open>raise\<close> ends with a result.
\<close>

section \<open>Keys and constraints\<close>

type_synonym CellId = nat
type_synonym ConId = u32

definition SEED :: ConId where "SEED = 0xFFFFFFFF"

datatype CellKey =
    KVar ScriptId VarId CtxId
  | KArg ScriptId FormalIndex CtxId
  | KThis ScriptId CtxId
  | KRet ScriptId CtxId
  | KGName NameId
  | KAliased SourceObjectId EnvSlot
  | KField AbsId NameId
  | KClassField ClassId NameId
  | KClassView ClassId NameId
  | KProtoSentinel AbsId
  | KThisField ScriptId NameId
  | KArrayElemsUnion
  | KTableArgJoin AbsId FormalIndex

datatype CKey =
    CVar VarId
  | CArg FormalIndex
  | CThis
  | CRet
  | CGName NameId
  | CAliased SourceObjectId EnvSlot

datatype ElemBuiltinKind = ElemWrite | ElemRead

datatype AllocKind = PlainAlloc | ArrayAlloc | TypedArrayAlloc TaKind | SnapshotAlloc SourceObjectId

text \<open>The arguments are the fields of each variant in the order of the source.\<close>

datatype Constraint =
    Move CKey CKey
  | Const CKey TypeSet
  | Read CKey NameId CKey Pc bool
  | Write CKey NameId CKey Pc
  | Call CKey "CKey option" "CKey list" CKey Pc bool
  | Apply CKey "CKey list" bool CKey Pc CallForm
  | ElemBuiltin CKey "CKey option" CKey Pc ElemBuiltinKind
  | Alloc CKey Pc AllocKind
  | Arith NumOp CKey "CKey option" CKey "ValueRange option" "ValueRange option" Pc

datatype ConstraintKind = KindMove | KindConst | KindRead | KindWrite | KindCall | KindApply
  | KindElemBuiltin | KindAlloc | KindArith

definition CONSTRAINT_KINDS :: "ConstraintKind list" where
  "CONSTRAINT_KINDS = [KindMove, KindConst, KindRead, KindWrite, KindCall, KindApply,
     KindElemBuiltin, KindAlloc, KindArith]"

fun kind_name :: "ConstraintKind \<Rightarrow> string" where
  "kind_name KindMove = ''move''"
| "kind_name KindConst = ''const''"
| "kind_name KindRead = ''read''"
| "kind_name KindWrite = ''write''"
| "kind_name KindCall = ''call''"
| "kind_name KindApply = ''apply''"
| "kind_name KindElemBuiltin = ''elem''"
| "kind_name KindAlloc = ''alloc''"
| "kind_name KindArith = ''arith''"

fun con_kind :: "Constraint \<Rightarrow> ConstraintKind" where
  "con_kind (Move _ _) = KindMove"
| "con_kind (Const _ _) = KindConst"
| "con_kind (Read _ _ _ _ _) = KindRead"
| "con_kind (Write _ _ _ _) = KindWrite"
| "con_kind (Call _ _ _ _ _ _) = KindCall"
| "con_kind (Apply _ _ _ _ _ _) = KindApply"
| "con_kind (ElemBuiltin _ _ _ _ _) = KindElemBuiltin"
| "con_kind (Alloc _ _ _) = KindAlloc"
| "con_kind (Arith _ _ _ _ _ _ _) = KindArith"

section \<open>State\<close>

record Cell =
  c_key :: CellKey
  c_ts :: TypeSet
  c_changes :: u16

type_synonym user = "ConId \<times> CtxId"

record Engine =
  cells :: "Cell list"
  cell_ids :: "CellKey \<rightharpoonup> CellId"
  cons :: "Constraint list"
  con_script :: "ScriptId list"
  script_cons :: "ScriptId \<rightharpoonup> ConId list"
  live_ctxs :: "ScriptId \<rightharpoonup> CtxId list"
  worklist :: "user list"
  inq :: "user set"
  subs :: "CellId \<rightharpoonup> user list"
  sub_set :: "(CellId \<times> ConId \<times> CtxId) set"
  links :: "CellId \<rightharpoonup> CellId list"
  link_set :: "(CellId \<times> CellId) set"
  abs_labels :: "AbsLabels list"
  n_evals :: "64 word"
  n_raises :: "64 word"
  region_parent :: "ClassId \<rightharpoonup> ClassId"
  region_members :: "ClassId \<rightharpoonup> ClassId list"
  array_classes :: "ClassId set"
  elems_name :: "NameId option"
  anyobj_why :: "ConId \<rightharpoonup> u32"
  anyobj_first :: "(CellKey \<times> ConId) list"
  join_sink :: JoinSink

definition engine_default :: Engine where
  "engine_default =
     \<lparr>cells = [], cell_ids = Map.empty, cons = [], con_script = [], script_cons = Map.empty,
      live_ctxs = Map.empty, worklist = [], inq = {}, subs = Map.empty, sub_set = {},
      links = Map.empty, link_set = {}, abs_labels = [], n_evals = 0, n_raises = 0,
      region_parent = Map.empty, region_members = Map.empty, array_classes = {},
      elems_name = None, anyobj_why = Map.empty, anyobj_first = [],
      join_sink = \<lparr>dropped_fns = [], snap_absorbs = []\<rparr>\<rparr>"

text \<open>\<open>entry(k).or_default()\<close> on a table of vectors.\<close>

definition vec_of :: "('k \<rightharpoonup> 'v list) \<Rightarrow> 'k \<Rightarrow> 'v list" where
  "vec_of m k = (case m k of Some vs \<Rightarrow> vs | None \<Rightarrow> [])"

section \<open>Cells and constraints\<close>

definition existing_cell :: "Engine \<Rightarrow> CellKey \<Rightarrow> CellId option" where
  "existing_cell e key = cell_ids e key"

definition cell :: "Engine \<Rightarrow> CellKey \<Rightarrow> (Engine \<times> CellId) option" where
  "cell e key =
     (case cell_ids e key of
        Some cid \<Rightarrow> Some (e, cid)
      | None \<Rightarrow>
          (if int (length (cells e)) < 2 ^ 32
           then Some (e\<lparr>cells := cells e @ [\<lparr>c_key = key, c_ts = ts_default, c_changes = 0\<rparr>],
                        cell_ids := (cell_ids e)(key \<mapsto> length (cells e))\<rparr>, length (cells e))
           else None))"

definition lookup_cell :: "Engine \<Rightarrow> CellKey \<Rightarrow> CellId option" where
  "lookup_cell e key = cell_ids e key"

text \<open>The two projections enumerate the cells by id; the source iterates its hash table and sorts.\<close>

definition field_cells :: "Engine \<Rightarrow> (ClassId \<times> NameId \<times> CellId) list" where
  "field_cells e = sort_key (\<lambda>(c, n, _). (c, n))
     (List.map_filter (\<lambda>i. case c_key (cells e ! i) of KClassView c n \<Rightarrow> Some (c, n, i) | _ \<Rightarrow> None)
        [0..<length (cells e)])"

definition gname_cells :: "Engine \<Rightarrow> (NameId \<times> CellId) list" where
  "gname_cells e = sort_key fst
     (List.map_filter (\<lambda>i. case c_key (cells e ! i) of KGName n \<Rightarrow> Some (n, i) | _ \<Rightarrow> None)
        [0..<length (cells e)])"

definition cell_ts :: "Engine \<Rightarrow> CellId \<Rightarrow> TypeSet option" where
  "cell_ts e cid = (if cid < length (cells e) then Some (c_ts (cells e ! cid)) else None)"

definition add_con :: "Engine \<Rightarrow> ScriptId \<Rightarrow> Constraint \<Rightarrow> (Engine \<times> ConId) option" where
  "add_con e script con =
     (if int (length (cons e)) < 2 ^ 32
      then let cid = of_nat (length (cons e)) in
           Some (e\<lparr>cons := cons e @ [con], con_script := con_script e @ [script],
                   script_cons := (script_cons e)(script \<mapsto> vec_of (script_cons e) script @ [cid])\<rparr>, cid)
      else None)"

definition enqueue :: "Engine \<Rightarrow> ConId \<Rightarrow> CtxId \<Rightarrow> Engine" where
  "enqueue e con ctx =
     (if (con, ctx) \<in> inq e then e
      else e\<lparr>inq := insert (con, ctx) (inq e), worklist := worklist e @ [(con, ctx)]\<rparr>)"

definition instantiate_at :: "Engine \<Rightarrow> ScriptId \<Rightarrow> CtxId \<Rightarrow> Engine \<times> bool" where
  "instantiate_at e script ctx =
     (let ctxs = vec_of (live_ctxs e) script
      in if ctx \<in> set ctxs then (e\<lparr>live_ctxs := (live_ctxs e)(script \<mapsto> ctxs)\<rparr>, False)
         else (foldl (\<lambda>e c. enqueue e c ctx) (e\<lparr>live_ctxs := (live_ctxs e)(script \<mapsto> ctxs @ [ctx])\<rparr>)
                 (vec_of (script_cons e) script), True))"

fun cell_key_of :: "ScriptId \<Rightarrow> CtxId \<Rightarrow> CKey \<Rightarrow> CellKey" where
  "cell_key_of script ctx (CVar var) = KVar script var ctx"
| "cell_key_of script ctx (CArg arg) = KArg script arg ctx"
| "cell_key_of script ctx CThis = KThis script ctx"
| "cell_key_of script ctx CRet = KRet script ctx"
| "cell_key_of script ctx (CGName name) = KGName name"
| "cell_key_of script ctx (CAliased scope slot) = KAliased scope slot"

definition resolve :: "Engine \<Rightarrow> ScriptId \<Rightarrow> CtxId \<Rightarrow> CKey \<Rightarrow> (Engine \<times> CellId) option" where
  "resolve e script ctx k = cell e (cell_key_of script ctx k)"

definition read_cell :: "Engine \<Rightarrow> CellId \<Rightarrow> user \<Rightarrow> (Engine \<times> TypeSet) option" where
  "read_cell e cid u =
     (let e' = (if (cid, fst u, snd u) \<in> sub_set e then e
                else e\<lparr>sub_set := insert (cid, fst u, snd u) (sub_set e),
                       subs := (subs e)(cid \<mapsto> vec_of (subs e) cid @ [u])\<rparr>)
      in map_option (Pair e') (cell_ts e' cid))"

section \<open>Regions\<close>

partial_function (option) region_root_of :: "(ClassId \<rightharpoonup> ClassId) \<Rightarrow> ClassId \<Rightarrow> ClassId option" where
  "region_root_of par cur =
     (case par cur of
        None \<Rightarrow> Some cur
      | Some p \<Rightarrow> (if p = cur then Some cur else region_root_of par p))"

definition region_root :: "Engine \<Rightarrow> ClassId \<Rightarrow> ClassId option" where
  "region_root e c = region_root_of (region_parent e) c"

definition array_region_of :: "Engine \<Rightarrow> ObjType \<Rightarrow> ClassId option option" where
  "array_region_of e ob =
     (case ob of
        One a \<Rightarrow>
          (if a < length (abs_labels e) \<and> lbl_array (abs_labels e ! a)
           then (case lbl_class (abs_labels e ! a) of
                   None \<Rightarrow> Some None
                 | Some c \<Rightarrow> do {
                     r \<leftarrow> region_root e c;
                     Some (if r \<in> array_classes e then Some c else None) })
           else Some None)
      | ClassAny c \<Rightarrow> do {
          r \<leftarrow> region_root e c;
          Some (if r \<in> array_classes e then Some c else None) }
      | _ \<Rightarrow> Some None)"

definition class_and_arrayness :: "Engine \<Rightarrow> ObjType \<Rightarrow> (ClassId option \<times> bool) option" where
  "class_and_arrayness e ob =
     (case ob of
        One a \<Rightarrow>
          Some (if a < length (abs_labels e) then (lbl_class (abs_labels e ! a), lbl_array (abs_labels e ! a))
                else (None, False))
      | ClassAny c \<Rightarrow> do { r \<leftarrow> region_root e c; Some (Some c, r \<in> array_classes e) }
      | AnyOf r \<Rightarrow> Some (Some r, False)
      | _ \<Rightarrow> Some (None, False))"

section \<open>Raising\<close>

text \<open>\<open>rz\<close> is the \<open>raise\<close> the operation calls: \<open>rz e cid ts why\<close>.\<close>

type_synonym raiser = "Engine \<Rightarrow> CellId \<Rightarrow> TypeSet \<Rightarrow> user \<Rightarrow> Engine option"

definition link :: "raiser \<Rightarrow> Engine \<Rightarrow> CellId \<Rightarrow> CellId \<Rightarrow> Engine option" where
  "link rz e src dst =
     (if src = dst \<or> (src, dst) \<in> link_set e then Some e
      else do {
        let e1 = e\<lparr>link_set := insert (src, dst) (link_set e),
                   links := (links e)(src \<mapsto> vec_of (links e) src @ [dst])\<rparr>;
        v \<leftarrow> cell_ts e1 src;
        if ts_is_empty v then Some e1 else rz e1 dst v (SEED, CTX0) })"

definition union_regions :: "raiser \<Rightarrow> Engine \<Rightarrow> ClassId \<Rightarrow> ClassId \<Rightarrow> (Engine \<times> ClassId) option" where
  "union_regions rz e c d = do {
     rc \<leftarrow> region_root e c;
     rd \<leftarrow> region_root e d;
     if rc = rd then Some (e, rc)
     else do {
       let (win, lose) = (if rc < rd then (rc, rd) else (rd, rc));
       let lm = (case region_members e lose of Some ms \<Rightarrow> ms | None \<Rightarrow> [lose]);
       let members = (region_members e)(lose := None);
       let wm = (case members win of Some ms \<Rightarrow> ms | None \<Rightarrow> [win]);
       let e1 = e\<lparr>region_parent := (region_parent e)(lose \<mapsto> win),
                  region_members := members(win \<mapsto> wm @ lm)\<rparr>;
       case elems_name e1 of
         None \<Rightarrow> Some (e1, win)
       | Some en \<Rightarrow> do {
           (e2, from_cell) \<leftarrow> cell e1 (KClassView lose en);
           (e3, to_cell) \<leftarrow> cell e2 (KClassView win en);
           e4 \<leftarrow> link rz e3 from_cell to_cell;
           Some (e4, win) } } }"

text \<open>The label two object parts meet under, where it is not the pure join of the lattice.\<close>

definition region_meet :: "raiser \<Rightarrow> Engine \<Rightarrow> ObjType \<Rightarrow> ObjType \<Rightarrow> (Engine \<times> ObjType option) option" where
  "region_meet rz e a b = do {
     ra \<leftarrow> array_region_of e a;
     rb \<leftarrow> array_region_of e b;
     (case (ra, rb) of
        (Some c, Some d) \<Rightarrow> do { (e', r) \<leftarrow> union_regions rz e c d; Some (e', Some (ClassAny r)) }
      | _ \<Rightarrow>
          (if join_obj a b (abs_labels e) = AnyObject
           then do {
             (ca, aa) \<leftarrow> class_and_arrayness e a;
             (cb, ab) \<leftarrow> class_and_arrayness e b;
             (case (ca, cb) of
                (Some c, Some d) \<Rightarrow>
                  (if \<not> aa \<and> \<not> ab
                   then do { (e', r) \<leftarrow> union_regions rz e c d; Some (e', Some (AnyOf r)) }
                   else Some (e, None))
              | _ \<Rightarrow> Some (e, None)) }
           else Some (e, None))) }"

definition join_ts :: "raiser \<Rightarrow> Engine \<Rightarrow> TypeSet \<Rightarrow> TypeSet \<Rightarrow> (Engine \<times> TypeSet \<times> bool) option" where
  "join_ts rz e dst src = do {
     (e1, jo) \<leftarrow> region_meet rz e (t_obj dst) (t_obj src);
     let (dst1, sink1, changed) = join_from dst src (abs_labels e1) (join_sink e1);
     let e2 = e1\<lparr>join_sink := sink1\<rparr>;
     case jo of
       Some j \<Rightarrow> (if t_obj dst1 \<noteq> j then Some (e2, dst1\<lparr>t_obj := j\<rparr>, True) else Some (e2, dst1, changed))
     | None \<Rightarrow> Some (e2, dst1, changed) }"

text \<open>The no-growth fast path of \<open>raise\<close>; it does not look at the unresolved flag.\<close>

definition no_growth :: "Engine \<Rightarrow> TypeSet \<Rightarrow> TypeSet \<Rightarrow> bool option" where
  "no_growth e cur ts = do {
     ar \<leftarrow> array_region_of e (t_obj ts);
     Some (prims_or (t_prims ts) (t_prims cur) = t_prims cur \<and>
           fnset_is_subset_of (t_fns ts) (t_fns cur) \<and>
           (t_obj ts = OEmpty \<or> (t_obj ts = t_obj cur \<and> ar = None)) \<and>
           t_range ts \<le> t_range cur \<and> subsumes (t_interval cur) (t_interval ts)) }"

definition enqueue_all :: "Engine \<Rightarrow> user list \<Rightarrow> Engine" where
  "enqueue_all e us = foldl (\<lambda>e (c, ctx). enqueue e c ctx) e us"

fun raise_links :: "raiser \<Rightarrow> CellId list \<Rightarrow> TypeSet \<Rightarrow> user \<Rightarrow> Engine \<Rightarrow> Engine option" where
  "raise_links rz [] v why e = Some e"
| "raise_links rz (d # ds) v why e = do { e' \<leftarrow> rz e d v why; raise_links rz ds v why e' }"

text \<open>The state after a changing join, before the cell's links propagate.\<close>

definition record_growth :: "Engine \<Rightarrow> CellId \<Rightarrow> TypeSet \<Rightarrow> bool \<Rightarrow> ConId \<Rightarrow> Engine" where
  "record_growth e cid joined was_anyobj con =
     (let key = c_key (cells e ! cid);
          flipped = (\<not> was_anyobj \<and> t_obj joined = AnyObject);
          e1 = e\<lparr>cells := (cells e)[cid := \<lparr>c_key = key, c_ts = joined, c_changes = c_changes (cells e ! cid) + 1\<rparr>]\<rparr>;
          e2 = (if flipped
                then e1\<lparr>anyobj_why := (anyobj_why e1)(con \<mapsto> (case anyobj_why e1 con of Some n \<Rightarrow> n | None \<Rightarrow> 0) + 1),
                        anyobj_first := (if length (anyobj_first e1) < 12 then anyobj_first e1 @ [(key, con)]
                                         else anyobj_first e1)\<rparr>
                else e1);
          e3 = e2\<lparr>n_raises := n_raises e2 + 1\<rparr>
      in enqueue_all e3 (vec_of (subs e3) cid))"

definition raise_body :: "raiser \<Rightarrow> raiser" where
  "raise_body rz e cid ts why = do {
     cur \<leftarrow> cell_ts e cid;
     skip \<leftarrow> no_growth e cur ts;
     if skip then Some e
     else do {
       (e1, joined, changed) \<leftarrow> join_ts rz e cur ts;
       if \<not> changed then Some e1
       else do {
         let e2 = record_growth e1 cid joined (t_obj cur = AnyObject) (fst why);
         raise_links rz (vec_of (links e2) cid) joined why e2 } } }"

text \<open>Raising ties the knot; the lemmas show each operation monotone in the \<open>raise\<close> it calls.\<close>

lemma case_option_mono [partial_function_mono]:
  assumes "mono_option n" "\<And>x. mono_option (\<lambda>f. s f x)"
  shows "mono_option (\<lambda>f. case ob of None \<Rightarrow> n f | Some x \<Rightarrow> s f x)"
  by (cases ob) (auto intro: assms)

lemma link_mono [partial_function_mono]:
  assumes "\<And>e c t w. mono_option (\<lambda>f. rz f e c t w)"
  shows "mono_option (\<lambda>f. link (rz f) e src dst)"
  unfolding link_def Let_def by (intro partial_function_mono assms)

lemma union_regions_mono [partial_function_mono]:
  assumes "\<And>e c t w. mono_option (\<lambda>f. rz f e c t w)"
  shows "mono_option (\<lambda>f. union_regions (rz f) e c d)"
  unfolding union_regions_def Let_def case_prod_beta by (intro partial_function_mono assms)

lemma region_meet_mono [partial_function_mono]:
  assumes "\<And>e c t w. mono_option (\<lambda>f. rz f e c t w)"
  shows "mono_option (\<lambda>f. region_meet (rz f) e a b)"
  unfolding region_meet_def Let_def case_prod_beta by (intro partial_function_mono assms)

lemma join_ts_mono [partial_function_mono]:
  assumes "\<And>e c t w. mono_option (\<lambda>f. rz f e c t w)"
  shows "mono_option (\<lambda>f. join_ts (rz f) e dst src)"
  unfolding join_ts_def Let_def case_prod_beta by (intro partial_function_mono assms)

lemma raise_links_mono [partial_function_mono]:
  assumes "\<And>e c t w. mono_option (\<lambda>f. rz f e c t w)"
  shows "mono_option (\<lambda>f. raise_links (rz f) ds v why e)"
  by (induction ds arbitrary: e) (auto intro!: partial_function_mono assms)

lemma raise_body_mono [partial_function_mono]:
  assumes "\<And>e c t w. mono_option (\<lambda>f. rz f e c t w)"
  shows "mono_option (\<lambda>f. raise_body (rz f) e cid ts why)"
  unfolding raise_body_def Let_def case_prod_beta by (intro partial_function_mono assms)

partial_function (option) raise :: raiser where
  "raise e cid ts why = raise_body (\<lambda>e cid ts why. raise e cid ts why) e cid ts why"

section \<open>Projection and the worklist\<close>

definition join_ctx :: "TypeSet option \<Rightarrow> TypeSet \<Rightarrow> TypeSet option" where
  "join_ctx joined ts =
     (case joined of
        None \<Rightarrow> Some ts
      | Some j \<Rightarrow> Some
          \<lparr>t_prims = prims_or (t_prims j) (t_prims ts),
           t_fns = (if fnset_is_empty (t_fns ts) then t_fns j else fst (fnset_join_from (t_fns j) (t_fns ts) [])),
           t_obj = (if t_obj ts \<noteq> OEmpty then t_obj ts else t_obj j),
           t_range = (if t_range ts > t_range j then t_range ts else t_range j),
           t_unknown = (t_unknown j \<or> t_unknown ts),
           t_interval = interval_join (t_interval j) (t_interval ts)\<rparr>)"

fun join_over_ctxs_from ::
    "Engine \<Rightarrow> CtxId list \<Rightarrow> (CtxId \<Rightarrow> CellKey) \<Rightarrow> TypeSet option \<Rightarrow> TypeSet option option" where
  "join_over_ctxs_from e [] mk joined = Some joined"
| "join_over_ctxs_from e (ctx # ctxs) mk joined =
     (case lookup_cell e (mk ctx) of
        None \<Rightarrow> join_over_ctxs_from e ctxs mk joined
      | Some cid \<Rightarrow> do { ts \<leftarrow> cell_ts e cid; join_over_ctxs_from e ctxs mk (join_ctx joined ts) })"

definition join_over_ctxs :: "Engine \<Rightarrow> CtxId list \<Rightarrow> (CtxId \<Rightarrow> CellKey) \<Rightarrow> TypeSet option option" where
  "join_over_ctxs e ctxs mk = join_over_ctxs_from e ctxs mk None"

definition pop :: "Engine \<Rightarrow> Engine \<times> user option" where
  "pop e =
     (case worklist e of
        [] \<Rightarrow> (e, None)
      | u # us \<Rightarrow> (e\<lparr>worklist := us, inq := inq e - {u}, n_evals := n_evals e + 1\<rparr>, Some u))"

definition eval_core :: "Engine \<Rightarrow> ConId \<Rightarrow> CtxId \<Rightarrow> (Engine \<times> bool) option" where
  "eval_core e con ctx =
     (if unat con < length (con_script e) \<and> unat con < length (cons e)
      then let sid = con_script e ! unat con
        in case cons e ! unat con of
             Move src dst \<Rightarrow> do {
               (e1, s) \<leftarrow> resolve e sid ctx src;
               (e2, d) \<leftarrow> resolve e1 sid ctx dst;
               (e3, v) \<leftarrow> read_cell e2 s (con, ctx);
               e4 \<leftarrow> raise e3 d v (con, ctx);
               Some (e4, True) }
           | Const dst ts \<Rightarrow> do {
               (e1, d) \<leftarrow> resolve e sid ctx dst;
               e2 \<leftarrow> raise e1 d ts (con, ctx);
               Some (e2, True) }
           | Arith op a b dst a_lit b_lit _ \<Rightarrow> do {
               (e1, ca) \<leftarrow> resolve e sid ctx a;
               (e2, ta) \<leftarrow> read_cell e1 ca (con, ctx);
               (e3, tb) \<leftarrow>
                 (case b of
                    None \<Rightarrow> Some (e2, None)
                  | Some k \<Rightarrow> do {
                      (e', cb) \<leftarrow> resolve e2 sid ctx k;
                      (e'', t) \<leftarrow> read_cell e' cb (con, ctx);
                      Some (e'', Some t) });
               (m, r) \<leftarrow> arith_transfer op ta tb;
               let interval = arith_interval op (operand_interval ta) a_lit (map_option operand_interval tb) b_lit;
               if m \<noteq> PRIMS_EMPTY \<or> interval \<noteq> IEmpty
               then do {
                 (e4, d) \<leftarrow> resolve e3 sid ctx dst;
                 e5 \<leftarrow> raise e4 d (ts_prim_interval m r interval) (con, ctx);
                 Some (e5, True) }
               else Some (e3, True) }
           | _ \<Rightarrow> Some (e, False)
      else None)"

text \<open>\<open>run\<close> drains the worklist with an evaluator; it may not end, and then it is \<open>None\<close>.\<close>

partial_function (option) run :: "(Engine \<Rightarrow> ConId \<Rightarrow> CtxId \<Rightarrow> Engine option) \<Rightarrow> Engine \<Rightarrow> Engine option" where
  "run eval e =
     (case pop e of
        (e', None) \<Rightarrow> Some e'
      | (e', Some u) \<Rightarrow> Option.bind (eval e' (fst u) (snd u)) (run eval))"

declare region_root_of.simps [code] raise.simps [code] run.simps [code]

end
