(* ===== verification/Engine_Inv.thy ===== *)
theory Engine_Inv
  imports Engine
begin

text \<open>
  The invariant of the fixpoint engine and what its small operations keep of it: the class-region
  forest with its minimal roots and member lists, the order of evidence on typesets, the cell table
  as an interning table, how the engine may move (\<open>grows\<close>), and the two measures that bound a
  cascade of raises: the roots still free to merge and the slack left in the cells.
\<close>

section \<open>Regions\<close>

definition parents_ok :: "(ClassId \<rightharpoonup> ClassId) \<Rightarrow> bool" where
  "parents_ok par \<longleftrightarrow> (\<forall>c p. par c = Some p \<longrightarrow> p < c)"

definition is_root :: "(ClassId \<rightharpoonup> ClassId) \<Rightarrow> ClassId \<Rightarrow> bool" where
  "is_root par r \<longleftrightarrow> par r = None"

text \<open>The root function a well-founded parent map defines.\<close>

lemma region_root_of_total:
  assumes "parents_ok par"
  shows "\<exists>r. region_root_of par c = Some r \<and> par r = None \<and> r \<le> c"
proof (induction c rule: less_induct)
  case (less c)
  show ?case
  proof (cases "par c")
    case (Some p)
    with assms have "p < c" by (simp add: parents_ok_def)
    from less [OF this] Some this show ?thesis by (subst region_root_of.simps) auto
  qed (subst region_root_of.simps, simp)
qed

definition root_of :: "(ClassId \<rightharpoonup> ClassId) \<Rightarrow> ClassId \<Rightarrow> ClassId" where
  "root_of par c = the (region_root_of par c)"

lemma root_of:
  assumes "parents_ok par"
  shows "region_root_of par c = Some (root_of par c)" "par (root_of par c) = None" "root_of par c \<le> c"
  using region_root_of_total [OF assms, of c] by (auto simp: root_of_def)

lemma root_of_eq:
  assumes "parents_ok par"
  shows "root_of par c = (case par c of None \<Rightarrow> c | Some p \<Rightarrow> root_of par p)"
proof (cases "par c")
  case (Some p)
  with assms have "p \<noteq> c" by (auto simp: parents_ok_def)
  with Some show ?thesis by (simp add: root_of_def region_root_of.simps [of par c])
qed (simp add: root_of_def region_root_of.simps [of par c])

lemma root_of_root [simp]: "par r = None \<Longrightarrow> root_of par r = r"
  by (simp add: root_of_def region_root_of.simps [of par r])

lemma root_of_idem: "parents_ok par \<Longrightarrow> root_of par (root_of par c) = root_of par c"
  by (simp add: root_of(2))

lemma parents_ok_merge:
  "parents_ok par \<Longrightarrow> win < lose \<Longrightarrow> parents_ok (par(lose \<mapsto> win))"
  by (auto simp: parents_ok_def)

text \<open>Merging two roots sends the losing region to the winner and leaves the others alone.\<close>

lemma root_of_merge:
  assumes "parents_ok par" "par win = None" "par lose = None" "win < lose"
  shows "root_of (par(lose \<mapsto> win)) c = (if root_of par c = lose then win else root_of par c)"
proof -
  define q where "q = par(lose \<mapsto> win)"
  have ok: "parents_ok q" unfolding q_def by (rule parents_ok_merge [OF assms(1,4)])
  have other: "q x = par x" if "x \<noteq> lose" for x using that by (simp add: q_def)
  have lose: "root_of q lose = win"
    using assms(2,4) by (subst root_of_eq [OF ok]) (simp add: q_def)
  have "root_of q c = (if root_of par c = lose then win else root_of par c)"
  proof (induction c rule: less_induct)
    case (less c)
    show ?case
    proof (cases "par c")
      case None
      then show ?thesis using lose by (cases "c = lose") (simp_all add: other)
    next
      case (Some p)
      with assms(1,3) have "p < c" "c \<noteq> lose" by (auto simp: parents_ok_def)
      with Some have "root_of q c = root_of q p" "root_of par c = root_of par p"
        by (subst root_of_eq [OF ok], simp add: other, subst root_of_eq [OF assms(1)], simp)
      with less [OF \<open>p < c\<close>] show ?thesis by simp
    qed
  qed
  then show ?thesis by (simp add: q_def)
qed

text \<open>The member lists hold exactly the classes of each region.\<close>

definition members_ok :: "Engine \<Rightarrow> bool" where
  "members_ok e \<longleftrightarrow> (\<forall>r. region_parent e r = None \<longrightarrow>
     set (case region_members e r of Some ms \<Rightarrow> ms | None \<Rightarrow> [r]) = {c. root_of (region_parent e) c = r})"

definition regions_ok :: "Engine \<Rightarrow> bool" where
  "regions_ok e \<longleftrightarrow> parents_ok (region_parent e) \<and> members_ok e"

definition merge_regions :: "Engine \<Rightarrow> ClassId \<Rightarrow> ClassId \<Rightarrow> Engine" where
  "merge_regions e win lose =
     e\<lparr>region_parent := (region_parent e)(lose \<mapsto> win),
       region_members := ((region_members e)(lose := None))(win \<mapsto>
         (case ((region_members e)(lose := None)) win of Some ms \<Rightarrow> ms | None \<Rightarrow> [win]) @
         (case region_members e lose of Some ms \<Rightarrow> ms | None \<Rightarrow> [lose]))\<rparr>"

lemma merge_regions_ok:
  assumes "regions_ok e" "region_parent e win = None" "region_parent e lose = None" "win < lose"
  shows "regions_ok (merge_regions e win lose)"
proof -
  have ok: "parents_ok (region_parent e)" and mem: "members_ok e" using assms(1) by (auto simp: regions_ok_def)
  note merge = root_of_merge [OF ok assms(2,3,4)]
  have "set (case region_members (merge_regions e win lose) r of Some ms \<Rightarrow> ms | None \<Rightarrow> [r]) =
      {c. root_of (region_parent (merge_regions e win lose)) c = r}"
    if "region_parent (merge_regions e win lose) r = None" for r
  proof (cases "r = win")
    case True
    have "{c. root_of ((region_parent e)(lose \<mapsto> win)) c = win} =
        {c. root_of (region_parent e) c = win} \<union> {c. root_of (region_parent e) c = lose}"
      by (auto simp: merge)
    with True mem assms(2-4) show ?thesis by (auto simp: merge_regions_def members_ok_def)
  next
    case False
    with that have "r \<noteq> lose" "region_parent e r = None" by (auto simp: merge_regions_def split: if_splits)
    with False mem assms(4) show ?thesis by (auto simp: merge_regions_def members_ok_def merge)
  qed
  with parents_ok_merge [OF ok assms(4)] show ?thesis
    by (simp add: regions_ok_def members_ok_def merge_regions_def)
qed

lemma union_regions_eq:
  fixes c d :: ClassId
  assumes "regions_ok e"
  defines "rc \<equiv> root_of (region_parent e) c" and "rd \<equiv> root_of (region_parent e) d"
  shows "union_regions rz e c d =
    (if rc = rd then Some (e, rc)
     else (let win = min rc rd; lose = max rc rd; e1 = merge_regions e win lose
           in case elems_name e of
                None \<Rightarrow> Some (e1, win)
              | Some en \<Rightarrow> do {
                  (e2, from_cell) \<leftarrow> cell e1 (KClassView lose en);
                  (e3, to_cell) \<leftarrow> cell e2 (KClassView win en);
                  e4 \<leftarrow> link rz e3 from_cell to_cell;
                  Some (e4, win) }))"
proof -
  have ok: "parents_ok (region_parent e)" using assms(1) by (simp add: regions_ok_def)
  have "region_root e x = Some (root_of (region_parent e) x)" for x
    by (simp add: region_root_def root_of [OF ok])
  then show ?thesis
    unfolding rc_def rd_def
    by (auto simp: union_regions_def merge_regions_def Let_def min_def max_def split: option.splits)
qed

section \<open>Evidence order\<close>

text \<open>More primitives, callables, range and interval.\<close>

definition fn_le :: "BoundedFnSet \<Rightarrow> BoundedFnSet \<Rightarrow> bool" where
  "fn_le a b \<longleftrightarrow> multi b \<or> (\<not> multi a \<and> set (fn_ids a) \<subseteq> set (fn_ids b))"

definition dims_le :: "TypeSet \<Rightarrow> TypeSet \<Rightarrow> bool" where
  "dims_le a b \<longleftrightarrow> subset_of (t_prims a) (t_prims b) \<and> fn_le (t_fns a) (t_fns b) \<and> t_range a \<le> t_range b \<and>
     subsumes (t_interval b) (t_interval a)"

lemma fn_le_refl [simp]: "fn_le a a"
  by (simp add: fn_le_def)

lemma fn_le_trans: "fn_le a b \<Longrightarrow> fn_le b c \<Longrightarrow> fn_le a c"
  by (auto simp: fn_le_def)

lemma subsumes_refl [simp]: "subsumes a a"
  by (simp add: subsumes_def interval_join_idem)

lemma subsumes_trans: "subsumes b a \<Longrightarrow> subsumes c b \<Longrightarrow> subsumes c a"
  unfolding subsumes_def by (metis interval_join_assoc)

lemma dims_le_refl [simp]: "dims_le a a"
  by (simp add: dims_le_def)

lemma dims_le_trans: "dims_le a b \<Longrightarrow> dims_le b c \<Longrightarrow> dims_le a c"
  unfolding dims_le_def by (blast intro: subset_of_trans fn_le_trans subsumes_trans order_trans)

lemma fnset_upd_le:
  assumes "fnset_ok s"
  shows "fn_le s (fnset_upd s o1)" "fn_le o1 (fnset_upd s o1)"
  using fnset_upd_abs [OF assms, of o1]
  by (auto simp: fn_le_def cap_union_def split: option.splits if_splits)

lemma fnset_subset_le:
  assumes "fnset_ok o1"
  shows "fnset_is_subset_of s o1 \<longleftrightarrow> fn_le s o1"
proof -
  have "\<not> isl (binary_search f (fn_ids o1)) \<longleftrightarrow> f \<in> set (fn_ids o1)" for f
    using binary_search_mem [of "fn_ids o1" f] assms
    by (cases "binary_search f (fn_ids o1)") (auto simp: fnset_ok_def)
  then show ?thesis by (auto simp: fnset_is_subset_of_def fn_le_def list_all_iff)
qed

lemma ts_upd_le:
  assumes "ts_ok t"
  shows "dims_le t (ts_upd meta t o1)" "dims_le o1 (ts_upd meta t o1)"
proof -
  have ok: "fnset_ok (t_fns t)" using assms by (simp add: ts_ok_def)
  have "interval_join (interval_join a b) a = interval_join a b"
    "interval_join (interval_join a b) b = interval_join a b" for a b
    by (metis interval_join_assoc interval_join_comm interval_join_idem)+
  then show "dims_le t (ts_upd meta t o1)" "dims_le o1 (ts_upd meta t o1)"
    by (simp_all add: dims_le_def join_from_eq(2) [OF ok] fnset_upd_le [OF ok] subset_of_classes subsumes_def)
qed

lemma ts_upd_unknown: "ts_ok t \<Longrightarrow> t_unknown (ts_upd meta t o1) \<longleftrightarrow> t_unknown t \<or> t_unknown o1"
  by (simp add: join_from_eq(2) ts_ok_def)

lemma dims_le_obj [simp]: "dims_le a (b\<lparr>t_obj := ob\<rparr>) \<longleftrightarrow> dims_le a b" "ts_ok (b\<lparr>t_obj := ob\<rparr>) \<longleftrightarrow> ts_ok b"
  by (simp_all add: dims_le_def ts_ok_def)

lemma no_growth_dims:
  assumes "ts_ok cur" "no_growth e cur ts = Some True"
  shows "dims_le ts cur"
  using assms fnset_subset_le [of "t_fns cur" "t_fns ts"] prims_or_changes [of "t_prims cur" "t_prims ts"]
  by (auto simp: no_growth_def dims_le_def ts_ok_def prims_join.join_comm bind_eq_Some_conv)

text \<open>
  An object part covers another, as of the regions of an engine: an abstraction is covered by itself, by a label of the region
  of its class and, when it is no snapshot, by a snapshot (the join prefers the snapshot and records the other as absorbed);
  a class label is covered by a label of its region, \<open>AnyObject\<close> covers everything.
\<close>

definition stands_for :: "AbsLabels list \<Rightarrow> AbsId \<Rightarrow> AbsId \<Rightarrow> bool" where
  "stands_for meta x y \<longleftrightarrow> x = y \<or> (is_snap x meta \<and> \<not> is_snap y meta)"

definition same_region :: "Engine \<Rightarrow> ClassId \<Rightarrow> ClassId \<Rightarrow> bool" where
  "same_region e c d \<longleftrightarrow> root_of (region_parent e) c = root_of (region_parent e) d"

definition obj_le :: "Engine \<Rightarrow> ObjType \<Rightarrow> ObjType \<Rightarrow> bool" where
  "obj_le e a b \<longleftrightarrow> a = OEmpty \<or> b = AnyObject \<or>
     (case (a, b) of
        (One y, One x) \<Rightarrow> stands_for (abs_labels e) x y
      | (One y, ClassAny d) \<Rightarrow> \<exists>x c. stands_for (abs_labels e) x y \<and> class_of x (abs_labels e) = Some c \<and> same_region e c d
      | (One y, AnyOf d) \<Rightarrow> \<exists>x c. stands_for (abs_labels e) x y \<and> class_of x (abs_labels e) = Some c \<and> same_region e c d
      | (ClassAny c, ClassAny d) \<Rightarrow> same_region e c d
      | (ClassAny c, AnyOf d) \<Rightarrow> same_region e c d
      | (AnyOf c, AnyOf d) \<Rightarrow> same_region e c d
      | _ \<Rightarrow> False)"

text \<open>The whole order on typesets: more evidence in every dimension, the object part and the unresolved flag included.\<close>

definition ev_le :: "Engine \<Rightarrow> TypeSet \<Rightarrow> TypeSet \<Rightarrow> bool" where
  "ev_le e a b \<longleftrightarrow> dims_le a b \<and> obj_le e (t_obj a) (t_obj b) \<and> (t_unknown a \<longrightarrow> t_unknown b)"

lemma same_region_refl [simp]: "same_region e c c"
  by (simp add: same_region_def)

lemma same_region_trans: "same_region e a b \<Longrightarrow> same_region e b c \<Longrightarrow> same_region e a c"
  by (simp add: same_region_def)

lemma stands_for_refl [simp]: "stands_for meta x x"
  by (simp add: stands_for_def)

lemma stands_for_trans: "stands_for meta x y \<Longrightarrow> stands_for meta y z \<Longrightarrow> stands_for meta x z"
  by (auto simp: stands_for_def)

lemma obj_le_refl [simp]: "obj_le e a a"
  by (cases a) (simp_all add: obj_le_def)

lemma obj_le_trans: "obj_le e a b \<Longrightarrow> obj_le e b c \<Longrightarrow> obj_le e a c"
  by (cases a; cases b; cases c) (auto simp: obj_le_def dest: stands_for_trans same_region_trans, (meson stands_for_trans same_region_trans)+)

lemma ev_le_refl [simp]: "ev_le e a a"
  by (simp add: ev_le_def)

lemma ev_le_trans: "ev_le e a b \<Longrightarrow> ev_le e b c \<Longrightarrow> ev_le e a c"
  unfolding ev_le_def by (blast intro: dims_le_trans obj_le_trans)

text \<open>Regions that only merge keep the order.\<close>

lemma ev_le_mono:
  assumes "ev_le e a b" "abs_labels e' = abs_labels e" "\<And>c d. same_region e c d \<Longrightarrow> same_region e' c d"
  shows "ev_le e' a b"
proof -
  have "obj_le e' (t_obj a) (t_obj b)"
    using assms by (cases "t_obj a"; cases "t_obj b") (auto simp: ev_le_def obj_le_def)
  with assms(1) show ?thesis by (simp add: ev_le_def)
qed

lemma join_obj_le: "obj_le e a (join_obj a b (abs_labels e))" "obj_le e b (join_obj a b (abs_labels e))"
proof -
  have left: "obj_le e a (join_obj a b (abs_labels e))" for a b
    by (cases a; cases b) (auto simp: join_obj_def obj_le_def stands_for_def split: option.splits)
  show "obj_le e a (join_obj a b (abs_labels e))" by (rule left)
  show "obj_le e b (join_obj a b (abs_labels e))" using left [of b a] by (simp only: join_obj_comm)
qed

text \<open>The fast path holds only where nothing but the unresolved flag could grow.\<close>

lemma no_growth_le:
  assumes "ts_ok cur" "no_growth e cur ts = Some True"
  shows "ev_le e (ts\<lparr>t_unknown := False\<rparr>) cur"
proof -
  have "dims_le (ts\<lparr>t_unknown := False\<rparr>) cur" using no_growth_dims [OF assms] by (simp add: dims_le_def)
  moreover have "t_obj ts = OEmpty \<or> t_obj ts = t_obj cur" using assms(2) by (auto simp: no_growth_def bind_eq_Some_conv)
  then have "obj_le e (t_obj ts) (t_obj cur)" by (auto simp: obj_le_def [of e OEmpty])
  ultimately show ?thesis by (simp add: ev_le_def)
qed

section \<open>The cell table\<close>

definition cells_ok :: "Engine \<Rightarrow> bool" where
  "cells_ok e \<longleftrightarrow> (\<forall>k i. cell_ids e k = Some i \<longleftrightarrow> i < length (cells e) \<and> c_key (cells e ! i) = k)"

definition cell_key_at :: "Engine \<Rightarrow> CellId \<Rightarrow> CellKey option" where
  "cell_key_at e i = (if i < length (cells e) then Some (c_key (cells e ! i)) else None)"

interpretation cell_table: interner cells_ok lookup_cell cell_key_at cell
proof
  fix e :: Engine and k i
  assume ok: "cells_ok e"
  then show "lookup_cell e k = Some i \<longleftrightarrow> cell_key_at e i = Some k"
    by (auto simp: cells_ok_def lookup_cell_def cell_key_at_def)
  {
    assume "lookup_cell e k = Some i"
    then show "cell e k = Some (e, i)" by (simp add: cell_def lookup_cell_def)
  }
  fix e'
  assume miss: "lookup_cell e k = None" and c: "cell e k = Some (e', i)"
  have e': "i = length (cells e)" "cells e' = cells e @ [\<lparr>c_key = k, c_ts = ts_default, c_changes = 0\<rparr>]"
      "cell_ids e' = (cell_ids e)(k \<mapsto> i)"
    using miss c by (auto simp: lookup_cell_def cell_def split: if_splits)
  have fresh: "\<not> (j < length (cells e) \<and> c_key (cells e ! j) = k)" for j
    using ok miss unfolding cells_ok_def lookup_cell_def by (metis option.distinct(1))
  have "cells_ok e'"
    unfolding cells_ok_def e'
    using ok fresh by (auto simp: cells_ok_def nth_append less_Suc_eq)
  moreover have "lookup_cell e' = (lookup_cell e)(k \<mapsto> i)" by (auto simp: lookup_cell_def e' fun_eq_iff)
  moreover have "cell_key_at e i = None" by (simp add: cell_key_at_def e')
  moreover have "cell_key_at e' = (cell_key_at e)(i \<mapsto> k)"
    by (auto simp: cell_key_at_def e' fun_eq_iff nth_append less_Suc_eq)
  ultimately show "cells_ok e' \<and> lookup_cell e' = (lookup_cell e)(k \<mapsto> i) \<and> cell_key_at e i = None \<and>
      cell_key_at e' = (cell_key_at e)(i \<mapsto> k)" by blast
qed

lemma cell_cases:
  assumes "cells_ok e" "cell e k = Some (e', i)"
  shows "i < length (cells e')" "e' = e \<or> (i = length (cells e) \<and>
    e' = e\<lparr>cells := cells e @ [\<lparr>c_key = k, c_ts = ts_default, c_changes = 0\<rparr>], cell_ids := (cell_ids e)(k \<mapsto> i)\<rparr>)"
proof -
  show "i < length (cells e')" using cell_table.intern_roundtrip [OF assms]
    by (simp add: cell_key_at_def split: if_splits)
  show "e' = e \<or> (i = length (cells e) \<and>
    e' = e\<lparr>cells := cells e @ [\<lparr>c_key = k, c_ts = ts_default, c_changes = 0\<rparr>], cell_ids := (cell_ids e)(k \<mapsto> i)\<rparr>)"
    using assms(2) by (auto simp: cell_def split: option.splits if_splits)
qed

lemma cell_total: "int (length (cells e)) < 2 ^ 32 \<Longrightarrow> \<exists>e' i. cell e k = Some (e', i)"
  by (cases "cell_ids e k") (auto simp: cell_def)

section \<open>The engine invariant\<close>

definition engine_ok :: "Engine \<Rightarrow> bool" where
  "engine_ok e \<longleftrightarrow> cells_ok e \<and> regions_ok e \<and> (\<forall>c\<in>set (cells e). ts_ok (c_ts c)) \<and>
     distinct (worklist e) \<and> inq e = set (worklist e) \<and>
     (\<forall>i c x. (i, c, x) \<in> sub_set e \<longleftrightarrow> (c, x) \<in> set (vec_of (subs e) i)) \<and>
     (\<forall>s d. (s, d) \<in> link_set e \<longleftrightarrow> d \<in> set (vec_of (links e) s)) \<and>
     (\<forall>s d. (s, d) \<in> link_set e \<longrightarrow> d < length (cells e))"

lemma engine_okD:
  assumes "engine_ok e"
  shows "cells_ok e" "regions_ok e" "parents_ok (region_parent e)"
    "i < length (cells e) \<Longrightarrow> ts_ok (c_ts (cells e ! i))" "inq e = set (worklist e)"
    "d \<in> set (vec_of (links e) s) \<Longrightarrow> d < length (cells e)"
  using assms by (auto simp: engine_ok_def regions_ok_def)

lemma engine_default_ok: "engine_ok engine_default"
  by (simp add: engine_ok_def engine_default_def cells_ok_def regions_ok_def parents_ok_def members_ok_def vec_of_def)

text \<open>How far a cell's typeset is from the top, where a stale region label counts as one step.\<close>

definition obj_weight :: "Engine \<Rightarrow> ObjType \<Rightarrow> nat" where
  "obj_weight e ob =
     (case ob of
        OEmpty \<Rightarrow> 0
      | One a \<Rightarrow> (if is_snap a (abs_labels e) then 4 else 2)
      | ClassAny c \<Rightarrow> (if region_parent e c = None then 7 else 6)
      | AnyOf r \<Rightarrow> (if region_parent e r = None then 9 else 8)
      | AnyObject \<Rightarrow> 10)"

definition ts_weight :: "Engine \<Rightarrow> TypeSet \<Rightarrow> nat" where
  "ts_weight e t = card (classes (t_prims t)) + (if t_unknown t then 1 else 0) + fn_rank (t_fns t) +
     obj_weight e (t_obj t) + range_rank (t_range t) + interval_rank (t_interval t)"

text \<open>A stale label costs one step, and each stale root is a merge: the weight with the merges counted never falls.\<close>

definition pot :: "Engine \<Rightarrow> TypeSet \<Rightarrow> nat" where
  "pot e t = ts_weight e t + card (dom (region_parent e))"

lemma obj_weight_merge:
  assumes "dom (region_parent e) \<subseteq> dom (region_parent e')" "finite (dom (region_parent e'))" "abs_labels e' = abs_labels e"
  shows "obj_weight e ob + card (dom (region_parent e)) \<le> obj_weight e' ob + card (dom (region_parent e'))"
proof (cases "obj_weight e ob \<le> obj_weight e' ob")
  case True
  then show ?thesis using card_mono [OF assms(2,1)] by simp
next
  case False
  then obtain c where "region_parent e c = None" "region_parent e' c \<noteq> None" "obj_weight e ob = Suc (obj_weight e' ob)"
    using assms(3) by (auto simp: obj_weight_def split: ObjType.splits if_splits)
  then have "dom (region_parent e) \<subset> dom (region_parent e')" using assms(1) by blast
  from psubset_card_mono [OF assms(2) this] \<open>obj_weight e ob = Suc (obj_weight e' ob)\<close> show ?thesis by simp
qed

lemma pot_mono:
  assumes "dom (region_parent e) \<subseteq> dom (region_parent e')" "finite (dom (region_parent e'))" "abs_labels e' = abs_labels e"
  shows "pot e t \<le> pot e' t"
  using obj_weight_merge [OF assms, of "t_obj t"] by (simp add: pot_def ts_weight_def)

text \<open>
  How the engine may move: cells keep their id, key and evidence, regions only merge, a cell whose
  typeset changed has all its subscribers queued, and everything else is left alone.
\<close>

definition same_static :: "Engine \<Rightarrow> Engine \<Rightarrow> bool" where
  "same_static e e' \<longleftrightarrow> cons e' = cons e \<and> con_script e' = con_script e \<and> script_cons e' = script_cons e \<and>
     live_ctxs e' = live_ctxs e \<and> subs e' = subs e \<and> sub_set e' = sub_set e \<and> abs_labels e' = abs_labels e \<and>
     array_classes e' = array_classes e \<and> elems_name e' = elems_name e \<and> n_evals e' = n_evals e"

definition cell_grows :: "Engine \<Rightarrow> Engine \<Rightarrow> CellId \<Rightarrow> bool" where
  "cell_grows e e' i \<longleftrightarrow> c_key (cells e' ! i) = c_key (cells e ! i) \<and> ev_le e' (c_ts (cells e ! i)) (c_ts (cells e' ! i)) \<and>
     (c_ts (cells e' ! i) \<noteq> c_ts (cells e ! i) \<longrightarrow> set (vec_of (subs e) i) \<subseteq> inq e' \<and>
        (finite (dom (region_parent e')) \<longrightarrow> pot e (c_ts (cells e ! i)) < pot e' (c_ts (cells e' ! i))))"

definition regions_merge :: "Engine \<Rightarrow> Engine \<Rightarrow> bool" where
  "regions_merge e e' \<longleftrightarrow> (\<forall>c d. same_region e c d \<longrightarrow> same_region e' c d) \<and> dom (region_parent e) \<subseteq> dom (region_parent e')"

definition grows :: "Engine \<Rightarrow> Engine \<Rightarrow> bool" where
  "grows e e' \<longleftrightarrow> length (cells e) \<le> length (cells e') \<and> (\<forall>i<length (cells e). cell_grows e e' i) \<and>
     inq e \<subseteq> inq e' \<and> link_set e \<subseteq> link_set e' \<and> same_static e e' \<and> regions_merge e e'"

lemma same_static_trans: "same_static a b \<Longrightarrow> same_static b c \<Longrightarrow> same_static a c"
  by (simp add: same_static_def)

lemma regions_merge_refl [simp]: "regions_merge e e"
  by (simp add: regions_merge_def)

lemma regions_merge_same: "region_parent e' = region_parent e \<Longrightarrow> regions_merge e e'"
  by (simp add: regions_merge_def same_region_def)

lemma regions_merge_trans: "regions_merge a b \<Longrightarrow> regions_merge b c \<Longrightarrow> regions_merge a c"
  unfolding regions_merge_def by blast

lemma grows_refl [simp]: "grows e e"
  by (simp add: grows_def cell_grows_def same_static_def)

lemma same_staticD:
  assumes "same_static e e'"
  shows "cons e' = cons e" "con_script e' = con_script e" "subs e' = subs e" "abs_labels e' = abs_labels e"
    "array_classes e' = array_classes e" "elems_name e' = elems_name e"
  using assms unfolding same_static_def by blast+

lemma growsD:
  assumes "grows e e'"
  shows "length (cells e) \<le> length (cells e')" "i < length (cells e) \<Longrightarrow> cell_grows e e' i" "inq e \<subseteq> inq e'"
    "link_set e \<subseteq> link_set e'" "same_static e e'"
    "root_of (region_parent e) c = root_of (region_parent e) d \<Longrightarrow>
       root_of (region_parent e') c = root_of (region_parent e') d" "regions_merge e e'"
  using assms unfolding grows_def regions_merge_def same_region_def by blast+

lemma ev_le_merge: "ev_le e a b \<Longrightarrow> same_static e e' \<Longrightarrow> regions_merge e e' \<Longrightarrow> ev_le e' a b"
  by (rule ev_le_mono [where e = e]) (auto simp: regions_merge_def same_staticD(4))

lemma cell_grows_trans:
  assumes "cell_grows a b i" "cell_grows b c i" "same_static a b" "same_static b c" "inq b \<subseteq> inq c" "regions_merge a b" "regions_merge b c"
  shows "cell_grows a c i"
proof -
  let ?a = "c_ts (cells a ! i)" and ?b = "c_ts (cells b ! i)" and ?c = "c_ts (cells c ! i)"
  have subs: "subs b = subs a" by (rule same_staticD(3) [OF assms(3)])
  have "ev_le c ?a ?b" by (rule ev_le_merge [OF _ assms(4,7)]) (use assms(1) in \<open>simp add: cell_grows_def\<close>)
  then have "ev_le c ?a ?c" by (rule ev_le_trans) (use assms(2) in \<open>simp add: cell_grows_def\<close>)
  moreover have "set (vec_of (subs a) i) \<subseteq> inq c" if "?c \<noteq> ?a"
    using assms(1,2,5) that subs unfolding cell_grows_def by (cases "?b = ?a") auto
  moreover have "pot a ?a < pot c ?c" if ch: "?c \<noteq> ?a" and fin: "finite (dom (region_parent c))"
  proof -
    have dom: "dom (region_parent a) \<subseteq> dom (region_parent b)" "dom (region_parent b) \<subseteq> dom (region_parent c)" "finite (dom (region_parent b))"
      using assms(6,7) fin finite_subset unfolding regions_merge_def by blast+
    note mono = pot_mono [OF dom(1,3) same_staticD(4) [OF assms(3)]] pot_mono [OF dom(2) fin same_staticD(4) [OF assms(4)]]
    have "?b \<noteq> ?a \<Longrightarrow> pot a ?a < pot b ?b" "?c \<noteq> ?b \<Longrightarrow> pot b ?b < pot c ?c"
      using assms(1,2) dom(3) fin by (simp_all add: cell_grows_def)
    then show ?thesis using mono(1) [of ?a] mono(2) [of ?b] ch by (cases "?b = ?a"; cases "?c = ?b") auto
  qed
  ultimately show ?thesis using assms(1,2) by (simp add: cell_grows_def)
qed

lemma grows_trans:
  assumes "grows a b" "grows b c"
  shows "grows a c"
proof -
  note a = growsD [OF assms(1)] and b = growsD [OF assms(2)]
  have "cell_grows a c i" if "i < length (cells a)" for i
    by (rule cell_grows_trans [OF a(2) [OF that] b(2) a(5) b(5) b(3) a(7) b(7)]) (use that a(1) in simp)
  moreover have "length (cells a) \<le> length (cells c)" using a(1) b(1) by (rule order_trans)
  ultimately show ?thesis
    unfolding grows_def
    using same_static_trans [OF a(5) b(5)] subset_trans [OF a(3) b(3)] subset_trans [OF a(4) b(4)] regions_merge_trans [OF a(7) b(7)]
    by blast
qed

text \<open>The classes in play are finitely many; each merge takes one root away.\<close>

definition obj_classes :: "AbsLabels list \<Rightarrow> ObjType \<Rightarrow> ClassId set" where
  "obj_classes meta ob =
     (case ob of One a \<Rightarrow> set_option (class_of a meta) | ClassAny c \<Rightarrow> {c} | AnyOf r \<Rightarrow> {r} | _ \<Rightarrow> {})"

definition in_scope :: "ClassId set \<Rightarrow> Engine \<Rightarrow> bool" where
  "in_scope R e \<longleftrightarrow> finite R \<and> dom (region_parent e) \<subseteq> R \<and>
     (\<forall>a. set_option (class_of a (abs_labels e)) \<subseteq> R) \<and>
     (\<forall>c\<in>set (cells e). obj_classes (abs_labels e) (t_obj (c_ts c)) \<subseteq> R) \<and> (\<forall>c\<in>R. root_of (region_parent e) c \<in> R)"

definition free_roots :: "ClassId set \<Rightarrow> Engine \<Rightarrow> nat" where
  "free_roots R e = card {c \<in> R. region_parent e c = None}"

definition has_room :: "ClassId set \<Rightarrow> Engine \<Rightarrow> bool" where
  "has_room R e \<longleftrightarrow> int (length (cells e) + 2 * free_roots R e) \<le> 2 ^ 32"

definition engine_inv :: "ClassId set \<Rightarrow> Engine \<Rightarrow> bool" where
  "engine_inv R e \<longleftrightarrow> engine_ok e \<and> in_scope R e \<and> has_room R e"

definition slack :: "Engine \<Rightarrow> nat" where
  "slack e = sum_list (map (\<lambda>c. 115 - ts_weight e (c_ts c)) (cells e))"

definition root_stable :: "Engine \<Rightarrow> ObjType \<Rightarrow> bool" where
  "root_stable e ob \<longleftrightarrow>
     (case ob of
        One _ \<Rightarrow> False
      | ClassAny c \<Rightarrow> region_parent e c = None \<and> c \<in> array_classes e
      | AnyOf r \<Rightarrow> region_parent e r = None
      | _ \<Rightarrow> True)"

definition raise_post :: "ClassId set \<Rightarrow> Engine \<Rightarrow> Engine \<Rightarrow> bool" where
  "raise_post R e e' \<longleftrightarrow> grows e e' \<and> engine_inv R e' \<and> free_roots R e' \<le> free_roots R e \<and>
     (free_roots R e' = free_roots R e \<longrightarrow> slack e' \<le> slack e \<and> region_parent e' = region_parent e)"

lemma raise_post_refl: "engine_inv R e \<Longrightarrow> raise_post R e e"
  by (simp add: raise_post_def)

lemma raise_post_trans: "raise_post R a b \<Longrightarrow> raise_post R b c \<Longrightarrow> raise_post R a c"
  unfolding raise_post_def by (auto intro: grows_trans)

lemma ts_weight_bound: "ts_ok t \<Longrightarrow> ts_weight e t \<le> 115"
proof -
  assume "ts_ok t"
  then have "fn_rank (t_fns t) \<le> 9" by (simp add: ts_ok_def fnset_rank_bound)
  moreover have "obj_weight e (t_obj t) \<le> 10" by (simp add: obj_weight_def split: ObjType.splits)
  moreover have "range_rank (t_range t) \<le> 2" by (cases "t_range t") auto
  ultimately show ?thesis
    using classes_card [of "t_prims t"] interval_rank_bound [of "t_interval t"] by (simp add: ts_weight_def)
qed

lemma roots_in_scope:
  assumes "engine_inv R e" "c \<in> R"
  shows "root_of (region_parent e) c \<in> R" "region_parent e (root_of (region_parent e) c) = None"
  using assms root_of(2) engine_okD(3) by (auto simp: engine_inv_def in_scope_def)

lemma sum_list_upd: "i < length xs \<Longrightarrow> sum_list (xs[i := v]) + xs ! i = sum_list xs + (v :: nat)"
  by (induction xs arbitrary: i) (auto split: nat.splits)

lemma sum_map_upd:
  "i < length xs \<Longrightarrow> sum_list (map f (xs[i := v])) + f (xs ! i) = sum_list (map f xs) + (f v :: nat)"
  using sum_list_upd [of i "map f xs" "f v"] by (simp add: map_update)

section \<open>Merging regions\<close>

definition raiser_good :: "ClassId set \<Rightarrow> nat \<Rightarrow> raiser \<Rightarrow> bool" where
  "raiser_good R n rz \<longleftrightarrow> (\<forall>e cid ts why. engine_inv R e \<and> cid < length (cells e) \<and> ts_ok ts \<and>
     obj_classes (abs_labels e) (t_obj ts) \<subseteq> R \<and> free_roots R e < n \<longrightarrow>
     (\<exists>e'. rz e cid ts why = Some e' \<and> raise_post R e e'))"

lemma merge_regions_sel [simp]:
  "cells (merge_regions e w l) = cells e" "cell_ids (merge_regions e w l) = cell_ids e"
  "worklist (merge_regions e w l) = worklist e" "inq (merge_regions e w l) = inq e"
  "subs (merge_regions e w l) = subs e" "sub_set (merge_regions e w l) = sub_set e"
  "links (merge_regions e w l) = links e" "link_set (merge_regions e w l) = link_set e"
  "abs_labels (merge_regions e w l) = abs_labels e" "array_classes (merge_regions e w l) = array_classes e"
  "elems_name (merge_regions e w l) = elems_name e" "same_static e (merge_regions e w l)"
  "region_parent (merge_regions e w l) = (region_parent e)(l \<mapsto> w)"
  by (simp_all add: merge_regions_def same_static_def)

lemma free_roots_merge:
  assumes "finite R" "lose \<in> R" "region_parent e lose = None"
  shows "Suc (free_roots R (merge_regions e win lose)) = free_roots R e"
proof -
  have "{c \<in> R. region_parent e c = None} = insert lose {c \<in> R. region_parent (merge_regions e win lose) c = None}"
    using assms(2,3) by (auto simp: fun_upd_apply)
  then show ?thesis
    unfolding free_roots_def using assms(1) by (simp only:) (subst card_insert_disjoint, auto)
qed

lemma merge_regions_inv:
  assumes "engine_inv R e" "win \<in> R" "lose \<in> R" "region_parent e win = None" "region_parent e lose = None" "win < lose"
  shows "engine_ok (merge_regions e win lose)" "in_scope R (merge_regions e win lose)" "grows e (merge_regions e win lose)"
    "Suc (free_roots R (merge_regions e win lose)) = free_roots R e"
proof -
  have ok: "engine_ok e" and sc: "in_scope R e" using assms(1) by (auto simp: engine_inv_def)
  note merge = root_of_merge [OF engine_okD(3) [OF ok] assms(4-6)]
  show "engine_ok (merge_regions e win lose)"
    using ok merge_regions_ok [OF engine_okD(2) [OF ok] assms(4-6)] by (simp add: engine_ok_def cells_ok_def)
  show "in_scope R (merge_regions e win lose)"
    using sc assms(2,3) merge by (auto simp: in_scope_def)
  show "Suc (free_roots R (merge_regions e win lose)) = free_roots R e"
    using sc assms(3,5) by (intro free_roots_merge) (auto simp: in_scope_def)
  show "grows e (merge_regions e win lose)"
    by (auto simp: grows_def cell_grows_def regions_merge_def same_region_def merge)
qed

lemma engine_ok_cells:
  assumes "engine_ok e" "cells_ok e'" "\<forall>c\<in>set (cells e'). ts_ok (c_ts c)" "length (cells e) \<le> length (cells e')"
    "region_parent e' = region_parent e" "region_members e' = region_members e" "subs e' = subs e" "sub_set e' = sub_set e"
    "links e' = links e" "link_set e' = link_set e" "distinct (worklist e')" "inq e' = set (worklist e')"
  shows "engine_ok e'"
proof -
  have "regions_ok e'" using assms(1,5,6) by (simp add: engine_ok_def regions_ok_def members_ok_def)
  moreover have "\<forall>s d. (s, d) \<in> link_set e' \<longrightarrow> d < length (cells e')"
    using assms(1,4,10) unfolding engine_ok_def by (metis order_less_le_trans)
  ultimately show ?thesis using assms unfolding engine_ok_def by simp
qed

lemma cell_inv:
  assumes "engine_ok e" "in_scope R e" "cell e k = Some (e', i)"
  shows "engine_ok e'" "in_scope R e'" "grows e e'" "free_roots R e' = free_roots R e" "i < length (cells e')"
    "length (cells e') \<le> Suc (length (cells e))" "region_parent e' = region_parent e" "link_set e' = link_set e"
proof -
  note ok = engine_okD [OF assms(1)]
  have c: "cells_ok e'" by (rule cell_table.intern_ok [OF ok(1) assms(3)])
  have new: "e' = e \<or> (i = length (cells e) \<and>
    e' = e\<lparr>cells := cells e @ [\<lparr>c_key = k, c_ts = ts_default, c_changes = 0\<rparr>], cell_ids := (cell_ids e)(k \<mapsto> i)\<rparr>)"
    by (rule cell_cases(2) [OF ok(1) assms(3)])
  have dflt: "ts_ok ts_default" "obj_classes (abs_labels e) (t_obj ts_default) = {}"
    by (simp_all add: ts_ok_def ts_default_def fnset_ok_def fnset_default_def obj_classes_def)
  show "i < length (cells e')" by (rule cell_cases(1) [OF ok(1) assms(3)])
  show "engine_ok e'"
    by (rule engine_ok_cells [OF assms(1) c]) (use new assms(1) dflt(1) in \<open>auto simp: engine_ok_def\<close>)
  show "in_scope R e'" using new by (elim disjE conjE) (use assms(2) dflt(2) in \<open>simp_all add: in_scope_def\<close>)
  show "grows e e'" using new by (auto simp: grows_def cell_grows_def same_static_def nth_append intro: regions_merge_same)
  show "free_roots R e' = free_roots R e" "region_parent e' = region_parent e" "link_set e' = link_set e"
    "length (cells e') \<le> Suc (length (cells e))"
    using new by (auto simp: free_roots_def)
qed


lemma engine_invD:
  assumes "engine_inv R e"
  shows "engine_ok e" "in_scope R e" "has_room R e" "parents_ok (region_parent e)" "finite R"
  using assms engine_okD(3) by (auto simp: engine_inv_def in_scope_def)

lemma cell_ts_scope:
  assumes "in_scope R e" "i < length (cells e)"
  shows "obj_classes (abs_labels e) (t_obj (c_ts (cells e ! i))) \<subseteq> R"
  using assms by (auto simp: in_scope_def)

text \<open>Installing a link keeps the invariant and raises the destination once.\<close>

lemma link_post:
  assumes "engine_inv R e" "src < length (cells e)" "dst < length (cells e)" "raiser_good R n rz" "free_roots R e < n"
  shows "\<exists>e'. link rz e src dst = Some e' \<and> grows e e' \<and> engine_inv R e' \<and> free_roots R e' \<le> free_roots R e"
proof (cases "src = dst \<or> (src, dst) \<in> link_set e")
  case True
  then show ?thesis using assms(1) by (simp add: link_def)
next
  case False
  let ?e = "e\<lparr>link_set := insert (src, dst) (link_set e), links := (links e)(src \<mapsto> vec_of (links e) src @ [dst])\<rparr>"
  have ok: "engine_ok ?e"
    using engine_invD(1) [OF assms(1)] assms(3) by (auto simp: engine_ok_def cells_ok_def regions_ok_def members_ok_def vec_of_def)
  have inv: "engine_inv R ?e"
    using ok engine_invD [OF assms(1)] by (simp add: engine_inv_def in_scope_def has_room_def free_roots_def)
  have gr: "grows e ?e" by (auto simp: grows_def cell_grows_def same_static_def intro: regions_merge_same)
  have fr: "free_roots R ?e = free_roots R e" by (simp add: free_roots_def)
  have ts: "cell_ts ?e src = Some (c_ts (cells e ! src))" using assms(2) by (simp add: cell_ts_def)
  have "ts_ok (c_ts (cells e ! src))" by (rule engine_okD(4) [OF engine_invD(1) [OF assms(1)] assms(2)])
  moreover have "obj_classes (abs_labels ?e) (t_obj (c_ts (cells e ! src))) \<subseteq> R"
    using cell_ts_scope [OF engine_invD(2) [OF assms(1)] assms(2)] by simp
  moreover have "dst < length (cells ?e)" using assms(3) by simp
  ultimately obtain e' where "rz ?e dst (c_ts (cells e ! src)) (SEED, CTX0) = Some e'" "raise_post R ?e e'"
    using assms(4,5) inv unfolding raiser_good_def fr [symmetric] by blast
  then show ?thesis
    using False ts inv gr fr grows_trans [OF gr, of e']
    by (auto simp: link_def Let_def raise_post_def)
qed

text \<open>A union either finds the classes together already or merges two roots of the scope.\<close>

lemma union_merge_post:
  assumes "engine_inv R e" "win \<in> R" "lose \<in> R" "region_parent e win = None" "region_parent e lose = None" "win < lose"
    "raiser_good R (free_roots R e) rz"
  shows "\<exists>e4. (do { (e2, from_cell) \<leftarrow> cell (merge_regions e win lose) (KClassView lose en);
      (e3, to_cell) \<leftarrow> cell e2 (KClassView win en); e4 \<leftarrow> link rz e3 from_cell to_cell; Some (e4, win) }) = Some (e4, win) \<and>
    grows e e4 \<and> grows (merge_regions e win lose) e4 \<and> engine_inv R e4 \<and> free_roots R e4 < free_roots R e"
proof -
  define e1 where "e1 = merge_regions e win lose"
  note m = merge_regions_inv [OF assms(1-6), folded e1_def]
  have room: "int (length (cells e1) + 2 * free_roots R e1) + 2 \<le> 2 ^ 32"
    using engine_invD(3) [OF assms(1)] m(4) by (simp add: has_room_def e1_def)
  then obtain e2 i where c2: "cell e1 (KClassView lose en) = Some (e2, i)" using cell_total [of e1] by fastforce
  note e2 = cell_inv [OF m(1,2) c2]
  have "int (length (cells e2)) < 2 ^ 32" using e2(6) room by linarith
  then obtain e3 j where c3: "cell e2 (KClassView win en) = Some (e3, j)" using cell_total by blast
  note e3 = cell_inv [OF e2(1,2) c3]
  have "has_room R e3" using room e2(4,6) e3(4,6) by (simp add: has_room_def)
  then have inv3: "engine_inv R e3" using e3(1,2) by (simp add: engine_inv_def)
  have fr3: "free_roots R e3 < free_roots R e" using e2(4) e3(4) m(4) by simp
  have "i < length (cells e3)" using e2(5) growsD(1) [OF e3(3)] by simp
  from link_post [OF inv3 this e3(5) assms(7) fr3] obtain e4 where
    e4: "link rz e3 i j = Some e4" "grows e3 e4" "engine_inv R e4" "free_roots R e4 \<le> free_roots R e3" by blast
  have "grows e1 e4" by (rule grows_trans [OF e2(3) grows_trans [OF e3(3) e4(2)]])
  with grows_trans [OF m(3) this] e4 fr3 c2 c3 show ?thesis by (simp add: e1_def)
qed

lemma union_regions_post:
  fixes c d :: ClassId
  assumes "engine_inv R e" "c \<in> R" "d \<in> R" "raiser_good R (free_roots R e) rz"
  defines "rc \<equiv> root_of (region_parent e) c" and "rd \<equiv> root_of (region_parent e) d"
  shows "\<exists>e' r. union_regions rz e c d = Some (e', r) \<and> r = min rc rd \<and> r \<in> R \<and>
    (if rc = rd then e' = e
     else grows e e' \<and> engine_inv R e' \<and> free_roots R e' < free_roots R e \<and> max rc rd \<in> dom (region_parent e')) \<and>
    root_of (region_parent e') c = root_of (region_parent e') d"
proof (cases "rc = rd")
  case True
  then show ?thesis
    using union_regions_eq [OF engine_okD(2) [OF engine_invD(1) [OF assms(1)]], of rz c d] roots_in_scope(1) [OF assms(1,2)]
    by (simp add: rc_def rd_def)
next
  case False
  let ?w = "min rc rd" and ?l = "max rc rd"
  have in_R: "?w \<in> R" "?l \<in> R" "region_parent e ?w = None" "region_parent e ?l = None" "?w < ?l"
    using False roots_in_scope [OF assms(1,2)] roots_in_scope [OF assms(1,3)]
    by (auto simp: min_def max_def rc_def rd_def)
  note eq = union_regions_eq [OF engine_okD(2) [OF engine_invD(1) [OF assms(1)]], of rz c d, folded rc_def rd_def]
  have together: "root_of (region_parent (merge_regions e ?w ?l)) c = root_of (region_parent (merge_regions e ?w ?l)) d"
    unfolding merge_regions_sel root_of_merge [OF engine_invD(4) [OF assms(1)] in_R(3,4,5)]
      rc_def [symmetric] rd_def [symmetric] by (simp add: min_def max_def)
  show ?thesis
  proof (cases "elems_name e")
    case None
    note m = merge_regions_inv [OF assms(1) in_R]
    have "has_room R (merge_regions e ?w ?l)" using engine_invD(3) [OF assms(1)] m(4) by (simp add: has_room_def)
    with None False m in_R(1) together show ?thesis by (auto simp: eq engine_inv_def Let_def)
  next
    case (Some en)
    from union_merge_post [OF assms(1) in_R assms(4), of en] obtain e4 where
      e4: "(do { (e2, from_cell) \<leftarrow> cell (merge_regions e ?w ?l) (KClassView ?l en);
        (e3, to_cell) \<leftarrow> cell e2 (KClassView ?w en); e4 \<leftarrow> link rz e3 from_cell to_cell; Some (e4, ?w) }) = Some (e4, ?w)"
      "grows e e4" "grows (merge_regions e ?w ?l) e4" "engine_inv R e4" "free_roots R e4 < free_roots R e" by blast
    have "?l \<in> dom (region_parent e4)" using growsD(7) [OF e4(3)] by (auto simp: regions_merge_def)
    with e4 Some False in_R(1) growsD(6) [OF e4(3) together] show ?thesis by (simp add: eq Let_def)
  qed
qed

end
