(* ===== verification/Engine_Raise.thy ===== *)
theory Engine_Raise
  imports Engine_Inv
begin

text \<open>
  The meet of object labels, the engine-aware join and \<open>raise\<close>: a raise ends, keeps the invariant,
  delivers its evidence, loses none of any cell, and queues every reader of a cell that changed.
\<close>

section \<open>Meeting and joining\<close>

lemma obj_weight_join: "join_obj a b (abs_labels e) \<noteq> a \<Longrightarrow> obj_weight e a < obj_weight e (join_obj a b (abs_labels e))"
  by (cases a; cases b) (auto simp: join_obj_def obj_weight_def split: option.splits if_splits)

lemma obj_classes_join:
  assumes "obj_classes meta a \<subseteq> R" "obj_classes meta b \<subseteq> R"
  shows "obj_classes meta (join_obj a b meta) \<subseteq> R"
  using assms by (cases a; cases b) (auto simp: join_obj_def obj_classes_def split: option.splits if_splits)

text \<open>The class and the array bit of an object part, over a well-founded region forest.\<close>

definition array_class :: "Engine \<Rightarrow> ObjType \<Rightarrow> ClassId option" where
  "array_class e ob =
     (case ob of
        One a \<Rightarrow> (if a < length (abs_labels e) \<and> lbl_array (abs_labels e ! a)
          then (case lbl_class (abs_labels e ! a) of
                  Some c \<Rightarrow> (if root_of (region_parent e) c \<in> array_classes e then Some c else None) | None \<Rightarrow> None)
          else None)
      | ClassAny c \<Rightarrow> (if root_of (region_parent e) c \<in> array_classes e then Some c else None)
      | _ \<Rightarrow> None)"

definition plain_class :: "Engine \<Rightarrow> ObjType \<Rightarrow> ClassId option" where
  "plain_class e ob =
     (case ob of
        One a \<Rightarrow> (if a < length (abs_labels e) \<and> \<not> lbl_array (abs_labels e ! a) then lbl_class (abs_labels e ! a) else None)
      | ClassAny c \<Rightarrow> (if root_of (region_parent e) c \<in> array_classes e then None else Some c)
      | AnyOf r \<Rightarrow> Some r
      | _ \<Rightarrow> None)"

lemma array_region_of_eq: "parents_ok (region_parent e) \<Longrightarrow> array_region_of e ob = Some (array_class e ob)"
  by (auto simp: array_region_of_def array_class_def region_root_def root_of split: ObjType.splits option.splits)

lemma plain_class_eq:
  "parents_ok (region_parent e) \<Longrightarrow> \<exists>c b. class_and_arrayness e ob = Some (c, b) \<and> plain_class e ob = (if b then None else c)"
  by (auto simp: class_and_arrayness_def plain_class_def region_root_def root_of split: ObjType.splits)

lemma region_meet_eq:
  assumes "parents_ok (region_parent e)"
  shows "region_meet rz e a b =
    (case (array_class e a, array_class e b) of
       (Some c, Some d) \<Rightarrow> do { (e', r) \<leftarrow> union_regions rz e c d; Some (e', Some (ClassAny r)) }
     | _ \<Rightarrow>
         (case (plain_class e a, plain_class e b) of
            (Some c, Some d) \<Rightarrow>
              (if join_obj a b (abs_labels e) = AnyObject
               then do { (e', r) \<leftarrow> union_regions rz e c d; Some (e', Some (AnyOf r)) } else Some (e, None))
          | _ \<Rightarrow> Some (e, None)))"
proof -
  obtain ca aa cb ab where "class_and_arrayness e a = Some (ca, aa)" "plain_class e a = (if aa then None else ca)"
      "class_and_arrayness e b = Some (cb, ab)" "plain_class e b = (if ab then None else cb)"
    using plain_class_eq [OF assms] by metis
  then show ?thesis
    by (simp add: region_meet_def array_region_of_eq [OF assms] split: option.splits)
qed

lemma class_scope:
  assumes "obj_classes (abs_labels e) ob \<subseteq> R"
  shows "array_class e ob = Some c \<Longrightarrow> c \<in> R" "plain_class e ob = Some c \<Longrightarrow> c \<in> R"
  using assms by (auto simp: array_class_def plain_class_def obj_classes_def class_of_def split: ObjType.splits if_splits option.splits)

text \<open>Where the meet merged nothing, the label it gives is above the old one or is the old one.\<close>

definition meet_progress :: "Engine \<Rightarrow> ObjType \<Rightarrow> ObjType \<Rightarrow> ObjType \<Rightarrow> bool" where
  "meet_progress e a b final \<longleftrightarrow> (final \<noteq> a \<longrightarrow> obj_weight e a < obj_weight e final) \<and>
     (final = a \<and> join_obj a b (abs_labels e) \<noteq> a \<longrightarrow> root_stable e a \<and> \<not> root_stable e b)"

lemma meet_progress_array:
  assumes "parents_ok (region_parent e)" "array_class e a = Some c" "array_class e b = Some d"
    "root_of (region_parent e) c = root_of (region_parent e) d"
  shows "meet_progress e a b (ClassAny (root_of (region_parent e) c))"
proof -
  note rt = root_of(2) [OF assms(1)]
  have arr: "root_of (region_parent e) c \<in> array_classes e"
    using assms(2) by (auto simp: array_class_def split: ObjType.splits if_splits option.splits)
  have a: "(\<exists>x. a = One x) \<or> a = ClassAny c" and b: "(\<exists>x. b = One x) \<or> b = ClassAny d"
    using assms(2,3) by (auto simp: array_class_def split: ObjType.splits if_splits option.splits)
  show ?thesis
    using a b assms(4) rt arr root_of_root [of "region_parent e" c] root_of_root [of "region_parent e" d]
    by (auto simp: meet_progress_def obj_weight_def root_stable_def join_obj_simps split: if_splits)
qed

lemma meet_progress_plain:
  assumes "parents_ok (region_parent e)" "plain_class e a = Some c" "plain_class e b = Some d"
    "root_of (region_parent e) c = root_of (region_parent e) d" "join_obj a b (abs_labels e) = AnyObject"
  shows "meet_progress e a b (AnyOf (root_of (region_parent e) c))"
proof -
  note rt = root_of(2) [OF assms(1)]
  have a: "(\<exists>x. a = One x) \<or> a = ClassAny c \<or> a = AnyOf c" and
    b: "(\<exists>x. b = One x) \<or> (b = ClassAny d \<and> root_of (region_parent e) d \<notin> array_classes e) \<or> b = AnyOf d"
    using assms(2,3) by (auto simp: plain_class_def split: ObjType.splits if_splits)
  show ?thesis
    using a b assms(4,5) rt root_of_root [of "region_parent e" c] root_of_root [of "region_parent e" d]
    by (auto simp: meet_progress_def obj_weight_def root_stable_def join_obj_simps split: if_splits)
qed

lemma meet_progress_pure: "meet_progress e a b (join_obj a b (abs_labels e))"
  using obj_weight_join [of a b e] by (auto simp: meet_progress_def)

definition final_label :: "Engine \<Rightarrow> ObjType \<Rightarrow> ObjType \<Rightarrow> ObjType option \<Rightarrow> ObjType" where
  "final_label e a b jo = (case jo of Some j \<Rightarrow> j | None \<Rightarrow> join_obj a b (abs_labels e))"

text \<open>A merge pays for the stale labels it leaves: the label the meet gives weighs more, the merges counted.\<close>

lemma label_after_merge:
  fixes w l :: ClassId
  assumes "regions_merge e e'" "finite (dom (region_parent e'))" "region_parent e w = None" "region_parent e l = None" "w \<noteq> l"
    "l \<in> dom (region_parent e')" "n \<le> top_w" "0 < top_w"
  shows "n + card (dom (region_parent e)) < (if region_parent e' w = None then top_w else top_w - 1) + card (dom (region_parent e'))"
proof -
  let ?d = "dom (region_parent e)" and ?d' = "dom (region_parent e')"
  have sub: "?d \<subseteq> ?d'" using assms(1) by (simp add: regions_merge_def)
  have fin: "finite ?d" by (rule finite_subset [OF sub assms(2)])
  have "card (insert l ?d) \<le> card ?d'" by (rule card_mono [OF assms(2)]) (use sub assms(6) in auto)
  then have one: "card ?d + 1 \<le> card ?d'" using fin assms(4) by (simp add: domIff)
  have two: "card ?d + 2 \<le> card ?d'" if "region_parent e' w \<noteq> None"
  proof -
    have "card (insert w (insert l ?d)) \<le> card ?d'" by (rule card_mono [OF assms(2)]) (use sub assms(6) that in auto)
    then show ?thesis using fin assms(3,4,5) by (simp add: domIff)
  qed
  show ?thesis using one two assms(7,8) by (cases "region_parent e' w = None") auto
qed

lemma array_class_le:
  assumes "array_class e a = Some c" "same_region e' c r" "abs_labels e' = abs_labels e"
  shows "obj_le e' a (ClassAny r)" "obj_weight e a \<le> 7"
  using assms by (auto simp: array_class_def obj_le_def obj_weight_def class_of_def stands_for_def split: ObjType.splits if_splits option.splits)

lemma plain_class_le:
  assumes "plain_class e a = Some c" "same_region e' c r" "abs_labels e' = abs_labels e"
  shows "obj_le e' a (AnyOf r)" "obj_weight e a \<le> 9"
  using assms by (auto simp: plain_class_def obj_le_def obj_weight_def class_of_def stands_for_def split: ObjType.splits if_splits)

text \<open>What a union of two classes of the scope does to their labels, and what it costs.\<close>

definition merge_pays :: "Engine \<Rightarrow> Engine \<Rightarrow> ClassId \<Rightarrow> bool" where
  "merge_pays e e' r \<longleftrightarrow> (\<forall>n top_w. n \<le> top_w \<longrightarrow> 0 < top_w \<longrightarrow>
     n + card (dom (region_parent e)) < (if region_parent e' r = None then top_w else top_w - 1) + card (dom (region_parent e')))"

lemma merge_paysD:
  "merge_pays e e' r \<Longrightarrow> n \<le> top_w \<Longrightarrow> 0 < top_w \<Longrightarrow>
    n + card (dom (region_parent e)) < (if region_parent e' r = None then top_w else top_w - 1) + card (dom (region_parent e'))"
  by (simp add: merge_pays_def)

lemma union_labels:
  assumes "engine_inv R e" "c \<in> R" "d \<in> R" "raiser_good R (free_roots R e) rz"
  shows "\<exists>e' r. union_regions rz e c d = Some (e', r) \<and> r \<in> R \<and> grows e e' \<and> engine_inv R e' \<and> same_region e' c r \<and> same_region e' d r \<and>
    (free_roots R e' < free_roots R e \<and> merge_pays e e' r \<or>
     e' = e \<and> root_of (region_parent e) c = root_of (region_parent e) d \<and> r = root_of (region_parent e) c)"
proof -
  let ?rc = "root_of (region_parent e) c" and ?rd = "root_of (region_parent e) d"
  note idem = root_of_idem [OF engine_invD(4) [OF assms(1)]]
  from union_regions_post [OF assms] obtain e' r where
    u: "union_regions rz e c d = Some (e', r)" "r = min ?rc ?rd" "r \<in> R" "same_region e' c d"
    "if ?rc = ?rd then e' = e
     else grows e e' \<and> engine_inv R e' \<and> free_roots R e' < free_roots R e \<and> max ?rc ?rd \<in> dom (region_parent e')"
    unfolding same_region_def by blast
  show ?thesis
  proof (cases "?rc = ?rd")
    case True
    then have "e' = e" using u(5) by simp
    with True u(1-4) assms(1) idem [of c] idem [of d] show ?thesis by (intro exI [of _ e] exI [of _ r]) (simp add: same_region_def)
  next
    case False
    with u(5) have g: "grows e e'" "engine_inv R e'" "free_roots R e' < free_roots R e" "max ?rc ?rd \<in> dom (region_parent e')" by simp_all
    have "same_region e c r \<or> same_region e d r" using u(2) idem [of c] idem [of d] by (auto simp: same_region_def min_def)
    then have "same_region e' c r" "same_region e' d r"
      using growsD(7) [OF g(1)] u(4) unfolding regions_merge_def same_region_def by metis+
    moreover have "merge_pays e e' r"
      unfolding merge_pays_def
    proof (intro allI impI)
      fix n top_w :: nat
      assume that: "n \<le> top_w" "0 < top_w"
      show "n + card (dom (region_parent e)) < (if region_parent e' r = None then top_w else top_w - 1) + card (dom (region_parent e'))"
      proof (rule label_after_merge [OF growsD(7) [OF g(1)] _ _ _ _ g(4) that])
        show "finite (dom (region_parent e'))" using engine_invD(2) [OF g(2)] finite_subset by (auto simp: in_scope_def)
        show "region_parent e r = None" "region_parent e (max ?rc ?rd) = None" "r \<noteq> max ?rc ?rd"
          using False u(2) root_of(2) [OF engine_invD(4) [OF assms(1)]] by (auto simp: min_def max_def)
      qed
    qed
    ultimately show ?thesis using u(1,3) g(1-3) by blast
  qed
qed

text \<open>The label of a meet covers both parts, and progress is made: in the regions, or in the label alone.\<close>

definition label_progress :: "ClassId set \<Rightarrow> Engine \<Rightarrow> Engine \<Rightarrow> ObjType \<Rightarrow> ObjType \<Rightarrow> ObjType \<Rightarrow> bool" where
  "label_progress R e e' a b final \<longleftrightarrow>
     free_roots R e' < free_roots R e \<and> obj_weight e a + card (dom (region_parent e)) < obj_weight e' final + card (dom (region_parent e')) \<or>
     e' = e \<and> meet_progress e a b final"

lemma region_meet_post:
  assumes "engine_inv R e" "obj_classes (abs_labels e) a \<subseteq> R" "obj_classes (abs_labels e) b \<subseteq> R"
    "raiser_good R (free_roots R e) rz"
  shows "\<exists>e' jo. region_meet rz e a b = Some (e', jo) \<and> grows e e' \<and> engine_inv R e' \<and>
    obj_classes (abs_labels e) (final_label e a b jo) \<subseteq> R \<and> obj_le e' a (final_label e a b jo) \<and> obj_le e' b (final_label e a b jo) \<and>
    label_progress R e e' a b (final_label e a b jo)"
proof -
  note ok = engine_invD(4) [OF assms(1)]
  show ?thesis
  proof (cases "array_class e a \<noteq> None \<and> array_class e b \<noteq> None")
    case True
    then obtain c d where cd: "array_class e a = Some c" "array_class e b = Some d" by auto
    from union_labels [OF assms(1) class_scope(1) [OF assms(2) cd(1)] class_scope(1) [OF assms(3) cd(2)] assms(4)] obtain e' r where
      u: "union_regions rz e c d = Some (e', r)" "r \<in> R" "grows e e'" "engine_inv R e'" "same_region e' c r" "same_region e' d r"
      "free_roots R e' < free_roots R e \<and> merge_pays e e' r \<or>
       e' = e \<and> root_of (region_parent e) c = root_of (region_parent e) d \<and> r = root_of (region_parent e) c" by blast
    note lab = same_staticD(4) [OF growsD(5) [OF u(3)]]
    note le = array_class_le [OF cd(1) u(5) lab] array_class_le(1) [OF cd(2) u(6) lab]
    have "label_progress R e e' a b (ClassAny r)"
      using u(7) merge_paysD [of e e' r, OF _ le(2)] meet_progress_array [OF ok cd]
      by (auto simp: label_progress_def obj_weight_def [of e' "ClassAny r"])
    moreover have "region_meet rz e a b = Some (e', Some (ClassAny r))" using cd u(1) by (simp add: region_meet_eq [OF ok])
    ultimately show ?thesis using u(2-4) le(1,3) by (auto simp: final_label_def obj_classes_def)
  next
    case na: False
    show ?thesis
    proof (cases "plain_class e a \<noteq> None \<and> plain_class e b \<noteq> None \<and> join_obj a b (abs_labels e) = AnyObject")
      case True
      then obtain c d where cd: "plain_class e a = Some c" "plain_class e b = Some d" by auto
      from union_labels [OF assms(1) class_scope(2) [OF assms(2) cd(1)] class_scope(2) [OF assms(3) cd(2)] assms(4)] obtain e' r where
        u: "union_regions rz e c d = Some (e', r)" "r \<in> R" "grows e e'" "engine_inv R e'" "same_region e' c r" "same_region e' d r"
        "free_roots R e' < free_roots R e \<and> merge_pays e e' r \<or>
         e' = e \<and> root_of (region_parent e) c = root_of (region_parent e) d \<and> r = root_of (region_parent e) c" by blast
      note lab = same_staticD(4) [OF growsD(5) [OF u(3)]]
      note le = plain_class_le [OF cd(1) u(5) lab] plain_class_le(1) [OF cd(2) u(6) lab]
      have "label_progress R e e' a b (AnyOf r)"
        using u(7) merge_paysD [of e e' r, OF _ le(2)] meet_progress_plain [OF ok cd] True
        by (auto simp: label_progress_def obj_weight_def [of e' "AnyOf r"])
      moreover have "region_meet rz e a b = Some (e', Some (AnyOf r))"
        using na True cd u(1) by (auto simp: region_meet_eq [OF ok] split: option.splits)
      ultimately show ?thesis using u(2-4) le(1,3) by (auto simp: final_label_def obj_classes_def)
    next
      case False
      with na have "region_meet rz e a b = Some (e, None)"
        by (auto simp: region_meet_eq [OF ok] split: option.splits)
      then show ?thesis
        using assms(1) obj_classes_join [OF assms(2,3)] meet_progress_pure [of e a b] join_obj_le [where e = e and a = a and b = b]
        by (auto simp: final_label_def label_progress_def)
    qed
  qed
qed

text \<open>The weight of a typeset splits into its object label and the rest, which the join only raises.\<close>

lemma ts_weight_split: "ts_weight e t = ts_rank [] (t\<lparr>t_obj := OEmpty\<rparr>) + obj_weight e (t_obj t)"
  by (simp add: ts_weight_def ts_rank_def obj_rank_def)

lemma ts_upd_strip:
  assumes "ts_ok t"
  shows "(ts_upd meta t o1)\<lparr>t_obj := OEmpty\<rparr> = ts_upd [] (t\<lparr>t_obj := OEmpty\<rparr>) (o1\<lparr>t_obj := OEmpty\<rparr>)"
proof -
  have "fnset_ok (t_fns t)" using assms by (simp add: ts_ok_def)
  then show ?thesis by (simp add: join_from_eq(2) join_obj_simps)
qed

lemma join_rank_le:
  assumes "ts_ok dst" "ts_ok src"
  shows "ts_rank [] (dst\<lparr>t_obj := OEmpty\<rparr>) \<le> ts_rank [] (((ts_upd meta dst src)\<lparr>t_obj := final\<rparr>)\<lparr>t_obj := OEmpty\<rparr>)"
proof -
  let ?d = "dst\<lparr>t_obj := OEmpty\<rparr>" and ?s = "src\<lparr>t_obj := OEmpty\<rparr>"
  have "ts_upd [] ?d ?s \<noteq> ?d \<Longrightarrow> ts_rank [] ?d < ts_rank [] (ts_upd [] ?d ?s)"
    using assms by (intro ts_upd_rank) (auto simp: ts_ok_def)
  then have "ts_rank [] ?d \<le> ts_rank [] (ts_upd [] ?d ?s)" by (cases "ts_upd [] ?d ?s = ?d") auto
  then show ?thesis using ts_upd_strip [OF assms(1), of meta src] by simp
qed

lemma join_weight:
  assumes "ts_ok dst" "ts_ok src" "meet_progress e (t_obj dst) (t_obj src) final"
    "(ts_upd meta dst src)\<lparr>t_obj := final\<rparr> \<noteq> dst"
  shows "ts_weight e dst < ts_weight e ((ts_upd meta dst src)\<lparr>t_obj := final\<rparr>)"
proof -
  let ?d = "dst\<lparr>t_obj := OEmpty\<rparr>" and ?s = "src\<lparr>t_obj := OEmpty\<rparr>"
  have rank: "ts_upd [] ?d ?s \<noteq> ?d \<Longrightarrow> ts_rank [] ?d < ts_rank [] (ts_upd [] ?d ?s)"
    using assms(1,2) by (intro ts_upd_rank) (auto simp: ts_ok_def)
  have strip: "((ts_upd meta dst src)\<lparr>t_obj := final\<rparr>)\<lparr>t_obj := OEmpty\<rparr> = ts_upd [] ?d ?s"
    using ts_upd_strip [OF assms(1), of meta src] by simp
  have "ts_upd [] ?d ?s \<noteq> ?d \<or> final \<noteq> t_obj dst"
  proof (rule ccontr)
    assume "\<not> (ts_upd [] ?d ?s \<noteq> ?d \<or> final \<noteq> t_obj dst)"
    then have "((ts_upd meta dst src)\<lparr>t_obj := final\<rparr>)\<lparr>t_obj := OEmpty\<rparr> = ?d"
      "t_obj ((ts_upd meta dst src)\<lparr>t_obj := final\<rparr>) = t_obj dst" using strip by simp_all
    then have "(ts_upd meta dst src)\<lparr>t_obj := final\<rparr> = dst" by (cases dst; cases "ts_upd meta dst src") simp
    with assms(4) show False by simp
  qed
  moreover have "final \<noteq> t_obj dst \<Longrightarrow> obj_weight e (t_obj dst) < obj_weight e final"
    using assms(3) by (simp add: meet_progress_def)
  moreover have "ts_rank [] ?d \<le> ts_rank [] (ts_upd [] ?d ?s)" using rank by (cases "ts_upd [] ?d ?s = ?d") auto
  ultimately show ?thesis
    unfolding ts_weight_split strip using rank by (cases "final = t_obj dst") (auto intro: add_less_le_mono add_le_less_mono)
qed

lemma same_regions:
  assumes "region_parent e' = region_parent e" "abs_labels e' = abs_labels e"
  shows "obj_le e' = obj_le e" "ev_le e' = ev_le e" "pot e' = pot e"
proof -
  have "obj_le e' a b = obj_le e a b" for a b
    using assms by (cases a; cases b) (simp_all add: obj_le_def same_region_def)
  then show "obj_le e' = obj_le e" "ev_le e' = ev_le e" by (simp_all add: fun_eq_iff ev_le_def)
  have "obj_weight e' a = obj_weight e a" for a using assms by (cases a) (simp_all add: obj_weight_def)
  then show "pot e' = pot e" unfolding pot_def [abs_def] ts_weight_def assms by simp
qed

lemma obj_le_sink [simp]: "obj_le (e\<lparr>join_sink := s\<rparr>) = obj_le e" and pot_sink [simp]: "pot (e\<lparr>join_sink := s\<rparr>) = pot e"
  by (rule same_regions; simp)+

lemma engine_inv_sink [simp]: "engine_inv R (e\<lparr>join_sink := s\<rparr>) \<longleftrightarrow> engine_inv R e" "grows e' (e\<lparr>join_sink := s\<rparr>) \<longleftrightarrow> grows e' e"
    "free_roots R (e\<lparr>join_sink := s\<rparr>) = free_roots R e"
  by (simp_all add: engine_inv_def engine_ok_def cells_ok_def regions_ok_def members_ok_def in_scope_def has_room_def
      free_roots_def grows_def cell_grows_def same_static_def regions_merge_def same_region_def ev_le_def obj_le_sink pot_sink)

lemma join_ts_post:
  assumes "engine_inv R e" "ts_ok dst" "ts_ok src" "obj_classes (abs_labels e) (t_obj dst) \<subseteq> R"
    "obj_classes (abs_labels e) (t_obj src) \<subseteq> R" "raiser_good R (free_roots R e) rz"
  shows "\<exists>e1 joined changed. join_ts rz e dst src = Some (e1, joined, changed) \<and> grows e e1 \<and> engine_inv R e1 \<and>
    ts_ok joined \<and> obj_classes (abs_labels e) (t_obj joined) \<subseteq> R \<and> ev_le e1 dst joined \<and> ev_le e1 src joined \<and>
    (\<not> changed \<longrightarrow> joined = dst) \<and> (joined \<noteq> dst \<longrightarrow> pot e dst < pot e1 joined) \<and>
    (free_roots R e1 < free_roots R e \<or>
     ((\<exists>s. e1 = e\<lparr>join_sink := s\<rparr>) \<and> (joined \<noteq> dst \<longrightarrow> ts_weight e dst < ts_weight e joined) \<and>
      (changed \<and> joined = dst \<longrightarrow> root_stable e (t_obj dst) \<and> \<not> root_stable e (t_obj src))))"
proof -
  let ?meta = "abs_labels e" and ?u = "ts_upd (abs_labels e) dst src"
  from region_meet_post [OF assms(1,4,5,6)] obtain e1 jo where meet: "region_meet rz e (t_obj dst) (t_obj src) = Some (e1, jo)"
      "grows e e1" "engine_inv R e1" "obj_classes ?meta (final_label e (t_obj dst) (t_obj src) jo) \<subseteq> R"
      "obj_le e1 (t_obj dst) (final_label e (t_obj dst) (t_obj src) jo)" "obj_le e1 (t_obj src) (final_label e (t_obj dst) (t_obj src) jo)"
      "label_progress R e e1 (t_obj dst) (t_obj src) (final_label e (t_obj dst) (t_obj src) jo)"
    by blast
  have lab: "abs_labels e1 = ?meta" using meet(2) by (metis growsD(5) same_staticD(4))
  have fok: "fnset_ok (t_fns dst)" using assms(2) by (simp add: ts_ok_def)
  obtain s where jf: "join_from dst src ?meta (join_sink e1) = (?u, s, ?u \<noteq> dst)" using join_from_eq(1) [OF fok] by blast
  have obj: "t_obj ?u = join_obj (t_obj dst) (t_obj src) ?meta" by (simp add: join_from_eq(2) [OF fok])
  let ?f = "final_label e (t_obj dst) (t_obj src) jo"
  let ?j = "?u\<lparr>t_obj := ?f\<rparr>"
  let ?ch = "(jo \<noteq> None \<and> t_obj ?u \<noteq> ?f) \<or> ?u \<noteq> dst"
  have upd: "t_obj ?u = ?f \<Longrightarrow> ?u\<lparr>t_obj := ?f\<rparr> = ?u" by (metis TypeSet.surjective TypeSet.update_convs(3) old.unit.exhaust TypeSet.select_convs(3))
  have jt: "join_ts rz e dst src = Some (e1\<lparr>join_sink := s\<rparr>, ?j, ?ch)"
  proof (cases jo)
    case None
    with upd obj show ?thesis by (simp add: join_ts_def meet(1) lab jf final_label_def)
  next
    case (Some j)
    with upd show ?thesis by (cases "t_obj ?u = j") (simp_all add: join_ts_def meet(1) lab jf final_label_def)
  qed
  have le: "ev_le (e1\<lparr>join_sink := s\<rparr>) dst ?j" "ev_le (e1\<lparr>join_sink := s\<rparr>) src ?j" "ts_ok ?j"
    using ts_upd_le [OF assms(2), where meta = ?meta and ?o1.0 = src] ts_upd_unknown [OF assms(2), of ?meta src] ts_upd_ok [OF assms(2,3)] meet(5,6)
    by (simp_all add: ev_le_def obj_le_sink)
  have nochange: "?j = dst" if "\<not> ?ch"
  proof -
    have "t_obj ?u = ?f" using that obj by (cases jo) (simp_all add: final_label_def)
    with upd that show ?thesis by metis
  qed
  have "root_stable e (t_obj dst) \<and> \<not> root_stable e (t_obj src)"
    if "meet_progress e (t_obj dst) (t_obj src) ?f" "?ch" "?j = dst"
  proof -
    have "?f = t_obj dst" using that(3) by (metis TypeSet.select_convs(3) TypeSet.surjective TypeSet.update_convs(3))
    moreover have "t_obj ?u \<noteq> t_obj dst" using that(2,3) calculation upd by metis
    ultimately show ?thesis using that(1) by (simp add: meet_progress_def obj)
  qed
  with meet(7) join_weight [OF assms(2,3), of e ?f ?meta]
  have prog: "free_roots R e1 < free_roots R e \<or> (e1 = e \<and> (?j \<noteq> dst \<longrightarrow> ts_weight e dst < ts_weight e ?j) \<and>
      (?ch \<and> ?j = dst \<longrightarrow> root_stable e (t_obj dst) \<and> \<not> root_stable e (t_obj src)))" unfolding label_progress_def by blast
  have "pot e dst < pot (e1\<lparr>join_sink := s\<rparr>) ?j" if "?j \<noteq> dst"
    using meet(7) unfolding label_progress_def
  proof (elim disjE conjE)
    assume "obj_weight e (t_obj dst) + card (dom (region_parent e)) < obj_weight e1 ?f + card (dom (region_parent e1))"
    then show ?thesis using join_rank_le [OF assms(2,3), where meta = ?meta and final = ?f] by (simp add: pot_sink pot_def ts_weight_split)
  next
    assume "e1 = e" "meet_progress e (t_obj dst) (t_obj src) ?f"
    then show ?thesis using join_weight [OF assms(2,3) _ that] by (simp add: pot_sink pot_def)
  qed
  then show ?thesis
    using meet(2,3,4) le nochange prog unfolding jt by (auto simp del: dims_le_obj)
qed

section \<open>Raising\<close>

lemma enqueue_all_eq:
  "\<exists>ws. enqueue_all e us = e\<lparr>inq := inq e \<union> set us, worklist := ws\<rparr> \<and>
     (distinct (worklist e) \<and> inq e = set (worklist e) \<longrightarrow> distinct ws \<and> set ws = inq e \<union> set us)"
proof (induction us arbitrary: e)
  case Nil
  show ?case by (rule exI [of _ "worklist e"]) (auto simp: enqueue_all_def)
next
  case (Cons u us)
  obtain c x where u: "u = (c, x)" by (cases u)
  obtain ws where ws: "enqueue_all (enqueue e c x) us =
      (enqueue e c x)\<lparr>inq := inq (enqueue e c x) \<union> set us, worklist := ws\<rparr>"
      "distinct (worklist (enqueue e c x)) \<and> inq (enqueue e c x) = set (worklist (enqueue e c x)) \<longrightarrow>
        distinct ws \<and> set ws = inq (enqueue e c x) \<union> set us" using Cons.IH [of "enqueue e c x"] by blast
  have "enqueue_all e (u # us) = enqueue_all (enqueue e c x) us" by (simp add: enqueue_all_def u)
  with ws show ?case
    by (intro exI [of _ ws]) (auto simp: enqueue_def u insert_absorb split: if_splits)
qed

lemma record_growth_eq:
  "\<exists>ws why first. record_growth e cid joined wa con =
     e\<lparr>cells := (cells e)[cid := \<lparr>c_key = c_key (cells e ! cid), c_ts = joined, c_changes = c_changes (cells e ! cid) + 1\<rparr>],
       anyobj_why := why, anyobj_first := first, n_raises := n_raises e + 1,
       inq := inq e \<union> set (vec_of (subs e) cid), worklist := ws\<rparr> \<and>
     (distinct (worklist e) \<and> inq e = set (worklist e) \<longrightarrow> distinct ws \<and> set ws = inq e \<union> set (vec_of (subs e) cid))"
proof -
  define e3 where "e3 = (let key = c_key (cells e ! cid);
          flipped = (\<not> wa \<and> t_obj joined = AnyObject);
          e1 = e\<lparr>cells := (cells e)[cid := \<lparr>c_key = key, c_ts = joined, c_changes = c_changes (cells e ! cid) + 1\<rparr>]\<rparr>;
          e2 = (if flipped
                then e1\<lparr>anyobj_why := (anyobj_why e1)(con \<mapsto> (case anyobj_why e1 con of Some n \<Rightarrow> n | None \<Rightarrow> 0) + 1),
                        anyobj_first := (if length (anyobj_first e1) < 12 then anyobj_first e1 @ [(key, con)]
                                         else anyobj_first e1)\<rparr>
                else e1)
      in e2\<lparr>n_raises := n_raises e2 + 1\<rparr>)"
  have e3: "e3 = e\<lparr>cells := (cells e)[cid := \<lparr>c_key = c_key (cells e ! cid), c_ts = joined, c_changes = c_changes (cells e ! cid) + 1\<rparr>],
       anyobj_why := anyobj_why e3, anyobj_first := anyobj_first e3, n_raises := n_raises e + 1\<rparr>"
    by (simp add: e3_def Let_def)
  have rg: "record_growth e cid joined wa con = enqueue_all e3 (vec_of (subs e3) cid)"
    by (simp add: record_growth_def e3_def Let_def)
  have sel: "inq e3 = inq e" "worklist e3 = worklist e" "subs e3 = subs e" by (subst e3, simp)+
  obtain ws where ws: "enqueue_all e3 (vec_of (subs e) cid) = e3\<lparr>inq := inq e \<union> set (vec_of (subs e) cid), worklist := ws\<rparr>"
     "distinct (worklist e) \<and> inq e = set (worklist e) \<longrightarrow> distinct ws \<and> set ws = inq e \<union> set (vec_of (subs e) cid)"
    using enqueue_all_eq [of e3 "vec_of (subs e) cid"] unfolding sel by blast
  show ?thesis
    by (rule exI [of _ ws], rule exI [of _ "anyobj_why e3"], rule exI [of _ "anyobj_first e3"])
      (use ws in \<open>simp add: rg sel, subst e3, simp\<close>)
qed

lemma cells_ok_upd:
  assumes "cells_ok e" "cells e' = (cells e)[cid := c]" "c_key c = c_key (cells e ! cid)" "cell_ids e' = cell_ids e"
  shows "cells_ok e'"
proof -
  have "i < length (cells e) \<Longrightarrow> c_key (cells e' ! i) = c_key (cells e ! i)" for i
    using assms(2,3) by (cases "i = cid") auto
  then show ?thesis using assms unfolding cells_ok_def by auto
qed

lemma record_growth_inv:
  fixes wa :: bool and con :: ConId
  assumes "engine_inv R e" "cid < length (cells e)" "ts_ok joined" "obj_classes (abs_labels e) (t_obj joined) \<subseteq> R"
  defines "e' \<equiv> record_growth e cid joined wa con"
  shows "engine_inv R e'" "free_roots R e' = free_roots R e" "region_parent e' = region_parent e"
    "c_ts (cells e' ! cid) = joined" "same_static e e'" "inq e' = inq e \<union> set (vec_of (subs e) cid)"
    "links e' = links e" "link_set e' = link_set e" "cell_ids e' = cell_ids e"
    "cells e' = (cells e)[cid := \<lparr>c_key = c_key (cells e ! cid), c_ts = joined, c_changes = c_changes (cells e ! cid) + 1\<rparr>]"
proof -
  obtain ws why first where eq: "e' =
     e\<lparr>cells := (cells e)[cid := \<lparr>c_key = c_key (cells e ! cid), c_ts = joined, c_changes = c_changes (cells e ! cid) + 1\<rparr>],
       anyobj_why := why, anyobj_first := first, n_raises := n_raises e + 1,
       inq := inq e \<union> set (vec_of (subs e) cid), worklist := ws\<rparr>"
     "distinct (worklist e) \<and> inq e = set (worklist e) \<longrightarrow> distinct ws \<and> set ws = inq e \<union> set (vec_of (subs e) cid)"
    unfolding e'_def using record_growth_eq [of e cid joined wa con] by blast
  have ok: "engine_ok e" by (rule engine_invD(1) [OF assms(1)])
  show cs: "cells e' = (cells e)[cid := \<lparr>c_key = c_key (cells e ! cid), c_ts = joined, c_changes = c_changes (cells e ! cid) + 1\<rparr>]"
    and rp: "region_parent e' = region_parent e" and "same_static e e'" "links e' = links e" "link_set e' = link_set e"
    "cell_ids e' = cell_ids e" "inq e' = inq e \<union> set (vec_of (subs e) cid)"
    by (simp_all add: eq(1) same_static_def)
  show fr: "free_roots R e' = free_roots R e" by (simp add: free_roots_def rp)
  show "c_ts (cells e' ! cid) = joined" using assms(2) by (simp add: cs)
  have "cells_ok e'" by (rule cells_ok_upd [OF engine_okD(1) [OF ok] cs]) (simp_all add: eq(1))
  moreover have "\<forall>c\<in>set (cells e'). ts_ok (c_ts c)"
    using ok assms(3) by (auto simp: cs engine_ok_def dest!: subsetD [OF set_update_subset_insert])
  ultimately have ok': "engine_ok e'"
    by (rule engine_ok_cells [OF ok]) (use eq ok in \<open>auto simp: engine_ok_def\<close>)
  have "\<forall>c\<in>set (cells e'). obj_classes (abs_labels e) (t_obj (c_ts c)) \<subseteq> R"
    using engine_invD(2) [OF assms(1)] assms(4)
    by (auto simp: cs in_scope_def dest!: subsetD [OF set_update_subset_insert])
  then have "in_scope R e'" using engine_invD(2) [OF assms(1)] by (simp add: in_scope_def eq(1))
  moreover have "has_room R e'" using engine_invD(3) [OF assms(1)] fr by (simp add: has_room_def cs)
  ultimately show "engine_inv R e'" using ok' by (simp add: engine_inv_def)
qed

text \<open>The growth recorded at the end of a join counts from the state the raise started in.\<close>

lemma record_growth_grows:
  assumes "grows e e1" "engine_inv R e1" "cid < length (cells e)" "ts_ok joined" "obj_classes (abs_labels e1) (t_obj joined) \<subseteq> R"
    "ev_le e1 (c_ts (cells e ! cid)) joined" "joined \<noteq> c_ts (cells e ! cid) \<longrightarrow> pot e (c_ts (cells e ! cid)) < pot e1 joined"
  shows "grows e (record_growth e1 cid joined wa con)"
proof -
  let ?e2 = "record_growth e1 cid joined wa con"
  have len: "cid < length (cells e1)" using assms(3) growsD(1) [OF assms(1)] by simp
  note r = record_growth_inv [OF assms(2) len assms(4,5), of wa con]
  have subs: "subs e1 = subs e" by (rule same_staticD(3) [OF growsD(5) [OF assms(1)]])
  note same = same_regions [OF r(3) same_staticD(4) [OF r(5)]]
  have "cell_grows e ?e2 i" if i: "i < length (cells e)" for i
  proof (cases "i = cid")
    case True
    then show ?thesis
      using assms(6,7) growsD(2) [OF assms(1) i] len by (auto simp: cell_grows_def r(6,10) subs same)
  next
    case False
    then show ?thesis using growsD(2) [OF assms(1) i] by (auto simp: cell_grows_def r(3,6,10) same)
  qed
  moreover have "length (cells e) \<le> length (cells ?e2)" using growsD(1) [OF assms(1)] by (simp add: r(10))
  moreover have "inq e \<subseteq> inq ?e2" "link_set e \<subseteq> link_set ?e2"
    using growsD(3,4) [OF assms(1)] by (auto simp: r(6,8))
  ultimately show ?thesis
    unfolding grows_def
    using same_static_trans [OF growsD(5) [OF assms(1)] r(5)] regions_merge_trans [OF growsD(7) [OF assms(1)] regions_merge_same [OF r(3)]] by blast
qed

lemma raise_links_post:
  assumes "\<And>e' d. raise_post R e e' \<Longrightarrow> d < length (cells e') \<Longrightarrow> \<exists>e''. rz e' d v why = Some e'' \<and> raise_post R e' e''"
    "raise_post R e e1" "\<forall>d\<in>set ds. d < length (cells e1)"
  shows "\<exists>e2. raise_links rz ds v why e1 = Some e2 \<and> raise_post R e1 e2"
  using assms(2,3)
proof (induction ds arbitrary: e1)
  case Nil
  then show ?case using raise_post_refl by (auto simp: raise_post_def)
next
  case (Cons d ds)
  from assms(1) [OF Cons.prems(1), of d] Cons.prems(2) obtain e2 where
    e2: "rz e1 d v why = Some e2" "raise_post R e1 e2" by auto
  have "length (cells e1) \<le> length (cells e2)" using e2(2) by (auto simp: raise_post_def dest: growsD(1))
  with Cons.prems(2) have "\<forall>d\<in>set ds. d < length (cells e2)" by auto
  from Cons.IH [OF raise_post_trans [OF Cons.prems(1) e2(2)] this] obtain e3 where
    "raise_links rz ds v why e2 = Some e3" "raise_post R e2 e3" by blast
  with e2 show ?case using raise_post_trans by fastforce
qed

definition raise_measure :: "ClassId set \<Rightarrow> Engine \<Rightarrow> TypeSet \<Rightarrow> nat \<times> nat \<times> nat" where
  "raise_measure R e ts = (free_roots R e, slack e, if root_stable e (t_obj ts) then 0 else 1)"

definition raise_pre :: "ClassId set \<Rightarrow> Engine \<Rightarrow> CellId \<Rightarrow> TypeSet \<Rightarrow> bool" where
  "raise_pre R e cid ts \<longleftrightarrow> engine_inv R e \<and> cid < length (cells e) \<and> ts_ok ts \<and>
     obj_classes (abs_labels e) (t_obj ts) \<subseteq> R"

definition raise_result :: "ClassId set \<Rightarrow> Engine \<Rightarrow> CellId \<Rightarrow> TypeSet \<Rightarrow> Engine \<Rightarrow> bool" where
  "raise_result R e cid ts e' \<longleftrightarrow> raise_post R e e' \<and>
     (if no_growth e (c_ts (cells e ! cid)) ts = Some True
      then e' = e \<and> ev_le e (ts\<lparr>t_unknown := False\<rparr>) (c_ts (cells e ! cid)) else ev_le e' ts (c_ts (cells e' ! cid)))"

lemma obj_weight_cong:
  "region_parent e' = region_parent e \<Longrightarrow> abs_labels e' = abs_labels e \<Longrightarrow> obj_weight e' ob = obj_weight e ob"
  by (simp add: obj_weight_def split: ObjType.splits)

lemma ts_weight_cong:
  "region_parent e' = region_parent e \<Longrightarrow> abs_labels e' = abs_labels e \<Longrightarrow> ts_weight e' t = ts_weight e t"
  by (simp add: ts_weight_def obj_weight_cong [of e' e])

lemma root_stable_cong:
  "region_parent e' = region_parent e \<Longrightarrow> array_classes e' = array_classes e \<Longrightarrow> root_stable e' ob = root_stable e ob"
  by (simp add: root_stable_def split: ObjType.splits)

lemma slack_sink [simp]: "slack (e\<lparr>join_sink := s\<rparr>) = slack e"
  by (simp add: slack_def ts_weight_cong [of "e\<lparr>join_sink := s\<rparr>" e])

lemma weight_slack:
  assumes "cid < length (cells e)" "ts_ok joined" "cells e' = (cells e)[cid := c]" "c_ts c = joined"
    "region_parent e' = region_parent e" "abs_labels e' = abs_labels e"
  shows "ts_weight e (c_ts (cells e ! cid)) < ts_weight e joined \<Longrightarrow> slack e' < slack e"
    "joined = c_ts (cells e ! cid) \<Longrightarrow> slack e' = slack e"
proof -
  have sum: "slack e' + (115 - ts_weight e (c_ts (cells e ! cid))) = slack e + (115 - ts_weight e joined)"
    using sum_map_upd [OF assms(1), of "\<lambda>c. 115 - ts_weight e (c_ts c)" c] assms(3,4)
    by (simp add: slack_def ts_weight_cong [OF assms(5,6)])
  have "ts_weight e joined \<le> 115" by (rule ts_weight_bound [OF assms(2)])
  then show "ts_weight e (c_ts (cells e ! cid)) < ts_weight e joined \<Longrightarrow> slack e' < slack e" using sum by linarith
  show "joined = c_ts (cells e ! cid) \<Longrightarrow> slack e' = slack e" using sum by simp
qed

text \<open>What a join that reported growth is known to have done, read from the state it started in.\<close>

definition join_progress :: "ClassId set \<Rightarrow> Engine \<Rightarrow> TypeSet \<Rightarrow> TypeSet \<Rightarrow> TypeSet \<Rightarrow> bool \<Rightarrow> Engine \<Rightarrow> bool" where
  "join_progress R e cur ts joined changed e1 \<longleftrightarrow> free_roots R e1 < free_roots R e \<or>
     ((\<exists>s. e1 = e\<lparr>join_sink := s\<rparr>) \<and> (joined \<noteq> cur \<longrightarrow> ts_weight e cur < ts_weight e joined) \<and>
      (changed \<and> joined = cur \<longrightarrow> root_stable e (t_obj cur) \<and> \<not> root_stable e (t_obj ts)))"

lemma growth_progress:
  fixes wa :: bool and con :: ConId and why ts e'
  assumes "engine_inv R e" "cid < length (cells e)" "ts_ok joined" "grows e e1" "engine_inv R e1"
    "obj_classes (abs_labels e1) (t_obj joined) \<subseteq> R" "ev_le e1 (c_ts (cells e ! cid)) joined"
    "joined \<noteq> c_ts (cells e ! cid) \<longrightarrow> pot e (c_ts (cells e ! cid)) < pot e1 joined" "join_progress R e (c_ts (cells e ! cid)) ts joined True e1"
  defines "e2 \<equiv> record_growth e1 cid joined wa con"
  shows "raise_post R e e2"
    "raise_post R e2 e' \<Longrightarrow> (raise_measure R e' joined, raise_measure R e ts) \<in> less_than <*lex*> less_than <*lex*> less_than"
proof -
  let ?cur = "c_ts (cells e ! cid)"
  have cid1: "cid < length (cells e1)" using assms(2) growsD(1) [OF assms(4)] by simp
  note r = record_growth_inv [OF assms(5) cid1 assms(3,6), of wa con, folded e2_def]
  have g2: "grows e e2" unfolding e2_def by (rule record_growth_grows [OF assms(4,5,2,3,6,7,8)])
  note st = growsD(5) [OF g2]
  have same: "region_parent e2 = region_parent e \<and> (joined \<noteq> ?cur \<longrightarrow> slack e2 < slack e) \<and>
      (joined = ?cur \<longrightarrow> slack e2 = slack e \<and> root_stable e (t_obj ?cur) \<and> \<not> root_stable e (t_obj ts))"
    if "\<not> free_roots R e1 < free_roots R e"
  proof -
    from that assms(9) obtain s where s: "e1 = e\<lparr>join_sink := s\<rparr>"
      and w: "joined \<noteq> ?cur \<Longrightarrow> ts_weight e ?cur < ts_weight e joined"
      and st: "joined = ?cur \<Longrightarrow> root_stable e (t_obj ?cur) \<and> \<not> root_stable e (t_obj ts)"
      by (auto simp: join_progress_def)
    have rp: "region_parent e2 = region_parent e" using r(3) by (simp add: s)
    have cs: "cells e2 = (cells e)[cid := \<lparr>c_key = c_key (cells e ! cid), c_ts = joined, c_changes = c_changes (cells e ! cid) + 1\<rparr>]"
      using r(10) by (simp add: s)
    note sl = weight_slack [OF assms(2,3) cs _ rp same_staticD(4) [OF \<open>same_static e e2\<close>]]
    show ?thesis using rp sl w st by simp
  qed
  have le: "free_roots R e2 \<le> free_roots R e" "free_roots R e2 = free_roots R e1"
    using r(2) assms(9) by (auto simp: join_progress_def)
  then show "raise_post R e e2" using g2 r(1) same unfolding raise_post_def by fastforce
  assume p: "raise_post R e2 e'"
  show "(raise_measure R e' joined, raise_measure R e ts) \<in> less_than <*lex*> less_than <*lex*> less_than"
  proof (cases "free_roots R e' < free_roots R e")
    case False
    with p le have eq: "free_roots R e' = free_roots R e" "free_roots R e1 = free_roots R e" by (auto simp: raise_post_def)
    with p le have "slack e' \<le> slack e2" "region_parent e' = region_parent e2" by (auto simp: raise_post_def)
    moreover have "array_classes e' = array_classes e"
      using p same_staticD(5) [OF st] same_staticD(5) [OF growsD(5), of e2 e'] by (simp add: raise_post_def)
    ultimately show ?thesis
      using same eq root_stable_cong [of e' e "t_obj joined"] by (cases "joined = ?cur") (auto simp: raise_measure_def)
  qed (simp add: raise_measure_def)
qed

text \<open>One raise, given raises from every smaller state.\<close>

lemma raise_step:
  assumes pre: "raise_pre R e cid ts"
    and IH: "\<And>e1 cid1 ts1 why1. (raise_measure R e1 ts1, raise_measure R e ts) \<in> less_than <*lex*> less_than <*lex*> less_than \<Longrightarrow>
      raise_pre R e1 cid1 ts1 \<Longrightarrow> \<exists>e'. rz e1 cid1 ts1 why1 = Some e' \<and> raise_post R e1 e'"
  shows "\<exists>e'. raise_body rz e cid ts why = Some e' \<and> raise_result R e cid ts e'"
proof -
  have inv: "engine_inv R e" and cid: "cid < length (cells e)" and tok: "ts_ok ts"
    and tcl: "obj_classes (abs_labels e) (t_obj ts) \<subseteq> R" using pre by (auto simp: raise_pre_def)
  note ok = engine_invD(1) [OF inv]
  let ?cur = "c_ts (cells e ! cid)"
  have cur: "cell_ts e cid = Some ?cur" "ts_ok ?cur" "obj_classes (abs_labels e) (t_obj ?cur) \<subseteq> R"
    using cid engine_okD(4) [OF ok cid] cell_ts_scope [OF engine_invD(2) [OF inv] cid] by (auto simp: cell_ts_def)
  obtain sk where sk: "no_growth e ?cur ts = Some sk"
    by (simp add: no_growth_def array_region_of_eq [OF engine_invD(4) [OF inv]])
  show ?thesis
  proof (cases sk)
    case True
    with sk have "ev_le e (ts\<lparr>t_unknown := False\<rparr>) ?cur" using no_growth_le [OF cur(2)] by simp
    with True sk cur(1) show ?thesis using raise_post_refl [OF inv] by (simp add: raise_body_def raise_result_def)
  next
    case False
    have good: "raiser_good R (free_roots R e) rz"
      unfolding raiser_good_def using IH by (auto simp: raise_measure_def raise_pre_def)
    from join_ts_post [OF inv cur(2) tok cur(3) tcl good] obtain e1 joined changed where
      jt: "join_ts rz e ?cur ts = Some (e1, joined, changed)" and g1: "grows e e1" and i1: "engine_inv R e1"
      and j: "ts_ok joined" "obj_classes (abs_labels e) (t_obj joined) \<subseteq> R" "ev_le e1 ?cur joined" "ev_le e1 ts joined"
        "joined \<noteq> ?cur \<longrightarrow> pot e ?cur < pot e1 joined" "\<not> changed \<longrightarrow> joined = ?cur"
      and prog: "join_progress R e ?cur ts joined changed e1" unfolding join_progress_def by blast
    have p1: "raise_post R e e1" using prog g1 i1 by (auto simp: raise_post_def join_progress_def)
    show ?thesis
    proof (cases changed)
      case unch: False
      have "ev_le e1 ts (c_ts (cells e1 ! cid))"
        using j(4,6) unch growsD(2) [OF g1 cid] by (auto simp: cell_grows_def intro: ev_le_trans)
      with p1 unch sk False cur(1) jt show ?thesis by (simp add: raise_body_def raise_result_def)
    next
      case ch: True
      define e2 where "e2 = record_growth e1 cid joined (t_obj ?cur = AnyObject) (fst why)"
      have cid1: "cid < length (cells e1)" using cid growsD(1) [OF g1] by simp
      have lab1: "abs_labels e1 = abs_labels e" by (rule same_staticD(4) [OF growsD(5) [OF g1]])
      have cl1: "obj_classes (abs_labels e1) (t_obj joined) \<subseteq> R" using j(2) lab1 by simp
      note r = record_growth_inv [OF i1 cid1 j(1) cl1, of "t_obj ?cur = AnyObject" "fst why", folded e2_def]
      have p02: "raise_post R e e2" and small: "\<And>e'. raise_post R e2 e' \<Longrightarrow>
          (raise_measure R e' joined, raise_measure R e ts) \<in> less_than <*lex*> less_than <*lex*> less_than"
        unfolding e2_def by (rule growth_progress [OF inv cid j(1) g1 i1 cl1 j(3)]; use j(5) prog ch in simp)+
      have lab2: "abs_labels e2 = abs_labels e" using p02 by (auto simp: raise_post_def dest!: growsD(5) same_staticD(4))
      have p2: "raise_post R e2 e2" by (rule raise_post_refl [OF r(1)])
      have "\<exists>e3. raise_links rz (vec_of (links e2) cid) joined why e2 = Some e3 \<and> raise_post R e2 e3"
      proof (rule raise_links_post [OF _ p2])
        fix e' d
        assume p: "raise_post R e2 e'" and d: "d < length (cells e')"
        have "abs_labels e' = abs_labels e" using p lab2 by (auto simp: raise_post_def dest!: growsD(5) same_staticD(4))
        with p d j(1,2) have "raise_pre R e' d joined" by (simp add: raise_pre_def raise_post_def)
        from IH [OF small [OF p] this] show "\<exists>e''. rz e' d joined why = Some e'' \<and> raise_post R e' e''" .
      next
        show "\<forall>d\<in>set (vec_of (links e2) cid). d < length (cells e2)" using engine_okD(6) [OF engine_invD(1) [OF r(1)]] by blast
      qed
      then obtain e3 where e3: "raise_links rz (vec_of (links e2) cid) joined why e2 = Some e3" "raise_post R e2 e3" by blast
      have "cid < length (cells e2)" using cid1 by (simp add: r(10))
      moreover have g23: "grows e2 e3" using e3(2) by (simp add: raise_post_def)
      have "ev_le e2 ts joined" using j(4) same_regions(2) [OF r(3) same_staticD(4) [OF r(5)]] by simp
      then have "ev_le e3 ts joined" using growsD(5,7) [OF g23] by (blast intro: ev_le_merge)
      ultimately have "ev_le e3 ts (c_ts (cells e3 ! cid))"
        using growsD(2) [OF g23, of cid] r(4) by (auto simp: cell_grows_def intro: ev_le_trans)
      then show ?thesis
        using raise_post_trans [OF p02 e3(2)] e3(1) False ch sk cur(1) jt
        by (simp add: raise_body_def raise_result_def e2_def)
    qed
  qed
qed

lemma raise_total:
  assumes "raise_pre R e cid ts"
  shows "\<exists>e'. raise e cid ts why = Some e' \<and> raise_result R e cid ts e'"
  using assms
proof (induction "raise_measure R e ts" arbitrary: e cid ts why
    rule: wf_induct_rule [OF wf_lex_prod [OF wf_less_than wf_lex_prod [OF wf_less_than wf_less_than]]])
  case 1
  show ?case
    by (subst raise.simps, rule raise_step [OF 1(2)]) (use 1(1) in \<open>unfold raise_result_def, blast\<close>)
qed

section \<open>Example engines\<close>

definition demo_cell :: "CellKey \<Rightarrow> Cell" where
  "demo_cell k = \<lparr>c_key = k, c_ts = ts_default, c_changes = 0\<rparr>"

definition demo_engine :: Engine where
  "demo_engine = engine_default\<lparr>cells := [demo_cell (KGName 0), demo_cell (KGName 1)],
     cell_ids := [KGName 0 \<mapsto> 0, KGName 1 \<mapsto> 1], subs := [0 \<mapsto> [(5, 0)]], sub_set := {(0, 5, 0)}\<rparr>"

lemma demo_engine_inv: "engine_inv {} demo_engine"
proof -
  have dt: "ts_ok ts_default" by (simp add: ts_ok_def ts_default_def fnset_ok_def fnset_default_def)
  have "cells_ok demo_engine"
    by (auto simp: cells_ok_def demo_engine_def demo_cell_def nth_Cons' engine_default_def)
  moreover have "regions_ok demo_engine"
    using engine_default_ok by (simp add: demo_engine_def engine_ok_def regions_ok_def members_ok_def)
  ultimately have "engine_ok demo_engine" using dt
    by (auto simp: engine_ok_def demo_engine_def demo_cell_def engine_default_def vec_of_def)
  then show ?thesis
    by (simp add: engine_inv_def in_scope_def has_room_def free_roots_def demo_engine_def demo_cell_def
        engine_default_def class_of_def obj_classes_def ts_default_def)
qed

text \<open>A cell that held the result of string concatenation, and the claim that survives.\<close>

definition concat_ts :: TypeSet where
  "concat_ts = ts_prim_interval PRIM_STRING Top
     (arith_interval Add IAny None (Some IAny) None)"

definition concat_engine :: Engine where
  "concat_engine = engine_default\<lparr>cells := [\<lparr>c_key = KGName 0, c_ts = concat_ts, c_changes = 1\<rparr>],
     cell_ids := [KGName 0 \<mapsto> 0]\<rparr>"

text \<open>Two array populations, each with an element view, and the raises that merge them.\<close>

definition class_label :: "ClassId \<Rightarrow> bool \<Rightarrow> AbsLabels" where
  "class_label c arr = \<lparr>lbl_class = Some c, lbl_snap = False, lbl_array = arr\<rparr>"

definition array_engine :: Engine where
  "array_engine = engine_default\<lparr>abs_labels := [class_label 1 True, class_label 2 True], array_classes := {1, 2},
     elems_name := Some 9\<rparr>"

definition lost_update_run :: "Engine option" where
  "lost_update_run = do {
     (e1, v1) \<leftarrow> cell array_engine (KClassView 1 9);
     (e2, v2) \<leftarrow> cell e1 (KClassView 2 9);
     e3 \<leftarrow> raise e2 v2 (ts_prim PRIM_STRING) (0, 0);
     e4 \<leftarrow> raise e3 v1 (ts_obj_one 0) (0, 0);
     raise e4 v1 (ts_obj_one 1) (0, 0) }"

definition region_engine :: Engine where
  "region_engine = engine_default\<lparr>cells := [\<lparr>c_key = KGName 0, c_ts = ts_default\<lparr>t_obj := AnyOf 1\<rparr>, c_changes = 1\<rparr>],
     cell_ids := [KGName 0 \<mapsto> 0], abs_labels := [class_label 1 False]\<rparr>"

lemma raise_good: "raiser_good R n raise"
  unfolding raiser_good_def
proof (intro allI impI)
  fix e cid ts why
  assume "engine_inv R e \<and> cid < length (cells e) \<and> ts_ok ts \<and> obj_classes (abs_labels e) (t_obj ts) \<subseteq> R \<and> free_roots R e < n"
  then have "raise_pre R e cid ts" by (simp add: raise_pre_def)
  from raise_total [OF this] show "\<exists>e'. raise e cid ts why = Some e' \<and> raise_post R e e'"
    unfolding raise_result_def by blast
qed

lemma free_roots_le: "finite R \<Longrightarrow> free_roots R e \<le> card R"
  unfolding free_roots_def by (rule card_mono) auto

lemma ts_upd_obj_one:
  assumes "ts_ok cur"
  shows "ts_upd meta cur (ts_obj_one a) = cur\<lparr>t_obj := join_obj (t_obj cur) (One a) meta\<rparr>"
proof -
  have "fnset_ok (t_fns cur)" using assms by (simp add: ts_ok_def)
  then show ?thesis
    by (cases cur) (simp add: join_from_eq(2) ts_obj_one_def ts_default_def fnset_upd_eq fnset_default_def max_absorb1)
qed

text \<open>A string of unknown origin or any object at all.\<close>

definition demo_evidence :: TypeSet where
  "demo_evidence = (ts_prim PRIM_STRING)\<lparr>t_obj := AnyObject, t_unknown := True\<rparr>"

lemma demo_evidence_ok:
  "ts_ok demo_evidence" "obj_classes (abs_labels demo_engine) (t_obj demo_evidence) \<subseteq> {}"
  "no_growth demo_engine (c_ts (cells demo_engine ! 0)) demo_evidence \<noteq> Some True"
  by (simp_all add: ts_ok_def demo_evidence_def ts_prim_def ts_default_def fnset_ok_def fnset_default_def prims_interval_def obj_classes_def
      demo_engine_def demo_cell_def no_growth_def array_region_of_def)

section \<open>Properties\<close>

text \<open>C1. A raise always ends, whatever cascade of links and region merges it sets off, and leaves a
  well-formed engine. The evidence is delivered in full, object part and unresolved flag included, except that the fast path
  drops the flag of evidence that has nothing else to add, leaving the engine alone; and no cell loses anything: every cell keeps its key and
  holds at least the evidence it held, objects up to the merged regions. The hypothesis asks for a well-formed engine whose
  classes lie in a finite scope with room for the cells that merges may create.\<close>

theorem raise_terminates_and_delivers:
  assumes "engine_inv R e" "cid < length (cells e)" "ts_ok ts" "obj_classes (abs_labels e) (t_obj ts) \<subseteq> R"
  shows "\<exists>e'. raise e cid ts why = Some e' \<and> engine_inv R e' \<and>
    (if no_growth e (c_ts (cells e ! cid)) ts = Some True
     then e' = e \<and> ev_le e (ts\<lparr>t_unknown := False\<rparr>) (c_ts (cells e ! cid)) else ev_le e' ts (c_ts (cells e' ! cid))) \<and>
    (\<forall>i<length (cells e). c_key (cells e' ! i) = c_key (cells e ! i) \<and> ev_le e' (c_ts (cells e ! i)) (c_ts (cells e' ! i)))"
proof -
  from raise_total [of R e cid ts why] assms obtain e' where e': "raise e cid ts why = Some e'" "raise_result R e cid ts e'"
    by (auto simp: raise_pre_def)
  then have "grows e e'" by (simp add: raise_result_def raise_post_def)
  then have "\<forall>i<length (cells e). c_key (cells e' ! i) = c_key (cells e ! i) \<and> ev_le e' (c_ts (cells e ! i)) (c_ts (cells e' ! i))"
    by (auto simp: cell_grows_def dest: growsD(2))
  with e' show ?thesis unfolding raise_result_def raise_post_def by blast
qed

theorem raise_terminates_and_delivers_witness:
  "\<exists>e'. raise demo_engine 0 demo_evidence (7, 0) = Some e' \<and> intersects (t_prims (c_ts (cells e' ! 0))) PRIM_STRING \<and>
     t_obj (c_ts (cells e' ! 0)) = AnyObject \<and> t_unknown (c_ts (cells e' ! 0))"
proof -
  from raise_terminates_and_delivers [OF demo_engine_inv, of 0 demo_evidence "(7, 0)"] demo_evidence_ok obtain e' where
    "raise demo_engine 0 demo_evidence (7, 0) = Some e'" "ev_le e' demo_evidence (c_ts (cells e' ! 0))"
    by (auto simp: demo_engine_def)
  then show ?thesis
    by (auto simp: ev_le_def dims_le_def obj_le_def demo_evidence_def ts_prim_def ts_default_def subset_of_classes intersects_classes)
qed

text \<open>C2. A raise that changes the typeset of any cell leaves every constraint subscribed to that cell
  in the worklist, which holds each pair once, and drops nothing that was queued before.\<close>

theorem raise_requeues_readers:
  assumes "engine_inv R e" "cid < length (cells e)" "ts_ok ts" "obj_classes (abs_labels e) (t_obj ts) \<subseteq> R"
  shows "\<exists>e'. raise e cid ts why = Some e' \<and> distinct (worklist e') \<and> set (worklist e) \<subseteq> set (worklist e') \<and>
    (\<forall>i<length (cells e). c_ts (cells e' ! i) \<noteq> c_ts (cells e ! i) \<longrightarrow> set (vec_of (subs e) i) \<subseteq> set (worklist e'))"
proof -
  from raise_total [of R e cid ts why] assms obtain e' where e': "raise e cid ts why = Some e'" "raise_result R e cid ts e'"
    by (auto simp: raise_pre_def)
  then have g: "grows e e'" and ok: "engine_ok e'" by (auto simp: raise_result_def raise_post_def engine_inv_def)
  have q: "inq e' = set (worklist e')" "distinct (worklist e')" "inq e = set (worklist e)"
    using ok engine_invD(1) [OF assms(1)] by (auto simp: engine_ok_def)
  show ?thesis using e'(1) q growsD(2,3) [OF g] by (auto simp: cell_grows_def)
qed

theorem raise_requeues_readers_witness:
  "\<exists>e'. raise demo_engine 0 demo_evidence (7, 0) = Some e' \<and> (5, 0) \<in> set (worklist e')"
proof -
  from raise_requeues_readers [OF demo_engine_inv _ demo_evidence_ok(1,2), of 0 "(7, 0)"] obtain e' where
    e': "raise demo_engine 0 demo_evidence (7, 0) = Some e'"
      "c_ts (cells e' ! 0) \<noteq> c_ts (cells demo_engine ! 0) \<longrightarrow> set (vec_of (subs demo_engine) 0) \<subseteq> set (worklist e')"
    by (auto simp: demo_engine_def)
  from raise_total [of "{}" demo_engine 0 demo_evidence "(7, 0)"] e'(1) demo_evidence_ok demo_engine_inv
  have "ev_le e' demo_evidence (c_ts (cells e' ! 0))"
    by (auto simp: raise_pre_def raise_result_def demo_engine_def)
  then have "c_ts (cells e' ! 0) \<noteq> ts_default"
    by (auto simp: ev_le_def demo_evidence_def ts_default_def)
  with e' show ?thesis by (auto simp: demo_engine_def demo_cell_def vec_of_def)
qed

text \<open>The roots after a merge of two regions.\<close>

definition merged_root :: "Engine \<Rightarrow> ClassId \<Rightarrow> ClassId \<Rightarrow> ClassId \<Rightarrow> ClassId option" where
  "merged_root e rc rd x = (if region_root e x = Some (max rc rd) then Some (min rc rd) else region_root e x)"

lemma region_root_merge:
  assumes "engine_inv R e" "region_parent e rc = None" "region_parent e rd = None" "rc \<noteq> rd"
  shows "region_root (merge_regions e (min rc rd) (max rc rd)) = merged_root e rc rd"
proof
  fix x
  have w: "region_parent e (min rc rd) = None" "region_parent e (max rc rd) = None" "min rc rd < max rc rd"
    using assms(2-4) by (auto simp: min_def max_def)
  note ok = engine_invD(4) [OF assms(1)]
  note rr = root_of(1) [OF ok] root_of(1) [OF parents_ok_merge [OF ok w(3)]]
  show "region_root (merge_regions e (min rc rd) (max rc rd)) x = merged_root e rc rd x"
    by (simp add: merged_root_def region_root_def rr root_of_merge [OF ok w])
qed

lemma cell_fresh:
  assumes "cell e k = Some (e', i)" "\<not> ts_is_empty (c_ts (cells e' ! i))"
  shows "e' = e" "lookup_cell e k = Some i"
  using assms by (auto simp: cell_def lookup_cell_def ts_is_empty_def ts_default_def fnset_default_def fnset_is_empty_def prims_is_empty_classes
      split: option.splits if_splits)

text \<open>Linking the view of the losing class into the winner's moves a region only through the raise of the loser's elements.\<close>

lemma link_views:
  assumes ok: "cells_ok e1" and c2: "cell e1 kl = Some (e2, i)" and c3: "cell e2 kw = Some (e3, j)" and l: "link raise e3 i j = Some e'"
  shows "region_root e' = region_root e1 \<or>
    (lookup_cell e1 kl = Some i \<and> \<not> ts_is_empty (c_ts (cells e1 ! i)) \<and>
     (\<exists>e3. region_root e3 = region_root e1 \<and> cell_key_at e3 j = Some kw \<and> raise e3 j (c_ts (cells e1 ! i)) (SEED, CTX0) = Some e'))"
proof -
  have ok2: "cells_ok e2" by (rule cell_table.intern_ok [OF ok c2])
  note new2 = cell_cases [OF ok c2] and new3 = cell_cases [OF ok2 c3]
  have par: "region_root e3 = region_root e1" using new2(2) new3(2) by (auto simp: region_root_def fun_eq_iff)
  have key: "cell_key_at e3 j = Some kw" by (rule cell_table.intern_roundtrip [OF ok2 c3])
  have at: "cells e3 ! i = cells e2 ! i" "i < length (cells e3)" using new2(1) new3(2) by (auto simp: nth_append)
  show ?thesis
  proof (cases "i = j \<or> (i, j) \<in> link_set e3 \<or> ts_is_empty (c_ts (cells e2 ! i))")
    case True
    then have "region_parent e' = region_parent e3" using l at by (auto simp: link_def cell_ts_def Let_def split: if_splits)
    then have "region_root e' = region_root e3" unfolding region_root_def [abs_def] by simp
    with par show ?thesis by simp
  next
    case f: False
    then have old: "e2 = e1" "lookup_cell e1 kl = Some i" using cell_fresh [OF c2] by auto
    let ?e3 = "e3\<lparr>link_set := insert (i, j) (link_set e3), links := (links e3)(i \<mapsto> vec_of (links e3) i @ [j])\<rparr>"
    have "raise ?e3 j (c_ts (cells e1 ! i)) (SEED, CTX0) = Some e'" using l f at old by (simp add: link_def cell_ts_def Let_def)
    moreover have "region_root ?e3 = region_root e1" using par by (simp add: region_root_def fun_eq_iff)
    moreover have "cell_key_at ?e3 j = Some kw" using key by (simp add: cell_key_at_def split: if_splits)
    ultimately show ?thesis using f old by blast
  qed
qed

lemma union_regions_moves:
  fixes c d :: ClassId
  assumes "engine_inv R e" "c \<in> R" "d \<in> R" "union_regions raise e c d = Some (e', r)"
  defines "rc \<equiv> root_of (region_parent e) c" and "rd \<equiv> root_of (region_parent e) d"
  shows "region_root e' = merged_root e rc rd \<or>
    (\<exists>en i j e3. elems_name e = Some en \<and> lookup_cell e (KClassView (max rc rd) en) = Some i \<and> \<not> ts_is_empty (c_ts (cells e ! i)) \<and>
       region_root e3 = merged_root e rc rd \<and> cell_key_at e3 j = Some (KClassView (min rc rd) en) \<and>
       raise e3 j (c_ts (cells e ! i)) (SEED, CTX0) = Some e')"
proof -
  note ok = engine_invD(4) [OF assms(1)] and reg = engine_okD(2) [OF engine_invD(1) [OF assms(1)]]
  have roots: "region_parent e rc = None" "region_parent e rd = None" unfolding rc_def rd_def by (rule root_of(2) [OF ok])+
  note eq = assms(4) [unfolded union_regions_eq [OF reg] rc_def [symmetric] rd_def [symmetric]]
  define e1 where "e1 = merge_regions e (min rc rd) (max rc rd)"
  have cok: "cells_ok e1" using engine_okD(1) [OF engine_invD(1) [OF assms(1)]] by (simp add: e1_def cells_ok_def)
  have sel: "lookup_cell e1 k = lookup_cell e k" "cells e1 = cells e" for k by (simp_all add: lookup_cell_def e1_def)
  show ?thesis
  proof (cases "rc = rd")
    case True
    then show ?thesis using eq by (auto simp: merged_root_def fun_eq_iff)
  next
    case False
    then have m: "region_root e1 = merged_root e rc rd" unfolding e1_def by (rule region_root_merge [OF assms(1) roots])
    show ?thesis
    proof (cases "elems_name e")
      case None
      then have "e' = e1" using eq False unfolding e1_def by (simp add: Let_def) blast
      with m show ?thesis by simp
    next
      case (Some en)
      from eq Some False obtain e2 i e3 j where "cell e1 (KClassView (max rc rd) en) = Some (e2, i)"
        "cell e2 (KClassView (min rc rd) en) = Some (e3, j)" "link raise e3 i j = Some e'"
        by (auto simp: Let_def e1_def bind_eq_Some_conv)
      from link_views [OF cok this] Some show ?thesis unfolding sel m by blast
    qed
  qed
qed

text \<open>C3. Merging the regions of two classes ends, returns the smaller of their roots, puts them in one
  region and separates no classes that were together; afterwards every root's member list holds
  exactly the classes that resolve to it. The merge moves the classes of the losing region to the winner and no other class: any other
  move comes from the raise that carries the elements of the losing class into the winner's element view, so there is none
  when the losing class has no elements.\<close>

theorem union_regions_merges:
  assumes "engine_inv R e" "c \<in> R" "d \<in> R"
  shows "\<exists>e' r rc rd. union_regions raise e c d = Some (e', r) \<and> region_root e c = Some rc \<and> region_root e d = Some rd \<and>
    r = min rc rd \<and> engine_inv R e' \<and> region_root e' c = region_root e' d \<and>
    (\<forall>x y. region_root e x = region_root e y \<longrightarrow> region_root e' x = region_root e' y) \<and>
    (\<forall>w. region_root e' w = Some w \<longrightarrow>
       set (case region_members e' w of Some ms \<Rightarrow> ms | None \<Rightarrow> [w]) = {x. region_root e' x = Some w}) \<and>
    ((\<forall>x. region_root e' x = (if region_root e x = Some (max rc rd) then Some (min rc rd) else region_root e x)) \<or>
     (\<exists>en i j e3. elems_name e = Some en \<and> lookup_cell e (KClassView (max rc rd) en) = Some i \<and> \<not> ts_is_empty (c_ts (cells e ! i)) \<and>
        (\<forall>x. region_root e3 x = (if region_root e x = Some (max rc rd) then Some (min rc rd) else region_root e x)) \<and>
        cell_key_at e3 j = Some (KClassView (min rc rd) en) \<and> raise e3 j (c_ts (cells e ! i)) (SEED, CTX0) = Some e'))"
proof -
  from union_regions_post [OF assms raise_good] obtain e' where
    u: "union_regions raise e c d = Some (e', min (root_of (region_parent e) c) (root_of (region_parent e) d))"
      "root_of (region_parent e') c = root_of (region_parent e') d" "grows e e'" "engine_inv R e'"
    using assms(1) by (auto split: if_splits)
  note p = engine_invD(4) [OF assms(1)] and p' = engine_invD(4) [OF u(4)]
  have rr: "region_root e x = Some (root_of (region_parent e) x)" "region_root e' x = Some (root_of (region_parent e') x)" for x
    by (simp_all add: region_root_def root_of(1) [OF p] root_of(1) [OF p'])
  have mem: "members_ok e'" using engine_okD(2) [OF engine_invD(1) [OF u(4)]] by (simp add: regions_ok_def)
  have "set (case region_members e' w of Some ms \<Rightarrow> ms | None \<Rightarrow> [w]) = {x. region_root e' x = Some w}"
    if "region_root e' w = Some w" for w
    using mem that root_of(2) [OF p', of w] by (simp add: members_ok_def rr)
  moreover have "region_root e x = region_root e y \<Longrightarrow> region_root e' x = region_root e' y" for x y
    using growsD(6) [OF u(3), of x y] by (simp add: rr)
  moreover have "region_root e' c = region_root e' d" using u(2) by (simp add: rr)
  moreover note union_regions_moves [OF assms u(1), unfolded fun_eq_iff merged_root_def]
  ultimately show ?thesis using u(1,4) rr(1) by blast
qed

theorem union_regions_merges_witness:
  "\<exists>e'. union_regions raise engine_default 4 9 = Some (e', 4) \<and> region_root e' 9 = region_root e' 4"
proof -
  have "engine_inv {4, 9} engine_default"
    using engine_default_ok free_roots_le [of "{4, 9}" engine_default]
    by (simp add: engine_inv_def in_scope_def has_room_def) (simp add: engine_default_def class_of_def)
  moreover have "region_root engine_default x = Some x" for x
    unfolding region_root_def by (subst region_root_of.simps) (simp add: engine_default_def)
  moreover have "(4 :: nat) \<in> {4, 9}" "(9 :: nat) \<in> {4, 9}" by simp_all
  ultimately obtain e' r rc rd where "union_regions raise engine_default 4 9 = Some (e', r)"
    "region_root engine_default 4 = Some rc" "region_root engine_default 9 = Some rd" "r = min rc rd"
    "region_root e' 4 = region_root e' 9" using union_regions_merges [of "{4, 9}" engine_default 4 9] by blast
  with \<open>\<And>x. region_root engine_default x = Some x\<close> show ?thesis by simp
qed

text \<open>How often the typeset of a cell differs before and after the raises of a sequence.\<close>

fun cell_moves :: "Engine \<Rightarrow> CellId \<Rightarrow> (CellId \<times> TypeSet \<times> user) list \<Rightarrow> nat option" where
  "cell_moves e i [] = Some 0"
| "cell_moves e i ((cid, ts, why) # rs) = do {
     e' \<leftarrow> raise e cid ts why;
     n \<leftarrow> cell_moves e' i rs;
     Some ((if c_ts (cells e' ! i) \<noteq> c_ts (cells e ! i) then 1 else 0) + n) }"

lemma pot_bound:
  assumes "engine_inv R e" "i < length (cells e)"
  shows "pot e (c_ts (cells e ! i)) \<le> 115 + card R" "finite (dom (region_parent e))"
proof -
  have sub: "dom (region_parent e) \<subseteq> R" "finite R" using engine_invD(2) [OF assms(1)] by (auto simp: in_scope_def)
  then show "finite (dom (region_parent e))" using finite_subset by blast
  have "ts_weight e (c_ts (cells e ! i)) \<le> 115" by (rule ts_weight_bound [OF engine_okD(4) [OF engine_invD(1) [OF assms(1)] assms(2)]])
  with card_mono [OF sub(2,1)] show "pot e (c_ts (cells e ! i)) \<le> 115 + card R" by (simp add: pot_def)
qed

lemma cell_moves_pot:
  assumes "engine_inv R e" "i < length (cells e)"
    "\<forall>(cid, ts, why)\<in>set rs. cid < length (cells e) \<and> ts_ok ts \<and> obj_classes (abs_labels e) (t_obj ts) \<subseteq> R"
  shows "\<exists>n. cell_moves e i rs = Some n \<and> pot e (c_ts (cells e ! i)) + n \<le> 115 + card R"
  using assms
proof (induction rs arbitrary: e)
  case Nil
  then show ?case using pot_bound(1) by simp
next
  case (Cons x rs)
  obtain cid ts why where x: "x = (cid, ts, why)" by (cases x)
  from raise_total [of R e cid ts why] Cons.prems x obtain e' where
    e': "raise e cid ts why = Some e'" "raise_post R e e'" by (auto simp: raise_pre_def raise_result_def)
  then have g: "grows e e'" and inv: "engine_inv R e'" by (simp_all add: raise_post_def)
  have i': "i < length (cells e')" using Cons.prems(2) growsD(1) [OF g] by simp
  note lab = same_staticD(4) [OF growsD(5) [OF g]]
  have "\<forall>(cid, ts, why)\<in>set rs. cid < length (cells e') \<and> ts_ok ts \<and> obj_classes (abs_labels e') (t_obj ts) \<subseteq> R"
    using Cons.prems(3) growsD(1) [OF g] lab by fastforce
  from Cons.IH [OF inv i' this] obtain n where n: "cell_moves e' i rs = Some n" "pot e' (c_ts (cells e' ! i)) + n \<le> 115 + card R" by blast
  have fin: "finite (dom (region_parent e'))" by (rule pot_bound(2) [OF inv i'])
  have "pot e (c_ts (cells e ! i)) + (if c_ts (cells e' ! i) \<noteq> c_ts (cells e ! i) then 1 else 0) \<le> pot e' (c_ts (cells e' ! i))"
    using growsD(2) [OF g Cons.prems(2)] fin pot_mono [OF _ fin lab, of "c_ts (cells e ! i)"] growsD(7) [OF g]
    by (auto simp: cell_grows_def regions_merge_def)
  with n e'(1) x show ?case by auto
qed

text \<open>C39. The solver's chains are finite: over any sequence of raises, into whatever cells and with whatever evidence of the scope, every raise
  ends and the typeset of a given cell differs before and after at most 115 times plus once per class, the relabellings by
  region merges included.\<close>

theorem cell_moves_bounded:
  assumes "engine_inv R e" "i < length (cells e)"
    "\<forall>(cid, ts, why)\<in>set rs. cid < length (cells e) \<and> ts_ok ts \<and> obj_classes (abs_labels e) (t_obj ts) \<subseteq> R"
  shows "\<exists>n. cell_moves e i rs = Some n \<and> n \<le> 115 + card R"
  using cell_moves_pot [OF assms] by auto

theorem cell_moves_bounded_witness:
  "\<exists>n. cell_moves demo_engine 0 (replicate 1000 (0, demo_evidence, (7, 0))) = Some n \<and> n \<le> 115"
  using cell_moves_bounded [OF demo_engine_inv, of 0 "replicate 1000 (0, demo_evidence, (7, 0))"] demo_evidence_ok
  by (auto simp: demo_engine_def)

text \<open>The no-growth fast path of a raise does not look at the unresolved flag: a cell whose range
  and interval are already unbounded keeps its flag clear under unresolved evidence.\<close>

theorem raise_drops_unresolved_evidence:
  assumes "cid < length (cells e)" "t_range (c_ts (cells e ! cid)) = Top" "t_interval (c_ts (cells e ! cid)) = IAny"
  shows "raise e cid ts_unknown_evidence why = Some e"
proof -
  have "no_growth e (c_ts (cells e ! cid)) ts_unknown_evidence = Some True"
    using assms(2,3)
    by (simp add: no_growth_def array_region_of_def ts_unknown_evidence_def ts_default_def fnset_default_def
        fnset_is_subset_of_def subsumes_def)
  with assms(1) show ?thesis by (subst raise.simps) (simp add: raise_body_def cell_ts_def)
qed

theorem raise_drops_unresolved_evidence_witness:
  "result Add (opnd (ts_prim PRIM_STRING)) (Some (opnd (ts_prim PRIM_STRING))) = Some (t_prims concat_ts, t_range concat_ts) \<and>
   (\<exists>e'. raise concat_engine 0 ts_unknown_evidence (1, 0) = Some e' \<and>
     value_claim_full (c_ts (cells e' ! 0)) = Some (claim_of_prims PRIM_STRING))"
proof -
  have "result Add (opnd (ts_prim PRIM_STRING)) (Some (opnd (ts_prim PRIM_STRING))) = Some (t_prims concat_ts, t_range concat_ts)"
    by code_simp
  moreover have "t_range concat_ts = Top" "t_interval concat_ts = IAny" by code_simp+
  then have "raise concat_engine 0 ts_unknown_evidence (1, 0) = Some concat_engine"
    by (intro raise_drops_unresolved_evidence) (simp_all add: concat_engine_def)
  moreover have "value_claim_full (c_ts (cells concat_engine ! 0)) = Some (claim_of_prims PRIM_STRING)" by code_simp
  ultimately show ?thesis by blast
qed

text \<open>A raise can lose an update: the joined typeset is computed from a copy of the cell, the merge of
  two array regions links the losing element view into the winning one, and when that winning view
  is the raised cell the linked elements are overwritten by the copy. The link stays installed,
  nothing is queued, and the evidence of its source is missing in its destination.\<close>

theorem raise_loses_nested_update:
  "\<exists>e. lost_update_run = Some e \<and> (1, 0) \<in> link_set e \<and> worklist e = [] \<and>
     intersects (t_prims (c_ts (cells e ! 1))) PRIM_STRING \<and> \<not> intersects (t_prims (c_ts (cells e ! 0))) PRIM_STRING"
proof -
  have "(case lost_update_run of None \<Rightarrow> False | Some e \<Rightarrow> (1, 0) \<in> link_set e \<and> worklist e = [] \<and>
     intersects (t_prims (c_ts (cells e ! 1))) PRIM_STRING \<and> \<not> intersects (t_prims (c_ts (cells e ! 0))) PRIM_STRING)"
    by code_simp
  then show ?thesis by (auto split: option.splits)
qed

text \<open>A raise reports growth where nothing grew: a cell labelled with a region, raised with an
  object of a class already in that region, keeps its typeset, yet its change counter moves and
  its readers are queued again.\<close>

theorem raise_refires_without_growth:
  assumes "engine_inv R e" "cid < length (cells e)" "t_obj (c_ts (cells e ! cid)) = AnyOf r" "region_parent e r = None"
    "a < length (abs_labels e)" "abs_labels e ! a = class_label c False" "region_root e c = Some r" "links e cid = None"
  shows "\<exists>e'. raise e cid (ts_obj_one a) why = Some e' \<and> c_ts (cells e' ! cid) = c_ts (cells e ! cid) \<and>
    c_changes (cells e' ! cid) = c_changes (cells e ! cid) + 1 \<and> set (vec_of (subs e) cid) \<subseteq> set (worklist e')"
proof -
  let ?cur = "c_ts (cells e ! cid)"
  note ok = engine_invD(1) [OF assms(1)] and po = engine_invD(4) [OF assms(1)]
  have cok: "ts_ok ?cur" by (rule engine_okD(4) [OF ok assms(2)])
  have ng: "no_growth e ?cur (ts_obj_one a) = Some False"
    using assms(3) by (simp add: no_growth_def array_region_of_eq [OF po] ts_obj_one_def)
  have roots: "root_of (region_parent e) c = r" "root_of (region_parent e) r = r"
    using assms(4,7) by (simp add: region_root_def root_of_def, simp)
  have "region_meet raise e (AnyOf r) (One a) = Some (e, Some (AnyOf r))"
    using assms(5,6) roots
    by (simp add: region_meet_eq [OF po] array_class_def plain_class_def class_label_def join_obj_simps
        union_regions_eq [OF engine_okD(2) [OF ok]])
  moreover obtain s where "join_from ?cur (ts_obj_one a) (abs_labels e) (join_sink e) =
      (?cur\<lparr>t_obj := AnyObject\<rparr>, s, True)"
  proof -
    have "ts_upd (abs_labels e) ?cur (ts_obj_one a) = ?cur\<lparr>t_obj := AnyObject\<rparr>"
      using ts_upd_obj_one [OF cok] assms(3) by (simp add: join_obj_simps)
    moreover have "?cur\<lparr>t_obj := AnyObject\<rparr> \<noteq> ?cur" using assms(3) by (metis ObjType.distinct(19) TypeSet.select_convs(3) TypeSet.surjective TypeSet.update_convs(3))
    moreover have "fnset_ok (t_fns ?cur)" using cok by (simp add: ts_ok_def)
    ultimately show ?thesis using that join_from_eq(1) [of ?cur "ts_obj_one a" "abs_labels e" "join_sink e"] by auto
  qed
  moreover have "?cur\<lparr>t_obj := AnyObject\<rparr>\<lparr>t_obj := AnyOf r\<rparr> = ?cur" using assms(3) by (cases ?cur) simp
  ultimately have jt: "join_ts raise e ?cur (ts_obj_one a) = Some (e\<lparr>join_sink := s\<rparr>, ?cur, True)"
    using assms(3) by (simp add: join_ts_def ts_obj_one_def)
  define e2 where "e2 = record_growth (e\<lparr>join_sink := s\<rparr>) cid ?cur False (fst why)"
  have "engine_inv R (e\<lparr>join_sink := s\<rparr>)" using assms(1) by simp
  note r = record_growth_inv [OF this, of cid ?cur False "fst why", folded e2_def]
  have sc: "obj_classes (abs_labels e) (t_obj ?cur) \<subseteq> R" by (rule cell_ts_scope [OF engine_invD(2) [OF assms(1)] assms(2)])
  have "links e2 cid = None" using r(7) assms(2,8) cok sc by simp
  then have "raise e cid (ts_obj_one a) why = Some e2"
    using assms(2,3) ng jt by (subst raise.simps) (simp add: raise_body_def cell_ts_def e2_def vec_of_def)
  moreover have "inq e2 = set (worklist e2)" using r(1) assms(2) cok sc engine_okD(5) engine_invD(1) by auto
  ultimately show ?thesis using r(6,10) assms(2) cok sc by (intro exI [of _ e2]) auto
qed

theorem raise_refires_without_growth_witness:
  "\<exists>e'. raise region_engine 0 (ts_obj_one 0) (7, 0) = Some e' \<and> c_ts (cells e' ! 0) = c_ts (cells region_engine ! 0) \<and>
     c_changes (cells e' ! 0) = 2"
proof -
  have "engine_ok region_engine"
    using engine_default_ok
    by (auto simp: engine_ok_def region_engine_def cells_ok_def regions_ok_def members_ok_def ts_ok_def ts_default_def
        fnset_ok_def fnset_default_def engine_default_def)
  then have "engine_inv {1} region_engine"
    using free_roots_le [of "{1}" region_engine]
    by (simp add: engine_inv_def has_room_def in_scope_def) (auto simp: region_engine_def engine_default_def class_of_def
      obj_classes_def class_label_def)
  moreover have "region_root region_engine 1 = Some 1"
    unfolding region_root_def by (subst region_root_of.simps) (simp add: region_engine_def engine_default_def)
  ultimately show ?thesis
    using raise_refires_without_growth [of "{1}" region_engine 0 1 0 1 "(7, 0)"]
    by (auto simp: region_engine_def engine_default_def)
qed

end
