(* ===== verification/Effects.thy ===== *)
theory Effects
  imports NM_Prelude
begin

unbundle bit_operations_syntax

text \<open>
  The effect taxonomy of emission forms, \<^verbatim>\<open>compiler/src/wasm/effects.rs\<close>: heap kinds and their mask
  bits, effect classes, the record of one runtime helper and the helper table with its lookups. The
  \<open>Helpers\<close> record of imported functions is built by the code generator; a getter \<open>|h| h.f\<close> is the
  field's name, and \<open>h\<close> maps field names to function indices.
\<close>

section \<open>Heap kinds and effect classes\<close>

datatype HeapKind = HEngineTable | HFuseCell | HShape | HClassWord | HElementsHeader | HElements | HSlot
  | HStringData | HAllocCursor | HFresh | HUnknown

definition HEAP_KINDS :: "HeapKind list" where
  "HEAP_KINDS = [HEngineTable, HFuseCell, HShape, HClassWord, HElementsHeader, HElements, HSlot,
     HStringData, HAllocCursor, HFresh, HUnknown]"

text \<open>The discriminants are the positions in the declaration.\<close>

fun heap_code :: "HeapKind \<Rightarrow> nat" where
  "heap_code HEngineTable = 0"
| "heap_code HFuseCell = 1"
| "heap_code HShape = 2"
| "heap_code HClassWord = 3"
| "heap_code HElementsHeader = 4"
| "heap_code HElements = 5"
| "heap_code HSlot = 6"
| "heap_code HStringData = 7"
| "heap_code HAllocCursor = 8"
| "heap_code HFresh = 9"
| "heap_code HUnknown = 10"

definition heap_bit :: "HeapKind \<Rightarrow> u16" where
  "heap_bit k = push_bit (heap_code k) 1"

datatype EffectClass = Pure | Leaf | Alloc | Unknown

record HelperMeta =
  effect :: EffectClass
  quiet :: bool
  user_heap_writes :: bool
  leaf_writes :: u16

definition meta :: "EffectClass \<Rightarrow> bool \<Rightarrow> bool \<Rightarrow> u16 \<Rightarrow> HelperMeta" where
  "meta e q w m = \<lparr>effect = e, quiet = q, user_heap_writes = w, leaf_writes = m\<rparr>"

definition POISON :: u16 where "POISON = heap_bit HUnknown"

definition meta_pure :: HelperMeta where "meta_pure = meta Pure False False POISON"
definition meta_leaf :: "u16 \<Rightarrow> HelperMeta" where "meta_leaf writes = meta Leaf False False writes"
definition leaf_user :: "u16 \<Rightarrow> HelperMeta" where "leaf_user writes = meta Leaf False True writes"
definition meta_alloc :: HelperMeta where "meta_alloc = meta Alloc False False POISON"
definition quiet_alloc :: HelperMeta where "quiet_alloc = meta Alloc True False POISON"
definition meta_unknown :: HelperMeta where "meta_unknown = meta Unknown False False POISON"
definition UNLISTED :: HelperMeta where "UNLISTED = meta_unknown"

section \<open>The helper table\<close>

type_synonym Row = "string \<times> string \<times> HelperMeta"

definition slot_elems :: u16 where "slot_elems = heap_bit HSlot OR heap_bit HElements"

text \<open>The rows in table order, in the four groups of the source.\<close>

definition pure_rows :: "Row list" where
  "pure_rows = [
     (''callee_night_target'', ''callee_night_target'', meta_pure),
     (''ta_get_poly'', ''ta_get_poly'', meta_pure),
     (''ic_get_poly'', ''ic_get_poly'', meta_pure),
     (''ic_set_cold'', ''ic_set_cold'', meta_pure),
     (''elem_mega_get'', ''elem_mega_get'', meta_pure),
     (''elem_mega_set_probe'', ''elem_mega_set_probe'', meta_pure),
     (''elem_append_check'', ''elem_append_check'', meta_pure),
     (''str_chars_eq'', ''str_chars_eq'', meta_pure),
     (''get_mapped_arg'', ''get_mapped_arg'', meta_pure),
     (''to_boolean'', ''to_boolean'', meta_pure),
     (''typeof_'', ''typeof'', meta_pure),
     (''typeof_eq'', ''typeof_eq'', meta_pure),
     (''constant_strict_eq'', ''constant_strict_eq'', meta_pure),
     (''get_aliased'', ''get_aliased'', meta_pure),
     (''global_this'', ''global_this'', meta_pure),
     (''object'', ''object'', meta_pure),
     (''symbol'', ''symbol'', meta_pure),
     (''optimize_get_iterator'', ''optimize_get_iterator'', meta_pure),
     (''no_extra_indexed'', ''no_extra_indexed'', meta_pure),
     (''gen_is_closing'', ''gen_is_closing'', meta_pure),
     (''super_base'', ''super_base'', meta_pure),
     (''super_fun'', ''super_fun'', meta_pure)]"

definition leaf_rows :: "Row list" where
  "leaf_rows = [
     (''call_classify'', ''call_classify'', meta_leaf (heap_bit HEngineTable)),
     (''ta_set_poly'', ''ta_set_poly'', leaf_user (heap_bit HElements)),
     (''strlit_verify'', ''strlit_verify'', meta_leaf 0),
     (''set_mapped_arg'', ''set_mapped_arg'', leaf_user slot_elems),
     (''validate_this_layout'', ''validate_this_layout'', meta_leaf (heap_bit HEngineTable)),
     (''set_aliased'', ''set_aliased'', leaf_user (heap_bit HSlot)),
     (''gen_suspend'', ''gen_suspend'', leaf_user slot_elems),
     (''gen_restore'', ''gen_restore'', leaf_user slot_elems),
     (''gen_closing'', ''gen_closing'', leaf_user 0),
     (''more_iter'', ''more_iter'', leaf_user slot_elems),
     (''end_iter'', ''end_iter'', leaf_user slot_elems),
     (''post_write_barrier'', ''post_write_barrier'', meta_leaf 0),
     (''pre_write_barrier'', ''pre_write_barrier'', meta_leaf 0),
     (''post_write_barrier_elem'', ''post_write_barrier_elem'', meta_leaf 0),
     (''resolve_global_slot'', ''resolve_global_slot'', meta_leaf (heap_bit HEngineTable)),
     (''resolve_global_slot_guarded'', ''resolve_global_slot_guarded'', meta_leaf (heap_bit HEngineTable)),
     (''set_global'', ''set_global'', leaf_user (heap_bit HSlot OR heap_bit HFuseCell OR heap_bit HEngineTable)),
     (''binding_written'', ''binding_written'', meta_leaf (heap_bit HFuseCell)),
     (''binding_value'', ''binding_value'', meta_leaf (heap_bit HFuseCell OR heap_bit HEngineTable)),
     (''math_unary'', ''math_unary'', meta_leaf 0),
     (''math_pow'', ''math_pow'', meta_leaf 0),
     (''fmod'', ''fmod'', meta_leaf 0),
     (''init_home_object'', ''init_home_object'', leaf_user (heap_bit HSlot)),
     (''bind_var'', ''bind_var'', leaf_user 0)]"

definition alloc_rows :: "Row list" where
  "alloc_rows = [
     (''string'', ''string'', quiet_alloc),
     (''new_object'', ''new_object'', quiet_alloc),
     (''new_array'', ''new_array'', quiet_alloc),
     (''init_prop'', ''init_prop'', quiet_alloc),
     (''init_elem'', ''init_elem'', quiet_alloc),
     (''init_prop_getset'', ''init_prop_getset'', quiet_alloc),
     (''new_private_name'', ''new_private_name'', quiet_alloc),
     (''lambda'', ''lambda'', quiet_alloc),
     (''fun_with_proto'', ''fun_with_proto'', quiet_alloc),
     (''obj_with_proto'', ''obj_with_proto'', quiet_alloc),
     (''mutate_proto'', ''mutate_proto'', meta_alloc),
     (''regexp'', ''regexp'', quiet_alloc),
     (''rest'', ''rest'', quiet_alloc),
     (''arguments_'', ''arguments'', quiet_alloc),
     (''arguments_env'', ''arguments_env'', quiet_alloc),
     (''env_setup'', ''env_setup'', quiet_alloc),
     (''push_lexical_env'', ''push_lexical_env'', meta_alloc),
     (''push_class_body_env'', ''push_class_body_env'', meta_alloc),
     (''freshen_lexical_env'', ''freshen_lexical_env'', meta_alloc),
     (''recreate_lexical_env'', ''recreate_lexical_env'', meta_alloc),
     (''push_var_env'', ''push_var_env'', meta_alloc),
     (''enter_with'', ''enter_with'', meta_alloc),
     (''init_glexical'', ''init_glexical'', meta_alloc),
     (''box_nonstrict_this'', ''box_nonstrict_this'', quiet_alloc),
     (''create_this'', ''create_this'', quiet_alloc),
     (''create_generator'', ''create_generator'', meta_alloc),
     (''gen_check_resume'', ''gen_check_resume'', meta_alloc),
     (''gen_final'', ''gen_final'', meta_alloc),
     (''async_reject'', ''async_reject'', meta_alloc),
     (''to_async_iter'', ''to_async_iter'', meta_alloc),
     (''optimize_spread_call'', ''optimize_spread_call'', meta_unknown),
     (''exception'', ''exception'', quiet_alloc),
     (''throw'', ''throw'', quiet_alloc),
     (''throw_with_stack'', ''throw_with_stack'', quiet_alloc),
     (''get_exception_for_finally'', ''get_exception_for_finally'', quiet_alloc),
     (''throw_msg'', ''throw_msg'', quiet_alloc),
     (''throw_set_const'', ''throw_set_const'', quiet_alloc),
     (''check_obj_coercible'', ''check_obj_coercible'', quiet_alloc),
     (''check_class_heritage'', ''check_class_heritage'', quiet_alloc),
     (''check_is_obj'', ''check_is_obj'', quiet_alloc),
     (''check_this'', ''check_this'', quiet_alloc),
     (''check_this_reinit'', ''check_this_reinit'', quiet_alloc),
     (''check_return'', ''check_return'', quiet_alloc),
     (''check_lexical'', ''check_lexical'', quiet_alloc),
     (''set_fun_name'', ''set_fun_name'', quiet_alloc)]"

definition unknown_rows :: "Row list" where
  "unknown_rows = [
     (''direct_call_stub'', ''direct_call'', meta_unknown),
     (''add'', ''add'', meta_unknown),
     (''concat'', ''concat'', quiet_alloc),
     (''call'', ''call'', meta_unknown),
     (''call_iter'', ''call_iter'', meta_unknown),
     (''native_dispatch'', ''native_dispatch'', meta_unknown),
     (''apply_fwd'', ''apply_fwd'', meta_unknown),
     (''construct'', ''construct'', meta_unknown),
     (''get_property'', ''get_property'', meta_unknown),
     (''set_property'', ''set_property'', meta_unknown),
     (''get_prop_ic_miss'', ''get_prop_ic_miss'', meta_unknown),
     (''set_prop_ic_miss'', ''set_prop_ic_miss'', meta_unknown),
     (''get_gname'', ''get_gname'', meta_unknown),
     (''get_element'', ''get_element'', meta_unknown),
     (''set_element'', ''set_element'', meta_unknown),
     (''binop'', ''binop'', meta_unknown),
     (''compare'', ''compare'', meta_unknown),
     (''tonumeric'', ''tonumeric'', meta_unknown),
     (''pos'', ''pos'', meta_unknown),
     (''neg'', ''neg'', meta_unknown),
     (''instanceof_'', ''instanceof'', meta_unknown),
     (''del_prop'', ''del_prop'', meta_unknown),
     (''tostring'', ''tostring'', meta_unknown),
     (''pow'', ''pow'', meta_unknown),
     (''get_intrinsic_cell'', ''get_intrinsic_cell'', quiet_alloc),
     (''get_intrinsic'', ''get_intrinsic'', meta_unknown),
     (''get_name'', ''get_name'', meta_unknown),
     (''bind_name'', ''bind_name'', meta_unknown),
     (''get_bound_name'', ''get_bound_name'', meta_unknown),
     (''bind_unqualified_name'', ''bind_unqualified_name'', meta_unknown),
     (''bind_unqualified_gname'', ''bind_unqualified_gname'', meta_unknown),
     (''set_name'', ''set_name'', meta_unknown),
     (''del_name'', ''del_name'', meta_unknown),
     (''in_'', ''in'', meta_unknown),
     (''has_own'', ''has_own'', meta_unknown),
     (''to_property_key'', ''to_property_key'', meta_unknown),
     (''del_elem'', ''del_elem'', meta_unknown),
     (''iter_'', ''iter'', meta_unknown),
     (''close_iter'', ''close_iter'', meta_unknown),
     (''close_iter_for_exception'', ''close_iter_for_exception'', meta_unknown),
     (''spread_call'', ''spread_call'', meta_unknown),
     (''get_prop_super'', ''get_prop_super'', meta_unknown),
     (''get_elem_super'', ''get_elem_super'', meta_unknown),
     (''set_prop_super'', ''set_prop_super'', meta_unknown),
     (''set_elem_super'', ''set_elem_super'', meta_unknown),
     (''init_elem_getset'', ''init_elem_getset'', meta_unknown),
     (''check_private_field'', ''check_private_field'', meta_unknown),
     (''implicit_this'', ''implicit_this'', meta_unknown),
     (''global_decl_instantiation'', ''global_decl_instantiation'', meta_unknown),
     (''builtin_object'', ''builtin_object'', meta_unknown),
     (''async_await'', ''async_await'', meta_unknown),
     (''async_resolve'', ''async_resolve'', meta_unknown),
     (''can_skip_await'', ''can_skip_await'', meta_unknown),
     (''maybe_extract_await'', ''maybe_extract_await'', meta_unknown)]"

definition helper_rows :: "Row list" where
  "helper_rows = pure_rows @ leaf_rows @ alloc_rows @ unknown_rows"

type_synonym Func = nat
type_synonym Helpers = "string \<Rightarrow> Func"

text \<open>\<open>entry(get(h)).or_insert(meta)\<close> over the rows: the first row of a function wins.\<close>

fun meta_map_from :: "Row list \<Rightarrow> Helpers \<Rightarrow> (Func \<rightharpoonup> HelperMeta) \<Rightarrow> (Func \<rightharpoonup> HelperMeta)" where
  "meta_map_from [] h m = m"
| "meta_map_from ((field, _, mt) # rows) h m =
     meta_map_from rows h (if m (h field) = None then m(h field \<mapsto> mt) else m)"

definition helper_meta_map :: "Helpers \<Rightarrow> (Func \<rightharpoonup> HelperMeta)" where
  "helper_meta_map h = meta_map_from helper_rows h Map.empty"

fun helper_name_in :: "Row list \<Rightarrow> Helpers \<Rightarrow> Func \<Rightarrow> string" where
  "helper_name_in [] h f = ''scripted/other''"
| "helper_name_in ((field, name, _) # rows) h f = (if h field = f then name else helper_name_in rows h f)"

definition helper_name :: "Helpers \<Rightarrow> Func \<Rightarrow> string" where
  "helper_name h f = helper_name_in helper_rows h f"

section \<open>Lookup lemmas\<close>

lemma meta_map_from_first:
  "meta_map_from rows h m f =
     (case m f of Some mt \<Rightarrow> Some mt
      | None \<Rightarrow> map_option (snd \<circ> snd) (find (\<lambda>(field, _, _). h field = f) rows))"
  by (induction rows h m rule: meta_map_from.induct) (auto split: option.splits if_splits)

lemma helper_meta_map_find:
  "helper_meta_map h f = map_option (snd \<circ> snd) (find (\<lambda>(field, _, _). h field = f) helper_rows)"
  by (simp add: helper_meta_map_def meta_map_from_first)

lemma helper_name_find:
  "helper_name_in rows h f =
     (case find (\<lambda>(field, _, _). h field = f) rows of Some r \<Rightarrow> fst (snd r) | None \<Rightarrow> ''scripted/other'')"
  by (induction rows h f rule: helper_name_in.induct) auto

text \<open>A row of the table is consistent: what the unit test checks.\<close>

definition row_consistent :: "HelperMeta \<Rightarrow> bool" where
  "row_consistent m \<longleftrightarrow> (quiet m \<longrightarrow> effect m = Alloc) \<and> (user_heap_writes m \<longrightarrow> effect m = Leaf) \<and>
     (effect m = Leaf \<longleftrightarrow> leaf_writes m AND POISON = 0)"

lemma helper_rows_consistent: "list_all (\<lambda>(_, _, m). row_consistent m) helper_rows"
  by code_simp

lemma helper_fields_distinct: "distinct (map fst helper_rows)"
  by code_simp

lemma find_unique:
  assumes "distinct (map fst rows)" "(field, name, m) \<in> set rows" "inj_on h (set (map fst rows))"
  shows "find (\<lambda>(g, _, _). h g = h field) rows = Some (field, name, m)"
  using assms
proof (induction rows)
  case (Cons r rows)
  obtain g n mt where r: "r = (g, n, mt)" by (cases r)
  show ?case
  proof (cases "g = field")
    case True
    with Cons.prems r have "(field, name, m) \<notin> set rows" by (auto simp: rev_image_eqI)
    with Cons.prems r True show ?thesis by auto
  next
    case False
    with Cons.prems(2) r have "(field, name, m) \<in> set rows" by auto
    moreover have "h g \<noteq> h field"
      using Cons.prems(3) False r \<open>(field, name, m) \<in> set rows\<close> by (force simp: inj_on_def)
    ultimately show ?thesis using Cons r by (auto simp: inj_on_def)
  qed
qed simp

section \<open>Properties\<close>

text \<open>Whatever functions the imports resolve to, the metadata a call is emitted under is consistent:
  quiet is claimed only of allocating helpers, user-visible writes only of leaves, and exactly the
  leaves carry a write mask that does not poison a loop's write summary.\<close>

theorem helper_meta_consistent:
  "row_consistent (case helper_meta_map h f of Some m \<Rightarrow> m | None \<Rightarrow> UNLISTED)"
proof (cases "helper_meta_map h f")
  case None
  have "row_consistent UNLISTED" by code_simp
  with None show ?thesis by simp
next
  case (Some m)
  then obtain r where "find (\<lambda>(field, _, _). h field = f) helper_rows = Some r" "m = snd (snd r)"
    by (auto simp: helper_meta_map_find)
  then have "r \<in> set helper_rows" by (metis find_Some_iff nth_mem)
  with helper_rows_consistent \<open>m = snd (snd r)\<close> Some show ?thesis by (auto simp: list_all_iff)
qed

text \<open>Where the imports are distinct functions, every row of the table is found under its own
  function, by metadata and by name.\<close>

theorem helper_lookup_own_row:
  assumes "inj_on h (set (map fst helper_rows))" "(field, name, m) \<in> set helper_rows"
  shows "helper_meta_map h (h field) = Some m \<and> helper_name h (h field) = name"
  using find_unique [OF helper_fields_distinct assms(2,1)]
  by (simp add: helper_meta_map_find helper_name_def helper_name_find)

text \<open>Distinct numbers for distinct field names.\<close>

definition numbered :: "string list \<Rightarrow> Helpers" where
  "numbered fs f = length (takeWhile (\<lambda>g. g \<noteq> f) fs)"

lemma numbered_nth: "f \<in> set fs \<Longrightarrow> numbered fs f < length fs \<and> fs ! numbered fs f = f"
  by (induction fs) (auto simp: numbered_def)

lemma numbered_inj: "inj_on (numbered fs) (set fs)"
  using numbered_nth by (metis inj_onI)

theorem helper_lookup_own_row_witness:
  "helper_meta_map (numbered (map fst helper_rows)) (numbered (map fst helper_rows) ''fmod'') = Some (meta_leaf 0)"
proof -
  have "(''fmod'', ''fmod'', meta_leaf 0) \<in> set helper_rows" by (simp add: helper_rows_def leaf_rows_def)
  with helper_lookup_own_row [OF numbered_inj [of "map fst helper_rows"]] show ?thesis by simp
qed

text \<open>The kinds have distinct mask bits, so a mask is a set of kinds.\<close>

lemma heap_bit_mask: "heap_bit k AND heap_bit k' = (if k = k' then heap_bit k else 0)"
  by (cases k; cases k') (simp_all add: heap_bit_def)

end
