(* ===== verification/Bytecode.thy ===== *)
theory Bytecode
  imports Ids
begin

unbundle bit_operations_syntax

text \<open>
  The bytecode parser, \<^verbatim>\<open>compiler/src/bytecode.rs\<close>: little-endian operand readers over the
  remaining bytes, the operand layout of every op, the try notes surfaced as their start is
  reached, and \<open>visit\<close>, whose visitor callbacks are the list of events it makes. The \<open>JSOp\<close> table
  (\<open>from_byte\<close>, \<open>len\<close>, \<open>nuses\<close>, \<open>ndefs\<close>) is generated by the build from SpiderMonkey's opcode
  header: it is the parameter \<open>t\<close> of type \<open>JSOps\<close>, with an op named by its variant. A panic
  (an unknown byte, a missing operand, a length mismatch, a bad switch range) is \<open>None\<close>.
\<close>

section \<open>Scripts and the parser\<close>

type_synonym u8 = "8 word"
type_synonym u24 = "24 word"
type_synonym u64 = "64 word"
type_synonym JSOp = string

record JSOps =
  from_byte :: "u8 \<Rightarrow> JSOp option"
  op_len :: "JSOp \<Rightarrow> u32"
  op_nuses :: "JSOp \<Rightarrow> u32 option"
  op_ndefs :: "JSOp \<Rightarrow> u32"

datatype TryNoteKind = Catch | Finally | ForIn | Destructuring | ForOf | ForOfIterClose | Loop

record TryNote =
  tn_kind :: TryNoteKind
  tn_stack_depth :: u32
  tn_start :: Pc
  tn_length :: u32

record ScopeNote =
  sn_gcthing_index :: u32
  sn_start :: Pc
  sn_length :: u32

record Script =
  bytecode :: "u8 list"
  addr :: u32
  gcthings :: "SourceObjectId list"
  resume_offsets :: "Pc list"
  try_notes :: "TryNote list"
  scope_notes :: "ScopeNote list"
  body_scope :: "SourceObjectId option"
  nargs :: u16
  is_generator_or_async :: bool
  is_class_ctor :: bool
  strict :: bool
  has_mapped_args :: bool

record Parser =
  pr_pc :: Pc
  pr_data :: "u8 list"
  pr_notes :: "TryNote list"
  pr_note_idx :: nat
  pr_resume :: "Pc list"

definition parser :: "Script \<Rightarrow> Parser" where
  "parser s = \<lparr>pr_pc = 0, pr_data = bytecode s, pr_notes = sort_key tn_start (try_notes s), pr_note_idx = 0,
     pr_resume = resume_offsets s\<rparr>"

definition remaining :: "Parser \<Rightarrow> nat" where
  "remaining p = length (pr_data p)"

definition read_byte :: "Parser \<Rightarrow> (u8 \<times> Parser) option" where
  "read_byte p =
     (case pr_data p of
        [] \<Rightarrow> None
      | b # bs \<Rightarrow> Some (b, p\<lparr>pr_data := bs, pr_pc := pr_pc p + 1\<rparr>))"

text \<open>The end of the bytes is \<open>Some None\<close>; an unknown byte panics.\<close>

definition next_op :: "JSOps \<Rightarrow> Parser \<Rightarrow> (JSOp \<times> Parser) option option" where
  "next_op t p =
     (case read_byte p of
        None \<Rightarrow> Some None
      | Some (b, p') \<Rightarrow> map_option (\<lambda>op. Some (op, p')) (from_byte t b))"

definition try_note_at_pc :: "Parser \<Rightarrow> (TryNote \<times> Parser) option" where
  "try_note_at_pc p =
     (if pr_note_idx p < length (pr_notes p) \<and> tn_start (pr_notes p ! pr_note_idx p) \<le> pr_pc p
      then Some (pr_notes p ! pr_note_idx p, p\<lparr>pr_note_idx := pr_note_idx p + 1\<rparr>)
      else None)"

section \<open>Operand readers\<close>

definition next_uint8 :: "Parser \<Rightarrow> (u8 \<times> Parser) option" where
  "next_uint8 p = read_byte p"

definition next_uint16 :: "Parser \<Rightarrow> (u16 \<times> Parser) option" where
  "next_uint16 p = Option.bind (read_byte p) (\<lambda>(a, p). Option.bind (read_byte p) (\<lambda>(b, p).
     Some (ucast a OR push_bit 8 (ucast b), p)))"

definition peek_uint16 :: "Parser \<Rightarrow> u16 option" where
  "peek_uint16 p =
     (case pr_data p of a # b # _ \<Rightarrow> Some (ucast a OR push_bit 8 (ucast b)) | _ \<Rightarrow> None)"

definition next_uint24 :: "Parser \<Rightarrow> (u32 \<times> Parser) option" where
  "next_uint24 p = Option.bind (read_byte p) (\<lambda>(a, p). Option.bind (read_byte p) (\<lambda>(b, p).
     Option.bind (read_byte p) (\<lambda>(c, p).
       Some (ucast a OR push_bit 8 (ucast b) OR push_bit 16 (ucast c), p))))"

definition next_uint32 :: "Parser \<Rightarrow> (u32 \<times> Parser) option" where
  "next_uint32 p = Option.bind (read_byte p) (\<lambda>(a, p). Option.bind (read_byte p) (\<lambda>(b, p).
     Option.bind (read_byte p) (\<lambda>(c, p). Option.bind (read_byte p) (\<lambda>(d, p).
       Some (ucast a OR push_bit 8 (ucast b) OR push_bit 16 (ucast c) OR push_bit 24 (ucast d), p)))))"

definition next_uint64 :: "Parser \<Rightarrow> (u64 \<times> Parser) option" where
  "next_uint64 p = Option.bind (next_uint32 p) (\<lambda>(a, p). Option.bind (next_uint32 p) (\<lambda>(b, p).
     Some (ucast a OR push_bit 32 (ucast b), p)))"

definition next_int8 :: "Parser \<Rightarrow> (int \<times> Parser) option" where
  "next_int8 p = map_option (\<lambda>(b, p). (sint b, p)) (read_byte p)"

definition next_int32 :: "Parser \<Rightarrow> (int \<times> Parser) option" where
  "next_int32 p = map_option (\<lambda>(w, p). (sint w, p)) (next_uint32 p)"

definition advance :: "Parser \<Rightarrow> nat \<Rightarrow> Parser option" where
  "advance p len =
     (if len > length (pr_data p) then None
      else Some (p\<lparr>pr_data := drop len (pr_data p), pr_pc := pr_pc p + of_nat len\<rparr>))"

section \<open>Operand layouts\<close>

text \<open>
  The arms of \<open>visit\<close> in their order: the op, the visitor callback, and the operands it reads for it.
  \<open>TableSwitch\<close> reads its first resume index last and passes a slice of the resume offsets instead.
\<close>

datatype Fmt = U8 | U16 | U24 | U32 | U64 | I32

type_synonym Arm = "JSOp \<times> string \<times> Fmt list"

definition arms_values :: "Arm list" where
  "arms_values = [
     (''Undefined'', ''undefined'', []),
     (''Null'', ''null'', []),
     (''False'', ''false_'', []),
     (''True'', ''true_'', []),
     (''Int32'', ''int32'', [U32]),
     (''Zero'', ''zero'', []),
     (''One'', ''one'', []),
     (''Int8'', ''int8'', [U8]),
     (''Uint16'', ''uint16'', [U16]),
     (''Uint24'', ''uint24'', [U24]),
     (''Double'', ''double'', [U64]),
     (''BigInt'', ''bigint'', [U32]),
     (''String'', ''string'', [U32]),
     (''Symbol'', ''symbol'', [U8]),
     (''Void'', ''void'', []),
     (''Typeof'', ''typeof_'', []),
     (''TypeofExpr'', ''typeof_expr'', []),
     (''TypeofEq'', ''typeof_eq'', [U8]),
     (''Pos'', ''pos'', []),
     (''Neg'', ''neg'', []),
     (''BitNot'', ''bit_not'', []),
     (''Not'', ''not_'', []),
     (''BitOr'', ''bit_or'', []),
     (''BitXor'', ''bit_xor'', []),
     (''BitAnd'', ''bit_and'', []),
     (''Eq'', ''eq'', []),
     (''Ne'', ''ne'', []),
     (''StrictEq'', ''strict_eq'', []),
     (''StrictNe'', ''strict_ne'', []),
     (''StrictConstantEq'', ''strict_constant_eq'', [U16]),
     (''StrictConstantNe'', ''strict_constant_ne'', [U16]),
     (''Lt'', ''lt'', []),
     (''Gt'', ''gt'', []),
     (''Le'', ''le'', []),
     (''Ge'', ''ge'', []),
     (''Instanceof'', ''instanceof'', []),
     (''In'', ''in_'', []),
     (''Lsh'', ''lsh'', []),
     (''Rsh'', ''rsh'', []),
     (''Ursh'', ''ursh'', []),
     (''Add'', ''add'', []),
     (''Sub'', ''sub'', []),
     (''Inc'', ''inc'', []),
     (''Dec'', ''dec'', []),
     (''Mul'', ''mul'', []),
     (''Div'', ''div'', []),
     (''Mod'', ''mod_'', []),
     (''Pow'', ''pow'', []),
     (''NopIsAssignOp'', ''nop_is_assign_op'', []),
     (''ToPropertyKey'', ''to_property_key'', []),
     (''ToNumeric'', ''to_numeric'', []),
     (''ToString'', ''to_string'', []),
     (''IsNullOrUndefined'', ''is_null_or_undefined'', []),
     (''GlobalThis'', ''global_this'', []),
     (''NonSyntacticGlobalThis'', ''non_syntactic_global_this'', []),
     (''NewTarget'', ''new_target'', []),
     (''DynamicImport'', ''dynamic_import'', []),
     (''ImportMeta'', ''import_meta'', []),
     (''NewInit'', ''new_init'', [U8]),
     (''NewObject'', ''new_object'', [U32]),
     (''Object'', ''object'', [U32]),
     (''ObjWithProto'', ''obj_with_proto'', []),
     (''InitProp'', ''init_prop'', [U32]),
     (''InitHiddenProp'', ''init_hidden_prop'', [U32]),
     (''InitLockedProp'', ''init_locked_prop'', [U32]),
     (''InitElem'', ''init_elem'', []),
     (''InitHiddenElem'', ''init_hidden_elem'', []),
     (''InitLockedElem'', ''init_locked_elem'', []),
     (''InitPropGetter'', ''init_prop_getter'', [U32]),
     (''InitHiddenPropGetter'', ''init_hidden_prop_getter'', [U32]),
     (''InitElemGetter'', ''init_elem_getter'', []),
     (''InitHiddenElemGetter'', ''init_hidden_elem_getter'', []),
     (''InitPropSetter'', ''init_prop_setter'', [U32]),
     (''InitHiddenPropSetter'', ''init_hidden_prop_setter'', [U32]),
     (''InitElemSetter'', ''init_elem_setter'', []),
     (''InitHiddenElemSetter'', ''init_hidden_elem_setter'', []),
     (''GetProp'', ''get_prop'', [U32]),
     (''GetElem'', ''get_elem'', []),
     (''SetProp'', ''set_prop'', [U32])]"

definition arms_objects :: "Arm list" where
  "arms_objects = [
     (''StrictSetProp'', ''strict_set_prop'', [U32]),
     (''SetElem'', ''set_elem'', []),
     (''StrictSetElem'', ''strict_set_elem'', []),
     (''DelProp'', ''del_prop'', [U32]),
     (''StrictDelProp'', ''strict_del_prop'', [U32]),
     (''DelElem'', ''del_elem'', []),
     (''StrictDelElem'', ''strict_del_elem'', []),
     (''HasOwn'', ''has_own'', []),
     (''CheckPrivateField'', ''check_private_field'', [U8, U8]),
     (''NewPrivateName'', ''new_private_name'', [U32]),
     (''SuperBase'', ''super_base'', []),
     (''GetPropSuper'', ''get_prop_super'', [U32]),
     (''GetElemSuper'', ''get_elem_super'', []),
     (''SetPropSuper'', ''set_prop_super'', [U32]),
     (''StrictSetPropSuper'', ''strict_set_prop_super'', [U32]),
     (''SetElemSuper'', ''set_elem_super'', []),
     (''StrictSetElemSuper'', ''strict_set_elem_super'', []),
     (''Iter'', ''iter'', []),
     (''MoreIter'', ''more_iter'', []),
     (''IsNoIter'', ''is_no_iter'', []),
     (''EndIter'', ''end_iter'', []),
     (''CloseIter'', ''close_iter'', [U8]),
     (''OptimizeGetIterator'', ''optimize_get_iterator'', []),
     (''CheckIsObj'', ''check_is_obj'', [U8]),
     (''CheckObjCoercible'', ''check_obj_coercible'', []),
     (''ToAsyncIter'', ''to_async_iter'', []),
     (''MutateProto'', ''mutate_proto'', []),
     (''NewArray'', ''new_array'', [U32]),
     (''InitElemArray'', ''init_elem_array'', [U32]),
     (''InitElemInc'', ''init_elem_inc'', []),
     (''Hole'', ''hole'', []),
     (''RegExp'', ''reg_exp'', [U32]),
     (''Lambda'', ''lambda'', [U32]),
     (''SetFunName'', ''set_fun_name'', [U8]),
     (''InitHomeObject'', ''init_home_object'', []),
     (''CheckClassHeritage'', ''check_class_heritage'', []),
     (''FunWithProto'', ''fun_with_proto'', [U32]),
     (''BuiltinObject'', ''builtin_object'', [U8]),
     (''Call'', ''call'', [U16]),
     (''CallContent'', ''call_content'', [U16]),
     (''CallIter'', ''call_iter'', [U16]),
     (''CallContentIter'', ''call_content_iter'', [U16]),
     (''CallIgnoresRv'', ''call_ignores_rv'', [U16]),
     (''SpreadCall'', ''spread_call'', []),
     (''OptimizeSpreadCall'', ''optimize_spread_call'', []),
     (''Eval'', ''eval'', [U16]),
     (''SpreadEval'', ''spread_eval'', []),
     (''StrictEval'', ''strict_eval'', [U16]),
     (''StrictSpreadEval'', ''strict_spread_eval'', []),
     (''ImplicitThis'', ''implicit_this'', []),
     (''CallSiteObj'', ''call_site_obj'', [U32]),
     (''IsConstructing'', ''is_constructing'', []),
     (''New'', ''new_'', [U16]),
     (''NewContent'', ''new_content'', [U16]),
     (''SuperCall'', ''super_call'', [U16]),
     (''SpreadNew'', ''spread_new'', []),
     (''SpreadSuperCall'', ''spread_super_call'', []),
     (''SuperFun'', ''super_fun'', []),
     (''CheckThisReinit'', ''check_this_reinit'', [])]"

definition arms_calls :: "Arm list" where
  "arms_calls = [
     (''Generator'', ''generator'', []),
     (''InitialYield'', ''initial_yield'', [U24]),
     (''AfterYield'', ''after_yield'', [U32]),
     (''FinalYieldRval'', ''final_yield_rval'', []),
     (''Yield'', ''yield_'', [U24]),
     (''IsGenClosing'', ''is_gen_closing'', []),
     (''AsyncAwait'', ''async_await'', []),
     (''AsyncResolve'', ''async_resolve'', []),
     (''AsyncReject'', ''async_reject'', []),
     (''Await'', ''await_'', [U24]),
     (''CanSkipAwait'', ''can_skip_await'', []),
     (''MaybeExtractAwaitValue'', ''maybe_extract_await_value'', []),
     (''ResumeKind'', ''resume_kind'', [U8]),
     (''CheckResumeKind'', ''check_resume_kind'', []),
     (''Resume'', ''resume'', []),
     (''JumpTarget'', ''jump_target'', [U32]),
     (''LoopHead'', ''loop_head'', [U32, U8]),
     (''Goto'', ''goto_'', [I32]),
     (''JumpIfFalse'', ''jump_if_false'', [I32]),
     (''JumpIfTrue'', ''jump_if_true'', [I32]),
     (''And'', ''and_'', [I32]),
     (''Or'', ''or_'', [I32]),
     (''Coalesce'', ''coalesce'', [I32]),
     (''Case'', ''case_'', [I32]),
     (''Default'', ''default_'', [I32]),
     (''TableSwitch'', ''table_switch'', [I32, I32, I32, U24]),
     (''Return'', ''return_'', []),
     (''GetRval'', ''get_rval'', []),
     (''SetRval'', ''set_rval'', []),
     (''RetRval'', ''ret_rval'', []),
     (''CheckReturn'', ''check_return'', []),
     (''Throw'', ''throw_'', []),
     (''ThrowWithStack'', ''throw_with_stack'', []),
     (''CreateSuppressedError'', ''create_suppressed_error'', []),
     (''ThrowMsg'', ''throw_msg'', [U8]),
     (''ThrowSetConst'', ''throw_set_const'', [U32]),
     (''Try'', ''try_'', []),
     (''TryDestructuring'', ''try_destructuring'', []),
     (''Exception'', ''exception'', []),
     (''ExceptionAndStack'', ''exception_and_stack'', []),
     (''Finally'', ''finally'', []),
     (''Uninitialized'', ''uninitialized'', []),
     (''InitLexical'', ''init_lexical'', [U24]),
     (''InitGLexical'', ''init_g_lexical'', [U32]),
     (''InitAliasedLexical'', ''init_aliased_lexical'', [U16, U24]),
     (''CheckLexical'', ''check_lexical'', [U24]),
     (''CheckAliasedLexical'', ''check_aliased_lexical'', [U16, U24]),
     (''CheckThis'', ''check_this'', []),
     (''BindUnqualifiedGName'', ''bind_unqualified_g_name'', [U32]),
     (''BindUnqualifiedName'', ''bind_unqualified_name'', [U32]),
     (''BindName'', ''bind_name'', [U32]),
     (''GetName'', ''get_name'', [U32]),
     (''GetGName'', ''get_g_name'', [U32]),
     (''GetArg'', ''get_arg'', [U16])]"

definition arms_names :: "Arm list" where
  "arms_names = [
     (''GetFrameArg'', ''get_frame_arg'', [U16]),
     (''GetLocal'', ''get_local'', [U24]),
     (''ArgumentsLength'', ''arguments_length'', []),
     (''GetActualArg'', ''get_actual_arg'', []),
     (''GetAliasedVar'', ''get_aliased_var'', [U16, U24]),
     (''GetAliasedDebugVar'', ''get_aliased_debug_var'', [U16, U24]),
     (''GetImport'', ''get_import'', [U32]),
     (''GetBoundName'', ''get_bound_name'', [U32]),
     (''GetIntrinsic'', ''get_intrinsic'', [U32]),
     (''Callee'', ''callee'', []),
     (''EnvCallee'', ''env_callee'', [U16]),
     (''SetName'', ''set_name'', [U32]),
     (''StrictSetName'', ''strict_set_name'', [U32]),
     (''SetGName'', ''set_g_name'', [U32]),
     (''StrictSetGName'', ''strict_set_g_name'', [U32]),
     (''SetArg'', ''set_arg'', [U16]),
     (''SetLocal'', ''set_local'', [U24]),
     (''SetAliasedVar'', ''set_aliased_var'', [U16, U24]),
     (''SetIntrinsic'', ''set_intrinsic'', [U32]),
     (''PushLexicalEnv'', ''push_lexical_env'', [U32]),
     (''PopLexicalEnv'', ''pop_lexical_env'', []),
     (''DebugLeaveLexicalEnv'', ''debug_leave_lexical_env'', []),
     (''RecreateLexicalEnv'', ''recreate_lexical_env'', [U32]),
     (''FreshenLexicalEnv'', ''freshen_lexical_env'', [U32]),
     (''PushClassBodyEnv'', ''push_class_body_env'', [U32]),
     (''PushVarEnv'', ''push_var_env'', [U32]),
     (''EnterWith'', ''enter_with'', [U32]),
     (''LeaveWith'', ''leave_with'', []),
     (''AddDisposable'', ''add_disposable'', [U8]),
     (''TakeDisposeCapability'', ''take_dispose_capability'', []),
     (''BindVar'', ''bind_var'', []),
     (''GlobalOrEvalDeclInstantiation'', ''global_or_eval_decl_instantiation'', [U32]),
     (''DelName'', ''del_name'', [U32]),
     (''Arguments'', ''arguments'', []),
     (''Rest'', ''rest'', []),
     (''FunctionThis'', ''function_this'', []),
     (''Pop'', ''pop'', []),
     (''PopN'', ''pop_n'', [U16]),
     (''Dup'', ''dup'', []),
     (''Dup2'', ''dup2'', []),
     (''DupAt'', ''dup_at'', [U24]),
     (''Swap'', ''swap'', []),
     (''Pick'', ''pick'', [U8]),
     (''Unpick'', ''unpick'', [U8]),
     (''Nop'', ''nop'', []),
     (''Lineno'', ''lineno'', [U32]),
     (''NopDestructuring'', ''nop_destructuring'', []),
     (''ForceInterpreter'', ''force_interpreter'', []),
     (''DebugCheckSelfHosted'', ''debug_check_self_hosted'', []),
     (''Debugger'', ''debugger'', [])]"

definition arms :: "Arm list" where
  "arms = arms_values @ arms_objects @ arms_calls @ arms_names"

definition read_operand :: "Fmt \<Rightarrow> Parser \<Rightarrow> (int \<times> Parser) option" where
  "read_operand f p =
     (case f of
        U8 \<Rightarrow> map_option (\<lambda>(w, p). (uint w, p)) (next_uint8 p)
      | U16 \<Rightarrow> map_option (\<lambda>(w, p). (uint w, p)) (next_uint16 p)
      | U24 \<Rightarrow> map_option (\<lambda>(w, p). (uint w, p)) (next_uint24 p)
      | U32 \<Rightarrow> map_option (\<lambda>(w, p). (uint w, p)) (next_uint32 p)
      | U64 \<Rightarrow> map_option (\<lambda>(w, p). (uint w, p)) (next_uint64 p)
      | I32 \<Rightarrow> next_int32 p)"

fun read_operands :: "Fmt list \<Rightarrow> Parser \<Rightarrow> (int list \<times> Parser) option" where
  "read_operands [] p = Some ([], p)"
| "read_operands (f # fs) p = Option.bind (read_operand f p) (\<lambda>(v, p').
     Option.bind (read_operands fs p') (\<lambda>(vs, p''). Some (v # vs, p'')))"

section \<open>The visit\<close>

datatype Event =
    BeforeOp Pc JSOp nat nat
  | Callback string "int list"
  | SwitchCallback int int int "Pc list"
  | NoteEvent Pc TryNote

definition op_uses :: "JSOps \<Rightarrow> JSOp \<Rightarrow> Parser \<Rightarrow> u32 option" where
  "op_uses t op p =
     (if op \<in> set [''Call'', ''CallContent'', ''CallIter'', ''CallContentIter'', ''CallIgnoresRv'', ''Eval'', ''StrictEval'']
      then map_option (\<lambda>n. ucast n + 2) (peek_uint16 p)
      else if op \<in> set [''New'', ''NewContent'', ''SuperCall''] then map_option (\<lambda>n. ucast n + 3) (peek_uint16 p)
      else if op = ''PopN'' then map_option ucast (peek_uint16 p)
      else op_nuses t op)"

definition switch_event :: "Parser \<Rightarrow> int list \<Rightarrow> Event option" where
  "switch_event p vs =
     (case vs of
        [dflt, low, high, first] \<Rightarrow>
          (let count = high - low + 1
           in if 0 \<le> count \<and> first + count \<le> int (length (pr_resume p))
              then Some (SwitchCallback dflt low high (take (nat count) (drop (nat first) (pr_resume p))))
              else None)
      | _ \<Rightarrow> None)"

definition op_event :: "JSOp \<Rightarrow> Parser \<Rightarrow> (Event \<times> Parser) option" where
  "op_event op p = Option.bind (map_of arms op) (\<lambda>(cb, fmts).
     Option.bind (read_operands fmts p) (\<lambda>(vs, p').
       map_option (\<lambda>ev. (ev, p')) (if op = ''TableSwitch'' then switch_event p' vs else Some (Callback cb vs))))"

function drain_notes :: "Pc \<Rightarrow> Parser \<Rightarrow> Event list \<times> Parser" where
  "drain_notes pc p =
     (case try_note_at_pc p of
        None \<Rightarrow> ([], p)
      | Some (n, p') \<Rightarrow> (let (evs, q) = drain_notes pc p' in (NoteEvent pc n # evs, q)))"
  by pat_completeness auto
termination
  by (relation "measure (\<lambda>(_, p). length (pr_notes p) - pr_note_idx p)") (auto simp: try_note_at_pc_def split: if_splits)

declare drain_notes.simps [simp del]

text \<open>One turn of the loop: \<open>Some None\<close> at the end of the bytes.\<close>

definition visit_step :: "JSOps \<Rightarrow> Pc \<Rightarrow> Parser \<Rightarrow> (Event list \<times> Pc \<times> Parser) option option" where
  "visit_step t pc p = Option.bind (next_op t p) (\<lambda>r. case r of
     None \<Rightarrow> Some None
   | Some (op, p1) \<Rightarrow>
       Option.bind (op_uses t op p1) (\<lambda>nuses.
       Option.bind (op_event op p1) (\<lambda>(ev, p2).
         let consumed = of_nat (length (pr_data p) - length (pr_data p2)) :: u32
         in if consumed \<noteq> op_len t op then None
            else let pc' = pc + consumed; (notes, p3) = drain_notes pc' p2
              in Some (Some (BeforeOp pc op (unat nuses) (unat (op_ndefs t op)) # ev # notes, pc', p3)))))"

lemma read_byte_data: "read_byte p = Some (b, p') \<Longrightarrow> pr_data p = b # pr_data p' \<and> pr_pc p' = pr_pc p + 1"
  by (auto simp: read_byte_def split: list.splits)

lemma drain_notes_data: "pr_data (snd (drain_notes pc p)) = pr_data p \<and> pr_pc (snd (drain_notes pc p)) = pr_pc p"
proof (induction pc p rule: drain_notes.induct)
  case (1 pc p)
  show ?case
  proof (cases "try_note_at_pc p")
    case (Some r)
    then obtain n p' where r: "try_note_at_pc p = Some (n, p')" by (cases r) auto
    then have "pr_data p' = pr_data p" "pr_pc p' = pr_pc p" by (auto simp: try_note_at_pc_def split: if_splits)
    with 1 [OF r refl] r show ?thesis by (subst (1 2) drain_notes.simps) (auto split: prod.splits)
  qed (simp add: drain_notes.simps)
qed

section \<open>What the readers consume\<close>

fun fmt_size :: "Fmt \<Rightarrow> nat" where
  "fmt_size U8 = 1"
| "fmt_size U16 = 2"
| "fmt_size U24 = 3"
| "fmt_size U32 = 4"
| "fmt_size U64 = 8"
| "fmt_size I32 = 4"

abbreviation fmts_size :: "Fmt list \<Rightarrow> nat" where
  "fmts_size fs \<equiv> sum_list (map fmt_size fs)"

lemma advance_0 [simp]: "advance p 0 = Some p"
  by (simp add: advance_def)

lemma advance_trans: "advance p j = Some q \<Longrightarrow> advance q k = Some r \<Longrightarrow> advance p (j + k) = Some r"
  by (auto simp: advance_def add.commute split: if_splits)

lemma read_byte_advance: "read_byte p = Some (b, q) \<Longrightarrow> advance p 1 = Some q \<and> hd (pr_data p) = b"
  by (auto simp: read_byte_def advance_def split: list.splits)

lemma advance_Suc: "advance p (Suc 0) = Some b \<Longrightarrow> advance b k = Some q \<Longrightarrow> advance p (Suc k) = Some q"
  using advance_trans [of p 1 b k q] by simp

lemma next_uint16_advance: "next_uint16 p = Some (w, q) \<Longrightarrow> advance p 2 = Some q"
  unfolding numeral_2_eq_2
  by (auto simp: next_uint16_def Option.bind_eq_Some_conv dest!: read_byte_advance) (rule advance_Suc)

lemma next_uint24_advance: "next_uint24 p = Some (w, q) \<Longrightarrow> advance p 3 = Some q"
  unfolding numeral_3_eq_3
  by (auto simp: next_uint24_def Option.bind_eq_Some_conv dest!: read_byte_advance) (blast intro: advance_Suc)

lemma advance_4:
  "advance p (Suc 0) = Some b \<Longrightarrow> advance b (Suc 0) = Some c \<Longrightarrow> advance c (Suc 0) = Some d \<Longrightarrow> advance d (Suc 0) = Some q \<Longrightarrow>
   advance p 4 = Some q"
  using advance_trans [of p 2 c 2 q] advance_Suc [of p b 1 c] advance_Suc [of c d 1 q] by (simp add: eval_nat_numeral)

lemma next_uint32_advance: "next_uint32 p = Some (w, q) \<Longrightarrow> advance p 4 = Some q"
  by (auto simp: next_uint32_def Option.bind_eq_Some_conv dest!: read_byte_advance)
    (rule advance_4)

lemma next_uint64_advance: "next_uint64 p = Some (w, q) \<Longrightarrow> advance p 8 = Some q"
  using advance_trans [of p 4 _ 4 q]
  by (auto simp: next_uint64_def Option.bind_eq_Some_conv dest!: next_uint32_advance)

lemma read_operand_advance: "read_operand f p = Some (v, q) \<Longrightarrow> advance p (fmt_size f) = Some q"
  by (cases f) (auto simp: read_operand_def next_uint8_def next_int32_def dest: read_byte_advance next_uint16_advance
      next_uint24_advance next_uint32_advance next_uint64_advance)

lemma read_operands_advance: "read_operands fs p = Some (vs, q) \<Longrightarrow> advance p (fmts_size fs) = Some q \<and> length vs = length fs"
  by (induction fs arbitrary: p vs) (auto simp: Option.bind_eq_Some_conv dest!: read_operand_advance intro: advance_trans)

lemma arms_sizes: "list_all (\<lambda>(op, cb, fs). fmts_size fs \<le> 15) arms"
  by (simp add: arms_def arms_values_def arms_objects_def arms_calls_def arms_names_def)

lemma arm_size: "map_of arms op = Some (cb, fs) \<Longrightarrow> fmts_size fs \<le> 15"
  using arms_sizes map_of_SomeD by (fastforce simp: list_all_iff)

lemma op_event_advance:
  assumes "op_event op p = Some (ev, q)"
  obtains cb fs where "map_of arms op = Some (cb, fs)" "advance p (fmts_size fs) = Some q"
  using assms by (auto simp: op_event_def Option.bind_eq_Some_conv dest!: read_operands_advance)

lemma visit_step_shape:
  assumes "visit_step t pc p = Some (Some (evs, pc', p'))"
  obtains op nuses ev k p2 where
    "pr_data p \<noteq> []" "from_byte t (hd (pr_data p)) = Some op" "op_len t op = of_nat k" "0 < k" "k \<le> 16"
    "advance p k = Some p2" "p' = snd (drain_notes pc' p2)" "pc' = pc + of_nat k"
    "evs = BeforeOp pc op nuses (unat (op_ndefs t op)) # ev # fst (drain_notes pc' p2)"
    "\<not> (\<exists>a b c d. ev = BeforeOp a b c d)" "\<not> (\<exists>a b. ev = NoteEvent a b)"
proof -
  from assms obtain b p1 op where b: "read_byte p = Some (b, p1)" "from_byte t b = Some op"
    by (auto simp: visit_step_def next_op_def Option.bind_eq_Some_conv split: option.splits)
  with assms obtain n ev p2 where
    ev: "op_event op p1 = Some (ev, p2)" and
    len: "op_len t op = of_nat (length (pr_data p) - length (pr_data p2))" and
    pc': "pc' = pc + of_nat (length (pr_data p) - length (pr_data p2))" and
    evs: "evs = BeforeOp pc op n (unat (op_ndefs t op)) # ev # fst (drain_notes pc' p2)" and
    p': "p' = snd (drain_notes pc' p2)"
    by (auto simp: visit_step_def next_op_def Option.bind_eq_Some_conv Let_def split: if_splits prod.splits)
  from ev obtain cb fs where fs: "map_of arms op = Some (cb, fs)" "advance p1 (fmts_size fs) = Some p2"
    by (rule op_event_advance)
  from read_byte_advance [OF b(1)] have adv: "advance p (1 + fmts_size fs) = Some p2" and hd: "hd (pr_data p) = b"
    using fs(2) by (auto intro: advance_trans [of _ 1, simplified])
  have k: "length (pr_data p) - length (pr_data p2) = 1 + fmts_size fs"
    using adv by (auto simp: advance_def split: if_splits)
  have "\<not> (\<exists>a b c d. ev = BeforeOp a b c d)" "\<not> (\<exists>a b. ev = NoteEvent a b)"
    using ev by (auto simp: op_event_def switch_event_def Let_def Option.bind_eq_Some_conv split: if_splits list.splits)
  moreover have "pr_data p \<noteq> []" using b(1) by (auto simp: read_byte_def)
  ultimately show thesis
    using that [of op "1 + fmts_size fs" p2 n ev] adv hd b(2) len pc' evs p' arm_size [OF fs(1)] k by simp
qed

lemma visit_step_shorter: "visit_step t pc p = Some (Some (evs, pc', p')) \<Longrightarrow> length (pr_data p') < length (pr_data p)"
  by (erule visit_step_shape) (auto simp: advance_def drain_notes_data split: if_splits)

text \<open>The loop of \<open>visit\<close> from the visitor position \<open>pc\<close>.\<close>

function visit_from :: "JSOps \<Rightarrow> Pc \<Rightarrow> Parser \<Rightarrow> Event list option" where
  "visit_from t pc p =
     (case visit_step t pc p of
        None \<Rightarrow> None
      | Some None \<Rightarrow> Some []
      | Some (Some (evs, pc', p')) \<Rightarrow> map_option (append evs) (visit_from t pc' p'))"
  by pat_completeness auto
termination
  by (relation "measure (\<lambda>(t, pc, p). length (pr_data p))") (auto dest: visit_step_shorter)

declare visit_from.simps [simp del]

definition visit :: "JSOps \<Rightarrow> Script \<Rightarrow> Event list option" where
  "visit t s = visit_from t 0 (parser s)"

text \<open>The iterator of \<open>opcodes\<close>: an op, then a jump over its length; a length 0 underflows and panics.\<close>

function opcodes :: "JSOps \<Rightarrow> Parser \<Rightarrow> JSOp list option" where
  "opcodes t p =
     (case next_op t p of
        None \<Rightarrow> None
      | Some None \<Rightarrow> Some []
      | Some (Some (op, p1)) \<Rightarrow>
          if op_len t op = 0 then None
          else case advance p1 (unat (op_len t op) - 1) of
            None \<Rightarrow> Some []
          | Some p2 \<Rightarrow> map_option (Cons op) (opcodes t p2))"
  by pat_completeness auto
termination
  by (relation "measure (\<lambda>(t, p). length (pr_data p))")
    (auto simp: next_op_def read_byte_def advance_def split: option.splits list.splits if_splits)

declare opcodes.simps [simp del]

end
