(* ===== verification/Bytecode_Visit.thy ===== *)
theory Bytecode_Visit
  imports Bytecode
begin

unbundle bit_operations_syntax

text \<open>
  What \<open>BytecodeParser::visit\<close> and \<open>opcodes\<close> do on whole scripts (\<^verbatim>\<open>compiler/src/bytecode.rs\<close>): the ops tile the
  code, the try notes are handed out at op ends, the iterator and the visitor see the same ops, and bytes
  that encode a list of instructions are decoded to exactly those instructions.
\<close>

section \<open>Where the ops and the notes land\<close>

fun befores :: "Event list \<Rightarrow> (Pc \<times> JSOp) list" where
  "befores [] = []"
| "befores (BeforeOp pc op _ _ # evs) = (pc, op) # befores evs"
| "befores (_ # evs) = befores evs"

fun surfaced :: "Event list \<Rightarrow> (Pc \<times> TryNote) list" where
  "surfaced [] = []"
| "surfaced (NoteEvent pc n # evs) = (pc, n) # surfaced evs"
| "surfaced (_ # evs) = surfaced evs"

text \<open>The ops decoded from byte \<open>k\<close> on tile the code: each starts where the one before it ends.\<close>

fun tiles :: "JSOps \<Rightarrow> u8 list \<Rightarrow> nat \<Rightarrow> (Pc \<times> JSOp) list \<Rightarrow> bool" where
  "tiles t code k [] = (k = length code)"
| "tiles t code k ((pc, op) # ops) =
     (pc = of_nat k \<and> k < length code \<and> from_byte t (code ! k) = Some op \<and> op_len t op \<noteq> 0 \<and>
      tiles t code (k + unat (op_len t op)) ops)"

text \<open>The notes handed out over the op ends \<open>bs\<close>: each at the first end its start does not exceed.\<close>

fun hand_out :: "Pc list \<Rightarrow> TryNote list \<Rightarrow> (Pc \<times> TryNote) list" where
  "hand_out [] ns = []"
| "hand_out (b # bs) ns =
     map (Pair b) (takeWhile (\<lambda>n. tn_start n \<le> b) ns) @ hand_out bs (dropWhile (\<lambda>n. tn_start n \<le> b) ns)"

lemma befores_append [simp]: "befores (xs @ ys) = befores xs @ befores ys"
  by (induction xs rule: befores.induct) auto

lemma surfaced_append [simp]: "surfaced (xs @ ys) = surfaced xs @ surfaced ys"
  by (induction xs rule: surfaced.induct) auto

lemma befores_notes [simp]: "befores (map (NoteEvent pc) ns) = []"
  by (induction ns) auto

lemma surfaced_notes [simp]: "surfaced (map (NoteEvent pc) ns) = map (Pair pc) ns"
  by (induction ns) auto

lemma befores_other: "\<not> (\<exists>a b c d. ev = BeforeOp a b c d) \<Longrightarrow> befores (ev # evs) = befores evs"
  by (cases ev) auto

lemma surfaced_other: "\<not> (\<exists>a b. ev = NoteEvent a b) \<Longrightarrow> surfaced (ev # evs) = surfaced evs"
  by (cases ev) auto

lemma drain_notes_spec:
  "drain_notes pc p =
     (map (NoteEvent pc) (takeWhile (\<lambda>n. tn_start n \<le> pr_pc p) (drop (pr_note_idx p) (pr_notes p))),
      p\<lparr>pr_note_idx := pr_note_idx p + length (takeWhile (\<lambda>n. tn_start n \<le> pr_pc p) (drop (pr_note_idx p) (pr_notes p)))\<rparr>)"
proof (induction pc p rule: drain_notes.induct)
  case (1 pc p)
  let ?ok = "pr_note_idx p < length (pr_notes p) \<and> tn_start (pr_notes p ! pr_note_idx p) \<le> pr_pc p"
  show ?case
  proof (cases ?ok)
    case True
    then have r: "try_note_at_pc p = Some (pr_notes p ! pr_note_idx p, p\<lparr>pr_note_idx := pr_note_idx p + 1\<rparr>)"
      by (simp add: try_note_at_pc_def)
    from True have "drop (pr_note_idx p) (pr_notes p) = pr_notes p ! pr_note_idx p # drop (Suc (pr_note_idx p)) (pr_notes p)"
      by (simp add: Cons_nth_drop_Suc)
    with 1 [OF r refl] r True show ?thesis by (subst drain_notes.simps) simp
  next
    case False
    then have "takeWhile (\<lambda>n. tn_start n \<le> pr_pc p) (drop (pr_note_idx p) (pr_notes p)) = []"
      by (cases "pr_note_idx p < length (pr_notes p)") (auto simp: Cons_nth_drop_Suc [symmetric])
    moreover from False have "try_note_at_pc p = None" by (auto simp: try_note_at_pc_def)
    ultimately show ?thesis by (simp add: drain_notes.simps)
  qed
qed

text \<open>One turn, as the proofs use it.\<close>

lemma visit_step_turn:
  assumes "visit_step t pc p = Some (Some (evs, pc', p'))"
  obtains op k where
    "pr_data p \<noteq> []" "from_byte t (hd (pr_data p)) = Some op" "unat (op_len t op) = k" "0 < k" "k \<le> length (pr_data p)"
    "pr_data p' = drop k (pr_data p)" "pr_pc p' = pr_pc p + of_nat k" "pc' = pc + of_nat k"
    "befores evs = [(pc, op)]"
    "surfaced evs = map (Pair pc') (takeWhile (\<lambda>n. tn_start n \<le> pr_pc p') (drop (pr_note_idx p) (pr_notes p)))"
    "drop (pr_note_idx p') (pr_notes p') = dropWhile (\<lambda>n. tn_start n \<le> pr_pc p') (drop (pr_note_idx p) (pr_notes p))"
proof -
  from assms obtain op nuses ev k p2 where s:
    "pr_data p \<noteq> []" "from_byte t (hd (pr_data p)) = Some op" "op_len t op = of_nat k" "0 < k" "k \<le> 16"
    "advance p k = Some p2" "p' = snd (drain_notes pc' p2)" "pc' = pc + of_nat k"
    "evs = BeforeOp pc op nuses (unat (op_ndefs t op)) # ev # fst (drain_notes pc' p2)"
    "\<not> (\<exists>a b c d. ev = BeforeOp a b c d)" "\<not> (\<exists>a b. ev = NoteEvent a b)"
    by (rule visit_step_shape)
  have "unat (op_len t op) = k" using s(3,5) by (simp add: unat_of_nat take_bit_nat_eq_self)
  moreover have p2: "p2 = p\<lparr>pr_data := drop k (pr_data p), pr_pc := pr_pc p + of_nat k\<rparr>" "k \<le> length (pr_data p)"
    using s(6) by (auto simp: advance_def split: if_splits)
  moreover have "dropWhile Q xs = drop (length (takeWhile Q xs)) xs" for Q and xs :: "TryNote list"
    by (metis append_eq_conv_conj takeWhile_dropWhile_id)
  ultimately show thesis
    using that [of op k] s(1-4,7-9) befores_other [OF s(10)] surfaced_other [OF s(11)]
    by (simp add: drain_notes_spec add.commute)
qed

lemma visit_from_cases:
  assumes "visit_from t pc p = Some evs"
  obtains (stop) "pr_data p = []" "evs = []"
    | (turn) e pc' p' es where "visit_step t pc p = Some (Some (e, pc', p'))" "visit_from t pc' p' = Some es" "evs = e @ es"
proof (cases "visit_step t pc p")
  case (Some r)
  show thesis
  proof (cases r)
    case None
    with Some have "pr_data p = []"
      by (auto simp: visit_step_def next_op_def read_byte_def Option.bind_eq_Some_conv Let_def
          split: option.splits list.splits if_splits prod.splits)
    moreover have "evs = []" using assms Some None by (subst (asm) visit_from.simps) simp
    ultimately show ?thesis by (rule stop)
  next
    case (Some r')
    with \<open>visit_step t pc p = Some r\<close> assms show ?thesis
      by (subst (asm) visit_from.simps) (cases r', auto intro: turn)
  qed
qed (use assms in \<open>subst (asm) visit_from.simps, simp\<close>)

lemma visit_from_tiles:
  assumes "visit_from t pc p = Some evs" "pr_data p = drop k code" "k \<le> length code" "pc = of_nat k"
  shows "tiles t code k (befores evs)"
  using assms
proof (induction t pc p arbitrary: k evs rule: visit_from.induct)
  case (1 t pc p)
  from "1.prems"(1) show ?case
  proof (cases rule: visit_from_cases)
    case stop
    with "1.prems" show ?thesis by simp
  next
    case (turn e pc' p' es)
    from turn(1) show ?thesis
    proof (rule visit_step_turn)
      fix op j
      assume j: "pr_data p \<noteq> []" "from_byte t (hd (pr_data p)) = Some op" "unat (op_len t op) = j" "0 < j" "j \<le> length (pr_data p)"
        "pr_data p' = drop j (pr_data p)" "pc' = pc + of_nat j" "befores e = [(pc, op)]"
      have "tiles t code (k + j) (befores es)"
        using "1.IH" [OF turn(1) refl refl refl turn(2), of "k + j"] j "1.prems" by (simp add: add.commute)
      moreover have "k < length code" "hd (pr_data p) = code ! k"
        using j(1) "1.prems"(2,3) by (auto simp: hd_drop_conv_nth)
      moreover have "op_len t op \<noteq> 0" using j(3,4) by auto
      ultimately show ?thesis using j "1.prems"(4) turn(3) by simp
    qed
  qed
qed


definition op_ends :: "JSOps \<Rightarrow> (Pc \<times> JSOp) list \<Rightarrow> Pc list" where
  "op_ends t ops = map (\<lambda>(pc, op). pc + op_len t op) ops"

lemma op_ends_simps [simp]:
  "op_ends t [] = []" "op_ends t ((pc, op) # ops) = (pc + op_len t op) # op_ends t ops"
  by (simp_all add: op_ends_def)

lemma visit_from_hand_out:
  assumes "visit_from t pc p = Some evs" "pr_pc p = pc"
  shows "surfaced evs = hand_out (op_ends t (befores evs)) (drop (pr_note_idx p) (pr_notes p))"
  using assms
proof (induction t pc p arbitrary: evs rule: visit_from.induct)
  case (1 t pc p)
  from "1.prems"(1) show ?case
  proof (cases rule: visit_from_cases)
    case stop
    then show ?thesis by simp
  next
    case (turn e pc' p' es)
    from turn(1) show ?thesis
    proof (rule visit_step_turn)
      fix op j
      assume j: "unat (op_len t op) = j" "pr_pc p' = pr_pc p + of_nat j" "pc' = pc + of_nat j" "befores e = [(pc, op)]"
        "surfaced e = map (Pair pc') (takeWhile (\<lambda>n. tn_start n \<le> pr_pc p') (drop (pr_note_idx p) (pr_notes p)))"
        "drop (pr_note_idx p') (pr_notes p') = dropWhile (\<lambda>n. tn_start n \<le> pr_pc p') (drop (pr_note_idx p) (pr_notes p))"
      have "surfaced es = hand_out (op_ends t (befores es)) (drop (pr_note_idx p') (pr_notes p'))"
        using "1.IH" [OF turn(1) refl refl refl turn(2)] j(2,3) "1.prems"(2) by simp
      moreover have "of_nat j = op_len t op" using j(1) by auto
      ultimately show ?thesis using j(2-6) turn(3) "1.prems"(2) by simp
    qed
  qed
qed

lemma hand_out_find:
  assumes "sorted (map tn_start ns)"
  shows "hand_out bs ns = map (\<lambda>n. (the (find (\<lambda>b. tn_start n \<le> b) bs), n)) (filter (\<lambda>n. \<exists>b\<in>set bs. tn_start n \<le> b) ns)"
  using assms
proof (induction bs arbitrary: ns)
  case (Cons b bs)
  let ?T = "takeWhile (\<lambda>n. tn_start n \<le> b) ns" and ?D = "dropWhile (\<lambda>n. tn_start n \<le> b) ns"
  have D: "\<forall>n\<in>set ?D. \<not> tn_start n \<le> b"
    using Cons.prems by (induction ns) (auto simp: not_le intro: less_le_trans)
  have T: "\<forall>n\<in>set ?T. tn_start n \<le> b" by (auto dest: set_takeWhileD)
  have sD: "sorted (map tn_start ?D)"
    using Cons.prems by (metis append_take_drop_id dropWhile_eq_drop map_append sorted_append)
  have f: "filter P ns = filter P ?T @ filter P ?D" for P
    by (metis filter_append takeWhile_dropWhile_id)
  have ff: "filter (\<lambda>n. \<exists>c\<in>set (b # bs). tn_start n \<le> c) ns = ?T @ filter (\<lambda>n. \<exists>c\<in>set bs. tn_start n \<le> c) ?D"
  proof -
    have "filter (\<lambda>n. \<exists>c\<in>set (b # bs). tn_start n \<le> c) ?T = ?T"
      by (rule filter_True) (use T in \<open>metis list.set_intros(1)\<close>)
    moreover have "filter (\<lambda>n. \<exists>c\<in>set (b # bs). tn_start n \<le> c) ?D = filter (\<lambda>n. \<exists>c\<in>set bs. tn_start n \<le> c) ?D"
      by (rule filter_cong [OF refl]) (use D in \<open>metis list.set_intros(2) set_ConsD\<close>)
    ultimately show ?thesis by (simp only: f)
  qed
  have mT: "map (\<lambda>n. (the (find (\<lambda>c. tn_start n \<le> c) (b # bs)), n)) ?T = map (Pair b) ?T"
    using T by (intro map_cong refl) simp
  have mD: "map (\<lambda>n. (the (find (\<lambda>c. tn_start n \<le> c) (b # bs)), n)) (filter (\<lambda>n. \<exists>c\<in>set bs. tn_start n \<le> c) ?D) =
      hand_out bs ?D"
    unfolding Cons.IH [OF sD]
  proof (rule map_cong [OF refl])
    fix n
    assume "n \<in> set (filter (\<lambda>n. \<exists>c\<in>set bs. tn_start n \<le> c) ?D)"
    then have "n \<in> set ?D" by (rule filter_is_subset [THEN subsetD])
    with D have "\<not> tn_start n \<le> b" by (rule bspec)
    then show "(the (find (\<lambda>c. tn_start n \<le> c) (b # bs)), n) = (the (find (\<lambda>c. tn_start n \<le> c) bs), n)" by simp
  qed
  show ?case unfolding ff map_append mT mD by simp
qed simp

lemma visit_from_opcodes:
  assumes "visit_from t pc p = Some evs" "pr_data q = pr_data p"
  shows "opcodes t q = Some (map snd (befores evs))"
  using assms
proof (induction t pc p arbitrary: q evs rule: visit_from.induct)
  case (1 t pc p)
  from "1.prems"(1) show ?case
  proof (cases rule: visit_from_cases)
    case stop
    with "1.prems" show ?thesis by (subst opcodes.simps) (simp add: next_op_def read_byte_def)
  next
    case (turn e pc' p' es)
    from turn(1) show ?thesis
    proof (rule visit_step_turn)
      fix op j
      assume j: "pr_data p \<noteq> []" "from_byte t (hd (pr_data p)) = Some op" "unat (op_len t op) = j" "0 < j" "j \<le> length (pr_data p)"
        "pr_data p' = drop j (pr_data p)" "befores e = [(pc, op)]"
      let ?q1 = "q\<lparr>pr_data := tl (pr_data q), pr_pc := pr_pc q + 1\<rparr>"
      let ?q2 = "?q1\<lparr>pr_data := drop (j - 1) (pr_data ?q1), pr_pc := pr_pc ?q1 + of_nat (j - 1)\<rparr>"
      have "next_op t q = Some (Some (op, ?q1))"
        using j(1,2) "1.prems"(2) by (cases "pr_data p") (auto simp: next_op_def read_byte_def)
      moreover have "advance ?q1 (j - 1) = Some ?q2"
        using j(5) "1.prems"(2) by (auto simp: advance_def)
      moreover have "opcodes t ?q2 = Some (map snd (befores es))"
        using "1.IH" [OF turn(1) refl refl refl turn(2), of ?q2] j(4,6) "1.prems"(2)
        by (simp add: drop_Suc [symmetric] del: drop_Suc)
      moreover have "op_len t op \<noteq> 0" using j(3,4) by auto
      ultimately show ?thesis using j(3,7) turn(3) by (subst opcodes.simps) simp
    qed
  qed
qed

section \<open>Encoded instructions\<close>

primrec le_bytes :: "nat \<Rightarrow> int \<Rightarrow> u8 list" where
  "le_bytes 0 v = []"
| "le_bytes (Suc k) v = word_of_int v # le_bytes k (drop_bit 8 v)"

fun fits :: "Fmt \<Rightarrow> int \<Rightarrow> bool" where
  "fits I32 v = (- (2 ^ 31) \<le> v \<and> v < 2 ^ 31)"
| "fits f v = (0 \<le> v \<and> v < 2 ^ (8 * fmt_size f))"

abbreviation enc_operand :: "Fmt \<Rightarrow> int \<Rightarrow> u8 list" where
  "enc_operand f v \<equiv> le_bytes (fmt_size f) v"

fun enc_operands :: "Fmt list \<Rightarrow> int list \<Rightarrow> u8 list" where
  "enc_operands (f # fs) (v # vs) = enc_operand f v @ enc_operands fs vs"
| "enc_operands _ _ = []"

lemma join_u16: "ucast (word_of_int v :: u8) OR push_bit 8 (ucast (word_of_int (drop_bit 8 v) :: u8)) = (word_of_int v :: u16)"
  by (rule bit_word_eqI) (auto simp: bit_simps)

lemma join_u24:
  "ucast (word_of_int v :: u8) OR push_bit 8 (ucast (word_of_int (drop_bit 8 v) :: u8)) OR
   push_bit 16 (ucast (word_of_int (drop_bit 16 v) :: u8)) = (word_of_int (take_bit 24 v) :: u32)"
proof (rule bit_word_eqI)
  fix n
  show "bit (ucast (word_of_int v :: u8) OR push_bit 8 (ucast (word_of_int (drop_bit 8 v) :: u8)) OR
      push_bit 16 (ucast (word_of_int (drop_bit 16 v) :: u8)) :: u32) n = bit (word_of_int (take_bit 24 v) :: u32) n"
    by (cases "n < 8"; cases "n < 16") (auto simp: bit_simps)
qed

lemma join_u32:
  "ucast (word_of_int v :: u8) OR push_bit 8 (ucast (word_of_int (drop_bit 8 v) :: u8)) OR
   push_bit 16 (ucast (word_of_int (drop_bit 16 v) :: u8)) OR push_bit 24 (ucast (word_of_int (drop_bit 24 v) :: u8)) =
   (word_of_int v :: u32)"
proof (rule bit_word_eqI)
  fix n
  show "bit (ucast (word_of_int v :: u8) OR push_bit 8 (ucast (word_of_int (drop_bit 8 v) :: u8)) OR
      push_bit 16 (ucast (word_of_int (drop_bit 16 v) :: u8)) OR push_bit 24 (ucast (word_of_int (drop_bit 24 v) :: u8)) :: u32) n =
      bit (word_of_int v :: u32) n"
    by (cases "n < 8"; cases "n < 16"; cases "n < 24") (auto simp: bit_simps)
qed

lemma join_u64:
  "ucast (word_of_int v :: u32) OR push_bit 32 (ucast (word_of_int (drop_bit 32 v) :: u32)) = (word_of_int v :: u64)"
  by (rule bit_word_eqI) (auto simp: bit_simps)

lemma le_bytes_numeral:
  "le_bytes 1 v = [word_of_int v]"
  "le_bytes (Suc 0) v = [word_of_int v]"
  "le_bytes 2 v = [word_of_int v, word_of_int (drop_bit 8 v)]"
  "le_bytes 3 v = [word_of_int v, word_of_int (drop_bit 8 v), word_of_int (drop_bit 16 v)]"
  "le_bytes 4 v = [word_of_int v, word_of_int (drop_bit 8 v), word_of_int (drop_bit 16 v), word_of_int (drop_bit 24 v)]"
  by (simp_all add: eval_nat_numeral)

lemma le_bytes_8: "le_bytes 8 v = le_bytes 4 v @ le_bytes 4 (drop_bit 32 v)"
  by (simp add: eval_nat_numeral)

lemma length_le_bytes [simp]: "length (le_bytes k v) = k"
  by (induction k arbitrary: v) auto

text \<open>The parser once \<open>k\<close> bytes are read and \<open>rest\<close> is left.\<close>

definition past :: "Parser \<Rightarrow> nat \<Rightarrow> u8 list \<Rightarrow> Parser" where
  "past p k rest = p\<lparr>pr_data := rest, pr_pc := pr_pc p + of_nat k\<rparr>"

lemma past_simps [simp]:
  "pr_data (past p k r) = r" "pr_notes (past p k r) = pr_notes p" "pr_resume (past p k r) = pr_resume p"
  "pr_note_idx (past p k r) = pr_note_idx p" "past (past p j r) k r' = past p (j + k) r'"
  by (simp_all add: past_def add.commute add.left_commute)

lemma next_uint16_enc: "pr_data p = le_bytes 2 v @ rest \<Longrightarrow> next_uint16 p = Some (word_of_int v, past p 2 rest)"
  by (simp add: next_uint16_def read_byte_def past_def le_bytes_numeral join_u16)

lemma next_uint24_enc: "pr_data p = le_bytes 3 v @ rest \<Longrightarrow> next_uint24 p = Some (word_of_int (take_bit 24 v), past p 3 rest)"
  by (simp add: next_uint24_def read_byte_def past_def le_bytes_numeral join_u24)

lemma next_uint32_enc: "pr_data p = le_bytes 4 v @ rest \<Longrightarrow> next_uint32 p = Some (word_of_int v, past p 4 rest)"
  by (simp add: next_uint32_def read_byte_def past_def le_bytes_numeral join_u32)

lemma next_uint64_enc: "pr_data p = le_bytes 8 v @ rest \<Longrightarrow> next_uint64 p = Some (word_of_int v, past p 8 rest)"
  unfolding le_bytes_8 append_assoc
  by (simp add: next_uint64_def next_uint32_enc next_uint32_enc [where v = "drop_bit 32 v"] join_u64)

lemma read_operand_enc:
  assumes "pr_data p = enc_operand f v @ rest" "fits f v"
  shows "read_operand f p = Some (v, past p (fmt_size f) rest)"
proof (cases f)
  case U24
  then have "take_bit 24 v = v" using assms(2) by (simp add: take_bit_int_eq_self)
  then show ?thesis using assms U24
    by (simp add: read_operand_def next_uint24_enc unsigned_of_int take_bit_int_eq_self)
next
  case I32
  then show ?thesis using assms
    by (simp add: read_operand_def next_int32_def next_uint32_enc signed_of_int signed_take_bit_int_eq_self)
qed (use assms in \<open>simp_all add: read_operand_def next_uint8_def read_byte_def le_bytes_numeral next_uint16_enc next_uint32_enc
      next_uint64_enc past_def unsigned_of_int take_bit_int_eq_self\<close>)

lemma read_operands_enc:
  assumes "pr_data p = enc_operands fs vs @ rest" "list_all2 fits fs vs"
  shows "read_operands fs p = Some (vs, past p (fmts_size fs) rest)"
  using assms(2,1)
proof (induction fs vs arbitrary: p rule: list_all2_induct)
  case Nil
  then show ?case by (simp add: past_def)
next
  case (Cons f fs v vs)
  then show ?case by (simp add: read_operand_enc)
qed

type_synonym Instr = "JSOp \<times> int list"

definition call_ops :: "JSOp list" where
  "call_ops = [''Call'', ''CallContent'', ''CallIter'', ''CallContentIter'', ''CallIgnoresRv'', ''Eval'', ''StrictEval'']"

definition new_ops :: "JSOp list" where
  "new_ops = [''New'', ''NewContent'', ''SuperCall'']"

text \<open>The stack uses an instruction has: by its argument count for calls, constructions and \<open>PopN\<close>.\<close>

definition instr_uses :: "JSOps \<Rightarrow> Instr \<Rightarrow> nat option" where
  "instr_uses t = (\<lambda>(op, vs).
     if op \<in> set call_ops then Some (nat (hd vs) + 2)
     else if op \<in> set new_ops then Some (nat (hd vs) + 3)
     else if op = ''PopN'' then Some (nat (hd vs))
     else map_option unat (op_nuses t op))"

text \<open>The callback an instruction makes; a switch gets its slice of the resume offsets.\<close>

definition instr_event :: "Pc list \<Rightarrow> Instr \<Rightarrow> Event" where
  "instr_event resume = (\<lambda>(op, vs).
     if op = ''TableSwitch'' then
       SwitchCallback (vs ! 0) (vs ! 1) (vs ! 2) (map (\<lambda>i. resume ! (nat (vs ! 3) + i)) [0..<nat (vs ! 2 - vs ! 1 + 1)])
     else Callback (fst (the (map_of arms op))) vs)"

fun instrs_events :: "JSOps \<Rightarrow> Pc list \<Rightarrow> Pc \<Rightarrow> Instr list \<Rightarrow> Event list" where
  "instrs_events t resume pc [] = []"
| "instrs_events t resume pc ((op, vs) # is) =
     BeforeOp pc op (the (instr_uses t (op, vs))) (unat (op_ndefs t op)) # instr_event resume (op, vs) #
     instrs_events t resume (pc + op_len t op) is"

definition enc_instr :: "(JSOp \<Rightarrow> u8) \<Rightarrow> Instr \<Rightarrow> u8 list" where
  "enc_instr to_byte = (\<lambda>(op, vs). to_byte op # enc_operands (snd (the (map_of arms op))) vs)"

text \<open>An instruction the code may hold: a known op with operands of its layout, whose table entry agrees with that layout.\<close>

definition instr_ok :: "JSOps \<Rightarrow> (JSOp \<Rightarrow> u8) \<Rightarrow> Pc list \<Rightarrow> Instr \<Rightarrow> bool" where
  "instr_ok t to_byte resume = (\<lambda>(op, vs).
     from_byte t (to_byte op) = Some op \<and> instr_uses t (op, vs) \<noteq> None \<and>
     (case map_of arms op of
        None \<Rightarrow> False
      | Some (_, fs) \<Rightarrow> list_all2 fits fs vs \<and> op_len t op = of_nat (1 + fmts_size fs)) \<and>
     (if op = ''TableSwitch'' then vs ! 1 \<le> vs ! 2 + 1 \<and> vs ! 3 + (vs ! 2 - vs ! 1 + 1) \<le> int (length resume) else True))"

definition is_note :: "Event \<Rightarrow> bool" where
  "is_note ev = (case ev of NoteEvent _ _ \<Rightarrow> True | _ \<Rightarrow> False)"

lemmas arm_lists = arms_def arms_values_def arms_objects_def arms_calls_def arms_names_def

lemma variadic_arms: "list_all (\<lambda>(op, cb, fs). op \<in> set call_ops \<union> set new_ops \<union> {''PopN''} \<longrightarrow> fs = [U16]) arms"
  by (simp add: arm_lists call_ops_def new_ops_def)

lemma switch_arms: "list_all (\<lambda>(op, cb, fs). op = ''TableSwitch'' \<longrightarrow> fs = [I32, I32, I32, U24]) arms"
  by (simp add: arm_lists)

lemma variadic_u16:
  "op \<in> set call_ops \<union> set new_ops \<union> {''PopN''} \<Longrightarrow> map_of arms op = Some (cb, fs) \<Longrightarrow> fs = [U16]"
  using variadic_arms map_of_SomeD by (fastforce simp: list_all_iff)

lemma switch_layout: "map_of arms ''TableSwitch'' = Some (cb, fs) \<Longrightarrow> fs = [I32, I32, I32, U24]"
  using switch_arms map_of_SomeD by (fastforce simp: list_all_iff)

lemma peek_enc: "pr_data p = le_bytes 2 v @ rest \<Longrightarrow> peek_uint16 p = Some (word_of_int v)"
  by (simp add: peek_uint16_def le_bytes_numeral join_u16)

lemma unat_argc:
  assumes "fits U16 v" "k \<le> 3"
  shows "unat (ucast (word_of_int v :: u16) + of_nat k :: u32) = nat v + k"
proof -
  have v: "0 \<le> v" "v < 65536" using assms(1) by auto
  have "ucast (word_of_int v :: u16) + of_nat k = (of_nat (nat v + k) :: u32)"
    using v by (simp add: unsigned_of_int take_bit_int_eq_self)
  then show ?thesis using v assms(2) by (simp only: unat_of_nat) (simp add: take_bit_nat_eq_self)
qed

lemma op_uses_enc:
  assumes "map_of arms op = Some (cb, fs)" "list_all2 fits fs vs" "pr_data p = enc_operands fs vs @ rest"
    "instr_uses t (op, vs) = Some n"
  obtains w where "op_uses t op p = Some w" "unat w = n"
proof (cases "op \<in> set call_ops \<union> set new_ops \<union> {''PopN''}")
  case True
  with variadic_u16 [OF True assms(1)] assms(2) obtain v where v: "vs = [v]" "fits U16 v" "fs = [U16]"
    by (auto simp: list_all2_Cons1)
  have "peek_uint16 p = Some (word_of_int v)" using assms(3) v by (intro peek_enc) (simp add: eval_nat_numeral)
  note peek = this and argc = unat_argc [OF v(2)]
  from True consider "op \<in> set call_ops" | "op \<in> set new_ops" "op \<notin> set call_ops" | "op = ''PopN''" "op \<notin> set call_ops" "op \<notin> set new_ops"
    by blast
  then show thesis
  proof cases
    case 1
    with assms(4) v(1) have "n = nat v + 2" by (simp add: instr_uses_def)
    with 1 peek argc [of 2] show thesis by (intro that) (simp_all add: op_uses_def call_ops_def)
  next
    case 2
    with assms(4) v(1) have "n = nat v + 3" by (simp add: instr_uses_def)
    with 2 peek argc [of 3] show thesis by (intro that) (simp_all add: op_uses_def call_ops_def new_ops_def)
  next
    case 3
    with assms(4) v(1) have "n = nat v" by (simp add: instr_uses_def)
    with 3 peek argc [of 0] show thesis by (intro that) (simp_all add: op_uses_def call_ops_def new_ops_def)
  qed
next
  case False
  then have "instr_uses t (op, vs) = map_option unat (op_uses t op p)"
    by (simp add: op_uses_def instr_uses_def call_ops_def new_ops_def)
  with assms(4) show thesis by (auto intro: that)
qed

lemma length_enc_operands: "list_all2 fits fs vs \<Longrightarrow> length (enc_operands fs vs) = fmts_size fs"
  by (induction fs vs rule: list_all2_induct) auto

lemma take_drop_map: "n + k \<le> length xs \<Longrightarrow> take k (drop n xs) = map (\<lambda>i. xs ! (n + i)) [0..<k]"
  by (rule nth_equalityI) auto

lemma op_event_enc:
  assumes "map_of arms op = Some (cb, fs)" "list_all2 fits fs vs" "pr_data p = enc_operands fs vs @ rest"
    "instr_ok t to_byte (pr_resume p) (op, vs)"
  shows "op_event op p = Some (instr_event (pr_resume p) (op, vs), past p (fmts_size fs) rest)"
proof (cases "op = ''TableSwitch''")
  case True
  with assms(1) switch_layout have fs: "fs = [I32, I32, I32, U24]" by simp
  with assms(2) obtain d l h f where vs: "vs = [d, l, h, f]" and f: "0 \<le> f" by (auto simp: list_all2_Cons1)
  from assms(4) True vs have "l \<le> h + 1" "f + (h - l + 1) \<le> int (length (pr_resume p))" by (auto simp: instr_ok_def)
  with f vs have "switch_event (past p (fmts_size fs) rest) vs = Some (instr_event (pr_resume p) (op, vs))"
    by (simp add: switch_event_def instr_event_def True take_drop_map)
  with True assms(1-3) read_operands_enc [OF assms(3,2)] show ?thesis by (simp add: op_event_def)
next
  case False
  with assms(1) read_operands_enc [OF assms(3,2)] show ?thesis by (simp add: op_event_def instr_event_def)
qed


lemma visit_step_enc:
  assumes ok: "instr_ok t to_byte (pr_resume p) (op, vs)" and data: "pr_data p = enc_instr to_byte (op, vs) @ rest"
  obtains e p' where "visit_step t pc p = Some (Some (e, pc + op_len t op, p'))" "pr_data p' = rest" "pr_resume p' = pr_resume p"
    "filter (\<lambda>ev. \<not> is_note ev) e =
       [BeforeOp pc op (the (instr_uses t (op, vs))) (unat (op_ndefs t op)), instr_event (pr_resume p) (op, vs)]"
proof -
  from ok obtain cb fs n where op: "map_of arms op = Some (cb, fs)" and vs: "list_all2 fits fs vs"
    and len: "op_len t op = of_nat (1 + fmts_size fs)" and n: "instr_uses t (op, vs) = Some n"
    and byte: "from_byte t (to_byte op) = Some op"
    by (auto simp: instr_ok_def split: option.splits)
  define p1 where "p1 = past p 1 (enc_operands fs vs @ rest)"
  define p2 where "p2 = past p1 (fmts_size fs) rest"
  define pc' where "pc' = pc + op_len t op"
  have next1: "next_op t p = Some (Some (op, p1))"
    using data op byte by (simp add: next_op_def read_byte_def enc_instr_def p1_def past_def)
  from op_uses_enc [OF op vs, of p1 rest t n] n obtain w where w: "op_uses t op p1 = Some w" "unat w = n"
    by (auto simp: p1_def)
  have ev: "op_event op p1 = Some (instr_event (pr_resume p) (op, vs), p2)"
    using op_event_enc [OF op vs, of p1 rest t to_byte] ok by (simp add: p1_def p2_def)
  have consumed: "(of_nat (length (pr_data p) - length (pr_data p2)) :: u32) = op_len t op"
    using data op len length_enc_operands [OF vs] by (simp add: p2_def enc_instr_def)
  have step: "visit_step t pc p = Some (Some (BeforeOp pc op n (unat (op_ndefs t op)) #
      instr_event (pr_resume p) (op, vs) # fst (drain_notes pc' p2), pc', snd (drain_notes pc' p2)))"
    using next1 w ev consumed by (simp add: visit_step_def pc'_def Let_def split: prod.splits)
  have "\<not> is_note (instr_event (pr_resume p) (op, vs))"
    by (simp add: is_note_def instr_event_def)
  then show thesis
    using that [OF step [unfolded pc'_def]] n
    by (simp add: drain_notes_spec p2_def p1_def is_note_def filter_map o_def)
qed

lemma visit_from_enc:
  assumes "list_all (instr_ok t to_byte (pr_resume p)) is" "pr_data p = concat (map (enc_instr to_byte) is)"
  shows "\<exists>evs. visit_from t pc p = Some evs \<and> filter (\<lambda>ev. \<not> is_note ev) evs = instrs_events t (pr_resume p) pc is"
  using assms
proof (induction "is" arbitrary: pc p)
  case Nil
  then show ?case by (subst visit_from.simps) (simp add: visit_step_def next_op_def read_byte_def)
next
  case (Cons i "is")
  obtain op vs where i: "i = (op, vs)" by (cases i)
  from Cons.prems i have "instr_ok t to_byte (pr_resume p) (op, vs)"
    and "pr_data p = enc_instr to_byte (op, vs) @ concat (map (enc_instr to_byte) is)" by simp_all
  then show ?case
  proof (rule visit_step_enc [where pc = pc])
    fix e p'
    assume step: "visit_step t pc p = Some (Some (e, pc + op_len t op, p'))" and
      p': "pr_data p' = concat (map (enc_instr to_byte) is)" "pr_resume p' = pr_resume p" and
      e: "filter (\<lambda>ev. \<not> is_note ev) e =
       [BeforeOp pc op (the (instr_uses t (op, vs))) (unat (op_ndefs t op)), instr_event (pr_resume p) (op, vs)]"
    from Cons.IH [of p' "pc + op_len t op"] Cons.prems(1) p' obtain es where
      "visit_from t (pc + op_len t op) p' = Some es"
      "filter (\<lambda>ev. \<not> is_note ev) es = instrs_events t (pr_resume p) (pc + op_len t op) is" by auto
    with step e i show ?thesis by (subst visit_from.simps) simp
  qed
qed

section \<open>Properties\<close>

text \<open>C29. Round trip of the bytecode: a script whose bytes encode a list of well-formed instructions is visited to
  the end, and apart from the try notes the visitor gets exactly, in order, each instruction's pc, op, stack
  uses and definitions, and its callback with the operands that were encoded (a table switch with its slice of
  the resume offsets).\<close>

theorem visit_decodes_encoded:
  assumes "list_all (instr_ok t to_byte (resume_offsets s)) is"
    and "bytecode s = concat (map (enc_instr to_byte) is)"
  shows "\<exists>evs. visit t s = Some evs \<and> filter (\<lambda>ev. \<not> is_note ev) evs = instrs_events t (resume_offsets s) 0 is"
  using visit_from_enc [of t to_byte "parser s" "is" 0] assms by (simp add: visit_def parser_def)

text \<open>A table of four ops and a script over it, with a call, a switch and two try notes.\<close>

definition demo_ops :: JSOps where
  "demo_ops = \<lparr>
     from_byte = (\<lambda>b. map_of [(0, ''Undefined''), (1, ''Int8''), (2, ''Call''), (3, ''TableSwitch'')] (uint b)),
     op_len = (\<lambda>op. case map_of [(''Int8'', 2), (''Call'', 3), (''TableSwitch'', 16)] op of Some n \<Rightarrow> n | None \<Rightarrow> 1),
     op_nuses = (\<lambda>op. if op = ''Call'' then None else if op = ''TableSwitch'' then Some 1 else Some 0),
     op_ndefs = (\<lambda>op. if op = ''TableSwitch'' then 0 else 1)\<rparr>"

definition demo_byte :: "JSOp \<Rightarrow> u8" where
  "demo_byte op = (if op = ''Int8'' then 1 else if op = ''Call'' then 2 else if op = ''TableSwitch'' then 3 else 0)"

definition demo_instrs :: "Instr list" where
  "demo_instrs = [(''Undefined'', []), (''Int8'', [200]), (''Call'', [258]), (''TableSwitch'', [-5, 7, 8, 1])]"

definition demo_note :: "u32 \<Rightarrow> TryNote" where
  "demo_note k = \<lparr>tn_kind = Loop, tn_stack_depth = 0, tn_start = k, tn_length = 4\<rparr>"

definition demo_script :: Script where
  "demo_script = \<lparr>bytecode = [0, 1, 200, 2, 2, 1, 3, 251, 255, 255, 255, 7, 0, 0, 0, 8, 0, 0, 0, 1, 0, 0],
     addr = 0, gcthings = [], resume_offsets = [10, 20, 30], try_notes = [demo_note 3, demo_note 2, demo_note 99],
     scope_notes = [], body_scope = None, nargs = 0, is_generator_or_async = False, is_class_ctor = False,
     strict = True, has_mapped_args = False\<rparr>"

definition demo_events :: "Event list" where
  "demo_events = [
     BeforeOp 0 ''Undefined'' 0 1, Callback ''undefined'' [],
     BeforeOp 1 ''Int8'' 0 1, Callback ''int8'' [200], NoteEvent 3 (demo_note 2), NoteEvent 3 (demo_note 3),
     BeforeOp 3 ''Call'' 260 1, Callback ''call'' [258],
     BeforeOp 6 ''TableSwitch'' 1 0, SwitchCallback (-5) 7 8 [20, 30]]"

theorem visit_decodes_encoded_witness:
  "list_all (instr_ok demo_ops demo_byte (resume_offsets demo_script)) demo_instrs \<and>
   bytecode demo_script = concat (map (enc_instr demo_byte) demo_instrs) \<and>
   (\<exists>evs. visit demo_ops demo_script = Some evs \<and>
      filter (\<lambda>ev. \<not> is_note ev) evs = instrs_events demo_ops [10, 20, 30] 0 demo_instrs)"
proof -
  have ok: "list_all (instr_ok demo_ops demo_byte (resume_offsets demo_script)) demo_instrs" by code_simp
  have enc: "bytecode demo_script = concat (map (enc_instr demo_byte) demo_instrs)" by code_simp
  show ?thesis using ok enc visit_decodes_encoded [OF ok enc] by (simp add: demo_script_def)
qed

lemma demo_visit: "visit demo_ops demo_script = Some demo_events"
  by code_simp

text \<open>C30. The visit covers the code without gap or overlap: the ops it reports start at byte 0, each at the byte where
  the one before it ends, each decoded from the byte at its start, and the last ends at the end of the code.\<close>

theorem visit_tiles_code:
  assumes "visit t s = Some evs"
  shows "tiles t (bytecode s) 0 (befores evs)"
  using visit_from_tiles [of t 0 "parser s" evs 0 "bytecode s"] assms by (simp add: visit_def parser_def)

theorem visit_tiles_code_witness:
  "visit demo_ops demo_script = Some demo_events \<and> tiles demo_ops (bytecode demo_script) 0 (befores demo_events)"
  using demo_visit visit_tiles_code [OF demo_visit] by simp

text \<open>Every try note that starts within the code is surfaced exactly once, in the order of the starts (ties in
  the stored order), at the first op end its start does not exceed; the others never.\<close>

theorem visit_surfaces_notes:
  assumes "visit t s = Some evs"
  defines "ends \<equiv> op_ends t (befores evs)"
  shows "surfaced evs =
    map (\<lambda>n. (the (find (\<lambda>b. tn_start n \<le> b) ends), n))
      (filter (\<lambda>n. \<exists>b\<in>set ends. tn_start n \<le> b) (sort_key tn_start (try_notes s)))"
  using visit_from_hand_out [of t 0 "parser s" evs] assms(1) hand_out_find [of "sort_key tn_start (try_notes s)" ends]
  by (simp add: visit_def parser_def ends_def)

theorem visit_surfaces_notes_witness:
  "visit demo_ops demo_script = Some demo_events \<and>
   surfaced demo_events = [(3, demo_note 2), (3, demo_note 3)] \<and>
   surfaced demo_events =
    map (\<lambda>n. (the (find (\<lambda>b. tn_start n \<le> b) (op_ends demo_ops (befores demo_events))), n))
      (filter (\<lambda>n. \<exists>b\<in>set (op_ends demo_ops (befores demo_events)). tn_start n \<le> b)
        (sort_key tn_start (try_notes demo_script)))"
  using demo_visit visit_surfaces_notes [OF demo_visit] by (simp add: demo_events_def)

text \<open>The opcode iterator agrees with the visit: on every script the visit accepts, it yields the same ops in the
  same order, to the end of the code.\<close>

theorem opcodes_agree_with_visit:
  assumes "visit t s = Some evs"
  shows "opcodes t (parser s) = Some (map snd (befores evs))"
  using visit_from_opcodes [of t 0 "parser s" evs "parser s"] assms by (simp add: visit_def)

theorem opcodes_agree_with_visit_witness:
  "visit demo_ops demo_script = Some demo_events \<and>
   opcodes demo_ops (parser demo_script) = Some [''Undefined'', ''Int8'', ''Call'', ''TableSwitch'']"
  using demo_visit opcodes_agree_with_visit [OF demo_visit] by (simp add: demo_events_def)

end
