(* ===== verification/Flow.thy ===== *)
theory Flow
  imports Bytecode_Visit
begin

text \<open>
  The control flow of one op, as the two scans of \<^verbatim>\<open>compiler/src/wasm/bbv\<close> read it off the visitor callbacks:
  \<open>FlowScan\<close> of \<^verbatim>\<open>cfg.rs\<close> rebases a segment by \<open>base\<close>, \<open>LiveScan\<close> of \<^verbatim>\<open>live.rs\<close> declares the same \<open>Flow\<close>
  and the same callbacks at base 0. Everything not named here falls through.
\<close>

datatype Flow = Br Pc | CondBr Pc | Switch "Pc list" | Ret | Halt

definition target :: "Pc \<Rightarrow> int \<Rightarrow> Pc" where
  "target pc off = pc_branch pc (word_of_int off)"

definition flow_of_event :: "Pc \<Rightarrow> Pc \<Rightarrow> Event \<Rightarrow> Flow option" where
  "flow_of_event base pc ev =
     (case ev of
        Callback cb vs \<Rightarrow>
          if cb \<in> set [''goto_'', ''default_''] then Some (Br (target pc (vs ! 0)))
          else if cb \<in> set [''jump_if_false'', ''jump_if_true'', ''and_'', ''or_'', ''coalesce'', ''case_'']
          then Some (CondBr (target pc (vs ! 0)))
          else if cb \<in> set [''return_'', ''ret_rval''] then Some Ret
          else if cb \<in> set [''throw_'', ''throw_with_stack'', ''throw_msg'', ''throw_set_const''] then Some Halt
          else None
      | SwitchCallback default_off _ _ offsets \<Rightarrow>
          Some (Switch (map (\<lambda>p. base + p) offsets @ [target pc default_off]))
      | _ \<Rightarrow> None)"

text \<open>The landing pad of a catch or a finally is one past its covered range; the other notes land nowhere.\<close>

definition lands :: "TryNote \<Rightarrow> bool" where
  "lands n = (tn_kind n = Catch \<or> tn_kind n = Finally)"

definition note_end :: "TryNote \<Rightarrow> Pc" where
  "note_end n = tn_start n + tn_length n"

end
