(* ===== verification/Cfg.thy ===== *)
theory Cfg
  imports Flow "HOL-Library.Product_Lexorder"
begin

text \<open>
  The control-flow graph of a body, \<^verbatim>\<open>compiler/src/wasm/bbv/cfg.rs\<close>: the flow scan of the root script and of every
  splice segment, the cutting of basic blocks, the successor and predecessor lists, the dominator tree by
  Cooper-Harvey-Kennedy over a reverse postorder, the natural loops and the queries. Block numbers are \<open>nat\<close>,
  the sentinel \<open>NONE\<close> is \<open>None\<close> of \<open>nat option\<close>; a panic (an index out of range, a script that does not parse, an empty
  body) and a loop that would not end are \<open>None\<close>. \<open>dump\<close> prints diagnostics and is left out.
\<close>

section \<open>The flow scan\<close>

text \<open>The fields of a splice segment that the graph reads.\<close>

record InlineSeg =
  sg_base :: Pc
  sg_script :: Script
  sg_call_pc :: Pc
  sg_ret_pc :: Pc

record FlowScan =
  fs_base :: Pc
  fs_pc :: Pc
  fs_ops :: "(Pc \<times> u32) list"
  fs_flow :: "Pc \<rightharpoonup> Flow"
  fs_handlers :: "Pc list"

definition flow_scan_event :: "JSOps \<Rightarrow> Event \<Rightarrow> FlowScan \<Rightarrow> FlowScan" where
  "flow_scan_event t ev st =
     (case ev of
        BeforeOp pc op _ _ \<Rightarrow> st\<lparr>fs_pc := fs_base st + pc, fs_ops := fs_ops st @ [(fs_base st + pc, op_len t op)]\<rparr>
      | NoteEvent _ n \<Rightarrow> if lands n then st\<lparr>fs_handlers := fs_handlers st @ [fs_base st + tn_start n + tn_length n]\<rparr> else st
      | _ \<Rightarrow>
          (case flow_of_event (fs_base st) (fs_pc st) ev of
             None \<Rightarrow> st
           | Some f \<Rightarrow> st\<lparr>fs_flow := (fs_flow st)(fs_pc st \<mapsto> f)\<rparr>))"

definition flow_scan :: "JSOps \<Rightarrow> Script \<Rightarrow> Pc \<Rightarrow> FlowScan option" where
  "flow_scan t s base =
     map_option (\<lambda>evs. fold (flow_scan_event t) evs
       \<lparr>fs_base = base, fs_pc = 0, fs_ops = [], fs_flow = Map.empty, fs_handlers = []\<rparr>) (visit t s)"

section \<open>Leaders and blocks\<close>

definition op_leaders :: "(Pc \<rightharpoonup> Flow) \<Rightarrow> Pc \<times> u32 \<Rightarrow> Pc list" where
  "op_leaders flow = (\<lambda>(pc, len).
     case flow pc of
       None \<Rightarrow> []
     | Some (Br u) \<Rightarrow> [u, pc + len]
     | Some (CondBr u) \<Rightarrow> [u, pc + len]
     | Some (Switch us) \<Rightarrow> us @ [pc + len]
     | Some Ret \<Rightarrow> [pc + len]
     | Some Halt \<Rightarrow> [pc + len])"

text \<open>What the scans of the root and the segments add up to; an instance is a pc range and its segment.\<close>

record Scans =
  sc_ops :: "(Pc \<times> u32) list"
  sc_flow :: "Pc \<rightharpoonup> Flow"
  sc_leaders :: "Pc list"
  sc_instance :: "(Pc \<times> Pc \<times> nat option) list"
  sc_handlers :: "Pc list"

definition scan_instance :: "JSOps \<Rightarrow> Script \<Rightarrow> Pc \<Rightarrow> nat option \<Rightarrow> Scans \<Rightarrow> Scans option" where
  "scan_instance t s base seg acc =
     map_option (\<lambda>fs.
       \<lparr>sc_ops = sc_ops acc @ fs_ops fs,
        sc_flow = sc_flow acc ++ fs_flow fs,
        sc_leaders = sc_leaders acc @ base # fs_handlers fs @ concat (map (op_leaders (fs_flow fs)) (fs_ops fs)),
        sc_instance = sc_instance acc @ [(base, base + of_nat (length (bytecode s)), seg)],
        sc_handlers = sc_handlers acc @ fs_handlers fs\<rparr>) (flow_scan t s base)"

fun scan_segs :: "JSOps \<Rightarrow> nat \<Rightarrow> InlineSeg list \<Rightarrow> Scans \<Rightarrow> Scans option" where
  "scan_segs t i [] acc = Some acc"
| "scan_segs t i (g # gs) acc =
     Option.bind (scan_instance t (sg_script g) (sg_base g) (Some i) acc) (scan_segs t (i + 1) gs)"

text \<open>The scans, with the segment entries and return points as leaders and the ops sorted by pc.\<close>

definition scan_body :: "JSOps \<Rightarrow> Script \<Rightarrow> InlineSeg list \<Rightarrow> Scans option" where
  "scan_body t root segs =
     Option.bind (scan_instance t root 0 None \<lparr>sc_ops = [], sc_flow = Map.empty, sc_leaders = [], sc_instance = [], sc_handlers = []\<rparr>)
       (\<lambda>acc. map_option (\<lambda>sc. sc\<lparr>sc_ops := sort (sc_ops sc),
            sc_leaders := sc_leaders sc @ concat (map (\<lambda>g. [sg_base g, sg_ret_pc g]) segs)\<rparr>)
          (scan_segs t 0 segs acc))"

text \<open>A block runs from a leader, or the start of its instance, to the next leader.\<close>

function cut_runs :: "Pc list \<Rightarrow> (Pc \<times> u32) list \<Rightarrow> (Pc \<times> u32) list list" where
  "cut_runs leaders [] = []"
| "cut_runs leaders (x # xs) =
     (x # takeWhile (\<lambda>y. fst y \<notin> set leaders) xs) # cut_runs leaders (dropWhile (\<lambda>y. fst y \<notin> set leaders) xs)"
  by pat_completeness auto
termination by (relation "measure (\<lambda>(_, xs). length xs)") (auto simp: length_dropWhile_le le_imp_less_Suc)

definition instance_ops :: "(Pc \<times> u32) list \<Rightarrow> Pc \<Rightarrow> Pc \<Rightarrow> (Pc \<times> u32) list" where
  "instance_ops ops base fin =
     drop (partition_point (\<lambda>(p, _). p < base) ops) (take (partition_point (\<lambda>(p, _). p < fin) ops) ops)"

definition body_runs :: "Scans \<Rightarrow> ((Pc \<times> u32) list \<times> nat option) list" where
  "body_runs sc = concat (map (\<lambda>(base, fin, seg). map (\<lambda>r. (r, seg)) (cut_runs (sc_leaders sc) (instance_ops (sc_ops sc) base fin)))
     (sc_instance sc))"

definition run_end :: "(Pc \<times> u32) list \<Rightarrow> Pc" where
  "run_end r = fst (last r) + snd (last r)"

definition runs_span :: "((Pc \<times> u32) list \<times> nat option) list \<Rightarrow> (Pc \<times> Pc \<times> nat) list" where
  "runs_span runs = sort (map (\<lambda>b. (fst (hd (fst (runs ! b))), run_end (fst (runs ! b)), b)) [0..<length runs])"

definition span_block :: "(Pc \<times> Pc \<times> nat) list \<Rightarrow> Pc \<Rightarrow> nat option" where
  "span_block span pc =
     (let i = partition_point (\<lambda>(s, _, _). s \<le> pc) span
      in if i = 0 then None
         else case span ! (i - 1) of (_, e, b) \<Rightarrow> if pc < e then Some b else None)"

section \<open>Edges\<close>

definition some_list :: "'a option \<Rightarrow> 'a list" where
  "some_list r = (case r of None \<Rightarrow> [] | Some x \<Rightarrow> [x])"

definition block_succs :: "InlineSeg list \<Rightarrow> Scans \<Rightarrow> (Pc \<times> Pc \<times> nat) list \<Rightarrow> (Pc \<times> u32) list \<times> nat option \<Rightarrow> nat list" where
  "block_succs segs sc span = (\<lambda>(run, seg).
     let (pc, len) = last run; goes = (\<lambda>u. some_list (span_block span u))
     in (case sc_flow sc pc of
           None \<Rightarrow> goes (pc + len)
         | Some (Br u) \<Rightarrow> goes u
         | Some (CondBr u) \<Rightarrow> goes u @ goes (pc + len)
         | Some (Switch us) \<Rightarrow> concat (map goes us)
         | Some Ret \<Rightarrow> (case seg of None \<Rightarrow> [] | Some i \<Rightarrow> goes (sg_ret_pc (segs ! i)))
         | Some Halt \<Rightarrow> [])
        @ concat (map (\<lambda>g. if sg_call_pc g = pc then goes (sg_base g) else []) segs))"

definition sort_dedup :: "nat list \<Rightarrow> nat list" where
  "sort_dedup xs = remdups_adj (sort xs)"

text \<open>The handlers become successors of the entry block.\<close>

definition body_succs :: "InlineSeg list \<Rightarrow> Scans \<Rightarrow> nat list list" where
  "body_succs segs sc =
     (let runs = body_runs sc; span = runs_span runs; succs = map (\<lambda>r. sort_dedup (block_succs segs sc span r)) runs;
          landings = filter (\<lambda>b. b \<noteq> 0) (concat (map (\<lambda>h. some_list (span_block span h)) (sc_handlers sc)))
      in succs[0 := sort_dedup (succs ! 0 @ landings)])"

definition preds_of :: "nat list list \<Rightarrow> nat list list" where
  "preds_of succs =
     map (\<lambda>s. concat (map (\<lambda>b. map (\<lambda>_. b) (filter (\<lambda>x. x = s) (succs ! b))) [0..<length succs])) [0..<length succs]"

section \<open>Dominators\<close>

text \<open>The weight of the search still to do: the termination measure of the depth-first search.\<close>

definition dfs_weight :: "nat list list \<Rightarrow> bool list \<Rightarrow> (nat \<times> nat) list \<Rightarrow> nat" where
  "dfs_weight succs seen stack =
     sum_list (map (\<lambda>b. if seen ! b then 0 else length (succs ! b) + 2) [0..<length seen]) +
     sum_list (map (\<lambda>(b, i). length (succs ! b) - i + 1) stack)"

lemma dfs_weight_push:
  assumes "s < length seen" "\<not> seen ! s"
  shows "dfs_weight succs (seen[s := True]) ((s, 0) # st) < dfs_weight succs seen st"
proof -
  let ?f = "\<lambda>seen b. if seen ! b then 0 else length (succs ! b) + 2"
  have u: "[0..<length seen] = [0..<s] @ s # [Suc s..<length seen]"
    using assms(1) by (metis append_Cons append_Nil le0 less_imp_le_nat upt_add_eq_append upt_conv_Cons le_add_diff_inverse)
  have "sum_list (map (?f (seen[s := True])) [0..<s]) = sum_list (map (?f seen) [0..<s])"
    by (intro arg_cong [of _ _ sum_list] map_cong refl) simp
  moreover have "sum_list (map (?f (seen[s := True])) [Suc s..<length seen]) = sum_list (map (?f seen) [Suc s..<length seen])"
    by (intro arg_cong [of _ _ sum_list] map_cong refl) simp
  ultimately show ?thesis using assms unfolding dfs_weight_def length_list_update u by simp
qed

text \<open>The iterative search: the top of the stack is its head, and \<open>post\<close> collects the finished blocks.\<close>

function dfs :: "nat list list \<Rightarrow> bool list \<Rightarrow> (nat \<times> nat) list \<Rightarrow> nat list \<Rightarrow> nat list option" where
  "dfs succs seen [] post = Some post"
| "dfs succs seen ((b, i) # st) post =
     (if i < length (succs ! b) then
        let s = succs ! b ! i
        in if s \<ge> length seen then None
           else if \<not> seen ! s then dfs succs (seen[s := True]) ((s, 0) # (b, i + 1) # st) post
           else dfs succs seen ((b, i + 1) # st) post
      else dfs succs seen st (post @ [b]))"
  by pat_completeness auto
termination
proof (relation "measure (\<lambda>(succs, seen, st, post). dfs_weight succs seen st)", goal_cases)
  case (2 succs seen b i st post x)
  then have "dfs_weight succs seen ((b, i + 1) # st) < dfs_weight succs seen ((b, i) # st)"
    by (simp add: dfs_weight_def)
  moreover have "dfs_weight succs (seen[x := True]) ((x, 0) # (b, i + 1) # st) < dfs_weight succs seen ((b, i + 1) # st)"
    using 2 by (intro dfs_weight_push) auto
  ultimately show ?case by simp
qed (auto simp: dfs_weight_def)

definition rpo_of :: "nat list list \<Rightarrow> nat list option" where
  "rpo_of succs =
     (if succs = [] then None
      else map_option rev (dfs succs ((replicate (length succs) False)[0 := True]) [(0, 0)] []))"

definition rpo_numbers :: "nat \<Rightarrow> nat list \<Rightarrow> nat option list" where
  "rpo_numbers n rpo = fold (\<lambda>i num. num[rpo ! i := Some i]) [0..<length rpo] (replicate n None)"

text \<open>Comparison of numbers, with \<open>NONE\<close> the greatest.\<close>

fun num_gt :: "nat option \<Rightarrow> nat option \<Rightarrow> bool" where
  "num_gt None None = False"
| "num_gt None (Some _) = True"
| "num_gt (Some _) None = False"
| "num_gt (Some i) (Some j) = (i > j)"

text \<open>The walk of two blocks up to their common ancestor.\<close>

partial_function (option) intersect :: "nat option list \<Rightarrow> nat option list \<Rightarrow> nat \<Rightarrow> nat \<Rightarrow> nat option" where
  "intersect num idom x y =
     (if x = y then Some x
      else if num_gt (num ! x) (num ! y) then Option.bind (idom ! x) (\<lambda>x'. intersect num idom x' y)
      else if num_gt (num ! y) (num ! x) then Option.bind (idom ! y) (\<lambda>y'. intersect num idom x y')
      else intersect num idom x y)"

fun meet_preds :: "nat option list \<Rightarrow> nat option list \<Rightarrow> nat list \<Rightarrow> nat option \<Rightarrow> nat option option" where
  "meet_preds num idom [] new = Some new"
| "meet_preds num idom (p # ps) new =
     (if idom ! p = None then meet_preds num idom ps new
      else case new of
        None \<Rightarrow> meet_preds num idom ps (Some p)
      | Some y \<Rightarrow> Option.bind (intersect num idom p y) (\<lambda>z. meet_preds num idom ps (Some z)))"

fun idom_sweep :: "nat list list \<Rightarrow> nat option list \<Rightarrow> nat list \<Rightarrow> nat option list \<times> bool \<Rightarrow> (nat option list \<times> bool) option" where
  "idom_sweep preds num [] r = Some r"
| "idom_sweep preds num (b # bs) (idom, changed) =
     Option.bind (meet_preds num idom (preds ! b) None) (\<lambda>new.
       if new \<noteq> None \<and> idom ! b \<noteq> new then idom_sweep preds num bs (idom[b := new], True)
       else idom_sweep preds num bs (idom, changed))"

partial_function (option) idom_loop ::
  "nat list list \<Rightarrow> nat option list \<Rightarrow> nat list \<Rightarrow> nat option list \<Rightarrow> nat option list option" where
  "idom_loop preds num bs idom =
     Option.bind (idom_sweep preds num bs (idom, False)) (\<lambda>r.
       if snd r then idom_loop preds num bs (fst r) else Some (fst r))"

definition idom_from :: "nat list list \<Rightarrow> nat list list \<Rightarrow> nat list \<Rightarrow> nat option list option" where
  "idom_from succs preds rpo =
     idom_loop preds (rpo_numbers (length succs) rpo) (tl rpo) ((replicate (length succs) None)[0 := Some 0])"

definition dom_depths :: "nat \<Rightarrow> nat option list \<Rightarrow> nat list \<Rightarrow> nat list" where
  "dom_depths n idom bs =
     fold (\<lambda>b depth. case idom ! b of None \<Rightarrow> depth | Some d \<Rightarrow> depth[b := depth ! d + 1]) bs (replicate n 0)"

definition dominators :: "nat list list \<Rightarrow> nat list list \<Rightarrow> (nat option list \<times> nat list) option" where
  "dominators succs preds =
     Option.bind (rpo_of succs) (\<lambda>rpo.
       map_option (\<lambda>idom. (idom, dom_depths (length succs) idom (tl rpo))) (idom_from succs preds rpo))"

partial_function (option) block_dominates :: "nat option list \<Rightarrow> nat list \<Rightarrow> nat \<Rightarrow> nat \<Rightarrow> bool option" where
  "block_dominates idom depth a b =
     (if depth ! b > depth ! a then Option.bind (idom ! b) (block_dominates idom depth a) else Some (a = b))"


section \<open>Natural loops\<close>

lemma body_room: "x \<notin> set body \<Longrightarrow> x < (n :: nat) \<Longrightarrow> card ({..<n} - set (body @ [x])) < card ({..<n} - set body)"
  by (intro psubset_card_mono) auto

text \<open>The blocks that reach a back edge without passing its header, added to the body found so far.\<close>

function grow_body :: "nat list list \<Rightarrow> nat list \<Rightarrow> nat list \<Rightarrow> nat list option" where
  "grow_body preds body [] = Some body"
| "grow_body preds body (x # st) =
     (if x \<in> set body then grow_body preds body st
      else if x \<ge> length preds then None
      else grow_body preds (body @ [x]) (rev (preds ! x) @ st))"
  by pat_completeness auto
termination
proof (relation "measures [\<lambda>(preds, body, st). card ({..<length preds} - set body), \<lambda>(preds, body, st). length st]", goal_cases)
  case (3 preds body x st)
  then show ?case using body_room [of x body "length preds"] by (simp del: set_append)
qed auto

text \<open>The body map in insertion order of the headers, which are sorted when they are read out.\<close>

type_synonym Bodies = "nat \<rightharpoonup> nat list"

fun loop_edges :: "nat list list \<Rightarrow> nat option list \<Rightarrow> nat list \<Rightarrow> nat \<Rightarrow> nat list \<Rightarrow> Bodies \<Rightarrow> Bodies option" where
  "loop_edges preds idom depth b [] bodies = Some bodies"
| "loop_edges preds idom depth b (h # hs) bodies =
     Option.bind (block_dominates idom depth h b) (\<lambda>d.
       if \<not> d then loop_edges preds idom depth b hs bodies
       else Option.bind (grow_body preds (case bodies h of None \<Rightarrow> [h] | Some body \<Rightarrow> body) [b]) (\<lambda>body.
         loop_edges preds idom depth b hs (bodies(h \<mapsto> body))))"

fun loop_bodies :: "nat list list \<Rightarrow> nat list list \<Rightarrow> nat option list \<Rightarrow> nat list \<Rightarrow> nat list \<Rightarrow> Bodies \<Rightarrow> Bodies option" where
  "loop_bodies succs preds idom depth [] bodies = Some bodies"
| "loop_bodies succs preds idom depth (b # bs) bodies =
     (if idom ! b = None then loop_bodies succs preds idom depth bs bodies
      else Option.bind (loop_edges preds idom depth b (succs ! b) bodies) (loop_bodies succs preds idom depth bs))"

definition loop_headers :: "nat \<Rightarrow> Bodies \<Rightarrow> nat list" where
  "loop_headers n bodies = filter (\<lambda>h. bodies h \<noteq> None) [0..<n]"

text \<open>The depth counter has 16 bits and wraps.\<close>

definition loop_depths :: "nat \<Rightarrow> Bodies \<Rightarrow> u16 list" where
  "loop_depths n bodies =
     fold (\<lambda>h depth. fold (\<lambda>b depth. depth[b := depth ! b + 1]) (the (bodies h)) depth) (loop_headers n bodies) (replicate n 0)"

definition inner_header :: "u16 list \<Rightarrow> nat \<Rightarrow> nat option \<Rightarrow> nat option" where
  "inner_header depth h cur =
     (case cur of None \<Rightarrow> Some h | Some c \<Rightarrow> if depth ! h > depth ! c then Some h else cur)"

definition loop_hdrs :: "nat \<Rightarrow> Bodies \<Rightarrow> u16 list \<Rightarrow> nat option list" where
  "loop_hdrs n bodies depth =
     fold (\<lambda>h hdr. fold (\<lambda>b hdr. hdr[b := inner_header depth h (hdr ! b)]) (the (bodies h)) hdr) (loop_headers n bodies) (replicate n None)"

section \<open>The graph and its queries\<close>

record CfgBlock =
  cb_start :: Pc
  cb_end :: Pc
  cb_succs :: "nat list"
  cb_preds :: "nat list"

record Cfg =
  c_blocks :: "CfgBlock list"
  c_span :: "(Pc \<times> Pc \<times> nat) list"
  c_idom :: "nat option list"
  c_dom_depth :: "nat list"
  c_loop_hdr :: "nat option list"
  c_loop_depth :: "u16 list"
  c_headers :: "nat list"
  c_loop_members :: "(nat \<times> nat) set"

definition cfg_build :: "JSOps \<Rightarrow> Script \<Rightarrow> InlineSeg list \<Rightarrow> Cfg option" where
  "cfg_build t root segs =
     Option.bind (scan_body t root segs) (\<lambda>sc.
       let runs = body_runs sc; succs = body_succs segs sc; preds = preds_of succs; n = length runs
       in Option.bind (dominators succs preds) (\<lambda>(idom, depth).
          map_option (\<lambda>bodies.
            \<lparr>c_blocks = map (\<lambda>b. \<lparr>cb_start = fst (hd (fst (runs ! b))), cb_end = run_end (fst (runs ! b)),
                 cb_succs = succs ! b, cb_preds = preds ! b\<rparr>) [0..<n],
             c_span = runs_span runs, c_idom = idom, c_dom_depth = depth,
             c_loop_hdr = loop_hdrs n bodies (loop_depths n bodies), c_loop_depth = loop_depths n bodies,
             c_headers = loop_headers n bodies,
             c_loop_members = set (concat (map (\<lambda>h. map (Pair h) (the (bodies h))) (loop_headers n bodies)))\<rparr>)
            (loop_bodies succs preds idom depth [0..<n] Map.empty)))"

definition cfg_block_of :: "Cfg \<Rightarrow> Pc \<Rightarrow> nat option" where
  "cfg_block_of c pc = span_block (c_span c) pc"

definition leaves_loop :: "Cfg \<Rightarrow> Pc \<Rightarrow> Pc \<Rightarrow> bool" where
  "leaves_loop c src dst =
     (case cfg_block_of c src of
        None \<Rightarrow> False
      | Some bs \<Rightarrow>
          (case c_loop_hdr c ! bs of
             None \<Rightarrow> False
           | Some h \<Rightarrow>
               (case cfg_block_of c dst of
                  Some bd \<Rightarrow> (h, bd) \<notin> c_loop_members c
                | None \<Rightarrow> True)))"

end
