(* ===== verification/Cfg_Dom.thy ===== *)
theory Cfg_Dom
  imports Cfg
begin

text \<open>
  The dominator pass of \<^verbatim>\<open>compiler/src/wasm/bbv/cfg.rs\<close> over any well-formed graph: the depth-first search ends in
  an order of the reachable blocks in which every block but the entry stands behind a predecessor; from such an order
  the Cooper-Harvey-Kennedy sweeps stop, and the tree they stop in answers the dominance of walks. A sweep is argued one
  block at a time: no dominator is ever lost, and a sweep that changes something lowers the weight of the tree.
\<close>

section \<open>Graphs, reachability and dominance\<close>

definition edge :: "nat list list \<Rightarrow> nat \<Rightarrow> nat \<Rightarrow> bool" where
  "edge succs a b = (a < length succs \<and> b \<in> set (succs ! a))"

definition graph_wf :: "nat list list \<Rightarrow> bool" where
  "graph_wf succs = (succs \<noteq> [] \<and> (\<forall>js\<in>set succs. \<forall>j\<in>set js. j < length succs))"

text \<open>Walks from the entry, as the blocks passed, last block included.\<close>

inductive walk :: "nat list list \<Rightarrow> nat list \<Rightarrow> nat \<Rightarrow> bool" for succs where
  entry: "walk succs [0] 0"
| step: "walk succs p a \<Longrightarrow> edge succs a b \<Longrightarrow> walk succs (p @ [b]) b"

definition reach :: "nat list list \<Rightarrow> nat \<Rightarrow> bool" where
  "reach succs b = (\<exists>p. walk succs p b)"

text \<open>A block dominates another when every walk from the entry to the latter passes it.\<close>

definition dominates :: "nat list list \<Rightarrow> nat \<Rightarrow> nat \<Rightarrow> bool" where
  "dominates succs a b = (\<forall>p. walk succs p b \<longrightarrow> a \<in> set p)"

lemma reach_entry [simp]: "reach succs 0"
  using walk.entry by (auto simp: reach_def)

lemma reach_step: "reach succs a \<Longrightarrow> edge succs a b \<Longrightarrow> reach succs b"
  by (auto simp: reach_def intro: walk.step)

lemma edge_bound: "graph_wf succs \<Longrightarrow> edge succs a b \<Longrightarrow> a < length succs \<and> b < length succs"
  by (metis edge_def graph_wf_def nth_mem)

lemma reach_bound: "graph_wf succs \<Longrightarrow> reach succs b \<Longrightarrow> b < length succs"
proof -
  assume wf: "graph_wf succs" and "reach succs b"
  then obtain p where "walk succs p b" by (auto simp: reach_def)
  then show "b < length succs"
  proof cases
    case entry
    then show ?thesis using wf by (simp add: graph_wf_def)
  next
    case (step p a)
    then show ?thesis using edge_bound [OF wf] by blast
  qed
qed

lemma dominates_self: "dominates succs b b"
  unfolding dominates_def by (auto elim: walk.cases)

lemma dominates_entry: "dominates succs a 0 \<Longrightarrow> a = 0"
  using walk.entry by (fastforce simp: dominates_def)

lemma dominates_pred: "dominates succs a b \<Longrightarrow> a \<noteq> b \<Longrightarrow> edge succs p b \<Longrightarrow> dominates succs a p"
  unfolding dominates_def using walk.step by fastforce

section \<open>The dominator tree under construction\<close>

abbreviation pos :: "nat option list \<Rightarrow> nat \<Rightarrow> nat" where
  "pos num b \<equiv> the (num ! b)"

text \<open>What the numbering promises: the reachable blocks are numbered apart, the entry first, and every other one has
  a predecessor with a smaller number.\<close>

definition numbered :: "nat list list \<Rightarrow> nat list list \<Rightarrow> nat option list \<Rightarrow> bool" where
  "numbered succs preds num =
     (graph_wf succs \<and> length num = length succs \<and> length preds = length succs \<and>
      (\<forall>a b. b < length succs \<longrightarrow> (a \<in> set (preds ! b) \<longleftrightarrow> edge succs a b)) \<and>
      (\<forall>b < length succs. num ! b \<noteq> None \<longleftrightarrow> reach succs b) \<and> num ! 0 = Some 0 \<and>
      (\<forall>b. reach succs b \<longrightarrow> pos num b < length succs) \<and>
      (\<forall>a b. reach succs a \<longrightarrow> reach succs b \<longrightarrow> pos num a = pos num b \<longrightarrow> a = b) \<and>
      (\<forall>b. reach succs b \<longrightarrow> b \<noteq> 0 \<longrightarrow> (\<exists>p. reach succs p \<and> edge succs p b \<and> pos num p < pos num b)))"

definition tree_ok :: "nat list list \<Rightarrow> nat option list \<Rightarrow> nat option list \<Rightarrow> bool" where
  "tree_ok succs num idom =
     (length idom = length succs \<and> idom ! 0 = Some 0 \<and>
      (\<forall>b < length succs. \<forall>d. idom ! b = Some d \<longrightarrow> reach succs b) \<and>
      (\<forall>b < length succs. \<forall>d. b \<noteq> 0 \<longrightarrow> idom ! b = Some d \<longrightarrow> d < length succs \<and> idom ! d \<noteq> None \<and> pos num d < pos num b))"

abbreviation placed :: "nat option list \<Rightarrow> nat \<Rightarrow> bool" where
  "placed idom b \<equiv> b < length idom \<and> idom ! b \<noteq> None"

inductive anc :: "nat option list \<Rightarrow> nat \<Rightarrow> nat \<Rightarrow> bool" for idom where
  self: "anc idom b b"
| up: "b \<noteq> 0 \<Longrightarrow> idom ! b = Some d \<Longrightarrow> anc idom a d \<Longrightarrow> anc idom a b"

inductive_cases ancE: "anc idom a b"

lemma anc_unfold: "anc idom a b \<longleftrightarrow> a = b \<or> b \<noteq> 0 \<and> (\<exists>d. idom ! b = Some d \<and> anc idom a d)"
  by (auto intro: anc.intros elim: ancE)

lemma anc_entry: "anc idom a 0 \<longleftrightarrow> a = 0"
  by (auto intro: anc.intros elim: ancE)

lemma anc_parent: "b \<noteq> 0 \<Longrightarrow> idom ! b = Some d \<Longrightarrow> anc idom a b \<longleftrightarrow> a = b \<or> anc idom a d"
  by (auto intro: anc.intros elim: ancE)

lemma tree_parent:
  assumes "tree_ok succs num idom" "placed idom b" "b \<noteq> 0"
  obtains d where "idom ! b = Some d" "placed idom d" "pos num d < pos num b"
  using assms by (auto simp: tree_ok_def)

lemma tree_reach: "tree_ok succs num idom \<Longrightarrow> placed idom b \<Longrightarrow> reach succs b"
  by (auto simp: tree_ok_def)

lemma anc_pos:
  assumes "anc idom a b" "tree_ok succs num idom" "placed idom b"
  shows "placed idom a \<and> (a = b \<or> pos num a < pos num b)"
  using assms
proof (induction rule: anc.induct)
  case (up b d a)
  then have "placed idom d" "pos num d < pos num b" by (auto simp: tree_ok_def)
  with up show ?case by auto
qed auto

lemma anc_trans: "anc idom b c \<Longrightarrow> anc idom a b \<Longrightarrow> anc idom a c"
  by (induction rule: anc.induct) (auto intro: anc.up)

lemma anc_linear:
  assumes "anc idom b c" "anc idom a c" "tree_ok succs num idom" "placed idom c" "pos num a \<le> pos num b"
  shows "anc idom a b"
  using assms
proof (induction rule: anc.induct)
  case (up c d b)
  have d: "placed idom d" "pos num d < pos num c" using up.hyps up.prems by (auto simp: tree_ok_def)
  show ?case
  proof (cases "a = c")
    case True
    with anc_pos [OF up.hyps(3) up.prems(2) d(1)] d(2) up.prems(4) show ?thesis by auto
  next
    case False
    with up.prems(1) up.hyps(2) have "anc idom a d" by (auto elim: ancE)
    with up d(1) show ?thesis by blast
  qed
qed

lemma numbered_pos:
  assumes "numbered succs preds num" "reach succs b"
  shows "num ! b = Some (pos num b)"
proof -
  have "b < length succs" using assms reach_bound by (auto simp: numbered_def)
  with assms show ?thesis by (auto simp: numbered_def)
qed

lemma intersect_exact:
  assumes K: "numbered succs preds num" and T: "tree_ok succs num idom" and "placed idom x" "placed idom y"
  shows "\<exists>z. intersect num idom x y = Some z \<and> placed idom z \<and> (\<forall>a. anc idom a z \<longleftrightarrow> anc idom a x \<and> anc idom a y)"
  using assms(3,4)
proof (induction "pos num x + pos num y" arbitrary: x y rule: less_induct)
  case less
  have r: "reach succs x" "reach succs y" using less.prems tree_reach [OF T] by blast+
  obtain i j where ij: "num ! x = Some i" "num ! y = Some j" using numbered_pos [OF K r(1)] numbered_pos [OF K r(2)] by blast
  have n0: "pos num 0 = 0" using K by (simp add: numbered_def)
  consider (eq) "x = y" | (x) "pos num x > pos num y" "x \<noteq> y" | (y) "pos num y > pos num x" "x \<noteq> y"
    using K r by (auto simp: numbered_def) (metis linorder_neqE_nat)
  then show ?case
  proof cases
    case eq
    then show ?thesis using less.prems by (subst intersect.simps) simp
  next
    case x
    then have "x \<noteq> 0" using n0 by (metis not_less0)
    from tree_parent [OF T less.prems(1) this] obtain d where d: "idom ! x = Some d" "placed idom d" "pos num d < pos num x" .
    have g: "num_gt (num ! x) (num ! y)" using x(1) ij by simp
    have "intersect num idom x y = intersect num idom d y" using x(2) d(1) g by (subst intersect.simps) simp
    moreover have "\<not> anc idom x y" using anc_pos [OF _ T less.prems(2), of x] x by auto
    moreover have "anc idom a x \<longleftrightarrow> a = x \<or> anc idom a d" for a using anc_unfold [of idom a x] d(1) \<open>x \<noteq> 0\<close> by auto
    ultimately show ?thesis using less.hyps [of d y] d less.prems(2) by auto
  next
    case y
    then have "y \<noteq> 0" using n0 by (metis not_less0)
    from tree_parent [OF T less.prems(2) this] obtain d where d: "idom ! y = Some d" "placed idom d" "pos num d < pos num y" .
    have g: "num_gt (num ! y) (num ! x)" "\<not> num_gt (num ! x) (num ! y)" using y(1) ij by simp_all
    have "intersect num idom x y = intersect num idom x d" using y(2) d(1) g by (subst intersect.simps) simp
    moreover have "\<not> anc idom y x" using anc_pos [OF _ T less.prems(1), of y] y by auto
    moreover have "anc idom a y \<longleftrightarrow> a = y \<or> anc idom a d" for a using anc_unfold [of idom a y] d(1) \<open>y \<noteq> 0\<close> by auto
    ultimately show ?thesis using less.hyps [of x d] d less.prems(1) by auto
  qed
qed

text \<open>The meet over the placed predecessors has exactly their common ancestors.\<close>

lemma meet_preds_exact:
  assumes K: "numbered succs preds num" and T: "tree_ok succs num idom" and "\<forall>p\<in>set ps. p < length idom"
    and "\<forall>y. new = Some y \<longrightarrow> placed idom y"
  shows "\<exists>r. meet_preds num idom ps new = Some r \<and>
    (r = None \<longleftrightarrow> new = None \<and> (\<forall>p\<in>set ps. idom ! p = None)) \<and>
    (\<forall>z. r = Some z \<longrightarrow> placed idom z \<and>
       (\<forall>a. anc idom a z \<longleftrightarrow> (\<forall>y. new = Some y \<longrightarrow> anc idom a y) \<and> (\<forall>p\<in>set ps. idom ! p \<noteq> None \<longrightarrow> anc idom a p)))"
  using assms(3,4)
proof (induction ps arbitrary: new)
  case Nil
  then show ?case by auto
next
  case (Cons p ps)
  have ps: "\<forall>p\<in>set ps. p < length idom" using Cons.prems(1) by simp
  show ?case
  proof (cases "idom ! p")
    case None
    with Cons.IH [OF ps Cons.prems(2)] show ?thesis by simp
  next
    case (Some d)
    then have p: "placed idom p" using Cons.prems(1) by simp
    show ?thesis
    proof (cases new)
      case None
      with Some p Cons.IH [OF ps, of "Some p"] show ?thesis by simp
    next
      case (Some y)
      with Cons.prems(2) have "placed idom y" by simp
      from intersect_exact [OF K T p this] obtain z where z: "intersect num idom p y = Some z" "placed idom z"
        "\<forall>a. anc idom a z \<longleftrightarrow> anc idom a p \<and> anc idom a y" by blast
      with Some p Cons.IH [OF ps, of "Some z"] show ?thesis by auto
    qed
  qed
qed

section \<open>Moving one block\<close>

lemma tree_update:
  assumes T: "tree_ok succs num idom" and b: "reach succs b" "b \<noteq> 0" "b < length succs" and z: "placed idom z" "pos num z < pos num b"
  shows "tree_ok succs num (idom[b := Some z])"
  using assms by (auto simp: tree_ok_def nth_list_update)

lemma anc_update_off:
  assumes T: "tree_ok succs num idom" and "placed idom y" "\<not> anc idom b y"
  shows "anc (idom[b := r]) a y \<longleftrightarrow> anc idom a y"
  using assms(2,3)
proof (induction "pos num y" arbitrary: y rule: less_induct)
  case less
  have "y \<noteq> b" using less.prems(2) by (auto intro: anc.self)
  show ?case
  proof (cases "y = 0")
    case True
    then show ?thesis by (simp add: anc_entry)
  next
    case False
    from tree_parent [OF T less.prems(1) False] obtain d where d: "idom ! y = Some d" "placed idom d" "pos num d < pos num y" .
    have "\<not> anc idom b d" using less.prems(2) d(1) False by (auto intro: anc.up)
    from less.hyps [OF d(3) d(2) this] show ?thesis
      using anc_parent [OF False d(1), of a] anc_parent [OF False, of "idom[b := r]" d a] d(1) \<open>y \<noteq> b\<close> by simp
  qed
qed

lemma anc_update_at:
  assumes T: "tree_ok succs num idom" and b: "b \<noteq> 0" "b < length idom" and z: "placed idom z" "pos num z < pos num b"
  shows "anc (idom[b := Some z]) a b \<longleftrightarrow> a = b \<or> anc idom a z"
proof -
  have "\<not> anc idom b z" using anc_pos [OF _ T z(1), of b] z(2) by auto
  from anc_update_off [OF T z(1) this] show ?thesis
    using b anc_parent [OF b(1), of "idom[b := Some z]" z a] by simp
qed

lemma anc_update_on:
  assumes T: "tree_ok succs num idom" and b: "b \<noteq> 0" "b < length idom" and z: "placed idom z" "pos num z < pos num b"
    and "placed idom y" "anc idom b y"
  shows "anc (idom[b := Some z]) a y \<longleftrightarrow> anc idom a y \<and> anc idom b a \<or> anc idom a z"
  using assms(6,7)
proof (induction "pos num y" arbitrary: y rule: less_induct)
  case less
  show ?case
  proof (cases "y = b")
    case True
    have "anc idom a b \<and> anc idom b a \<longleftrightarrow> a = b"
      using anc_pos [OF _ T, of a b] anc_pos [OF _ T, of b a] less.prems True by (metis anc.self less_not_sym)
    then show ?thesis using anc_update_at [OF T b z] True by simp
  next
    case False
    then have y0: "y \<noteq> 0" using less.prems(2) anc_entry [of idom b] by metis
    from tree_parent [OF T less.prems(1) y0] obtain d where d: "idom ! y = Some d" "placed idom d" "pos num d < pos num y" .
    have bd: "anc idom b d" using less.prems(2) False d(1) by (auto elim: ancE)
    have "anc (idom[b := Some z]) a y \<longleftrightarrow> a = y \<or> anc (idom[b := Some z]) a d"
      using anc_parent [OF y0, of "idom[b := Some z]" d a] d(1) False by simp
    also have "\<dots> \<longleftrightarrow> a = y \<or> (anc idom a d \<and> anc idom b a \<or> anc idom a z)"
      using less.hyps [OF d(3) d(2) bd] by simp
    also have "\<dots> \<longleftrightarrow> anc idom a y \<and> anc idom b a \<or> anc idom a z"
      using less.prems(2) anc_parent [OF y0 d(1), of a] by blast
    finally show ?thesis .
  qed
qed

section \<open>The invariant of the sweeps\<close>

definition forward :: "nat list list \<Rightarrow> nat option list \<Rightarrow> nat option list \<Rightarrow> nat \<Rightarrow> nat \<Rightarrow> bool" where
  "forward succs num idom p y = (edge succs p y \<and> placed idom p \<and> pos num p < pos num y)"

text \<open>At block number \<open>i\<close> of a sweep: no dominator is lost, no block is below its equation, and the ancestors of a
  block are ancestors of its forward predecessors, in full behind \<open>i\<close> and down to \<open>i\<close> ahead of it.\<close>

definition keeps_doms :: "nat list list \<Rightarrow> nat option list \<Rightarrow> bool" where
  "keeps_doms succs idom = (\<forall>y a. placed idom y \<longrightarrow> dominates succs a y \<longrightarrow> anc idom a y)"

definition above_meet :: "nat list list \<Rightarrow> nat option list \<Rightarrow> bool" where
  "above_meet succs idom =
     (\<forall>y a. placed idom y \<longrightarrow> y \<noteq> 0 \<longrightarrow> (\<forall>p. edge succs p y \<longrightarrow> placed idom p \<longrightarrow> anc idom a p) \<longrightarrow> anc idom a y)"

definition ahead_ok :: "nat list list \<Rightarrow> nat option list \<Rightarrow> nat \<Rightarrow> nat option list \<Rightarrow> bool" where
  "ahead_ok succs num i idom =
     (\<forall>y a p. placed idom y \<longrightarrow> y \<noteq> 0 \<longrightarrow> i \<le> pos num y \<longrightarrow> anc idom a y \<longrightarrow> a \<noteq> y \<longrightarrow> i \<le> pos num a \<longrightarrow>
        forward succs num idom p y \<longrightarrow> anc idom a p)"

definition behind_ok :: "nat list list \<Rightarrow> nat option list \<Rightarrow> nat \<Rightarrow> nat option list \<Rightarrow> bool" where
  "behind_ok succs num i idom =
     (\<forall>y a p. placed idom y \<longrightarrow> y \<noteq> 0 \<longrightarrow> pos num y < i \<longrightarrow> anc idom a y \<longrightarrow> a \<noteq> y \<longrightarrow>
        forward succs num idom p y \<longrightarrow> anc idom a p)"

definition placing :: "nat list list \<Rightarrow> nat option list \<Rightarrow> nat \<Rightarrow> nat option list \<Rightarrow> bool" where
  "placing succs num i idom =
     ((\<forall>b. reach succs b \<longrightarrow> placed idom b) \<or> (\<forall>b. reach succs b \<longrightarrow> (placed idom b \<longleftrightarrow> pos num b < i)))"

definition sweep_inv :: "nat list list \<Rightarrow> nat option list \<Rightarrow> nat \<Rightarrow> nat option list \<Rightarrow> bool" where
  "sweep_inv succs num i idom =
     (tree_ok succs num idom \<and> keeps_doms succs idom \<and> above_meet succs idom \<and> ahead_ok succs num i idom \<and>
      behind_ok succs num i idom \<and> placing succs num i idom)"

lemma numbered_facts:
  assumes "numbered succs preds num"
  shows "graph_wf succs" "length num = length succs" "num ! 0 = Some 0"
    "reach succs a \<Longrightarrow> reach succs b \<Longrightarrow> pos num a = pos num b \<Longrightarrow> a = b"
    "b < length succs \<Longrightarrow> a \<in> set (preds ! b) \<longleftrightarrow> edge succs a b"
    "reach succs b \<Longrightarrow> b \<noteq> 0 \<Longrightarrow> \<exists>p. reach succs p \<and> edge succs p b \<and> pos num p < pos num b"
    "reach succs b \<Longrightarrow> pos num b < length succs"
proof -
  note c = assms [unfolded numbered_def]
  show "graph_wf succs" using c by (elim conjE)
  show "length num = length succs" using c by (elim conjE)
  show "num ! 0 = Some 0" using c by (elim conjE)
  have "\<forall>a b. reach succs a \<longrightarrow> reach succs b \<longrightarrow> pos num a = pos num b \<longrightarrow> a = b" using c by (elim conjE)
  then show "reach succs a \<Longrightarrow> reach succs b \<Longrightarrow> pos num a = pos num b \<Longrightarrow> a = b" by blast
  have "\<forall>a b. b < length succs \<longrightarrow> (a \<in> set (preds ! b) \<longleftrightarrow> edge succs a b)" using c by (elim conjE)
  then show "b < length succs \<Longrightarrow> a \<in> set (preds ! b) \<longleftrightarrow> edge succs a b" by blast
  have "\<forall>b. reach succs b \<longrightarrow> b \<noteq> 0 \<longrightarrow> (\<exists>p. reach succs p \<and> edge succs p b \<and> pos num p < pos num b)" using c by (elim conjE)
  then show "reach succs b \<Longrightarrow> b \<noteq> 0 \<Longrightarrow> \<exists>p. reach succs p \<and> edge succs p b \<and> pos num p < pos num b" by blast
  have "\<forall>b. reach succs b \<longrightarrow> pos num b < length succs" using c by (elim conjE)
  then show "reach succs b \<Longrightarrow> pos num b < length succs" by blast
qed

text \<open>The meet of a block about to be processed.\<close>

lemma meet_at:
  assumes K: "numbered succs preds num" and I: "sweep_inv succs num i idom" and b: "reach succs b" "b \<noteq> 0" "pos num b = i"
  shows "\<exists>z. meet_preds num idom (preds ! b) None = Some (Some z) \<and> placed idom z \<and> pos num z < pos num b \<and>
    (\<forall>a. anc idom a z \<longleftrightarrow> (\<forall>p. edge succs p b \<longrightarrow> placed idom p \<longrightarrow> anc idom a p))"
proof -
  note k = numbered_facts [OF K]
  have T: "tree_ok succs num idom" using I by (simp add: sweep_inv_def)
  have len: "length idom = length succs" using T by (simp add: tree_ok_def)
  have bn: "b < length succs" by (rule reach_bound [OF k(1) b(1)])
  have pe: "p \<in> set (preds ! b) \<longleftrightarrow> edge succs p b" for p by (rule k(5) [OF bn])
  have el: "p < length idom" if "edge succs p b" for p using edge_bound [OF k(1) that] len by simp
  have pb: "\<forall>p\<in>set (preds ! b). p < length idom" using el by (simp add: pe)
  from meet_preds_exact [OF K T pb, of None] obtain r where r: "meet_preds num idom (preds ! b) None = Some r"
    "r = None \<longleftrightarrow> (\<forall>p\<in>set (preds ! b). idom ! p = None)"
    "\<forall>z. r = Some z \<longrightarrow> placed idom z \<and> (\<forall>a. anc idom a z \<longleftrightarrow> (\<forall>p\<in>set (preds ! b). idom ! p \<noteq> None \<longrightarrow> anc idom a p))"
    by auto
  from k(6) [OF b(1,2)] obtain p0 where p0: "reach succs p0" "edge succs p0 b" "pos num p0 < pos num b" by blast
  have pl: "placed idom p0" using I p0(1,3) b(3) by (auto simp: sweep_inv_def placing_def)
  have mem: "p0 \<in> set (preds ! b)" using p0(2) by (simp add: pe)
  with r(2) pl obtain z where z: "r = Some z" by auto
  have zz: "placed idom z" "\<forall>a. anc idom a z \<longleftrightarrow> (\<forall>p. edge succs p b \<longrightarrow> placed idom p \<longrightarrow> anc idom a p)"
    using r(3) z el by (simp_all add: Ball_def pe)
  have "anc idom z p0" using zz(2) p0(2) pl anc.self by blast
  with anc_pos [OF this T pl] p0(3) have "pos num z < pos num b" by auto
  with r(1) z zz show ?thesis by blast
qed

text \<open>The situation at block \<open>b\<close> with meet \<open>z\<close>.\<close>

definition moving :: "nat list list \<Rightarrow> nat option list \<Rightarrow> nat option list \<Rightarrow> nat \<Rightarrow> nat \<Rightarrow> bool" where
  "moving succs num idom b z =
     (reach succs b \<and> b \<noteq> 0 \<and> b < length idom \<and> placed idom z \<and> pos num z < pos num b \<and>
      (\<forall>a. anc idom a z \<longleftrightarrow> (\<forall>p. edge succs p b \<longrightarrow> placed idom p \<longrightarrow> anc idom a p)))"

lemma inv_parts:
  assumes "sweep_inv succs num i idom"
  shows "tree_ok succs num idom"
    "placed idom y \<Longrightarrow> dominates succs a y \<Longrightarrow> anc idom a y"
    "placed idom y \<Longrightarrow> y \<noteq> 0 \<Longrightarrow> (\<And>p. edge succs p y \<Longrightarrow> placed idom p \<Longrightarrow> anc idom a p) \<Longrightarrow> anc idom a y"
    "placed idom y \<Longrightarrow> y \<noteq> 0 \<Longrightarrow> i \<le> pos num y \<Longrightarrow> anc idom a y \<Longrightarrow> a \<noteq> y \<Longrightarrow> i \<le> pos num a \<Longrightarrow>
       forward succs num idom p y \<Longrightarrow> anc idom a p"
    "placed idom y \<Longrightarrow> y \<noteq> 0 \<Longrightarrow> pos num y < i \<Longrightarrow> anc idom a y \<Longrightarrow> a \<noteq> y \<Longrightarrow> forward succs num idom p y \<Longrightarrow> anc idom a p"
    "placing succs num i idom"
proof -
  note c = assms [unfolded sweep_inv_def]
  show "tree_ok succs num idom" using c by (elim conjE)
  have "keeps_doms succs idom" using c by (elim conjE)
  then show "placed idom y \<Longrightarrow> dominates succs a y \<Longrightarrow> anc idom a y" unfolding keeps_doms_def by blast
  have "above_meet succs idom" using c by (elim conjE)
  then show "placed idom y \<Longrightarrow> y \<noteq> 0 \<Longrightarrow> (\<And>p. edge succs p y \<Longrightarrow> placed idom p \<Longrightarrow> anc idom a p) \<Longrightarrow> anc idom a y"
    unfolding above_meet_def by blast
  have "ahead_ok succs num i idom" using c by (elim conjE)
  then show "placed idom y \<Longrightarrow> y \<noteq> 0 \<Longrightarrow> i \<le> pos num y \<Longrightarrow> anc idom a y \<Longrightarrow> a \<noteq> y \<Longrightarrow> i \<le> pos num a \<Longrightarrow>
       forward succs num idom p y \<Longrightarrow> anc idom a p" unfolding ahead_ok_def by blast
  have "behind_ok succs num i idom" using c by (elim conjE)
  then show "placed idom y \<Longrightarrow> y \<noteq> 0 \<Longrightarrow> pos num y < i \<Longrightarrow> anc idom a y \<Longrightarrow> a \<noteq> y \<Longrightarrow> forward succs num idom p y \<Longrightarrow> anc idom a p"
    unfolding behind_ok_def by blast
  show "placing succs num i idom" using c by (elim conjE)
qed

lemma moving_parts:
  assumes "moving succs num idom b z"
  shows "reach succs b" "b \<noteq> 0" "b < length idom" "placed idom z" "pos num z < pos num b"
    "(\<And>p. edge succs p b \<Longrightarrow> placed idom p \<Longrightarrow> anc idom a p) \<Longrightarrow> anc idom a z"
    "anc idom a z \<Longrightarrow> edge succs p b \<Longrightarrow> placed idom p \<Longrightarrow> anc idom a p"
  using assms unfolding moving_def by blast+

text \<open>How the ancestors change when \<open>b\<close> moves under \<open>z\<close>.\<close>

lemma moved:
  assumes K: "numbered succs preds num" and I: "sweep_inv succs num i idom" and M: "moving succs num idom b z" and bi: "pos num b = i"
  defines "idom' \<equiv> idom[b := Some z]"
  shows "placed idom y \<Longrightarrow> \<not> anc idom b y \<Longrightarrow> anc idom' a y \<longleftrightarrow> anc idom a y"
    and "placed idom y \<Longrightarrow> anc idom b y \<Longrightarrow> anc idom' a y \<longleftrightarrow> anc idom a y \<and> anc idom b a \<or> anc idom a z"
    and "anc idom' a b \<longleftrightarrow> a = b \<or> anc idom a z"
    and "placed idom' y \<longleftrightarrow> placed idom y \<or> y = b"
    and "placed idom b \<Longrightarrow> reach succs y \<Longrightarrow> placed idom y"
    and "\<not> placed idom b \<Longrightarrow> placed idom y \<Longrightarrow> \<not> anc idom b y"
    and "placed idom y \<Longrightarrow> anc idom' a y \<Longrightarrow> anc idom a y"
proof -
  note t = inv_parts(1) [OF I] and m = moving_parts [OF M]
  note off = anc_update_off [OF t, of _ b "Some z", folded idom'_def]
  note on = anc_update_on [OF t m(2-5), folded idom'_def]
  show "placed idom y \<Longrightarrow> \<not> anc idom b y \<Longrightarrow> anc idom' a y \<longleftrightarrow> anc idom a y" by (rule off)
  show "placed idom y \<Longrightarrow> anc idom b y \<Longrightarrow> anc idom' a y \<longleftrightarrow> anc idom a y \<and> anc idom b a \<or> anc idom a z" by (rule on)
  show "anc idom' a b \<longleftrightarrow> a = b \<or> anc idom a z" unfolding idom'_def by (rule anc_update_at [OF t m(2-5)])
  show "placed idom' y \<longleftrightarrow> placed idom y \<or> y = b" using m(3) by (auto simp: idom'_def nth_list_update)
  show "placed idom b \<Longrightarrow> reach succs y \<Longrightarrow> placed idom y"
    using inv_parts(6) [OF I] m(1) bi unfolding placing_def by blast
  show "\<not> placed idom b \<Longrightarrow> placed idom y \<Longrightarrow> \<not> anc idom b y" using anc_pos [OF _ t] by blast
  show "anc idom a y" if y: "placed idom y" and a: "anc idom' a y"
  proof (cases "anc idom b y")
    case True
    then have pb: "placed idom b" using anc_pos [OF _ t y] by blast
    have "anc idom z b" by (rule inv_parts(3) [OF I pb m(2)]) (rule m(7) [OF anc.self])
    then have "anc idom a z \<Longrightarrow> anc idom a y" using anc_trans [OF True] anc_trans [of idom z b a] by blast
    with on [OF y True] a show ?thesis by blast
  next
    case False
    with off [OF y] a show ?thesis by blast
  qed
qed

text \<open>A block below \<open>b\<close> has a forward predecessor below \<open>b\<close>.\<close>

lemma forward_below:
  assumes K: "numbered succs preds num" and I: "sweep_inv succs num i idom" and M: "moving succs num idom b z" and bi: "pos num b = i"
    and y: "placed idom y" "anc idom b y" "y \<noteq> b"
  obtains p where "edge succs p y" "placed idom p" "pos num p < pos num y" "anc idom b p" "y \<noteq> 0"
proof -
  note t = inv_parts(1) [OF I] and m = moving_parts [OF M]
  have y0: "y \<noteq> 0" using y(2) m(2) by (metis anc_entry)
  have pb: "placed idom b" "pos num b < pos num y" using anc_pos [OF y(2) t y(1)] y(3) by auto
  from numbered_facts(6) [OF K tree_reach [OF t y(1)] y0] obtain p where
    p: "reach succs p" "edge succs p y" "pos num p < pos num y" by blast
  have pp: "placed idom p" using moved(5) [OF K I M bi pb(1) p(1)] .
  have "anc idom b p"
    by (rule inv_parts(4) [OF I y(1) y0 _ y(2)]) (use pb(2) bi p pp y(3) in \<open>auto simp: forward_def\<close>)
  with p pp y0 that show thesis by blast
qed

lemma move_keeps_doms:
  assumes K: "numbered succs preds num" and I: "sweep_inv succs num i idom" and M: "moving succs num idom b z" and bi: "pos num b = i"
  shows "keeps_doms succs (idom[b := Some z])"
proof -
  note m = moving_parts [OF M] and d = moved [OF K I M bi]
  have "anc (idom[b := Some z]) a y" if "placed (idom[b := Some z]) y" "dominates succs a y" for a y
    using that
  proof (induction "pos num y" arbitrary: y rule: less_induct)
    case less
    show ?case
    proof (cases "y = b")
      case True
      have "anc idom a z" if "a \<noteq> b"
        by (rule m(6)) (use inv_parts(2) [OF I] dominates_pred less.prems(2) True that in blast)
      then show ?thesis using True d(3) by blast
    next
      case False
      then have y: "placed idom y" using less.prems(1) d(4) by blast
      have ay: "anc idom a y" by (rule inv_parts(2) [OF I y less.prems(2)])
      show ?thesis
      proof (cases "anc idom b y \<and> \<not> anc idom b a")
        case True
        from forward_below [OF K I M bi y _ False] True obtain p where
          p: "edge succs p y" "placed idom p" "pos num p < pos num y" "anc idom b p" by blast
        have "dominates succs a p" using dominates_pred [OF less.prems(2) _ p(1)] True by blast
        with less.hyps [OF p(3)] p(2) d(4) have "anc (idom[b := Some z]) a p" by blast
        with d(2) [OF p(2,4)] d(2) [OF y] True show ?thesis by blast
      next
        case False
        with d(1) [OF y] d(2) [OF y] ay show ?thesis by blast
      qed
    qed
  qed
  then show ?thesis by (simp add: keeps_doms_def)
qed

lemma move_above_meet:
  assumes K: "numbered succs preds num" and I: "sweep_inv succs num i idom" and M: "moving succs num idom b z" and bi: "pos num b = i"
  shows "above_meet succs (idom[b := Some z])"
  unfolding above_meet_def
proof (intro allI impI)
  note m = moving_parts [OF M] and d = moved [OF K I M bi]
  fix y a
  assume y: "placed (idom[b := Some z]) y" "y \<noteq> 0"
    and H: "\<forall>p. edge succs p y \<longrightarrow> placed (idom[b := Some z]) p \<longrightarrow> anc (idom[b := Some z]) a p"
  have old: "anc idom a p" if "edge succs p y" "placed idom p" for p using H that d(4,7) by blast
  show "anc (idom[b := Some z]) a y"
  proof (cases "y = b")
    case True
    then show ?thesis using m(6) old d(3) by blast
  next
    case False
    then have py: "placed idom y" using y(1) d(4) by blast
    have ay: "anc idom a y" by (rule inv_parts(3) [OF I py y(2) old])
    show ?thesis
    proof (cases "anc idom b y \<and> \<not> anc idom b a")
      case True
      from forward_below [OF K I M bi py _ False] True obtain p where
        p: "edge succs p y" "placed idom p" "anc idom b p" by blast
      with H d(4) have "anc (idom[b := Some z]) a p" by blast
      with d(2) [OF p(2,3)] d(2) [OF py] True show ?thesis by blast
    next
      case False
      with d(1) [OF py] d(2) [OF py] ay show ?thesis by blast
    qed
  qed
qed

lemma move_ahead:
  assumes K: "numbered succs preds num" and I: "sweep_inv succs num i idom" and M: "moving succs num idom b z" and bi: "pos num b = i"
  shows "ahead_ok succs num (i + 1) (idom[b := Some z])"
  unfolding ahead_ok_def
proof (intro allI impI)
  note t = inv_parts(1) [OF I] and m = moving_parts [OF M] and d = moved [OF K I M bi]
  fix y a p
  assume y: "placed (idom[b := Some z]) y" "y \<noteq> 0" "i + 1 \<le> pos num y" and a: "anc (idom[b := Some z]) a y" "a \<noteq> y" "i + 1 \<le> pos num a"
    and p: "forward succs num (idom[b := Some z]) p y"
  have py: "placed idom y" using y d(4) bi by auto
  have pb: "placed idom b"
  proof (rule ccontr)
    assume "\<not> placed idom b"
    with inv_parts(6) [OF I] m(1) have "placed idom y \<longleftrightarrow> pos num y < i" using tree_reach [OF t py] unfolding placing_def by blast
    with py y(3) show False by simp
  qed
  have pp: "forward succs num idom p y"
    using p d(4) pb unfolding forward_def by blast
  have ap: "anc idom a p" by (rule inv_parts(4) [OF I py y(2) _ d(7) [OF py a(1)] a(2) _ pp]) (use y(3) a(3) in simp_all)
  have ppl: "placed idom p" using pp by (simp add: forward_def)
  show "anc (idom[b := Some z]) a p"
  proof (cases "anc idom b p")
    case True
    have "anc idom b a" by (rule anc_linear [OF ap True t ppl]) (use a(3) bi in simp)
    with d(2) [OF ppl True] ap show ?thesis by blast
  next
    case False
    with d(1) [OF ppl] ap show ?thesis by blast
  qed
qed

lemma pos_apart:
  assumes "numbered succs preds num" "reach succs a" "reach succs b" "a \<noteq> b"
  shows "pos num a \<noteq> pos num b"
  using numbered_facts(4) [OF assms(1-3)] assms(4) by blast

lemma move_behind:
  assumes K: "numbered succs preds num" and I: "sweep_inv succs num i idom" and M: "moving succs num idom b z" and bi: "pos num b = i"
  shows "behind_ok succs num (i + 1) (idom[b := Some z])"
  unfolding behind_ok_def
proof (intro allI impI)
  note t = inv_parts(1) [OF I] and m = moving_parts [OF M] and d = moved [OF K I M bi]
  fix y a p
  assume y: "placed (idom[b := Some z]) y" "y \<noteq> 0" "pos num y < i + 1" and a: "anc (idom[b := Some z]) a y" "a \<noteq> y"
    and p: "forward succs num (idom[b := Some z]) p y"
  have pb: "p \<noteq> b" using p y(3) bi by (auto simp: forward_def)
  have ppl: "placed idom p" using p pb d(4) by (auto simp: forward_def)
  have nb: "\<not> anc idom b p" using anc_pos [OF _ t ppl, of b] p y(3) bi by (auto simp: forward_def)
  have "anc idom a p"
  proof (cases "y = b")
    case True
    then have "anc idom a z" using a d(3) by blast
    then show ?thesis using m(7) ppl p True by (auto simp: forward_def)
  next
    case False
    then have py: "placed idom y" using y(1) d(4) by blast
    have "pos num y \<noteq> pos num b" by (rule pos_apart [OF K tree_reach [OF t py] m(1) False])
    then have "pos num y < i" using y(3) bi by simp
    then show ?thesis
      by (rule inv_parts(5) [OF I py y(2) _ d(7) [OF py a(1)] a(2)]) (use p ppl in \<open>simp add: forward_def\<close>)
  qed
  with d(1) [OF ppl nb] show "anc (idom[b := Some z]) a p" by blast
qed

lemma move_placing:
  assumes K: "numbered succs preds num" and I: "sweep_inv succs num i idom" and M: "moving succs num idom b z" and bi: "pos num b = i"
  shows "placing succs num (i + 1) (idom[b := Some z])"
proof (cases "placed idom b")
  case True
  have "placed (idom[b := Some z]) y" if "reach succs y" for y
    unfolding moved(4) [OF K I M bi] using moved(5) [OF K I M bi True that] by (rule disjI1)
  then show ?thesis unfolding placing_def by (intro disjI1 allI impI)
next
  case False
  note m = moving_parts [OF M]
  have "placed idom y \<longleftrightarrow> pos num y < i" if "reach succs y" for y
    using inv_parts(6) [OF I] False m(1) that unfolding placing_def by blast
  moreover have "pos num y < i + 1 \<longleftrightarrow> pos num y < i \<or> y = b" if "reach succs y" for y
    using pos_apart [OF K that m(1)] bi by (auto simp: less_Suc_eq)
  ultimately have "\<forall>y. reach succs y \<longrightarrow> (placed (idom[b := Some z]) y \<longleftrightarrow> pos num y < i + 1)"
    unfolding moved(4) [OF K I M bi] by (metis (no_types, lifting))
  then show ?thesis unfolding placing_def by (rule disjI2)
qed

lemma move_inv:
  assumes "numbered succs preds num" "sweep_inv succs num i idom" "moving succs num idom b z" "pos num b = i"
  shows "sweep_inv succs num (i + 1) (idom[b := Some z])"
proof -
  note t = inv_parts(1) [OF assms(2)] and m = moving_parts [OF assms(3)]
  have "b < length succs" using t m(3) by (simp add: tree_ok_def)
  from tree_update [OF t m(1,2) this m(4,5)] show ?thesis
    unfolding sweep_inv_def
    by (intro conjI move_keeps_doms [OF assms] move_above_meet [OF assms] move_ahead [OF assms] move_behind [OF assms] move_placing [OF assms])
qed

lemma stay_inv:
  assumes K: "numbered succs preds num" and I: "sweep_inv succs num i idom" and M: "moving succs num idom b z" and bi: "pos num b = i"
    and st: "idom ! b = Some z"
  shows "sweep_inv succs num (i + 1) idom"
proof -
  have "idom[b := Some z] = idom" using st by (metis list_update_id)
  with move_inv [OF K I M bi] show ?thesis by simp
qed

section \<open>A sweep\<close>

definition weight :: "nat option list \<Rightarrow> nat option list \<Rightarrow> nat" where
  "weight num idom = (\<Sum>b < length idom. case idom ! b of None \<Rightarrow> length idom | Some d \<Rightarrow> pos num d)"

definition settled :: "nat list list \<Rightarrow> nat option list \<Rightarrow> nat \<Rightarrow> bool" where
  "settled succs idom b =
     (\<forall>a. anc idom a b \<longleftrightarrow> a = b \<or> (\<forall>p. edge succs p b \<longrightarrow> placed idom p \<longrightarrow> anc idom a p))"

lemma weight_move:
  assumes "b < length idom" "case idom ! b of None \<Rightarrow> pos num z < length idom | Some d \<Rightarrow> pos num z < pos num d"
  shows "weight num (idom[b := Some z]) < weight num idom"
proof -
  let ?w = "\<lambda>r. case r of None \<Rightarrow> length idom | Some d \<Rightarrow> pos num d"
  have fin: "finite {..<length idom}" "b \<in> {..<length idom}" using assms(1) by auto
  have "weight num (idom[b := Some z]) = ?w (Some z) + (\<Sum>c \<in> {..<length idom} - {b}. ?w (idom ! c))"
    unfolding weight_def length_list_update using sum.remove [OF fin, of "\<lambda>c. ?w (idom[b := Some z] ! c)"] assms(1)
    by (simp add: nth_list_update)
  moreover have "weight num idom = ?w (idom ! b) + (\<Sum>c \<in> {..<length idom} - {b}. ?w (idom ! c))"
    unfolding weight_def by (rule sum.remove [OF fin])
  ultimately show ?thesis using assms(2) by (simp split: option.splits)
qed

lemma sweep_step:
  assumes K: "numbered succs preds num" and I: "sweep_inv succs num i idom" and b: "reach succs b" "b \<noteq> 0" "pos num b = i"
  obtains z where "meet_preds num idom (preds ! b) None = Some (Some z)"
    "idom ! b = Some z \<Longrightarrow> sweep_inv succs num (i + 1) idom \<and> settled succs idom b"
    "idom ! b \<noteq> Some z \<Longrightarrow> sweep_inv succs num (i + 1) (idom[b := Some z]) \<and> weight num (idom[b := Some z]) < weight num idom"
proof -
  have t: "tree_ok succs num idom" by (rule inv_parts(1) [OF I])
  have len: "length idom = length succs" using t by (simp add: tree_ok_def)
  have bn: "b < length idom" using reach_bound [OF numbered_facts(1) [OF K] b(1)] len by simp
  from meet_at [OF K I b] obtain z where z: "meet_preds num idom (preds ! b) None = Some (Some z)" and M: "moving succs num idom b z"
    using b bn unfolding moving_def by blast
  note m = moving_parts [OF M]
  show thesis
  proof (rule that [OF z])
    assume s: "idom ! b = Some z"
    have "settled succs idom b" unfolding settled_def using anc_parent [OF b(2) s] m(6,7) by blast
    with stay_inv [OF K I M b(3) s] show "sweep_inv succs num (i + 1) idom \<and> settled succs idom b" by blast
  next
    assume ns: "idom ! b \<noteq> Some z"
    have "weight num (idom[b := Some z]) < weight num idom"
    proof (rule weight_move [OF bn])
      show "case idom ! b of None \<Rightarrow> pos num z < length idom | Some d \<Rightarrow> pos num z < pos num d"
      proof (cases "idom ! b")
        case None
        then show ?thesis using numbered_facts(7) [OF K tree_reach [OF t m(4)]] len by simp
      next
        case (Some d)
        then have pb: "placed idom b" using bn by simp
        have "anc idom z b" by (rule inv_parts(3) [OF I pb b(2)]) (rule m(7) [OF anc.self])
        moreover have "z \<noteq> b" using m(5) by auto
        ultimately have "anc idom z d" using anc_parent [OF b(2) Some] by blast
        moreover have "placed idom d" using tree_parent [OF t pb b(2)] Some by auto
        ultimately have "z = d \<or> pos num z < pos num d" using anc_pos [OF _ t] by blast
        with ns Some show ?thesis by auto
      qed
    qed
    with move_inv [OF K I M b(3)] show "sweep_inv succs num (i + 1) (idom[b := Some z]) \<and> weight num (idom[b := Some z]) < weight num idom"
      by blast
  qed
qed

lemma idom_sweep_exact:
  assumes K: "numbered succs preds num"
  shows "sweep_inv succs num i idom \<Longrightarrow> \<forall>k < length bs. reach succs (bs ! k) \<and> bs ! k \<noteq> 0 \<and> pos num (bs ! k) = i + k \<Longrightarrow>
    \<exists>idom' c'. idom_sweep preds num bs (idom, c) = Some (idom', c') \<and> sweep_inv succs num (i + length bs) idom' \<and>
      weight num idom' \<le> weight num idom \<and> (c' \<and> \<not> c \<longrightarrow> weight num idom' < weight num idom) \<and>
      (c \<longrightarrow> c') \<and> (\<not> c' \<longrightarrow> idom' = idom \<and> (\<forall>b\<in>set bs. settled succs idom b))"
proof (induction bs arbitrary: i idom c)
  case (Cons b bs)
  have b: "reach succs b" "b \<noteq> 0" "pos num b = i" using Cons.prems(2) by force+
  have rest: "\<forall>k < length bs. reach succs (bs ! k) \<and> bs ! k \<noteq> 0 \<and> pos num (bs ! k) = i + 1 + k"
    using Cons.prems(2) by force
  from sweep_step [OF K Cons.prems(1) b] obtain z where
    z: "meet_preds num idom (preds ! b) None = Some (Some z)"
      "idom ! b = Some z \<Longrightarrow> sweep_inv succs num (i + 1) idom \<and> settled succs idom b"
      "idom ! b \<noteq> Some z \<Longrightarrow> sweep_inv succs num (i + 1) (idom[b := Some z]) \<and> weight num (idom[b := Some z]) < weight num idom"
    by blast
  show ?case
  proof (cases "idom ! b = Some z")
    case True
    from Cons.IH [OF conjunct1 [OF z(2) [OF True]] rest, of c] obtain idom' c' where
      r: "idom_sweep preds num bs (idom, c) = Some (idom', c')" "sweep_inv succs num (i + 1 + length bs) idom'"
        "weight num idom' \<le> weight num idom" "c' \<and> \<not> c \<longrightarrow> weight num idom' < weight num idom" "c \<longrightarrow> c'"
        "\<not> c' \<longrightarrow> idom' = idom \<and> (\<forall>b\<in>set bs. settled succs idom b)" by blast
    show ?thesis using r True z(1) conjunct2 [OF z(2) [OF True]] by (intro exI [of _ idom'] exI [of _ c']) simp
  next
    case False
    from Cons.IH [OF conjunct1 [OF z(3) [OF False]] rest, of True] obtain idom' c' where
      r: "idom_sweep preds num bs (idom[b := Some z], True) = Some (idom', c')" "sweep_inv succs num (i + 1 + length bs) idom'"
        "weight num idom' \<le> weight num (idom[b := Some z])" "c'" by blast
    show ?thesis using r False z(1) conjunct2 [OF z(3) [OF False]] by (intro exI [of _ idom'] exI [of _ c']) simp
  qed
qed simp

section \<open>The loop and the tree it ends in\<close>

definition dom_tree :: "nat list list \<Rightarrow> nat option list \<Rightarrow> nat option list \<Rightarrow> bool" where
  "dom_tree succs num idom =
     (tree_ok succs num idom \<and> (\<forall>b. reach succs b \<longrightarrow> placed idom b) \<and>
      (\<forall>a b. reach succs b \<longrightarrow> (anc idom a b \<longleftrightarrow> dominates succs a b)))"

lemma settled_dominates:
  assumes pl: "\<And>b. reach succs b \<Longrightarrow> placed idom b" and st: "\<And>b. reach succs b \<Longrightarrow> b \<noteq> 0 \<Longrightarrow> settled succs idom b"
  shows "walk succs p b \<Longrightarrow> anc idom a b \<Longrightarrow> a \<in> set p"
proof (induction rule: walk.induct)
  case entry
  then show ?case by (simp add: anc_entry)
next
  case (step p c b)
  have rc: "reach succs c" using step.hyps(1) by (auto simp: reach_def)
  show ?case
  proof (cases "b = 0")
    case True
    then show ?thesis using step.prems by (simp add: anc_entry)
  next
    case False
    with st [OF reach_step [OF rc step.hyps(2)]] step pl [OF rc] show ?thesis unfolding settled_def by fastforce
  qed
qed

lemma sweep_restart:
  assumes K: "numbered succs preds num" and I: "sweep_inv succs num n idom" and n: "\<And>b. reach succs b \<Longrightarrow> pos num b < n"
  shows "sweep_inv succs num 1 idom \<and> (\<forall>b. reach succs b \<longrightarrow> placed idom b)"
proof -
  note p = inv_parts [OF I]
  have all: "\<forall>b. reach succs b \<longrightarrow> placed idom b" using p(6) n unfolding placing_def by blast
  have "ahead_ok succs num 1 idom"
    unfolding ahead_ok_def using p(5) n tree_reach [OF p(1)] by blast
  moreover have "behind_ok succs num 1 idom"
    unfolding behind_ok_def
  proof (intro allI impI)
    fix y a q
    assume y: "placed idom y" "y \<noteq> 0" "pos num y < 1"
    have "pos num y \<noteq> pos num 0" by (rule pos_apart [OF K tree_reach [OF p(1) y(1)] reach_entry y(2)])
    with y(3) numbered_facts(3) [OF K] show "anc idom a q" by simp
  qed
  ultimately show ?thesis using I all unfolding sweep_inv_def placing_def by blast
qed

lemma idom_loop_exact:
  assumes K: "numbered succs preds num" and bs: "\<forall>k < length bs. reach succs (bs ! k) \<and> bs ! k \<noteq> 0 \<and> pos num (bs ! k) = 1 + k"
    and cover: "\<And>b. reach succs b \<Longrightarrow> b = 0 \<or> b \<in> set bs"
  shows "sweep_inv succs num 1 idom \<Longrightarrow> \<exists>r. idom_loop preds num bs idom = Some r \<and> dom_tree succs num r"
proof (induction "weight num idom" arbitrary: idom rule: less_induct)
  case less
  have last: "pos num b < 1 + length bs" if "reach succs b" for b
    using cover [OF that] bs numbered_facts(3) [OF K] by (auto simp: in_set_conv_nth)
  from idom_sweep_exact [OF K less.prems bs, of False] obtain idom' c' where
    r: "idom_sweep preds num bs (idom, False) = Some (idom', c')" "sweep_inv succs num (1 + length bs) idom'"
      "c' \<longrightarrow> weight num idom' < weight num idom" "\<not> c' \<longrightarrow> idom' = idom \<and> (\<forall>b\<in>set bs. settled succs idom b)" by blast
  note s = sweep_restart [OF K r(2) last]
  show ?case
  proof (cases c')
    case True
    then have "idom_loop preds num bs idom = idom_loop preds num bs idom'" using r(1) by (subst idom_loop.simps) simp
    with less.hyps [of idom'] r(3) True s show ?thesis by auto
  next
    case False
    then have "idom_loop preds num bs idom = Some idom'" using r(1) by (subst idom_loop.simps) simp
    moreover have "dom_tree succs num idom'"
    proof -
      have same: "idom' = idom" "\<forall>b\<in>set bs. settled succs idom b" using r(4) False by blast+
      have pl: "placed idom' b" if "reach succs b" for b using s that by blast
      have st: "settled succs idom' b" if "reach succs b" "b \<noteq> 0" for b using cover [OF that(1)] that(2) same by blast
      have "anc idom' a b \<longleftrightarrow> dominates succs a b" if "reach succs b" for a b
        using inv_parts(2) [OF r(2) pl [OF that]] settled_dominates [OF pl st] unfolding dominates_def by blast
      then show ?thesis using inv_parts(1) [OF r(2)] pl unfolding dom_tree_def by blast
    qed
    ultimately show ?thesis by blast
  qed
qed

section \<open>The search order\<close>

text \<open>What the dominator pass relies on: the reachable blocks once each, the entry first, and every other one behind
  some predecessor.\<close>

definition rpo_ok :: "nat list list \<Rightarrow> nat list \<Rightarrow> bool" where
  "rpo_ok succs rpo =
     (distinct rpo \<and> rpo \<noteq> [] \<and> hd rpo = 0 \<and> set rpo = {b. reach succs b} \<and>
      (\<forall>i < length rpo. 0 < i \<longrightarrow> (\<exists>j < i. edge succs (rpo ! j) (rpo ! i))))"


lemma rpo_numbers_fold:
  assumes "distinct rpo" "set rpo \<subseteq> {..<n}" "m \<le> length rpo"
  shows "length (fold (\<lambda>i num. num[rpo ! i := Some i]) [0..<m] (replicate n None)) = n \<and>
    (\<forall>b < n. \<forall>i. fold (\<lambda>i num. num[rpo ! i := Some i]) [0..<m] (replicate n None) ! b = Some i \<longleftrightarrow> i < m \<and> rpo ! i = b)"
  using assms(3)
proof (induction m)
  case (Suc m)
  define F where "F = fold (\<lambda>i num. num[rpo ! i := Some i]) [0..<m] (replicate n None)"
  have IH: "length F = n" "\<And>b i. b < n \<Longrightarrow> F ! b = Some i \<longleftrightarrow> i < m \<and> rpo ! i = b"
    using Suc unfolding F_def by auto
  have inj: "rpo ! i = rpo ! m \<Longrightarrow> i \<le> m \<Longrightarrow> i = m" for i
    using assms(1) Suc.prems by (simp add: nth_eq_iff_index_eq)
  have "F[rpo ! m := Some m] ! b = Some i \<longleftrightarrow> i < Suc m \<and> rpo ! i = b" if b: "b < n" for b i
  proof (cases "b = rpo ! m")
    case True
    then show ?thesis using b IH(1) inj [of i] by (auto simp: less_Suc_eq)
  next
    case False
    then show ?thesis using b IH by (auto simp: less_Suc_eq)
  qed
  then show ?case using IH(1) by (simp add: F_def)
qed simp

lemma rpo_numbers_at:
  assumes "distinct rpo" "set rpo \<subseteq> {..<n}"
  shows "length (rpo_numbers n rpo) = n" "b < n \<Longrightarrow> rpo_numbers n rpo ! b = Some i \<longleftrightarrow> i < length rpo \<and> rpo ! i = b"
  using rpo_numbers_fold [OF assms, of "length rpo"] by (simp_all add: rpo_numbers_def)

lemma preds_of_edges:
  "length (preds_of succs) = length succs" "b < length succs \<Longrightarrow> a \<in> set (preds_of succs ! b) \<longleftrightarrow> edge succs a b"
  by (auto simp: preds_of_def edge_def)

lemma numbering:
  assumes wf: "graph_wf succs" and R: "rpo_ok succs rpo"
  shows "numbered succs (preds_of succs) (rpo_numbers (length succs) rpo)"
    and "i < length rpo \<Longrightarrow> pos (rpo_numbers (length succs) rpo) (rpo ! i) = i"
proof -
  let ?n = "length succs" and ?num = "rpo_numbers (length succs) rpo"
  have r: "distinct rpo" "rpo \<noteq> []" "rpo ! 0 = 0" "\<And>b. b \<in> set rpo \<longleftrightarrow> reach succs b"
    using R by (auto simp: rpo_ok_def hd_conv_nth)
  have sub: "set rpo \<subseteq> {..<?n}" using r(4) reach_bound [OF wf] by blast
  note at = rpo_numbers_at [OF r(1) sub]
  have num: "?num ! (rpo ! i) = Some i" if "i < length rpo" for i
    using at(2) [of "rpo ! i" i] sub that by (simp add: subset_iff)
  then show "i < length rpo \<Longrightarrow> pos ?num (rpo ! i) = i" by simp
  have ix: "\<exists>i < length rpo. rpo ! i = b" if "reach succs b" for b using r(4) that by (metis in_set_conv_nth)
  have len: "length rpo \<le> ?n" using r(1) sub by (metis card_lessThan card_mono distinct_card finite_lessThan)
  have reach: "?num ! b \<noteq> None \<longleftrightarrow> reach succs b" if "b < ?n" for b
    using at(2) [OF that] ix r(4) num by (metis not_None_eq nth_mem option.distinct(1))
  have zero: "?num ! 0 = Some 0" using num [of 0] r(2,3) by simp
  have bound: "pos ?num b < ?n" if "reach succs b" for b using ix [OF that] num len by fastforce
  have inj: "a = b" if "reach succs a" "reach succs b" "pos ?num a = pos ?num b" for a b
    using ix [OF that(1)] ix [OF that(2)] num that(3) by fastforce
  have fwd: "\<exists>p. reach succs p \<and> edge succs p b \<and> pos ?num p < pos ?num b" if b: "reach succs b" "b \<noteq> 0" for b
  proof -
    from ix [OF b(1)] obtain i where i: "i < length rpo" "rpo ! i = b" by blast
    then have "0 < i" using b(2) r(3) by (cases i) auto
    with R i obtain j where j: "j < i" "edge succs (rpo ! j) b" by (auto simp: rpo_ok_def)
    have "reach succs (rpo ! j)" using r(4) i j by (metis less_trans nth_mem)
    with j i num [of i] num [of j] show ?thesis by (intro exI [of _ "rpo ! j"]) simp
  qed
  show "numbered succs (preds_of succs) ?num"
    unfolding numbered_def
    using wf at(1) preds_of_edges [where succs = succs] reach zero bound inj fwd by blast
qed

lemma first_tree:
  assumes K: "numbered succs preds num"
  shows "sweep_inv succs num 1 ((replicate (length succs) None)[0 := Some 0])"
proof -
  let ?d = "(replicate (length succs) None)[0 := Some 0]"
  have n: "0 < length succs" using numbered_facts(1) [OF K] by (simp add: graph_wf_def)
  have pl: "placed ?d b \<longleftrightarrow> b = 0" for b using n by (auto simp: nth_list_update)
  have an: "anc ?d a 0 \<longleftrightarrow> a = 0" for a by (rule anc_entry)
  have "tree_ok succs num ?d" using n by (auto simp: tree_ok_def nth_list_update)
  moreover have "keeps_doms succs ?d" unfolding keeps_doms_def pl using dominates_entry by (auto simp: an)
  moreover have "placing succs num 1 ?d" unfolding placing_def pl
    using numbered_facts(3) [OF K] pos_apart [OF K _ reach_entry] by (metis less_one option.sel)
  moreover have "above_meet succs ?d" "ahead_ok succs num 1 ?d" "behind_ok succs num 1 ?d"
    unfolding above_meet_def ahead_ok_def behind_ok_def pl by blast+
  ultimately show ?thesis unfolding sweep_inv_def by blast
qed

lemma idom_from_exact:
  assumes wf: "graph_wf succs" and R: "rpo_ok succs rpo"
  shows "\<exists>idom. idom_from succs (preds_of succs) rpo = Some idom \<and> dom_tree succs (rpo_numbers (length succs) rpo) idom"
proof -
  note K = numbering(1) [OF wf R] and num = numbering(2) [OF wf R]
  have r: "rpo \<noteq> []" "rpo ! 0 = 0" "distinct rpo" "\<And>b. b \<in> set rpo \<longleftrightarrow> reach succs b" using R by (auto simp: rpo_ok_def hd_conv_nth)
  have bs: "\<forall>k < length (tl rpo). reach succs (tl rpo ! k) \<and> tl rpo ! k \<noteq> 0 \<and> pos (rpo_numbers (length succs) rpo) (tl rpo ! k) = 1 + k"
  proof (intro allI impI)
    fix k assume "k < length (tl rpo)"
    then have k: "Suc k < length rpo" by simp
    then have e: "tl rpo ! k = rpo ! Suc k" by (simp add: nth_tl)
    have "rpo ! Suc k \<noteq> rpo ! 0" using r(3) k by (metis Suc_neq_Zero less_trans nth_eq_iff_index_eq zero_less_Suc)
    then show "reach succs (tl rpo ! k) \<and> tl rpo ! k \<noteq> 0 \<and> pos (rpo_numbers (length succs) rpo) (tl rpo ! k) = 1 + k"
      using num [OF k] r(2,4) k e by (metis Suc_eq_plus1_left nth_mem)
  qed
  have cover: "b = 0 \<or> b \<in> set (tl rpo)" if "reach succs b" for b
    using that r(1,2,4) by (metis list.collapse set_ConsD hd_conv_nth)
  show ?thesis using idom_loop_exact [OF K bs cover first_tree [OF K]] by (simp add: idom_from_def)
qed

section \<open>The depth-first search\<close>

text \<open>Each block on the stack was reached from the one below it, the entry at the bottom.\<close>

fun stacked :: "nat list list \<Rightarrow> nat list \<Rightarrow> bool" where
  "stacked succs [] = True"
| "stacked succs [b] = (b = 0)"
| "stacked succs (s # b # bs) = (edge succs b s \<and> stacked succs (b # bs))"

definition behind_some :: "nat list list \<Rightarrow> nat list \<Rightarrow> nat list \<Rightarrow> bool" where
  "behind_some succs stack post =
     (\<forall>k < length post. post ! k \<noteq> 0 \<longrightarrow>
        (\<exists>p. edge succs p (post ! k) \<and> (p \<in> set stack \<or> (\<exists>l < length post. k < l \<and> post ! l = p))))"

definition dfs_inv :: "nat list list \<Rightarrow> bool list \<Rightarrow> (nat \<times> nat) list \<Rightarrow> nat list \<Rightarrow> bool" where
  "dfs_inv succs seen stack post =
     (length seen = length succs \<and> distinct (map fst stack @ post) \<and>
      set (map fst stack @ post) = {b. b < length succs \<and> seen ! b} \<and>
      (\<forall>b < length succs. seen ! b \<longrightarrow> reach succs b) \<and> stacked succs (map fst stack) \<and>
      (stack = [] \<longrightarrow> post \<noteq> [] \<and> last post = 0) \<and>
      (\<forall>(b, i)\<in>set stack. \<forall>k < length (succs ! b). k < i \<longrightarrow> seen ! (succs ! b ! k)) \<and>
      (\<forall>b\<in>set post. \<forall>s\<in>set (succs ! b). seen ! s) \<and> behind_some succs (map fst stack) post)"

lemma behind_pop:
  assumes "behind_some succs (b # st) post" "b \<noteq> 0 \<Longrightarrow> \<exists>p\<in>set st. edge succs p b"
  shows "behind_some succs st (post @ [b])"
  unfolding behind_some_def
proof (intro allI impI)
  fix k assume k: "k < length (post @ [b])" "(post @ [b]) ! k \<noteq> 0"
  show "\<exists>p. edge succs p ((post @ [b]) ! k) \<and> (p \<in> set st \<or> (\<exists>l < length (post @ [b]). k < l \<and> (post @ [b]) ! l = p))"
  proof (cases "k < length post")
    case True
    with k(2) assms(1) obtain p where p: "edge succs p (post ! k)" "p \<in> set (b # st) \<or> (\<exists>l < length post. k < l \<and> post ! l = p)"
      by (auto simp: behind_some_def nth_append)
    from p(2) consider "p = b" | "p \<in> set st" | l where "l < length post" "k < l" "post ! l = p" by auto
    then have "p \<in> set st \<or> (\<exists>l < length (post @ [b]). k < l \<and> (post @ [b]) ! l = p)"
    proof cases
      case 1
      then show ?thesis using True by (intro disjI2 exI [of _ "length post"]) simp
    next
      case (3 l)
      then show ?thesis by (intro disjI2 exI [of _ l]) (simp add: nth_append)
    qed simp
    moreover have "(post @ [b]) ! k = post ! k" using True by (simp add: nth_append)
    ultimately show ?thesis using p(1) by metis
  next
    case False
    then have "k = length post" using k(1) by simp
    with k(2) assms(2) show ?thesis by auto
  qed
qed

lemma behind_push: "behind_some succs st post \<Longrightarrow> set st \<subseteq> set st' \<Longrightarrow> behind_some succs st' post"
  unfolding behind_some_def by blast

lemma dfs_inv_push:
  assumes wf: "graph_wf succs" and I: "dfs_inv succs seen ((b, i) # st) post" and i: "i < length (succs ! b)"
    and s: "s = succs ! b ! i" "\<not> seen ! s"
  shows "dfs_inv succs (seen[s := True]) ((s, 0) # (b, i + 1) # st) post"
proof -
  have b: "b < length succs" "seen ! b" "length seen = length succs" using I by (auto simp: dfs_inv_def)
  have e: "edge succs b s" using b(1) i s(1) by (simp add: edge_def)
  have sn: "s < length succs" using edge_bound [OF wf e] by blast
  have "reach succs s" using I b e reach_step by (auto simp: dfs_inv_def)
  moreover have "s \<notin> set (map fst ((b, i) # st) @ post)" using I s(2) by (auto simp: dfs_inv_def)
  moreover have "behind_some succs (map fst ((s, 0) # (b, i + 1) # st)) post"
    by (rule behind_push [of _ "map fst ((b, i) # st)"]) (use I in \<open>auto simp: dfs_inv_def\<close>)
  moreover have "set (map fst ((s, 0) # (b, i + 1) # st) @ post) = {c. c < length succs \<and> seen[s := True] ! c}"
    using I sn b(3) by (auto simp: dfs_inv_def nth_list_update set_eq_iff)
  moreover have mono: "seen ! x \<Longrightarrow> seen[s := True] ! x" for x using sn b(3) by (cases "x = s") auto
  ultimately show ?thesis using I e sn s(1) b(3) unfolding dfs_inv_def
    by (auto simp: nth_list_update less_Suc_eq dest: mono)
qed

lemma dfs_inv_next:
  assumes I: "dfs_inv succs seen ((b, i) # st) post" and i: "i < length (succs ! b)" and s: "seen ! (succs ! b ! i)"
  shows "dfs_inv succs seen ((b, i + 1) # st) post"
  using I s unfolding dfs_inv_def by (auto simp: less_Suc_eq)

lemma stacked_below: "stacked succs (b # st) \<Longrightarrow> b \<noteq> 0 \<Longrightarrow> \<exists>p\<in>set st. edge succs p b"
  by (cases st) auto

lemma dfs_inv_pop:
  assumes I: "dfs_inv succs seen ((b, i) # st) post" and i: "\<not> i < length (succs ! b)"
  shows "dfs_inv succs seen st (post @ [b])"
proof -
  have I': "stacked succs (b # map fst st)" "behind_some succs (b # map fst st) post" using I by (simp_all add: dfs_inv_def)
  have "behind_some succs (map fst st) (post @ [b])"
    by (rule behind_pop [OF I'(2) stacked_below [OF I'(1)]])
  moreover have "stacked succs (map fst st)" "st = [] \<longrightarrow> b = 0" using I by (cases st; auto simp: dfs_inv_def)+
  moreover have "\<forall>s\<in>set (succs ! b). seen ! s" using I i by (auto simp: dfs_inv_def in_set_conv_nth)
  ultimately show ?thesis using I unfolding dfs_inv_def by (auto simp: ball_Un)
qed

lemma dfs_exact:
  "graph_wf succs \<Longrightarrow> dfs_inv succs seen stack post \<Longrightarrow> \<exists>post' seen'. dfs succs seen stack post = Some post' \<and> dfs_inv succs seen' [] post'"
proof (induction succs seen stack post rule: dfs.induct)
  case (2 succs seen b i st post)
  show ?case
  proof (cases "i < length (succs ! b)")
    case True
    let ?s = "succs ! b ! i"
    have "b < length succs" "length seen = length succs" using "2.prems"(2) by (auto simp: dfs_inv_def)
    moreover from this True have "?s < length succs" using edge_bound [OF "2.prems"(1), of b ?s] by (simp add: edge_def)
    ultimately have s: "\<not> length seen \<le> ?s" by simp
    show ?thesis
    proof (cases "seen ! ?s")
      case True
      from "2.IH"(2) [OF \<open>i < length (succs ! b)\<close> refl s _ "2.prems"(1) dfs_inv_next [OF "2.prems"(2) \<open>i < length (succs ! b)\<close> True]] True
      show ?thesis using \<open>i < length (succs ! b)\<close> s by (simp add: Let_def)
    next
      case False
      from "2.IH"(1) [OF \<open>i < length (succs ! b)\<close> refl s False "2.prems"(1)
          dfs_inv_push [OF "2.prems"(1,2) \<open>i < length (succs ! b)\<close> refl False]]
      show ?thesis using \<open>i < length (succs ! b)\<close> s False by (simp add: Let_def)
    qed
  next
    case False
    from "2.IH"(3) [OF False "2.prems"(1) dfs_inv_pop [OF "2.prems"(2) False]] show ?thesis using False by simp
  qed
qed auto

lemma dfs_start:
  assumes "graph_wf succs"
  shows "dfs_inv succs ((replicate (length succs) False)[0 := True]) [(0, 0)] []"
proof -
  have "0 < length succs" using assms by (simp add: graph_wf_def)
  then show ?thesis by (auto simp: dfs_inv_def nth_list_update behind_some_def split: if_splits)
qed

lemma dfs_done:
  assumes wf: "graph_wf succs" and I: "dfs_inv succs seen [] post"
  shows "rpo_ok succs (rev post)"
proof -
  note c = I [unfolded dfs_inv_def list.map append_Nil]
  have i1: "distinct post" using c by (elim conjE)
  have i2: "set post = {b. b < length succs \<and> seen ! b}" using c by (elim conjE)
  have "post \<noteq> [] \<and> last post = 0" using c by (elim conjE) (erule impE, rule refl)
  then have i3: "post \<noteq> []" "last post = 0" by simp_all
  have i5: "\<forall>b < length succs. seen ! b \<longrightarrow> reach succs b" using c by (elim conjE)
  have i6: "\<forall>b\<in>set post. \<forall>s\<in>set (succs ! b). seen ! s" using c by (elim conjE)
  have i7: "behind_some succs [] post" using c by (elim conjE)
  have "b \<in> set post" if "walk succs p b" for p b
    using that
  proof (induction rule: walk.induct)
    case entry
    then show ?case using i3 by (metis last_in_set)
  next
    case (step p a b)
    then have "seen ! b" using i6 by (simp add: edge_def)
    with edge_bound [OF wf step.hyps(2)] i2 show ?case by simp
  qed
  then have set: "set post = {b. reach succs b}" using i2 i5 by (auto simp: reach_def)
  have "\<exists>j < k. edge succs (rev post ! j) (rev post ! k)" if k: "k < length (rev post)" "0 < k" for k
  proof -
    let ?k = "length post - Suc k"
    have kk: "?k < length post" using k by simp
    have at: "rev post ! k = post ! ?k" using k(1) by (simp add: rev_nth)
    have "post ! ?k \<noteq> 0"
    proof
      assume "post ! ?k = 0"
      then have "post ! ?k = post ! (length post - 1)" using i3 by (simp add: last_conv_nth)
      then have "?k = length post - 1" using i1 kk i3(1) by (simp add: nth_eq_iff_index_eq)
      with k show False by simp
    qed
    with i7 kk obtain p l where "edge succs p (post ! ?k)" "l < length post" "?k < l" "post ! l = p"
      unfolding behind_some_def by auto
    then show ?thesis using k at by (intro exI [of _ "length post - Suc l"]) (auto simp: rev_nth)
  qed
  then show ?thesis using i1 i3 set by (auto simp: rpo_ok_def hd_rev)
qed

lemma rpo_of_ok: "graph_wf succs \<Longrightarrow> \<exists>rpo. rpo_of succs = Some rpo \<and> rpo_ok succs rpo"
  using dfs_exact [OF _ dfs_start] dfs_done by (fastforce simp: rpo_of_def graph_wf_def)

section \<open>Depths and the dominance query\<close>

definition depths_ok :: "nat list list \<Rightarrow> nat option list \<Rightarrow> nat list \<Rightarrow> bool" where
  "depths_ok succs idom depth =
     (length depth = length succs \<and> depth ! 0 = 0 \<and> (\<forall>b < length succs. \<not> reach succs b \<longrightarrow> depth ! b = 0) \<and>
      (\<forall>b d. reach succs b \<longrightarrow> b \<noteq> 0 \<longrightarrow> idom ! b = Some d \<longrightarrow> depth ! b = depth ! d + 1))"

lemma dom_depths_fold:
  assumes T: "tree_ok succs num idom" and bs: "distinct bs" "0 \<notin> set bs" "\<forall>b\<in>set bs. reach succs b \<and> b < length succs"
    and parents: "\<And>k d. k < length bs \<Longrightarrow> idom ! (bs ! k) = Some d \<Longrightarrow> d = 0 \<or> d \<in> set (take k bs)"
  shows "length (dom_depths (length succs) idom bs) = length succs \<and>
    (\<forall>b < length succs. b \<notin> set bs \<longrightarrow> dom_depths (length succs) idom bs ! b = 0) \<and>
    (\<forall>b\<in>set bs. \<forall>d. idom ! b = Some d \<longrightarrow> dom_depths (length succs) idom bs ! b = dom_depths (length succs) idom bs ! d + 1)"
  using bs parents
proof (induction bs rule: rev_induct)
  case (snoc b bs)
  define D where "D = dom_depths (length succs) idom bs"
  have par: "d = 0 \<or> d \<in> set (take k bs)" if "k < length bs" "idom ! (bs ! k) = Some d" for k d
    using snoc.prems(4) [of k d] that by (simp add: nth_append)
  have IH: "length D = length succs" "\<And>c. c < length succs \<Longrightarrow> c \<notin> set bs \<Longrightarrow> D ! c = 0"
    "\<And>c d. c \<in> set bs \<Longrightarrow> idom ! c = Some d \<Longrightarrow> D ! c = D ! d + 1"
  proof -
    have p: "distinct bs" "0 \<notin> set bs" "\<forall>b\<in>set bs. reach succs b \<and> b < length succs" using snoc.prems(1-3) by auto
    have ih: "length D = length succs \<and> (\<forall>b < length succs. b \<notin> set bs \<longrightarrow> D ! b = 0) \<and>
        (\<forall>b\<in>set bs. \<forall>d. idom ! b = Some d \<longrightarrow> D ! b = D ! d + 1)"
      unfolding D_def by (rule snoc.IH [OF p]) (rule par)
    show "length D = length succs" using ih by (elim conjE)
    show "\<And>c. c < length succs \<Longrightarrow> c \<notin> set bs \<Longrightarrow> D ! c = 0" using ih by blast
    show "\<And>c d. c \<in> set bs \<Longrightarrow> idom ! c = Some d \<Longrightarrow> D ! c = D ! d + 1" using ih by blast
  qed
  have pd: "d = 0 \<or> d \<in> set bs" if "c \<in> set (bs @ [b])" "idom ! c = Some d" for c d
  proof -
    from that(1) obtain k where k: "k < length (bs @ [b])" "(bs @ [b]) ! k = c" by (metis in_set_conv_nth)
    with snoc.prems(4) [OF k(1), of d] that(2) have "d = 0 \<or> d \<in> set (take k (bs @ [b]))" by simp
    moreover have "set (take k (bs @ [b])) \<subseteq> set bs" using k(1) by (simp add: take_append set_take_subset)
    ultimately show ?thesis by blast
  qed
  have b: "b \<notin> set bs" "b \<noteq> 0" "b < length succs" using snoc.prems(1-3) by auto
  show ?case
  proof (cases "idom ! b")
    case None
    then have "dom_depths (length succs) idom (bs @ [b]) = D" by (simp add: dom_depths_def D_def)
    with None IH b show ?thesis by auto
  next
    case (Some d)
    then have e: "dom_depths (length succs) idom (bs @ [b]) = D[b := D ! d + 1]" by (simp add: dom_depths_def D_def)
    have keep: "D[b := D ! d + 1] ! x = D ! x" if "x = 0 \<or> x \<in> set bs" for x
    proof -
      have "x \<noteq> b" using that b(1,2) by blast
      then show ?thesis by simp
    qed
    show ?thesis unfolding e
    proof (intro conjI allI ballI impI)
      fix c dd assume c: "c \<in> set (bs @ [b])" "idom ! c = Some dd"
      show "D[b := D ! d + 1] ! c = D[b := D ! d + 1] ! dd + 1"
      proof (cases "c = b")
        case True
        then show ?thesis using keep [OF pd [OF c]] c(2) Some b(3) IH(1) by simp
      next
        case False
        then show ?thesis using keep [OF pd [OF c]] c IH(3) [of c dd] by simp
      qed
    qed (use IH b in auto)
  qed
qed (simp add: dom_depths_def)

lemma depths_exact:
  assumes wf: "graph_wf succs" and R: "rpo_ok succs rpo" and D: "dom_tree succs (rpo_numbers (length succs) rpo) idom"
  shows "depths_ok succs idom (dom_depths (length succs) idom (tl rpo))"
proof -
  let ?num = "rpo_numbers (length succs) rpo"
  note num = numbering(2) [OF wf R]
  have T: "tree_ok succs ?num idom" and pl: "\<And>b. reach succs b \<Longrightarrow> placed idom b" using D by (auto simp: dom_tree_def)
  have r: "rpo \<noteq> []" "rpo ! 0 = 0" "distinct rpo" "\<And>b. b \<in> set rpo \<longleftrightarrow> reach succs b" using R by (auto simp: rpo_ok_def hd_conv_nth)
  obtain rest where rpo: "rpo = 0 # rest" using r(1,2) by (cases rpo) auto
  have par: "d = 0 \<or> d \<in> set (take k rest)" if k: "k < length rest" "idom ! (rest ! k) = Some d" for k d
  proof -
    have b: "reach succs (rest ! k)" using r(4) rpo k(1) by (metis list.set_intros(2) nth_mem)
    have nz: "rest ! k \<noteq> 0" using r(3) rpo k(1) by (metis distinct.simps(2) nth_mem)
    from tree_parent [OF T pl [OF b] nz] k(2) have d: "placed idom d" "pos ?num d < pos ?num (rest ! k)" by auto
    have pk: "pos ?num (rest ! k) = Suc k" using num [of "Suc k"] rpo k(1) by simp
    from tree_reach [OF T d(1)] r(4) obtain j where j: "j < length rpo" "rpo ! j = d" by (metis in_set_conv_nth)
    then have "j \<le> k" using num [of j] d(2) pk by simp
    with j rpo show ?thesis by (cases j) (auto simp: in_set_conv_nth)
  qed
  have bs: "distinct rest" "0 \<notin> set rest" "\<forall>b\<in>set rest. reach succs b \<and> b < length succs"
    using r(3,4) rpo reach_bound [OF wf] by auto
  have n0: "0 < length succs" using wf by (simp add: graph_wf_def)
  have mem: "b \<in> set rest" if "reach succs b" "b \<noteq> 0" for b using that r(4) [of b] rpo by simp
  show ?thesis using dom_depths_fold [OF T bs par] bs n0 mem unfolding rpo list.sel depths_ok_def by blast
qed

lemma anc_depth:
  assumes "anc idom a b" "tree_ok succs num idom" "depths_ok succs idom depth" "placed idom b"
  shows "a = b \<or> depth ! a < depth ! b"
  using assms
proof (induction rule: anc.induct)
  case (up b d a)
  have "reach succs b" "placed idom d" using tree_reach [OF up.prems(1,3)] up.hyps up.prems by (auto simp: tree_ok_def)
  then have "depth ! b = depth ! d + 1" using up.hyps up.prems(2) by (simp add: depths_ok_def)
  with up.IH [OF up.prems(1,2) \<open>placed idom d\<close>] show ?case by auto
qed simp

lemma block_dominates_anc:
  assumes T: "tree_ok succs num idom" and D: "depths_ok succs idom depth"
  shows "placed idom b \<Longrightarrow> block_dominates idom depth a b = Some (anc idom a b)"
proof (induction "depth ! b" arbitrary: b rule: less_induct)
  case less
  have rb: "reach succs b" by (rule tree_reach [OF T less.prems])
  show ?case
  proof (cases "depth ! b > depth ! a")
    case True
    moreover have "depth ! 0 = 0" using D by (simp add: depths_ok_def)
    ultimately have "b \<noteq> 0" by (metis not_less0)
    from tree_parent [OF T less.prems this] obtain d where d: "idom ! b = Some d" "placed idom d" .
    have "depth ! b = depth ! d + 1" using D rb \<open>b \<noteq> 0\<close> d(1) by (simp add: depths_ok_def)
    with less.hyps [of d] d(2) have "block_dominates idom depth a d = Some (anc idom a d)" by simp
    moreover have "a \<noteq> b" using True by auto
    ultimately show ?thesis using True d(1) anc_parent [OF \<open>b \<noteq> 0\<close> d(1), of a] by (subst block_dominates.simps) simp
  next
    case False
    have "anc idom a b \<longleftrightarrow> a = b" using anc_depth [OF _ T D less.prems] False anc.self by blast
    then show ?thesis using False by (subst block_dominates.simps) simp
  qed
qed

section \<open>The dominator pass over any search order\<close>

definition dominance_ok :: "nat list list \<Rightarrow> nat option list \<Rightarrow> nat list \<Rightarrow> bool" where
  "dominance_ok succs idom depth =
     (length idom = length succs \<and>
      (\<forall>b < length succs. idom ! b \<noteq> None \<longleftrightarrow> reach succs b) \<and>
      (\<forall>a b. reach succs b \<longrightarrow> block_dominates idom depth a b = Some (dominates succs a b)) \<and>
      (\<forall>b d. reach succs b \<longrightarrow> b \<noteq> 0 \<longrightarrow> idom ! b = Some d \<longrightarrow>
         d \<noteq> b \<and> dominates succs d b \<and> (\<forall>a. dominates succs a b \<longrightarrow> a \<noteq> b \<longrightarrow> dominates succs a d)))"

lemma dominance_exact:
  assumes wf: "graph_wf succs" and R: "rpo_ok succs rpo"
  shows "\<exists>idom. idom_from succs (preds_of succs) rpo = Some idom \<and>
    dominance_ok succs idom (dom_depths (length succs) idom (tl rpo))"
proof -
  from idom_from_exact [OF wf R] obtain idom where
    i: "idom_from succs (preds_of succs) rpo = Some idom" and D: "dom_tree succs (rpo_numbers (length succs) rpo) idom" by blast
  note dep = depths_exact [OF wf R D]
  have T: "tree_ok succs (rpo_numbers (length succs) rpo) idom" and pl: "\<And>b. reach succs b \<Longrightarrow> placed idom b"
    and dom: "\<And>a b. reach succs b \<Longrightarrow> anc idom a b \<longleftrightarrow> dominates succs a b" using D by (auto simp: dom_tree_def)
  have len: "length idom = length succs" using T by (simp add: tree_ok_def)
  have "idom ! b \<noteq> None \<longleftrightarrow> reach succs b" if "b < length succs" for b
    using pl [of b] tree_reach [OF T, of b] that len by auto
  moreover have "block_dominates idom (dom_depths (length succs) idom (tl rpo)) a b = Some (dominates succs a b)"
    if "reach succs b" for a b using block_dominates_anc [OF T dep pl [OF that]] dom [OF that] by simp
  moreover have "d \<noteq> b \<and> dominates succs d b \<and> (\<forall>a. dominates succs a b \<longrightarrow> a \<noteq> b \<longrightarrow> dominates succs a d)"
    if b: "reach succs b" "b \<noteq> 0" "idom ! b = Some d" for b d
  proof -
    from tree_parent [OF T pl [OF b(1)] b(2)] b(3) have d: "placed idom d" "d \<noteq> b" by auto
    note par = anc_parent [OF b(2,3)]
    show ?thesis using d(2) par dom [OF b(1)] dom [OF tree_reach [OF T d(1)]] anc.self by blast
  qed
  ultimately show ?thesis using i len unfolding dominance_ok_def by blast
qed

locale search_order =
  fixes order :: "nat list list \<Rightarrow> nat list option"
  assumes order_ok: "graph_wf succs \<Longrightarrow> \<exists>rpo. order succs = Some rpo \<and> rpo_ok succs rpo"
begin

lemma dominators_exact:
  assumes "graph_wf succs"
  shows "\<exists>idom depth. Option.bind (order succs) (\<lambda>rpo.
      map_option (\<lambda>idom. (idom, dom_depths (length succs) idom (tl rpo))) (idom_from succs (preds_of succs) rpo)) = Some (idom, depth) \<and>
    dominance_ok succs idom depth"
proof -
  from order_ok [OF assms] obtain rpo where r: "order succs = Some rpo" "rpo_ok succs rpo" by blast
  with dominance_exact [OF assms r(2)] show ?thesis by auto
qed

end

interpretation rpo: search_order rpo_of
  by unfold_locales (rule rpo_of_ok)

lemma dominators_ok: "graph_wf succs \<Longrightarrow> \<exists>idom depth. dominators succs (preds_of succs) = Some (idom, depth) \<and> dominance_ok succs idom depth"
  unfolding dominators_def by (rule rpo.dominators_exact)

end
