(* ===== verification/Cfg_Loops.thy ===== *)
theory Cfg_Loops
  imports Cfg_Dom
begin

text \<open>
  The loop pass of \<^verbatim>\<open>compiler/src/wasm/bbv/cfg.rs\<close>: the bodies it grows are the natural loops of the back edges, the
  depth of a block is the number of loops around it, and the header it keeps is one of greatest depth.
\<close>

section \<open>Natural loops\<close>

text \<open>The blocks that reach \<open>b\<close> without passing \<open>h\<close>.\<close>

inductive avoiding :: "nat list list \<Rightarrow> nat \<Rightarrow> nat \<Rightarrow> nat \<Rightarrow> bool" for succs h b where
  at: "b \<noteq> h \<Longrightarrow> avoiding succs h b b"
| before: "avoiding succs h b y \<Longrightarrow> edge succs x y \<Longrightarrow> x \<noteq> h \<Longrightarrow> avoiding succs h b x"

lemma avoiding_not_header: "avoiding succs h b x \<Longrightarrow> x \<noteq> h"
  by (induction rule: avoiding.induct) auto

definition back_edge :: "nat list list \<Rightarrow> nat \<times> nat \<Rightarrow> bool" where
  "back_edge succs e = (reach succs (fst e) \<and> edge succs (fst e) (snd e) \<and> dominates succs (snd e) (fst e))"

text \<open>The loop of header \<open>h\<close> over the back edges of \<open>E\<close>.\<close>

definition loop_of :: "nat list list \<Rightarrow> (nat \<times> nat) set \<Rightarrow> nat \<Rightarrow> nat set" where
  "loop_of succs E h = insert h {x. \<exists>b. (b, h) \<in> E \<and> back_edge succs (b, h) \<and> avoiding succs h b x}"

text \<open>Everything upstream of a set of blocks, the header's own predecessors excepted.\<close>

inductive upstream :: "nat list list \<Rightarrow> nat \<Rightarrow> nat set \<Rightarrow> nat \<Rightarrow> bool" for preds h S where
  base: "x \<in> S \<Longrightarrow> upstream preds h S x"
| above: "upstream preds h S y \<Longrightarrow> y \<noteq> h \<Longrightarrow> x \<in> set (preds ! y) \<Longrightarrow> upstream preds h S x"

lemma upstream_mono:
  assumes "upstream preds h S x" "\<And>y. y \<in> S \<Longrightarrow> upstream preds h S' y"
  shows "upstream preds h S' x"
  using assms(1) by (induction rule: upstream.induct) (auto intro: assms(2) upstream.above)

lemma upstream_closed:
  assumes "upstream preds h S x" "\<forall>y\<in>S. y \<noteq> h \<longrightarrow> set (preds ! y) \<subseteq> S"
  shows "x \<in> S"
  using assms(1) by (induction rule: upstream.induct) (use assms(2) in auto)

lemma grow_body_exact:
  assumes "\<forall>y < length preds. \<forall>x\<in>set (preds ! y). x < length preds" "h \<in> set body" "distinct body" "\<forall>x\<in>set st. x < length preds"
    "\<forall>x\<in>set body. x \<noteq> h \<longrightarrow> set (preds ! x) \<subseteq> set body \<union> set st"
  shows "\<exists>r. grow_body preds body st = Some r \<and> distinct r \<and> set r = Collect (upstream preds h (set body \<union> set st))"
  using assms
proof (induction preds body st rule: grow_body.induct)
  case (1 preds body)
  then have "set body = Collect (upstream preds h (set body))" by (auto intro: upstream.base dest: upstream_closed)
  with "1.prems"(3) show ?case by simp
next
  case (2 preds body x st)
  show ?case
  proof (cases "x \<in> set body")
    case True
    then have S: "set body \<union> set (x # st) = set body \<union> set st" by auto
    have "\<exists>r. grow_body preds body st = Some r \<and> distinct r \<and> set r = Collect (upstream preds h (set body \<union> set st))"
      by (rule "2.IH"(1) [OF True "2.prems"(1-3)]) (use "2.prems"(4,5) S in auto)
    with True show ?thesis unfolding S by simp
  next
    case False
    have xn: "\<not> length preds \<le> x" "x < length preds" "x \<noteq> h" using "2.prems"(2,4) False by auto
    let ?st = "rev (preds ! x) @ st"
    have "\<exists>r. grow_body preds (body @ [x]) ?st = Some r \<and> distinct r \<and> set r = Collect (upstream preds h (set (body @ [x]) \<union> set ?st))"
      by (rule "2.IH"(2) [OF False xn(1) "2.prems"(1)]) (use "2.prems" False xn in auto)
    moreover have "upstream preds h (set (body @ [x]) \<union> set ?st) = upstream preds h (set body \<union> set (x # st))"
    proof (rule ext, rule iffI)
      fix z
      assume "upstream preds h (set (body @ [x]) \<union> set ?st) z"
      then show "upstream preds h (set body \<union> set (x # st)) z"
      proof (rule upstream_mono)
        fix y assume y: "y \<in> set (body @ [x]) \<union> set ?st"
        have ux: "upstream preds h (set body \<union> set (x # st)) x" by (rule upstream.base) simp
        show "upstream preds h (set body \<union> set (x # st)) y"
          using y upstream.above [OF ux xn(3), of y] by (auto intro: upstream.base)
      qed
    qed (auto elim!: upstream_mono intro: upstream.base)
    ultimately show ?thesis using False xn(1) by simp
  qed
qed

lemma avoiding_bound:
  assumes "graph_wf succs" "avoiding succs h c x" "c < length succs"
  shows "x < length succs"
  using assms(2,3) by (induction rule: avoiding.induct) (auto dest: edge_bound [OF assms(1)])

lemma loop_bound:
  assumes "graph_wf succs" "x \<in> loop_of succs E h" "h < length succs"
  shows "x < length succs"
  using assms avoiding_bound [OF assms(1)] edge_bound [OF assms(1)] by (auto simp: loop_of_def back_edge_def)

lemma loop_closed: "y \<in> loop_of succs E h \<Longrightarrow> y \<noteq> h \<Longrightarrow> edge succs x y \<Longrightarrow> x \<in> loop_of succs E h"
  by (auto simp: loop_of_def intro: avoiding.before)

text \<open>The body of a header once the back edge from \<open>b\<close> is taken in.\<close>

lemma grow_loop:
  assumes wf: "graph_wf succs" and e: "back_edge succs (b, h)" and body: "distinct body" "set body = loop_of succs E h"
  shows "\<exists>r. grow_body (preds_of succs) body [b] = Some r \<and> distinct r \<and> set r = loop_of succs (insert (b, h) E) h"
proof -
  let ?p = "preds_of succs" and ?L = "loop_of succs (insert (b, h) E) h"
  have plen: "length ?p = length succs" by (rule preds_of_edges(1))
  have pe: "x \<in> set (?p ! y) \<longleftrightarrow> edge succs x y" if "y < length succs" for x y by (rule preds_of_edges(2) [OF that])
  have bn: "b < length succs" "h < length succs" using e edge_bound [OF wf] by (auto simp: back_edge_def)
  have bnd: "\<forall>y < length ?p. \<forall>x\<in>set (?p ! y). x < length ?p" using pe edge_bound [OF wf] plen by auto
  have hb: "h \<in> set body" using body(2) by (simp add: loop_of_def)
  have cl: "\<forall>x\<in>set body. x \<noteq> h \<longrightarrow> set (?p ! x) \<subseteq> set body \<union> set [b]"
    using loop_closed [of _ succs E h] loop_bound [OF wf _ bn(2), of _ E] pe body(2) by auto
  have "Collect (upstream ?p h (set body \<union> set [b])) = ?L"
  proof (rule equalityI; rule subsetI)
    fix x assume "x \<in> Collect (upstream ?p h (set body \<union> set [b]))"
    then have "upstream ?p h (set body \<union> set [b]) x" by simp
    then show "x \<in> ?L"
    proof (induction rule: upstream.induct)
      case (base x)
      then show ?case using body(2) e avoiding.at [of b h succs] by (auto simp: loop_of_def)
    next
      case (above y x)
      with loop_bound [OF wf above.IH bn(2)] pe have "edge succs x y" by blast
      with loop_closed above show ?case by blast
    qed
  next
    fix x assume x: "x \<in> ?L"
    have "upstream ?p h (set body \<union> set [b]) x" if "avoiding succs h b x" for x
      using that
    proof (induction rule: avoiding.induct)
      case at
      then show ?case by (auto intro: upstream.base)
    next
      case (before y x)
      have "x \<in> set (?p ! y)" using pe before.hyps(2) edge_bound [OF wf before.hyps(2)] by blast
      with avoiding_not_header [OF before.hyps(1)] before.IH show ?case by (blast intro: upstream.above)
    qed
    moreover have "x \<in> set body \<or> avoiding succs h b x" using x body(2) by (auto simp: loop_of_def)
    ultimately show "x \<in> Collect (upstream ?p h (set body \<union> set [b]))" by (auto intro: upstream.base)
  qed
  with grow_body_exact [OF bnd hb body(1) _ cl] bn(1) plen show ?thesis by simp
qed

text \<open>The map of bodies after the back edges of \<open>E\<close>.\<close>

definition bodies_ok :: "nat list list \<Rightarrow> (nat \<times> nat) set \<Rightarrow> Bodies \<Rightarrow> bool" where
  "bodies_ok succs E bodies =
     (\<forall>h. case bodies h of
        None \<Rightarrow> \<not> (\<exists>b. (b, h) \<in> E \<and> back_edge succs (b, h))
      | Some body \<Rightarrow> (\<exists>b. (b, h) \<in> E \<and> back_edge succs (b, h)) \<and> distinct body \<and> set body = loop_of succs E h)"

lemma loop_of_other: "h' \<noteq> h \<Longrightarrow> loop_of succs (insert (b, h) E) h' = loop_of succs E h'"
  by (auto simp: loop_of_def)

lemma loop_of_no_edge: "\<not> back_edge succs (b, h) \<Longrightarrow> loop_of succs (insert (b, h) E) h' = loop_of succs E h'"
  by (auto simp: loop_of_def)

lemma bodies_skip: "bodies_ok succs E bodies \<Longrightarrow> \<not> back_edge succs (b, h) \<Longrightarrow> bodies_ok succs (insert (b, h) E) bodies"
proof -
  assume B: "bodies_ok succs E bodies" and n: "\<not> back_edge succs (b, h)"
  show "bodies_ok succs (insert (b, h) E) bodies"
    unfolding bodies_ok_def
  proof
    fix h'
    have "(\<exists>c. (c, h') \<in> insert (b, h) E \<and> back_edge succs (c, h')) \<longleftrightarrow> (\<exists>c. (c, h') \<in> E \<and> back_edge succs (c, h'))" using n by auto
    with B [unfolded bodies_ok_def, rule_format, of h'] loop_of_no_edge [OF n, of E h']
    show "case bodies h' of
        None \<Rightarrow> \<not> (\<exists>c. (c, h') \<in> insert (b, h) E \<and> back_edge succs (c, h'))
      | Some body \<Rightarrow> (\<exists>c. (c, h') \<in> insert (b, h) E \<and> back_edge succs (c, h')) \<and> distinct body \<and> set body = loop_of succs (insert (b, h) E) h'"
      by (simp split: option.splits)
  qed
qed

lemma bodies_add:
  assumes wf: "graph_wf succs" and B: "bodies_ok succs E bodies" and e: "back_edge succs (b, h)"
  shows "\<exists>r. grow_body (preds_of succs) (case bodies h of None \<Rightarrow> [h] | Some body \<Rightarrow> body) [b] = Some r \<and>
    bodies_ok succs (insert (b, h) E) (bodies(h \<mapsto> r))"
proof -
  let ?body = "case bodies h of None \<Rightarrow> [h] | Some body \<Rightarrow> body"
  have "distinct ?body \<and> set ?body = loop_of succs E h"
  proof (cases "bodies h")
    case None
    with B [unfolded bodies_ok_def, rule_format, of h] have "\<not> (\<exists>b. (b, h) \<in> E \<and> back_edge succs (b, h))" by simp
    with None show ?thesis by (auto simp: loop_of_def)
  next
    case (Some body)
    with B [unfolded bodies_ok_def, rule_format, of h] show ?thesis by simp
  qed
  with grow_loop [OF wf e, of ?body E] obtain r where
    r: "grow_body (preds_of succs) ?body [b] = Some r" "distinct r" "set r = loop_of succs (insert (b, h) E) h" by blast
  have "bodies_ok succs (insert (b, h) E) (bodies(h \<mapsto> r))"
    unfolding bodies_ok_def
  proof
    fix h'
    show "case (bodies(h \<mapsto> r)) h' of
        None \<Rightarrow> \<not> (\<exists>c. (c, h') \<in> insert (b, h) E \<and> back_edge succs (c, h'))
      | Some body \<Rightarrow> (\<exists>c. (c, h') \<in> insert (b, h) E \<and> back_edge succs (c, h')) \<and> distinct body \<and> set body = loop_of succs (insert (b, h) E) h'"
    proof (cases "h' = h")
      case True
      then show ?thesis using r e by auto
    next
      case False
      with B [unfolded bodies_ok_def, rule_format, of h'] show ?thesis
        by (auto simp: loop_of_other split: option.splits)
    qed
  qed
  with r(1) show ?thesis by blast
qed

lemma loop_edges_exact:
  assumes wf: "graph_wf succs" and D: "dominance_ok succs idom depth" and b: "reach succs b" "\<forall>h\<in>set hs. edge succs b h"
  shows "bodies_ok succs E bodies \<Longrightarrow>
    \<exists>r. loop_edges (preds_of succs) idom depth b hs bodies = Some r \<and> bodies_ok succs (E \<union> Pair b ` set hs) r"
  using b(2)
proof (induction hs arbitrary: bodies E)
  case (Cons h hs)
  have d: "block_dominates idom depth h b = Some (dominates succs h b)" using D b(1) by (simp add: dominance_ok_def)
  have S: "insert (b, h) E \<union> Pair b ` set hs = E \<union> Pair b ` set (h # hs)" by auto
  have be: "back_edge succs (b, h) \<longleftrightarrow> dominates succs h b" using b(1) Cons.prems(2) by (simp add: back_edge_def)
  show ?case
  proof (cases "dominates succs h b")
    case True
    with bodies_add [OF wf Cons.prems(1)] be obtain r where
      r: "grow_body (preds_of succs) (case bodies h of None \<Rightarrow> [h] | Some body \<Rightarrow> body) [b] = Some r"
        "bodies_ok succs (insert (b, h) E) (bodies(h \<mapsto> r))" by blast
    have hs: "\<forall>h\<in>set hs. edge succs b h" using Cons.prems(2) by simp
    from Cons.IH [OF r(2) hs] obtain r' where
      "loop_edges (preds_of succs) idom depth b hs (bodies(h \<mapsto> r)) = Some r'" "bodies_ok succs (insert (b, h) E \<union> Pair b ` set hs) r'" by blast
    then show ?thesis unfolding S using r(1) d True by (intro exI [of _ r']) (simp del: grow_body.simps fun_upd_apply)
  next
    case False
    with bodies_skip [OF Cons.prems(1)] be have "bodies_ok succs (insert (b, h) E) bodies" by blast
    from Cons.IH [OF this] Cons.prems(2) obtain r' where
      "loop_edges (preds_of succs) idom depth b hs bodies = Some r'" "bodies_ok succs (insert (b, h) E \<union> Pair b ` set hs) r'" by auto
    then show ?thesis unfolding S using d False by (intro exI [of _ r']) simp
  qed
qed simp

lemma loop_bodies_exact:
  assumes wf: "graph_wf succs" and D: "dominance_ok succs idom depth"
  shows "bodies_ok succs E bodies \<Longrightarrow> \<forall>b\<in>set bs. b < length succs \<Longrightarrow>
    \<exists>r. loop_bodies succs (preds_of succs) idom depth bs bodies = Some r \<and>
      bodies_ok succs (E \<union> {(b, h). b \<in> set bs \<and> reach succs b \<and> edge succs b h}) r"
proof (induction bs arbitrary: bodies E)
  case (Cons b bs)
  let ?G = "\<lambda>bs. {(b, h). b \<in> set bs \<and> reach succs b \<and> edge succs b h}"
  have b: "b < length succs" "idom ! b \<noteq> None \<longleftrightarrow> reach succs b" using Cons.prems(2) D by (auto simp: dominance_ok_def)
  show ?case
  proof (cases "reach succs b")
    case True
    have hs: "\<forall>h\<in>set (succs ! b). edge succs b h" using b(1) by (simp add: edge_def)
    from loop_edges_exact [OF wf D True hs Cons.prems(1)] obtain r where
      r: "loop_edges (preds_of succs) idom depth b (succs ! b) bodies = Some r" "bodies_ok succs (E \<union> Pair b ` set (succs ! b)) r" by blast
    have S: "E \<union> Pair b ` set (succs ! b) \<union> ?G bs = E \<union> ?G (b # bs)" using True b(1) by (auto simp: edge_def)
    from Cons.IH [OF r(2)] Cons.prems(2) obtain r' where
      "loop_bodies succs (preds_of succs) idom depth bs r = Some r'" "bodies_ok succs (E \<union> Pair b ` set (succs ! b) \<union> ?G bs) r'" by auto
    moreover obtain d where "idom ! b = Some d" using True b(2) by auto
    ultimately show ?thesis unfolding S using r(1) by (intro exI [of _ r']) simp
  next
    case False
    then have S: "E \<union> ?G bs = E \<union> ?G (b # bs)" by auto
    from Cons.IH [OF Cons.prems(1)] Cons.prems(2) obtain r' where
      "loop_bodies succs (preds_of succs) idom depth bs bodies = Some r'" "bodies_ok succs (E \<union> ?G bs) r'" by auto
    then show ?thesis unfolding S using False b(2) by (intro exI [of _ r']) simp
  qed
qed simp

definition is_header :: "nat list list \<Rightarrow> nat \<Rightarrow> bool" where
  "is_header succs h = (\<exists>b. back_edge succs (b, h))"

text \<open>The header and all that reaches one of its back edges without passing it.\<close>

definition natural_loop :: "nat list list \<Rightarrow> nat \<Rightarrow> nat set" where
  "natural_loop succs h = insert h {x. \<exists>b. back_edge succs (b, h) \<and> avoiding succs h b x}"

lemma natural_loop_bound:
  assumes "graph_wf succs" "is_header succs h" "x \<in> natural_loop succs h"
  shows "x < length succs"
proof -
  have "h < length succs" using assms(2) edge_bound [OF assms(1)] by (auto simp: is_header_def back_edge_def)
  moreover have "natural_loop succs h = loop_of succs UNIV h" by (simp add: natural_loop_def loop_of_def)
  ultimately show ?thesis using loop_bound [OF assms(1), of x UNIV h] assms(3) by simp
qed

definition loops_ok :: "nat list list \<Rightarrow> Bodies \<Rightarrow> bool" where
  "loops_ok succs bodies =
     (\<forall>h. if is_header succs h then \<exists>body. bodies h = Some body \<and> distinct body \<and> set body = natural_loop succs h else bodies h = None)"

lemma loop_bodies_ok:
  assumes wf: "graph_wf succs" and D: "dominance_ok succs idom depth"
  shows "\<exists>bodies. loop_bodies succs (preds_of succs) idom depth [0..<length succs] Map.empty = Some bodies \<and> loops_ok succs bodies"
proof -
  let ?E = "{} \<union> {(b, h). b \<in> set [0..<length succs] \<and> reach succs b \<and> edge succs b h}"
  have "bodies_ok succs {} Map.empty" by (simp add: bodies_ok_def)
  from loop_bodies_exact [OF wf D this, of "[0..<length succs]"] obtain r where
    r: "loop_bodies succs (preds_of succs) idom depth [0..<length succs] Map.empty = Some r" "bodies_ok succs ?E r" by auto
  have mem: "(b, h) \<in> ?E" if "back_edge succs (b, h)" for b h using that by (auto simp: back_edge_def edge_def)
  have lo: "loop_of succs ?E h = natural_loop succs h" for h using mem by (auto simp: loop_of_def natural_loop_def)
  have ih: "(\<exists>b. (b, h) \<in> ?E \<and> back_edge succs (b, h)) \<longleftrightarrow> is_header succs h" for h using mem by (auto simp: is_header_def)
  have "loops_ok succs r" unfolding loops_ok_def
  proof
    fix h
    from r(2) [unfolded bodies_ok_def, rule_format, of h, unfolded ih lo]
    show "if is_header succs h then \<exists>body. r h = Some body \<and> distinct body \<and> set body = natural_loop succs h else r h = None"
      by (cases "r h") auto
  qed
  with r(1) show ?thesis by blast
qed

lemma loop_headers_ok:
  assumes "graph_wf succs" "loops_ok succs bodies"
  shows "loop_headers (length succs) bodies = filter (is_header succs) [0..<length succs]"
  unfolding loop_headers_def
proof (rule filter_cong [OF refl])
  fix h
  show "bodies h \<noteq> None \<longleftrightarrow> is_header succs h" using assms(2) [unfolded loops_ok_def, rule_format, of h] by (auto split: if_splits)
qed

lemma header_bound: "graph_wf succs \<Longrightarrow> is_header succs h \<Longrightarrow> h < length succs"
  using edge_bound by (auto simp: is_header_def back_edge_def)

lemma header_body:
  assumes "loops_ok succs bodies" "is_header succs h"
  shows "distinct (the (bodies h))" "set (the (bodies h)) = natural_loop succs h"
  using assms(1) [unfolded loops_ok_def, rule_format, of h] assms(2) by auto

section \<open>Nesting\<close>

lemma inner_fold_at:
  assumes "distinct body" "x < length hdr"
  shows "fold (\<lambda>b hdr. hdr[b := f (hdr ! b)]) body hdr ! x = (if x \<in> set body then f (hdr ! x) else hdr ! x) \<and>
    length (fold (\<lambda>b hdr. hdr[b := f (hdr ! b)]) body hdr) = length hdr"
  using assms
proof (induction body arbitrary: hdr)
  case (Cons b body)
  then show ?case using Cons.IH [of "hdr[b := f (hdr ! b)]"] by (cases "x = b") auto
qed simp

lemma count_loops:
  assumes "\<forall>h\<in>set hs. distinct (the (bodies h))" "x < length depth"
  shows "fold (\<lambda>h depth. fold (\<lambda>b depth. depth[b := depth ! b + (1 :: u16)]) (the (bodies h)) depth) hs depth ! x =
    depth ! x + of_nat (length (filter (\<lambda>h. x \<in> set (the (bodies h))) hs))"
  using assms
proof (induction hs arbitrary: depth)
  case (Cons h hs)
  let ?d = "fold (\<lambda>b depth. depth[b := depth ! b + 1]) (the (bodies h)) depth"
  have "?d ! x = depth ! x + (if x \<in> set (the (bodies h)) then 1 else 0)" "length ?d = length depth"
    using inner_fold_at [of "the (bodies h)" x depth "\<lambda>d. d + 1"] Cons.prems by simp_all
  with Cons.IH [of ?d] Cons.prems show ?case by simp
qed simp

text \<open>The headers of the loops around a block.\<close>

definition loops_around :: "nat list list \<Rightarrow> nat \<Rightarrow> nat set" where
  "loops_around succs b = {h. is_header succs h \<and> b \<in> natural_loop succs h}"

lemma loops_around_le:
  assumes "graph_wf succs"
  shows "card (loops_around succs b) \<le> length (filter (is_header succs) [0..<length succs])"
proof -
  have "card (loops_around succs b) \<le> card (set (filter (is_header succs) [0..<length succs]))"
    using header_bound [OF assms] by (intro card_mono) (auto simp: loops_around_def)
  then show ?thesis using card_length [of "filter (is_header succs) [0..<length succs]"] by linarith
qed

lemma loop_depths_exact:
  assumes wf: "graph_wf succs" and L: "loops_ok succs bodies" and b: "b < length succs"
  shows "loop_depths (length succs) bodies ! b = of_nat (card (loops_around succs b))"
proof -
  let ?hs = "filter (is_header succs) [0..<length succs]"
  have "loop_depths (length succs) bodies ! b = of_nat (length (filter (\<lambda>h. b \<in> set (the (bodies h))) ?hs))"
    unfolding loop_depths_def loop_headers_ok [OF wf L]
    using count_loops [of ?hs bodies b "replicate (length succs) 0"] header_body(1) [OF L] b by simp
  also have "length (filter (\<lambda>h. b \<in> set (the (bodies h))) ?hs) = card (set (filter (\<lambda>h. b \<in> set (the (bodies h))) ?hs))"
    by (rule distinct_card [symmetric]) simp
  also have "set (filter (\<lambda>h. b \<in> set (the (bodies h))) ?hs) = loops_around succs b"
    using header_body(2) [OF L] header_bound [OF wf] by (auto simp: loops_around_def)
  finally show ?thesis .
qed

lemma hdr_fold_at:
  assumes "\<forall>h\<in>set hs. distinct (the (bodies h))" "x < length hdr"
  shows "fold (\<lambda>h hdr. fold (\<lambda>b hdr. hdr[b := inner_header depth h (hdr ! b)]) (the (bodies h)) hdr) hs hdr ! x =
    fold (inner_header depth) (filter (\<lambda>h. x \<in> set (the (bodies h))) hs) (hdr ! x)"
  using assms
proof (induction hs arbitrary: hdr)
  case (Cons h hs)
  let ?d = "fold (\<lambda>b hdr. hdr[b := inner_header depth h (hdr ! b)]) (the (bodies h)) hdr"
  have "?d ! x = (if x \<in> set (the (bodies h)) then inner_header depth h (hdr ! x) else hdr ! x)" "length ?d = length hdr"
    using inner_fold_at [of "the (bodies h)" x hdr "inner_header depth h"] Cons.prems by simp_all
  with Cons.IH [of ?d] Cons.prems show ?case by simp
qed simp

text \<open>The header kept is one of greatest depth.\<close>

lemma inner_header_best:
  "case fold (inner_header depth) hs cur of
     None \<Rightarrow> hs = [] \<and> cur = None
   | Some h \<Rightarrow> (h \<in> set hs \<or> cur = Some h) \<and> (\<forall>h'\<in>set hs. depth ! h' \<le> depth ! h) \<and> (\<forall>c. cur = Some c \<longrightarrow> depth ! c \<le> depth ! h)"
proof (induction hs arbitrary: cur)
  case Nil
  then show ?case by (simp split: option.splits)
next
  case (Cons h hs)
  show ?case using Cons.IH [of "inner_header depth h cur"]
    by (fastforce simp: inner_header_def split: option.splits if_splits)
qed

lemma loop_hdrs_exact:
  assumes wf: "graph_wf succs" and L: "loops_ok succs bodies" and b: "b < length succs"
  shows "case loop_hdrs (length succs) bodies depth ! b of
     None \<Rightarrow> \<not> (\<exists>h. is_header succs h \<and> b \<in> natural_loop succs h)
   | Some h \<Rightarrow> is_header succs h \<and> b \<in> natural_loop succs h \<and>
       (\<forall>h'. is_header succs h' \<longrightarrow> b \<in> natural_loop succs h' \<longrightarrow> depth ! h' \<le> depth ! h)"
proof -
  let ?hs = "filter (\<lambda>h. b \<in> set (the (bodies h))) (filter (is_header succs) [0..<length succs])"
  have set: "set ?hs = {h. is_header succs h \<and> b \<in> natural_loop succs h}"
    using header_body(2) [OF L] header_bound [OF wf] by auto
  have eq: "loop_hdrs (length succs) bodies depth ! b = fold (inner_header depth) ?hs None"
    unfolding loop_hdrs_def loop_headers_ok [OF wf L]
    using hdr_fold_at [of "filter (is_header succs) [0..<length succs]" bodies b "replicate (length succs) None" depth]
      header_body(1) [OF L] b by simp
  note best = inner_header_best [where depth = depth and hs = ?hs and cur = None]
  show ?thesis
  proof (cases "fold (inner_header depth) ?hs None")
    case None
    with best have "?hs = []" by simp
    then have "{h. is_header succs h \<and> b \<in> natural_loop succs h} = {}" unfolding set [symmetric] by (simp only: list.set)
    then show ?thesis unfolding eq None by simp
  next
    case (Some h)
    with best have "h \<in> set ?hs" "\<forall>h'\<in>set ?hs. depth ! h' \<le> depth ! h" by simp_all
    then show ?thesis unfolding eq Some set by simp
  qed
qed

end
