(* ===== verification/Live.thy ===== *)
theory Live
  imports Flow
begin

unbundle bit_operations_syntax

text \<open>
  Per-pc liveness of a script's frame slots, \<^verbatim>\<open>compiler/src/wasm/bbv/live.rs\<close>: the scan that gives each op its
  read and written slots as rows of 64-bit words, the successor lists with the handler edges, the backward
  sweeps to the fixpoint and the queries. Slot numbers are \<open>nat\<close>: a local index has 24 bits and a formal 16, so
  the \<open>u32\<close> sums of the code do not wrap. The sweep loop is a \<open>partial_function\<close>: that it stops is proved.
\<close>

section \<open>The scan\<close>

record OpRec =
  o_pc :: Pc
  o_len :: u32
  o_uses :: "u64 list"
  o_defs :: "u64 list"

record LiveScan =
  ls_nlocals :: nat
  ls_nargs :: nat
  ls_words :: nat
  ls_pc :: Pc
  ls_ops :: "OpRec list"
  ls_flow :: "Pc \<rightharpoonup> Flow"
  ls_handlers :: "(Pc \<times> Pc \<times> Pc) list"
  ls_bid_of :: "u32 \<Rightarrow> u32 option"
  ls_gbids :: "u32 list"

definition set_bit_in :: "u64 list \<Rightarrow> nat \<Rightarrow> u64 list" where
  "set_bit_in v b = (let w = b div 64 in if w < length v then v[w := v ! w OR push_bit (b mod 64) 1] else v)"

definition with_cur :: "(OpRec \<Rightarrow> OpRec) \<Rightarrow> LiveScan \<Rightarrow> LiveScan option" where
  "with_cur f st = (if ls_ops st = [] then None else Some (st\<lparr>ls_ops := butlast (ls_ops st) @ [f (last (ls_ops st))]\<rparr>))"

definition use_bit :: "nat \<Rightarrow> LiveScan \<Rightarrow> LiveScan option" where
  "use_bit b = with_cur (\<lambda>r. r\<lparr>o_uses := set_bit_in (o_uses r) b\<rparr>)"

definition def_bit :: "nat \<Rightarrow> LiveScan \<Rightarrow> LiveScan option" where
  "def_bit b = with_cur (\<lambda>r. r\<lparr>o_defs := set_bit_in (o_defs r) b\<rparr>)"

definition use_local :: "nat \<Rightarrow> LiveScan \<Rightarrow> LiveScan option" where
  "use_local l = use_bit l"

definition def_local :: "nat \<Rightarrow> LiveScan \<Rightarrow> LiveScan option" where
  "def_local l = def_bit l"

definition use_arg :: "nat \<Rightarrow> LiveScan \<Rightarrow> LiveScan option" where
  "use_arg a st = use_bit (ls_nlocals st + a) st"

definition def_arg :: "nat \<Rightarrow> LiveScan \<Rightarrow> LiveScan option" where
  "def_arg a st = def_bit (ls_nlocals st + a) st"

definition use_all_args :: "LiveScan \<Rightarrow> LiveScan option" where
  "use_all_args st = fold (\<lambda>a r. Option.bind r (use_arg a)) [0..<ls_nargs st] (Some st)"

definition use_all :: "LiveScan \<Rightarrow> LiveScan option" where
  "use_all = with_cur (\<lambda>r. r\<lparr>o_uses := map (\<lambda>_. NOT 0) (o_uses r)\<rparr>)"

text \<open>The position of an element in a vector.\<close>

fun position :: "'a \<Rightarrow> 'a list \<Rightarrow> nat option" where
  "position x [] = None"
| "position x (y # ys) = (if x = y then Some 0 else map_option Suc (position x ys))"

definition live_get_g_name :: "u32 \<Rightarrow> LiveScan \<Rightarrow> LiveScan option" where
  "live_get_g_name name_index st =
     (case ls_bid_of st name_index of
        None \<Rightarrow> Some st
      | Some b \<Rightarrow>
          (case position b (ls_gbids st) of
             None \<Rightarrow> Some st
           | Some k \<Rightarrow> use_bit (ls_nlocals st + ls_nargs st + k) st))"

definition live_before_op :: "JSOps \<Rightarrow> Pc \<Rightarrow> JSOp \<Rightarrow> LiveScan \<Rightarrow> LiveScan" where
  "live_before_op t pc op st =
     st\<lparr>ls_pc := pc,
        ls_ops := ls_ops st @ [\<lparr>o_pc = pc, o_len = op_len t op, o_uses = replicate (ls_words st) 0, o_defs = replicate (ls_words st) 0\<rparr>]\<rparr>"

definition live_try_note :: "TryNote \<Rightarrow> LiveScan \<Rightarrow> LiveScan" where
  "live_try_note n st =
     (if lands n then st\<lparr>ls_handlers := ls_handlers st @ [(tn_start n, note_end n, note_end n)]\<rparr> else st)"

text \<open>The ops that hand the whole frame to the runtime, and those that read every formal.\<close>

definition frame_ops :: "string list" where
  "frame_ops = [''generator'', ''initial_yield'', ''yield_'', ''await_'', ''resume'', ''after_yield'', ''eval'', ''strict_eval'',
     ''spread_eval'', ''strict_spread_eval'', ''debugger'', ''force_interpreter'', ''get_aliased_debug_var'']"

definition args_ops :: "string list" where
  "args_ops = [''arguments'', ''rest'', ''get_actual_arg'', ''arguments_length'']"

definition live_slots :: "string \<Rightarrow> int list \<Rightarrow> LiveScan \<Rightarrow> LiveScan option" where
  "live_slots cb vs st =
     (if cb = ''get_g_name'' then live_get_g_name (word_of_int (vs ! 0)) st
      else if cb \<in> set [''get_local'', ''check_lexical''] then use_local (nat (vs ! 0)) st
      else if cb \<in> set [''set_local'', ''init_lexical''] then def_local (nat (vs ! 0)) st
      else if cb \<in> set [''get_arg'', ''get_frame_arg''] then use_arg (nat (vs ! 0)) st
      else if cb = ''set_arg'' then def_arg (nat (vs ! 0)) st
      else if cb \<in> set args_ops then use_all_args st
      else if cb \<in> set frame_ops then use_all st
      else Some st)"

definition live_event :: "JSOps \<Rightarrow> Event \<Rightarrow> LiveScan \<Rightarrow> LiveScan option" where
  "live_event t ev st =
     (case ev of
        BeforeOp pc op _ _ \<Rightarrow> Some (live_before_op t pc op st)
      | NoteEvent _ n \<Rightarrow> Some (live_try_note n st)
      | _ \<Rightarrow>
          (case flow_of_event 0 (ls_pc st) ev of
             Some f \<Rightarrow> Some (st\<lparr>ls_flow := (ls_flow st)(ls_pc st \<mapsto> f)\<rparr>)
           | None \<Rightarrow> (case ev of Callback cb vs \<Rightarrow> live_slots cb vs st | _ \<Rightarrow> Some st)))"

fun live_scan :: "JSOps \<Rightarrow> Event list \<Rightarrow> LiveScan \<Rightarrow> LiveScan option" where
  "live_scan t [] st = Some st"
| "live_scan t (ev # evs) st = Option.bind (live_event t ev st) (live_scan t evs)"

section \<open>Bindings, locals and successors\<close>

text \<open>\<open>max_locals\<close> of \<^verbatim>\<open>wasm/translate.rs\<close>: one past the highest local the code names.\<close>

fun max_locals_event :: "Event \<Rightarrow> nat \<Rightarrow> nat" where
  "max_locals_event (Callback cb vs) m =
     (if cb \<in> set [''get_local'', ''set_local'', ''init_lexical''] then max m (nat (vs ! 0) + 1) else m)"
| "max_locals_event _ m = m"

definition max_locals :: "Event list \<Rightarrow> nat" where
  "max_locals evs = fold max_locals_event evs 0"

fun gscan_event :: "(u32 \<Rightarrow> u32 option) \<Rightarrow> Event \<Rightarrow> u32 list \<Rightarrow> u32 list" where
  "gscan_event bid_of (Callback cb vs) gbids =
     (if cb = ''get_g_name'' then
        (case bid_of (word_of_int (vs ! 0)) of
           None \<Rightarrow> gbids
         | Some b \<Rightarrow> if b \<in> set gbids then gbids else gbids @ [b])
      else gbids)"
| "gscan_event bid_of _ gbids = gbids"

definition gscan :: "(u32 \<Rightarrow> u32 option) \<Rightarrow> Event list \<Rightarrow> u32 list" where
  "gscan bid_of evs = fold (gscan_event bid_of) evs []"

definition pc_index :: "Pc list \<Rightarrow> Pc \<Rightarrow> nat option" where
  "pc_index pcs pc = (case binary_search pc pcs of Inr i \<Rightarrow> Some i | Inl _ \<Rightarrow> None)"

definition opt_list :: "'a option \<Rightarrow> 'a list" where
  "opt_list r = (case r of None \<Rightarrow> [] | Some x \<Rightarrow> [x])"

definition flow_succs :: "Pc list \<Rightarrow> (Pc \<rightharpoonup> Flow) \<Rightarrow> OpRec \<Rightarrow> nat list" where
  "flow_succs pcs flow r =
     (let next = opt_list (pc_index pcs (o_pc r + o_len r))
      in case flow (o_pc r) of
           None \<Rightarrow> next
         | Some (Br u) \<Rightarrow> opt_list (pc_index pcs u)
         | Some (CondBr u) \<Rightarrow> opt_list (pc_index pcs u) @ next
         | Some (Switch us) \<Rightarrow> concat (map (\<lambda>u. opt_list (pc_index pcs u)) us)
         | Some Ret \<Rightarrow> []
         | Some Halt \<Rightarrow> [])"

text \<open>Pushing \<open>h\<close> on \<open>succs[lo..hi]\<close>, which panics on an inverted range.\<close>

fun handler_succs :: "Pc list \<Rightarrow> (Pc \<times> Pc \<times> Pc) list \<Rightarrow> nat list list \<Rightarrow> nat list list option" where
  "handler_succs pcs [] succs = Some succs"
| "handler_succs pcs ((start, fin, landing) # hs) succs =
     (case pc_index pcs landing of
        None \<Rightarrow> handler_succs pcs hs succs
      | Some h \<Rightarrow>
          (let a = partition_point (\<lambda>p. p < start) pcs; z = partition_point (\<lambda>p. p < fin) pcs
           in if a \<le> z
              then handler_succs pcs hs (map (\<lambda>i. if a \<le> i \<and> i < z then succs ! i @ [h] else succs ! i) [0..<length succs])
              else None))"

section \<open>The fixpoint\<close>

definition out_words :: "nat \<Rightarrow> u64 list \<Rightarrow> nat list \<Rightarrow> u64 list" where
  "out_words words live js =
     fold (\<lambda>j out. map (\<lambda>w. out ! w OR live ! (j * words + w)) [0..<words]) js (replicate words 0)"

definition op_live :: "OpRec \<Rightarrow> u64 list \<Rightarrow> nat \<Rightarrow> u64" where
  "op_live r out w = o_uses r ! w OR (out ! w AND NOT (o_defs r ! w))"

fun store_words :: "OpRec \<Rightarrow> u64 list \<Rightarrow> nat \<Rightarrow> nat list \<Rightarrow> u64 list \<times> bool \<Rightarrow> u64 list \<times> bool" where
  "store_words p out k [] r = r"
| "store_words p out k (w # ws) (live, changed) =
     (let v = op_live p out w
      in if live ! (k + w) \<noteq> v then store_words p out k ws (live[k + w := v], True)
         else store_words p out k ws (live, changed))"

definition sweep_op :: "nat \<Rightarrow> OpRec list \<Rightarrow> nat list list \<Rightarrow> nat \<Rightarrow> u64 list \<times> bool \<Rightarrow> u64 list \<times> bool" where
  "sweep_op words ops succs i r =
     store_words (ops ! i) (out_words words (fst r) (succs ! i)) (i * words) [0..<words] r"

definition sweep :: "nat \<Rightarrow> OpRec list \<Rightarrow> nat list list \<Rightarrow> u64 list \<Rightarrow> u64 list \<times> bool" where
  "sweep words ops succs live = fold (sweep_op words ops succs) (rev [0..<length ops]) (live, False)"

partial_function (option) live_loop :: "nat \<Rightarrow> OpRec list \<Rightarrow> nat list list \<Rightarrow> u64 list \<Rightarrow> u64 list option" where
  "live_loop words ops succs live =
     (let r = sweep words ops succs live
      in if snd r then live_loop words ops succs (fst r) else Some (fst r))"

section \<open>The table and its queries\<close>

record ScriptLive =
  sl_nlocals :: nat
  sl_nargs :: nat
  sl_words :: nat
  sl_pcs :: "Pc list"
  sl_live_in :: "u64 list"
  sl_gbids :: "u32 list"

definition live_start :: "(u32 \<Rightarrow> u32 option) \<Rightarrow> Script \<Rightarrow> Event list \<Rightarrow> LiveScan" where
  "live_start bid_of s evs =
     (let gbids = gscan bid_of evs; nbits = max_locals evs + unat (nargs s) + length gbids
      in \<lparr>ls_nlocals = max_locals evs, ls_nargs = unat (nargs s), ls_words = (nbits + 63) div 64, ls_pc = 0, ls_ops = [],
          ls_flow = Map.empty, ls_handlers = [], ls_bid_of = bid_of, ls_gbids = gbids\<rparr>)"

text \<open>The scan and the successor lists \<open>build\<close> iterates over.\<close>

definition live_graph :: "JSOps \<Rightarrow> (u32 \<Rightarrow> u32 option) \<Rightarrow> Script \<Rightarrow> (LiveScan \<times> nat list list) option" where
  "live_graph t bid_of s =
     Option.bind (visit t s) (\<lambda>evs.
     Option.bind (live_scan t evs (live_start bid_of s evs)) (\<lambda>st.
       let pcs = map o_pc (ls_ops st)
       in map_option (Pair st) (handler_succs pcs (ls_handlers st) (map (flow_succs pcs (ls_flow st)) (ls_ops st)))))"

definition live_build :: "JSOps \<Rightarrow> (u32 \<Rightarrow> u32 option) \<Rightarrow> Script \<Rightarrow> ScriptLive option" where
  "live_build t bid_of s =
     Option.bind (live_graph t bid_of s) (\<lambda>(st, succs).
       map_option (\<lambda>live. \<lparr>sl_nlocals = ls_nlocals st, sl_nargs = ls_nargs st, sl_words = ls_words st,
           sl_pcs = map o_pc (ls_ops st), sl_live_in = live, sl_gbids = ls_gbids st\<rparr>)
         (live_loop (ls_words st) (ls_ops st) succs (replicate (length (ls_ops st) * ls_words st) 0)))"

definition live_bit :: "ScriptLive \<Rightarrow> Pc \<Rightarrow> nat \<Rightarrow> bool" where
  "live_bit L pc b =
     (case pc_index (sl_pcs L) pc of
        None \<Rightarrow> True
      | Some i \<Rightarrow>
          (let w = b div 64
           in w \<ge> sl_words L \<or> sl_live_in L ! (i * sl_words L + w) AND push_bit (b mod 64) 1 \<noteq> 0))"

definition local_live :: "ScriptLive \<Rightarrow> Pc \<Rightarrow> nat \<Rightarrow> bool" where
  "local_live L pc l = (l \<ge> sl_nlocals L \<or> live_bit L pc l)"

definition arg_live :: "ScriptLive \<Rightarrow> Pc \<Rightarrow> nat \<Rightarrow> bool" where
  "arg_live L pc a = live_bit L pc (sl_nlocals L + a)"

definition gcell_live :: "ScriptLive \<Rightarrow> Pc \<Rightarrow> u32 \<Rightarrow> bool" where
  "gcell_live L pc bid =
     (case position bid (sl_gbids L) of
        Some k \<Rightarrow> live_bit L pc (sl_nlocals L + sl_nargs L + k)
      | None \<Rightarrow> False)"

end
