(* ===== verification/Live_Exact.thy ===== *)
theory Live_Exact
  imports Live
begin

unbundle bit_operations_syntax

text \<open>
  The liveness analysis of \<^verbatim>\<open>compiler/src/wasm/bbv/live.rs\<close> is exact: the sweeps stop, and a slot is reported live
  before an op exactly when some path of the script's own branches and handler edges reads it before writing it.
  The sweeps are argued on the bits of the table: every set bit has a path, no bit is ahead of its equation, and
  the number of clear bits falls with every sweep that changes something.
\<close>

section \<open>Rows of bits\<close>

text \<open>Bit \<open>b\<close> of a row, and of row \<open>i\<close> of the table.\<close>

definition row_bit :: "u64 list \<Rightarrow> nat \<Rightarrow> bool" where
  "row_bit v b = (b div 64 < length v \<and> bit (v ! (b div 64)) (b mod 64))"

definition tbit :: "nat \<Rightarrow> u64 list \<Rightarrow> nat \<Rightarrow> nat \<Rightarrow> bool" where
  "tbit words live i b = bit (live ! (i * words + b div 64)) (b mod 64)"

text \<open>A slot is live before op \<open>i\<close> when some path from \<open>i\<close> reads it before any op on it writes it.\<close>

inductive upward :: "(nat \<Rightarrow> nat \<Rightarrow> bool) \<Rightarrow> (nat \<Rightarrow> nat \<Rightarrow> bool) \<Rightarrow> (nat \<Rightarrow> nat \<Rightarrow> bool) \<Rightarrow> nat \<Rightarrow> nat \<Rightarrow> nat \<Rightarrow> bool"
  for edge reads writes n where
  read: "i < n \<Longrightarrow> reads i b \<Longrightarrow> upward edge reads writes n i b"
| pass: "i < n \<Longrightarrow> edge i j \<Longrightarrow> \<not> writes i b \<Longrightarrow> upward edge reads writes n j b \<Longrightarrow> upward edge reads writes n i b"

abbreviation row_upward :: "OpRec list \<Rightarrow> nat list list \<Rightarrow> nat \<Rightarrow> nat \<Rightarrow> bool" where
  "row_upward ops succs \<equiv> upward (\<lambda>i j. j \<in> set (succs ! i)) (\<lambda>i. row_bit (o_uses (ops ! i))) (\<lambda>i. row_bit (o_defs (ops ! i))) (length ops)"

definition graph_ok :: "nat \<Rightarrow> OpRec list \<Rightarrow> nat list list \<Rightarrow> bool" where
  "graph_ok words ops succs =
     (length succs = length ops \<and>
      (\<forall>p\<in>set ops. length (o_uses p) = words \<and> length (o_defs p) = words) \<and>
      (\<forall>js\<in>set succs. \<forall>j\<in>set js. j < length ops))"

lemma index_bound:
  fixes i n w m :: nat
  shows "i < n \<Longrightarrow> w < m \<Longrightarrow> i * m + w < n * m"
  by (metis add.commute add_mono_thms_linordered_field(3) le_simps(3) less_le_trans mult.commute mult_Suc_right mult_le_mono2 nat_add_left_cancel_less)

lemma index_inj:
  fixes i j v w m :: nat
  assumes "v < m" "w < m" "i * m + v = j * m + w"
  shows "i = j \<and> v = w"
proof -
  have "(i * m + v) div m = i" "(j * m + w) div m = j" using assms(1,2) by auto
  with assms(3) have "i = j" by simp
  with assms(3) show ?thesis by simp
qed

section \<open>One op of a sweep\<close>

lemma out_words_fold:
  "length out = words \<Longrightarrow> w < words \<Longrightarrow>
   bit (fold (\<lambda>j out. map (\<lambda>w. out ! w OR live ! (j * words + w)) [0..<words]) js out ! w) k =
   (bit (out ! w) k \<or> (\<exists>j\<in>set js. bit (live ! (j * words + w)) k))"
  by (induction js arbitrary: out) (auto simp: bit_or_iff)

lemma out_words_bit: "w < words \<Longrightarrow> bit (out_words words live js ! w) k = (\<exists>j\<in>set js. bit (live ! (j * words + w)) k)"
  by (simp add: out_words_def out_words_fold)

lemma store_words_fold:
  assumes "distinct ws" "\<forall>w\<in>set ws. k + w < length live"
  shows "store_words p out k ws (live, c) =
    (fold (\<lambda>w l. l[k + w := op_live p out w]) ws live, c \<or> fold (\<lambda>w l. l[k + w := op_live p out w]) ws live \<noteq> live)"
  using assms
proof (induction ws arbitrary: live c)
  case (Cons w ws)
  let ?v = "op_live p out w" and ?F = "fold (\<lambda>w l. l[k + w := op_live p out w]) ws"
  have keep: "?F l ! (k + w) = l ! (k + w)" if "length l = length live" for l
  proof -
    have "x \<notin> set ws' \<Longrightarrow> fold (\<lambda>w l. l[k + w := op_live p out w]) ws' l ! (k + x) = l ! (k + x)" for x ws' l
      by (induction ws' arbitrary: l) auto
    then show ?thesis using Cons.prems(1) by simp
  qed
  show ?case
  proof (cases "live ! (k + w) = ?v")
    case True
    then have "live[k + w := ?v] = live" by (metis list_update_id)
    with True Cons show ?thesis by (simp add: Let_def)
  next
    case False
    have "?F (live[k + w := ?v]) ! (k + w) = ?v" using Cons.prems(2) keep [of "live[k + w := ?v]"] by simp
    with False have "?F (live[k + w := ?v]) \<noteq> live" by metis
    with False Cons show ?thesis by (simp add: Let_def)
  qed
qed simp

lemma store_fold_nth:
  assumes "x < length live"
  shows "fold (\<lambda>w l. l[k + w := op_live p out w]) [0..<m] live ! x =
    (if k \<le> x \<and> x < k + m then op_live p out (x - k) else live ! x)"
proof (induction m)
  case (Suc m)
  have len: "length (fold (\<lambda>w l. l[k + w := op_live p out w]) ws l) = length l" for ws l
    by (induction ws arbitrary: l) auto
  show ?case using Suc assms by (cases "x = k + m") (auto simp: len)
qed auto

lemma store_fold_length: "length (fold (\<lambda>w l. l[k + w := op_live p out w]) ws live) = length live"
  by (induction ws arbitrary: live) auto

lemma sweep_op_changed:
  assumes "length live = length ops * words" "i < length ops"
  shows "snd (sweep_op words ops succs i (live, c)) = (c \<or> fst (sweep_op words ops succs i (live, c)) \<noteq> live)"
  using assms index_bound by (simp add: sweep_op_def store_words_fold)

lemma sweep_op_length:
  assumes "length live = length ops * words" "i < length ops"
  shows "length (fst (sweep_op words ops succs i (live, c))) = length live"
  using assms index_bound by (simp add: sweep_op_def store_words_fold store_fold_length)

text \<open>The right-hand side of the data-flow equation at op \<open>i\<close>.\<close>

definition flow_in :: "nat \<Rightarrow> OpRec list \<Rightarrow> nat list list \<Rightarrow> u64 list \<Rightarrow> nat \<Rightarrow> nat \<Rightarrow> bool" where
  "flow_in words ops succs live i b =
     (row_bit (o_uses (ops ! i)) b \<or> (\<exists>j\<in>set (succs ! i). tbit words live j b) \<and> \<not> row_bit (o_defs (ops ! i)) b)"

lemma sweep_op_bit:
  assumes ok: "graph_ok words ops succs" and len: "length live = length ops * words" and i: "i < length ops" "i' < length ops"
    and b: "b < 64 * words"
  shows "tbit words (fst (sweep_op words ops succs i (live, c))) i' b =
    (if i' = i then flow_in words ops succs live i b else tbit words live i' b)"
proof -
  let ?w = "b div 64"
  have w: "?w < words" using b by (simp add: less_mult_imp_div_less mult.commute)
  have row: "length (o_uses (ops ! i)) = words" "length (o_defs (ops ! i)) = words" using ok i by (auto simp: graph_ok_def)
  have x: "i' * words + ?w < length live" using index_bound [OF i(2) w] len by simp
  have at: "fst (sweep_op words ops succs i (live, c)) ! (i' * words + ?w) =
     (if i * words \<le> i' * words + ?w \<and> i' * words + ?w < i * words + words
      then op_live (ops ! i) (out_words words live (succs ! i)) (i' * words + ?w - i * words) else live ! (i' * words + ?w))"
    using index_bound len i x by (simp add: sweep_op_def store_words_fold store_fold_nth)
  show ?thesis
  proof (cases "i' = i")
    case True
    have "b mod 64 < 64" by simp
    with True at w row show ?thesis
      by (simp add: tbit_def flow_in_def row_bit_def op_live_def bit_simps out_words_bit)
  next
    case False
    have "\<not> (i * words \<le> i' * words + ?w \<and> i' * words + ?w < i * words + words)"
    proof
      assume a: "i * words \<le> i' * words + ?w \<and> i' * words + ?w < i * words + words"
      then have "i' * words + ?w - i * words < words" by linarith
      from index_inj [OF w this, of i' i] a False show False by simp
    qed
    with at False show ?thesis by (simp add: tbit_def)
  qed
qed

section \<open>Sweeps\<close>

text \<open>What every op of a sweep keeps: each live bit has a path, and no bit is ahead of its equation.\<close>

definition paths_only :: "nat \<Rightarrow> OpRec list \<Rightarrow> nat list list \<Rightarrow> u64 list \<Rightarrow> bool" where
  "paths_only words ops succs live =
     (\<forall>i < length ops. \<forall>b < 64 * words. tbit words live i b \<longrightarrow> row_upward ops succs i b)"

definition rising :: "nat \<Rightarrow> OpRec list \<Rightarrow> nat list list \<Rightarrow> u64 list \<Rightarrow> bool" where
  "rising words ops succs live =
     (\<forall>i < length ops. \<forall>b < 64 * words. tbit words live i b \<longrightarrow> flow_in words ops succs live i b)"

definition stable_at :: "nat \<Rightarrow> OpRec list \<Rightarrow> nat list list \<Rightarrow> u64 list \<Rightarrow> nat \<Rightarrow> bool" where
  "stable_at words ops succs live i = (\<forall>b < 64 * words. tbit words live i b = flow_in words ops succs live i b)"

definition below :: "nat \<Rightarrow> nat \<Rightarrow> u64 list \<Rightarrow> u64 list \<Rightarrow> bool" where
  "below words n live live' = (\<forall>i < n. \<forall>b < 64 * words. tbit words live i b \<longrightarrow> tbit words live' i b)"

lemma succ_bound: "graph_ok words ops succs \<Longrightarrow> i < length ops \<Longrightarrow> j \<in> set (succs ! i) \<Longrightarrow> j < length ops"
  by (metis graph_ok_def nth_mem)

lemma flow_in_path:
  assumes "graph_ok words ops succs" "paths_only words ops succs live" "i < length ops" "b < 64 * words"
    "flow_in words ops succs live i b"
  shows "row_upward ops succs i b"
  using assms succ_bound [OF assms(1,3)] by (auto simp: flow_in_def paths_only_def intro: upward.intros)

lemma flow_in_mono:
  assumes "graph_ok words ops succs" "below words (length ops) live live'" "i < length ops" "b < 64 * words"
    "flow_in words ops succs live i b"
  shows "flow_in words ops succs live' i b"
  using assms succ_bound [OF assms(1,3)] by (auto simp: flow_in_def below_def)

lemma sweep_op_keeps:
  fixes c :: bool
  assumes ok: "graph_ok words ops succs" and len: "length live = length ops * words" and i: "i < length ops"
  defines "live' \<equiv> fst (sweep_op words ops succs i (live, c))"
  shows "paths_only words ops succs live \<Longrightarrow> paths_only words ops succs live'"
    and "rising words ops succs live \<Longrightarrow> below words (length ops) live live'"
    and "rising words ops succs live \<Longrightarrow> rising words ops succs live'"
    and "live' = live \<Longrightarrow> stable_at words ops succs live i"
proof -
  have bits: "tbit words live' i' b = (if i' = i then flow_in words ops succs live i b else tbit words live i' b)"
    if "i' < length ops" "b < 64 * words" for i' b
    using sweep_op_bit [OF ok len i that] by (simp add: live'_def)
  show "paths_only words ops succs live \<Longrightarrow> paths_only words ops succs live'"
    using flow_in_path [OF ok] bits i by (auto simp: paths_only_def)
  show below: "below words (length ops) live live'" if "rising words ops succs live"
    using that bits by (auto simp: below_def rising_def)
  show "rising words ops succs live'" if r: "rising words ops succs live"
    unfolding rising_def
  proof (intro allI impI)
    fix i' b
    assume i': "i' < length ops" and b: "b < 64 * words" and t: "tbit words live' i' b"
    have "flow_in words ops succs live i' b"
    proof (cases "i' = i")
      case True
      with t bits [OF i' b] show ?thesis by simp
    next
      case False
      with t bits [OF i' b] r i' b show ?thesis by (simp add: rising_def)
    qed
    then show "flow_in words ops succs live' i' b" by (rule flow_in_mono [OF ok below [OF r] i' b])
  qed
  show "stable_at words ops succs live i" if "live' = live"
    using bits [OF i] that by (simp add: stable_at_def)
qed

lemma below_refl: "below words n live live"
  by (simp add: below_def)

lemma below_trans: "below words n a b \<Longrightarrow> below words n b c \<Longrightarrow> below words n a c"
  by (auto simp: below_def)

text \<open>The bits still clear: the measure of the sweep loop.\<close>

definition dark :: "nat \<Rightarrow> nat \<Rightarrow> u64 list \<Rightarrow> nat" where
  "dark words n live = card {(i, b). i < n \<and> b < 64 * words \<and> \<not> tbit words live i b}"

lemma finite_dark: "finite {(i, b). i < (n :: nat) \<and> b < 64 * words \<and> \<not> tbit words live i b}"
  by (rule finite_subset [of _ "{..<n} \<times> {..<64 * words}"]) auto

lemma dark_mono: "below words n live live' \<Longrightarrow> dark words n live' \<le> dark words n live"
  unfolding dark_def by (rule card_mono [OF finite_dark]) (auto simp: below_def)

lemma differ_bit:
  assumes "length live = n * words" "length live' = n * words" "live \<noteq> live'"
  obtains i b where "i < n" "b < 64 * words" "tbit words live i b \<noteq> tbit words live' i b"
proof -
  from assms obtain x where x: "x < n * words" "live ! x \<noteq> live' ! x" by (metis nth_equalityI)
  then obtain k where k: "k < 64" "bit (live ! x) k \<noteq> bit (live' ! x) k"
    using bit_word_eqI [of "live ! x" "live' ! x"] by auto
  have w: "0 < words" using x(1) by (cases words) auto
  let ?i = "x div words" and ?b = "(x mod words) * 64 + k"
  have "?i < n" using x(1) by (simp add: less_mult_imp_div_less)
  moreover have "?b < 64 * words" using index_bound [of "x mod words" words k 64] w k(1) by (simp add: mult.commute)
  moreover have "?b div 64 = x mod words" "?b mod 64 = k" using k(1) by auto
  ultimately show thesis using that [of ?i ?b] k(2) by (simp add: tbit_def)
qed

lemma dark_less:
  assumes "below words n live live'" "length live = n * words" "length live' = n * words" "live \<noteq> live'"
  shows "dark words n live' < dark words n live"
proof -
  from differ_bit [OF assms(2-4)] obtain i b where ib: "i < n" "b < 64 * words" "tbit words live i b \<noteq> tbit words live' i b"
    by blast
  with assms(1) have "\<not> tbit words live i b" "tbit words live' i b" by (auto simp: below_def)
  with ib assms(1) show ?thesis
    unfolding dark_def by (intro psubset_card_mono [OF finite_dark]) (auto simp: below_def)
qed

lemma sweep_ops_keep:
  fixes c :: bool
  assumes ok: "graph_ok words ops succs" and len: "length live = length ops * words" and "\<forall>i\<in>set is. i < length ops"
  defines "r \<equiv> fold (sweep_op words ops succs) is (live, c)"
  shows "length (fst r) = length live \<and>
    (paths_only words ops succs live \<longrightarrow> paths_only words ops succs (fst r)) \<and>
    (rising words ops succs live \<longrightarrow> rising words ops succs (fst r) \<and>
       dark words (length ops) (fst r) \<le> dark words (length ops) live \<and>
       (snd r \<and> \<not> c \<longrightarrow> dark words (length ops) (fst r) < dark words (length ops) live)) \<and>
    (c \<longrightarrow> snd r) \<and> (\<not> snd r \<longrightarrow> fst r = live \<and> (\<forall>i\<in>set is. stable_at words ops succs live i))"
  using assms(2,3) unfolding r_def
proof (induction "is" arbitrary: live c)
  case Nil
  then show ?case by simp
next
  case (Cons i "is")
  obtain live1 c1 where 1: "sweep_op words ops succs i (live, c) = (live1, c1)" by (cases "sweep_op words ops succs i (live, c)")
  from Cons.prems have i: "i < length ops" by simp
  have len1: "length live1 = length live" using sweep_op_length [OF Cons.prems(1) i, of succs c] 1 by simp
  have c1: "c1 = (c \<or> live1 \<noteq> live)" using sweep_op_changed [OF Cons.prems(1) i, of succs c] 1 by simp
  note k = sweep_op_keeps [OF ok Cons.prems(1) i, of c, unfolded 1 fst_conv]
  note IH = Cons.IH [of live1 c1, unfolded len1, OF Cons.prems(1)]
  have is_ok: "\<forall>i\<in>set is. i < length ops" using Cons.prems by simp
  let ?r = "fold (sweep_op words ops succs) is (live1, c1)"
  have d: "dark words (length ops) live1 \<le> dark words (length ops) live \<and>
      (live1 \<noteq> live \<longrightarrow> dark words (length ops) live1 < dark words (length ops) live)" if "rising words ops succs live"
    using dark_mono [OF k(2) [OF that]] dark_less [OF k(2) [OF that]] Cons.prems(1) len1 by auto
  have r: "fold (sweep_op words ops succs) (i # is) (live, c) = ?r" using 1 by simp
  show ?case unfolding r using IH [OF is_ok] k c1 d by (cases "snd ?r"; cases "live1 = live") (auto simp: len1)
qed


section \<open>The loop\<close>

lemma sweep_keep:
  assumes ok: "graph_ok words ops succs" and len: "length live = length ops * words" and r: "sweep words ops succs live = (live', c)"
  shows "length live' = length live"
    "paths_only words ops succs live \<Longrightarrow> paths_only words ops succs live'"
    "rising words ops succs live \<Longrightarrow> rising words ops succs live'"
    "rising words ops succs live \<Longrightarrow> c \<Longrightarrow> dark words (length ops) live' < dark words (length ops) live"
    "\<not> c \<Longrightarrow> live' = live"
    "\<not> c \<Longrightarrow> i < length ops \<Longrightarrow> stable_at words ops succs live i"
proof -
  have rng: "\<forall>i\<in>set (rev [0..<length ops]). i < length ops" by simp
  note k = sweep_ops_keep [OF ok len rng, of False, folded sweep_def, unfolded r fst_conv snd_conv]
  have m: "i \<in> set (rev [0..<length ops])" if "i < length ops" using that by simp
  show "length live' = length live" using k by (rule conjunct1)
  show "paths_only words ops succs live \<Longrightarrow> paths_only words ops succs live'" using k by blast
  show "rising words ops succs live \<Longrightarrow> rising words ops succs live'" using k by blast
  show "rising words ops succs live \<Longrightarrow> c \<Longrightarrow> dark words (length ops) live' < dark words (length ops) live" using k by blast
  show "\<not> c \<Longrightarrow> live' = live" using k by blast
  show "\<not> c \<Longrightarrow> i < length ops \<Longrightarrow> stable_at words ops succs live i" using k m by blast
qed

lemma upward_stable:
  assumes "graph_ok words ops succs" "\<forall>i < length ops. stable_at words ops succs live i" "row_upward ops succs i b" "b < 64 * words"
  shows "tbit words live i b"
  using assms(3,4)
proof (induction rule: upward.induct)
  case (read i b)
  with assms(2) show ?case by (auto simp: stable_at_def flow_in_def)
next
  case (pass i j b)
  with assms(2) show ?case by (auto simp: stable_at_def flow_in_def)
qed

lemma live_loop_exact:
  assumes ok: "graph_ok words ops succs"
  shows "length live = length ops * words \<Longrightarrow> paths_only words ops succs live \<Longrightarrow> rising words ops succs live \<Longrightarrow>
    \<exists>L. live_loop words ops succs live = Some L \<and>
      (\<forall>i < length ops. \<forall>b < 64 * words. tbit words L i b = row_upward ops succs i b)"
proof (induction "dark words (length ops) live" arbitrary: live rule: less_induct)
  case less
  obtain live' c where r: "sweep words ops succs live = (live', c)" by (cases "sweep words ops succs live")
  note k = sweep_keep [OF ok less.prems(1) r]
  show ?case
  proof (cases c)
    case True
    then have "live_loop words ops succs live = live_loop words ops succs live'" using r by (subst live_loop.simps) simp
    moreover have "\<exists>L. live_loop words ops succs live' = Some L \<and>
        (\<forall>i < length ops. \<forall>b < 64 * words. tbit words L i b = row_upward ops succs i b)"
      by (rule less.hyps [OF k(4) [OF less.prems(3) True] _ k(2) [OF less.prems(2)] k(3) [OF less.prems(3)]])
        (use k(1) less.prems(1) in simp)
    ultimately show ?thesis by simp
  next
    case False
    then have "live_loop words ops succs live = Some live'" using r by (subst live_loop.simps) simp
    moreover have "live' = live" by (rule k(5) [OF False])
    moreover have "\<forall>i < length ops. stable_at words ops succs live i" using k(6) [OF False] by blast
    ultimately show ?thesis using upward_stable [OF ok] less.prems(2) by (auto simp: paths_only_def)
  qed
qed

lemma tbit_zero: "i < n \<Longrightarrow> b < 64 * words \<Longrightarrow> \<not> tbit words (replicate (n * words) 0) i b"
  using index_bound [of i n "b div 64" words] by (simp add: tbit_def less_mult_imp_div_less mult.commute)

lemma live_loop_start:
  assumes "graph_ok words ops succs"
  obtains L where "live_loop words ops succs (replicate (length ops * words) 0) = Some L"
    "\<forall>i < length ops. \<forall>b < 64 * words. tbit words L i b = row_upward ops succs i b"
  using live_loop_exact [OF assms, of "replicate (length ops * words) 0"] tbit_zero
  by (auto simp: paths_only_def rising_def)

section \<open>What the scan records\<close>

text \<open>The slots an op reads and writes, by its callback.\<close>

definition op_reads :: "LiveScan \<Rightarrow> Event \<Rightarrow> nat \<Rightarrow> bool" where
  "op_reads st ev b =
     (case ev of
        Callback cb vs \<Rightarrow>
          cb \<in> set [''get_local'', ''check_lexical''] \<and> b = nat (vs ! 0) \<or>
          cb \<in> set [''get_arg'', ''get_frame_arg''] \<and> b = ls_nlocals st + nat (vs ! 0) \<or>
          cb \<in> set args_ops \<and> ls_nlocals st \<le> b \<and> b < ls_nlocals st + ls_nargs st \<or>
          cb \<in> set frame_ops \<or>
          cb = ''get_g_name'' \<and>
            (\<exists>g k. ls_bid_of st (word_of_int (vs ! 0)) = Some g \<and> position g (ls_gbids st) = Some k \<and>
               b = ls_nlocals st + ls_nargs st + k)
      | _ \<Rightarrow> False)"

definition op_writes :: "LiveScan \<Rightarrow> Event \<Rightarrow> nat \<Rightarrow> bool" where
  "op_writes st ev b =
     (case ev of
        Callback cb vs \<Rightarrow>
          cb \<in> set [''set_local'', ''init_lexical''] \<and> b = nat (vs ! 0) \<or>
          cb = ''set_arg'' \<and> b = ls_nlocals st + nat (vs ! 0)
      | _ \<Rightarrow> False)"

definition same_frame :: "LiveScan \<Rightarrow> LiveScan \<Rightarrow> bool" where
  "same_frame st st' =
     (ls_nlocals st' = ls_nlocals st \<and> ls_nargs st' = ls_nargs st \<and> ls_words st' = ls_words st \<and>
      ls_bid_of st' = ls_bid_of st \<and> ls_gbids st' = ls_gbids st)"

lemma op_reads_frame: "same_frame st st' \<Longrightarrow> op_reads st' = op_reads st"
  by (auto simp: fun_eq_iff op_reads_def same_frame_def split: Event.splits)

lemma op_writes_frame: "same_frame st st' \<Longrightarrow> op_writes st' = op_writes st"
  by (auto simp: fun_eq_iff op_writes_def same_frame_def split: Event.splits)

lemma set_bit_in_row:
  "length (set_bit_in v b) = length v"
  "c < 64 * length v \<Longrightarrow> row_bit (set_bit_in v b) c = (row_bit v c \<or> c = b)"
proof -
  show "length (set_bit_in v b) = length v" by (simp add: set_bit_in_def Let_def)
  assume c: "c < 64 * length v"
  have "c div 64 < length v" using c by (simp add: less_mult_imp_div_less mult.commute)
  moreover have "c = b \<longleftrightarrow> c div 64 = b div 64 \<and> c mod 64 = b mod 64" by (metis div_mult_mod_eq)
  ultimately show "row_bit (set_bit_in v b) c = (row_bit v c \<or> c = b)"
    by (auto simp: set_bit_in_def row_bit_def Let_def bit_simps nth_list_update)
qed

text \<open>The op under construction, changed in its rows only.\<close>

definition cur_step :: "LiveScan \<Rightarrow> LiveScan \<Rightarrow> (nat \<Rightarrow> bool) \<Rightarrow> (nat \<Rightarrow> bool) \<Rightarrow> bool" where
  "cur_step st st' reads writes =
     (\<exists>xs p p'. ls_ops st = xs @ [p] \<and> ls_ops st' = xs @ [p'] \<and> o_pc p' = o_pc p \<and> o_len p' = o_len p \<and>
        (length (o_uses p) = ls_words st \<and> length (o_defs p) = ls_words st \<longrightarrow>
         length (o_uses p') = ls_words st \<and> length (o_defs p') = ls_words st \<and>
         (\<forall>b < 64 * ls_words st. row_bit (o_uses p') b = (row_bit (o_uses p) b \<or> reads b)) \<and>
         (\<forall>b < 64 * ls_words st. row_bit (o_defs p') b = (row_bit (o_defs p) b \<or> writes b))) \<and>
        same_frame st st' \<and> ls_pc st' = ls_pc st \<and> ls_flow st' = ls_flow st \<and> ls_handlers st' = ls_handlers st)"

lemma with_cur_step:
  assumes "ls_ops st \<noteq> []" "\<And>p. o_pc (f p) = o_pc p \<and> o_len (f p) = o_len p"
    "\<And>p. length (o_uses p) = ls_words st \<Longrightarrow> length (o_defs p) = ls_words st \<Longrightarrow>
      length (o_uses (f p)) = ls_words st \<and> length (o_defs (f p)) = ls_words st \<and>
      (\<forall>b < 64 * ls_words st. row_bit (o_uses (f p)) b = (row_bit (o_uses p) b \<or> reads b)) \<and>
      (\<forall>b < 64 * ls_words st. row_bit (o_defs (f p)) b = (row_bit (o_defs p) b \<or> writes b))"
  shows "\<exists>st'. with_cur f st = Some st' \<and> cur_step st st' reads writes"
proof -
  have "ls_ops st = butlast (ls_ops st) @ [last (ls_ops st)]" using assms(1) by simp
  with assms show ?thesis unfolding with_cur_def cur_step_def same_frame_def
    by (simp, intro exI [of _ "butlast (ls_ops st)"] exI [of _ "last (ls_ops st)"] exI [of _ "f (last (ls_ops st))"]) simp
qed

lemma use_bit_step: "ls_ops st \<noteq> [] \<Longrightarrow> \<exists>st'. use_bit k st = Some st' \<and> cur_step st st' (\<lambda>b. b = k) (\<lambda>b. False)"
  unfolding use_bit_def by (rule with_cur_step) (auto simp: set_bit_in_row)

lemma def_bit_step: "ls_ops st \<noteq> [] \<Longrightarrow> \<exists>st'. def_bit k st = Some st' \<and> cur_step st st' (\<lambda>b. False) (\<lambda>b. b = k)"
  unfolding def_bit_def by (rule with_cur_step) (auto simp: set_bit_in_row)

lemma use_all_step: "ls_ops st \<noteq> [] \<Longrightarrow> \<exists>st'. use_all st = Some st' \<and> cur_step st st' (\<lambda>b. True) (\<lambda>b. False)"
  unfolding use_all_def
  by (rule with_cur_step) (auto simp: row_bit_def less_mult_imp_div_less mult.commute)

lemma cur_step_refl: "ls_ops st \<noteq> [] \<Longrightarrow> cur_step st st (\<lambda>b. False) (\<lambda>b. False)"
  unfolding cur_step_def same_frame_def
  by (intro exI [of _ "butlast (ls_ops st)"] exI [of _ "last (ls_ops st)"]) simp

lemma cur_step_nonempty: "cur_step st st' r w \<Longrightarrow> ls_ops st' \<noteq> []"
  by (auto simp: cur_step_def)

lemma cur_step_trans:
  assumes "cur_step a b r w" "cur_step b c r' w'"
  shows "cur_step a c (\<lambda>x. r x \<or> r' x) (\<lambda>x. w x \<or> w' x)"
proof -
  from assms(1) obtain xs p q where 1: "ls_ops a = xs @ [p]" "ls_ops b = xs @ [q]" "o_pc q = o_pc p" "o_len q = o_len p"
    "length (o_uses p) = ls_words a \<and> length (o_defs p) = ls_words a \<longrightarrow>
         length (o_uses q) = ls_words a \<and> length (o_defs q) = ls_words a \<and>
         (\<forall>b < 64 * ls_words a. row_bit (o_uses q) b = (row_bit (o_uses p) b \<or> r b)) \<and>
         (\<forall>b < 64 * ls_words a. row_bit (o_defs q) b = (row_bit (o_defs p) b \<or> w b))"
    "same_frame a b" "ls_pc b = ls_pc a" "ls_flow b = ls_flow a" "ls_handlers b = ls_handlers a"
    unfolding cur_step_def by blast
  from assms(2) obtain ys q' s where 2: "ls_ops b = ys @ [q']" "ls_ops c = ys @ [s]" "o_pc s = o_pc q'" "o_len s = o_len q'"
    "length (o_uses q') = ls_words b \<and> length (o_defs q') = ls_words b \<longrightarrow>
         length (o_uses s) = ls_words b \<and> length (o_defs s) = ls_words b \<and>
         (\<forall>x < 64 * ls_words b. row_bit (o_uses s) x = (row_bit (o_uses q') x \<or> r' x)) \<and>
         (\<forall>x < 64 * ls_words b. row_bit (o_defs s) x = (row_bit (o_defs q') x \<or> w' x))"
    "same_frame b c" "ls_pc c = ls_pc b" "ls_flow c = ls_flow b" "ls_handlers c = ls_handlers b"
    unfolding cur_step_def by blast
  have eq: "ys = xs" "q' = q" using 1(2) 2(1) by auto
  have sf: "same_frame a c" "ls_words b = ls_words a" using 1(6) 2(6) by (auto simp: same_frame_def)
  show ?thesis unfolding cur_step_def
    by (intro exI [of _ xs] exI [of _ p] exI [of _ s]) (use 1 2 eq sf in auto)
qed

lemma use_args_step:
  "ls_ops st \<noteq> [] \<Longrightarrow>
   \<exists>st'. fold (\<lambda>a r. Option.bind r (use_arg a)) [0..<n] (Some st) = Some st' \<and>
     cur_step st st' (\<lambda>b. ls_nlocals st \<le> b \<and> b < ls_nlocals st + n) (\<lambda>b. False)"
proof (induction n)
  case 0
  then show ?case using cur_step_refl [of st] by (auto simp: cur_step_def)
next
  case (Suc n)
  then obtain st1 where 1: "fold (\<lambda>a r. Option.bind r (use_arg a)) [0..<n] (Some st) = Some st1"
    and c1: "cur_step st st1 (\<lambda>b. ls_nlocals st \<le> b \<and> b < ls_nlocals st + n) (\<lambda>b. False)" by auto
  from use_bit_step [OF cur_step_nonempty [OF c1], of "ls_nlocals st1 + n"] obtain st2 where
    2: "use_arg n st1 = Some st2" and c2: "cur_step st1 st2 (\<lambda>b. b = ls_nlocals st1 + n) (\<lambda>b. False)"
    by (auto simp: use_arg_def)
  have nl: "ls_nlocals st1 = ls_nlocals st" using c1 by (auto simp: cur_step_def same_frame_def)
  have "(\<lambda>b. (ls_nlocals st \<le> b \<and> b < ls_nlocals st + n) \<or> b = ls_nlocals st1 + n) =
      (\<lambda>b. ls_nlocals st \<le> b \<and> b < ls_nlocals st + Suc n)" using nl by (auto simp: fun_eq_iff)
  with cur_step_trans [OF c1 c2] 1 2 show ?case by simp
qed

lemma frame_callbacks:
  "list_all (\<lambda>cb. op_reads st (Callback cb vs) = (\<lambda>b. True) \<and> op_writes st (Callback cb vs) = (\<lambda>b. False) \<and>
     live_slots cb vs st = use_all st) frame_ops"
  by (simp add: op_reads_def op_writes_def fun_eq_iff live_slots_def frame_ops_def args_ops_def)

lemma args_callbacks:
  "list_all (\<lambda>cb. op_reads st (Callback cb vs) = (\<lambda>b. ls_nlocals st \<le> b \<and> b < ls_nlocals st + ls_nargs st) \<and>
     op_writes st (Callback cb vs) = (\<lambda>b. False) \<and> live_slots cb vs st = use_all_args st) args_ops"
  by (simp add: op_reads_def op_writes_def fun_eq_iff live_slots_def frame_ops_def args_ops_def)

lemma live_slots_step:
  assumes ne: "ls_ops st \<noteq> []"
  shows "\<exists>st'. live_slots cb vs st = Some st' \<and> cur_step st st' (op_reads st (Callback cb vs)) (op_writes st (Callback cb vs))"
proof -
  consider (g) "cb = ''get_g_name''" | (ul) "cb \<in> set [''get_local'', ''check_lexical'']" | (dl) "cb \<in> set [''set_local'', ''init_lexical'']"
    | (ua) "cb \<in> set [''get_arg'', ''get_frame_arg'']" | (da) "cb = ''set_arg''" | (all_args) "cb \<in> set args_ops" | (frame) "cb \<in> set frame_ops"
    | (other) "cb \<noteq> ''get_g_name''" "cb \<notin> set [''get_local'', ''check_lexical'']" "cb \<notin> set [''set_local'', ''init_lexical'']"
      "cb \<notin> set [''get_arg'', ''get_frame_arg'']" "cb \<noteq> ''set_arg''" "cb \<notin> set args_ops" "cb \<notin> set frame_ops" by blast
  then show ?thesis
  proof cases
    case g
    have w: "op_writes st (Callback cb vs) = (\<lambda>b. False)" using g by (simp add: op_writes_def fun_eq_iff)
    show ?thesis
    proof (cases "\<exists>i k. ls_bid_of st (word_of_int (vs ! 0)) = Some i \<and> position i (ls_gbids st) = Some k")
      case True
      then obtain i k where ik: "ls_bid_of st (word_of_int (vs ! 0)) = Some i" "position i (ls_gbids st) = Some k" by blast
      then have "op_reads st (Callback cb vs) = (\<lambda>b. b = ls_nlocals st + ls_nargs st + k)"
        using g by (simp add: op_reads_def fun_eq_iff args_ops_def frame_ops_def)
      moreover have "live_slots cb vs st = use_bit (ls_nlocals st + ls_nargs st + k) st"
        using g ik by (simp add: live_slots_def live_get_g_name_def)
      ultimately show ?thesis using use_bit_step [OF ne] w by simp
    next
      case False
      then have "op_reads st (Callback cb vs) = (\<lambda>b. False)"
        using g by (simp add: op_reads_def fun_eq_iff args_ops_def frame_ops_def)
      moreover have "live_slots cb vs st = Some st"
        using g False by (auto simp: live_slots_def live_get_g_name_def split: option.splits)
      ultimately show ?thesis using cur_step_refl [OF ne] w by simp
    qed
  next
    case ul
    then have "op_reads st (Callback cb vs) = (\<lambda>b. b = nat (vs ! 0))" "op_writes st (Callback cb vs) = (\<lambda>b. False)"
      "live_slots cb vs st = use_bit (nat (vs ! 0)) st"
      by (auto simp: op_reads_def op_writes_def fun_eq_iff args_ops_def frame_ops_def live_slots_def use_local_def)
    then show ?thesis using use_bit_step [OF ne] by simp
  next
    case dl
    then have "op_reads st (Callback cb vs) = (\<lambda>b. False)" "op_writes st (Callback cb vs) = (\<lambda>b. b = nat (vs ! 0))"
      "live_slots cb vs st = def_bit (nat (vs ! 0)) st"
      by (auto simp: op_reads_def op_writes_def fun_eq_iff args_ops_def frame_ops_def live_slots_def def_local_def)
    then show ?thesis using def_bit_step [OF ne] by simp
  next
    case ua
    then have "op_reads st (Callback cb vs) = (\<lambda>b. b = ls_nlocals st + nat (vs ! 0))" "op_writes st (Callback cb vs) = (\<lambda>b. False)"
      "live_slots cb vs st = use_bit (ls_nlocals st + nat (vs ! 0)) st"
      by (auto simp: op_reads_def op_writes_def fun_eq_iff args_ops_def frame_ops_def live_slots_def use_arg_def)
    then show ?thesis using use_bit_step [OF ne] by simp
  next
    case da
    then have "op_reads st (Callback cb vs) = (\<lambda>b. False)" "op_writes st (Callback cb vs) = (\<lambda>b. b = ls_nlocals st + nat (vs ! 0))"
      "live_slots cb vs st = def_bit (ls_nlocals st + nat (vs ! 0)) st"
      by (auto simp: op_reads_def op_writes_def fun_eq_iff args_ops_def frame_ops_def live_slots_def def_arg_def)
    then show ?thesis using def_bit_step [OF ne] by simp
  next
    case all_args
    then have "op_reads st (Callback cb vs) = (\<lambda>b. ls_nlocals st \<le> b \<and> b < ls_nlocals st + ls_nargs st)"
      "op_writes st (Callback cb vs) = (\<lambda>b. False)" "live_slots cb vs st = use_all_args st"
      using args_callbacks [of st vs, unfolded list_all_iff, THEN bspec, OF all_args] by simp_all
    then show ?thesis using use_args_step [OF ne, of "ls_nargs st"] by (simp add: use_all_args_def)
  next
    case frame
    then have "op_reads st (Callback cb vs) = (\<lambda>b. True)" "op_writes st (Callback cb vs) = (\<lambda>b. False)"
      "live_slots cb vs st = use_all st"
      using frame_callbacks [of st vs, unfolded list_all_iff, THEN bspec, OF frame] by simp_all
    then show ?thesis using use_all_step [OF ne] by simp
  next
    case other
    then have "op_reads st (Callback cb vs) = (\<lambda>b. False)" "op_writes st (Callback cb vs) = (\<lambda>b. False)" "live_slots cb vs st = Some st"
      by (auto simp: op_reads_def op_writes_def fun_eq_iff live_slots_def)
    then show ?thesis using cur_step_refl [OF ne] by simp
  qed
qed

text \<open>A branching op touches no slot.\<close>

lemma slot_free_callbacks:
  "list_all (\<lambda>cb. op_reads st (Callback cb vs) = (\<lambda>b. False) \<and> op_writes st (Callback cb vs) = (\<lambda>b. False))
     ([''goto_'', ''default_''] @ [''jump_if_false'', ''jump_if_true'', ''and_'', ''or_'', ''coalesce'', ''case_''] @
      [''return_'', ''ret_rval''] @ [''throw_'', ''throw_with_stack'', ''throw_msg'', ''throw_set_const''])"
  by (simp add: op_reads_def op_writes_def fun_eq_iff args_ops_def frame_ops_def)

lemma flow_no_slots:
  assumes "flow_of_event base pc ev = Some f"
  shows "op_reads st ev = (\<lambda>b. False) \<and> op_writes st ev = (\<lambda>b. False)"
proof (cases ev)
  case (Callback cb vs)
  let ?fl = "[''goto_'', ''default_''] @ [''jump_if_false'', ''jump_if_true'', ''and_'', ''or_'', ''coalesce'', ''case_''] @
      [''return_'', ''ret_rval''] @ [''throw_'', ''throw_with_stack'', ''throw_msg'', ''throw_set_const'']"
  have "cb \<in> set ?fl"
  proof (rule ccontr)
    assume "cb \<notin> set ?fl"
    then have "flow_of_event base pc ev = None"
      unfolding set_append Un_iff by (simp only: flow_of_event_def Callback Event.case if_False de_Morgan_disj)
    with assms show False by simp
  qed
  with slot_free_callbacks [of st vs] Callback show ?thesis unfolding list_all_iff by (simp only: Ball_def)
qed (use assms in \<open>auto simp: flow_of_event_def op_reads_def op_writes_def\<close>)

abbreviation record_flow :: "Pc \<Rightarrow> Event \<Rightarrow> (Pc \<rightharpoonup> Flow) \<Rightarrow> (Pc \<rightharpoonup> Flow)" where
  "record_flow pc ev m \<equiv> (case flow_of_event 0 pc ev of None \<Rightarrow> m | Some f \<Rightarrow> m(pc \<mapsto> f))"

definition op_event_ok :: "Event \<Rightarrow> bool" where
  "op_event_ok ev = (case ev of BeforeOp _ _ _ _ \<Rightarrow> False | NoteEvent _ _ \<Rightarrow> False | _ \<Rightarrow> True)"

lemma live_event_step:
  assumes ne: "ls_ops st \<noteq> []" and ev: "op_event_ok ev"
  shows "\<exists>st' st1. live_event t ev st = Some st' \<and> cur_step st st1 (op_reads st ev) (op_writes st ev) \<and>
    st' = st1\<lparr>ls_flow := record_flow (ls_pc st) ev (ls_flow st)\<rparr>"
proof (cases "flow_of_event 0 (ls_pc st) ev")
  case (Some f)
  then show ?thesis using flow_no_slots [OF Some, of st] cur_step_refl [OF ne] ev
    by (intro exI [of _ "st\<lparr>ls_flow := (ls_flow st)(ls_pc st \<mapsto> f)\<rparr>"] exI [of _ st])
      (auto simp: live_event_def op_event_ok_def split: Event.splits)
next
  case None
  with ev obtain cb vs where cb: "ev = Callback cb vs"
    by (cases ev) (auto simp: op_event_ok_def flow_of_event_def)
  from live_slots_step [OF ne, of cb vs] obtain st1 where "live_slots cb vs st = Some st1"
    and c: "cur_step st st1 (op_reads st ev) (op_writes st ev)" unfolding cb by blast
  moreover have "ls_flow st1 = ls_flow st" using c by (auto simp: cur_step_def)
  ultimately show ?thesis using None cb by (intro exI [of _ st1]) (auto simp: live_event_def)
qed

lemma live_notes:
  "live_scan t (map (NoteEvent pc) ns) st =
   Some (st\<lparr>ls_handlers := ls_handlers st @ map (\<lambda>n. (tn_start n, note_end n, note_end n)) (filter lands ns)\<rparr>)"
  by (induction ns arbitrary: st) (auto simp: live_event_def live_try_note_def)

section \<open>The scan of a whole visit\<close>

text \<open>The ops of a visit: pc, length and callback.\<close>

fun op_trace :: "JSOps \<Rightarrow> Event list \<Rightarrow> (Pc \<times> u32 \<times> Event) list" where
  "op_trace t (BeforeOp pc op _ _ # ev # evs) = (pc, op_len t op, ev) # op_trace t evs"
| "op_trace t (_ # evs) = op_trace t evs"
| "op_trace t [] = []"

definition recorded :: "LiveScan \<Rightarrow> Pc \<times> u32 \<times> Event \<Rightarrow> OpRec \<Rightarrow> bool" where
  "recorded st tr p =
     (case tr of (pc, len, ev) \<Rightarrow>
        o_pc p = pc \<and> o_len p = len \<and> length (o_uses p) = ls_words st \<and> length (o_defs p) = ls_words st \<and>
        (\<forall>b < 64 * ls_words st. row_bit (o_uses p) b = op_reads st ev b) \<and>
        (\<forall>b < 64 * ls_words st. row_bit (o_defs p) b = op_writes st ev b))"

definition note_handlers :: "TryNote list \<Rightarrow> (Pc \<times> Pc \<times> Pc) list" where
  "note_handlers ns = map (\<lambda>n. (tn_start n, note_end n, note_end n)) (filter lands ns)"

lemma recorded_frame: "same_frame st st' \<Longrightarrow> recorded st' = recorded st"
  by (auto simp: fun_eq_iff recorded_def op_reads_frame op_writes_frame) (simp_all add: same_frame_def)

lemma op_trace_notes [simp]: "op_trace t (map (NoteEvent pc) ns @ evs) = op_trace t evs"
  by (induction ns) auto

lemma op_trace_ok [simp]: "op_event_ok ev \<Longrightarrow> op_trace t (ev # evs) = op_trace t evs"
  by (cases ev) (auto simp: op_event_ok_def)

lemma live_scan_append: "live_scan t (xs @ ys) st = Option.bind (live_scan t xs st) (live_scan t ys)"
proof (induction xs arbitrary: st)
  case (Cons x xs)
  then show ?case by (cases "live_event t x st") simp_all
qed simp

lemma row_zero: "row_bit (replicate n 0) b = False"
  by (simp add: row_bit_def)

lemma live_scan_block:
  assumes "op_event_ok ev"
  shows "\<exists>st' p. live_scan t (BeforeOp pc op a b # ev # map (NoteEvent pc') ns) st = Some st' \<and>
    ls_ops st' = ls_ops st @ [p] \<and> recorded st (pc, op_len t op, ev) p \<and> same_frame st st' \<and>
    ls_flow st' = record_flow pc ev (ls_flow st) \<and> ls_handlers st' = ls_handlers st @ note_handlers ns"
proof -
  let ?z = "\<lparr>o_pc = pc, o_len = op_len t op, o_uses = replicate (ls_words st) 0, o_defs = replicate (ls_words st) 0\<rparr>"
  define st0 where "st0 = live_before_op t pc op st"
  have 0: "ls_ops st0 = ls_ops st @ [?z]" "same_frame st st0" "ls_flow st0 = ls_flow st" "ls_handlers st0 = ls_handlers st" "ls_pc st0 = pc"
    by (simp_all add: st0_def live_before_op_def same_frame_def)
  have ne: "ls_ops st0 \<noteq> []" using 0(1) by simp
  from live_event_step [OF ne assms, of t, unfolded 0(3,5) op_reads_frame [OF 0(2)] op_writes_frame [OF 0(2)]] obtain st2 st1 where 1: "live_event t ev st0 = Some st2"
    and c: "cur_step st0 st1 (op_reads st ev) (op_writes st ev)" and st2: "st2 = st1\<lparr>ls_flow := record_flow pc ev (ls_flow st)\<rparr>"
    by blast
  from c obtain p where p: "ls_ops st1 = ls_ops st @ [p]" "recorded st (pc, op_len t op, ev) p" "same_frame st0 st1"
    "ls_handlers st1 = ls_handlers st0"
    using 0(1,2) by (auto simp: cur_step_def recorded_def row_zero same_frame_def)
  have "live_scan t (BeforeOp pc op a b # ev # map (NoteEvent pc') ns) st =
      Some (st2\<lparr>ls_handlers := ls_handlers st2 @ note_handlers ns\<rparr>)"
    using 1 by (simp add: live_event_def st0_def live_notes note_handlers_def)
  then show ?thesis using p 0(2,4) st2
    by (intro exI [of _ "st2\<lparr>ls_handlers := ls_handlers st2 @ note_handlers ns\<rparr>"] exI [of _ p]) (auto simp: same_frame_def)
qed

lemma same_frame_trans: "same_frame a b \<Longrightarrow> same_frame b c \<Longrightarrow> same_frame a c"
  by (auto simp: same_frame_def)

lemma live_scan_visit:
  assumes "visit_from t pc p = Some evs"
  shows "\<exists>st' ps. live_scan t evs st = Some st' \<and> ls_ops st' = ls_ops st @ ps \<and> list_all2 (recorded st) (op_trace t evs) ps \<and>
    same_frame st st' \<and> ls_flow st' = foldl (\<lambda>m (pc, len, ev). record_flow pc ev m) (ls_flow st) (op_trace t evs) \<and>
    ls_handlers st' = ls_handlers st @ note_handlers (map snd (surfaced evs)) \<and>
    map (\<lambda>(pc, len, ev). (pc, len)) (op_trace t evs) = map (\<lambda>(pc, op). (pc, op_len t op)) (befores evs)"
  using assms
proof (induction t pc p arbitrary: evs st rule: visit_from.induct)
  case (1 t pc p)
  from "1.prems"(1) show ?case
  proof (cases rule: visit_from_cases)
    case stop
    then show ?thesis by (simp add: same_frame_def note_handlers_def)
  next
    case (turn e pc' p' es)
    from turn(1) obtain op nuses ev k p2 where s:
      "e = BeforeOp pc op nuses (unat (op_ndefs t op)) # ev # fst (drain_notes pc' p2)"
      "\<not> (\<exists>a b c d. ev = BeforeOp a b c d)" "\<not> (\<exists>a b. ev = NoteEvent a b)"
      by (rule visit_step_shape) blast
    obtain ns where ns: "fst (drain_notes pc' p2) = map (NoteEvent pc') ns" by (simp add: drain_notes_spec)
    have ok: "op_event_ok ev" using s(2,3) by (cases ev) (auto simp: op_event_ok_def)
    from live_scan_block [OF ok, of t pc op nuses "unat (op_ndefs t op)" pc' ns st] obtain st1 q where b:
      "live_scan t e st = Some st1" "ls_ops st1 = ls_ops st @ [q]" "recorded st (pc, op_len t op, ev) q" "same_frame st st1"
      "ls_flow st1 = record_flow pc ev (ls_flow st)" "ls_handlers st1 = ls_handlers st @ note_handlers ns"
      unfolding s(1) ns by blast
    from "1.IH" [OF turn(1) refl refl refl turn(2), of st1] obtain st2 ps where IH:
      "live_scan t es st1 = Some st2" "ls_ops st2 = ls_ops st1 @ ps" "list_all2 (recorded st1) (op_trace t es) ps" "same_frame st1 st2"
      "ls_flow st2 = foldl (\<lambda>m (pc, len, ev). record_flow pc ev m) (ls_flow st1) (op_trace t es)"
      "ls_handlers st2 = ls_handlers st1 @ note_handlers (map snd (surfaced es))"
      "map (\<lambda>(pc, len, ev). (pc, len)) (op_trace t es) = map (\<lambda>(pc, op). (pc, op_len t op)) (befores es)" by blast
    have tr: "op_trace t evs = (pc, op_len t op, ev) # op_trace t es" using turn(3) s(1) ns by simp
    have sn: "map snd (surfaced evs) = ns @ map snd (surfaced es)"
      using turn(3) s(1) ns surfaced_other [OF s(3)] by (simp add: o_def)
    have bf: "befores evs = (pc, op) # befores es" using turn(3) s(1) ns befores_other [OF s(2)] by simp
    show ?thesis
      using b IH tr sn bf turn(3) same_frame_trans [OF b(4) IH(4)] recorded_frame [OF b(4)]
      by (intro exI [of _ st2] exI [of _ "q # ps"]) (simp add: live_scan_append note_handlers_def)
  qed
qed

section \<open>Positions of the ops\<close>

lemma tiles_bound: "tiles t code k ops \<Longrightarrow> k \<le> length code"
  by (cases ops) auto

lemma of_nat_u32_less: "j < k \<Longrightarrow> k < 2 ^ 32 \<Longrightarrow> (of_nat j :: u32) < of_nat k"
  by (simp add: word_less_nat_alt unat_of_nat take_bit_nat_eq_self)

lemma of_nat_u32_le: "j \<le> k \<Longrightarrow> k < 2 ^ 32 \<Longrightarrow> (of_nat j :: u32) \<le> of_nat k"
  by (simp add: word_le_nat_alt unat_of_nat take_bit_nat_eq_self)

text \<open>The op starts ascend and no op end wraps.\<close>

lemma tiles_ascending:
  assumes "tiles t code k ops" "length code < 2 ^ 32"
  shows "strict_asc (map fst ops) \<and> (\<forall>(pc, op)\<in>set ops. of_nat k \<le> pc \<and> pc \<le> pc + op_len t op)"
  using assms
proof (induction ops arbitrary: k)
  case (Cons x ops)
  obtain pc op where x: "x = (pc, op)" by (cases x)
  let ?k = "k + unat (op_len t op)"
  from Cons.prems x have h: "pc = of_nat k" "k < length code" "op_len t op \<noteq> 0" "tiles t code ?k ops" by auto
  have lt: "k < ?k" using h(3) by (simp add: unat_gt_0)
  have b: "?k < 2 ^ 32" using tiles_bound [OF h(4)] Cons.prems(2) by simp
  have "(of_nat ?k :: u32) = of_nat k + op_len t op" by simp
  then have nx: "pc < of_nat ?k" "pc \<le> pc + op_len t op" using of_nat_u32_less [OF lt b] h(1) by (simp_all only: order.strict_implies_order)
  from Cons.IH [OF h(4) Cons.prems(2)] have IH: "strict_asc (map fst ops)"
    "\<forall>(pc, op)\<in>set ops. of_nat ?k \<le> pc \<and> pc \<le> pc + op_len t op" by blast+
  have "pc < q" if "(q, o') \<in> set ops" for q o' using IH(2) that nx(1) by fastforce
  moreover have "of_nat k \<le> q \<and> q \<le> q + op_len t o'" if "(q, o') \<in> set ops" for q o'
    using IH(2) that of_nat_u32_le [OF less_imp_le [OF lt] b] by fastforce
  ultimately show ?case using x h(1) nx(2) IH(1) by auto
qed simp

lemma pc_index_iff: "strict_asc pcs \<Longrightarrow> pc_index pcs pc = Some j \<longleftrightarrow> j < length pcs \<and> pcs ! j = pc"
proof -
  assume asc: "strict_asc pcs"
  then have d: "distinct pcs" by (simp add: strict_sorted_iff)
  show ?thesis
    using binary_search_Inr [of pc pcs] binary_search_mem [OF asc, of pc] d
    by (auto simp: pc_index_def nth_eq_iff_index_eq split: sum.splits)
qed

lemma partition_point_iff:
  assumes "strict_asc xs" "i < length xs"
  shows "partition_point (\<lambda>p. p < s) xs \<le> i \<longleftrightarrow> s \<le> xs ! i"
proof -
  have mono: "xs ! k \<le> xs ! i" if "k \<le> i" for k
    using that assms sorted_wrt_nth_less [OF assms(1), of k i] by (cases "k = i") auto
  have "\<not> xs ! partition_point (\<lambda>p. p < s) xs < s" if "partition_point (\<lambda>p. p < s) xs < length xs"
    using that nth_length_takeWhile [of "\<lambda>p. p < s" xs] by (simp add: partition_point_def)
  moreover have "xs ! i < s" if "i < partition_point (\<lambda>p. p < s) xs"
    using that by (metis nth_mem partition_point_def set_takeWhileD takeWhile_nth)
  ultimately show ?thesis using mono assms(2) by (metis dual_order.strict_trans1 linorder_not_le order.trans not_less)
qed

lemma handler_succs_spec:
  assumes asc: "strict_asc pcs" and fwd: "\<forall>(start, fin, land)\<in>set hs. start \<le> fin"
  shows "length succs = length pcs \<Longrightarrow> \<exists>ss. handler_succs pcs hs succs = Some ss \<and> length ss = length pcs \<and>
    (\<forall>i < length pcs. set (ss ! i) = set (succs ! i) \<union>
       {h. \<exists>(start, fin, land)\<in>set hs. pc_index pcs land = Some h \<and> start \<le> pcs ! i \<and> pcs ! i < fin})"
  using fwd
proof (induction hs arbitrary: succs)
  case (Cons x hs)
  obtain start fin land where x: "x = (start, fin, land)" by (cases x)
  show ?case
  proof (cases "pc_index pcs land")
    case None
    with Cons x show ?thesis by simp
  next
    case (Some h)
    let ?a = "partition_point (\<lambda>p. p < start) pcs" and ?z = "partition_point (\<lambda>p. p < fin) pcs"
    let ?s = "map (\<lambda>i. if ?a \<le> i \<and> i < ?z then succs ! i @ [h] else succs ! i) [0..<length succs]"
    have "start \<le> fin" using Cons.prems x by auto
    then have az: "?a \<le> ?z" unfolding partition_point_def
      by (intro length_takeWhile_less_P_nth length_takeWhile_le) (metis nth_mem set_takeWhileD takeWhile_nth less_le_trans)
    have rng: "?a \<le> i \<and> i < ?z \<longleftrightarrow> start \<le> pcs ! i \<and> pcs ! i < fin" if "i < length pcs" for i
      using partition_point_iff [OF asc that] by (meson linorder_not_le)
    from Cons.IH [of ?s] Cons.prems x obtain ss where ss: "handler_succs pcs hs ?s = Some ss" "length ss = length pcs"
      "\<forall>i < length pcs. set (ss ! i) = set (?s ! i) \<union>
       {h. \<exists>(start, fin, land)\<in>set hs. pc_index pcs land = Some h \<and> start \<le> pcs ! i \<and> pcs ! i < fin}" by auto
    have "set (ss ! i) = set (succs ! i) \<union>
       {h. \<exists>(start, fin, land)\<in>set (x # hs). pc_index pcs land = Some h \<and> start \<le> pcs ! i \<and> pcs ! i < fin}" if "i < length pcs" for i
      using ss(3) that rng [OF that] Cons.prems(1) x Some by auto
    then show ?thesis using ss(1,2) x Some az by (intro exI [of _ ss]) (simp add: Let_def)
  qed
qed simp


section \<open>The edges\<close>

definition flow_targets :: "Pc \<Rightarrow> u32 \<Rightarrow> Event \<Rightarrow> Pc set" where
  "flow_targets pc len ev =
     (case flow_of_event 0 pc ev of
        None \<Rightarrow> {pc + len}
      | Some (Br u) \<Rightarrow> {u}
      | Some (CondBr u) \<Rightarrow> {u, pc + len}
      | Some (Switch us) \<Rightarrow> set us
      | Some Ret \<Rightarrow> {}
      | Some Halt \<Rightarrow> {})"

text \<open>Control passes from op \<open>i\<close> to op \<open>j\<close>: by its own flow, or to the landing pad of a catch or finally that covers it.\<close>

definition live_edge :: "(Pc \<times> u32 \<times> Event) list \<Rightarrow> TryNote list \<Rightarrow> nat \<Rightarrow> nat \<Rightarrow> bool" where
  "live_edge tr notes i j =
     (i < length tr \<and> j < length tr \<and>
      (case tr ! i of (pc, len, ev) \<Rightarrow>
         fst (tr ! j) \<in> flow_targets pc len ev \<or>
         (\<exists>n\<in>set notes. lands n \<and> tn_start n \<le> pc \<and> pc < note_end n \<and> fst (tr ! j) = note_end n)))"

lemma flow_lookup:
  fixes tr :: "(Pc \<times> u32 \<times> Event) list"
  assumes "distinct (map fst tr)" "(pc, len, ev) \<in> set tr"
  shows "foldl (\<lambda>m (pc, len, ev). record_flow pc ev m) m tr pc = record_flow pc ev m pc"
  using assms
proof (induction tr arbitrary: m)
  case (Cons x tr)
  obtain pc' len' ev' where x: "x = (pc', len', ev')" by (cases x)
  have keep: "pc \<notin> fst ` set tr \<Longrightarrow> foldl (\<lambda>m (pc, len, ev). record_flow pc ev m) m' tr pc = m' pc" for m' and tr :: "(Pc \<times> u32 \<times> Event) list"
  proof (induction tr arbitrary: m')
    case (Cons y tr)
    obtain a b c where y: "y = (a, b, c)" by (cases y)
    with Cons.prems have "a \<noteq> pc" "pc \<notin> fst ` set tr" by auto
    with Cons.IH y show ?case by (simp split: option.splits)
  qed simp
  show ?case
  proof (cases "(pc, len, ev) = x")
    case True
    then have "pc \<notin> fst ` set tr" using Cons.prems x by force
    moreover have "pc' = pc" "ev' = ev" using True x by simp_all
    ultimately show ?thesis using keep [of tr "record_flow pc ev m"] x by simp
  next
    case False
    then have "(pc, len, ev) \<in> set tr" "pc \<noteq> pc'" using Cons.prems x by (auto simp: image_iff)
    with Cons x show ?thesis by (auto split: option.splits)
  qed
qed simp

lemma opt_list_set [simp]: "set (opt_list r) = (case r of None \<Rightarrow> {} | Some x \<Rightarrow> {x})"
  by (simp add: opt_list_def split: option.splits)

lemma flow_succs_set:
  assumes asc: "strict_asc pcs" and f: "flow (o_pc p) = flow_of_event 0 (o_pc p) ev"
  shows "set (flow_succs pcs flow p) = {j. j < length pcs \<and> pcs ! j \<in> flow_targets (o_pc p) (o_len p) ev}"
proof -
  have one: "(case pc_index pcs u of None \<Rightarrow> {} | Some x \<Rightarrow> {x}) = {j. j < length pcs \<and> pcs ! j = u}" for u
    by (simp only: pc_index_iff [OF asc, symmetric]) (cases "pc_index pcs u"; simp)
  note defs = flow_succs_def flow_targets_def f Let_def opt_list_set set_append one set_concat set_map
  show ?thesis
  proof (cases "flow_of_event 0 (o_pc p) ev")
    case None
    then show ?thesis unfolding defs by (simp add: one)
  next
    case (Some fl)
    then show ?thesis
    proof (cases fl)
      case (CondBr u)
      with Some show ?thesis unfolding defs by (simp add: one) blast
    next
      case (Switch us)
      with Some show ?thesis unfolding defs by (simp add: image_image one) blast
    qed (simp_all add: defs Some)
  qed
qed

lemma surfaced_set:
  assumes "visit t s = Some evs"
  shows "set (map snd (surfaced evs)) = {n \<in> set (try_notes s). \<exists>b\<in>set (op_ends t (befores evs)). tn_start n \<le> b}"
proof -
  have "surfaced evs = hand_out (op_ends t (befores evs)) (sort_key tn_start (try_notes s))"
    using visit_from_hand_out [of t 0 "parser s" evs] assms by (simp add: visit_def parser_def)
  then show ?thesis using hand_out_find [of "sort_key tn_start (try_notes s)" "op_ends t (befores evs)"]
    by (simp add: image_image)
qed


section \<open>The whole analysis\<close>

lemma upward_cong:
  assumes "upward edge reads writes n i b"
    "\<And>i j. i < n \<Longrightarrow> edge i j \<Longrightarrow> edge' i j" "\<And>i. i < n \<Longrightarrow> reads i b \<Longrightarrow> reads' i b" "\<And>i. i < n \<Longrightarrow> writes' i b \<Longrightarrow> writes i b"
  shows "upward edge' reads' writes' n i b"
  using assms
proof (induction rule: upward.induct)
  case (read i b)
  then show ?case by (blast intro: upward.read)
next
  case (pass i j b)
  then show ?case by (blast intro: upward.pass)
qed

text \<open>The liveness of a slot before op \<open>i\<close> of a visit, over the script's own ops, branches and try notes.\<close>

definition slot_live :: "JSOps \<Rightarrow> LiveScan \<Rightarrow> Script \<Rightarrow> Event list \<Rightarrow> nat \<Rightarrow> nat \<Rightarrow> bool" where
  "slot_live t st s evs =
     upward (live_edge (op_trace t evs) (try_notes s))
       (\<lambda>i. op_reads st (snd (snd (op_trace t evs ! i)))) (\<lambda>i. op_writes st (snd (snd (op_trace t evs ! i))))
       (length (op_trace t evs))"

definition notes_fit :: "TryNote list \<Rightarrow> bool" where
  "notes_fit ns = list_all (\<lambda>n. lands n \<longrightarrow> tn_start n \<le> note_end n) ns"

lemma live_graph_exact:
  fixes bid_of :: "u32 \<Rightarrow> u32 option"
  assumes v: "visit t s = Some evs" and len: "length (bytecode s) < 2 ^ 32" and nf: "notes_fit (try_notes s)"
  defines "st0 \<equiv> live_start bid_of s evs"
  shows "\<exists>st succs. live_graph t bid_of s = Some (st, succs) \<and> same_frame st0 st \<and> map o_pc (ls_ops st) = map fst (befores evs) \<and>
    strict_asc (map fst (befores evs)) \<and> graph_ok (ls_words st) (ls_ops st) succs \<and>
    (\<forall>i b. b < 64 * ls_words st \<longrightarrow> row_upward (ls_ops st) succs i b = slot_live t st0 s evs i b)"
proof -
  let ?tr = "op_trace t evs" and ?pcs = "map fst (befores evs)"
  from live_scan_visit [of t 0 "parser s" evs st0] v obtain st ps where
    sc: "live_scan t evs st0 = Some st" "ls_ops st = ps" "list_all2 (recorded st0) ?tr ps" "same_frame st0 st"
      "ls_flow st = foldl (\<lambda>m (pc, len, ev). record_flow pc ev m) Map.empty ?tr"
      "ls_handlers st = note_handlers (map snd (surfaced evs))"
      "map (\<lambda>(pc, len, ev). (pc, len)) ?tr = map (\<lambda>(pc, op). (pc, op_len t op)) (befores evs)"
    by (auto simp: visit_def st0_def live_start_def Let_def)
  have tiles: "tiles t (bytecode s) 0 (befores evs)"
    using visit_from_tiles [of t 0 "parser s" evs 0 "bytecode s"] v by (simp add: visit_def parser_def)
  note asc = tiles_ascending [OF tiles len]
  have tr_pcs: "map fst ?tr = ?pcs"
    using arg_cong [OF sc(7), of "map fst"] by (simp add: o_def case_prod_unfold)
  have n: "length ?tr = length ps" "length ?pcs = length ps" using sc(3) tr_pcs by (auto dest: list_all2_lengthD) (metis length_map list_all2_lengthD)
  have rec: "recorded st0 (?tr ! i) (ps ! i)" if "i < length ps" for i
    using sc(3) that by (simp add: list_all2_conv_all_nth)
  have at: "?tr ! i = (o_pc (ps ! i), o_len (ps ! i), snd (snd (?tr ! i)))" if "i < length ps" for i
    using rec [OF that] by (cases "?tr ! i") (simp add: recorded_def)
  have ops_pcs: "map o_pc ps = ?pcs"
    unfolding tr_pcs [symmetric] using n(1) at by (intro nth_equalityI) (simp_all, metis fst_conv)
  have fl: "ls_flow st (o_pc (ps ! i)) = flow_of_event 0 (o_pc (ps ! i)) (snd (snd (?tr ! i)))" if i: "i < length ps" for i
  proof -
    have "(o_pc (ps ! i), o_len (ps ! i), snd (snd (?tr ! i))) \<in> set ?tr" using at [OF i] i n(1) by (metis nth_mem)
    moreover have "distinct (map fst ?tr)" using asc tr_pcs by (simp add: strict_sorted_iff)
    ultimately show ?thesis unfolding sc(5) by (subst flow_lookup) (auto split: option.splits)
  qed
  have sub: "set (map snd (surfaced evs)) \<subseteq> set (try_notes s)" using surfaced_set [OF v] by auto
  then have "\<forall>(start, fin, land)\<in>set (ls_handlers st). start \<le> fin"
    using nf unfolding sc(6) note_handlers_def notes_fit_def list_all_iff by auto
  from handler_succs_spec [OF _ this, of ?pcs "map (flow_succs ?pcs (ls_flow st)) ps"] asc n(2) obtain succs where
    h: "handler_succs ?pcs (ls_handlers st) (map (flow_succs ?pcs (ls_flow st)) ps) = Some succs" "length succs = length ps"
      "\<And>i. i < length ps \<Longrightarrow> set (succs ! i) = set (flow_succs ?pcs (ls_flow st) (ps ! i)) \<union>
       {h. \<exists>(start, fin, land)\<in>set (ls_handlers st). pc_index ?pcs land = Some h \<and> start \<le> ?pcs ! i \<and> ?pcs ! i < fin}"
    by auto
  have edge: "j \<in> set (succs ! i) \<longleftrightarrow> live_edge ?tr (try_notes s) i j" if i: "i < length ps" for i j
  proof -
    have pci: "?pcs ! i = o_pc (ps ! i)" using i n(2) unfolding ops_pcs [symmetric] by simp
    have trj: "fst (?tr ! j) = ?pcs ! j" if "j < length ps" using that n(1) unfolding tr_pcs [symmetric] by simp
    have hs: "(\<exists>(start, fin, land)\<in>set (ls_handlers st). pc_index ?pcs land = Some j \<and> start \<le> ?pcs ! i \<and> ?pcs ! i < fin) \<longleftrightarrow>
       j < length ps \<and> (\<exists>m\<in>set (map snd (surfaced evs)). lands m \<and> tn_start m \<le> ?pcs ! i \<and> ?pcs ! i < note_end m \<and> ?pcs ! j = note_end m)"
      unfolding sc(6) note_handlers_def pc_index_iff [OF asc [THEN conjunct1]] n(2) by auto
    have "\<exists>b\<in>set (op_ends t (befores evs)). tn_start m \<le> b" if "tn_start m \<le> ?pcs ! i" for m
    proof -
      obtain pc op where bi: "befores evs ! i = (pc, op)" by (cases "befores evs ! i")
      have mem: "(pc, op) \<in> set (befores evs)" using bi i n(2) by (metis length_map nth_mem)
      have "tn_start m \<le> pc + op_len t op" using that bi i n(2) asc mem by fastforce
      then show ?thesis using mem by (force simp: op_ends_def)
    qed
    then have ns: "(\<exists>m\<in>set (map snd (surfaced evs)). lands m \<and> tn_start m \<le> ?pcs ! i \<and> Q m) \<longleftrightarrow>
        (\<exists>m\<in>set (try_notes s). lands m \<and> tn_start m \<le> ?pcs ! i \<and> Q m)" for Q
      unfolding surfaced_set [OF v] by blast
    have "j \<in> set (succs ! i) \<longleftrightarrow> j < length ps \<and> (?pcs ! j \<in> flow_targets (o_pc (ps ! i)) (o_len (ps ! i)) (snd (snd (?tr ! i))) \<or>
        (\<exists>m\<in>set (try_notes s). lands m \<and> tn_start m \<le> ?pcs ! i \<and> ?pcs ! i < note_end m \<and> ?pcs ! j = note_end m))"
      unfolding h(3) [OF i] flow_succs_set [of ?pcs "ls_flow st" "ps ! i", OF asc [THEN conjunct1] fl [OF i]] Un_iff mem_Collect_eq hs ns n(2) by blast
    also have "\<dots> \<longleftrightarrow> live_edge ?tr (try_notes s) i j"
    proof -
      obtain ev where e: "?tr ! i = (o_pc (ps ! i), o_len (ps ! i), ev)" using at [OF i] by blast
      show ?thesis unfolding live_edge_def e prod.case snd_conv pci n(1) using trj i by (cases "j < length ps") simp_all
    qed
    finally show ?thesis .
  qed
  have graph: "live_graph t bid_of s = Some (st, succs)"
    using v sc(1) h(1) ops_pcs sc(2) by (simp add: live_graph_def st0_def Let_def)
  have words: "ls_words st0 = ls_words st" using sc(4) by (simp add: same_frame_def)
  have gok: "graph_ok (ls_words st) ps succs"
    unfolding graph_ok_def
  proof (intro conjI ballI)
    show "length succs = length ps" by (rule h(2))
  next
    fix p assume "p \<in> set ps"
    then obtain i where "i < length ps" "p = ps ! i" by (auto simp: in_set_conv_nth)
    with rec [of i] at [of i] words show "length (o_uses p) = ls_words st" "length (o_defs p) = ls_words st"
      by (auto simp: recorded_def split: prod.splits)
  next
    fix js j assume "js \<in> set succs" "j \<in> set js"
    then obtain i where "i < length ps" "js = succs ! i" using h(2) by (auto simp: in_set_conv_nth)
    with edge [of i j] \<open>j \<in> set js\<close> n(1) show "j < length ps" by (simp add: live_edge_def)
  qed
  have "row_upward ps succs i b = slot_live t st0 s evs i b" if b: "b < 64 * ls_words st" for i b
  proof -
    have "row_bit (o_uses (ps ! k)) b = op_reads st0 (snd (snd (?tr ! k))) b \<and>
        row_bit (o_defs (ps ! k)) b = op_writes st0 (snd (snd (?tr ! k))) b" if "k < length ps" for k
      using rec [OF that] b words by (auto simp: recorded_def split: prod.splits)
    then show ?thesis unfolding slot_live_def n(1) using edge by (auto elim!: upward_cong)
  qed
  then show ?thesis using graph gok sc(2,4) ops_pcs asc by auto
qed

section \<open>Properties\<close>

lemma live_bit_table:
  assumes "pc_index (sl_pcs L) pc = Some i" "b < 64 * sl_words L"
  shows "live_bit L pc b = tbit (sl_words L) (sl_live_in L) i b"
proof -
  have "b div 64 < sl_words L" using assms(2) by (simp add: less_mult_imp_div_less mult.commute)
  then show ?thesis using assms(1) by (simp add: live_bit_def tbit_def bit_iff_and_push_bit_not_eq_0 Let_def)
qed

lemma live_build_exact:
  fixes bid_of :: "u32 \<Rightarrow> u32 option"
  assumes "visit t s = Some evs" "length (bytecode s) < 2 ^ 32" "notes_fit (try_notes s)"
  defines "st0 \<equiv> live_start bid_of s evs"
  shows "\<exists>L. live_build t bid_of s = Some L \<and> sl_pcs L = map fst (befores evs) \<and> sl_nlocals L = ls_nlocals st0 \<and>
    sl_nargs L = ls_nargs st0 \<and> sl_gbids L = ls_gbids st0 \<and>
    (\<forall>i < length (sl_pcs L). \<forall>b < ls_nlocals st0 + ls_nargs st0 + length (ls_gbids st0).
       live_bit L (sl_pcs L ! i) b = slot_live t st0 s evs i b)"
proof -
  from live_graph_exact [OF assms(1-3), of bid_of, folded st0_def] obtain st succs where
    g: "live_graph t bid_of s = Some (st, succs)" "same_frame st0 st" "map o_pc (ls_ops st) = map fst (befores evs)"
      "strict_asc (map fst (befores evs))" "graph_ok (ls_words st) (ls_ops st) succs"
      "\<forall>i b. b < 64 * ls_words st \<longrightarrow> row_upward (ls_ops st) succs i b = slot_live t st0 s evs i b" by blast
  from live_loop_start [OF g(5)] obtain live where
    l: "live_loop (ls_words st) (ls_ops st) succs (replicate (length (ls_ops st) * ls_words st) 0) = Some live"
      "\<forall>i < length (ls_ops st). \<forall>b < 64 * ls_words st. tbit (ls_words st) live i b = row_upward (ls_ops st) succs i b" .
  let ?L = "\<lparr>sl_nlocals = ls_nlocals st, sl_nargs = ls_nargs st, sl_words = ls_words st, sl_pcs = map o_pc (ls_ops st),
    sl_live_in = live, sl_gbids = ls_gbids st\<rparr>"
  have n: "length (ls_ops st) = length (befores evs)" using arg_cong [OF g(3), of length] by simp
  have words: "b < 64 * ls_words st" if "b < ls_nlocals st0 + ls_nargs st0 + length (ls_gbids st0)" for b
    using g(2) that by (simp add: same_frame_def st0_def live_start_def Let_def)
  have bits: "live_bit ?L (sl_pcs ?L ! i) b = slot_live t st0 s evs i b"
    if i: "i < length (sl_pcs ?L)" and b: "b < ls_nlocals st0 + ls_nargs st0 + length (ls_gbids st0)" for i b
  proof -
    have "pc_index (sl_pcs ?L) (sl_pcs ?L ! i) = Some i"
      using i g(3,4) by (simp add: pc_index_iff del: nth_map)
    from live_bit_table [OF this] words [OF b] i g(6) l(2) show ?thesis by simp
  qed
  have "live_build t bid_of s = Some ?L" using g(1) l(1) by (simp add: live_build_def)
  then show ?thesis using bits g(2,3) by (intro exI [of _ ?L]) (simp add: same_frame_def)
qed

text \<open>C15. Frame-slot liveness is exact. On every script that parses, whose code is shorter than 4 GiB and whose handler
  ranges do not wrap, the analysis stops with a table over the op starts; a local or formal is live before an op
  exactly when some path from that op, along the script's branches and the handler edges of the try notes covering
  each op, reads it before writing it; and away from the op starts, or past the last local, the answer is yes.\<close>

theorem frame_slots_exact:
  assumes "visit t s = Some evs" "length (bytecode s) < 2 ^ 32" "notes_fit (try_notes s)"
  shows "\<exists>L. live_build t bid_of s = Some L \<and> sl_pcs L = map fst (befores evs) \<and>
    (\<forall>i < length (sl_pcs L).
       (\<forall>l < max_locals evs. local_live L (sl_pcs L ! i) l = slot_live t (live_start bid_of s evs) s evs i l) \<and>
       (\<forall>a < unat (nargs s). arg_live L (sl_pcs L ! i) a = slot_live t (live_start bid_of s evs) s evs i (max_locals evs + a))) \<and>
    (\<forall>pc l. pc \<notin> set (sl_pcs L) \<or> max_locals evs \<le> l \<longrightarrow> local_live L pc l) \<and>
    (\<forall>pc a. pc \<notin> set (sl_pcs L) \<longrightarrow> arg_live L pc a)"
proof -
  from live_build_exact [OF assms, of bid_of] obtain L where
    L: "live_build t bid_of s = Some L" "sl_pcs L = map fst (befores evs)" "sl_nlocals L = max_locals evs"
      "\<forall>i < length (sl_pcs L). \<forall>b < max_locals evs + unat (nargs s) + length (gscan bid_of evs).
         live_bit L (sl_pcs L ! i) b = slot_live t (live_start bid_of s evs) s evs i b"
    by (auto simp: live_start_def Let_def)
  have off: "live_bit L pc b" if "pc \<notin> set (sl_pcs L)" for pc b
    using that binary_search_Inr [of pc "sl_pcs L"] by (auto simp: live_bit_def pc_index_def split: sum.splits)
  show ?thesis using L off by (intro exI [of _ L]) (auto simp: local_live_def arg_live_def)
qed

text \<open>A loop that copies local 0 to local 1 under a catch whose landing pad reads formal 0.\<close>

definition loop_ops :: JSOps where
  "loop_ops = \<lparr>
     from_byte = (\<lambda>b. map_of [(0, ''GetLocal''), (1, ''SetLocal''), (2, ''Goto''), (3, ''GetArg''), (4, ''GetGName''), (5, ''Return'')] (uint b)),
     op_len = (\<lambda>op. case map_of [(''GetLocal'', 4), (''SetLocal'', 4), (''Goto'', 5), (''GetArg'', 3), (''GetGName'', 5)] op of
        Some n \<Rightarrow> n | None \<Rightarrow> 1),
     op_nuses = (\<lambda>op. if op \<in> set [''SetLocal'', ''Return''] then Some 1 else Some 0),
     op_ndefs = (\<lambda>op. if op \<in> set [''Goto'', ''Return''] then 0 else 1)\<rparr>"

definition loop_script :: Script where
  "loop_script = \<lparr>bytecode = [0, 0, 0, 0, 1, 1, 0, 0, 2, 248, 255, 255, 255, 3, 0, 0, 4, 7, 0, 0, 0, 5],
     addr = 0, gcthings = [], resume_offsets = [],
     try_notes = [\<lparr>tn_kind = Catch, tn_stack_depth = 0, tn_start = 4, tn_length = 9\<rparr>],
     scope_notes = [], body_scope = None, nargs = 1, is_generator_or_async = False, is_class_ctor = False,
     strict = True, has_mapped_args = False\<rparr>"

definition loop_events :: "Event list" where
  "loop_events = [
     BeforeOp 0 ''GetLocal'' 0 1, Callback ''get_local'' [0],
     NoteEvent 4 \<lparr>tn_kind = Catch, tn_stack_depth = 0, tn_start = 4, tn_length = 9\<rparr>,
     BeforeOp 4 ''SetLocal'' 1 1, Callback ''set_local'' [1],
     BeforeOp 8 ''Goto'' 0 0, Callback ''goto_'' [-8],
     BeforeOp 13 ''GetArg'' 0 1, Callback ''get_arg'' [0],
     BeforeOp 16 ''GetGName'' 0 1, Callback ''get_g_name'' [7],
     BeforeOp 21 ''Return'' 1 0, Callback ''return_'' []]"

lemma loop_visit:
  "visit loop_ops loop_script = Some loop_events" "length (bytecode loop_script) < 2 ^ 32" "notes_fit (try_notes loop_script)"
proof -
  show "visit loop_ops loop_script = Some loop_events" by code_simp
  show "length (bytecode loop_script) < 2 ^ 32" by (simp add: loop_script_def)
  show "notes_fit (try_notes loop_script)" by (simp add: loop_script_def notes_fit_def lands_def note_end_def)
qed

theorem frame_slots_exact_witness:
  "\<exists>L. live_build loop_ops Some loop_script = Some L \<and> sl_pcs L = [0, 4, 8, 13, 16, 21] \<and>
     (\<forall>l < max_locals loop_events. local_live L 4 l = slot_live loop_ops (live_start Some loop_script loop_events) loop_script loop_events 1 l)"
proof -
  from frame_slots_exact [OF loop_visit, of Some] obtain L where
    "live_build loop_ops Some loop_script = Some L" and pcs: "sl_pcs L = map fst (befores loop_events)" and
    e: "\<forall>i < length (sl_pcs L). \<forall>l < max_locals loop_events.
      local_live L (sl_pcs L ! i) l = slot_live loop_ops (live_start Some loop_script loop_events) loop_script loop_events i l"
    by blast
  moreover have p: "sl_pcs L = [0, 4, 8, 13, 16, 21]" using pcs by (simp add: loop_events_def)
  moreover have "(1 :: nat) < length (sl_pcs L)" "sl_pcs L ! 1 = 4" using p by simp_all
  ultimately show ?thesis by (intro exI [of _ L]) (metis (no_types, lifting))
qed

section \<open>Bindings\<close>

text \<open>An op reads a global binding; an op hands the whole frame to the runtime.\<close>

definition binding_read :: "(u32 \<Rightarrow> u32 option) \<Rightarrow> Event \<Rightarrow> u32 \<Rightarrow> bool" where
  "binding_read bid_of ev g = (case ev of Callback cb vs \<Rightarrow> cb = ''get_g_name'' \<and> bid_of (word_of_int (vs ! 0)) = Some g | _ \<Rightarrow> False)"

definition exposes_frame :: "Event \<Rightarrow> bool" where
  "exposes_frame ev = (case ev of Callback cb _ \<Rightarrow> cb \<in> set frame_ops | _ \<Rightarrow> False)"

text \<open>The formals an op names are formals of the script, and the locals it names are locals of the frame.\<close>

definition frame_refs_ok :: "Script \<Rightarrow> Event list \<Rightarrow> bool" where
  "frame_refs_ok s evs = (\<forall>cb vs. Callback cb vs \<in> set evs \<longrightarrow>
     (cb \<in> set [''get_local'', ''check_lexical''] \<longrightarrow> nat (vs ! 0) < max_locals evs) \<and>
     (cb \<in> set [''set_local'', ''init_lexical''] \<longrightarrow> nat (vs ! 0) < max_locals evs) \<and>
     (cb \<in> set [''get_arg'', ''get_frame_arg''] \<longrightarrow> nat (vs ! 0) < unat (nargs s)) \<and>
     (cb = ''set_arg'' \<longrightarrow> nat (vs ! 0) < unat (nargs s)))"

lemma frame_refsD:
  assumes "frame_refs_ok s evs" "Callback cb vs \<in> set evs"
  shows "cb \<in> set [''get_local'', ''check_lexical''] \<Longrightarrow> nat (vs ! 0) < max_locals evs"
    "cb \<in> set [''set_local'', ''init_lexical''] \<Longrightarrow> nat (vs ! 0) < max_locals evs"
    "cb \<in> set [''get_arg'', ''get_frame_arg''] \<Longrightarrow> nat (vs ! 0) < unat (nargs s)" "cb = ''set_arg'' \<Longrightarrow> nat (vs ! 0) < unat (nargs s)"
  using assms unfolding frame_refs_ok_def by blast+

lemma gscan_reads: "g \<in> set (gscan bid_of evs) \<longleftrightarrow> (\<exists>ev\<in>set evs. binding_read bid_of ev g)"
proof -
  have "g \<in> set (fold (gscan_event bid_of) es gs) \<longleftrightarrow> g \<in> set gs \<or> (\<exists>ev\<in>set es. binding_read bid_of ev g)" for es gs
  proof (induction es arbitrary: gs)
    case (Cons e es)
    have "g \<in> set (gscan_event bid_of e gs) \<longleftrightarrow> g \<in> set gs \<or> binding_read bid_of e g"
      by (cases e) (auto simp: binding_read_def split: option.splits)
    with Cons.IH [of "gscan_event bid_of e gs"] show ?case by simp
  qed simp
  then show ?thesis by (simp add: gscan_def)
qed

lemma position_bound: "position g gs = Some k \<Longrightarrow> k < length gs"
  by (induction gs arbitrary: k) (auto split: if_splits)

lemma position_inj: "position g gs = Some k \<Longrightarrow> position g' gs = Some k \<Longrightarrow> g = g'"
  by (induction gs arbitrary: k) (auto split: if_splits)

lemma position_mem: "g \<in> set gs \<longleftrightarrow> (\<exists>k. position g gs = Some k)"
  by (induction gs) auto

text \<open>The bit of a binding is read by its reads and by the ops that expose the frame, and never written.\<close>

lemma binding_bit:
  assumes "frame_refs_ok s evs" "ev \<in> set evs" "position g (gscan bid_of evs) = Some k"
  shows "op_reads (live_start bid_of s evs) ev (max_locals evs + unat (nargs s) + k) \<longleftrightarrow> binding_read bid_of ev g \<or> exposes_frame ev"
    "\<not> op_writes (live_start bid_of s evs) ev (max_locals evs + unat (nargs s) + k)"
proof -
  let ?st = "live_start bid_of s evs" and ?b = "max_locals evs + unat (nargs s) + k"
  have st: "ls_nlocals ?st = max_locals evs" "ls_nargs ?st = unat (nargs s)" "ls_bid_of ?st = bid_of" "ls_gbids ?st = gscan bid_of evs"
    by (simp_all add: live_start_def Let_def)
  show "op_reads ?st ev ?b \<longleftrightarrow> binding_read bid_of ev g \<or> exposes_frame ev"
  proof (cases ev)
    case (Callback cb vs)
    have "\<not> (cb \<in> set [''get_local'', ''check_lexical''] \<and> ?b = nat (vs ! 0))"
      "\<not> (cb \<in> set [''get_arg'', ''get_frame_arg''] \<and> ?b = max_locals evs + nat (vs ! 0))"
      using frame_refsD(1,3) [OF assms(1), of cb vs] assms(2) Callback by force+
    moreover have "\<not> (cb \<in> set args_ops \<and> max_locals evs \<le> ?b \<and> ?b < max_locals evs + unat (nargs s))" by simp
    moreover have "(\<exists>g' k'. bid_of (word_of_int (vs ! 0)) = Some g' \<and> position g' (gscan bid_of evs) = Some k' \<and> ?b = max_locals evs + unat (nargs s) + k')
        \<longleftrightarrow> bid_of (word_of_int (vs ! 0)) = Some g" using assms(3) position_inj by fastforce
    ultimately show ?thesis unfolding Callback op_reads_def binding_read_def exposes_frame_def st Event.case by blast
  qed (simp_all add: op_reads_def binding_read_def exposes_frame_def)
  show "\<not> op_writes ?st ev ?b"
  proof (cases ev)
    case (Callback cb vs)
    have "\<not> (cb \<in> set [''set_local'', ''init_lexical''] \<and> ?b = nat (vs ! 0))" "\<not> (cb = ''set_arg'' \<and> ?b = max_locals evs + nat (vs ! 0))"
      using frame_refsD(2,4) [OF assms(1), of cb vs] assms(2) Callback by force+
    then show ?thesis unfolding Callback op_writes_def st Event.case by blast
  qed (simp_all add: op_writes_def)
qed

lemma op_trace_events: "x \<in> set (op_trace t evs) \<Longrightarrow> snd (snd x) \<in> set evs"
  by (induction t evs rule: op_trace.induct) auto

lemma op_trace_length:
  assumes "visit t s = Some evs"
  shows "length (op_trace t evs) = length (befores evs)"
proof -
  fix bid_of :: "u32 \<Rightarrow> u32 option"
  have "map (\<lambda>(pc, len, ev). (pc, len)) (op_trace t evs) = map (\<lambda>(pc, op). (pc, op_len t op)) (befores evs)"
    using live_scan_visit [of t 0 "parser s" evs "live_start bid_of s evs"] assms by (auto simp: visit_def live_start_def Let_def)
  from arg_cong [OF this, of length] show ?thesis by simp
qed

text \<open>A slot nothing writes is live where a path leads to a read.\<close>

lemma upward_reach:
  assumes "\<And>i. i < n \<Longrightarrow> \<not> writes i b" "\<And>i j. edge i j \<Longrightarrow> i < n \<and> j < n" "i < n"
  shows "upward edge reads writes n i b \<longleftrightarrow> (\<exists>j. edge\<^sup>*\<^sup>* i j \<and> reads j b)"
proof
  show "upward edge reads writes n i b \<Longrightarrow> \<exists>j. edge\<^sup>*\<^sup>* i j \<and> reads j b"
    by (induction rule: upward.induct) (auto intro: converse_rtranclp_into_rtranclp)
  assume "\<exists>j. edge\<^sup>*\<^sup>* i j \<and> reads j b"
  then obtain j where "edge\<^sup>*\<^sup>* i j" "reads j b" by blast
  then show "upward edge reads writes n i b" using assms(3)
    by (induction rule: converse_rtranclp_induct) (use assms(1,2) in \<open>auto intro: upward.intros\<close>)
qed

text \<open>C16. Binding liveness is exact: before an op, a global binding is live exactly when the script reads it somewhere and
  some path from the op, along branches and handler edges, leads to a read of it or to an op that hands the whole frame to
  the runtime (a yield, a direct eval, the debugger); nothing on the path kills it. The hypothesis on frame references rules out
  bytecode that names formals or lexicals the frame does not have, whose bits would fall on a binding's.\<close>

theorem gcells_exact:
  assumes "visit t s = Some evs" "length (bytecode s) < 2 ^ 32" "notes_fit (try_notes s)" "frame_refs_ok s evs"
  shows "\<exists>L. live_build t bid_of s = Some L \<and>
    (\<forall>i < length (befores evs). \<forall>g. gcell_live L (fst (befores evs ! i)) g \<longleftrightarrow>
       (\<exists>ev\<in>set evs. binding_read bid_of ev g) \<and>
       (\<exists>j. (live_edge (op_trace t evs) (try_notes s))\<^sup>*\<^sup>* i j \<and>
          (binding_read bid_of (snd (snd (op_trace t evs ! j))) g \<or> exposes_frame (snd (snd (op_trace t evs ! j))))))"
proof -
  let ?tr = "op_trace t evs" and ?n = "max_locals evs + unat (nargs s)"
  from live_build_exact [OF assms(1-3), of bid_of] obtain L where
    L: "live_build t bid_of s = Some L" "sl_pcs L = map fst (befores evs)" "sl_nlocals L = max_locals evs" "sl_nargs L = unat (nargs s)"
      "sl_gbids L = gscan bid_of evs"
      "\<forall>i < length (sl_pcs L). \<forall>b < ?n + length (gscan bid_of evs).
         live_bit L (sl_pcs L ! i) b = slot_live t (live_start bid_of s evs) s evs i b"
    by (auto simp: live_start_def Let_def)
  have len: "length ?tr = length (befores evs)" by (rule op_trace_length [OF assms(1)])
  have live: "slot_live t (live_start bid_of s evs) s evs i (?n + k) \<longleftrightarrow>
      (\<exists>j. (live_edge ?tr (try_notes s))\<^sup>*\<^sup>* i j \<and> (binding_read bid_of (snd (snd (?tr ! j))) g \<or> exposes_frame (snd (snd (?tr ! j)))))"
    if k: "position g (gscan bid_of evs) = Some k" and i: "i < length ?tr" for g k i
  proof -
    note bits = binding_bit [OF assms(4) op_trace_events [OF nth_mem] k, of _ t]
    have "slot_live t (live_start bid_of s evs) s evs i (?n + k) \<longleftrightarrow>
        (\<exists>j. (live_edge ?tr (try_notes s))\<^sup>*\<^sup>* i j \<and> op_reads (live_start bid_of s evs) (snd (snd (?tr ! j))) (?n + k))"
      unfolding slot_live_def using bits(2) i by (intro upward_reach) (auto simp: live_edge_def)
    moreover have "j < length ?tr" if "(live_edge ?tr (try_notes s))\<^sup>*\<^sup>* i j" for j
      using that i by (induction rule: rtranclp_induct) (auto simp: live_edge_def)
    ultimately show ?thesis using bits(1) by blast
  qed
  have "gcell_live L (fst (befores evs ! i)) g \<longleftrightarrow> (\<exists>ev\<in>set evs. binding_read bid_of ev g) \<and>
      (\<exists>j. (live_edge ?tr (try_notes s))\<^sup>*\<^sup>* i j \<and> (binding_read bid_of (snd (snd (?tr ! j))) g \<or> exposes_frame (snd (snd (?tr ! j)))))"
    if i: "i < length (befores evs)" for i g
  proof (cases "position g (gscan bid_of evs)")
    case None
    then show ?thesis using gscan_reads [of g bid_of evs] position_mem [of g "gscan bid_of evs"] by (simp add: gcell_live_def L(5))
  next
    case (Some k)
    have "live_bit L (fst (befores evs ! i)) (?n + k) = slot_live t (live_start bid_of s evs) s evs i (?n + k)"
      using L(2,6) i position_bound [OF Some] by simp
    then show ?thesis using Some live [OF Some] i len gscan_reads [of g bid_of evs] position_mem [of g "gscan bid_of evs"]
      by (simp add: gcell_live_def L(3-5))
  qed
  with L(1) show ?thesis by blast
qed

theorem gcells_exact_witness:
  "\<exists>L. live_build loop_ops Some loop_script = Some L \<and> gcell_live L 13 7 \<and> \<not> gcell_live L 13 8"
proof -
  let ?edge = "live_edge (op_trace loop_ops loop_events) (try_notes loop_script)"
  have refs: "frame_refs_ok loop_script loop_events"
    by (auto simp: frame_refs_ok_def loop_events_def loop_script_def max_locals_def)
  have e: "?edge 3 4" by (simp add: live_edge_def loop_events_def loop_script_def flow_targets_def flow_of_event_def loop_ops_def)
  have r: "binding_read Some (snd (snd (op_trace loop_ops loop_events ! 4))) 7" "\<exists>ev\<in>set loop_events. binding_read Some ev 7"
    "\<not> (\<exists>ev\<in>set loop_events. binding_read Some ev 8)"
    by (simp_all add: loop_events_def binding_read_def)
  have at: "3 < length (befores loop_events)" "fst (befores loop_events ! 3) = 13" by (simp_all add: loop_events_def)
  from gcells_exact [OF loop_visit refs, of Some] obtain L where L: "live_build loop_ops Some loop_script = Some L"
    "gcell_live L 13 g \<longleftrightarrow> (\<exists>ev\<in>set loop_events. binding_read Some ev g) \<and> (\<exists>j. ?edge\<^sup>*\<^sup>* 3 j \<and>
       (binding_read Some (snd (snd (op_trace loop_ops loop_events ! j))) g \<or> exposes_frame (snd (snd (op_trace loop_ops loop_events ! j)))))" for g
    using at by (metis (no_types, lifting))
  have "gcell_live L 13 7" unfolding L(2) using r(1,2) r_into_rtranclp [of ?edge, OF e] by blast
  moreover have "\<not> gcell_live L 13 8" unfolding L(2) using r(3) by blast
  ultimately show ?thesis using L(1) by blast
qed

end
