(* ===== verification/Cfg_Exact.thy ===== *)
theory Cfg_Exact
  imports Cfg_Loops Live_Exact
begin

text \<open>
  The graph \<^verbatim>\<open>compiler/src/wasm/bbv/cfg.rs\<close> builds for a body: the scans of its instances, the cutting of the blocks, the
  block query, and over the built graph the exactness of dominance and of the loop nest.
\<close>

section \<open>The scan of the instances\<close>

lemma flow_scan_ops:
  "fs_base (fold (flow_scan_event t) evs st) = fs_base st \<and>
   fs_ops (fold (flow_scan_event t) evs st) = fs_ops st @ map (\<lambda>(pc, op). (fs_base st + pc, op_len t op)) (befores evs)"
proof (induction evs arbitrary: st)
  case (Cons ev evs)
  have "fs_base (flow_scan_event t ev st) = fs_base st"
    by (auto simp: flow_scan_event_def split: Event.splits option.splits)
  moreover have "fs_ops (flow_scan_event t ev st) = fs_ops st @ map (\<lambda>(pc, op). (fs_base st + pc, op_len t op)) (befores [ev])"
    by (auto simp: flow_scan_event_def split: Event.splits option.splits)
  moreover have "befores (ev # evs) = befores [ev] @ befores evs" by (cases ev) auto
  ultimately show ?case using Cons.IH [of "flow_scan_event t ev st"] by simp
qed simp

definition flow_at_ops :: "FlowScan \<Rightarrow> bool" where
  "flow_at_ops st = (dom (fs_flow st) \<subseteq> fst ` set (fs_ops st) \<and> fs_pc st \<in> fst ` set (fs_ops st))"

lemma flow_scan_at_ops: "flow_at_ops st \<Longrightarrow> flow_at_ops (fold (flow_scan_event t) evs st)"
proof (induction evs arbitrary: st)
  case (Cons ev evs)
  have "flow_at_ops (flow_scan_event t ev st)"
    using Cons.prems by (auto simp: flow_at_ops_def flow_scan_event_def split: Event.splits option.splits if_splits)
  from Cons.IH [OF this] show ?case by simp
qed simp

lemma visit_starts:
  assumes "visit t s = Some evs"
  obtains "evs = []" | pc op u d evs' where "evs = BeforeOp pc op u d # evs'"
proof -
  from assms have "visit_from t 0 (parser s) = Some evs" by (simp add: visit_def)
  then show thesis
  proof (cases rule: visit_from_cases)
    case stop
    then show thesis using that(1) by simp
  next
    case (turn e pc' p' es)
    from turn(1) show thesis by (rule visit_step_shape) (use turn(3) that(2) in auto)
  qed
qed

lemma flow_scan_exact:
  assumes v: "visit t s = Some evs" and f: "flow_scan t s base = Some fs"
  shows "fs_ops fs = map (\<lambda>(pc, op). (base + pc, op_len t op)) (befores evs)" "dom (fs_flow fs) \<subseteq> fst ` set (fs_ops fs)"
proof -
  let ?st = "\<lparr>fs_base = base, fs_pc = 0, fs_ops = [], fs_flow = Map.empty, fs_handlers = []\<rparr>"
  have fs: "fs = fold (flow_scan_event t) evs ?st" using v f by (simp add: flow_scan_def)
  show "fs_ops fs = map (\<lambda>(pc, op). (base + pc, op_len t op)) (befores evs)"
    unfolding fs using flow_scan_ops [of t evs ?st] by simp
  from v show "dom (fs_flow fs) \<subseteq> fst ` set (fs_ops fs)"
  proof (cases rule: visit_starts)
    case 1
    then show ?thesis unfolding fs by simp
  next
    case (2 pc op u d evs')
    have "flow_at_ops (flow_scan_event t (BeforeOp pc op u d) ?st)" by (simp add: flow_at_ops_def flow_scan_event_def)
    from flow_scan_at_ops [OF this, of t evs'] show ?thesis unfolding fs 2 by (simp add: flow_at_ops_def)
  qed
qed

section \<open>Contiguous ops\<close>

text \<open>The ops fill the bytes from \<open>k\<close> to \<open>m\<close>, without wrapping.\<close>

fun contig :: "nat \<Rightarrow> (Pc \<times> u32) list \<Rightarrow> nat \<Rightarrow> bool" where
  "contig k [] m = (k = m)"
| "contig k ((pc, len) # ops) m = (unat pc = k \<and> 0 < unat len \<and> contig (k + unat len) ops m)"

lemma contig_append: "contig k (xs @ ys) m \<longleftrightarrow> (\<exists>j. contig k xs j \<and> contig j ys m)"
  by (induction xs arbitrary: k) auto

lemma contig_le: "contig k ops m \<Longrightarrow> k \<le> m"
  by (induction k ops m rule: contig.induct) auto

lemma contig_range:
  assumes "contig k ops m" "(pc, len) \<in> set ops"
  shows "k \<le> unat pc \<and> unat pc + unat len \<le> m"
  using assms
proof (induction k ops m rule: contig.induct)
  case (2 k pc' len' ops m)
  then show ?case using contig_le [of "k + unat len'" ops m] by fastforce
qed simp

lemma contig_sorted:
  assumes "contig k ops m"
  shows "strict_asc (map fst ops)"
  using assms
proof (induction k ops m rule: contig.induct)
  case (2 k pc len ops m)
  have "pc < fst x" if "x \<in> set ops" for x
  proof -
    from contig_range [of "k + unat len" ops m "fst x" "snd x"] 2 that have "k + unat len \<le> unat (fst x)" by simp
    with 2 show ?thesis by (simp add: word_less_nat_alt)
  qed
  with 2 show ?case by simp
qed simp

lemma tiles_contig:
  assumes "tiles t code k ops" "unat base + length code < 2 ^ 32"
  shows "contig (unat base + k) (map (\<lambda>(pc, op). (base + pc, op_len t op)) ops) (unat base + length code)"
  using assms
proof (induction ops arbitrary: k)
  case (Cons x ops)
  obtain pc op where x: "x = (pc, op)" by (cases x)
  with Cons.prems have h: "pc = of_nat k" "k < length code" "op_len t op \<noteq> 0" "tiles t code (k + unat (op_len t op)) ops" by auto
  have "unat (base + pc) = unat base + k"
    using h(1,2) Cons.prems(2) by (simp add: unat_word_ariths unat_of_nat take_bit_nat_eq_self)
  with Cons.IH [OF h(4) Cons.prems(2)] h(3) x show ?case by (simp add: add.assoc unat_gt_0)
qed simp

lemma contig_next:
  assumes "contig k (xs @ (pc, len) # y # ys) m"
  shows "unat (fst y) = unat pc + unat len \<and> fst y = pc + len"
proof -
  obtain pc' len' where y: "y = (pc', len')" by (cases y)
  from assms y have e: "unat pc' = unat pc + unat len" by (auto simp: contig_append)
  have "pc' = of_nat (unat pc')" by simp
  also have "\<dots> = pc + len" unfolding e by simp
  finally show ?thesis using e y by simp
qed

section \<open>Cutting\<close>

lemma cut_runs_concat: "concat (cut_runs L ops) = ops"
  by (induction L ops rule: cut_runs.induct) auto

lemma cut_runs_nonempty: "r \<in> set (cut_runs L ops) \<Longrightarrow> r \<noteq> []"
  by (induction L ops rule: cut_runs.induct) auto

lemma cut_runs_inner: "r \<in> set (cut_runs L ops) \<Longrightarrow> y \<in> set (tl r) \<Longrightarrow> fst y \<notin> set L"
  by (induction L ops rule: cut_runs.induct) (auto dest: set_takeWhileD)

section \<open>Instances\<close>

type_synonym Inst = "Script \<times> Pc \<times> nat option"

fun seg_insts :: "nat \<Rightarrow> InlineSeg list \<Rightarrow> Inst list" where
  "seg_insts i [] = []"
| "seg_insts i (g # gs) = (sg_script g, sg_base g, Some i) # seg_insts (i + 1) gs"

definition body_insts :: "Script \<Rightarrow> InlineSeg list \<Rightarrow> Inst list" where
  "body_insts root segs = (root, 0, None) # seg_insts 0 segs"

abbreviation inst_end :: "Inst \<Rightarrow> nat" where
  "inst_end x \<equiv> unat (fst (snd x)) + length (bytecode (fst x))"

text \<open>The pc space \<open>ensure_seg\<close> lays out: the instances lie apart and below the pc limit.\<close>

definition layout_ok :: "Script \<Rightarrow> InlineSeg list \<Rightarrow> bool" where
  "layout_ok root segs =
     (list_all (\<lambda>x. inst_end x < 2 ^ 32) (body_insts root segs) \<and>
      sorted_wrt (\<lambda>x y. inst_end x \<le> unat (fst (snd y)) \<or> inst_end y \<le> unat (fst (snd x))) (body_insts root segs))"

fun scan_list :: "JSOps \<Rightarrow> Inst list \<Rightarrow> Scans \<Rightarrow> Scans option" where
  "scan_list t [] acc = Some acc"
| "scan_list t ((s, base, seg) # xs) acc = Option.bind (scan_instance t s base seg acc) (scan_list t xs)"

lemma scan_segs_list: "scan_segs t i gs acc = scan_list t (seg_insts i gs) acc"
proof (induction gs arbitrary: i acc)
  case (Cons g gs)
  then show ?case by (cases "scan_instance t (sg_script g) (sg_base g) (Some i) acc") simp_all
qed simp

definition scanned :: "JSOps \<Rightarrow> Inst \<Rightarrow> FlowScan \<Rightarrow> bool" where
  "scanned t x fs = (flow_scan t (fst x) (fst (snd x)) = Some fs)"

definition scans_ok :: "JSOps \<Rightarrow> Inst list \<Rightarrow> FlowScan list \<Rightarrow> Scans \<Rightarrow> Scans \<Rightarrow> bool" where
  "scans_ok t xs fss acc sc =
     (list_all2 (scanned t) xs fss \<and> sc_ops sc = sc_ops acc @ concat (map fs_ops fss) \<and>
      sc_instance sc = sc_instance acc @ map (\<lambda>(s, base, seg). (base, base + of_nat (length (bytecode s)), seg)) xs \<and>
      set (sc_leaders acc) \<subseteq> set (sc_leaders sc) \<and>
      (\<forall>fs\<in>set fss. \<forall>y\<in>set (fs_ops fs). set (op_leaders (fs_flow fs) y) \<subseteq> set (sc_leaders sc)) \<and>
      (\<forall>pc f. sc_flow sc pc = Some f \<longrightarrow> sc_flow acc pc = Some f \<or> (\<exists>fs\<in>set fss. fs_flow fs pc = Some f)))"

lemma scan_list_exact:
  assumes "\<forall>x\<in>set xs. visit t (fst x) \<noteq> None"
  shows "\<exists>fss sc. scan_list t xs acc = Some sc \<and> scans_ok t xs fss acc sc"
  using assms
proof (induction xs arbitrary: acc)
  case Nil
  then show ?case by (simp add: scans_ok_def)
next
  case (Cons x xs)
  obtain s base seg where x: "x = (s, base, seg)" by (cases x)
  from Cons.prems x obtain evs where "visit t s = Some evs" by auto
  then obtain fs where fs: "flow_scan t s base = Some fs" by (auto simp: flow_scan_def)
  then obtain acc' where acc': "scan_instance t s base seg acc = Some acc'" by (auto simp: scan_instance_def)
  from Cons.IH [of acc'] Cons.prems obtain fss sc where
    sc: "scan_list t xs acc' = Some sc" "scans_ok t xs fss acc' sc" by auto
  have a: "sc_ops acc' = sc_ops acc @ fs_ops fs" "sc_flow acc' = sc_flow acc ++ fs_flow fs"
    "sc_instance acc' = sc_instance acc @ [(base, base + of_nat (length (bytecode s)), seg)]"
    "set (sc_leaders acc) \<subseteq> set (sc_leaders acc')"
    "\<forall>y\<in>set (fs_ops fs). set (op_leaders (fs_flow fs) y) \<subseteq> set (sc_leaders acc')"
    using fs acc' unfolding scan_instance_def by auto
  have c: "list_all2 (scanned t) xs fss" "sc_ops sc = sc_ops acc' @ concat (map fs_ops fss)"
    "sc_instance sc = sc_instance acc' @ map (\<lambda>(s, base, seg). (base, base + of_nat (length (bytecode s)), seg)) xs"
    "set (sc_leaders acc') \<subseteq> set (sc_leaders sc)"
    "\<forall>fs\<in>set fss. \<forall>y\<in>set (fs_ops fs). set (op_leaders (fs_flow fs) y) \<subseteq> set (sc_leaders sc)"
    "\<And>pc f. sc_flow sc pc = Some f \<Longrightarrow> sc_flow acc' pc = Some f \<or> (\<exists>fs\<in>set fss. fs_flow fs pc = Some f)"
    using sc(2) unfolding scans_ok_def by blast+
  have flow: "sc_flow acc pc = Some f \<or> (\<exists>g\<in>set (fs # fss). fs_flow g pc = Some f)" if "sc_flow sc pc = Some f" for pc f
    using c(6) [OF that] by (auto simp: a(2) map_add_Some_iff)
  have lead: "\<forall>g\<in>set (fs # fss). \<forall>y\<in>set (fs_ops g). set (op_leaders (fs_flow g) y) \<subseteq> set (sc_leaders sc)"
    using a(5) c(4,5) by (simp) blast
  have "scans_ok t (x # xs) (fs # fss) acc sc"
    unfolding scans_ok_def using flow lead a(4) c(4)
    by (intro conjI allI impI) (auto simp: x scanned_def fs c(1-3) a(1,3))
  with sc(1) acc' x show ?case by auto
qed

lemma scan_body_exact:
  assumes "list_all (\<lambda>x. visit t (fst x) \<noteq> None) (body_insts root segs)"
  shows "\<exists>fss sc. scan_body t root segs = Some sc \<and> list_all2 (scanned t) (body_insts root segs) fss \<and>
    sc_ops sc = sort (concat (map fs_ops fss)) \<and>
    sc_instance sc = map (\<lambda>(s, base, seg). (base, base + of_nat (length (bytecode s)), seg)) (body_insts root segs) \<and>
    (\<forall>fs\<in>set fss. \<forall>y\<in>set (fs_ops fs). set (op_leaders (fs_flow fs) y) \<subseteq> set (sc_leaders sc)) \<and>
    (\<forall>pc f. sc_flow sc pc = Some f \<longrightarrow> (\<exists>fs\<in>set fss. fs_flow fs pc = Some f))"
proof -
  let ?z = "\<lparr>sc_ops = [], sc_flow = Map.empty, sc_leaders = [], sc_instance = [], sc_handlers = []\<rparr>"
  from scan_list_exact [of "body_insts root segs" t ?z] assms obtain fss sc where
    sc: "scan_list t (body_insts root segs) ?z = Some sc" "scans_ok t (body_insts root segs) fss ?z sc"
    by (auto simp: list_all_iff)
  let ?sc = "sc\<lparr>sc_ops := sort (sc_ops sc), sc_leaders := sc_leaders sc @ concat (map (\<lambda>g. [sg_base g, sg_ret_pc g]) segs)\<rparr>"
  have "scan_body t root segs = Some ?sc"
    using sc(1) by (cases "scan_instance t root 0 None ?z") (simp_all add: scan_body_def scan_segs_list body_insts_def)
  with sc(2) show ?thesis unfolding scans_ok_def by (intro exI [of _ fss] exI [of _ ?sc]) auto
qed

section \<open>The ops of an instance\<close>

lemma sorted_fst: "sorted (xs :: (Pc \<times> u32) list) \<Longrightarrow> sorted (map fst xs)"
  by (induction xs) (auto simp: less_eq_prod_def less_le)

lemma asc_sorted: "strict_asc (map fst (xs :: (Pc \<times> u32) list)) \<Longrightarrow> sorted xs"
  by (induction xs) (auto simp: less_eq_prod_def)

lemma takeWhile_filter_sorted: "sorted (map fst xs) \<Longrightarrow> takeWhile (\<lambda>y. fst y < c) xs = filter (\<lambda>y. fst y < c) (xs :: (Pc \<times> u32) list)"
proof (induction xs)
  case (Cons x xs)
  show ?case
  proof (cases "fst x < c")
    case True
    with Cons show ?thesis by simp
  next
    case False
    with Cons.prems have "\<forall>y\<in>set xs. \<not> fst y < c" by (auto simp: not_less intro: order.trans)
    with False show ?thesis by (simp add: filter_empty_conv)
  qed
qed simp

lemma take_of_append: "xs = a @ b \<Longrightarrow> take (length a) xs = a" and drop_of_append: "xs = a @ b \<Longrightarrow> drop (length a) xs = b"
  by simp_all

lemma instance_ops_filter:
  assumes "sorted (map fst ops)" "base \<le> fin"
  shows "instance_ops ops base fin = filter (\<lambda>y. base \<le> fst y \<and> fst y < fin) ops"
proof -
  let ?lt = "\<lambda>c. filter (\<lambda>y. fst y < c) ops"
  have split: "ops = ?lt c @ filter (\<lambda>y. c \<le> fst y) ops" for c
    using assms(1)
  proof (induction ops)
    case (Cons x xs)
    show ?case
    proof (cases "fst x < c")
      case True
      with Cons show ?thesis by auto
    next
      case False
      with Cons.prems have "\<forall>y\<in>set xs. \<not> fst y < c" by auto
      then have "filter (\<lambda>y. fst y < c) xs = []" "filter (\<lambda>y. c \<le> fst y) xs = xs" by (simp_all add: filter_empty_conv not_less)
      with False show ?thesis by auto
    qed
  qed simp
  have pp: "partition_point (\<lambda>(p, _). p < c) ops = length (?lt c)" for c
    unfolding partition_point_def using takeWhile_filter_sorted [OF assms(1), of c] by (simp add: case_prod_unfold)
  have t: "take (length (?lt fin)) ops = ?lt fin" by (rule take_of_append [OF split])
  have "?lt fin = ?lt base @ filter (\<lambda>y. base \<le> fst y \<and> fst y < fin) ops"
  proof -
    have "filter (\<lambda>y. fst y < fin) ops = filter (\<lambda>y. fst y < fin) (?lt base) @ filter (\<lambda>y. fst y < fin) (filter (\<lambda>y. base \<le> fst y) ops)"
      using arg_cong [OF split [of base], of "filter (\<lambda>y. fst y < fin)"] by (simp only: filter_append)
    moreover have "filter (\<lambda>y. fst y < fin) (?lt base) = ?lt base" using assms(2) by (intro filter_True) (auto intro: less_le_trans)
    ultimately show ?thesis by (simp only: filter_filter)
  qed
  then have "drop (length (?lt base)) (?lt fin) = filter (\<lambda>y. base \<le> fst y \<and> fst y < fin) ops" by (rule drop_of_append)
  then show ?thesis unfolding instance_ops_def pp t .
qed

section \<open>The block graph\<close>

lemma runs_span_set:
  "set (runs_span runs) = (\<lambda>b. (fst (hd (fst (runs ! b))), run_end (fst (runs ! b)), b)) ` {..<length runs}"
  by (auto simp: runs_span_def)

lemma span_block_mem:
  assumes "span_block sp pc = Some b"
  shows "\<exists>s e. (s, e, b) \<in> set sp \<and> s \<le> pc \<and> pc < e"
proof -
  let ?tw = "takeWhile (\<lambda>(s, _, _). s \<le> pc) sp"
  let ?i = "length ?tw"
  obtain s e where x: "?i \<noteq> 0" "sp ! (?i - 1) = (s, e, b)" "pc < e"
    using assms by (auto simp: span_block_def partition_point_def Let_def split: if_splits prod.splits)
  have "(s, e, b) = ?tw ! (?i - 1)" using x by (simp add: takeWhile_nth)
  then have "(s, e, b) \<in> set ?tw" using x(1) by (metis diff_less length_greater_0_conv less_one nth_mem length_0_conv)
  then show ?thesis using x(3) by (auto dest: set_takeWhileD)
qed

lemma span_block_bound: "span_block (runs_span runs) pc = Some b \<Longrightarrow> b < length runs"
  using span_block_mem [of "runs_span runs" pc b] by (auto simp: runs_span_set)

lemma set_sort_dedup [simp]: "set (sort_dedup xs) = set xs"
  by (simp add: sort_dedup_def)

lemma goes_bound: "x \<in> set (some_list (span_block (runs_span runs) u)) \<Longrightarrow> x < length runs"
  using span_block_bound [of runs u] by (cases "span_block (runs_span runs) u") (auto simp: some_list_def)

lemma block_succs_bound: "x \<in> set (block_succs segs sc (runs_span runs) r) \<Longrightarrow> x < length runs"
proof -
  let ?goes = "\<lambda>u. set (some_list (span_block (runs_span runs) u))"
  assume "x \<in> set (block_succs segs sc (runs_span runs) r)"
  moreover obtain run seg where r: "r = (run, seg)" by (cases r)
  moreover obtain pc len where last: "last run = (pc, len)" by (cases "last run")
  ultimately have "\<exists>u. x \<in> ?goes u"
    by (cases "sc_flow sc pc"; cases "the (sc_flow sc pc)"; cases seg) (auto simp: block_succs_def)
  then show ?thesis using goes_bound by blast
qed

lemma body_succs_length: "length (body_succs segs sc) = length (body_runs sc)"
  by (simp add: body_succs_def Let_def)

lemma body_succs_wf:
  assumes "body_runs sc \<noteq> []"
  shows "graph_wf (body_succs segs sc)"
proof -
  let ?runs = "body_runs sc" and ?span = "runs_span (body_runs sc)"
  let ?ss = "map (\<lambda>r. sort_dedup (block_succs segs sc ?span r)) ?runs"
  let ?ls = "filter (\<lambda>b. b \<noteq> 0) (concat (map (\<lambda>h. some_list (span_block ?span h)) (sc_handlers sc)))"
  have s: "\<forall>js\<in>set ?ss. \<forall>j\<in>set js. j < length ?runs" by (auto dest: block_succs_bound)
  have "\<forall>j\<in>set ?ls. j < length ?runs" by (auto dest: goes_bound)
  moreover have "\<forall>j\<in>set (?ss ! 0). j < length ?runs"
    using s [rule_format, of "?ss ! 0"] assms nth_mem [of 0 ?ss] by (simp del: nth_map set_map)
  ultimately have "\<forall>j\<in>set (sort_dedup (?ss ! 0 @ ?ls)). j < length ?runs" by auto
  with s have "\<forall>js\<in>set (body_succs segs sc). \<forall>j\<in>set js. j < length ?runs"
    using set_update_subset_insert [of ?ss 0 "sort_dedup (?ss ! 0 @ ?ls)"] by (auto simp: body_succs_def Let_def)
  then show ?thesis using assms body_succs_length [of segs sc] by (auto simp: graph_wf_def)
qed

lemma body_runs_entry:
  assumes "visit t root = Some evs" "bytecode root \<noteq> []" "length (bytecode root) < 2 ^ 32" "scan_body t root segs = Some sc"
    "sc_instance sc = (0, of_nat (length (bytecode root)), None) # xs" "sorted (map fst (sc_ops sc))" "0 \<in> fst ` set (sc_ops sc)"
  shows "body_runs sc \<noteq> []"
proof -
  let ?n = "of_nat (length (bytecode root)) :: u32"
  have "0 < ?n" using assms(2,3) by (simp add: word_less_nat_alt unat_of_nat take_bit_nat_eq_self)
  with assms(7) have "filter (\<lambda>y. 0 \<le> fst y \<and> fst y < ?n) (sc_ops sc) \<noteq> []" by (force simp: filter_empty_conv)
  then have "instance_ops (sc_ops sc) 0 ?n \<noteq> []" using instance_ops_filter [OF assms(6), of 0 ?n] by simp
  then obtain x ys where "instance_ops (sc_ops sc) 0 ?n = x # ys" by (cases "instance_ops (sc_ops sc) 0 ?n") auto
  then show ?thesis by (simp add: body_runs_def assms(5))
qed

lemma body_runs_nonempty:
  assumes v: "list_all (\<lambda>x. visit t (fst x) \<noteq> None) (body_insts root segs)" and r: "bytecode root \<noteq> []" "length (bytecode root) < 2 ^ 32"
  shows "\<exists>sc. scan_body t root segs = Some sc \<and> body_runs sc \<noteq> []"
proof -
  from v obtain evs where e: "visit t root = Some evs" by (auto simp: body_insts_def)
  from scan_body_exact [OF v] obtain fss sc where
    sc: "scan_body t root segs = Some sc" "list_all2 (scanned t) (body_insts root segs) fss" "sc_ops sc = sort (concat (map fs_ops fss))"
      "sc_instance sc = map (\<lambda>(s, base, seg). (base, base + of_nat (length (bytecode s)), seg)) (body_insts root segs)" by blast
  from sc(2) obtain fs fss' where fs: "fss = fs # fss'" "flow_scan t root 0 = Some fs"
    by (auto simp: body_insts_def list_all2_Cons1 scanned_def)
  have "tiles t (bytecode root) 0 (befores evs)"
    using visit_from_tiles [of t 0 "parser root" evs 0 "bytecode root"] e by (simp add: visit_def parser_def)
  then obtain op ops where "befores evs = (0, op) # ops" using r(1) by (cases "befores evs") auto
  then have "0 \<in> fst ` set (sc_ops sc)" using flow_scan_exact(1) [OF e fs(2)] by (simp add: sc(3) fs(1) set_insort_key image_Un)
  moreover have "sorted (map fst (sc_ops sc))" unfolding sc(3) by (rule sorted_fst) simp
  ultimately show ?thesis
    using sc(1) body_runs_entry [OF e r sc(1), of "map (\<lambda>(s, base, seg). (base, base + of_nat (length (bytecode s)), seg)) (seg_insts 0 segs)"]
    by (simp add: sc(4) body_insts_def)
qed

section \<open>The built graph\<close>

abbreviation cfg_succs :: "Cfg \<Rightarrow> nat list list" where
  "cfg_succs c \<equiv> map cb_succs (c_blocks c)"

lemma cfg_build_ok:
  assumes "list_all (\<lambda>x. visit t (fst x) \<noteq> None) (body_insts root segs)" "bytecode root \<noteq> []" "length (bytecode root) < 2 ^ 32"
  shows "\<exists>sc c bodies. scan_body t root segs = Some sc \<and> body_runs sc \<noteq> [] \<and> cfg_build t root segs = Some c \<and>
    graph_wf (body_succs segs sc) \<and> cfg_succs c = body_succs segs sc \<and> map cb_preds (c_blocks c) = preds_of (cfg_succs c) \<and>
    map (\<lambda>b. (cb_start b, cb_end b)) (c_blocks c) = map (\<lambda>(r, _). (fst (hd r), run_end r)) (body_runs sc) \<and>
    c_span c = runs_span (body_runs sc) \<and>
    dominance_ok (cfg_succs c) (c_idom c) (c_dom_depth c) \<and>
    loops_ok (cfg_succs c) bodies \<and> c_loop_depth c = loop_depths (length (c_blocks c)) bodies \<and>
    c_loop_hdr c = loop_hdrs (length (c_blocks c)) bodies (c_loop_depth c) \<and> c_headers c = loop_headers (length (c_blocks c)) bodies \<and>
    c_loop_members c = set (concat (map (\<lambda>h. map (Pair h) (the (bodies h))) (c_headers c)))"
proof -
  from body_runs_nonempty [OF assms] obtain sc where sc: "scan_body t root segs = Some sc" "body_runs sc \<noteq> []" by blast
  let ?runs = "body_runs sc" and ?succs = "body_succs segs sc"
  note wf = body_succs_wf [OF sc(2), of segs] and len = body_succs_length [of segs sc]
  from dominators_ok [OF wf] obtain idom depth where
    d: "dominators ?succs (preds_of ?succs) = Some (idom, depth)" "dominance_ok ?succs idom depth" by blast
  from loop_bodies_ok [OF wf d(2)] obtain bodies where
    l: "loop_bodies ?succs (preds_of ?succs) idom depth [0..<length ?runs] Map.empty = Some bodies" "loops_ok ?succs bodies"
    unfolding len by blast
  obtain c where c: "cfg_build t root segs = Some c" using sc d l by (simp add: cfg_build_def Let_def)
  then have ceq: "c_blocks c = map (\<lambda>b. \<lparr>cb_start = fst (hd (fst (?runs ! b))), cb_end = run_end (fst (?runs ! b)),
      cb_succs = ?succs ! b, cb_preds = preds_of ?succs ! b\<rparr>) [0..<length ?runs]"
    "c_span c = runs_span ?runs" "c_idom c = idom" "c_dom_depth c = depth" "c_loop_depth c = loop_depths (length ?runs) bodies"
    "c_loop_hdr c = loop_hdrs (length ?runs) bodies (loop_depths (length ?runs) bodies)" "c_headers c = loop_headers (length ?runs) bodies"
    "c_loop_members c = set (concat (map (\<lambda>h. map (Pair h) (the (bodies h))) (loop_headers (length ?runs) bodies)))"
    using sc d l by (simp_all add: cfg_build_def Let_def, simp_all add: eq_commute [of _ c])
  have s: "cfg_succs c = ?succs" unfolding ceq(1) len [symmetric] by (simp add: comp_def map_nth)
  have p: "map cb_preds (c_blocks c) = preds_of ?succs"
    unfolding ceq(1) len [symmetric] by (intro nth_equalityI) (simp_all add: preds_of_def)
  have n: "length (c_blocks c) = length ?runs" by (simp add: ceq(1))
  have se: "map (\<lambda>b. (cb_start b, cb_end b)) (c_blocks c) = map (\<lambda>(r, _). (fst (hd r), run_end r)) ?runs"
    unfolding ceq(1) by (intro nth_equalityI) (simp_all add: case_prod_unfold)
  show ?thesis
    by (intro exI [of _ sc] exI [of _ c] exI [of _ bodies] conjI) (simp_all only: sc c s p n se ceq(2-8) wf d l simp_thms not_False_eq_True)
qed

section \<open>Blocks are the runs of the instances\<close>

text \<open>The ops of an instance fill its part of the pc space.\<close>

lemma scanned_contig:
  assumes "scanned t x fs" "visit t (fst x) \<noteq> None" "inst_end x < 2 ^ 32"
  shows "contig (unat (fst (snd x))) (fs_ops fs) (inst_end x)"
proof -
  from assms(2) obtain evs where e: "visit t (fst x) = Some evs" by blast
  have "tiles t (bytecode (fst x)) 0 (befores evs)"
    using visit_from_tiles [of t 0 "parser (fst x)" evs 0 "bytecode (fst x)"] e by (simp add: visit_def parser_def)
  from tiles_contig [OF this assms(3)] flow_scan_exact(1) [OF e assms(1) [unfolded scanned_def]] show ?thesis by simp
qed

definition apart :: "nat \<times> nat \<Rightarrow> nat \<times> nat \<Rightarrow> bool" where
  "apart x y = (snd x \<le> fst y \<or> snd y \<le> fst x)"

lemma filter_concat_at:
  assumes "i < length xss" "\<forall>y\<in>set (xss ! i). P y" "\<And>j y. j < length xss \<Longrightarrow> j \<noteq> i \<Longrightarrow> y \<in> set (xss ! j) \<Longrightarrow> \<not> P y"
  shows "filter P (concat xss) = xss ! i"
proof -
  have a: "filter P (concat (take i xss)) = []"
  proof -
    have "\<not> P y" if "k < length (take i xss)" "y \<in> set (take i xss ! k)" for k y
      using assms(1) assms(3) [of k y] that by simp
    then show ?thesis by (auto simp: filter_empty_conv in_set_conv_nth [of _ "take i xss"])
  qed
  have b: "filter P (concat (drop (Suc i) xss)) = []"
  proof -
    have "\<not> P y" if "k < length (drop (Suc i) xss)" "y \<in> set (drop (Suc i) xss ! k)" for k y
      using assms(3) [of "Suc i + k" y] that by simp
    then show ?thesis by (auto simp: filter_empty_conv in_set_conv_nth [of _ "drop (Suc i) xss"])
  qed
  have "concat xss = concat (take i xss) @ xss ! i @ concat (drop (Suc i) xss)"
    using arg_cong [OF id_take_nth_drop [OF assms(1)], of concat] by simp
  with a b assms(2) show ?thesis by simp
qed

lemma instance_ops_exact:
  assumes L: "layout_ok root segs" and S: "list_all2 (scanned t) (body_insts root segs) fss"
    and v: "list_all (\<lambda>x. visit t (fst x) \<noteq> None) (body_insts root segs)" and i: "i < length fss"
  defines "x \<equiv> body_insts root segs ! i"
  shows "instance_ops (sort (concat (map fs_ops fss))) (fst (snd x)) (fst (snd x) + of_nat (length (bytecode (fst x)))) = fs_ops (fss ! i)"
proof -
  let ?xs = "body_insts root segs"
  let ?fin = "fst (snd x) + of_nat (length (bytecode (fst x)))"
  have len: "length ?xs = length fss" using S by (rule list_all2_lengthD)
  have con: "contig (unat (fst (snd (?xs ! j)))) (fs_ops (fss ! j)) (inst_end (?xs ! j))" if "j < length fss" for j
    using that S v L len by (intro scanned_contig) (auto simp: list_all2_conv_all_nth list_all_length layout_ok_def)
  have lt: "inst_end x < 2 ^ 32" using L i len by (auto simp: layout_ok_def list_all_length x_def)
  have fin: "unat ?fin = inst_end x"
    using lt by (simp add: unat_word_ariths unat_of_nat take_bit_nat_eq_self)
  have ap: "inst_end x \<le> unat (fst (snd (?xs ! j))) \<or> inst_end (?xs ! j) \<le> unat (fst (snd x))" if "j < length fss" "j \<noteq> i" for j
  proof -
    have "sorted_wrt (\<lambda>x y. inst_end x \<le> unat (fst (snd y)) \<or> inst_end y \<le> unat (fst (snd x))) ?xs"
      using L by (simp only: layout_ok_def)
    note w = sorted_wrt_nth_less [OF this]
    show ?thesis using w [of i j] w [of j i] that i len unfolding x_def by (cases "i < j") auto
  qed
  let ?P = "\<lambda>y. fst (snd x) \<le> fst y \<and> fst y < ?fin"
  have P: "?P y \<longleftrightarrow> unat (fst (snd x)) \<le> unat (fst y) \<and> unat (fst y) < inst_end x" for y :: "Pc \<times> u32"
    unfolding word_le_nat_alt word_less_nat_alt fin ..
  have pos: "0 < unat (snd y)" if "contig k ops m" "y \<in> set ops" for k ops m y
    using that by (induction k ops m rule: contig.induct) auto
  have "filter ?P (concat (map fs_ops fss)) = map fs_ops fss ! i"
  proof (rule filter_concat_at)
    show "\<forall>y\<in>set (map fs_ops fss ! i). ?P y"
    proof
      fix y assume "y \<in> set (map fs_ops fss ! i)"
      then have "y \<in> set (fs_ops (fss ! i))" using i by simp
      with contig_range [OF con [OF i], of "fst y" "snd y", folded x_def] pos [OF con [OF i]] show "?P y" unfolding P by fastforce
    qed
  next
    fix j y assume j: "j < length (map fs_ops fss)" "j \<noteq> i" "y \<in> set (map fs_ops fss ! j)"
    then have "y \<in> set (fs_ops (fss ! j))" "j < length fss" by simp_all
    with contig_range [OF con, of j "fst y" "snd y"] pos [OF con, of j y] ap [of j] j(2) show "\<not> ?P y" unfolding P by fastforce
  qed (use i in simp)
  then have "filter ?P (sort (concat (map fs_ops fss))) = sort (fs_ops (fss ! i))" using i by (simp add: filter_sort)
  also have "\<dots> = fs_ops (fss ! i)" by (rule sorted_sort_id) (rule asc_sorted [OF contig_sorted [OF con [OF i]]])
  finally have f: "filter ?P (sort (concat (map fs_ops fss))) = fs_ops (fss ! i)" .
  have "fst (snd x) \<le> ?fin" unfolding word_le_nat_alt fin by simp
  from instance_ops_filter [OF sorted_fst this] f show ?thesis by simp
qed

lemma body_runs_exact:
  assumes L: "layout_ok root segs" and S: "list_all2 (scanned t) (body_insts root segs) fss"
    and v: "list_all (\<lambda>x. visit t (fst x) \<noteq> None) (body_insts root segs)"
    and sc: "sc_ops sc = sort (concat (map fs_ops fss))"
      "sc_instance sc = map (\<lambda>(s, base, seg). (base, base + of_nat (length (bytecode s)), seg)) (body_insts root segs)"
  shows "body_runs sc = concat (map (\<lambda>(x, fs). map (\<lambda>r. (r, snd (snd x))) (cut_runs (sc_leaders sc) (fs_ops fs))) (zip (body_insts root segs) fss))"
proof -
  have len: "length (body_insts root segs) = length fss" using S by (rule list_all2_lengthD)
  have "map (\<lambda>(base, fin, seg). map (\<lambda>r. (r, seg)) (cut_runs (sc_leaders sc) (instance_ops (sc_ops sc) base fin))) (sc_instance sc) =
    map (\<lambda>(x, fs). map (\<lambda>r. (r, snd (snd x))) (cut_runs (sc_leaders sc) (fs_ops fs))) (zip (body_insts root segs) fss)"
    (is "?A = ?B")
  proof (rule nth_equalityI)
    show "length ?A = length ?B" using len by (simp add: sc(2))
    fix i assume "i < length ?A"
    then have i: "i < length fss" "i < length (body_insts root segs)" using len by (simp_all add: sc(2))
    show "?A ! i = ?B ! i"
      using instance_ops_exact [OF L S v i(1)] i by (simp add: sc case_prod_unfold)
  qed
  then show ?thesis by (simp only: body_runs_def)
qed

section \<open>Spans\<close>

lemma contig_end:
  assumes "contig k ops m" "ops \<noteq> []" "m < 2 ^ 32"
  shows "unat (run_end ops) = m" "unat (fst (hd ops)) = k" "k < m"
proof -
  from assms(2) obtain ys pc len where o: "ops = ys @ [(pc, len)]" by (metis append_butlast_last_id prod.exhaust)
  with assms(1) have m: "unat pc + unat len = m" "0 < unat len" by (auto simp: contig_append)
  show "unat (run_end ops) = m" using m assms(3) o by (simp add: run_end_def unat_word_ariths)
  show h: "unat (fst (hd ops)) = k" using assms(1,2) by (cases ops) auto
  show "k < m" using contig_range [OF assms(1), of pc len] m o by simp
qed

text \<open>Disjoint non-empty spans: the search by start finds the one span around a pc.\<close>

definition spans_ok :: "(Pc \<times> Pc \<times> nat) list \<Rightarrow> bool" where
  "spans_ok sp = (sorted sp \<and> (\<forall>(s, e, b)\<in>set sp. s < e) \<and>
     (\<forall>(s, e, b)\<in>set sp. \<forall>(s', e', b')\<in>set sp. (s, e, b) \<noteq> (s', e', b') \<longrightarrow> e \<le> s' \<or> e' \<le> s))"

lemma span_block_exact:
  assumes "spans_ok sp"
  shows "span_block sp pc = Some b \<longleftrightarrow> (\<exists>s e. (s, e, b) \<in> set sp \<and> s \<le> pc \<and> pc < e)"
proof
  assume "\<exists>s e. (s, e, b) \<in> set sp \<and> s \<le> pc \<and> pc < e"
  then obtain s e where x: "(s, e, b) \<in> set sp" "s \<le> pc" "pc < e" by blast
  then obtain k where k: "k < length sp" "sp ! k = (s, e, b)" by (auto simp: in_set_conv_nth)
  let ?tw = "takeWhile (\<lambda>(s, _, _). s \<le> pc) sp"
  have le: "fst (sp ! i) \<le> fst (sp ! j)" if "i \<le> j" "j < length sp" for i j
    using sorted_nth_mono [OF _ that, of] assms that by (auto simp: spans_ok_def less_eq_prod_def le_less)
  have "k < length ?tw"
  proof (rule ccontr)
    assume "\<not> k < length ?tw"
    then have "length ?tw < length sp" "length ?tw \<le> k" using k by (auto simp: length_takeWhile_le)
    then have "\<not> fst (sp ! length ?tw) \<le> pc" using nth_length_takeWhile [of "\<lambda>(s, _, _). s \<le> pc" sp] by (auto simp: case_prod_unfold)
    with le [of "length ?tw" k] k x(2) \<open>length ?tw \<le> k\<close> show False by simp
  qed
  let ?j = "length ?tw - 1"
  have j: "?j < length ?tw" "?j < length sp" "k \<le> ?j" using \<open>k < length ?tw\<close> length_takeWhile_le [of "\<lambda>(s, _, _). s \<le> pc" sp] by linarith+
  obtain s' e' b' where j': "sp ! ?j = (s', e', b')" by (cases "sp ! ?j")
  have "?tw ! ?j \<in> set ?tw" using j(1) by (rule nth_mem)
  then have s': "s' \<le> pc" using j' j(1) by (auto simp: takeWhile_nth dest: set_takeWhileD)
  have ss: "s \<le> s'" using le [OF j(3,2)] k(2) j' by simp
  have m': "(s', e', b') \<in> set sp" using j(2) j' by (metis nth_mem)
  have "s' < e'" using assms m' by (auto simp: spans_ok_def)
  moreover have "(s, e, b) \<noteq> (s', e', b') \<Longrightarrow> e \<le> s' \<or> e' \<le> s"
    using assms x(1) m' unfolding spans_ok_def by blast
  ultimately have "(s, e, b) = (s', e', b')" using s' ss x(3) by (metis leD le_less_trans less_le_trans)
  moreover have "?tw \<noteq> []" using j(1) by auto
  ultimately show "span_block sp pc = Some b" using j' x(3) by (simp add: span_block_def partition_point_def Let_def)
qed (rule span_block_mem)

section \<open>The blocks\<close>

text \<open>A block: a run of adjacent ops in one instance, of which only the last has a flow.\<close>

definition block_ok :: "Scans \<Rightarrow> (Pc \<times> u32) list \<Rightarrow> bool" where
  "block_ok sc r =
     (r \<noteq> [] \<and> contig (unat (fst (hd r))) r (unat (run_end r)) \<and> (\<forall>y\<in>set (butlast r). sc_flow sc (fst y) = None) \<and>
      (\<forall>y\<in>set (tl r). fst y \<notin> set (sc_leaders sc)))"

lemma cut_runs_split: "r \<in> set (cut_runs L ops) \<Longrightarrow> \<exists>xs ys. ops = xs @ r @ ys"
proof (induction L ops rule: cut_runs.induct)
  case (2 L x xs)
  let ?t = "takeWhile (\<lambda>y. fst y \<notin> set L) xs" and ?d = "dropWhile (\<lambda>y. fst y \<notin> set L) xs"
  from "2.prems" consider "r = x # ?t" | "r \<in> set (cut_runs L ?d)" by auto
  then show ?case
  proof cases
    case 1
    then show ?thesis by (intro exI [of _ "[]"] exI [of _ ?d]) simp
  next
    case 2
    from "2.IH" [OF this] obtain a b where "?d = a @ r @ b" by blast
    then show ?thesis 
      by (intro exI [of _ "x # ?t @ a"] exI [of _ b]) (simp only: append_Cons append_assoc flip: \<open>?d = a @ r @ b\<close>, simp only: takeWhile_dropWhile_id)
  qed
qed simp

lemma run_contig:
  assumes "contig k ops m" "m < 2 ^ 32" "r \<in> set (cut_runs L ops)"
  shows "r \<noteq> []" "contig (unat (fst (hd r))) r (unat (run_end r))" "k \<le> unat (fst (hd r))" "unat (run_end r) \<le> m"
proof -
  from cut_runs_split [OF assms(3)] obtain xs ys where o: "ops = xs @ r @ ys" by blast
  with assms(1) obtain i j where c: "contig k xs i" "contig i r j" "contig j ys m" by (auto simp: contig_append)
  show n: "r \<noteq> []" using cut_runs_nonempty [OF assms(3)] .
  have "j < 2 ^ 32" using contig_le [OF c(3)] assms(2) by simp
  note e = contig_end [OF c(2) n this]
  show "contig (unat (fst (hd r))) r (unat (run_end r))" "k \<le> unat (fst (hd r))" "unat (run_end r) \<le> m"
    using c e contig_le by simp_all
qed

abbreviation run_span :: "(Pc \<times> u32) list \<Rightarrow> nat \<times> nat" where
  "run_span r \<equiv> (unat (fst (hd r)), unat (run_end r))"

lemma sorted_wrt_concat:
  assumes "\<forall>xs\<in>set xss. sorted_wrt P xs" "sorted_wrt (\<lambda>xs ys. \<forall>x\<in>set xs. \<forall>y\<in>set ys. P x y) xss"
  shows "sorted_wrt P (concat xss)"
  using assms by (induction xss) (auto simp: sorted_wrt_append)

lemma cut_runs_apart:
  assumes "contig k ops m" "m < 2 ^ 32"
  shows "sorted_wrt (\<lambda>r r'. apart (run_span r) (run_span r')) (cut_runs L ops)"
  using assms
proof (induction L ops arbitrary: k rule: cut_runs.induct)
  case (2 L x xs)
  let ?t = "takeWhile (\<lambda>y. fst y \<notin> set L) xs" and ?d = "dropWhile (\<lambda>y. fst y \<notin> set L) xs"
  have "contig k ((x # ?t) @ ?d) m" using "2.prems"(1) by (simp only: append_Cons takeWhile_dropWhile_id)
  then obtain j where j: "contig k (x # ?t) j" "contig j ?d m" by (auto simp only: contig_append)
  have "j < 2 ^ 32" using contig_le [OF j(2)] "2.prems"(2) by simp
  note e = contig_end(1) [OF j(1) _ this]
  have "apart (run_span (x # ?t)) (run_span r)" if "r \<in> set (cut_runs L ?d)" for r
    using run_contig(3) [OF j(2) "2.prems"(2) that] e by (simp add: apart_def)
  with "2.IH" [OF j(2) "2.prems"(2)] show ?case by simp
qed simp

text \<open>What the scans of a laid-out body give, as facts about its instances.\<close>

definition scanned_body :: "JSOps \<Rightarrow> Script \<Rightarrow> InlineSeg list \<Rightarrow> FlowScan list \<Rightarrow> Scans \<Rightarrow> bool" where
  "scanned_body t root segs fss sc =
     (layout_ok root segs \<and> list_all (\<lambda>x. visit t (fst x) \<noteq> None) (body_insts root segs) \<and>
      list_all2 (scanned t) (body_insts root segs) fss \<and> sc_ops sc = sort (concat (map fs_ops fss)) \<and>
      sc_instance sc = map (\<lambda>(s, base, seg). (base, base + of_nat (length (bytecode s)), seg)) (body_insts root segs) \<and>
      (\<forall>fs\<in>set fss. \<forall>y\<in>set (fs_ops fs). set (op_leaders (fs_flow fs) y) \<subseteq> set (sc_leaders sc)) \<and>
      (\<forall>pc f. sc_flow sc pc = Some f \<longrightarrow> (\<exists>fs\<in>set fss. fs_flow fs pc = Some f)))"

lemma scanned_body_facts:
  assumes "scanned_body t root segs fss sc"
  defines "xs \<equiv> body_insts root segs"
  shows "length xs = length fss"
    "\<And>i. i < length fss \<Longrightarrow> contig (unat (fst (snd (xs ! i)))) (fs_ops (fss ! i)) (inst_end (xs ! i))"
    "\<And>i. i < length fss \<Longrightarrow> inst_end (xs ! i) < 2 ^ 32"
    "\<And>i j. i < length fss \<Longrightarrow> j < length fss \<Longrightarrow> i \<noteq> j \<Longrightarrow>
       apart (unat (fst (snd (xs ! i))), inst_end (xs ! i)) (unat (fst (snd (xs ! j))), inst_end (xs ! j))"
    "\<And>i pc. i < length fss \<Longrightarrow> fs_flow (fss ! i) pc \<noteq> None \<Longrightarrow> pc \<in> fst ` set (fs_ops (fss ! i))"
proof -
  have L: "layout_ok root segs" and v: "list_all (\<lambda>x. visit t (fst x) \<noteq> None) xs" and S: "list_all2 (scanned t) xs fss"
    using assms by (auto simp: scanned_body_def)
  have lt: "list_all (\<lambda>x. inst_end x < 2 ^ 32) xs"
    and ap: "sorted_wrt (\<lambda>x y. inst_end x \<le> unat (fst (snd y)) \<or> inst_end y \<le> unat (fst (snd x))) xs"
    using L by (simp_all only: layout_ok_def xs_def)
  show len: "length xs = length fss" using S by (rule list_all2_lengthD)
  show e: "inst_end (xs ! i) < 2 ^ 32" if "i < length fss" for i
    using lt that len by (simp add: list_all_length)
  have vi: "visit t (fst (xs ! i)) \<noteq> None" "scanned t (xs ! i) (fss ! i)" if "i < length fss" for i
    using that S v len by (auto simp: list_all2_conv_all_nth list_all_length)
  show "contig (unat (fst (snd (xs ! i)))) (fs_ops (fss ! i)) (inst_end (xs ! i))" if "i < length fss" for i
    using scanned_contig vi e that by blast
  show "apart (unat (fst (snd (xs ! i))), inst_end (xs ! i)) (unat (fst (snd (xs ! j))), inst_end (xs ! j))"
    if "i < length fss" "j < length fss" "i \<noteq> j" for i j
    using sorted_wrt_nth_less [OF ap, of i j] sorted_wrt_nth_less [OF ap, of j i] that len unfolding apart_def by (cases "i < j") auto
  show "pc \<in> fst ` set (fs_ops (fss ! i))" if i: "i < length fss" "fs_flow (fss ! i) pc \<noteq> None" for i pc
  proof -
    from vi [OF i(1)] obtain evs where "visit t (fst (xs ! i)) = Some evs" by blast
    from flow_scan_exact(2) [OF this vi(2) [OF i(1), unfolded scanned_def]] i(2) show ?thesis by (auto simp: subset_iff)
  qed
qed

lemma scanned_body_leaders:
  assumes "scanned_body t root segs fss sc"
  shows "i < length fss \<Longrightarrow> y \<in> set (fs_ops (fss ! i)) \<Longrightarrow> set (op_leaders (fs_flow (fss ! i)) y) \<subseteq> set (sc_leaders sc)"
    "sc_flow sc pc = Some f \<Longrightarrow> \<exists>fs\<in>set fss. fs_flow fs pc = Some f"
  using assms nth_mem [of i fss] unfolding scanned_body_def by blast+

text \<open>An op's flow in the body is the flow its own instance gave it.\<close>

lemma flow_of_instance:
  assumes B: "scanned_body t root segs fss sc" and i: "i < length fss" and y: "y \<in> set (fs_ops (fss ! i))" and f: "sc_flow sc (fst y) = Some f"
  shows "fs_flow (fss ! i) (fst y) = Some f"
proof -
  note F = scanned_body_facts [OF B]
  from scanned_body_leaders(2) [OF B f] obtain j where j: "j < length fss" "fs_flow (fss ! j) (fst y) = Some f"
    by (auto simp: in_set_conv_nth)
  from F(5) [OF j(1)] j(2) obtain z where z: "z \<in> set (fs_ops (fss ! j))" "fst z = fst y" by force
  have z': "(fst y, snd z) \<in> set (fs_ops (fss ! j))" using z by (metis prod.collapse)
  have pos: "0 < unat (snd w)" if "contig k ops m" "w \<in> set ops" for k ops m and w :: "Pc \<times> u32"
    using that by (induction k ops m rule: contig.induct) auto
  have "i = j"
  proof (rule ccontr)
    assume "i \<noteq> j"
    with F(4) [OF i j(1)] contig_range [OF F(2) [OF i], of "fst y" "snd y"] contig_range [OF F(2) [OF j(1)], of "fst y" "snd z"]
      pos [OF F(2) [OF i] y] pos [OF F(2) [OF j(1)] z(1)] y z'
    show False by (simp add: apart_def)
  qed
  with j(2) show ?thesis by simp
qed

lemma op_leaders_end: "fl pc = Some f \<Longrightarrow> pc + len \<in> set (op_leaders fl (pc, len))"
  by (cases f) (auto simp: op_leaders_def)

lemma run_of_instance:
  assumes B: "scanned_body t root segs fss sc" and i: "i < length fss" and r: "r \<in> set (cut_runs (sc_leaders sc) (fs_ops (fss ! i)))"
  shows "block_ok sc r"
proof -
  note F = scanned_body_facts [OF B]
  note c = run_contig [OF F(2,3) [OF i] r]
  have inner: "fst y \<notin> set (sc_leaders sc)" if "y \<in> set (tl r)" for y using cut_runs_inner [OF r that] .
  have "sc_flow sc (fst y) = None" if "y \<in> set (butlast r)" for y
  proof (rule ccontr)
    assume "sc_flow sc (fst y) \<noteq> None"
    then obtain f where f: "sc_flow sc (fst y) = Some f" by blast
    from that obtain us vs where uv: "butlast r = us @ y # vs" by (metis split_list)
    have "r = butlast r @ [last r]" using c(1) by simp
    also have "\<dots> = us @ y # (vs @ [last r])" unfolding uv by simp
    finally obtain z zs where z: "r = us @ (fst y, snd y) # z # zs" by (cases "vs @ [last r]") auto
    have "z \<in> set (tl r)" unfolding z by (cases us) auto
    moreover have "fst z = fst y + snd y" using contig_next [of "unat (fst (hd r))" us "fst y" "snd y" z zs] c(2) z by simp
    moreover have y: "y \<in> set (fs_ops (fss ! i))" using cut_runs_split [OF r] z by auto
    moreover have "fst y + snd y \<in> set (op_leaders (fs_flow (fss ! i)) (fst y, snd y))"
      using flow_of_instance [OF B i y f] by (rule op_leaders_end)
    ultimately show False using inner [of z] scanned_body_leaders(1) [OF B i y] by (simp add: subset_iff)
  qed
  then show ?thesis using c(1,2) inner by (simp add: block_ok_def)
qed

lemma body_runs_index:
  assumes B: "scanned_body t root segs fss sc" and r: "(r, seg) \<in> set (body_runs sc)"
  obtains i where "i < length fss" "r \<in> set (cut_runs (sc_leaders sc) (fs_ops (fss ! i)))" "seg = snd (snd (body_insts root segs ! i))"
proof -
  from B have "body_runs sc = concat (map (\<lambda>(x, fs). map (\<lambda>r. (r, snd (snd x))) (cut_runs (sc_leaders sc) (fs_ops fs))) (zip (body_insts root segs) fss))"
    unfolding scanned_body_def by (intro body_runs_exact) (elim conjE; assumption)+
  with r obtain x fs where x: "(x, fs) \<in> set (zip (body_insts root segs) fss)" "r \<in> set (cut_runs (sc_leaders sc) (fs_ops fs))" "seg = snd (snd x)"
    by auto
  from x(1) obtain i where "i < length fss" "fss ! i = fs" "body_insts root segs ! i = x"
    by (auto simp: set_zip)
  with x(2,3) that [of i] show thesis by simp
qed

lemma body_runs_apart:
  assumes B: "scanned_body t root segs fss sc"
  shows "sorted_wrt (\<lambda>r r'. apart (run_span (fst r)) (run_span (fst r'))) (body_runs sc)"
proof -
  note F = scanned_body_facts [OF B]
  let ?f = "\<lambda>i. map (\<lambda>r. (r, snd (snd (body_insts root segs ! i)))) (cut_runs (sc_leaders sc) (fs_ops (fss ! i)))"
  have "body_runs sc = concat (map (\<lambda>(x, fs). map (\<lambda>r. (r, snd (snd x))) (cut_runs (sc_leaders sc) (fs_ops fs))) (zip (body_insts root segs) fss))"
    using B unfolding scanned_body_def by (intro body_runs_exact) (elim conjE; assumption)+
  also have "map (\<lambda>(x, fs). map (\<lambda>r. (r, snd (snd x))) (cut_runs (sc_leaders sc) (fs_ops fs))) (zip (body_insts root segs) fss) = map ?f [0..<length fss]"
    by (intro nth_equalityI) (simp_all add: F(1))
  finally have eq: "body_runs sc = concat (map ?f [0..<length fss])" .
  have in_inst: "unat (fst (snd (body_insts root segs ! i))) \<le> fst (run_span (fst r)) \<and> snd (run_span (fst r)) \<le> inst_end (body_insts root segs ! i)"
    if "i < length fss" "r \<in> set (?f i)" for i r
    using run_contig(3,4) [OF F(2,3) [OF that(1)], of "fst r"] that(2) by auto
  show ?thesis unfolding eq
  proof (rule sorted_wrt_concat)
    show "\<forall>xs\<in>set (map ?f [0..<length fss]). sorted_wrt (\<lambda>r r'. apart (run_span (fst r)) (run_span (fst r'))) xs"
      using cut_runs_apart [OF F(2,3)] by (auto simp: sorted_wrt_map)
    have cross: "\<forall>r\<in>set (?f i). \<forall>r'\<in>set (?f j). apart (run_span (fst r)) (run_span (fst r'))"
      if "i < length fss" "j < length fss" "i \<noteq> j" for i j
    proof (intro ballI)
      fix r r' assume "r \<in> set (?f i)" "r' \<in> set (?f j)"
      then show "apart (run_span (fst r)) (run_span (fst r'))"
        using F(4) [OF that] in_inst [OF that(1)] in_inst [OF that(2)] unfolding apart_def fst_conv snd_conv by (meson order.trans)
    qed
    show "sorted_wrt (\<lambda>xs ys. \<forall>x\<in>set xs. \<forall>y\<in>set ys. apart (run_span (fst x)) (run_span (fst y))) (map ?f [0..<length fss])"
      unfolding sorted_wrt_map by (rule sorted_wrt_mono_rel [OF _ sorted_wrt_upt], rule cross) auto
  qed
qed

lemma runs_span_ok:
  assumes B: "scanned_body t root segs fss sc"
  shows "spans_ok (runs_span (body_runs sc))"
proof -
  let ?runs = "body_runs sc"
  note ap = body_runs_apart [OF B]
  have lt: "fst (hd (fst (?runs ! b))) < run_end (fst (?runs ! b))" if b: "b < length ?runs" for b
  proof -
    obtain r seg where r: "?runs ! b = (r, seg)" by (cases "?runs ! b")
    with nth_mem [OF b] obtain i where "i < length fss" "r \<in> set (cut_runs (sc_leaders sc) (fs_ops (fss ! i)))"
      by (auto elim: body_runs_index [OF B])
    from run_of_instance [OF B this] have "r \<noteq> []" "contig (unat (fst (hd r))) r (unat (run_end r))" by (auto simp: block_ok_def)
    from contig_end(3) [OF this(2,1)] r unsigned_less [of "run_end r"] show ?thesis by (simp add: word_less_nat_alt)
  qed
  have disj: "run_end (fst (?runs ! b)) \<le> fst (hd (fst (?runs ! c))) \<or> run_end (fst (?runs ! c)) \<le> fst (hd (fst (?runs ! b)))"
    if "b < length ?runs" "c < length ?runs" "b \<noteq> c" for b c
    using sorted_wrt_nth_less [OF ap, of b c] sorted_wrt_nth_less [OF ap, of c b] that
    by (cases "b < c") (auto simp: apart_def word_le_nat_alt)
  have "sorted (runs_span ?runs)" by (simp add: runs_span_def)
  then show ?thesis unfolding spans_ok_def runs_span_set using lt disj by auto
qed

lemma runs_block_exact:
  assumes "scanned_body t root segs fss sc"
  shows "span_block (runs_span (body_runs sc)) pc = Some b \<longleftrightarrow>
    b < length (body_runs sc) \<and> fst (hd (fst (body_runs sc ! b))) \<le> pc \<and> pc < run_end (fst (body_runs sc ! b))"
  unfolding span_block_exact [OF runs_span_ok [OF assms]] runs_span_set by auto

lemma body_runs_ops:
  assumes B: "scanned_body t root segs fss sc"
  shows "concat (map fst (body_runs sc)) = concat (map fs_ops fss)"
proof -
  have "body_runs sc = concat (map (\<lambda>(x, fs). map (\<lambda>r. (r, snd (snd x))) (cut_runs (sc_leaders sc) (fs_ops fs))) (zip (body_insts root segs) fss))"
    using B unfolding scanned_body_def by (intro body_runs_exact) (elim conjE; assumption)+
  moreover have "concat (map fst (concat (map (\<lambda>(x, fs). map (\<lambda>r. (r, snd (snd x))) (cut_runs L (fs_ops fs))) (zip xs fss)))) = concat (map fs_ops fss)"
    if "length xs = length fss" for xs :: "Inst list" and L
    using that
  proof (induction xs fss rule: list_induct2)
    case (Cons x xs fs fss)
    then show ?case by (simp add: comp_def cut_runs_concat)
  qed simp
  ultimately show ?thesis using scanned_body_facts(1) [OF B] by simp
qed

section \<open>Properties\<close>

abbreviation all_parse :: "JSOps \<Rightarrow> Script \<Rightarrow> InlineSeg list \<Rightarrow> bool" where
  "all_parse t root segs \<equiv> list_all (\<lambda>x. visit t (fst x) \<noteq> None) (body_insts root segs)"

text \<open>A body for the witnesses: the loop of the liveness example, with a copy of itself spliced in at pc 100.\<close>

definition loop_segs :: "InlineSeg list" where
  "loop_segs = [\<lparr>sg_base = 100, sg_script = loop_script, sg_call_pc = 16, sg_ret_pc = 21\<rparr>]"

lemma loop_body:
  "all_parse loop_ops loop_script loop_segs" "bytecode loop_script \<noteq> []" "length (bytecode loop_script) < 2 ^ 32"
  "layout_ok loop_script loop_segs"
  using loop_visit by (simp_all add: loop_segs_def body_insts_def layout_ok_def loop_script_def)

text \<open>C4. Dominance is exact. For every body whose scripts parse, the search and the sweeps stop; a block has an
  immediate dominator exactly when it is reachable from the entry; the query on two blocks answers whether every walk
  from the entry to the second passes the first; and the parent of a block is its closest strict dominator.\<close>

theorem cfg_dominance_exact:
  assumes "all_parse t root segs" "bytecode root \<noteq> []" "length (bytecode root) < 2 ^ 32"
  shows "\<exists>c. cfg_build t root segs = Some c \<and>
    (\<forall>b < length (c_blocks c). c_idom c ! b \<noteq> None \<longleftrightarrow> reach (cfg_succs c) b) \<and>
    (\<forall>a b. reach (cfg_succs c) b \<longrightarrow> block_dominates (c_idom c) (c_dom_depth c) a b = Some (dominates (cfg_succs c) a b)) \<and>
    (\<forall>b d. reach (cfg_succs c) b \<longrightarrow> b \<noteq> 0 \<longrightarrow> c_idom c ! b = Some d \<longrightarrow>
       d \<noteq> b \<and> dominates (cfg_succs c) d b \<and> (\<forall>a. dominates (cfg_succs c) a b \<longrightarrow> a \<noteq> b \<longrightarrow> dominates (cfg_succs c) a d))"
proof -
  from cfg_build_ok [OF assms] obtain c where c: "cfg_build t root segs = Some c" "dominance_ok (cfg_succs c) (c_idom c) (c_dom_depth c)"
    by (elim exE conjE) blast
  from c(2) [unfolded dominance_ok_def length_map] c(1) show ?thesis by (intro exI [of _ c]) blast
qed

theorem cfg_dominance_exact_witness:
  "\<exists>c. cfg_build loop_ops loop_script loop_segs = Some c \<and>
    (\<forall>a b. reach (cfg_succs c) b \<longrightarrow> block_dominates (c_idom c) (c_dom_depth c) a b = Some (dominates (cfg_succs c) a b))"
  using cfg_dominance_exact [OF loop_body(1-3)] by blast

text \<open>C9. The loop nest is exact. The headers are, in order, the targets of the back edges (edges into a dominator); the
  members recorded for a header are its natural loop, the blocks that reach one of its back edges without passing it;
  the depth of a block counts the loops around it modulo 65536, the width of its counter; its recorded header heads a loop around it of
  greatest recorded depth, and with fewer than 65536 loops of greatest nesting; and an edge
  leaves a loop exactly when its target is outside the loop recorded for its source.\<close>

theorem cfg_loops_exact:
  assumes "all_parse t root segs" "bytecode root \<noteq> []" "length (bytecode root) < 2 ^ 32"
  shows "\<exists>c. cfg_build t root segs = Some c \<and>
    c_headers c = filter (is_header (cfg_succs c)) [0..<length (c_blocks c)] \<and>
    c_loop_members c = {(h, b). is_header (cfg_succs c) h \<and> b \<in> natural_loop (cfg_succs c) h} \<and>
    (\<forall>b < length (c_blocks c). unat (c_loop_depth c ! b) = card (loops_around (cfg_succs c) b) mod 2 ^ 16 \<and>
       (case c_loop_hdr c ! b of
          None \<Rightarrow> loops_around (cfg_succs c) b = {}
        | Some h \<Rightarrow> h \<in> loops_around (cfg_succs c) b \<and> (\<forall>h'\<in>loops_around (cfg_succs c) b. c_loop_depth c ! h' \<le> c_loop_depth c ! h \<and>
            (length (c_headers c) < 2 ^ 16 \<longrightarrow> card (loops_around (cfg_succs c) h') \<le> card (loops_around (cfg_succs c) h))))) \<and>
    (\<forall>src dst b. cfg_block_of c src = Some b \<longrightarrow>
       leaves_loop c src dst = (\<exists>h. c_loop_hdr c ! b = Some h \<and> (\<forall>d. cfg_block_of c dst = Some d \<longrightarrow> d \<notin> natural_loop (cfg_succs c) h)))"
proof -
  from cfg_build_ok [OF assms] obtain sc c bodies where
    c: "cfg_build t root segs = Some c" and wf: "graph_wf (body_succs segs sc)" and s: "cfg_succs c = body_succs segs sc"
    and sp: "c_span c = runs_span (body_runs sc)" and L: "loops_ok (cfg_succs c) bodies"
    and dep: "c_loop_depth c = loop_depths (length (c_blocks c)) bodies" and hdr: "c_loop_hdr c = loop_hdrs (length (c_blocks c)) bodies (c_loop_depth c)"
    and hs: "c_headers c = loop_headers (length (c_blocks c)) bodies"
    and mem: "c_loop_members c = set (concat (map (\<lambda>h. map (Pair h) (the (bodies h))) (c_headers c)))"
    by (elim exE conjE) blast
  let ?S = "cfg_succs c"
  have len: "length ?S = length (c_blocks c)" "length (body_runs sc) = length (c_blocks c)"
    using arg_cong [OF s, of length] body_succs_length [of segs sc] by simp_all
  have W: "graph_wf ?S" using wf s by simp
  have H: "c_headers c = filter (is_header ?S) [0..<length (c_blocks c)]" using loop_headers_ok [OF W L] hs len by simp
  have M: "c_loop_members c = {(h, b). is_header ?S h \<and> b \<in> natural_loop ?S h}"
    unfolding mem H using header_body(2) [OF L] header_bound [OF W] len by auto
  have N: "case c_loop_hdr c ! b of
      None \<Rightarrow> loops_around ?S b = {}
    | Some h \<Rightarrow> h \<in> loops_around ?S b \<and> (\<forall>h'\<in>loops_around ?S b. c_loop_depth c ! h' \<le> c_loop_depth c ! h)"
    if "b < length (c_blocks c)" for b
    using loop_hdrs_exact [OF W L, of b "c_loop_depth c"] that unfolding len hdr [symmetric] by (simp add: loops_around_def split: option.splits)
  have Q: "leaves_loop c src dst = (\<exists>h. c_loop_hdr c ! b = Some h \<and> (\<forall>d. cfg_block_of c dst = Some d \<longrightarrow> d \<notin> natural_loop ?S h))"
    if b: "cfg_block_of c src = Some b" for src dst b
  proof -
    have "b < length (c_blocks c)" using span_block_bound [of "body_runs sc" src b] b sp len by (simp add: cfg_block_of_def)
    from N [OF this] b show ?thesis
      by (cases "c_loop_hdr c ! b"; cases "cfg_block_of c dst") (simp_all add: leaves_loop_def M loops_around_def)
  qed
  have D: "unat (c_loop_depth c ! b) = card (loops_around ?S b) mod 2 ^ 16" if "b < length (c_blocks c)" for b
    using loop_depths_exact [OF W L, of b] that unfolding len dep by (simp add: unsigned_of_nat take_bit_eq_mod)
  have below: "h < length (c_blocks c)" if "h \<in> loops_around ?S b" for h b using that header_bound [OF W] len by (auto simp: loops_around_def)
  have order: "card (loops_around ?S h') \<le> card (loops_around ?S h)"
    if "length (c_headers c) < 2 ^ 16" "c_loop_depth c ! h' \<le> c_loop_depth c ! h" "h < length (c_blocks c)" "h' < length (c_blocks c)" for h h'
    using that D loops_around_le [OF W, of h] loops_around_le [OF W, of h'] unfolding H len by (simp add: word_le_nat_alt)
  have "case c_loop_hdr c ! b of
      None \<Rightarrow> loops_around ?S b = {}
    | Some h \<Rightarrow> h \<in> loops_around ?S b \<and> (\<forall>h'\<in>loops_around ?S b. c_loop_depth c ! h' \<le> c_loop_depth c ! h \<and>
        (length (c_headers c) < 2 ^ 16 \<longrightarrow> card (loops_around ?S h') \<le> card (loops_around ?S h)))"
    if "b < length (c_blocks c)" for b
    using N [OF that] order below by (cases "c_loop_hdr c ! b") auto
  with c H M Q D show ?thesis by blast
qed

theorem cfg_loops_exact_witness:
  "\<exists>c. cfg_build loop_ops loop_script loop_segs = Some c \<and>
    c_headers c = filter (is_header (cfg_succs c)) [0..<length (c_blocks c)] \<and>
    c_loop_members c = {(h, b). is_header (cfg_succs c) h \<and> b \<in> natural_loop (cfg_succs c) h}"
  using cfg_loops_exact [OF loop_body(1-3)] by blast

text \<open>C14. The blocks partition the body. For every body whose scripts parse and whose instances lie apart in the pc
  space, each op stands in exactly one block; a block is a run of adjacent ops in which only the last one branches,
  returns or throws; the block query returns the block around a pc; and every branch target, landing pad, splice entry
  and return point at an op start is the start of its block.\<close>

theorem cfg_blocks_partition:
  assumes "all_parse t root segs" "bytecode root \<noteq> []" "layout_ok root segs"
  shows "\<exists>sc c. scan_body t root segs = Some sc \<and> cfg_build t root segs = Some c \<and>
    mset (concat (map fst (body_runs sc))) = mset (sc_ops sc) \<and>
    map (\<lambda>b. (cb_start b, cb_end b)) (c_blocks c) = map (\<lambda>(r, _). (fst (hd r), run_end r)) (body_runs sc) \<and>
    (\<forall>(r, _)\<in>set (body_runs sc). block_ok sc r) \<and>
    (\<forall>pc b. cfg_block_of c pc = Some b \<longleftrightarrow>
       b < length (c_blocks c) \<and> cb_start (c_blocks c ! b) \<le> pc \<and> pc < cb_end (c_blocks c ! b)) \<and>
    (\<forall>u\<in>set (sc_leaders sc) \<inter> fst ` set (sc_ops sc). \<exists>b < length (c_blocks c). cb_start (c_blocks c ! b) = u)"
proof -
  have "length (bytecode root) < 2 ^ 32" using assms(3) by (simp add: layout_ok_def body_insts_def)
  from cfg_build_ok [OF assms(1,2) this] obtain sc c where
    sc: "scan_body t root segs = Some sc" and c: "cfg_build t root segs = Some c"
    and se: "map (\<lambda>b. (cb_start b, cb_end b)) (c_blocks c) = map (\<lambda>(r, _). (fst (hd r), run_end r)) (body_runs sc)"
    and sp: "c_span c = runs_span (body_runs sc)" by (elim exE conjE) blast
  from scan_body_exact [OF assms(1)] sc assms obtain fss where B: "scanned_body t root segs fss sc"
    unfolding scanned_body_def by auto
  have len: "length (c_blocks c) = length (body_runs sc)" using arg_cong [OF se, of length] by simp
  have at: "cb_start (c_blocks c ! b) = fst (hd (fst (body_runs sc ! b)))" "cb_end (c_blocks c ! b) = run_end (fst (body_runs sc ! b))"
    if "b < length (body_runs sc)" for b
    using arg_cong [OF se, of "\<lambda>xs. xs ! b"] that len by (simp_all add: case_prod_unfold)
  have ops: "mset (concat (map fst (body_runs sc))) = mset (sc_ops sc)"
    using body_runs_ops [OF B] B by (simp add: scanned_body_def)
  have ok: "block_ok sc r" if "(r, seg) \<in> set (body_runs sc)" for r seg
    using body_runs_index [OF B that] run_of_instance [OF B] by blast
  have find: "cfg_block_of c pc = Some b \<longleftrightarrow>
      b < length (c_blocks c) \<and> cb_start (c_blocks c ! b) \<le> pc \<and> pc < cb_end (c_blocks c ! b)" for pc b
    using runs_block_exact [OF B, of pc b] at [of b] len by (auto simp: cfg_block_of_def sp)
  have lead: "\<exists>b < length (c_blocks c). cb_start (c_blocks c ! b) = u" if u: "u \<in> set (sc_leaders sc)" "u \<in> fst ` set (sc_ops sc)" for u
  proof -
    from u(2) obtain y where "y \<in> set (sc_ops sc)" and u': "fst y = u" by auto
    then have y: "y \<in> set (concat (map fst (body_runs sc)))" "fst y = u" unfolding mset_eq_setD [OF ops] by simp_all
    then obtain b where b: "b < length (body_runs sc)" "y \<in> set (fst (body_runs sc ! b))" by (auto simp: in_set_conv_nth [of _ "body_runs sc"])
    obtain r seg where r: "body_runs sc ! b = (r, seg)" by (cases "body_runs sc ! b")
    have "block_ok sc r" using ok [of r seg] nth_mem [OF b(1)] r by simp
    with u(1) y(2) have "y \<notin> set (tl r)" "r \<noteq> []" by (auto simp: block_ok_def)
    then have "y = hd r" using b(2) r by (cases r) auto
    then show ?thesis using at(1) [OF b(1)] b(1) r y(2) len by auto
  qed
  show ?thesis using sc c se ops ok find lead by (intro exI [of _ sc] exI [of _ c] conjI) auto
qed

theorem cfg_blocks_partition_witness:
  "\<exists>sc c. scan_body loop_ops loop_script loop_segs = Some sc \<and> cfg_build loop_ops loop_script loop_segs = Some c \<and>
    (\<forall>(r, _)\<in>set (body_runs sc). block_ok sc r) \<and>
    (\<forall>pc b. cfg_block_of c pc = Some b \<longleftrightarrow>
       b < length (c_blocks c) \<and> cb_start (c_blocks c ! b) \<le> pc \<and> pc < cb_end (c_blocks c ! b))"
  using cfg_blocks_partition [OF loop_body(1,2,4)] by (elim exE conjE) blast

end
