(* ===== verification/Ctx.thy ===== *)
theory Ctx
  imports Facts Intervals
begin

unbundle bit_operations_syntax

text \<open>
  The context lattice of the code generator, \<^verbatim>\<open>compiler/src/wasm/bbv/ctx.rs\<close>: what is known about the value in one
  frame slot (\<open>SlotCtx\<close>), the facts of a whole program point (\<open>Ctx\<close>), the operand of the simulated stack and the
  predicates the lowerings consult. Provenance is metadata: the code's equality does not see it, so equality of slots
  and contexts is \<open>slot_eq\<close> and \<open>ctx_eq\<close> here. The value an operand names belongs to the code emitter and is a type
  parameter; the census of provenance classes is kept, its printing is not.
\<close>

section \<open>Slot facts\<close>

datatype RangeBucket = RB_I32 | RB_I53 | RB_Top

fun rb_implies :: "RangeBucket \<Rightarrow> RangeBucket \<Rightarrow> bool" where
  "rb_implies RB_I32 _ = True"
| "rb_implies RB_I53 RB_I53 = True"
| "rb_implies RB_I53 RB_Top = True"
| "rb_implies RB_Top RB_Top = True"
| "rb_implies _ _ = False"

type_synonym Prov = u16

definition CLAIM_MASK :: u16 where "CLAIM_MASK = 0x00ff"
definition TEST_MASK :: u16 where "TEST_MASK = 0xff00"

definition prov_or :: "Prov \<Rightarrow> Prov \<Rightarrow> Prov" where
  "prov_or p q = p OR q"

definition prov_class :: "Prov \<Rightarrow> nat" where
  "prov_class p = (if p AND CLAIM_MASK \<noteq> 0 then 1 else 0) + 2 * (if p AND TEST_MASK \<noteq> 0 then 1 else 0)"

datatype SlotRef = SThis | SArg u16 | SLocal u32 | SGCell u32

text \<open>\<open>TypeDesc\<close> of \<^verbatim>\<open>view.rs\<close>.\<close>

record TypeDesc =
  td_prims :: prims
  td_outside :: bool

record SlotCtx =
  s_prims :: prims
  s_outside :: bool
  s_range :: RangeBucket
  s_cls :: "(u16 \<times> u16) option"
  s_cls_shallow :: bool
  s_cls_slots :: bool
  s_likely_cls :: "(u16 \<times> u16) option"
  s_ta :: "TaKind option"
  s_src :: "SlotRef option"
  s_iv :: "ValueRange option"
  s_iv_grow :: nat
  s_prov :: Prov

definition SLOT_TOP :: SlotCtx where
  "SLOT_TOP = \<lparr>s_prims = ALL_PRIMS, s_outside = True, s_range = RB_Top, s_cls = None, s_cls_shallow = False, s_cls_slots = False,
     s_likely_cls = None, s_ta = None, s_src = None, s_iv = None, s_iv_grow = 0, s_prov = 0\<rparr>"

definition slot_eq :: "SlotCtx \<Rightarrow> SlotCtx \<Rightarrow> bool" where
  "slot_eq s w = (s\<lparr>s_prov := 0\<rparr> = w\<lparr>s_prov := 0\<rparr>)"

definition slot_is_top :: "SlotCtx \<Rightarrow> bool" where
  "slot_is_top s = slot_eq s SLOT_TOP"

definition slot_with_prov :: "SlotCtx \<Rightarrow> Prov \<Rightarrow> SlotCtx" where
  "slot_with_prov s p = s\<lparr>s_prov := prov_or (s_prov s) p\<rparr>"

definition is_top_sans_iv :: "SlotCtx \<Rightarrow> bool" where
  "is_top_sans_iv s = slot_eq (s\<lparr>s_iv := None, s_iv_grow := 0, s_ta := None, s_likely_cls := None\<rparr>) SLOT_TOP"

definition is_exact_int32 :: "TypeDesc \<Rightarrow> bool" where
  "is_exact_int32 ty = (td_prims ty = PRIM_INT32 \<and> \<not> td_outside ty)"

definition slot_of :: "TypeDesc \<Rightarrow> RangeBucket \<Rightarrow> SlotCtx" where
  "slot_of ty rb =
     (if prims_is_empty (td_prims ty) \<and> \<not> td_outside ty then SLOT_TOP
      else SLOT_TOP\<lparr>s_prims := td_prims ty, s_outside := td_outside ty, s_range := (if is_exact_int32 ty then RB_I32 else rb)\<rparr>)"

definition to_ty :: "SlotCtx \<Rightarrow> TypeDesc" where
  "to_ty s = \<lparr>td_prims = s_prims s, td_outside = s_outside s\<rparr>"

text \<open>The refinement of class ranges and of intervals: no claim is the weakest.\<close>

fun cls_implies :: "(u16 \<times> u16) option \<Rightarrow> (u16 \<times> u16) option \<Rightarrow> bool" where
  "cls_implies _ None = True"
| "cls_implies (Some (slo, shi)) (Some (wlo, whi)) = (slo \<ge> wlo \<and> shi \<le> whi)"
| "cls_implies None (Some _) = False"

fun iv_implies :: "ValueRange option \<Rightarrow> ValueRange option \<Rightarrow> bool" where
  "iv_implies _ None = True"
| "iv_implies (Some s) (Some w) = (lo s \<ge> lo w \<and> hi s \<le> hi w)"
| "iv_implies None (Some _) = False"

definition slot_implies_sans_iv :: "SlotCtx \<Rightarrow> SlotCtx \<Rightarrow> bool" where
  "slot_implies_sans_iv s w =
     (subset_of (s_prims s) (s_prims w) \<and> (s_outside w \<or> \<not> s_outside s) \<and> rb_implies (s_range s) (s_range w) \<and>
      cls_implies (s_cls s) (s_cls w) \<and> (\<not> s_cls_shallow w \<or> s_cls_shallow s) \<and> (\<not> s_cls_slots w \<or> s_cls_slots s) \<and>
      (s_ta w = None \<or> s_ta s = s_ta w))"

definition slot_implies :: "SlotCtx \<Rightarrow> SlotCtx \<Rightarrow> bool" where
  "slot_implies s w = (slot_implies_sans_iv s w \<and> iv_implies (s_iv s) (s_iv w))"

definition slot_is_numeric :: "SlotCtx \<Rightarrow> bool" where
  "slot_is_numeric s =
     (\<not> prims_is_empty (s_prims s) \<and> subset_of (s_prims s) (prims_or PRIM_INT32 PRIM_DOUBLE) \<and> \<not> s_outside s)"

text \<open>\<open>Option::or\<close>.\<close>

definition opt_or :: "'a option \<Rightarrow> 'a option \<Rightarrow> 'a option" where
  "opt_or a b = (case a of None \<Rightarrow> b | Some x \<Rightarrow> Some x)"

fun cls_meet :: "(u16 \<times> u16) option \<Rightarrow> (u16 \<times> u16) option \<Rightarrow> (u16 \<times> u16) option" where
  "cls_meet None c = c"
| "cls_meet (Some c) None = Some c"
| "cls_meet (Some (alo, ahi)) (Some (blo, bhi)) =
     (if max alo blo \<le> min ahi bhi then Some (max alo blo, min ahi bhi) else Some (blo, bhi))"

fun iv_meet :: "ValueRange option \<Rightarrow> ValueRange option \<Rightarrow> ValueRange option" where
  "iv_meet None c = c"
| "iv_meet (Some c) None = Some c"
| "iv_meet (Some a) (Some b) =
     (if max (lo a) (lo b) \<le> min (hi a) (hi b) then Some (vr (max (lo a) (lo b)) (min (hi a) (hi b))) else Some b)"

definition slot_meet :: "SlotCtx \<Rightarrow> SlotCtx \<Rightarrow> SlotCtx option" where
  "slot_meet s w =
     (let prims = prims_and (s_prims s) (s_prims w); outside = (s_outside s \<and> s_outside w)
      in if prims_is_empty prims \<and> \<not> outside then None
         else Some \<lparr>s_prims = prims, s_outside = outside,
           s_range = (if rb_implies (s_range s) (s_range w) then s_range s else s_range w),
           s_cls = cls_meet (s_cls s) (s_cls w), s_cls_shallow = (s_cls_shallow s \<or> s_cls_shallow w),
           s_cls_slots = (s_cls_slots s \<or> s_cls_slots w), s_likely_cls = opt_or (s_likely_cls s) (s_likely_cls w),
           s_ta = opt_or (s_ta s) (s_ta w), s_src = opt_or (s_src s) (s_src w), s_iv = iv_meet (s_iv s) (s_iv w),
           s_iv_grow = max (s_iv_grow s) (s_iv_grow w), s_prov = prov_or (s_prov s) (s_prov w)\<rparr>)"

fun cls_join :: "(u16 \<times> u16) option \<Rightarrow> (u16 \<times> u16) option \<Rightarrow> (u16 \<times> u16) option" where
  "cls_join (Some (alo, ahi)) (Some (blo, bhi)) = Some (min alo blo, max ahi bhi)"
| "cls_join _ _ = None"

text \<open>The second argument is the stored side: its growth count drives the widening of the interval.\<close>

definition slot_join :: "SlotCtx \<Rightarrow> SlotCtx \<Rightarrow> SlotCtx" where
  "slot_join s w =
     (let (iv, grow) = iv_join_tolerant (s_iv s) (s_iv w) (s_iv_grow w)
      in \<lparr>s_prims = prims_or (s_prims s) (s_prims w), s_outside = (s_outside s \<or> s_outside w),
          s_range = (if rb_implies (s_range s) (s_range w) then s_range w else s_range s),
          s_cls = cls_join (s_cls s) (s_cls w), s_cls_shallow = (s_cls_shallow s \<and> s_cls_shallow w),
          s_cls_slots = (s_cls_slots s \<and> s_cls_slots w), s_likely_cls = cls_join (s_likely_cls s) (s_likely_cls w),
          s_ta = (if s_ta s = s_ta w then s_ta s else None), s_src = (if s_src s = s_src w then s_src s else None),
          s_iv = iv, s_iv_grow = grow, s_prov = prov_or (s_prov s) (s_prov w)\<rparr>)"

definition OBJ_ONLY_SLOT :: SlotCtx where
  "OBJ_ONLY_SLOT = SLOT_TOP\<lparr>s_prims := PRIMS_EMPTY\<rparr>"

definition INT32_SLOT :: SlotCtx where
  "INT32_SLOT = SLOT_TOP\<lparr>s_prims := PRIM_INT32, s_outside := False, s_range := RB_I32, s_iv := Some (vr I32_LO I32_HI)\<rparr>"

definition NUMERIC_SLOT :: SlotCtx where
  "NUMERIC_SLOT = SLOT_TOP\<lparr>s_prims := prims_or PRIM_INT32 PRIM_DOUBLE, s_outside := False\<rparr>"

definition DOUBLE_SLOT :: SlotCtx where
  "DOUBLE_SLOT = SLOT_TOP\<lparr>s_prims := PRIM_DOUBLE, s_outside := False\<rparr>"

definition STR_SLOT :: SlotCtx where
  "STR_SLOT = SLOT_TOP\<lparr>s_prims := PRIM_STRING, s_outside := False\<rparr>"

definition BOOL_SLOT :: SlotCtx where
  "BOOL_SLOT = SLOT_TOP\<lparr>s_prims := PRIM_BOOLEAN, s_outside := False\<rparr>"

definition SYM_SLOT :: SlotCtx where
  "SYM_SLOT = SLOT_TOP\<lparr>s_prims := PRIM_SYMBOL, s_outside := False\<rparr>"

section \<open>Entry claims\<close>

datatype ClaimShape = ShObj | ShInt32 | ShDouble | ShNumber | ShStr | ShBool | ShSym | ShTa TaKind

definition claim_shape :: "Claim \<Rightarrow> ClaimShape option" where
  "claim_shape c =
     (if claim_is_object c then Some (case claim_ta_kind c of Some k \<Rightarrow> ShTa k | None \<Rightarrow> ShObj)
      else let m = claim_prims c in
        if claim_double_first c \<and> m = prims_or PRIM_INT32 PRIM_DOUBLE then Some ShNumber
        else if m = PRIM_INT32 \<or> m = prims_or PRIM_INT32 PRIM_DOUBLE then Some ShInt32
        else if m = PRIM_DOUBLE then Some ShDouble
        else if m = PRIM_STRING then Some ShStr
        else if m = PRIM_BOOLEAN then Some ShBool
        else if m = PRIM_SYMBOL then Some ShSym
        else None)"

fun claim_slot_ctx :: "ClaimShape \<Rightarrow> SlotCtx" where
  "claim_slot_ctx ShObj = OBJ_ONLY_SLOT"
| "claim_slot_ctx ShInt32 = INT32_SLOT"
| "claim_slot_ctx ShDouble = DOUBLE_SLOT"
| "claim_slot_ctx ShNumber = NUMERIC_SLOT"
| "claim_slot_ctx ShStr = STR_SLOT"
| "claim_slot_ctx ShBool = BOOL_SLOT"
| "claim_slot_ctx ShSym = SYM_SLOT"
| "claim_slot_ctx (ShTa k) = OBJ_ONLY_SLOT\<lparr>s_ta := Some k\<rparr>"


section \<open>Contexts\<close>

text \<open>Popping from the end while the predicate holds.\<close>

definition trim_end :: "('a \<Rightarrow> bool) \<Rightarrow> 'a list \<Rightarrow> 'a list" where
  "trim_end p xs = rev (dropWhile p (rev xs))"

record CallerFrame =
  f_locals :: "SlotCtx list"
  f_args :: "SlotCtx list"

definition frame_default :: CallerFrame where
  "frame_default = \<lparr>f_locals = [], f_args = []\<rparr>"

definition frame_canon :: "CallerFrame \<Rightarrow> CallerFrame" where
  "frame_canon f = \<lparr>f_locals = trim_end slot_is_top (f_locals f), f_args = trim_end slot_is_top (f_args f)\<rparr>"

definition frame_is_empty :: "CallerFrame \<Rightarrow> bool" where
  "frame_is_empty f = (f_locals f = [] \<and> f_args f = [])"

datatype Track = Opt | Side | Dirty

fun track_code :: "Track \<Rightarrow> nat" where
  "track_code Opt = 0"
| "track_code Side = 1"
| "track_code Dirty = 2"

definition track_step :: "Track \<Rightarrow> Track \<Rightarrow> Track" where
  "track_step a b = (if track_code a \<le> track_code b then b else a)"

type_synonym gcells = "(u32 \<times> SlotCtx) list"

record Ctx =
  x_locals :: "SlotCtx list"
  x_stack :: "SlotCtx list"
  x_args :: "SlotCtx list"
  x_caller_locals :: "SlotCtx list"
  x_caller_args :: "SlotCtx list"
  x_outer :: "CallerFrame list"
  x_tokens :: "(u32 \<times> 64 word) list"
  x_carried :: "u32 list"
  x_gcells :: gcells
  x_track :: Track

definition ctx_default :: Ctx where
  "ctx_default = \<lparr>x_locals = [], x_stack = [], x_args = [], x_caller_locals = [], x_caller_args = [], x_outer = [],
     x_tokens = [], x_carried = [], x_gcells = [], x_track = Opt\<rparr>"

text \<open>\<open>iter().find\<close> on the binding facts.\<close>

definition gcell_find :: "u32 \<Rightarrow> gcells \<Rightarrow> SlotCtx option" where
  "gcell_find bid v = map_option snd (find (\<lambda>(x, _). x = bid) v)"

definition gcells_implies :: "gcells \<Rightarrow> gcells \<Rightarrow> bool \<Rightarrow> bool" where
  "gcells_implies a b sans_iv =
     list_all (\<lambda>(bid, w). case gcell_find bid a of
         None \<Rightarrow> False
       | Some s \<Rightarrow> if sans_iv then slot_implies_sans_iv s w else slot_implies s w) b"

definition gcells_join :: "gcells \<Rightarrow> gcells \<Rightarrow> gcells" where
  "gcells_join a b =
     concat (map (\<lambda>(bid, s). case gcell_find bid b of
         None \<Rightarrow> []
       | Some w \<Rightarrow> (let j = slot_join s w in if slot_is_top j then [] else [(bid, j)])) a)"

definition gcells_canon :: "gcells \<Rightarrow> gcells" where
  "gcells_canon v = sort_key fst (filter (\<lambda>(_, s). \<not> slot_is_top s) v)"

definition canon :: "Ctx \<Rightarrow> Ctx" where
  "canon c = c\<lparr>
     x_locals := trim_end slot_is_top (x_locals c),
     x_stack := trim_end slot_is_top (x_stack c),
     x_args := trim_end slot_is_top (x_args c),
     x_caller_locals := trim_end slot_is_top (x_caller_locals c),
     x_caller_args := trim_end slot_is_top (x_caller_args c),
     x_outer := trim_end frame_is_empty (map frame_canon (x_outer c)),
     x_gcells := gcells_canon (x_gcells c)\<rparr>"

text \<open>\<open>get(i).copied().unwrap_or(TOP)\<close> and its counterpart on the caller frames.\<close>

definition slot_at :: "SlotCtx list \<Rightarrow> nat \<Rightarrow> SlotCtx" where
  "slot_at v i = (if i < length v then v ! i else SLOT_TOP)"

definition frame_at :: "CallerFrame list \<Rightarrow> nat \<Rightarrow> CallerFrame" where
  "frame_at v i = (if i < length v then v ! i else frame_default)"

definition ctx_local :: "Ctx \<Rightarrow> nat \<Rightarrow> SlotCtx" where
  "ctx_local c i = slot_at (x_locals c) i"

definition stack_slot :: "Ctx \<Rightarrow> nat \<Rightarrow> SlotCtx" where
  "stack_slot c i = slot_at (x_stack c) i"

definition ctx_arg :: "Ctx \<Rightarrow> nat \<Rightarrow> SlotCtx" where
  "ctx_arg c i = slot_at (x_args c) i"

definition slots_le :: "(SlotCtx \<Rightarrow> SlotCtx \<Rightarrow> bool) \<Rightarrow> SlotCtx list \<Rightarrow> SlotCtx list \<Rightarrow> bool" where
  "slots_le le a b = list_all (\<lambda>i. le (slot_at a i) (slot_at b i)) [0..<max (length a) (length b)]"

definition outer_le :: "(SlotCtx \<Rightarrow> SlotCtx \<Rightarrow> bool) \<Rightarrow> CallerFrame list \<Rightarrow> CallerFrame list \<Rightarrow> bool" where
  "outer_le le a b =
     list_all (\<lambda>i. slots_le le (f_locals (frame_at a i)) (f_locals (frame_at b i)) \<and>
                   slots_le le (f_args (frame_at a i)) (f_args (frame_at b i))) [0..<max (length a) (length b)]"

definition ctx_le :: "(SlotCtx \<Rightarrow> SlotCtx \<Rightarrow> bool) \<Rightarrow> bool \<Rightarrow> Ctx \<Rightarrow> Ctx \<Rightarrow> bool" where
  "ctx_le le sans_iv c w =
     (x_tokens c = x_tokens w \<and> x_track c = x_track w \<and> slots_le le (x_locals c) (x_locals w) \<and>
      slots_le le (x_stack c) (x_stack w) \<and> slots_le le (x_args c) (x_args w) \<and>
      slots_le le (x_caller_locals c) (x_caller_locals w) \<and> slots_le le (x_caller_args c) (x_caller_args w) \<and>
      outer_le le (x_outer c) (x_outer w) \<and> gcells_implies (x_gcells c) (x_gcells w) sans_iv)"

definition ctx_implies :: "Ctx \<Rightarrow> Ctx \<Rightarrow> bool" where
  "ctx_implies = ctx_le slot_implies False"

definition ctx_implies_sans_iv :: "Ctx \<Rightarrow> Ctx \<Rightarrow> bool" where
  "ctx_implies_sans_iv = ctx_le slot_implies_sans_iv True"

text \<open>Pointwise combination of two slot vectors, and of two stacks of caller frames.\<close>

definition slots_zip :: "(SlotCtx \<Rightarrow> SlotCtx \<Rightarrow> SlotCtx) \<Rightarrow> SlotCtx list \<Rightarrow> SlotCtx list \<Rightarrow> SlotCtx list" where
  "slots_zip f a b = map (\<lambda>i. f (slot_at a i) (slot_at b i)) [0..<max (length a) (length b)]"

definition outer_zip :: "(SlotCtx \<Rightarrow> SlotCtx \<Rightarrow> SlotCtx) \<Rightarrow> CallerFrame list \<Rightarrow> CallerFrame list \<Rightarrow> CallerFrame list" where
  "outer_zip f a b =
     map (\<lambda>i. \<lparr>f_locals = slots_zip f (f_locals (frame_at a i)) (f_locals (frame_at b i)),
               f_args = slots_zip f (f_args (frame_at a i)) (f_args (frame_at b i))\<rparr>) [0..<max (length a) (length b)]"

definition slot_join_iv :: "SlotCtx \<Rightarrow> SlotCtx \<Rightarrow> SlotCtx" where
  "slot_join_iv c av = (let (iv, grow) = iv_join_tolerant (s_iv av) (s_iv c) (s_iv_grow c) in c\<lparr>s_iv := iv, s_iv_grow := grow\<rparr>)"

definition join_iv_only :: "Ctx \<Rightarrow> Ctx \<Rightarrow> Ctx" where
  "join_iv_only c arr = canon \<lparr>
     x_locals = slots_zip slot_join_iv (x_locals c) (x_locals arr),
     x_stack = slots_zip slot_join_iv (x_stack c) (x_stack arr),
     x_args = slots_zip slot_join_iv (x_args c) (x_args arr),
     x_caller_locals = slots_zip slot_join_iv (x_caller_locals c) (x_caller_locals arr),
     x_caller_args = slots_zip slot_join_iv (x_caller_args c) (x_caller_args arr),
     x_outer = outer_zip slot_join_iv (x_outer c) (x_outer arr),
     x_tokens = x_tokens c, x_carried = x_carried c, x_gcells = x_gcells c, x_track = x_track c\<rparr>"

definition ctx_join :: "Ctx \<Rightarrow> Ctx \<Rightarrow> Ctx" where
  "ctx_join c w = canon \<lparr>
     x_locals = slots_zip slot_join (x_locals c) (x_locals w),
     x_stack = slots_zip slot_join (x_stack c) (x_stack w),
     x_args = slots_zip slot_join (x_args c) (x_args w),
     x_caller_locals = slots_zip slot_join (x_caller_locals c) (x_caller_locals w),
     x_caller_args = slots_zip slot_join (x_caller_args c) (x_caller_args w),
     x_outer = outer_zip slot_join (x_outer c) (x_outer w),
     x_tokens = x_tokens c, x_carried = x_carried w, x_gcells = gcells_join (x_gcells c) (x_gcells w), x_track = x_track c\<rparr>"

definition gen_collapsed :: "Ctx \<Rightarrow> Ctx" where
  "gen_collapsed c = c\<lparr>x_tokens := [], x_carried := [], x_track := Opt\<rparr>"

definition facts_only :: "Ctx \<Rightarrow> Ctx" where
  "facts_only c = c\<lparr>x_tokens := [], x_carried := [], x_track := Opt\<rparr>"

definition facts_free :: "Ctx \<Rightarrow> Ctx" where
  "facts_free c = ctx_default\<lparr>x_tokens := x_tokens c, x_carried := x_carried c, x_track := x_track c\<rparr>"

definition stripped :: "Ctx \<Rightarrow> Ctx" where
  "stripped c = ctx_default\<lparr>x_tokens := x_tokens c, x_track := x_track c\<rparr>"

text \<open>The code's equality of contexts.\<close>

definition slots_eq :: "SlotCtx list \<Rightarrow> SlotCtx list \<Rightarrow> bool" where
  "slots_eq = list_all2 slot_eq"

definition ctx_eq :: "Ctx \<Rightarrow> Ctx \<Rightarrow> bool" where
  "ctx_eq c w =
     (slots_eq (x_locals c) (x_locals w) \<and> slots_eq (x_stack c) (x_stack w) \<and> slots_eq (x_args c) (x_args w) \<and>
      slots_eq (x_caller_locals c) (x_caller_locals w) \<and> slots_eq (x_caller_args c) (x_caller_args w) \<and>
      list_all2 (\<lambda>f g. slots_eq (f_locals f) (f_locals g) \<and> slots_eq (f_args f) (f_args g)) (x_outer c) (x_outer w) \<and>
      x_tokens c = x_tokens w \<and> x_carried c = x_carried w \<and>
      list_all2 (\<lambda>(a, s) (b, w). a = b \<and> slot_eq s w) (x_gcells c) (x_gcells w) \<and> x_track c = x_track w)"

end
