(* ===== verification/Operand.thy ===== *)
theory Operand
  imports Ctx
begin

unbundle bit_operations_syntax

text \<open>
  The operand of the simulated stack and the type predicates of \<^verbatim>\<open>compiler/src/wasm/bbv/ctx.rs\<close>: representations, the
  projection of an operand onto a context slot and back, the interval an operand proves, and the tests the operator
  lowerings branch on. The compare kinds are those of \<^verbatim>\<open>abi.rs\<close>; a kind that is no compare panics (\<open>None\<close>).
\<close>

section \<open>Operands\<close>

datatype Repr = Boxed | ReprI32 | ReprF64 | ReprBool | ReprI64 | StrPtr | ObjPtr

record 'v Operand =
  o_val :: 'v
  o_repr :: Repr
  o_ty :: TypeDesc
  o_range :: RangeBucket
  o_cls :: "(u16 \<times> u16) option"
  o_cls_shallow :: bool
  o_cls_slots :: bool
  o_likely_cls :: "(u16 \<times> u16) option"
  o_ta :: "TaKind option"
  o_src :: "SlotRef option"
  o_iv :: Iv
  o_fresh :: bool
  o_prov :: Prov

definition derived_range :: "TypeDesc \<Rightarrow> RangeBucket \<Rightarrow> RangeBucket" where
  "derived_range ty rb = (if is_exact_int32 ty then RB_I32 else rb)"

definition ranged :: "'v \<Rightarrow> Repr \<Rightarrow> TypeDesc \<Rightarrow> RangeBucket \<Rightarrow> 'v Operand" where
  "ranged v r ty rb = \<lparr>o_val = v, o_repr = r, o_ty = ty, o_range = derived_range ty rb, o_cls = None, o_cls_shallow = False,
     o_cls_slots = False, o_likely_cls = None, o_ta = None, o_src = None, o_iv = None, o_fresh = False, o_prov = 0\<rparr>"

definition plain :: "'v \<Rightarrow> Repr \<Rightarrow> TypeDesc \<Rightarrow> 'v Operand" where
  "plain v r ty = \<lparr>o_val = v, o_repr = r, o_ty = ty, o_range = derived_range ty RB_Top, o_cls = None, o_cls_shallow = False,
     o_cls_slots = False, o_likely_cls = None, o_ta = None, o_src = None, o_iv = None, o_fresh = False, o_prov = 0\<rparr>"

definition with_iv :: "'v Operand \<Rightarrow> Iv \<Rightarrow> 'v Operand" where
  "with_iv r iv = r\<lparr>o_iv := iv\<rparr>"

definition operand_with_prov :: "'v Operand \<Rightarrow> Prov \<Rightarrow> 'v Operand" where
  "operand_with_prov r p = r\<lparr>o_prov := prov_or (o_prov r) p\<rparr>"

definition from_slot :: "'v \<Rightarrow> SlotCtx \<Rightarrow> SlotRef \<Rightarrow> 'v Operand" where
  "from_slot v s src = \<lparr>o_val = v, o_repr = Boxed, o_ty = to_ty s, o_range = s_range s, o_cls = s_cls s,
     o_cls_shallow = s_cls_shallow s, o_cls_slots = s_cls_slots s, o_likely_cls = s_likely_cls s, o_ta = s_ta s,
     o_src = Some src, o_iv = map_option (\<lambda>r. (lo r, hi r, False)) (s_iv s), o_fresh = False, o_prov = s_prov s\<rparr>"

definition op_iv :: "'v Operand \<Rightarrow> Iv" where
  "op_iv r = (case o_iv r of
     Some iv \<Rightarrow> Some iv
   | None \<Rightarrow>
       (case o_repr r of
          ReprI32 \<Rightarrow> IV_I32
        | ReprI64 \<Rightarrow> (if o_range r = RB_I32 then IV_I32 else Some (- (2 ^ 53), 2 ^ 53, False))
        | _ \<Rightarrow> if is_exact_int32 (o_ty r) then IV_I32 else None))"

definition operand_slot :: "'v Operand \<Rightarrow> SlotCtx" where
  "operand_slot r = (slot_of (o_ty r) (o_range r))\<lparr>s_cls := o_cls r, s_cls_shallow := o_cls_shallow r, s_cls_slots := o_cls_slots r,
     s_ta := o_ta r, s_likely_cls := o_likely_cls r, s_src := o_src r, s_iv := iv_clean (op_iv r), s_iv_grow := 0, s_prov := o_prov r\<rparr>"

definition slot_cell :: "'v Operand \<Rightarrow> SlotCtx" where
  "slot_cell r = (operand_slot r)\<lparr>s_src := None\<rparr>"

definition iv_clamp_i32 :: "Iv \<Rightarrow> Iv" where
  "iv_clamp_i32 riv = Option.bind riv (\<lambda>(l, h, nz).
     let l = max l I32_LO; h = min h I32_HI in if l \<le> h then Some (l, h, nz) else None)"

datatype RangeAct = RNothing | RClear | RCheck int int

section \<open>Type descriptions\<close>

definition prim_desc :: "prims \<Rightarrow> TypeDesc" where
  "prim_desc p = \<lparr>td_prims = p, td_outside = False\<rparr>"

definition bottom_ty :: TypeDesc where
  "bottom_ty = \<lparr>td_prims = ALL_PRIMS, td_outside = True\<rparr>"

definition obj_only_ty :: TypeDesc where
  "obj_only_ty = \<lparr>td_prims = PRIMS_EMPTY, td_outside = True\<rparr>"

definition is_exact_double :: "TypeDesc \<Rightarrow> bool" where
  "is_exact_double ty = (td_prims ty = PRIM_DOUBLE \<and> \<not> td_outside ty)"

definition f64_result_prims :: "'v Operand \<Rightarrow> 'v Operand \<Rightarrow> prims" where
  "f64_result_prims a b = f64_track_result (is_exact_double (o_ty a)) (is_exact_double (o_ty b))"

definition is_exact_bool :: "TypeDesc \<Rightarrow> bool" where
  "is_exact_bool ty = (td_prims ty = PRIM_BOOLEAN \<and> \<not> td_outside ty)"

definition is_symbol_only :: "TypeDesc \<Rightarrow> bool" where
  "is_symbol_only ty = (td_prims ty = PRIM_SYMBOL \<and> \<not> td_outside ty)"

definition is_numeric :: "TypeDesc \<Rightarrow> bool" where
  "is_numeric ty =
     (\<not> prims_is_empty (td_prims ty) \<and> subset_of (td_prims ty) (prims_or PRIM_INT32 PRIM_DOUBLE) \<and> \<not> td_outside ty)"

definition store_value_numeric :: "'v Operand \<Rightarrow> bool" where
  "store_value_numeric r = (o_repr r \<in> set [ReprI32, ReprF64, ReprI64] \<or> is_numeric (o_ty r))"

text \<open>The mask an unboxed representation proves; the boxed one and the object pointer have arms of their own.\<close>

fun repr_mask :: "Repr \<Rightarrow> prims option" where
  "repr_mask ReprI32 = Some PRIM_INT32"
| "repr_mask ReprF64 = Some (prims_or PRIM_INT32 PRIM_DOUBLE)"
| "repr_mask ReprI64 = Some (prims_or PRIM_INT32 PRIM_DOUBLE)"
| "repr_mask ReprBool = Some PRIM_BOOLEAN"
| "repr_mask StrPtr = Some PRIM_STRING"
| "repr_mask ObjPtr = None"
| "repr_mask Boxed = None"

definition refine_by_repr :: "'v Operand \<Rightarrow> 'v Operand" where
  "refine_by_repr r = (case repr_mask (o_repr r) of
     None \<Rightarrow> if o_repr r = ObjPtr then r\<lparr>o_ty := obj_only_ty\<rparr> else r
   | Some m \<Rightarrow>
       (let narrowed = prims_and (td_prims (o_ty r)) m
        in r\<lparr>o_ty := prim_desc (if narrowed = PRIMS_EMPTY then m else narrowed)\<rparr>))"

definition int32_wrap_operand_ok :: "'v Operand \<Rightarrow> bool" where
  "int32_wrap_operand_ok r = (is_exact_int32 (o_ty r) \<or> o_repr r = ReprI64)"

definition raw_frac_operand :: "'v Operand \<Rightarrow> bool" where
  "raw_frac_operand r = (o_repr r = ReprF64 \<and> is_numeric (o_ty r) \<and> \<not> is_exact_int32 (o_ty r))"

definition i64_arith_operand_ok :: "'v Operand \<Rightarrow> bool" where
  "i64_arith_operand_ok r = (case o_repr r of
     ReprI64 \<Rightarrow> True | ReprI32 \<Rightarrow> True
   | Boxed \<Rightarrow> is_exact_int32 (o_ty r) | ReprF64 \<Rightarrow> is_exact_int32 (o_ty r)
   | _ \<Rightarrow> False)"

definition may_be_double :: "TypeDesc \<Rightarrow> bool" where
  "may_be_double ty = (intersects (td_prims ty) PRIM_DOUBLE \<or> td_outside ty)"

definition may_be_string :: "TypeDesc \<Rightarrow> bool" where
  "may_be_string ty = (intersects (td_prims ty) PRIM_STRING \<or> td_outside ty)"

definition is_string_only :: "TypeDesc \<Rightarrow> bool" where
  "is_string_only ty = (td_prims ty = PRIM_STRING \<and> \<not> td_outside ty)"

definition may_be_bigint :: "TypeDesc \<Rightarrow> bool" where
  "may_be_bigint ty = (intersects (td_prims ty) PRIM_BIGINT \<or> td_outside ty)"

definition is_identity_only :: "TypeDesc \<Rightarrow> bool" where
  "is_identity_only ty =
     ((\<not> prims_is_empty (td_prims ty) \<or> td_outside ty) \<and>
      subset_of (td_prims ty) (prims_or (prims_or (prims_or PRIM_NULL PRIM_UNDEFINED) PRIM_BOOLEAN) PRIM_SYMBOL))"

definition strict_bits_eq_sound :: "TypeDesc \<Rightarrow> TypeDesc \<Rightarrow> bool" where
  "strict_bits_eq_sound a b =
     (is_identity_only a \<or> is_identity_only b \<or>
      (\<not> may_be_double a \<and> \<not> may_be_double b \<and> \<not> (may_be_string a \<and> may_be_string b) \<and> \<not> (may_be_bigint a \<and> may_be_bigint b)))"

definition is_non_gc :: "TypeDesc \<Rightarrow> bool" where
  "is_non_gc ty =
     (\<not> prims_is_empty (td_prims ty) \<and>
      subset_of (td_prims ty) (prims_or (prims_or (prims_or (prims_or PRIM_INT32 PRIM_DOUBLE) PRIM_UNDEFINED) PRIM_NULL) PRIM_BOOLEAN) \<and>
      \<not> td_outside ty)"

definition is_object_only :: "TypeDesc \<Rightarrow> bool" where
  "is_object_only ty = (prims_is_empty (td_prims ty) \<and> td_outside ty)"

definition is_nullish_const :: "TypeDesc \<Rightarrow> bool" where
  "is_nullish_const ty =
     (\<not> td_outside ty \<and> \<not> prims_is_empty (td_prims ty) \<and> subset_of (td_prims ty) (prims_or PRIM_NULL PRIM_UNDEFINED))"

section \<open>Compare and arithmetic operators\<close>

datatype Operator = F64Lt | F64Le | F64Gt | F64Ge | F64Eq | F64Ne | I64LtS | I64LeS | I64GtS | I64GeS | I64Eq | I64Ne
  | I32LtS | I32LeS | I32GtS | I32GeS | I32Eq | I32Ne | F64Sub | F64Mul | F64Div

definition CMP_LT :: u32 where "CMP_LT = 0"
definition CMP_LE :: u32 where "CMP_LE = 1"
definition CMP_GT :: u32 where "CMP_GT = 2"
definition CMP_GE :: u32 where "CMP_GE = 3"
definition CMP_EQ :: u32 where "CMP_EQ = 4"
definition CMP_NE :: u32 where "CMP_NE = 5"
definition CMP_STRICTEQ :: u32 where "CMP_STRICTEQ = 6"
definition CMP_STRICTNE :: u32 where "CMP_STRICTNE = 7"
definition BINOP_SUB :: u32 where "BINOP_SUB = 0"
definition BINOP_MUL :: u32 where "BINOP_MUL = 1"
definition BINOP_DIV :: u32 where "BINOP_DIV = 2"

lemmas op_kinds = CMP_LT_def CMP_LE_def CMP_GT_def CMP_GE_def CMP_EQ_def CMP_NE_def CMP_STRICTEQ_def CMP_STRICTNE_def
  BINOP_SUB_def BINOP_MUL_def BINOP_DIV_def

definition f64_compare_op :: "u32 \<Rightarrow> Operator option" where
  "f64_compare_op kind =
     (if kind = CMP_LT then Some F64Lt else if kind = CMP_LE then Some F64Le
      else if kind = CMP_GT then Some F64Gt else if kind = CMP_GE then Some F64Ge
      else if kind = CMP_EQ \<or> kind = CMP_STRICTEQ then Some F64Eq
      else if kind = CMP_NE \<or> kind = CMP_STRICTNE then Some F64Ne else None)"

definition i64_compare_op :: "u32 \<Rightarrow> Operator option" where
  "i64_compare_op kind =
     (if kind = CMP_LT then Some I64LtS else if kind = CMP_LE then Some I64LeS
      else if kind = CMP_GT then Some I64GtS else if kind = CMP_GE then Some I64GeS
      else if kind = CMP_EQ \<or> kind = CMP_STRICTEQ then Some I64Eq
      else if kind = CMP_NE \<or> kind = CMP_STRICTNE then Some I64Ne else None)"

definition i32_compare_op :: "u32 \<Rightarrow> Operator option" where
  "i32_compare_op kind =
     (if kind = CMP_LT then Some I32LtS else if kind = CMP_LE then Some I32LeS
      else if kind = CMP_GT then Some I32GtS else if kind = CMP_GE then Some I32GeS
      else if kind = CMP_EQ \<or> kind = CMP_STRICTEQ then Some I32Eq
      else if kind = CMP_NE \<or> kind = CMP_STRICTNE then Some I32Ne else None)"

definition ta_kind_iv :: "TaKind \<Rightarrow> Iv" where
  "ta_kind_iv k = Option.bind (proven_range k) (\<lambda>(l, h). iv_ok l h False)"

definition f64_arith_op :: "u32 \<Rightarrow> Operator option" where
  "f64_arith_op kind =
     (if kind = BINOP_SUB then Some F64Sub else if kind = BINOP_MUL then Some F64Mul
      else if kind = BINOP_DIV then Some F64Div else None)"

end
