(* ===== verification/Predict.thy ===== *)
theory Predict
  imports Ctx Ids
begin

text \<open>
  The prediction table of \<^verbatim>\<open>compiler/src/wasm/bbv/predict.rs\<close>: one fact context per program point, joined over its
  arrivals, with the operand depth it was made at and the carried locals per track. The round loop \<open>run\<close> drives the
  emitter and is left out with it; \<open>dump\<close> prints.
\<close>

record Predictions =
  p_at :: "Pc \<rightharpoonup> Ctx"
  p_depth :: "Pc \<rightharpoonup> u16"
  p_carried :: "Pc \<times> Track \<rightharpoonup> u32 list"
  p_back_at :: "Pc \<rightharpoonup> Ctx"

definition pred_at :: "Predictions \<Rightarrow> Pc \<Rightarrow> Ctx option" where
  "pred_at p pc = p_at p pc"

definition pred_carried :: "Predictions \<Rightarrow> Pc \<Rightarrow> Track \<Rightarrow> u32 list option" where
  "pred_carried p pc track = p_carried p (pc, track)"

definition back_at :: "Predictions \<Rightarrow> Pc \<Rightarrow> Ctx option" where
  "back_at p pc = p_back_at p pc"

definition join_back :: "Predictions \<Rightarrow> Pc \<Rightarrow> Ctx \<Rightarrow> Predictions" where
  "join_back p pc arrival = (case p_back_at p pc of
     None \<Rightarrow> p\<lparr>p_back_at := (p_back_at p)(pc \<mapsto> arrival)\<rparr>
   | Some cur \<Rightarrow> if ctx_implies arrival cur then p else p\<lparr>p_back_at := (p_back_at p)(pc \<mapsto> ctx_join arrival cur)\<rparr>)"

text \<open>What a wiped prediction is reported by.\<close>

definition wipe_moved :: "Ctx \<Rightarrow> bool" where
  "wipe_moved c =
     (x_locals c \<noteq> [] \<or> x_stack c \<noteq> [] \<or> x_args c \<noteq> [] \<or> x_caller_locals c \<noteq> [] \<or> x_caller_args c \<noteq> [] \<or> x_gcells c \<noteq> [])"

definition joined_arrival :: "Ctx \<Rightarrow> Ctx \<Rightarrow> Ctx" where
  "joined_arrival cur arrival = (if ctx_implies_sans_iv arrival cur then join_iv_only cur arrival else ctx_join arrival cur)"

definition join_arrival :: "Predictions \<Rightarrow> Pc \<Rightarrow> u16 \<Rightarrow> Ctx \<Rightarrow> Predictions \<times> bool" where
  "join_arrival p pc depth arrival =
     (if p_depth p pc \<noteq> None \<and> p_depth p pc \<noteq> Some depth
      then (p\<lparr>p_at := (p_at p)(pc \<mapsto> ctx_default)\<rparr>, case p_at p pc of None \<Rightarrow> False | Some c \<Rightarrow> wipe_moved c)
      else let p = p\<lparr>p_depth := (p_depth p)(pc \<mapsto> depth)\<rparr>
           in case p_at p pc of
                None \<Rightarrow> (p\<lparr>p_at := (p_at p)(pc \<mapsto> arrival)\<rparr>, True)
              | Some cur \<Rightarrow>
                  if ctx_implies arrival cur then (p, False)
                  else let j = joined_arrival cur arrival
                       in if ctx_eq j cur then (p, False) else (p\<lparr>p_at := (p_at p)(pc \<mapsto> j)\<rparr>, True))"

definition pred_set :: "Predictions \<Rightarrow> Pc \<Rightarrow> Ctx \<Rightarrow> Predictions" where
  "pred_set p pc facts = p\<lparr>p_at := (p_at p)(pc \<mapsto> facts)\<rparr>"

definition carried_join :: "Predictions \<Rightarrow> Pc \<Rightarrow> Track \<Rightarrow> u32 list \<Rightarrow> Predictions \<times> u32 list \<times> bool" where
  "carried_join p pc track arr = (case p_carried p (pc, track) of
     Some e \<Rightarrow> (p, e, False)
   | None \<Rightarrow> (p\<lparr>p_carried := (p_carried p)((pc, track) \<mapsto> arr)\<rparr>, arr, False))"

definition widen_all :: "Predictions \<Rightarrow> Predictions" where
  "widen_all p = p\<lparr>p_at := map_option facts_free \<circ> p_at p\<rparr>"

definition or_into :: "SlotCtx list \<Rightarrow> SlotCtx list \<Rightarrow> SlotCtx list \<times> bool" where
  "or_into cur arr =
     (map (\<lambda>i. if i < length arr then (cur ! i)\<lparr>s_prov := prov_or (s_prov (cur ! i)) (s_prov (arr ! i))\<rparr> else cur ! i) [0..<length cur],
      list_ex (\<lambda>(c, a). prov_or (s_prov c) (s_prov a) \<noteq> s_prov c) (zip cur arr))"

definition or_prov :: "Predictions \<Rightarrow> Pc \<Rightarrow> Ctx \<Rightarrow> Predictions \<times> bool" where
  "or_prov p pc arrival = (case p_at p pc of
     None \<Rightarrow> (p, False)
   | Some cur \<Rightarrow>
       (let (l, b1) = or_into (x_locals cur) (x_locals arrival); (s, b2) = or_into (x_stack cur) (x_stack arrival);
            (a, b3) = or_into (x_args cur) (x_args arrival); (cl, b4) = or_into (x_caller_locals cur) (x_caller_locals arrival);
            (ca, b5) = or_into (x_caller_args cur) (x_caller_args arrival)
        in (p\<lparr>p_at := (p_at p)(pc \<mapsto> cur\<lparr>x_locals := l, x_stack := s, x_args := a, x_caller_locals := cl, x_caller_args := ca\<rparr>)\<rparr>,
            b1 \<or> b2 \<or> b3 \<or> b4 \<or> b5)))"

end
