(* ===== verification/Ctx_Slots.thy ===== *)
theory Ctx_Slots
  imports Operand Predict
begin

text \<open>
  What the facts of a frame slot (\<^verbatim>\<open>compiler/src/wasm/bbv/ctx.rs\<close>, \<^verbatim>\<open>operand.rs\<close>) say of a runtime value: the implication,
  join and meet of slot facts are sound for the values they admit, the strict comparison of boxed bits is strict
  equality where the operand types allow it, and loading a slot into an operand loses no fact.
\<close>

section \<open>The refinement order of slot facts\<close>

lemma rb_implies_refl [simp]: "rb_implies r r"
  by (cases r) auto

lemma rb_implies_trans: "rb_implies a b \<Longrightarrow> rb_implies b c \<Longrightarrow> rb_implies a c"
  by (cases a; cases b; cases c) auto

lemma rb_linear: "rb_implies a b \<or> rb_implies b a"
  by (cases a; cases b) auto

lemma rb_top [simp]: "rb_implies r RB_Top" "rb_implies RB_Top r \<longleftrightarrow> r = RB_Top"
  by (cases r; simp)+

lemma cls_implies_refl [simp]: "cls_implies c c"
  by (cases c) auto

lemma cls_implies_trans: "cls_implies a b \<Longrightarrow> cls_implies b c \<Longrightarrow> cls_implies a c"
  by (cases a; cases b; cases c) auto

lemma iv_implies_refl [simp]: "iv_implies c c"
  by (cases c) auto

lemma iv_implies_trans: "iv_implies a b \<Longrightarrow> iv_implies b c \<Longrightarrow> iv_implies a c"
  by (cases a; cases b; cases c) auto

lemma slot_implies_sans_iv_refl [simp]: "slot_implies_sans_iv s s"
  by (simp add: slot_implies_sans_iv_def)

lemma slot_implies_sans_iv_trans: "slot_implies_sans_iv a b \<Longrightarrow> slot_implies_sans_iv b c \<Longrightarrow> slot_implies_sans_iv a c"
  unfolding slot_implies_sans_iv_def using subset_of_trans rb_implies_trans cls_implies_trans by metis

lemma slot_implies_refl [simp]: "slot_implies s s"
  by (simp add: slot_implies_def)

lemma slot_implies_trans: "slot_implies a b \<Longrightarrow> slot_implies b c \<Longrightarrow> slot_implies a c"
  unfolding slot_implies_def using slot_implies_sans_iv_trans iv_implies_trans by metis

lemma slot_implies_top_sans_iv [simp]: "classes (s_prims s) \<subseteq> {..<8} \<Longrightarrow> slot_implies_sans_iv s SLOT_TOP"
  by (simp add: slot_implies_sans_iv_def SLOT_TOP_def subset_of_classes classes_ALL)

lemma slot_implies_top [simp]: "classes (s_prims s) \<subseteq> {..<8} \<Longrightarrow> slot_implies s SLOT_TOP"
  unfolding slot_implies_def using slot_implies_top_sans_iv [of s] by (simp add: SLOT_TOP_def)

text \<open>The joined interval is implied by both sides.\<close>

lemma iv_tolerant_upper:
  assumes "iv_join_tolerant a b g = (u, g')"
  shows "iv_implies a u" "iv_implies b u"
proof -
  have "hull n st = st \<Longrightarrow> vr_contains st n" for n st using hull_contains(1) [where a = n and b = st] by simp
  then have "iv_implies a u \<and> iv_implies b u"
    using assms hull_contains iv_join_recorded_contains
    by (cases a; cases b; cases u) (auto simp: iv_join_tolerant_def Let_def vr_contains_def split: if_splits)
  then show "iv_implies a u" "iv_implies b u" by simp_all
qed

lemma cls_join_upper: "cls_implies a (cls_join a b)" "cls_implies b (cls_join a b)"
  by (cases a; cases b; auto)+

lemma slot_join_upper_sans_iv: "slot_implies_sans_iv s (slot_join s w)" "slot_implies_sans_iv w (slot_join s w)"
  using rb_linear [of "s_range s" "s_range w"]
  by (auto simp: slot_implies_sans_iv_def slot_join_def subset_of_classes cls_join_upper split: prod.split)

lemma slot_join_upper: "slot_implies s (slot_join s w)" "slot_implies w (slot_join s w)"
proof -
  obtain u g where u: "iv_join_tolerant (s_iv s) (s_iv w) (s_iv_grow w) = (u, g)" by fastforce
  then have "s_iv (slot_join s w) = u" by (simp add: slot_join_def)
  with iv_tolerant_upper [OF u] slot_join_upper_sans_iv show "slot_implies s (slot_join s w)" "slot_implies w (slot_join s w)"
    by (simp_all add: slot_implies_def)
qed

lemma slot_join_iv_upper:
  "slot_implies w (slot_join_iv w s)" "slot_implies_sans_iv s w \<Longrightarrow> slot_implies s (slot_join_iv w s)"
proof -
  obtain u g where u: "iv_join_tolerant (s_iv s) (s_iv w) (s_iv_grow w) = (u, g)" by fastforce
  have j: "slot_join_iv w s = w\<lparr>s_iv := u, s_iv_grow := g\<rparr>" by (simp add: slot_join_iv_def u)
  show "slot_implies w (slot_join_iv w s)" "slot_implies_sans_iv s w \<Longrightarrow> slot_implies s (slot_join_iv w s)"
    using iv_tolerant_upper [OF u] by (simp_all add: j slot_implies_def slot_implies_sans_iv_def)
qed

section \<open>What a slot fact says of a value\<close>

text \<open>
  A value as the context sees it: a primitive of a class, with the integer it is exactly (negative zero is none), or an
  object with the identity half of its class word, the two validity bits and its typed-array kind.
\<close>

datatype jsval = Prim nat "int option" | Obj u16 bool bool "TaKind option"

fun val_wf :: "jsval \<Rightarrow> bool" where
  "val_wf (Prim c n) = (c < 8 \<and> (c = 0 \<longrightarrow> (\<exists>k. n = Some k \<and> I32_LO \<le> k \<and> k \<le> I32_HI)))"
| "val_wf (Obj _ _ _ _) = True"

fun in_bucket :: "RangeBucket \<Rightarrow> int option \<Rightarrow> bool" where
  "in_bucket RB_Top _ = True"
| "in_bucket RB_I53 n = (\<exists>k. n = Some k \<and> \<bar>k\<bar> \<le> 2 ^ 53)"
| "in_bucket RB_I32 n = (\<exists>k. n = Some k \<and> I32_LO \<le> k \<and> k \<le> I32_HI)"

fun in_iv :: "ValueRange option \<Rightarrow> int option \<Rightarrow> bool" where
  "in_iv None _ = True"
| "in_iv (Some r) n = (\<exists>k. n = Some k \<and> lo r \<le> k \<and> k \<le> hi r)"

fun slot_gamma :: "SlotCtx \<Rightarrow> jsval \<Rightarrow> bool" where
  "slot_gamma s (Prim c n) =
     (c \<in> classes (s_prims s) \<and> in_bucket (s_range s) n \<and> in_iv (s_iv s) n \<and>
      s_cls s = None \<and> \<not> s_cls_shallow s \<and> \<not> s_cls_slots s \<and> s_ta s = None)"
| "slot_gamma s (Obj k shallow slots ta) =
     (s_outside s \<and> in_bucket (s_range s) None \<and> in_iv (s_iv s) None \<and>
      (case s_cls s of None \<Rightarrow> True | Some (l, h) \<Rightarrow> l \<le> k \<and> k \<le> h) \<and>
      (s_cls_shallow s \<longrightarrow> shallow) \<and> (s_cls_slots s \<longrightarrow> slots) \<and> (s_ta s = None \<or> s_ta s = ta))"

lemma in_bucket_mono: "rb_implies a b \<Longrightarrow> in_bucket a n \<Longrightarrow> in_bucket b n"
  by (cases a; cases b) (auto simp: I32_LO_def I32_HI_def)

lemma in_iv_mono: "iv_implies a b \<Longrightarrow> in_iv a n \<Longrightarrow> in_iv b n"
  by (cases a; cases b) auto

lemma slot_gamma_mono:
  assumes "slot_implies s w" "slot_gamma s v"
  shows "slot_gamma w v"
proof (cases v)
  case (Prim c n)
  have "s_cls w = None" using assms Prim by (cases "s_cls w") (auto simp: slot_implies_def slot_implies_sans_iv_def)
  then show ?thesis using assms Prim in_bucket_mono in_iv_mono
    by (auto simp: slot_implies_def slot_implies_sans_iv_def subset_of_classes)
next
  case (Obj k sh sl ta)
  have "case s_cls w of None \<Rightarrow> True | Some (l, h) \<Rightarrow> l \<le> k \<and> k \<le> h"
    using assms Obj by (cases "s_cls s"; cases "s_cls w") (auto simp: slot_implies_def slot_implies_sans_iv_def)
  then show ?thesis using assms Obj in_bucket_mono in_iv_mono
    by (auto simp: slot_implies_def slot_implies_sans_iv_def)
qed

lemma slot_gamma_join: "slot_gamma s v \<or> slot_gamma w v \<Longrightarrow> slot_gamma (slot_join s w) v"
  using slot_gamma_mono slot_join_upper by blast

lemma in_iv_meet: "in_iv a n \<Longrightarrow> in_iv b n \<Longrightarrow> in_iv (iv_meet a b) n"
  by (cases a; cases b) (auto simp: vr_def)

lemma slot_gamma_meet:
  assumes "slot_gamma s v" "slot_gamma w v"
  shows "\<exists>m. slot_meet s w = Some m \<and> slot_gamma m v"
proof (cases v)
  case (Prim c n)
  then have "\<not> prims_is_empty (prims_and (s_prims s) (s_prims w))" using assms by (auto simp: prims_is_empty_classes)
  then show ?thesis using assms Prim
    by (auto simp: slot_meet_def Let_def in_iv_meet opt_or_def)
next
  case (Obj k sh sl ta)
  have "case cls_meet (s_cls s) (s_cls w) of None \<Rightarrow> True | Some (l, h) \<Rightarrow> l \<le> k \<and> k \<le> h"
    using assms Obj by (cases "s_cls s"; cases "s_cls w") (auto split: if_splits)
  then show ?thesis using assms Obj
    by (auto simp: slot_meet_def Let_def in_iv_meet opt_or_def split: option.splits)
qed

section \<open>The slot lattice\<close>

text \<open>C31. The slot facts of a context mean what the specializer takes them to mean: a fact that implies another holds of
  fewer values, the join of two facts holds wherever either does, and the meet of two facts that hold of a value
  exists and holds of it, so only contradictory facts have no meet.\<close>

theorem slot_lattice_sound:
  "(slot_implies s w \<longrightarrow> slot_gamma s v \<longrightarrow> slot_gamma w v) \<and>
   (slot_gamma s v \<or> slot_gamma w v \<longrightarrow> slot_gamma (slot_join s w) v) \<and>
   (slot_gamma s v \<and> slot_gamma w v \<longrightarrow> (\<exists>m. slot_meet s w = Some m \<and> slot_gamma m v))"
  using slot_gamma_mono slot_gamma_join slot_gamma_meet by blast

theorem slot_lattice_sound_witness:
  "slot_gamma NUMERIC_SLOT (Prim 0 (Some 7)) \<and> slot_gamma (slot_join INT32_SLOT STR_SLOT) (Prim 2 None) \<and>
   (\<exists>m. slot_meet NUMERIC_SLOT INT32_SLOT = Some m \<and> slot_gamma m (Prim 0 (Some 7)))"
proof -
  have g: "slot_gamma INT32_SLOT (Prim 0 (Some 7))" "slot_gamma STR_SLOT (Prim 2 None)" "slot_implies INT32_SLOT NUMERIC_SLOT"
    by (simp_all add: INT32_SLOT_def STR_SLOT_def NUMERIC_SLOT_def SLOT_TOP_def I32_LO_def I32_HI_def vr_def
        slot_implies_def slot_implies_sans_iv_def subset_of_classes)
  show ?thesis
    using slot_lattice_sound [of INT32_SLOT NUMERIC_SLOT "Prim 0 (Some 7)"] slot_lattice_sound [of INT32_SLOT STR_SLOT "Prim 2 None"]
      slot_lattice_sound [of NUMERIC_SLOT INT32_SLOT "Prim 0 (Some 7)"] g by blast
qed

section \<open>Strict equality on boxed bits\<close>

text \<open>
  The boxed encoding of a value: an int32, the bits of a double, the pointer of a string or a bigint, and the identity
  types. Two boxes have the same bits exactly when they are equal here. Strict equality compares numbers by value,
  strings and bigints by content and the rest by identity; what a double, a string pointer and a bigint pointer stand
  for are parameters.
\<close>

datatype ('d, 's, 'b) boxed = BInt "32 word" | BDouble 'd | BString 's | BUndefined | BNull | BBool bool | BBigInt 'b
  | BSymbol nat | BObject nat

fun boxed_class :: "('d, 's, 'b) boxed \<Rightarrow> nat option" where
  "boxed_class (BInt _) = Some 0"
| "boxed_class (BDouble _) = Some 1"
| "boxed_class (BString _) = Some 2"
| "boxed_class BUndefined = Some 3"
| "boxed_class BNull = Some 4"
| "boxed_class (BBool _) = Some 5"
| "boxed_class (BBigInt _) = Some 6"
| "boxed_class (BSymbol _) = Some 7"
| "boxed_class (BObject _) = None"

text \<open>A type description with no class at all is unmodeled: it claims nothing of the value (a magic value, for one).\<close>

definition td_modeled :: "TypeDesc \<Rightarrow> bool" where
  "td_modeled ty = (\<not> prims_is_empty (td_prims ty) \<or> td_outside ty)"

definition has_type :: "('d, 's, 'b) boxed \<Rightarrow> TypeDesc \<Rightarrow> bool" where
  "has_type v ty = (td_modeled ty \<longrightarrow> (case boxed_class v of Some c \<Rightarrow> c \<in> classes (td_prims ty) | None \<Rightarrow> td_outside ty))"

record ('d, 's, 'b) meanings =
  double_eq :: "'d \<Rightarrow> 'd \<Rightarrow> bool"
  int_double_eq :: "32 word \<Rightarrow> 'd \<Rightarrow> bool"
  string_chars :: "'s \<Rightarrow> string"
  bigint_value :: "'b \<Rightarrow> int"

fun strict_eq :: "('d, 's, 'b) meanings \<Rightarrow> ('d, 's, 'b) boxed \<Rightarrow> ('d, 's, 'b) boxed \<Rightarrow> bool" where
  "strict_eq m (BInt a) (BInt b) = (a = b)"
| "strict_eq m (BInt a) (BDouble b) = int_double_eq m a b"
| "strict_eq m (BDouble a) (BInt b) = int_double_eq m b a"
| "strict_eq m (BDouble a) (BDouble b) = double_eq m a b"
| "strict_eq m (BString a) (BString b) = (string_chars m a = string_chars m b)"
| "strict_eq m (BBigInt a) (BBigInt b) = (bigint_value m a = bigint_value m b)"
| "strict_eq m v w = (v = w)"

lemma identity_class:
  assumes "is_identity_only ty" "has_type v ty"
  shows "v \<in> range BObject \<union> range BBool \<union> range BSymbol \<union> {BUndefined, BNull}"
  using assms by (cases v) (auto simp: is_identity_only_def subset_of_classes has_type_def td_modeled_def)

lemma identity_bits:
  assumes "v \<in> range BObject \<union> range BBool \<union> range BSymbol \<union> {BUndefined, BNull}"
  shows "strict_eq m v w \<longleftrightarrow> v = w" "strict_eq m w v \<longleftrightarrow> w = v"
  using assms by (cases w; auto)+

lemma plain_bits:
  assumes "has_type v a" "has_type w b" "\<not> may_be_double a" "\<not> may_be_double b"
    "\<not> (may_be_string a \<and> may_be_string b)" "\<not> (may_be_bigint a \<and> may_be_bigint b)" "td_modeled a" "td_modeled b"
  shows "strict_eq m v w \<longleftrightarrow> v = w"
  using assms by (cases v; cases w) (auto simp: has_type_def may_be_double_def may_be_string_def may_be_bigint_def intersects_classes)

text \<open>C32. Where \<open>strict_bits_eq_sound\<close> admits two types, the strict comparison of any two values of those types is the
  comparison of their boxed bits, whatever the doubles, strings and bigints stand for, provided that one type has only
  identity-compared values (the other may then be unmodeled) or both types are modeled.\<close>

theorem strict_eq_is_bit_eq:
  assumes "strict_bits_eq_sound a b" "has_type v a" "has_type w b" "is_identity_only a \<or> is_identity_only b \<or> td_modeled a \<and> td_modeled b"
  shows "strict_eq m v w \<longleftrightarrow> v = w"
proof -
  consider "is_identity_only a" | "is_identity_only b" | "\<not> is_identity_only a" "\<not> is_identity_only b" "td_modeled a" "td_modeled b"
    using assms(4) by blast
  then show ?thesis
  proof cases
    case 1
    from identity_bits(1) [OF identity_class [OF this assms(2)]] show ?thesis .
  next
    case 2
    from identity_bits(2) [OF identity_class [OF this assms(3)]] show ?thesis .
  next
    case 3
    with assms(1) have "\<not> may_be_double a" "\<not> may_be_double b" "\<not> (may_be_string a \<and> may_be_string b)"
      "\<not> (may_be_bigint a \<and> may_be_bigint b)"
      unfolding strict_bits_eq_sound_def by blast+
    from plain_bits [OF assms(2,3) this 3(3,4)] show ?thesis .
  qed
qed

definition demo_meanings :: "(64 word, nat, int) meanings" where
  "demo_meanings = \<lparr>double_eq = (\<lambda>a b. a = b), int_double_eq = (\<lambda>_ _. False), string_chars = (\<lambda>_. ''s''), bigint_value = (\<lambda>b. b)\<rparr>"

theorem strict_eq_is_bit_eq_witness:
  "\<not> strict_eq demo_meanings (BUndefined :: (64 word, nat, int) boxed) (BDouble 7) \<and>
   strict_eq demo_meanings (BSymbol 3) (BSymbol 3 :: (64 word, nat, int) boxed) \<and>
   \<not> strict_eq demo_meanings (BInt 3) (BString 3 :: (64 word, nat, int) boxed)"
proof -
  have i: "is_identity_only (prim_desc PRIM_UNDEFINED)" "is_identity_only (prim_desc PRIM_SYMBOL)"
    by (simp_all add: is_identity_only_def prim_desc_def subset_of_classes prims_is_empty_classes)
  have u: "strict_bits_eq_sound (prim_desc PRIM_UNDEFINED) bottom_ty" "strict_bits_eq_sound (prim_desc PRIM_SYMBOL) (prim_desc PRIMS_EMPTY)"
    "strict_bits_eq_sound (prim_desc PRIM_INT32) (prim_desc PRIM_STRING)" "td_modeled (prim_desc PRIM_INT32)" "td_modeled (prim_desc PRIM_STRING)"
    using i by (simp_all add: strict_bits_eq_sound_def prim_desc_def may_be_double_def may_be_string_def may_be_bigint_def intersects_classes
        td_modeled_def prims_is_empty_classes)
  have t: "has_type BUndefined (prim_desc PRIM_UNDEFINED)" "has_type (BDouble 7) bottom_ty" "has_type (BSymbol 3) (prim_desc PRIM_SYMBOL)"
    "has_type (BSymbol 3) (prim_desc PRIMS_EMPTY)" "has_type (BInt 3) (prim_desc PRIM_INT32)" "has_type (BString 3) (prim_desc PRIM_STRING)"
    by (simp_all add: has_type_def td_modeled_def prim_desc_def bottom_ty_def classes_ALL prims_is_empty_classes)
  show ?thesis
    using strict_eq_is_bit_eq [OF u(1) t(1,2), of demo_meanings] strict_eq_is_bit_eq [OF u(2) t(3,4), of demo_meanings]
      strict_eq_is_bit_eq [OF u(3) t(5,6), of demo_meanings] i u(4,5) by simp
qed

text \<open>Without the proviso the comparison of bits is wrong: the test admits an unmodeled operand against a string, and the unmodeled operand may be
  another string with the same characters.\<close>

lemma unmodeled_operand_admitted:
  "strict_bits_eq_sound (prim_desc PRIMS_EMPTY) (prim_desc PRIM_STRING) \<and>
   has_type (BString 3 :: (64 word, nat, int) boxed) (prim_desc PRIMS_EMPTY) \<and> has_type (BString 4 :: (64 word, nat, int) boxed) (prim_desc PRIM_STRING) \<and>
   strict_eq demo_meanings (BString 3 :: (64 word, nat, int) boxed) (BString 4)"
  by (simp add: strict_bits_eq_sound_def prim_desc_def may_be_double_def may_be_string_def may_be_bigint_def intersects_classes
      has_type_def td_modeled_def prims_is_empty_classes demo_meanings_def)

section \<open>Slots and operands\<close>

text \<open>The claim an operand makes about its value, beside its context slot.\<close>

lemma slot_gamma_of:
  assumes "slot_gamma s v" "val_wf v" "\<not> (prims_is_empty (s_prims s) \<and> \<not> s_outside s)"
  shows "slot_gamma (operand_slot (from_slot x s src)) v"
proof (cases v)
  case (Prim c n)
  then have "is_exact_int32 (to_ty s) \<Longrightarrow> \<exists>k. n = Some k \<and> I32_LO \<le> k \<and> k \<le> I32_HI"
    using assms by (auto simp: is_exact_int32_def to_ty_def)
  then show ?thesis using assms Prim
    by (cases "s_iv s") (auto simp: operand_slot_def from_slot_def op_iv_def slot_of_def to_ty_def iv_clean_def IV_I32_def vr_def)
next
  case (Obj k sh sl ta)
  then have "\<not> is_exact_int32 (to_ty s)" using assms by (auto simp: is_exact_int32_def to_ty_def)
  then show ?thesis using assms Obj
    by (cases "s_iv s") (auto simp: operand_slot_def from_slot_def op_iv_def slot_of_def to_ty_def iv_clean_def IV_I32_def vr_def)
qed

lemma from_slot_strong:
  assumes "\<not> (prims_is_empty (s_prims s) \<and> \<not> s_outside s)"
  shows "slot_implies (operand_slot (from_slot x s src)) s"
proof -
  have "\<not> (prims_is_empty (td_prims (to_ty s)) \<and> \<not> td_outside (to_ty s))" using assms by (simp add: to_ty_def)
  then show ?thesis
    by (cases "s_iv s") (auto simp: operand_slot_def from_slot_def op_iv_def slot_of_def to_ty_def iv_clean_def vr_def
      slot_implies_def slot_implies_sans_iv_def)
qed

text \<open>Loading a frame slot into an operand and projecting the operand back keeps the slot's fact: the projection
  implies the fact that was loaded, and it is still true of every value the fact was true of.\<close>

theorem slot_operand_roundtrip:
  assumes "slot_gamma s v" "val_wf v"
  shows "slot_implies (operand_slot (from_slot x s src)) s \<and> slot_gamma (operand_slot (from_slot x s src)) v"
proof -
  have n: "\<not> (prims_is_empty (s_prims s) \<and> \<not> s_outside s)" using assms(1) by (cases v) (auto simp: prims_is_empty_classes)
  show ?thesis by (intro conjI from_slot_strong [OF n] slot_gamma_of [OF assms n])
qed

theorem slot_operand_roundtrip_witness:
  "slot_implies (operand_slot (from_slot () INT32_SLOT SThis)) INT32_SLOT \<and>
   slot_gamma (operand_slot (from_slot () INT32_SLOT SThis)) (Prim 0 (Some 7))"
  using slot_operand_roundtrip [of INT32_SLOT "Prim 0 (Some 7)" "()" SThis]
  by (simp add: INT32_SLOT_def SLOT_TOP_def I32_LO_def I32_HI_def vr_def)

end
