(* ===== verification/Ctx_Order.thy ===== *)
theory Ctx_Order
  imports Ctx_Slots
begin

text \<open>
  Contexts as tables of slot facts (\<^verbatim>\<open>compiler/src/wasm/bbv/ctx.rs\<close>): trimming, the two joins as upper bounds of the
  implication order, canonical form, and equality of canonical contexts from equality fact by fact.
\<close>

section \<open>Vectors with a default\<close>

lemma trim_end_split: "v = trim_end p v @ rev (takeWhile p (rev v))"
proof -
  have "rev (takeWhile p (rev v) @ dropWhile p (rev v)) = v" by (simp only: takeWhile_dropWhile_id rev_rev_ident)
  then show ?thesis unfolding trim_end_def by (simp only: rev_append)
qed

lemma trim_end_length: "length (trim_end p v) \<le> length v"
  using length_dropWhile_le [of p "rev v"] by (simp add: trim_end_def)

lemma trim_end_nth:
  "i < length (trim_end p v) \<Longrightarrow> trim_end p v ! i = v ! i"
  "length (trim_end p v) \<le> i \<Longrightarrow> i < length v \<Longrightarrow> p (v ! i)"
proof -
  let ?t = "trim_end p v" and ?r = "rev (takeWhile p (rev v))"
  have v: "v = ?t @ ?r" by (rule trim_end_split)
  show "trim_end p v ! i = v ! i" if "i < length ?t" by (subst (2) v) (simp add: nth_append that)
  assume i: "length ?t \<le> i" "i < length v"
  have "v ! i = ?r ! (i - length ?t)" by (subst v) (simp only: nth_append i(1) not_less [symmetric] if_False, use i(1) in simp)
  moreover have "i - length ?t < length ?r" using i arg_cong [OF v, of length] by simp
  ultimately have "v ! i \<in> set ?r" using nth_mem by metis
  then show "p (v ! i)" by (auto dest: set_takeWhileD)
qed

lemma trim_end_last: "trim_end p v \<noteq> [] \<Longrightarrow> \<not> p (last (trim_end p v))"
  by (simp add: trim_end_def last_rev hd_dropWhile)

lemma slot_eq_refl [simp]: "slot_eq s s"
  by (simp add: slot_eq_def)

lemma slot_eq_sym: "slot_eq s w \<Longrightarrow> slot_eq w s"
  by (simp add: slot_eq_def)

lemma slot_eq_trans: "slot_eq a b \<Longrightarrow> slot_eq b c \<Longrightarrow> slot_eq a c"
  by (simp add: slot_eq_def)

lemma slot_eqD:
  assumes "slot_eq s w"
  shows "s_prims s = s_prims w" "s_outside s = s_outside w" "s_range s = s_range w" "s_cls s = s_cls w"
    "s_cls_shallow s = s_cls_shallow w" "s_cls_slots s = s_cls_slots w" "s_likely_cls s = s_likely_cls w" "s_ta s = s_ta w"
    "s_src s = s_src w" "s_iv s = s_iv w" "s_iv_grow s = s_iv_grow w"
proof -
  have e: "s\<lparr>s_prov := 0\<rparr> = w\<lparr>s_prov := 0\<rparr>" using assms by (simp add: slot_eq_def)
  show "s_prims s = s_prims w" using arg_cong [OF e, of s_prims] by simp
  show "s_outside s = s_outside w" using arg_cong [OF e, of s_outside] by simp
  show "s_range s = s_range w" using arg_cong [OF e, of s_range] by simp
  show "s_cls s = s_cls w" using arg_cong [OF e, of s_cls] by simp
  show "s_cls_shallow s = s_cls_shallow w" using arg_cong [OF e, of s_cls_shallow] by simp
  show "s_cls_slots s = s_cls_slots w" using arg_cong [OF e, of s_cls_slots] by simp
  show "s_likely_cls s = s_likely_cls w" using arg_cong [OF e, of s_likely_cls] by simp
  show "s_ta s = s_ta w" using arg_cong [OF e, of s_ta] by simp
  show "s_src s = s_src w" using arg_cong [OF e, of s_src] by simp
  show "s_iv s = s_iv w" using arg_cong [OF e, of s_iv] by simp
  show "s_iv_grow s = s_iv_grow w" using arg_cong [OF e, of s_iv_grow] by simp
qed

lemma slot_implies_cong:
  "slot_eq a a' \<Longrightarrow> slot_eq b b' \<Longrightarrow> slot_implies a b \<longleftrightarrow> slot_implies a' b'"
  "slot_eq a a' \<Longrightarrow> slot_eq b b' \<Longrightarrow> slot_implies_sans_iv a b \<longleftrightarrow> slot_implies_sans_iv a' b'"
  by (simp_all add: slot_implies_def slot_implies_sans_iv_def slot_eqD [of a a'] slot_eqD [of b b'])

lemma slot_at_trim: "slot_eq (slot_at (trim_end slot_is_top v) i) (slot_at v i)"
  using trim_end_nth [where p = slot_is_top and v = v and i = i] trim_end_length [of slot_is_top v]
  by (auto simp: slot_at_def slot_is_top_def intro: slot_eq_sym)

lemma slots_le_iff: "le SLOT_TOP SLOT_TOP \<Longrightarrow> slots_le le a b \<longleftrightarrow> (\<forall>i. le (slot_at a i) (slot_at b i))"
  by (auto simp: slots_le_def list_all_iff slot_at_def)

lemma slot_join_top [simp]: "slot_join SLOT_TOP SLOT_TOP = SLOT_TOP"
  by (simp add: slot_join_def SLOT_TOP_def iv_join_tolerant_def prov_or_def prims_or_def)

lemma slot_join_iv_top [simp]: "slot_join_iv SLOT_TOP SLOT_TOP = SLOT_TOP"
  by (simp add: slot_join_iv_def SLOT_TOP_def iv_join_tolerant_def)

lemma slot_at_zip: "f SLOT_TOP SLOT_TOP = SLOT_TOP \<Longrightarrow> slot_at (slots_zip f a b) i = f (slot_at a i) (slot_at b i)"
  by (auto simp: slots_zip_def slot_at_def)

lemma slots_zip_nil [simp]: "slots_zip f [] [] = []"
  by (simp add: slots_zip_def)

lemma frame_at_zip:
  "f_locals (frame_at (outer_zip f a b) i) = slots_zip f (f_locals (frame_at a i)) (f_locals (frame_at b i))"
  "f_args (frame_at (outer_zip f a b) i) = slots_zip f (f_args (frame_at a i)) (f_args (frame_at b i))"
  by (auto simp: outer_zip_def frame_at_def frame_default_def)

lemma frame_at_trim:
  "f_locals (frame_at (trim_end frame_is_empty (map frame_canon v)) i) = trim_end slot_is_top (f_locals (frame_at v i))"
  "f_args (frame_at (trim_end frame_is_empty (map frame_canon v)) i) = trim_end slot_is_top (f_args (frame_at v i))"
proof -
  let ?t = "trim_end frame_is_empty (map frame_canon v)"
  have "trim_end slot_is_top [] = []" by (simp add: trim_end_def)
  then have "f_locals (frame_at ?t i) = trim_end slot_is_top (f_locals (frame_at v i)) \<and>
      f_args (frame_at ?t i) = trim_end slot_is_top (f_args (frame_at v i))"
    using trim_end_nth [where p = frame_is_empty and v = "map frame_canon v" and i = i] trim_end_length [of frame_is_empty "map frame_canon v"]
    by (cases "i < length v") (auto simp: frame_at_def frame_default_def frame_canon_def frame_is_empty_def)
  then show "f_locals (frame_at ?t i) = trim_end slot_is_top (f_locals (frame_at v i))"
    "f_args (frame_at ?t i) = trim_end slot_is_top (f_args (frame_at v i))" by simp_all
qed

lemma outer_le_iff:
  assumes "le SLOT_TOP SLOT_TOP"
  shows "outer_le le a b \<longleftrightarrow> (\<forall>i. slots_le le (f_locals (frame_at a i)) (f_locals (frame_at b i)) \<and>
    slots_le le (f_args (frame_at a i)) (f_args (frame_at b i)))"
  using assms by (auto simp: outer_le_def list_all_iff frame_at_def frame_default_def slots_le_def)

section \<open>Binding facts\<close>

lemma gcell_find_map_of: "gcell_find bid v = map_of v bid"
  unfolding gcell_find_def by (induction v) auto

abbreviation gcell_le :: "bool \<Rightarrow> SlotCtx \<Rightarrow> SlotCtx \<Rightarrow> bool" where
  "gcell_le sans \<equiv> (if sans then slot_implies_sans_iv else slot_implies)"

lemma gcells_implies_iff:
  "gcells_implies a b sans \<longleftrightarrow> (\<forall>(bid, w)\<in>set b. \<exists>s. map_of a bid = Some s \<and> gcell_le sans s w)"
  unfolding gcells_implies_def list_all_iff gcell_find_map_of
  by (intro ball_cong refl) (auto split: option.splits)

lemma gcells_implies_refl: "distinct (map fst v) \<Longrightarrow> gcells_implies v v sans"
  by (auto simp: gcells_implies_iff)

lemma gcells_implies_trans: "gcells_implies a b False \<Longrightarrow> gcells_implies b c False \<Longrightarrow> gcells_implies a c False"
  unfolding gcells_implies_iff using slot_implies_trans by (fastforce dest: map_of_SomeD)

lemma gcells_canon_set: "set (gcells_canon v) = {x \<in> set v. \<not> slot_is_top (snd x)}"
  by (auto simp: gcells_canon_def)

lemma gcells_join_set:
  "set (gcells_join a b) = {(bid, j) | bid j. \<exists>s w. (bid, s) \<in> set a \<and> map_of b bid = Some w \<and> j = slot_join s w \<and> \<not> slot_is_top j}"
  by (force simp: gcells_join_def gcell_find_map_of Let_def split: option.splits if_splits)

lemma gcells_join_upper:
  assumes "distinct (map fst a)"
  shows "gcells_implies a (gcells_canon (gcells_join a b)) False" "gcells_implies b (gcells_canon (gcells_join a b)) False"
  using assms slot_join_upper by (auto simp: gcells_implies_iff gcells_canon_set gcells_join_set)

section \<open>Contexts\<close>

lemma slots_implies_zip:
  assumes "\<And>s w. slot_implies s (f s w)" "f SLOT_TOP SLOT_TOP = SLOT_TOP"
  shows "slots_le slot_implies a (trim_end slot_is_top (slots_zip f a b))"
proof -
  have "slot_implies (slot_at a i) (slot_at (trim_end slot_is_top (slots_zip f a b)) i)" for i
    using assms(1) [of "slot_at a i" "slot_at b i"] slot_at_zip [of f a b i, OF assms(2)]
      slot_implies_cong(1) [OF slot_eq_refl slot_at_trim [of "slots_zip f a b" i], of "slot_at a i"] by simp
  then show ?thesis by (simp add: slots_le_iff)
qed

lemma slots_implies_zip2:
  assumes "\<And>i. slot_implies (slot_at b i) (f (slot_at a i) (slot_at b i))" "f SLOT_TOP SLOT_TOP = SLOT_TOP"
  shows "slots_le slot_implies b (trim_end slot_is_top (slots_zip f a b))"
proof -
  have "slot_implies (slot_at b i) (slot_at (trim_end slot_is_top (slots_zip f a b)) i)" for i
    using assms(1) [of i] slot_at_zip [of f a b i, OF assms(2)]
      slot_implies_cong(1) [OF slot_eq_refl slot_at_trim [of "slots_zip f a b" i], of "slot_at b i"] by simp
  then show ?thesis by (simp add: slots_le_iff)
qed

lemma ctx_impliesI:
  assumes "x_tokens c = x_tokens w" "x_track c = x_track w" "slots_le slot_implies (x_locals c) (x_locals w)"
    "slots_le slot_implies (x_stack c) (x_stack w)" "slots_le slot_implies (x_args c) (x_args w)"
    "slots_le slot_implies (x_caller_locals c) (x_caller_locals w)" "slots_le slot_implies (x_caller_args c) (x_caller_args w)"
    "\<And>i. slots_le slot_implies (f_locals (frame_at (x_outer c) i)) (f_locals (frame_at (x_outer w) i))"
    "\<And>i. slots_le slot_implies (f_args (frame_at (x_outer c) i)) (f_args (frame_at (x_outer w) i))"
    "gcells_implies (x_gcells c) (x_gcells w) False"
  shows "ctx_implies c w"
  using assms by (simp add: ctx_implies_def ctx_le_def outer_le_iff)

lemmas canon_sel = canon_def frame_at_trim frame_at_zip

lemma ctx_join_upper:
  assumes "x_tokens a = x_tokens w" "x_track a = x_track w" "distinct (map fst (x_gcells a))"
  shows "ctx_implies a (ctx_join a w)" "ctx_implies w (ctx_join a w)"
  using assms
  by (auto intro!: ctx_impliesI slots_implies_zip slots_implies_zip2 slot_join_upper gcells_join_upper simp: ctx_join_def canon_sel)

text \<open>The facts a stored binding vector may keep when only the intervals move.\<close>

lemma gcells_canon_implies: "gcells_implies a b sans \<Longrightarrow> gcells_implies a (gcells_canon b) sans"
  by (auto simp: gcells_implies_iff gcells_canon_set)

lemma ctx_sans_ivD:
  assumes "ctx_implies_sans_iv a w"
  shows "x_tokens a = x_tokens w" "x_track a = x_track w"
    "\<And>i. slot_implies_sans_iv (slot_at (x_locals a) i) (slot_at (x_locals w) i)"
    "\<And>i. slot_implies_sans_iv (slot_at (x_stack a) i) (slot_at (x_stack w) i)"
    "\<And>i. slot_implies_sans_iv (slot_at (x_args a) i) (slot_at (x_args w) i)"
    "\<And>i. slot_implies_sans_iv (slot_at (x_caller_locals a) i) (slot_at (x_caller_locals w) i)"
    "\<And>i. slot_implies_sans_iv (slot_at (x_caller_args a) i) (slot_at (x_caller_args w) i)"
    "\<And>j i. slot_implies_sans_iv (slot_at (f_locals (frame_at (x_outer a) j)) i) (slot_at (f_locals (frame_at (x_outer w) j)) i)"
    "\<And>j i. slot_implies_sans_iv (slot_at (f_args (frame_at (x_outer a) j)) i) (slot_at (f_args (frame_at (x_outer w) j)) i)"
    "gcells_implies (x_gcells a) (x_gcells w) True"
  using assms by (simp_all add: ctx_implies_sans_iv_def ctx_le_def outer_le_iff slots_le_iff)

lemma join_iv_only_upper:
  assumes "distinct (map fst (x_gcells w))"
  shows "ctx_implies w (join_iv_only w a)"
    "ctx_implies_sans_iv a w \<Longrightarrow> gcells_implies (x_gcells a) (x_gcells w) False \<Longrightarrow> ctx_implies a (join_iv_only w a)"
proof -
  show "ctx_implies w (join_iv_only w a)"
    using gcells_canon_implies [OF gcells_implies_refl [OF assms]]
    by (auto intro!: ctx_impliesI slots_implies_zip slot_join_iv_upper simp: join_iv_only_def canon_sel)
  assume "ctx_implies_sans_iv a w" "gcells_implies (x_gcells a) (x_gcells w) False"
  then show "ctx_implies a (join_iv_only w a)"
    using gcells_canon_implies
    by (auto intro!: ctx_impliesI slots_implies_zip2 slot_join_iv_upper(2) dest: ctx_sans_ivD simp: join_iv_only_def canon_sel)
qed

lemma ctx_implies_refl: "distinct (map fst (x_gcells c)) \<Longrightarrow> ctx_implies c c"
  by (auto intro!: ctx_impliesI gcells_implies_refl simp: slots_le_iff)

section \<open>A context as a table of facts\<close>

text \<open>The slot vectors of a context under one index: the five of its own frame, then two per caller frame.\<close>

definition vec :: "Ctx \<Rightarrow> nat \<Rightarrow> SlotCtx list" where
  "vec c k =
     (if k < 5 then [x_locals c, x_stack c, x_args c, x_caller_locals c, x_caller_args c] ! k
      else if even (k - 5) then f_locals (frame_at (x_outer c) ((k - 5) div 2)) else f_args (frame_at (x_outer c) ((k - 5) div 2)))"

abbreviation fact_at :: "Ctx \<Rightarrow> nat \<Rightarrow> nat \<Rightarrow> SlotCtx" where
  "fact_at c k \<equiv> slot_at (vec c k)"

definition gcell_at :: "Ctx \<Rightarrow> u32 \<Rightarrow> SlotCtx" where
  "gcell_at c bid = (case map_of (x_gcells c) bid of Some s \<Rightarrow> s | None \<Rightarrow> SLOT_TOP)"

lemma five: "(k :: nat) < 5 \<longleftrightarrow> k = 0 \<or> k = 1 \<or> k = 2 \<or> k = 3 \<or> k = 4"
  by arith

lemma vec_canon: "vec (canon c) k = trim_end slot_is_top (vec c k)"
  by (cases "k < 5") (auto simp: vec_def canon_def frame_at_trim five)

lemma vec_join_iv: "vec (join_iv_only w a) k = trim_end slot_is_top (slots_zip slot_join_iv (vec w k) (vec a k))"
  unfolding join_iv_only_def vec_canon by (cases "k < 5") (auto simp: vec_def frame_at_zip five)

lemma vec_join: "vec (ctx_join a w) k = trim_end slot_is_top (slots_zip slot_join (vec a k) (vec w k))"
  unfolding ctx_join_def vec_canon by (cases "k < 5") (auto simp: vec_def frame_at_zip five)

lemma fact_join: "slot_eq (fact_at (ctx_join a w) k i) (slot_join (fact_at a k i) (fact_at w k i))"
  unfolding vec_join using slot_at_trim [of "slots_zip slot_join (vec a k) (vec w k)" i] by (simp add: slot_at_zip)

lemma fact_join_iv: "slot_eq (fact_at (join_iv_only w a) k i) (slot_join_iv (fact_at w k i) (fact_at a k i))"
  unfolding vec_join_iv using slot_at_trim [of "slots_zip slot_join_iv (vec w k) (vec a k)" i] by (simp add: slot_at_zip)

text \<open>Canonical form: no trailing top slots or empty frames, binding facts sorted by id and none of them top.\<close>

definition trimmed :: "SlotCtx list \<Rightarrow> bool" where
  "trimmed v = (v = [] \<or> \<not> slot_is_top (last v))"

definition canonical :: "Ctx \<Rightarrow> bool" where
  "canonical c = ((\<forall>k. trimmed (vec c k)) \<and> (x_outer c = [] \<or> \<not> frame_is_empty (last (x_outer c))) \<and>
     strict_asc (map fst (x_gcells c)) \<and> (\<forall>(_, s)\<in>set (x_gcells c). \<not> slot_is_top s))"

lemma trim_trimmed: "trimmed (trim_end slot_is_top v)"
  using trim_end_last [of slot_is_top v] by (auto simp: trimmed_def)

lemma sort_strict:
  assumes "distinct (map f xs)"
  shows "strict_asc (map f (sort_key f xs))"
proof -
  have "sorted (map f (sort_key f xs))" by simp
  moreover have "distinct (map f (sort_key f xs))"
    using assms by (metis distinct_map distinct_sort set_sort)
  ultimately show ?thesis using strict_sorted_iff by blast
qed

lemma canonical_canon:
  assumes "distinct (map fst (x_gcells c))"
  shows "canonical (canon c)"
proof -
  have "distinct (map fst (filter (\<lambda>(_, s). \<not> slot_is_top s) (x_gcells c)))" using assms by (rule distinct_map_filter)
  from sort_strict [OF this] have "strict_asc (map fst (gcells_canon (x_gcells c)))" by (simp add: gcells_canon_def)
  moreover have "x_outer (canon c) = [] \<or> \<not> frame_is_empty (last (x_outer (canon c)))"
    using trim_end_last [of frame_is_empty "map frame_canon (x_outer c)"] by (auto simp: canon_def)
  ultimately show ?thesis
    unfolding canonical_def by (auto simp: vec_canon trim_trimmed gcells_canon_set) (simp_all add: canon_def gcells_canon_set)
qed

lemma canonical_distinct: "canonical c \<Longrightarrow> distinct (map fst (x_gcells c))"
  by (auto simp: canonical_def strict_sorted_iff)

section \<open>Equality of canonical contexts\<close>

lemma trimmed_eq:
  assumes "trimmed a" "trimmed b" "\<And>i. slot_eq (slot_at a i) (slot_at b i)"
  shows "slots_eq a b"
proof -
  have le: "length x \<le> length y" if "trimmed x" "\<And>i. slot_eq (slot_at x i) (slot_at y i)" for x y
  proof (rule ccontr)
    assume "\<not> length x \<le> length y"
    then have l: "length y < length x" "x \<noteq> []" by auto
    then have "slot_at x (length x - 1) = last x" "slot_at y (length x - 1) = SLOT_TOP"
      by (simp_all add: slot_at_def last_conv_nth)
    with that(2) [of "length x - 1"] that(1) l(2) show False by (simp add: trimmed_def slot_is_top_def)
  qed
  have "length a = length b" using le [of a b] le [of b a] assms slot_eq_sym by force
  moreover have "slot_eq (a ! i) (b ! i)" if "i < length a" "i < length b" for i using assms(3) [of i] that by (simp add: slot_at_def)
  ultimately show ?thesis by (simp add: slots_eq_def list_all2_conv_all_nth)
qed

lemma vec_frame: "vec c (5 + 2 * j) = f_locals (frame_at (x_outer c) j)" "vec c (6 + 2 * j) = f_args (frame_at (x_outer c) j)"
  by (simp_all add: vec_def)

lemma outer_length_le:
  assumes "canonical a" "\<And>k. slots_eq (vec a k) (vec b k)"
  shows "length (x_outer a) \<le> length (x_outer b)"
proof (rule ccontr)
  assume "\<not> length (x_outer a) \<le> length (x_outer b)"
  then have l: "length (x_outer b) < length (x_outer a)" "x_outer a \<noteq> []" by auto
  let ?j = "length (x_outer a) - 1"
  have "frame_at (x_outer b) ?j = frame_default" "frame_at (x_outer a) ?j = last (x_outer a)"
    using l by (simp_all add: frame_at_def last_conv_nth)
  with assms(2) [of "5 + 2 * ?j"] assms(2) [of "6 + 2 * ?j"] have "frame_is_empty (last (x_outer a))"
    unfolding vec_frame by (simp add: slots_eq_def frame_default_def frame_is_empty_def)
  with assms(1) l(2) show False by (simp add: canonical_def)
qed

lemma slots_eq_sym: "slots_eq a b \<Longrightarrow> slots_eq b a"
  by (auto simp: slots_eq_def list_all2_conv_all_nth intro: slot_eq_sym)

lemma gcells_eq:
  assumes a: "strict_asc (map fst (x_gcells a))" "\<forall>(_, s)\<in>set (x_gcells a). \<not> slot_is_top s"
    and b: "strict_asc (map fst (x_gcells b))" "\<forall>(_, s)\<in>set (x_gcells b). \<not> slot_is_top s"
    and e: "\<And>bid. slot_eq (gcell_at a bid) (gcell_at b bid)"
  shows "list_all2 (\<lambda>(x, s) (y, w). x = y \<and> slot_eq s w) (x_gcells a) (x_gcells b)"
proof -
  have key: "bid \<in> fst ` set (x_gcells c) \<longleftrightarrow> \<not> slot_is_top (gcell_at c bid)"
    if "\<forall>(_, s)\<in>set (x_gcells c). \<not> slot_is_top s" for c bid
  proof (cases "map_of (x_gcells c) bid")
    case None
    then have "gcell_at c bid = SLOT_TOP" by (simp only: gcell_at_def option.case)
    moreover have "bid \<notin> fst ` set (x_gcells c)" using None by (simp only: map_of_eq_None_iff not_False_eq_True)
    ultimately show ?thesis by (simp add: slot_is_top_def)
  next
    case (Some s)
    then have "(bid, s) \<in> set (x_gcells c)" by (rule map_of_SomeD)
    with that Some show ?thesis by (force simp: gcell_at_def)
  qed
  have top: "slot_is_top (gcell_at a bid) \<longleftrightarrow> slot_is_top (gcell_at b bid)" for bid
    using e [of bid] slot_eq_sym slot_eq_trans unfolding slot_is_top_def by blast
  have "set (map fst (x_gcells a)) = set (map fst (x_gcells b))" unfolding set_map using key [OF a(2)] key [OF b(2)] top by blast
  with a(1) b(1) have keys: "map fst (x_gcells a) = map fst (x_gcells b)"
    by (simp add: strict_sorted_equal del: set_map)
  have len: "length (x_gcells a) = length (x_gcells b)" using arg_cong [OF keys, of length] by simp
  show ?thesis
  proof (rule list_all2_all_nthI [OF len])
    fix n assume n: "n < length (x_gcells a)"
    obtain x s y w where xs: "x_gcells a ! n = (x, s)" and yw: "x_gcells b ! n = (y, w)" by fastforce
    have "x = y" using arg_cong [OF keys, of "\<lambda>l. l ! n"] n len xs yw by simp
    moreover have "map_of (x_gcells a) x = Some s" "map_of (x_gcells b) y = Some w"
      using a(1) b(1) n len xs yw nth_mem [of n "x_gcells a"] nth_mem [of n "x_gcells b"]
      by (auto simp: strict_sorted_iff intro: map_of_is_SomeI)
    ultimately show "(\<lambda>(x, s) (y, w). x = y \<and> slot_eq s w) (x_gcells a ! n) (x_gcells b ! n)"
      using e [of x] xs yw by (simp add: gcell_at_def)
  qed
qed

lemma canonical_eq:
  assumes a: "canonical a" and b: "canonical b" and e: "\<And>k i. slot_eq (fact_at a k i) (fact_at b k i)" "\<And>bid. slot_eq (gcell_at a bid) (gcell_at b bid)"
    and m: "x_tokens a = x_tokens b" "x_carried a = x_carried b" "x_track a = x_track b"
  shows "ctx_eq a b"
proof -
  have v: "slots_eq (vec a k) (vec b k)" for k using a b e(1) by (intro trimmed_eq) (auto simp: canonical_def)
  have len: "length (x_outer a) = length (x_outer b)"
    using outer_length_le [OF a v] outer_length_le [OF b slots_eq_sym [OF v]] by simp
  have "list_all2 (\<lambda>f g. slots_eq (f_locals f) (f_locals g) \<and> slots_eq (f_args f) (f_args g)) (x_outer a) (x_outer b)"
  proof (rule list_all2_all_nthI [OF len])
    fix n assume "n < length (x_outer a)"
    with v [of "5 + 2 * n"] v [of "6 + 2 * n"] len
    show "slots_eq (f_locals (x_outer a ! n)) (f_locals (x_outer b ! n)) \<and> slots_eq (f_args (x_outer a ! n)) (f_args (x_outer b ! n))"
      unfolding vec_frame by (simp add: frame_at_def)
  qed
  moreover have "list_all2 (\<lambda>(x, s) (y, w). x = y \<and> slot_eq s w) (x_gcells a) (x_gcells b)"
    using a b e(2) by (intro gcells_eq) (auto simp: canonical_def)
  ultimately show ?thesis
    using m v [of 0] v [of 1] v [of 2] v [of 3] v [of 4] by (simp add: ctx_eq_def vec_def)
qed

section \<open>Binding facts\<close>

text \<open>
  The binding facts in use are claim shapes and their joins: one that is an int32 and nothing else has the
  whole int32 interval, every other none.
\<close>

definition tag_iv :: "SlotCtx \<Rightarrow> bool" where
  "tag_iv s = (s_iv s = (if \<not> s_outside s \<and> subset_of (s_prims s) PRIM_INT32 then Some (vr I32_LO I32_HI) else None))"

definition tag_ivs :: "Ctx \<Rightarrow> bool" where
  "tag_ivs c = (\<forall>(_, s)\<in>set (x_gcells c). tag_iv s)"

lemma claim_slot_tag_iv: "tag_iv (claim_slot_ctx sh)"
  by (cases sh) (simp_all add: tag_iv_def OBJ_ONLY_SLOT_def INT32_SLOT_def DOUBLE_SLOT_def NUMERIC_SLOT_def STR_SLOT_def BOOL_SLOT_def SYM_SLOT_def
      SLOT_TOP_def, code_simp+)

lemma subset_of_or_iff: "subset_of (prims_or a b) c \<longleftrightarrow> subset_of a c \<and> subset_of b c"
  by (auto simp: subset_of_classes)

lemma tag_iv_join: "tag_iv s \<Longrightarrow> tag_iv w \<Longrightarrow> tag_iv (slot_join s w)"
  by (auto simp: tag_iv_def slot_join_def iv_join_tolerant_def hull_def subset_of_or_iff vr_def Let_def split: prod.splits option.splits if_splits)

lemma tag_ivs_joined: "tag_ivs a \<Longrightarrow> tag_ivs w \<Longrightarrow> tag_ivs (joined_arrival w a)"
  by (auto simp: tag_ivs_def joined_arrival_def ctx_join_def join_iv_only_def canon_def gcells_canon_set gcells_join_set
      intro: tag_iv_join dest!: map_of_SomeD)

lemma tag_iv_sans: "tag_iv s \<Longrightarrow> tag_iv w \<Longrightarrow> slot_implies_sans_iv s w \<Longrightarrow> slot_implies s w"
  by (auto simp: tag_iv_def slot_implies_def slot_implies_sans_iv_def subset_of_classes split: if_splits)

lemma gcells_tag_iv:
  assumes "tag_ivs w" "tag_ivs a" "gcells_implies (x_gcells a) (x_gcells w) True"
  shows "gcells_implies (x_gcells a) (x_gcells w) False"
  using assms tag_iv_sans unfolding gcells_implies_iff tag_ivs_def by (fastforce dest: map_of_SomeD)

section \<open>Equal contexts\<close>

lemma slots_eq_at: "slots_eq a b \<Longrightarrow> slot_eq (slot_at a i) (slot_at b i)"
  by (auto simp: slots_eq_def slot_at_def list_all2_conv_all_nth)

lemma ctx_eq_refl [simp]: "ctx_eq c c"
  by (auto simp: ctx_eq_def slots_eq_def list_all2_conv_all_nth)

lemma slots_le_cong: "slots_eq j w \<Longrightarrow> slots_le slot_implies a j \<Longrightarrow> slots_le slot_implies a w"
  using slots_eq_at slot_implies_cong(1) [OF slot_eq_refl] by (fastforce simp: slots_le_iff)

lemma gcells_find_cong:
  "list_all2 (\<lambda>(x, s) (y, w). x = y \<and> slot_eq s w) a b \<Longrightarrow> rel_option slot_eq (map_of a bid) (map_of b bid)"
  by (induction rule: list_all2_induct) (auto split: if_splits)

lemma gcells_le_cong:
  assumes "list_all2 (\<lambda>(x, s) (y, w). x = y \<and> slot_eq s w) j w" "gcells_implies a j False"
  shows "gcells_implies a w False"
  unfolding gcells_implies_iff
proof clarify
  fix bid s assume "(bid, s) \<in> set w"
  then obtain n where n: "n < length w" "w ! n = (bid, s)" by (auto simp: in_set_conv_nth)
  with assms(1) obtain u where u: "j ! n = (bid, u)" "slot_eq u s" "n < length j"
    by (cases "j ! n") (auto simp: list_all2_conv_all_nth)
  then have "(bid, u) \<in> set j" by (metis nth_mem)
  with assms(2) obtain v where "map_of a bid = Some v" "slot_implies v u" unfolding gcells_implies_iff by fastforce
  then show "\<exists>v. map_of a bid = Some v \<and> gcell_le False v s" using u(2) slot_implies_cong(1) [OF slot_eq_refl] by auto
qed

lemma ctx_implies_eq:
  assumes "ctx_eq j w" "ctx_implies a j"
  shows "ctx_implies a w"
proof -
  note e = assms(1) [unfolded ctx_eq_def]
  note i = assms(2) [unfolded ctx_implies_def ctx_le_def]
  have f: "slots_eq (f_locals (frame_at (x_outer j) n)) (f_locals (frame_at (x_outer w) n))"
    "slots_eq (f_args (frame_at (x_outer j) n)) (f_args (frame_at (x_outer w) n))" for n
    using e by (auto simp: frame_at_def list_all2_conv_all_nth frame_default_def slots_eq_def)
  have o: "slots_le slot_implies (f_locals (frame_at (x_outer a) n)) (f_locals (frame_at (x_outer j) n))"
    "slots_le slot_implies (f_args (frame_at (x_outer a) n)) (f_args (frame_at (x_outer j) n))" for n
    using i by (simp_all add: outer_le_iff)
  show ?thesis
    using e i by (intro ctx_impliesI slots_le_cong [OF f(1) o(1)] slots_le_cong [OF f(2) o(2)]) (auto intro: slots_le_cong gcells_le_cong)
qed

lemma joined_upper:
  assumes "x_tokens a = x_tokens w" "x_track a = x_track w" "distinct (map fst (x_gcells a))" "distinct (map fst (x_gcells w))" "tag_ivs w" "tag_ivs a"
  shows "ctx_implies a (joined_arrival w a)" "ctx_implies w (joined_arrival w a)"
  using ctx_join_upper [OF assms(1-3)] join_iv_only_upper [OF assms(4)] gcells_tag_iv [OF assms(5,6)] ctx_sans_ivD(10) [of a w]
  by (auto simp: joined_arrival_def)

end
