(* ===== verification/Predict_Bound.thy ===== *)
theory Predict_Bound
  imports Ctx_Order
begin

text \<open>
  The prediction table (\<^verbatim>\<open>compiler/src/wasm/bbv/predict.rs\<close>): a joined prediction covers the arrival and the old
  prediction, and the prediction of a program point moves boundedly often. The bound ranks every fact by how far it
  has weakened; a join that changes the stored context raises the rank of at least one fact and lowers none.
\<close>

section \<open>How far a fact has weakened\<close>

definition cls_rank :: "(u16 \<times> u16) option \<Rightarrow> nat" where
  "cls_rank c = (case c of None \<Rightarrow> 131071 | Some (l, h) \<Rightarrow> 65535 - unat l + unat h)"

fun rb_rank :: "RangeBucket \<Rightarrow> nat" where
  "rb_rank RB_I32 = 0"
| "rb_rank RB_I53 = 1"
| "rb_rank RB_Top = 2"

definition flag_rank :: "bool \<Rightarrow> nat" where
  "flag_rank held = (if held then 0 else 1)"

definition fact_rank :: "SlotCtx \<Rightarrow> nat" where
  "fact_rank s =
     card (classes (s_prims s)) + flag_rank (\<not> s_outside s) + rb_rank (s_range s) + cls_rank (s_cls s) + flag_rank (s_cls_shallow s) +
     flag_rank (s_cls_slots s) + cls_rank (s_likely_cls s) + flag_rank (s_ta s \<noteq> None) + flag_rank (s_src s \<noteq> None) +
     slot_rank (s_iv s, s_iv_grow s)"

lemma u16_bound: "unat (x :: u16) \<le> 65535"
proof -
  have "unat x < 2 ^ LENGTH(16)" by (rule unsigned_less)
  then show ?thesis by simp
qed

lemma cls_rank_Some: "cls_rank (Some p) \<le> 131070"
  using u16_bound [of "snd p"] by (cases p) (simp add: cls_rank_def)

lemma cls_rank_bound: "cls_rank c \<le> 131071"
  using cls_rank_Some [of "the c"] by (cases c) (auto simp: cls_rank_def)

lemma fact_rank_bound:
  assumes "s_iv_grow s \<le> 3"
  shows "fact_rank s \<le> 262178"
proof -
  have "slot_rank (s_iv s, s_iv_grow s) \<le> 13" using recorded_slot.rank_bound [of "(s_iv s, s_iv_grow s)"] assms by (simp add: slot_ok_def)
  moreover have "rb_rank (s_range s) \<le> 2" by (cases "s_range s") auto
  moreover have f: "flag_rank b \<le> 1" for b by (simp add: flag_rank_def)
  note f [of "\<not> s_outside s"] f [of "s_cls_shallow s"] f [of "s_cls_slots s"] f [of "s_ta s \<noteq> None"] f [of "s_src s \<noteq> None"]
    classes_card [of "s_prims s"] cls_rank_bound [of "s_cls s"] cls_rank_bound [of "s_likely_cls s"]
  ultimately show ?thesis unfolding fact_rank_def by linarith
qed

text \<open>Each component of a join ranks at least the stored one, and equally only when it is the stored one.\<close>

lemma cls_rank_join: "cls_rank w \<le> cls_rank (cls_join s w) \<and> (cls_rank (cls_join s w) = cls_rank w \<longrightarrow> cls_join s w = w)"
proof (cases s)
  case None
  then have "cls_join s w = None" by simp
  moreover have "cls_rank None = 131071" by (simp add: cls_rank_def)
  ultimately show ?thesis using cls_rank_Some [of "the w"] by (cases w) auto
next
  case (Some p)
  show ?thesis
  proof (cases w)
    case None
    with Some show ?thesis by (cases p) (simp add: cls_rank_def)
  next
    case (Some q)
    obtain a b c d where "p = (a, b)" "q = (c, d)" by fastforce
    with Some \<open>s = Some p\<close> show ?thesis using u16_bound [of a] u16_bound [of c]
      by (auto simp: cls_rank_def min_def max_def word_le_nat_alt word_unat_eq_iff)
  qed
qed

lemma iv_rank_join:
  assumes "g \<le> 3" "iv_join_tolerant a b g = (u, g')"
  shows "slot_rank (b, g) \<le> slot_rank (u, g') \<and> (slot_rank (u, g') = slot_rank (b, g) \<longrightarrow> u = b \<and> g' = g)" "g' \<le> 3"
proof -
  have ok: "slot_ok (b, g)" using assms(1) by (simp add: slot_ok_def)
  have both: "(slot_rank (b, g) \<le> slot_rank (u, g') \<and> (slot_rank (u, g') = slot_rank (b, g) \<longrightarrow> u = b \<and> g' = g)) \<and> g' \<le> 3"
  proof (cases a)
    case None
    then have "u = None" "g' = 0" using assms(2) by (simp_all add: iv_join_tolerant_def)
    moreover have "slot_rank (b, g) \<le> 13" using recorded_slot.rank_bound [OF ok] .
    moreover have "b = None \<and> g = 0" if "slot_rank (b, g) = 13"
    proof (cases b)
      case None
      with that show ?thesis by (cases "g = 0") (simp_all add: slot_rank_def)
    next
      case (Some w)
      with that have "g + lo_rung (lo w) + hi_rung (hi w) = 13" by (simp add: slot_rank_def)
      with assms(1) rung_le4(1) [of "lo w"] rung_le4(2) [of "hi w"] show ?thesis by linarith
    qed
    moreover have "slot_rank (None, 0) = 13" by (simp add: slot_rank_def)
    ultimately show ?thesis by auto
  next
    case (Some n)
    then have "slot_upd (b, g) n = (u, g')" using assms(2) by (simp add: slot_upd_def)
    with recorded_slot.rank_grow [OF ok, of n] recorded_slot.ok_upd [OF ok, of n] show ?thesis
      by (cases "(u, g') = (b, g)") (auto simp: slot_ok_def)
  qed
  then show "slot_rank (b, g) \<le> slot_rank (u, g') \<and> (slot_rank (u, g') = slot_rank (b, g) \<longrightarrow> u = b \<and> g' = g)" "g' \<le> 3" by simp_all
qed

lemma rb_rank_join:
  "rb_rank w \<le> rb_rank (if rb_implies s w then w else s) \<and> (rb_rank (if rb_implies s w then w else s) = rb_rank w \<longrightarrow> (if rb_implies s w then w else s) = w)"
  by (cases s; cases w) auto

lemma classes_rank_join:
  "card (classes w) \<le> card (classes (prims_or s w)) \<and> (card (classes (prims_or s w)) = card (classes w) \<longrightarrow> prims_or s w = w)"
proof -
  have "classes w \<subseteq> classes (prims_or s w)" by simp
  then show ?thesis using card_mono [OF classes_finite] card_subset_eq [OF classes_finite] classes_inject by metis
qed

text \<open>Sums of such components.\<close>

lemma rank_add:
  assumes "(a :: nat) \<le> a'" "b \<le> b'"
  shows "a + b \<le> a' + b'" "a' + b' = a + b \<longleftrightarrow> a' = a \<and> b' = b"
  using assms by auto

lemma slot_eqI:
  assumes "s_prims s = s_prims w" "s_outside s = s_outside w" "s_range s = s_range w" "s_cls s = s_cls w"
    "s_cls_shallow s = s_cls_shallow w" "s_cls_slots s = s_cls_slots w" "s_likely_cls s = s_likely_cls w" "s_ta s = s_ta w"
    "s_src s = s_src w" "s_iv s = s_iv w" "s_iv_grow s = s_iv_grow w"
  shows "slot_eq s w"
  using assms unfolding slot_eq_def by (cases s; cases w) simp

lemma fact_rank_join:
  assumes "s_iv_grow w \<le> 3"
  shows "fact_rank w \<le> fact_rank (slot_join s w)" "fact_rank (slot_join s w) = fact_rank w \<Longrightarrow> slot_eq (slot_join s w) w"
    "s_iv_grow (slot_join s w) \<le> 3"
proof -
  obtain u g where u: "iv_join_tolerant (s_iv s) (s_iv w) (s_iv_grow w) = (u, g)" by fastforce
  let ?j = "slot_join s w"
  have j: "s_iv ?j = u" "s_iv_grow ?j = g" by (simp_all add: slot_join_def u)
  have r: "card (classes (s_prims w)) \<le> card (classes (s_prims ?j))" "flag_rank (\<not> s_outside w) \<le> flag_rank (\<not> s_outside ?j)"
    "rb_rank (s_range w) \<le> rb_rank (s_range ?j)" "cls_rank (s_cls w) \<le> cls_rank (s_cls ?j)"
    "flag_rank (s_cls_shallow w) \<le> flag_rank (s_cls_shallow ?j)" "flag_rank (s_cls_slots w) \<le> flag_rank (s_cls_slots ?j)"
    "cls_rank (s_likely_cls w) \<le> cls_rank (s_likely_cls ?j)" "flag_rank (s_ta w \<noteq> None) \<le> flag_rank (s_ta ?j \<noteq> None)"
    "flag_rank (s_src w \<noteq> None) \<le> flag_rank (s_src ?j \<noteq> None)" "slot_rank (s_iv w, s_iv_grow w) \<le> slot_rank (s_iv ?j, s_iv_grow ?j)"
    using classes_rank_join rb_rank_join cls_rank_join iv_rank_join(1) [OF assms u]
    by (simp_all add: slot_join_def u flag_rank_def)
  then show "fact_rank w \<le> fact_rank ?j" unfolding fact_rank_def by (intro add_mono)
  show "s_iv_grow ?j \<le> 3" using iv_rank_join(2) [OF assms u] j by simp
  assume "fact_rank ?j = fact_rank w"
  then have q: "card (classes (s_prims ?j)) = card (classes (s_prims w))" "flag_rank (\<not> s_outside ?j) = flag_rank (\<not> s_outside w)"
    "rb_rank (s_range ?j) = rb_rank (s_range w)" "cls_rank (s_cls ?j) = cls_rank (s_cls w)"
    "flag_rank (s_cls_shallow ?j) = flag_rank (s_cls_shallow w)" "flag_rank (s_cls_slots ?j) = flag_rank (s_cls_slots w)"
    "cls_rank (s_likely_cls ?j) = cls_rank (s_likely_cls w)" "flag_rank (s_ta ?j \<noteq> None) = flag_rank (s_ta w \<noteq> None)"
    "flag_rank (s_src ?j \<noteq> None) = flag_rank (s_src w \<noteq> None)" "slot_rank (s_iv ?j, s_iv_grow ?j) = slot_rank (s_iv w, s_iv_grow w)"
    unfolding fact_rank_def using r by linarith+
  show "slot_eq ?j w"
  proof (rule slot_eqI)
    show "s_prims ?j = s_prims w" using q(1) classes_rank_join by (simp add: slot_join_def u)
    show "s_range ?j = s_range w" using q(3) rb_rank_join by (simp add: slot_join_def u)
    show "s_cls ?j = s_cls w" "s_likely_cls ?j = s_likely_cls w" using q(4,7) cls_rank_join by (simp_all add: slot_join_def u)
    show "s_iv ?j = s_iv w" "s_iv_grow ?j = s_iv_grow w" using q(10) iv_rank_join(1) [OF assms u] j by simp_all
    show "s_outside ?j = s_outside w" "s_cls_shallow ?j = s_cls_shallow w" "s_cls_slots ?j = s_cls_slots w" "s_ta ?j = s_ta w" "s_src ?j = s_src w"
      using q(2,5,6,8,9) by (auto simp: slot_join_def u flag_rank_def split: if_splits)
  qed
qed

lemma fact_rank_join_iv:
  assumes "s_iv_grow w \<le> 3"
  shows "fact_rank w \<le> fact_rank (slot_join_iv w s)" "fact_rank (slot_join_iv w s) = fact_rank w \<Longrightarrow> slot_eq (slot_join_iv w s) w"
    "s_iv_grow (slot_join_iv w s) \<le> 3"
proof -
  obtain u g where u: "iv_join_tolerant (s_iv s) (s_iv w) (s_iv_grow w) = (u, g)" by fastforce
  have j: "slot_join_iv w s = w\<lparr>s_iv := u, s_iv_grow := g\<rparr>" by (simp add: slot_join_iv_def u)
  note r = iv_rank_join [OF assms u]
  show "fact_rank w \<le> fact_rank (slot_join_iv w s)" "s_iv_grow (slot_join_iv w s) \<le> 3" using r by (simp_all add: j fact_rank_def)
  assume "fact_rank (slot_join_iv w s) = fact_rank w"
  then have "u = s_iv w" "g = s_iv_grow w" using r(1) by (simp_all add: j fact_rank_def)
  then show "slot_eq (slot_join_iv w s) w" by (simp add: j slot_eq_def)
qed

lemma fact_rank_cong: "slot_eq s w \<Longrightarrow> fact_rank s = fact_rank w"
  by (simp add: fact_rank_def slot_eqD [of s w])

section \<open>Facts in use and the top fact\<close>

definition fact_ok :: "SlotCtx \<Rightarrow> bool" where
  "fact_ok s = (s_iv_grow s \<le> 3 \<and> classes (s_prims s) \<subseteq> {..<8})"

lemma fact_ok_cong: "slot_eq s w \<Longrightarrow> fact_ok s \<longleftrightarrow> fact_ok w"
  by (simp add: fact_ok_def slot_eqD [of s w])

lemma fact_ok_top [simp]: "fact_ok SLOT_TOP"
  by (simp add: fact_ok_def SLOT_TOP_def classes_ALL)

lemma prims_all: "classes p \<subseteq> {..<8} \<Longrightarrow> prims_or ALL_PRIMS p = ALL_PRIMS" "classes p \<subseteq> {..<8} \<Longrightarrow> prims_or p ALL_PRIMS = ALL_PRIMS"
  by (auto simp: classes_ALL simp flip: classes_inject)

lemma join_with_top:
  assumes "classes (s_prims s) \<subseteq> {..<8}"
  shows "slot_eq (slot_join SLOT_TOP s) SLOT_TOP" "slot_eq (slot_join s SLOT_TOP) SLOT_TOP"
proof -
  have n: "cls_join None c = None" "cls_join c None = None" for c by (cases c; simp)+
  show "slot_eq (slot_join SLOT_TOP s) SLOT_TOP" "slot_eq (slot_join s SLOT_TOP) SLOT_TOP"
    by (rule slot_eqI; simp add: slot_join_def SLOT_TOP_def prims_all [OF assms] iv_join_tolerant_def n split: option.splits)+
qed

lemma fact_ok_join:
  assumes "fact_ok w" "classes (s_prims s) \<subseteq> {..<8}"
  shows "fact_ok (slot_join s w)" "fact_ok (slot_join_iv w s)"
proof -
  have "s_prims (slot_join_iv w s) = s_prims w" by (simp add: slot_join_iv_def split: prod.split)
  moreover have "s_prims (slot_join s w) = prims_or (s_prims s) (s_prims w)" by (simp add: slot_join_def split: prod.split)
  ultimately show "fact_ok (slot_join s w)" "fact_ok (slot_join_iv w s)"
    using assms fact_rank_join(3) fact_rank_join_iv(3) by (auto simp: fact_ok_def)
qed

section \<open>The binding facts of a join\<close>

lemma gcell_at_mem: "distinct (map fst (x_gcells c)) \<Longrightarrow> (bid, s) \<in> set (x_gcells c) \<Longrightarrow> gcell_at c bid = s"
  by (simp add: gcell_at_def)

lemma gcell_at_none:
  assumes "\<And>s. (bid, s) \<notin> set (x_gcells c)"
  shows "gcell_at c bid = SLOT_TOP"
proof -
  have "map_of (x_gcells c) bid = None" using assms map_of_SomeD by (cases "map_of (x_gcells c) bid") fastforce+
  then show ?thesis unfolding gcell_at_def by (simp only: option.case)
qed

lemma gcells_join_distinct:
  "fst ` set (gcells_join a b) \<subseteq> fst ` set a \<and> (distinct (map fst a) \<longrightarrow> distinct (map fst (gcells_join a b)))"
proof (induction a)
  case (Cons x a)
  obtain bid s where x: "x = (bid, s)" by (cases x)
  have "gcells_join (x # a) b = (case gcell_find bid b of None \<Rightarrow> [] | Some w \<Rightarrow>
      if slot_is_top (slot_join s w) then [] else [(bid, slot_join s w)]) @ gcells_join a b"
    by (simp add: gcells_join_def x Let_def split: option.split)
  moreover have "bid \<notin> fst ` set (gcells_join a b)" if "bid \<notin> fst ` set a" using Cons.IH that by blast
  ultimately show ?case using Cons.IH x by (auto simp: image_iff split: option.splits) force+
qed (simp add: gcells_join_def)

lemma canon_gcells_distinct: "distinct (map fst v) \<Longrightarrow> distinct (map fst (gcells_canon v))"
  using sort_strict [of fst "filter (\<lambda>(_, s). \<not> slot_is_top s) v"] distinct_map_filter [of fst v "\<lambda>(_, s). \<not> slot_is_top s"]
  by (simp add: gcells_canon_def strict_sorted_iff)

lemma gcell_join:
  assumes a: "distinct (map fst (x_gcells a))" and w: "distinct (map fst (x_gcells w))"
    and pa: "classes (s_prims (gcell_at a bid)) \<subseteq> {..<8}" and pw: "classes (s_prims (gcell_at w bid)) \<subseteq> {..<8}"
  shows "slot_eq (gcell_at (ctx_join a w) bid) (slot_join (gcell_at a bid) (gcell_at w bid))"
proof -
  have g: "x_gcells (ctx_join a w) = gcells_canon (gcells_join (x_gcells a) (x_gcells w))" by (simp add: ctx_join_def canon_def)
  have d: "distinct (map fst (x_gcells (ctx_join a w)))"
    unfolding g using gcells_join_distinct a by (intro canon_gcells_distinct) blast
  show ?thesis
  proof (cases "(\<exists>s. (bid, s) \<in> set (x_gcells a)) \<and> (\<exists>u. (bid, u) \<in> set (x_gcells w))")
    case True
    then obtain s u where su: "(bid, s) \<in> set (x_gcells a)" "(bid, u) \<in> set (x_gcells w)" by blast
    then have e: "gcell_at a bid = s" "gcell_at w bid = u" "map_of (x_gcells w) bid = Some u"
      using gcell_at_mem [OF a] gcell_at_mem [OF w] w by simp_all
    have uniq: "(bid, s') \<in> set (x_gcells a) \<Longrightarrow> s' = s" for s' using a su(1) by (metis map_of_eq_Some_iff option.inject)
    show ?thesis
    proof (cases "slot_is_top (slot_join s u)")
      case True
      then have "gcell_at (ctx_join a w) bid = SLOT_TOP"
        using uniq e(3) by (intro gcell_at_none) (auto simp: g gcells_canon_set gcells_join_set)
      with True e show ?thesis by (simp add: slot_is_top_def slot_eq_sym)
    next
      case False
      then have "(bid, slot_join s u) \<in> set (x_gcells (ctx_join a w))"
        using su e(3) by (auto simp: g gcells_canon_set gcells_join_set)
      from gcell_at_mem [OF d this] e show ?thesis by simp
    qed
  next
    case False
    then have top: "gcell_at (ctx_join a w) bid = SLOT_TOP"
      by (intro gcell_at_none) (auto simp: g gcells_canon_set gcells_join_set dest: map_of_SomeD)
    from False have "gcell_at a bid = SLOT_TOP \<or> gcell_at w bid = SLOT_TOP" using gcell_at_none by blast
    then show ?thesis using join_with_top(1) [OF pw] join_with_top(2) [OF pa] top slot_eq_sym by metis
  qed
qed

lemma gcell_join_iv:
  assumes "canonical w"
  shows "gcell_at (join_iv_only w a) bid = gcell_at w bid" "x_gcells (join_iv_only w a) = x_gcells w"
proof -
  have "x_gcells (join_iv_only w a) = gcells_canon (x_gcells w)" by (simp add: join_iv_only_def canon_def)
  also have "\<dots> = sort_key fst (x_gcells w)"
  proof -
    have "filter (\<lambda>(_, s). \<not> slot_is_top s) (x_gcells w) = x_gcells w"
      using assms by (intro filter_True) (auto simp: canonical_def)
    then show ?thesis by (simp add: gcells_canon_def)
  qed
  also have "\<dots> = x_gcells w"
    using assms by (intro sort_key_id_if_sorted) (simp add: canonical_def strict_sorted_iff)
  finally show "x_gcells (join_iv_only w a) = x_gcells w" .
  then show "gcell_at (join_iv_only w a) bid = gcell_at w bid" by (simp add: gcell_at_def)
qed

section \<open>Predictions move boundedly often\<close>

text \<open>The contexts of one program point: at most \<open>N\<close> slots a vector and \<open>N\<close> caller frames, bindings in \<open>B\<close>.\<close>

definition fits :: "nat \<Rightarrow> Ctx \<Rightarrow> bool" where
  "fits N c = ((\<forall>k. length (vec c k) \<le> N) \<and> length (x_outer c) \<le> N)"

definition prims_ok :: "Ctx \<Rightarrow> bool" where
  "prims_ok c = ((\<forall>k i. classes (s_prims (fact_at c k i)) \<subseteq> {..<8}) \<and> (\<forall>bid. classes (s_prims (gcell_at c bid)) \<subseteq> {..<8}))"

definition facts_ok :: "Ctx \<Rightarrow> bool" where
  "facts_ok c = ((\<forall>k i. fact_ok (fact_at c k i)) \<and> (\<forall>bid. fact_ok (gcell_at c bid)))"

definition arrival_ok :: "nat \<Rightarrow> Ctx \<Rightarrow> bool" where
  "arrival_ok N c = (fits N c \<and> prims_ok c \<and> distinct (map fst (x_gcells c)) \<and> x_tokens c = [] \<and> x_track c = Opt)"

definition stored_ok :: "nat \<Rightarrow> u32 set \<Rightarrow> Ctx \<Rightarrow> bool" where
  "stored_ok N B c = (fits N c \<and> canonical c \<and> facts_ok c \<and> fst ` set (x_gcells c) \<subseteq> B \<and> x_tokens c = [] \<and> x_track c = Opt)"

definition ctx_rank :: "nat \<Rightarrow> u32 set \<Rightarrow> Ctx \<Rightarrow> nat" where
  "ctx_rank N B c = (\<Sum>k<5 + 2 * N. \<Sum>i<N. fact_rank (fact_at c k i)) + (\<Sum>bid\<in>B. fact_rank (gcell_at c bid))"

text \<open>One arrival at a program point that has a prediction.\<close>

definition pred_upd :: "Ctx \<Rightarrow> Ctx \<Rightarrow> Ctx" where
  "pred_upd cur arrival =
     (if ctx_implies arrival cur then cur
      else let j = joined_arrival cur arrival in if ctx_eq j cur then cur else j)"

lemma slots_zip_length: "length (slots_zip f a b) = max (length a) (length b)"
  by (simp add: slots_zip_def)

lemma fits_joined:
  assumes "fits N w" "fits N a"
  shows "fits N (joined_arrival w a)"
proof -
  have "length (trim_end slot_is_top (slots_zip f u v)) \<le> N" if "length u \<le> N" "length v \<le> N" for f u v
    using trim_end_length [of slot_is_top "slots_zip f u v"] that by (simp add: slots_zip_length)
  moreover have "length (trim_end frame_is_empty (map frame_canon (outer_zip f u v))) \<le> N" if "length u \<le> N" "length v \<le> N" for f u v
    using trim_end_length [of frame_is_empty "map frame_canon (outer_zip f u v)"] that by (simp add: outer_zip_def)
  ultimately show ?thesis using assms
    by (simp add: fits_def joined_arrival_def vec_join vec_join_iv) (simp add: ctx_join_def join_iv_only_def canon_def)
qed

text \<open>Fact by fact, the joined context ranks at least the stored one and equally only where it is the stored fact.\<close>

lemma joined_fact:
  assumes W: "stored_ok N B w" and A: "arrival_ok N a"
  shows "fact_ok (fact_at (joined_arrival w a) k i)" "fact_rank (fact_at w k i) \<le> fact_rank (fact_at (joined_arrival w a) k i)"
    "fact_rank (fact_at (joined_arrival w a) k i) = fact_rank (fact_at w k i) \<Longrightarrow> slot_eq (fact_at (joined_arrival w a) k i) (fact_at w k i)"
proof -
  let ?w = "fact_at w k i" and ?a = "fact_at a k i" and ?j = "fact_at (joined_arrival w a) k i"
  have ok: "fact_ok ?w" "classes (s_prims ?a) \<subseteq> {..<8}" using W A by (simp_all add: stored_ok_def facts_ok_def arrival_ok_def prims_ok_def)
  have g: "s_iv_grow ?w \<le> 3" using ok(1) by (simp add: fact_ok_def)
  obtain f where f: "slot_eq ?j f" "fact_ok f" "fact_rank ?w \<le> fact_rank f" "fact_rank f = fact_rank ?w \<Longrightarrow> slot_eq f ?w"
  proof (cases "ctx_implies_sans_iv a w")
    case True
    then show thesis
      using that [of "slot_join_iv ?w ?a"] fact_join_iv [of w a k i] fact_ok_join(2) [OF ok] fact_rank_join_iv [OF g] by (simp add: joined_arrival_def)
  next
    case False
    then show thesis
      using that [of "slot_join ?a ?w"] fact_join [of a w k i] fact_ok_join(1) [OF ok] fact_rank_join [OF g] by (simp add: joined_arrival_def)
  qed
  show "fact_ok ?j" "fact_rank ?w \<le> fact_rank ?j" "fact_rank ?j = fact_rank ?w \<Longrightarrow> slot_eq ?j ?w"
    using f fact_ok_cong [OF f(1)] fact_rank_cong [OF f(1)] slot_eq_trans by auto
qed

lemma joined_gcell:
  assumes W: "stored_ok N B w" and A: "arrival_ok N a"
  shows "fact_ok (gcell_at (joined_arrival w a) bid)" "fact_rank (gcell_at w bid) \<le> fact_rank (gcell_at (joined_arrival w a) bid)"
    "fact_rank (gcell_at (joined_arrival w a) bid) = fact_rank (gcell_at w bid) \<Longrightarrow> slot_eq (gcell_at (joined_arrival w a) bid) (gcell_at w bid)"
proof -
  let ?w = "gcell_at w bid" and ?a = "gcell_at a bid" and ?j = "gcell_at (joined_arrival w a) bid"
  have ok: "fact_ok ?w" "classes (s_prims ?a) \<subseteq> {..<8}" using W A by (simp_all add: stored_ok_def facts_ok_def arrival_ok_def prims_ok_def)
  have g: "s_iv_grow ?w \<le> 3" and p: "classes (s_prims ?w) \<subseteq> {..<8}" using ok(1) by (simp_all add: fact_ok_def)
  have c: "canonical w" and d: "distinct (map fst (x_gcells a))" using W A by (simp_all add: stored_ok_def arrival_ok_def)
  obtain f where f: "slot_eq ?j f" "fact_ok f" "fact_rank ?w \<le> fact_rank f" "fact_rank f = fact_rank ?w \<Longrightarrow> slot_eq f ?w"
  proof (cases "ctx_implies_sans_iv a w")
    case True
    then show thesis using that [of ?w] gcell_join_iv(1) [OF c, of a bid] ok(1) by (simp add: joined_arrival_def)
  next
    case False
    then show thesis
      using that [of "slot_join ?a ?w"] gcell_join [OF d canonical_distinct [OF c] ok(2) p] fact_ok_join(1) [OF ok] fact_rank_join [OF g]
      by (simp add: joined_arrival_def)
  qed
  show "fact_ok ?j" "fact_rank ?w \<le> fact_rank ?j" "fact_rank ?j = fact_rank ?w \<Longrightarrow> slot_eq ?j ?w"
    using f fact_ok_cong [OF f(1)] fact_rank_cong [OF f(1)] slot_eq_trans by auto
qed

lemma joined_rest:
  assumes W: "stored_ok N B w" and A: "arrival_ok N a"
  shows "x_tokens (joined_arrival w a) = []" "x_track (joined_arrival w a) = Opt" "x_carried (joined_arrival w a) = x_carried w"
    "canonical (joined_arrival w a)" "fst ` set (x_gcells (joined_arrival w a)) \<subseteq> B"
proof -
  have c: "canonical w" and d: "distinct (map fst (x_gcells a))" using W A by (simp_all add: stored_ok_def arrival_ok_def)
  show "x_tokens (joined_arrival w a) = []" "x_track (joined_arrival w a) = Opt" "x_carried (joined_arrival w a) = x_carried w"
    using W A by (simp_all add: stored_ok_def arrival_ok_def joined_arrival_def ctx_join_def join_iv_only_def canon_def)
  have "canonical (ctx_join a w)"
    unfolding ctx_join_def using gcells_join_distinct d by (intro canonical_canon) auto
  moreover have "canonical (join_iv_only w a)"
    unfolding join_iv_only_def using canonical_distinct [OF c] by (intro canonical_canon) auto
  ultimately show "canonical (joined_arrival w a)" by (simp add: joined_arrival_def)
  have "fst ` set (x_gcells (ctx_join a w)) \<subseteq> fst ` set (x_gcells w)"
    by (force simp: ctx_join_def canon_def gcells_canon_set gcells_join_set dest: map_of_SomeD)
  then show "fst ` set (x_gcells (joined_arrival w a)) \<subseteq> B"
    using W gcell_join_iv(2) [OF c, of a] by (auto simp: stored_ok_def joined_arrival_def)
qed

lemma stored_joined: "stored_ok N B w \<Longrightarrow> arrival_ok N a \<Longrightarrow> stored_ok N B (joined_arrival w a)"
  using joined_fact(1) [of N B w a] joined_gcell(1) [of N B w a] joined_rest [of N B w a] fits_joined [of N w a]
  by (auto simp: stored_ok_def arrival_ok_def facts_ok_def)

lemma out_of_frame:
  assumes "fits N c" "\<not> (k < 5 + 2 * N \<and> i < N)"
  shows "fact_at c k i = SLOT_TOP"
proof (cases "i < N")
  case True
  with assms have "x_outer c = x_outer c" "N \<le> (k - 5) div 2" "\<not> k < 5" by auto
  with assms(1) have "frame_at (x_outer c) ((k - 5) div 2) = frame_default" by (simp add: fits_def frame_at_def)
  with \<open>\<not> k < 5\<close> show ?thesis by (simp add: vec_def frame_default_def slot_at_def)
next
  case False
  with assms(1) have "\<not> i < length (vec c k)" by (auto simp: fits_def not_less intro: order.trans)
  then show ?thesis by (simp add: slot_at_def)
qed

lemma out_of_bindings:
  assumes "fst ` set (x_gcells c) \<subseteq> B" "bid \<notin> B"
  shows "gcell_at c bid = SLOT_TOP"
  using assms by (intro gcell_at_none) force

lemma rank_moves:
  assumes W: "stored_ok N B w" and A: "arrival_ok N a" and n: "\<not> ctx_eq (joined_arrival w a) w"
  shows "ctx_rank N B w < ctx_rank N B (joined_arrival w a)"
proof -
  let ?j = "joined_arrival w a"
  note J = stored_joined [OF W A]
  have le: "(\<Sum>k<5 + 2 * N. \<Sum>i<N. fact_rank (fact_at w k i)) \<le> (\<Sum>k<5 + 2 * N. \<Sum>i<N. fact_rank (fact_at ?j k i))"
    "(\<Sum>bid\<in>B. fact_rank (gcell_at w bid)) \<le> (\<Sum>bid\<in>B. fact_rank (gcell_at ?j bid))"
    using joined_fact(2) [OF W A] joined_gcell(2) [OF W A] by (intro sum_mono; blast)+
  have "(\<exists>k i. \<not> slot_eq (fact_at ?j k i) (fact_at w k i)) \<or> (\<exists>bid. \<not> slot_eq (gcell_at ?j bid) (gcell_at w bid))"
  proof (rule ccontr)
    assume "\<not> ?thesis"
    then have "ctx_eq ?j w"
      using W J joined_rest(3) [OF W A] by (intro canonical_eq) (auto simp: stored_ok_def)
    with n show False ..
  qed
  then show ?thesis
  proof (elim disjE exE)
    fix k i assume ki: "\<not> slot_eq (fact_at ?j k i) (fact_at w k i)"
    have "k < 5 + 2 * N \<and> i < N"
    proof (rule ccontr)
      assume "\<not> ?thesis"
      moreover have "fits N w" "fits N ?j" using W J by (simp_all add: stored_ok_def)
      ultimately have "fact_at w k i = SLOT_TOP" "fact_at ?j k i = SLOT_TOP" using out_of_frame by blast+
      with ki show False by simp
    qed
    then have r: "k < 5 + 2 * N" "i < N" by simp_all
    have "fact_rank (fact_at w k i) < fact_rank (fact_at ?j k i)"
      using joined_fact(2,3) [OF W A, of k i] ki by (auto simp: le_less)
    then have "(\<Sum>i<N. fact_rank (fact_at w k i)) < (\<Sum>i<N. fact_rank (fact_at ?j k i))"
      using r joined_fact(2) [OF W A] by (intro sum_strict_mono_ex1) auto
    then have "(\<Sum>k<5 + 2 * N. \<Sum>i<N. fact_rank (fact_at w k i)) < (\<Sum>k<5 + 2 * N. \<Sum>i<N. fact_rank (fact_at ?j k i))"
      using r joined_fact(2) [OF W A] by (intro sum_strict_mono_ex1) (auto intro!: sum_mono)
    with le(2) show ?thesis by (simp add: ctx_rank_def)
  next
    fix bid assume b: "\<not> slot_eq (gcell_at ?j bid) (gcell_at w bid)"
    have "bid \<in> B"
    proof (rule ccontr)
      assume "bid \<notin> B"
      moreover have "fst ` set (x_gcells w) \<subseteq> B" "fst ` set (x_gcells ?j) \<subseteq> B" using W J by (simp_all add: stored_ok_def)
      ultimately have "gcell_at w bid = SLOT_TOP" "gcell_at ?j bid = SLOT_TOP" using out_of_bindings by blast+
      with b show False by simp
    qed
    moreover have "fact_rank (gcell_at w bid) < fact_rank (gcell_at ?j bid)"
      using joined_gcell(2,3) [OF W A, of bid] b by (auto simp: le_less)
    ultimately have "(\<Sum>bid\<in>B. fact_rank (gcell_at w bid)) < (\<Sum>bid\<in>B. fact_rank (gcell_at ?j bid))"
      using joined_gcell(2) [OF W A] by (intro sum_strict_mono_ex1) auto
    with le(1) show ?thesis by (simp add: ctx_rank_def)
  qed
qed

definition move_bound :: "nat \<Rightarrow> u32 set \<Rightarrow> nat" where
  "move_bound N B = 262178 * ((5 + 2 * N) * N + card B)"

lemma ctx_rank_bound:
  assumes "stored_ok N B c"
  shows "ctx_rank N B c \<le> move_bound N B"
proof -
  have f: "fact_rank (fact_at c k i) \<le> 262178" for k i using assms fact_rank_bound by (simp add: stored_ok_def facts_ok_def fact_ok_def)
  have g: "fact_rank (gcell_at c bid) \<le> 262178" for bid using assms fact_rank_bound by (simp add: stored_ok_def facts_ok_def fact_ok_def)
  have "(\<Sum>i<N. fact_rank (fact_at c k i)) \<le> N * 262178" for k using sum_bounded_above [of "{..<N}" "\<lambda>i. fact_rank (fact_at c k i)" 262178] f by simp
  then have "(\<Sum>k<5 + 2 * N. \<Sum>i<N. fact_rank (fact_at c k i)) \<le> (5 + 2 * N) * (N * 262178)"
    using sum_bounded_above [of "{..<5 + 2 * N}" "\<lambda>k. \<Sum>i<N. fact_rank (fact_at c k i)" "N * 262178"] by simp
  moreover have "(\<Sum>bid\<in>B. fact_rank (gcell_at c bid)) \<le> card B * 262178"
    using sum_bounded_above [of B "\<lambda>bid. fact_rank (gcell_at c bid)" 262178] g by simp
  ultimately show ?thesis unfolding ctx_rank_def move_bound_def by (simp add: algebra_simps)
qed

interpretation predictions: ranked_join pred_upd "ctx_rank N B" "move_bound N B" "stored_ok N B" "arrival_ok N"
proof
  fix s x assume s: "stored_ok N B s" "arrival_ok N x"
  then show "stored_ok N B (pred_upd s x)" using stored_joined by (simp add: pred_upd_def Let_def)
  assume "pred_upd s x \<noteq> s"
  then have "pred_upd s x = joined_arrival s x" "\<not> ctx_eq (joined_arrival s x) s" by (simp_all add: pred_upd_def Let_def split: if_splits)
  with rank_moves [OF s] show "ctx_rank N B s < ctx_rank N B (pred_upd s x)" by simp
qed (rule ctx_rank_bound)

text \<open>A join at the depth a prediction was made at replaces it by \<open>pred_upd\<close>.\<close>

lemma join_arrival_at:
  assumes "p_depth p pc \<in> {None, Some depth}" "p_at p pc = Some cur"
  shows "fst (join_arrival p pc depth a) =
      p\<lparr>p_depth := (p_depth p)(pc \<mapsto> depth), p_at := (p_at p)(pc \<mapsto> pred_upd cur a)\<rparr>"
    "snd (join_arrival p pc depth a) \<longleftrightarrow> \<not> ctx_eq (pred_upd cur a) cur"
proof -
  have "(p_at p)(pc \<mapsto> cur) = p_at p" using assms(2) by auto
  then show "fst (join_arrival p pc depth a) =
      p\<lparr>p_depth := (p_depth p)(pc \<mapsto> depth), p_at := (p_at p)(pc \<mapsto> pred_upd cur a)\<rparr>"
    "snd (join_arrival p pc depth a) \<longleftrightarrow> \<not> ctx_eq (pred_upd cur a) cur"
    using assms by (auto simp: join_arrival_def pred_upd_def Let_def)
qed

lemma pred_upd_upper:
  assumes "x_tokens a = x_tokens w" "x_track a = x_track w" "distinct (map fst (x_gcells a))" "distinct (map fst (x_gcells w))" "tag_ivs w" "tag_ivs a"
  shows "ctx_implies a (pred_upd w a)" "ctx_implies w (pred_upd w a)" "tag_ivs (pred_upd w a)"
  using joined_upper [OF assms] ctx_implies_eq [of "joined_arrival w a" w a] ctx_implies_refl [OF assms(4)] tag_ivs_joined [OF assms(6,5)] assms(5)
  by (auto simp: pred_upd_def Let_def)

text \<open>The facts of a context outside its outer caller frames.\<close>

definition inner_facts :: "Ctx \<Rightarrow> Ctx" where
  "inner_facts c = ctx_default\<lparr>x_locals := x_locals c, x_stack := x_stack c, x_args := x_args c, x_caller_locals := x_caller_locals c,
     x_caller_args := x_caller_args c, x_gcells := x_gcells c\<rparr>"

lemma wipe_moved_iff: "wipe_moved c \<longleftrightarrow> \<not> ctx_eq (inner_facts c) ctx_default"
  by (auto simp: wipe_moved_def inner_facts_def ctx_eq_def ctx_default_def slots_eq_def)

text \<open>C17. The prediction of a program point covers what arrives: an arrival at the depth the prediction was made at leaves one that the arrival
  and the old prediction both imply, and reports a move exactly when it changed. An arrival at another depth wipes the
  prediction to the context without facts, and reports a move exactly when the old
  prediction had a fact outside its outer caller frames. No other program point is touched.\<close>

theorem prediction_covers_arrival:
  assumes cur: "pred_at p pc = Some cur"
    and "x_tokens a = x_tokens cur" "x_track a = x_track cur" "distinct (map fst (x_gcells a))" "distinct (map fst (x_gcells cur))"
    and "tag_ivs cur" "tag_ivs a"
  shows "\<exists>new. pred_at (fst (join_arrival p pc depth a)) pc = Some new \<and> tag_ivs new \<and>
      (if p_depth p pc = None \<or> p_depth p pc = Some depth
       then ctx_implies a new \<and> ctx_implies cur new \<and> (snd (join_arrival p pc depth a) \<longleftrightarrow> \<not> ctx_eq new cur)
       else new = ctx_default \<and> (snd (join_arrival p pc depth a) \<longleftrightarrow> \<not> ctx_eq (inner_facts cur) ctx_default)) \<and>
      (\<forall>pc'. pc' \<noteq> pc \<longrightarrow> pred_at (fst (join_arrival p pc depth a)) pc' = pred_at p pc')"
proof (cases "p_depth p pc = None \<or> p_depth p pc = Some depth")
  case True
  then have "p_depth p pc \<in> {None, Some depth}" by auto
  from join_arrival_at [OF this, of cur a] pred_upd_upper [OF assms(2-7)] cur True show ?thesis by (simp add: pred_at_def)
next
  case False
  then have "join_arrival p pc depth a = (p\<lparr>p_at := (p_at p)(pc \<mapsto> ctx_default)\<rparr>, wipe_moved cur)"
    using cur by (auto simp: join_arrival_def pred_at_def)
  moreover have "tag_ivs ctx_default" by (simp add: tag_ivs_def ctx_default_def)
  ultimately show ?thesis unfolding if_not_P [OF False] by (simp add: pred_at_def wipe_moved_iff)
qed

text \<open>The arrivals at one program point, and how often its prediction moves.\<close>

fun pred_moves :: "Predictions \<Rightarrow> Pc \<Rightarrow> u16 \<Rightarrow> Ctx list \<Rightarrow> nat" where
  "pred_moves p pc depth [] = 0"
| "pred_moves p pc depth (a # as) =
     (let (p', moved) = join_arrival p pc depth a in (if moved then 1 else 0) + pred_moves p' pc depth as)"

lemma pred_moves_changes:
  assumes "p_depth p pc \<in> {None, Some depth}" "p_at p pc = Some cur"
  shows "pred_moves p pc depth as \<le> n_changes pred_upd cur as"
  using assms
proof (induction as arbitrary: p cur)
  case (Cons a as)
  let ?p = "p\<lparr>p_depth := (p_depth p)(pc \<mapsto> depth), p_at := (p_at p)(pc \<mapsto> pred_upd cur a)\<rparr>"
  have "pred_moves ?p pc depth as \<le> n_changes pred_upd (pred_upd cur a) as" by (rule Cons.IH) simp_all
  moreover have "join_arrival p pc depth a = (?p, \<not> ctx_eq (pred_upd cur a) cur)"
    using join_arrival_at [OF Cons.prems, of a] by (simp add: prod_eq_iff)
  moreover have "ctx_eq (pred_upd cur a) cur" if "pred_upd cur a = cur" using that by simp
  ultimately show ?case by auto
qed simp

text \<open>C18. A prediction moves boundedly often.\<close>

theorem prediction_moves_bounded:
  assumes "p_depth p pc \<in> {None, Some depth}" "pred_at p pc = Some cur" "stored_ok N B cur" "\<forall>a\<in>set as. arrival_ok N a"
  shows "pred_moves p pc depth as \<le> move_bound N B"
proof -
  have "pred_moves p pc depth as \<le> n_changes pred_upd cur as" using assms(1,2) by (intro pred_moves_changes) (auto simp: pred_at_def)
  also have "\<dots> \<le> move_bound N B" using assms(3,4) by (rule predictions.changes_bound)
  finally show ?thesis .
qed

section \<open>Witnesses\<close>

definition demo_pred :: Predictions where
  "demo_pred = \<lparr>p_at = [3 \<mapsto> ctx_default\<lparr>x_locals := [INT32_SLOT]\<rparr>], p_depth = [3 \<mapsto> 0], p_carried = Map.empty, p_back_at = Map.empty\<rparr>"

definition demo_arrival :: Ctx where
  "demo_arrival = ctx_default\<lparr>x_locals := [NUMERIC_SLOT], x_gcells := [(4, INT32_SLOT)]\<rparr>"

theorem prediction_covers_arrival_witness:
  "\<exists>new. pred_at (fst (join_arrival demo_pred 3 0 demo_arrival)) 3 = Some new \<and> ctx_implies demo_arrival new \<and>
     ctx_implies (ctx_default\<lparr>x_locals := [INT32_SLOT]\<rparr>) new"
  using prediction_covers_arrival [of demo_pred 3 "ctx_default\<lparr>x_locals := [INT32_SLOT]\<rparr>" demo_arrival 0]
  by (fastforce simp: demo_pred_def demo_arrival_def pred_at_def ctx_default_def tag_ivs_def tag_iv_def INT32_SLOT_def SLOT_TOP_def)

lemma demo_ok:
  "stored_ok 1 {} (ctx_default\<lparr>x_locals := [INT32_SLOT]\<rparr>)" "arrival_ok 1 demo_arrival"
proof -
  have top: "\<not> slot_is_top INT32_SLOT" by (simp add: slot_is_top_def slot_eq_def INT32_SLOT_def SLOT_TOP_def)
  have v: "vec (ctx_default\<lparr>x_locals := [s]\<rparr>) k = (if k = 0 then [s] else [])"
    "vec (ctx_default\<lparr>x_locals := [s], x_gcells := g\<rparr>) k = (if k = 0 then [s] else [])" for s g k
    by (auto simp: vec_def five ctx_default_def frame_at_def frame_default_def)
  have c: "classes PRIM_INT32 \<subseteq> {..<8}" "classes (prims_or PRIM_INT32 PRIM_DOUBLE) \<subseteq> {..<8}" by auto
  show "stored_ok 1 {} (ctx_default\<lparr>x_locals := [INT32_SLOT]\<rparr>)"
    unfolding stored_ok_def canonical_def fits_def facts_ok_def v using top c
    by (auto simp: trimmed_def slot_at_def gcell_at_def ctx_default_def fact_ok_def INT32_SLOT_def SLOT_TOP_def classes_ALL)
  show "arrival_ok 1 demo_arrival"
    unfolding arrival_ok_def demo_arrival_def fits_def prims_ok_def v using c
    by (auto simp: slot_at_def gcell_at_def ctx_default_def INT32_SLOT_def NUMERIC_SLOT_def SLOT_TOP_def classes_ALL)
qed

theorem prediction_moves_bounded_witness:
  "pred_moves demo_pred 3 0 (replicate 1000000 demo_arrival) \<le> 1835246"
  using prediction_moves_bounded [of demo_pred 3 0 "ctx_default\<lparr>x_locals := [INT32_SLOT]\<rparr>" 1 "{}" "replicate 1000000 demo_arrival"] demo_ok
  by (simp add: demo_pred_def pred_at_def move_bound_def)

text \<open>A wiped prediction whose facts are all in outer caller frames moves without being reported.\<close>

theorem wipe_of_outer_unreported:
  "let p = demo_pred\<lparr>p_at := [3 \<mapsto> ctx_default\<lparr>x_outer := [\<lparr>f_locals = [INT32_SLOT], f_args = []\<rparr>]\<rparr>]\<rparr>
   in \<exists>p' new. join_arrival p 3 1 ctx_default = (p', False) \<and> pred_at p' 3 = Some new \<and> \<not> ctx_eq new (the (pred_at p 3))"
  by (simp add: join_arrival_def demo_pred_def wipe_moved_def ctx_default_def pred_at_def ctx_eq_def Let_def)

end
