(* ===== verification/Bytes.thy ===== *)
theory Bytes
  imports NM_Prelude "HOL-Library.Word"
begin

unbundle bit_operations_syntax

text \<open>
  Byte strings as the host tools handle them: slices, in-place copies, searches, and little-endian words
  (\<open>to_le_bytes\<close> and \<open>from_le_bytes\<close> of the Rust integers).
\<close>

type_synonym byte = "8 word"

text \<open>\<open>bytes[i..j]\<close> and \<open>bytes[i..i + xs.len()].copy_from_slice(xs)\<close>, for ranges within the bytes.\<close>

definition slice :: "nat \<Rightarrow> nat \<Rightarrow> 'a list \<Rightarrow> 'a list" where
  "slice i j xs = take (j - i) (drop i xs)"

definition copy_at :: "nat \<Rightarrow> 'a list \<Rightarrow> 'a list \<Rightarrow> 'a list" where
  "copy_at i xs ys = take i ys @ xs @ drop (i + length xs) ys"

text \<open>\<open>iter().position(p)\<close>.\<close>

primrec position :: "('a \<Rightarrow> bool) \<Rightarrow> 'a list \<Rightarrow> nat option" where
  "position p [] = None"
| "position p (x # xs) = (if p x then Some 0 else map_option Suc (position p xs))"

definition to_le :: "nat \<Rightarrow> 'a::len word \<Rightarrow> byte list" where
  "to_le k v = map (\<lambda>i. ucast (drop_bit (8 * i) v)) [0..<k]"

definition from_le :: "byte list \<Rightarrow> 'a::len word" where
  "from_le bs = foldr (\<lambda>b v. ucast b OR push_bit 8 v) bs 0"

section \<open>Slices and searches\<close>

lemma slice_length: "length (slice i j xs) = min (j - i) (length xs - i)"
  by (simp add: slice_def)

lemma slice_nth: "k < length (slice i j xs) \<Longrightarrow> slice i j xs ! k = xs ! (i + k)"
  by (cases "i \<le> length xs") (auto simp: slice_def)

lemma slice_append_mid: "length xs = i \<Longrightarrow> length ys = j - i \<Longrightarrow> slice i j (xs @ ys @ zs) = ys"
  by (simp add: slice_def)

lemma copy_at_length: "i + length xs \<le> length ys \<Longrightarrow> length (copy_at i xs ys) = length ys"
  by (simp add: copy_at_def)

lemma copy_at_nth:
  assumes "i + length xs \<le> length ys" "j < length ys"
  shows "copy_at i xs ys ! j = (if i \<le> j \<and> j < i + length xs then xs ! (j - i) else ys ! j)"
  using assms by (auto simp: copy_at_def nth_append)

lemma position_Some: "position p xs = Some i \<Longrightarrow> i < length xs \<and> p (xs ! i) \<and> (\<forall>j<i. \<not> p (xs ! j))"
  by (induction xs arbitrary: i) (auto split: if_splits simp: nth_Cons split: nat.splits)

lemma position_None: "position p xs = None \<longleftrightarrow> (\<forall>x\<in>set xs. \<not> p x)"
  by (induction xs) auto

section \<open>Little-endian words\<close>

lemma to_le_length [simp]: "length (to_le k v) = k"
  by (simp add: to_le_def)

lemma from_le_bit:
  "bit (from_le bs :: 'a::len word) n \<longleftrightarrow> n < LENGTH('a) \<and> n div 8 < length bs \<and> bit (bs ! (n div 8)) (n mod 8)"
proof (induction bs arbitrary: n)
  case (Cons b bs)
  have f: "from_le (b # bs) = (ucast b OR push_bit 8 (from_le bs) :: 'a word)" by (simp add: from_le_def)
  have hi: "\<not> bit b n" if "8 \<le> n" using that bit_imp_le_length [of b n] by auto
  show ?case
  proof (cases "n < 8")
    case True
    then show ?thesis unfolding f by (auto simp: bit_simps)
  next
    case False
    then have "n div 8 = Suc ((n - 8) div 8)" "(n - 8) mod 8 = n mod 8" by (simp_all add: le_div_geq le_mod_geq)
    with False hi Cons.IH [of "n - 8"] show ?thesis unfolding f by (auto simp: bit_simps)
  qed
qed (simp add: from_le_def)

lemma from_to_le:
  assumes "LENGTH('a) \<le> 8 * k"
  shows "from_le (to_le k (v :: 'a::len word)) = v"
proof (rule bit_word_eqI)
  fix n assume n: "n < LENGTH('a)"
  then have k: "n div 8 < k" using assms by (simp add: less_mult_imp_div_less mult.commute)
  have "8 * (n div 8) + n mod 8 = n" by simp
  with n k show "bit (from_le (to_le k v) :: 'a word) n = bit v n"
    by (auto simp: from_le_bit to_le_def bit_simps simp del: upt_Suc)
qed

lemma to_from_le:
  assumes "length bs = k" "8 * k \<le> LENGTH('a)"
  shows "to_le k (from_le bs :: 'a::len word) = bs"
proof (rule nth_equalityI)
  fix i assume i: "i < length (to_le k (from_le bs :: 'a word))"
  show "to_le k (from_le bs :: 'a word) ! i = bs ! i"
  proof (rule bit_word_eqI)
    fix n assume n: "n < LENGTH(8)"
    then have "(8 * i + n) div 8 = i" "(8 * i + n) mod 8 = n" "8 * i + n < LENGTH('a)" using i assms by auto
    with i n assms(1) show "bit (to_le k (from_le bs :: 'a word) ! i) n = bit (bs ! i) n"
      by (simp add: to_le_def bit_simps from_le_bit)
  qed
qed (use assms in simp)

end
