(* ===== verification/Image.thy ===== *)
theory Image
  imports Bytes "HOL-Library.Product_Lexorder"
begin

text \<open>
  The snapshot memory image of \<^verbatim>\<open>nightmonkey/src/image.rs\<close>: the main linear memory is materialized from the active data
  segments of the module, edited, and written back as merged segments. Sizes and offsets are \<open>usize\<close> values, kept as
  naturals with the 64-bit bound written out where the code checks it. The module is the list of its memories.
\<close>

section \<open>Data\<close>

definition WASM_PAGE :: nat where "WASM_PAGE = 65536"
definition MAX_DATA_SEGMENTS :: nat where "MAX_DATA_SEGMENTS = 10000"
definition MIN_ACTIVE_SEGMENT_OVERHEAD :: nat where "MIN_ACTIVE_SEGMENT_OVERHEAD = 4"

record MemorySegment =
  offset :: nat
  sdata :: "byte list"

record MemoryData =
  initial_pages :: nat
  maximum_pages :: "nat option"
  segments :: "MemorySegment list"

record Image =
  im_memory :: nat
  im_bytes :: "byte list"

datatype ImageError = NoMemory | SegmentOutOfBounds nat | WriteOverflow | WriteOutOfBounds "32 word" nat
  | ReadOverflow | ReadOutOfBounds "32 word"

section \<open>Reading and editing\<close>

fun load_segments :: "MemorySegment list \<Rightarrow> byte list \<Rightarrow> ImageError + byte list" where
  "load_segments [] bytes = Inr bytes"
| "load_segments (s # ss) bytes =
     (let end = offset s + length (sdata s)
      in if end > length bytes then Inl (SegmentOutOfBounds end)
         else load_segments ss (copy_at (offset s) (sdata s) bytes))"

definition build_image :: "MemoryData list \<Rightarrow> ImageError + Image" where
  "build_image mems = (case mems of
     [] \<Rightarrow> Inl NoMemory
   | mem # _ \<Rightarrow> (case load_segments (segments mem) (replicate (initial_pages mem * WASM_PAGE) 0) of
       Inl e \<Rightarrow> Inl e
     | Inr bytes \<Rightarrow> Inr \<lparr>im_memory = 0, im_bytes = bytes\<rparr>))"

definition image_len :: "Image \<Rightarrow> nat" where
  "image_len im = length (im_bytes im)"

definition next_multiple_of :: "nat \<Rightarrow> nat \<Rightarrow> nat" where
  "next_multiple_of n k = (if n mod k = 0 then n else n + (k - n mod k))"

definition extend_to :: "Image \<Rightarrow> nat \<Rightarrow> Image" where
  "extend_to im end =
     (let target = next_multiple_of end WASM_PAGE
      in if target > length (im_bytes im)
         then im\<lparr>im_bytes := im_bytes im @ replicate (target - length (im_bytes im)) 0\<rparr> else im)"

definition write_bytes :: "Image \<Rightarrow> 32 word \<Rightarrow> byte list \<Rightarrow> ImageError + Image" where
  "write_bytes im addr data =
     (let start = unat addr; end = start + length data
      in if end \<ge> 2 ^ 64 then Inl WriteOverflow
         else if end > length (im_bytes im) then Inl (WriteOutOfBounds addr (length data))
         else Inr (im\<lparr>im_bytes := copy_at start data (im_bytes im)\<rparr>))"

definition write_u32 :: "Image \<Rightarrow> 32 word \<Rightarrow> 32 word \<Rightarrow> ImageError + Image" where
  "write_u32 im addr v = write_bytes im addr (to_le 4 v)"

definition image_read_u32 :: "Image \<Rightarrow> 32 word \<Rightarrow> ImageError + 32 word" where
  "image_read_u32 im addr =
     (let start = unat addr; end = start + 4
      in if end \<ge> 2 ^ 64 then Inl ReadOverflow
         else if end > length (im_bytes im) then Inl (ReadOutOfBounds addr)
         else Inr (from_le (slice start end (im_bytes im))))"

section \<open>The snapshot\<close>

text \<open>A run the scan finds is not empty.\<close>

lemma run_end:
  assumes "start < page_end" "position (\<lambda>b. b \<noteq> 0) (slice start page_end bytes) = Some i"
  shows "start + i < page_end" "start + i < length bytes" "bytes ! (start + i) \<noteq> 0" "\<forall>j. start \<le> j \<and> j < start + i \<longrightarrow> bytes ! j = 0"
proof -
  note p = position_Some [OF assms(2)]
  then show "start + i < page_end" "start + i < length bytes" by (auto simp: slice_length)
  show "bytes ! (start + i) \<noteq> 0" using p by (auto simp: slice_nth)
  show "\<forall>j. start \<le> j \<and> j < start + i \<longrightarrow> bytes ! j = 0"
  proof clarify
    fix j assume j: "start \<le> j" "j < start + i"
    then have "j - start < i" by simp
    with p have "slice start page_end bytes ! (j - start) = 0" "j - start < length (slice start page_end bytes)" by auto
    then show "bytes ! j = 0" using j by (simp add: slice_nth)
  qed
qed

lemma run_stop:
  assumes "start < page_end" "start < length bytes" "bytes ! start \<noteq> 0"
    "e = (case position (\<lambda>b. b = 0) (slice start page_end bytes) of None \<Rightarrow> page_end | Some zero \<Rightarrow> start + zero)"
  shows "start < e \<and> e \<le> page_end"
proof (cases "position (\<lambda>b. b = 0) (slice start page_end bytes)")
  case (Some z)
  note p = position_Some [OF this]
  have "z \<noteq> 0"
  proof
    assume "z = 0"
    with p have "slice start page_end bytes ! 0 = 0" "0 < length (slice start page_end bytes)" by auto
    then show False using assms(3) by (simp add: slice_nth)
  qed
  with Some p assms show ?thesis by (auto simp: slice_length)
qed (use assms in simp)

text \<open>The non-zero runs of one page, from \<open>start\<close> on.\<close>

function scan_page :: "byte list \<Rightarrow> nat \<Rightarrow> nat \<Rightarrow> (nat \<times> nat) list" where
  "scan_page bytes start page_end =
     (if start < page_end then
        (case position (\<lambda>b. b \<noteq> 0) (slice start page_end bytes) of
           None \<Rightarrow> []
         | Some i \<Rightarrow>
             (let start = start + i;
                  end = (case position (\<lambda>b. b = 0) (slice start page_end bytes) of None \<Rightarrow> page_end | Some zero \<Rightarrow> start + zero)
              in (start, end) # scan_page bytes end page_end))
      else [])"
  by pat_completeness auto

termination
proof (relation "measure (\<lambda>(_, start, page_end). page_end - start)")
  fix bytes :: "byte list" and start page_end i x e
  assume a: "start < page_end" "position (\<lambda>b. b \<noteq> 0) (slice start page_end bytes) = Some i" "x = start + i"
    "e = (case position (\<lambda>b. b = 0) (slice x page_end bytes) of None \<Rightarrow> page_end | Some zero \<Rightarrow> x + zero)"
  from run_end [OF a(1,2)] a(3) have "x < page_end" "x < length bytes" "bytes ! x \<noteq> 0" by auto
  from run_stop [OF this a(4)] a(3) show "((bytes, e, page_end), bytes, start, page_end) \<in> measure (\<lambda>(_, start, page_end). page_end - start)"
    using a(1) by auto
qed simp

declare scan_page.simps [simp del]

definition page_ranges :: "byte list \<Rightarrow> (nat \<times> nat) list" where
  "page_ranges bytes =
     concat (map (\<lambda>i. scan_page bytes (i * WASM_PAGE) ((i + 1) * WASM_PAGE)) [0..<length bytes div WASM_PAGE])"

text \<open>Runs at most a segment header apart are one segment.\<close>

definition merge_near :: "(nat \<times> nat) list \<Rightarrow> nat \<times> nat \<Rightarrow> (nat \<times> nat) list" where
  "merge_near merged r =
     (let l = last merged
      in if fst r - snd l \<le> MIN_ACTIVE_SEGMENT_OVERHEAD then butlast merged @ [(fst l, snd r)] else merged @ [r])"

definition merge_at :: "(nat \<times> nat) list \<Rightarrow> nat \<Rightarrow> (nat \<times> nat) list" where
  "merge_at merged i = take i merged @ (fst (merged ! i), snd (merged ! (i + 1))) # drop (i + 2) merged"

text \<open>Past the segment limit the smallest gaps are closed, from the last to the first.\<close>

definition cap_ranges :: "(nat \<times> nat) list \<Rightarrow> (nat \<times> nat) list" where
  "cap_ranges merged =
     (if length merged > MAX_DATA_SEGMENTS then
        (let excess = length merged - MAX_DATA_SEGMENTS;
             gaps = sort (map (\<lambda>i. (fst (merged ! (i + 1)) - snd (merged ! i), i)) [0..<length merged - 1]);
             to_merge = rev (sort (map snd (take excess gaps)))
         in foldl merge_at merged to_merge)
      else merged)"

definition snapshot_memory :: "byte list \<Rightarrow> MemorySegment list" where
  "snapshot_memory bytes = (case page_ranges bytes of
     [] \<Rightarrow> []
   | r # rs \<Rightarrow> map (\<lambda>(s, e). \<lparr>offset = s, sdata = slice s e bytes\<rparr>) (cap_ranges (foldl merge_near [r] rs)))"

definition update :: "MemoryData list \<Rightarrow> Image \<Rightarrow> MemoryData list" where
  "update mems im =
     (let mem = (mems ! im_memory im)\<lparr>segments := snapshot_memory (im_bytes im)\<rparr>;
          image_pages = length (im_bytes im) div WASM_PAGE;
          mem = mem\<lparr>initial_pages := max (initial_pages mem) image_pages\<rparr>;
          mem = (case maximum_pages mem of
                   None \<Rightarrow> mem
                 | Some mx \<Rightarrow> if mx < initial_pages mem then mem\<lparr>maximum_pages := Some (initial_pages mem)\<rparr> else mem)
      in mems[im_memory im := mem])"

section \<open>Runs and their coverage\<close>

text \<open>Ranges in ascending order, none empty, all within \<open>n\<close> bytes.\<close>

definition runs_ok :: "nat \<Rightarrow> (nat \<times> nat) list \<Rightarrow> bool" where
  "runs_ok n rs = (sorted_wrt (\<lambda>a b. snd a \<le> fst b) rs \<and> (\<forall>(s, e)\<in>set rs. s < e \<and> e \<le> n))"

definition covered :: "(nat \<times> nat) list \<Rightarrow> nat set" where
  "covered rs = (\<Union>(s, e)\<in>set rs. {s..<e})"

lemma covered_simps [simp]: "covered [] = {}" "covered (r # rs) = {fst r..<snd r} \<union> covered rs" "covered (rs @ rs') = covered rs \<union> covered rs'"
  by (auto simp: covered_def split: prod.splits)

text \<open>What a scan returns for the bytes from \<open>a\<close> to \<open>b\<close>.\<close>

definition scanned :: "byte list \<Rightarrow> nat \<Rightarrow> nat \<Rightarrow> (nat \<times> nat) list \<Rightarrow> bool" where
  "scanned bytes a b rs = (runs_ok b rs \<and> (\<forall>r\<in>set rs. a \<le> fst r) \<and> (\<forall>j. a \<le> j \<and> j < b \<and> bytes ! j \<noteq> 0 \<longrightarrow> j \<in> covered rs))"

lemma scanned_empty: "(\<And>j. a \<le> j \<Longrightarrow> j < b \<Longrightarrow> bytes ! j = 0) \<Longrightarrow> scanned bytes a b []"
  by (auto simp: scanned_def runs_ok_def)

lemma scanned_cons:
  assumes "a \<le> s" "s < e" "e \<le> b" "\<And>j. a \<le> j \<Longrightarrow> j < s \<Longrightarrow> bytes ! j = 0" "scanned bytes e b rs"
  shows "scanned bytes a b ((s, e) # rs)"
  using assms(1-3,5) unfolding scanned_def runs_ok_def
  by (auto dest: assms(4))

lemma scanned_append:
  assumes "scanned bytes a b rs" "scanned bytes b c rs'" "a \<le> b" "b \<le> c"
  shows "scanned bytes a c (rs @ rs')"
proof -
  have le: "fst r < snd r \<and> snd r \<le> b" if "r \<in> set rs" for r using assms(1) that by (auto simp: scanned_def runs_ok_def)
  have ge: "b \<le> fst r" if "r \<in> set rs'" for r using assms(2) that by (auto simp: scanned_def)
  have "sorted_wrt (\<lambda>a b. snd a \<le> fst b) (rs @ rs')"
    using assms(1,2) le ge by (auto simp: sorted_wrt_append scanned_def runs_ok_def) (meson le ge fst_conv snd_conv order_trans)
  moreover have "\<forall>(s, e)\<in>set (rs @ rs'). s < e \<and> e \<le> c" using assms by (fastforce simp: scanned_def runs_ok_def)
  moreover have "\<forall>r\<in>set (rs @ rs'). a \<le> fst r" using assms(1,2) \<open>a \<le> b\<close> by (fastforce simp: scanned_def)
  moreover have "j \<in> covered (rs @ rs')" if "a \<le> j" "j < c" "bytes ! j \<noteq> 0" for j
    using assms(1,2) that by (cases "j < b") (auto simp: scanned_def)
  ultimately show ?thesis by (auto simp: scanned_def runs_ok_def)
qed

lemma scan_page_scanned:
  assumes "start \<le> page_end" "page_end \<le> length bytes"
  shows "scanned bytes start page_end (scan_page bytes start page_end)"
  using assms
proof (induction bytes start page_end rule: scan_page.induct)
  case (1 bytes start page_end)
  show ?case
  proof (cases "start < page_end")
    case False
    then show ?thesis by (subst scan_page.simps) (simp add: scanned_empty)
  next
    case lt: True
    show ?thesis
    proof (cases "position (\<lambda>b. b \<noteq> 0) (slice start page_end bytes)")
      case None
      have "bytes ! j = 0" if "start \<le> j" "j < page_end" for j
      proof -
        have k: "j - start < length (slice start page_end bytes)" using that 1(3) by (simp add: slice_length)
        then have "slice start page_end bytes ! (j - start) \<in> set (slice start page_end bytes)" by (rule nth_mem)
        with None k that show ?thesis by (auto simp: position_None slice_nth)
      qed
      with None lt show ?thesis by (subst scan_page.simps) (simp add: scanned_empty)
    next
      case (Some i)
      define x where "x = start + i"
      define e where "e = (case position (\<lambda>b. b = 0) (slice x page_end bytes) of None \<Rightarrow> page_end | Some zero \<Rightarrow> x + zero)"
      note r = run_end [OF lt Some, folded x_def]
      note st = run_stop [OF r(1-3) e_def]
      have "scanned bytes e page_end (scan_page bytes e page_end)"
        using 1(1) [OF lt Some x_def e_def] st 1(3) by simp
      then have "scanned bytes start page_end ((x, e) # scan_page bytes e page_end)"
        using st r(4) by (intro scanned_cons) (auto simp: x_def)
      moreover have "scan_page bytes start page_end = (x, e) # scan_page bytes e page_end"
        unfolding e_def x_def by (subst scan_page.simps) (simp add: lt Some Let_def)
      ultimately show ?thesis by simp
    qed
  qed
qed

lemma pages_scanned:
  assumes "n * WASM_PAGE \<le> length bytes"
  shows "scanned bytes 0 (n * WASM_PAGE) (concat (map (\<lambda>i. scan_page bytes (i * WASM_PAGE) ((i + 1) * WASM_PAGE)) [0..<n]))"
  using assms
proof (induction n)
  case 0
  then show ?case by (simp add: scanned_empty)
next
  case (Suc n)
  then have "scanned bytes 0 (n * WASM_PAGE) (concat (map (\<lambda>i. scan_page bytes (i * WASM_PAGE) ((i + 1) * WASM_PAGE)) [0..<n]))"
    by simp
  moreover have "scanned bytes (n * WASM_PAGE) (Suc n * WASM_PAGE) (scan_page bytes (n * WASM_PAGE) ((n + 1) * WASM_PAGE))"
    using scan_page_scanned [of "n * WASM_PAGE" "Suc n * WASM_PAGE" bytes] Suc.prems by simp
  ultimately show ?case using scanned_append by fastforce
qed

lemma page_ranges_ok:
  assumes "length bytes mod WASM_PAGE = 0"
  shows "runs_ok (length bytes) (page_ranges bytes)" "\<forall>j<length bytes. bytes ! j \<noteq> 0 \<longrightarrow> j \<in> covered (page_ranges bytes)"
proof -
  have e: "length bytes div WASM_PAGE * WASM_PAGE = length bytes" using assms by auto
  have "scanned bytes 0 (length bytes) (page_ranges bytes)"
    using pages_scanned [of "length bytes div WASM_PAGE" bytes] unfolding page_ranges_def e by simp
  then show "runs_ok (length bytes) (page_ranges bytes)" "\<forall>j<length bytes. bytes ! j \<noteq> 0 \<longrightarrow> j \<in> covered (page_ranges bytes)"
    by (simp_all add: scanned_def)
qed

section \<open>Merging\<close>

text \<open>Closing the gap between two neighbours keeps the order and covers no less.\<close>

lemma runs_ok_append:
  "runs_ok n (rs @ rs') \<longleftrightarrow> runs_ok n rs \<and> runs_ok n rs' \<and> (\<forall>a\<in>set rs. \<forall>b\<in>set rs'. snd a \<le> fst b)"
  by (auto simp: runs_ok_def sorted_wrt_append)

lemma close_gap:
  assumes "runs_ok n (as @ [p, q] @ bs)"
  shows "runs_ok n (as @ [(fst p, snd q)] @ bs)" "covered (as @ [p, q] @ bs) \<subseteq> covered (as @ [(fst p, snd q)] @ bs)"
proof -
  have pq: "fst p < snd p" "snd p \<le> fst q" "fst q < snd q" using assms by (auto simp: runs_ok_def sorted_wrt_append)
  show "runs_ok n (as @ [(fst p, snd q)] @ bs)" using assms pq by (auto simp: runs_ok_def sorted_wrt_append)
  show "covered (as @ [p, q] @ bs) \<subseteq> covered (as @ [(fst p, snd q)] @ bs)" using pq by auto
qed

lemma merge_near_ok:
  assumes "merged \<noteq> []" "runs_ok n (merged @ r # rs)"
  shows "runs_ok n (merge_near merged r @ rs)" "covered (merged @ r # rs) \<subseteq> covered (merge_near merged r @ rs)" "merge_near merged r \<noteq> []"
proof -
  obtain as p where m: "merged = as @ [p]" using assms(1) by (cases merged rule: rev_cases) auto
  have "runs_ok n (as @ [p, r] @ rs)" using assms(2) m by simp
  from close_gap [OF this] assms(2) m
  show "runs_ok n (merge_near merged r @ rs)" "covered (merged @ r # rs) \<subseteq> covered (merge_near merged r @ rs)" "merge_near merged r \<noteq> []"
    by (auto simp: merge_near_def Let_def)
qed

lemma merge_all_ok:
  assumes "merged \<noteq> []" "runs_ok n (merged @ rs)"
  shows "runs_ok n (foldl merge_near merged rs) \<and> covered (merged @ rs) \<subseteq> covered (foldl merge_near merged rs)"
  using assms
proof (induction rs arbitrary: merged)
  case (Cons r rs)
  note m = merge_near_ok [OF Cons.prems]
  from Cons.IH [OF m(3,1)] m(2) show ?case by auto
qed simp

lemma merge_at_ok:
  assumes "runs_ok n merged" "i + 1 < length merged"
  shows "runs_ok n (merge_at merged i)" "covered merged \<subseteq> covered (merge_at merged i)" "length (merge_at merged i) = length merged - 1"
proof -
  have m: "merged = take i merged @ [merged ! i, merged ! (i + 1)] @ drop (i + 2) merged"
    using assms(2) by (simp add: Cons_nth_drop_Suc)
  have e: "merge_at merged i = take i merged @ [(fst (merged ! i), snd (merged ! (i + 1)))] @ drop (i + 2) merged" by (simp add: merge_at_def)
  have "runs_ok n (take i merged @ [merged ! i, merged ! (i + 1)] @ drop (i + 2) merged)" using assms(1) m by simp
  note g = close_gap [OF this, folded e, folded m]
  show "runs_ok n (merge_at merged i)" "covered merged \<subseteq> covered (merge_at merged i)" by (rule g)+
  show "length (merge_at merged i) = length merged - 1" using assms(2) by (simp add: merge_at_def)
qed

lemma merge_down_ok:
  assumes "runs_ok n merged" "sorted_wrt (>) is" "\<forall>i\<in>set is. i + 1 < length merged"
  shows "runs_ok n (foldl merge_at merged is) \<and> covered merged \<subseteq> covered (foldl merge_at merged is) \<and>
    length (foldl merge_at merged is) = length merged - length is"
  using assms
proof (induction "is" arbitrary: merged)
  case (Cons i "is")
  then have i: "i + 1 < length merged" by simp
  note m = merge_at_ok [OF Cons.prems(1) i]
  have "\<forall>j\<in>set is. j + 1 < length (merge_at merged i)" using Cons.prems(2) i m(3) by auto
  from Cons.IH [OF m(1) _ this] Cons.prems(2) m(2,3) show ?case by auto
qed simp

lemma gaps_picked:
  assumes "excess \<le> length merged - 1"
  defines "gaps \<equiv> sort (map (\<lambda>i. (fst (merged ! (i + 1)) - snd (merged ! i), i)) [0..<length merged - 1])"
  defines "to_merge \<equiv> rev (sort (map snd (take excess gaps)))"
  shows "sorted_wrt (>) to_merge" "\<forall>i\<in>set to_merge. i + 1 < length merged" "length to_merge = excess"
proof -
  let ?g = "map (\<lambda>i. (fst (merged ! (i + 1)) - snd (merged ! i), i)) [0..<length merged - 1]"
  have len: "length gaps = length merged - 1" by (simp add: gaps_def)
  have "distinct (map snd ?g)" by (simp add: comp_def)
  then have g: "distinct ?g" "inj_on snd (set ?g)" by (simp_all only: distinct_map)
  have "distinct gaps" unfolding gaps_def distinct_sort by (rule g(1))
  moreover have sg: "set gaps = set ?g" unfolding gaps_def by (rule set_sort)
  ultimately have dg: "distinct (map snd gaps)" using g(2) by (simp only: distinct_map)
  then have d: "distinct (map snd (take excess gaps))" by (simp flip: take_map)
  have "sorted_wrt (<) (sort (map snd (take excess gaps)))"
    using d by (simp add: strict_sorted_iff)
  then show "sorted_wrt (>) to_merge" unfolding to_merge_def sorted_wrt_rev by simp
  have "i < length merged - 1" if "i \<in> snd ` set gaps" for i using that unfolding sg by auto
  moreover have "set to_merge \<subseteq> snd ` set gaps" by (auto simp: to_merge_def dest: in_set_takeD)
  ultimately show "\<forall>i\<in>set to_merge. i + 1 < length merged" by force
  show "length to_merge = excess" using assms(1) len by (simp add: to_merge_def)
qed

lemma cap_ranges_ok:
  assumes "runs_ok n merged"
  shows "runs_ok n (cap_ranges merged) \<and> covered merged \<subseteq> covered (cap_ranges merged) \<and> length (cap_ranges merged) \<le> MAX_DATA_SEGMENTS"
proof (cases "length merged > MAX_DATA_SEGMENTS")
  case True
  have "length merged - MAX_DATA_SEGMENTS \<le> length merged - 1" by (simp add: MAX_DATA_SEGMENTS_def)
  note g = gaps_picked [OF this]
  from merge_down_ok [OF assms g(1,2)] g(3) True show ?thesis by (simp add: cap_ranges_def Let_def)
qed (use assms in \<open>simp add: cap_ranges_def\<close>)

text \<open>The ranges a snapshot is cut from.\<close>

definition snapshot_ranges :: "byte list \<Rightarrow> (nat \<times> nat) list" where
  "snapshot_ranges bytes = (case page_ranges bytes of [] \<Rightarrow> [] | r # rs \<Rightarrow> cap_ranges (foldl merge_near [r] rs))"

lemma snapshot_memory_ranges: "snapshot_memory bytes = map (\<lambda>(s, e). \<lparr>offset = s, sdata = slice s e bytes\<rparr>) (snapshot_ranges bytes)"
  by (simp add: snapshot_memory_def snapshot_ranges_def split: list.split)

lemma snapshot_ranges_ok:
  assumes "length bytes mod WASM_PAGE = 0"
  shows "runs_ok (length bytes) (snapshot_ranges bytes)" "\<forall>j<length bytes. bytes ! j \<noteq> 0 \<longrightarrow> j \<in> covered (snapshot_ranges bytes)"
    "length (snapshot_ranges bytes) \<le> MAX_DATA_SEGMENTS"
proof -
  note p = page_ranges_ok [OF assms]
  have "runs_ok (length bytes) (snapshot_ranges bytes) \<and> covered (page_ranges bytes) \<subseteq> covered (snapshot_ranges bytes) \<and>
    length (snapshot_ranges bytes) \<le> MAX_DATA_SEGMENTS"
  proof (cases "page_ranges bytes")
    case Nil
    then show ?thesis by (simp add: snapshot_ranges_def runs_ok_def)
  next
    case (Cons r rs)
    with p(1) have "runs_ok (length bytes) ([r] @ rs)" by simp
    note m = merge_all_ok [OF _ this, simplified]
    from cap_ranges_ok [of "length bytes" "foldl merge_near [r] rs"] m show ?thesis by (auto simp: snapshot_ranges_def Cons)
  qed
  with p(2) show "runs_ok (length bytes) (snapshot_ranges bytes)" "\<forall>j<length bytes. bytes ! j \<noteq> 0 \<longrightarrow> j \<in> covered (snapshot_ranges bytes)"
    "length (snapshot_ranges bytes) \<le> MAX_DATA_SEGMENTS" by auto
qed

section \<open>Loading the segments back\<close>

text \<open>Copying a list's own slices into another list of at least that length.\<close>

lemma load_slices:
  assumes "runs_ok (length bytes) rs" "length bytes \<le> length mem"
  shows "\<exists>out. load_segments (map (\<lambda>(s, e). \<lparr>offset = s, sdata = slice s e bytes\<rparr>) rs) mem = Inr out \<and> length out = length mem \<and>
    (\<forall>j<length mem. out ! j = (if j \<in> covered rs then bytes ! j else mem ! j))"
  using assms
proof (induction rs arbitrary: mem)
  case (Cons r rs)
  obtain s e where r: "r = (s, e)" by (cases r)
  have se: "s < e" "e \<le> length bytes" using Cons.prems(1) r by (auto simp: runs_ok_def)
  let ?m = "copy_at s (slice s e bytes) mem"
  have sl: "length (slice s e bytes) = e - s" using se by (simp add: slice_length)
  have l: "length ?m = length mem" using se sl Cons.prems(2) by (simp add: copy_at_length)
  have n: "?m ! j = (if s \<le> j \<and> j < e then bytes ! j else mem ! j)" if "j < length mem" for j
  proof -
    have "slice s e bytes ! (j - s) = bytes ! j" if "s \<le> j" "j < e" using that sl by (simp add: slice_nth)
    then show ?thesis using se sl Cons.prems(2) that by (simp add: copy_at_nth)
  qed
  have "runs_ok (length bytes) rs" using Cons.prems(1) by (simp add: runs_ok_def)
  from Cons.IH [OF this, of ?m] Cons.prems(2) l obtain out where
    o: "load_segments (map (\<lambda>(s, e). \<lparr>offset = s, sdata = slice s e bytes\<rparr>) rs) ?m = Inr out" "length out = length mem"
    "\<forall>j<length mem. out ! j = (if j \<in> covered rs then bytes ! j else ?m ! j)" by auto
  have "load_segments (map (\<lambda>(s, e). \<lparr>offset = s, sdata = slice s e bytes\<rparr>) (r # rs)) mem = Inr out"
    using o(1) r se sl Cons.prems(2) by simp
  moreover have "\<forall>j<length mem. out ! j = (if j \<in> covered (r # rs) then bytes ! j else mem ! j)"
    using o(3) n r by auto
  ultimately show ?case using o(2) by blast
qed simp

section \<open>Properties\<close>

text \<open>A memory image is always a whole number of pages: it is built as one and grows by whole pages.\<close>

lemma load_segments_length: "load_segments ss bytes = Inr out \<Longrightarrow> length out = length bytes"
  by (induction ss arbitrary: bytes) (auto simp: Let_def copy_at_length split: if_splits)

lemma next_multiple_of_mod: "0 < k \<Longrightarrow> next_multiple_of n k mod k = 0"
proof -
  assume k: "0 < k"
  have "n + (k - n mod k) = n div k * k + k" if "n mod k \<noteq> 0"
    using mod_less_divisor [OF k, of n] div_mult_mod_eq [of n k] by linarith
  then show ?thesis by (simp add: next_multiple_of_def)
qed

definition whole_pages :: "Image \<Rightarrow> bool" where
  "whole_pages im = (image_len im mod WASM_PAGE = 0)"

lemma whole_pages_ops:
  shows "build_image mems = Inr im \<Longrightarrow> whole_pages im" "whole_pages im \<Longrightarrow> whole_pages (extend_to im e)"
    "whole_pages im \<Longrightarrow> write_bytes im addr d = Inr im' \<Longrightarrow> whole_pages im'"
proof -
  show "whole_pages im" if "build_image mems = Inr im"
    using that load_segments_length by (auto simp: build_image_def whole_pages_def image_len_def split: list.splits sum.splits)
  show "whole_pages (extend_to im e)" if "whole_pages im"
    using that next_multiple_of_mod [of WASM_PAGE e] by (simp add: extend_to_def whole_pages_def image_len_def Let_def WASM_PAGE_def)
  show "whole_pages im'" if "whole_pages im" "write_bytes im addr d = Inr im'"
    using that by (auto simp: write_bytes_def whole_pages_def image_len_def Let_def copy_at_length split: if_splits)
qed

text \<open>C20. Writing an image back into its module and materializing the module again gives the image, byte for byte, with
  zeros after it where the memory is declared larger: no non-zero byte is lost by the page scan, by merging near runs
  or by closing the smallest gaps to stay within the segment limit.\<close>

theorem snapshot_roundtrip:
  assumes "whole_pages im" "im_memory im = 0" "mems \<noteq> []"
  shows "build_image (update mems im) =
    Inr (im\<lparr>im_bytes := im_bytes im @ replicate (initial_pages (hd mems) * WASM_PAGE - image_len im) 0\<rparr>)"
proof -
  obtain m ms where mems: "mems = m # ms" using assms(3) by (cases mems) auto
  let ?b = "im_bytes im"
  have w: "length ?b mod WASM_PAGE = 0" using assms(1) by (simp add: whole_pages_def image_len_def)
  define p where "p = max (initial_pages m) (length ?b div WASM_PAGE)"
  obtain m' where m': "update mems im = m' # ms" "initial_pages m' = p" "segments m' = snapshot_memory ?b"
    using assms(2) unfolding mems p_def by (auto simp: update_def Let_def split: option.splits)
  have len: "p * WASM_PAGE = length ?b + (initial_pages m * WASM_PAGE - length ?b)"
    using w by (cases "initial_pages m \<le> length ?b div WASM_PAGE") (auto simp: p_def max_def WASM_PAGE_def)
  note r = snapshot_ranges_ok [OF w]
  from load_slices [OF r(1), of "replicate (p * WASM_PAGE) 0"] len obtain out where
    out: "load_segments (snapshot_memory ?b) (replicate (p * WASM_PAGE) 0) = Inr out" "length out = p * WASM_PAGE"
    "\<forall>j<p * WASM_PAGE. out ! j = (if j \<in> covered (snapshot_ranges ?b) then ?b ! j else replicate (p * WASM_PAGE) 0 ! j)"
    unfolding snapshot_memory_ranges by auto
  have c: "j < length ?b" if "j \<in> covered (snapshot_ranges ?b)" for j
    using that r(1) by (fastforce simp: covered_def runs_ok_def)
  have "out = ?b @ replicate (initial_pages m * WASM_PAGE - length ?b) 0"
  proof (rule nth_equalityI)
    show "length out = length (?b @ replicate (initial_pages m * WASM_PAGE - length ?b) 0)" using out(2) len by simp
    fix j assume "j < length out"
    then show "out ! j = (?b @ replicate (initial_pages m * WASM_PAGE - length ?b) 0) ! j"
      using out(2,3) r(2) c len by (auto simp: nth_append)
  qed
  then show ?thesis using out(1) m' assms(2) mems by (simp add: build_image_def image_len_def)
qed

lemma slot_count:
  assumes "length bytes mod WASM_PAGE = 0"
  shows "length (snapshot_memory bytes) \<le> MAX_DATA_SEGMENTS"
  using snapshot_ranges_ok(3) [OF assms] by (simp add: snapshot_memory_ranges)

text \<open>C25. A snapshot has at most the number of data segments engines accept, each is non-empty and within the image, and
  they follow one another without overlap.\<close>

theorem snapshot_segments_ordered:
  assumes "length bytes mod WASM_PAGE = 0"
  shows "length (snapshot_memory bytes) \<le> MAX_DATA_SEGMENTS \<and>
    (\<forall>s\<in>set (snapshot_memory bytes). sdata s \<noteq> [] \<and> offset s + length (sdata s) \<le> length bytes) \<and>
    sorted_wrt (\<lambda>s t. offset s + length (sdata s) \<le> offset t) (snapshot_memory bytes)"
proof -
  note r = snapshot_ranges_ok(1) [OF assms]
  have in_r: "s < e \<and> e \<le> length bytes" if "(s, e) \<in> set (snapshot_ranges bytes)" for s e using r that by (auto simp: runs_ok_def)
  have "sorted_wrt (\<lambda>a b. snd a \<le> fst b) (snapshot_ranges bytes)" using r by (simp add: runs_ok_def)
  then have "sorted_wrt (\<lambda>(s, e) (s', e'). s + length (slice s e bytes) \<le> s') (snapshot_ranges bytes)"
    by (rule sorted_wrt_mono_rel [rotated]) (use in_r in \<open>fastforce simp: slice_length\<close>)
  then have "sorted_wrt (\<lambda>s t. offset s + length (sdata s) \<le> offset t) (snapshot_memory bytes)"
    unfolding snapshot_memory_ranges sorted_wrt_map by (rule sorted_wrt_mono_rel [rotated]) auto
  moreover have "slice s e bytes \<noteq> [] \<and> s + length (slice s e bytes) \<le> length bytes" if "(s, e) \<in> set (snapshot_ranges bytes)" for s e
    using in_r [OF that] by (auto simp: slice_length simp flip: length_0_conv)
  then have "\<forall>s\<in>set (snapshot_memory bytes). sdata s \<noteq> [] \<and> offset s + length (sdata s) \<le> length bytes"
    unfolding snapshot_memory_ranges by auto
  ultimately show ?thesis using slot_count [OF assms] by blast
qed

text \<open>A 32-bit word written into an image reads back, every other byte is untouched, and a write fails exactly
  when it would leave the image.\<close>

theorem image_word_roundtrip:
  "(unat addr + 4 \<le> image_len im \<longrightarrow>
     (\<exists>im'. write_u32 im addr v = Inr im' \<and> image_read_u32 im' addr = Inr v \<and> image_len im' = image_len im \<and>
        (\<forall>j<image_len im. j < unat addr \<or> unat addr + 4 \<le> j \<longrightarrow> im_bytes im' ! j = im_bytes im ! j))) \<and>
   (image_len im < unat addr + 4 \<longrightarrow> write_u32 im addr v = Inl (WriteOutOfBounds addr 4) \<and> image_read_u32 im addr = Inl (ReadOutOfBounds addr))"
proof -
  have l: "length (to_le 4 v) = 4" by simp
  have "unat addr < 2 ^ LENGTH(32)" by (rule unsigned_less)
  then have small: "\<not> unat addr + 4 \<ge> 2 ^ 64" by simp
  show ?thesis
  proof (intro conjI impI)
    assume in_im: "unat addr + 4 \<le> image_len im"
    let ?im = "im\<lparr>im_bytes := copy_at (unat addr) (to_le 4 v) (im_bytes im)\<rparr>"
    have w: "write_u32 im addr v = Inr ?im" using in_im small l by (simp add: write_u32_def write_bytes_def image_len_def)
    have len: "length (im_bytes ?im) = length (im_bytes im)" using in_im l by (simp add: copy_at_length image_len_def)
    have "slice (unat addr) (unat addr + 4) (im_bytes ?im) = to_le 4 v" using in_im l by (simp add: slice_def copy_at_def image_len_def)
    then have "image_read_u32 ?im addr = Inr v" using small len in_im by (simp add: image_read_u32_def from_to_le image_len_def)
    then show "\<exists>im'. write_u32 im addr v = Inr im' \<and> image_read_u32 im' addr = Inr v \<and> image_len im' = image_len im \<and>
        (\<forall>j<image_len im. j < unat addr \<or> unat addr + 4 \<le> j \<longrightarrow> im_bytes im' ! j = im_bytes im ! j)"
      using w len in_im l by (intro exI [of _ ?im]) (auto simp: image_len_def copy_at_nth)
  qed (use small l in \<open>simp_all add: write_u32_def write_bytes_def image_read_u32_def image_len_def\<close>)
qed

section \<open>Witnesses\<close>

definition demo_image :: Image where
  "demo_image = \<lparr>im_memory = 0, im_bytes = 7 # replicate 65535 0\<rparr>"

theorem snapshot_roundtrip_witness:
  "build_image (update [\<lparr>initial_pages = 1, maximum_pages = None, segments = []\<rparr>] demo_image) = Inr demo_image"
  using snapshot_roundtrip [of demo_image "[\<lparr>initial_pages = 1, maximum_pages = None, segments = []\<rparr>]"]
  by (simp add: demo_image_def whole_pages_def image_len_def WASM_PAGE_def)

theorem snapshot_segments_ordered_witness:
  "length (snapshot_memory (7 # replicate 65535 0)) \<le> MAX_DATA_SEGMENTS"
  using snapshot_segments_ordered [of "7 # replicate 65535 0"] by (simp add: WASM_PAGE_def)

theorem image_word_roundtrip_witness:
  "(\<exists>im'. write_u32 demo_image 16 258 = Inr im' \<and> image_read_u32 im' 16 = Inr 258) \<and>
   write_u32 demo_image 65533 258 = Inl (WriteOutOfBounds 65533 4)"
  using image_word_roundtrip [of 16 demo_image 258] image_word_roundtrip [of 65533 demo_image 258]
  by (auto simp: demo_image_def image_len_def)

end
