(* ===== verification/Strip.thy ===== *)
theory Strip
  imports Bytes
begin

unbundle bit_operations_syntax

text \<open>
  Debug-section stripping, \<^verbatim>\<open>nightmonkey/src/strip.rs\<close>: the top-level section framing of a serialized module is walked
  and the name and DWARF custom sections are left out. \<open>usize\<close> sums are the wrapping sums of a release build; the loop
  is a partial function, because a wrapped section end can bring it back to an offset it has been at.
\<close>

section \<open>The code\<close>

datatype StripError = NotWasm | TruncatedLeb | OversizedLeb | SectionPastEnd | NamePastSection | NotUtf8 | Panic

text \<open>\<open>str::from_utf8\<close>: the well-formed byte sequences of UTF-8.\<close>

definition cont :: "byte \<Rightarrow> bool" where
  "cont b = (0x80 \<le> b \<and> b \<le> 0xBF)"

fun valid_utf8 :: "byte list \<Rightarrow> bool" where
  "valid_utf8 [] = True"
| "valid_utf8 (a # r) =
     (if a < 0x80 then valid_utf8 r
      else if 0xC2 \<le> a \<and> a \<le> 0xDF then (case r of b # r \<Rightarrow> cont b \<and> valid_utf8 r | _ \<Rightarrow> False)
      else if 0xE0 \<le> a \<and> a \<le> 0xEF then
        (case r of b # c # r \<Rightarrow>
           (if a = 0xE0 then 0xA0 \<le> b \<and> b \<le> 0xBF else if a = 0xED then 0x80 \<le> b \<and> b \<le> 0x9F else cont b) \<and> cont c \<and> valid_utf8 r
         | _ \<Rightarrow> False)
      else if 0xF0 \<le> a \<and> a \<le> 0xF4 then
        (case r of b # c # d # r \<Rightarrow>
           (if a = 0xF0 then 0x90 \<le> b \<and> b \<le> 0xBF else if a = 0xF4 then 0x80 \<le> b \<and> b \<le> 0x8F else cont b) \<and>
           cont c \<and> cont d \<and> valid_utf8 r
         | _ \<Rightarrow> False)
      else False)"

definition str_bytes :: "string \<Rightarrow> byte list" where
  "str_bytes s = map of_char s"

definition starts_with :: "'a list \<Rightarrow> 'a list \<Rightarrow> bool" where
  "starts_with xs p = (take (length p) xs = p)"

definition dropped :: "byte list \<Rightarrow> bool" where
  "dropped name = (name = str_bytes ''name'' \<or> starts_with name (str_bytes ''.debug''))"

function uleb_from :: "byte list \<Rightarrow> nat \<Rightarrow> 64 word \<Rightarrow> nat \<Rightarrow> StripError + (64 word \<times> nat)" where
  "uleb_from b i v shift =
     (if \<not> i < length b then Inl TruncatedLeb
      else let byte = b ! i; i = i + 1; v = v OR push_bit shift (ucast (byte AND 0x7f))
           in if byte AND 0x80 = 0 then Inr (v, i)
              else let shift = shift + 7 in if shift \<ge> 64 then Inl OversizedLeb else uleb_from b i v shift)"
  by pat_completeness auto
termination by (relation "measure (\<lambda>(b, i, _). length b - i)") auto

declare uleb_from.simps [simp del]

definition uleb :: "byte list \<Rightarrow> nat \<Rightarrow> StripError + (64 word \<times> nat)" where
  "uleb b i = uleb_from b i 0 0"

text \<open>One custom section: whether it is dropped. \<open>next\<close> and \<open>i\<close> are the bounds of its contents.\<close>

definition custom_dropped :: "byte list \<Rightarrow> nat \<Rightarrow> nat \<Rightarrow> StripError + bool" where
  "custom_dropped wasm next i = (case uleb wasm next of
     Inl e \<Rightarrow> Inl e
   | Inr (len, after) \<Rightarrow>
       (let end = unat (of_nat after + len)
        in if end > i then Inl NamePastSection
           else if end < after then Inl Panic
           else if \<not> valid_utf8 (slice after end wasm) then Inl NotUtf8
           else Inr (dropped (slice after end wasm))))"

partial_function (option) strip_from :: "byte list \<Rightarrow> nat \<Rightarrow> byte list \<Rightarrow> (StripError + byte list) option" where
  "strip_from wasm i out =
     (if \<not> i < length wasm then Some (Inr out)
      else case uleb wasm (i + 1) of
        Inl e \<Rightarrow> Some (Inl e)
      | Inr (sz, next) \<Rightarrow>
          (let start = i; i = unat (of_nat next + sz)
           in if i > length wasm then Some (Inl SectionPastEnd)
              else case (if wasm ! start = 0 then custom_dropped wasm next i else Inr False) of
                Inl e \<Rightarrow> Some (Inl e)
              | Inr skip \<Rightarrow>
                  if skip then strip_from wasm i out
                  else if i < start then Some (Inl Panic) else strip_from wasm i (out @ slice start i wasm)))"

definition strip :: "byte list \<Rightarrow> (StripError + byte list) option" where
  "strip wasm =
     (if \<not> starts_with wasm [0, 0x61, 0x73, 0x6D] \<or> length wasm < 8 then Some (Inl NotWasm)
      else strip_from wasm 8 (take 8 wasm))"

section \<open>The framing\<close>

text \<open>The canonical LEB128 encoding, and the sections of a module.\<close>

function uleb_enc :: "nat \<Rightarrow> byte list" where
  "uleb_enc n = (if n < 128 then [of_nat n] else of_nat (n mod 128 + 128) # uleb_enc (n div 128))"
  by pat_completeness auto
termination by (relation "measure id") auto

declare uleb_enc.simps [simp del]

datatype Section = Custom "byte list" "byte list" | Standard byte "byte list"

fun sec_id :: "Section \<Rightarrow> byte" where
  "sec_id (Custom _ _) = 0"
| "sec_id (Standard i _) = i"

fun sec_body :: "Section \<Rightarrow> byte list" where
  "sec_body (Custom name content) = uleb_enc (length name) @ name @ content"
| "sec_body (Standard _ body) = body"

definition sec_bytes :: "Section \<Rightarrow> byte list" where
  "sec_bytes s = sec_id s # uleb_enc (length (sec_body s)) @ sec_body s"

definition module_bytes :: "byte list \<Rightarrow> Section list \<Rightarrow> byte list" where
  "module_bytes header secs = header @ concat (map sec_bytes secs)"

fun is_debug :: "Section \<Rightarrow> bool" where
  "is_debug (Custom name _) = dropped name"
| "is_debug (Standard _ _) = False"

fun sec_ok :: "Section \<Rightarrow> bool" where
  "sec_ok (Custom name _) = valid_utf8 name"
| "sec_ok (Standard i _) = (i \<noteq> 0)"

section \<open>LEB128\<close>

lemma byte_parts:
  assumes "m < 128"
  shows "(of_nat m :: byte) AND 0x7f = of_nat m" "(of_nat (m + 128) :: byte) AND 0x7f = of_nat m"
    "(of_nat m :: byte) AND 0x80 = 0" "(of_nat (m + 128) :: byte) AND 0x80 \<noteq> 0"
proof -
  have t: "(x :: byte) AND 0x7f = take_bit 7 x" for x by (simp add: take_bit_eq_mask mask_eq_exp_minus_1)
  have b: "(x :: byte) AND 0x80 = 0 \<longleftrightarrow> \<not> bit x 7" for x using and_exp_eq_0_iff_not_bit [of x 7] by simp
  show "(of_nat m :: byte) AND 0x7f = of_nat m" "(of_nat (m + 128) :: byte) AND 0x7f = of_nat m"
    unfolding t take_bit_of_nat using assms by (simp_all add: take_bit_nat_def)
  show "(of_nat m :: byte) AND 0x80 = 0" "(of_nat (m + 128) :: byte) AND 0x80 \<noteq> 0"
    unfolding b bit_of_nat_iff using assms div_add_self2 [of 128 m] by (simp_all add: bit_iff_odd)
qed

lemma or_push:
  assumes "a < 2 ^ s"
  shows "(of_nat a :: 64 word) OR push_bit s (of_nat m) = of_nat (a + m * 2 ^ s)"
proof -
  have a: "take_bit s a = a" using assms by (rule take_bit_nat_eq_self)
  have "\<not> bit (of_nat a :: 64 word) n \<or> \<not> bit (push_bit s (of_nat m :: 64 word)) n" for n
  proof (cases "n < s")
    case False
    then have "\<not> bit (take_bit s a) n" by (simp add: bit_take_bit_iff)
    then show ?thesis unfolding a by (simp add: bit_of_nat_iff)
  qed (simp add: bit_push_bit_iff)
  then have "(of_nat a :: 64 word) + push_bit s (of_nat m) = of_nat a OR push_bit s (of_nat m)" by (rule disjunctive_add)
  then show ?thesis by (simp add: push_bit_eq_mult)
qed

lemma uleb_from_enc:
  assumes "a < 2 ^ s" "n * 2 ^ s < 2 ^ 64" "s < 64"
  shows "uleb_from (xs @ uleb_enc n @ ys) (length xs) (of_nat a) s = Inr (of_nat (a + n * 2 ^ s), length xs + length (uleb_enc n))"
  using assms
proof (induction n arbitrary: xs a s rule: uleb_enc.induct)
  case (1 n)
  show ?case
  proof (cases "n < 128")
    case True
    then have e: "uleb_enc n = [of_nat n]" by (simp add: uleb_enc.simps)
    have u: "ucast (of_nat n :: byte) = (of_nat n :: 64 word)" using True by (simp add: unsigned_of_nat take_bit_nat_eq_self)
    show ?thesis unfolding e using True 1(2)
      by (subst uleb_from.simps) (simp add: nth_append byte_parts u or_push)
  next
    case False
    let ?m = "n mod 128"
    have e: "uleb_enc n = of_nat (?m + 128) # uleb_enc (n div 128)" using False by (subst uleb_enc.simps) simp
    have m: "?m < 128" by simp
    have u: "ucast (of_nat ?m :: byte) = (of_nat ?m :: 64 word)" by (simp add: unsigned_of_nat take_bit_nat_eq_self)
    have "(2 :: nat) ^ (s + 7) \<le> n * 2 ^ s" using False by (simp add: power_add)
    also have "\<dots> < 2 ^ 64" by (rule 1(3))
    finally have s7: "s + 7 < 64" using power_less_imp_less_exp [of "2 :: nat" "s + 7" 64] by simp
    have n: "n = 128 * (n div 128) + ?m" by simp
    have a: "a + ?m * 2 ^ s < 2 ^ (s + 7)"
    proof -
      have "?m * 2 ^ s \<le> 127 * 2 ^ s" using m by (intro mult_right_mono) simp_all
      then have "a + ?m * 2 ^ s < 2 ^ s + 127 * 2 ^ s" using 1(2) by (rule add_less_le_mono [rotated])
      then show ?thesis by (simp add: power_add)
    qed
    have "n div 128 * 2 ^ (s + 7) \<le> n * 2 ^ s"
    proof -
      have "n div 128 * 128 * 2 ^ s \<le> n * 2 ^ s" by (intro mult_right_mono) simp_all
      then show ?thesis by (simp add: power_add mult.assoc mult.commute mult.left_commute)
    qed
    then have lt: "n div 128 * 2 ^ (s + 7) < 2 ^ 64" using 1(3) by linarith
    have ih: "uleb_from ((xs @ [of_nat (?m + 128)]) @ uleb_enc (n div 128) @ ys) (length (xs @ [of_nat (?m + 128) :: byte])) (of_nat (a + ?m * 2 ^ s)) (s + 7)
       = Inr (of_nat (a + ?m * 2 ^ s + n div 128 * 2 ^ (s + 7)), length (xs @ [of_nat (?m + 128) :: byte]) + length (uleb_enc (n div 128)))"
      by (rule 1(1) [OF False a lt s7])
    have val: "a + ?m * 2 ^ s + n div 128 * 2 ^ (s + 7) = a + n * 2 ^ s"
    proof -
      have "128 * (n div 128) * 2 ^ s + ?m * 2 ^ s = n * 2 ^ s" unfolding add_mult_distrib [symmetric] by simp
      moreover have "n div 128 * 2 ^ (s + 7) = 128 * (n div 128) * 2 ^ s" by (simp add: power_add)
      ultimately show ?thesis by linarith
    qed
    have "uleb_from (xs @ uleb_enc n @ ys) (length xs) (of_nat a) s =
      uleb_from (xs @ uleb_enc n @ ys) (length xs + 1) (of_nat (a + ?m * 2 ^ s)) (s + 7)"
      using s7 1(2) unfolding e by (subst uleb_from.simps) (simp add: nth_append byte_parts(2,4) [OF m] u or_push Let_def del: of_nat_add)
    also have "\<dots> = Inr (of_nat (a + n * 2 ^ s), length xs + length (uleb_enc n))"
      using ih unfolding val e by simp
    finally show ?thesis .
  qed
qed

lemma uleb_enc_dec: "n < 2 ^ 64 \<Longrightarrow> uleb (xs @ uleb_enc n @ ys) (length xs) = Inr (of_nat n, length xs + length (uleb_enc n))"
  using uleb_from_enc [of 0 0 n xs ys] by (simp add: uleb_def)

section \<open>Walking the sections\<close>

text \<open>The end of a piece that lies within the module does not wrap.\<close>

lemma end_nowrap:
  assumes "m + n < 2 ^ 64"
  shows "unat (of_nat m + of_nat n :: 64 word) = m + n"
proof -
  have "unat (of_nat (m + n) :: 64 word) = m + n" using assms by (simp add: unsigned_of_nat take_bit_nat_eq_self del: of_nat_add)
  then show ?thesis by simp
qed

lemma custom_dropped_enc:
  assumes "valid_utf8 name" "length xs + length (uleb_enc (length name)) + length name + length content < 2 ^ 64"
  shows "custom_dropped (xs @ sec_body (Custom name content) @ ys) (length xs) (length xs + length (sec_body (Custom name content))) = Inr (dropped name)"
proof -
  let ?w = "xs @ sec_body (Custom name content) @ ys" and ?l = "uleb_enc (length name)"
  have w: "?w = xs @ ?l @ name @ content @ ys" by simp
  have u: "uleb ?w (length xs) = Inr (of_nat (length name), length xs + length ?l)"
    unfolding w using assms(2) by (intro uleb_enc_dec) linarith
  have e: "unat (of_nat (length xs + length ?l) + of_nat (length name) :: 64 word) = length xs + length ?l + length name"
    using assms(2) by (intro end_nowrap) linarith
  have "slice (length (xs @ ?l)) (length xs + length ?l + length name) ((xs @ ?l) @ name @ (content @ ys)) = name"
    by (rule slice_append_mid) simp_all
  then have sl: "slice (length xs + length ?l) (length xs + length ?l + length name) ?w = name" unfolding w by simp
  show ?thesis unfolding custom_dropped_def u sum.case prod.case e Let_def sl using assms(1) by simp
qed

lemma strip_from_section:
  assumes "sec_ok s" "length (xs @ sec_bytes s @ ys) < 2 ^ 63"
  shows "strip_from (xs @ sec_bytes s @ ys) (length xs) out =
    strip_from (xs @ sec_bytes s @ ys) (length (xs @ sec_bytes s)) (if is_debug s then out else out @ sec_bytes s)"
proof -
  let ?b = "sec_body s" and ?l = "uleb_enc (length (sec_body s))" and ?w = "xs @ sec_bytes s @ ys"
  have w: "?w = (xs @ [sec_id s]) @ ?l @ ?b @ ys" by (simp add: sec_bytes_def)
  have u: "uleb ?w (length xs + 1) = Inr (of_nat (length ?b), length xs + 1 + length ?l)"
    using uleb_enc_dec [of "length ?b" "xs @ [sec_id s]" "?b @ ys"] assms(2) unfolding w by simp
  have e: "unat (of_nat (length xs + 1 + length ?l) + of_nat (length ?b) :: 64 word) = length (xs @ sec_bytes s)"
    using end_nowrap [of "length xs + 1 + length ?l" "length ?b"] assms(2) by (simp add: sec_bytes_def)
  have id: "?w ! length xs = sec_id s" unfolding w by (simp add: nth_append)
  have c: "(if ?w ! length xs = 0 then custom_dropped ?w (length xs + 1 + length ?l) (length (xs @ sec_bytes s)) else Inr False) = Inr (is_debug s)"
  proof (cases s)
    case (Custom name content)
    have "custom_dropped ((xs @ [sec_id s] @ ?l) @ sec_body (Custom name content) @ ys) (length (xs @ [sec_id s] @ ?l))
        (length (xs @ [sec_id s] @ ?l) + length (sec_body (Custom name content))) = Inr (dropped name)"
      using assms Custom by (intro custom_dropped_enc) (simp_all add: sec_bytes_def)
    moreover have "(xs @ [sec_id s] @ ?l) @ sec_body (Custom name content) @ ys = ?w" unfolding w using Custom by simp
    ultimately show ?thesis using id Custom by (simp add: sec_bytes_def add.assoc)
  next
    case (Standard i body)
    then show ?thesis using assms(1) id by simp
  qed
  have sl: "slice (length xs) (length (xs @ sec_bytes s)) ?w = sec_bytes s" by (rule slice_append_mid) simp_all
  have lt: "length xs < length ?w" by (simp add: sec_bytes_def)
  have le: "length ?w < length (xs @ sec_bytes s) \<longleftrightarrow> False" "length (xs @ sec_bytes s) < length xs \<longleftrightarrow> False" by simp_all
  show ?thesis
    by (cases "is_debug s"; subst strip_from.simps)
      (simp_all only: lt u e c sl le Let_def sum.case prod.case not_True_eq_False if_True if_False)
qed

lemma strip_from_sections:
  assumes "\<forall>s\<in>set secs. sec_ok s" "length (xs @ concat (map sec_bytes secs)) < 2 ^ 63"
  shows "strip_from (xs @ concat (map sec_bytes secs)) (length xs) out =
    Some (Inr (out @ concat (map sec_bytes (filter (\<lambda>s. \<not> is_debug s) secs))))"
  using assms
proof (induction secs arbitrary: xs out)
  case Nil
  then show ?case by (subst strip_from.simps) simp
next
  case (Cons s secs)
  from Cons.IH [of "xs @ sec_bytes s"] Cons.prems strip_from_section [of s xs "concat (map sec_bytes secs)" out]
  show ?case by simp
qed

section \<open>Properties\<close>

text \<open>C22. Stripping a module whose sections are framed as the format says ends, and gives the module without its name
  section and its DWARF sections, every other section byte for byte in place.\<close>

theorem strip_drops_debug_sections:
  assumes "starts_with header [0, 0x61, 0x73, 0x6D]" "length header = 8" "\<forall>s\<in>set secs. sec_ok s"
    "length (module_bytes header secs) < 2 ^ 63"
  shows "strip (module_bytes header secs) = Some (Inr (module_bytes header (filter (\<lambda>s. \<not> is_debug s) secs)))"
proof -
  have "starts_with (header @ r) [0, 0x61, 0x73, 0x6D]" for r using assms(1,2) by (simp add: starts_with_def)
  moreover have "take 8 (header @ r) = header" for r using assms(2) by simp
  ultimately show ?thesis
    using strip_from_sections [OF assms(3), of header header] assms(2,4) by (simp add: strip_def module_bytes_def)
qed

definition demo_header :: "byte list" where
  "demo_header = [0, 0x61, 0x73, 0x6D, 1, 0, 0, 0]"

theorem strip_drops_debug_sections_witness:
  "strip (module_bytes demo_header [Custom (str_bytes ''name'') [7, 8], Standard 1 [0], Custom (str_bytes ''.debug_info'') [9], Custom (str_bytes ''x'') []]) =
   Some (Inr (module_bytes demo_header [Standard 1 [0], Custom (str_bytes ''x'') []]))"
proof -
  let ?secs = "[Custom (str_bytes ''name'') [7, 8], Standard 1 [0], Custom (str_bytes ''.debug_info'') [9], Custom (str_bytes ''x'') []]"
  have "strip (module_bytes demo_header ?secs) = Some (Inr (module_bytes demo_header (filter (\<lambda>s. \<not> is_debug s) ?secs)))"
  proof (rule strip_drops_debug_sections)
    show "starts_with demo_header [0, 0x61, 0x73, 0x6D]" "length demo_header = 8" by (simp_all add: starts_with_def demo_header_def)
    show "\<forall>s\<in>set ?secs. sec_ok s" by (simp add: str_bytes_def)
    show "length (module_bytes demo_header ?secs) < 2 ^ 63" by (simp add: module_bytes_def demo_header_def sec_bytes_def str_bytes_def uleb_enc.simps)
  qed
  then show ?thesis by (simp add: dropped_def str_bytes_def starts_with_def)
qed

section \<open>Sizes that wrap\<close>

lemma strip_from_prefix:
  assumes "\<forall>s\<in>set secs. sec_ok s" "length (xs @ concat (map sec_bytes secs) @ ys) < 2 ^ 63"
  shows "\<exists>out'. strip_from (xs @ concat (map sec_bytes secs) @ ys) (length xs) out =
    strip_from (xs @ concat (map sec_bytes secs) @ ys) (length (xs @ concat (map sec_bytes secs))) out'"
  using assms
proof (induction secs arbitrary: xs out)
  case (Cons s secs)
  from Cons.IH [of "xs @ sec_bytes s"] Cons.prems strip_from_section [of s xs "concat (map sec_bytes secs) @ ys" out]
  show ?case by simp
qed auto

text \<open>A section that is kept and ends where it starts is read again and again.\<close>

lemma strip_from_stays:
  assumes "start < length wasm" "wasm ! start \<noteq> 0" "uleb wasm (start + 1) = Inr (sz, next)" "unat (of_nat next + sz) = start"
  shows "strip_from wasm start out = None"
proof -
  have "\<not> (w = wasm \<and> i = start)" if "strip_from w i out = Some r" for w i out r
  proof (rule strip_from.raw_induct [where P = "\<lambda>w i out r. \<not> (w = wasm \<and> i = start)", OF _ that], goal_cases)
    case (1 f w i out r)
    show ?case
    proof
      assume a: "w = wasm \<and> i = start"
      have "f wasm start (out @ slice start start wasm) = Some r" using 1(2) a assms by simp
      from 1(1) [OF this] show False by simp
    qed
  qed
  then show ?thesis by (cases "strip_from wasm start out") auto
qed

text \<open>C37. The end of a section is a wrapping sum that is only compared with the module length. Whatever well-framed sections stand before
  it, a section other than a custom one whose declared size wraps its end back to its own first byte keeps stripping from ever
  returning, and one whose end wraps further back makes it panic on the slice.\<close>

theorem strip_wrapped_size:
  assumes "starts_with header [0, 0x61, 0x73, 0x6D]" "length header = 8" "\<forall>s\<in>set secs. sec_ok s" "i \<noteq> 0" "sz < 2 ^ 64"
    "length (module_bytes header secs @ i # uleb_enc sz @ ys) < 2 ^ 63"
    "(length (module_bytes header secs) + 1 + length (uleb_enc sz) + sz) mod 2 ^ 64 \<le> length (module_bytes header secs)"
  shows "strip (module_bytes header secs @ i # uleb_enc sz @ ys) =
    (if (length (module_bytes header secs) + 1 + length (uleb_enc sz) + sz) mod 2 ^ 64 = length (module_bytes header secs) then None
     else Some (Inl Panic))"
proof -
  let ?p = "module_bytes header secs" and ?w = "module_bytes header secs @ i # uleb_enc sz @ ys"
  let ?stop = "(length ?p + 1 + length (uleb_enc sz) + sz) mod 2 ^ 64"
  have w: "?w = (?p @ [i]) @ uleb_enc sz @ ys" by simp
  have u: "uleb ?w (length ?p + 1) = Inr (of_nat sz, length ?p + 1 + length (uleb_enc sz))"
    using uleb_enc_dec [of sz "?p @ [i]" ys, OF assms(5)] unfolding w by simp
  have e: "unat (of_nat (length ?p + 1 + length (uleb_enc sz)) + of_nat sz :: 64 word) = ?stop"
    unfolding of_nat_add [symmetric] unsigned_of_nat take_bit_nat_def by simp
  have at: "length ?p < length ?w" "?w ! length ?p = i" by simp_all
  have "strip_from ?w (length ?p) out = (if ?stop = length ?p then None else Some (Inl Panic))" for out
  proof (cases "?stop = length ?p")
    case True
    with strip_from_stays [OF at(1) _ u] e assms(4) at(2) show ?thesis by simp
  next
    case False
    have l: "length ?w < ?stop \<longleftrightarrow> False" "?stop < length ?p \<longleftrightarrow> True" using assms(7) False by simp_all
    show ?thesis by (subst strip_from.simps) (simp only: at u e l False assms(4) Let_def sum.case prod.case not_True_eq_False if_True if_False)
  qed
  moreover obtain out where "strip_from ?w 8 header = strip_from ?w (length ?p) out"
    using strip_from_prefix [OF assms(3), of header "i # uleb_enc sz @ ys" header] assms(2,6) by (auto simp: module_bytes_def)
  moreover have "strip ?w = strip_from ?w 8 header"
    using assms(1,2) by (simp add: strip_def module_bytes_def starts_with_def)
  ultimately show ?thesis by simp
qed

text \<open>A section of eleven bytes that ends where it starts, and one that ends a byte earlier.\<close>

theorem strip_wrapped_size_witness:
  "strip (module_bytes demo_header [Standard 1 [0]] @ 2 # uleb_enc (2 ^ 64 - 11) @ []) = None \<and>
   strip (module_bytes demo_header [Standard 1 [0]] @ 2 # uleb_enc (2 ^ 64 - 12) @ []) = Some (Inl Panic)"
proof -
  have h: "starts_with demo_header [0, 0x61, 0x73, 0x6D]" "length demo_header = 8" by (simp_all add: starts_with_def demo_header_def)
  have p: "length (module_bytes demo_header [Standard 1 [0]]) = 11" by (simp add: module_bytes_def demo_header_def sec_bytes_def uleb_enc.simps)
  have l: "length (uleb_enc 18446744073709551605) = 10" "length (uleb_enc 18446744073709551604) = 10" by (simp_all add: uleb_enc.simps)
  show ?thesis
    using strip_wrapped_size [OF h, of "[Standard 1 [0]]" 2 "2 ^ 64 - 11" "[]"] strip_wrapped_size [OF h, of "[Standard 1 [0]]" 2 "2 ^ 64 - 12" "[]"]
    by (simp add: p l)
qed

end
