(* ===== verification/Snapshot.thy ===== *)
theory Snapshot
  imports Bytecode Strip
begin

unbundle bit_operations_syntax

text \<open>
  Reading the engine's registration block out of guest memory: \<^verbatim>\<open>snapshot/src/mem.rs\<close>, \<^verbatim>\<open>layout.rs\<close>, \<^verbatim>\<open>registration.rs\<close>
  and the bounds of the live memory of \<^verbatim>\<open>ffi.rs\<close>. A memory is its \<open>read_bytes\<close>. The layout field list, the ABI version
  and the number of environment regions are generated by the build and come as the parameter \<open>g\<close>. Addresses are
  \<open>u32\<close> words whose sums wrap as in a release build.
\<close>

section \<open>Errors\<close>

text \<open>\<open>SlicePanic\<close> is a panic of the reader and not an error it returns: a slice whose end lies before its start.\<close>

datatype SnapError = AddressOverflow | OutOfBounds | NullRead | AbiMismatch | FieldCountMismatch | BadRootCount | TableTruncated
  | DigestTruncated | NameNotUtf8 | SlicePanic

definition ebind :: "'e + 'a \<Rightarrow> ('a \<Rightarrow> 'e + 'b) \<Rightarrow> 'e + 'b" where
  "ebind x f = (case x of Inl e \<Rightarrow> Inl e | Inr a \<Rightarrow> f a)"

lemma ebind_simps [simp]: "ebind (Inl e) f = Inl e" "ebind (Inr a) f = f a"
  by (simp_all add: ebind_def)

lemma ebind_Inr: "ebind x f = Inr b \<longleftrightarrow> (\<exists>a. x = Inr a \<and> f a = Inr b)"
  by (cases x) auto

section \<open>Memory access\<close>

type_synonym mem = "u32 \<Rightarrow> u32 \<Rightarrow> SnapError + byte list"

definition slice_mem :: "byte list \<Rightarrow> mem" where
  "slice_mem bytes a len =
     (let start = unat a; end = start + unat len
      in if end \<ge> 2 ^ 64 then Inl AddressOverflow
         else if end > length bytes then Inl OutOfBounds
         else Inr (slice start end bytes))"

text \<open>The live linear memory: its bytes end at \<open>limit\<close>, and a null read is refused.\<close>

definition live_mem :: "byte list \<Rightarrow> mem" where
  "live_mem bytes a len =
     (if a = 0 then Inl NullRead
      else let end = unat a + unat len in if end > length bytes then Inl OutOfBounds else Inr (slice (unat a) end bytes))"

definition read_u8 :: "mem \<Rightarrow> u32 \<Rightarrow> SnapError + byte" where
  "read_u8 m a = ebind (m a 1) (\<lambda>b. Inr (b ! 0))"

definition read_u16 :: "mem \<Rightarrow> u32 \<Rightarrow> SnapError + u16" where
  "read_u16 m a = ebind (m a 2) (\<lambda>b. Inr (from_le b))"

definition read_u32 :: "mem \<Rightarrow> u32 \<Rightarrow> SnapError + u32" where
  "read_u32 m a = ebind (m a 4) (\<lambda>b. Inr (from_le b))"

definition read_u64 :: "mem \<Rightarrow> u32 \<Rightarrow> SnapError + u64" where
  "read_u64 m a = ebind (m a 8) (\<lambda>b. Inr (from_le b))"

section \<open>The layout descriptor\<close>

record Generated =
  g_abi_version :: u32
  g_field_count :: nat
  g_field :: "string \<Rightarrow> nat"
  g_region_count :: u32

record Layout =
  lay_fields :: "u32 list"

fun read_words :: "mem \<Rightarrow> u32 \<Rightarrow> nat \<Rightarrow> SnapError + u32 list" where
  "read_words m a 0 = Inr []"
| "read_words m a (Suc n) = ebind (read_u32 m a) (\<lambda>w. ebind (read_words m (a + 4) n) (\<lambda>ws. Inr (w # ws)))"

definition layout_read :: "Generated \<Rightarrow> mem \<Rightarrow> u32 \<Rightarrow> SnapError + Layout" where
  "layout_read g m descriptor_addr =
     ebind (read_u32 m descriptor_addr) (\<lambda>abi.
       if abi \<noteq> g_abi_version g then Inl AbiMismatch
       else ebind (read_u32 m (descriptor_addr + 8)) (\<lambda>num_fields.
         if unat num_fields \<noteq> g_field_count g then Inl FieldCountMismatch
         else ebind (read_words m (descriptor_addr + 12) (unat num_fields)) (\<lambda>ws. Inr \<lparr>lay_fields = ws\<rparr>)))"

definition layout_get :: "Generated \<Rightarrow> Layout \<Rightarrow> string \<Rightarrow> u32" where
  "layout_get g l f = lay_fields l ! g_field g f"

section \<open>Table readers\<close>

text \<open>A reader takes the table and a position and gives a value and the next position. Positions are \<open>usize\<close> values whose
  sums wrap: \<open>usz\<close> is the number of such values, \<open>USIZE_HOST\<close> in the tools that read a snapshot image and \<open>USIZE_WASM\<close> in
  the shell that reads its own memory. A sum that wraps passes the bounds check, and then the slice panics.\<close>

definition USIZE_HOST :: nat where "USIZE_HOST = 2 ^ 64"

definition USIZE_WASM :: nat where "USIZE_WASM = 2 ^ 32"

type_synonym 'a reader = "byte list \<Rightarrow> nat \<Rightarrow> SnapError + ('a \<times> nat)"

definition rbind :: "'a reader \<Rightarrow> ('a \<Rightarrow> 'b reader) \<Rightarrow> 'b reader" where
  "rbind r f b pos = ebind (r b pos) (\<lambda>(x, pos). f x b pos)"

definition rret :: "'a \<Rightarrow> 'a reader" where
  "rret x b pos = Inr (x, pos)"

text \<open>\<open>while pos & 3 != 0 { pos += 1 }\<close>.\<close>

definition align4 :: "nat \<Rightarrow> nat" where
  "align4 pos = (pos + 3) div 4 * 4"

definition table_u32 :: "nat \<Rightarrow> u32 reader" where
  "table_u32 usz b pos =
     (let end = (pos + 4) mod usz
      in if end > length b then Inl TableTruncated
         else if end < pos then Inl SlicePanic
         else Inr (from_le (slice pos end b), end))"

definition table_bytes :: "nat \<Rightarrow> nat \<Rightarrow> byte list reader" where
  "table_bytes usz n b pos =
     (let end = (pos + n) mod usz
      in if end > length b then Inl TableTruncated
         else if end < pos then Inl SlicePanic
         else Inr (slice pos end b, align4 end mod usz))"

fun rtimes :: "nat \<Rightarrow> 'a reader \<Rightarrow> 'a list reader" where
  "rtimes 0 r = rret []"
| "rtimes (Suc n) r = rbind r (\<lambda>x. rbind (rtimes n r) (\<lambda>xs. rret (x # xs)))"

text \<open>\<open>insert\<close> into a hash map, entry by entry.\<close>

definition to_map :: "('k \<times> 'v) list \<Rightarrow> ('k \<rightharpoonup> 'v)" where
  "to_map kvs = foldl (\<lambda>m (k, v). m(k \<mapsto> v)) Map.empty kvs"

section \<open>The tables\<close>

record HeapObject =
  ho_clasp :: u32
  ho_kind :: u32
  ho_proto :: u32
  ho_props :: "(u32 \<times> u64) list"
  ho_elems :: "(u32 \<times> u64) list"

record RegexProgramSrc =
  rx_pattern :: JsString
  rx_flags :: u32
  rx_latin1 :: "byte list"
  rx_twobyte :: "byte list"
  rx_registers :: u32
  rx_pairs :: u32

record DigestBinding =
  db_name_atom :: u32
  db_is_var :: bool
  db_env_slot :: "u32 option"

record Digest =
  script_gcthing_kinds :: "u32 \<rightharpoonup> byte list"
  scope_bindings :: "u32 \<rightharpoonup> DigestBinding list"

definition table_value :: "nat \<Rightarrow> u64 reader" where
  "table_value usz = rbind (table_u32 usz) (\<lambda>l. rbind (table_u32 usz) (\<lambda>h. rret (ucast l OR push_bit 32 (ucast h))))"

definition slot_reader :: "nat \<Rightarrow> (u32 \<times> u64) reader" where
  "slot_reader usz = rbind (table_u32 usz) (\<lambda>k. rbind (table_value usz) (\<lambda>v. rret (k, v)))"

definition slots_reader :: "nat \<Rightarrow> (u32 \<times> u64) list reader" where
  "slots_reader usz = rbind (table_u32 usz) (\<lambda>n. rtimes (unat n) (slot_reader usz))"

definition selfhosted_entry :: "nat \<Rightarrow> (u32 \<times> byte list) reader" where
  "selfhosted_entry usz = rbind (table_u32 usz) (\<lambda>script. rbind (table_u32 usz) (\<lambda>name_len. rbind (table_bytes usz (unat name_len)) (\<lambda>name b pos.
     if valid_utf8 name then Inr ((script, name), pos) else Inl NameNotUtf8)))"

definition parse_selfhosted :: "nat \<Rightarrow> mem \<Rightarrow> u32 \<Rightarrow> u32 \<Rightarrow> SnapError + (u32 \<times> byte list) list" where
  "parse_selfhosted usz m a len =
     (if a = 0 \<or> len = 0 then Inr []
      else ebind (m a len) (\<lambda>bytes. ebind (rbind (table_u32 usz) (\<lambda>count. rtimes (unat count) (selfhosted_entry usz)) bytes 0) (\<lambda>(out, _). Inr out)))"

text \<open>\<open>chunks_exact(2)\<close> as little-endian units.\<close>

fun u16_chunks :: "byte list \<Rightarrow> u16 list" where
  "u16_chunks (a # b # r) = from_le [a, b] # u16_chunks r"
| "u16_chunks _ = []"

definition regex_entry :: "nat \<Rightarrow> RegexProgramSrc reader" where
  "regex_entry usz = rbind (table_u32 usz) (\<lambda>flags. rbind (table_u32 usz) (\<lambda>num_registers. rbind (table_u32 usz) (\<lambda>pair_count.
     rbind (table_u32 usz) (\<lambda>pattern_len. rbind (table_bytes usz (unat pattern_len * 2 mod usz)) (\<lambda>pattern.
     rbind (table_u32 usz) (\<lambda>latin1_len. rbind (table_bytes usz (unat latin1_len)) (\<lambda>latin1.
     rbind (table_u32 usz) (\<lambda>twobyte_len. rbind (table_bytes usz (unat twobyte_len)) (\<lambda>twobyte.
     rret \<lparr>rx_pattern = u16_chunks pattern, rx_flags = flags, rx_latin1 = latin1, rx_twobyte = twobyte,
       rx_registers = num_registers, rx_pairs = pair_count\<rparr>)))))))))"

definition parse_regex_programs :: "nat \<Rightarrow> mem \<Rightarrow> u32 \<Rightarrow> u32 \<Rightarrow> SnapError + RegexProgramSrc list" where
  "parse_regex_programs usz m a len =
     (if a = 0 \<or> len = 0 then Inr []
      else ebind (m a len) (\<lambda>bytes. ebind (rbind (table_u32 usz) (\<lambda>count. rtimes (unat count) (regex_entry usz)) bytes 0) (\<lambda>(out, _). Inr out)))"

definition heap_entry_reader :: "nat \<Rightarrow> (u32 \<times> HeapObject) reader" where
  "heap_entry_reader usz = rbind (table_u32 usz) (\<lambda>obj. rbind (table_u32 usz) (\<lambda>clasp. rbind (table_u32 usz) (\<lambda>kind. rbind (table_u32 usz) (\<lambda>proto.
     rbind (slots_reader usz) (\<lambda>props. rbind (slots_reader usz) (\<lambda>elems.
     rret (obj, \<lparr>ho_clasp = clasp, ho_kind = kind, ho_proto = proto, ho_props = props, ho_elems = elems\<rparr>)))))))"

definition scope_slots_reader :: "nat \<Rightarrow> (u32 \<times> (u32 \<times> u64) list) reader" where
  "scope_slots_reader usz = rbind (table_u32 usz) (\<lambda>scope. rbind (slots_reader usz) (\<lambda>slots. rret (scope, slots)))"

definition heap_tables_reader :: "nat \<Rightarrow> ((u32 \<times> HeapObject) list \<times> (u32 \<times> (u32 \<times> u64) list) list) reader" where
  "heap_tables_reader usz = rbind (table_u32 usz) (\<lambda>count. rbind (rtimes (unat count) (heap_entry_reader usz)) (\<lambda>heap.
     rbind (table_u32 usz) (\<lambda>nscopes. rbind (rtimes (unat nscopes) (scope_slots_reader usz)) (\<lambda>scopes. rret (heap, scopes)))))"

definition parse_heap :: "nat \<Rightarrow> mem \<Rightarrow> u32 \<Rightarrow> u32 \<Rightarrow> SnapError + ((u32 \<rightharpoonup> HeapObject) \<times> (u32 \<rightharpoonup> (u32 \<times> u64) list))" where
  "parse_heap usz m a len =
     (if a = 0 \<or> len = 0 then Inr (Map.empty, Map.empty)
      else ebind (m a len) (\<lambda>bytes. ebind (heap_tables_reader usz bytes 0) (\<lambda>((heap, scopes), _). Inr (to_map heap, to_map scopes))))"

text \<open>The digest reads its words with a truncation error of its own.\<close>

definition digest_u32 :: "nat \<Rightarrow> u32 reader" where
  "digest_u32 usz b pos =
     (let end = (pos + 4) mod usz
      in if end > length b then Inl DigestTruncated
         else if end < pos then Inl SlicePanic
         else Inr (from_le (slice pos end b), end))"

definition digest_bytes :: "nat \<Rightarrow> nat \<Rightarrow> byte list reader" where
  "digest_bytes usz n b pos =
     (let end = (pos + n) mod usz
      in if end > length b then Inl DigestTruncated
         else if end < pos then Inl SlicePanic
         else Inr (slice pos end b, align4 end mod usz))"

definition script_kinds_reader :: "nat \<Rightarrow> (u32 \<times> byte list) reader" where
  "script_kinds_reader usz = rbind (digest_u32 usz) (\<lambda>script. rbind (digest_u32 usz) (\<lambda>n. rbind (digest_bytes usz (unat n)) (\<lambda>kinds. rret (script, kinds))))"

definition binding_reader :: "nat \<Rightarrow> DigestBinding reader" where
  "binding_reader usz = rbind (digest_u32 usz) (\<lambda>name_atom. rbind (digest_u32 usz) (\<lambda>is_var. rbind (digest_u32 usz) (\<lambda>has_slot. rbind (digest_u32 usz) (\<lambda>slot.
     rret \<lparr>db_name_atom = name_atom, db_is_var = (is_var \<noteq> 0), db_env_slot = (if has_slot \<noteq> 0 then Some slot else None)\<rparr>))))"

definition scope_bindings_reader :: "nat \<Rightarrow> (u32 \<times> DigestBinding list) reader" where
  "scope_bindings_reader usz = rbind (digest_u32 usz) (\<lambda>scope. rbind (digest_u32 usz) (\<lambda>n. rbind (rtimes (unat n) (binding_reader usz)) (\<lambda>bs. rret (scope, bs))))"

definition digest_reader :: "nat \<Rightarrow> ((u32 \<times> byte list) list \<times> (u32 \<times> DigestBinding list) list) reader" where
  "digest_reader usz = rbind (digest_u32 usz) (\<lambda>num_scripts. rbind (rtimes (unat num_scripts) (script_kinds_reader usz)) (\<lambda>kinds.
     rbind (digest_u32 usz) (\<lambda>num_scopes. rbind (rtimes (unat num_scopes) (scope_bindings_reader usz)) (\<lambda>scopes. rret (kinds, scopes)))))"

definition digest_parse :: "nat \<Rightarrow> mem \<Rightarrow> u32 \<Rightarrow> u32 \<Rightarrow> SnapError + Digest" where
  "digest_parse usz m a len =
     ebind (m a len) (\<lambda>bytes. ebind (digest_reader usz bytes 0) (\<lambda>((kinds, scopes), _).
       Inr \<lparr>script_gcthing_kinds = to_map kinds, scope_bindings = to_map scopes\<rparr>))"

section \<open>The registration block\<close>

definition MAX_ROOTS :: u32 where "MAX_ROOTS = 8"
definition OFF_ABI :: u32 where "OFF_ABI = 0"
definition OFF_LAYOUT :: u32 where "OFF_LAYOUT = 4"
definition OFF_FLAGS :: u32 where "OFF_FLAGS = 12"
definition OFF_NUM_ROOTS :: u32 where "OFF_NUM_ROOTS = 16"
definition OFF_ROOTS :: u32 where "OFF_ROOTS = 20"
definition OFF_DIGEST :: u32 where "OFF_DIGEST = OFF_ROOTS + 4 * MAX_ROOTS"
definition OFF_DIGEST_LEN :: u32 where "OFF_DIGEST_LEN = OFF_DIGEST + 4"
definition OFF_COMPILED :: u32 where "OFF_COMPILED = OFF_DIGEST_LEN + 4"
definition OFF_TOOL_VERSION :: u32 where "OFF_TOOL_VERSION = OFF_COMPILED + 4"
definition OFF_SELFHOSTED :: u32 where "OFF_SELFHOSTED = OFF_TOOL_VERSION + 4"
definition OFF_SELFHOSTED_LEN :: u32 where "OFF_SELFHOSTED_LEN = OFF_SELFHOSTED + 4"
definition OFF_REGEX_PROGRAMS :: u32 where "OFF_REGEX_PROGRAMS = OFF_SELFHOSTED_LEN + 4"
definition OFF_REGEX_PROGRAMS_LEN :: u32 where "OFF_REGEX_PROGRAMS_LEN = OFF_REGEX_PROGRAMS + 4"
definition OFF_REGION_TABLE :: u32 where "OFF_REGION_TABLE = OFF_REGEX_PROGRAMS_LEN + 4"

definition OFF_HEAP_OBJECTS :: "Generated \<Rightarrow> u32" where "OFF_HEAP_OBJECTS g = OFF_REGION_TABLE + 4 * g_region_count g"
definition OFF_HEAP_OBJECTS_LEN :: "Generated \<Rightarrow> u32" where "OFF_HEAP_OBJECTS_LEN g = OFF_HEAP_OBJECTS g + 4"
definition OFF_GLOBAL_OBJECT :: "Generated \<Rightarrow> u32" where "OFF_GLOBAL_OBJECT g = OFF_HEAP_OBJECTS_LEN g + 4"

record Registration =
  reg_addr :: u32
  reg_flags :: u32
  reg_roots :: "u32 list"
  reg_layout :: Layout
  reg_digest :: Digest
  reg_compiled :: u32
  reg_selfhosted :: "(u32 \<times> byte list) list"
  reg_regex_programs :: "RegexProgramSrc list"
  reg_heap :: "u32 \<rightharpoonup> HeapObject"
  reg_global_object :: u32
  reg_env_slots :: "u32 \<rightharpoonup> (u32 \<times> u64) list"

definition registration_read :: "nat \<Rightarrow> Generated \<Rightarrow> mem \<Rightarrow> u32 \<Rightarrow> SnapError + Registration" where
  "registration_read usz g m a =
     ebind (read_u32 m (a + OFF_ABI)) (\<lambda>abi.
     if abi \<noteq> g_abi_version g then Inl AbiMismatch
     else ebind (read_u32 m (a + OFF_NUM_ROOTS)) (\<lambda>num_roots.
     if num_roots = 0 \<or> num_roots > MAX_ROOTS then Inl BadRootCount
     else ebind (read_words m (a + OFF_ROOTS) (unat num_roots)) (\<lambda>roots.
     ebind (ebind (read_u32 m (a + OFF_LAYOUT)) (layout_read g m)) (\<lambda>layout.
     ebind (read_u32 m (a + OFF_DIGEST)) (\<lambda>digest_addr. ebind (read_u32 m (a + OFF_DIGEST_LEN)) (\<lambda>digest_len.
     ebind (digest_parse usz m digest_addr digest_len) (\<lambda>digest.
     ebind (read_u32 m (a + OFF_SELFHOSTED)) (\<lambda>sa. ebind (read_u32 m (a + OFF_SELFHOSTED_LEN)) (\<lambda>sl.
     ebind (parse_selfhosted usz m sa sl) (\<lambda>selfhosted.
     ebind (read_u32 m (a + OFF_REGEX_PROGRAMS)) (\<lambda>ra. ebind (read_u32 m (a + OFF_REGEX_PROGRAMS_LEN)) (\<lambda>rl.
     ebind (parse_regex_programs usz m ra rl) (\<lambda>regex_programs.
     ebind (read_u32 m (a + OFF_HEAP_OBJECTS g)) (\<lambda>ha. ebind (read_u32 m (a + OFF_HEAP_OBJECTS_LEN g)) (\<lambda>hl.
     ebind (parse_heap usz m ha hl) (\<lambda>(heap, env_slots).
     ebind (read_u32 m (a + OFF_FLAGS)) (\<lambda>flags. ebind (read_u32 m (a + OFF_COMPILED)) (\<lambda>compiled.
     ebind (read_u32 m (a + OFF_GLOBAL_OBJECT g)) (\<lambda>global.
     Inr \<lparr>reg_addr = a, reg_flags = flags, reg_roots = roots, reg_layout = layout, reg_digest = digest, reg_compiled = compiled,
       reg_selfhosted = selfhosted, reg_regex_programs = regex_programs, reg_heap = heap, reg_global_object = global,
       reg_env_slots = env_slots\<rparr>)))))))))))))))))))"

end
