(* ===== verification/Source.thy ===== *)
theory Source
  imports Snapshot
begin

text \<open>
  The input of the translator, \<^verbatim>\<open>compiler/src/source.rs\<close>: an arena of objects, scripts, strings, primitives, scopes and
  symbols that refer to one another by index. A panic (an index past the arena, an id past \<open>u32\<close>) is \<open>None\<close>. Doubles are
  kept as their bits.
\<close>

section \<open>The object graph\<close>

datatype ObjectKind = KOther | KPlain | KArray | KFunction | KTypedArray u8

datatype Primitive = PUndefined | PNull | PBoolean bool | PInt32 u32 | PDouble u64

record ObjectData =
  od_non_native :: bool
  od_kind :: ObjectKind
  od_slots_exact :: bool
  od_script :: "SourceObjectId option"
  od_name :: "SourceObjectId option"
  od_proto :: "SourceObjectId option"
  od_builtin_id :: "u8 option"
  od_properties :: "(SourceObjectId \<times> SourceObjectId) list"
  od_elements :: "(u32 \<times> SourceObjectId) list"

record ScopeData =
  sd_kind :: u8
  sd_has_environment :: bool
  sd_enclosing :: "SourceObjectId option"
  sd_bindings :: "(SourceObjectId \<times> bool \<times> u32 option) list"
  sd_env_slot_values :: "(u32 \<times> SourceObjectId) list"
  sd_is_named_lambda :: bool
  sd_env_nfixed :: "u32 option"

datatype SourceObject = SObject ObjectData | SScript Script | SString JsString | SPrimitive Primitive | SScope ScopeData | SSymbol

record Source =
  objects :: "SourceObject list"
  global_object :: "SourceObjectId option"
  selfhosted :: "(SourceObjectId \<times> byte list) list"
  regex_programs :: "RegexProgramSrc list"

definition source_other :: SourceObjectId where
  "source_other = 0xFFFFFFFF"

definition is_other :: "SourceObjectId \<Rightarrow> bool" where
  "is_other i = (i = source_other)"

definition source_object :: "Source \<Rightarrow> SourceObjectId \<Rightarrow> SourceObject option" where
  "source_object s i = (if unat i < length (objects s) then Some (objects s ! unat i) else None)"

definition source_push :: "Source \<Rightarrow> SourceObject \<Rightarrow> (SourceObjectId \<times> Source) option" where
  "source_push s obj =
     (if length (objects s) < 2 ^ 32 then Some (of_nat (length (objects s)), s\<lparr>objects := objects s @ [obj]\<rparr>) else None)"

definition objects_iter :: "Source \<Rightarrow> (SourceObjectId \<times> SourceObject) list" where
  "objects_iter s = zip (map of_nat [0..<length (objects s)]) (objects s)"

definition fn_script :: "Source \<Rightarrow> SourceObjectId \<Rightarrow> ScriptId option option" where
  "fn_script s i =
     (if is_other i then Some None
      else case source_object s i of
        None \<Rightarrow> None
      | Some (SObject d) \<Rightarrow> Some (if od_kind d = KFunction then od_script d else None)
      | Some _ \<Rightarrow> Some None)"

section \<open>Aliased variables\<close>

text \<open>The innermost scope note around \<open>pc\<close>: one pass that keeps the shortest note seen.\<close>

definition note_step :: "Script \<Rightarrow> Pc \<Rightarrow> SourceObjectId option \<times> u32 \<Rightarrow> ScopeNote \<Rightarrow> SourceObjectId option \<times> u32" where
  "note_step script pc st n = (case st of (cur, best_len) \<Rightarrow>
     if sn_gcthing_index n = 0xFFFFFFFF then st
     else if sn_start n \<le> pc \<and> pc < pc_add (sn_start n) (sn_length n) \<and> sn_length n < best_len then
       (if unat (sn_gcthing_index n) < length (gcthings script) then
          (let gc = gcthings script ! unat (sn_gcthing_index n) in if is_other gc then st else (Some gc, sn_length n))
        else st)
     else st)"

datatype ScopeAt = ScopeFound SourceObjectId | NoScope | ScopePanic

text \<open>\<open>hops\<close> environment-creating scopes outward; a cyclic chain without environments would never end.\<close>

partial_function (option) scope_out :: "Source \<Rightarrow> SourceObjectId \<Rightarrow> nat \<Rightarrow> ScopeAt option" where
  "scope_out s cur rem = (case source_object s cur of
     None \<Rightarrow> Some ScopePanic
   | Some obj \<Rightarrow> (case obj of
       SScope d \<Rightarrow>
         (if sd_has_environment d \<and> rem = 0 then Some (ScopeFound cur)
          else case sd_enclosing d of
            None \<Rightarrow> Some NoScope
          | Some e \<Rightarrow> scope_out s e (if sd_has_environment d then rem - 1 else rem))
     | _ \<Rightarrow> Some NoScope))"

definition aliased_scope_at :: "Source \<Rightarrow> Script \<Rightarrow> Pc \<Rightarrow> u16 \<Rightarrow> ScopeAt option" where
  "aliased_scope_at s script pc hops =
     (let cur = fst (foldl (note_step script pc) (None, 0xFFFFFFFF) (scope_notes script))
      in case (case cur of Some c \<Rightarrow> Some c | None \<Rightarrow> body_scope script) of
           None \<Rightarrow> Some NoScope
         | Some c \<Rightarrow> scope_out s c (unat hops))"

section \<open>The scope an access names\<close>

definition covers :: "Script \<Rightarrow> Pc \<Rightarrow> ScopeNote \<Rightarrow> bool" where
  "covers script pc n = (sn_gcthing_index n \<noteq> 0xFFFFFFFF \<and> sn_start n \<le> pc \<and> pc < pc_add (sn_start n) (sn_length n) \<and> sn_length n < 0xFFFFFFFF \<and>
     unat (sn_gcthing_index n) < length (gcthings script) \<and> \<not> is_other (gcthings script ! unat (sn_gcthing_index n)))"

definition innermost :: "Script \<Rightarrow> Pc \<Rightarrow> ScopeNote list \<Rightarrow> ScopeNote option" where
  "innermost script pc ns = find (\<lambda>n. covers script pc n \<and> (\<forall>n'\<in>set ns. covers script pc n' \<longrightarrow> sn_length n \<le> sn_length n')) ns"

lemma find_append: "find p (xs @ ys) = (case find p xs of None \<Rightarrow> find p ys | Some x \<Rightarrow> Some x)"
  by (induction xs) auto

lemma find_cong_set: "(\<And>x. x \<in> set xs \<Longrightarrow> p x = q x) \<Longrightarrow> find p xs = find q xs"
  by (induction xs) auto

lemma shortest_exists:
  assumes "n \<in> set ns" "p n"
  shows "\<exists>m\<in>set ns. p m \<and> (\<forall>n'\<in>set ns. p n' \<longrightarrow> (sn_length m :: u32) \<le> sn_length n')"
proof -
  let ?S = "{n \<in> set ns. p n}"
  have "finite (sn_length ` ?S)" "sn_length ` ?S \<noteq> {}" using assms by auto
  then have "Min (sn_length ` ?S) \<in> sn_length ` ?S" by (rule Min_in)
  then obtain m where "m \<in> ?S" "sn_length m = Min (sn_length ` ?S)" by auto
  moreover have "Min (sn_length ` ?S) \<le> sn_length n'" if "n' \<in> set ns" "p n'" for n' using that by (intro Min_le) auto
  ultimately show ?thesis by auto
qed

lemma innermost_None: "innermost script pc ns = None \<longleftrightarrow> (\<forall>n\<in>set ns. \<not> covers script pc n)"
  unfolding innermost_def find_None_iff using shortest_exists [of _ ns "covers script pc"] by blast

lemma innermost_Some:
  assumes "innermost script pc ns = Some n"
  shows "n \<in> set ns" "covers script pc n" "\<forall>n'\<in>set ns. covers script pc n' \<longrightarrow> sn_length n \<le> sn_length n'"
  using assms unfolding innermost_def find_Some_iff by (auto simp: in_set_conv_nth)

lemma innermost_snoc:
  "innermost script pc (ns @ [x]) =
    (if covers script pc x \<and> (\<forall>n. innermost script pc ns = Some n \<longrightarrow> sn_length x < sn_length n) then Some x else innermost script pc ns)"
proof (cases "innermost script pc ns")
  case None
  then have "\<forall>n\<in>set ns. \<not> covers script pc n" by (simp add: innermost_None)
  moreover from this have f: "find (\<lambda>n. covers script pc n \<and> P n) ns = None" for P unfolding find_None_iff by blast
  ultimately show ?thesis unfolding innermost_def [of _ _ "ns @ [x]"] find_append f using None by auto
next
  case (Some m)
  note m = innermost_Some [OF Some]
  let ?p = "\<lambda>n. covers script pc n \<and> (\<forall>n'\<in>set (ns @ [x]). covers script pc n' \<longrightarrow> sn_length n \<le> sn_length n')"
  show ?thesis
  proof (cases "covers script pc x \<and> sn_length x < sn_length m")
    case True
    have "find ?p ns = None" unfolding find_None_iff
    proof
      assume "\<exists>n. n \<in> set ns \<and> ?p n"
      then obtain n where "n \<in> set ns" "covers script pc n" "sn_length n \<le> sn_length x" using True by auto
      with m(3) True show False by auto
    qed
    moreover have "?p x" using True m(3) by (auto intro: less_imp_le order.trans)
    ultimately show ?thesis unfolding innermost_def [of _ _ "ns @ [x]"] find_append using True Some by simp
  next
    case False
    have "?p n = (covers script pc n \<and> (\<forall>n'\<in>set ns. covers script pc n' \<longrightarrow> sn_length n \<le> sn_length n'))" if "n \<in> set ns" for n
      using False m that by auto
    then have "find ?p ns = innermost script pc ns" unfolding innermost_def by (rule find_cong_set)
    then show ?thesis unfolding innermost_def [of _ _ "ns @ [x]"] find_append using False Some by auto
  qed
qed

lemma note_scan:
  "foldl (note_step script pc) (None, 0xFFFFFFFF) ns = (case innermost script pc ns of
     None \<Rightarrow> (None, 0xFFFFFFFF) | Some n \<Rightarrow> (Some (gcthings script ! unat (sn_gcthing_index n)), sn_length n))"
proof (induction ns rule: rev_induct)
  case Nil
  then show ?case by (simp add: innermost_def)
next
  case (snoc x ns)
  have lt: "sn_length n < 0xFFFFFFFF" if "innermost script pc ns = Some n" for n using innermost_Some(2) [OF that] by (simp add: covers_def)
  show ?case unfolding foldl_append foldl_Cons foldl_Nil snoc innermost_snoc
    by (cases "innermost script pc ns") (auto simp: note_step_def covers_def Let_def dest: lt)
qed

text \<open>An enclosing chain that ends, and the scopes of it that create environments.\<close>

fun scope_chain :: "Source \<Rightarrow> SourceObjectId list \<Rightarrow> bool" where
  "scope_chain s [] = False"
| "scope_chain s [c] = (\<exists>d. source_object s c = Some (SScope d) \<and> sd_enclosing d = None)"
| "scope_chain s (c # c' # cs) = (\<exists>d. source_object s c = Some (SScope d) \<and> sd_enclosing d = Some c' \<and> scope_chain s (c' # cs))"

definition env_scope :: "Source \<Rightarrow> SourceObjectId \<Rightarrow> bool" where
  "env_scope s c = (case source_object s c of Some (SScope d) \<Rightarrow> sd_has_environment d | _ \<Rightarrow> False)"

lemma scope_out_chain:
  assumes "scope_chain s (c # cs)"
  shows "scope_out s c n = Some (let es = filter (env_scope s) (c # cs) in if n < length es then ScopeFound (es ! n) else NoScope)"
  using assms
proof (induction cs arbitrary: c n)
  case Nil
  then obtain d where "source_object s c = Some (SScope d)" "sd_enclosing d = None" by auto
  then show ?case by (subst scope_out.simps) (auto simp: env_scope_def)
next
  case (Cons c' cs)
  then obtain d where d: "source_object s c = Some (SScope d)" "sd_enclosing d = Some c'" "scope_chain s (c' # cs)" by auto
  note ih = Cons.IH [OF d(3)]
  have e: "env_scope s c = sd_has_environment d" using d(1) by (simp add: env_scope_def)
  show ?case
  proof (cases "sd_has_environment d")
    case True
    with d ih show ?thesis by (subst scope_out.simps) (cases n; simp add: e Let_def)
  next
    case False
    with d ih show ?thesis by (subst scope_out.simps) (simp add: e Let_def)
  qed
qed

text \<open>C27. An aliased-variable access names the scope it should: starting from the shortest scope note around the access
  (the first of them in the table), or from the body scope when none covers it, the lookup ends and returns the
  scope that many environment-creating scopes outward on the enclosing chain, or none when the chain is too short.\<close>

theorem aliased_scope_exact:
  assumes "(case innermost script pc (scope_notes script) of
       Some n \<Rightarrow> Some (gcthings script ! unat (sn_gcthing_index n)) | None \<Rightarrow> body_scope script) = Some c"
    "scope_chain s (c # cs)"
  shows "aliased_scope_at s script pc hops =
    Some (let es = filter (env_scope s) (c # cs) in if unat hops < length es then ScopeFound (es ! unat hops) else NoScope)"
  using assms(1) scope_out_chain [OF assms(2), of "unat hops"]
  by (auto simp: aliased_scope_at_def note_scan split: option.splits)

definition demo_scope :: "SourceObjectId option \<Rightarrow> bool \<Rightarrow> ScopeData" where
  "demo_scope enc env = \<lparr>sd_kind = 0, sd_has_environment = env, sd_enclosing = enc, sd_bindings = [], sd_env_slot_values = [],
     sd_is_named_lambda = False, sd_env_nfixed = None\<rparr>"

definition demo_source :: Source where
  "demo_source = \<lparr>objects = [SScope (demo_scope None True), SScope (demo_scope (Some 0) False), SScope (demo_scope (Some 1) True)],
     global_object = None, selfhosted = [], regex_programs = []\<rparr>"

definition demo_scope_script :: Script where
  "demo_scope_script = \<lparr>bytecode = [], addr = 0, gcthings = [1, 2], resume_offsets = [], try_notes = [],
     scope_notes = [\<lparr>sn_gcthing_index = 0, sn_start = 0, sn_length = 40\<rparr>, \<lparr>sn_gcthing_index = 1, sn_start = 5, sn_length = 10\<rparr>],
     body_scope = Some 0, nargs = 0, is_generator_or_async = False, is_class_ctor = False, strict = False, has_mapped_args = False\<rparr>"

theorem aliased_scope_exact_witness:
  "aliased_scope_at demo_source demo_scope_script 7 1 = Some (ScopeFound 0) \<and> aliased_scope_at demo_source demo_scope_script 7 2 = Some NoScope"
proof -
  have i: "innermost demo_scope_script 7 (scope_notes demo_scope_script) = Some \<lparr>sn_gcthing_index = 1, sn_start = 5, sn_length = 10\<rparr>"
    by (simp add: innermost_def covers_def demo_scope_script_def pc_add_def is_other_def source_other_def)
  have c: "scope_chain demo_source [2, 1, 0]" by (simp add: demo_source_def demo_scope_def source_object_def)
  have e: "filter (env_scope demo_source) [2, 1, 0] = [2, 0]" by (simp add: env_scope_def demo_source_def demo_scope_def source_object_def)
  have g: "gcthings demo_scope_script ! unat (1 :: u32) = 2" by (simp add: demo_scope_script_def)
  show ?thesis
    using aliased_scope_exact [of demo_scope_script 7 2 demo_source "[1, 0]" 1] aliased_scope_exact [of demo_scope_script 7 2 demo_source "[1, 0]" 2]
    unfolding i e using c g by simp
qed

end
