(* ===== verification/Walker.thy ===== *)
theory Walker
  imports Source
begin

unbundle bit_operations_syntax

text \<open>
  The script-graph walker over raw guest memory, \<^verbatim>\<open>snapshot/src/walker.rs\<close>: cells get an id on first sight, by address,
  and composite cells are visited from a last-in-first-out worklist. \<open>m\<close> is the memory, \<open>lay\<close> the layout's \<open>get\<close>,
  \<open>reg\<close> the registration. A computation of the walker takes the walker state and returns an error or a value and the
  new state; \<open>None\<close> is a computation that never returns (the loops over note tables compare wrapping offsets). An
  unwrap of the wrong object class and an index past the arena are the error \<open>WPanic\<close>; an arena of \<open>2^32\<close> objects is \<open>TooManyObjects\<close>.
\<close>

section \<open>State and computations\<close>

datatype WErr = MemErr SnapError | SelfHostedLazy | LazyScript | NotInDigest | KindsMismatch | BodyScopeRange | StringNotLinear
  | BadTryNoteKind | TooManyObjects | WPanic

record Walker =
  w_source :: Source
  w_dedup :: "u32 \<rightharpoonup> u32"
  w_worklist :: "(u32 \<times> u8 \<times> u32) list"
  w_script_addr :: "u32 \<rightharpoonup> u32"
  w_object_addr :: "u32 \<rightharpoonup> u32"

type_synonym 'a wm = "Walker \<Rightarrow> (WErr + ('a \<times> Walker)) option"

definition wret :: "'a \<Rightarrow> 'a wm" where
  "wret x w = Some (Inr (x, w))"

definition wfail :: "WErr \<Rightarrow> 'a wm" where
  "wfail e w = Some (Inl e)"

definition wbind :: "'a wm \<Rightarrow> ('a \<Rightarrow> 'b wm) \<Rightarrow> 'b wm" where
  "wbind f g w = (case f w of None \<Rightarrow> None | Some r \<Rightarrow> (case r of Inl e \<Rightarrow> Some (Inl e) | Inr (x, w') \<Rightarrow> g x w'))"

definition wseq :: "unit wm \<Rightarrow> 'b wm \<Rightarrow> 'b wm" where
  "wseq f g = wbind f (\<lambda>_. g)"

text \<open>A memory read, and a loop that may not end.\<close>

definition wmem :: "SnapError + 'a \<Rightarrow> 'a wm" where
  "wmem x = (case x of Inl e \<Rightarrow> wfail (MemErr e) | Inr a \<Rightarrow> wret a)"

definition wloop :: "(WErr + 'a) option \<Rightarrow> 'a wm" where
  "wloop x w = (case x of None \<Rightarrow> None | Some (Inl e) \<Rightarrow> Some (Inl e) | Some (Inr a) \<Rightarrow> Some (Inr (a, w)))"

fun wfor :: "'a list \<Rightarrow> ('a \<Rightarrow> unit wm) \<Rightarrow> unit wm" where
  "wfor [] f = wret ()"
| "wfor (x # xs) f = wseq (f x) (wfor xs f)"

definition wget :: "(Walker \<Rightarrow> 'a) \<Rightarrow> 'a wm" where
  "wget f w = Some (Inr (f w, w))"

definition wput :: "(Walker \<Rightarrow> Walker) \<Rightarrow> unit wm" where
  "wput f w = Some (Inr ((), f w))"

section \<open>The arena\<close>

definition wpush :: "SourceObject \<Rightarrow> u32 wm" where
  "wpush obj w = (case source_push (w_source w) obj of
     None \<Rightarrow> Some (Inl TooManyObjects)
   | Some (i, s) \<Rightarrow> Some (Inr (i, w\<lparr>w_source := s\<rparr>)))"

fun upd_object :: "(ObjectData \<Rightarrow> ObjectData) \<Rightarrow> SourceObject \<Rightarrow> SourceObject option" where
  "upd_object f (SObject d) = Some (SObject (f d))"
| "upd_object f _ = None"

fun upd_script :: "(Script \<Rightarrow> Script) \<Rightarrow> SourceObject \<Rightarrow> SourceObject option" where
  "upd_script f (SScript d) = Some (SScript (f d))"
| "upd_script f _ = None"

fun upd_scope :: "(ScopeData \<Rightarrow> ScopeData) \<Rightarrow> SourceObject \<Rightarrow> SourceObject option" where
  "upd_scope f (SScope d) = Some (SScope (f d))"
| "upd_scope f _ = None"

text \<open>\<open>source.object_mut(id).as_..._mut()\<close> and an assignment through it.\<close>

definition wmodify :: "(SourceObject \<Rightarrow> SourceObject option) \<Rightarrow> u32 \<Rightarrow> unit wm" where
  "wmodify upd i w = (case source_object (w_source w) i of
     None \<Rightarrow> Some (Inl WPanic)
   | Some obj \<Rightarrow> (case upd obj of
       None \<Rightarrow> Some (Inl WPanic)
     | Some obj' \<Rightarrow> Some (Inr ((), w\<lparr>w_source := (w_source w)\<lparr>objects := (objects (w_source w))[unat i := obj']\<rparr>\<rparr>))))"

section \<open>Cells\<close>

type_synonym lay = "string \<Rightarrow> u32"

definition kind_of :: "lay \<Rightarrow> string \<Rightarrow> u8" where
  "kind_of lay f = ucast (lay f)"

definition clasp_of :: "mem \<Rightarrow> lay \<Rightarrow> u32 \<Rightarrow> u32 wm" where
  "clasp_of m lay obj = wbind (wmem (read_u32 m (obj + lay ''shapeBase''))) (\<lambda>shape.
     wbind (wmem (read_u32 m shape)) (\<lambda>base. wmem (read_u32 m (base + lay ''baseShapeClasp''))))"

definition fun_flags_and_argc :: "mem \<Rightarrow> lay \<Rightarrow> u32 \<Rightarrow> u32 wm" where
  "fun_flags_and_argc m lay f = wmem (read_u32 m (f + lay ''functionFlagsAndArgCount''))"

definition heap_entry :: "Registration \<Rightarrow> u32 \<Rightarrow> u32 \<Rightarrow> HeapObject option" where
  "heap_entry reg a clasp = (case reg_heap reg a of
     None \<Rightarrow> None | Some e \<Rightarrow> if ho_clasp e = clasp then Some e else None)"

definition isd_of :: "mem \<Rightarrow> lay \<Rightarrow> u32 \<Rightarrow> u32 wm" where
  "isd_of m lay script = wbind (wmem (read_u32 m (script + lay ''baseScriptSharedData''))) (\<lambda>shared.
     if shared = 0 then wfail LazyScript else wmem (read_u32 m (shared + lay ''sisdISD'')))"

definition read_script :: "mem \<Rightarrow> lay \<Rightarrow> u32 \<Rightarrow> u32 wm" where
  "read_script m lay a =
     wbind (isd_of m lay a) (\<lambda>isd.
     wbind (wmem (read_u32 m (isd + lay ''isdCodeLength''))) (\<lambda>code_len.
     wbind (wmem (m (isd + lay ''isdCode'') code_len)) (\<lambda>code.
     wbind (wmem (read_u32 m (a + lay ''baseScriptFunction''))) (\<lambda>f.
     wbind (if f \<noteq> 0 then wbind (fun_flags_and_argc m lay f) (\<lambda>fa. wret (ucast (drop_bit 16 fa))) else wret 0) (\<lambda>n.
     wbind (if f \<noteq> 0 then wbind (fun_flags_and_argc m lay f) (\<lambda>fa. wret (fa AND 7 = 3)) else wret False) (\<lambda>ctor.
     wbind (wmem (read_u32 m (a + lay ''baseScriptImmutableFlags''))) (\<lambda>iflags.
     wpush (SScript \<lparr>bytecode = code, addr = a, gcthings = [], resume_offsets = [], try_notes = [], scope_notes = [], body_scope = None,
       nargs = n, is_generator_or_async = (iflags AND (lay ''isfIsGenerator'' OR lay ''isfIsAsync'') \<noteq> 0), is_class_ctor = ctor,
       strict = (iflags AND lay ''isfStrict'' \<noteq> 0),
       has_mapped_args = (iflags AND lay ''isfNeedsArgsObj'' \<noteq> 0 \<and> iflags AND lay ''isfHasMappedArgsObj'' \<noteq> 0)\<rparr>))))))))"

definition read_string :: "mem \<Rightarrow> lay \<Rightarrow> u32 \<Rightarrow> u32 wm" where
  "read_string m lay a =
     wbind (wmem (read_u32 m (a + lay ''stringFlags''))) (\<lambda>flags.
     if flags AND lay ''stringLinearBit'' = 0 then wfail StringNotLinear
     else wbind (wmem (read_u32 m (a + lay ''stringLength''))) (\<lambda>len.
     wbind (if flags AND lay ''stringInlineCharsBit'' \<noteq> 0 then wret (a + lay ''stringInlineStorage'')
            else wmem (read_u32 m (a + lay ''stringNonInlineChars''))) (\<lambda>chars_addr.
     wbind (if flags AND lay ''stringLatin1CharsBit'' \<noteq> 0 then wbind (wmem (m chars_addr len)) (\<lambda>bs. wret (map ucast bs))
            else wbind (wmem (m chars_addr (len * 2))) (\<lambda>bs. wret (u16_chunks bs))) (\<lambda>chars.
     wpush (SString chars)))))"

definition read_scope_shallow :: "mem \<Rightarrow> lay \<Rightarrow> u32 \<Rightarrow> u32 wm" where
  "read_scope_shallow m lay a =
     wbind (wmem (read_u8 m (a + lay ''scopeKind''))) (\<lambda>kind.
     wbind (wmem (read_u32 m (a + lay ''scopeEnvironmentShape''))) (\<lambda>env_shape.
     wbind (if env_shape \<noteq> 0 then wbind (wmem (read_u32 m (env_shape + 4))) (\<lambda>flags. wret (Some (drop_bit 6 flags AND 0x1f))) else wret None) (\<lambda>nfixed.
     wpush (SScope \<lparr>sd_kind = kind,
       sd_has_environment = ((\<exists>f\<in>{''scopeKindWith'', ''scopeKindGlobal'', ''scopeKindNonSyntactic''}. kind_of lay f = kind) \<or> env_shape \<noteq> 0),
       sd_enclosing = None, sd_bindings = [], sd_env_slot_values = [], sd_is_named_lambda = False, sd_env_nfixed = nfixed\<rparr>))))"

definition fresh_object :: SourceObject where
  "fresh_object = SObject \<lparr>od_non_native = False, od_kind = KOther, od_slots_exact = False, od_script = None, od_name = None,
     od_proto = None, od_builtin_id = None, od_properties = [], od_elements = []\<rparr>"

text \<open>The work of \<open>add\<close> for a cell not seen before.\<close>

definition add_new :: "mem \<Rightarrow> lay \<Rightarrow> u32 \<Rightarrow> u8 \<Rightarrow> u32 wm" where
  "add_new m lay a kind =
     (if kind_of lay ''traceKindObject'' = kind then
        wbind (wpush fresh_object) (\<lambda>i. wbind (wput (\<lambda>w. w\<lparr>w_worklist := (a, kind, i) # w_worklist w\<rparr>)) (\<lambda>_. wret i))
      else if kind_of lay ''traceKindScript'' = kind then
        wbind (read_script m lay a) (\<lambda>i. wbind (wput (\<lambda>w. w\<lparr>w_worklist := (a, kind, i) # w_worklist w,
          w_script_addr := (w_script_addr w)(i \<mapsto> a)\<rparr>)) (\<lambda>_. wret i))
      else if kind_of lay ''traceKindString'' = kind then read_string m lay a
      else wbind (read_scope_shallow m lay a) (\<lambda>i. wbind (wput (\<lambda>w. w\<lparr>w_worklist := (a, kind, i) # w_worklist w\<rparr>)) (\<lambda>_. wret i)))"

definition traced :: "lay \<Rightarrow> u8 \<Rightarrow> bool" where
  "traced lay kind = (\<exists>f\<in>{''traceKindObject'', ''traceKindScript'', ''traceKindString'', ''traceKindScope''}. kind_of lay f = kind)"

definition add :: "mem \<Rightarrow> lay \<Rightarrow> u32 \<Rightarrow> u8 \<Rightarrow> u32 wm" where
  "add m lay a kind =
     (if \<not> traced lay kind then wret source_other
      else wbind (wget (\<lambda>w. w_dedup w a)) (\<lambda>seen. case seen of
        Some i \<Rightarrow> wret i
      | None \<Rightarrow> wbind (add_new m lay a kind) (\<lambda>i. wbind (wput (\<lambda>w. w\<lparr>w_dedup := (w_dedup w)(a \<mapsto> i)\<rparr>)) (\<lambda>_. wret i))))"

section \<open>Values and heap entries\<close>

definition read_value :: "mem \<Rightarrow> lay \<Rightarrow> Registration \<Rightarrow> u64 \<Rightarrow> u32 wm" where
  "read_value m lay reg bits =
     (let tag = ucast (drop_bit (unat (lay ''valueTagShift'') mod 64) bits) :: u32; payload = ucast bits :: u32
      in if tag = lay ''valueTagObject'' then
           (if reg_heap reg payload = None then wret source_other else add m lay payload (kind_of lay ''traceKindObject''))
         else if tag = lay ''valueTagString'' then
           wbind (wmem (read_u32 m (payload + lay ''stringFlags''))) (\<lambda>flags.
             if flags AND lay ''stringLinearBit'' = 0 then wret source_other else add m lay payload (kind_of lay ''traceKindString''))
         else if tag = lay ''valueTagInt32'' then wpush (SPrimitive (PInt32 payload))
         else if tag = lay ''valueTagUndefined'' then wpush (SPrimitive PUndefined)
         else if tag = lay ''valueTagNull'' then wpush (SPrimitive PNull)
         else if tag = lay ''valueTagBoolean'' then wpush (SPrimitive (PBoolean (payload \<noteq> 0)))
         else if tag = lay ''valueTagSymbol'' then
           wbind (wget (\<lambda>w. w_dedup w payload)) (\<lambda>seen. case seen of
             Some i \<Rightarrow> wret i
           | None \<Rightarrow> wbind (wpush SSymbol) (\<lambda>i. wbind (wput (\<lambda>w. w\<lparr>w_dedup := (w_dedup w)(payload \<mapsto> i)\<rparr>)) (\<lambda>_. wret i)))
         else if tag < lay ''valueTagClear'' then wpush (SPrimitive (PDouble bits))
         else wret source_other)"

definition visit_heap_entry :: "mem \<Rightarrow> lay \<Rightarrow> Registration \<Rightarrow> u32 \<Rightarrow> u32 \<Rightarrow> u32 \<Rightarrow> bool wm" where
  "visit_heap_entry m lay reg a i clasp = (case heap_entry reg a clasp of
     None \<Rightarrow> wret False
   | Some entry \<Rightarrow>
       wseq (wmodify (upd_object (\<lambda>d. d\<lparr>od_slots_exact := (ho_kind entry AND 0x100 \<noteq> 0)\<rparr>)) i)
       (wseq (wput (\<lambda>w. w\<lparr>w_object_addr := (w_object_addr w)(i \<mapsto> a)\<rparr>))
       (wseq (if ho_proto entry \<noteq> 0 \<and> reg_heap reg (ho_proto entry) \<noteq> None then
                wbind (add m lay (ho_proto entry) (kind_of lay ''traceKindObject'')) (\<lambda>pid.
                  if pid \<noteq> source_other then wmodify (upd_object (\<lambda>d. d\<lparr>od_proto := Some pid\<rparr>)) i else wret ())
              else wret ())
       (wseq (wfor (ho_props entry) (\<lambda>(atom, bits).
                wbind (add m lay atom (kind_of lay ''traceKindString'')) (\<lambda>nid. wbind (read_value m lay reg bits) (\<lambda>vid.
                  wmodify (upd_object (\<lambda>d. d\<lparr>od_properties := od_properties d @ [(nid, vid)]\<rparr>)) i))))
       (wseq (wfor (ho_elems entry) (\<lambda>(index, bits).
                wbind (read_value m lay reg bits) (\<lambda>vid.
                  wmodify (upd_object (\<lambda>d. d\<lparr>od_elements := od_elements d @ [(index, vid)]\<rparr>)) i)))
       (wret True))))))"

section \<open>Visits\<close>

definition is_function_class :: "lay \<Rightarrow> u32 \<Rightarrow> bool" where
  "is_function_class lay clasp = (clasp = lay ''claspFunction'' \<or> clasp = lay ''claspFunctionExtended'')"

definition object_kind :: "lay \<Rightarrow> Registration \<Rightarrow> u32 \<Rightarrow> u32 \<Rightarrow> ObjectKind" where
  "object_kind lay reg a clasp =
     (if is_function_class lay clasp then KFunction
      else if clasp = lay ''claspPlain'' then KPlain
      else if clasp = lay ''claspArray'' then KArray
      else case heap_entry reg a clasp of
        Some e \<Rightarrow> if ho_kind e AND 0xf = 4 then KTypedArray (ucast (drop_bit 4 (ho_kind e) AND 0xf)) else KPlain
      | None \<Rightarrow> KOther)"

definition visit_function :: "mem \<Rightarrow> lay \<Rightarrow> Registration \<Rightarrow> u32 \<Rightarrow> u32 \<Rightarrow> unit wm" where
  "visit_function m lay reg a i =
     wbind (fun_flags_and_argc m lay a) (\<lambda>fa.
     let flags = fa AND 0xffff
     in if flags AND lay ''functionFlagsSelfHostLazy'' \<noteq> 0 then wfail SelfHostedLazy
        else wbind (wmem (read_u32 m (a + lay ''functionJitInfoOrScript''))) (\<lambda>script.
        wseq (if flags AND lay ''functionFlagsBaseScript'' \<noteq> 0 \<and> script_gcthing_kinds (reg_digest reg) script \<noteq> None then
                wbind (add m lay script (kind_of lay ''traceKindScript'')) (\<lambda>sid. wmodify (upd_object (\<lambda>d. d\<lparr>od_script := Some sid\<rparr>)) i)
              else wret ())
        (if flags AND (lay ''functionFlagsInferredName'' OR lay ''functionFlagsGuessedAtom'') = 0 then
           wbind (wmem (read_u64 m (a + lay ''functionAtom''))) (\<lambda>slot.
             if (ucast (drop_bit (unat (lay ''valueTagShift'') mod 64) slot) :: u32) = lay ''valueTagString'' then
               wbind (add m lay (ucast slot) (kind_of lay ''traceKindString'')) (\<lambda>nid. wmodify (upd_object (\<lambda>d. d\<lparr>od_name := Some nid\<rparr>)) i)
             else wret ())
         else wret ())))"

definition visit_object :: "mem \<Rightarrow> lay \<Rightarrow> Registration \<Rightarrow> u32 \<Rightarrow> u32 \<Rightarrow> unit wm" where
  "visit_object m lay reg a i =
     wbind (clasp_of m lay a) (\<lambda>clasp.
     wseq (wmodify (upd_object (\<lambda>d. d\<lparr>od_kind := object_kind lay reg a clasp\<rparr>)) i)
     (wseq (if is_function_class lay clasp then visit_function m lay reg a i else wret ())
     (wbind (visit_heap_entry m lay reg a i clasp) (\<lambda>transcribed.
      if \<not> is_function_class lay clasp \<and> \<not> transcribed then wmodify (upd_object (\<lambda>d. d\<lparr>od_non_native := True\<rparr>)) i else wret ()))))"

text \<open>\<open>while off < end { read one entry; off += step }\<close>, with the wrapping sum of a release build.\<close>

partial_function (option) stride_loop :: "(u32 \<Rightarrow> WErr + 'a) \<Rightarrow> u32 \<Rightarrow> u32 \<Rightarrow> u32 \<Rightarrow> 'a list \<Rightarrow> (WErr + 'a list) option" where
  "stride_loop rd step off end acc =
     (if off < end then (case rd off of
        Inl e \<Rightarrow> Some (Inl e)
      | Inr x \<Rightarrow> stride_loop rd step (off + step) end (acc @ [x]))
      else Some (Inr acc))"

definition mem_err :: "SnapError + 'a \<Rightarrow> WErr + 'a" where
  "mem_err x = (case x of Inl e \<Rightarrow> Inl (MemErr e) | Inr a \<Rightarrow> Inr a)"

definition try_note_kind :: "u32 \<Rightarrow> WErr + TryNoteKind" where
  "try_note_kind raw =
     (if raw = 0 then Inr Catch else if raw = 1 then Inr Finally else if raw = 2 then Inr ForIn else if raw = 3 then Inr Destructuring
      else if raw = 4 then Inr ForOf else if raw = 5 then Inr ForOfIterClose else if raw = 6 then Inr Loop else Inl BadTryNoteKind)"

definition read_resume :: "mem \<Rightarrow> u32 \<Rightarrow> u32 \<Rightarrow> WErr + Pc" where
  "read_resume m isd off = mem_err (read_u32 m (isd + off))"

definition read_try_note :: "mem \<Rightarrow> u32 \<Rightarrow> u32 \<Rightarrow> WErr + TryNote" where
  "read_try_note m isd off =
     ebind (mem_err (read_u32 m (isd + off))) (\<lambda>raw. ebind (try_note_kind raw) (\<lambda>kind.
     ebind (mem_err (read_u32 m (isd + off + 4))) (\<lambda>depth. ebind (mem_err (read_u32 m (isd + off + 8))) (\<lambda>start.
     ebind (mem_err (read_u32 m (isd + off + 12))) (\<lambda>len.
     Inr \<lparr>tn_kind = kind, tn_stack_depth = depth, tn_start = start, tn_length = len\<rparr>)))))"

definition read_scope_note :: "mem \<Rightarrow> u32 \<Rightarrow> u32 \<Rightarrow> WErr + ScopeNote" where
  "read_scope_note m isd off =
     ebind (mem_err (read_u32 m (isd + off))) (\<lambda>idx. ebind (mem_err (read_u32 m (isd + off + 4))) (\<lambda>start.
     ebind (mem_err (read_u32 m (isd + off + 8))) (\<lambda>len. Inr \<lparr>sn_gcthing_index = idx, sn_start = start, sn_length = len\<rparr>)))"

definition isd_optional_spans :: "mem \<Rightarrow> lay \<Rightarrow> u32 \<Rightarrow> (u32 \<times> u32 \<times> u32 \<times> u32) wm" where
  "isd_optional_spans m lay isd =
     wbind (wmem (read_u8 m (isd + lay ''isdCode'' - 1))) (\<lambda>flags.
     wbind (wmem (read_u32 m (isd + lay ''isdOptArrayOffset''))) (\<lambda>opt_base.
     let span = (\<lambda>index :: u32. if index = 0 then wret opt_base else wmem (read_u32 m (isd + opt_base - 4 * index)))
     in wbind (span (ucast (flags AND 3))) (\<lambda>resume_end.
        wbind (span (ucast (drop_bit 2 flags AND 3))) (\<lambda>scope_end.
        wbind (span (ucast (drop_bit 4 flags AND 3))) (\<lambda>try_end. wret (opt_base, resume_end, scope_end, try_end))))))"

fun thing_words :: "mem \<Rightarrow> lay \<Rightarrow> u32 \<Rightarrow> nat \<Rightarrow> u32 list wm" where
  "thing_words m lay base 0 = wret []"
| "thing_words m lay base (Suc n) = wbind (wmem (read_u32 m base)) (\<lambda>word. wbind (thing_words m lay (base + 4) n) (\<lambda>ws.
     wret ((word AND NOT (lay ''gcCellPtrKindMask'')) # ws)))"

definition visit_script :: "mem \<Rightarrow> lay \<Rightarrow> Registration \<Rightarrow> u32 \<Rightarrow> u32 \<Rightarrow> unit wm" where
  "visit_script m lay reg a i =
     wbind (isd_of m lay a) (\<lambda>isd.
     wbind (isd_optional_spans m lay isd) (\<lambda>(resume_start, resume_end, scope_notes_end, try_notes_end).
     wbind (wloop (stride_loop (read_resume m isd) 4 resume_start resume_end [])) (\<lambda>resume.
     wseq (wmodify (upd_script (\<lambda>s. s\<lparr>resume_offsets := resume\<rparr>)) i)
     (wbind (wmem (read_u32 m (a + lay ''baseScriptPrivateData''))) (\<lambda>psd.
     case script_gcthing_kinds (reg_digest reg) a of
       None \<Rightarrow> wfail NotInDigest
     | Some kinds \<Rightarrow>
     wbind (if psd \<noteq> 0 then wmem (read_u32 m (psd + lay ''privateScriptDataNGCThings'')) else wret 0) (\<lambda>ngcthings.
     if unat ngcthings \<noteq> length kinds then wfail KindsMismatch
     else wbind (thing_words m lay (psd + lay ''privateScriptDataGCThings'') (length kinds)) (\<lambda>thing_addrs.
     wseq (wfor (zip thing_addrs kinds) (\<lambda>(ta, kind).
       wbind (if kind = 0xff then wret source_other else add m lay ta kind) (\<lambda>tid.
         wmodify (upd_script (\<lambda>s. s\<lparr>gcthings := gcthings s @ [tid]\<rparr>)) i)))
     (wbind (wloop (stride_loop (read_try_note m isd) 16 scope_notes_end try_notes_end [])) (\<lambda>tns.
     wseq (wmodify (upd_script (\<lambda>s. s\<lparr>try_notes := try_notes s @ tns\<rparr>)) i)
     (wbind (wloop (stride_loop (read_scope_note m isd) 16 resume_end scope_notes_end [])) (\<lambda>sns.
     wseq (wmodify (upd_script (\<lambda>s. s\<lparr>scope_notes := scope_notes s @ sns\<rparr>)) i)
     (wbind (wmem (read_u32 m (isd + lay ''isdBodyScopeIndex''))) (\<lambda>body_index.
     if unat body_index < length thing_addrs then
       wbind (add m lay (thing_addrs ! unat body_index) (kind_of lay ''traceKindScope'')) (\<lambda>bid.
         wmodify (upd_script (\<lambda>s. s\<lparr>body_scope := Some bid\<rparr>)) i)
     else wfail BodyScopeRange)))))))))))))"

definition visit_scope :: "mem \<Rightarrow> lay \<Rightarrow> Registration \<Rightarrow> u32 \<Rightarrow> u32 \<Rightarrow> unit wm" where
  "visit_scope m lay reg a i =
     wbind (wmem (read_u32 m (a + lay ''scopeEnclosing''))) (\<lambda>enclosing.
     wseq (if enclosing \<noteq> 0 then wbind (add m lay enclosing (kind_of lay ''traceKindScope'')) (\<lambda>eid.
             wmodify (upd_scope (\<lambda>s. s\<lparr>sd_enclosing := Some eid\<rparr>)) i) else wret ())
     (case scope_bindings (reg_digest reg) a of
       None \<Rightarrow> wfail NotInDigest
     | Some bindings \<Rightarrow>
     wseq (wfor bindings (\<lambda>b. if db_name_atom b = 0 then wret ()
             else wbind (add m lay (db_name_atom b) (kind_of lay ''traceKindString'')) (\<lambda>nid.
               wmodify (upd_scope (\<lambda>s. s\<lparr>sd_bindings := sd_bindings s @ [(nid, db_is_var b, db_env_slot b)]\<rparr>)) i)))
     (wseq (case reg_env_slots reg a of
              None \<Rightarrow> wret ()
            | Some slots \<Rightarrow> wfor slots (\<lambda>(slot, bits). wbind (read_value m lay reg bits) (\<lambda>vid.
                if vid = source_other then wret ()
                else wmodify (upd_scope (\<lambda>s. s\<lparr>sd_env_slot_values := sd_env_slot_values s @ [(slot, vid)]\<rparr>)) i)))
     (wbind (wmem (read_u8 m (a + lay ''scopeKind''))) (\<lambda>kind.
      if kind_of lay ''scopeKindNamedLambda'' = kind \<or> kind_of lay ''scopeKindStrictNamedLambda'' = kind
      then wmodify (upd_scope (\<lambda>s. s\<lparr>sd_is_named_lambda := True\<rparr>)) i else wret ())))))"

definition visit_cell :: "mem \<Rightarrow> lay \<Rightarrow> Registration \<Rightarrow> u32 \<times> u8 \<times> u32 \<Rightarrow> unit wm" where
  "visit_cell m lay reg = (\<lambda>(a, kind, i).
     if kind_of lay ''traceKindObject'' = kind then visit_object m lay reg a i
     else if kind_of lay ''traceKindScript'' = kind then visit_script m lay reg a i
     else if kind_of lay ''traceKindScope'' = kind then visit_scope m lay reg a i
     else wret ())"

partial_function (option) drain_with :: "(u32 \<times> u8 \<times> u32 \<Rightarrow> unit wm) \<Rightarrow> Walker \<Rightarrow> (WErr + (unit \<times> Walker)) option" where
  "drain_with vis w = (case w_worklist w of
     [] \<Rightarrow> Some (Inr ((), w))
   | cell # rest \<Rightarrow> (case vis cell (w\<lparr>w_worklist := rest\<rparr>) of
       None \<Rightarrow> None
     | Some r \<Rightarrow> (case r of Inl e \<Rightarrow> Some (Inl e) | Inr (_, w') \<Rightarrow> drain_with vis w')))"

definition drain :: "mem \<Rightarrow> lay \<Rightarrow> Registration \<Rightarrow> unit wm" where
  "drain m lay reg = drain_with (visit_cell m lay reg)"

section \<open>The walk\<close>

record WalkOutput =
  out_source :: Source
  out_root_ids :: "u32 list"
  out_script_addr :: "u32 \<rightharpoonup> u32"
  out_object_addr :: "u32 \<rightharpoonup> u32"

definition walker_start :: Walker where
  "walker_start = \<lparr>w_source = \<lparr>objects = [], global_object = None, selfhosted = [], regex_programs = []\<rparr>, w_dedup = Map.empty,
     w_worklist = [], w_script_addr = Map.empty, w_object_addr = Map.empty\<rparr>"

fun walk_roots :: "mem \<Rightarrow> lay \<Rightarrow> Registration \<Rightarrow> u32 list \<Rightarrow> u32 list wm" where
  "walk_roots m lay reg [] = wret []"
| "walk_roots m lay reg (r # rs) =
     wbind (add m lay r (kind_of lay ''traceKindScript'')) (\<lambda>i. wseq (drain m lay reg)
       (wbind (walk_roots m lay reg rs) (\<lambda>is. wret (i # is))))"

definition walk_global :: "mem \<Rightarrow> lay \<Rightarrow> Registration \<Rightarrow> unit wm" where
  "walk_global m lay reg =
     (if reg_global_object reg \<noteq> 0 then
        wbind (add m lay (reg_global_object reg) (kind_of lay ''traceKindObject'')) (\<lambda>i. wseq (drain m lay reg)
          (if i \<noteq> source_other then wput (\<lambda>w. w\<lparr>w_source := (w_source w)\<lparr>global_object := Some i\<rparr>\<rparr>) else wret ()))
      else wret ())"

definition walk :: "Generated \<Rightarrow> mem \<Rightarrow> Registration \<Rightarrow> (WErr + WalkOutput) option" where
  "walk g m reg =
     (let lay = layout_get g (reg_layout reg)
      in case wbind (walk_roots m lay reg (reg_roots reg)) (\<lambda>ids. wbind (walk_global m lay reg) (\<lambda>_. wret ids)) walker_start of
        None \<Rightarrow> None
      | Some (Inl e) \<Rightarrow> Some (Inl e)
      | Some (Inr (ids, w)) \<Rightarrow> Some (Inr \<lparr>out_source = w_source w, out_root_ids = ids, out_script_addr = w_script_addr w,
          out_object_addr = w_object_addr w\<rparr>))"

end
