(* ===== verification/Snapshot_Tables.thy ===== *)
theory Snapshot_Tables
  imports Snapshot
begin

unbundle bit_operations_syntax

text \<open>
  The tables of the registration block read back what the engine serialized: a reader and an encoding form a table
  format when the reader finds an encoded value wherever it stands word-aligned in a table, and formats compose into
  lists and records. Memory reads are exact within the memory and fail outside of it.
\<close>

section \<open>Encodings in place\<close>

definition at_pos :: "'a list \<Rightarrow> nat \<Rightarrow> 'a list \<Rightarrow> bool" where
  "at_pos b pos e = (\<exists>pre rest. b = pre @ e @ rest \<and> length pre = pos)"

lemma at_pos_append: "at_pos b pos (e @ e') \<Longrightarrow> at_pos b pos e \<and> at_pos b (pos + length e) e'"
  unfolding at_pos_def by (metis append.assoc length_append)

lemma at_pos_slice:
  assumes "at_pos b pos e"
  shows "pos + length e \<le> length b" "slice pos (pos + length e) b = e"
  using assms unfolding at_pos_def by (auto simp: slice_def)

lemma at_pos_whole: "at_pos e 0 e"
  unfolding at_pos_def by simp

lemma at_pos_iff: "at_pos b pos e \<longleftrightarrow> pos + length e \<le> length b \<and> slice pos (pos + length e) b = e"
proof
  assume r: "pos + length e \<le> length b \<and> slice pos (pos + length e) b = e"
  then have "b = take pos b @ e @ drop (pos + length e) b" by (simp add: slice_def) (metis append_take_drop_id drop_drop add.commute)
  moreover have "length (take pos b) = pos" using r by simp
  ultimately show "at_pos b pos e" unfolding at_pos_def by blast
qed (use at_pos_slice in blast)

locale table_format =
  fixes usz :: nat and r :: "'a reader" and enc :: "'a \<Rightarrow> byte list" and ok :: "'a \<Rightarrow> bool"
  assumes aligned: "ok x \<Longrightarrow> 4 dvd length (enc x)"
    and reads: "ok x \<Longrightarrow> length b < usz \<Longrightarrow> 4 dvd pos \<Longrightarrow> at_pos b pos (enc x) \<Longrightarrow> r b pos = Inr (x, pos + length (enc x))"
begin

lemma list_aligned: "\<forall>x\<in>set xs. ok x \<Longrightarrow> 4 dvd length (concat (map enc xs))"
  by (induction xs) (auto simp: aligned)

lemma list_reads:
  "\<forall>x\<in>set xs. ok x \<Longrightarrow> length b < usz \<Longrightarrow> 4 dvd pos \<Longrightarrow> at_pos b pos (concat (map enc xs)) \<Longrightarrow>
    rtimes (length xs) r b pos = Inr (xs, pos + length (concat (map enc xs)))"
proof (induction xs arbitrary: pos)
  case (Cons x xs)
  from Cons.prems(4) have "at_pos b pos (enc x @ concat (map enc xs))" by simp
  from at_pos_append [OF this] have a: "at_pos b pos (enc x)" "at_pos b (pos + length (enc x)) (concat (map enc xs))" by simp_all
  have "4 dvd pos + length (enc x)" using Cons.prems(1,3) aligned by simp
  with Cons a have "rtimes (length xs) r b (pos + length (enc x)) = Inr (xs, pos + length (enc x) + length (concat (map enc xs)))"
    by simp
  with reads [OF _ Cons.prems(2,3) a(1)] Cons.prems(1) show ?case by (simp add: rbind_def rret_def)
qed (simp add: rret_def)

end

section \<open>Words and padded bytes\<close>

abbreviation enc32 :: "u32 \<Rightarrow> byte list" where
  "enc32 \<equiv> to_le 4"

definition padded :: "byte list \<Rightarrow> byte list" where
  "padded bs = bs @ replicate (align4 (length bs) - length bs) 0"

lemma align4_ge: "n \<le> align4 n"
  unfolding align4_def by linarith

lemma align4_add: "4 dvd p \<Longrightarrow> align4 (p + n) = p + align4 n"
  unfolding align4_def by (auto simp: dvd_def add.assoc)

lemma padded_length: "length (padded bs) = align4 (length bs)"
  using align4_ge [of "length bs"] by (simp add: padded_def)

lemma padded_aligned [simp]: "4 dvd align4 n"
  by (simp add: align4_def)

lemma word_reads:
  assumes "length b < usz" "at_pos b pos (enc32 w)"
  shows "table_u32 usz b pos = Inr (w, pos + 4)" "digest_u32 usz b pos = Inr (w, pos + 4)"
  using assms(1) at_pos_slice [OF assms(2)] by (simp_all add: table_u32_def digest_u32_def from_to_le Let_def)

interpretation word_format: table_format usz "table_u32 usz" enc32 "\<lambda>_. True"
  by unfold_locales (simp_all add: word_reads)

interpretation digest_word_format: table_format usz "digest_u32 usz" enc32 "\<lambda>_. True"
  by unfold_locales (simp_all add: word_reads)

lemma bytes_read:
  assumes "length b < usz" "at_pos b pos (padded bs)" "4 dvd pos"
  shows "table_bytes usz (length bs) b pos = Inr (bs, pos + align4 (length bs))" "digest_bytes usz (length bs) b pos = Inr (bs, pos + align4 (length bs))"
proof -
  have "at_pos b pos bs" using assms(2) at_pos_append unfolding padded_def by blast
  from at_pos_slice [OF this] at_pos_slice(1) [OF assms(2)] align4_add [OF assms(3), of "length bs"] assms(1)
  show "table_bytes usz (length bs) b pos = Inr (bs, pos + align4 (length bs))" "digest_bytes usz (length bs) b pos = Inr (bs, pos + align4 (length bs))"
    by (simp_all add: table_bytes_def digest_bytes_def padded_length Let_def)
qed

definition enc_len :: "'a list \<Rightarrow> byte list" where
  "enc_len xs = enc32 (of_nat (length xs))"

lemma enc_len_length [simp]: "length (enc_len xs) = 4"
  by (simp add: enc_len_def)

lemma unat_len [simp]: "length xs < 2 ^ 32 \<Longrightarrow> unat (of_nat (length xs) :: u32) = length xs"
  by (simp add: unsigned_of_nat take_bit_nat_eq_self)

text \<open>A counted list of a format is a format.\<close>

definition enc_list :: "('a \<Rightarrow> byte list) \<Rightarrow> 'a list \<Rightarrow> byte list" where
  "enc_list enc xs = enc_len xs @ concat (map enc xs)"

definition list_ok :: "('a \<Rightarrow> bool) \<Rightarrow> 'a list \<Rightarrow> bool" where
  "list_ok ok xs = (length xs < 2 ^ 32 \<and> (\<forall>x\<in>set xs. ok x))"

context table_format
begin

lemma counted_aligned: "list_ok ok xs \<Longrightarrow> 4 dvd length (enc_list enc xs)"
  using list_aligned by (simp add: list_ok_def enc_list_def)

lemma counted_reads:
  assumes "list_ok ok xs" "length b < usz" "4 dvd pos" "at_pos b pos (enc_list enc xs)" "u \<in> {table_u32 usz, digest_u32 usz}"
  shows "rbind u (\<lambda>n. rtimes (unat n) r) b pos = Inr (xs, pos + length (enc_list enc xs))"
proof -
  from at_pos_append [OF assms(4) [unfolded enc_list_def]]
  have a: "at_pos b pos (enc32 (of_nat (length xs)))" "at_pos b (pos + 4) (concat (map enc xs))" by (simp_all add: enc_len_def)
  have "u b pos = Inr (of_nat (length xs), pos + 4)" using assms(5) word_reads [OF assms(2) a(1)] by auto
  moreover have "rtimes (length xs) r b (pos + 4) = Inr (xs, pos + 4 + length (concat (map enc xs)))"
    using assms(1,2,3) a(2) by (intro list_reads) (simp_all add: list_ok_def)
  ultimately show ?thesis using assms(1) by (simp add: rbind_def list_ok_def enc_list_def)
qed

end

section \<open>The formats\<close>

lemma value_words: "ucast (ucast v :: u32) OR push_bit 32 (ucast (ucast (drop_bit 32 v) :: u32)) = (v :: u64)"
  by (rule bit_word_eqI) (auto simp: bit_simps)

definition enc_slot :: "u32 \<times> u64 \<Rightarrow> byte list" where
  "enc_slot = (\<lambda>(k, v). enc32 k @ enc32 (ucast v) @ enc32 (ucast (drop_bit 32 v)))"

interpretation slot_format: table_format usz "slot_reader usz" enc_slot "\<lambda>_. True"
proof
  fix b pos and x :: "u32 \<times> u64"
  assume l: "length b < usz" and "at_pos b pos (enc_slot x)"
  then have "at_pos b pos (enc32 (fst x))" "at_pos b (pos + 4) (enc32 (ucast (snd x)))" "at_pos b (pos + 8) (enc32 (ucast (drop_bit 32 (snd x))))"
    by (auto simp: enc_slot_def ac_simps split: prod.splits dest!: at_pos_append)
  then show "slot_reader usz b pos = Inr (x, pos + length (enc_slot x))"
    by (cases x) (simp add: slot_reader_def table_value_def rbind_def rret_def word_reads [OF l] value_words enc_slot_def ac_simps)
qed (simp add: enc_slot_def split: prod.split)

abbreviation enc_slots :: "(u32 \<times> u64) list \<Rightarrow> byte list" where
  "enc_slots \<equiv> enc_list enc_slot"

abbreviation slots_ok :: "(u32 \<times> u64) list \<Rightarrow> bool" where
  "slots_ok \<equiv> list_ok (\<lambda>_. True)"

interpretation slots_format: table_format usz "slots_reader usz" enc_slots slots_ok
  by unfold_locales (simp_all add: slot_format.counted_aligned slot_format.counted_reads slots_reader_def)

definition enc_heap_entry :: "u32 \<times> HeapObject \<Rightarrow> byte list" where
  "enc_heap_entry = (\<lambda>(obj, h). enc32 obj @ enc32 (ho_clasp h) @ enc32 (ho_kind h) @ enc32 (ho_proto h) @ enc_slots (ho_props h) @ enc_slots (ho_elems h))"

definition heap_entry_ok :: "u32 \<times> HeapObject \<Rightarrow> bool" where
  "heap_entry_ok = (\<lambda>(_, h). slots_ok (ho_props h) \<and> slots_ok (ho_elems h))"

interpretation heap_format: table_format usz "heap_entry_reader usz" enc_heap_entry heap_entry_ok
proof
  fix b pos and x :: "u32 \<times> HeapObject"
  assume ok: "heap_entry_ok x"
  obtain obj h where x: "x = (obj, h)" by (cases x)
  have o: "slots_ok (ho_props h)" "slots_ok (ho_elems h)" using ok x by (simp_all add: heap_entry_ok_def)
  show "4 dvd length (enc_heap_entry x)" using slots_format.aligned [OF o(1)] slots_format.aligned [OF o(2)] x by (simp add: enc_heap_entry_def)
  let ?p = "enc_slots (ho_props h)"
  assume l: "length b < usz" and d: "4 dvd pos" and a: "at_pos b pos (enc_heap_entry x)"
  have "at_pos b pos (enc32 obj)" "at_pos b (pos + 4) (enc32 (ho_clasp h))" "at_pos b (pos + 8) (enc32 (ho_kind h))" "at_pos b (pos + 12) (enc32 (ho_proto h))"
    and p: "at_pos b (pos + 16) ?p" and e: "at_pos b (pos + 16 + length ?p) (enc_slots (ho_elems h))"
    using a x by (auto simp: enc_heap_entry_def ac_simps dest!: at_pos_append)
  moreover have "slots_reader usz b (pos + 16) = Inr (ho_props h, pos + 16 + length ?p)" using slots_format.reads [OF o(1) l _ p] d by simp
  moreover have "slots_reader usz b (pos + 16 + length ?p) = Inr (ho_elems h, pos + 16 + length ?p + length (enc_slots (ho_elems h)))"
    using slots_format.reads [OF o(2) l _ e] d slots_format.aligned [OF o(1)] by simp
  ultimately show "heap_entry_reader usz b pos = Inr (x, pos + length (enc_heap_entry x))"
    by (simp add: heap_entry_reader_def rbind_def rret_def word_reads [OF l] enc_heap_entry_def x ac_simps)
qed

definition enc_scope_slots :: "u32 \<times> (u32 \<times> u64) list \<Rightarrow> byte list" where
  "enc_scope_slots = (\<lambda>(scope, slots). enc32 scope @ enc_slots slots)"

interpretation scope_slots_format: table_format usz "scope_slots_reader usz" enc_scope_slots "\<lambda>(_, slots). slots_ok slots"
proof
  fix b pos and x :: "u32 \<times> (u32 \<times> u64) list"
  assume ok: "case x of (_, slots) \<Rightarrow> slots_ok slots"
  obtain scope slots where x: "x = (scope, slots)" by (cases x)
  then have o: "slots_ok slots" using ok by simp
  show "4 dvd length (enc_scope_slots x)" using slots_format.aligned [OF o] x by (simp add: enc_scope_slots_def)
  assume l: "length b < usz" and d: "4 dvd pos" and "at_pos b pos (enc_scope_slots x)"
  then have "at_pos b pos (enc32 scope)" "at_pos b (pos + 4) (enc_slots slots)" using x by (auto simp: enc_scope_slots_def dest!: at_pos_append)
  with slots_format.reads [OF o l, of "pos + 4"] d x show "scope_slots_reader usz b pos = Inr (x, pos + length (enc_scope_slots x))"
    by (simp add: scope_slots_reader_def rbind_def rret_def word_reads [OF l] enc_scope_slots_def)
qed

definition enc_selfhosted :: "u32 \<times> byte list \<Rightarrow> byte list" where
  "enc_selfhosted = (\<lambda>(script, name). enc32 script @ enc_len name @ padded name)"

interpretation selfhosted_format: table_format usz "selfhosted_entry usz" enc_selfhosted "\<lambda>(_, name). length name < 2 ^ 32 \<and> valid_utf8 name"
proof
  fix b pos and x :: "u32 \<times> byte list"
  assume ok: "case x of (_, name) \<Rightarrow> length name < 2 ^ 32 \<and> valid_utf8 name"
  obtain script name where x: "x = (script, name)" by (cases x)
  show "4 dvd length (enc_selfhosted x)" by (simp add: enc_selfhosted_def x padded_length)
  assume l: "length b < usz" and d: "4 dvd pos" and "at_pos b pos (enc_selfhosted x)"
  then have "at_pos b pos (enc32 script)" "at_pos b (pos + 4) (enc32 (of_nat (length name)))" "at_pos b (pos + 8) (padded name)"
    using x by (auto simp: enc_selfhosted_def enc_len_def ac_simps dest!: at_pos_append)
  with bytes_read [OF l, of "pos + 8" name] ok d x show "selfhosted_entry usz b pos = Inr (x, pos + length (enc_selfhosted x))"
    by (simp add: selfhosted_entry_def rbind_def word_reads [OF l] enc_selfhosted_def padded_length ac_simps)
qed

definition u16_bytes :: "u16 list \<Rightarrow> byte list" where
  "u16_bytes us = concat (map (to_le 2) us)"

lemma u16_bytes_length [simp]: "length (u16_bytes us) = 2 * length us"
  by (induction us) (simp_all add: u16_bytes_def)

lemma u16_chunks_bytes: "u16_chunks (u16_bytes us) = us"
proof (induction us)
  case (Cons u us)
  have "length (to_le 2 u) = Suc (Suc 0)" by simp
  then obtain a c where ac: "to_le 2 u = [a, c]" by (auto simp only: length_Suc_conv length_0_conv)
  then have "from_le [a, c] = u" using from_to_le [of 2 u] by simp
  with Cons ac show ?case by (simp add: u16_bytes_def)
qed (simp add: u16_bytes_def)

definition enc_regex :: "RegexProgramSrc \<Rightarrow> byte list" where
  "enc_regex p = enc32 (rx_flags p) @ enc32 (rx_registers p) @ enc32 (rx_pairs p) @ enc_len (rx_pattern p) @ padded (u16_bytes (rx_pattern p)) @
     enc_len (rx_latin1 p) @ padded (rx_latin1 p) @ enc_len (rx_twobyte p) @ padded (rx_twobyte p)"

definition regex_ok :: "RegexProgramSrc \<Rightarrow> bool" where
  "regex_ok p = (length (rx_pattern p) < 2 ^ 32 \<and> length (rx_latin1 p) < 2 ^ 32 \<and> length (rx_twobyte p) < 2 ^ 32)"

interpretation regex_format: table_format usz "regex_entry usz" enc_regex regex_ok
proof
  fix b pos p
  assume ok: "regex_ok p"
  show "4 dvd length (enc_regex p)" by (simp add: enc_regex_def padded_length)
  let ?x = "align4 (2 * length (rx_pattern p))" and ?y = "align4 (length (rx_latin1 p))"
  assume l: "length b < usz" and d: "4 dvd pos" and "at_pos b pos (enc_regex p)"
  then have a: "at_pos b pos (enc32 (rx_flags p))" "at_pos b (pos + 4) (enc32 (rx_registers p))" "at_pos b (pos + 8) (enc32 (rx_pairs p))"
    "at_pos b (pos + 12) (enc32 (of_nat (length (rx_pattern p))))" "at_pos b (pos + 16) (padded (u16_bytes (rx_pattern p)))"
    "at_pos b (pos + 16 + ?x) (enc32 (of_nat (length (rx_latin1 p))))" "at_pos b (pos + 20 + ?x) (padded (rx_latin1 p))"
    "at_pos b (pos + 20 + ?x + ?y) (enc32 (of_nat (length (rx_twobyte p))))" "at_pos b (pos + 24 + ?x + ?y) (padded (rx_twobyte p))"
    by (auto simp: enc_regex_def enc_len_def padded_length ac_simps dest!: at_pos_append)
  have al: "4 dvd pos + 16" "4 dvd pos + 20 + ?x" "4 dvd pos + 24 + ?x + ?y" using d by simp_all
  have "length (padded (u16_bytes (rx_pattern p))) \<le> length b" using at_pos_slice(1) [OF a(5)] by simp
  then have m: "length (rx_pattern p) * 2 mod usz = length (rx_pattern p) * 2"
    using l align4_ge [of "length (rx_pattern p) * 2"] by (simp add: padded_length mult.commute)
  have t: "table_bytes usz (length (rx_pattern p) * 2 mod usz) b (pos + 16) = Inr (u16_bytes (rx_pattern p), pos + 16 + ?x)"
    "table_bytes usz (length (rx_latin1 p)) b (pos + 20 + ?x) = Inr (rx_latin1 p, pos + 20 + ?x + ?y)"
    "table_bytes usz (length (rx_twobyte p)) b (pos + 24 + ?x + ?y) = Inr (rx_twobyte p, pos + 24 + ?x + ?y + align4 (length (rx_twobyte p)))"
    using bytes_read(1) [OF l a(5) al(1)] bytes_read(1) [OF l a(7) al(2)] bytes_read(1) [OF l a(9) al(3)] m by (simp_all add: mult.commute)
  show "regex_entry usz b pos = Inr (p, pos + length (enc_regex p))"
    using word_reads(1) [OF l a(1)] word_reads(1) [OF l a(2)] word_reads(1) [OF l a(3)] word_reads(1) [OF l a(4)] word_reads(1) [OF l a(6)] word_reads(1) [OF l a(8)] t ok
    by (simp add: regex_entry_def rbind_def rret_def regex_ok_def u16_chunks_bytes enc_regex_def padded_length ac_simps)
qed

definition enc_script_kinds :: "u32 \<times> byte list \<Rightarrow> byte list" where
  "enc_script_kinds = (\<lambda>(script, kinds). enc32 script @ enc_len kinds @ padded kinds)"

interpretation script_kinds_format: table_format usz "script_kinds_reader usz" enc_script_kinds "\<lambda>(_, kinds). length kinds < 2 ^ 32"
proof
  fix b pos and x :: "u32 \<times> byte list"
  assume ok: "case x of (_, kinds) \<Rightarrow> length kinds < 2 ^ 32"
  obtain script kinds where x: "x = (script, kinds)" by (cases x)
  show "4 dvd length (enc_script_kinds x)" by (simp add: enc_script_kinds_def x padded_length)
  assume l: "length b < usz" and d: "4 dvd pos" and "at_pos b pos (enc_script_kinds x)"
  then have "at_pos b pos (enc32 script)" "at_pos b (pos + 4) (enc32 (of_nat (length kinds)))" "at_pos b (pos + 8) (padded kinds)"
    using x by (auto simp: enc_script_kinds_def enc_len_def ac_simps dest!: at_pos_append)
  with bytes_read [OF l, of "pos + 8" kinds] ok d x show "script_kinds_reader usz b pos = Inr (x, pos + length (enc_script_kinds x))"
    by (simp add: script_kinds_reader_def rbind_def rret_def word_reads [OF l] enc_script_kinds_def padded_length ac_simps)
qed

text \<open>A binding has a slot word whether or not it has a slot; without one the word is arbitrary and zero here.\<close>

definition enc_binding :: "DigestBinding \<Rightarrow> byte list" where
  "enc_binding d = enc32 (db_name_atom d) @ enc32 (if db_is_var d then 1 else 0) @ enc32 (if db_env_slot d = None then 0 else 1) @
     enc32 (case db_env_slot d of None \<Rightarrow> 0 | Some s \<Rightarrow> s)"

interpretation binding_format: table_format usz "binding_reader usz" enc_binding "\<lambda>_. True"
proof
  fix b pos d
  assume l: "length b < usz" and "at_pos b pos (enc_binding d)"
  then have "at_pos b pos (enc32 (db_name_atom d))" "at_pos b (pos + 4) (enc32 (if db_is_var d then 1 else 0))"
    "at_pos b (pos + 8) (enc32 (if db_env_slot d = None then 0 else 1))" "at_pos b (pos + 12) (enc32 (case db_env_slot d of None \<Rightarrow> 0 | Some s \<Rightarrow> s))"
    unfolding enc_binding_def by (auto simp: ac_simps dest!: at_pos_append)
  from this [THEN word_reads(2) [OF l]] show "binding_reader usz b pos = Inr (d, pos + length (enc_binding d))"
    by (cases "db_env_slot d") (simp_all add: binding_reader_def rbind_def rret_def enc_binding_def ac_simps)
qed (simp add: enc_binding_def)

definition enc_scope_bindings :: "u32 \<times> DigestBinding list \<Rightarrow> byte list" where
  "enc_scope_bindings = (\<lambda>(scope, bs). enc32 scope @ enc_list enc_binding bs)"

interpretation scope_bindings_format: table_format usz "scope_bindings_reader usz" enc_scope_bindings "\<lambda>(_, bs). list_ok (\<lambda>_. True) bs"
proof
  fix b pos and x :: "u32 \<times> DigestBinding list"
  assume ok: "case x of (_, bs) \<Rightarrow> list_ok (\<lambda>_. True) bs"
  obtain scope bs where x: "x = (scope, bs)" by (cases x)
  then have o: "list_ok (\<lambda>_. True) bs" using ok by simp
  show "4 dvd length (enc_scope_bindings x)" using binding_format.counted_aligned [OF o] x by (simp add: enc_scope_bindings_def)
  assume l: "length b < usz" and d: "4 dvd pos" and "at_pos b pos (enc_scope_bindings x)"
  then have a: "at_pos b pos (enc32 scope)" "at_pos b (pos + 4) (enc_list enc_binding bs)" using x by (auto simp: enc_scope_bindings_def dest!: at_pos_append)
  have "rbind (digest_u32 usz) (\<lambda>n. rtimes (unat n) (binding_reader usz)) b (pos + 4) = Inr (bs, pos + 4 + length (enc_list enc_binding bs))"
    using o l d a(2) by (intro binding_format.counted_reads) simp_all
  then show "scope_bindings_reader usz b pos = Inr (x, pos + length (enc_scope_bindings x))"
    unfolding scope_bindings_reader_def enc_scope_bindings_def x rbind_def rret_def word_reads(2) [OF l a(1)]
    by (auto simp: ebind_Inr split: prod.splits)
qed

section \<open>Whole tables\<close>

lemma to_map_map_of: "distinct (map fst kvs) \<Longrightarrow> to_map kvs = map_of kvs"
proof -
  have "foldl (\<lambda>m (k, v). m(k \<mapsto> v)) m kvs = m ++ map_of kvs" if "distinct (map fst kvs)" for m
    using that
  proof (induction kvs arbitrary: m)
    case (Cons kv kvs)
    obtain k v where kv: "kv = (k, v)" by (cases kv)
    have "k \<notin> dom (map_of kvs)" using Cons.prems kv by (simp add: dom_map_of_conv_image_fst)
    then have "m(k \<mapsto> v) ++ map_of kvs = m ++ (map_of kvs)(k \<mapsto> v)" by (auto simp: map_add_def fun_eq_iff split: option.splits)
    moreover have "map_of (kv # kvs) = (map_of kvs)(k \<mapsto> v)" by (simp add: kv)
    moreover have "foldl (\<lambda>m (k, v). m(k \<mapsto> v)) (m(k \<mapsto> v)) kvs = m(k \<mapsto> v) ++ map_of kvs" using Cons by (intro Cons.IH) simp
    ultimately show ?case by (simp only: kv foldl_Cons prod.case)
  qed simp
  then show "distinct (map fst kvs) \<Longrightarrow> to_map kvs = map_of kvs" by (simp add: to_map_def)
qed

lemma rbind_twice:
  assumes "rbind u (\<lambda>n. rtimes (unat n) r) b pos = Inr (xs, pos')"
  shows "rbind u (\<lambda>n. rbind (rtimes (unat n) r) k) b pos = k xs b pos'"
  using assms by (auto simp: rbind_def ebind_Inr split: prod.splits)

definition enc_heap_tables :: "(u32 \<times> HeapObject) list \<Rightarrow> (u32 \<times> (u32 \<times> u64) list) list \<Rightarrow> byte list" where
  "enc_heap_tables heap scopes = enc_list enc_heap_entry heap @ enc_list enc_scope_slots scopes"

lemma heap_tables_read:
  assumes "list_ok heap_entry_ok heap" "list_ok (\<lambda>(_, slots). slots_ok slots) scopes" "length (enc_heap_tables heap scopes) < usz"
  shows "\<exists>pos. heap_tables_reader usz (enc_heap_tables heap scopes) 0 = Inr ((heap, scopes), pos)"
proof -
  let ?b = "enc_heap_tables heap scopes"
  have a: "at_pos ?b 0 (enc_list enc_heap_entry heap)" "at_pos ?b (length (enc_list enc_heap_entry heap)) (enc_list enc_scope_slots scopes)"
    using at_pos_append [OF at_pos_whole [of ?b, unfolded enc_heap_tables_def]] by (simp_all add: enc_heap_tables_def)
  note h = heap_format.counted_reads [OF assms(1,3) _ a(1), of "table_u32 usz", simplified]
  note s = scope_slots_format.counted_reads [OF assms(2,3) heap_format.counted_aligned [OF assms(1)] a(2), of "table_u32 usz", simplified]
  show ?thesis unfolding heap_tables_reader_def rbind_twice [OF h] rbind_twice [OF s] by (simp add: rret_def)
qed

definition enc_digest :: "(u32 \<times> byte list) list \<Rightarrow> (u32 \<times> DigestBinding list) list \<Rightarrow> byte list" where
  "enc_digest kinds scopes = enc_list enc_script_kinds kinds @ enc_list enc_scope_bindings scopes"

lemma digest_read:
  assumes "list_ok (\<lambda>(_, kinds). length kinds < 2 ^ 32) kinds" "list_ok (\<lambda>(_, bs). list_ok (\<lambda>_. True) bs) scopes" "length (enc_digest kinds scopes) < usz"
  shows "\<exists>pos. digest_reader usz (enc_digest kinds scopes) 0 = Inr ((kinds, scopes), pos)"
proof -
  let ?b = "enc_digest kinds scopes"
  have a: "at_pos ?b 0 (enc_list enc_script_kinds kinds)" "at_pos ?b (length (enc_list enc_script_kinds kinds)) (enc_list enc_scope_bindings scopes)"
    using at_pos_append [OF at_pos_whole [of ?b, unfolded enc_digest_def]] by (simp_all add: enc_digest_def)
  note h = script_kinds_format.counted_reads [OF assms(1,3) _ a(1), of "digest_u32 usz", simplified]
  note s = scope_bindings_format.counted_reads [OF assms(2,3) script_kinds_format.counted_aligned [OF assms(1)] a(2), of "digest_u32 usz", simplified]
  show ?thesis unfolding digest_reader_def rbind_twice [OF h] rbind_twice [OF s] by (simp add: rret_def)
qed

section \<open>Memories\<close>

text \<open>A memory holds bytes; a read it allows gives the bytes that stand there, and no other read succeeds.\<close>

locale mem_access =
  fixes m :: mem and bytes :: "byte list" and allowed :: "u32 \<Rightarrow> bool"
  assumes exact: "m a n = Inr bs \<longleftrightarrow> allowed a \<and> length bs = unat n \<and> at_pos bytes (unat a) bs"
begin

lemma read_exact:
  assumes "unat n = k" "LENGTH('a) = 8 * k"
  shows "ebind (m a n) (\<lambda>b. Inr (from_le b :: 'a::len word)) = Inr w \<longleftrightarrow> allowed a \<and> at_pos bytes (unat a) (to_le k w)"
proof
  assume "ebind (m a n) (\<lambda>b. Inr (from_le b :: 'a word)) = Inr w"
  then obtain b where b: "m a n = Inr b" "from_le b = w" by (auto simp: ebind_Inr)
  then have "length b = k" "allowed a" "at_pos bytes (unat a) b" using exact [of a n b] assms(1) by auto
  then show "allowed a \<and> at_pos bytes (unat a) (to_le k w)" using b(2) to_from_le [where 'a = 'a, of b k] assms(2) by auto
next
  assume "allowed a \<and> at_pos bytes (unat a) (to_le k w)"
  then have "m a n = Inr (to_le k w)" using assms(1) by (simp add: exact)
  then show "ebind (m a n) (\<lambda>b. Inr (from_le b :: 'a word)) = Inr w" using from_to_le [of k w] assms(2) by simp
qed

lemma words_exact:
  "read_u16 m a = Inr x \<longleftrightarrow> allowed a \<and> at_pos bytes (unat a) (to_le 2 x)"
  "read_u32 m a = Inr y \<longleftrightarrow> allowed a \<and> at_pos bytes (unat a) (to_le 4 y)"
  "read_u64 m a = Inr z \<longleftrightarrow> allowed a \<and> at_pos bytes (unat a) (to_le 8 z)"
  unfolding read_u16_def read_u32_def read_u64_def by (rule read_exact; simp)+

end

lemma slice_at_pos: "slice i (i + n) bytes = bs \<and> i + n \<le> length bytes \<longleftrightarrow> length bs = n \<and> at_pos bytes i bs"
  by (auto simp: at_pos_iff slice_length)

interpretation snapshot_image: mem_access "slice_mem bytes" bytes "\<lambda>_. True"
proof
  fix a n :: u32 and bs
  have "unat a < 2 ^ LENGTH(32)" "unat n < 2 ^ LENGTH(32)" by (rule unsigned_less)+
  then have "\<not> unat a + unat n \<ge> 2 ^ 64" by simp
  then show "slice_mem bytes a n = Inr bs \<longleftrightarrow> True \<and> length bs = unat n \<and> at_pos bytes (unat a) bs"
    using slice_at_pos [of "unat a" "unat n" bytes bs] by (auto simp: slice_mem_def Let_def)
qed

interpretation live_memory: mem_access "live_mem bytes" bytes "\<lambda>a. a \<noteq> 0"
proof
  fix a n :: u32 and bs
  show "live_mem bytes a n = Inr bs \<longleftrightarrow> a \<noteq> 0 \<and> length bs = unat n \<and> at_pos bytes (unat a) bs"
    using slice_at_pos [of "unat a" "unat n" bytes bs] by (auto simp: live_mem_def Let_def)
qed

section \<open>Properties\<close>

text \<open>A word read succeeds exactly when its bytes lie within the memory (and, in the live memory, the address is not
  null), and it returns the word those bytes encode; the snapshot reader and the live reader agree everywhere else.\<close>

theorem memory_words_exact:
  "(read_u32 (slice_mem bytes) a = Inr w \<longleftrightarrow> unat a + 4 \<le> length bytes \<and> slice (unat a) (unat a + 4) bytes = to_le 4 w) \<and>
   (read_u64 (slice_mem bytes) a = Inr v \<longleftrightarrow> unat a + 8 \<le> length bytes \<and> slice (unat a) (unat a + 8) bytes = to_le 8 v) \<and>
   (a \<noteq> 0 \<longrightarrow> read_u32 (live_mem bytes) a = read_u32 (slice_mem bytes) a) \<and> read_u32 (live_mem bytes) 0 = Inl NullRead"
proof -
  have "unat a < 2 ^ LENGTH(32)" by (rule unsigned_less)
  then have "\<not> unat a + 4 \<ge> 2 ^ 64" by simp
  then have "live_mem bytes a 4 = slice_mem bytes a 4" if "a \<noteq> 0" using that by (simp add: live_mem_def slice_mem_def Let_def)
  then show ?thesis
    by (simp add: snapshot_image.words_exact at_pos_iff) (simp add: read_u32_def live_mem_def)
qed

theorem memory_words_exact_witness:
  "read_u32 (live_mem [9, 1, 2, 0, 0]) 1 = Inr 513 \<and> read_u32 (slice_mem [9, 1, 2, 0, 0]) 1 = Inr 513"
proof -
  have "slice 1 5 [9, 1, 2, 0, 0] = to_le 4 (513 :: u32)" by (simp add: slice_def to_le_def upt_rec)
  then show ?thesis using memory_words_exact [of "[9, 1, 2, 0, 0]" 1 513 0] by simp
qed

text \<open>A read that a memory allows fits in the address space of either target.\<close>

abbreviation target_usize :: "nat \<Rightarrow> bool" where
  "target_usize usz \<equiv> usz = USIZE_HOST \<or> usz = USIZE_WASM"

lemma read_fits: "target_usize usz \<Longrightarrow> length bs = unat (len :: u32) \<Longrightarrow> length bs < usz"
  using unsigned_less [of len] by (auto simp: USIZE_HOST_def USIZE_WASM_def)

lemma digest_parses:
  assumes "target_usize usz" "m a len = Inr (enc_digest kinds scopes)" "length (enc_digest kinds scopes) = unat len"
    "list_ok (\<lambda>(_, ks). length ks < 2 ^ 32) kinds" "list_ok (\<lambda>(_, bs). list_ok (\<lambda>_. True) bs) scopes"
    "distinct (map fst kinds)" "distinct (map fst scopes)"
  shows "digest_parse usz m a len = Inr \<lparr>script_gcthing_kinds = map_of kinds, scope_bindings = map_of scopes\<rparr>"
  using digest_read [OF assms(4,5) read_fits [OF assms(1,3)]] assms by (auto simp: digest_parse_def to_map_map_of)

text \<open>C21. The heap oracle reads back as the engine serialized it: every transcribed object with its class, kind,
  prototype, properties and elements, and every scope's environment slots, on the host and on wasm32 alike.\<close>

theorem heap_oracle_roundtrip:
  assumes "target_usize usz" "a \<noteq> 0" "len \<noteq> 0" "m a len = Inr (enc_heap_tables heap scopes)" "length (enc_heap_tables heap scopes) = unat len"
    "list_ok heap_entry_ok heap" "list_ok (\<lambda>(_, slots). slots_ok slots) scopes" "distinct (map fst heap)" "distinct (map fst scopes)"
  shows "parse_heap usz m a len = Inr (map_of heap, map_of scopes)"
  using heap_tables_read [OF assms(6,7) read_fits [OF assms(1,5)]] assms by (auto simp: parse_heap_def to_map_map_of)

definition demo_heap :: "(u32 \<times> HeapObject) list" where
  "demo_heap = [(64, \<lparr>ho_clasp = 8, ho_kind = 1, ho_proto = 0, ho_props = [(32, 0xFFF8000000000001)], ho_elems = []\<rparr>)]"

definition demo_image :: "byte list" where
  "demo_image = replicate 16 0 @ enc_heap_tables demo_heap [(128, [(2, 5)])]"

theorem heap_oracle_roundtrip_witness:
  "parse_heap USIZE_WASM (live_mem demo_image) 16 64 = Inr (map_of demo_heap, map_of [(128, [(2, 5)])])"
proof -
  have l: "length (enc_heap_tables demo_heap [(128, [(2, 5)])]) = 64"
    by (simp add: demo_heap_def enc_heap_tables_def enc_list_def enc_heap_entry_def enc_scope_slots_def enc_slot_def)
  then have m: "live_mem demo_image 16 64 = Inr (enc_heap_tables demo_heap [(128, [(2, 5)])])"
    by (simp add: live_mem_def demo_image_def slice_def Let_def)
  show ?thesis
    using heap_oracle_roundtrip [of USIZE_WASM 16 64 "live_mem demo_image", OF _ _ _ m] l
    by (simp add: demo_heap_def list_ok_def heap_entry_ok_def)
qed

text \<open>C33. The digest reads back as the engine serialized it, on the host and on wasm32: the trace kinds of every script's constants,
  padding skipped, and the bindings of every scope with their names, variable flags and environment slots.\<close>

theorem digest_roundtrip:
  assumes "target_usize usz" "m a len = Inr (enc_digest kinds scopes)" "length (enc_digest kinds scopes) = unat len"
    "list_ok (\<lambda>(_, ks). length ks < 2 ^ 32) kinds" "list_ok (\<lambda>(_, bs). list_ok (\<lambda>_. True) bs) scopes"
    "distinct (map fst kinds)" "distinct (map fst scopes)"
  shows "digest_parse usz m a len = Inr \<lparr>script_gcthing_kinds = map_of kinds, scope_bindings = map_of scopes\<rparr>"
  by (rule digest_parses [of usz m a len, OF assms])

abbreviation demo_digest :: "byte list" where
  "demo_digest \<equiv> enc_digest [(64, [0, 1, 0xff])] [(128, [\<lparr>db_name_atom = 9, db_is_var = True, db_env_slot = Some 2\<rparr>])]"

theorem digest_roundtrip_witness:
  "digest_parse USIZE_HOST (slice_mem (0 # demo_digest)) 1 44 =
   Inr \<lparr>script_gcthing_kinds = [64 \<mapsto> [0, 1, 0xff]], scope_bindings = [128 \<mapsto> [\<lparr>db_name_atom = 9, db_is_var = True, db_env_slot = Some 2\<rparr>]]\<rparr>"
proof -
  have l: "length demo_digest = 44"
    by (simp add: enc_digest_def enc_list_def enc_script_kinds_def enc_scope_bindings_def enc_binding_def padded_length align4_def)
  then have m: "slice_mem (0 # demo_digest) 1 44 = Inr demo_digest"
    by (simp add: slice_mem_def slice_def Let_def)
  show ?thesis
    using digest_roundtrip [of USIZE_HOST "slice_mem (0 # demo_digest)" 1 44, OF _ m] by (simp add: l list_ok_def)
qed

text \<open>The self-hosted roots and the regex programs read back likewise.\<close>

lemma extras_roundtrip:
  assumes "target_usize usz" "a \<noteq> 0" "len \<noteq> 0" "m a len = Inr bs" "length bs = unat len"
  shows "bs = enc_list enc_selfhosted xs \<Longrightarrow> list_ok (\<lambda>(_, name). length name < 2 ^ 32 \<and> valid_utf8 name) xs \<Longrightarrow>
      parse_selfhosted usz m a len = Inr xs"
    "bs = enc_list enc_regex ps \<Longrightarrow> list_ok regex_ok ps \<Longrightarrow> parse_regex_programs usz m a len = Inr ps"
  using assms read_fits [OF assms(1,5)] selfhosted_format.counted_reads [of xs bs usz 0 "table_u32 usz"] regex_format.counted_reads [of ps bs usz 0 "table_u32 usz"]
  by (simp_all add: parse_selfhosted_def parse_regex_programs_def at_pos_whole)

text \<open>A length word that wraps the position passes the bounds check on wasm32, and the slice panics; on the host the same table is
  reported as truncated.\<close>

lemma wrapped_length_panics:
  assumes "at_pos b pos (enc32 n)" "length b < 2 ^ 32" "2 ^ 32 \<le> pos + 4 + unat n"
  shows "rbind (digest_u32 USIZE_WASM) (\<lambda>n. digest_bytes USIZE_WASM (unat n)) b pos = Inl SlicePanic"
    "rbind (table_u32 USIZE_WASM) (\<lambda>n. table_bytes USIZE_WASM (unat n)) b pos = Inl SlicePanic"
    "rbind (digest_u32 USIZE_HOST) (\<lambda>n. digest_bytes USIZE_HOST (unat n)) b pos = Inl DigestTruncated"
    "rbind (table_u32 USIZE_HOST) (\<lambda>n. table_bytes USIZE_HOST (unat n)) b pos = Inl TableTruncated"
proof -
  have n: "unat n < 2 ^ 32" using unsigned_less [of n] by simp
  have p: "pos + 4 \<le> length b" using at_pos_slice(1) [OF assms(1)] by simp
  have e: "(pos + 4 + unat n) mod 2 ^ 32 = pos + 4 + unat n - 2 ^ 32"
    using n p assms(2,3) by (subst le_mod_geq) (simp_all add: mod_less)
  have k: "pos + 4 + unat n - USIZE_WASM < pos + 4" using n assms(3) unfolding USIZE_WASM_def by linarith
  have h: "(pos + 4 + unat n) mod 2 ^ 64 = pos + 4 + unat n" using n p assms(2) by (intro mod_less) simp
  have w: "digest_u32 USIZE_WASM b pos = Inr (n, pos + 4)" "table_u32 USIZE_WASM b pos = Inr (n, pos + 4)"
    "digest_u32 USIZE_HOST b pos = Inr (n, pos + 4)" "table_u32 USIZE_HOST b pos = Inr (n, pos + 4)"
    using word_reads [OF _ assms(1), of USIZE_WASM] word_reads [OF _ assms(1), of USIZE_HOST] assms(2)
    by (simp_all add: USIZE_WASM_def USIZE_HOST_def)
  show "rbind (digest_u32 USIZE_WASM) (\<lambda>n. digest_bytes USIZE_WASM (unat n)) b pos = Inl SlicePanic"
    "rbind (table_u32 USIZE_WASM) (\<lambda>n. table_bytes USIZE_WASM (unat n)) b pos = Inl SlicePanic"
    using k p by (simp_all add: rbind_def w digest_bytes_def table_bytes_def e [folded USIZE_WASM_def] Let_def)
  show "rbind (digest_u32 USIZE_HOST) (\<lambda>n. digest_bytes USIZE_HOST (unat n)) b pos = Inl DigestTruncated"
    "rbind (table_u32 USIZE_HOST) (\<lambda>n. table_bytes USIZE_HOST (unat n)) b pos = Inl TableTruncated"
    using assms(2,3) by (simp_all add: rbind_def w digest_bytes_def table_bytes_def h [folded USIZE_HOST_def] Let_def)
qed

end
