(* ===== verification/Walker_Inv.thy ===== *)
theory Walker_Inv
  imports Walker Snapshot_Tables
begin

unbundle bit_operations_syntax

text \<open>
  The walker (\<^verbatim>\<open>snapshot/src/walker.rs\<close>) ends on every memory that is not a full 4 GiB, never unwraps the wrong object
  class or indexes past the arena, and returns a closed object graph. The argument is a small Hoare logic over the
  walker's computations: every one of them keeps the invariant and only extends the arena and the table of seen
  addresses, so that what is known of an id stays known.
\<close>

section \<open>What an extension keeps\<close>

fun tag_of :: "SourceObject \<Rightarrow> nat \<times> u32" where
  "tag_of (SObject _) = (0, 0)"
| "tag_of (SScript s) = (1, addr s)"
| "tag_of (SString _) = (2, 0)"
| "tag_of (SPrimitive _) = (3, 0)"
| "tag_of (SScope _) = (4, 0)"
| "tag_of SSymbol = (5, 0)"

definition tag_at :: "Walker \<Rightarrow> u32 \<Rightarrow> (nat \<times> u32) option" where
  "tag_at w i = map_option tag_of (source_object (w_source w) i)"

text \<open>Unseen addresses plus pending cells: what the walk has left to do.\<close>

definition left_to_do :: "Walker \<Rightarrow> nat" where
  "left_to_do w = card (- dom (w_dedup w)) + length (w_worklist w)"

definition ext :: "Walker \<Rightarrow> Walker \<Rightarrow> bool" where
  "ext w w' = ((\<forall>i t. tag_at w i = Some t \<longrightarrow> tag_at w' i = Some t) \<and> w_dedup w \<subseteq>\<^sub>m w_dedup w' \<and> left_to_do w' \<le> left_to_do w)"

lemma ext_refl [simp]: "ext w w"
  by (simp add: ext_def)

lemma ext_trans: "ext a b \<Longrightarrow> ext b c \<Longrightarrow> ext a c"
  unfolding ext_def by (meson map_le_trans order.trans)

definition id_ok :: "u32 \<Rightarrow> Walker \<Rightarrow> bool" where
  "id_ok i w = (i = source_other \<or> tag_at w i \<noteq> None)"

definition stable :: "(Walker \<Rightarrow> bool) \<Rightarrow> bool" where
  "stable P = (\<forall>w w'. ext w w' \<longrightarrow> P w \<longrightarrow> P w')"

lemma stable_intros [intro]:
  "stable (\<lambda>_. b)" "stable (id_ok i)" "stable (\<lambda>w. id_ok i w)" "stable (\<lambda>w. tag_at w i = Some t)"
  "stable P \<Longrightarrow> stable Q \<Longrightarrow> stable (\<lambda>w. P w \<and> Q w)"
  unfolding stable_def id_ok_def ext_def by blast+

fun refs :: "SourceObject \<Rightarrow> u32 set" where
  "refs (SObject d) = set_option (od_script d) \<union> set_option (od_name d) \<union> set_option (od_proto d) \<union>
     (\<Union>(n, v)\<in>set (od_properties d). {n, v}) \<union> snd ` set (od_elements d)"
| "refs (SScript s) = set (gcthings s) \<union> set_option (body_scope s)"
| "refs (SScope d) = set_option (sd_enclosing d) \<union> fst ` set (sd_bindings d) \<union> snd ` set (sd_env_slot_values d)"
| "refs _ = {}"

definition closed :: "Walker \<Rightarrow> bool" where
  "closed w = (\<forall>obj\<in>set (objects (w_source w)). \<forall>r\<in>refs obj. id_ok r w)"

definition cell_ok :: "lay \<Rightarrow> Walker \<Rightarrow> u32 \<times> u8 \<times> u32 \<Rightarrow> bool" where
  "cell_ok lay w = (\<lambda>(a, k, i).
     if kind_of lay ''traceKindObject'' = k then tag_at w i = Some (0, 0)
     else if kind_of lay ''traceKindScript'' = k then tag_at w i = Some (1, a)
     else kind_of lay ''traceKindScope'' = k \<longrightarrow> tag_at w i = Some (4, 0))"

definition walk_inv :: "lay \<Rightarrow> Walker \<Rightarrow> bool" where
  "walk_inv lay w = (closed w \<and> (\<forall>c\<in>set (w_worklist w). cell_ok lay w c) \<and> (\<forall>a i. w_dedup w a = Some i \<longrightarrow> tag_at w i \<noteq> None) \<and>
     (\<forall>a b i. w_dedup w a = Some i \<longrightarrow> w_dedup w b = Some i \<longrightarrow> a = b) \<and> (\<forall>i a. w_script_addr w i = Some a \<longrightarrow> tag_at w i = Some (1, a) \<and> w_dedup w a = Some i) \<and>
     (\<forall>i a. w_object_addr w i = Some a \<longrightarrow> tag_at w i = Some (0, 0)))"

section \<open>Triples\<close>

definition triple :: "lay \<Rightarrow> (Walker \<Rightarrow> bool) \<Rightarrow> 'a wm \<Rightarrow> ('a \<Rightarrow> Walker \<Rightarrow> bool) \<Rightarrow> bool" where
  "triple lay P f Q = (\<forall>w. walk_inv lay w \<longrightarrow> P w \<longrightarrow> (case f w of
     None \<Rightarrow> True | Some (Inl e) \<Rightarrow> e \<noteq> WPanic | Some (Inr (x, w')) \<Rightarrow> walk_inv lay w' \<and> ext w w' \<and> Q x w'))"

lemma tripleD:
  assumes "triple lay P f Q" "walk_inv lay w" "P w"
  shows "f w \<noteq> Some (Inl WPanic)" "f w = Some (Inr (x, w')) \<Longrightarrow> walk_inv lay w' \<and> ext w w' \<and> Q x w'"
  using assms unfolding triple_def by (auto dest!: spec [of _ w])

lemma tripleI:
  assumes "\<And>w. walk_inv lay w \<Longrightarrow> P w \<Longrightarrow> f w \<noteq> Some (Inl WPanic)"
    "\<And>w x w'. walk_inv lay w \<Longrightarrow> P w \<Longrightarrow> f w = Some (Inr (x, w')) \<Longrightarrow> walk_inv lay w' \<and> ext w w' \<and> Q x w'"
  shows "triple lay P f Q"
  using assms unfolding triple_def by (auto split: option.split sum.split)

lemma t_conseq: "triple lay P f Q \<Longrightarrow> (\<And>w. P' w \<Longrightarrow> P w) \<Longrightarrow> (\<And>x w. Q x w \<Longrightarrow> Q' x w) \<Longrightarrow> triple lay P' f Q'"
  unfolding triple_def by (auto split: option.splits sum.splits) blast+

lemma t_ret: "(\<And>w. P w \<Longrightarrow> Q x w) \<Longrightarrow> triple lay P (wret x) Q"
  by (simp add: triple_def wret_def)

lemma t_fail: "e \<noteq> WPanic \<Longrightarrow> triple lay P (wfail e) Q"
  by (simp add: triple_def wfail_def)

lemma t_mem: "(\<And>x w. P w \<Longrightarrow> Q x w) \<Longrightarrow> triple lay P (wmem x) Q"
  by (cases x) (simp_all add: wmem_def t_fail t_ret)

lemma t_loop: "x \<noteq> Some (Inl WPanic) \<Longrightarrow> (\<And>x w. P w \<Longrightarrow> Q x w) \<Longrightarrow> triple lay P (wloop x) Q"
  by (auto simp: triple_def wloop_def split: option.split sum.split)

lemma t_bind:
  assumes "stable P" "triple lay P f R" "\<And>x. triple lay (\<lambda>w. P w \<and> R x w) (g x) Q"
  shows "triple lay P (wbind f g) Q"
proof (rule tripleI)
  fix w assume w: "walk_inv lay w" "P w"
  note f = tripleD [OF assms(2) w]
  have step: "walk_inv lay w' \<and> ext w w' \<and> P w' \<and> R x w'" if "f w = Some (Inr (x, w'))" for x w'
    using f(2) [OF that] assms(1) w(2) unfolding stable_def by blast
  show "wbind f g w \<noteq> Some (Inl WPanic)"
    using f(1) step tripleD(1) [OF assms(3)] by (auto simp: wbind_def split: option.splits sum.splits)
  fix y w'' assume "wbind f g w = Some (Inr (y, w''))"
  then obtain x w' where x: "f w = Some (Inr (x, w'))" "g x w' = Some (Inr (y, w''))"
    by (auto simp: wbind_def split: option.splits sum.splits)
  from step [OF x(1)] tripleD(2) [OF assms(3) _ _ x(2)] show "walk_inv lay w'' \<and> ext w w'' \<and> Q y w''" using ext_trans by blast
qed

lemma t_seq:
  assumes "stable P" "triple lay P f (\<lambda>_ _. True)" "triple lay P g Q"
  shows "triple lay P (wseq f g) Q"
  unfolding wseq_def using assms(2,3) by (intro t_bind [OF assms(1)]) (auto intro: t_conseq)

lemma t_for:
  assumes "stable P" "\<And>x. x \<in> set xs \<Longrightarrow> triple lay P (f x) (\<lambda>_ _. True)"
  shows "triple lay P (wfor xs f) (\<lambda>_ _. True)"
  using assms(2) by (induction xs) (auto intro!: t_ret t_seq assms(1))

lemma t_if: "(b \<Longrightarrow> triple lay P f Q) \<Longrightarrow> (\<not> b \<Longrightarrow> triple lay P g Q) \<Longrightarrow> triple lay P (if b then f else g) Q"
  by simp

section \<open>The arena\<close>

lemma tag_at_less: "tag_at w i \<noteq> None \<longleftrightarrow> unat i < length (objects (w_source w))"
  by (simp add: tag_at_def source_object_def)

lemma unat_fresh: "n < 2 ^ 32 \<Longrightarrow> unat (of_nat n :: u32) = n"
  by (simp add: unsigned_of_nat take_bit_nat_eq_self)

lemma tag_at_push:
  assumes "length (objects (w_source w)) < 2 ^ 32"
    "objects (w_source w') = objects (w_source w) @ [obj]"
  shows "tag_at w' (of_nat (length (objects (w_source w)))) = Some (tag_of obj)" "tag_at w i = Some t \<Longrightarrow> tag_at w' i = Some t"
    "tag_at w (of_nat (length (objects (w_source w)))) = None"
  using assms by (auto simp: tag_at_def source_object_def unat_fresh nth_append split: if_splits)

lemma id_ok_mono: "(\<And>i t. tag_at w i = Some t \<Longrightarrow> tag_at w' i = Some t) \<Longrightarrow> id_ok i w \<Longrightarrow> id_ok i w'"
  by (auto simp: id_ok_def)

lemma cell_ok_mono: "(\<And>i t. tag_at w i = Some t \<Longrightarrow> tag_at w' i = Some t) \<Longrightarrow> cell_ok lay w c \<Longrightarrow> cell_ok lay w' c"
  by (auto simp: cell_ok_def split: prod.splits if_splits)

text \<open>
  A new object, with the address it is remembered under, the pending cell, and the script address it adds: one of each
  or none. This is what every successful \<open>add\<close> of an unseen cell, and every new value, does to the state.
\<close>

lemma grow_ok:
  assumes inv: "walk_inv lay w" and small: "length (objects (w_source w)) < 2 ^ 32" and no_refs: "refs obj = {}"
    and objs: "objects (w_source w') = objects (w_source w) @ [obj]" and i: "i = of_nat (length (objects (w_source w)))"
    and ded: "w_dedup w' = w_dedup w \<and> cells = [] \<or> w_dedup w a = None \<and> w_dedup w' = (w_dedup w)(a \<mapsto> i) \<and> length cells \<le> 1"
    and work: "w_worklist w' = cells @ w_worklist w" "\<forall>c\<in>set cells. cell_ok lay w' c"
    and scr: "w_script_addr w' = w_script_addr w \<or> w_script_addr w' = (w_script_addr w)(i \<mapsto> a) \<and> tag_of obj = (1, a) \<and> w_dedup w' a = Some i"
    and oa: "w_object_addr w' = w_object_addr w"
  shows "walk_inv lay w'" "ext w w'" "tag_at w' i = Some (tag_of obj)"
proof -
  note t = tag_at_push [OF small objs, folded i]
  show "tag_at w' i = Some (tag_of obj)" by (rule t(1))
  have fresh: "w_dedup w b \<noteq> Some i" for b using inv t(3) unfolding walk_inv_def by blast
  have le: "w_dedup w \<subseteq>\<^sub>m w_dedup w'" using ded by (auto simp: map_le_def)
  have "left_to_do w' \<le> left_to_do w"
    using ded
  proof (elim disjE conjE)
    assume "w_dedup w a = None" "w_dedup w' = (w_dedup w)(a \<mapsto> i)" "length cells \<le> 1"
    moreover have "- dom ((w_dedup w)(a \<mapsto> i)) = (- dom (w_dedup w)) - {a}" by auto
    moreover have a: "a \<in> - dom (w_dedup w)" using \<open>w_dedup w a = None\<close> by auto
    ultimately have "left_to_do w' = card (- dom (w_dedup w)) - 1 + (length cells + length (w_worklist w))"
      using work(1) card_Diff_singleton [OF a] by (simp add: left_to_do_def)
    moreover have "0 < card (- dom (w_dedup w))" using a by (metis card_gt_0_iff empty_iff finite)
    ultimately show ?thesis using \<open>length cells \<le> 1\<close> unfolding left_to_do_def by linarith
  qed (use work(1) in \<open>simp add: left_to_do_def\<close>)
  then show "ext w w'" using t(2) le unfolding ext_def by blast
  show "walk_inv lay w'" unfolding walk_inv_def
  proof (intro conjI)
    have "closed w" using inv by (simp add: walk_inv_def)
    then show "closed w'" using id_ok_mono [OF t(2)] no_refs objs unfolding closed_def by auto
    have "\<forall>c\<in>set (w_worklist w). cell_ok lay w c" using inv by (simp add: walk_inv_def)
    then show "\<forall>c\<in>set (w_worklist w'). cell_ok lay w' c" using cell_ok_mono [OF t(2)] work by auto
    have "\<forall>b j. w_dedup w b = Some j \<longrightarrow> tag_at w j \<noteq> None" using inv by (simp add: walk_inv_def)
    then show "\<forall>b j. w_dedup w' b = Some j \<longrightarrow> tag_at w' j \<noteq> None" using ded t(1,2) by (auto split: if_splits) blast+
    have "\<forall>b c j. w_dedup w b = Some j \<longrightarrow> w_dedup w c = Some j \<longrightarrow> b = c" using inv by (simp add: walk_inv_def)
    then show "\<forall>b c j. w_dedup w' b = Some j \<longrightarrow> w_dedup w' c = Some j \<longrightarrow> b = c" using ded fresh by (auto split: if_splits)
    have "\<forall>j b. w_script_addr w j = Some b \<longrightarrow> tag_at w j = Some (1, b) \<and> w_dedup w b = Some j" using inv by (simp add: walk_inv_def)
    then show "\<forall>j b. w_script_addr w' j = Some b \<longrightarrow> tag_at w' j = Some (1, b) \<and> w_dedup w' b = Some j"
      using scr t(1,2) le by (auto simp: map_le_def dom_def split: if_splits)
    have "\<forall>j b. w_object_addr w j = Some b \<longrightarrow> tag_at w j = Some (0, 0)" using inv by (simp add: walk_inv_def)
    then show "\<forall>j b. w_object_addr w' j = Some b \<longrightarrow> tag_at w' j = Some (0, 0)" using oa t(2) by auto
  qed
qed

lemma wpush_Inr:
  assumes "wpush obj w = Some (Inr (i, w'))"
  shows "length (objects (w_source w)) < 2 ^ 32" "i = of_nat (length (objects (w_source w)))"
    "w' = w\<lparr>w_source := (w_source w)\<lparr>objects := objects (w_source w) @ [obj]\<rparr>\<rparr>"
  using assms by (auto simp: wpush_def source_push_def split: if_splits)

lemma wpush_no_panic: "wpush obj w \<noteq> Some (Inl WPanic)" "wpush obj w \<noteq> None"
  by (auto simp: wpush_def split: option.splits)

lemma t_push:
  assumes "refs obj = {}"
  shows "triple lay P (wpush obj) (\<lambda>i w. tag_at w i = Some (tag_of obj))"
proof (rule tripleI)
  fix w x w' assume w: "walk_inv lay w" "wpush obj w = Some (Inr (x, w'))"
  note p = wpush_Inr [OF w(2)]
  have "walk_inv lay w'" "ext w w'" "tag_at w' x = Some (tag_of obj)"
    using grow_ok [OF w(1) p(1) assms _ p(2), of w' "[]" 0] p(3) by auto
  then show "walk_inv lay w' \<and> ext w w' \<and> tag_at w' x = Some (tag_of obj)" by blast
qed (rule wpush_no_panic)

section \<open>Reading a cell\<close>

text \<open>A reader of a cell pushes one object and does nothing else.\<close>

definition pushes :: "(SourceObject \<Rightarrow> bool) \<Rightarrow> u32 wm \<Rightarrow> bool" where
  "pushes P f = (\<forall>w. f w \<noteq> Some (Inl WPanic) \<and> f w \<noteq> None \<and> (\<forall>i w'. f w = Some (Inr (i, w')) \<longrightarrow> (\<exists>obj. P obj \<and> wpush obj w = Some (Inr (i, w')))))"

text \<open>A computation that only reads.\<close>

definition pure :: "'a wm \<Rightarrow> bool" where
  "pure f = (\<forall>w. f w \<noteq> Some (Inl WPanic) \<and> f w \<noteq> None \<and> (\<forall>x w'. f w = Some (Inr (x, w')) \<longrightarrow> w' = w))"

lemma pure_intros [intro]:
  "pure (wret x)" "e \<noteq> WPanic \<Longrightarrow> pure (wfail e)" "pure (wmem y)" "pure f \<Longrightarrow> (\<And>x. pure (g x)) \<Longrightarrow> pure (wbind f g)"
  "(b \<Longrightarrow> pure f) \<Longrightarrow> (\<not> b \<Longrightarrow> pure f') \<Longrightarrow> pure (if b then f else f')"
proof -
  show "pure (wret x)" "e \<noteq> WPanic \<Longrightarrow> pure (wfail e)" by (simp_all add: pure_def wret_def wfail_def)
  then show "pure (wmem y)" by (cases y) (auto simp: wmem_def pure_def wret_def wfail_def)
  show "pure f \<Longrightarrow> (\<And>x. pure (g x)) \<Longrightarrow> pure (wbind f g)"
    unfolding pure_def wbind_def by (auto split: option.splits sum.splits) metis+
qed simp

lemma pushes_intros [intro]:
  "P obj \<Longrightarrow> pushes P (wpush obj)" "e \<noteq> WPanic \<Longrightarrow> pushes P (wfail e)" "pure f \<Longrightarrow> (\<And>x. pushes P (g x)) \<Longrightarrow> pushes P (wbind f g)"
  "(b \<Longrightarrow> pushes P h) \<Longrightarrow> (\<not> b \<Longrightarrow> pushes P h') \<Longrightarrow> pushes P (if b then h else h')"
proof -
  show "P obj \<Longrightarrow> pushes P (wpush obj)" using wpush_no_panic unfolding pushes_def by blast
  show "e \<noteq> WPanic \<Longrightarrow> pushes P (wfail e)" by (simp add: pushes_def wfail_def)
  show "pure f \<Longrightarrow> (\<And>x. pushes P (g x)) \<Longrightarrow> pushes P (wbind f g)"
    unfolding pure_def pushes_def wbind_def by (auto split: option.splits sum.splits) metis+
qed simp

lemma isd_pure: "pure (isd_of m lay a)"
  unfolding isd_of_def by blast

lemma flags_pure: "pure (fun_flags_and_argc m lay a)"
  unfolding fun_flags_and_argc_def by blast

lemma cell_readers:
  "pushes (\<lambda>obj. refs obj = {} \<and> tag_of obj = (1, a)) (read_script m lay a)"
  "pushes (\<lambda>obj. refs obj = {}) (read_string m lay a)"
  "pushes (\<lambda>obj. refs obj = {} \<and> tag_of obj = (4, 0)) (read_scope_shallow m lay a)"
  unfolding read_script_def read_string_def read_scope_shallow_def
  by (intro pushes_intros pure_intros isd_pure flags_pure; simp)+

text \<open>What \<open>add\<close> does with a cell it has not seen.\<close>

lemma add_new_grows:
  assumes "walk_inv lay w" "traced lay k" "w_dedup w a = None" "add_new m lay a k w = Some (Inr (i, w1))"
  shows "walk_inv lay (w1\<lparr>w_dedup := (w_dedup w1)(a \<mapsto> i)\<rparr>)" "ext w (w1\<lparr>w_dedup := (w_dedup w1)(a \<mapsto> i)\<rparr>)"
    "tag_at (w1\<lparr>w_dedup := (w_dedup w1)(a \<mapsto> i)\<rparr>) i \<noteq> None"
proof -
  let ?k = "kind_of lay" and ?w = "w1\<lparr>w_dedup := (w_dedup w1)(a \<mapsto> i)\<rparr>"
  obtain obj w0 cells where push: "wpush obj w = Some (Inr (i, w0))" and r: "refs obj = {}"
    and w1: "w1 = w0\<lparr>w_worklist := cells @ w_worklist w0, w_script_addr := w_script_addr w1\<rparr>" and c: "cells = [] \<or> cells = [(a, k, i)]"
    and tag: "cells \<noteq> [] \<Longrightarrow> ?k ''traceKindObject'' = k \<and> tag_of obj = (0, 0) \<or> ?k ''traceKindObject'' \<noteq> k \<and> ?k ''traceKindScript'' = k \<and> tag_of obj = (1, a) \<or>
      ?k ''traceKindObject'' \<noteq> k \<and> ?k ''traceKindScript'' \<noteq> k \<and> tag_of obj = (4, 0)"
    and scr: "w_script_addr w1 = w_script_addr w0 \<or> w_script_addr w1 = (w_script_addr w0)(i \<mapsto> a) \<and> tag_of obj = (1, a)"
  proof (cases "?k ''traceKindObject'' = k")
    case True
    then obtain w0 where "wpush fresh_object w = Some (Inr (i, w0))" "w1 = w0\<lparr>w_worklist := (a, k, i) # w_worklist w0\<rparr>"
      using assms(4) by (auto simp: add_new_def wbind_def wput_def wret_def split: option.splits sum.splits)
    then show thesis using True by (intro that [of fresh_object w0 "[(a, k, i)]"]) (simp_all add: fresh_object_def)
  next
    case no: False
    show thesis
    proof (cases "?k ''traceKindScript'' = k")
      case True
      then obtain w0 where w0: "read_script m lay a w = Some (Inr (i, w0))"
        "w1 = w0\<lparr>w_worklist := (a, k, i) # w_worklist w0, w_script_addr := (w_script_addr w0)(i \<mapsto> a)\<rparr>"
        using assms(4) no by (auto simp: add_new_def wbind_def wput_def wret_def split: option.splits sum.splits)
      with cell_readers(1) [of a m lay] obtain obj where "refs obj = {}" "tag_of obj = (1, a)" "wpush obj w = Some (Inr (i, w0))"
        unfolding pushes_def by blast
      then show thesis using True no w0(2) by (intro that [of obj w0 "[(a, k, i)]"]) simp_all
    next
      case nos: False
      show thesis
      proof (cases "?k ''traceKindString'' = k")
        case True
        then have "read_string m lay a w = Some (Inr (i, w1))" using assms(4) no nos by (simp add: add_new_def)
        with cell_readers(2) [of m lay a] obtain obj where "refs obj = {}" "wpush obj w = Some (Inr (i, w1))" unfolding pushes_def by blast
        then show thesis by (intro that [of obj w1 "[]"]) simp_all
      next
        case False
        then obtain w0 where w0: "read_scope_shallow m lay a w = Some (Inr (i, w0))" "w1 = w0\<lparr>w_worklist := (a, k, i) # w_worklist w0\<rparr>"
          using assms(4) no nos by (auto simp: add_new_def wbind_def wput_def wret_def split: option.splits sum.splits)
        with cell_readers(3) [of m lay a] obtain obj where "refs obj = {}" "tag_of obj = (4, 0)" "wpush obj w = Some (Inr (i, w0))"
          unfolding pushes_def by blast
        then show thesis using no nos w0(2) by (intro that [of obj w0 "[(a, k, i)]"]) simp_all
      qed
    qed
  qed
  note p = wpush_Inr [OF push]
  have objs: "objects (w_source ?w) = objects (w_source w) @ [obj]" using p(3) by (subst w1) simp
  have t: "tag_at ?w i = Some (tag_of obj)" using tag_at_push(1) [OF p(1) objs] p(2) by simp
  have d: "w_dedup ?w = (w_dedup w)(a \<mapsto> i)" "w_worklist ?w = cells @ w_worklist w" "w_object_addr ?w = w_object_addr w" using p(3) by (subst w1; simp)+
  have s: "w_script_addr ?w = w_script_addr w \<or> w_script_addr ?w = (w_script_addr w)(i \<mapsto> a) \<and> tag_of obj = (1, a) \<and> w_dedup ?w a = Some i"
    using scr p(3) by auto
  have "\<forall>x\<in>set cells. cell_ok lay ?w x" using c tag t by (auto simp: cell_ok_def)
  from grow_ok [OF assms(1) p(1) r objs p(2) _ d(2) this s d(3)] d(1) assms(3) c t
  show "walk_inv lay ?w" "ext w ?w" "tag_at ?w i \<noteq> None" by auto
qed

lemma add_new_no_panic: "add_new m lay a k w \<noteq> Some (Inl WPanic)" "add_new m lay a k w \<noteq> None"
proof -
  have "wbind f (\<lambda>i. wbind (wput (u i)) (\<lambda>_. wret i)) w \<noteq> Some (Inl WPanic) \<and> wbind f (\<lambda>i. wbind (wput (u i)) (\<lambda>_. wret i)) w \<noteq> None"
    if "pushes P f" for P f u
    using that by (auto simp: pushes_def wbind_def wput_def wret_def split: option.splits sum.splits)
  note b = this [OF cell_readers(1)] this [OF cell_readers(3)] this [OF pushes_intros(1) [of "\<lambda>_. True" fresh_object], simplified]
  have "add_new m lay a k w \<noteq> Some (Inl WPanic) \<and> add_new m lay a k w \<noteq> None"
    using b cell_readers(2) [of m lay a] unfolding add_new_def by (auto simp: pushes_def)
  then show "add_new m lay a k w \<noteq> Some (Inl WPanic)" "add_new m lay a k w \<noteq> None" by auto
qed

lemma inv_seen: "walk_inv lay w \<Longrightarrow> w_dedup w a = Some i \<Longrightarrow> id_ok i w"
  by (auto simp: walk_inv_def id_ok_def)

lemma t_add: "triple lay P (add m lay a k) (\<lambda>i w. id_ok i w)"
proof (rule tripleI)
  fix w assume "walk_inv lay w"
  show "add m lay a k w \<noteq> Some (Inl WPanic)"
    using add_new_no_panic(1) [of m lay a k w] by (auto simp: add_def wret_def wbind_def wget_def wput_def split: option.splits sum.splits)
next
  fix w i w' assume w: "walk_inv lay w" "add m lay a k w = Some (Inr (i, w'))"
  show "walk_inv lay w' \<and> ext w w' \<and> id_ok i w'"
  proof (cases "traced lay k \<and> w_dedup w a = None")
    case True
    then obtain w1 where "add_new m lay a k w = Some (Inr (i, w1))" "w' = w1\<lparr>w_dedup := (w_dedup w1)(a \<mapsto> i)\<rparr>"
      using w(2) by (auto simp: add_def wret_def wbind_def wget_def wput_def split: option.splits sum.splits)
    with add_new_grows [OF w(1) _ _ this(1)] True show ?thesis by (simp add: id_ok_def)
  next
    case False
    then show ?thesis using w inv_seen [OF w(1)] by (auto simp: add_def wret_def wbind_def wget_def id_ok_def split: if_splits option.splits)
  qed
qed

lemma t_symbol:
  "triple lay P (wbind (wget (\<lambda>w. w_dedup w a)) (\<lambda>seen. case seen of
     Some i \<Rightarrow> wret i
   | None \<Rightarrow> wbind (wpush SSymbol) (\<lambda>i. wbind (wput (\<lambda>w. w\<lparr>w_dedup := (w_dedup w)(a \<mapsto> i)\<rparr>)) (\<lambda>_. wret i)))) (\<lambda>i w. id_ok i w)"
  (is "triple lay P ?f _")
proof (rule tripleI)
  fix w
  show "?f w \<noteq> Some (Inl WPanic)"
    using wpush_no_panic(1) [of SSymbol w] by (auto simp: wret_def wbind_def wget_def wput_def split: option.splits sum.splits)
next
  fix w i w' assume w: "walk_inv lay w" "?f w = Some (Inr (i, w'))"
  show "walk_inv lay w' \<and> ext w w' \<and> id_ok i w'"
  proof (cases "w_dedup w a")
    case None
    then obtain w1 where p1: "wpush SSymbol w = Some (Inr (i, w1))" and w': "w' = w1\<lparr>w_dedup := (w_dedup w1)(a \<mapsto> i)\<rparr>"
      using w(2) by (auto simp: wret_def wbind_def wget_def wput_def split: option.splits sum.splits)
    note p = wpush_Inr [OF p1]
    have "walk_inv lay w'" "ext w w'" "tag_at w' i = Some (tag_of SSymbol)"
      using grow_ok [OF w(1) p(1) _ _ p(2), of SSymbol w' "[]" a] p(3) w' None by auto
    then show ?thesis by (simp add: id_ok_def)
  next
    case (Some j)
    then show ?thesis using w inv_seen [OF w(1)] by (auto simp: wret_def wbind_def wget_def)
  qed
qed

section \<open>Updating an object\<close>

lemma modify_ok:
  assumes inv: "walk_inv lay w" and i: "unat i < length (objects (w_source w))" and t: "tag_of obj = tag_of (objects (w_source w) ! unat i)"
    and r: "\<forall>x\<in>refs obj. x \<in> refs (objects (w_source w) ! unat i) \<or> id_ok x w"
  defines "w' \<equiv> w\<lparr>w_source := (w_source w)\<lparr>objects := (objects (w_source w))[unat i := obj]\<rparr>\<rparr>"
  shows "walk_inv lay w'" "ext w w'"
proof -
  have tags: "tag_at w' j = tag_at w j" for j
    using t i by (cases "unat j = unat i") (auto simp: w'_def tag_at_def source_object_def)
  have ids: "id_ok j w' = id_ok j w" for j by (simp add: id_ok_def tags)
  have cells: "cell_ok lay w' c = cell_ok lay w c" for c by (simp add: cell_ok_def tags split: prod.split)
  have "closed w" using inv by (simp add: walk_inv_def)
  moreover have "objects (w_source w) ! unat i \<in> set (objects (w_source w))" using i by simp
  ultimately have "closed w'" using r unfolding closed_def ids by (auto simp: w'_def closed_def dest!: set_update_subset_insert [THEN subsetD])
  then show "walk_inv lay w'" using inv unfolding walk_inv_def tags cells by (simp add: w'_def)
  show "ext w w'" using tags by (simp add: ext_def left_to_do_def) (simp add: w'_def)
qed

lemma t_modify:
  assumes "\<And>w. P w \<Longrightarrow> tag_at w i = Some t"
    and "\<And>w obj. P w \<Longrightarrow> tag_of obj = t \<Longrightarrow> \<exists>obj'. upd obj = Some obj' \<and> tag_of obj' = t \<and> (\<forall>x\<in>refs obj'. x \<in> refs obj \<or> id_ok x w)"
  shows "triple lay P (wmodify upd i) (\<lambda>_ _. True)"
proof -
  have found: "\<exists>obj'. upd (objects (w_source w) ! unat i) = Some obj' \<and> unat i < length (objects (w_source w)) \<and>
      tag_of obj' = tag_of (objects (w_source w) ! unat i) \<and> (\<forall>x\<in>refs obj'. x \<in> refs (objects (w_source w) ! unat i) \<or> id_ok x w)" if "P w" for w
    using assms(1) [OF that] assms(2) [OF that] by (auto simp: tag_at_def source_object_def split: if_splits)
  show ?thesis
  proof (rule tripleI)
    fix w assume "P w"
    from found [OF this] show "wmodify upd i w \<noteq> Some (Inl WPanic)" by (auto simp: wmodify_def source_object_def)
  next
    fix w x w' assume w: "walk_inv lay w" "P w" "wmodify upd i w = Some (Inr (x, w'))"
    from found [OF w(2)] obtain obj' where o: "upd (objects (w_source w) ! unat i) = Some obj'" "unat i < length (objects (w_source w))"
      "tag_of obj' = tag_of (objects (w_source w) ! unat i)" "\<forall>x\<in>refs obj'. x \<in> refs (objects (w_source w) ! unat i) \<or> id_ok x w" by blast
    have "w' = w\<lparr>w_source := (w_source w)\<lparr>objects := (objects (w_source w))[unat i := obj']\<rparr>\<rparr>"
      using w(3) o(1,2) by (simp add: wmodify_def source_object_def)
    with modify_ok [OF w(1) o(2,3,4)] show "walk_inv lay w' \<and> ext w w' \<and> True" by simp
  qed
qed

lemma t_object:
  assumes "\<And>w. P w \<Longrightarrow> tag_at w i = Some (0, 0)" "\<And>w d x. P w \<Longrightarrow> x \<in> refs (SObject (f d)) \<Longrightarrow> x \<in> refs (SObject d) \<or> id_ok x w"
  shows "triple lay P (wmodify (upd_object f) i) (\<lambda>_ _. True)"
proof (rule t_modify [OF assms(1)])
  fix w obj assume "P w" "tag_of obj = (0, 0)"
  then show "\<exists>obj'. upd_object f obj = Some obj' \<and> tag_of obj' = (0, 0) \<and> (\<forall>x\<in>refs obj'. x \<in> refs obj \<or> id_ok x w)"
    using assms(2) by (cases obj) auto
qed

lemma t_script:
  assumes "\<And>w. P w \<Longrightarrow> tag_at w i = Some (1, a)" "\<And>s. addr (f s) = addr s"
    "\<And>w d x. P w \<Longrightarrow> x \<in> refs (SScript (f d)) \<Longrightarrow> x \<in> refs (SScript d) \<or> id_ok x w"
  shows "triple lay P (wmodify (upd_script f) i) (\<lambda>_ _. True)"
proof (rule t_modify [OF assms(1)])
  fix w obj assume "P w" "tag_of obj = (1, a)"
  then show "\<exists>obj'. upd_script f obj = Some obj' \<and> tag_of obj' = (1, a) \<and> (\<forall>x\<in>refs obj'. x \<in> refs obj \<or> id_ok x w)"
    using assms(2,3) by (cases obj) auto
qed

lemma t_scope:
  assumes "\<And>w. P w \<Longrightarrow> tag_at w i = Some (4, 0)" "\<And>w d x. P w \<Longrightarrow> x \<in> refs (SScope (f d)) \<Longrightarrow> x \<in> refs (SScope d) \<or> id_ok x w"
  shows "triple lay P (wmodify (upd_scope f) i) (\<lambda>_ _. True)"
proof (rule t_modify [OF assms(1)])
  fix w obj assume "P w" "tag_of obj = (4, 0)"
  then show "\<exists>obj'. upd_scope f obj = Some obj' \<and> tag_of obj' = (4, 0) \<and> (\<forall>x\<in>refs obj'. x \<in> refs obj \<or> id_ok x w)"
    using assms(2) by (cases obj) auto
qed

section \<open>Visits\<close>

lemma t_true: "triple lay P f Q \<Longrightarrow> triple lay P f (\<lambda>_ _. True)"
  by (erule t_conseq) auto

lemma t_prim: "refs obj = {} \<Longrightarrow> triple lay P (wpush obj) (\<lambda>i w. id_ok i w)"
  by (rule t_conseq [OF t_push]) (simp_all add: id_ok_def)

lemma t_other: "triple lay P (wret source_other) (\<lambda>i w. id_ok i w)"
  by (rule t_ret) (simp add: id_ok_def)

lemma t_value:
  assumes "stable P"
  shows "triple lay P (read_value m lay reg bits) (\<lambda>i w. id_ok i w)"
  unfolding read_value_def Let_def
  by (intro t_if t_add t_other t_symbol t_prim t_bind [OF assms, where R = "\<lambda>_ _. True"] t_mem TrueI) simp_all

lemma t_pure:
  assumes "pure f"
  shows "triple lay P f (\<lambda>_ _. True)"
proof (rule tripleI)
  fix w x w' assume "walk_inv lay w" "f w = Some (Inr (x, w'))"
  moreover from this assms have "w' = w" unfolding pure_def by blast
  ultimately show "walk_inv lay w' \<and> ext w w' \<and> True" by simp
qed (use assms in \<open>auto simp: pure_def\<close>)

lemma t_pbind:
  assumes "stable P" "pure f" "\<And>x. triple lay P (g x) Q"
  shows "triple lay P (wbind f g) Q"
  using assms by (intro t_bind [OF _ t_pure]) simp_all

lemma t_object_addr:
  assumes "\<And>w. P w \<Longrightarrow> tag_at w i = Some (0, 0)"
  shows "triple lay P (wput (\<lambda>w. w\<lparr>w_object_addr := (w_object_addr w)(i \<mapsto> a)\<rparr>)) (\<lambda>_ _. True)"
proof (rule tripleI)
  fix w x w' assume w: "walk_inv lay w" "P w" "wput (\<lambda>w. w\<lparr>w_object_addr := (w_object_addr w)(i \<mapsto> a)\<rparr>) w = Some (Inr (x, w'))"
  let ?w = "w\<lparr>w_object_addr := (w_object_addr w)(i \<mapsto> a)\<rparr>"
  have tags: "tag_at ?w j = tag_at w j" for j by (simp add: tag_at_def)
  have cells: "cell_ok lay ?w c = cell_ok lay w c" for c by (simp add: cell_ok_def tags split: prod.split)
  have cl: "closed ?w = closed w" by (simp add: closed_def id_ok_def tags)
  have "walk_inv lay ?w" using w(1) assms [OF w(2)] unfolding walk_inv_def tags cells cl by simp
  moreover have "ext w ?w" by (simp add: ext_def tags left_to_do_def)
  ultimately show "walk_inv lay w' \<and> ext w w' \<and> True" using w(3) by (auto simp: wput_def)
qed (simp add: wput_def)

lemma clasp_pure: "pure (clasp_of m lay a)"
  unfolding clasp_of_def by blast

lemma st_tag: "stable (\<lambda>w. tag_at w i = Some t)"
  by blast

lemma st_tag_id: "stable (\<lambda>w. tag_at w i = Some t \<and> id_ok j w)"
  by (intro stable_intros)

lemma t_heap_entry: "triple lay (\<lambda>w. tag_at w i = Some (0, 0)) (visit_heap_entry m lay reg a i clasp) (\<lambda>_ _. True)"
proof (cases "heap_entry reg a clasp")
  case None
  then show ?thesis by (simp add: visit_heap_entry_def t_ret)
next
  case (Some e)
  let ?P = "\<lambda>w. tag_at w i = Some (0, 0)"
  have "triple lay ?P (wmodify (upd_object (\<lambda>d. d\<lparr>od_slots_exact := b\<rparr>)) i) (\<lambda>_ _. True)" for b by (rule t_object) auto
  moreover have "triple lay ?P (wput (\<lambda>w. w\<lparr>w_object_addr := (w_object_addr w)(i \<mapsto> a)\<rparr>)) (\<lambda>_ _. True)" by (rule t_object_addr) simp
  moreover have "triple lay ?P (if ho_proto e \<noteq> 0 \<and> reg_heap reg (ho_proto e) \<noteq> None then
      wbind (add m lay (ho_proto e) k) (\<lambda>pid. if pid \<noteq> source_other then wmodify (upd_object (\<lambda>d. d\<lparr>od_proto := Some pid\<rparr>)) i else wret ())
      else wret ()) (\<lambda>_ _. True)" for k
    by (intro t_if t_bind [OF st_tag t_add] t_object t_ret) auto
  moreover have "triple lay ?P (case pb of (atom, bits) \<Rightarrow> wbind (add m lay atom k) (\<lambda>nid. wbind (read_value m lay reg bits) (\<lambda>vid.
      wmodify (upd_object (\<lambda>d. d\<lparr>od_properties := od_properties d @ [(nid, vid)]\<rparr>)) i))) (\<lambda>_ _. True)" for pb k
    unfolding case_prod_beta by (rule t_bind [OF st_tag t_add], rule t_bind [OF st_tag_id t_value [OF st_tag_id]], rule t_object) auto
  moreover have "triple lay ?P (case pb of (index, bits) \<Rightarrow> wbind (read_value m lay reg bits) (\<lambda>vid.
      wmodify (upd_object (\<lambda>d. d\<lparr>od_elements := od_elements d @ [(index, vid)]\<rparr>)) i)) (\<lambda>_ _. True)" for pb
    unfolding case_prod_beta by (rule t_bind [OF st_tag t_value [OF st_tag]], rule t_object) auto
  ultimately show ?thesis unfolding visit_heap_entry_def Some option.case by (intro t_seq [OF st_tag] t_for [OF st_tag] t_ret) simp_all
qed

lemma t_function: "triple lay (\<lambda>w. tag_at w i = Some (0, 0)) (visit_function m lay reg a i) (\<lambda>_ _. True)"
proof -
  let ?P = "\<lambda>w. tag_at w i = Some (0, 0)"
  have s: "triple lay ?P (wbind (add m lay x k) (\<lambda>sid. wmodify (upd_object (\<lambda>d. d\<lparr>od_script := Some sid\<rparr>)) i)) (\<lambda>_ _. True)" for x k
    by (rule t_bind [OF st_tag t_add], rule t_object) auto
  have n: "triple lay ?P (wbind (add m lay x k) (\<lambda>nid. wmodify (upd_object (\<lambda>d. d\<lparr>od_name := Some nid\<rparr>)) i)) (\<lambda>_ _. True)" for x k
    by (rule t_bind [OF st_tag t_add], rule t_object) auto
  show ?thesis unfolding visit_function_def Let_def
    by (intro t_pbind [OF st_tag flags_pure] t_pbind [OF st_tag pure_intros(3)] t_if t_fail t_seq [OF st_tag] t_ret s n) simp_all
qed

lemma t_option:
  "(x = None \<Longrightarrow> triple lay P f Q) \<Longrightarrow> (\<And>y. x = Some y \<Longrightarrow> triple lay P (g y) Q) \<Longrightarrow> triple lay P (case x of None \<Rightarrow> f | Some y \<Rightarrow> g y) Q"
  by (cases x) simp_all

lemmas t_mbind = t_pbind [OF _ pure_intros(3)]

lemma t_visit_object: "triple lay (\<lambda>w. tag_at w i = Some (0, 0)) (visit_object m lay reg a i) (\<lambda>_ _. True)"
proof -
  have k: "triple lay (\<lambda>w. tag_at w i = Some (0, 0)) (wmodify (upd_object (\<lambda>d. d\<lparr>od_kind := k\<rparr>)) i) (\<lambda>_ _. True)" for k by (rule t_object) auto
  have n: "triple lay (\<lambda>w. tag_at w i = Some (0, 0) \<and> True) (wmodify (upd_object (\<lambda>d. d\<lparr>od_non_native := True\<rparr>)) i) (\<lambda>_ _. True)" by (rule t_object) auto
  show ?thesis unfolding visit_object_def
    by (intro t_pbind [OF st_tag clasp_pure] t_seq [OF st_tag] k t_if t_function t_ret t_bind [OF st_tag t_heap_entry] n) simp_all
qed

lemma stride_no_panic:
  assumes "\<And>off. rd off \<noteq> Inl WPanic"
  shows "stride_loop rd step off e acc \<noteq> Some (Inl WPanic)"
proof -
  have "r \<noteq> Inl WPanic" if "stride_loop rd step off e acc = Some r" for r
  proof (rule stride_loop.raw_induct [where P = "\<lambda>f _ _ _ _ r. f = rd \<longrightarrow> r \<noteq> Inl WPanic", OF _ that, rule_format], goal_cases)
    case (1 f rd' step off e acc r)
    then show ?case using assms by (auto split: if_splits sum.splits)
  qed simp
  then show ?thesis by blast
qed

lemma mem_err_no_panic: "mem_err x \<noteq> Inl WPanic"
  by (cases x) (simp_all add: mem_err_def)

lemma ebind_no_panic: "x \<noteq> Inl WPanic \<Longrightarrow> (\<And>a. f a \<noteq> Inl WPanic) \<Longrightarrow> ebind x f \<noteq> Inl WPanic"
  by (cases x) auto

lemma note_readers_no_panic: "read_resume m isd off \<noteq> Inl WPanic" "read_try_note m isd off \<noteq> Inl WPanic" "read_scope_note m isd off \<noteq> Inl WPanic"
proof -
  have k: "try_note_kind raw \<noteq> Inl WPanic" for raw by (simp add: try_note_kind_def)
  show "read_resume m isd off \<noteq> Inl WPanic" by (simp add: read_resume_def mem_err_no_panic)
  show "read_try_note m isd off \<noteq> Inl WPanic" "read_scope_note m isd off \<noteq> Inl WPanic"
    unfolding read_try_note_def read_scope_note_def by (intro ebind_no_panic mem_err_no_panic k; simp)+
qed

lemma spans_pure: "pure (isd_optional_spans m lay isd)"
  unfolding isd_optional_spans_def Let_def by (intro pure_intros)

lemma things_pure: "pure (thing_words m lay base n)"
  by (induction n arbitrary: base) auto

lemma t_lbind:
  assumes "stable P" "x \<noteq> Some (Inl WPanic)" "\<And>y. triple lay P (g y) Q"
  shows "triple lay P (wbind (wloop x) g) Q"
  using assms by (intro t_bind [OF assms(1) t_loop [where Q = "\<lambda>_ _. True"]]) simp_all

lemma t_visit_script: "triple lay (\<lambda>w. tag_at w i = Some (1, a)) (visit_script m lay reg a i) (\<lambda>_ _. True)"
proof -
  let ?P = "\<lambda>w. tag_at w i = Some (1, a)"
  have upd: "triple lay ?P (wmodify (upd_script (\<lambda>s. s\<lparr>resume_offsets := x\<rparr>)) i) (\<lambda>_ _. True)"
    "triple lay ?P (wmodify (upd_script (\<lambda>s. s\<lparr>try_notes := try_notes s @ y\<rparr>)) i) (\<lambda>_ _. True)"
    "triple lay ?P (wmodify (upd_script (\<lambda>s. s\<lparr>scope_notes := scope_notes s @ z\<rparr>)) i) (\<lambda>_ _. True)" for x y z
    by (rule t_script; auto)+
  have thing: "triple lay ?P (wbind (if snd tk = 0xff then wret source_other else add m lay (fst tk) (snd tk))
      (\<lambda>tid. wmodify (upd_script (\<lambda>s. s\<lparr>gcthings := gcthings s @ [tid]\<rparr>)) i)) (\<lambda>_ _. True)" for tk
    by (rule t_bind [OF st_tag, where R = "\<lambda>j w. id_ok j w"], intro t_if t_other t_add, rule t_script) auto
  have body: "triple lay ?P (wbind (add m lay x k) (\<lambda>bid. wmodify (upd_script (\<lambda>s. s\<lparr>body_scope := Some bid\<rparr>)) i)) (\<lambda>_ _. True)" for x k
    by (rule t_bind [OF st_tag t_add], rule t_script) auto
  have n: "pure (if b then wmem x else wret 0)" for b and x :: "SnapError + u32" by (intro pure_intros)
  note stride = note_readers_no_panic [THEN stride_no_panic]
  show ?thesis unfolding visit_script_def case_prod_beta
    by (intro t_pbind [OF st_tag isd_pure] t_pbind [OF st_tag spans_pure] t_pbind [OF st_tag things_pure] t_pbind [OF st_tag n] t_mbind [OF st_tag]
        t_lbind [OF st_tag] stride t_option t_seq [OF st_tag] upd t_for [OF st_tag] thing t_if body t_fail) simp_all
qed

lemma t_visit_scope: "triple lay (\<lambda>w. tag_at w i = Some (4, 0)) (visit_scope m lay reg a i) (\<lambda>_ _. True)"
proof -
  let ?P = "\<lambda>w. tag_at w i = Some (4, 0)"
  have enc: "triple lay ?P (wbind (add m lay x k) (\<lambda>eid. wmodify (upd_scope (\<lambda>s. s\<lparr>sd_enclosing := Some eid\<rparr>)) i)) (\<lambda>_ _. True)" for x k
    by (rule t_bind [OF st_tag t_add], rule t_scope) auto
  have bnd: "triple lay ?P (wbind (add m lay x k) (\<lambda>nid. wmodify (upd_scope (\<lambda>s. s\<lparr>sd_bindings := sd_bindings s @ [(nid, v, e)]\<rparr>)) i)) (\<lambda>_ _. True)" for x k v e
    by (rule t_bind [OF st_tag t_add], rule t_scope) auto
  have slot: "triple lay ?P (wbind (read_value m lay reg bits) (\<lambda>vid. if vid = source_other then wret ()
      else wmodify (upd_scope (\<lambda>s. s\<lparr>sd_env_slot_values := sd_env_slot_values s @ [(slot, vid)]\<rparr>)) i)) (\<lambda>_ _. True)" for bits slot
    by (rule t_bind [OF st_tag t_value [OF st_tag]], intro t_if t_ret TrueI, rule t_scope) auto
  have nl: "triple lay ?P (wmodify (upd_scope (\<lambda>s. s\<lparr>sd_is_named_lambda := True\<rparr>)) i) (\<lambda>_ _. True)" by (rule t_scope) auto
  show ?thesis unfolding visit_scope_def case_prod_beta
    by (intro t_mbind [OF st_tag] t_seq [OF st_tag] t_if enc bnd slot nl t_ret t_option t_fail t_for [OF st_tag]) simp_all
qed

lemma t_visit_cell:
  assumes "walk_inv lay w" "cell_ok lay w c"
  shows "visit_cell m lay reg c w \<noteq> Some (Inl WPanic)" "visit_cell m lay reg c w = Some (Inr (x, w')) \<Longrightarrow> walk_inv lay w' \<and> ext w w'"
proof -
  obtain a k i where c: "c = (a, k, i)" by (cases c)
  have "\<exists>P. triple lay P (visit_cell m lay reg c) (\<lambda>_ _. True) \<and> P w"
    using assms(2) t_visit_object [of lay i m reg a] t_visit_script [of lay i a m reg] t_visit_scope [of lay i m reg a] t_ret [of "\<lambda>_. True" "\<lambda>_ _. True" "()" lay]
    unfolding c visit_cell_def cell_ok_def by (auto split: if_splits)
  then obtain P where P: "triple lay P (visit_cell m lay reg c) (\<lambda>_ _. True)" "P w" by blast
  from tripleD [OF P(1) assms(1) P(2)] show "visit_cell m lay reg c w \<noteq> Some (Inl WPanic)"
    "visit_cell m lay reg c w = Some (Inr (x, w')) \<Longrightarrow> walk_inv lay w' \<and> ext w w'" by blast+
qed

section \<open>Draining\<close>

text \<open>Taking a cell off the worklist makes the rest of the walk smaller; visiting it does not make it larger again.\<close>

lemma pop_ok:
  assumes "walk_inv lay w" "w_worklist w = c # rest"
  shows "walk_inv lay (w\<lparr>w_worklist := rest\<rparr>)" "cell_ok lay (w\<lparr>w_worklist := rest\<rparr>) c" "ext w (w\<lparr>w_worklist := rest\<rparr>)"
    "left_to_do (w\<lparr>w_worklist := rest\<rparr>) < left_to_do w"
proof -
  let ?w = "w\<lparr>w_worklist := rest\<rparr>"
  have tags: "tag_at ?w j = tag_at w j" for j by (simp add: tag_at_def)
  have cells: "cell_ok lay ?w x = cell_ok lay w x" for x by (simp add: cell_ok_def tags split: prod.split)
  have cl: "closed ?w = closed w" by (simp add: closed_def id_ok_def tags)
  show "walk_inv lay ?w" using assms unfolding walk_inv_def tags cells cl by simp
  show "cell_ok lay ?w c" unfolding cells using assms by (simp add: walk_inv_def)
  show "ext w ?w" "left_to_do ?w < left_to_do w" using assms(2) by (simp_all add: ext_def tags left_to_do_def)
qed

lemma drain_steps:
  assumes "walk_inv lay w"
  shows "drain m lay reg w \<noteq> Some (Inl WPanic) \<and> (\<forall>x w'. drain m lay reg w = Some (Inr (x, w')) \<longrightarrow> walk_inv lay w' \<and> ext w w') \<and>
    ((\<forall>c w. visit_cell m lay reg c w \<noteq> None) \<longrightarrow> drain m lay reg w \<noteq> None)"
  using assms
proof (induction "left_to_do w" arbitrary: w rule: less_induct)
  case less
  show ?case
  proof (cases "w_worklist w")
    case Nil
    then show ?thesis using less.prems unfolding drain_def by (subst (1 2 3) drain_with.simps) simp
  next
    case (Cons c rest)
    let ?w = "w\<lparr>w_worklist := rest\<rparr>"
    note pop = pop_ok [OF less.prems Cons]
    note v = t_visit_cell [OF pop(1,2), of m reg]
    have unfold: "drain m lay reg w = (case visit_cell m lay reg c ?w of None \<Rightarrow> None
       | Some r \<Rightarrow> (case r of Inl e \<Rightarrow> Some (Inl e) | Inr (_, w') \<Rightarrow> drain m lay reg w'))"
      unfolding drain_def by (subst drain_with.simps) (simp add: Cons)
    show ?thesis
    proof (cases "visit_cell m lay reg c ?w")
      case None
      then show ?thesis unfolding unfold by (cases c) auto
    next
      case (Some r)
      show ?thesis
      proof (cases r)
        case (Inl e)
        then show ?thesis unfolding unfold using Some v(1) by auto
      next
        case (Inr xw)
        then obtain x w' where w': "visit_cell m lay reg c ?w = Some (Inr (x, w'))" using Some by (cases xw) auto
        from v(2) [OF this] have "walk_inv lay w'" "ext ?w w'" by auto
        moreover from this pop(4) have "left_to_do w' < left_to_do w" by (simp add: ext_def)
        ultimately have "drain m lay reg w' \<noteq> Some (Inl WPanic) \<and> (\<forall>x w''. drain m lay reg w' = Some (Inr (x, w'')) \<longrightarrow> walk_inv lay w'' \<and> ext w' w'') \<and>
          ((\<forall>c w. visit_cell m lay reg c w \<noteq> None) \<longrightarrow> drain m lay reg w' \<noteq> None)" using less.hyps by blast
        then show ?thesis unfolding unfold w' using ext_trans [OF pop(3)] ext_trans [OF \<open>ext ?w w'\<close>] by auto
      qed
    qed
  qed
qed

lemma t_drain: "triple lay P (drain m lay reg) (\<lambda>_ _. True)"
  using drain_steps by (intro tripleI) blast+

section \<open>Every visit returns\<close>

definition total :: "'a wm \<Rightarrow> bool" where
  "total f = (\<forall>w. f w \<noteq> None)"

lemma total_intros:
  "total (wret x)" "total (wfail e)" "total (wmem y)" "total f \<Longrightarrow> (\<And>x. total (g x)) \<Longrightarrow> total (wbind f g)"
  "total h \<Longrightarrow> total h' \<Longrightarrow> total (wseq h h')" "(b \<Longrightarrow> total f) \<Longrightarrow> (\<not> b \<Longrightarrow> total f') \<Longrightarrow> total (if b then f else f')"
  "total (wput u)" "total (wget v)" "total (wpush obj)" "total (wmodify upd i)" "l \<noteq> None \<Longrightarrow> total (wloop l)"
  "total k \<Longrightarrow> (\<And>y. total (k' y)) \<Longrightarrow> total (case o' of None \<Rightarrow> k | Some y \<Rightarrow> k' y)"
proof -
  have bind: "total f \<Longrightarrow> (\<And>x. total (g x)) \<Longrightarrow> total (wbind f g)" for f :: "'x wm" and g :: "'x \<Rightarrow> 'y wm"
    unfolding total_def wbind_def by (auto split: option.splits sum.splits)
  show "total f \<Longrightarrow> (\<And>x. total (g x)) \<Longrightarrow> total (wbind f g)" by (rule bind)
  show "total h \<Longrightarrow> total h' \<Longrightarrow> total (wseq h h')" unfolding wseq_def by (rule bind)
  show "total (wmem y)" by (cases y) (simp_all add: wmem_def total_def wret_def wfail_def)
  show "total (wret x)" "total (wfail e)" "total (wput u)" "total (wget v)" by (simp_all add: total_def wret_def wfail_def wput_def wget_def)
  show "total (wpush obj)" using wpush_no_panic(2) by (simp add: total_def)
  show "total (wmodify upd i)" by (auto simp: total_def wmodify_def split: option.splits)
  show "l \<noteq> None \<Longrightarrow> total (wloop l)" by (auto simp: total_def wloop_def split: option.splits sum.splits)
  show "total k \<Longrightarrow> (\<And>y. total (k' y)) \<Longrightarrow> total (case o' of None \<Rightarrow> k | Some y \<Rightarrow> k' y)" by (cases o') simp_all
qed simp

lemma total_for: "(\<And>x. total (f x)) \<Longrightarrow> total (wfor xs f)"
  by (induction xs) (auto intro: total_intros)

lemma pure_total: "pure f \<Longrightarrow> total f"
  by (simp add: pure_def total_def)

lemma total_add: "total (add m lay a k)"
proof -
  have "total (add_new m lay a k)" using add_new_no_panic(2) by (simp add: total_def)
  then show ?thesis unfolding add_def by (intro total_intros)
qed

lemma total_value: "total (read_value m lay reg bits)"
  unfolding read_value_def Let_def by (intro total_intros total_add)

text \<open>A loop over a note table stops where the memory does: the offset comes round to an entry that cannot be read.\<close>

lemma stride_total:
  assumes "rd (off + of_nat k * step) = Inl e"
  shows "stride_loop rd step off b acc \<noteq> None"
  using assms
proof (induction k arbitrary: off acc)
  case 0
  then show ?case by (subst stride_loop.simps) simp
next
  case (Suc k)
  then have "rd (off + step + of_nat k * step) = Inl e" by (simp add: algebra_simps)
  from Suc.IH [OF this] show ?case by (subst stride_loop.simps) (simp split: sum.split)
qed

definition bounded_mem :: "mem \<Rightarrow> bool" where
  "bounded_mem m = (\<forall>a n. 2 ^ 32 - 16 < unat a + unat n \<longrightarrow> (\<exists>e. m a n = Inl e))"

lemma high_read:
  assumes "bounded_mem m" "2 ^ 32 - 16 \<le> unat a"
  shows "\<exists>e. read_u32 m a = Inl e"
proof -
  have "\<exists>e. m a 4 = Inl e" using assms unfolding bounded_mem_def by simp
  then show ?thesis by (auto simp: read_u32_def)
qed

lemma reaches_top:
  assumes "0 < s" "s \<le> 16"
  shows "\<exists>k. 2 ^ 32 - 16 \<le> unat (x + of_nat k * of_nat s :: u32)"
proof -
  let ?k = "(4294967295 - unat x) div s"
  have "unat x < 2 ^ LENGTH(32)" by (rule unsigned_less)
  then have x: "unat x \<le> 4294967295" by simp
  have k: "?k * s \<le> 4294967295 - unat x" "4294967295 - unat x < ?k * s + s"
    using assms(1) dividend_less_div_times [of s "4294967295 - unat x"] by simp_all
  have "x + of_nat ?k * of_nat s = of_nat (unat x + ?k * s)" by (simp add: of_nat_mult)
  moreover have "unat x + ?k * s \<le> 4294967295" using k(1) x by linarith
  then have "unat x + ?k * s < 2 ^ 32" by (rule le_less_trans) simp
  then have "unat (of_nat (unat x + ?k * s) :: u32) = unat x + ?k * s" by (rule unat_fresh)
  ultimately have "unat (x + of_nat ?k * of_nat s) = unat x + ?k * s" by simp
  moreover have "4294967280 \<le> unat x + ?k * s" using k(2) assms(2) x by linarith
  then have "2 ^ 32 - 16 \<le> unat x + ?k * s" by (rule order.trans [rotated]) simp
  ultimately show ?thesis by metis
qed

lemma strides_total:
  assumes "bounded_mem m"
  shows "stride_loop (read_resume m isd) 4 off b acc \<noteq> None" "stride_loop (read_try_note m isd) 16 off b acc' \<noteq> None"
    "stride_loop (read_scope_note m isd) 16 off b acc'' \<noteq> None"
proof -
  have e: "\<exists>e. read_resume m isd x = Inl e" "\<exists>e. read_try_note m isd x = Inl e" "\<exists>e. read_scope_note m isd x = Inl e" if "2 ^ 32 - 16 \<le> unat (isd + x)" for x
    using high_read [OF assms that] by (auto simp: read_resume_def read_try_note_def read_scope_note_def mem_err_def)
  have t4: "\<exists>k. 2 ^ 32 - 16 \<le> unat (isd + (off + of_nat k * 4))" using reaches_top [of 4 "isd + off"] by (simp add: add.assoc)
  have t16: "\<exists>k. 2 ^ 32 - 16 \<le> unat (isd + (off + of_nat k * 16))" using reaches_top [of 16 "isd + off"] by (simp add: add.assoc)
  from t4 e(1) show "stride_loop (read_resume m isd) 4 off b acc \<noteq> None" using stride_total by metis
  from t16 e(2) show "stride_loop (read_try_note m isd) 16 off b acc' \<noteq> None" using stride_total by metis
  from t16 e(3) show "stride_loop (read_scope_note m isd) 16 off b acc'' \<noteq> None" using stride_total by metis
qed

lemma total_visit_cell:
  assumes "bounded_mem m"
  shows "total (visit_cell m lay reg c)"
proof -
  note p = isd_pure [THEN pure_total] flags_pure [THEN pure_total] clasp_pure [THEN pure_total] spans_pure [THEN pure_total] things_pure [THEN pure_total]
  have h: "total (visit_heap_entry m lay reg a i clasp)" for a i clasp
    unfolding visit_heap_entry_def case_prod_beta by (intro total_intros total_for total_add total_value)
  have f: "total (visit_function m lay reg a i)" for a i
    unfolding visit_function_def Let_def by (intro total_intros p total_add)
  have "total (visit_object m lay reg a i)" for a i unfolding visit_object_def by (intro total_intros p f h)
  moreover have "total (visit_script m lay reg a i)" for a i
    unfolding visit_script_def case_prod_beta by (intro total_intros p total_for total_add strides_total [OF assms])
  moreover have "total (visit_scope m lay reg a i)" for a i
    unfolding visit_scope_def case_prod_beta by (intro total_intros total_for total_add total_value)
  ultimately show ?thesis unfolding visit_cell_def case_prod_beta by (intro total_intros) auto
qed

section \<open>The walk\<close>

lemma add_traced:
  assumes "walk_inv lay w" "traced lay k" "add m lay a k w = Some (Inr (i, w'))"
  shows "tag_at w' i \<noteq> None"
proof (cases "w_dedup w a")
  case None
  then obtain w1 where "add_new m lay a k w = Some (Inr (i, w1))" "w' = w1\<lparr>w_dedup := (w_dedup w1)(a \<mapsto> i)\<rparr>"
    using assms(2,3) by (auto simp: add_def wret_def wbind_def wget_def wput_def split: option.splits sum.splits)
  with add_new_grows(3) [OF assms(1,2) None] show ?thesis by simp
next
  case (Some j)
  then show ?thesis using assms unfolding walk_inv_def by (auto simp: add_def wret_def wbind_def wget_def)
qed

lemma t_add_traced: "traced lay k \<Longrightarrow> triple lay P (add m lay a k) (\<lambda>i w. tag_at w i \<noteq> None)"
  using tripleD [OF t_add [of lay "\<lambda>_. True" m a k]] add_traced by (intro tripleI) blast+

lemma st_some: "stable (\<lambda>w. tag_at w i \<noteq> None)" "stable (\<lambda>w. \<forall>i\<in>set is. tag_at w i \<noteq> None)"
  unfolding stable_def ext_def by (metis not_None_eq)+

lemma traced_kinds: "traced lay (kind_of lay ''traceKindScript'')" "traced lay (kind_of lay ''traceKindObject'')"
  by (auto simp: traced_def)

lemma t_roots: "stable P \<Longrightarrow> triple lay P (walk_roots m lay reg rs) (\<lambda>is w. length is = length rs \<and> (\<forall>i\<in>set is. tag_at w i \<noteq> None))"
proof (induction rs arbitrary: P)
  case Nil
  then show ?case by (simp add: t_ret)
next
  case (Cons r rs)
  have st: "stable (\<lambda>w. P w \<and> tag_at w i \<noteq> None)" for i using Cons.prems st_some(1) by (rule stable_intros(5))
  have "triple lay (\<lambda>w. P w \<and> tag_at w i \<noteq> None) (wbind (walk_roots m lay reg rs) (\<lambda>is. wret (i # is)))
      (\<lambda>is w. length is = length (r # rs) \<and> (\<forall>i\<in>set is. tag_at w i \<noteq> None))" for i
    by (rule t_bind [OF st Cons.IH [OF st]]) (auto intro!: t_ret)
  then show ?case unfolding walk_roots.simps
    by (intro t_bind [OF Cons.prems t_add_traced [OF traced_kinds(1)]] t_seq [OF st] t_drain)
qed

lemma set_global_ok:
  fixes i :: u32
  assumes "walk_inv lay w"
  defines "w' \<equiv> w\<lparr>w_source := (w_source w)\<lparr>global_object := Some i\<rparr>\<rparr>"
  shows "walk_inv lay w'" "ext w w'"
proof -
  have tags: "tag_at w' j = tag_at w j" for j by (simp add: w'_def tag_at_def source_object_def)
  have cells: "cell_ok lay w' x = cell_ok lay w x" for x by (simp add: cell_ok_def tags split: prod.split)
  have cl: "closed w' = closed w" by (simp add: closed_def id_ok_def tags) (simp add: w'_def)
  show "walk_inv lay w'" using assms unfolding walk_inv_def tags cells cl by (simp add: w'_def)
  show "ext w w'" by (simp add: ext_def tags) (simp add: w'_def left_to_do_def)
qed

lemma t_global: "stable P \<Longrightarrow> triple lay P (walk_global m lay reg) (\<lambda>_ _. True)"
proof -
  assume st: "stable P"
  have g: "triple lay Q (wput (\<lambda>w. w\<lparr>w_source := (w_source w)\<lparr>global_object := Some i\<rparr>\<rparr>)) (\<lambda>_ _. True)" for Q i
    using set_global_ok by (intro tripleI) (auto simp: wput_def)
  have st2: "stable (\<lambda>w. P w \<and> tag_at w i \<noteq> None)" for i using st st_some(1) by (rule stable_intros(5))
  show ?thesis unfolding walk_global_def
    by (intro t_if t_bind [OF st t_add_traced [OF traced_kinds(2)]] t_seq [OF st2] t_drain g t_ret TrueI)
qed

lemma start_inv: "walk_inv lay walker_start"
  by (simp add: walk_inv_def walker_start_def closed_def)

lemma t_walk:
  "triple lay (\<lambda>_. True) (wbind (walk_roots m lay reg rs) (\<lambda>ids. wbind (walk_global m lay reg) (\<lambda>_. wret ids)))
     (\<lambda>ids w. length ids = length rs \<and> (\<forall>i\<in>set ids. tag_at w i \<noteq> None))"
proof -
  have st: "stable (\<lambda>w. True \<and> length ids = n \<and> (\<forall>i\<in>set ids. tag_at w i \<noteq> None))" for ids :: "u32 list" and n
    by (intro stable_intros st_some)
  show ?thesis by (rule t_bind [OF stable_intros(1) t_roots [OF stable_intros(1)]], rule t_bind [OF st t_global [OF st]]) (auto intro!: t_ret)
qed

lemma walk_sound:
  assumes "walk g m reg = Some r"
  shows "r \<noteq> Inl WPanic \<and> (\<forall>out. r = Inr out \<longrightarrow>
    (\<forall>obj\<in>set (objects (out_source out)). \<forall>i\<in>refs obj. i = source_other \<or> unat i < length (objects (out_source out))) \<and>
    length (out_root_ids out) = length (reg_roots reg) \<and> (\<forall>i\<in>set (out_root_ids out). unat i < length (objects (out_source out))) \<and>
    (\<forall>i a. out_script_addr out i = Some a \<longrightarrow> (\<exists>s. source_object (out_source out) i = Some (SScript s) \<and> addr s = a)) \<and>
    (\<forall>i j a. out_script_addr out i = Some a \<longrightarrow> out_script_addr out j = Some a \<longrightarrow> i = j))"
proof -
  let ?lay = "layout_get g (reg_layout reg)"
  let ?f = "wbind (walk_roots m ?lay reg (reg_roots reg)) (\<lambda>ids. wbind (walk_global m ?lay reg) (\<lambda>_. wret ids))"
  note t = tripleD [OF t_walk [of ?lay m reg "reg_roots reg"] start_inv TrueI]
  have np: "r \<noteq> Inl WPanic" using assms t(1) by (auto simp: walk_def Let_def split: option.splits sum.splits)
  have "(\<forall>obj\<in>set (objects (out_source out)). \<forall>i\<in>refs obj. i = source_other \<or> unat i < length (objects (out_source out))) \<and>
    length (out_root_ids out) = length (reg_roots reg) \<and> (\<forall>i\<in>set (out_root_ids out). unat i < length (objects (out_source out))) \<and>
    (\<forall>i a. out_script_addr out i = Some a \<longrightarrow> (\<exists>s. source_object (out_source out) i = Some (SScript s) \<and> addr s = a)) \<and>
    (\<forall>i j a. out_script_addr out i = Some a \<longrightarrow> out_script_addr out j = Some a \<longrightarrow> i = j)" if out: "r = Inr out" for out
  proof -
    obtain ids w where f: "?f walker_start = Some (Inr (ids, w))"
      and o: "out = \<lparr>out_source = w_source w, out_root_ids = ids, out_script_addr = w_script_addr w, out_object_addr = w_object_addr w\<rparr>"
      using assms out by (auto simp: walk_def Let_def split: option.splits sum.splits)
    from t(2) [OF f] have w: "walk_inv ?lay w" "length ids = length (reg_roots reg)" "\<forall>i\<in>set ids. tag_at w i \<noteq> None" by auto
    have sc: "\<exists>s. source_object (w_source w) i = Some (SScript s) \<and> addr s = a" if "tag_at w i = Some (1, a)" for i a
      using that by (auto simp: tag_at_def elim!: tag_of.elims)
    show ?thesis
      using w sc unfolding o walk_inv_def closed_def id_ok_def tag_at_less by (auto simp: tag_at_less) (metis option.inject)
  qed
  with np show ?thesis by blast
qed

text \<open>C7. The walk never unwraps an object of the wrong class and never indexes past its arena, and what it returns is a
  closed graph: every reference in it is an id of the arena or the marker for an opaque cell, every root has an id,
  a script's recorded address is that script's own, and no two scripts share one.\<close>

theorem walk_returns_closed_graph:
  assumes "walk g m reg = Some r"
  shows "r \<noteq> Inl WPanic \<and> (\<forall>out. r = Inr out \<longrightarrow>
    (\<forall>obj\<in>set (objects (out_source out)). \<forall>i\<in>refs obj. i = source_other \<or> unat i < length (objects (out_source out))) \<and>
    length (out_root_ids out) = length (reg_roots reg) \<and> (\<forall>i\<in>set (out_root_ids out). unat i < length (objects (out_source out))) \<and>
    (\<forall>i a. out_script_addr out i = Some a \<longrightarrow> (\<exists>s. source_object (out_source out) i = Some (SScript s) \<and> addr s = a)) \<and>
    (\<forall>i j a. out_script_addr out i = Some a \<longrightarrow> out_script_addr out j = Some a \<longrightarrow> i = j))"
  by (rule walk_sound [OF assms])

text \<open>A script at address 4 whose only reachable cell is its body scope at 16, every layout offset being 0. A registration block
  with the script as its root follows at address 76, its layout descriptor at 172 and its digest at 204.\<close>

definition demo_g :: Generated where
  "demo_g = \<lparr>g_abi_version = 1, g_field_count = 5, g_field = (\<lambda>f. if f = ''traceKindScript'' then 1 else if f = ''traceKindScope'' then 2
     else if f = ''traceKindString'' then 3 else if f = ''traceKindObject'' then 4 else 0), g_region_count = 0\<rparr>"

definition demo_bytes :: "byte list" where
  "demo_bytes = [0, 0, 0, 0, 8, 0, 0, 0, 16, 0, 0, 0,
     0, 0, 0, 0, 0, 0, 0, 0, 0, 0, 0, 0, 0, 0, 0, 0,
     0, 0, 0, 0, 0, 0, 0, 0, 0, 0, 0, 0, 0, 0, 0, 0,
     0, 0, 0, 0, 0, 0, 0, 0, 0, 0, 0, 0, 0, 0, 0, 0,
     0, 0, 0, 0, 0, 0, 0, 0, 0, 0, 0, 0, 0, 0, 0, 0,
     1, 0, 0, 0, 172, 0, 0, 0, 0, 0, 0, 0, 0, 0, 0, 0, 1, 0, 0, 0,
     4, 0, 0, 0, 0, 0, 0, 0, 0, 0, 0, 0, 0, 0, 0, 0, 0, 0, 0, 0, 0, 0, 0, 0, 0, 0, 0, 0, 0, 0, 0, 0,
     204, 0, 0, 0, 40, 0, 0, 0, 0, 0, 0, 0, 0, 0, 0, 0,
     0, 0, 0, 0, 0, 0, 0, 0, 0, 0, 0, 0, 0, 0, 0, 0, 0, 0, 0, 0, 0, 0, 0, 0, 0, 0, 0, 0,
     1, 0, 0, 0, 0, 0, 0, 0, 5, 0, 0, 0, 0, 0, 0, 0, 1, 0, 0, 0, 2, 0, 0, 0, 3, 0, 0, 0, 4, 0, 0, 0,
     1, 0, 0, 0, 4, 0, 0, 0, 16, 0, 0, 0, 255, 255, 255, 255, 255, 255, 255, 255, 255, 255, 255, 255, 255, 255, 255, 255, 1, 0, 0, 0, 16, 0, 0, 0, 0, 0, 0, 0]"

definition demo_reg :: Registration where
  "demo_reg = \<lparr>reg_addr = 76, reg_flags = 0, reg_roots = [4], reg_layout = \<lparr>lay_fields = [0, 1, 2, 3, 4]\<rparr>,
     reg_digest = \<lparr>script_gcthing_kinds = [4 \<mapsto> [0xff, 0xff, 0xff, 0xff, 0xff, 0xff, 0xff, 0xff, 0xff, 0xff, 0xff, 0xff, 0xff, 0xff, 0xff, 0xff]], scope_bindings = [16 \<mapsto> []]\<rparr>,
     reg_compiled = 0, reg_selfhosted = [], reg_regex_programs = [], reg_heap = Map.empty, reg_global_object = 0, reg_env_slots = Map.empty\<rparr>"

lemma demo_words:
  "read_u32 (live_mem demo_bytes) 4 = Inr 8" "read_u32 (live_mem demo_bytes) 8 = Inr 16"
  "\<forall>n\<in>set [12, 16, 20, 24, 28, 32, 36, 40, 44, 48, 52, 56, 60, 64, 68]. read_u32 (live_mem demo_bytes) n = Inr 0"
  "read_u8 (live_mem demo_bytes) 15 = Inr 0" "read_u8 (live_mem demo_bytes) 16 = Inr 0" "live_mem demo_bytes 16 0 = Inr []"
  by (simp_all add: read_u32_def read_u8_def live_mem_def demo_bytes_def slice_def from_le_def Let_def)

definition demo_lay :: lay where
  "demo_lay = layout_get demo_g (reg_layout demo_reg)"

lemma demo_layout [simp]:
  "demo_lay ''traceKindScript'' = 1" "demo_lay ''traceKindScope'' = 2" "demo_lay ''traceKindString'' = 3" "demo_lay ''traceKindObject'' = 4"
  "demo_lay f = (if f = ''traceKindScript'' then 1 else if f = ''traceKindScope'' then 2
     else if f = ''traceKindString'' then 3 else if f = ''traceKindObject'' then 4 else 0)"
  by (simp_all add: demo_lay_def layout_get_def demo_g_def demo_reg_def)

lemmas demo_step = wbind_def wmem_def wret_def wfail_def wseq_def wput_def wget_def wpush_def source_push_def demo_words kind_of_def

lemma demo_reg_sel [simp]:
  "reg_roots demo_reg = [4]" "reg_global_object demo_reg = 0" "reg_env_slots demo_reg = Map.empty"
  "script_gcthing_kinds (reg_digest demo_reg) = [4 \<mapsto> [0xff, 0xff, 0xff, 0xff, 0xff, 0xff, 0xff, 0xff, 0xff, 0xff, 0xff, 0xff, 0xff, 0xff, 0xff, 0xff]]" "scope_bindings (reg_digest demo_reg) = [16 \<mapsto> []]"
  by (simp_all add: demo_reg_def)

definition demo_script :: Script where
  "demo_script = \<lparr>bytecode = [], addr = 4, gcthings = [], resume_offsets = [], try_notes = [], scope_notes = [], body_scope = None,
     nargs = 0, is_generator_or_async = False, is_class_ctor = False, strict = False, has_mapped_args = False\<rparr>"

definition demo_state :: "(u32 \<times> u8 \<times> u32) list \<Rightarrow> Walker" where
  "demo_state wl = \<lparr>w_source = \<lparr>objects = [SScript demo_script], global_object = None, selfhosted = [], regex_programs = []\<rparr>,
     w_dedup = [4 \<mapsto> 0], w_worklist = wl, w_script_addr = [0 \<mapsto> 4], w_object_addr = Map.empty\<rparr>"

lemma demo_add: "add (live_mem demo_bytes) demo_lay 4 (kind_of demo_lay ''traceKindScript'') walker_start = Some (Inr (0, demo_state [(4, 1, 0)]))"
  by (simp add: add_def traced_def add_new_def read_script_def isd_of_def fun_flags_and_argc_def walker_start_def demo_state_def demo_script_def demo_step)

lemma thing_words_numeral: "thing_words m lay base (numeral k) = wbind (wmem (read_u32 m base)) (\<lambda>word.
   wbind (thing_words m lay (base + 4) (pred_numeral k)) (\<lambda>ws. wret ((word AND NOT (lay ''gcCellPtrKindMask'')) # ws)))"
  by (simp add: numeral_eq_Suc)

lemma demo_things: "thing_words (live_mem demo_bytes) demo_lay 8 16 w = Some (Inr ([16, 0, 0, 0, 0, 0, 0, 0, 0, 0, 0, 0, 0, 0, 0, 0], w))"
  by (simp add: thing_words_numeral demo_step)

definition demo_like :: "Registration \<Rightarrow> bool" where
  "demo_like reg = (reg_digest reg = reg_digest demo_reg \<and> reg_env_slots reg = Map.empty)"

lemma demo_visit_script:
  "demo_like reg \<Longrightarrow> \<exists>w sd. visit_cell (live_mem demo_bytes) demo_lay reg (4, 1, 0) (demo_state []) = Some (Inr ((), w)) \<and>
     w_worklist w = [(16, 2, 1)] \<and> length (objects (w_source w)) = 2 \<and> objects (w_source w) ! 1 = SScope sd \<and>
     w_dedup w 4 = Some 0 \<and> w_script_addr w = [0 \<mapsto> 4]"
  by (simp add: visit_cell_def visit_script_def isd_optional_spans_def isd_of_def Let_def stride_loop.simps demo_things demo_step
    wloop_def wmodify_def demo_state_def source_object_def add_def traced_def add_new_def read_scope_shallow_def demo_like_def)

lemma demo_visit_scope:
  assumes "demo_like reg" "length (objects (w_source w)) = 2" "objects (w_source w) ! 1 = SScope sd"
  shows "\<exists>w'. visit_cell (live_mem demo_bytes) demo_lay reg (16, 2, 1) w = Some (Inr ((), w')) \<and>
    w_worklist w' = w_worklist w \<and> length (objects (w_source w')) = 2 \<and> w_dedup w' = w_dedup w \<and> w_script_addr w' = w_script_addr w"
  using assms by (simp add: visit_cell_def visit_scope_def demo_step wmodify_def source_object_def demo_like_def)

lemma drain_pop:
  assumes "w_worklist w = c # rest" "visit_cell m lay reg c (w\<lparr>w_worklist := rest\<rparr>) = Some (Inr ((), w'))"
  shows "drain m lay reg w = drain m lay reg w'"
  unfolding drain_def by (subst drain_with.simps) (simp add: assms)

lemma demo_drain:
  assumes "demo_like reg"
  shows "\<exists>w. drain (live_mem demo_bytes) demo_lay reg (demo_state [(4, 1, 0)]) = Some (Inr ((), w)) \<and> length (objects (w_source w)) = 2 \<and>
    w_worklist w = [] \<and> w_dedup w 4 = Some 0 \<and> w_script_addr w = [0 \<mapsto> 4]"
proof -
  let ?drain = "drain (live_mem demo_bytes) demo_lay reg" and ?visit = "visit_cell (live_mem demo_bytes) demo_lay reg"
  obtain w sd where w: "?visit (4, 1, 0) (demo_state []) = Some (Inr ((), w))"
    "w_worklist w = [(16, 2, 1)]" "length (objects (w_source w)) = 2" "objects (w_source w) ! 1 = SScope sd"
    "w_dedup w 4 = Some 0" "w_script_addr w = [0 \<mapsto> 4]"
    using demo_visit_script [OF assms] by blast
  have "?drain (demo_state [(4, 1, 0)]) = ?drain w"
    by (rule drain_pop [of _ "(4, 1, 0)" "[]"]) (simp_all add: demo_state_def w(1) [unfolded demo_state_def])
  moreover obtain w' where w': "?visit (16, 2, 1) (w\<lparr>w_worklist := []\<rparr>) = Some (Inr ((), w'))" "w_worklist w' = []" "length (objects (w_source w')) = 2"
    "w_dedup w' 4 = Some 0" "w_script_addr w' = [0 \<mapsto> 4]"
    using demo_visit_scope [OF assms, of "w\<lparr>w_worklist := []\<rparr>" sd] w(3,4,5,6) by auto
  moreover have "?drain w = ?drain w'" by (rule drain_pop [OF w(2) w'(1)])
  moreover have "?drain w' = Some (Inr ((), w'))" unfolding drain_def by (subst drain_with.simps) (simp add: w'(2))
  ultimately show ?thesis by simp
qed

lemma demo_walk:
  "\<exists>out. walk demo_g (live_mem demo_bytes) demo_reg = Some (Inr out) \<and> out_root_ids out = [0] \<and> length (objects (out_source out)) = 2"
  using demo_drain [of demo_reg]
  by (auto simp: demo_like_def walk_def Let_def demo_lay_def [symmetric] demo_add walk_global_def wbind_def wseq_def wret_def)

text \<open>\<open>walk_returns_closed_graph\<close> on that memory: the walk returns two objects, whose references are ids of the arena.\<close>

theorem walk_returns_closed_graph_witness:
  "\<exists>out. walk demo_g (live_mem demo_bytes) demo_reg = Some (Inr out) \<and> length (objects (out_source out)) = 2 \<and>
     (\<forall>obj\<in>set (objects (out_source out)). \<forall>i\<in>refs obj. i = source_other \<or> unat i < 2)"
proof -
  obtain out where out: "walk demo_g (live_mem demo_bytes) demo_reg = Some (Inr out)" "length (objects (out_source out)) = 2"
    using demo_walk by blast
  from walk_returns_closed_graph [OF out(1)] out show ?thesis by auto
qed

section \<open>Termination of the walk\<close>

definition returns :: "lay \<Rightarrow> 'a wm \<Rightarrow> bool" where
  "returns lay f = (\<forall>w. walk_inv lay w \<longrightarrow> f w \<noteq> None)"

lemma total_returns: "total f \<Longrightarrow> returns lay f"
  by (simp add: total_def returns_def)

lemma returns_bind:
  assumes "returns lay f" "triple lay (\<lambda>_. True) f Q" "\<And>x. returns lay (g x)"
  shows "returns lay (wbind f g)"
  unfolding returns_def
proof (intro allI impI)
  fix w assume w: "walk_inv lay w"
  note t = tripleD(2) [OF assms(2) w TrueI]
  from assms(1) w obtain r where r: "f w = Some r" unfolding returns_def by blast
  show "wbind f g w \<noteq> None"
  proof (cases r)
    case (Inr xw)
    then obtain x w' where xw: "f w = Some (Inr (x, w'))" using r by (cases xw) auto
    with t [OF xw] assms(3) [of x] show ?thesis by (simp add: wbind_def returns_def)
  qed (simp add: wbind_def r)
qed

lemma returns_drain: "bounded_mem m \<Longrightarrow> returns lay (drain m lay reg)"
  using total_visit_cell drain_steps unfolding returns_def total_def by blast

lemma returns_roots: "bounded_mem m \<Longrightarrow> returns lay (walk_roots m lay reg rs)"
proof (induction rs)
  case Nil
  then show ?case by (simp add: returns_def wret_def)
next
  case (Cons r rs)
  have "returns lay (wbind (walk_roots m lay reg rs) (\<lambda>is. wret (i # is)))" for i
    by (rule returns_bind [OF Cons.IH [OF Cons.prems] t_roots]) (auto intro: total_returns total_intros)
  then show ?case unfolding walk_roots.simps wseq_def
    by (intro returns_bind [OF total_returns [OF total_add] t_add] returns_bind [OF returns_drain [OF Cons.prems] t_drain])
qed

lemma returns_global:
  assumes "bounded_mem m"
  shows "returns lay (walk_global m lay reg)"
proof -
  have "returns lay (wseq (drain m lay reg) f)" if "total f" for f :: "unit wm"
    unfolding wseq_def using that by (intro returns_bind [OF returns_drain [OF assms] t_drain] total_returns)
  then have "returns lay (wbind (add m lay a k) (\<lambda>i. wseq (drain m lay reg) (if i \<noteq> source_other then wput (h i) else wret ())))" for a k h
    by (intro returns_bind [OF total_returns [OF total_add] t_add]) (simp add: total_intros)
  moreover have "returns lay (wret ())" by (simp add: total_returns total_intros)
  ultimately show ?thesis unfolding walk_global_def by (cases "reg_global_object reg = 0") (simp_all del: fun_upd_apply)
qed

lemma walk_total:
  assumes "bounded_mem m"
  shows "\<exists>r. walk g m reg = Some r"
proof -
  let ?lay = "layout_get g (reg_layout reg)"
  have "returns ?lay (wbind (walk_global m ?lay reg) (\<lambda>_. wret ids))" for ids :: "u32 list"
    by (rule returns_bind [OF returns_global [OF assms] t_global [OF stable_intros(1)]]) (auto intro: total_returns total_intros)
  then have "returns ?lay (wbind (walk_roots m ?lay reg (reg_roots reg)) (\<lambda>ids. wbind (walk_global m ?lay reg) (\<lambda>_. wret ids)))"
    by (rule returns_bind [OF returns_roots [OF assms] t_roots [OF stable_intros(1)]])
  then show ?thesis using start_inv unfolding returns_def walk_def Let_def by (auto split: option.split sum.split)
qed

lemma short_bounded:
  assumes "length bytes \<le> 2 ^ 32 - 16"
  shows "bounded_mem (slice_mem bytes)" "bounded_mem (live_mem bytes)"
  using assms by (auto simp: bounded_mem_def slice_mem_def live_mem_def Let_def)

text \<open>C6. The walk ends: on every snapshot image and every live memory short of the last sixteen bytes of the address space,
  whatever the registration says, it returns a graph or an error. Each address is visited once, and each loop
  over a note table ends at the top of the memory at the latest, although its offset may wrap.\<close>

theorem walk_terminates:
  assumes "length bytes \<le> 2 ^ 32 - 16"
  shows "(\<exists>r. walk g (slice_mem bytes) reg = Some r) \<and> (\<exists>r. walk g (live_mem bytes) reg = Some r)"
  using walk_total short_bounded [OF assms] by blast

text \<open>\<open>walk_terminates\<close> on the memory of the example.\<close>

theorem walk_terminates_witness:
  "length demo_bytes \<le> 2 ^ 32 - 16 \<and> (\<exists>r. walk demo_g (slice_mem demo_bytes) demo_reg = Some r)"
  using walk_terminates [of demo_bytes demo_g demo_reg] by (simp add: demo_bytes_def)

end
