(* ===== verification/Live_Walk.thy ===== *)
theory Live_Walk
  imports Walker_Inv
begin

text \<open>
  The in-process walk of the running instance's own heap, \<^verbatim>\<open>snapshot/src/ffi.rs\<close>: it reads the registration block from live
  memory, adds the extra roots of the caller, walks, and keeps the graph behind a handle the C side queries.
  A failure is a null handle (\<open>Inr None\<close>); an index or a slice out of range is the error \<open>WPanic\<close>; \<open>None\<close> is a call that never returns.
  The shell is a wasm32 module, so the positions of the table readers are 32-bit. Running out of memory is not modelled.
\<close>

section \<open>The handle\<close>

record LiveWalk =
  lw_source :: Source
  lw_root :: u32
  lw_extra_roots :: "u32 list"
  lw_script_addr :: "u32 \<rightharpoonup> u32"

definition live_run :: "Generated \<Rightarrow> byte list \<Rightarrow> u32 \<Rightarrow> u32 list \<Rightarrow> (WErr + LiveWalk) option" where
  "live_run g bytes base extras = (case registration_read USIZE_WASM g (live_mem bytes) base of
     Inl e \<Rightarrow> Some (Inl (if e = SlicePanic then WPanic else MemErr e))
   | Inr reg \<Rightarrow> (case walk g (live_mem bytes) (reg\<lparr>reg_roots := reg_roots reg @ extras\<rparr>) of
       None \<Rightarrow> None
     | Some (Inl e) \<Rightarrow> Some (Inl e)
     | Some (Inr out) \<Rightarrow> (case out_root_ids out of
         [] \<Rightarrow> Some (Inl WPanic)
       | root # _ \<Rightarrow>
           if length (out_root_ids out) < length (reg_roots reg) then Some (Inl WPanic)
           else Some (Inr \<lparr>lw_source = out_source out, lw_root = root, lw_extra_roots = drop (length (reg_roots reg)) (out_root_ids out),
             lw_script_addr = out_script_addr out\<rparr>))))"

definition night_snapshot_walk_live :: "Generated \<Rightarrow> byte list \<Rightarrow> u32 \<Rightarrow> u32 list \<Rightarrow> (WErr + LiveWalk option) option" where
  "night_snapshot_walk_live g bytes base extras = (case live_run g bytes base extras of
     None \<Rightarrow> None
   | Some (Inr w) \<Rightarrow> Some (Inr (Some w))
   | Some (Inl e) \<Rightarrow> if e = WPanic then Some (Inl WPanic) else Some (Inr None))"

definition night_snapshot_walk_source :: "LiveWalk \<Rightarrow> Source" where
  "night_snapshot_walk_source w = lw_source w"

definition night_snapshot_walk_root :: "LiveWalk \<Rightarrow> u32" where
  "night_snapshot_walk_root w = lw_root w"

definition night_snapshot_walk_extra_root :: "LiveWalk \<Rightarrow> u32 \<Rightarrow> u32" where
  "night_snapshot_walk_extra_root w i = (if unat i < length (lw_extra_roots w) then lw_extra_roots w ! unat i else 0)"

definition night_snapshot_walk_script_addr :: "LiveWalk \<Rightarrow> u32 \<Rightarrow> u32" where
  "night_snapshot_walk_script_addr w source_id = (case lw_script_addr w source_id of Some a \<Rightarrow> a | None \<Rightarrow> 0)"

section \<open>The roots of a registration\<close>

lemma read_words_length: "read_words m a n = Inr ws \<Longrightarrow> length ws = n"
  by (induction n arbitrary: a ws) (auto simp: ebind_Inr)

lemma registration_roots:
  assumes "registration_read usz g m a = Inr reg"
  shows "reg_roots reg \<noteq> []"
proof -
  have "\<exists>n :: u32. n \<noteq> 0 \<and> read_words m (a + OFF_ROOTS) (unat n) = Inr (reg_roots reg)"
    using assms unfolding registration_read_def by (auto simp: ebind_Inr split: if_splits prod.splits)
  then obtain n :: u32 where "n \<noteq> 0" "length (reg_roots reg) = unat n" using read_words_length by blast
  then show ?thesis using unat_eq_zero [of n] by auto
qed

text \<open>What the run returns, on every memory on which the walk ends.\<close>

lemma live_run_ok:
  assumes "bounded_mem (live_mem bytes)"
  shows "\<exists>r. live_run g bytes a extras = Some r \<and>
    (r = Inl WPanic \<longleftrightarrow> registration_read USIZE_WASM g (live_mem bytes) a = Inl SlicePanic) \<and> (\<forall>w. r = Inr w \<longrightarrow>
    unat (lw_root w) < length (objects (lw_source w)) \<and> length (lw_extra_roots w) = length extras \<and>
    (\<forall>i\<in>set (lw_extra_roots w). unat i < length (objects (lw_source w))) \<and>
    (\<forall>i a. lw_script_addr w i = Some a \<longrightarrow> (\<exists>s. source_object (lw_source w) i = Some (SScript s) \<and> addr s = a)))"
proof (cases "registration_read USIZE_WASM g (live_mem bytes) a")
  case (Inl e)
  then show ?thesis by (simp add: live_run_def)
next
  case (Inr reg)
  let ?reg = "reg\<lparr>reg_roots := reg_roots reg @ extras\<rparr>"
  obtain r where r: "walk g (live_mem bytes) ?reg = Some r" using walk_total [OF assms] by blast
  note ok = walk_sound [OF r]
  show ?thesis
  proof (cases r)
    case (Inl e)
    then show ?thesis using ok r Inr by (simp add: live_run_def)
  next
    case out: (Inr out)
    have ids: "length (out_root_ids out) = length (reg_roots reg) + length extras"
      "\<forall>i\<in>set (out_root_ids out). unat i < length (objects (out_source out))" using ok out by simp_all
    from registration_roots [OF Inr] ids(1) obtain x xs where x: "out_root_ids out = x # xs" by (cases "out_root_ids out") auto
    have "unat x < length (objects (out_source out))" using ids(2) x by simp
    moreover have "\<forall>i\<in>set (drop (length (reg_roots reg)) (out_root_ids out)). unat i < length (objects (out_source out))"
      using ids(2) by (meson in_set_dropD)
    ultimately show ?thesis using r out Inr ids x ok by (simp add: live_run_def)
  qed
qed

section \<open>The handle is safe to query\<close>


section \<open>A handle\<close>

text \<open>The block of the example memory reads as the registration \<open>demo_reg\<close>.\<close>

lemma demo_block_words:
  "map (read_u32 (live_mem demo_bytes)) [76, 80, 88, 92, 96, 128, 132, 136, 144, 148, 152, 156, 160, 164, 168] =
   map Inr [1, 172, 0, 1, 4, 204, 40, 0, 0, 0, 0, 0, 0, 0, 0]"
  "map (read_u32 (live_mem demo_bytes)) [172, 180, 184, 188, 192, 196, 200] = map Inr [1, 5, 0, 1, 2, 3, 4]"
  by (simp_all add: read_u32_def live_mem_def demo_bytes_def slice_def from_le_def Let_def)

lemma read_words_numeral: "read_words m a (numeral k) = ebind (read_u32 m a) (\<lambda>w. ebind (read_words m (a + 4) (pred_numeral k)) (\<lambda>ws. Inr (w # ws)))"
  by (simp add: numeral_eq_Suc)

lemma demo_layout_read: "layout_read demo_g (live_mem demo_bytes) 172 = Inr (reg_layout demo_reg)"
  using demo_block_words(2) by (simp add: layout_read_def demo_g_def demo_reg_def read_words_numeral)

lemma demo_digest_read: "digest_parse USIZE_WASM (live_mem demo_bytes) 204 40 = Inr (reg_digest demo_reg)"
proof -
  let ?kinds = "[(4, [0xff, 0xff, 0xff, 0xff, 0xff, 0xff, 0xff, 0xff, 0xff, 0xff, 0xff, 0xff, 0xff, 0xff, 0xff, 0xff])] :: (u32 \<times> byte list) list" and ?scopes = "[(16, [])] :: (u32 \<times> DigestBinding list) list"
  have l: "length (enc_digest ?kinds ?scopes) = unat (40 :: u32)"
    by (simp add: enc_digest_def enc_list_def enc_script_kinds_def enc_scope_bindings_def padded_length align4_def)
  have "live_mem demo_bytes 204 40 = Inr (enc_digest ?kinds ?scopes)"
    by (simp add: live_mem_def demo_bytes_def slice_def Let_def enc_digest_def enc_list_def enc_len_def enc_script_kinds_def enc_scope_bindings_def
      padded_def align4_def to_le_def upt_rec)
  from digest_parses [of USIZE_WASM "live_mem demo_bytes", OF _ this l] show ?thesis
    by (simp add: list_ok_def demo_reg_def)
qed

lemma demo_registration: "registration_read USIZE_WASM demo_g (live_mem demo_bytes) 76 = Inr demo_reg"
  using demo_block_words(1) demo_layout_read demo_digest_read
  by (simp add: registration_read_def parse_selfhosted_def parse_regex_programs_def parse_heap_def demo_reg_def demo_g_def
    OFF_ABI_def OFF_NUM_ROOTS_def OFF_ROOTS_def OFF_LAYOUT_def OFF_DIGEST_LEN_def OFF_DIGEST_def OFF_SELFHOSTED_def OFF_SELFHOSTED_LEN_def
    OFF_REGEX_PROGRAMS_def OFF_REGEX_PROGRAMS_LEN_def OFF_REGION_TABLE_def OFF_HEAP_OBJECTS_def OFF_HEAP_OBJECTS_LEN_def OFF_GLOBAL_OBJECT_def
    OFF_FLAGS_def OFF_COMPILED_def OFF_TOOL_VERSION_def MAX_ROOTS_def)

text \<open>With the root passed again as an extra root, the walk visits the script once and serves both.\<close>

lemma demo_live_walk:
  "\<exists>w. night_snapshot_walk_live demo_g demo_bytes 76 [4] = Some (Inr (Some w)) \<and> lw_root w = 0 \<and> lw_extra_roots w = [0] \<and>
     length (objects (lw_source w)) = 2 \<and> lw_script_addr w = [0 \<mapsto> 4]"
proof -
  let ?reg = "demo_reg\<lparr>reg_roots := [4, 4]\<rparr>" and ?m = "live_mem demo_bytes"
  have like: "demo_like ?reg" by (simp add: demo_like_def)
  obtain w where w: "drain ?m demo_lay ?reg (demo_state [(4, 1, 0)]) = Some (Inr ((), w))" "length (objects (w_source w)) = 2"
    "w_worklist w = []" "w_dedup w 4 = Some 0" "w_script_addr w = [0 \<mapsto> 4]"
    using demo_drain [OF like] by blast
  have again: "add ?m demo_lay 4 (kind_of demo_lay ''traceKindScript'') w = Some (Inr (0, w))"
    by (simp add: add_def traced_def demo_step w(4))
  have "drain ?m demo_lay ?reg w = Some (Inr ((), w))" unfolding drain_def by (subst drain_with.simps) (simp add: w(3))
  then have "walk demo_g ?m ?reg = Some (Inr \<lparr>out_source = w_source w, out_root_ids = [0, 0], out_script_addr = w_script_addr w,
      out_object_addr = w_object_addr w\<rparr>)"
    using demo_add w(1) again by (simp add: walk_def Let_def demo_lay_def [symmetric] walk_global_def wbind_def wseq_def wret_def)
  then show ?thesis using w(2,5) by (simp add: night_snapshot_walk_live_def live_run_def demo_registration)
qed


end
