(* ===== verification/Builtins.thy ===== *)
theory Builtins
  imports Types
begin

unbundle bit_operations_syntax

text \<open>
  What the analysis knows of the JavaScript builtins, \<^verbatim>\<open>compiler/src/likelier/builtins.rs\<close>: the result masks of named
  natives, their heap effect, the synthetic namespaces, the constructor names, and the table that mints
  callable ids for natives. A Rust literal is a \<open>string\<close> here and is compared with a UTF-16 name through its encoding.
\<close>

section \<open>Names\<close>

datatype NativeKind = Bare | StringMethod | NumberMethod

definition lit :: "string \<Rightarrow> rust_str" where
  "lit s = map of_char s"

definition name_eq :: "u16 list \<Rightarrow> string \<Rightarrow> bool" where
  "name_eq name s = (name = encode_utf16 (lit s))"

definition any_name :: "string list \<Rightarrow> u16 list \<Rightarrow> bool" where
  "any_name names name = list_ex (name_eq name) names"

fun lookup :: "(string \<times> prims) list \<Rightarrow> u16 list \<Rightarrow> prims option" where
  "lookup [] name = None"
| "lookup ((n, m) # table) name = (if name_eq name n then Some m else lookup table name)"

section \<open>Result masks\<close>

definition NUM_RESULT :: prims where
  "NUM_RESULT = prims_or PRIM_INT32 PRIM_DOUBLE"

definition NATIVE_RESULTS :: "(string \<times> prims) list" where
  "NATIVE_RESULTS = [
     (''abs'', NUM_RESULT), (''floor'', NUM_RESULT), (''ceil'', NUM_RESULT), (''round'', NUM_RESULT), (''trunc'', NUM_RESULT),
     (''sqrt'', NUM_RESULT), (''cbrt'', NUM_RESULT), (''pow'', NUM_RESULT), (''exp'', NUM_RESULT), (''expm1'', NUM_RESULT), (''log'', NUM_RESULT),
     (''log2'', NUM_RESULT), (''log10'', NUM_RESULT), (''log1p'', NUM_RESULT), (''sin'', NUM_RESULT), (''cos'', NUM_RESULT), (''tan'', NUM_RESULT),
     (''asin'', NUM_RESULT), (''acos'', NUM_RESULT), (''atan'', NUM_RESULT), (''atan2'', NUM_RESULT), (''sinh'', NUM_RESULT), (''cosh'', NUM_RESULT),
     (''tanh'', NUM_RESULT), (''asinh'', NUM_RESULT), (''acosh'', NUM_RESULT), (''atanh'', NUM_RESULT), (''min'', NUM_RESULT), (''max'', NUM_RESULT),
     (''random'', NUM_RESULT), (''sign'', NUM_RESULT), (''fround'', NUM_RESULT), (''hypot'', NUM_RESULT), (''imul'', PRIM_INT32),
     (''clz32'', PRIM_INT32), (''Substring'', PRIM_STRING), (''ToString'', PRIM_STRING), (''IsObject'', PRIM_BOOLEAN), (''ToLength'', NUM_RESULT),
     (''ToInteger'', NUM_RESULT), (''Number_isNaN'', PRIM_BOOLEAN), (''UnsafeGetStringFromReservedSlot'', PRIM_STRING),
     (''UnsafeGetInt32FromReservedSlot'', PRIM_INT32), (''RegExpSearcher'', PRIM_INT32), (''RegExpSearcherLastLimit'', PRIM_INT32),
     (''RegExpHasCaptureGroups'', PRIM_BOOLEAN), (''RegExpGetSubstitution'', PRIM_STRING), (''IsOptimizableRegExpObject'', PRIM_BOOLEAN),
     (''SubstringKernel'', PRIM_STRING), (''IsCallable'', PRIM_BOOLEAN), (''AdvanceStringIndex'', NUM_RESULT),
     (''ThrowIncompatibleMethod'', PRIM_UNDEFINED), (''ThrowTypeError'', PRIM_UNDEFINED), (''print'', PRIM_UNDEFINED), (''parseInt'', NUM_RESULT),
     (''parseFloat'', NUM_RESULT), (''isNaN'', PRIM_BOOLEAN), (''isFinite'', PRIM_BOOLEAN), (''isInteger'', PRIM_BOOLEAN),
     (''isSafeInteger'', PRIM_BOOLEAN), (''Number'', NUM_RESULT), (''String'', PRIM_STRING), (''Boolean'', PRIM_BOOLEAN), (''Symbol'', PRIM_SYMBOL),
     (''for'', PRIM_SYMBOL), (''Date'', PRIM_STRING), (''escape'', PRIM_STRING), (''unescape'', PRIM_STRING), (''encodeURI'', PRIM_STRING),
     (''decodeURI'', PRIM_STRING), (''encodeURIComponent'', PRIM_STRING), (''decodeURIComponent'', PRIM_STRING), (''charAt'', PRIM_STRING),
     (''charCodeAt'', NUM_RESULT), (''codePointAt'', prims_or NUM_RESULT PRIM_UNDEFINED), (''fromCharCode'', PRIM_STRING),
     (''fromCodePoint'', PRIM_STRING), (''indexOf'', NUM_RESULT), (''lastIndexOf'', NUM_RESULT), (''search'', NUM_RESULT),
     (''includes'', PRIM_BOOLEAN), (''startsWith'', PRIM_BOOLEAN), (''endsWith'', PRIM_BOOLEAN), (''localeCompare'', NUM_RESULT),
     (''substring'', PRIM_STRING), (''substr'', PRIM_STRING), (''toLowerCase'', PRIM_STRING), (''toUpperCase'', PRIM_STRING),
     (''toLocaleLowerCase'', PRIM_STRING), (''toLocaleUpperCase'', PRIM_STRING), (''trim'', PRIM_STRING), (''trimStart'', PRIM_STRING),
     (''trimEnd'', PRIM_STRING), (''repeat'', PRIM_STRING), (''padStart'', PRIM_STRING), (''padEnd'', PRIM_STRING), (''normalize'', PRIM_STRING),
     (''replace'', PRIM_STRING), (''replaceAll'', PRIM_STRING), (''join'', PRIM_STRING), (''every'', PRIM_BOOLEAN), (''some'', PRIM_BOOLEAN),
     (''toFixed'', PRIM_STRING), (''toPrecision'', PRIM_STRING), (''toExponential'', PRIM_STRING), (''toString'', PRIM_STRING),
     (''toLocaleString'', PRIM_STRING), (''hasOwnProperty'', PRIM_BOOLEAN), (''isPrototypeOf'', PRIM_BOOLEAN),
     (''propertyIsEnumerable'', PRIM_BOOLEAN), (''is'', PRIM_BOOLEAN), (''isArray'', PRIM_BOOLEAN), (''isFrozen'', PRIM_BOOLEAN),
     (''isSealed'', PRIM_BOOLEAN), (''isExtensible'', PRIM_BOOLEAN), (''test'', PRIM_BOOLEAN), (''stringify'', prims_or PRIM_STRING PRIM_UNDEFINED),
     (''now'', NUM_RESULT), (''UTC'', NUM_RESULT), (''getTime'', NUM_RESULT), (''getFullYear'', NUM_RESULT), (''getMonth'', NUM_RESULT),
     (''getDate'', NUM_RESULT), (''getDay'', NUM_RESULT), (''getHours'', NUM_RESULT), (''getMinutes'', NUM_RESULT), (''getSeconds'', NUM_RESULT),
     (''getMilliseconds'', NUM_RESULT), (''getTimezoneOffset'', NUM_RESULT), (''getYear'', NUM_RESULT), (''getUTCFullYear'', NUM_RESULT),
     (''getUTCMonth'', NUM_RESULT), (''getUTCDate'', NUM_RESULT), (''getUTCDay'', NUM_RESULT), (''getUTCHours'', NUM_RESULT),
     (''getUTCMinutes'', NUM_RESULT), (''getUTCSeconds'', NUM_RESULT), (''getUTCMilliseconds'', NUM_RESULT), (''setTime'', NUM_RESULT),
     (''setFullYear'', NUM_RESULT), (''setMonth'', NUM_RESULT), (''setDate'', NUM_RESULT), (''setHours'', NUM_RESULT), (''setMinutes'', NUM_RESULT),
     (''setSeconds'', NUM_RESULT), (''setMilliseconds'', NUM_RESULT), (''setYear'', NUM_RESULT), (''toDateString'', PRIM_STRING),
     (''toTimeString'', PRIM_STRING), (''toISOString'', PRIM_STRING), (''toUTCString'', PRIM_STRING), (''toGMTString'', PRIM_STRING),
     (''toLocaleDateString'', PRIM_STRING), (''toLocaleTimeString'', PRIM_STRING), (''toSource'', PRIM_STRING), (''trimLeft'', PRIM_STRING),
     (''trimRight'', PRIM_STRING), (''isWellFormed'', PRIM_BOOLEAN), (''toWellFormed'', PRIM_STRING)]"

definition STRING_METHOD_RESULTS :: "(string \<times> prims) list" where
  "STRING_METHOD_RESULTS = [
     (''slice'', PRIM_STRING), (''concat'', PRIM_STRING), (''at'', prims_or PRIM_STRING PRIM_UNDEFINED), (''valueOf'', PRIM_STRING)]"

definition NUMBER_METHOD_RESULTS :: "(string \<times> prims) list" where
  "NUMBER_METHOD_RESULTS = [(''valueOf'', NUM_RESULT)]"

definition integral_native :: "u16 list \<Rightarrow> bool" where
  "integral_native = any_name [''floor'', ''ceil'', ''round'', ''trunc'', ''parseInt'']"

definition integral_preserving_native :: "u16 list \<Rightarrow> bool" where
  "integral_preserving_native = any_name [''pow'', ''abs'', ''min'', ''max'']"

definition native_result_for :: "NativeKind \<Rightarrow> u16 list \<Rightarrow> prims option" where
  "native_result_for kind name =
     (let overlay = (case kind of StringMethod \<Rightarrow> lookup STRING_METHOD_RESULTS name
        | NumberMethod \<Rightarrow> lookup NUMBER_METHOD_RESULTS name | Bare \<Rightarrow> None)
      in case overlay of Some m \<Rightarrow> Some m | None \<Rightarrow> lookup NATIVE_RESULTS name)"

section \<open>Effects\<close>

datatype NativeEffect = Pure | Elems | Top

definition ELEMS :: "string list" where
  "ELEMS = [
     ''push'', ''pop'', ''shift'', ''unshift'', ''fill'', ''copyWithin'', ''splice'', ''reverse'']"

definition PURE :: "string list" where
  "PURE = [
     ''Error'', ''TypeError'', ''RangeError'', ''ReferenceError'', ''SyntaxError'', ''EvalError'', ''URIError'', ''RegExp'', ''ArrayBuffer'',
     ''create'', ''keys'', ''values'', ''entries'', ''freeze'', ''seal'', ''getPrototypeOf'', ''getOwnPropertyNames'', ''getOwnPropertyDescriptor'',
     ''%ToObject'', ''%RegExpMatcher'', ''%StringSplitString'', ''%GuardToSetObject'', ''%GuardToMapObject'']"

definition native_effect :: "NativeKind \<Rightarrow> u16 list \<Rightarrow> bool \<Rightarrow> NativeEffect" where
  "native_effect kind name has_result =
     (if any_name ELEMS name then Elems
      else if has_result \<or> native_result_for kind name \<noteq> None \<or> any_name PURE name then Pure
      else Top)"

section \<open>Methods of primitive receivers\<close>

definition STRING_PROTO_NAMES :: "string list" where
  "STRING_PROTO_NAMES = [
     ''charAt'', ''charCodeAt'', ''codePointAt'', ''indexOf'', ''lastIndexOf'', ''search'', ''includes'', ''startsWith'', ''endsWith'',
     ''localeCompare'', ''substring'', ''substr'', ''toLowerCase'', ''toUpperCase'', ''toLocaleLowerCase'', ''toLocaleUpperCase'', ''trim'',
     ''trimStart'', ''trimEnd'', ''trimLeft'', ''trimRight'', ''repeat'', ''padStart'', ''padEnd'', ''normalize'', ''replace'', ''replaceAll'',
     ''toString'', ''isWellFormed'', ''toWellFormed'']"

definition NUMBER_PROTO_NAMES :: "string list" where
  "NUMBER_PROTO_NAMES = [
     ''toFixed'', ''toPrecision'', ''toExponential'', ''toString'', ''toLocaleString'']"

definition prim_method :: "NativeKind \<Rightarrow> u16 list \<Rightarrow> bool" where
  "prim_method kind name = (native_result_for kind name \<noteq> None \<and> (case kind of
     StringMethod \<Rightarrow> lookup STRING_METHOD_RESULTS name \<noteq> None \<or> any_name STRING_PROTO_NAMES name
   | NumberMethod \<Rightarrow> lookup NUMBER_METHOD_RESULTS name \<noteq> None \<or> any_name NUMBER_PROTO_NAMES name
   | Bare \<Rightarrow> False))"

section \<open>Namespaces\<close>

record NsSpec =
  ns_global :: string
  ns_ctor :: bool
  ns_methods :: "string list"
  ns_consts :: "(string \<times> prims) list"

definition NAMESPACES :: "NsSpec list" where
  "NAMESPACES = [
    \<lparr>ns_global = ''Math'', ns_ctor = False,
      ns_methods = [''abs'', ''floor'', ''ceil'', ''round'', ''trunc'', ''sqrt'', ''cbrt'', ''pow'', ''exp'', ''expm1'', ''log'', ''log2'', ''log10'', ''log1p'',
        ''sin'', ''cos'', ''tan'', ''asin'', ''acos'', ''atan'', ''atan2'', ''sinh'', ''cosh'', ''tanh'', ''asinh'', ''acosh'', ''atanh'', ''min'',
        ''max'', ''random'', ''sign'', ''fround'', ''hypot'', ''imul'', ''clz32''],
      ns_consts = map (\<lambda>c. (c, PRIM_DOUBLE)) [''E'', ''LN10'', ''LN2'', ''LOG10E'', ''LOG2E'', ''PI'', ''SQRT1_2'', ''SQRT2'']\<rparr>,
    \<lparr>ns_global = ''JSON'', ns_ctor = False,
      ns_methods = [''stringify''],
      ns_consts = []\<rparr>,
    \<lparr>ns_global = ''String'', ns_ctor = True,
      ns_methods = [''fromCharCode'', ''fromCodePoint''],
      ns_consts = []\<rparr>,
    \<lparr>ns_global = ''Number'', ns_ctor = True,
      ns_methods = [''isInteger'', ''isNaN'', ''isFinite'', ''isSafeInteger'', ''parseInt'', ''parseFloat''],
      ns_consts = map (\<lambda>c. (c, PRIM_DOUBLE)) [''POSITIVE_INFINITY'', ''NEGATIVE_INFINITY'', ''MAX_VALUE'', ''MIN_VALUE'', ''MAX_SAFE_INTEGER'', ''MIN_SAFE_INTEGER'', ''EPSILON'', ''NaN'']\<rparr>,
    \<lparr>ns_global = ''Boolean'', ns_ctor = True,
      ns_methods = [],
      ns_consts = []\<rparr>,
    \<lparr>ns_global = ''Symbol'', ns_ctor = True,
      ns_methods = [''for''],
      ns_consts = []\<rparr>,
    \<lparr>ns_global = ''Date'', ns_ctor = True,
      ns_methods = [''now'', ''UTC''],
      ns_consts = []\<rparr>,
    \<lparr>ns_global = ''performance'', ns_ctor = False,
      ns_methods = [''now''],
      ns_consts = []\<rparr>,
    \<lparr>ns_global = ''Object'', ns_ctor = True,
      ns_methods = [''defineProperty'', ''create'', ''keys'', ''values'', ''entries'', ''assign'', ''freeze'', ''seal'', ''getPrototypeOf'',
        ''getOwnPropertyNames'', ''getOwnPropertyDescriptor''],
      ns_consts = []\<rparr>]"

section \<open>Native ids\<close>

record NativeInfo =
  ni_kind :: NativeKind
  ni_name :: NameId
  ni_result :: "prims option"

record Natives =
  nat_by_index :: "NativeInfo list"
  nat_ids :: "NativeKind \<times> NameId \<rightharpoonup> FnId"

definition natives_default :: Natives where
  "natives_default = \<lparr>nat_by_index = [], nat_ids = Map.empty\<rparr>"

text \<open>\<open>None\<close> is the panic of \<open>u32::try_from\<close>.\<close>

definition natives_intern :: "Natives \<Rightarrow> NativeKind \<Rightarrow> NameId \<Rightarrow> u16 list \<Rightarrow> (Natives \<times> FnId) option" where
  "natives_intern nv kind name chars = (case nat_ids nv (kind, name) of
     Some f \<Rightarrow> Some (nv, f)
   | None \<Rightarrow>
       (let n = length (nat_by_index nv)
        in if n < 2 ^ 32 then
             (let f = fn_native (of_nat n)
              in Some (nv\<lparr>nat_by_index := nat_by_index nv @ [\<lparr>ni_kind = kind, ni_name = name, ni_result = native_result_for kind chars\<rparr>],
                   nat_ids := (nat_ids nv)((kind, name) \<mapsto> f)\<rparr>, f))
           else None))"

definition natives_get :: "Natives \<Rightarrow> FnId \<Rightarrow> NativeInfo option" where
  "natives_get nv f = (case native_index f of
     None \<Rightarrow> None
   | Some i \<Rightarrow> if unat i < length (nat_by_index nv) then Some (nat_by_index nv ! unat i) else None)"

section \<open>Constructors and inline arms\<close>

definition TA_CTOR_NAMES :: "(string \<times> TaKind) list" where
  "TA_CTOR_NAMES = [
     (''Int8Array'', Int8), (''Uint8Array'', Uint8), (''Uint8ClampedArray'', Uint8Clamped), (''Int16Array'', Int16),
     (''Uint16Array'', Uint16), (''Int32Array'', Int32), (''Uint32Array'', Uint32), (''Float32Array'', Float32),
     (''Float64Array'', Float64)]"

definition ta_kind_for_ctor_name :: "u16 list \<Rightarrow> TaKind option" where
  "ta_kind_for_ctor_name name = map_option snd (find (\<lambda>(s, _). name_eq name s) TA_CTOR_NAMES)"

definition is_array_ctor_name :: "u16 list \<Rightarrow> bool" where
  "is_array_ctor_name name = name_eq name ''Array''"

definition ARMED :: "string list" where
  "ARMED = [
     ''max'', ''min'', ''pow'', ''sqrt'', ''abs'', ''floor'', ''ceil'', ''trunc'', ''fround'', ''imul'', ''clz32'', ''sin'', ''cos'', ''parseInt'']"

definition has_translator_arm :: "u16 list \<Rightarrow> bool" where
  "has_translator_arm = any_name ARMED"

section \<open>Literals\<close>

lemma encode_ascii: "encode_utf16 (lit s) = map of_char s"
proof -
  have "encode_char (of_char c) = [of_char c]" for c :: char
    using less_trans [OF nat_of_char_less_256 [of c], of 65536] by (simp add: of_nat_of_char)
  then show ?thesis by (induction s) (simp_all add: encode_utf16_def lit_def)
qed

lemma of_char_u16_inj: "(of_char c :: u16) = of_char d \<longleftrightarrow> c = d"
proof
  assume "(of_char c :: u16) = of_char d"
  then have "(of_nat (of_char c) :: u16) = of_nat (of_char d)" by (simp add: of_nat_of_char)
  then have "(of_char c :: nat) mod 2 ^ 16 = of_char d mod 2 ^ 16"
    by (simp add: word_of_nat_eq_iff take_bit_eq_mod)
  moreover have "(of_char c :: nat) < 2 ^ 16" "(of_char d :: nat) < 2 ^ 16"
    using less_trans [OF nat_of_char_less_256, of 65536] by simp_all
  ultimately show "c = d" by simp
qed simp

lemma name_eq_literal: "name_eq (encode_utf16 (lit s)) t \<longleftrightarrow> s = t"
  by (auto simp: name_eq_def encode_ascii inj_map_eq_map inj_def of_char_u16_inj)

lemma any_name_literal: "any_name names (encode_utf16 (lit s)) \<longleftrightarrow> s \<in> set names"
  by (auto simp: any_name_def list_ex_iff name_eq_literal)

lemma lookup_literal: "lookup table (encode_utf16 (lit s)) = map_of table s"
  by (induction table) (auto simp: name_eq_literal)

lemma lookup_Some: "lookup table name = Some m \<Longrightarrow> \<exists>s. name = encode_utf16 (lit s) \<and> (s, m) \<in> set table"
  by (induction table name rule: lookup.induct) (auto simp: name_eq_def split: if_splits)

lemma any_nameD: "any_name names name \<Longrightarrow> \<exists>s\<in>set names. name = encode_utf16 (lit s)"
  by (auto simp: any_name_def list_ex_iff name_eq_def)

section \<open>The tables agree\<close>

text \<open>The result of a literal name, and the checks on the literal tables, on strings.\<close>

definition result_of :: "NativeKind \<Rightarrow> string \<Rightarrow> prims option" where
  "result_of kind s = (case (case kind of StringMethod \<Rightarrow> map_of STRING_METHOD_RESULTS s
     | NumberMethod \<Rightarrow> map_of NUMBER_METHOD_RESULTS s | Bare \<Rightarrow> None) of Some m \<Rightarrow> Some m | None \<Rightarrow> map_of NATIVE_RESULTS s)"

lemma native_result_literal: "native_result_for kind (encode_utf16 (lit s)) = result_of kind s"
  by (simp add: native_result_for_def result_of_def lookup_literal Let_def split: NativeKind.split option.split)

lemma armed_numeric: "list_all (\<lambda>s. result_of Bare s \<in> {Some NUM_RESULT, Some PRIM_INT32}) ARMED"
  by code_simp

lemma elems_unmodelled: "list_all (\<lambda>s. result_of Bare s = None \<and> s \<notin> set PURE) ELEMS"
  by code_simp

lemma proto_modelled: "list_all (\<lambda>s. result_of Bare s \<noteq> None) (STRING_PROTO_NAMES @ NUMBER_PROTO_NAMES)"
  by code_simp

lemma integral_numeric:
  "list_all (\<lambda>s. result_of Bare s = Some NUM_RESULT) [''floor'', ''ceil'', ''round'', ''trunc'', ''parseInt'', ''pow'', ''abs'', ''min'', ''max'']"
  by code_simp

lemma namespaces_modelled:
  "list_all (\<lambda>ns. ns_global ns = ''Object'' \<or> (list_all (\<lambda>s. result_of Bare s \<noteq> None) (ns_methods ns) \<and>
     (ns_ctor ns \<longrightarrow> result_of Bare (ns_global ns) \<noteq> None))) NAMESPACES"
  by code_simp

text \<open>A name a table lists is the literal; the effect of a modelled name that is no element mutator.\<close>

lemma listed:
  assumes "any_name names name" "list_all P names"
  shows "\<exists>s\<in>set names. name = encode_utf16 (lit s) \<and> P s"
  using any_nameD [OF assms(1)] assms(2) by (auto simp: list_all_iff)

lemma modelled_pure:
  assumes "result_of Bare s \<noteq> None"
  shows "native_effect Bare (encode_utf16 (lit s)) has_result = Pure"
proof -
  have "s \<notin> set ELEMS" using elems_unmodelled assms by (auto simp: list_all_iff)
  then show ?thesis using assms by (simp add: native_effect_def any_name_literal native_result_literal)
qed

text \<open>The builtin tables agree with each other: a native with an inline arm, and one that keeps integers integral, returns
  a number and writes nothing; an element mutator is classified as one whatever else is known of it and carries no result
  mask; a method the prototype tables name has a result; and every member of a namespace other than \<open>Object\<close>,
  with the namespace itself where it is callable, is a modelled native without heap writes.\<close>

theorem builtin_tables_agree:
  "(has_translator_arm name \<longrightarrow> native_result_for Bare name \<in> {Some NUM_RESULT, Some PRIM_INT32} \<and> native_effect Bare name b = Pure) \<and>
   (integral_native name \<or> integral_preserving_native name \<longrightarrow>
      native_result_for Bare name = Some NUM_RESULT \<and> native_effect Bare name b = Pure) \<and>
   (any_name ELEMS name \<longrightarrow> native_effect kind name b = Elems \<and> native_result_for Bare name = None) \<and>
   (any_name STRING_PROTO_NAMES name \<longrightarrow> prim_method StringMethod name) \<and>
   (any_name NUMBER_PROTO_NAMES name \<longrightarrow> prim_method NumberMethod name) \<and>
   (\<forall>ns\<in>set NAMESPACES. ns_global ns \<noteq> ''Object'' \<longrightarrow> (\<forall>m\<in>set (ns_methods ns) \<union> (if ns_ctor ns then {ns_global ns} else {}).
      native_result_for Bare (encode_utf16 (lit m)) \<noteq> None \<and> native_effect Bare (encode_utf16 (lit m)) b = Pure))"
proof (intro conjI impI ballI)
  assume "has_translator_arm name"
  then obtain s where "name = encode_utf16 (lit s)" "result_of Bare s \<in> {Some NUM_RESULT, Some PRIM_INT32}"
    using listed [OF _ armed_numeric] unfolding has_translator_arm_def by blast
  then show "native_result_for Bare name \<in> {Some NUM_RESULT, Some PRIM_INT32}" "native_effect Bare name b = Pure"
    using modelled_pure [of s] by (auto simp: native_result_literal)
next
  assume "integral_native name \<or> integral_preserving_native name"
  then have "any_name [''floor'', ''ceil'', ''round'', ''trunc'', ''parseInt'', ''pow'', ''abs'', ''min'', ''max''] name"
    by (auto simp: integral_native_def integral_preserving_native_def any_name_def)
  from listed [OF this integral_numeric] obtain s where "name = encode_utf16 (lit s)" "result_of Bare s = Some NUM_RESULT" by blast
  then show "native_result_for Bare name = Some NUM_RESULT" "native_effect Bare name b = Pure"
    using modelled_pure [of s] by (auto simp: native_result_literal)
next
  assume *: "any_name ELEMS name"
  then show "native_effect kind name b = Elems" by (simp add: native_effect_def)
  from listed [OF * elems_unmodelled] show "native_result_for Bare name = None" by (auto simp: native_result_literal)
next
  have pm: "native_result_for kind' name \<noteq> None" if "any_name names name" "set names \<subseteq> set (STRING_PROTO_NAMES @ NUMBER_PROTO_NAMES)" for names kind'
  proof -
    from any_nameD [OF that(1)] that(2) proto_modelled obtain s where s: "name = encode_utf16 (lit s)" "result_of Bare s \<noteq> None"
      by (auto simp: list_all_iff)
    then show ?thesis by (auto simp: native_result_literal result_of_def split: NativeKind.split option.split)
  qed
  show "prim_method StringMethod name" if "any_name STRING_PROTO_NAMES name" using that pm [OF that] by (simp add: prim_method_def)
  show "prim_method NumberMethod name" if "any_name NUMBER_PROTO_NAMES name" using that pm [OF that] by (simp add: prim_method_def)
next
  fix ns m assume "ns \<in> set NAMESPACES" "ns_global ns \<noteq> ''Object''" "m \<in> set (ns_methods ns) \<union> (if ns_ctor ns then {ns_global ns} else {})"
  then have "result_of Bare m \<noteq> None" using namespaces_modelled by (auto simp: list_all_iff split: if_splits)
  then show "native_result_for Bare (encode_utf16 (lit m)) \<noteq> None" "native_effect Bare (encode_utf16 (lit m)) b = Pure"
    using modelled_pure by (simp_all add: native_result_literal)
qed

text \<open>\<open>builtin_tables_agree\<close> at \<open>sqrt\<close>.\<close>

theorem builtin_tables_agree_witness:
  "has_translator_arm (encode_utf16 (lit ''sqrt'')) \<and> native_effect Bare (encode_utf16 (lit ''sqrt'')) False = Pure"
proof -
  have "has_translator_arm (encode_utf16 (lit ''sqrt''))" unfolding has_translator_arm_def any_name_literal by (simp add: ARMED_def)
  then show ?thesis using builtin_tables_agree [of "encode_utf16 (lit ''sqrt'')" False Bare] by blast
qed

section \<open>The native table\<close>

text \<open>The number of callable ids between the natives' base and the \<open>Array\<close> constructor.\<close>

definition natives_ok :: "Natives \<Rightarrow> bool" where
  "natives_ok nv = (length (nat_by_index nv) \<le> unat (FN_ARRAY - NATIVE_BASE) \<and>
     (\<forall>k n f. nat_ids nv (k, n) = Some f \<longleftrightarrow>
        (\<exists>i<length (nat_by_index nv). f = fn_native (of_nat i) \<and> ni_kind (nat_by_index nv ! i) = k \<and> ni_name (nat_by_index nv ! i) = n)))"

lemma natives_default_ok: "natives_ok natives_default"
  by (simp add: natives_ok_def natives_default_def)

lemma native_room: "unat (FN_ARRAY - NATIVE_BASE) = 4032"
  by (simp add: FN_ARRAY_def NATIVE_BASE_def)

lemma fn_native_index:
  assumes "i < 4032"
  shows "native_index (fn_native (of_nat i)) = Some (of_nat i)" "unat (of_nat i :: u32) = i"
proof -
  show u: "unat (of_nat i :: u32) = i" using assms by (simp add: unsigned_of_nat take_bit_nat_eq_self)
  have "(of_nat i :: u32) < 4032" using assms u by (simp add: word_less_nat_alt)
  then show "native_index (fn_native (of_nat i)) = Some (of_nat i)"
    using fn_native_range by (simp add: native_index_def)
qed

lemma natives_get_at: "i < 4032 \<Longrightarrow> i < length (nat_by_index nv) \<Longrightarrow> natives_get nv (fn_native (of_nat i)) = Some (nat_by_index nv ! i)"
  by (simp add: natives_get_def fn_native_index)

lemma natives_ids_inj:
  assumes "natives_ok nv" "nat_ids nv p = Some f" "nat_ids nv q = Some f"
  shows "p = q"
proof -
  obtain k n k' n' where pq: "p = (k, n)" "q = (k', n')" by (cases p, cases q)
  from assms obtain i j where ij: "i < length (nat_by_index nv)" "j < length (nat_by_index nv)" "f = fn_native (of_nat i)" "f = fn_native (of_nat j)"
    "ni_kind (nat_by_index nv ! i) = k" "ni_name (nat_by_index nv ! i) = n" "ni_kind (nat_by_index nv ! j) = k'" "ni_name (nat_by_index nv ! j) = n'"
    unfolding natives_ok_def pq by blast
  moreover have "length (nat_by_index nv) \<le> 4032" using assms(1) by (simp add: natives_ok_def native_room)
  ultimately have "i = j" using fn_native_index [of i] fn_native_index [of j] by (metis less_le_trans option.inject)
  with ij pq show ?thesis by simp
qed

lemma natives_push_ok:
  assumes "natives_ok nv" "length (nat_by_index nv) < 4032" "nat_ids nv (ni_kind info, ni_name info) = None"
  shows "natives_ok (nv\<lparr>nat_by_index := nat_by_index nv @ [info],
    nat_ids := (nat_ids nv)((ni_kind info, ni_name info) \<mapsto> fn_native (of_nat (length (nat_by_index nv))))\<rparr>)"
proof -
  have old: "nat_ids nv (k, n) = Some f \<longleftrightarrow>
      (\<exists>i<length (nat_by_index nv). f = fn_native (of_nat i) \<and> ni_kind (nat_by_index nv ! i) = k \<and> ni_name (nat_by_index nv ! i) = n)" for k n f
    using assms(1) by (simp add: natives_ok_def)
  have fresh: "\<not> (ni_kind (nat_by_index nv ! i) = ni_kind info \<and> ni_name (nat_by_index nv ! i) = ni_name info)" if "i < length (nat_by_index nv)" for i
    using old [of "ni_kind info" "ni_name info" "fn_native (of_nat i)"] that assms(3) by auto
  show ?thesis unfolding natives_ok_def native_room using assms(2) old fresh by (auto simp: nth_append less_Suc_eq)
qed

text \<open>C28. A native gets one id per kind and name: interning keeps the table consistent while the id space lasts, returns an id that
  names its kind and name and, for a new native, its specified result, leaves every other id as it was, and two natives
  share an id only if they are the same.\<close>

theorem natives_intern_correct:
  assumes "natives_ok nv" "length (nat_by_index nv) < unat (FN_ARRAY - NATIVE_BASE)"
  shows "\<exists>nv' f. natives_intern nv kind name chars = Some (nv', f) \<and> natives_ok nv' \<and> nat_ids nv' (kind, name) = Some f \<and>
    (\<exists>info. natives_get nv' f = Some info \<and> ni_kind info = kind \<and> ni_name info = name \<and>
       (nat_ids nv (kind, name) = None \<longrightarrow> ni_result info = native_result_for kind chars)) \<and>
    (\<forall>g info. natives_get nv g = Some info \<longrightarrow> natives_get nv' g = Some info) \<and>
    (\<forall>p q. nat_ids nv' p = Some f \<longrightarrow> nat_ids nv' q = Some f \<longrightarrow> p = q)"
proof (cases "nat_ids nv (kind, name)")
  case (Some f)
  then obtain i where i: "i < length (nat_by_index nv)" "f = fn_native (of_nat i)" "ni_kind (nat_by_index nv ! i) = kind" "ni_name (nat_by_index nv ! i) = name"
    using assms(1) unfolding natives_ok_def by blast
  have "i < 4032" using i(1) assms(2) by (simp add: native_room)
  then have "natives_get nv f = Some (nat_by_index nv ! i)" using i natives_get_at by simp
  then show ?thesis using Some i assms(1)
    by (simp only: natives_intern_def option.case, intro exI [of _ nv] exI [of _ f] conjI allI impI)
      (use natives_ids_inj [OF assms(1)] in \<open>auto simp del: split_paired_All\<close>)
next
  case None
  let ?n = "length (nat_by_index nv)" and ?info = "\<lparr>ni_kind = kind, ni_name = name, ni_result = native_result_for kind chars\<rparr>"
  let ?f = "fn_native (of_nat ?n)"
  let ?nv = "nv\<lparr>nat_by_index := nat_by_index nv @ [?info], nat_ids := (nat_ids nv)((kind, name) \<mapsto> ?f)\<rparr>"
  have n: "?n < 4032" using assms(2) by (simp add: native_room)
  have step: "natives_intern nv kind name chars = Some (?nv, ?f)" using None n by (simp add: natives_intern_def Let_def)
  have ok: "natives_ok ?nv" using natives_push_ok [OF assms(1) n, of ?info] None by simp
  have keep: "natives_get ?nv g = Some info" if "natives_get nv g = Some info" for g info
    using that by (auto simp: natives_get_def nth_append split: option.splits if_splits)
  have new: "natives_get ?nv ?f = Some ?info" using natives_get_at [of ?n ?nv] n by simp
  have id: "nat_ids ?nv (kind, name) = Some ?f" by simp
  have info: "\<exists>info. natives_get ?nv ?f = Some info \<and> ni_kind info = kind \<and> ni_name info = name \<and>
      (nat_ids nv (kind, name) = None \<longrightarrow> ni_result info = native_result_for kind chars)" using new by simp
  have inj: "\<forall>p q. nat_ids ?nv p = Some ?f \<longrightarrow> nat_ids ?nv q = Some ?f \<longrightarrow> p = q" using natives_ids_inj [OF ok] by blast
  have "\<forall>g info. natives_get nv g = Some info \<longrightarrow> natives_get ?nv g = Some info" using keep by blast
  with step ok id info inj show ?thesis by (intro exI [of _ ?nv] exI [of _ ?f]) (intro conjI)
qed

text \<open>\<open>natives_intern_correct\<close> on the empty table.\<close>

theorem natives_intern_correct_witness:
  "natives_ok natives_default \<and> (\<exists>nv f. natives_intern natives_default Bare 7 (encode_utf16 (lit ''sqrt'')) = Some (nv, f) \<and>
     nat_ids nv (Bare, 7) = Some f \<and> (\<exists>info. natives_get nv f = Some info \<and> ni_name info = 7))"
  using natives_intern_correct [of natives_default Bare 7 "encode_utf16 (lit ''sqrt'')"] natives_default_ok
  by (force simp: native_room natives_default_def)

end
