(* ===== verification/Script_Effects.thy ===== *)
theory Script_Effects
  imports Engine Builtins Source
begin

text \<open>
  Per-script effect summaries, \<^verbatim>\<open>compiler/src/likelier/effects.rs\<close>: the walk over a script's ops that classifies each one,
  the fold of its call edges over the solved tables, and the transitive fixpoint over the call graph. The solved
  tables are the record \<open>Solved\<close>. A label says why a summary saturated; the pc and the callee's origin that
  the code appends to some labels are left out with the stack of origins that only feeds them, since labels are no part
  of a summary's equality. \<open>None\<close> is a panic, or, for the loop, a run that never ends. Vectors used as stacks have their top at the head.
\<close>

definition FIELD_CAP :: nat where "FIELD_CAP = 16"
definition GNAME_CAP :: nat where "GNAME_CAP = 8"

section \<open>The local walk\<close>

datatype FieldRecv = Cls ClassId | This | Unknown

record LocalEffects =
  le_sum :: EffectSummary
  le_field_writes :: "(FieldRecv \<times> NameId) list"
  le_calls :: "Site list"
  le_accessor_reads :: "Site list"

definition local_default :: LocalEffects where
  "local_default = \<lparr>le_sum = eff_default, le_field_writes = [], le_calls = [], le_accessor_reads = []\<rparr>"

text \<open>What the walk reads: the script and its id, the object graph, and three tables of the solver.\<close>

record WalkEnv =
  we_sid :: ScriptId
  we_script :: Script
  we_source :: Source
  we_recv_class :: "Site \<rightharpoonup> ClassId Agreed"
  we_this_writes :: "Site set"
  we_accessor_names :: "NameId set"

record EffectWalk =
  ew_names :: Names
  ew_cur_pc :: Pc
  ew_out :: LocalEffects

definition saturate_local :: "EffectWalk \<Rightarrow> string \<Rightarrow> EffectWalk" where
  "saturate_local w why = w\<lparr>ew_out := (ew_out w)\<lparr>le_sum := eff_saturate (le_sum (ew_out w)) why\<rparr>\<rparr>"

definition atom_id :: "WalkEnv \<Rightarrow> Names \<Rightarrow> u32 \<Rightarrow> (Names \<times> NameId option) option" where
  "atom_id env nm index =
     (if unat index < length (gcthings (we_script env)) then
        (let gc = gcthings (we_script env) ! unat index
         in if is_other gc then Some (nm, None)
            else case source_object (we_source env) gc of
              None \<Rightarrow> None
            | Some (SString s) \<Rightarrow> map_option (\<lambda>(nm, i). (nm, Some i)) (names_intern nm s)
            | Some _ \<Rightarrow> Some (nm, None))
      else Some (nm, None))"

definition site_here :: "WalkEnv \<Rightarrow> EffectWalk \<Rightarrow> Site" where
  "site_here env w = site_from_raw (we_sid env) (ew_cur_pc w)"

definition recv_at :: "WalkEnv \<Rightarrow> Site \<Rightarrow> FieldRecv" where
  "recv_at env site = (case Option.bind (we_recv_class env site) agreed_get of
     Some c \<Rightarrow> Cls c
   | None \<Rightarrow> if site \<in> we_this_writes env then This else Unknown)"

definition prop_write :: "WalkEnv \<Rightarrow> u32 \<Rightarrow> EffectWalk \<Rightarrow> EffectWalk option" where
  "prop_write env name_index w =
     (if eff_top (le_sum (ew_out w)) then Some w
      else case atom_id env (ew_names w) name_index of
        None \<Rightarrow> None
      | Some (nm, None) \<Rightarrow> Some (saturate_local (w\<lparr>ew_names := nm\<rparr>) ''prop-name'')
      | Some (nm, Some name) \<Rightarrow>
          (let w = w\<lparr>ew_names := nm\<rparr>; cls = recv_at env (site_here env w); fws = le_field_writes (ew_out w)
           in if (cls, name) \<in> set fws then Some w
              else if length fws \<ge> FIELD_CAP then Some (saturate_local w ''field-cap'')
              else Some (w\<lparr>ew_out := (ew_out w)\<lparr>le_field_writes := fws @ [(cls, name)]\<rparr>\<rparr>)))"

definition gname_write :: "WalkEnv \<Rightarrow> u32 \<Rightarrow> EffectWalk \<Rightarrow> EffectWalk option" where
  "gname_write env name_index w =
     (if eff_top (le_sum (ew_out w)) then Some w
      else case atom_id env (ew_names w) name_index of
        None \<Rightarrow> None
      | Some (nm, None) \<Rightarrow> Some (saturate_local (w\<lparr>ew_names := nm\<rparr>) ''gname-name'')
      | Some (nm, Some name) \<Rightarrow>
          (let w = w\<lparr>ew_names := nm\<rparr>; gws = gname_writes (le_sum (ew_out w))
           in if name \<in> set gws then Some w
              else if length gws \<ge> GNAME_CAP then Some (saturate_local w ''gname-cap'')
              else Some (w\<lparr>ew_out := (ew_out w)\<lparr>le_sum := (le_sum (ew_out w))\<lparr>gname_writes := gws @ [name]\<rparr>\<rparr>\<rparr>)))"

text \<open>Ops the operand callbacks classify, element writes, calls, and the known-benign set.\<close>

definition DEFERRED_OPS :: "JSOp list" where
  "DEFERRED_OPS = [''SetProp'', ''StrictSetProp'', ''InitProp'', ''InitHiddenProp'', ''InitLockedProp'', ''SetGName'',
     ''StrictSetGName'', ''InitGLexical'', ''GetProp'']"

definition ELEM_WRITE_OPS :: "JSOp list" where
  "ELEM_WRITE_OPS = [''SetElem'', ''StrictSetElem'', ''InitElem'', ''InitHiddenElem'', ''InitLockedElem'', ''InitElemArray'', ''InitElemInc'']"

definition CALL_OPS :: "JSOp list" where
  "CALL_OPS = [''Call'', ''CallContent'', ''CallIgnoresRv'', ''New'', ''NewContent'']"

definition BENIGN_OPS :: "JSOp list" where
  "BENIGN_OPS = [''Undefined'', ''Null'', ''False'', ''True'', ''Int32'', ''Zero'', ''One'', ''Int8'', ''Uint16'', ''Uint24'', ''Double'', ''String'',
     ''Symbol'', ''Void'', ''Typeof'', ''TypeofExpr'', ''TypeofEq'', ''Pos'', ''Neg'', ''BitNot'', ''Not'', ''BitOr'', ''BitXor'', ''BitAnd'',
     ''Eq'', ''Ne'', ''StrictEq'', ''StrictNe'', ''StrictConstantEq'', ''StrictConstantNe'', ''Lt'', ''Gt'', ''Le'', ''Ge'', ''Instanceof'', ''In'',
     ''Lsh'', ''Rsh'', ''Ursh'', ''Add'', ''Sub'', ''Inc'', ''Dec'', ''Mul'', ''Div'', ''Mod'', ''Pow'', ''NopIsAssignOp'', ''ToPropertyKey'',
     ''ToNumeric'', ''ToString'', ''IsNullOrUndefined'', ''GlobalThis'', ''GetElem'', ''HasOwn'', ''CheckIsObj'', ''CheckObjCoercible'',
     ''JumpTarget'', ''LoopHead'', ''Goto'', ''JumpIfFalse'', ''JumpIfTrue'', ''And'', ''Or'', ''Coalesce'', ''Case'', ''Default'', ''TableSwitch'',
     ''Return'', ''GetRval'', ''SetRval'', ''RetRval'', ''CheckReturn'', ''Throw'', ''ThrowMsg'', ''Uninitialized'', ''InitLexical'',
     ''CheckLexical'', ''CheckAliasedLexical'', ''CheckThis'', ''GetGName'', ''GetArg'', ''GetFrameArg'', ''GetLocal'', ''ArgumentsLength'',
     ''GetActualArg'', ''GetAliasedVar'', ''GetIntrinsic'', ''Callee'', ''SetArg'', ''SetLocal'', ''FunctionThis'', ''Pop'', ''PopN'', ''Dup'',
     ''Dup2'', ''DupAt'', ''Swap'', ''Pick'', ''Unpick'', ''Nop'', ''Lineno'', ''NopDestructuring'', ''NewInit'', ''NewObject'', ''NewArray'',
     ''Arguments'', ''IsConstructing'', ''Try'', ''Exception'', ''Finally'', ''Lambda'', ''DebugLeaveLexicalEnv'', ''BindUnqualifiedGName'']"

definition effect_before_op :: "WalkEnv \<Rightarrow> Pc \<Rightarrow> JSOp \<Rightarrow> EffectWalk \<Rightarrow> EffectWalk" where
  "effect_before_op env pc op w0 =
     (let w = w0\<lparr>ew_cur_pc := pc\<rparr>; out = ew_out w; sm = le_sum out
      in if eff_top sm then w
         else if op \<in> set DEFERRED_OPS then w
         else if op \<in> set ELEM_WRITE_OPS then w\<lparr>ew_out := out\<lparr>le_sum := sm\<lparr>elems_write := True\<rparr>\<rparr>\<rparr>
         else if op = ''SetAliasedVar'' then w\<lparr>ew_out := out\<lparr>le_sum := sm\<lparr>env_write := True\<rparr>\<rparr>\<rparr>
         else if op \<in> set CALL_OPS then w\<lparr>ew_out := out\<lparr>le_calls := le_calls out @ [site_from_raw (we_sid env) pc]\<rparr>\<rparr>
         else if op \<in> set BENIGN_OPS then w
         else saturate_local w op)"

definition effect_get_prop :: "WalkEnv \<Rightarrow> u32 \<Rightarrow> EffectWalk \<Rightarrow> EffectWalk option" where
  "effect_get_prop env name_index w = (case atom_id env (ew_names w) name_index of
     None \<Rightarrow> None
   | Some (nm, name) \<Rightarrow>
       (let w = w\<lparr>ew_names := nm\<rparr>
        in if eff_top (le_sum (ew_out w)) then Some w
           else case name of
             Some n \<Rightarrow> if n \<in> we_accessor_names env
               then Some (w\<lparr>ew_out := (ew_out w)\<lparr>le_accessor_reads := le_accessor_reads (ew_out w) @ [site_here env w]\<rparr>\<rparr>) else Some w
           | None \<Rightarrow> Some w))"

text \<open>A read of a global or an intrinsic interns its name for the origin label.\<close>

definition effect_named_read :: "WalkEnv \<Rightarrow> u32 \<Rightarrow> EffectWalk \<Rightarrow> EffectWalk option" where
  "effect_named_read env name_index w = map_option (\<lambda>(nm, _). w\<lparr>ew_names := nm\<rparr>) (atom_id env (ew_names w) name_index)"

definition effect_event :: "WalkEnv \<Rightarrow> Event \<Rightarrow> EffectWalk \<Rightarrow> EffectWalk option" where
  "effect_event env ev w = (case ev of
     BeforeOp pc op _ _ \<Rightarrow> Some (effect_before_op env pc op w)
   | Callback cb vs \<Rightarrow>
       (let index = (word_of_int (vs ! 0) :: u32)
        in if cb \<in> set [''set_prop'', ''strict_set_prop'', ''init_prop'', ''init_hidden_prop'', ''init_locked_prop''] then prop_write env index w
           else if cb \<in> set [''set_g_name'', ''strict_set_g_name'', ''init_g_lexical''] then gname_write env index w
           else if cb = ''get_prop'' then effect_get_prop env index w
           else if cb \<in> set [''get_g_name'', ''get_intrinsic''] then effect_named_read env index w
           else Some w)
   | _ \<Rightarrow> Some w)"

definition effect_walk :: "JSOps \<Rightarrow> WalkEnv \<Rightarrow> Names \<Rightarrow> EffectWalk option" where
  "effect_walk t env nm =
     (let w = \<lparr>ew_names = nm, ew_cur_pc = 0, ew_out = local_default\<rparr>
      in if is_generator_or_async (we_script env) then Some (saturate_local w ''generator'')
         else Option.bind (visit t (we_script env)) (\<lambda>evs. fold (\<lambda>ev r. Option.bind r (effect_event env ev)) evs (Some w)))"

section \<open>The call edges\<close>

text \<open>The tables of the solver, the layout plan and the facts that the summaries read. \<open>sv_range_of\<close> gives the planned key
  range of a class's group.\<close>

record Solved =
  sv_source :: Source
  sv_engine :: Engine
  sv_natives :: Natives
  sv_recv_class :: "Site \<rightharpoonup> ClassId Agreed"
  sv_site_calls :: "Site \<rightharpoonup> BoundedFnSet"
  sv_site_native :: "Site \<rightharpoonup> FnId Agreed"
  sv_site_apply :: "Site \<rightharpoonup> BoundedFnSet \<times> CallForm"
  sv_site_ctor_native :: "Site \<rightharpoonup> FnId Agreed"
  sv_range_of :: "ClassId \<Rightarrow> (LayoutKey \<times> LayoutKey) option"
  sv_this_layouts :: "ScriptId \<rightharpoonup> LayoutKey \<times> LayoutKey"
  sv_accessor_names :: "NameId set"
  sv_call_sites :: call_sites

definition native_summary :: "NativeEffect \<Rightarrow> EffectSummary \<Rightarrow> EffectSummary" where
  "native_summary effect sm = (case effect of
     Pure \<Rightarrow> sm | Elems \<Rightarrow> sm\<lparr>elems_write := True\<rparr> | Top \<Rightarrow> eff_saturate sm ''native'')"

definition add_dep :: "ScriptId \<Rightarrow> ScriptId list \<Rightarrow> ScriptId list" where
  "add_dep s deps = (if s \<in> set deps then deps else deps @ [s])"

definition fold_fn :: "Solved \<Rightarrow> Names \<Rightarrow> FnId \<Rightarrow> ScriptId list \<times> EffectSummary \<Rightarrow> (ScriptId list \<times> EffectSummary) option" where
  "fold_fn sv nm f st = (case st of (deps, sm) \<Rightarrow>
     (case as_script f of
        Some s \<Rightarrow> Some (add_dep s deps, sm)
      | None \<Rightarrow> (case natives_get (sv_natives sv) f of
          Some info \<Rightarrow> map_option (\<lambda>name. (deps, native_summary (native_effect (ni_kind info) name (ni_result info \<noteq> None)) sm))
            (names_get nm (ni_name info))
        | None \<Rightarrow> if f = ARRAY_CTOR \<or> typed_array_kind f \<noteq> None then Some (deps, sm) else Some (deps, eff_saturate sm ''callable''))))"

definition fold_fns :: "Solved \<Rightarrow> Names \<Rightarrow> FnId list \<Rightarrow> ScriptId list \<times> EffectSummary \<Rightarrow> (ScriptId list \<times> EffectSummary) option" where
  "fold_fns sv nm fs st = fold (\<lambda>f r. Option.bind r (fold_fn sv nm f)) fs (Some st)"

definition con_sites :: "Engine \<Rightarrow> (Constraint \<Rightarrow> Pc option) \<Rightarrow> Site set" where
  "con_sites e sel = set (List.map_filter (\<lambda>(con, script). map_option (site_from_raw script) (sel con)) (zip (cons e) (con_script e)))"

definition this_writes :: "Engine \<Rightarrow> Site set" where
  "this_writes e = con_sites e (\<lambda>con. case con of Write recv _ _ pc \<Rightarrow> if recv = CThis then Some pc else None | _ \<Rightarrow> None)"

definition elem_sites :: "Engine \<Rightarrow> Site set" where
  "elem_sites e = con_sites e (\<lambda>con. case con of ElemBuiltin _ _ _ pc _ \<Rightarrow> Some pc | _ \<Rightarrow> None)"

definition alloc_call_sites :: "Engine \<Rightarrow> Site set" where
  "alloc_call_sites e = con_sites e (\<lambda>con. case con of Alloc _ pc _ \<Rightarrow> Some pc | _ \<Rightarrow> None)"

text \<open>One call edge, and the loop over them, which stops at saturation.\<close>

definition fold_call :: "Solved \<Rightarrow> Names \<Rightarrow> Site \<Rightarrow> ScriptId list \<times> EffectSummary \<Rightarrow> (ScriptId list \<times> EffectSummary) option" where
  "fold_call sv nm site st = (case st of (deps, sm) \<Rightarrow>
     (case (case sv_site_calls sv site of Some fns \<Rightarrow> if multi fns \<or> fn_ids fns \<noteq> [] then Some fns else None | None \<Rightarrow> None) of
        Some fns \<Rightarrow> if multi fns then Some (deps, eff_saturate sm ''multi'') else fold_fns sv nm (fn_ids fns) st
      | None \<Rightarrow> (case Option.bind (sv_site_native sv site) agreed_get of
          Some f \<Rightarrow> fold_fn sv nm f st
        | None \<Rightarrow> (case sv_site_apply sv site of
            Some (fns, _) \<Rightarrow> if multi fns \<or> fn_ids fns = [] then Some (deps, eff_saturate sm ''multi-apply'') else fold_fns sv nm (fn_ids fns) st
          | None \<Rightarrow> (case Option.bind (sv_site_ctor_native sv site) agreed_get of
              Some f \<Rightarrow> fold_fn sv nm f st
            | None \<Rightarrow>
                if site \<in> elem_sites (sv_engine sv) then Some st
                else if site \<in> alloc_call_sites (sv_engine sv) then Some st
                else if sv_site_calls sv site \<noteq> None \<or> sv_site_native sv site \<noteq> None then Some (deps, eff_saturate sm ''empty'')
                else Some (deps, eff_saturate sm ''uncensused''))))))"

fun fold_calls :: "Solved \<Rightarrow> Names \<Rightarrow> Site list \<Rightarrow> ScriptId list \<times> EffectSummary \<Rightarrow> (ScriptId list \<times> EffectSummary) option" where
  "fold_calls sv nm [] st = Some st"
| "fold_calls sv nm (site # sites) st =
     (if eff_top (snd st) then Some st
      else case fold_call sv nm site st of
        None \<Rightarrow> None
      | Some (deps, sm) \<Rightarrow> fold_calls sv nm sites
          (deps, if site \<in> elem_sites (sv_engine sv) then sm\<lparr>elems_write := True\<rparr> else sm))"

fun fold_accessors :: "Solved \<Rightarrow> Site list \<Rightarrow> ScriptId list \<times> EffectSummary \<Rightarrow> ScriptId list \<times> EffectSummary" where
  "fold_accessors sv [] st = st"
| "fold_accessors sv (site # sites) (deps, sm) =
     (if eff_top sm then (deps, sm)
      else fold_accessors sv sites (case sv_call_sites sv site of
        Some (Scripted targets) \<Rightarrow> if targets \<noteq> [] then (fold add_dep targets deps, sm) else (deps, eff_saturate sm ''accessor'')
      | _ \<Rightarrow> (deps, eff_saturate sm ''accessor'')))"

definition recv_range :: "Solved \<Rightarrow> ScriptId \<Rightarrow> FieldRecv \<Rightarrow> (LayoutKey \<times> LayoutKey) option" where
  "recv_range sv sid recv = (case recv of Cls c \<Rightarrow> sv_range_of sv c | This \<Rightarrow> sv_this_layouts sv sid | Unknown \<Rightarrow> None)"

definition resolve_edges :: "Solved \<Rightarrow> Names \<Rightarrow> ScriptId \<Rightarrow> LocalEffects \<Rightarrow> (ScriptId list \<times> EffectSummary) option" where
  "resolve_edges sv nm sid loc =
     (let sm = le_sum loc;
          sm = sm\<lparr>field_writes := field_writes sm @ map (\<lambda>(recv, name). (recv_range sv sid recv, name)) (le_field_writes loc)\<rparr>
      in map_option (fold_accessors sv (le_accessor_reads loc)) (fold_calls sv nm (le_calls loc) ([], sm)))"

section \<open>The fixpoint\<close>

fun push_fields :: "((LayoutKey \<times> LayoutKey) option \<times> NameId) list \<Rightarrow> EffectSummary \<Rightarrow> EffectSummary \<times> bool" where
  "push_fields [] dst = (dst, True)"
| "push_fields (fw # fws) dst =
     (if fw \<in> set (field_writes dst) then push_fields fws dst
      else if length (field_writes dst) \<ge> FIELD_CAP then (eff_saturate dst ''field-cap'', False)
      else push_fields fws (dst\<lparr>field_writes := field_writes dst @ [fw]\<rparr>))"

fun push_gnames :: "NameId list \<Rightarrow> EffectSummary \<Rightarrow> EffectSummary \<times> bool" where
  "push_gnames [] dst = (dst, True)"
| "push_gnames (g # gs) dst =
     (if g \<in> set (gname_writes dst) then push_gnames gs dst
      else if length (gname_writes dst) \<ge> GNAME_CAP then (eff_saturate dst ''gname-cap'', False)
      else push_gnames gs (dst\<lparr>gname_writes := gname_writes dst @ [g]\<rparr>))"

definition join_into :: "EffectSummary \<Rightarrow> EffectSummary \<Rightarrow> EffectSummary" where
  "join_into dst src =
     (if eff_top src then eff_saturate dst (''dep:'' @ (case eff_top_why src of Some why \<Rightarrow> why | None \<Rightarrow> ''?''))
      else case push_fields (field_writes src) dst of (dst, ok) \<Rightarrow>
        if \<not> ok then dst
        else case push_gnames (gname_writes src) dst of (dst, ok) \<Rightarrow>
          if \<not> ok then dst
          else dst\<lparr>elems_write := (elems_write dst \<or> elems_write src), env_write := (env_write dst \<or> env_write src)\<rparr>)"

type_synonym summaries = "ScriptId \<rightharpoonup> EffectSummary"

fun join_deps :: "summaries \<Rightarrow> ScriptId list \<Rightarrow> EffectSummary \<Rightarrow> EffectSummary" where
  "join_deps S [] joined = joined"
| "join_deps S (d # ds) joined =
     (if eff_top joined then joined
      else case S d of
        None \<Rightarrow> eff_saturate joined ''dep-missing''
      | Some src \<Rightarrow> join_deps S ds (join_into joined src))"

definition rev_deps :: "ScriptId list \<Rightarrow> (ScriptId \<Rightarrow> ScriptId list) \<Rightarrow> ScriptId \<Rightarrow> ScriptId list" where
  "rev_deps sids deps d = concat (map (\<lambda>s. map (\<lambda>_. s) (filter ((=) d) (deps s))) sids)"

fun push_callers :: "ScriptId list \<Rightarrow> ScriptId list \<times> ScriptId set \<Rightarrow> ScriptId list \<times> ScriptId set" where
  "push_callers [] st = st"
| "push_callers (c # cs) (work, queued) =
     (if c \<in> queued then push_callers cs (work, queued) else push_callers cs (c # work, insert c queued))"

text \<open>The worklist loop. Every queued script has a summary.\<close>

partial_function (option) summary_loop :: "ScriptId list \<Rightarrow> (ScriptId \<Rightarrow> EffectSummary) \<Rightarrow> (ScriptId \<Rightarrow> ScriptId list) \<Rightarrow>
    ScriptId list \<Rightarrow> ScriptId set \<Rightarrow> summaries \<Rightarrow> summaries option" where
  "summary_loop sids loc deps work queued S = (case work of
     [] \<Rightarrow> Some S
   | sid # rest \<Rightarrow>
       (let joined = join_deps S (deps sid) (loc sid)
        in if eff_eq (the (S sid)) joined then summary_loop sids loc deps rest (queued - {sid}) S
           else (case push_callers (rev_deps sids deps sid) (rest, queued - {sid}) of
             (work', queued') \<Rightarrow> summary_loop sids loc deps work' queued' (S(sid \<mapsto> joined)))))"

definition transitive_summaries :: "ScriptId list \<Rightarrow> (ScriptId \<Rightarrow> EffectSummary) \<Rightarrow> (ScriptId \<Rightarrow> ScriptId list) \<Rightarrow> summaries option" where
  "transitive_summaries sids loc deps =
     summary_loop sids loc deps (rev sids) (set sids) (\<lambda>s. if s \<in> set sids then Some (loc s) else None)"

section \<open>All scripts\<close>

definition script_ids :: "Source \<Rightarrow> ScriptId list" where
  "script_ids s = sort (List.map_filter (\<lambda>(oid, obj). case obj of SScript _ \<Rightarrow> Some oid | _ \<Rightarrow> None) (objects_iter s))"

definition env_for :: "Solved \<Rightarrow> ScriptId \<Rightarrow> Script \<Rightarrow> WalkEnv" where
  "env_for sv sid script = \<lparr>we_sid = sid, we_script = script, we_source = sv_source sv, we_recv_class = sv_recv_class sv,
     we_this_writes = this_writes (sv_engine sv), we_accessor_names = sv_accessor_names sv\<rparr>"

fun walk_scripts :: "JSOps \<Rightarrow> Solved \<Rightarrow> ScriptId list \<Rightarrow> Names \<Rightarrow> (ScriptId \<rightharpoonup> LocalEffects) \<Rightarrow> (Names \<times> (ScriptId \<rightharpoonup> LocalEffects)) option" where
  "walk_scripts t sv [] nm locals = Some (nm, locals)"
| "walk_scripts t sv (sid # sids) nm locals = (case source_object (sv_source sv) sid of
     Some (SScript script) \<Rightarrow> (case effect_walk t (env_for sv sid script) nm of
         None \<Rightarrow> None
       | Some w \<Rightarrow> walk_scripts t sv sids (ew_names w) (locals(sid \<mapsto> ew_out w)))
   | Some _ \<Rightarrow> walk_scripts t sv sids nm locals
   | None \<Rightarrow> None)"

fun resolve_scripts :: "Solved \<Rightarrow> Names \<Rightarrow> (ScriptId \<rightharpoonup> LocalEffects) \<Rightarrow> ScriptId list \<Rightarrow> (ScriptId \<rightharpoonup> ScriptId list \<times> EffectSummary) \<Rightarrow>
    (ScriptId \<rightharpoonup> ScriptId list \<times> EffectSummary) option" where
  "resolve_scripts sv nm locals [] edges = Some edges"
| "resolve_scripts sv nm locals (sid # sids) edges = (case locals sid of
     None \<Rightarrow> None
   | Some loc \<Rightarrow> (case resolve_edges sv nm sid loc of
       None \<Rightarrow> None
     | Some e \<Rightarrow> resolve_scripts sv nm locals sids (edges(sid \<mapsto> e))))"

text \<open>\<open>deps[&sid]\<close> and \<open>locals[&sid].sm\<close> are indexed with ids of \<open>sids\<close> only, which all have an entry.\<close>

definition emit_effect_summaries :: "JSOps \<Rightarrow> Solved \<Rightarrow> Names \<Rightarrow> summaries option" where
  "emit_effect_summaries t sv nm =
     (let sids = script_ids (sv_source sv)
      in case walk_scripts t sv sids nm Map.empty of
           None \<Rightarrow> None
         | Some (nm, locals) \<Rightarrow> (case resolve_scripts sv nm locals sids Map.empty of
             None \<Rightarrow> None
           | Some edges \<Rightarrow> transitive_summaries sids (\<lambda>s. snd (the (edges s))) (\<lambda>s. fst (the (edges s)))))"

end
