(* ===== verification/Effect_Merge.thy ===== *)
theory Effect_Merge
  imports Script_Effects
begin

text \<open>
  The joins of effect summaries as merges of duplicate-free lists: what the result of joining the dependencies of a script is,
  when it saturates, and in which order it lists its writes. The order of two entries of a merge is the order in the first
  merged list that has either of them; this is what makes the worklist loop, which compares lists, end.
\<close>

section \<open>Merging lists\<close>

fun merge :: "'a list \<Rightarrow> 'a list \<Rightarrow> 'a list" where
  "merge xs [] = xs"
| "merge xs (y # ys) = (if y \<in> set xs then merge xs ys else merge (xs @ [y]) ys)"

definition merge_all :: "'a list \<Rightarrow> 'a list list \<Rightarrow> 'a list" where
  "merge_all xs yss = foldl merge xs yss"

lemma merge_all_simps [simp]: "merge_all xs [] = xs" "merge_all xs (ys # yss) = merge_all (merge xs ys) yss"
  by (simp_all add: merge_all_def)

lemma set_merge [simp]: "set (merge xs ys) = set xs \<union> set ys"
  by (induction xs ys rule: merge.induct) auto

lemma set_merge_all [simp]: "set (merge_all xs yss) = set xs \<union> \<Union> (set ` set yss)"
  by (induction yss arbitrary: xs) auto

text \<open>A merge appends new entries, each once.\<close>

definition extends :: "'a list \<Rightarrow> 'a list \<Rightarrow> bool" where
  "extends xs zs = (\<exists>ns. zs = xs @ ns \<and> distinct ns \<and> set xs \<inter> set ns = {})"

lemma extends_refl [simp]: "extends xs xs"
  by (simp add: extends_def)

lemma extends_trans: "extends xs ys \<Longrightarrow> extends ys zs \<Longrightarrow> extends xs zs"
  by (auto simp: extends_def)

lemma extends_merge: "extends xs (merge xs ys)"
proof (induction xs ys rule: merge.induct)
  case (2 xs y ys)
  have "extends xs (xs @ [y])" if "y \<notin> set xs" using that by (auto simp: extends_def)
  with 2 show ?case using extends_trans by auto
qed simp

lemma extends_merge_all: "extends xs (merge_all xs yss)"
  by (induction yss arbitrary: xs) (auto intro: extends_trans extends_merge)

lemma extends_length: "extends xs zs \<Longrightarrow> length zs = length xs + card (set zs - set xs)"
  by (auto simp: extends_def distinct_card [symmetric] intro!: arg_cong [of _ _ card])

lemma extends_same: "extends xs zs \<Longrightarrow> set zs \<subseteq> set xs \<Longrightarrow> zs = xs"
  by (auto simp: extends_def inf.absorb2)

lemma extends_subset: "extends xs zs \<Longrightarrow> set xs \<subseteq> set zs"
  by (auto simp: extends_def)

section \<open>Order\<close>

definition before :: "'a \<Rightarrow> 'a \<Rightarrow> 'a list \<Rightarrow> bool" where
  "before p q xs = (p \<in> set (takeWhile (\<lambda>z. z \<noteq> q) xs))"

lemma before_Nil [simp]: "before p q [] = False"
  by (simp add: before_def)

lemma before_Cons [simp]: "before p q (x # xs) = (x \<noteq> q \<and> (x = p \<or> before p q xs))"
  unfolding before_def by (cases "x = q") (simp_all add: eq_commute [of p])

lemma before_append: "before p q (xs @ ys) \<longleftrightarrow> (if q \<in> set xs then before p q xs else p \<in> set xs \<or> before p q ys)"
  by (induction xs) auto

lemma before_absent: "q \<notin> set xs \<Longrightarrow> before p q xs \<longleftrightarrow> p \<in> set xs" "p \<notin> set xs \<Longrightarrow> \<not> before p q xs"
  by (induction xs) auto

lemma before_merge: "before p q (merge xs ys) = (if p \<in> set xs \<or> q \<in> set xs then before p q xs else before p q ys)"
proof (induction xs ys rule: merge.induct)
  case (1 xs)
  then show ?case by (simp add: before_absent)
next
  case (2 xs y ys)
  then show ?case by (auto simp: before_append before_absent)
qed

lemma before_merge_all:
  "before p q (merge_all xs yss) = (if p \<in> set xs \<or> q \<in> set xs then before p q xs
     else case find (\<lambda>ys. p \<in> set ys \<or> q \<in> set ys) yss of None \<Rightarrow> False | Some ys \<Rightarrow> before p q ys)"
proof (induction yss arbitrary: xs)
  case Nil
  then show ?case by (simp add: before_absent)
next
  case (Cons ys yss)
  then show ?case by (simp add: before_merge)
qed

lemma order_determines:
  assumes "distinct xs" "distinct ys" "set xs = set ys" "\<And>p q. before p q xs = before p q ys"
  shows "xs = ys"
  using assms
proof (induction xs arbitrary: ys)
  case (Cons x xs)
  then obtain y ys' where ys: "ys = y # ys'" by (cases ys) auto
  have "y = x"
  proof (rule ccontr)
    assume "y \<noteq> x"
    then have "before y x ys" using ys by simp
    then show False using Cons.prems(4) [of y x] by simp
  qed
  moreover have "before p q xs = before p q ys'" for p q
  proof (cases "p = x \<or> q = x")
    case True
    have "x \<notin> set xs" "x \<notin> set ys'" using Cons.prems ys \<open>y = x\<close> by auto
    moreover from this have "set xs = set ys'" using Cons.prems(3) ys \<open>y = x\<close> by (simp add: insert_ident)
    ultimately show ?thesis using True by (auto simp: before_absent)
  next
    case False
    then show ?thesis using Cons.prems(4) [of p q] ys \<open>y = x\<close> by auto
  qed
  moreover have "distinct xs" "distinct ys'" "set xs = set ys'" using Cons.prems ys \<open>y = x\<close> by (simp_all add: insert_ident)
  ultimately show ?case using Cons.IH [of ys'] ys by simp
qed simp

lemma extends_eq:
  assumes "extends xs ys" "extends xs zs" "set ys = set zs" "\<And>p q. before p q ys = before p q zs"
  shows "ys = zs"
proof -
  obtain m n where m: "ys = xs @ m" "distinct m" "set xs \<inter> set m = {}" and n: "zs = xs @ n" "distinct n" "set xs \<inter> set n = {}"
    using assms(1,2) unfolding extends_def by blast
  have sets: "set m = set n" using assms(3) m n by auto
  have "before p q m = before p q n" for p q
  proof (cases "p \<in> set xs \<or> q \<in> set xs")
    case True
    then have "p \<notin> set m \<and> p \<notin> set n \<or> q \<notin> set m \<and> q \<notin> set n" using m(3) n(3) by blast
    then show ?thesis using sets by (auto simp: before_absent)
  next
    case False
    then show ?thesis using assms(4) [of p q] m(1) n(1) by (simp add: before_append)
  qed
  then show ?thesis using order_determines [OF m(2) n(2) sets] m(1) n(1) by simp
qed

end
