(* ===== verification/Effect_Join.thy ===== *)
theory Effect_Join
  imports Effect_Merge
begin

text \<open>
  Joining the dependencies of a script (\<open>join_into\<close> and its loop in \<^verbatim>\<open>likelier/effects.rs\<close>) as merges: when the result is saturated,
  what it is otherwise, and that it depends on the summaries only up to their labels.
\<close>

section \<open>Summaries up to their label\<close>

definition norm :: "EffectSummary \<Rightarrow> EffectSummary" where
  "norm e = e\<lparr>eff_top_why := None\<rparr>"

lemma norm_sel [simp]:
  "eff_top (norm e) = eff_top e" "field_writes (norm e) = field_writes e" "gname_writes (norm e) = gname_writes e"
  "elems_write (norm e) = elems_write e" "env_write (norm e) = env_write e" "norm (norm e) = norm e"
  by (simp_all add: norm_def)

lemma eff_eq_norm: "eff_eq a b \<longleftrightarrow> norm a = norm b"
  by (cases a, cases b) (auto simp: eff_eq_def norm_def)

lemma norm_eqI:
  "eff_top a = eff_top b \<Longrightarrow> field_writes a = field_writes b \<Longrightarrow> gname_writes a = gname_writes b \<Longrightarrow>
   elems_write a = elems_write b \<Longrightarrow> env_write a = env_write b \<Longrightarrow> norm a = norm b"
  by (simp add: eff_eq_norm [symmetric] eff_eq_def)

lemma norm_eqD:
  assumes "norm a = norm b"
  shows "eff_top a = eff_top b" "field_writes a = field_writes b" "gname_writes a = gname_writes b"
    "elems_write a = elems_write b" "env_write a = env_write b"
  using assms by (simp_all add: eff_eq_norm [symmetric] eff_eq_def)

lemma norm_saturate: "norm a = norm b \<Longrightarrow> norm (eff_saturate a w) = norm (eff_saturate b w')"
  by (rule norm_eqI) (auto simp: eff_saturate_def dest: norm_eqD)

lemma push_fields_norm:
  "norm d = norm d' \<Longrightarrow> norm (fst (push_fields ys d)) = norm (fst (push_fields ys d')) \<and> snd (push_fields ys d) = snd (push_fields ys d')"
proof (induction ys arbitrary: d d')
  case (Cons y ys)
  then have "norm (d\<lparr>field_writes := field_writes d @ [y]\<rparr>) = norm (d'\<lparr>field_writes := field_writes d' @ [y]\<rparr>)"
    by (intro norm_eqI) (auto dest: norm_eqD)
  from Cons.IH [OF this] Cons.IH [OF Cons.prems] show ?case
    using norm_saturate [OF Cons.prems, of "''field-cap''" "''field-cap''"] norm_eqD(2) [OF Cons.prems] by simp
qed simp

lemma push_gnames_norm:
  "norm d = norm d' \<Longrightarrow> norm (fst (push_gnames ys d)) = norm (fst (push_gnames ys d')) \<and> snd (push_gnames ys d) = snd (push_gnames ys d')"
proof (induction ys arbitrary: d d')
  case (Cons y ys)
  then have "norm (d\<lparr>gname_writes := gname_writes d @ [y]\<rparr>) = norm (d'\<lparr>gname_writes := gname_writes d' @ [y]\<rparr>)"
    by (intro norm_eqI) (auto dest: norm_eqD)
  from Cons.IH [OF this] Cons.IH [OF Cons.prems] show ?case
    using norm_saturate [OF Cons.prems, of "''gname-cap''" "''gname-cap''"] norm_eqD(3) [OF Cons.prems] by simp
qed simp

text \<open>Summaries a join cannot tell apart: both saturated, or equal up to the label.\<close>

definition alike :: "EffectSummary \<Rightarrow> EffectSummary \<Rightarrow> bool" where
  "alike a b = (eff_top a \<and> eff_top b \<or> norm a = norm b)"

lemma join_into_norm:
  assumes "norm d = norm d'" "alike s s'"
  shows "norm (join_into d s) = norm (join_into d' s')"
proof (cases "eff_top s")
  case True
  then have "eff_top s'" using assms(2) norm_eqD(1) unfolding alike_def by blast
  with True show ?thesis by (simp add: join_into_def norm_saturate [OF assms(1)])
next
  case False
  then have s: "norm s = norm s'" using assms(2) by (simp add: alike_def)
  note eq = norm_eqD [OF s]
  obtain a ok a' ok' where a: "push_fields (field_writes s) d = (a, ok)" "push_fields (field_writes s') d' = (a', ok')" by fastforce
  obtain b ok2 b' ok2' where b: "push_gnames (gname_writes s) a = (b, ok2)" "push_gnames (gname_writes s') a' = (b', ok2')" by fastforce
  have A: "norm a = norm a'" "ok = ok'" using push_fields_norm [OF assms(1), of "field_writes s"] a eq by simp_all
  have B: "norm b = norm b'" "ok2 = ok2'" using push_gnames_norm [OF A(1), of "gname_writes s"] b eq by simp_all
  have "norm (b\<lparr>elems_write := elems_write b \<or> elems_write s, env_write := env_write b \<or> env_write s\<rparr>) =
    norm (b'\<lparr>elems_write := elems_write b' \<or> elems_write s', env_write := env_write b' \<or> env_write s'\<rparr>)"
    using norm_eqD [OF B(1)] eq by (intro norm_eqI) simp_all
  then show ?thesis using False eq(1) a b A B by (simp add: join_into_def)
qed

lemma join_deps_norm:
  assumes "norm j = norm j'" "\<And>d. d \<in> set ds \<Longrightarrow> rel_option alike (S d) (S' d)"
  shows "norm (join_deps S ds j) = norm (join_deps S' ds j')"
  using assms
proof (induction ds arbitrary: j j')
  case (Cons d ds)
  have top: "eff_top j = eff_top j'" using norm_eqD(1) [OF Cons.prems(1)] .
  have r: "rel_option alike (S d) (S' d)" using Cons.prems(2) by simp
  show ?case
  proof (cases "S d")
    case None
    then have "S' d = None" using r by simp
    with None show ?thesis using top Cons.prems(1) norm_saturate by simp
  next
    case (Some e)
    then obtain e' where e': "S' d = Some e'" "alike e e'" using r by (auto simp: option_rel_Some1)
    have "norm (join_deps S ds (join_into j e)) = norm (join_deps S' ds (join_into j' e'))"
      using join_into_norm [OF Cons.prems(1) e'(2)] Cons.prems(2) by (intro Cons.IH) auto
    then show ?thesis using top Some e' Cons.prems(1) by simp
  qed
qed simp

section \<open>What a join is\<close>

definition fits :: "nat \<Rightarrow> 'a list \<Rightarrow> 'a list \<Rightarrow> bool" where
  "fits cap xs zs = (zs = xs \<or> length zs \<le> cap)"

lemma extends_length_le: "extends xs zs \<Longrightarrow> length xs \<le> length zs \<and> (length zs = length xs \<longrightarrow> zs = xs)"
  by (auto simp: extends_def)

lemma fits_chain: "extends xs ys \<Longrightarrow> extends ys zs \<Longrightarrow> fits cap xs zs \<longleftrightarrow> fits cap xs ys \<and> fits cap ys zs"
  unfolding fits_def using extends_length_le [of xs ys] extends_length_le [of ys zs] extends_same extends_subset
  by (metis dual_order.trans order_antisym)

lemma merge_new_fits:
  assumes "y \<notin> set xs" "length xs < cap"
  shows "fits cap xs (merge (xs @ [y]) ys) = fits cap (xs @ [y]) (merge (xs @ [y]) ys)"
proof -
  have "y \<in> set (merge (xs @ [y]) ys)" by simp
  then have "merge (xs @ [y]) ys \<noteq> xs" using assms(1) by metis
  then show ?thesis using assms(2) by (auto simp: fits_def)
qed

lemma merge_full:
  assumes "y \<notin> set xs" "cap \<le> length xs"
  shows "\<not> fits cap xs (merge (xs @ [y]) ys)"
proof -
  have "y \<in> set (merge (xs @ [y]) ys)" by simp
  then have "merge (xs @ [y]) ys \<noteq> xs" using assms(1) by metis
  moreover have "length (xs @ [y]) \<le> length (merge (xs @ [y]) ys)" using extends_length_le [OF extends_merge] by blast
  ultimately show ?thesis using assms(2) by (simp add: fits_def)
qed

lemma push_fields_merge:
  assumes "\<not> eff_top d"
  shows "if fits FIELD_CAP (field_writes d) (merge (field_writes d) ys)
     then push_fields ys d = (d\<lparr>field_writes := merge (field_writes d) ys\<rparr>, True)
     else \<not> snd (push_fields ys d) \<and> eff_top (fst (push_fields ys d))"
  using assms
proof (induction ys arbitrary: d)
  case Nil
  then show ?case by (simp add: fits_def)
next
  case (Cons y ys)
  then show ?case using merge_full [of y "field_writes d" FIELD_CAP ys] merge_new_fits [of y "field_writes d" FIELD_CAP ys]
    Cons.IH [of d] Cons.IH [of "d\<lparr>field_writes := field_writes d @ [y]\<rparr>"]
    by (auto simp: eff_saturate_def not_le split: if_splits)
qed

lemma push_gnames_merge:
  assumes "\<not> eff_top d"
  shows "if fits GNAME_CAP (gname_writes d) (merge (gname_writes d) ys)
     then push_gnames ys d = (d\<lparr>gname_writes := merge (gname_writes d) ys\<rparr>, True)
     else \<not> snd (push_gnames ys d) \<and> eff_top (fst (push_gnames ys d))"
  using assms
proof (induction ys arbitrary: d)
  case Nil
  then show ?case by (simp add: fits_def)
next
  case (Cons y ys)
  then show ?case using merge_full [of y "gname_writes d" GNAME_CAP ys] merge_new_fits [of y "gname_writes d" GNAME_CAP ys]
    Cons.IH [of d] Cons.IH [of "d\<lparr>gname_writes := gname_writes d @ [y]\<rparr>"]
    by (auto simp: eff_saturate_def not_le split: if_splits)
qed

definition joinable :: "EffectSummary \<Rightarrow> EffectSummary \<Rightarrow> bool" where
  "joinable d s = (\<not> eff_top s \<and> fits FIELD_CAP (field_writes d) (merge (field_writes d) (field_writes s)) \<and>
     fits GNAME_CAP (gname_writes d) (merge (gname_writes d) (gname_writes s)))"

lemma join_into_merge:
  assumes "\<not> eff_top d"
  shows "if joinable d s then join_into d s = d\<lparr>field_writes := merge (field_writes d) (field_writes s), gname_writes := merge (gname_writes d) (gname_writes s),
       elems_write := (elems_write d \<or> elems_write s), env_write := (env_write d \<or> env_write s)\<rparr>
     else eff_top (join_into d s)"
proof (cases "eff_top s \<or> \<not> fits FIELD_CAP (field_writes d) (merge (field_writes d) (field_writes s))")
  case True
  then show ?thesis using assms push_fields_merge [OF assms, of "field_writes s"]
    by (auto simp: joinable_def join_into_def eff_saturate_def split: prod.splits)
next
  case False
  let ?d = "d\<lparr>field_writes := merge (field_writes d) (field_writes s)\<rparr>"
  have "push_fields (field_writes s) d = (?d, True)" using push_fields_merge [OF assms, of "field_writes s"] False by simp
  with False show ?thesis using assms push_gnames_merge [of ?d "gname_writes s"]
    by (auto simp: joinable_def join_into_def split: prod.splits if_splits)
qed

definition nontop :: "summaries \<Rightarrow> ScriptId \<Rightarrow> bool" where
  "nontop S d = (case S d of None \<Rightarrow> False | Some e \<Rightarrow> \<not> eff_top e)"

abbreviation fw :: "summaries \<Rightarrow> ScriptId \<Rightarrow> ((LayoutKey \<times> LayoutKey) option \<times> NameId) list" where
  "fw S d \<equiv> field_writes (the (S d))"

abbreviation gw :: "summaries \<Rightarrow> ScriptId \<Rightarrow> NameId list" where
  "gw S d \<equiv> gname_writes (the (S d))"

definition deps_fit :: "summaries \<Rightarrow> ScriptId list \<Rightarrow> EffectSummary \<Rightarrow> bool" where
  "deps_fit S ds j = ((\<forall>d\<in>set ds. nontop S d) \<and> fits FIELD_CAP (field_writes j) (merge_all (field_writes j) (map (fw S) ds)) \<and>
     fits GNAME_CAP (gname_writes j) (merge_all (gname_writes j) (map (gw S) ds)))"

lemma join_deps_stop: "eff_top j \<Longrightarrow> join_deps S ds j = j"
  by (cases ds) auto

lemma join_deps_merge:
  assumes "\<not> eff_top j"
  shows "if deps_fit S ds j
     then join_deps S ds j = j\<lparr>field_writes := merge_all (field_writes j) (map (fw S) ds), gname_writes := merge_all (gname_writes j) (map (gw S) ds),
       elems_write := (elems_write j \<or> (\<exists>d\<in>set ds. elems_write (the (S d)))), env_write := (env_write j \<or> (\<exists>d\<in>set ds. env_write (the (S d))))\<rparr>
     else eff_top (join_deps S ds j)"
  using assms
proof (induction ds arbitrary: j)
  case Nil
  then show ?case by (simp add: deps_fit_def fits_def)
next
  case (Cons d ds)
  show ?case
  proof (cases "S d")
    case None
    then have "\<not> deps_fit S (d # ds) j" by (simp add: deps_fit_def nontop_def)
    then show ?thesis using None Cons.prems by (simp add: eff_saturate_def)
  next
    case (Some e)
    let ?j = "join_into j e"
    have step: "join_deps S (d # ds) j = join_deps S ds ?j" using Some Cons.prems by simp
    have chain: "fits c xs (merge_all (merge xs ys) yss) \<longleftrightarrow> fits c xs (merge xs ys) \<and> fits c (merge xs ys) (merge_all (merge xs ys) yss)"
      for c and xs ys :: "'x list" and yss by (rule fits_chain [OF extends_merge extends_merge_all])
    show ?thesis
    proof (cases "joinable j e")
      case False
      then have "eff_top ?j" using join_into_merge [OF Cons.prems, of e] by simp
      moreover have "\<not> deps_fit S (d # ds) j" using False Some by (auto simp: joinable_def deps_fit_def nontop_def chain)
      ultimately show ?thesis unfolding step by (simp add: join_deps_stop)
    next
      case True
      note j = join_into_merge [OF Cons.prems, of e, unfolded if_P [OF True]]
      then have "\<not> eff_top ?j" using Cons.prems by simp
      note IH = Cons.IH [OF this]
      have fit: "deps_fit S (d # ds) j = deps_fit S ds ?j"
        using True Some j by (auto simp: joinable_def deps_fit_def nontop_def chain)
      show ?thesis unfolding step fit using IH Some j by (auto split: if_splits)
    qed
  qed
qed

end
