(* ===== verification/Effect_Order.thy ===== *)
theory Effect_Order
  imports Effect_Join
begin

text \<open>
  The summaries of a call graph under recomputation of single scripts: what a recomputation keeps, how far it can grow, and
  that a script recomputed while every other unfrozen one is consistent never changes again unless the sets of writes change.
\<close>

section \<open>Growth\<close>

definition below :: "EffectSummary \<Rightarrow> EffectSummary \<Rightarrow> bool" where
  "below a b = (\<not> eff_top b \<longrightarrow> \<not> eff_top a \<and> set (field_writes a) \<subseteq> set (field_writes b) \<and> set (gname_writes a) \<subseteq> set (gname_writes b) \<and>
     (elems_write a \<longrightarrow> elems_write b) \<and> (env_write a \<longrightarrow> env_write b))"

lemma eff_below_refl [simp]: "below a a"
  by (simp add: below_def)

lemma eff_below_trans: "below a b \<Longrightarrow> below b c \<Longrightarrow> below a c"
  by (auto simp: below_def)

definition same_sets :: "EffectSummary \<Rightarrow> EffectSummary \<Rightarrow> bool" where
  "same_sets a b = (below a b \<and> below b a)"

lemma same_sets_refl [simp]: "same_sets a a"
  by (simp add: same_sets_def)

lemma same_sets_trans: "same_sets a b \<Longrightarrow> same_sets b c \<Longrightarrow> same_sets a c"
  by (auto simp: same_sets_def intro: eff_below_trans)

lemma same_sets_top: "same_sets a b \<Longrightarrow> eff_top a = eff_top b"
  by (auto simp: same_sets_def below_def)

lemma same_setsD:
  "same_sets a b \<Longrightarrow> \<not> eff_top a \<Longrightarrow> set (field_writes a) = set (field_writes b) \<and> set (gname_writes a) = set (gname_writes b) \<and>
     elems_write a = elems_write b \<and> env_write a = env_write b"
  by (auto simp: same_sets_def below_def)

lemma merge_all_mono: "(\<And>d. d \<in> set ds \<Longrightarrow> set (f d) \<subseteq> set (g d)) \<Longrightarrow> set (merge_all xs (map f ds)) \<subseteq> set (merge_all xs (map g ds))"
  by (fastforce simp: image_image)

lemma merge_all_within: "set xs \<subseteq> A \<Longrightarrow> (\<And>d. d \<in> set ds \<Longrightarrow> set (f d) \<subseteq> A) \<Longrightarrow> set (merge_all xs (map f ds)) \<subseteq> A"
  by (fastforce simp: image_image)

lemma fits_mono:
  assumes "extends xs ys" "extends xs zs" "set ys \<subseteq> set zs" "fits cap xs zs"
  shows "fits cap xs ys"
proof -
  have "ys = xs" if "zs = xs" using that assms(3) extends_same [OF assms(1)] by simp
  moreover have "length ys \<le> length zs"
    using extends_length [OF assms(1)] extends_length [OF assms(2)] card_mono [of "set zs - set xs" "set ys - set xs"] assms(3) by auto
  ultimately show ?thesis using assms(4) by (auto simp: fits_def)
qed

text \<open>A list cannot be extended to a set within a cap: some element is missing, and there are too many of them.\<close>

definition over_cap :: "nat \<Rightarrow> 'a list \<Rightarrow> 'a set \<Rightarrow> bool" where
  "over_cap cap xs A = (\<not> A \<subseteq> set xs \<and> cap < length xs + card (A - set xs))"

lemma not_fits_over_cap:
  assumes "\<not> fits cap xs (merge_all xs yss)" "set (merge_all xs yss) \<subseteq> A" "finite A"
  shows "over_cap cap xs A"
proof -
  have "merge_all xs yss \<noteq> xs" using assms(1) by (auto simp: fits_def)
  then have "\<not> A \<subseteq> set xs" using extends_same [OF extends_merge_all, of xs yss] subset_trans [OF assms(2)] by auto
  moreover have "length (merge_all xs yss) = length xs + card (set (merge_all xs yss) - set xs)" by (rule extends_length [OF extends_merge_all])
  moreover have "card (set (merge_all xs yss) - set xs) \<le> card (A - set xs)" using assms(2,3) by (intro card_mono) auto
  ultimately show ?thesis using assms(1) by (simp add: fits_def over_cap_def)
qed

lemma fits_not_over_cap:
  assumes "fits cap xs zs" "extends xs zs" "set zs = A"
  shows "\<not> over_cap cap xs A"
  using assms extends_length [OF assms(2)] by (auto simp: fits_def over_cap_def)

section \<open>A call graph\<close>

locale call_graph =
  fixes sids :: "ScriptId list" and loc :: "ScriptId \<Rightarrow> EffectSummary" and deps :: "ScriptId \<Rightarrow> ScriptId list"
  assumes distinct_sids: "distinct sids"
begin

definition joined :: "summaries \<Rightarrow> ScriptId \<Rightarrow> EffectSummary" where
  "joined S s = join_deps S (deps s) (loc s)"

definition reach :: "ScriptId \<Rightarrow> ScriptId set" where
  "reach s = {t. (s, t) \<in> {(a, b). b \<in> set (deps a)}\<^sup>*}"

definition all_fields :: "ScriptId \<Rightarrow> ((LayoutKey \<times> LayoutKey) option \<times> NameId) set" where
  "all_fields s = (\<Union>t\<in>reach s. set (field_writes (loc t)))"

definition all_gnames :: "ScriptId \<Rightarrow> NameId set" where
  "all_gnames s = (\<Union>t\<in>reach s. set (gname_writes (loc t)))"

text \<open>Why a summary may be saturated: a script outside the source, a saturated local summary, or more writes than the caps allow.\<close>

definition blocked :: "ScriptId \<Rightarrow> bool" where
  "blocked t = (t \<notin> set sids \<or> eff_top (loc t) \<or> over_cap FIELD_CAP (field_writes (loc t)) (all_fields t) \<or>
     over_cap GNAME_CAP (gname_writes (loc t)) (all_gnames t))"

definition tight :: "ScriptId \<Rightarrow> EffectSummary \<Rightarrow> bool" where
  "tight s e = (if eff_top e then \<exists>t\<in>reach s. blocked t
     else set (field_writes e) \<subseteq> all_fields s \<and> set (gname_writes e) \<subseteq> all_gnames s \<and>
       (elems_write e \<longrightarrow> (\<exists>t\<in>reach s. elems_write (loc t))) \<and> (env_write e \<longrightarrow> (\<exists>t\<in>reach s. env_write (loc t))) \<and>
       extends (field_writes (loc s)) (field_writes e) \<and> extends (gname_writes (loc s)) (gname_writes e))"

definition sound :: "summaries \<Rightarrow> bool" where
  "sound S = (dom S = set sids \<and> (\<forall>s\<in>set sids. below (the (S s)) (joined S s) \<and> tight s (the (S s))))"

lemma reach_refl [simp]: "s \<in> reach s"
  by (simp add: reach_def)

lemma reach_dep: "d \<in> set (deps s) \<Longrightarrow> t \<in> reach d \<Longrightarrow> t \<in> reach s"
  unfolding reach_def by (auto intro: converse_rtrancl_into_rtrancl)

lemma all_dep: "d \<in> set (deps s) \<Longrightarrow> all_fields d \<subseteq> all_fields s \<and> all_gnames d \<subseteq> all_gnames s"
  unfolding all_fields_def all_gnames_def using reach_dep by fastforce

lemma all_own: "set (field_writes (loc s)) \<subseteq> all_fields s" "set (gname_writes (loc s)) \<subseteq> all_gnames s"
  unfolding all_fields_def all_gnames_def using reach_refl [of s] by blast+

lemma finite_all: "finite (all_fields s)" "finite (all_gnames s)"
  by (simp_all add: all_fields_def all_gnames_def)

lemma sound_at: "sound S \<Longrightarrow> S d = Some e \<Longrightarrow> d \<in> set sids \<and> tight d e"
  unfolding sound_def by (metis domI option.sel)

text \<open>The recomputed summary of a script.\<close>

lemma joined_nontop:
  assumes "\<not> eff_top (joined S s)"
  shows "\<not> eff_top (loc s)" "deps_fit S (deps s) (loc s)"
    "field_writes (joined S s) = merge_all (field_writes (loc s)) (map (fw S) (deps s))"
    "gname_writes (joined S s) = merge_all (gname_writes (loc s)) (map (gw S) (deps s))"
    "elems_write (joined S s) \<longleftrightarrow> elems_write (loc s) \<or> (\<exists>d\<in>set (deps s). elems_write (the (S d)))"
    "env_write (joined S s) \<longleftrightarrow> env_write (loc s) \<or> (\<exists>d\<in>set (deps s). env_write (the (S d)))"
proof -
  show l: "\<not> eff_top (loc s)" using assms join_deps_stop [of "loc s" S "deps s"] unfolding joined_def by auto
  note j = join_deps_merge [OF l, of S "deps s"]
  show f: "deps_fit S (deps s) (loc s)" using j assms unfolding joined_def by (metis (full_types))
  from j f show "field_writes (joined S s) = merge_all (field_writes (loc s)) (map (fw S) (deps s))"
    "gname_writes (joined S s) = merge_all (gname_writes (loc s)) (map (gw S) (deps s))"
    "elems_write (joined S s) \<longleftrightarrow> elems_write (loc s) \<or> (\<exists>d\<in>set (deps s). elems_write (the (S d)))"
    "env_write (joined S s) \<longleftrightarrow> env_write (loc s) \<or> (\<exists>d\<in>set (deps s). env_write (the (S d)))"
    unfolding joined_def by simp_all
qed

lemma joined_fits: "\<not> eff_top (loc s) \<Longrightarrow> deps_fit S (deps s) (loc s) \<Longrightarrow> \<not> eff_top (joined S s)"
  using join_deps_merge [of "loc s" S "deps s"] unfolding joined_def by simp

lemma joined_deps:
  assumes "\<not> eff_top (joined S s)" "d \<in> set (deps s)"
  shows "nontop S d" "d \<in> dom S" "\<not> eff_top (the (S d))"
  using joined_nontop(2) [OF assms(1)] assms(2) by (auto simp: deps_fit_def nontop_def split: option.splits)

lemma joined_mono:
  assumes "dom S = dom T" "\<And>d. d \<in> dom S \<Longrightarrow> below (the (S d)) (the (T d))"
  shows "below (joined S s) (joined T s)"
  unfolding below_def
proof (intro impI)
  assume t: "\<not> eff_top (joined T s)"
  note T = joined_nontop [OF t]
  have d: "nontop S d \<and> set (fw S d) \<subseteq> set (fw T d) \<and> set (gw S d) \<subseteq> set (gw T d) \<and>
      (elems_write (the (S d)) \<longrightarrow> elems_write (the (T d))) \<and> (env_write (the (S d)) \<longrightarrow> env_write (the (T d)))" if "d \<in> set (deps s)" for d
    using joined_deps [OF t that] assms(1) assms(2) [of d] by (auto simp: below_def nontop_def split: option.splits)
  have "deps_fit S (deps s) (loc s)" unfolding deps_fit_def
  proof (intro conjI ballI)
    show "fits FIELD_CAP (field_writes (loc s)) (merge_all (field_writes (loc s)) (map (fw S) (deps s)))"
      by (rule fits_mono [OF extends_merge_all extends_merge_all merge_all_mono, of _ _ "fw T"]) (use d T(2) in \<open>simp_all add: deps_fit_def\<close>)
    show "fits GNAME_CAP (gname_writes (loc s)) (merge_all (gname_writes (loc s)) (map (gw S) (deps s)))"
      by (rule fits_mono [OF extends_merge_all extends_merge_all merge_all_mono, of _ _ "gw T"]) (use d T(2) in \<open>simp_all add: deps_fit_def\<close>)
  qed (use d in blast)
  then have s: "\<not> eff_top (joined S s)" using joined_fits T(1) by blast
  note S = joined_nontop [OF s]
  have "set (field_writes (joined S s)) \<subseteq> set (field_writes (joined T s))" "set (gname_writes (joined S s)) \<subseteq> set (gname_writes (joined T s))"
    unfolding S(3,4) T(3,4) using d by (intro merge_all_mono; blast)+
  moreover have "elems_write (joined S s) \<longrightarrow> elems_write (joined T s)" "env_write (joined S s) \<longrightarrow> env_write (joined T s)"
    unfolding S(5,6) T(5,6) using d by blast+
  ultimately show "\<not> eff_top (joined S s) \<and> set (field_writes (joined S s)) \<subseteq> set (field_writes (joined T s)) \<and>
      set (gname_writes (joined S s)) \<subseteq> set (gname_writes (joined T s)) \<and>
      (elems_write (joined S s) \<longrightarrow> elems_write (joined T s)) \<and> (env_write (joined S s) \<longrightarrow> env_write (joined T s))" using s by blast
qed

lemma joined_tight:
  assumes "sound S" "s \<in> set sids"
  shows "tight s (joined S s)"
proof (cases "eff_top (joined S s)")
  case False
  note S = joined_nontop [OF False]
  have d: "set (fw S d) \<subseteq> all_fields s \<and> set (gw S d) \<subseteq> all_gnames s \<and> (elems_write (the (S d)) \<longrightarrow> (\<exists>t\<in>reach s. elems_write (loc t))) \<and>
      (env_write (the (S d)) \<longrightarrow> (\<exists>t\<in>reach s. env_write (loc t)))" if "d \<in> set (deps s)" for d
  proof -
    from joined_deps [OF False that] assms(1) have "tight d (the (S d))" "\<not> eff_top (the (S d))" by (auto simp: sound_def)
    then show ?thesis using all_dep [OF that] reach_dep [OF that] by (simp add: tight_def) blast
  qed
  show ?thesis unfolding tight_def S(3-6) using False d all_own [of s] extends_merge_all by (auto, blast+)
next
  case True
  have "\<exists>t\<in>reach s. blocked t"
  proof (cases "\<exists>d\<in>set (deps s). \<not> nontop S d")
    case True
    then obtain d where d: "d \<in> set (deps s)" "\<not> nontop S d" by blast
    show ?thesis
    proof (cases "S d")
      case None
      then have "blocked d" using assms(1) by (auto simp: sound_def blocked_def)
      then show ?thesis using reach_dep [OF d(1) reach_refl] by blast
    next
      case (Some e)
      then have "tight d e" "eff_top e" using sound_at [OF assms(1)] d(2) by (auto simp: nontop_def)
      then show ?thesis using reach_dep [OF d(1)] by (auto simp: tight_def)
    qed
  next
    case False
    have d: "set (fw S d) \<subseteq> all_fields s \<and> set (gw S d) \<subseteq> all_gnames s" if "d \<in> set (deps s)" for d
    proof -
      have "nontop S d" using False that by blast
      then have "tight d (the (S d))" "\<not> eff_top (the (S d))" using sound_at [OF assms(1)] by (auto simp: nontop_def split: option.splits)
      then show ?thesis using all_dep [OF that] by (auto simp: tight_def)
    qed
    have f: "set (merge_all (field_writes (loc s)) (map (fw S) (deps s))) \<subseteq> all_fields s"
      "set (merge_all (gname_writes (loc s)) (map (gw S) (deps s))) \<subseteq> all_gnames s"
      using d all_own by (intro merge_all_within; blast)+
    have "\<not> deps_fit S (deps s) (loc s) \<or> eff_top (loc s)" using True joined_fits by blast
    then consider "eff_top (loc s)" | "\<not> fits FIELD_CAP (field_writes (loc s)) (merge_all (field_writes (loc s)) (map (fw S) (deps s)))"
      | "\<not> fits GNAME_CAP (gname_writes (loc s)) (merge_all (gname_writes (loc s)) (map (gw S) (deps s)))"
      using False unfolding deps_fit_def by blast
    then have "blocked s"
      by cases (use not_fits_over_cap [OF _ f(1) finite_all(1)] not_fits_over_cap [OF _ f(2) finite_all(2)] in \<open>simp_all add: blocked_def\<close>)
    then show ?thesis by (auto intro: bexI [of _ s])
  qed
  with True show ?thesis by (simp add: tight_def)
qed

lemma sound_recompute:
  assumes "sound S" "x \<in> set sids"
  shows "sound (S(x \<mapsto> joined S x))" "\<And>s. s \<in> set sids \<Longrightarrow> below (the (S s)) (the ((S(x \<mapsto> joined S x)) s))"
proof -
  let ?T = "S(x \<mapsto> joined S x)"
  show up: "below (the (S s)) (the (?T s))" if "s \<in> set sids" for s using assms that by (auto simp: sound_def)
  have dom: "dom S = dom ?T" "dom S = set sids" using assms by (auto simp: sound_def)
  then have "below (joined S s) (joined ?T s)" for s using up by (intro joined_mono) auto
  then have "below (the (?T s)) (joined ?T s) \<and> tight s (the (?T s))" if "s \<in> set sids" for s
    using that assms joined_tight [OF assms] by (auto simp: sound_def intro: eff_below_trans)
  then show "sound ?T" using dom by (simp add: sound_def)
qed

lemma sound_start: "sound (\<lambda>s. if s \<in> set sids then Some (loc s) else None)" (is "sound ?S")
proof -
  have "below (loc s) (joined ?S s)" for s
    using joined_nontop [of ?S s] by (auto simp: below_def)
  moreover have "tight s (loc s)" if "s \<in> set sids" for s
    using all_own [of s] that by (auto simp: tight_def blocked_def intro: bexI [of _ s])
  ultimately show ?thesis by (auto simp: sound_def dom_def)
qed

end

end
