(* ===== verification/Effect_Settle.thy ===== *)
theory Effect_Settle
  imports Effect_Order
begin

text \<open>
  Recomputations with some scripts frozen. As long as the sets of writes do not change, a recomputation only reorders lists, and
  for two given writes each script copies their order from one dependency or has it fixed. If every unfrozen script but
  one is consistent, the copying chains of that one are settled after its recomputation: a chain that comes back to it has
  carried its own order all the way round.
\<close>

context call_graph
begin

section \<open>Room to grow\<close>

definition some_fields :: "((LayoutKey \<times> LayoutKey) option \<times> NameId) set" where
  "some_fields = (\<Union>s\<in>set sids. all_fields s)"

definition some_gnames :: "NameId set" where
  "some_gnames = (\<Union>s\<in>set sids. all_gnames s)"

definition room :: nat where
  "room = card some_fields + card some_gnames + 3"

definition rank :: "EffectSummary \<Rightarrow> nat" where
  "rank e = (if eff_top e then room
     else card (set (field_writes e)) + card (set (gname_writes e)) + of_bool (elems_write e) + of_bool (env_write e))"

definition left :: "summaries \<Rightarrow> nat" where
  "left S = (\<Sum>s\<in>set sids. room - rank (the (S s)))"

lemma finite_some: "finite some_fields" "finite some_gnames"
  using finite_all by (simp_all add: some_fields_def some_gnames_def)

lemma rank_room:
  assumes "tight s e" "s \<in> set sids"
  shows "rank e \<le> room" "\<not> eff_top e \<Longrightarrow> rank e < room"
proof -
  show less: "rank e < room" if "\<not> eff_top e"
  proof -
    have "set (field_writes e) \<subseteq> some_fields" "set (gname_writes e) \<subseteq> some_gnames"
      using assms that unfolding tight_def some_fields_def some_gnames_def by auto
    then have "card (set (field_writes e)) \<le> card some_fields" "card (set (gname_writes e)) \<le> card some_gnames"
      using finite_some by (simp_all add: card_mono)
    then show ?thesis using that by (simp add: rank_def room_def)
  qed
  show "rank e \<le> room" using less by (cases "eff_top e") (simp_all add: rank_def)
qed

lemma sum4_eq:
  "a \<le> a' \<Longrightarrow> b \<le> b' \<Longrightarrow> c \<le> c' \<Longrightarrow> d \<le> d' \<Longrightarrow> a + b + c + d = a' + b' + c' + d' \<Longrightarrow> a = a' \<and> b = b' \<and> c = c' \<and> d = (d' :: nat)"
  by linarith

lemma rank_mono:
  assumes "tight s a" "s \<in> set sids" "below a b"
  shows "rank a \<le> rank b" "rank a = rank b \<Longrightarrow> below b a"
proof -
  have "rank a \<le> rank b \<and> (rank a = rank b \<longrightarrow> below b a)"
  proof (cases "eff_top b")
    case True
    then have "rank b = room" by (simp add: rank_def)
    then show ?thesis using rank_room [OF assms(1,2)] by (cases "eff_top a") (auto simp: below_def)
  next
    case False
    then have a: "\<not> eff_top a" "set (field_writes a) \<subseteq> set (field_writes b)" "set (gname_writes a) \<subseteq> set (gname_writes b)"
      "elems_write a \<longrightarrow> elems_write b" "env_write a \<longrightarrow> env_write b" using assms(3) by (auto simp: below_def)
    have c: "card (set (field_writes a)) \<le> card (set (field_writes b))" "card (set (gname_writes a)) \<le> card (set (gname_writes b))"
      using a by (simp_all add: card_mono)
    have o: "of_bool (elems_write a) \<le> (of_bool (elems_write b) :: nat)" "of_bool (env_write a) \<le> (of_bool (env_write b) :: nat)" using a by auto
    have "below b a" if "rank a = rank b"
    proof -
      have "card (set (field_writes a)) = card (set (field_writes b))" "card (set (gname_writes a)) = card (set (gname_writes b))"
        "of_bool (elems_write a) = (of_bool (elems_write b) :: nat)" "of_bool (env_write a) = (of_bool (env_write b) :: nat)"
        using sum4_eq [OF c o] that a(1) False unfolding rank_def by simp_all
      then have "set (field_writes a) = set (field_writes b)" "set (gname_writes a) = set (gname_writes b)"
        "elems_write a = elems_write b" "env_write a = env_write b"
        using card_subset_eq [OF _ a(2)] card_subset_eq [OF _ a(3)] by (simp_all add: of_bool_eq_iff)
      then show ?thesis using False by (simp add: below_def)
    qed
    then show ?thesis using a(1) False c o by (auto simp: rank_def)
  qed
  then show "rank a \<le> rank b" "rank a = rank b \<Longrightarrow> below b a" by blast+
qed

lemma left_mono:
  assumes "sound S" "sound T" "\<And>s. s \<in> set sids \<Longrightarrow> below (the (S s)) (the (T s))"
  shows "left T \<le> left S" "x \<in> set sids \<Longrightarrow> \<not> below (the (T x)) (the (S x)) \<Longrightarrow> left T < left S"
proof -
  have tight: "tight s (the (S s))" "tight s (the (T s))" if "s \<in> set sids" for s using assms(1,2) that by (auto simp: sound_def)
  have le: "room - rank (the (T s)) \<le> room - rank (the (S s))" if "s \<in> set sids" for s
    using rank_mono(1) [OF tight(1) [OF that] that assms(3) [OF that]] by simp
  then show "left T \<le> left S" unfolding left_def by (rule sum_mono)
  assume x: "x \<in> set sids" "\<not> below (the (T x)) (the (S x))"
  have "rank (the (S x)) < rank (the (T x))" "rank (the (T x)) \<le> room"
    using rank_mono [OF tight(1) [OF x(1)] x(1) assms(3) [OF x(1)]] x(2) rank_room(1) [OF tight(2) [OF x(1)] x(1)] by (auto simp: le_less)
  then have "room - rank (the (T x)) < room - rank (the (S x))" by simp
  then show "left T < left S" unfolding left_def using le x(1) by (intro sum_strict_mono_ex1) auto
qed

section \<open>Frozen steps\<close>

definition step :: "ScriptId set \<Rightarrow> summaries \<Rightarrow> summaries \<Rightarrow> bool" where
  "step B S T = (\<exists>x\<in>set sids - B. same_sets (the (S x)) (joined S x) \<and> T = S(x \<mapsto> joined S x))"

definition settled :: "ScriptId set \<Rightarrow> summaries \<Rightarrow> ScriptId set" where
  "settled B S = {x \<in> set sids. \<forall>T. (step B)\<^sup>*\<^sup>* S T \<longrightarrow> norm (the (T x)) = norm (the (S x))}"

definition consistent :: "summaries \<Rightarrow> ScriptId \<Rightarrow> bool" where
  "consistent S x = (norm (the (S x)) = norm (joined S x))"

lemma steps_keep:
  assumes "(step B)\<^sup>*\<^sup>* S T" "sound S"
  shows "sound T \<and> (\<forall>s\<in>set sids. same_sets (the (S s)) (the (T s))) \<and> (\<forall>s\<in>B. T s = S s)"
  using assms
proof (induction rule: rtranclp_induct)
  case base
  then show ?case by simp
next
  case (step T U)
  then obtain x where x: "x \<in> set sids - B" "same_sets (the (T x)) (joined T x)" "U = T(x \<mapsto> joined T x)" by (auto simp: step_def)
  from step have IH: "sound T" "\<forall>s\<in>set sids. same_sets (the (S s)) (the (T s))" "\<forall>s\<in>B. T s = S s" by auto
  have "sound U" using sound_recompute(1) [OF IH(1)] x by simp
  moreover have "same_sets (the (S s)) (the (U s))" if "s \<in> set sids" for s
    using IH(2) that x(2) same_sets_trans unfolding x(3) by (cases "s = x") auto
  moreover have "U s = S s" if "s \<in> B" for s using IH(3) that x(1) unfolding x(3) by auto
  ultimately show ?case by blast
qed

lemma steps_mono: "(step B)\<^sup>*\<^sup>* S T \<Longrightarrow> C \<subseteq> B \<Longrightarrow> (step C)\<^sup>*\<^sup>* S T"
  by (erule mono_rtranclp [rule_format, rotated]) (auto simp: step_def)

lemma settled_mono:
  assumes "(step B)\<^sup>*\<^sup>* S T"
  shows "settled B S \<subseteq> settled B T"
proof
  fix x assume x: "x \<in> settled B S"
  have "norm (the (U x)) = norm (the (T x))" if "(step B)\<^sup>*\<^sup>* T U" for U
  proof -
    have "norm (the (V x)) = norm (the (S x))" if "(step B)\<^sup>*\<^sup>* S V" for V
      using x that unfolding settled_def mem_Collect_eq by blast
    from this [OF assms] this [OF rtranclp_trans [OF assms that]] show ?thesis by simp
  qed
  then show "x \<in> settled B T" using x unfolding settled_def mem_Collect_eq by blast
qed

section \<open>The order of two writes\<close>

definition parent :: "(EffectSummary \<Rightarrow> 'w list) \<Rightarrow> 'w \<Rightarrow> 'w \<Rightarrow> summaries \<Rightarrow> ScriptId \<Rightarrow> ScriptId option" where
  "parent sel p q S x = (if p \<in> set (sel (loc x)) \<or> q \<in> set (sel (loc x)) then None
     else find (\<lambda>d. p \<in> set (sel (the (S d))) \<or> q \<in> set (sel (the (S d)))) (deps x))"

abbreviation bit :: "(EffectSummary \<Rightarrow> 'w list) \<Rightarrow> 'w \<Rightarrow> 'w \<Rightarrow> summaries \<Rightarrow> ScriptId \<Rightarrow> bool" where
  "bit sel p q S x \<equiv> before p q (sel (the (S x)))"

text \<open>What a recomputation gives: the script's own order, or the order of its parent.\<close>

definition copied :: "(EffectSummary \<Rightarrow> 'w list) \<Rightarrow> 'w \<Rightarrow> 'w \<Rightarrow> summaries \<Rightarrow> ScriptId \<Rightarrow> bool" where
  "copied sel p q S x = (case parent sel p q S x of None \<Rightarrow> before p q (sel (loc x)) | Some y \<Rightarrow> bit sel p q S y)"

lemma find_map: "find P (map f xs) = map_option f (find (P \<circ> f) xs)"
  by (induction xs) auto

lemma before_copied:
  assumes "sel (joined S x) = merge_all (sel (loc x)) (map (\<lambda>d. sel (the (S d))) (deps x))"
  shows "before p q (sel (joined S x)) = copied sel p q S x"
  unfolding assms before_merge_all copied_def parent_def
  by (auto simp: find_map comp_def before_absent split: option.splits)

lemma parent_dep: "parent sel p q S x = Some y \<Longrightarrow> y \<in> set (deps x)"
  unfolding parent_def by (auto simp: find_Some_iff split: if_splits)

lemma parent_same:
  assumes "\<And>d. d \<in> set (deps x) \<Longrightarrow> set (sel (the (S d))) = set (sel (the (T d)))"
  shows "parent sel p q S x = parent sel p q T x"
  unfolding parent_def using assms by (auto intro: find_cong)

section \<open>Chains of parents\<close>

text \<open>
  \<open>pending B S s\<close>: every unfrozen script but \<open>s\<close> is consistent, and recomputing \<open>s\<close> changes no set of writes. The chain of parents of
  \<open>s\<close> then keeps the order of two writes; if it comes back to \<open>s\<close>, the recomputation has not changed their order.
\<close>

definition pending :: "ScriptId set \<Rightarrow> summaries \<Rightarrow> ScriptId \<Rightarrow> bool" where
  "pending B S s = (sound S \<and> s \<in> set sids - B \<and> same_sets (the (S s)) (joined S s) \<and> (\<forall>x\<in>set sids - B - {s}. consistent S x))"

definition write_list :: "(EffectSummary \<Rightarrow> 'w list) \<Rightarrow> bool" where
  "write_list sel = ((\<forall>S x. \<not> eff_top (joined S x) \<longrightarrow> sel (joined S x) = merge_all (sel (loc x)) (map (\<lambda>d. sel (the (S d))) (deps x))) \<and>
     (\<forall>a b. same_sets a b \<longrightarrow> \<not> eff_top a \<longrightarrow> set (sel a) = set (sel b)) \<and> (\<forall>a b. norm a = norm b \<longrightarrow> sel a = sel b))"

definition edge :: "(EffectSummary \<Rightarrow> 'w list) \<Rightarrow> 'w \<Rightarrow> 'w \<Rightarrow> ScriptId set \<Rightarrow> summaries \<Rightarrow> ScriptId \<Rightarrow> ScriptId \<Rightarrow> bool" where
  "edge sel p q B S x y = (x \<in> set sids - B \<and> parent sel p q S x = Some y)"

definition chain :: "(EffectSummary \<Rightarrow> 'w list) \<Rightarrow> 'w \<Rightarrow> 'w \<Rightarrow> ScriptId set \<Rightarrow> summaries \<Rightarrow> ScriptId \<Rightarrow> ScriptId set" where
  "chain sel p q B S s = {y. (edge sel p q B S)\<^sup>*\<^sup>* s y}"

lemma write_lists: "write_list field_writes" "write_list gname_writes"
  unfolding write_list_def by (auto dest: joined_nontop(3) joined_nontop(4) same_setsD norm_eqD(2) norm_eqD(3))

lemma write_list_sets: "write_list sel \<Longrightarrow> same_sets a b \<Longrightarrow> \<not> eff_top a \<Longrightarrow> set (sel a) = set (sel b)"
  unfolding write_list_def by blast

lemma write_list_copied: "write_list sel \<Longrightarrow> \<not> eff_top (joined S x) \<Longrightarrow> before p q (sel (joined S x)) = copied sel p q S x"
  unfolding write_list_def by (rule before_copied) blast

lemma chain_start [simp]: "s \<in> chain sel p q B S s"
  by (simp add: chain_def)

lemma chain_step: "x \<in> chain sel p q B S s \<Longrightarrow> edge sel p q B S x y \<Longrightarrow> y \<in> chain sel p q B S s"
  by (auto simp: chain_def intro: rtranclp.rtrancl_into_rtrancl)

lemma pendingD:
  assumes "pending B S s"
  shows "sound S" "s \<in> set sids - B" "same_sets (the (S s)) (joined S s)" "\<And>x. x \<in> set sids - B \<Longrightarrow> x \<noteq> s \<Longrightarrow> norm (the (S x)) = norm (joined S x)"
  using assms by (simp_all add: pending_def consistent_def)

lemma pending_joined:
  assumes "pending B S s" "x \<in> set sids - B"
  shows "eff_top (joined S x) = eff_top (the (S x))"
  using norm_eqD(1) [OF pendingD(4) [OF assms]] same_sets_top [OF pendingD(3) [OF assms(1)]] by (cases "x = s") simp_all

lemma pending_deps:
  assumes "pending B S s" "x \<in> set sids - B" "\<not> eff_top (the (S x))" "d \<in> set (deps x)"
  shows "d \<in> set sids" "\<not> eff_top (the (S d))"
  using joined_deps [OF _ assms(4), of S] assms(3) pending_joined [OF assms(1,2)] pendingD(1) [OF assms(1)] unfolding sound_def by auto

lemma chain_nontop:
  assumes "pending B S s" "\<not> eff_top (the (S s))" "y \<in> chain sel p q B S s"
  shows "y \<in> set sids \<and> \<not> eff_top (the (S y))"
  using assms(3) unfolding chain_def mem_Collect_eq
proof (induction rule: rtranclp_induct)
  case base
  then show ?case using pendingD(2) [OF assms(1)] assms(2) by simp
next
  case (step y z)
  then have "z \<in> set (deps y)" "y \<in> set sids - B" using parent_dep [of sel p q S y z] by (simp_all add: edge_def)
  then show ?case using pending_deps [OF assms(1)] step.IH by blast
qed

lemma pending_copied:
  assumes "pending B S s" "write_list sel" "x \<in> set sids - B" "x \<noteq> s" "\<not> eff_top (the (S x))"
  shows "bit sel p q S x = copied sel p q S x"
proof -
  have "sel (the (S x)) = sel (joined S x)" using pendingD(4) [OF assms(1,3,4)] assms(2) unfolding write_list_def by blast
  then show ?thesis using write_list_copied [OF assms(2)] pending_joined [OF assms(1,3)] assms(5) by simp
qed

lemma chain_cycle:
  assumes "pending B S s" "write_list sel" "\<not> eff_top (the (S s))" "(edge sel p q B S)\<^sup>*\<^sup>* y s" "y \<in> chain sel p q B S s"
  shows "bit sel p q S y = bit sel p q S s"
  using assms(4,5)
proof (induction rule: converse_rtranclp_induct)
  case (step y z)
  have "bit sel p q S z = bit sel p q S s" using step.IH [OF chain_step [OF step.prems step(1)]] .
  moreover have "bit sel p q S y = bit sel p q S z" if "y \<noteq> s"
    using pending_copied [OF assms(1,2) _ that] chain_nontop [OF assms(1,3) step.prems] step(1) unfolding edge_def copied_def by simp
  ultimately show ?case by (cases "y = s") auto
qed simp

lemma chain_stable:
  fixes S s
  defines "S1 \<equiv> S(s \<mapsto> joined S s)"
  assumes P: "pending B S s" and w: "write_list sel" and nt: "\<not> eff_top (the (S s))" and x: "x \<in> chain sel p q B S s" "x \<in> set sids - B"
  shows "copied sel p q S1 x = bit sel p q S1 x"
proof -
  have ntx: "\<not> eff_top (the (S x))" using chain_nontop [OF P nt x(1)] by blast
  have same: "same_sets (the (S d)) (the (S1 d))" for d using pendingD(3) [OF P] by (simp add: S1_def)
  have at_s: "bit sel p q S1 s = copied sel p q S s"
    using write_list_copied [OF w] pending_joined [OF P pendingD(2) [OF P]] nt by (simp add: S1_def)
  have back_s: "bit sel p q S1 s = bit sel p q S s" if "edge sel p q B S x s"
  proof -
    have "(edge sel p q B S)\<^sup>+\<^sup>+ s s" using x(1) that by (auto simp: chain_def)
    then obtain y where y: "edge sel p q B S s y" "(edge sel p q B S)\<^sup>*\<^sup>* y s" by (auto dest: tranclpD)
    then have "bit sel p q S y = bit sel p q S s" using chain_cycle [OF P w nt y(2) chain_step [OF chain_start y(1)]] by simp
    then show ?thesis using at_s y(1) by (simp add: edge_def copied_def)
  qed
  have par: "parent sel p q S1 x = parent sel p q S x"
    by (rule parent_same) (use write_list_sets [OF w same] pending_deps(2) [OF P x(2) ntx] in blast)
  have "bit sel p q S1 y = bit sel p q S y" if "parent sel p q S x = Some y" for y
    using back_s x(2) that by (cases "y = s") (auto simp: edge_def S1_def)
  then have "copied sel p q S1 x = copied sel p q S x" unfolding copied_def par by (simp split: option.splits)
  also have "\<dots> = bit sel p q S1 x" using pending_copied [OF P w x(2)] at_s ntx by (cases "x = s") (auto simp: S1_def)
  finally show ?thesis .
qed

lemma chain_keeps:
  fixes S s
  defines "S1 \<equiv> S(s \<mapsto> joined S s)"
  assumes P: "pending B S s" and w: "write_list sel" and nt: "\<not> eff_top (the (S s))" and run: "(step B)\<^sup>*\<^sup>* S1 T"
  shows "\<forall>x\<in>chain sel p q B S s. bit sel p q T x = bit sel p q S1 x"
  using run
proof (induction rule: rtranclp_induct)
  case (step T U)
  obtain x where x: "x \<in> set sids - B" "same_sets (the (T x)) (joined T x)" "U = T(x \<mapsto> joined T x)" using step(2) by (auto simp: step_def)
  have sound1: "sound S1" using sound_recompute(1) pendingD(1,2) [OF P] by (simp add: S1_def)
  have same1: "same_sets (the (S d)) (the (S1 d))" for d using pendingD(3) [OF P] by (simp add: S1_def)
  have same: "same_sets (the (S d)) (the (T d))" if "d \<in> set sids" for d
    using steps_keep [OF step(1) sound1] that same1 same_sets_trans by blast
  have "before p q (sel (joined T x)) = bit sel p q S1 x" if c: "x \<in> chain sel p q B S s"
  proof -
    have ntx: "\<not> eff_top (the (S x))" using chain_nontop [OF P nt c] by blast
    then have "\<not> eff_top (joined T x)" using same_sets_top [OF same] same_sets_top [OF x(2)] x(1) by auto
    then have "before p q (sel (joined T x)) = copied sel p q T x" by (rule write_list_copied [OF w])
    moreover have par: "parent sel p q T x = parent sel p q S x" "parent sel p q S1 x = parent sel p q S x"
      by (rule parent_same; use write_list_sets [OF w same] write_list_sets [OF w same1] pending_deps [OF P x(1) ntx] in blast)+
    moreover have "bit sel p q T y = bit sel p q S1 y" if "parent sel p q S x = Some y" for y
      using step.IH chain_step [OF c] x(1) that by (auto simp: edge_def)
    ultimately have "before p q (sel (joined T x)) = copied sel p q S1 x" unfolding copied_def by (simp split: option.splits)
    then show ?thesis using chain_stable [OF P w nt c x(1)] by (simp add: S1_def)
  qed
  then show ?case using step.IH x(3) by simp
qed simp

section \<open>A recomputed script is settled\<close>

lemma settles_nontop:
  assumes P: "pending B S s" and nt: "\<not> eff_top (the (S s))" and run: "(step B)\<^sup>*\<^sup>* (S(s \<mapsto> joined S s)) T"
  shows "norm (the (T s)) = norm (joined S s)"
proof -
  let ?S1 = "S(s \<mapsto> joined S s)"
  have sids: "s \<in> set sids" and sound1: "sound ?S1" using sound_recompute(1) pendingD(1,2) [OF P] by simp_all
  note keep = steps_keep [OF run sound1]
  then have soundT: "sound T" and same: "same_sets (joined S s) (the (T s))" using sids by auto
  have nt1: "\<not> eff_top (joined S s)" using pending_joined [OF P pendingD(2) [OF P]] nt by simp
  then have nt2: "\<not> eff_top (the (T s))" using same_sets_top [OF same] by simp
  have ext: "extends (field_writes (loc s)) (field_writes e) \<and> extends (gname_writes (loc s)) (gname_writes e)" if "tight s e" "\<not> eff_top e" for e
    using that by (simp add: tight_def)
  have t1: "tight s (joined S s)" "tight s (the (T s))" using joined_tight pendingD(1,2) [OF P] soundT sids by (auto simp: sound_def)
  have ord: "before p q (sel (the (T s))) = before p q (sel (joined S s))" if "write_list sel" for p q and sel :: "EffectSummary \<Rightarrow> 'w list"
    using chain_keeps [OF P that nt run] chain_start by fastforce
  show ?thesis
  proof (rule norm_eqI)
    show "field_writes (the (T s)) = field_writes (joined S s)"
      using ext [OF t1(1) nt1] ext [OF t1(2) nt2] same_setsD [OF same nt1] ord [OF write_lists(1)] by (intro extends_eq [of "field_writes (loc s)"]) simp_all
    show "gname_writes (the (T s)) = gname_writes (joined S s)"
      using ext [OF t1(1) nt1] ext [OF t1(2) nt2] same_setsD [OF same nt1] ord [OF write_lists(2)] by (intro extends_eq [of "gname_writes (loc s)"]) simp_all
  qed (use same_setsD [OF same nt1] nt1 nt2 in simp_all)
qed

lemma alike_deps:
  assumes "dom S = dom T" "\<And>d. d \<in> dom S \<Longrightarrow> alike (the (S d)) (the (T d))"
  shows "norm (joined S x) = norm (joined T x)"
  unfolding joined_def
proof (rule join_deps_norm)
  fix d
  have "S d = None \<longleftrightarrow> T d = None" using assms(1) by blast
  then show "rel_option alike (S d) (T d)" using assms(2) [of d] by (cases "S d"; cases "T d") auto
qed simp

text \<open>A saturated script has no part in the summaries that are not saturated, which are all consistent and so never change.\<close>

lemma settles_top:
  assumes P: "pending B S s" and top: "eff_top (the (S s))" and run: "(step B)\<^sup>*\<^sup>* (S(s \<mapsto> joined S s)) T"
  shows "norm (the (T s)) = norm (joined S s) \<and> (\<forall>d\<in>set sids. alike (the (S d)) (the (T d)))"
  using run
proof (induction rule: rtranclp_induct)
  case base
  have "eff_top (joined S s)" using pending_joined [OF P pendingD(2) [OF P]] top by simp
  then show ?case using top by (simp add: alike_def)
next
  case (step T U)
  obtain x where x: "x \<in> set sids - B" "same_sets (the (T x)) (joined T x)" "U = T(x \<mapsto> joined T x)" using step(2) by (auto simp: step_def)
  have "sound T" using steps_keep [OF step(1)] sound_recompute(1) pendingD(1,2) [OF P] by simp
  then have "norm (joined S x) = norm (joined T x)" using step.IH pendingD(1) [OF P] by (intro alike_deps) (auto simp: sound_def)
  moreover have "alike (the (S x)) (joined S x)"
    using pendingD(4) [OF P x(1)] pending_joined [OF P x(1)] top by (cases "x = s") (auto simp: alike_def)
  ultimately have "alike (the (S x)) (joined T x)" using norm_eqD(1) [of "joined S x" "joined T x"] by (auto simp: alike_def)
  then show ?case using step.IH x \<open>norm (joined S x) = norm (joined T x)\<close> by (cases "x = s") auto
qed

lemma settles:
  assumes "pending B S s"
  shows "s \<in> settled B (S(s \<mapsto> joined S s))"
proof -
  have "norm (the (T s)) = norm (joined S s)" if "(step B)\<^sup>*\<^sup>* (S(s \<mapsto> joined S s)) T" for T
    using settles_nontop [OF assms _ that] settles_top [OF assms _ that] by blast
  then show ?thesis using pendingD(2) [OF assms] by (simp add: settled_def)
qed

end

end
