(* ===== verification/Effect_Fix.thy ===== *)
theory Effect_Fix
  imports Effect_Settle
begin

text \<open>
  The worklist loop of \<open>transitive_summaries\<close> returns. The stack discipline freezes the scripts below the one that is
  processed; either a set of writes grows, or the scripts above the frozen ones settle one by one.
\<close>

context call_graph
begin

section \<open>The callers\<close>

lemma set_rev_deps [simp]: "set (rev_deps sids deps d) = {s \<in> set sids. d \<in> set (deps s)}"
  by (auto simp: rev_deps_def)

lemma push_callers_prefix:
  "\<exists>cs. push_callers xs (work, queued) = (cs @ work, queued \<union> set xs) \<and> distinct cs \<and> set cs = set xs - queued"
proof (induction xs arbitrary: work queued)
  case (Cons x xs)
  show ?case
  proof (cases "x \<in> queued")
    case True
    then have "queued \<union> set (x # xs) = queued \<union> set xs" "set (x # xs) - queued = set xs - queued" by auto
    then show ?thesis using Cons.IH [of work queued] True by simp
  next
    case False
    from Cons.IH [of "x # work" "insert x queued"] obtain cs where
      cs: "push_callers xs (x # work, insert x queued) = (cs @ x # work, insert x queued \<union> set xs)" "distinct cs" "set cs = set xs - insert x queued" by blast
    then show ?thesis using False by (intro exI [of _ "cs @ [x]"]) auto
  qed
qed simp

section \<open>One step of the loop\<close>

abbreviation loop :: "ScriptId list \<Rightarrow> summaries \<Rightarrow> summaries option" where
  "loop work S \<equiv> summary_loop sids loc deps work (set work) S"

text \<open>The invariant: every script that is not queued is consistent.\<close>

definition queue_ok :: "ScriptId list \<Rightarrow> summaries \<Rightarrow> bool" where
  "queue_ok work S = (sound S \<and> distinct work \<and> set work \<subseteq> set sids \<and> (\<forall>x\<in>set sids - set work. consistent S x))"

lemma loop_Nil: "loop [] S = Some S"
  by (simp add: summary_loop.simps)

lemma loop_same:
  assumes "distinct (s # rest)" "consistent S s"
  shows "loop (s # rest) S = loop rest S"
proof -
  have "set (s # rest) - {s} = set rest" using assms(1) by auto
  then show ?thesis using assms(2) by (simp add: summary_loop.simps [of sids loc deps "s # rest"] eff_eq_norm consistent_def joined_def Let_def)
qed

lemma loop_change:
  assumes "distinct (s # rest)" "\<not> consistent S s"
  shows "\<exists>cs. loop (s # rest) S = loop (cs @ rest) (S(s \<mapsto> joined S s)) \<and> distinct cs \<and> set cs = {x \<in> set sids. s \<in> set (deps x)} - set rest"
proof -
  have rest: "set (s # rest) - {s} = set rest" using assms(1) by auto
  obtain cs where cs: "push_callers (rev_deps sids deps s) (rest, set rest) = (cs @ rest, set rest \<union> set (rev_deps sids deps s))"
    "distinct cs" "set cs = set (rev_deps sids deps s) - set rest" using push_callers_prefix by blast
  have "set (cs @ rest) = set rest \<union> set (rev_deps sids deps s)" using cs(3) by auto
  then have "loop (s # rest) S = loop (cs @ rest) (S(s \<mapsto> joined S s))"
    using assms(2) cs(1) rest by (simp add: summary_loop.simps [of sids loc deps "s # rest"] eff_eq_norm consistent_def joined_def Let_def)
  then show ?thesis using cs(2,3) unfolding set_rev_deps by blast
qed

lemma joined_other: "s \<notin> set (deps x) \<Longrightarrow> joined (S(s \<mapsto> e)) x = joined S x"
proof -
  have "join_deps (S(s \<mapsto> e)) ds j = join_deps S ds j" if "s \<notin> set ds" for ds j
    using that by (induction ds arbitrary: j) (auto split: option.splits)
  then show "s \<notin> set (deps x) \<Longrightarrow> joined (S(s \<mapsto> e)) x = joined S x" by (simp add: joined_def)
qed

lemma queue_ok_same: "queue_ok (s # rest) S \<Longrightarrow> consistent S s \<Longrightarrow> queue_ok rest S"
  by (auto simp: queue_ok_def)

lemma queue_ok_change:
  assumes "queue_ok (s # rest) S" "distinct cs" "set cs = {x \<in> set sids. s \<in> set (deps x)} - set rest"
  shows "queue_ok (cs @ rest) (S(s \<mapsto> joined S s))"
proof -
  let ?T = "S(s \<mapsto> joined S s)"
  have s: "s \<in> set sids" "sound S" using assms(1) by (auto simp: queue_ok_def)
  have "consistent ?T x" if x: "x \<in> set sids - set (cs @ rest)" for x
  proof -
    have "s \<notin> set (deps x)" using x assms(3) by auto
    then have j: "joined ?T x = joined S x" by (rule joined_other)
    then show ?thesis using x assms(1) by (cases "x = s") (auto simp: consistent_def queue_ok_def)
  qed
  then show ?thesis using assms s sound_recompute(1) by (auto simp: queue_ok_def)
qed

section \<open>Draining\<close>

text \<open>
  Processing the top of the stack ends: a set of writes has grown, or the stack is down to the frozen scripts and only
  frozen steps were taken.
\<close>

definition grown :: "ScriptId list \<Rightarrow> summaries \<Rightarrow> bool" where
  "grown work S = (\<exists>work' T. loop work S = loop work' T \<and> queue_ok work' T \<and> left T < left S)"

definition drained :: "ScriptId list \<Rightarrow> ScriptId list \<Rightarrow> summaries \<Rightarrow> bool" where
  "drained tp rest S = (grown (tp @ rest) S \<or>
     (\<exists>T. loop (tp @ rest) S = loop rest T \<and> queue_ok rest T \<and> (step (set rest))\<^sup>*\<^sup>* S T))"

lemma left_step: "sound S \<Longrightarrow> x \<in> set sids \<Longrightarrow> left (S(x \<mapsto> joined S x)) \<le> left S"
  using left_mono(1) sound_recompute by blast

lemma left_steps:
  assumes "(step B)\<^sup>*\<^sup>* S T" "sound S"
  shows "left T \<le> left S"
  using steps_keep [OF assms] assms(2) by (intro left_mono(1)) (auto simp: same_sets_def)

lemma drained_trans:
  assumes "loop (tp @ rest) S = loop (tp' @ rest) T" "left T \<le> left S" "(step (set rest))\<^sup>*\<^sup>* S T" "drained tp' rest T"
  shows "drained tp rest S"
  using assms unfolding drained_def grown_def by (metis order_less_le_trans rtranclp_trans)

lemma drained_list:
  assumes "\<And>c rest' T. cs \<noteq> [] \<Longrightarrow> queue_ok (c # rest') T \<Longrightarrow> set rest \<subseteq> set rest' \<Longrightarrow> (step (set rest))\<^sup>*\<^sup>* S T \<Longrightarrow> set rest' \<noteq> set rest \<or> rest' = rest \<Longrightarrow>
      drained [c] rest' T"
    and "queue_ok (cs @ rest) S"
  shows "drained cs rest S"
  using assms
proof (induction cs arbitrary: S)
  case Nil
  then show ?case by (auto simp: drained_def)
next
  case (Cons c cs)
  have ok: "queue_ok (c # cs @ rest) S" using Cons.prems(2) by simp
  have "drained [c] (cs @ rest) S"
  proof (rule Cons.prems(1) [OF _ ok])
    show "set (cs @ rest) \<noteq> set rest \<or> cs @ rest = rest" using ok by (cases cs) (auto simp: queue_ok_def)
  qed auto
  then consider "grown (c # cs @ rest) S" | T where "loop (c # cs @ rest) S = loop (cs @ rest) T" "queue_ok (cs @ rest) T" "(step (set (cs @ rest)))\<^sup>*\<^sup>* S T"
    unfolding drained_def by auto
  then show ?case
  proof cases
    case 1
    then show ?thesis by (simp add: drained_def)
  next
    case 2
    have st: "(step (set rest))\<^sup>*\<^sup>* S T" using 2(3) by (rule steps_mono) auto
    have "drained cs rest T" by (rule Cons.IH [OF Cons.prems(1) 2(2)]) (use st in \<open>auto intro: rtranclp_trans\<close>)
    moreover have "left T \<le> left S" using left_steps [OF st] ok by (simp add: queue_ok_def)
    ultimately show ?thesis using drained_trans [of "c # cs" rest S cs T] 2(1) st by simp
  qed
qed

lemma queue_pending:
  assumes "queue_ok (s # rest) S" "same_sets (the (S s)) (joined S s)"
  shows "pending (set rest) S s"
  using assms by (auto simp: queue_ok_def pending_def)

lemma settled_more:
  assumes "pending B S s" "\<not> consistent S s"
  shows "card (set sids - settled B (S(s \<mapsto> joined S s))) < card (set sids - settled B S)"
proof (rule psubset_card_mono)
  let ?T = "S(s \<mapsto> joined S s)"
  have st: "step B S ?T" using pendingD(2,3) [OF assms(1)] by (auto simp: step_def)
  have "s \<notin> settled B S"
  proof
    assume "s \<in> settled B S"
    then have "norm (the (?T s)) = norm (the (S s))" using r_into_rtranclp [of "step B", OF st] unfolding settled_def by blast
    then show False using assms(2) by (simp add: consistent_def)
  qed
  moreover have "s \<in> settled B ?T" by (rule settles [OF assms(1)])
  moreover have "settled B S \<subseteq> settled B ?T" by (rule settled_mono [OF r_into_rtranclp [of "step B", OF st]])
  ultimately show "set sids - settled B ?T \<subset> set sids - settled B S" using pendingD(2) [OF assms(1)] by blast
qed simp

lemma drained_step:
  assumes ok: "queue_ok (s # rest) S"
    and deeper: "\<And>c rest' T. queue_ok (c # rest') T \<Longrightarrow> set rest \<subset> set rest' \<Longrightarrow> drained [c] rest' T"
    and settling: "\<And>c T. queue_ok (c # rest) T \<Longrightarrow> card (set sids - settled (set rest) T) < card (set sids - settled (set rest) S) \<Longrightarrow> drained [c] rest T"
  shows "drained [s] rest S"
proof (cases "consistent S s")
  case True
  have "loop (s # rest) S = loop rest S" using loop_same ok True by (simp add: queue_ok_def)
  then show ?thesis using queue_ok_same [OF ok True] by (auto simp: drained_def)
next
  case False
  let ?T = "S(s \<mapsto> joined S s)"
  from ok have s: "sound S" "s \<in> set sids" "distinct (s # rest)" by (auto simp: queue_ok_def)
  obtain cs where cs: "loop (s # rest) S = loop (cs @ rest) ?T" "distinct cs" "set cs = {x \<in> set sids. s \<in> set (deps x)} - set rest"
    using loop_change [OF s(3) False] by blast
  have okT: "queue_ok (cs @ rest) ?T" by (rule queue_ok_change [OF ok cs(2,3)])
  show ?thesis
  proof (cases "same_sets (the (S s)) (joined S s)")
    case True
    note P = queue_pending [OF ok True]
    have st: "step (set rest) S ?T" using pendingD(2) [OF P] True by (auto simp: step_def)
    have "drained cs rest ?T"
    proof (rule drained_list [OF _ okT])
      fix c rest' U
      assume a: "queue_ok (c # rest') U" "set rest \<subseteq> set rest'" "(step (set rest))\<^sup>*\<^sup>* ?T U" "set rest' \<noteq> set rest \<or> rest' = rest"
      show "drained [c] rest' U"
      proof (cases "rest' = rest")
        case True
        have "card (set sids - settled (set rest) U) \<le> card (set sids - settled (set rest) ?T)"
          using settled_mono [OF a(3)] by (intro card_mono) auto
        with settled_more [OF P False] show ?thesis using settling a(1) True by simp
      qed (use deeper a in blast)
    qed
    then show ?thesis
      using drained_trans [of "[s]" rest S cs ?T] cs(1) r_into_rtranclp [of "step (set rest)", OF st] left_step [OF s(1,2)] by simp
  next
    case False
    then have "\<not> below (the (?T s)) (the (S s))" using s by (simp add: same_sets_def sound_def)
    then have "left ?T < left S" using left_mono(2) [OF s(1)] sound_recompute [OF s(1,2)] s(2) by blast
    then show ?thesis using cs(1) okT by (auto simp: drained_def grown_def)
  qed
qed

lemma drained_one: "queue_ok (s # rest) S \<Longrightarrow> drained [s] rest S"
proof (induction "card (set sids - set rest)" arbitrary: s rest S rule: less_induct)
  case less
  have deeper: "drained [c] rest' T" if c: "queue_ok (c # rest') T" "set rest \<subset> set rest'" for c rest' T
  proof (rule less.hyps [OF _ c(1)])
    have "set rest' \<subseteq> set sids" using c(1) by (simp add: queue_ok_def)
    then show "card (set sids - set rest') < card (set sids - set rest)" using c(2) by (intro psubset_card_mono) auto
  qed
  from less.prems show ?case
  proof (induction "card (set sids - settled (set rest) S)" arbitrary: s S rule: less_induct)
    case (less S s)
    then show ?case using drained_step [OF less.prems deeper less.hyps] by blast
  qed
qed

theorem loop_returns: "queue_ok work S \<Longrightarrow> \<exists>T. loop work S = Some T \<and> queue_ok [] T"
proof (induction "left S" arbitrary: work S rule: less_induct)
  case less
  have "drained work [] S" by (rule drained_list) (use drained_one less.prems in simp_all)
  then consider "grown work S" | T where "loop work S = loop [] T" "queue_ok [] T" by (auto simp: drained_def)
  then show ?case
  proof cases
    case 1
    then show ?thesis using less.hyps unfolding grown_def by metis
  next
    case 2
    then show ?thesis unfolding loop_Nil by blast
  qed
qed

section \<open>What the fixpoint is\<close>

lemma start_ok: "queue_ok (rev sids) (\<lambda>s. if s \<in> set sids then Some (loc s) else None)"
  using sound_start distinct_sids by (simp add: queue_ok_def)

lemma fix_step:
  assumes "queue_ok [] T" "s \<in> set sids" "\<not> eff_top (the (T s))"
  shows "\<not> eff_top (joined T s)" "\<not> eff_top (loc s)" "deps_fit T (deps s) (loc s)" "\<And>d. d \<in> set (deps s) \<Longrightarrow> d \<in> set sids \<and> \<not> eff_top (the (T d))"
    "field_writes (the (T s)) = merge_all (field_writes (loc s)) (map (fw T) (deps s))"
    "gname_writes (the (T s)) = merge_all (gname_writes (loc s)) (map (gw T) (deps s))"
    "elems_write (the (T s)) \<longleftrightarrow> elems_write (loc s) \<or> (\<exists>d\<in>set (deps s). elems_write (the (T d)))"
    "env_write (the (T s)) \<longleftrightarrow> env_write (loc s) \<or> (\<exists>d\<in>set (deps s). env_write (the (T d)))"
proof -
  have eq: "norm (the (T s)) = norm (joined T s)" using assms by (simp add: queue_ok_def consistent_def)
  show nt: "\<not> eff_top (joined T s)" using norm_eqD(1) [OF eq] assms(3) by simp
  note j = joined_nontop [OF nt]
  show "\<not> eff_top (loc s)" "deps_fit T (deps s) (loc s)" by (rule j)+
  show "d \<in> set sids \<and> \<not> eff_top (the (T d))" if "d \<in> set (deps s)" for d
    using joined_deps [OF nt that] assms(1) by (auto simp: queue_ok_def sound_def)
  show "field_writes (the (T s)) = merge_all (field_writes (loc s)) (map (fw T) (deps s))"
    "gname_writes (the (T s)) = merge_all (gname_writes (loc s)) (map (gw T) (deps s))"
    "elems_write (the (T s)) \<longleftrightarrow> elems_write (loc s) \<or> (\<exists>d\<in>set (deps s). elems_write (the (T d)))"
    "env_write (the (T s)) \<longleftrightarrow> env_write (loc s) \<or> (\<exists>d\<in>set (deps s). env_write (the (T d)))"
    unfolding norm_eqD(2-5) [OF eq] by (rule j)+
qed

text \<open>A summary that is not saturated is above the local summaries of all scripts it reaches, none of which is saturated.\<close>

lemma fix_reach:
  assumes "queue_ok [] T" "s \<in> set sids" "\<not> eff_top (the (T s))" "t \<in> reach s"
  shows "t \<in> set sids \<and> \<not> eff_top (the (T t)) \<and> set (field_writes (loc t)) \<subseteq> set (fw T s) \<and> set (gname_writes (loc t)) \<subseteq> set (gw T s) \<and>
    (elems_write (loc t) \<longrightarrow> elems_write (the (T s))) \<and> (env_write (loc t) \<longrightarrow> env_write (the (T s)))"
  using assms(4,2,3) unfolding reach_def mem_Collect_eq
proof (induction rule: converse_rtrancl_induct)
  case base
  note f = fix_step [OF assms(1) base]
  show ?case unfolding f(5-8) using base by simp
next
  case (step s d)
  then have d: "d \<in> set (deps s)" by simp
  note f = fix_step [OF assms(1) step.prems]
  have "set (fw T d) \<subseteq> set (fw T s)" "set (gw T d) \<subseteq> set (gw T s)" "elems_write (the (T d)) \<longrightarrow> elems_write (the (T s))"
    "env_write (the (T d)) \<longrightarrow> env_write (the (T s))" unfolding f(5-8) using d by auto
  then show ?case using step.IH f(4) [OF d] by blast
qed

lemma fix_exact:
  assumes "queue_ok [] T" "s \<in> set sids" "\<not> eff_top (the (T s))"
  shows "set (fw T s) = all_fields s" "set (gw T s) = all_gnames s" "elems_write (the (T s)) \<longleftrightarrow> (\<exists>t\<in>reach s. elems_write (loc t))"
    "env_write (the (T s)) \<longleftrightarrow> (\<exists>t\<in>reach s. env_write (loc t))"
proof -
  have t: "tight s (the (T s))" using assms(1,2) by (simp add: queue_ok_def sound_def)
  note r = fix_reach [OF assms]
  show "set (fw T s) = all_fields s" using t r assms(3) unfolding tight_def all_fields_def by auto
  show "set (gw T s) = all_gnames s" using t r assms(3) unfolding tight_def all_gnames_def by auto
  show "elems_write (the (T s)) \<longleftrightarrow> (\<exists>t\<in>reach s. elems_write (loc t))" "env_write (the (T s)) \<longleftrightarrow> (\<exists>t\<in>reach s. env_write (loc t))"
    using t r assms(3) unfolding tight_def by auto
qed

lemma fix_top:
  assumes "queue_ok [] T" "s \<in> set sids"
  shows "eff_top (the (T s)) \<longleftrightarrow> (\<exists>t\<in>reach s. blocked t)"
proof
  have "tight s (the (T s))" using assms by (simp add: queue_ok_def sound_def)
  then show "\<exists>t\<in>reach s. blocked t" if "eff_top (the (T s))" using that by (simp add: tight_def)
next
  assume "\<exists>t\<in>reach s. blocked t"
  then obtain t where t: "t \<in> reach s" "blocked t" by blast
  show "eff_top (the (T s))"
  proof (rule ccontr)
    assume "\<not> eff_top (the (T s))"
    then have s: "t \<in> set sids" "\<not> eff_top (the (T t))" using fix_reach [OF assms _ t(1)] by auto
    note f = fix_step [OF assms(1) s] and e = fix_exact [OF assms(1) s]
    have "fits FIELD_CAP (field_writes (loc t)) (fw T t)" "fits GNAME_CAP (gname_writes (loc t)) (gw T t)"
      "extends (field_writes (loc t)) (fw T t)" "extends (gname_writes (loc t)) (gw T t)"
      using f(3) extends_merge_all unfolding f(5,6) deps_fit_def by auto
    then have "\<not> over_cap FIELD_CAP (field_writes (loc t)) (all_fields t)" "\<not> over_cap GNAME_CAP (gname_writes (loc t)) (all_gnames t)"
      using fits_not_over_cap e(1,2) by blast+
    then show False using t(2) s f(2) by (simp add: blocked_def)
  qed
qed

lemma summaries_return:
  "\<exists>T. transitive_summaries sids loc deps = Some T \<and> dom T = set sids \<and> queue_ok [] T"
proof -
  obtain T where "loop (rev sids) (\<lambda>s. if s \<in> set sids then Some (loc s) else None) = Some T" "queue_ok [] T"
    using loop_returns [OF start_ok] by blast
  then show ?thesis by (auto simp: transitive_summaries_def queue_ok_def sound_def)
qed

end

section \<open>The summaries of a call graph\<close>

text \<open>The scripts a script can reach, what they write, and the scripts that make every caller saturate.\<close>

definition call_reach :: "(ScriptId \<Rightarrow> ScriptId list) \<Rightarrow> ScriptId \<Rightarrow> ScriptId set" where
  "call_reach deps s = {t. (s, t) \<in> {(a, b). b \<in> set (deps a)}\<^sup>*}"

definition call_fields :: "(ScriptId \<Rightarrow> EffectSummary) \<Rightarrow> (ScriptId \<Rightarrow> ScriptId list) \<Rightarrow> ScriptId \<Rightarrow> ((LayoutKey \<times> LayoutKey) option \<times> NameId) set" where
  "call_fields loc deps s = (\<Union>t\<in>call_reach deps s. set (field_writes (loc t)))"

definition call_gnames :: "(ScriptId \<Rightarrow> EffectSummary) \<Rightarrow> (ScriptId \<Rightarrow> ScriptId list) \<Rightarrow> ScriptId \<Rightarrow> NameId set" where
  "call_gnames loc deps s = (\<Union>t\<in>call_reach deps s. set (gname_writes (loc t)))"

definition call_blocked :: "ScriptId list \<Rightarrow> (ScriptId \<Rightarrow> EffectSummary) \<Rightarrow> (ScriptId \<Rightarrow> ScriptId list) \<Rightarrow> ScriptId \<Rightarrow> bool" where
  "call_blocked sids loc deps t = (t \<notin> set sids \<or> eff_top (loc t) \<or> over_cap FIELD_CAP (field_writes (loc t)) (call_fields loc deps t) \<or>
     over_cap GNAME_CAP (gname_writes (loc t)) (call_gnames loc deps t))"

interpretation graph: call_graph "remdups sids" loc deps for sids loc deps
  by unfold_locales simp

lemma call_graph_terms:
  "graph.reach deps s = call_reach deps s" "graph.all_fields loc deps s = call_fields loc deps s"
  "graph.all_gnames loc deps s = call_gnames loc deps s" "graph.blocked sids loc deps s = call_blocked sids loc deps s"
proof -
  show r: "graph.reach deps s = call_reach deps s" for s by (simp add: graph.reach_def call_reach_def)
  show f: "graph.all_fields loc deps s = call_fields loc deps s" for s by (simp add: graph.all_fields_def call_fields_def r)
  show g: "graph.all_gnames loc deps s = call_gnames loc deps s" for s by (simp add: graph.all_gnames_def call_gnames_def r)
  show "graph.blocked sids loc deps s = call_blocked sids loc deps s" by (simp add: graph.blocked_def call_blocked_def f g)
qed

lemma summaries_exact:
  assumes "distinct sids"
  shows "\<exists>T. transitive_summaries sids loc deps = Some T \<and> dom T = set sids \<and>
    (\<forall>s\<in>set sids. (eff_top (the (T s)) \<longleftrightarrow> (\<exists>t\<in>call_reach deps s. call_blocked sids loc deps t)) \<and>
      (\<not> eff_top (the (T s)) \<longrightarrow> set (field_writes (the (T s))) = call_fields loc deps s \<and> set (gname_writes (the (T s))) = call_gnames loc deps s \<and>
        (elems_write (the (T s)) \<longleftrightarrow> (\<exists>t\<in>call_reach deps s. elems_write (loc t))) \<and>
        (env_write (the (T s)) \<longleftrightarrow> (\<exists>t\<in>call_reach deps s. env_write (loc t)))))"
proof -
  have sids: "remdups sids = sids" using assms by (simp add: distinct_remdups_id)
  obtain T where T: "transitive_summaries sids loc deps = Some T" "dom T = set sids" "graph.queue_ok sids loc deps [] T"
    using graph.summaries_return [of sids loc deps] unfolding sids by auto
  have "set (remdups sids) = set sids" by simp
  note ex = graph.fix_top [OF T(3), unfolded this call_graph_terms] graph.fix_exact [OF T(3), unfolded this call_graph_terms]
  show ?thesis
    by (intro exI [of _ T] conjI ballI impI) (use T(1,2) ex in simp_all)
qed

text \<open>C5. 
  The worklist returns on every call graph, cyclic or not; the summary of a script is saturated exactly when it reaches a script
  that has no summary, is saturated itself, or has more writes to list than the caps allow; every other summary lists
  exactly what the scripts reached from it write.
\<close>

theorem transitive_summaries_exact:
  assumes "distinct sids"
  shows "\<exists>T. transitive_summaries sids loc deps = Some T \<and> dom T = set sids \<and>
    (\<forall>s\<in>set sids. (eff_top (the (T s)) \<longleftrightarrow> (\<exists>t\<in>call_reach deps s. call_blocked sids loc deps t)) \<and>
      (\<not> eff_top (the (T s)) \<longrightarrow> set (field_writes (the (T s))) = call_fields loc deps s \<and> set (gname_writes (the (T s))) = call_gnames loc deps s \<and>
        (elems_write (the (T s)) \<longleftrightarrow> (\<exists>t\<in>call_reach deps s. elems_write (loc t))) \<and>
        (env_write (the (T s)) \<longleftrightarrow> (\<exists>t\<in>call_reach deps s. env_write (loc t)))))"
  using assms by (rule summaries_exact)

definition demo_local :: "ScriptId \<Rightarrow> EffectSummary" where
  "demo_local s = (if s = 3 then eff_saturate eff_default ''generator'' else eff_default\<lparr>gname_writes := [unat s]\<rparr>)"

definition demo_deps :: "ScriptId \<Rightarrow> ScriptId list" where
  "demo_deps s = (if s = 1 then [2, 3] else if s = 2 then [1] else [])"

theorem transitive_summaries_exact_witness:
  "\<exists>T. distinct [1, 2, 3 :: ScriptId] \<and> transitive_summaries [1, 2, 3] demo_local demo_deps = Some T \<and> dom T = {1, 2, 3} \<and>
     eff_top (the (T 2)) \<and> \<not> eff_top (demo_local 1) \<and> \<not> eff_top (demo_local 2)"
proof -
  have d: "distinct [1, 2, 3 :: ScriptId]" by simp
  have e: "(2, 1) \<in> {(a, b). b \<in> set (demo_deps a)}" "(1, 3) \<in> {(a, b). b \<in> set (demo_deps a)}" by (simp_all add: demo_deps_def)
  have "3 \<in> call_reach demo_deps 2" unfolding call_reach_def using rtrancl_into_rtrancl [OF r_into_rtrancl [OF e(1)] e(2)] by simp
  moreover have "call_blocked [1, 2, 3] demo_local demo_deps 3" by (simp add: call_blocked_def demo_local_def eff_saturate_def eff_default_def)
  moreover have "\<not> eff_top (demo_local 1)" "\<not> eff_top (demo_local 2)" by (simp_all add: demo_local_def eff_default_def)
  moreover obtain T where T: "transitive_summaries [1, 2, 3] demo_local demo_deps = Some T" "dom T = set [1, 2, 3]"
    "\<forall>s\<in>set [1, 2, 3]. eff_top (the (T s)) \<longleftrightarrow> (\<exists>t\<in>call_reach demo_deps s. call_blocked [1, 2, 3] demo_local demo_deps t)"
    using transitive_summaries_exact [OF d, of demo_local demo_deps] by blast
  ultimately have "eff_top (the (T 2))" by (metis list.set_intros(1,2))
  then show ?thesis using d T(1,2) \<open>\<not> eff_top (demo_local 1)\<close> \<open>\<not> eff_top (demo_local 2)\<close> by (intro exI [of _ T]) simp
qed

end
