(* ===== verification/Effect_Emit.thy ===== *)
theory Effect_Emit
  imports Effect_Fix Bytecode_Visit
begin

text \<open>
  The emission of effect summaries as a whole (\<open>emit_effect_summaries\<close> in \<^verbatim>\<open>likelier/effects.rs\<close>): the local walk records every
  op it visits, the call edges only add to what it recorded, and so a summary that is not saturated accounts for every op
  of every script it reaches.
\<close>

section \<open>What the local walk records\<close>

text \<open>\<open>grows a b\<close>: the local effects \<open>b\<close> are at least as large as \<open>a\<close>, unless they are saturated.\<close>

definition grows :: "LocalEffects \<Rightarrow> LocalEffects \<Rightarrow> bool" where
  "grows a b = (\<not> eff_top (le_sum b) \<longrightarrow> \<not> eff_top (le_sum a) \<and> (elems_write (le_sum a) \<longrightarrow> elems_write (le_sum b)) \<and>
     (env_write (le_sum a) \<longrightarrow> env_write (le_sum b)) \<and> set (le_calls a) \<subseteq> set (le_calls b) \<and> set (le_field_writes a) \<subseteq> set (le_field_writes b) \<and>
     set (gname_writes (le_sum a)) \<subseteq> set (gname_writes (le_sum b)))"

definition records :: "ScriptId \<Rightarrow> LocalEffects \<Rightarrow> Event \<Rightarrow> bool" where
  "records sid out ev = (case ev of
     BeforeOp pc op _ _ \<Rightarrow> \<not> eff_top (le_sum out) \<longrightarrow>
       op \<in> set (DEFERRED_OPS @ ELEM_WRITE_OPS @ [''SetAliasedVar''] @ CALL_OPS @ BENIGN_OPS) \<and>
       (op \<in> set ELEM_WRITE_OPS \<longrightarrow> elems_write (le_sum out)) \<and> (op = ''SetAliasedVar'' \<longrightarrow> env_write (le_sum out)) \<and>
       (op \<in> set CALL_OPS \<longrightarrow> site_from_raw sid pc \<in> set (le_calls out))
   | _ \<Rightarrow> True)"

lemma local_grows_refl [simp]: "grows a a"
  by (simp add: grows_def)

lemma local_grows_trans: "grows a b \<Longrightarrow> grows b c \<Longrightarrow> grows a c"
  by (auto simp: grows_def)

lemma records_grows: "records sid a ev \<Longrightarrow> grows a b \<Longrightarrow> records sid b ev"
  by (auto simp: records_def grows_def split: Event.splits)

lemma grows_saturate [simp]: "grows a (ew_out (saturate_local w why))"
  by (simp add: grows_def saturate_local_def eff_saturate_def)

lemma grows_before_op: "grows (ew_out w) (ew_out (effect_before_op env pc op w))"
  by (auto simp: effect_before_op_def Let_def) (auto simp: grows_def)

lemma grows_callbacks:
  "prop_write env i w = Some w' \<Longrightarrow> grows (ew_out w) (ew_out w')" "gname_write env i w = Some w' \<Longrightarrow> grows (ew_out w) (ew_out w')"
  "effect_get_prop env i w = Some w' \<Longrightarrow> grows (ew_out w) (ew_out w')" "effect_named_read env i w = Some w' \<Longrightarrow> grows (ew_out w) (ew_out w')"
proof -
  show "prop_write env i w = Some w' \<Longrightarrow> grows (ew_out w) (ew_out w')"
    by (auto simp: prop_write_def Let_def split: if_splits option.splits) (auto simp: grows_def)
  show "gname_write env i w = Some w' \<Longrightarrow> grows (ew_out w) (ew_out w')"
    by (auto simp: gname_write_def Let_def split: if_splits option.splits) (auto simp: grows_def)
  show "effect_get_prop env i w = Some w' \<Longrightarrow> grows (ew_out w) (ew_out w')"
    by (auto simp: effect_get_prop_def Let_def split: if_splits option.splits) (auto simp: grows_def)
  show "effect_named_read env i w = Some w' \<Longrightarrow> grows (ew_out w) (ew_out w')"
    by (auto simp: effect_named_read_def)
qed

lemma grows_event:
  assumes "effect_event env ev w = Some w'"
  shows "grows (ew_out w) (ew_out w')"
proof (cases ev)
  case (Callback cb vs)
  define i where "i = (word_of_int (vs ! 0) :: u32)"
  have sel: "(if A then p else if B then q else if C then r else if D then u else Some w) = Some w' \<Longrightarrow>
      p = Some w' \<or> q = Some w' \<or> r = Some w' \<or> u = Some w' \<or> w' = w" for A B C D p q r u by (auto split: if_splits)
  from sel [OF assms [unfolded effect_event_def Callback Event.case Let_def, folded i_def]] consider "prop_write env i w = Some w'" | "gname_write env i w = Some w'" | "effect_get_prop env i w = Some w'"
    | "effect_named_read env i w = Some w'" | "w' = w" by blast
  then show ?thesis by cases (simp_all add: grows_callbacks)
qed (use assms grows_before_op in \<open>auto simp: effect_event_def\<close>)

lemma op_tables_disjoint:
  "set DEFERRED_OPS \<inter> set (ELEM_WRITE_OPS @ ''SetAliasedVar'' # CALL_OPS) = {}" "set ELEM_WRITE_OPS \<inter> set (''SetAliasedVar'' # CALL_OPS) = {}"
  "''SetAliasedVar'' \<notin> set CALL_OPS"
  by code_simp+

lemma records_before_op: "records (we_sid env) (ew_out (effect_before_op env pc op w)) (BeforeOp pc op u d)"
  using op_tables_disjoint
  by (auto simp: records_def effect_before_op_def Let_def saturate_local_def eff_saturate_def split: if_splits)

lemma records_event: "effect_event env ev w = Some w' \<Longrightarrow> records (we_sid env) (ew_out w') ev"
  using records_before_op by (cases ev) (auto simp: effect_event_def records_def)

abbreviation events_fold :: "WalkEnv \<Rightarrow> Event list \<Rightarrow> EffectWalk \<Rightarrow> EffectWalk option" where
  "events_fold env evs w \<equiv> fold (\<lambda>ev r. Option.bind r (effect_event env ev)) evs (Some w)"

lemma events_fold_None: "fold (\<lambda>ev r. Option.bind r (effect_event env ev)) evs None = None"
  by (induction evs) simp_all

lemma events_fold_records:
  "events_fold env evs w = Some w' \<Longrightarrow> grows (ew_out w) (ew_out w') \<and> (\<forall>ev\<in>set evs. records (we_sid env) (ew_out w') ev)"
proof (induction evs arbitrary: w)
  case (Cons ev evs)
  then obtain v where v: "effect_event env ev w = Some v" "events_fold env evs v = Some w'"
    by (cases "effect_event env ev w") (auto simp: events_fold_None)
  from Cons.IH [OF v(2)] grows_event [OF v(1)] records_event [OF v(1)] show ?case
    by (auto intro: local_grows_trans records_grows)
qed simp

lemma effect_walk_records:
  assumes "effect_walk t env nm = Some w" "visit t (we_script env) = Some evs" "ev \<in> set evs"
  shows "records (we_sid env) (ew_out w) ev"
proof (cases "is_generator_or_async (we_script env)")
  case True
  then have "eff_top (le_sum (ew_out w))" using assms(1) by (auto simp: effect_walk_def saturate_local_def eff_saturate_def Let_def)
  then show ?thesis by (simp add: records_def split: Event.splits)
next
  case False
  then show ?thesis using assms events_fold_records by (fastforce simp: effect_walk_def Let_def)
qed

section \<open>What the call edges add\<close>

definition adds :: "EffectSummary \<Rightarrow> EffectSummary \<Rightarrow> bool" where
  "adds a b = (\<not> eff_top b \<longrightarrow> \<not> eff_top a \<and> (elems_write a \<longrightarrow> elems_write b) \<and> (env_write a \<longrightarrow> env_write b) \<and>
     set (field_writes a) \<subseteq> set (field_writes b) \<and> set (gname_writes a) \<subseteq> set (gname_writes b))"

lemma adds_refl [simp]: "adds a a"
  by (simp add: adds_def)

lemma adds_trans: "adds a b \<Longrightarrow> adds b c \<Longrightarrow> adds a c"
  by (auto simp: adds_def)

lemma adds_saturate [simp]: "adds a (eff_saturate b w)"
  by (simp add: adds_def eff_saturate_def)

lemma adds_elems [simp]: "adds a (b\<lparr>elems_write := True\<rparr>) = adds (a\<lparr>elems_write := False\<rparr>) b"
  by (auto simp: adds_def)

lemma native_summary_adds [simp]: "adds a (native_summary effect a)"
  by (cases effect) (simp_all add: native_summary_def adds_def eff_saturate_def)

lemma fold_fn_adds: "fold_fn sv nm f st = Some st' \<Longrightarrow> adds (snd st) (snd st')"
  by (auto simp: fold_fn_def split: prod.splits option.splits if_splits)

lemma fold_fns_adds: "fold_fns sv nm fs st = Some st' \<Longrightarrow> adds (snd st) (snd st')"
  unfolding fold_fns_def
proof (induction fs arbitrary: st)
  case (Cons f fs)
  have none: "fold (\<lambda>f r. Option.bind r (fold_fn sv nm f)) fs None = None" by (induction fs) simp_all
  obtain v where v: "fold_fn sv nm f st = Some v" "fold (\<lambda>f r. Option.bind r (fold_fn sv nm f)) fs (Some v) = Some st'"
    using Cons.prems none by (cases "fold_fn sv nm f st") auto
  from Cons.IH [OF v(2)] fold_fn_adds [OF v(1)] show ?case by (rule adds_trans [rotated])
qed simp

lemma fold_call_adds: "fold_call sv nm site st = Some st' \<Longrightarrow> adds (snd st) (snd st')"
  unfolding fold_call_def
  by (auto split: prod.splits option.splits if_splits dest: fold_fns_adds fold_fn_adds)

lemma fold_calls_adds: "fold_calls sv nm sites st = Some st' \<Longrightarrow> adds (snd st) (snd st')"
proof (induction sites arbitrary: st)
  case (Cons site sites)
  show ?case
  proof (cases "eff_top (snd st)")
    case False
    with Cons.prems obtain deps sm where v: "fold_call sv nm site st = Some (deps, sm)"
      "fold_calls sv nm sites (deps, if site \<in> elem_sites (sv_engine sv) then sm\<lparr>elems_write := True\<rparr> else sm) = Some st'"
      by (auto split: option.splits)
    have "adds (snd st) (if site \<in> elem_sites (sv_engine sv) then sm\<lparr>elems_write := True\<rparr> else sm)"
      using fold_call_adds [OF v(1)] by (auto simp: adds_def)
    with Cons.IH [OF v(2)] show ?thesis by (auto intro: adds_trans)
  qed (use Cons.prems in simp)
qed simp

lemma fold_accessors_adds: "adds (snd st) (snd (fold_accessors sv sites st))"
proof (induction sites arbitrary: st)
  case (Cons site sites)
  obtain deps sm where st: "st = (deps, sm)" by fastforce
  let ?st = "case sv_call_sites sv site of Some (Scripted targets) \<Rightarrow> if targets \<noteq> [] then (fold add_dep targets deps, sm) else (deps, eff_saturate sm ''accessor'')
      | _ \<Rightarrow> (deps, eff_saturate sm ''accessor'')"
  have "adds sm (snd ?st)" by (auto split: option.splits CallResolution.splits)
  with Cons.IH [of ?st] show ?case unfolding st by (auto intro: adds_trans)
qed simp

lemma resolve_edges_adds:
  assumes "resolve_edges sv nm sid loc = Some (deps, sm)"
  shows "adds (le_sum loc) sm"
proof -
  let ?sm = "(le_sum loc)\<lparr>field_writes := field_writes (le_sum loc) @ map (\<lambda>(recv, name). (recv_range sv sid recv, name)) (le_field_writes loc)\<rparr>"
  obtain st where st: "fold_calls sv nm (le_calls loc) ([], ?sm) = Some st" "(deps, sm) = fold_accessors sv (le_accessor_reads loc) st"
    using assms by (auto simp: resolve_edges_def Let_def)
  have "adds (le_sum loc) ?sm" by (auto simp: adds_def)
  moreover have "adds ?sm (snd st)" using fold_calls_adds [OF st(1)] by simp
  moreover have "adds (snd st) sm" using fold_accessors_adds [of st sv "le_accessor_reads loc"] by (simp add: st(2) [symmetric])
  ultimately show ?thesis by (blast intro: adds_trans)
qed

section \<open>All scripts\<close>

lemma walk_scripts_at:
  assumes "walk_scripts t sv sids nm locals = Some (nm', locals')" "distinct sids" "sid \<in> set sids" "source_object (sv_source sv) sid = Some (SScript script)"
  shows "\<exists>nm0 w. effect_walk t (env_for sv sid script) nm0 = Some w \<and> locals' sid = Some (ew_out w)"
  using assms(1-3)
proof (induction sids arbitrary: nm locals)
  case (Cons x sids)
  have keep: "x \<notin> set sids \<Longrightarrow> walk_scripts t sv sids nm locals = Some (nm', locals') \<Longrightarrow> locals' x = locals x" for x sids nm locals
    by (induction sids arbitrary: nm locals) (auto split: option.splits SourceObject.splits)
  show ?case
  proof (cases "x = sid")
    case True
    then obtain w where "effect_walk t (env_for sv sid script) nm = Some w" "walk_scripts t sv sids (ew_names w) (locals(sid \<mapsto> ew_out w)) = Some (nm', locals')"
      using Cons.prems(1) assms(4) by (auto split: option.splits)
    then show ?thesis using keep [of sid sids] Cons.prems(2) True by auto
  next
    case False
    then show ?thesis using Cons by (auto split: option.splits SourceObject.splits)
  qed
qed simp

lemma resolve_scripts_at:
  assumes "resolve_scripts sv nm locals sids edges = Some edges'" "distinct sids" "sid \<in> set sids"
  shows "\<exists>loc e. locals sid = Some loc \<and> resolve_edges sv nm sid loc = Some e \<and> edges' sid = Some e"
  using assms
proof (induction sids arbitrary: edges)
  case (Cons x sids)
  have keep: "x \<notin> set sids \<Longrightarrow> resolve_scripts sv nm locals sids edges = Some edges' \<Longrightarrow> edges' x = edges x" for x sids edges
    by (induction sids arbitrary: edges) (auto split: option.splits)
  from Cons.prems(1) obtain loc e where e: "locals x = Some loc" "resolve_edges sv nm x loc = Some e" "resolve_scripts sv nm locals sids (edges(x \<mapsto> e)) = Some edges'"
    by (auto split: option.splits)
  show ?case
  proof (cases "x = sid")
    case True
    then show ?thesis using e keep [OF _ e(3), of x] Cons.prems(2) by auto
  qed (use Cons.IH [OF e(3)] Cons.prems in auto)
qed simp

lemma distinct_map_filter: "distinct (map fst xs) \<Longrightarrow> distinct (List.map_filter (\<lambda>(k, v). if P v then Some k else None) xs)"
  by (induction xs) (auto simp: List.map_filter_def split: if_splits intro: rev_image_eqI)

lemma distinct_script_ids:
  assumes "length (objects s) \<le> 2 ^ 32"
  shows "distinct (script_ids s)"
proof -
  have "inj_on (of_nat :: nat \<Rightarrow> 32 word) {0..<length (objects s)}" using assms by (intro inj_onI) (simp add: word_of_nat_eq_iff take_bit_nat_eq_self)
  then have "distinct (map fst (objects_iter s))" by (simp add: objects_iter_def distinct_map)
  moreover have "(\<lambda>(oid, obj). case obj of SScript _ \<Rightarrow> Some oid | _ \<Rightarrow> None) =
    (\<lambda>(oid, obj). if (case obj of SScript _ \<Rightarrow> True | _ \<Rightarrow> False) then Some oid else None)"
    by (auto simp: fun_eq_iff split: SourceObject.splits)
  ultimately show ?thesis unfolding script_ids_def by (metis distinct_sort distinct_map_filter)
qed


text \<open>The scripts and edges of a run that got as far as the fixpoint.\<close>

lemma emit_effect_summaries_run:
  assumes "walk_scripts t sv (script_ids (sv_source sv)) nm Map.empty = Some (nm', locals)"
    and "resolve_scripts sv nm' locals (script_ids (sv_source sv)) Map.empty = Some edges"
  shows "emit_effect_summaries t sv nm =
    transitive_summaries (script_ids (sv_source sv)) (\<lambda>s. snd (the (edges s))) (\<lambda>s. fst (the (edges s)))"
  using assms by (simp add: emit_effect_summaries_def Let_def)

text \<open>C8. 
  Once every script is walked and its call edges are resolved, the emission returns a summary for every script. A
  summary that is not saturated accounts for every op of every script its script reaches: the op is in one of the tables
  of known ops, an op that writes elements or an environment slot is in the summary, and a call op left a call edge that is resolved.
\<close>

theorem effect_summaries_account_for_ops:
  assumes "length (objects (sv_source sv)) \<le> 2 ^ 32"
    and "walk_scripts t sv (script_ids (sv_source sv)) nm Map.empty = Some (nm', locals)"
    and "resolve_scripts sv nm' locals (script_ids (sv_source sv)) Map.empty = Some edges"
  shows "\<exists>T. emit_effect_summaries t sv nm = Some T \<and> dom T = set (script_ids (sv_source sv)) \<and>
    (\<forall>s\<in>dom T. \<not> eff_top (the (T s)) \<longrightarrow> (\<forall>r\<in>call_reach (\<lambda>s. fst (the (edges s))) s. r \<in> dom T \<and>
      (\<forall>script evs pc op u d. source_object (sv_source sv) r = Some (SScript script) \<and> visit t script = Some evs \<and> BeforeOp pc op u d \<in> set evs \<longrightarrow>
        op \<in> set (DEFERRED_OPS @ ELEM_WRITE_OPS @ [''SetAliasedVar''] @ CALL_OPS @ BENIGN_OPS) \<and>
        (op \<in> set ELEM_WRITE_OPS \<longrightarrow> elems_write (the (T s))) \<and> (op = ''SetAliasedVar'' \<longrightarrow> env_write (the (T s))) \<and>
        (op \<in> set CALL_OPS \<longrightarrow> site_from_raw r pc \<in> set (le_calls (the (locals r)))))))"
proof -
  let ?sids = "script_ids (sv_source sv)" and ?loc = "\<lambda>s. snd (the (edges s))" and ?deps = "\<lambda>s. fst (the (edges s))"
  have dist: "distinct ?sids" by (rule distinct_script_ids [OF assms(1)])
  obtain T where T: "emit_effect_summaries t sv nm = Some T" "dom T = set ?sids"
    and ex: "\<And>s. s \<in> set ?sids \<Longrightarrow> (eff_top (the (T s)) \<longleftrightarrow> (\<exists>t\<in>call_reach ?deps s. call_blocked ?sids ?loc ?deps t)) \<and>
      (\<not> eff_top (the (T s)) \<longrightarrow> (elems_write (the (T s)) \<longleftrightarrow> (\<exists>t\<in>call_reach ?deps s. elems_write (?loc t))) \<and>
        (env_write (the (T s)) \<longleftrightarrow> (\<exists>t\<in>call_reach ?deps s. env_write (?loc t))))"
    using summaries_exact [OF dist, of ?loc ?deps] emit_effect_summaries_run [OF assms(2,3)] by auto
  have main: "op \<in> set (DEFERRED_OPS @ ELEM_WRITE_OPS @ [''SetAliasedVar''] @ CALL_OPS @ BENIGN_OPS) \<and>
        (op \<in> set ELEM_WRITE_OPS \<longrightarrow> elems_write (the (T s))) \<and> (op = ''SetAliasedVar'' \<longrightarrow> env_write (the (T s))) \<and>
        (op \<in> set CALL_OPS \<longrightarrow> site_from_raw r pc \<in> set (le_calls (the (locals r))))"
    if s: "s \<in> set ?sids" "\<not> eff_top (the (T s))" and r: "r \<in> call_reach ?deps s" "r \<in> set ?sids" "\<not> eff_top (?loc r)"
      and v: "source_object (sv_source sv) r = Some (SScript script)" "visit t script = Some evs" "BeforeOp pc op u d \<in> set evs" for s r script evs pc op u d
  proof -
    obtain nm0 w where w: "effect_walk t (env_for sv r script) nm0 = Some w" "locals r = Some (ew_out w)"
      using walk_scripts_at [OF assms(2) dist r(2) v(1)] by blast
    obtain ds sm where e: "resolve_edges sv nm' r (ew_out w) = Some (ds, sm)" "edges r = Some (ds, sm)"
      using resolve_scripts_at [OF assms(3) dist r(2)] w(2) by force
    have "records r (ew_out w) (BeforeOp pc op u d)"
      using effect_walk_records [OF w(1) _ v(3)] v(2) by (simp add: env_for_def)
    moreover have "adds (le_sum (ew_out w)) (?loc r)" using resolve_edges_adds [OF e(1)] e(2) by simp
    moreover have "elems_write (?loc r) \<longrightarrow> elems_write (the (T s))" "env_write (?loc r) \<longrightarrow> env_write (the (T s))"
      using ex [OF s(1)] s(2) r(1) by blast+
    ultimately show ?thesis using r(3) w(2) unfolding records_def adds_def by auto
  qed
  have reach: "r \<in> set ?sids \<and> \<not> eff_top (?loc r)" if "s \<in> set ?sids" "\<not> eff_top (the (T s))" "r \<in> call_reach ?deps s" for s r
    using ex [OF that(1)] that(2,3) unfolding call_blocked_def by blast
  show ?thesis
    by (intro exI [of _ T] conjI ballI impI allI; (elim conjE)?) (use T main reach in \<open>blast+\<close>)
qed

text \<open>A script that calls itself.\<close>

definition demo_solved :: Solved where
  "demo_solved = \<lparr>sv_source = \<lparr>objects = [SScript demo_script], global_object = None, selfhosted = [], regex_programs = []\<rparr>,
     sv_engine = engine_default, sv_natives = \<lparr>nat_by_index = [], nat_ids = Map.empty\<rparr>, sv_recv_class = Map.empty,
     sv_site_calls = [site_from_raw 0 3 \<mapsto> fnset_one 0], sv_site_native = Map.empty, sv_site_apply = Map.empty, sv_site_ctor_native = Map.empty,
     sv_range_of = (\<lambda>_. None), sv_this_layouts = Map.empty, sv_accessor_names = {}, sv_call_sites = Map.empty\<rparr>"

definition demo_names :: Names where
  "demo_names = \<lparr>by_val = Map.empty, vals = []\<rparr>"

lemma demo_script_ids: "script_ids (sv_source demo_solved) = [0]"
  by (simp add: script_ids_def objects_iter_def demo_solved_def List.map_filter_def)

lemma demo_known_ops:
  "''Undefined'' \<in> set BENIGN_OPS" "''Int8'' \<in> set BENIGN_OPS" "''TableSwitch'' \<in> set BENIGN_OPS" "''Call'' \<in> set CALL_OPS"
  "''Undefined'' \<notin> set (DEFERRED_OPS @ ELEM_WRITE_OPS @ CALL_OPS)" "''Int8'' \<notin> set (DEFERRED_OPS @ ELEM_WRITE_OPS @ CALL_OPS)"
  "''TableSwitch'' \<notin> set (DEFERRED_OPS @ ELEM_WRITE_OPS @ CALL_OPS)" "''Call'' \<notin> set (DEFERRED_OPS @ ELEM_WRITE_OPS)"
  by code_simp+

definition demo_out :: LocalEffects where
  "demo_out = local_default\<lparr>le_calls := [site_from_raw 0 3]\<rparr>"

lemma demo_walk_scripts: "walk_scripts demo_ops demo_solved [0] demo_names Map.empty = Some (demo_names, [0 \<mapsto> demo_out])"
proof -
  have "is_generator_or_async demo_script = False" by (simp add: demo_script_def)
  then have "effect_walk demo_ops (env_for demo_solved 0 demo_script) demo_names = Some \<lparr>ew_names = demo_names, ew_cur_pc = 6, ew_out = demo_out\<rparr>"
    using demo_known_ops
    by (simp add: effect_walk_def Let_def env_for_def demo_visit demo_events_def effect_event_def effect_before_op_def local_default_def eff_default_def demo_out_def)
  then show ?thesis by (simp add: demo_solved_def source_object_def)
qed

lemma demo_resolve: "resolve_scripts demo_solved demo_names [0 \<mapsto> demo_out] [0] Map.empty = Some [0 \<mapsto> ([0], eff_default)]"
  by (simp add: resolve_edges_def Let_def demo_out_def local_default_def eff_default_def fold_call_def demo_solved_def fnset_one_def
      fold_fns_def fold_fn_def as_script_def is_builtin_def NATIVE_BASE_def add_dep_def elem_sites_def con_sites_def engine_default_def List.map_filter_def)

theorem effect_summaries_account_for_ops_witness:
  "length (objects (sv_source demo_solved)) \<le> 2 ^ 32 \<and> (\<exists>T. emit_effect_summaries demo_ops demo_solved demo_names = Some T \<and> dom T = {0})"
proof -
  have len: "length (objects (sv_source demo_solved)) \<le> 2 ^ 32" by (simp add: demo_solved_def)
  note run = demo_walk_scripts [folded demo_script_ids] demo_resolve [folded demo_script_ids]
  show ?thesis using len effect_summaries_account_for_ops [OF len run] demo_script_ids by auto
qed

end
