(* ===== verification/Layout.thy ===== *)
theory Layout
  imports Types "HOL-Library.Sublist"
begin

text \<open>
  Predicted layout rows, \<^verbatim>\<open>compiler/src/likelier/emit.rs\<close>: the predictor groups, the row of a constructor with its delegates'
  writes spliced in, the fold of several rows into their common prefix, and the masks and key runs that a range
  guard over several rows may serve. Layout keys are \<open>nat\<close> here: \<open>next_key\<close> counts from 0 and never passes \<open>LayoutKey::LIMIT\<close>. Counters of
  refused names are unbounded. Where the code iterates over a hash map and the order is not fixed by a sort, the order
  is an argument.
\<close>

definition LAY_CAP :: nat where "LAY_CAP = 16"
definition MAX_DELEG_DEPTH :: nat where "MAX_DELEG_DEPTH = 8"

section \<open>Predictor groups\<close>

type_synonym GroupId = "64 word"

definition CTOR_TAG :: GroupId where "CTOR_TAG = push_bit 32 1"

definition group_of_ctor :: "ScriptId \<Rightarrow> GroupId" where
  "group_of_ctor f = or CTOR_TAG (ucast f)"

definition group_of_class_id :: "ClassId \<Rightarrow> GroupId" where
  "group_of_class_id c = ucast (of_nat c :: u32)"

definition group_is_ctor :: "GroupId \<Rightarrow> bool" where
  "group_is_ctor g = (and g CTOR_TAG \<noteq> 0)"

definition group_ctor :: "GroupId \<Rightarrow> ScriptId option" where
  "group_ctor g = (if group_is_ctor g then Some (ucast g) else None)"

definition group_class :: "GroupId \<Rightarrow> ClassId option" where
  "group_class g = (if \<not> group_is_ctor g then Some (unat (ucast g :: u32)) else None)"

section \<open>Rows\<close>

record LayoutRow =
  row_names :: "NameId list"
  row_dropped :: nat

definition row_default :: LayoutRow where
  "row_default = \<lparr>row_names = [], row_dropped = 0\<rparr>"

definition row_push :: "LayoutRow \<Rightarrow> NameId \<Rightarrow> LayoutRow" where
  "row_push r name =
     (if name \<in> set (row_names r) then r
      else if length (row_names r) \<ge> LAY_CAP then r\<lparr>row_dropped := row_dropped r + 1\<rparr>
      else r\<lparr>row_names := row_names r @ [name]\<rparr>)"

section \<open>Folding rows\<close>

record NameFold =
  nf_slot :: "SlotIndex option"
  nf_rows :: u32

record SlotFold =
  sf_rows :: u32
  sf_names :: "NameId \<rightharpoonup> NameFold"

definition fold_default :: SlotFold where
  "fold_default = \<lparr>sf_rows = 0, sf_names = Map.empty\<rparr>"

definition fold_name :: "SlotIndex \<Rightarrow> NameFold option \<Rightarrow> NameFold" where
  "fold_name slot e = (case e of
     None \<Rightarrow> \<lparr>nf_slot = Some slot, nf_rows = 1\<rparr>
   | Some e \<Rightarrow> \<lparr>nf_slot = (if nf_slot e \<noteq> Some slot then None else nf_slot e), nf_rows = nf_rows e + 1\<rparr>)"

text \<open>The index conversion panics past 32 bits.\<close>

fun fold_names :: "nat \<Rightarrow> NameId list \<Rightarrow> (NameId \<rightharpoonup> NameFold) \<Rightarrow> (NameId \<rightharpoonup> NameFold) option" where
  "fold_names i [] m = Some m"
| "fold_names i (name # row) m = (if i < 2 ^ 32 then fold_names (i + 1) row (m(name \<mapsto> fold_name (of_nat i) (m name))) else None)"

definition fold_add_row :: "SlotFold \<Rightarrow> NameId list \<Rightarrow> SlotFold option" where
  "fold_add_row sf row = map_option (\<lambda>m. \<lparr>sf_rows = sf_rows sf + 1, sf_names = m\<rparr>) (fold_names 0 row (sf_names sf))"

fun fold_add_rows :: "SlotFold \<Rightarrow> NameId list list \<Rightarrow> SlotFold option" where
  "fold_add_rows sf [] = Some sf"
| "fold_add_rows sf (row # rows) = (case fold_add_row sf row of None \<Rightarrow> None | Some sf \<Rightarrow> fold_add_rows sf rows)"

text \<open>\<open>order\<close> lists the names in the order the hash map yields them.\<close>

fun by_slot :: "SlotFold \<Rightarrow> NameId list \<Rightarrow> (SlotIndex \<rightharpoonup> NameId)" where
  "by_slot sf [] = Map.empty"
| "by_slot sf (name # order) = (case sf_names sf name of
     Some f \<Rightarrow> (case nf_slot f of
         Some s \<Rightarrow> if nf_rows f = sf_rows sf then (by_slot sf order)(s \<mapsto> name) else by_slot sf order
       | None \<Rightarrow> by_slot sf order)
   | None \<Rightarrow> by_slot sf order)"

fun prefix_loop :: "nat \<Rightarrow> nat \<Rightarrow> (SlotIndex \<rightharpoonup> NameId) \<Rightarrow> NameId list" where
  "prefix_loop 0 i m = []"
| "prefix_loop (Suc k) i m = (case m (of_nat i) of Some n \<Rightarrow> n # prefix_loop k (i + 1) (m(of_nat i := None)) | None \<Rightarrow> [])"

definition universal_prefix :: "NameId list \<Rightarrow> SlotFold \<Rightarrow> NameId list" where
  "universal_prefix order sf = prefix_loop LAY_CAP 0 (by_slot sf (rev order))"

text \<open>Folding a row: each of its names is touched once, at its position.\<close>

lemma fold_names_at:
  assumes "distinct row" "i + length row \<le> 2 ^ 32"
  shows "\<exists>m'. fold_names i row m = Some m' \<and> (\<forall>n. n \<notin> set row \<longrightarrow> m' n = m n) \<and>
    (\<forall>j<length row. m' (row ! j) = Some (fold_name (of_nat (i + j)) (m (row ! j))))"
  using assms
proof (induction row arbitrary: i m)
  case (Cons x row)
  let ?m = "m(x \<mapsto> fold_name (of_nat i) (m x))"
  have tl: "distinct row" "i + 1 + length row \<le> 2 ^ 32" using Cons.prems by simp_all
  obtain m' where m': "fold_names (i + 1) row ?m = Some m'" "\<forall>n. n \<notin> set row \<longrightarrow> m' n = ?m n"
    "\<forall>j<length row. m' (row ! j) = Some (fold_name (of_nat (i + 1 + j)) (?m (row ! j)))"
    using Cons.IH [OF tl, of ?m] by blast
  have "m' ((x # row) ! j) = Some (fold_name (of_nat (i + j)) (m ((x # row) ! j)))" if "j < length (x # row)" for j
    using m'(2,3) that Cons.prems(1) by (cases j) (auto simp: nth_mem)
  then show ?case using m'(1,2) Cons.prems by auto
qed simp

text \<open>What the fold knows of a name after some rows: how many carry it, and the slot they agree on.\<close>

definition placed :: "NameId list list \<Rightarrow> NameId \<Rightarrow> nat \<Rightarrow> bool" where
  "placed rows n i = (\<forall>r\<in>set rows. n \<in> set r \<longrightarrow> i < length r \<and> r ! i = n)"

definition fold_ok :: "NameId list list \<Rightarrow> SlotFold \<Rightarrow> bool" where
  "fold_ok rows sf = (sf_rows sf = of_nat (length rows) \<and>
     (\<forall>n. (case sf_names sf n of
         None \<Rightarrow> \<forall>r\<in>set rows. n \<notin> set r
       | Some f \<Rightarrow> (\<exists>r\<in>set rows. n \<in> set r) \<and> nf_rows f = of_nat (length (filter (\<lambda>r. n \<in> set r) rows)) \<and>
           (\<forall>s. nf_slot f = Some s \<longleftrightarrow> placed rows n (unat s)))))"

lemma fold_ok_add:
  assumes "fold_ok rows sf" "distinct row" "length row \<le> 2 ^ 32"
  shows "\<exists>sf'. fold_add_row sf row = Some sf' \<and> fold_ok (rows @ [row]) sf'"
proof -
  obtain m' where m': "fold_names 0 row (sf_names sf) = Some m'" "\<And>n. n \<notin> set row \<Longrightarrow> m' n = sf_names sf n"
    "\<And>j. j < length row \<Longrightarrow> m' (row ! j) = Some (fold_name (of_nat j) (sf_names sf (row ! j)))"
    using fold_names_at [OF assms(2), of 0 "sf_names sf"] assms(3) by auto
  let ?P = "\<lambda>rows n e. case e of None \<Rightarrow> \<forall>r\<in>set rows. n \<notin> set r
       | Some f \<Rightarrow> (\<exists>r\<in>set rows. n \<in> set r) \<and> nf_rows f = of_nat (length (filter (\<lambda>r. n \<in> set r) rows)) \<and>
           (\<forall>s. nf_slot f = Some s \<longleftrightarrow> placed rows n (unat s))"
  have old: "?P rows n (sf_names sf n)" for n using assms(1) by (simp add: fold_ok_def)
  have "?P (rows @ [row]) n (m' n)" for n
  proof (cases "n \<in> set row")
    case False
    then show ?thesis using old [of n] m'(2) by (auto simp: placed_def split: option.splits)
  next
    case True
    then obtain j where j: "j < length row" "row ! j = n" by (auto simp: in_set_conv_nth)
    then have jw: "unat (of_nat j :: u32) = j" using assms(3) by (simp add: unat_of_nat take_bit_nat_eq_self)
    have here: "i < length row \<and> row ! i = n \<longleftrightarrow> i = j" for i using j assms(2) by (auto simp: nth_eq_iff_index_eq)
    have pl: "placed (rows @ [row]) n i \<longleftrightarrow> placed rows n i \<and> i = j" for i using True here by (auto simp: placed_def)
    have eq: "of_nat j = s \<longleftrightarrow> unat s = j" for s :: u32 using jw by auto
    show ?thesis
    proof (cases "sf_names sf n")
      case None
      then have "placed rows n i" for i using old [of n] by (simp add: placed_def)
      moreover have "filter (\<lambda>r. n \<in> set r) rows = []" using old [of n] None by (simp add: filter_empty_conv)
      ultimately show ?thesis using m'(3) [OF j(1)] j(2) None True by (simp add: fold_name_def pl eq)
    next
      case (Some f)
      have "(if nf_slot f \<noteq> Some (of_nat j) then None else nf_slot f) = Some s \<longleftrightarrow> nf_slot f = Some s \<and> unat s = j" for s
        using eq by auto
      then show ?thesis using m'(3) [OF j(1)] j(2) old [of n] True Some by (simp add: fold_name_def pl)
    qed
  qed
  then show ?thesis using m'(1) assms(1) by (simp add: fold_add_row_def fold_ok_def)
qed

lemma fold_ok_rows:
  assumes "fold_ok done sf" "\<And>r. r \<in> set rows \<Longrightarrow> distinct r \<and> length r \<le> 2 ^ 32"
  shows "\<exists>sf'. fold_add_rows sf rows = Some sf' \<and> fold_ok (done @ rows) sf'"
  using assms
proof (induction rows arbitrary: "done" sf)
  case (Cons row rows)
  obtain sf1 where sf1: "fold_add_row sf row = Some sf1" "fold_ok (done @ [row]) sf1"
    using fold_ok_add [OF Cons.prems(1)] Cons.prems(2) by auto
  from Cons.IH [OF sf1(2)] Cons.prems(2) sf1(1) show ?case by auto
qed auto

lemma fold_ok_default: "fold_ok [] fold_default"
  by (simp add: fold_ok_def fold_default_def)

section \<open>The common prefix\<close>

definition everywhere :: "NameId list list \<Rightarrow> NameId \<Rightarrow> nat \<Rightarrow> bool" where
  "everywhere rows n i = (\<forall>r\<in>set rows. i < length r \<and> r ! i = n)"

lemma everywhere_unique: "rows \<noteq> [] \<Longrightarrow> everywhere rows n i \<Longrightarrow> everywhere rows n' i \<Longrightarrow> n = n'"
  by (cases rows) (auto simp: everywhere_def)

lemma of_nat_u32_eq: "a < 2 ^ 32 \<Longrightarrow> b < 2 ^ 32 \<Longrightarrow> (of_nat a :: u32) = of_nat b \<longleftrightarrow> a = b"
  by (simp add: word_of_nat_eq_iff take_bit_nat_eq_self)

lemma fold_entry:
  assumes "fold_ok rows sf" "rows \<noteq> []" "length rows < 2 ^ 32"
  shows "(\<exists>f. sf_names sf n = Some f \<and> nf_slot f = Some s \<and> nf_rows f = sf_rows sf) \<longleftrightarrow> everywhere rows n (unat s)"
proof -
  have P: "case sf_names sf n of None \<Rightarrow> \<forall>r\<in>set rows. n \<notin> set r
       | Some f \<Rightarrow> (\<exists>r\<in>set rows. n \<in> set r) \<and> nf_rows f = of_nat (length (filter (\<lambda>r. n \<in> set r) rows)) \<and>
           (\<forall>s. nf_slot f = Some s \<longleftrightarrow> placed rows n (unat s))" and len: "sf_rows sf = of_nat (length rows)"
    using assms(1) by (simp_all add: fold_ok_def)
  have all: "nf_rows f = sf_rows sf \<longleftrightarrow> (\<forall>r\<in>set rows. n \<in> set r)" if "sf_names sf n = Some f" for f
  proof -
    have "length (filter (\<lambda>r. n \<in> set r) rows) < 2 ^ 32" using le_less_trans [OF length_filter_le assms(3)] .
    then have "(of_nat (length (filter (\<lambda>r. n \<in> set r) rows)) :: u32) = of_nat (length rows) \<longleftrightarrow> length (filter (\<lambda>r. n \<in> set r) rows) = length rows"
      using assms(3) by (intro of_nat_u32_eq) auto
    then have "nf_rows f = sf_rows sf \<longleftrightarrow> length (filter (\<lambda>r. n \<in> set r) rows) = length rows" using P that len by simp
    then show ?thesis by (auto simp: filter_id_conv dest: length_filter_less intro: filter_True)
  qed
  have ev: "everywhere rows n i \<longleftrightarrow> (\<forall>r\<in>set rows. n \<in> set r) \<and> placed rows n i" for i
    by (auto simp: everywhere_def placed_def)
  show ?thesis
  proof (cases "sf_names sf n")
    case None
    then have "\<not> everywhere rows n (unat s)" using P assms(2) ev by (cases rows) auto
    then show ?thesis using None by simp
  next
    case (Some f)
    then show ?thesis using P all [OF Some] ev by auto
  qed
qed

lemma by_slot_at:
  assumes "fold_ok rows sf" "rows \<noteq> []" "length rows < 2 ^ 32"
  shows "by_slot sf order s = Some n \<longleftrightarrow> n \<in> set order \<and> everywhere rows n (unat s)"
proof (induction order)
  case (Cons x order)
  note entry = fold_entry [OF assms, of x]
  show ?case
  proof (cases "\<exists>s' f. sf_names sf x = Some f \<and> nf_slot f = Some s' \<and> nf_rows f = sf_rows sf")
    case True
    then obtain s' f where f: "sf_names sf x = Some f" "nf_slot f = Some s'" "nf_rows f = sf_rows sf" by blast
    then have e: "everywhere rows x (unat s')" using entry by blast
    have "everywhere rows x (unat s) \<longleftrightarrow> s = s'" using entry [of s] f by auto
    moreover have "by_slot sf (x # order) = (by_slot sf order)(s' \<mapsto> x)" using f by simp
    ultimately show ?thesis using Cons everywhere_unique [OF assms(2) e, of n] e by (cases "s = s'") auto
  next
    case False
    then have "by_slot sf (x # order) = by_slot sf order" by (auto split: option.splits)
    moreover have "\<not> everywhere rows x (unat s)" using entry False by blast
    ultimately show ?thesis using Cons by auto
  qed
qed simp

lemma Longest_common_prefix_everywhere:
  fixes rows :: "NameId list list"
  assumes "rows \<noteq> []"
  defines "L \<equiv> Longest_common_prefix (set rows)"
  shows "i < length L \<Longrightarrow> everywhere rows (L ! i) i" "\<not> everywhere rows n (length L)"
proof -
  have pre: "prefix L r" if "r \<in> set rows" for r using Longest_common_prefix_prefix [OF that] by (simp add: L_def)
  show "everywhere rows (L ! i) i" if "i < length L"
    using pre that unfolding everywhere_def by (metis order_less_le_trans prefix_length_le nth_append prefixE)
  show "\<not> everywhere rows n (length L)"
  proof
    assume e: "everywhere rows n (length L)"
    have "prefix (L @ [n]) r" if "r \<in> set rows" for r
      using pre [OF that] e that append_one_prefix [of L r] by (auto simp: everywhere_def)
    then have "length (L @ [n]) \<le> length L" unfolding L_def using assms(1) by (intro Longest_common_prefix_longest) auto
    then show False by simp
  qed
qed

lemma prefix_loop_take:
  fixes m :: "SlotIndex \<rightharpoonup> NameId"
  assumes "rows \<noteq> []" "\<And>j n. i \<le> j \<Longrightarrow> j < 2 ^ 32 \<Longrightarrow> m (of_nat j) = Some n \<longleftrightarrow> everywhere rows n j"
    and "i \<le> length (Longest_common_prefix (set rows))" "i + k \<le> 2 ^ 32"
  shows "prefix_loop k i m = take k (drop i (Longest_common_prefix (set rows)))"
  using assms(2-4)
proof (induction k arbitrary: i m)
  case (Suc k)
  let ?L = "Longest_common_prefix (set rows)"
  note L = Longest_common_prefix_everywhere [OF assms(1)]
  have i: "m (of_nat i) = Some n \<longleftrightarrow> everywhere rows n i" for n using Suc.prems(1,3) by simp
  show ?case
  proof (cases "i < length ?L")
    case True
    have "(m(of_nat i := None)) (of_nat j) = Some n \<longleftrightarrow> everywhere rows n j" if "i + 1 \<le> j" "j < 2 ^ 32" for j n
      using Suc.prems(1) [of j n] that of_nat_u32_eq [of j i] by auto
    then have "prefix_loop k (i + 1) (m(of_nat i := None)) = take k (drop (i + 1) ?L)"
      using True Suc.prems(3) by (intro Suc.IH) auto
    then show ?thesis using i L(1) [OF True] Cons_nth_drop_Suc [OF True] by (metis Suc_eq_plus1 option.simps(5) prefix_loop.simps(2) take_Suc_Cons)
  next
    case False
    then have "i = length ?L" using Suc.prems(2) by simp
    then have "m (of_nat i) = None" using i L(2) by (metis option.exhaust)
    then show ?thesis using False by simp
  qed
qed simp

lemma universal_prefix_at:
  assumes "rows \<noteq> []" "length rows < 2 ^ 32" "\<And>r. r \<in> set rows \<Longrightarrow> distinct r \<and> length r \<le> 2 ^ 32"
  shows "\<exists>sf. fold_add_rows fold_default rows = Some sf \<and>
    (\<forall>order. set order = dom (sf_names sf) \<longrightarrow> universal_prefix order sf = take LAY_CAP (Longest_common_prefix (set rows)))"
proof -
  obtain sf where sf: "fold_add_rows fold_default rows = Some sf" "fold_ok rows sf"
    using fold_ok_rows [OF fold_ok_default] assms(3) by auto
  have "universal_prefix order sf = take LAY_CAP (Longest_common_prefix (set rows))" if o: "set order = dom (sf_names sf)" for order
  proof -
    have "by_slot sf (rev order) (of_nat j) = Some n \<longleftrightarrow> everywhere rows n j" if "j < 2 ^ 32" for j n
    proof -
      have "unat (of_nat j :: u32) = j" using that by (simp add: unat_of_nat take_bit_nat_eq_self)
      moreover have "n \<in> set order" if "everywhere rows n j"
        using that fold_entry [OF sf(2) assms(1,2), of n "of_nat j"] o \<open>unat (of_nat j :: u32) = j\<close> by auto
      ultimately show ?thesis using by_slot_at [OF sf(2) assms(1,2), of "rev order" "of_nat j" n] by auto
    qed
    then have "prefix_loop LAY_CAP 0 (by_slot sf (rev order)) = take LAY_CAP (drop 0 (Longest_common_prefix (set rows)))"
      by (intro prefix_loop_take [OF assms(1)]) (simp_all add: LAY_CAP_def)
    then show ?thesis by (simp add: universal_prefix_def)
  qed
  with sf(1) show ?thesis by blast
qed

text \<open>C11. The universal prefix of a set of rows is their longest common prefix, cut at the cap; the order of the hash map is
  irrelevant.\<close>

theorem universal_prefix_is_common_prefix:
  assumes "rows \<noteq> []" "length rows < 2 ^ 32" "\<And>r. r \<in> set rows \<Longrightarrow> distinct r \<and> length r \<le> 2 ^ 32"
  shows "\<exists>sf. fold_add_rows fold_default rows = Some sf \<and>
    (\<forall>order. set order = dom (sf_names sf) \<longrightarrow> universal_prefix order sf = take LAY_CAP (Longest_common_prefix (set rows)))"
  using assms by (rule universal_prefix_at)

theorem universal_prefix_is_common_prefix_witness:
  "\<exists>sf. fold_add_rows fold_default [[1, 2, 3], [1, 2, 4, 3]] = Some sf \<and>
    (\<forall>order. set order = dom (sf_names sf) \<longrightarrow> universal_prefix order sf = take LAY_CAP (Longest_common_prefix {[1, 2, 3], [1, 2, 4, 3]}))"
  by (rule universal_prefix_is_common_prefix [of "[[1, 2, 3], [1, 2, 4, 3]]", unfolded set_simps]) auto

section \<open>The row of a constructor\<close>

datatype TEvent = Write NameId | Deleg Pc | DelegM Pc

record RowEnv =
  rv_events :: "ScriptId \<rightharpoonup> TEvent list"
  rv_apply_targets :: "Site \<rightharpoonup> ScriptId"
  rv_single_call_target :: "Site \<rightharpoonup> ScriptId"
  rv_follow :: bool

record CtorRowExpander =
  ex_memo :: "ScriptId \<rightharpoonup> NameId list"
  ex_participants :: "ScriptId \<rightharpoonup> ScriptId Agreed"
  ex_layout_fields :: nat
  ex_deleg_depth :: nat

definition expander_new :: CtorRowExpander where
  "expander_new = \<lparr>ex_memo = Map.empty, ex_participants = Map.empty, ex_layout_fields = 0, ex_deleg_depth = 0\<rparr>"

definition note_participant :: "ScriptId \<Rightarrow> ScriptId \<Rightarrow> CtorRowExpander \<Rightarrow> CtorRowExpander" where
  "note_participant target tp x = x\<lparr>ex_participants := observe_in (ex_participants x) target tp\<rparr>"

definition event_target :: "RowEnv \<Rightarrow> ScriptId \<Rightarrow> TEvent \<Rightarrow> ScriptId option" where
  "event_target env f ev = (case ev of
     Write _ \<Rightarrow> None
   | Deleg pc \<Rightarrow> rv_apply_targets env (site_from_raw f pc)
   | DelegM pc \<Rightarrow> if rv_follow env then rv_single_call_target env (site_from_raw f pc) else None)"

text \<open>
  \<open>hops\<close> is \<open>MAX_DELEG_DEPTH + 1 - depth\<close>: the guard \<open>depth > MAX_DELEG_DEPTH\<close> is \<open>hops = 0\<close>. A row under expansion is in the memo as the
  empty row.
\<close>

function expand_under :: "RowEnv \<Rightarrow> ScriptId \<Rightarrow> ScriptId \<Rightarrow> nat \<Rightarrow> CtorRowExpander \<Rightarrow> NameId list \<times> CtorRowExpander"
  and collect_events :: "RowEnv \<Rightarrow> ScriptId \<Rightarrow> ScriptId \<Rightarrow> nat \<Rightarrow> TEvent list \<Rightarrow> LayoutRow \<Rightarrow> CtorRowExpander \<Rightarrow> LayoutRow \<times> CtorRowExpander" where
  "expand_under env f tp hops x = (case ex_memo x f of
     Some v \<Rightarrow> (v, x)
   | None \<Rightarrow> (case hops of
       0 \<Rightarrow> ([], x\<lparr>ex_deleg_depth := ex_deleg_depth x + 1\<rparr>)
     | Suc h \<Rightarrow>
         (let x1 = x\<lparr>ex_memo := (ex_memo x)(f \<mapsto> [])\<rparr>;
              (row, x3) = (case rv_events env f of
                 None \<Rightarrow> ([], x1)
               | Some evs \<Rightarrow>
                   (let (out, x2) = collect_events env f tp h evs row_default x1
                    in (row_names out, x2\<lparr>ex_layout_fields := ex_layout_fields x2 + row_dropped out\<rparr>)))
          in (row, x3\<lparr>ex_memo := (ex_memo x3)(f \<mapsto> row)\<rparr>))))"
| "collect_events env f tp h [] out x = (out, x)"
| "collect_events env f tp h (ev # evs) out x =
     (let out1 = (case ev of Write n \<Rightarrow> row_push out n | _ \<Rightarrow> out)
      in case event_target env f ev of
           None \<Rightarrow> collect_events env f tp h evs out1 x
         | Some t \<Rightarrow>
             if t = f then collect_events env f tp h evs out1 x
             else (let (row, x2) = expand_under env t tp h (note_participant t tp x)
                   in collect_events env f tp h evs (foldl row_push out1 row) x2))"
  by pat_completeness auto

termination
  by (relation "measures [\<lambda>p. case p of Inl (_, _, _, hops, _) \<Rightarrow> hops | Inr (_, _, _, h, _, _, _) \<Rightarrow> h,
       \<lambda>p. case p of Inl _ \<Rightarrow> 0 | Inr (_, _, _, _, evs, _, _) \<Rightarrow> Suc (length evs)]") auto

declare expand_under.simps [simp del]

definition expand :: "RowEnv \<Rightarrow> ScriptId \<Rightarrow> CtorRowExpander \<Rightarrow> NameId list \<times> CtorRowExpander" where
  "expand env tp x = expand_under env tp tp (MAX_DELEG_DEPTH + 1) x"

fun expand_all :: "RowEnv \<Rightarrow> ScriptId list \<Rightarrow> CtorRowExpander \<Rightarrow> NameId list list \<times> CtorRowExpander" where
  "expand_all env [] x = ([], x)"
| "expand_all env (f # fs) x = (case expand env f x of (row, x) \<Rightarrow> case expand_all env fs x of (rows, x) \<Rightarrow> (row # rows, x))"

text \<open>The names a script may install: its own writes and those of the scripts it delegates to.\<close>

definition own_writes :: "RowEnv \<Rightarrow> ScriptId \<Rightarrow> NameId set" where
  "own_writes env f = {n. \<exists>evs. rv_events env f = Some evs \<and> Write n \<in> set evs}"

definition delegates :: "RowEnv \<Rightarrow> (ScriptId \<times> ScriptId) set" where
  "delegates env = {(f, t). \<exists>evs ev. rv_events env f = Some evs \<and> ev \<in> set evs \<and> event_target env f ev = Some t}"

definition may_install :: "RowEnv \<Rightarrow> ScriptId \<Rightarrow> NameId set" where
  "may_install env f = (\<Union>t\<in>(delegates env)\<^sup>* `` {f}. own_writes env t)"

definition row_ok :: "RowEnv \<Rightarrow> ScriptId \<Rightarrow> NameId list \<Rightarrow> bool" where
  "row_ok env f row = (distinct row \<and> length row \<le> LAY_CAP \<and> set row \<subseteq> may_install env f)"

definition memo_ok :: "RowEnv \<Rightarrow> CtorRowExpander \<Rightarrow> bool" where
  "memo_ok env x = (\<forall>f row. ex_memo x f = Some row \<longrightarrow> row_ok env f row)"

lemma may_install_own: "own_writes env f \<subseteq> may_install env f"
  by (auto simp: may_install_def)

lemma may_install_deleg: "(f, t) \<in> delegates env \<Longrightarrow> may_install env t \<subseteq> may_install env f"
  unfolding may_install_def by (auto intro: converse_rtrancl_into_rtrancl)

lemma row_push_ok: "row_ok env f (row_names r) \<Longrightarrow> n \<in> may_install env f \<Longrightarrow> row_ok env f (row_names (row_push r n))"
  by (auto simp: row_ok_def row_push_def)

lemma row_pushes_ok: "row_ok env f (row_names r) \<Longrightarrow> set ns \<subseteq> may_install env f \<Longrightarrow> row_ok env f (row_names (foldl row_push r ns))"
  by (induction ns arbitrary: r) (auto intro: row_push_ok)

definition memo_kept :: "CtorRowExpander \<Rightarrow> CtorRowExpander \<Rightarrow> bool" where
  "memo_kept x x' = (\<forall>g r. ex_memo x g = Some r \<longrightarrow> ex_memo x' g = Some r)"

lemma memo_kept_trans: "memo_kept x y \<Longrightarrow> memo_kept y z \<Longrightarrow> memo_kept x z"
  by (simp add: memo_kept_def)

lemma memo_note [simp]: "memo_ok env (note_participant t tp x) = memo_ok env x" "memo_kept (note_participant t tp x) y = memo_kept x y"
  by (simp_all add: memo_ok_def memo_kept_def note_participant_def)

lemma expand_keeps:
  "memo_ok env x \<Longrightarrow> expand_under env f tp hops x = (row, x') \<Longrightarrow> row_ok env f row \<and> memo_ok env x' \<and> memo_kept x x'"
  "memo_ok env x \<Longrightarrow> row_ok env f (row_names out) \<Longrightarrow> rv_events env f = Some all \<Longrightarrow> set evs \<subseteq> set all \<Longrightarrow>
     collect_events env f tp h evs out x = (out', x') \<Longrightarrow> row_ok env f (row_names out') \<and> memo_ok env x' \<and> memo_kept x x'"
proof (induction env f tp hops x and env f tp h evs out x arbitrary: row x' and all out' x' rule: expand_under_collect_events.induct)
  case (1 env f tp hops x)
  have empty: "row_ok env f []" by (simp add: row_ok_def)
  show ?case
  proof (cases "ex_memo x f")
    case (Some v)
    then show ?thesis using 1(2,3) by (auto simp: expand_under.simps memo_ok_def memo_kept_def)
  next
    case None
    show ?thesis
    proof (cases hops)
      case 0
      then show ?thesis using 1(2,3) None empty by (auto simp: expand_under.simps memo_ok_def memo_kept_def)
    next
      case (Suc h)
      let ?x1 = "x\<lparr>ex_memo := (ex_memo x)(f \<mapsto> [])\<rparr>"
      have x1: "memo_ok env ?x1" "memo_kept x ?x1" using 1(2) None empty by (auto simp: memo_ok_def memo_kept_def)
      show ?thesis
      proof (cases "rv_events env f")
        case ev: None
        then show ?thesis using 1(3) None Suc x1 empty by (auto simp: expand_under.simps memo_ok_def memo_kept_def)
      next
        case ev: (Some evs)
        obtain out x2 where c: "collect_events env f tp h evs row_default ?x1 = (out, x2)" by fastforce
        have "row_ok env f (row_names out) \<and> memo_ok env x2 \<and> memo_kept ?x1 x2"
          using 1(1) [OF None Suc refl ev x1(1) _ ev order_refl c] empty by (simp add: row_default_def)
        moreover have "row = row_names out" "ex_memo x' = (ex_memo x2)(f \<mapsto> row_names out)"
          using 1(3) None Suc ev c by (auto simp: expand_under.simps Let_def)
        ultimately show ?thesis using x1(2) None by (auto simp: memo_ok_def memo_kept_def)
      qed
    qed
  qed
next
  case (2 env f tp h out x)
  then show ?case by (simp add: memo_kept_def)
next
  case (3 env f tp h ev evs out x)
  let ?out1 = "case ev of Write n \<Rightarrow> row_push out n | _ \<Rightarrow> out"
  have ev: "ev \<in> set all" "set evs \<subseteq> set all" using "3.prems"(4) by auto
  have out1: "row_ok env f (row_names ?out1)"
    using "3.prems"(2,3) ev(1) may_install_own [of env f] by (cases ev) (auto simp: own_writes_def intro: row_push_ok)
  show ?case
  proof (cases "event_target env f ev")
    case None
    then show ?thesis using "3.IH"(1) [OF refl None "3.prems"(1) out1 "3.prems"(3) ev(2)] "3.prems"(5) by simp
  next
    case (Some t)
    show ?thesis
    proof (cases "t = f")
      case True
      then show ?thesis using "3.IH"(2) [OF refl Some True "3.prems"(1) out1 "3.prems"(3) ev(2)] "3.prems"(5) Some by simp
    next
      case False
      obtain r x2 where e: "expand_under env t tp h (note_participant t tp x) = (r, x2)" by fastforce
      have r: "row_ok env t r" "memo_ok env x2" "memo_kept x x2" using "3.IH"(3) [OF refl Some False _ e] "3.prems"(1) by simp_all
      have "set r \<subseteq> may_install env f"
        using r(1) may_install_deleg [of f t env] "3.prems"(3) ev(1) Some by (auto simp: row_ok_def delegates_def)
      then have "row_ok env f (row_names (foldl row_push ?out1 r))" using row_pushes_ok [OF out1] by blast
      then show ?thesis using "3.IH"(4) [OF refl Some False e [symmetric] refl r(2) _ "3.prems"(3) ev(2)] "3.prems"(5) Some False e r(3)
        by (auto intro: memo_kept_trans)
    qed
  qed
qed

lemma expand_all_ok:
  assumes "expand_all env fs x = (rows, x')" "memo_ok env x"
  shows "length rows = length fs \<and> memo_ok env x' \<and> memo_kept x x' \<and>
    (\<forall>i<length fs. row_ok env (fs ! i) (rows ! i) \<and> (ex_memo x' (fs ! i) = Some (rows ! i)))"
  using assms
proof (induction fs arbitrary: x rows)
  case (Cons f fs)
  obtain row y rows' where y: "expand env f x = (row, y)" "expand_all env fs y = (rows', x')" "rows = row # rows'"
    using Cons.prems(1) by (auto split: prod.splits)
  have e: "row_ok env f row" "memo_ok env y" "memo_kept x y" using expand_keeps(1) [OF Cons.prems(2)] y(1) by (auto simp: expand_def)
  have m: "ex_memo y f = Some row"
    using y(1) by (auto simp: expand_def expand_under.simps Let_def MAX_DELEG_DEPTH_def split: option.splits prod.splits)
  from Cons.IH [OF y(2) e(2)] e y(3) m show ?case by (auto simp: memo_kept_def less_Suc_eq_0_disj)
qed (simp add: memo_kept_def)

text \<open>C26. 
  The rows of a run over any list of constructors have no duplicates, fit the cap, list only names that the constructor
  or a script it delegates to writes, and are final: expanding a constructor again gives the same row and changes nothing.
\<close>

theorem expanded_rows_wellformed:
  assumes "expand_all env fs expander_new = (rows, x)" "i < length fs"
  shows "distinct (rows ! i) \<and> length (rows ! i) \<le> LAY_CAP \<and> set (rows ! i) \<subseteq> may_install env (fs ! i) \<and> expand env (fs ! i) x = (rows ! i, x)"
proof -
  have "memo_ok env expander_new" by (simp add: memo_ok_def expander_new_def)
  then have "row_ok env (fs ! i) (rows ! i)" "ex_memo x (fs ! i) = Some (rows ! i)" using expand_all_ok [OF assms(1)] assms(2) by auto
  then show ?thesis by (simp add: row_ok_def expand_def expand_under.simps)
qed

text \<open>Two constructors that delegate to each other.\<close>

definition demo_cycle :: RowEnv where
  "demo_cycle = \<lparr>rv_events = [1 \<mapsto> [Write 10, Deleg 0], 2 \<mapsto> [Write 20, Deleg 0]],
     rv_apply_targets = [site_from_raw 1 0 \<mapsto> 2, site_from_raw 2 0 \<mapsto> 1], rv_single_call_target = Map.empty, rv_follow = False\<rparr>"

lemmas expander_eval = expand_def expand_under.simps demo_cycle_def event_target_def site_from_raw_def row_push_def row_default_def
  note_participant_def observe_in_def expander_new_def MAX_DELEG_DEPTH_def LAY_CAP_def

lemma demo_cycle_rows: "fst (expand_all demo_cycle [1, 2] expander_new) = [[10, 20], [20]]"
  by (simp add: expander_eval)

theorem expanded_rows_wellformed_witness:
  "\<exists>rows x. expand_all demo_cycle [1, 2] expander_new = (rows, x) \<and> rows ! 0 = [10, 20] \<and>
     set (rows ! 0) \<subseteq> may_install demo_cycle 1 \<and> expand demo_cycle 1 x = (rows ! 0, x)"
proof -
  obtain rows x where r: "expand_all demo_cycle [1, 2] expander_new = (rows, x)" by fastforce
  then have "rows = [[10, 20], [20]]" using demo_cycle_rows by simp
  then show ?thesis using expanded_rows_wellformed [OF r, of 0] r by auto
qed

text \<open>
  The row of a script can depend on what was expanded before: in a delegation cycle the script entered second is memoised with
  the empty row of the one above it.
\<close>

lemma row_depends_on_order:
  "fst (expand_all demo_cycle [1, 2] expander_new) ! 1 = [20]" "fst (expand_all demo_cycle [2, 1] expander_new) ! 0 = [20, 10]"
  by (simp_all add: expander_eval)

definition sole_participants :: "(ScriptId \<rightharpoonup> ScriptId Agreed) \<Rightarrow> ScriptId list \<Rightarrow> (ScriptId \<times> ScriptId) list" where
  "sole_participants m ks = List.map_filter (\<lambda>k. map_option (Pair k) (Option.bind (m k) agreed_get)) (sort ks)"

text \<open>Two constructors that share a helper, which delegates to a second one.\<close>

definition demo_shared :: RowEnv where
  "demo_shared = \<lparr>rv_events = [1 \<mapsto> [Deleg 0], 2 \<mapsto> [Deleg 0], 3 \<mapsto> [Deleg 0], 4 \<mapsto> [Write 40]],
     rv_apply_targets = [site_from_raw 1 0 \<mapsto> 3, site_from_raw 2 0 \<mapsto> 3, site_from_raw 3 0 \<mapsto> 4], rv_single_call_target = Map.empty, rv_follow = False\<rparr>"

text \<open>
  The second helper is spliced into the rows of both constructors, but attributed to the first alone: a memo hit on the shared
  helper does not note the helpers below it.
\<close>

lemma shared_helper_attributed_to_one:
  "fst (expand_all demo_shared [1, 2] expander_new) = [[40], [40]]"
  "sole_participants (ex_participants (snd (expand_all demo_shared [1, 2] expander_new))) [4, 3] = [(4, 1)]"
  by (simp_all add: expander_eval demo_shared_def sole_participants_def List.map_filter_def)

end
