(* ===== verification/Layout_Plan.thy ===== *)
theory Layout_Plan
  imports Layout Facts "HOL-Library.List_Lexorder" "HOL-Library.Product_Lexorder"
begin

text \<open>
  The layout plan, \<^verbatim>\<open>compiler/src/likelier/emit.rs\<close>: the rows by key with the claim and range of each position, the masks a range
  of keys may claim, and the run of keys that agree on the slot of a name.
\<close>

unbundle bit_operations_syntax

section \<open>Rows by key\<close>

record LayoutRowFacts =
  lr_names :: "NameId list"
  lr_masks :: "prims list"
  lr_ranges :: "ValueRange option list"

type_synonym rows = "nat \<rightharpoonup> LayoutRowFacts"

fun name_pos :: "NameId list \<Rightarrow> NameId \<Rightarrow> nat option" where
  "name_pos [] name = None"
| "name_pos (n # ns) name = (if n = name then Some 0 else map_option Suc (name_pos ns name))"

definition vec_get :: "'a list \<Rightarrow> nat \<Rightarrow> 'a option" where
  "vec_get xs i = (if i < length xs then Some (xs ! i) else None)"

definition name_mask :: "rows \<Rightarrow> nat \<Rightarrow> NameId \<Rightarrow> prims" where
  "name_mask rows key name =
     (case Option.bind (rows key) (\<lambda>r. Option.bind (name_pos (lr_names r) name) (vec_get (lr_masks r))) of Some m \<Rightarrow> m | None \<Rightarrow> 0)"

definition key_names :: "rows \<Rightarrow> nat \<Rightarrow> NameId list" where
  "key_names rows key = (case rows key of Some r \<Rightarrow> lr_names r | None \<Rightarrow> [])"

fun mask_loop :: "rows \<Rightarrow> NameId \<Rightarrow> nat \<Rightarrow> nat list \<Rightarrow> prims \<Rightarrow> prims" where
  "mask_loop rows name slot [] bits = bits"
| "mask_loop rows name slot (k # ks) bits =
     (let m = name_mask rows k name;
          at_slot = (Option.bind (rows k) (\<lambda>r. vec_get (lr_names r) slot) = Some name)
      in if m = 0 \<or> \<not> at_slot then 0 else mask_loop rows name slot ks (prims_or bits m))"

definition prefix_masks :: "rows \<Rightarrow> NameId list \<Rightarrow> nat \<Rightarrow> nat \<Rightarrow> prims list" where
  "prefix_masks rows ptable l h = map (\<lambda>(slot, name). mask_loop rows name slot [l..<h + 1] 0) (enumerate 0 ptable)"

definition pair_ranges :: "prims list \<Rightarrow> ValueRange option list \<Rightarrow> ValueRange option list" where
  "pair_ranges masks ranges = map (\<lambda>(m, r). if m = PRIM_INT32 then r else None) (zip masks ranges)"

text \<open>The masks a whole range claims.\<close>

definition claims_at :: "rows \<Rightarrow> NameId \<Rightarrow> nat \<Rightarrow> nat \<Rightarrow> bool" where
  "claims_at rows name slot k = (slot < length (key_names rows k) \<and> key_names rows k ! slot = name \<and> name_mask rows k name \<noteq> 0)"

lemma mask_loop_exact:
  "mask_loop rows name slot ks bits =
     (if \<forall>k\<in>set ks. claims_at rows name slot k then foldl (\<lambda>b k. prims_or b (name_mask rows k name)) bits ks else 0)"
proof (induction ks arbitrary: bits)
  case (Cons k ks)
  have "claims_at rows name slot k \<longleftrightarrow> name_mask rows k name \<noteq> 0 \<and> Option.bind (rows k) (\<lambda>r. vec_get (lr_names r) slot) = Some name"
    by (auto simp: claims_at_def key_names_def vec_get_def split: option.splits)
  then show ?case using Cons by (auto simp: Let_def)
qed simp

lemma bit_foldl_prims_or: "bit (foldl (\<lambda>b k. prims_or b (f k)) a ks) n \<longleftrightarrow> bit a n \<or> (\<exists>k\<in>set ks. bit (f k) n)"
  by (induction ks arbitrary: a) (auto simp: prims_or_def bit_or_iff)

lemma foldl_prims_or_nonzero: "k \<in> set ks \<Longrightarrow> f k \<noteq> 0 \<Longrightarrow> foldl (\<lambda>b k. prims_or b (f k)) a ks \<noteq> 0"
  using bit_foldl_prims_or [of f a ks] by (metis bit_eq_iff bit_0_eq bot_apply bot_bool_def)

lemma prefix_masks_at:
  assumes "i < length ptable"
  shows "prefix_masks rows ptable l h ! i =
    (if \<forall>k\<in>{l..h}. claims_at rows (ptable ! i) i k then foldl (\<lambda>b k. prims_or b (name_mask rows k (ptable ! i))) 0 [l..<h + 1] else 0)"
proof -
  have s: "set [l..<h + 1] = {l..h}" by auto
  show ?thesis
    using assms unfolding prefix_masks_def by (simp only: nth_map length_enumerate nth_enumerate_eq prod.case mask_loop_exact s add_0)
qed

text \<open>
  The masks of a prefix table over a range of keys: a position claims exactly when every key in the range has the table's name at
  that very slot and claims something for it, and then it claims a class exactly when one of them does.
\<close>

theorem prefix_masks_exact:
  assumes "i < length ptable" "l \<le> h"
  shows "length (prefix_masks rows ptable l h) = length ptable \<and>
    (prefix_masks rows ptable l h ! i \<noteq> 0 \<longleftrightarrow> (\<forall>k\<in>{l..h}. claims_at rows (ptable ! i) i k)) \<and>
    (prefix_masks rows ptable l h ! i \<noteq> 0 \<longrightarrow>
      (\<forall>n. bit (prefix_masks rows ptable l h ! i) n \<longleftrightarrow> (\<exists>k\<in>{l..h}. bit (name_mask rows k (ptable ! i)) n)))"
proof -
  let ?f = "\<lambda>k. name_mask rows k (ptable ! i)"
  have l: "l \<in> set [l..<h + 1]" and s: "set [l..<h + 1] = {l..h}" using assms(2) by auto
  have "foldl (\<lambda>b k. prims_or b (?f k)) 0 [l..<h + 1] \<noteq> 0" if "claims_at rows (ptable ! i) i l"
    using foldl_prims_or_nonzero [OF l, of ?f 0] that by (simp add: claims_at_def)
  then have "prefix_masks rows ptable l h ! i \<noteq> 0 \<longleftrightarrow> (\<forall>k\<in>{l..h}. claims_at rows (ptable ! i) i k)"
    unfolding prefix_masks_at [OF assms(1)] using l s by auto
  moreover have "bit (prefix_masks rows ptable l h ! i) n \<longleftrightarrow> (\<exists>k\<in>{l..h}. bit (?f k) n)" if "prefix_masks rows ptable l h ! i \<noteq> 0" for n
    using that bit_foldl_prims_or [of ?f 0 "[l..<h + 1]" n] unfolding prefix_masks_at [OF assms(1)] s by (auto split: if_splits)
  ultimately show ?thesis by (simp add: prefix_masks_def)
qed

definition demo_rows :: rows where
  "demo_rows = [3 \<mapsto> \<lparr>lr_names = [7, 8], lr_masks = [1, 2], lr_ranges = [None, None]\<rparr>,
     4 \<mapsto> \<lparr>lr_names = [7, 9, 8], lr_masks = [2, 1, 1], lr_ranges = [None, None, None]\<rparr>]"

theorem prefix_masks_exact_witness:
  "(0 :: nat) < length [7 :: NameId] \<and> (3 :: nat) \<le> 4 \<and> prefix_masks demo_rows [7] 3 4 ! 0 \<noteq> 0 \<and> (\<forall>k\<in>{3..4}. claims_at demo_rows 7 0 k)"
proof -
  have "prefix_masks demo_rows [7] 3 4 = [3]"
    by (simp add: prefix_masks_def demo_rows_def name_mask_def vec_get_def upt_rec Let_def prims_or_def)
  then show ?thesis using prefix_masks_exact [of 0 "[7]" 3 4 demo_rows] by simp
qed

section \<open>Runs of keys\<close>

record SlotFact =
  fact_lo :: nat
  fact_hi :: nat
  fact_slot :: nat
  fact_prims :: prims
  fact_uniform :: bool

definition table_slot_fact :: "rows \<Rightarrow> nat \<Rightarrow> nat \<Rightarrow> NameId list \<Rightarrow> prims list option \<Rightarrow> NameId \<Rightarrow> SlotFact option" where
  "table_slot_fact rows l h table masks name = (case name_pos table name of
     None \<Rightarrow> None
   | Some pos \<Rightarrow>
       (let prims = (case masks of Some ms \<Rightarrow> (case vec_get ms pos of Some m \<Rightarrow> m | None \<Rightarrow> 0) | None \<Rightarrow> name_mask rows l name)
        in Some \<lparr>fact_lo = l, fact_hi = h, fact_slot = pos, fact_prims = prims,
             fact_uniform = (l = h \<or> prims \<noteq> 0 \<or> list_all (\<lambda>k. name_mask rows k name = 0) [l..<h + 1])\<rparr>))"

type_synonym scan = "(nat \<times> nat \<times> nat) option \<times> (nat \<times> nat) option"

definition scan_key :: "rows \<Rightarrow> NameId \<Rightarrow> nat \<Rightarrow> scan \<Rightarrow> scan" where
  "scan_key rows name k st = (case st of (best, run) \<Rightarrow>
     (case (name_pos (key_names rows k) name, run) of
        (Some s, Some (rl, rs)) \<Rightarrow>
          if s = rs then
            (if (case best of None \<Rightarrow> True | Some (bl, bh, _) \<Rightarrow> k - rl + 1 > bh - bl + 1) then (Some (rl, k, s), run) else (best, run))
          else (if best = None then Some (k, k, s) else best, Some (k, s))
      | (Some s, None) \<Rightarrow> (if best = None then Some (k, k, s) else best, Some (k, s))
      | (None, _) \<Rightarrow> (best, None)))"

definition slot_mask :: "rows \<Rightarrow> nat \<Rightarrow> nat \<Rightarrow> prims" where
  "slot_mask rows slot k = (case Option.bind (rows k) (\<lambda>r. vec_get (lr_masks r) slot) of Some m \<Rightarrow> m | None \<Rightarrow> 0)"

definition run_fact :: "rows \<Rightarrow> nat \<Rightarrow> nat \<Rightarrow> nat \<Rightarrow> SlotFact" where
  "run_fact rows l h slot =
     (let ms = map (slot_mask rows slot) [l..<h + 1];
          bits = foldl prims_or 0 ms;
          claimed = length (filter (\<lambda>m. m \<noteq> 0) ms);
          all_claim = (claimed = h - l + 1)
      in \<lparr>fact_lo = l, fact_hi = h, fact_slot = slot, fact_prims = (if all_claim then bits else 0), fact_uniform = (all_claim \<or> claimed = 0)\<rparr>)"

definition subrange_in :: "rows \<Rightarrow> nat \<Rightarrow> nat \<Rightarrow> NameId \<Rightarrow> SlotFact option" where
  "subrange_in rows glo ghi name =
     (if glo = ghi then None
      else case fst (fold (scan_key rows name) [glo..<ghi + 1] (None, None)) of
        None \<Rightarrow> None
      | Some (l, h, slot) \<Rightarrow>
          if list_ex (\<lambda>k. (k < l \<or> k > h) \<and> name \<in> set (key_names rows k)) [glo..<ghi + 1] then None
          else Some (run_fact rows l h slot))"

lemma name_pos_Some: "name_pos ns n = Some i \<Longrightarrow> i < length ns \<and> ns ! i = n"
  by (induction ns arbitrary: i) (auto split: if_splits)

lemma name_pos_None: "name_pos ns n = None \<longleftrightarrow> n \<notin> set ns"
  by (induction ns) auto

text \<open>What the scan knows: the run that ends at the last key, and a longest run.\<close>

definition uniform_run :: "rows \<Rightarrow> NameId \<Rightarrow> nat \<Rightarrow> nat \<Rightarrow> nat \<Rightarrow> bool" where
  "uniform_run rows name l h s = (l \<le> h \<and> (\<forall>k\<in>{l..h}. name_pos (key_names rows k) name = Some s))"

definition run_ok :: "rows \<Rightarrow> NameId \<Rightarrow> nat \<Rightarrow> nat \<Rightarrow> (nat \<times> nat) option \<Rightarrow> bool" where
  "run_ok rows name glo k run = (case run of
     None \<Rightarrow> k = glo \<or> name_pos (key_names rows (k - 1)) name = None
   | Some (rl, rs) \<Rightarrow> glo \<le> rl \<and> rl < k \<and> uniform_run rows name rl (k - 1) rs \<and> (rl = glo \<or> name_pos (key_names rows (rl - 1)) name \<noteq> Some rs))"

definition run_bound :: "rows \<Rightarrow> NameId \<Rightarrow> nat \<Rightarrow> nat \<Rightarrow> nat \<Rightarrow> bool" where
  "run_bound rows name glo k d = (\<forall>l h s. glo \<le> l \<longrightarrow> h < k \<longrightarrow> uniform_run rows name l h s \<longrightarrow> h - l \<le> d)"

definition best_ok :: "rows \<Rightarrow> NameId \<Rightarrow> nat \<Rightarrow> nat \<Rightarrow> (nat \<times> nat \<times> nat) option \<Rightarrow> bool" where
  "best_ok rows name glo k best = (case best of
     None \<Rightarrow> \<forall>j\<in>{glo..<k}. name_pos (key_names rows j) name = None
   | Some (bl, bh, bs) \<Rightarrow> glo \<le> bl \<and> bh < k \<and> uniform_run rows name bl bh bs \<and> run_bound rows name glo k (bh - bl))"

lemma best_ok_None: "best_ok rows name glo k best \<Longrightarrow> name_pos (key_names rows k) name = None \<Longrightarrow> best_ok rows name glo (Suc k) best"
proof -
  assume b: "best_ok rows name glo k best" and n: "name_pos (key_names rows k) name = None"
  have "\<not> uniform_run rows name l k s" for l s using n unfolding uniform_run_def by (metis atLeastAtMost_iff option.distinct(1) order_refl)
  then have "run_bound rows name glo (Suc k) d = run_bound rows name glo k d" for d unfolding run_bound_def less_Suc_eq by blast
  then show "best_ok rows name glo (Suc k) best" using b n by (auto simp: best_ok_def less_Suc_eq split: option.splits)
qed

text \<open>The run through key \<open>k\<close> that starts at \<open>rl\<close> is the longest one that ends there, so the better of it and the best so far is a longest one.\<close>

lemma best_ok_Some:
  assumes "best_ok rows name glo k best" "run_ok rows name glo (Suc k) (Some (rl, s))"
    and "best' = Some (rl, k, s) \<and> (\<forall>bl bh bs. best = Some (bl, bh, bs) \<longrightarrow> bh - bl \<le> k - rl) \<or>
      best' = best \<and> (\<exists>bl bh bs. best = Some (bl, bh, bs) \<and> k - rl \<le> bh - bl)"
  shows "best_ok rows name glo (Suc k) best'"
proof -
  from assms(2) have r: "glo \<le> rl" "rl \<le> k" "uniform_run rows name rl k s" "rl = glo \<or> name_pos (key_names rows (rl - 1)) name \<noteq> Some s"
    by (auto simp: run_ok_def)
  have last: "k - l \<le> k - rl" if "glo \<le> l" "uniform_run rows name l k s'" for l s'
  proof (rule ccontr)
    assume "\<not> k - l \<le> k - rl"
    then have l: "l \<le> rl - 1" "rl - 1 \<le> k" "rl \<noteq> glo" using that(1) r(2) by auto
    have all: "\<forall>j\<in>{l..k}. name_pos (key_names rows j) name = Some s'" using that(2) by (simp add: uniform_run_def)
    then have "name_pos (key_names rows k) name = Some s'" "name_pos (key_names rows (rl - 1)) name = Some s'" using l r(2) by auto
    moreover have "name_pos (key_names rows k) name = Some s" using r(2,3) by (simp add: uniform_run_def)
    ultimately show False using r(4) l(3) by simp
  qed
  have old: "h - l \<le> bh - bl" if "best = Some (bl, bh, bs)" "glo \<le> l" "h < k" "uniform_run rows name l h s'" for bl bh bs l h s'
    using assms(1) that unfolding best_ok_def run_bound_def by auto
  have none: "\<not> uniform_run rows name l h s'" if "best = None" "glo \<le> l" "h < k" for l h s'
  proof
    assume "uniform_run rows name l h s'"
    then have "l \<le> h" "name_pos (key_names rows h) name = Some s'" by (simp_all add: uniform_run_def)
    then show False using assms(1) that by (simp add: best_ok_def)
  qed
  from assms(3) show ?thesis
  proof
    assume b: "best' = Some (rl, k, s) \<and> (\<forall>bl bh bs. best = Some (bl, bh, bs) \<longrightarrow> bh - bl \<le> k - rl)"
    have "h - l \<le> k - rl" if "glo \<le> l" "h < Suc k" "uniform_run rows name l h s'" for l h s'
    proof (cases "h = k")
      case False
      then have h: "h < k" using that(2) by simp
      show ?thesis
      proof (cases best)
        case (Some p)
        obtain bl bh bs where "best = Some (bl, bh, bs)" using Some by (cases p) auto
        then show ?thesis using old [OF _ that(1) h that(3)] b by fastforce
      qed (use none that h in blast)
    qed (use last that in blast)
    then have "run_bound rows name glo (Suc k) (k - rl)" unfolding run_bound_def by blast
    then show ?thesis using b r(1,3) by (simp add: best_ok_def)
  next
    assume "best' = best \<and> (\<exists>bl bh bs. best = Some (bl, bh, bs) \<and> k - rl \<le> bh - bl)"
    then obtain bl bh bs where b: "best' = Some (bl, bh, bs)" "best = Some (bl, bh, bs)" "k - rl \<le> bh - bl" by auto
    have "h - l \<le> bh - bl" if "glo \<le> l" "h < Suc k" "uniform_run rows name l h s'" for l h s'
      using last [OF that(1)] old [OF b(2) that(1) _ that(3)] that b(3) by (cases "h = k") fastforce+
    then have "run_bound rows name glo (Suc k) (bh - bl)" unfolding run_bound_def by blast
    then show ?thesis using b(1,2) assms(1) by (simp add: best_ok_def)
  qed
qed

lemma run_ok_next:
  assumes "run_ok rows name glo k run" "glo \<le> k" "name_pos (key_names rows k) name = Some s"
  shows "run_ok rows name glo (Suc k) (Some (case run of Some (rl, rs) \<Rightarrow> if s = rs then rl else k | None \<Rightarrow> k, s))"
proof (cases run)
  case None
  then show ?thesis using assms by (auto simp: run_ok_def uniform_run_def)
next
  case (Some p)
  obtain rl rs where p: "p = (rl, rs)" by fastforce
  have r: "glo \<le> rl" "rl < k" "uniform_run rows name rl (k - 1) rs" "rl = glo \<or> name_pos (key_names rows (rl - 1)) name \<noteq> Some rs"
    using assms(1) Some p by (auto simp: run_ok_def)
  have "name_pos (key_names rows (k - 1)) name = Some rs" using r(2,3) by (simp add: uniform_run_def)
  moreover have "uniform_run rows name rl k rs" if "s = rs"
    unfolding uniform_run_def
  proof (intro conjI ballI)
    fix j assume j: "j \<in> {rl..k}"
    show "name_pos (key_names rows j) name = Some rs"
      using r(3) j assms(3) that by (cases "j = k") (auto simp: uniform_run_def)
  qed (use r(2) in simp)
  ultimately show ?thesis using Some p r assms(2,3) by (auto simp: run_ok_def uniform_run_def)
qed

lemma scan_key_ok:
  assumes "best_ok rows name glo k best" "run_ok rows name glo k run" "glo \<le> k"
  shows "case scan_key rows name k (best, run) of (best', run') \<Rightarrow> best_ok rows name glo (Suc k) best' \<and> run_ok rows name glo (Suc k) run'"
proof (cases "name_pos (key_names rows k) name")
  case None
  then show ?thesis using best_ok_None [OF assms(1)] by (simp add: scan_key_def run_ok_def)
next
  case (Some s)
  note r = run_ok_next [OF assms(2,3) Some]
  define rl where "rl = (case run of Some (rl, rs) \<Rightarrow> if s = rs then rl else k | None \<Rightarrow> k)"
  define best' where "best' = fst (scan_key rows name k (best, run))"
  have "snd (scan_key rows name k (best, run)) = Some (rl, s)"
    using Some by (cases run) (auto simp: scan_key_def rl_def split: if_splits)
  then have b1: "scan_key rows name k (best, run) = (best', Some (rl, s))" by (simp add: best'_def prod_eq_iff)
  have b2: "best' = Some (rl, k, s) \<and> (\<forall>bl bh bs. best = Some (bl, bh, bs) \<longrightarrow> bh - bl \<le> k - rl) \<or>
      best' = best \<and> (\<exists>bl bh bs. best = Some (bl, bh, bs) \<and> k - rl \<le> bh - bl)"
    using Some unfolding best'_def by (cases best; cases run) (auto simp: scan_key_def rl_def split: if_splits)
  show ?thesis using b1 r best_ok_Some [OF assms(1) _ b2] by (simp add: rl_def)
qed

lemma scan_range_ok:
  assumes "glo \<le> k"
  shows "case fold (scan_key rows name) [glo..<k] (None, None) of (best, run) \<Rightarrow> best_ok rows name glo k best \<and> run_ok rows name glo k run"
  using assms
proof (induction k)
  case (Suc k)
  show ?case
  proof (cases "glo = Suc k")
    case False
    then have k: "glo \<le> k" using Suc.prems by simp
    obtain best run where br: "fold (scan_key rows name) [glo..<k] (None, None) = (best, run)" by fastforce
    then show ?thesis using Suc.IH [OF k] scan_key_ok [of rows name glo k best run] k by simp
  qed (simp add: best_ok_def run_ok_def)
qed (simp add: best_ok_def run_ok_def)

lemma run_fact_sel [simp]: "fact_lo (run_fact rows l h s) = l" "fact_hi (run_fact rows l h s) = h" "fact_slot (run_fact rows l h s) = s"
  by (simp_all add: run_fact_def Let_def)

text \<open>C12. 
  A fact over part of a range exists exactly when the keys that carry the name are one run, all with the name at one slot;
  it is over that run, claims what the masks at the slot claim when all of them claim, and is uniform exactly when all or none does.
\<close>

theorem subrange_in_exact:
  assumes "glo < ghi"
  shows "subrange_in rows glo ghi name = Some f \<longleftrightarrow>
    (glo \<le> fact_lo f \<and> fact_lo f \<le> fact_hi f \<and> fact_hi f \<le> ghi \<and> f = run_fact rows (fact_lo f) (fact_hi f) (fact_slot f) \<and>
     (\<forall>k\<in>{glo..ghi}. name_pos (key_names rows k) name = (if k \<in> {fact_lo f..fact_hi f} then Some (fact_slot f) else None)))"
proof -
  obtain best run where br: "fold (scan_key rows name) [glo..<ghi + 1] (None, None) = (best, run)" by fastforce
  have best: "best_ok rows name glo (ghi + 1) best" using scan_range_ok [of glo "ghi + 1" rows name] assms br by simp
  have ex: "list_ex (\<lambda>k. (k < l \<or> k > h) \<and> name \<in> set (key_names rows k)) [glo..<ghi + 1] \<longleftrightarrow>
      (\<exists>k\<in>{glo..ghi}. k \<notin> {l..h} \<and> name_pos (key_names rows k) name \<noteq> None)" for l h
  proof -
    have "set [glo..<ghi + 1] = {glo..ghi}" by auto
    moreover have "(k < l \<or> k > h) \<longleftrightarrow> k \<notin> {l..h}" for k by auto
    ultimately show ?thesis unfolding list_ex_iff by (simp only: name_pos_None not_not)
  qed
  show ?thesis
  proof (cases best)
    case None
    then have "subrange_in rows glo ghi name = None" using br assms by (simp add: subrange_in_def del: upt_Suc)
    moreover have "name_pos (key_names rows k) name = None" if "k \<in> {glo..ghi}" for k using best None that by (simp add: best_ok_def)
    ultimately show ?thesis by force
  next
    case (Some p)
    obtain l h s where b: "best = Some (l, h, s)" using Some by (cases p) auto
    have u: "glo \<le> l" "l \<le> h" "h \<le> ghi" "\<forall>k\<in>{l..h}. name_pos (key_names rows k) name = Some s" and bound: "run_bound rows name glo (ghi + 1) (h - l)"
      using best b by (auto simp: best_ok_def uniform_run_def)
    have res: "subrange_in rows glo ghi name =
        (if \<exists>k\<in>{glo..ghi}. k \<notin> {l..h} \<and> name_pos (key_names rows k) name \<noteq> None then None else Some (run_fact rows l h s))"
      using br assms b ex [of l h] by (simp add: subrange_in_def del: upt_Suc)
    show ?thesis
    proof
      assume "subrange_in rows glo ghi name = Some f"
      then have f: "f = run_fact rows l h s" "\<forall>k\<in>{glo..ghi}. k \<notin> {l..h} \<longrightarrow> name_pos (key_names rows k) name = None"
        unfolding res by (auto split: if_splits)
      then show "glo \<le> fact_lo f \<and> fact_lo f \<le> fact_hi f \<and> fact_hi f \<le> ghi \<and> f = run_fact rows (fact_lo f) (fact_hi f) (fact_slot f) \<and>
          (\<forall>k\<in>{glo..ghi}. name_pos (key_names rows k) name = (if k \<in> {fact_lo f..fact_hi f} then Some (fact_slot f) else None))"
        using u by simp
    next
      let ?l = "fact_lo f" and ?h = "fact_hi f" and ?s = "fact_slot f"
      assume a: "glo \<le> ?l \<and> ?l \<le> ?h \<and> ?h \<le> ghi \<and> f = run_fact rows ?l ?h ?s \<and>
          (\<forall>k\<in>{glo..ghi}. name_pos (key_names rows k) name = (if k \<in> {?l..?h} then Some ?s else None))"
      then have "uniform_run rows name ?l ?h ?s" by (auto simp: uniform_run_def)
      moreover have "glo \<le> ?l" "?h < ghi + 1" using a by auto
      ultimately have len: "?h - ?l \<le> h - l" using bound unfolding run_bound_def by blast
      have inside: "k \<in> {?l..?h} \<and> s = ?s" if "k \<in> {l..h}" for k
      proof -
        have "k \<in> {glo..ghi}" using that u(1,3) by simp
        then have "name_pos (key_names rows k) name = (if k \<in> {?l..?h} then Some ?s else None)" using a by blast
        then show ?thesis using u(4) that by (auto split: if_splits)
      qed
      have "l = ?l" "h = ?h" "s = ?s" using inside [of l] inside [of h] u(2) len a by auto
      then show "subrange_in rows glo ghi name = Some f" unfolding res using a by auto
    qed
  qed
qed

theorem subrange_in_exact_witness:
  "(2 :: nat) < 5 \<and> (\<exists>f. subrange_in demo_rows 2 5 7 = Some f \<and> fact_lo f = 3 \<and> fact_hi f = 4 \<and> fact_slot f = 0 \<and> fact_prims f = 3 \<and> fact_uniform f)"
proof -
  let ?f = "run_fact demo_rows 3 4 0"
  have "name_pos (key_names demo_rows k) 7 = (if k \<in> {3..4} then Some 0 else None)" for k
    by (auto simp: demo_rows_def key_names_def)
  then have "subrange_in demo_rows 2 5 7 = Some ?f" using subrange_in_exact [of 2 5 demo_rows 7 ?f] by auto
  moreover have "fact_prims ?f = 3 \<and> fact_uniform ?f"
    by (simp add: run_fact_def slot_mask_def demo_rows_def vec_get_def upt_rec prims_or_def Let_def)
  ultimately show ?thesis by simp
qed

end
