(* ===== verification/Layout_Keys.thy ===== *)
theory Layout_Keys
  imports Layout_Plan Source
begin

text \<open>
  Layout keys, \<^verbatim>\<open>compiler/src/likelier/emit.rs\<close>: the order of the predictor groups, the keys of the constructor and literal rows of each
  group, the tables of the regions, and the rows that a caller's writes after an allocation add. The solver's
  answers are the record \<open>PlanEnv\<close>; \<open>None\<close> is a panic.
\<close>

section \<open>State\<close>

record PlanEnv =
  pe_class_lookup :: "ScriptId \<Rightarrow> ClassId option"
  pe_view_prims :: "ClassId \<Rightarrow> NameId \<Rightarrow> prims option"
  pe_view_range :: "ClassId \<Rightarrow> NameId \<Rightarrow> ValueRange option"
  pe_site_class :: "Site \<Rightarrow> ClassId option"
  pe_region_root :: "ClassId \<Rightarrow> ClassId"
  pe_this_events :: "ScriptId \<rightharpoonup> TEvent list"
  pe_recv_class :: "Site \<rightharpoonup> ClassId Agreed"
  pe_source :: Source

record LayoutPlan =
  lp_rows :: rows
  lp_group_range :: "GroupId \<rightharpoonup> nat \<times> nat"
  lp_arg_fill :: "((ScriptId \<times> u32) \<times> (NameId \<times> Site) list) list"
  lp_arg_reassigned :: "(ScriptId \<times> u32) set"
  lp_group_tables :: "nat \<rightharpoonup> NameId list \<times> prims list"
  lp_region_range :: "ClassId \<rightharpoonup> nat \<times> nat"
  lp_region_tables :: "ClassId \<rightharpoonup> NameId list \<times> prims list"
  lp_stamped_class_groups :: "GroupId set"
  lp_ctor_key :: "ScriptId \<rightharpoonup> nat \<times> nat"
  lp_key_class :: "nat \<rightharpoonup> ClassId"
  lp_next_key :: nat
  lp_layout_keys :: nat

record LayoutFacts =
  lf_ctor_stamps :: "ScriptId \<rightharpoonup> nat"
  lf_ctor_nslots :: "ScriptId \<rightharpoonup> nat"
  lf_local_restamps :: "Site \<rightharpoonup> u32 \<times> nat"
  lf_deleg_restamps :: "ScriptId \<rightharpoonup> nat"
  lf_arg_restamps :: "ScriptId \<rightharpoonup> u32 \<times> nat"
  lf_lit_stamps :: "Site \<rightharpoonup> nat"
  lf_construct_site_keys :: "Site \<rightharpoonup> nat"
  lf_prop_sites :: "Site \<rightharpoonup> nat \<times> nat \<times> nat \<times> Claim"

record CtorRows =
  cr_ctor :: ScriptId
  cr_prefix :: "NameId list"
  cr_full :: "NameId list option"

record RowSet =
  rs_folds :: "GroupId \<rightharpoonup> SlotFold"
  rs_ctor_rows :: "GroupId \<Rightarrow> CtorRows list"
  rs_lit_rows :: "GroupId \<Rightarrow> (Site \<times> NameId list) list"
  rs_tp_delegs :: "ScriptId \<Rightarrow> ScriptId list"
  rs_local_fills :: "ScriptId \<Rightarrow> (ScriptId \<times> u32 \<times> Pc) list"

definition KEY_LIMIT :: nat where "KEY_LIMIT = unat LAYOUT_LIMIT"

section \<open>Groups\<close>

definition class_of_group :: "PlanEnv \<Rightarrow> GroupId \<Rightarrow> ClassId option" where
  "class_of_group env g = (case group_ctor g of Some f \<Rightarrow> pe_class_lookup env f | None \<Rightarrow> group_class g)"

definition group_region :: "PlanEnv \<Rightarrow> GroupId \<Rightarrow> ClassId option" where
  "group_region env g = map_option (pe_region_root env) (class_of_group env g)"

text \<open>\<open>gs\<close> lists the groups that have a fold, \<open>region_rep\<close> is the first group of a region in id order.\<close>

definition region_rep :: "PlanEnv \<Rightarrow> GroupId list \<Rightarrow> ClassId \<Rightarrow> GroupId option" where
  "region_rep env gs r = find (\<lambda>g. group_region env g = Some r) (sort gs)"

definition has_ctor :: "PlanEnv \<Rightarrow> RowSet \<Rightarrow> GroupId list \<Rightarrow> ClassId \<Rightarrow> bool" where
  "has_ctor env rs gs r = list_ex (\<lambda>g. group_region env g = Some r \<and> rs_ctor_rows rs g \<noteq> []) (sort gs)"

definition group_key :: "PlanEnv \<Rightarrow> RowSet \<Rightarrow> GroupId list \<Rightarrow> GroupId \<Rightarrow> bool \<times> GroupId \<times> GroupId" where
  "group_key env rs gs g = (case group_region env g of
     Some r \<Rightarrow> (\<not> has_ctor env rs gs r, the (region_rep env gs r), g)
   | None \<Rightarrow> (rs_ctor_rows rs g = [], g, g))"

definition ordered_groups :: "PlanEnv \<Rightarrow> RowSet \<Rightarrow> GroupId list \<Rightarrow> GroupId list" where
  "ordered_groups env rs gs = sort_key (group_key env rs gs) (sort gs)"

section \<open>Keys\<close>

definition add_row :: "PlanEnv \<Rightarrow> ClassId option \<Rightarrow> NameId list \<Rightarrow> LayoutPlan \<Rightarrow> nat \<times> LayoutPlan" where
  "add_row env class names p =
     (let key = lp_next_key p;
          masks = map (\<lambda>n. case Option.bind class (\<lambda>c. pe_view_prims env c n) of Some m \<Rightarrow> m | None \<Rightarrow> 0) names;
          ranges = pair_ranges masks (map (\<lambda>n. Option.bind class (\<lambda>c. pe_view_range env c n)) names)
      in (key, p\<lparr>lp_next_key := key + 1, lp_rows := (lp_rows p)(key \<mapsto> \<lparr>lr_names = names, lr_masks = masks, lr_ranges = ranges\<rparr>)\<rparr>))"

definition pair_masks :: "prims list \<Rightarrow> prims list \<Rightarrow> prims list" where
  "pair_masks as bs = map (\<lambda>(a, b). if a \<noteq> 0 \<and> b \<noteq> 0 then prims_or a b else 0) (zip as bs)"

definition pair_table :: "nat \<Rightarrow> nat \<Rightarrow> LayoutPlan \<Rightarrow> LayoutPlan" where
  "pair_table key kf p = (case (lp_rows p key, lp_rows p kf) of
     (Some a, Some b) \<Rightarrow> p\<lparr>lp_group_tables := (lp_group_tables p)(key \<mapsto> (lr_names a, pair_masks (lr_masks a) (lr_masks b)))\<rparr>
   | _ \<Rightarrow> p)"

definition completes :: "PlanEnv \<Rightarrow> NameId list \<Rightarrow> ScriptId \<Rightarrow> bool" where
  "completes env sfx d = (case pe_this_events env d of
     None \<Rightarrow> False | Some evs \<Rightarrow> list_ex (\<lambda>e. case e of Write n \<Rightarrow> n \<in> set sfx | _ \<Rightarrow> False) evs)"

definition restamp_delegates :: "PlanEnv \<Rightarrow> NameId list \<Rightarrow> nat \<Rightarrow> ScriptId list \<Rightarrow> LayoutFacts \<Rightarrow> LayoutFacts" where
  "restamp_delegates env sfx kf ds facts = fold (\<lambda>d facts.
     if completes env sfx d \<and> lf_deleg_restamps facts d = None then facts\<lparr>lf_deleg_restamps := (lf_deleg_restamps facts)(d \<mapsto> kf)\<rparr> else facts) ds facts"

text \<open>Whether a formal of a script receives the whole sfx; \<open>None\<close> when the script's id is out of range.\<close>

definition fill_candidate :: "PlanEnv \<Rightarrow> LayoutPlan \<Rightarrow> LayoutFacts \<Rightarrow> ScriptId \<Rightarrow> ClassId \<Rightarrow> NameId list \<Rightarrow>
    (ScriptId \<times> u32) \<times> (NameId \<times> Site) list \<Rightarrow> bool option" where
  "fill_candidate env p facts f class sfx fill = (case fill of ((s, i), writes) \<Rightarrow>
     if s = f \<or> (s, i) \<in> lp_arg_reassigned p \<or> lf_deleg_restamps facts s \<noteq> None then Some False
     else case source_object (pe_source env) s of
       None \<Rightarrow> None
     | Some (SScript sc) \<Rightarrow>
         Some (\<not> has_mapped_args sc \<and> \<not> is_generator_or_async sc \<and>
           list_all (\<lambda>n. list_ex (\<lambda>(wn, site). wn = n \<and> Option.bind (pe_recv_class env site) agreed_get = Some class) writes) sfx)
     | Some _ \<Rightarrow> Some False)"

fun fill_candidates :: "PlanEnv \<Rightarrow> LayoutPlan \<Rightarrow> LayoutFacts \<Rightarrow> ScriptId \<Rightarrow> ClassId \<Rightarrow> NameId list \<Rightarrow>
    ((ScriptId \<times> u32) \<times> (NameId \<times> Site) list) list \<Rightarrow> (ScriptId \<times> u32) list option" where
  "fill_candidates env p facts f class sfx [] = Some []"
| "fill_candidates env p facts f class sfx (fill # fills) = (case fill_candidate env p facts f class sfx fill of
     None \<Rightarrow> None
   | Some ok \<Rightarrow> map_option (\<lambda>cs. if ok then fst fill # cs else cs) (fill_candidates env p facts f class sfx fills))"

definition restamp_args :: "nat \<Rightarrow> (ScriptId \<times> u32) list \<Rightarrow> LayoutFacts \<Rightarrow> LayoutFacts" where
  "restamp_args kf cands facts = fold (\<lambda>(s, i) facts.
     if lf_arg_restamps facts s = None then facts\<lparr>lf_arg_restamps := (lf_arg_restamps facts)(s \<mapsto> (i, kf))\<rparr> else facts) (sort cands) facts"

definition restamp_locals :: "nat \<Rightarrow> (ScriptId \<times> u32 \<times> Pc) list \<Rightarrow> LayoutFacts \<Rightarrow> LayoutFacts" where
  "restamp_locals kf fills facts =
     facts\<lparr>lf_local_restamps := fold (\<lambda>(s, l, pc) m. m(site_from_raw s pc \<mapsto> (l, kf))) fills (lf_local_restamps facts)\<rparr>"

definition assign_ctor_key :: "PlanEnv \<Rightarrow> RowSet \<Rightarrow> CtorRows \<Rightarrow> nat \<Rightarrow> LayoutPlan \<times> LayoutFacts \<Rightarrow> (LayoutPlan \<times> LayoutFacts) option" where
  "assign_ctor_key env rs cr group_lo st = (case st of (p, facts) \<Rightarrow>
     (let f = cr_ctor cr; class = pe_class_lookup env f; (key, p) = add_row env class (cr_prefix cr) p;
          facts = facts\<lparr>lf_ctor_stamps := (lf_ctor_stamps facts)(f \<mapsto> key),
            lf_ctor_nslots := (lf_ctor_nslots facts)(f \<mapsto> (case cr_full cr of None \<Rightarrow> length (cr_prefix cr) | Some r \<Rightarrow> length r))\<rparr>
      in case cr_full cr of
           None \<Rightarrow> Some (p\<lparr>lp_ctor_key := (lp_ctor_key p)(f \<mapsto> (key, key))\<rparr>, facts)
         | Some frow \<Rightarrow>
             (let (kf, p) = add_row env class frow p;
                  p = p\<lparr>lp_ctor_key := (lp_ctor_key p)(f \<mapsto> (key, kf))\<rparr>;
                  facts = restamp_locals kf (rs_local_fills rs f) facts;
                  p = (if key \<noteq> group_lo then pair_table key kf p else p);
                  n = length (key_names (lp_rows p) key)
              in if n > length frow then None
                 else (let sfx = drop n frow; facts = restamp_delegates env sfx kf (rs_tp_delegs rs f) facts
                       in case (if sfx = [] then None else class) of
                            None \<Rightarrow> Some (p, facts)
                          | Some c \<Rightarrow> map_option (\<lambda>cands. (p, restamp_args kf cands facts))
                              (fill_candidates env p facts f c sfx (lp_arg_fill p))))))"

definition assign_lit_key :: "PlanEnv \<Rightarrow> Site \<times> NameId list \<Rightarrow> LayoutPlan \<times> LayoutFacts \<Rightarrow> LayoutPlan \<times> LayoutFacts" where
  "assign_lit_key env lit st = (case (lit, st) of ((site, row), (p, facts)) \<Rightarrow>
     (case add_row env (pe_site_class env site) row p of (key, p) \<Rightarrow> (p, facts\<lparr>lf_lit_stamps := (lf_lit_stamps facts)(site \<mapsto> key)\<rparr>)))"

fun assign_ctor_keys :: "PlanEnv \<Rightarrow> RowSet \<Rightarrow> nat \<Rightarrow> CtorRows list \<Rightarrow> LayoutPlan \<times> LayoutFacts \<Rightarrow> (LayoutPlan \<times> LayoutFacts) option" where
  "assign_ctor_keys env rs group_lo [] st = Some st"
| "assign_ctor_keys env rs group_lo (cr # crs) st = (case assign_ctor_key env rs cr group_lo st of
     None \<Rightarrow> None | Some st \<Rightarrow> assign_ctor_keys env rs group_lo crs st)"

definition rows_needed :: "RowSet \<Rightarrow> GroupId \<Rightarrow> nat" where
  "rows_needed rs root = sum_list (map (\<lambda>e. 1 + (if cr_full e = None then 0 else 1)) (rs_ctor_rows rs root)) + length (rs_lit_rows rs root)"

text \<open>\<open>forder\<close> is the order in which the names of a fold are iterated.\<close>

definition assign_group :: "PlanEnv \<Rightarrow> RowSet \<Rightarrow> (SlotFold \<Rightarrow> NameId list) \<Rightarrow> GroupId \<Rightarrow> LayoutPlan \<times> LayoutFacts \<Rightarrow> (LayoutPlan \<times> LayoutFacts) option" where
  "assign_group env rs forder root st = (case st of (p, facts) \<Rightarrow>
     (let l = lp_next_key p
      in if l + rows_needed rs root \<ge> KEY_LIMIT then Some (p\<lparr>lp_layout_keys := lp_layout_keys p + 1\<rparr>, facts)
         else case assign_ctor_keys env rs l (sort_key (\<lambda>r. (cr_prefix r, cr_ctor r)) (rs_ctor_rows rs root)) (p, facts) of
           None \<Rightarrow> None
         | Some st \<Rightarrow>
             (case fold (assign_lit_key env) (sort_key (\<lambda>(s, row). (row, site_script s, site_pc s)) (rs_lit_rows rs root)) st of (p, facts) \<Rightarrow>
               if lp_next_key p = l then Some (p, facts)
               else (let h = lp_next_key p - 1; p = p\<lparr>lp_group_range := (lp_group_range p)(root \<mapsto> (l, h))\<rparr>
                     in case rs_folds rs root of
                          None \<Rightarrow> None
                        | Some sf \<Rightarrow>
                            (let ptable = universal_prefix (forder sf) sf
                             in Some (if ptable \<noteq> [] \<and> h > l
                                  then p\<lparr>lp_group_tables := (lp_group_tables p)(l \<mapsto> (ptable, prefix_masks (lp_rows p) ptable l h))\<rparr> else p, facts))))))"

fun assign_groups :: "PlanEnv \<Rightarrow> RowSet \<Rightarrow> (SlotFold \<Rightarrow> NameId list) \<Rightarrow> GroupId list \<Rightarrow> LayoutPlan \<times> LayoutFacts \<Rightarrow> (LayoutPlan \<times> LayoutFacts) option" where
  "assign_groups env rs forder [] st = Some st"
| "assign_groups env rs forder (g # gs) st = (case assign_group env rs forder g st of None \<Rightarrow> None | Some st \<Rightarrow> assign_groups env rs forder gs st)"

text \<open>The keys' classes, over the constructors in the order \<open>corder\<close>.\<close>

definition add_key_classes :: "PlanEnv \<Rightarrow> ScriptId list \<Rightarrow> LayoutPlan \<Rightarrow> LayoutPlan" where
  "add_key_classes env corder p = fold (\<lambda>f p. case (lp_ctor_key p f, pe_class_lookup env f) of
     (Some (kp, kf), Some c) \<Rightarrow> p\<lparr>lp_key_class := (lp_key_class p)(kp \<mapsto> c, kf \<mapsto> c)\<rparr> | _ \<Rightarrow> p) corder p"

definition assign_keys :: "PlanEnv \<Rightarrow> RowSet \<Rightarrow> (SlotFold \<Rightarrow> NameId list) \<Rightarrow> ScriptId list \<Rightarrow> GroupId list \<Rightarrow> LayoutPlan \<times> LayoutFacts \<Rightarrow>
    (LayoutPlan \<times> LayoutFacts) option" where
  "assign_keys env rs forder corder groups st =
     map_option (\<lambda>(p, facts). (add_key_classes env corder p, facts)) (assign_groups env rs forder groups st)"

section \<open>Regions\<close>

definition region_groups :: "PlanEnv \<Rightarrow> GroupId list \<Rightarrow> ClassId \<Rightarrow> GroupId list" where
  "region_groups env gorder r = filter (\<lambda>g. group_region env g = Some r) gorder"

definition add_region_table :: "PlanEnv \<Rightarrow> (SlotFold \<Rightarrow> NameId list) \<Rightarrow> GroupId list \<Rightarrow> ClassId \<Rightarrow> LayoutPlan \<Rightarrow> LayoutPlan option" where
  "add_region_table env forder gorder r p =
     (let groups = region_groups env gorder r
      in if length groups < 2 then Some p
         else if \<not> list_ex (\<lambda>g. group_is_ctor g \<or> g \<in> lp_stamped_class_groups p) groups then Some p
         else if list_ex (\<lambda>g. lp_group_range p g = None) groups then None
         else (let l = Min (set (map (\<lambda>g. fst (the (lp_group_range p g))) groups));
                   h = Max (set (map (\<lambda>g. snd (the (lp_group_range p g))) groups));
                   p = p\<lparr>lp_region_range := (lp_region_range p)(r \<mapsto> (l, h))\<rparr>
               in case fold_add_rows fold_default (map (key_names (lp_rows p)) [l..<h + 1]) of
                    None \<Rightarrow> None
                  | Some sf \<Rightarrow>
                      (let ptable = universal_prefix (forder sf) sf
                       in Some (if ptable = [] then p
                            else p\<lparr>lp_region_tables := (lp_region_tables p)(r \<mapsto> (ptable, prefix_masks (lp_rows p) ptable l h))\<rparr>))))"

text \<open>\<open>gorder\<close> and \<open>rorder\<close> are the orders in which the groups with a range and the regions are iterated.\<close>

fun add_region_tables :: "PlanEnv \<Rightarrow> (SlotFold \<Rightarrow> NameId list) \<Rightarrow> GroupId list \<Rightarrow> ClassId list \<Rightarrow> LayoutPlan \<Rightarrow> LayoutPlan option" where
  "add_region_tables env forder gorder [] p = Some p"
| "add_region_tables env forder gorder (r # rorder) p = (case add_region_table env forder gorder r p of
     None \<Rightarrow> None | Some p \<Rightarrow> add_region_tables env forder gorder rorder p)"

section \<open>Rows after an allocation\<close>

definition post_base_key :: "LayoutFacts \<Rightarrow> (Site \<rightharpoonup> ScriptId) \<Rightarrow> LayoutPlan \<Rightarrow> Site \<Rightarrow> nat option" where
  "post_base_key facts single p site = (case lf_construct_site_keys facts site of
     Some k \<Rightarrow> Some k
   | None \<Rightarrow> (case single site of Some ctor \<Rightarrow> map_option snd (lp_ctor_key p ctor) | None \<Rightarrow> None))"

definition extend_row :: "NameId list \<Rightarrow> NameId list \<Rightarrow> NameId list" where
  "extend_row base order = foldl (\<lambda>row n. if n \<notin> set row \<and> length row < LAY_CAP then row @ [n] else row) base order"

fun post_new_loop :: "PlanEnv \<Rightarrow> LayoutFacts \<Rightarrow> (Site \<rightharpoonup> ScriptId) \<Rightarrow> (Site \<times> NameId list) list \<Rightarrow> (nat \<times> NameId list) set \<Rightarrow> LayoutPlan \<Rightarrow> LayoutPlan" where
  "post_new_loop env facts single [] seen p = p"
| "post_new_loop env facts single ((site, order) # sites) seen p =
     (if order = [] then post_new_loop env facts single sites seen p
      else case post_base_key facts single p site of
        None \<Rightarrow> post_new_loop env facts single sites seen p
      | Some base_key \<Rightarrow> (case lp_rows p base_key of
          None \<Rightarrow> post_new_loop env facts single sites seen p
        | Some base \<Rightarrow>
            (let extended = extend_row (lr_names base) order
             in if length extended = length (lr_names base) then post_new_loop env facts single sites seen p
                else if (base_key, extended) \<in> seen then post_new_loop env facts single sites seen p
                else if lp_next_key p \<ge> KEY_LIMIT then p\<lparr>lp_layout_keys := lp_layout_keys p + 1\<rparr>
                else post_new_loop env facts single sites (insert (base_key, extended) seen)
                  (snd (add_row env (lp_key_class p base_key) extended p)))))"

definition add_post_new_rows :: "PlanEnv \<Rightarrow> LayoutFacts \<Rightarrow> (Site \<rightharpoonup> ScriptId) \<Rightarrow> (Site \<times> NameId list) list \<Rightarrow> LayoutPlan \<Rightarrow> LayoutPlan" where
  "add_post_new_rows env facts single post_order p =
     post_new_loop env facts single (sort_key (\<lambda>(s, _). (site_script s, site_pc s)) post_order) {} p"

definition insert_prop_site :: "LayoutFacts \<Rightarrow> Site \<Rightarrow> SlotFact \<Rightarrow> bool \<Rightarrow> LayoutFacts" where
  "insert_prop_site facts site f is_read =
     (if \<not> is_read \<and> \<not> fact_uniform f then facts
      else facts\<lparr>lf_prop_sites := (lf_prop_sites facts)(site \<mapsto> (fact_lo f, fact_hi f, fact_slot f, claim_of_prims (fact_prims f)))\<rparr>)"

section \<open>The order of the groups\<close>

lemma region_rep_region:
  assumes "g \<in> set gs" "group_region env g = Some r"
  shows "\<exists>g'. region_rep env gs r = Some g' \<and> group_region env g' = Some r"
proof -
  have "region_rep env gs r \<noteq> None" unfolding region_rep_def find_None_iff using assms by auto
  then show ?thesis unfolding region_rep_def by (auto simp: find_Some_iff)
qed

text \<open>The groups of one region are next to each other in key order.\<close>

theorem ordered_groups_contiguous:
  assumes "i < j" "j < k" "k < length (ordered_groups env rs gs)"
    and "group_region env (ordered_groups env rs gs ! i) = Some r" "group_region env (ordered_groups env rs gs ! k) = Some r"
  shows "group_region env (ordered_groups env rs gs ! j) = Some r"
proof -
  let ?os = "ordered_groups env rs gs" and ?key = "group_key env rs gs"
  have set: "?os ! x \<in> set gs" if "x < length ?os" for x using nth_mem [OF that] by (simp add: ordered_groups_def)
  have "sorted (map ?key ?os)" by (simp add: ordered_groups_def)
  then have le: "?key (?os ! x) \<le> ?key (?os ! y)" if "x < y" "y < length ?os" for x y
    using that sorted_nth_mono [of "map ?key ?os" x y] by simp
  obtain g' where g': "region_rep env gs r = Some g'" "group_region env g' = Some r" using region_rep_region [OF set assms(4)] assms(1-3) by auto
  have key: "?key g = (\<not> has_ctor env rs gs r, g', g)" if "group_region env g = Some r" for g using that g'(1) by (simp add: group_key_def)
  obtain a b c where abc: "?key (?os ! j) = (a, b, c)" by (cases "?key (?os ! j)") auto
  have "?key (?os ! i) \<le> ?key (?os ! j)" "?key (?os ! j) \<le> ?key (?os ! k)" using le assms(1-3) by auto
  then have b: "b = g'" unfolding abc key [OF assms(4)] key [OF assms(5)] by (auto simp: less_eq_prod_def less_prod_def)
  show ?thesis
  proof (cases "group_region env (?os ! j)")
    case None
    then show ?thesis using abc b g'(2) by (auto simp: group_key_def)
  next
    case (Some r')
    obtain g'' where "region_rep env gs r' = Some g''" "group_region env g'' = Some r'" using region_rep_region [OF set Some] assms(1-3) by auto
    then show ?thesis using abc b g'(2) Some by (simp add: group_key_def)
  qed
qed

section \<open>The plan's invariant\<close>

definition row_facts_ok :: "LayoutRowFacts \<Rightarrow> bool" where
  "row_facts_ok r = (distinct (lr_names r) \<and> length (lr_names r) \<le> LAY_CAP \<and> length (lr_masks r) = length (lr_names r) \<and>
     length (lr_ranges r) = length (lr_names r) \<and> (\<forall>i<length (lr_names r). lr_ranges r ! i \<noteq> None \<longrightarrow> lr_masks r ! i = PRIM_INT32))"

definition rows_ok :: "LayoutPlan \<Rightarrow> bool" where
  "rows_ok p = (dom (lp_rows p) = {..<lp_next_key p} \<and> (\<forall>r\<in>ran (lp_rows p). row_facts_ok r))"

definition ranges_ok :: "LayoutPlan \<Rightarrow> bool" where
  "ranges_ok p = ((\<forall>g l h. lp_group_range p g = Some (l, h) \<longrightarrow> l \<le> h \<and> h < lp_next_key p) \<and>
     (\<forall>g g' l h l' h'. lp_group_range p g = Some (l, h) \<longrightarrow> lp_group_range p g' = Some (l', h') \<longrightarrow> g \<noteq> g' \<longrightarrow> {l..h} \<inter> {l'..h'} = {}))"

definition plan_ok :: "LayoutPlan \<Rightarrow> bool" where
  "plan_ok p = (rows_ok p \<and> ranges_ok p \<and> lp_next_key p \<le> KEY_LIMIT)"

definition name_row_ok :: "NameId list \<Rightarrow> bool" where
  "name_row_ok row = (distinct row \<and> length row \<le> LAY_CAP)"

definition row_set_ok :: "RowSet \<Rightarrow> bool" where
  "row_set_ok rs = (\<forall>g. (\<forall>cr\<in>set (rs_ctor_rows rs g). name_row_ok (cr_prefix cr) \<and> (\<forall>r. cr_full cr = Some r \<longrightarrow> name_row_ok r)) \<and>
     (\<forall>lit\<in>set (rs_lit_rows rs g). name_row_ok (snd lit)))"

text \<open>Minting a key leaves everything but the rows and the next key alone.\<close>

definition minted :: "nat \<Rightarrow> LayoutPlan \<Rightarrow> LayoutPlan \<Rightarrow> bool" where
  "minted n p q = (rows_ok q \<and> lp_next_key q = lp_next_key p + n \<and> lp_group_range q = lp_group_range p \<and>
     (\<forall>k<lp_next_key p. lp_rows q k = lp_rows p k))"

lemma minted_trans: "minted m p q \<Longrightarrow> minted n q r \<Longrightarrow> minted (m + n) p r"
  by (auto simp: minted_def)

lemma add_row_facts: "row_facts_ok \<lparr>lr_names = names, lr_masks = map f names, lr_ranges = pair_ranges (map f names) (map g names)\<rparr>" if "name_row_ok names"
  using that by (auto simp: row_facts_ok_def name_row_ok_def pair_ranges_def)

lemma add_row_minted:
  assumes "rows_ok p" "name_row_ok names" "add_row env class names p = (key, q)"
  shows "minted 1 p q \<and> key = lp_next_key p \<and> key_names (lp_rows q) key = names"
proof -
  obtain r where r: "row_facts_ok r" "lr_names r = names" "key = lp_next_key p"
    "q = p\<lparr>lp_next_key := Suc (lp_next_key p), lp_rows := (lp_rows p)(lp_next_key p \<mapsto> r)\<rparr>"
    using assms(3) add_row_facts [OF assms(2)] unfolding add_row_def Let_def by fastforce
  have "ran ((lp_rows p)(lp_next_key p \<mapsto> r)) \<subseteq> insert r (ran (lp_rows p))" by (auto simp: ran_def)
  then have "rows_ok q" using assms(1) r(1) unfolding r(4) rows_ok_def by (auto simp: lessThan_Suc)
  then show ?thesis using r by (simp add: minted_def key_names_def)
qed

lemma minted_cong:
  assumes "minted n p q" "lp_rows q' = lp_rows q" "lp_next_key q' = lp_next_key q" "lp_group_range q' = lp_group_range q"
  shows "minted n p q'"
  using assms by (simp add: minted_def rows_ok_def)

lemma pair_table_sel [simp]:
  "lp_rows (pair_table k kf p) = lp_rows p" "lp_next_key (pair_table k kf p) = lp_next_key p" "lp_group_range (pair_table k kf p) = lp_group_range p"
  by (auto simp: pair_table_def split: option.splits)

definition ctor_count :: "CtorRows \<Rightarrow> nat" where
  "ctor_count cr = 1 + (if cr_full cr = None then 0 else 1)"

definition ctor_row_ok :: "CtorRows \<Rightarrow> bool" where
  "ctor_row_ok cr = (name_row_ok (cr_prefix cr) \<and> (\<forall>r. cr_full cr = Some r \<longrightarrow> name_row_ok r))"

lemma assign_ctor_key_minted:
  assumes "rows_ok p" "ctor_row_ok cr" "assign_ctor_key env rs cr glo (p, facts) = Some (q, facts')"
  shows "minted (ctor_count cr) p q"
proof -
  define cls where "cls = pe_class_lookup env (cr_ctor cr)"
  obtain key p1 where p1: "add_row env cls (cr_prefix cr) p = (key, p1)" by fastforce
  have m1: "minted 1 p p1" using add_row_minted [OF assms(1) _ p1] assms(2) by (simp add: ctor_row_ok_def)
  show ?thesis
  proof (cases "cr_full cr")
    case None
    then have "q = p1\<lparr>lp_ctor_key := (lp_ctor_key p1)(cr_ctor cr \<mapsto> (key, key))\<rparr>"
      using assms(3) p1 by (simp add: assign_ctor_key_def cls_def Let_def)
    then show ?thesis using minted_cong [OF m1, of q] None by (simp add: ctor_count_def)
  next
    case (Some frow)
    obtain kf p2 where p2: "add_row env cls frow p1 = (kf, p2)" by fastforce
    have "minted 1 p1 p2" using add_row_minted [OF _ _ p2] m1 assms(2) Some by (simp add: ctor_row_ok_def minted_def)
    then have m2: "minted 2 p p2" using minted_trans [OF m1, of 1 p2] by (simp add: numeral_2_eq_2)
    let ?p3 = "p2\<lparr>lp_ctor_key := (lp_ctor_key p2)(cr_ctor cr \<mapsto> (key, kf))\<rparr>"
    have "q = (if key \<noteq> glo then pair_table key kf ?p3 else ?p3)"
      using assms(3) p1 p2 Some unfolding assign_ctor_key_def cls_def Let_def by (auto split: if_splits option.splits)
    then have "minted 2 p q" by (intro minted_cong [OF m2]) simp_all
    then show ?thesis using Some by (simp add: ctor_count_def numeral_2_eq_2)
  qed
qed

lemma minted_0: "rows_ok p \<Longrightarrow> minted 0 p p"
  by (simp add: minted_def)

lemma assign_ctor_keys_minted:
  assumes "rows_ok p" "\<And>cr. cr \<in> set crs \<Longrightarrow> ctor_row_ok cr" "assign_ctor_keys env rs glo crs (p, facts) = Some (q, facts')"
  shows "minted (sum_list (map ctor_count crs)) p q"
  using assms
proof (induction crs arbitrary: p facts)
  case (Cons cr crs)
  obtain p1 facts1 where s: "assign_ctor_key env rs cr glo (p, facts) = Some (p1, facts1)" "assign_ctor_keys env rs glo crs (p1, facts1) = Some (q, facts')"
    using Cons.prems(3) by (auto split: option.splits)
  have m: "minted (ctor_count cr) p p1" using assign_ctor_key_minted [OF Cons.prems(1) _ s(1)] Cons.prems(2) by simp
  from Cons.IH [OF _ _ s(2)] m Cons.prems(2) have "minted (sum_list (map ctor_count crs)) p1 q" by (simp add: minted_def)
  then show ?case using minted_trans [OF m] by simp
qed (simp add: minted_0)

lemma assign_lits_minted:
  assumes "rows_ok p" "\<And>lit. lit \<in> set lits \<Longrightarrow> name_row_ok (snd lit)" "fold (assign_lit_key env) lits (p, facts) = (q, facts')"
  shows "minted (length lits) p q"
  using assms
proof (induction lits arbitrary: p facts)
  case (Cons lit lits)
  obtain site row where lit: "lit = (site, row)" by fastforce
  obtain key p1 where p1: "add_row env (pe_site_class env site) row p = (key, p1)" by fastforce
  have m: "minted 1 p p1" using add_row_minted [OF Cons.prems(1) _ p1] Cons.prems(2) [of lit] lit by simp
  have "assign_lit_key env lit (p, facts) = (p1, facts\<lparr>lf_lit_stamps := (lf_lit_stamps facts)(site \<mapsto> key)\<rparr>)"
    using lit p1 by (simp add: assign_lit_key_def)
  then have "fold (assign_lit_key env) lits (p1, facts\<lparr>lf_lit_stamps := (lf_lit_stamps facts)(site \<mapsto> key)\<rparr>) = (q, facts')"
    using Cons.prems(3) by simp
  from Cons.IH [OF _ _ this] m Cons.prems(2) have "minted (length lits) p1 q" by (simp add: minted_def)
  then show ?case using minted_trans [OF m, of "length lits" q] by simp
qed (simp add: minted_0)

lemma rows_needed_count: "rows_needed rs root = sum_list (map ctor_count (rs_ctor_rows rs root)) + length (rs_lit_rows rs root)"
  unfolding rows_needed_def ctor_count_def ..

lemma sum_list_sort_key: "sum_list (map f (sort_key k xs)) = sum_list (map f xs)" for f :: "'a \<Rightarrow> nat"
  by (metis mset_map mset_sort sum_mset_sum_list)

definition group_at :: "GroupId \<Rightarrow> LayoutPlan \<Rightarrow> LayoutPlan \<Rightarrow> bool" where
  "group_at root p q = (\<exists>n. minted n p q \<or> n > 0 \<and> minted n p (q\<lparr>lp_group_range := lp_group_range p\<rparr>) \<and>
     lp_group_range q = (lp_group_range p)(root \<mapsto> (lp_next_key p, lp_next_key q - 1)))"

lemma assign_group_at:
  assumes "row_set_ok rs" "rows_ok p" "lp_next_key p \<le> KEY_LIMIT" "assign_group env rs forder root (p, facts) = Some (q, facts')"
  shows "group_at root p q \<and> lp_next_key q \<le> KEY_LIMIT"
proof (cases "lp_next_key p + rows_needed rs root \<ge> KEY_LIMIT")
  case True
  then have q: "q = p\<lparr>lp_layout_keys := lp_layout_keys p + 1\<rparr>" using assms(4) by (simp add: assign_group_def Let_def)
  then have "minted 0 p q" using minted_cong [OF minted_0 [OF assms(2)], of q] by simp
  then show ?thesis using assms(3) q by (auto simp: group_at_def)
next
  case False
  let ?crs = "sort_key (\<lambda>r. (cr_prefix r, cr_ctor r)) (rs_ctor_rows rs root)" and ?lits = "sort_key (\<lambda>(s, row). (row, site_script s, site_pc s)) (rs_lit_rows rs root)"
  obtain p1 f1 p2 f2 where s: "assign_ctor_keys env rs (lp_next_key p) ?crs (p, facts) = Some (p1, f1)" "fold (assign_lit_key env) ?lits (p1, f1) = (p2, f2)"
    using assms(4) False unfolding assign_group_def Let_def by (auto split: option.splits prod.splits)
  have ok: "ctor_row_ok cr" if "cr \<in> set ?crs" for cr using assms(1) that by (simp add: row_set_ok_def ctor_row_ok_def)
  have lit: "name_row_ok (snd l)" if "l \<in> set ?lits" for l using assms(1) that by (simp add: row_set_ok_def)
  have m1: "minted (sum_list (map ctor_count (rs_ctor_rows rs root))) p p1"
    using assign_ctor_keys_minted [OF assms(2) ok s(1)] by (simp add: sum_list_sort_key)
  have "minted (length (rs_lit_rows rs root)) p1 p2" using assign_lits_minted [OF _ lit s(2)] m1 by (simp add: minted_def)
  then have m: "minted (rows_needed rs root) p p2" using minted_trans [OF m1] by (simp add: rows_needed_count)
  then have lim: "lp_next_key p2 < KEY_LIMIT" using False by (simp add: minted_def)
  show ?thesis
  proof (cases "lp_next_key p2 = lp_next_key p")
    case True
    then have "q = p2" using assms(4) False s unfolding assign_group_def Let_def by simp
    then show ?thesis using m lim by (auto simp: group_at_def)
  next
    case ne: False
    have q: "lp_rows q = lp_rows p2" "lp_next_key q = lp_next_key p2"
      "lp_group_range q = (lp_group_range p2)(root \<mapsto> (lp_next_key p, lp_next_key p2 - 1))"
      using assms(4) False s ne unfolding assign_group_def Let_def by (auto split: option.splits if_splits)
    have "minted (rows_needed rs root) p (q\<lparr>lp_group_range := lp_group_range p\<rparr>)"
      by (rule minted_cong [OF m]) (use q m in \<open>simp_all add: minted_def\<close>)
    moreover have "rows_needed rs root > 0" using ne m by (simp add: minted_def)
    ultimately show ?thesis using q m lim unfolding group_at_def by (auto simp: minted_def intro!: exI [of _ "rows_needed rs root"])
  qed
qed

lemma group_at_ok:
  assumes "group_at root p q" "rows_ok p" "ranges_ok p" "lp_group_range p root = None"
  shows "rows_ok q \<and> ranges_ok q \<and> lp_next_key p \<le> lp_next_key q \<and> (\<forall>g. g \<noteq> root \<longrightarrow> lp_group_range q g = lp_group_range p g)"
proof -
  from assms(1) obtain n where "minted n p q \<or> n > 0 \<and> minted n p (q\<lparr>lp_group_range := lp_group_range p\<rparr>) \<and>
     lp_group_range q = (lp_group_range p)(root \<mapsto> (lp_next_key p, lp_next_key q - 1))" by (auto simp: group_at_def)
  then show ?thesis
  proof
    assume "minted n p q"
    then show ?thesis using assms(3) by (fastforce simp: minted_def ranges_ok_def)
  next
    assume a: "n > 0 \<and> minted n p (q\<lparr>lp_group_range := lp_group_range p\<rparr>) \<and> lp_group_range q = (lp_group_range p)(root \<mapsto> (lp_next_key p, lp_next_key q - 1))"
    then have nk: "lp_next_key q = lp_next_key p + n" "rows_ok q" by (auto simp: minted_def rows_ok_def)
    have old: "l \<le> h \<and> h < lp_next_key p" if "lp_group_range p g = Some (l, h)" for g l h using assms(3) that by (auto simp: ranges_ok_def)
    have range: "lp_group_range q g = (if g = root then Some (lp_next_key p, lp_next_key q - 1) else lp_group_range p g)" for g using a by simp
    have "ranges_ok q"
      unfolding ranges_ok_def range
    proof (intro conjI allI impI)
      fix g l h assume "(if g = root then Some (lp_next_key p, lp_next_key q - 1) else lp_group_range p g) = Some (l, h)"
      then show "l \<le> h" "h < lp_next_key q" using nk a old [of g l h] by (auto split: if_splits)
    next
      fix g g' l h l' h'
      assume ne: "g \<noteq> g'" and "(if g = root then Some (lp_next_key p, lp_next_key q - 1) else lp_group_range p g) = Some (l, h)"
        "(if g' = root then Some (lp_next_key p, lp_next_key q - 1) else lp_group_range p g') = Some (l', h')"
      then consider "l = lp_next_key p" "lp_group_range p g' = Some (l', h')" | "l' = lp_next_key p" "lp_group_range p g = Some (l, h)"
        | "lp_group_range p g = Some (l, h)" "lp_group_range p g' = Some (l', h')" by (auto split: if_splits)
      then show "{l..h} \<inter> {l'..h'} = {}"
      proof cases
        case 1
        then show ?thesis using old [OF 1(2)] by auto
      next
        case 2
        then show ?thesis using old [OF 2(2)] by auto
      next
        case 3
        then show ?thesis using assms(3) ne unfolding ranges_ok_def by blast
      qed
    qed
    then show ?thesis using nk range by simp
  qed
qed

lemma assign_groups_ok:
  assumes "row_set_ok rs" "plan_ok p" "distinct gs" "\<And>g. g \<in> set gs \<Longrightarrow> lp_group_range p g = None"
    and "assign_groups env rs forder gs (p, facts) = Some (q, facts')"
  shows "plan_ok q"
  using assms(2-5)
proof (induction gs arbitrary: p facts)
  case (Cons g gs)
  obtain p1 f1 where s: "assign_group env rs forder g (p, facts) = Some (p1, f1)" "assign_groups env rs forder gs (p1, f1) = Some (q, facts')"
    using Cons.prems(4) by (auto split: option.splits)
  have at: "group_at g p p1" "lp_next_key p1 \<le> KEY_LIMIT" using assign_group_at [OF assms(1) _ _ s(1)] Cons.prems(1) by (auto simp: plan_ok_def)
  have ok: "rows_ok p1" "ranges_ok p1" "\<And>h. h \<noteq> g \<Longrightarrow> lp_group_range p1 h = lp_group_range p h"
    using group_at_ok [OF at(1)] Cons.prems(1,3) by (auto simp: plan_ok_def)
  show ?case
  proof (rule Cons.IH [OF _ _ _ s(2)])
    show "lp_group_range p1 h = None" if "h \<in> set gs" for h using ok(3) [of h] Cons.prems(2,3) that by auto
  qed (use ok at(2) Cons.prems(2) in \<open>auto simp: plan_ok_def\<close>)
qed simp

lemma add_key_classes_sel:
  "lp_rows (add_key_classes env fs p) = lp_rows p \<and> lp_next_key (add_key_classes env fs p) = lp_next_key p \<and>
   lp_group_range (add_key_classes env fs p) = lp_group_range p"
  unfolding add_key_classes_def by (induction fs arbitrary: p) (simp_all split: option.splits prod.splits)

lemma plan_ok_cong:
  assumes "plan_ok p" "lp_rows q = lp_rows p" "lp_next_key q = lp_next_key p" "lp_group_range q = lp_group_range p"
  shows "plan_ok q"
  using assms(1) unfolding plan_ok_def rows_ok_def ranges_ok_def assms(2-4) .

lemma extend_row_ok: "name_row_ok base \<Longrightarrow> name_row_ok (extend_row base order) \<and> prefix base (extend_row base order)"
  unfolding extend_row_def
proof (induction order arbitrary: base)
  case (Cons n order)
  let ?b = "if n \<notin> set base \<and> length base < LAY_CAP then base @ [n] else base"
  have "name_row_ok ?b" "prefix base ?b" using Cons.prems by (auto simp: name_row_ok_def)
  with Cons.IH [of ?b] show ?case by (auto intro: prefix_order.trans)
qed simp

lemma plan_ok_minted:
  assumes "plan_ok p" "minted n p q" "lp_next_key q \<le> KEY_LIMIT"
  shows "plan_ok q"
  using assms by (fastforce simp: plan_ok_def minted_def ranges_ok_def)

lemma post_new_loop_ok: "plan_ok p \<Longrightarrow> plan_ok (post_new_loop env facts single sites seen p)"
proof (induction sites arbitrary: seen p)
  case (Cons so sites)
  obtain site order where so: "so = (site, order)" by fastforce
  show ?case
  proof (cases "order = [] \<or> post_base_key facts single p site = None \<or> lp_rows p (the (post_base_key facts single p site)) = None")
    case True
    then have "post_new_loop env facts single (so # sites) seen p = post_new_loop env facts single sites seen p"
      by (auto simp: so split: option.splits)
    then show ?thesis using Cons by simp
  next
    case False
    then obtain k base where k: "order \<noteq> []" "post_base_key facts single p site = Some k" "lp_rows p k = Some base" by auto
    define ext where "ext = extend_row (lr_names base) order"
    have "row_facts_ok base" using Cons.prems k(3) by (auto simp: plan_ok_def rows_ok_def ran_def)
    then have ext: "name_row_ok ext" using extend_row_ok [of "lr_names base" order] by (simp add: row_facts_ok_def name_row_ok_def ext_def)
    obtain key q where q: "add_row env (lp_key_class p k) ext p = (key, q)" by fastforce
    have "plan_ok q" if "lp_next_key p < KEY_LIMIT"
      using plan_ok_minted [OF Cons.prems] add_row_minted [OF _ ext q] Cons.prems that by (auto simp: plan_ok_def minted_def)
    moreover have "plan_ok (p\<lparr>lp_layout_keys := lp_layout_keys p + 1\<rparr>)" by (rule plan_ok_cong [OF Cons.prems]) simp_all
    moreover have "post_new_loop env facts single (so # sites) seen p =
        (if length ext = length (lr_names base) \<or> (k, ext) \<in> seen then post_new_loop env facts single sites seen p
         else if lp_next_key p \<ge> KEY_LIMIT then p\<lparr>lp_layout_keys := lp_layout_keys p + 1\<rparr>
         else post_new_loop env facts single sites (insert (k, ext) seen) q)"
      using k q by (simp add: so ext_def Let_def)
    ultimately show ?thesis using Cons.IH [OF Cons.prems, of seen] Cons.IH [of q "insert (k, ext) seen"] by simp
  qed
qed simp

text \<open>C10. 
  The plan after key assignment: the keys are exactly those below \<open>next_key\<close>, within the 15-bit limit; every row is duplicate-free and
  within the cap, with a mask and a range for each name and a range only where the mask is the int32 one; and the
  key ranges of the groups are non-empty, in use and pairwise disjoint.
\<close>

theorem assigned_keys_wellformed:
  assumes "row_set_ok rs" "plan_ok p" "distinct groups" "lp_group_range p = Map.empty"
    and "assign_keys env rs forder corder groups (p, facts) = Some (q, facts')"
  shows "plan_ok q \<and> plan_ok (add_post_new_rows env facts' single post_order q)"
proof -
  obtain p1 where p1: "assign_groups env rs forder groups (p, facts) = Some (p1, facts')" "q = add_key_classes env corder p1"
    using assms(5) by (auto simp: assign_keys_def)
  have "plan_ok p1" by (rule assign_groups_ok [OF assms(1-3) _ p1(1)]) (simp add: assms(4))
  then have "plan_ok q" unfolding p1(2) by (rule plan_ok_cong) (simp_all add: add_key_classes_sel)
  then show ?thesis using post_new_loop_ok by (simp add: add_post_new_rows_def)
qed

section \<open>Region tables\<close>

definition table_ok :: "LayoutPlan \<Rightarrow> ClassId \<Rightarrow> bool" where
  "table_ok p r = (case lp_region_tables p r of
     None \<Rightarrow> True
   | Some (ptable, masks) \<Rightarrow> (\<exists>l h. lp_region_range p r = Some (l, h) \<and> l \<le> h \<and>
       ptable = take LAY_CAP (Longest_common_prefix (key_names (lp_rows p) ` {l..h})) \<and> masks = prefix_masks (lp_rows p) ptable l h))"

lemma fold_names_finite: "finite (dom m) \<Longrightarrow> fold_names i row m = Some m' \<Longrightarrow> finite (dom m')"
proof (induction row arbitrary: i m)
  case (Cons n row)
  have "finite (dom (m(n \<mapsto> fold_name (of_nat i) (m n))))" using Cons.prems(1) by simp
  then show ?case using Cons.IH Cons.prems(2) by (auto split: if_splits simp del: dom_fun_upd)
qed simp

lemma fold_add_rows_finite: "finite (dom (sf_names sf)) \<Longrightarrow> fold_add_rows sf rows = Some sf' \<Longrightarrow> finite (dom (sf_names sf'))"
proof (induction rows arbitrary: sf)
  case (Cons row rows)
  obtain m where m: "fold_names 0 row (sf_names sf) = Some m" "fold_add_rows \<lparr>sf_rows = sf_rows sf + 1, sf_names = m\<rparr> rows = Some sf'"
    using Cons.prems(2) by (auto simp: fold_add_row_def split: option.splits)
  then show ?case using Cons.IH [OF _ m(2)] fold_names_finite [OF Cons.prems(1) m(1)] by simp
qed simp

lemma row_names_ok: "plan_ok p \<Longrightarrow> name_row_ok (key_names (lp_rows p) k)"
  by (auto simp: plan_ok_def rows_ok_def key_names_def row_facts_ok_def name_row_ok_def ran_def split: option.splits)

lemma add_region_table_ok:
  assumes "plan_ok p" "\<And>sf. finite (dom (sf_names sf)) \<Longrightarrow> set (forder sf) = dom (sf_names sf)" "set gorder \<subseteq> dom (lp_group_range p)" "\<And>r. table_ok p r"
    and fresh: "lp_region_tables p r = None"
  shows "\<exists>q. add_region_table env forder gorder r p = Some q \<and> (\<forall>r. table_ok q r) \<and> (\<forall>r'. r' \<noteq> r \<longrightarrow> lp_region_tables q r' = lp_region_tables p r') \<and> lp_rows q = lp_rows p \<and> lp_next_key q = lp_next_key p \<and>
    lp_group_range q = lp_group_range p"
proof -
  let ?gs = "region_groups env gorder r"
  let ?l = "Min (set (map (\<lambda>g. fst (the (lp_group_range p g))) ?gs))" and ?h = "Max (set (map (\<lambda>g. snd (the (lp_group_range p g))) ?gs))"
  show ?thesis
  proof (cases "length ?gs < 2 \<or> \<not> list_ex (\<lambda>g. group_is_ctor g \<or> g \<in> lp_stamped_class_groups p) ?gs")
    case True
    then show ?thesis using assms(4) by (auto simp: add_region_table_def Let_def)
  next
    case False
    have some: "\<not> list_ex (\<lambda>g. lp_group_range p g = None) ?gs" using assms(3) by (auto simp: list_ex_iff region_groups_def)
    obtain g where g: "g \<in> set ?gs" using False by (cases ?gs) auto
    then obtain a b where ab: "lp_group_range p g = Some (a, b)" using assms(3) by (force simp: region_groups_def)
    have "?l \<le> fst (the (lp_group_range p g))" "snd (the (lp_group_range p g)) \<le> ?h" using g by (auto intro: Min_le Max_ge)
    moreover have "a \<le> b" "b < lp_next_key p" using assms(1) ab by (auto simp: plan_ok_def ranges_ok_def)
    ultimately have lh: "?l \<le> ?h" using ab by simp
    have hk: "?h < lp_next_key p"
    proof -
      have "\<forall>x\<in>set (map (\<lambda>g. snd (the (lp_group_range p g))) ?gs). x < lp_next_key p"
        using assms(1,3) by (force simp: plan_ok_def ranges_ok_def region_groups_def)
      moreover have "set (map (\<lambda>g. snd (the (lp_group_range p g))) ?gs) \<noteq> {}" using g by auto
      ultimately show ?thesis using Max_in [OF finite_set] by blast
    qed
    let ?rows = "map (key_names (lp_rows p)) [?l..<?h + 1]"
    have rows: "?rows \<noteq> []" "length ?rows < 2 ^ 32" "\<And>row. row \<in> set ?rows \<Longrightarrow> distinct row \<and> length row \<le> 2 ^ 32"
    proof -
      show "?rows \<noteq> []" using lh by simp
      have "lp_next_key p \<le> 32767" using assms(1) by (simp add: plan_ok_def KEY_LIMIT_def LAYOUT_LIMIT_def)
      moreover have "h < k \<Longrightarrow> k \<le> 32767 \<Longrightarrow> h + 1 - l < 2 ^ 32" for h k l :: nat by simp
      ultimately have "?h + 1 - ?l < 2 ^ 32" using hk by blast
      then show "length ?rows < 2 ^ 32" by (simp only: length_map length_upt)
      show "distinct row \<and> length row \<le> 2 ^ 32" if "row \<in> set ?rows" for row
      proof -
        have "name_row_ok row" using that row_names_ok [OF assms(1)] unfolding set_map by blast
        then show ?thesis by (simp add: name_row_ok_def LAY_CAP_def)
      qed
    qed
    obtain sf where sf: "fold_add_rows fold_default ?rows = Some sf" "universal_prefix (forder sf) sf = take LAY_CAP (Longest_common_prefix (set ?rows))"
    proof -
      obtain sf where sf: "fold_add_rows fold_default ?rows = Some sf"
        "\<forall>order. set order = dom (sf_names sf) \<longrightarrow> universal_prefix order sf = take LAY_CAP (Longest_common_prefix (set ?rows))"
        using universal_prefix_at [OF rows] by blast
      have "finite (dom (sf_names sf))" by (rule fold_add_rows_finite [OF _ sf(1)]) (simp add: fold_default_def)
      then show thesis using that sf assms(2) by blast
    qed
    have img: "set ?rows = key_names (lp_rows p) ` {?l..?h}" by auto
    define pt where "pt = take LAY_CAP (Longest_common_prefix (key_names (lp_rows p) ` {?l..?h}))"
    define q1 where "q1 = p\<lparr>lp_region_range := (lp_region_range p)(r \<mapsto> (?l, ?h))\<rparr>"
    define q where "q = (if pt = [] then q1 else q1\<lparr>lp_region_tables := (lp_region_tables q1)(r \<mapsto> (pt, prefix_masks (lp_rows p) pt ?l ?h))\<rparr>)"
    have "lp_rows q1 = lp_rows p" by (simp add: q1_def)
    then have res: "add_region_table env forder gorder r p = Some q"
      using False some sf unfolding add_region_table_def Let_def img pt_def [symmetric] q1_def [symmetric] by (simp add: q_def del: upt_Suc)
    have sel: "\<forall>r'. r' \<noteq> r \<longrightarrow> lp_region_tables q r' = lp_region_tables p r'" "\<forall>r'. r' \<noteq> r \<longrightarrow> lp_region_range q r' = lp_region_range p r'"
      "lp_rows q = lp_rows p" "lp_next_key q = lp_next_key p" "lp_group_range q = lp_group_range p"
      "lp_region_range q r = Some (?l, ?h)" "lp_region_tables q r = (if pt = [] then None else Some (pt, prefix_masks (lp_rows p) pt ?l ?h))"
      using fresh by (simp_all add: q_def q1_def)
    have "table_ok q r'" for r'
    proof (cases "r' = r")
      case True
      then show ?thesis using lh sel(3,6,7) by (simp add: table_ok_def pt_def)
    next
      case False
      show ?thesis
        using assms(4) [of r'] unfolding table_ok_def sel(3) sel(1) [rule_format, OF False] sel(2) [rule_format, OF False] .
    qed
    then show ?thesis using res sel by blast
  qed
qed

text \<open>C13. 
  A region's table is the capped common prefix of all rows in its key range, members of the region or not, with the masks
  of that range; building the tables never panics and changes no key.
\<close>

theorem region_tables_exact:
  assumes "plan_ok p" "lp_region_tables p = Map.empty" "\<And>sf. finite (dom (sf_names sf)) \<Longrightarrow> set (forder sf) = dom (sf_names sf)" "set gorder = dom (lp_group_range p)" "distinct rorder"
  shows "\<exists>q. add_region_tables env forder gorder rorder p = Some q \<and> lp_rows q = lp_rows p \<and> lp_group_range q = lp_group_range p \<and>
    (\<forall>r ptable masks. lp_region_tables q r = Some (ptable, masks) \<longrightarrow> (\<exists>l h. lp_region_range q r = Some (l, h) \<and> l \<le> h \<and>
       ptable = take LAY_CAP (Longest_common_prefix (key_names (lp_rows p) ` {l..h})) \<and> masks = prefix_masks (lp_rows p) ptable l h))"
proof -
  have "\<exists>q. add_region_tables env forder gorder rorder p = Some q \<and> lp_rows q = lp_rows p \<and> lp_group_range q = lp_group_range p \<and> (\<forall>r. table_ok q r)"
    if "plan_ok p" "set gorder \<subseteq> dom (lp_group_range p)" "\<forall>r. table_ok p r" "\<forall>r\<in>set rorder. lp_region_tables p r = None" for p
    using that assms(5)
  proof (induction rorder arbitrary: p)
    case (Cons r rorder)
    have fresh: "lp_region_tables p r = None" using Cons.prems(4) by simp
    obtain q where q: "add_region_table env forder gorder r p = Some q" "\<forall>r. table_ok q r" "lp_rows q = lp_rows p" "lp_next_key q = lp_next_key p"
      "lp_group_range q = lp_group_range p" "\<forall>r'. r' \<noteq> r \<longrightarrow> lp_region_tables q r' = lp_region_tables p r'"
      using add_region_table_ok [OF Cons.prems(1) assms(3) Cons.prems(2) Cons.prems(3) [rule_format] fresh, where env = env] by blast
    have "plan_ok q" by (rule plan_ok_cong [OF Cons.prems(1) q(3-5)])
    moreover have "\<forall>r\<in>set rorder. lp_region_tables q r = None" using q(6) Cons.prems(4,5) by auto
    ultimately show ?case using Cons.IH [of q] q Cons.prems(2,5) by simp
  qed auto
  from this [of p] assms obtain q where q: "add_region_tables env forder gorder rorder p = Some q" "lp_rows q = lp_rows p"
    "lp_group_range q = lp_group_range p" "\<forall>r. table_ok q r" by (auto simp: table_ok_def)
  have "\<exists>l h. lp_region_range q r = Some (l, h) \<and> l \<le> h \<and> ptable = take LAY_CAP (Longest_common_prefix (key_names (lp_rows p) ` {l..h})) \<and>
      masks = prefix_masks (lp_rows p) ptable l h" if "lp_region_tables q r = Some (ptable, masks)" for r ptable masks
    using q(4) [rule_format, of r] that q(2) by (auto simp: table_ok_def)
  with q(1-3) show ?thesis by blast
qed

section \<open>A concrete plan\<close>

text \<open>Two classes of one region, each a group of its own, with one literal row each; a third group has no class.\<close>

definition demo_env :: PlanEnv where
  "demo_env = \<lparr>pe_class_lookup = (\<lambda>_. None), pe_view_prims = (\<lambda>_ _. Some PRIM_INT32), pe_view_range = (\<lambda>_ _. None), pe_site_class = (\<lambda>_. Some 1),
     pe_region_root = (\<lambda>c. if c = 5 then 5 else 1), pe_this_events = Map.empty, pe_recv_class = Map.empty,
     pe_source = \<lparr>objects = [], global_object = None, selfhosted = [], regex_programs = []\<rparr>\<rparr>"

definition demo_row_set :: RowSet where
  "demo_row_set = \<lparr>rs_folds = (\<lambda>_. Some fold_default), rs_ctor_rows = (\<lambda>_. []), rs_lit_rows = (\<lambda>g. [(site_from_raw (ucast g) 0, [7, 8])]),
     rs_tp_delegs = (\<lambda>_. []), rs_local_fills = (\<lambda>_. [])\<rparr>"

definition plan_default :: LayoutPlan where
  "plan_default = \<lparr>lp_rows = Map.empty, lp_group_range = Map.empty, lp_arg_fill = [], lp_arg_reassigned = {}, lp_group_tables = Map.empty,
     lp_region_range = Map.empty, lp_region_tables = Map.empty, lp_stamped_class_groups = {}, lp_ctor_key = Map.empty, lp_key_class = Map.empty,
     lp_next_key = 0, lp_layout_keys = 0\<rparr>"

definition facts_default :: LayoutFacts where
  "facts_default = \<lparr>lf_ctor_stamps = Map.empty, lf_ctor_nslots = Map.empty, lf_local_restamps = Map.empty, lf_deleg_restamps = Map.empty,
     lf_arg_restamps = Map.empty, lf_lit_stamps = Map.empty, lf_construct_site_keys = Map.empty, lf_prop_sites = Map.empty\<rparr>"

lemma plan_default_ok: "plan_ok plan_default"
  by (simp add: plan_ok_def rows_ok_def ranges_ok_def plan_default_def)

lemma demo_row_set_ok: "row_set_ok demo_row_set"
  by (simp add: row_set_ok_def demo_row_set_def name_row_ok_def LAY_CAP_def)

theorem assigned_keys_wellformed_witness:
  "\<exists>q facts. assign_keys demo_env demo_row_set (\<lambda>_. []) [] [1, 2] (plan_default, facts_default) = Some (q, facts) \<and>
     lp_group_range q 2 = Some (1, 1) \<and> plan_ok q"
proof -
  obtain q facts where q: "assign_keys demo_env demo_row_set (\<lambda>_. []) [] [1, 2] (plan_default, facts_default) = Some (q, facts)" "lp_group_range q 2 = Some (1, 1)"
    by (simp add: assign_keys_def assign_group_def demo_row_set_def plan_default_def rows_needed_def KEY_LIMIT_def LAYOUT_LIMIT_def assign_lit_key_def add_row_def
        Let_def add_key_classes_def universal_prefix_def LAY_CAP_def)
  have "lp_group_range plan_default = Map.empty" by (simp add: plan_default_def)
  from assigned_keys_wellformed [OF demo_row_set_ok plan_default_ok _ this q(1)] q show ?thesis by auto
qed

theorem ordered_groups_contiguous_witness:
  "group_region demo_env (ordered_groups demo_env demo_row_set [5, 2, 1, 3] ! 1) = Some 1"
proof -
  have r: "group_region demo_env 1 = Some 1" "group_region demo_env 2 = Some 1" "group_region demo_env 3 = Some 1" "group_region demo_env 5 = Some 5"
    by (simp_all add: group_region_def class_of_group_def group_ctor_def group_is_ctor_def CTOR_TAG_def group_class_def demo_env_def)
  have "ordered_groups demo_env demo_row_set [5, 2, 1, 3] = [1, 2, 3, 5]"
    by (simp add: ordered_groups_def group_key_def r region_rep_def has_ctor_def demo_row_set_def word_le_nat_alt word_less_nat_alt)
  then show ?thesis using ordered_groups_contiguous [of 0 1 2 demo_env demo_row_set "[5, 2, 1, 3]" 1] r by simp
qed

text \<open>Two constructors' groups of one region, at keys 0 and 1.\<close>

definition demo_plan :: LayoutPlan where
  "demo_plan = plan_default\<lparr>lp_rows := [0 \<mapsto> \<lparr>lr_names = [7, 8], lr_masks = [1, 1], lr_ranges = [None, None]\<rparr>,
       1 \<mapsto> \<lparr>lr_names = [7, 9], lr_masks = [1, 1], lr_ranges = [None, None]\<rparr>],
     lp_group_range := [1 \<mapsto> (0, 0), 2 \<mapsto> (1, 1)], lp_stamped_class_groups := {1}, lp_next_key := 2\<rparr>"

lemma demo_plan_ok: "plan_ok demo_plan"
proof -
  have "rows_ok demo_plan" by (auto simp: rows_ok_def demo_plan_def plan_default_def ran_def row_facts_ok_def LAY_CAP_def less_Suc_eq)
  moreover have "ranges_ok demo_plan" by (auto simp: ranges_ok_def demo_plan_def split: if_splits)
  ultimately show ?thesis by (simp add: plan_ok_def KEY_LIMIT_def LAYOUT_LIMIT_def demo_plan_def)
qed

theorem region_tables_exact_witness:
  "plan_ok demo_plan \<and> (\<exists>q. add_region_tables demo_env (\<lambda>sf. sorted_list_of_set (dom (sf_names sf))) [1, 2] [1] demo_plan = Some q \<and>
     lp_rows q = lp_rows demo_plan)"
proof -
  have "lp_region_tables demo_plan = Map.empty" "set [1, 2] = dom (lp_group_range demo_plan)" by (auto simp: demo_plan_def plan_default_def)
  from region_tables_exact [OF demo_plan_ok this(1) _ this(2), of "\<lambda>sf. sorted_list_of_set (dom (sf_names sf))" "[1]" demo_env] demo_plan_ok
  show ?thesis by auto
qed

end
