(* ===== verification/Regex_Decode.thy ===== *)
theory Regex_Decode
  imports Bytes
begin

unbundle bit_operations_syntax

text \<open>
  The decoding pass of the regular-expression translator, \<^verbatim>\<open>compiler/src/wasm/regex.rs\<close>: the opcodes of the irregexp bytecode, their lengths and
  label operands, and the first pass of \<open>translate\<close>, which checks the code, cuts it into instructions and collects the
  leaders and the backtrack labels. A panic (an index out of range) is \<open>None\<close>, an error the translator reports \<open>Inl\<close>. The passes that
  emit compiler IR from the result are not modelled.
\<close>

section \<open>Opcodes\<close>

abbreviation (input) BC_BREAK :: nat where "BC_BREAK \<equiv> 0"
abbreviation (input) BC_PUSH_CP :: nat where "BC_PUSH_CP \<equiv> 1"
abbreviation (input) BC_PUSH_BT :: nat where "BC_PUSH_BT \<equiv> 2"
abbreviation (input) BC_SET_REGISTER_TO_CP :: nat where "BC_SET_REGISTER_TO_CP \<equiv> 3"
abbreviation (input) BC_SET_CP_TO_REGISTER :: nat where "BC_SET_CP_TO_REGISTER \<equiv> 4"
abbreviation (input) BC_SET_REGISTER_TO_SP :: nat where "BC_SET_REGISTER_TO_SP \<equiv> 5"
abbreviation (input) BC_SET_SP_TO_REGISTER :: nat where "BC_SET_SP_TO_REGISTER \<equiv> 6"
abbreviation (input) BC_SET_REGISTER :: nat where "BC_SET_REGISTER \<equiv> 7"
abbreviation (input) BC_ADVANCE_REGISTER :: nat where "BC_ADVANCE_REGISTER \<equiv> 8"
abbreviation (input) BC_POP_CP :: nat where "BC_POP_CP \<equiv> 9"
abbreviation (input) BC_POP_BT :: nat where "BC_POP_BT \<equiv> 10"
abbreviation (input) BC_POP_REGISTER :: nat where "BC_POP_REGISTER \<equiv> 11"
abbreviation (input) BC_FAIL :: nat where "BC_FAIL \<equiv> 12"
abbreviation (input) BC_SUCCEED :: nat where "BC_SUCCEED \<equiv> 13"
abbreviation (input) BC_ADVANCE_CP :: nat where "BC_ADVANCE_CP \<equiv> 14"
abbreviation (input) BC_GOTO :: nat where "BC_GOTO \<equiv> 15"
abbreviation (input) BC_LOAD_CURRENT_CHAR :: nat where "BC_LOAD_CURRENT_CHAR \<equiv> 16"
abbreviation (input) BC_CHECK_CHAR :: nat where "BC_CHECK_CHAR \<equiv> 17"
abbreviation (input) BC_CHECK_NOT_CHAR :: nat where "BC_CHECK_NOT_CHAR \<equiv> 18"
abbreviation (input) BC_AND_CHECK_CHAR :: nat where "BC_AND_CHECK_CHAR \<equiv> 19"
abbreviation (input) BC_AND_CHECK_NOT_CHAR :: nat where "BC_AND_CHECK_NOT_CHAR \<equiv> 20"
abbreviation (input) BC_MINUS_AND_CHECK_NOT_CHAR :: nat where "BC_MINUS_AND_CHECK_NOT_CHAR \<equiv> 21"
abbreviation (input) BC_CHECK_CHAR_IN_RANGE :: nat where "BC_CHECK_CHAR_IN_RANGE \<equiv> 22"
abbreviation (input) BC_CHECK_CHAR_NOT_IN_RANGE :: nat where "BC_CHECK_CHAR_NOT_IN_RANGE \<equiv> 23"
abbreviation (input) BC_CHECK_LT :: nat where "BC_CHECK_LT \<equiv> 24"
abbreviation (input) BC_CHECK_GT :: nat where "BC_CHECK_GT \<equiv> 25"
abbreviation (input) BC_CHECK_NOT_BACK_REF :: nat where "BC_CHECK_NOT_BACK_REF \<equiv> 26"
abbreviation (input) BC_CHECK_NOT_BACK_REF_NO_CASE :: nat where "BC_CHECK_NOT_BACK_REF_NO_CASE \<equiv> 27"
abbreviation (input) BC_CHECK_NOT_BACK_REF_NO_CASE_UNICODE :: nat where "BC_CHECK_NOT_BACK_REF_NO_CASE_UNICODE \<equiv> 28"
abbreviation (input) BC_CHECK_NOT_BACK_REF_BACKWARD :: nat where "BC_CHECK_NOT_BACK_REF_BACKWARD \<equiv> 29"
abbreviation (input) BC_CHECK_NOT_BACK_REF_NO_CASE_BACKWARD :: nat where "BC_CHECK_NOT_BACK_REF_NO_CASE_BACKWARD \<equiv> 30"
abbreviation (input) BC_CHECK_NOT_BACK_REF_NO_CASE_UNICODE_BACKWARD :: nat where "BC_CHECK_NOT_BACK_REF_NO_CASE_UNICODE_BACKWARD \<equiv> 31"
abbreviation (input) BC_CHECK_NOT_REGS_EQUAL :: nat where "BC_CHECK_NOT_REGS_EQUAL \<equiv> 32"
abbreviation (input) BC_CHECK_REGISTER_LT :: nat where "BC_CHECK_REGISTER_LT \<equiv> 33"
abbreviation (input) BC_CHECK_REGISTER_GE :: nat where "BC_CHECK_REGISTER_GE \<equiv> 34"
abbreviation (input) BC_CHECK_REGISTER_EQ_POS :: nat where "BC_CHECK_REGISTER_EQ_POS \<equiv> 35"
abbreviation (input) BC_CHECK_AT_START :: nat where "BC_CHECK_AT_START \<equiv> 36"
abbreviation (input) BC_CHECK_NOT_AT_START :: nat where "BC_CHECK_NOT_AT_START \<equiv> 37"
abbreviation (input) BC_CHECK_FIXED_LENGTH :: nat where "BC_CHECK_FIXED_LENGTH \<equiv> 38"
abbreviation (input) BC_SET_CURRENT_POSITION_FROM_END :: nat where "BC_SET_CURRENT_POSITION_FROM_END \<equiv> 39"
abbreviation (input) BC_PUSH_REGISTER :: nat where "BC_PUSH_REGISTER \<equiv> 40"
abbreviation (input) BC_LOAD_CURRENT_CHAR_UNCHECKED :: nat where "BC_LOAD_CURRENT_CHAR_UNCHECKED \<equiv> 41"
abbreviation (input) BC_CHECK_BIT_IN_TABLE :: nat where "BC_CHECK_BIT_IN_TABLE \<equiv> 42"
abbreviation (input) BC_LOAD_2_CURRENT_CHARS :: nat where "BC_LOAD_2_CURRENT_CHARS \<equiv> 43"
abbreviation (input) BC_LOAD_2_CURRENT_CHARS_UNCHECKED :: nat where "BC_LOAD_2_CURRENT_CHARS_UNCHECKED \<equiv> 44"
abbreviation (input) BC_LOAD_4_CURRENT_CHARS :: nat where "BC_LOAD_4_CURRENT_CHARS \<equiv> 45"
abbreviation (input) BC_LOAD_4_CURRENT_CHARS_UNCHECKED :: nat where "BC_LOAD_4_CURRENT_CHARS_UNCHECKED \<equiv> 46"
abbreviation (input) BC_CHECK_4_CHARS :: nat where "BC_CHECK_4_CHARS \<equiv> 47"
abbreviation (input) BC_CHECK_NOT_4_CHARS :: nat where "BC_CHECK_NOT_4_CHARS \<equiv> 48"
abbreviation (input) BC_AND_CHECK_4_CHARS :: nat where "BC_AND_CHECK_4_CHARS \<equiv> 49"
abbreviation (input) BC_AND_CHECK_NOT_4_CHARS :: nat where "BC_AND_CHECK_NOT_4_CHARS \<equiv> 50"
abbreviation (input) BC_ADVANCE_CP_AND_GOTO :: nat where "BC_ADVANCE_CP_AND_GOTO \<equiv> 51"
abbreviation (input) BC_CHECK_CURRENT_POSITION :: nat where "BC_CHECK_CURRENT_POSITION \<equiv> 52"
abbreviation (input) BC_SKIP_UNTIL_BIT_IN_TABLE :: nat where "BC_SKIP_UNTIL_BIT_IN_TABLE \<equiv> 53"
abbreviation (input) BC_SKIP_UNTIL_CHAR_AND :: nat where "BC_SKIP_UNTIL_CHAR_AND \<equiv> 54"
abbreviation (input) BC_SKIP_UNTIL_CHAR :: nat where "BC_SKIP_UNTIL_CHAR \<equiv> 55"
abbreviation (input) BC_SKIP_UNTIL_CHAR_POS_CHECKED :: nat where "BC_SKIP_UNTIL_CHAR_POS_CHECKED \<equiv> 56"
abbreviation (input) BC_SKIP_UNTIL_CHAR_OR_CHAR :: nat where "BC_SKIP_UNTIL_CHAR_OR_CHAR \<equiv> 57"
abbreviation (input) BC_SKIP_UNTIL_GT_OR_NOT_BIT_IN_TABLE :: nat where "BC_SKIP_UNTIL_GT_OR_NOT_BIT_IN_TABLE \<equiv> 58"

definition BC_COUNT :: nat where "BC_COUNT = 59"
definition MAX_BYTECODE_LEN :: nat where "MAX_BYTECODE_LEN = 2 ^ 17"
definition MAX_BT_LABELS :: nat where "MAX_BT_LABELS = 8192"
definition MAX_REGISTERS :: u32 where "MAX_REGISTERS = 128"

definition BC_LENGTHS :: "nat list" where
  "BC_LENGTHS = [4, 4, 8, 8, 4, 4, 4, 8, 8, 4, 4, 4, 4, 4, 4, 8, 8, 8, 8, 12, 12, 12, 12, 12, 8, 8, 8, 8, 8, 8, 8, 8, 12, 12, 12, 8, 8,
     8, 8, 4, 4, 4, 24, 8, 4, 8, 4, 12, 12, 16, 16, 8, 8, 32, 24, 16, 20, 20, 32]"

definition label_operand_offsets :: "nat \<Rightarrow> nat list \<times> bool" where
  "label_operand_offsets op =
     (if op = BC_PUSH_BT then ([4], True)
      else if op \<in> set [BC_GOTO, BC_ADVANCE_CP_AND_GOTO] then ([4], False)
      else if op \<in> set [BC_LOAD_CURRENT_CHAR, BC_CHECK_CHAR, BC_CHECK_NOT_CHAR, BC_CHECK_LT, BC_CHECK_GT, BC_CHECK_NOT_BACK_REF,
        BC_CHECK_NOT_BACK_REF_NO_CASE, BC_CHECK_NOT_BACK_REF_NO_CASE_UNICODE, BC_CHECK_NOT_BACK_REF_BACKWARD,
        BC_CHECK_NOT_BACK_REF_NO_CASE_BACKWARD, BC_CHECK_NOT_BACK_REF_NO_CASE_UNICODE_BACKWARD, BC_CHECK_REGISTER_EQ_POS,
        BC_CHECK_AT_START, BC_CHECK_NOT_AT_START, BC_CHECK_FIXED_LENGTH, BC_CHECK_BIT_IN_TABLE, BC_LOAD_2_CURRENT_CHARS,
        BC_LOAD_4_CURRENT_CHARS, BC_CHECK_CURRENT_POSITION] then ([4], False)
      else if op \<in> set [BC_AND_CHECK_CHAR, BC_AND_CHECK_NOT_CHAR, BC_MINUS_AND_CHECK_NOT_CHAR, BC_CHECK_CHAR_IN_RANGE,
        BC_CHECK_CHAR_NOT_IN_RANGE, BC_CHECK_NOT_REGS_EQUAL, BC_CHECK_REGISTER_LT, BC_CHECK_REGISTER_GE, BC_CHECK_4_CHARS,
        BC_CHECK_NOT_4_CHARS] then ([8], False)
      else if op \<in> set [BC_AND_CHECK_4_CHARS, BC_AND_CHECK_NOT_4_CHARS] then ([12], False)
      else if op = BC_SKIP_UNTIL_CHAR then ([8, 12], False)
      else if op = BC_SKIP_UNTIL_CHAR_AND then ([16, 20], False)
      else if op = BC_SKIP_UNTIL_CHAR_POS_CHECKED then ([12, 16], False)
      else if op = BC_SKIP_UNTIL_CHAR_OR_CHAR then ([12, 16], False)
      else if op \<in> set [BC_SKIP_UNTIL_BIT_IN_TABLE, BC_SKIP_UNTIL_GT_OR_NOT_BIT_IN_TABLE] then ([24, 28], False)
      else ([], False))"

definition is_unconditional :: "nat \<Rightarrow> bool" where
  "is_unconditional op = (op \<in> set [BC_BREAK, BC_POP_BT, BC_FAIL, BC_SUCCEED, BC_GOTO, BC_ADVANCE_CP_AND_GOTO, BC_SKIP_UNTIL_BIT_IN_TABLE,
     BC_SKIP_UNTIL_CHAR_AND, BC_SKIP_UNTIL_CHAR, BC_SKIP_UNTIL_CHAR_POS_CHECKED, BC_SKIP_UNTIL_CHAR_OR_CHAR,
     BC_SKIP_UNTIL_GT_OR_NOT_BIT_IN_TABLE])"

section \<open>Decoding\<close>

record RegexTranslateInput =
  ri_bytecode :: "byte list"
  ri_wide :: bool
  ri_total_regs :: u32
  ri_output_regs :: u32

record Insn =
  in_op :: nat
  in_w0 :: u32
  in_off :: nat

datatype RegexError = LengthUnsupported nat | RegistersTooMany u32 | OutputExceedsTotal | Truncated | InvalidOpcode nat nat | Overruns
  | LabelOutOfRange u32 | TooManyLabels | LeaderOffBoundary u32

record RegexScan =
  rx_insns :: "Insn list"
  rx_leaders :: "u32 list"
  rx_bt_ids :: "u32 \<rightharpoonup> u32"
  rx_bt_targets :: "u32 list"

definition rd32 :: "byte list \<Rightarrow> nat \<Rightarrow> u32 option" where
  "rd32 bc off = (if off + 4 \<le> length bc then Some (from_le (slice off (off + 4) bc)) else None)"

definition rd16 :: "byte list \<Rightarrow> nat \<Rightarrow> u32 option" where
  "rd16 bc off = (if off + 2 \<le> length bc then Some (from_le (slice off (off + 2) bc)) else None)"

definition packed_s :: "u32 \<Rightarrow> int" where
  "packed_s w0 = drop_bit 8 (sint w0)"

definition packed_u :: "u32 \<Rightarrow> u32" where
  "packed_u w0 = drop_bit 8 w0"

definition add_label :: "bool \<Rightarrow> u32 \<Rightarrow> RegexScan \<Rightarrow> RegexScan" where
  "add_label is_push t st =
     (let st = st\<lparr>rx_leaders := rx_leaders st @ [t]\<rparr>
      in if is_push \<and> rx_bt_ids st t = None
         then st\<lparr>rx_bt_ids := (rx_bt_ids st)(t \<mapsto> of_nat (length (rx_bt_targets st))), rx_bt_targets := rx_bt_targets st @ [t]\<rparr> else st)"

fun take_labels :: "byte list \<Rightarrow> nat \<Rightarrow> nat list \<Rightarrow> bool \<Rightarrow> RegexScan \<Rightarrow> (RegexError + RegexScan) option" where
  "take_labels bc off [] is_push st = Some (Inr st)"
| "take_labels bc off (lb # lbs) is_push st = (case rd32 bc (off + lb) of
     None \<Rightarrow> None
   | Some t \<Rightarrow> if unat t \<ge> length bc \<or> unat t mod 4 \<noteq> 0 then Some (Inl (LabelOutOfRange t)) else take_labels bc off lbs is_push (add_label is_push t st))"

text \<open>Every opcode has a length of at least a word, and its label operands lie within it.\<close>

lemma op_table:
  assumes "op < BC_COUNT"
  shows "4 \<le> BC_LENGTHS ! op \<and> 4 dvd BC_LENGTHS ! op \<and> list_all (\<lambda>lb. 4 \<le> lb \<and> lb + 4 \<le> BC_LENGTHS ! op) (fst (label_operand_offsets op)) \<and>
    (snd (label_operand_offsets op) \<longleftrightarrow> op = BC_PUSH_BT)"
proof -
  have "list_all (\<lambda>op. 4 \<le> BC_LENGTHS ! op \<and> 4 dvd BC_LENGTHS ! op \<and> list_all (\<lambda>lb. 4 \<le> lb \<and> lb + 4 \<le> BC_LENGTHS ! op) (fst (label_operand_offsets op)) \<and>
      (snd (label_operand_offsets op) \<longleftrightarrow> op = BC_PUSH_BT)) [0..<59]"
    by code_simp
  then show ?thesis using assms by (simp add: list_all_iff BC_COUNT_def del: upt_rec_numeral)
qed

function decode :: "byte list \<Rightarrow> nat \<Rightarrow> RegexScan \<Rightarrow> (RegexError + RegexScan) option" where
  "decode bc off st =
     (if off < length bc then
        (if off + 4 > length bc then Some (Inl Truncated)
         else case rd32 bc off of
           None \<Rightarrow> None
         | Some w0 \<Rightarrow>
             (let op = unat (w0 AND 0xFF)
              in if op \<ge> BC_COUNT then Some (Inl (InvalidOpcode op off))
                 else if off + BC_LENGTHS ! op > length bc then Some (Inl Overruns)
                 else case take_labels bc off (fst (label_operand_offsets op)) (snd (label_operand_offsets op)) st of
                   None \<Rightarrow> None
                 | Some (Inl e) \<Rightarrow> Some (Inl e)
                 | Some (Inr st) \<Rightarrow> decode bc (off + BC_LENGTHS ! op) (st\<lparr>rx_insns := rx_insns st @ [\<lparr>in_op = op, in_w0 = w0, in_off = off\<rparr>]\<rparr>)))
      else Some (Inr st))"
  by pat_completeness auto

termination
  by (relation "measure (\<lambda>(bc, off, _). length bc - off)") (use op_table in \<open>fastforce simp: not_le\<close>)+

declare decode.simps [simp del]

definition decode_program :: "RegexTranslateInput \<Rightarrow> (RegexError + RegexScan) option" where
  "decode_program inp =
     (let bc = ri_bytecode inp
      in if length bc > MAX_BYTECODE_LEN \<or> length bc < 4 \<or> length bc mod 4 \<noteq> 0 then Some (Inl (LengthUnsupported (length bc)))
         else if ri_total_regs inp > MAX_REGISTERS then Some (Inl (RegistersTooMany (ri_total_regs inp)))
         else if ri_output_regs inp > ri_total_regs inp then Some (Inl OutputExceedsTotal)
         else case decode bc 0 \<lparr>rx_insns = [], rx_leaders = [0], rx_bt_ids = Map.empty, rx_bt_targets = []\<rparr> of
           None \<Rightarrow> None
         | Some (Inl e) \<Rightarrow> Some (Inl e)
         | Some (Inr st) \<Rightarrow>
             if length (rx_bt_targets st) > MAX_BT_LABELS then Some (Inl TooManyLabels)
             else (let st = st\<lparr>rx_leaders := remdups_adj (sort (rx_leaders st))\<rparr>; starts = map (\<lambda>i. of_nat (in_off i)) (rx_insns st) :: u32 list
                   in case find (\<lambda>l. l \<notin> set starts) (rx_leaders st) of
                        Some l \<Rightarrow> Some (Inl (LeaderOffBoundary l))
                      | None \<Rightarrow> Some (Inr st)))"

section \<open>What the pass returns\<close>

definition insn_labels :: "byte list \<Rightarrow> Insn \<Rightarrow> u32 list" where
  "insn_labels bc i = map (\<lambda>lb. the (rd32 bc (in_off i + lb))) (fst (label_operand_offsets (in_op i)))"

definition insn_ok :: "byte list \<Rightarrow> Insn \<Rightarrow> bool" where
  "insn_ok bc i = (in_op i < BC_COUNT \<and> rd32 bc (in_off i) = Some (in_w0 i) \<and> in_op i = unat (in_w0 i AND 0xFF) \<and>
     in_off i + BC_LENGTHS ! in_op i \<le> length bc \<and> (\<forall>t\<in>set (insn_labels bc i). unat t < length bc \<and> unat t mod 4 = 0))"

text \<open>The instructions lie end to end from \<open>off\<close> to \<open>stop\<close>.\<close>

fun end_to_end :: "nat \<Rightarrow> Insn list \<Rightarrow> nat \<Rightarrow> bool" where
  "end_to_end off [] stop = (off = stop)"
| "end_to_end off (i # is) stop = (in_off i = off \<and> end_to_end (off + BC_LENGTHS ! in_op i) is stop)"

definition pushed :: "byte list \<Rightarrow> Insn list \<Rightarrow> u32 set" where
  "pushed bc is = {t. \<exists>i\<in>set is. in_op i = BC_PUSH_BT \<and> t \<in> set (insn_labels bc i)}"

definition ids_ok :: "RegexScan \<Rightarrow> bool" where
  "ids_ok st = (distinct (rx_bt_targets st) \<and> dom (rx_bt_ids st) = set (rx_bt_targets st) \<and>
     (\<forall>k<length (rx_bt_targets st). rx_bt_ids st (rx_bt_targets st ! k) = Some (of_nat k)))"

lemma add_label_ok:
  assumes "ids_ok st"
  shows "ids_ok (add_label p t st) \<and> rx_insns (add_label p t st) = rx_insns st \<and> rx_leaders (add_label p t st) = rx_leaders st @ [t] \<and>
    set (rx_bt_targets (add_label p t st)) = set (rx_bt_targets st) \<union> (if p then {t} else {})"
proof (cases "p \<and> rx_bt_ids st t = None")
  case True
  then have "t \<notin> set (rx_bt_targets st)" using assms by (auto simp: ids_ok_def)
  moreover from this have "rx_bt_targets st ! k \<noteq> t" if "k < length (rx_bt_targets st)" for k using that nth_mem by blast
  ultimately show ?thesis using True assms by (auto simp: ids_ok_def add_label_def Let_def nth_append less_Suc_eq)
next
  case False
  then have "p \<Longrightarrow> t \<in> set (rx_bt_targets st)" using assms by (auto simp: ids_ok_def)
  then show ?thesis using False assms by (auto simp: ids_ok_def add_label_def Let_def)
qed

lemma take_labels_ok:
  assumes "take_labels bc off lbs p st = Some (Inr st')" "ids_ok st"
  defines "ts \<equiv> map (\<lambda>lb. the (rd32 bc (off + lb))) lbs"
  shows "ids_ok st' \<and> rx_insns st' = rx_insns st \<and> rx_leaders st' = rx_leaders st @ ts \<and>
    set (rx_bt_targets st') = set (rx_bt_targets st) \<union> (if p then set ts else {}) \<and> (\<forall>t\<in>set ts. unat t < length bc \<and> unat t mod 4 = 0)"
  using assms(1,2) unfolding ts_def
proof (induction lbs arbitrary: st)
  case (Cons lb lbs)
  obtain t where t: "rd32 bc (off + lb) = Some t" "unat t < length bc" "unat t mod 4 = 0" "take_labels bc off lbs p (add_label p t st) = Some (Inr st')"
    using Cons.prems(1) by (auto split: option.splits if_splits)
  note a = add_label_ok [OF Cons.prems(2), of p t]
  from Cons.IH [OF t(4)] a t show ?case by auto
qed simp

lemma take_labels_total:
  assumes "list_all (\<lambda>lb. off + lb + 4 \<le> length bc) lbs"
  shows "take_labels bc off lbs p st \<noteq> None"
  using assms by (induction lbs arbitrary: st) (auto simp: rd32_def)

lemma distinct_remdups_adj_sorted: "sorted xs \<Longrightarrow> distinct (remdups_adj xs)" for xs :: "'a::linorder list"
proof (induction xs rule: remdups_adj.induct)
  case (3 x y xs)
  show ?case
  proof (cases "x = y")
    case False
    then have "x < z" if "z \<in> set (y # xs)" for z using 3(3) that by fastforce
    then show ?thesis using 3 False by auto
  qed (use 3 in simp)
qed simp_all

lemma decode_step:
  assumes "off < length bc" "off + 4 \<le> length bc"
  obtains w0 where "rd32 bc off = Some w0"
    and "decode bc off st = (let op = unat (w0 AND 0xFF)
      in if op \<ge> BC_COUNT then Some (Inl (InvalidOpcode op off))
         else if off + BC_LENGTHS ! op > length bc then Some (Inl Overruns)
         else case take_labels bc off (fst (label_operand_offsets op)) (snd (label_operand_offsets op)) st of
           None \<Rightarrow> None
         | Some (Inl e) \<Rightarrow> Some (Inl e)
         | Some (Inr st) \<Rightarrow> decode bc (off + BC_LENGTHS ! op) (st\<lparr>rx_insns := rx_insns st @ [\<lparr>in_op = op, in_w0 = w0, in_off = off\<rparr>]\<rparr>))"
  using that [of "from_le (slice off (off + 4) bc)"] assms by (simp add: decode.simps [of bc off] rd32_def)

lemma labels_inside:
  assumes "op < BC_COUNT" "off + BC_LENGTHS ! op \<le> length bc"
  shows "list_all (\<lambda>lb. off + lb + 4 \<le> length bc) (fst (label_operand_offsets op))"
  using op_table [OF assms(1)] assms(2) by (auto simp: list_all_iff)

lemma decode_total: "decode bc off st \<noteq> None"
proof (induction "length bc - off" arbitrary: off st rule: less_induct)
  case less
  show ?case
  proof (cases "off < length bc \<and> off + 4 \<le> length bc")
    case True
    then obtain w0 where d: "decode bc off st = (let op = unat (w0 AND 0xFF)
      in if op \<ge> BC_COUNT then Some (Inl (InvalidOpcode op off))
         else if off + BC_LENGTHS ! op > length bc then Some (Inl Overruns)
         else case take_labels bc off (fst (label_operand_offsets op)) (snd (label_operand_offsets op)) st of
           None \<Rightarrow> None
         | Some (Inl e) \<Rightarrow> Some (Inl e)
         | Some (Inr st) \<Rightarrow> decode bc (off + BC_LENGTHS ! op) (st\<lparr>rx_insns := rx_insns st @ [\<lparr>in_op = op, in_w0 = w0, in_off = off\<rparr>]\<rparr>))"
      using decode_step [of off bc st] by blast
    define op where "op = unat (w0 AND 0xFF)"
    show ?thesis
    proof (cases "op < BC_COUNT \<and> off + BC_LENGTHS ! op \<le> length bc")
      case op: True
      have "length bc - (off + BC_LENGTHS ! op) < length bc - off" using op_table [of op] op True by auto
      note IH = less.hyps [OF this]
      have "take_labels bc off (fst (label_operand_offsets op)) (snd (label_operand_offsets op)) st \<noteq> None"
        using take_labels_total [OF labels_inside] op by blast
      then show ?thesis using d IH op unfolding op_def [symmetric] Let_def by (auto split: sum.splits)
    next
      case False
      then show ?thesis using d unfolding op_def [symmetric] Let_def by auto
    qed
  next
    case False
    then show ?thesis by (auto simp: decode.simps [of bc off st])
  qed
qed

lemma decode_ok:
  assumes "decode bc off st = Some (Inr st')" "off \<le> length bc" "ids_ok st"
  shows "\<exists>is. rx_insns st' = rx_insns st @ is \<and> end_to_end off is (length bc) \<and> (\<forall>i\<in>set is. insn_ok bc i) \<and>
    rx_leaders st' = rx_leaders st @ concat (map (insn_labels bc) is) \<and> ids_ok st' \<and> set (rx_bt_targets st') = set (rx_bt_targets st) \<union> pushed bc is"
  using assms
proof (induction "length bc - off" arbitrary: off st rule: less_induct)
  case less
  show ?case
  proof (cases "off < length bc")
    case False
    have "decode bc off st = Some (Inr st)" using False by (subst decode.simps) simp
    then have "st' = st" "off = length bc" using False less.prems(1,2) by simp_all
    then show ?thesis using less.prems(3) by (auto simp: pushed_def)
  next
    case True
    then have four: "off + 4 \<le> length bc" using less.prems(1) by (auto simp: decode.simps [of bc off st] split: if_splits)
    obtain w0 where w0: "rd32 bc off = Some w0" and d: "decode bc off st = (let op = unat (w0 AND 0xFF)
      in if op \<ge> BC_COUNT then Some (Inl (InvalidOpcode op off))
         else if off + BC_LENGTHS ! op > length bc then Some (Inl Overruns)
         else case take_labels bc off (fst (label_operand_offsets op)) (snd (label_operand_offsets op)) st of
           None \<Rightarrow> None
         | Some (Inl e) \<Rightarrow> Some (Inl e)
         | Some (Inr st) \<Rightarrow> decode bc (off + BC_LENGTHS ! op) (st\<lparr>rx_insns := rx_insns st @ [\<lparr>in_op = op, in_w0 = w0, in_off = off\<rparr>]\<rparr>))"
      using decode_step [OF True four, of st] by blast
    define op where "op = unat (w0 AND 0xFF)"
    let ?i = "\<lparr>in_op = op, in_w0 = w0, in_off = off\<rparr>"
    obtain st1 where st1: "op < BC_COUNT" "off + BC_LENGTHS ! op \<le> length bc"
      "take_labels bc off (fst (label_operand_offsets op)) (snd (label_operand_offsets op)) st = Some (Inr st1)"
      "decode bc (off + BC_LENGTHS ! op) (st1\<lparr>rx_insns := rx_insns st1 @ [?i]\<rparr>) = Some (Inr st')"
      using less.prems(1) d unfolding op_def [symmetric] Let_def by (auto split: if_splits option.splits sum.splits)
    note l = take_labels_ok [OF st1(3) less.prems(3)]
    have lt: "length bc - (off + BC_LENGTHS ! op) < length bc - off" using op_table [OF st1(1)] st1(2) True by auto
    have "ids_ok (st1\<lparr>rx_insns := rx_insns st1 @ [?i]\<rparr>)" using l by (simp add: ids_ok_def)
    from less.hyps [OF lt st1(4,2) this] obtain ins where is_: "rx_insns st' = rx_insns st1 @ ?i # ins" "end_to_end (off + BC_LENGTHS ! op) ins (length bc)"
      "\<forall>i\<in>set ins. insn_ok bc i" "rx_leaders st' = rx_leaders st1 @ concat (map (insn_labels bc) ins)" "ids_ok st'"
      "set (rx_bt_targets st') = set (rx_bt_targets st1) \<union> pushed bc ins" by auto
    have labs: "insn_labels bc ?i = map (\<lambda>lb. the (rd32 bc (off + lb))) (fst (label_operand_offsets op))" by (simp add: insn_labels_def)
    have push: "snd (label_operand_offsets op) \<longleftrightarrow> op = BC_PUSH_BT" using op_table [OF st1(1)] by blast
    have ok: "insn_ok bc ?i" using w0 st1(1,2) l by (simp add: insn_ok_def insn_labels_def op_def)
    have "pushed bc (?i # ins) = (if op = BC_PUSH_BT then set (insn_labels bc ?i) else {}) \<union> pushed bc ins" by (auto simp: pushed_def)
    then show ?thesis using is_ l ok push labs by (intro exI [of _ "?i # ins"]) auto
  qed
qed

text \<open>C19. 
  The decoding pass never panics. When it succeeds, the instructions lie end to end over the whole bytecode, each read from its own bytes, within
  the buffer, with word-aligned labels inside it; the leaders are sorted and duplicate-free, contain the start and every label, and
  are instruction starts; and the backtrack labels are numbered densely, each pushed label once.
\<close>

theorem regex_decode_sound:
  "decode_program inp \<noteq> None \<and> (\<forall>st. decode_program inp = Some (Inr st) \<longrightarrow>
    end_to_end 0 (rx_insns st) (length (ri_bytecode inp)) \<and> (\<forall>i\<in>set (rx_insns st). insn_ok (ri_bytecode inp) i) \<and>
    sorted (rx_leaders st) \<and> distinct (rx_leaders st) \<and> set (rx_leaders st) = insert 0 (\<Union>i\<in>set (rx_insns st). set (insn_labels (ri_bytecode inp) i)) \<and>
    set (rx_leaders st) \<subseteq> (\<lambda>i. of_nat (in_off i)) ` set (rx_insns st) \<and>
    distinct (rx_bt_targets st) \<and> set (rx_bt_targets st) = pushed (ri_bytecode inp) (rx_insns st) \<and> length (rx_bt_targets st) \<le> MAX_BT_LABELS \<and>
    (\<forall>k<length (rx_bt_targets st). rx_bt_ids st (rx_bt_targets st ! k) = Some (of_nat k)))"
proof (intro conjI allI impI)
  let ?bc = "ri_bytecode inp" and ?st0 = "\<lparr>rx_insns = [], rx_leaders = [0], rx_bt_ids = Map.empty, rx_bt_targets = []\<rparr>"
  show "decode_program inp \<noteq> None" using decode_total [of ?bc 0 ?st0] unfolding decode_program_def Let_def
    by (auto split: sum.splits option.splits)
  fix st assume "decode_program inp = Some (Inr st)"
  then obtain s1 where s1: "decode ?bc 0 ?st0 = Some (Inr s1)" "length (rx_bt_targets s1) \<le> MAX_BT_LABELS" "st = s1\<lparr>rx_leaders := remdups_adj (sort (rx_leaders s1))\<rparr>"
    "find (\<lambda>l. l \<notin> set (map (\<lambda>i. of_nat (in_off i)) (rx_insns st))) (rx_leaders st) = None"
    unfolding decode_program_def Let_def by (auto split: if_splits option.splits sum.splits)
  have "ids_ok ?st0" by (simp add: ids_ok_def)
  from decode_ok [OF s1(1) _ this] have d: "end_to_end 0 (rx_insns s1) (length ?bc)" "\<forall>i\<in>set (rx_insns s1). insn_ok ?bc i"
    "rx_leaders s1 = 0 # concat (map (insn_labels ?bc) (rx_insns s1))" "ids_ok s1" "set (rx_bt_targets s1) = pushed ?bc (rx_insns s1)" by auto
  show "end_to_end 0 (rx_insns st) (length ?bc)" "\<forall>i\<in>set (rx_insns st). insn_ok ?bc i" using d s1(3) by simp_all
  show "sorted (rx_leaders st)" "distinct (rx_leaders st)" using s1(3) by (simp_all add: sorted_remdups_adj distinct_remdups_adj_sorted)
  show "set (rx_leaders st) = insert 0 (\<Union>i\<in>set (rx_insns st). set (insn_labels ?bc i))" using s1(3) d(3) by (simp add: set_insort_key)
  show "set (rx_leaders st) \<subseteq> (\<lambda>i. of_nat (in_off i)) ` set (rx_insns st)" using s1(4) by (auto simp: find_None_iff)
  show "distinct (rx_bt_targets st)" "set (rx_bt_targets st) = pushed ?bc (rx_insns st)" "length (rx_bt_targets st) \<le> MAX_BT_LABELS"
    using d s1(2,3) by (simp_all add: ids_ok_def)
  show "rx_bt_ids st (rx_bt_targets st ! k) = Some (of_nat k)" if "k < length (rx_bt_targets st)" for k using d(4) s1(3) that by (simp add: ids_ok_def)
qed

text \<open>A goto to the next instruction, which succeeds.\<close>

theorem regex_decode_sound_witness:
  "\<exists>st. decode_program \<lparr>ri_bytecode = [15, 0, 0, 0, 8, 0, 0, 0, 13, 0, 0, 0], ri_wide = False, ri_total_regs = 2, ri_output_regs = 2\<rparr> = Some (Inr st) \<and>
     rx_leaders st = [0, 8] \<and> end_to_end 0 (rx_insns st) 12 \<and> sorted (rx_leaders st)"
proof -
  let ?inp = "\<lparr>ri_bytecode = [15, 0, 0, 0, 8, 0, 0, 0, 13, 0, 0, 0], ri_wide = False, ri_total_regs = 2, ri_output_regs = 2\<rparr>"
  have "decode_program ?inp = Some (Inr \<lparr>rx_insns = [\<lparr>in_op = 15, in_w0 = 15, in_off = 0\<rparr>, \<lparr>in_op = 13, in_w0 = 13, in_off = 8\<rparr>],
      rx_leaders = [0, 8], rx_bt_ids = Map.empty, rx_bt_targets = []\<rparr>)"
    by (simp add: decode_program_def Let_def MAX_BYTECODE_LEN_def MAX_REGISTERS_def decode.simps rd32_def slice_def from_le_def BC_COUNT_def BC_LENGTHS_def
        label_operand_offsets_def add_label_def MAX_BT_LABELS_def)
  then show ?thesis using regex_decode_sound [of ?inp] by simp
qed

end
