(* ===== verification/Mod_Edit.thy ===== *)
theory Mod_Edit
  imports Bytes
begin

text \<open>
  The edit of the guest module, \<^verbatim>\<open>wasm-jit-runner/src/modedit.rs\<close>: one pass over the payloads of the parser that exports every memory, table
  and global under a synthetic name and strips the maximum off every table. The payloads are what wasmparser yields for the
  module (\<open>Bad\<close> where it reports an error), the result is the list of sections handed to wasm-encoder; reference types,
  initializers and signatures are opaque.
\<close>

section \<open>Sections\<close>

datatype ExternalKind = EFunc | ETable | EMemory | EGlobal | ETag | EFuncExact

datatype ExportKind = XFunc | XTable | XMemory | XGlobal | XTag

record 'e TableType =
  tt_element :: 'e
  tt_minimum :: nat
  tt_maximum :: "nat option"

datatype 'e TypeRef = TRMemory 'e | TRTable "'e TableType" | TRGlobal 'e | TROther 'e

record 'e Import =
  imp_module :: string
  imp_name :: string
  imp_ty :: "'e TypeRef"

type_synonym export = "string \<times> ExternalKind \<times> nat"

datatype 'e Payload =
    CustomSection "byte list" | TypeSection "byte list" | ImportSection "'e Import list" | FunctionSection "byte list"
  | TableSection "('e TableType \<times> 'e option) list" | MemorySection nat "byte list" | TagSection "byte list" | GlobalSection nat "byte list"
  | ExportSection "export list" | StartSection "byte list" | ElementSection "byte list" | DataCountSection "byte list"
  | CodeSectionStart "byte list" | DataSection "byte list" | NoSection | Bad

record ModuleLayout =
  n_mem :: nat
  n_table :: nat
  n_global :: nat

datatype 'e OutSection =
    RawSection nat "byte list" | ImportOut "'e Import list" | TableOut "('e TableType \<times> 'e option) list" | ExportOut "(string \<times> ExportKind \<times> nat) list"

definition map_kind :: "ExternalKind \<Rightarrow> ExportKind" where
  "map_kind k = (case k of EFunc \<Rightarrow> XFunc | ETable \<Rightarrow> XTable | EMemory \<Rightarrow> XMemory | EGlobal \<Rightarrow> XGlobal | ETag \<Rightarrow> XTag | EFuncExact \<Rightarrow> XFunc)"

text \<open>The decimal digits of an index.\<close>

fun digits :: "nat \<Rightarrow> string" where
  "digits n = (if n < 10 then [char_of (48 + n)] else digits (n div 10) @ [char_of (48 + n mod 10)])"

declare digits.simps [simp del]

definition synthetic :: "string \<Rightarrow> ExportKind \<Rightarrow> nat \<Rightarrow> (string \<times> ExportKind \<times> nat) list" where
  "synthetic pre k n = map (\<lambda>i. (pre @ digits i, k, i)) [0..<n]"

definition build_export_section :: "export list \<Rightarrow> ModuleLayout \<Rightarrow> (string \<times> ExportKind \<times> nat) list" where
  "build_export_section existing layout = map (\<lambda>(name, kind, index). (name, map_kind kind, index)) existing @
     synthetic ''__wjr_mem'' XMemory (n_mem layout) @ synthetic ''__wjr_table'' XTable (n_table layout) @ synthetic ''__wjr_global'' XGlobal (n_global layout)"

definition passthrough_section :: "'e Payload \<Rightarrow> (nat \<times> byte list) option" where
  "passthrough_section p = (case p of
     CustomSection d \<Rightarrow> Some (0, d) | TypeSection d \<Rightarrow> Some (1, d) | FunctionSection d \<Rightarrow> Some (3, d) | StartSection d \<Rightarrow> Some (8, d)
   | ElementSection d \<Rightarrow> Some (9, d) | CodeSectionStart d \<Rightarrow> Some (10, d) | DataSection d \<Rightarrow> Some (11, d) | DataCountSection d \<Rightarrow> Some (12, d)
   | TagSection d \<Rightarrow> Some (13, d) | _ \<Rightarrow> None)"

section \<open>The pass\<close>

record 'e Edit =
  ed_sections :: "'e OutSection list"
  ed_layout :: ModuleLayout
  ed_exports_done :: bool

definition strip_import :: "'e Import \<Rightarrow> 'e Import" where
  "strip_import i = (case imp_ty i of TRTable t \<Rightarrow> i\<lparr>imp_ty := TRTable (t\<lparr>tt_maximum := None\<rparr>)\<rparr> | _ \<Rightarrow> i)"

definition count_import :: "'e Import \<Rightarrow> ModuleLayout \<Rightarrow> ModuleLayout" where
  "count_import i l = (case imp_ty i of
     TRMemory _ \<Rightarrow> l\<lparr>n_mem := n_mem l + 1\<rparr> | TRTable _ \<Rightarrow> l\<lparr>n_table := n_table l + 1\<rparr> | TRGlobal _ \<Rightarrow> l\<lparr>n_global := n_global l + 1\<rparr> | TROther _ \<Rightarrow> l)"

definition emit_section :: "'e OutSection \<Rightarrow> 'e Edit \<Rightarrow> 'e Edit" where
  "emit_section s ed = ed\<lparr>ed_sections := ed_sections ed @ [s]\<rparr>"

text \<open>Before the first section that must follow the exports.\<close>

definition early_exports :: "'e Payload \<Rightarrow> 'e Edit \<Rightarrow> 'e Edit" where
  "early_exports p ed =
     (if \<not> ed_exports_done ed then
        (case passthrough_section p of
           Some (i, _) \<Rightarrow> if i \<ge> 8 then (emit_section (ExportOut (build_export_section [] (ed_layout ed))) ed)\<lparr>ed_exports_done := True\<rparr> else ed
         | None \<Rightarrow> ed)
      else ed)"

definition edit_payload :: "'e Payload \<Rightarrow> 'e Edit \<Rightarrow> 'e Edit option" where
  "edit_payload p ed0 =
     (let layout = ed_layout ed0; ed = early_exports p ed0
      in case p of
           Bad \<Rightarrow> None
         | ImportSection imports \<Rightarrow>
             Some (emit_section (ImportOut (map strip_import imports)) (ed\<lparr>ed_layout := fold count_import imports (ed_layout ed)\<rparr>))
         | TableSection ts \<Rightarrow>
             Some (emit_section (TableOut (map (\<lambda>(t, init). (t\<lparr>tt_maximum := None\<rparr>, init)) ts)) (ed\<lparr>ed_layout := (ed_layout ed)\<lparr>n_table := n_table (ed_layout ed) + length ts\<rparr>\<rparr>))
         | MemorySection n d \<Rightarrow> Some (emit_section (RawSection 5 d) (ed\<lparr>ed_layout := (ed_layout ed)\<lparr>n_mem := n_mem (ed_layout ed) + n\<rparr>\<rparr>))
         | GlobalSection n d \<Rightarrow> Some (emit_section (RawSection 6 d) (ed\<lparr>ed_layout := (ed_layout ed)\<lparr>n_global := n_global (ed_layout ed) + n\<rparr>\<rparr>))
         | ExportSection es \<Rightarrow> Some ((emit_section (ExportOut (build_export_section es layout)) ed)\<lparr>ed_exports_done := True\<rparr>)
         | _ \<Rightarrow> (case passthrough_section p of Some (i, d) \<Rightarrow> Some (emit_section (RawSection i d) ed) | None \<Rightarrow> Some ed))"

fun edit_payloads :: "'e Payload list \<Rightarrow> 'e Edit \<Rightarrow> 'e Edit option" where
  "edit_payloads [] ed = Some ed"
| "edit_payloads (p # ps) ed = (case edit_payload p ed of None \<Rightarrow> None | Some ed \<Rightarrow> edit_payloads ps ed)"

definition edit_start :: "'e Edit" where
  "edit_start = \<lparr>ed_sections = [], ed_layout = \<lparr>n_mem = 0, n_table = 0, n_global = 0\<rparr>, ed_exports_done = False\<rparr>"

text \<open>\<open>None\<close> is an error of the parser.\<close>

definition add_item_exports :: "'e Payload list \<Rightarrow> ('e OutSection list \<times> ModuleLayout) option" where
  "add_item_exports ps = map_option (\<lambda>ed.
     (ed_sections (if \<not> ed_exports_done ed then emit_section (ExportOut (build_export_section [] (ed_layout ed))) ed else ed), ed_layout ed))
     (edit_payloads ps edit_start)"

section \<open>What the edited module exports\<close>

text \<open>The items of the module, its own exports, and the sections that must follow the exports.\<close>

definition count_items :: "'e Payload \<Rightarrow> ModuleLayout \<Rightarrow> ModuleLayout" where
  "count_items p l = (case p of
     ImportSection is \<Rightarrow> fold count_import is l | TableSection ts \<Rightarrow> l\<lparr>n_table := n_table l + length ts\<rparr> | MemorySection n _ \<Rightarrow> l\<lparr>n_mem := n_mem l + n\<rparr>
   | GlobalSection n _ \<Rightarrow> l\<lparr>n_global := n_global l + n\<rparr> | _ \<Rightarrow> l)"

definition items_of :: "'e Payload list \<Rightarrow> ModuleLayout" where
  "items_of ps = fold count_items ps \<lparr>n_mem = 0, n_table = 0, n_global = 0\<rparr>"

definition exports_of :: "'e Payload list \<Rightarrow> export list" where
  "exports_of ps = concat (map (\<lambda>p. case p of ExportSection es \<Rightarrow> es | _ \<Rightarrow> []) ps)"

definition is_late :: "'e Payload \<Rightarrow> bool" where
  "is_late p = (case passthrough_section p of Some (i, _) \<Rightarrow> i \<ge> 8 | None \<Rightarrow> False)"

definition is_item :: "'e Payload \<Rightarrow> bool" where
  "is_item p = (case p of ImportSection _ \<Rightarrow> True | TableSection _ \<Rightarrow> True | MemorySection _ _ \<Rightarrow> True | GlobalSection _ _ \<Rightarrow> True | _ \<Rightarrow> False)"

definition is_export_section :: "'e Payload \<Rightarrow> bool" where
  "is_export_section p = (case p of ExportSection _ \<Rightarrow> True | _ \<Rightarrow> False)"

definition export_sections :: "'e OutSection list \<Rightarrow> (string \<times> ExportKind \<times> nat) list list" where
  "export_sections ss = concat (map (\<lambda>s. case s of ExportOut es \<Rightarrow> [es] | _ \<Rightarrow> []) ss)"

definition growable :: "'e OutSection \<Rightarrow> bool" where
  "growable s = (case s of
     TableOut ts \<Rightarrow> \<forall>t\<in>set ts. tt_maximum (fst t) = None
   | ImportOut is \<Rightarrow> \<forall>i\<in>set is. (case imp_ty i of TRTable t \<Rightarrow> tt_maximum t = None | _ \<Rightarrow> True)
   | _ \<Rightarrow> True)"

lemma export_sections_append [simp]: "export_sections (as @ bs) = export_sections as @ export_sections bs"
  by (simp add: export_sections_def)

lemma export_sections_one [simp]: "export_sections [RawSection i d] = []" "export_sections [ImportOut is] = []" "export_sections [TableOut ts] = []"
  "export_sections [ExportOut es] = [es]" "export_sections [] = []"
  by (simp_all add: export_sections_def)

lemma exports_of_append: "exports_of (ps @ qs) = exports_of ps @ exports_of qs"
  by (simp add: exports_of_def)

lemma exports_of_one: "exports_of [ExportSection es] = es" "exports_of [] = []"
  by (simp_all add: exports_of_def)

lemma edit_payload_at:
  assumes "p \<noteq> Bad"
  shows "\<exists>ed'. edit_payload p ed = Some ed' \<and> ed_layout ed' = count_items p (ed_layout ed) \<and>
    ed_exports_done ed' = (ed_exports_done ed \<or> is_late p \<or> is_export_section p) \<and>
    export_sections (ed_sections ed') = export_sections (ed_sections ed) @
      (if is_late p \<and> \<not> ed_exports_done ed then [build_export_section [] (ed_layout ed)] else []) @
      (case p of ExportSection es \<Rightarrow> [build_export_section es (ed_layout ed)] | _ \<Rightarrow> []) \<and>
    ((\<forall>s\<in>set (ed_sections ed). growable s) \<longrightarrow> (\<forall>s\<in>set (ed_sections ed'). growable s))"
  using assms
  by (cases p) (auto simp: edit_payload_def early_exports_def emit_section_def passthrough_section_def count_items_def is_late_def is_export_section_def
      growable_def strip_import_def Let_def split: TypeRef.splits)

lemma edit_before:
  assumes "\<forall>p\<in>set ps. p \<noteq> Bad \<and> \<not> is_late p \<and> \<not> is_export_section p" "\<forall>s\<in>set (ed_sections ed). growable s"
  shows "\<exists>ed'. edit_payloads ps ed = Some ed' \<and> ed_layout ed' = fold count_items ps (ed_layout ed) \<and> ed_exports_done ed' = ed_exports_done ed \<and>
    export_sections (ed_sections ed') = export_sections (ed_sections ed) \<and> (\<forall>s\<in>set (ed_sections ed'). growable s)"
  using assms
proof (induction ps arbitrary: ed)
  case (Cons p ps)
  then have p: "p \<noteq> Bad" "\<not> is_late p" "\<not> is_export_section p" by simp_all
  obtain e1 where e1: "edit_payload p ed = Some e1" "ed_layout e1 = count_items p (ed_layout ed)" "ed_exports_done e1 = ed_exports_done ed"
    "export_sections (ed_sections e1) = export_sections (ed_sections ed)" "\<forall>s\<in>set (ed_sections e1). growable s"
    using edit_payload_at [OF p(1), of ed] p Cons.prems(2) by (auto simp: is_export_section_def split: Payload.splits)
  from Cons.IH [OF _ e1(5)] Cons.prems(1) e1 show ?case by simp
qed simp

lemma edit_after:
  assumes "\<forall>p\<in>set ps. p \<noteq> Bad \<and> \<not> is_item p \<and> \<not> is_export_section p" "\<forall>s\<in>set (ed_sections ed). growable s"
  shows "\<exists>ed'. edit_payloads ps ed = Some ed' \<and> ed_layout ed' = ed_layout ed \<and> (\<forall>s\<in>set (ed_sections ed'). growable s) \<and>
    (if ed_exports_done ed then ed_exports_done ed' \<and> export_sections (ed_sections ed') = export_sections (ed_sections ed)
     else export_sections (ed_sections ed') = export_sections (ed_sections ed) @ (if ed_exports_done ed' then [build_export_section [] (ed_layout ed)] else []))"
  using assms
proof (induction ps arbitrary: ed)
  case (Cons p ps)
  then have p: "p \<noteq> Bad" "\<not> is_item p" "\<not> is_export_section p" by simp_all
  have same: "count_items p l = l" for l using p(2) by (cases p) (simp_all add: is_item_def count_items_def)
  obtain e1 where e1: "edit_payload p ed = Some e1" "ed_layout e1 = ed_layout ed" "ed_exports_done e1 = (ed_exports_done ed \<or> is_late p)"
    "export_sections (ed_sections e1) = export_sections (ed_sections ed) @ (if is_late p \<and> \<not> ed_exports_done ed then [build_export_section [] (ed_layout ed)] else [])"
    "\<forall>s\<in>set (ed_sections e1). growable s"
    using edit_payload_at [OF p(1), of ed] p Cons.prems(2) same by (auto simp: is_export_section_def split: Payload.splits)
  from Cons.IH [OF _ e1(5)] Cons.prems(1) e1 show ?case by (auto split: if_splits)
qed simp

lemma edit_payloads_append: "edit_payloads (ps @ qs) ed = Option.bind (edit_payloads ps ed) (edit_payloads qs)"
  by (induction ps arbitrary: ed) (auto split: option.splits)

lemma edit_complete:
  assumes pre: "\<forall>p\<in>set pre. p \<noteq> Bad \<and> \<not> is_late p \<and> \<not> is_export_section p" and mid: "mid = [] \<or> mid = [ExportSection es]"
    and post: "\<forall>p\<in>set post. p \<noteq> Bad \<and> \<not> is_item p \<and> \<not> is_export_section p"
  shows "\<exists>ss. add_item_exports (pre @ mid @ post) = Some (ss, items_of (pre @ mid @ post)) \<and>
    export_sections ss = [build_export_section (exports_of (pre @ mid @ post)) (items_of (pre @ mid @ post))] \<and> (\<forall>s\<in>set ss. growable s)"
proof -
  have none: "exports_of ps = []" if "\<forall>p\<in>set ps. \<not> is_export_section p" for ps :: "'e Payload list"
    using that by (induction ps) (auto simp: exports_of_def is_export_section_def split: Payload.splits)
  have ex: "exports_of (pre @ mid @ post) = (if mid = [] then [] else es)"
    using none [of pre] none [of post] pre post mid by (auto simp: exports_of_append exports_of_one)
  have skip: "fold count_items post l = l" for l using post by (induction post) (auto simp: count_items_def is_item_def split: Payload.splits)
  have "fold count_items mid l = l" for l using mid by (auto simp: count_items_def)
  then have items: "items_of (pre @ mid @ post) = items_of pre" using skip by (simp add: items_of_def)
  obtain e1 where e1: "edit_payloads pre edit_start = Some e1" "ed_layout e1 = items_of pre" "\<not> ed_exports_done e1" "export_sections (ed_sections e1) = []"
    "\<forall>s\<in>set (ed_sections e1). growable s"
    using edit_before [OF pre, of edit_start] by (auto simp: edit_start_def items_of_def)
  obtain e2 where e2: "edit_payloads mid e1 = Some e2" "ed_layout e2 = items_of pre" "ed_exports_done e2 = (mid \<noteq> [])"
    "export_sections (ed_sections e2) = (if mid = [] then [] else [build_export_section es (items_of pre)])" "\<forall>s\<in>set (ed_sections e2). growable s"
    using mid e1(2-5) edit_payload_at [of "ExportSection es" e1] by (auto simp: is_late_def is_export_section_def passthrough_section_def count_items_def)
  obtain e3 where e3: "edit_payloads post e2 = Some e3" "ed_layout e3 = items_of pre" "\<forall>s\<in>set (ed_sections e3). growable s"
    "if ed_exports_done e2 then ed_exports_done e3 \<and> export_sections (ed_sections e3) = export_sections (ed_sections e2)
     else export_sections (ed_sections e3) = export_sections (ed_sections e2) @ (if ed_exports_done e3 then [build_export_section [] (items_of pre)] else [])"
    using edit_after [OF post e2(5)] e2(2) by auto
  have "edit_payloads (pre @ mid @ post) edit_start = Some e3" using e1(1) e2(1) e3(1) by (simp add: edit_payloads_append)
  then show ?thesis using e3 e2 ex items by (auto simp: add_item_exports_def emit_section_def growable_def)
qed

text \<open>C23. 
  When the sections come in the order of the format and no tag section comes before the globals, the edited module has exactly one
  export section: the module's own exports and one synthetic export for each of its memories, tables and globals; and no table
  keeps a maximum.
\<close>

theorem exports_complete:
  assumes "ps = pre @ mid @ post" "\<forall>p\<in>set pre. p \<noteq> Bad \<and> \<not> is_late p \<and> \<not> is_export_section p" "mid = [] \<or> mid = [ExportSection es]"
    and "\<forall>p\<in>set post. p \<noteq> Bad \<and> \<not> is_item p \<and> \<not> is_export_section p"
  shows "\<exists>ss. add_item_exports ps = Some (ss, items_of ps) \<and> export_sections ss = [build_export_section (exports_of ps) (items_of ps)] \<and> (\<forall>s\<in>set ss. growable s)"
  unfolding assms(1) by (rule edit_complete [OF assms(2-4)])

definition demo_module :: "unit Payload list" where
  "demo_module = [TypeSection [], ImportSection [\<lparr>imp_module = ''m'', imp_name = ''t'', imp_ty = TRTable \<lparr>tt_element = (), tt_minimum = 1, tt_maximum = Some 2\<rparr>\<rparr>],
     MemorySection 1 [], GlobalSection 2 [], ExportSection [(''f'', EFunc, 0)], CodeSectionStart [], NoSection]"

theorem exports_complete_witness:
  "\<exists>ss. add_item_exports demo_module = Some (ss, \<lparr>n_mem = 1, n_table = 1, n_global = 2\<rparr>) \<and> (\<forall>s\<in>set ss. growable s)"
proof -
  have s: "demo_module = take 4 demo_module @ [ExportSection [(''f'', EFunc, 0)]] @ drop 5 demo_module" by (simp add: demo_module_def)
  have "items_of demo_module = \<lparr>n_mem = 1, n_table = 1, n_global = 2\<rparr>" by (simp add: demo_module_def items_of_def count_items_def count_import_def)
  moreover have "\<forall>p\<in>set (take 4 demo_module). p \<noteq> Bad \<and> \<not> is_late p \<and> \<not> is_export_section p" "\<forall>p\<in>set (drop 5 demo_module). p \<noteq> Bad \<and> \<not> is_item p \<and> \<not> is_export_section p"
    by (simp_all add: demo_module_def is_late_def is_export_section_def is_item_def passthrough_section_def)
  ultimately show ?thesis using exports_complete [OF s] by auto
qed

text \<open>
  A tag section, whose place is between the memories and the globals but whose id is past 8, makes the pass write the export section too
  early: it lacks the globals, and the module's own export section becomes a second one.
\<close>

lemma tag_section_splits_exports:
  "map_option (map length \<circ> export_sections \<circ> fst) (add_item_exports [MemorySection 1 [], TagSection [], GlobalSection 2 [], ExportSection [(''f'', EFunc, 0)]]) = Some [1, 4]"
  by (simp add: add_item_exports_def edit_start_def edit_payload_def early_exports_def emit_section_def passthrough_section_def build_export_section_def
      synthetic_def Let_def export_sections_def)

end
