(* ===== verification/Spec2Isabelle.thy ===== *)
theory Spec2Isabelle
  imports Types Engine_Raise Effects Cfg_Exact Live_Exact Bytecode_Visit Predict_Bound Image Live_Walk Effect_Emit Layout_Keys Regex_Decode Mod_Edit
begin

text \<open>
  NightMonkey compiles the JavaScript of a SpiderMonkey snapshot ahead of time to WebAssembly. The host binary snapshots the
  runtime with the loaded program (\<^verbatim>\<open>nightmonkey\<close>), the snapshot crate reads scripts and heap objects out of the linear
  memory into a \<open>Source\<close> (\<^verbatim>\<open>snapshot\<close>), an optimistic whole-program analysis predicts types (\<^verbatim>\<open>compiler/src/likelier\<close>), and a
  code generator turns the bytecode and the predictions into guarded bodies (\<^verbatim>\<open>compiler/src/wasm\<close>). The development models
  the parts that decide: the readers of the snapshot, the lattices and fixpoints of the analysis, the summaries and layouts it emits, and the
  graph, liveness, context lattice and predictions of the code generator. The emitted code itself is not modelled.

  \<^bold>\<open>Shared.\<close> \<open>NM_Prelude\<close> has the machine integers (a release build's wrap-around on \<^typ>\<open>int\<close>), sorted-vector searches and generic lemmas.
  \<open>Ids\<close> (\<^verbatim>\<open>compiler/src/ids.rs\<close>) and \<open>Facts\<close> (\<^verbatim>\<open>facts.rs\<close>) have the identifiers, the name table, claims and effect summaries.

  \<^bold>\<open>Value domains.\<close> \<open>Opsem\<close> and \<open>Intervals\<close> (\<^verbatim>\<open>opsem.rs\<close>) model the primitive classes, the result algebra of the operators and the integer
  intervals with their widening ladders: results are monotone and agree with the reference transfer, interval addition,
  subtraction and negation are exact over the numbers they admit, the other operators sound. \<open>Types\<close> (\<^verbatim>\<open>likelier/types.rs\<close>) models callable sets, object parts and typesets with their joins, claims and
  agreement tables: joins do not depend on their order as long as no cap collapses, and chains of joins are bounded.

  \<^bold>\<open>Solving.\<close> \<open>Engine\<close> (\<^verbatim>\<open>likelier/engine.rs\<close>) has cells, constraints, subscriptions, the class-region forest, \<open>raise\<close> and the
  worklist; \<open>Engine_Inv\<close> and \<open>Engine_Raise\<close> prove that \<open>raise\<close> ends, delivers its evidence, loses none, and queues every reader of
  a cell that changed, that merging regions keeps the forest and moves the losing region only, and that over any sequence of raises a cell changes boundedly often. The evaluators of call and property constraints are parameters.
  Some lemmas show where \<open>raise\<close> departs from what it means to do (a nested update lost, a flag dropped).

  \<^bold>\<open>Effect summaries.\<close> \<open>Builtins\<close> (\<^verbatim>\<open>likelier/builtins.rs\<close>) has the tables of natives and the native id table. \<open>Script_Effects\<close> (\<^verbatim>\<open>likelier/effects.rs\<close>) has the
  local walk over a script's ops, the call edges and the worklist over the call graph, a partial function whose \<open>None\<close> is a run that never
  ends. The loop compares lists, so it is not a plain fixpoint: \<open>Effect_Merge\<close>, \<open>Effect_Join\<close> and \<open>Effect_Order\<close> describe a join as a merge of
  lists with an order of its own, \<open>Effect_Settle\<close> shows that a recomputed script settles while the scripts below it on the stack are frozen,
  and \<open>Effect_Fix\<close> concludes that the loop returns on every call graph with exactly the writes of the scripts reached.
  The laws are proved once in the locale \<open>call_graph\<close> and used through its interpretation on any list of scripts.
  \<open>Effect_Emit\<close> puts walk, edges and fixpoint together: a summary that is not saturated accounts for every op it can reach.

  \<^bold>\<open>Layouts.\<close> \<open>Layout\<close>, \<open>Layout_Plan\<close> and \<open>Layout_Keys\<close> (\<^verbatim>\<open>likelier/emit.rs\<close>) model constructor rows with their delegates spliced in, the fold of rows, the keys
  and the range tables: the fold is the longest common prefix, a claim over a range holds for every key in it, key
  ranges are dense and disjoint, groups of a region are adjacent. The solver's answers are the record \<open>PlanEnv\<close>.
  The recursion over delegates is bounded by the depth cap, counted down.

  \<^bold>\<open>Bytecode.\<close> \<open>Bytecode\<close> (\<^verbatim>\<open>bytecode.rs\<close>) has the operand readers, the operand layout of every op and the visit with its try notes;
  \<open>Bytecode_Visit\<close> shows that the visit tiles the code, decodes what an assembler encodes and surfaces every note once. The
  generated table of opcodes is the parameter \<open>JSOps\<close>.

  \<^bold>\<open>Code generator.\<close> \<open>Flow\<close> is the control flow of one op. \<open>Cfg\<close> (\<^verbatim>\<open>wasm/bbv/cfg.rs\<close>) cuts blocks, links them and finds dominators and loops; \<open>Cfg_Dom\<close>,
  \<open>Cfg_Loops\<close> and \<open>Cfg_Exact\<close> prove dominance and natural loops exact, depths modulo the width of their counter, and the blocks a partition. \<open>Live\<close> (\<^verbatim>\<open>wasm/bbv/live.rs\<close>) is the slot liveness on rows of
  64-bit words; \<open>Live_Exact\<close> proves it exact over paths. \<open>Ctx\<close> and \<open>Operand\<close> (\<^verbatim>\<open>wasm/bbv/ctx.rs\<close>, \<^verbatim>\<open>abi.rs\<close>, \<^verbatim>\<open>view.rs\<close>) have slot facts, contexts and
  operands; \<open>Ctx_Slots\<close> and \<open>Ctx_Order\<close> prove implication, joins and meets sound for the values a slot may hold, and the test that strict equality may compare bits sound on modeled types. \<open>Predict\<close> (\<^verbatim>\<open>wasm/bbv/predict.rs\<close>) is the
  table of predictions; \<open>Predict_Bound\<close> shows that a prediction covers every arrival and moves boundedly often.
  \<open>Effects\<close> (\<^verbatim>\<open>wasm/effects.rs\<close>) is the table of runtime-helper effects.

  \<open>Regex_Decode\<close> (\<^verbatim>\<open>wasm/regex.rs\<close>) is the decoding pass over the bytecode of a regular expression: it never panics, and on success the instructions tile the code, every
  label is a leader on an instruction boundary and the backtrack labels are numbered densely.

  \<^bold>\<open>Snapshot.\<close> \<open>Bytes\<close> has byte strings and little-endian words. \<open>Image\<close> (\<^verbatim>\<open>nightmonkey/src/image.rs\<close>) builds the memory image and writes it back as segments: a
  round trip, with ordered, bounded segments. \<open>Strip\<close> (\<^verbatim>\<open>strip.rs\<close>) drops name and debug sections, and in a release build loops or panics on a
  size that wraps. \<open>Snapshot\<close> and \<open>Snapshot_Tables\<close> (\<^verbatim>\<open>snapshot/src/mem.rs\<close>, \<^verbatim>\<open>layout.rs\<close>, \<^verbatim>\<open>registration.rs\<close>) read the registration block and its tables, which read
  back what the engine serialized; on wasm32 a length that wraps makes a reader panic. \<open>Source\<close> (\<^verbatim>\<open>compiler/src/source.rs\<close>) is the object graph. \<open>Walker\<close> and \<open>Walker_Inv\<close> (\<^verbatim>\<open>snapshot/src/walker.rs\<close>) walk the heap: the walk
  ends on every memory below 4 GiB and returns a closed graph. \<open>Live_Walk\<close> (\<^verbatim>\<open>snapshot/src/ffi.rs\<close>) is the walk of the running instance, which serves its roots behind a handle.
  \<open>Mod_Edit\<close> (\<^verbatim>\<open>wasm-jit-runner/src/modedit.rs\<close>) edits the guest module for the runner: every memory, table and global is exported once, unless a tag section comes
  first.

  \<^bold>\<open>Conventions.\<close> Records and datatypes follow the structs and enums, one definition per operation. Errors are \<open>Inl\<close> values, panics are \<open>None\<close>; loops that
  might not end are partial functions, and their theorems say that they return. Integers keep their width where they can wrap;
  \<open>usize\<close> is 64 bits in the host tools and 32 bits in the live walk; the table readers take its range as an argument. Running out of memory is not modelled. Keys and counters that a cap or an arena of at most \<open>2 ^ 32\<close> objects bounds are natural
  numbers. Hash maps are maps; where their iteration order could matter it is an argument. Fuel is used nowhere.

  \<^bold>\<open>Not modelled.\<close> The translator and the block-versioning emitter (\<^verbatim>\<open>wasm/translate.rs\<close>, \<^verbatim>\<open>wasm/mod.rs\<close>, most of \<^verbatim>\<open>wasm/bbv\<close>), the code the regular-expression
  translator emits, and the passes on bodies build and rewrite the intermediate representation of the waffle crate, whose definition and semantics are
  not part of the sources; the rest of \<^verbatim>\<open>wasm-jit-runner\<close> and \<^verbatim>\<open>nightmonkey/src/main.rs\<close> likewise drive wasmtime, wasmparser, wasm-encoder and Wizer. The
  abstract heap, the constraint scan, the call evaluator and the rest of the emission (\<^verbatim>\<open>likelier/heap.rs\<close>, \<^verbatim>\<open>scan.rs\<close>, \<^verbatim>\<open>calls.rs\<close>, \<^verbatim>\<open>mod.rs\<close>, part of \<^verbatim>\<open>emit.rs\<close>) are left to
  later work: the models above take their answers as arguments. Printers, statistics, FFI marshalling, options, generated code, the C++
  runtime and the tools are glue.
\<close>

end
